(* ===== verification/Prelude.thy ===== *)
theory Prelude
  imports Main "HOL-Library.Word"
begin

text \<open>
  The shared vocabulary of the development: the machine integer types of \<open>src/Config.h\<close>, byte
  sequences, little-endian layout of integers in memory (the target of \<open>Config.h\<close> is
  \<open>SYSTEM_ENDIAN_LITTLE\<close>), subtraction on \<open>size_t\<close>, and the generic facts on words and lists that
  the component theories use through the collections \<open>word_split\<close> and \<open>le_simps\<close>.
\<close>

unbundle bit_operations_syntax

section \<open>Integer types and byte sequences\<close>

text \<open>
  \<open>UInt8\<close> to \<open>UInt64\<close> of \<open>Config.h\<close> are words; the signed types are the same words read by
  \<^const>\<open>sint\<close> (two's complement).
\<close>

type_synonym UInt8 = "8 word"
type_synonym UInt16 = "16 word"
type_synonym UInt32 = "32 word"
type_synonym UInt64 = "64 word"
type_synonym Int8 = "8 word"
type_synonym Int16 = "16 word"
type_synonym Int32 = "32 word"
type_synonym Int64 = "64 word"
type_synonym bytes = "UInt8 list"

named_theorems word_split \<open>splitting a word into its low bits and the rest\<close>
named_theorems le_simps \<open>little-endian byte layout of integers\<close>

section \<open>Words\<close>

lemma and_7F_take_bit [word_split]: "w AND 0x7F = take_bit 7 (w :: 'a::len word)"
proof -
  have "mask 7 = (0x7F :: 'a word)" by (simp add: mask_eq_exp_minus_1)
  then show ?thesis by (metis take_bit_eq_mask)
qed

lemma take_7_plus_push_drop [word_split]:
  "take_bit 7 w + push_bit 7 (drop_bit 7 w) = (w :: 'a::len word)"
  by (metis add.commute bits_ident)

lemma unat_drop_bit_div: "unat (drop_bit n w) = unat (w :: 'a::len word) div 2 ^ n"
  by (simp only: unat_drop_bit_eq) (simp only: drop_bit_eq_div)

lemma unat_take_bit_mod: "unat (take_bit n w) = unat (w :: 'a::len word) mod 2 ^ n"
  by (simp only: unsigned_take_bit_eq) (simp only: take_bit_eq_mod)

lemma unat_lt_exp: "unat (w :: 'a::len word) < 2 ^ LENGTH('a)"
  by (rule unsigned_less)

lemma or_top_bit:
  assumes "LENGTH('a) = Suc k"
  shows "(x :: 'a::len word) OR 2 ^ k = take_bit k x + 2 ^ k"
proof -
  have "x OR 2 ^ k = take_bit k x OR 2 ^ k"
    by (rule bit_word_eqI) (auto simp: bit_simps assms)
  also have "\<dots> = take_bit k x + 2 ^ k"
    by (rule disjunctive_add [symmetric]) (auto simp: bit_simps)
  finally show ?thesis .
qed

lemma take_bit_of_nat_mod: "take_bit k (x :: 'a::len word) = word_of_nat (unat x mod 2 ^ k)"
proof -
  have "unat x mod 2 ^ k < 2 ^ LENGTH('a)"
    by (rule le_less_trans [OF mod_less_eq_dividend unat_lt_exp])
  then show ?thesis by (simp add: word_unat_eq_iff unat_of_nat unat_take_bit_mod)
qed

lemma ucast_eq_of_nat: "(ucast (w :: 'a::len word) :: 'b::len word) = word_of_nat (unat w)"
  by (simp add: word_unat_eq_iff unsigned_ucast_eq unat_of_nat take_bit_eq_mod)

section \<open>Little-endian layout\<close>

definition le16 :: "UInt16 \<Rightarrow> bytes" where
  "le16 w = [ucast w, ucast (drop_bit 8 w)]"

definition le32 :: "UInt32 \<Rightarrow> bytes" where
  "le32 w = [ucast w, ucast (drop_bit 8 w), ucast (drop_bit 16 w), ucast (drop_bit 24 w)]"

definition of_le16 :: "bytes \<Rightarrow> UInt16" where
  "of_le16 bs = ucast (bs ! 0) OR push_bit 8 (ucast (bs ! 1))"

definition of_le32 :: "bytes \<Rightarrow> UInt32" where
  "of_le32 bs = ucast (bs ! 0) OR push_bit 8 (ucast (bs ! 1))
     OR push_bit 16 (ucast (bs ! 2)) OR push_bit 24 (ucast (bs ! 3))"

lemma length_le16 [simp]: "length (le16 w) = 2"
  by (simp add: le16_def)

lemma length_le32 [simp]: "length (le32 w) = 4"
  by (simp add: le32_def)

lemma of_le16_le16 [le_simps]: "of_le16 (le16 w @ rest) = w"
  by (rule bit_word_eqI)
    (auto simp: of_le16_def le16_def bit_simps)

lemma of_le32_le32 [le_simps]: "of_le32 (le32 w @ rest) = w"
proof (rule bit_word_eqI)
  fix n assume "n < LENGTH(32)"
  then consider "n < 8" | "8 \<le> n" "n < 16" | "16 \<le> n" "n < 24" | "24 \<le> n" "n < 32"
    by fastforce
  then show "bit (of_le32 (le32 w @ rest)) n = bit w n"
    by cases (auto simp: of_le32_def le32_def bit_simps)
qed

lemma le32_of_le32: "length bs = 4 \<Longrightarrow> le32 (of_le32 bs) = bs"
proof -
  have *: "ucast (of_le32 [a, b, c, d]) = a \<and> ucast (drop_bit 8 (of_le32 [a, b, c, d])) = b
      \<and> ucast (drop_bit 16 (of_le32 [a, b, c, d])) = c \<and> ucast (drop_bit 24 (of_le32 [a, b, c, d])) = d" for a b c d
    by (intro conjI; rule bit_word_eqI) (auto simp: of_le32_def bit_simps dest: bit_imp_le_length)
  assume "length bs = 4"
  then obtain a b c d where "bs = [a, b, c, d]" by (auto simp: numeral_eq_Suc length_Suc_conv)
  with * show ?thesis by (simp add: le32_def)
qed

definition le64 :: "UInt64 \<Rightarrow> bytes" where
  "le64 w = le32 (ucast w) @ le32 (ucast (drop_bit 32 w))"

definition of_le64 :: "bytes \<Rightarrow> UInt64" where
  "of_le64 bs = ucast (of_le32 bs) OR push_bit 32 (ucast (of_le32 (drop 4 bs)))"

lemma length_le64 [simp]: "length (le64 w) = 8"
  by (simp add: le64_def)

lemma of_le64_le64 [le_simps]: "of_le64 (le64 w @ rest) = w"
proof -
  have "drop 4 (le64 w @ rest) = le32 (ucast (drop_bit 32 w)) @ rest"
    by (simp add: le64_def)
  moreover have "ucast (ucast w :: UInt32) OR push_bit 32 (ucast (ucast (drop_bit 32 w) :: UInt32)) = w"
    by (rule bit_word_eqI) (auto simp: bit_simps)
  ultimately show ?thesis
    by (simp add: of_le64_def le64_def of_le32_le32)
qed

section \<open>Subtraction on size_t\<close>

text \<open>
  A \<open>size_t\<close> is a natural number below \<open>2 ^ 64\<close>; the one operation that can leave that range in
  the sources is subtraction, which wraps around.
\<close>

definition size_sub :: "nat \<Rightarrow> nat \<Rightarrow> nat" where
  "size_sub a b = (if b \<le> a then a - b else 2 ^ 64 + a - b)"

lemma size_sub_le [simp]: "b \<le> a \<Longrightarrow> size_sub a b = a - b"
  by (simp add: size_sub_def)

section \<open>Lists\<close>

lemma drop_append_length [simp]: "drop (length xs) (xs @ ys) = ys"
  by simp

lemma nth_append_right: "length xs = n \<Longrightarrow> (xs @ y # ys) ! n = y"
  by auto

lemma tl_dropWhile_less: "xs \<noteq> [] \<Longrightarrow> length (tl (dropWhile P xs)) < length xs"
  using length_dropWhile_le [of P xs] by (cases xs) auto

text \<open>Scanning a component \<open>d\<close> up to the separator \<open>sep\<close>, or up to the end of the text.\<close>

lemma span_component:
  assumes "\<forall>c\<in>set d. P c" "\<not> P sep"
  shows "takeWhile P (d @ sep # rest) = d" "dropWhile P (d @ sep # rest) = sep # rest"
  using assms by (auto simp: takeWhile_append2 dropWhile_append2)

lemma span_name: "\<forall>c\<in>set d. P c \<Longrightarrow> takeWhile P d = d \<and> dropWhile P d = []"
  by (simp add: takeWhile_eq_all_conv dropWhile_eq_Nil_conv)

end
