(* ===== verification/Ssu_Varint.thy ===== *)
theory Ssu_Varint
  imports Prelude
begin

text \<open>
  The integer layer of \<open>src/Ssu/SsuUtils.h\<close>: the sizes of the variable-length integers, their
  packing and unpacking, and the zigzag coding of signed values. A pack function takes the bytes
  written so far and returns them extended (the C++ writes through \<open>buf\<close> and returns the advanced
  pointer). An unpack function takes a cursor: the memory that can be read from \<open>buf\<close> on and the
  number of bytes \<open>leftSize\<close> the caller says is left. The two are kept apart because some callers
  pass a \<open>leftSize\<close> that is larger than the memory behind it. The outcome \<open>Undef\<close> stands for
  behaviour the language leaves undefined (reading outside the memory, shifting by the width or
  more), \<open>Fail\<close> for the return value \<open>false\<close> with the cursor left behind.
\<close>

section \<open>Cursors and outcomes\<close>

record cursor =
  buf :: bytes
  leftSize :: nat

datatype 'a unpacked = Undef | Fail cursor | Ok 'a cursor

definition cursor_ok :: "cursor \<Rightarrow> bool" where
  "cursor_ok c \<longleftrightarrow> leftSize c \<le> length (buf c)"

text \<open>Sequencing: what the C++ writes as \<open>if(!f(...)) return false;\<close> followed by more code.\<close>

fun and_then :: "'a unpacked \<Rightarrow> ('a \<Rightarrow> cursor \<Rightarrow> 'b unpacked) \<Rightarrow> 'b unpacked" where
  "and_then Undef f = Undef"
| "and_then (Fail c) f = Fail c"
| "and_then (Ok x c) f = f x c"

section \<open>Zigzag coding\<close>

definition zzEncode32 :: "Int32 \<Rightarrow> UInt32" where
  "zzEncode32 n = push_bit 1 n XOR signed_drop_bit 31 n"

definition zzDecode32 :: "UInt32 \<Rightarrow> Int32" where
  "zzDecode32 n = drop_bit 1 n XOR (- (n AND 1))"

definition zzEncode64 :: "Int64 \<Rightarrow> UInt64" where
  "zzEncode64 n = push_bit 1 n XOR signed_drop_bit 63 n"

definition zzDecode64 :: "UInt64 \<Rightarrow> Int64" where
  "zzDecode64 n = drop_bit 1 n XOR (- (n AND 1))"

section \<open>Sizes\<close>

definition sizeUInt32 :: "UInt32 \<Rightarrow> nat" where
  "sizeUInt32 val =
     (if val < 2 ^ 14 then (if val < 2 ^ 7 then 1 else 2)
      else if val < 2 ^ 21 then 3
      else if val < 2 ^ 28 then 4 else 5)"

definition sizeUInt64 :: "UInt64 \<Rightarrow> nat" where
  "sizeUInt64 val =
     (if val < 2 ^ 28
      then (if val < 2 ^ 14 then (if val < 2 ^ 7 then 1 else 2)
            else (if val < 2 ^ 21 then 3 else 4))
      else (if val < 2 ^ 42 then (if val < 2 ^ 35 then 5 else 6)
            else (if val < 2 ^ 56 then (if val < 2 ^ 49 then 7 else 8)
                  else (if val < 2 ^ 63 then 9 else 10))))"

definition sizeInt32 :: "Int32 \<Rightarrow> nat" where
  "sizeInt32 val = (if sint val < 0 then sizeUInt64 (scast val) else sizeUInt32 val)"

definition sizeSInt32 :: "Int32 \<Rightarrow> nat" where
  "sizeSInt32 val = sizeUInt32 (zzEncode32 val)"

definition sizeEnum :: "UInt32 \<Rightarrow> nat" where
  "sizeEnum val = sizeUInt32 val"

definition sizeInt64 :: "Int64 \<Rightarrow> nat" where
  "sizeInt64 val = sizeUInt64 val"

definition sizeSInt64 :: "Int64 \<Rightarrow> nat" where
  "sizeSInt64 val = sizeUInt64 (zzEncode64 val)"

section \<open>Packing\<close>

text \<open>
  \<open>packUInt32\<close> and \<open>packUInt64\<close> have the same loop at two widths; \<open>packVarint\<close> is that loop.
\<close>

function packVarint :: "bytes \<Rightarrow> 'a::len word \<Rightarrow> bytes" where
  "packVarint bf val =
     (if 128 \<le> unat val then packVarint (bf @ [ucast val OR 0x80]) (drop_bit 7 val)
      else bf @ [ucast (val AND 0x7F)])"
  by pat_completeness auto
termination
  by (relation "measure (\<lambda>(bf, val). unat val)") (auto simp: unat_drop_bit_div)

declare packVarint.simps [simp del]

definition packUInt32 :: "bytes \<Rightarrow> UInt32 \<Rightarrow> bytes" where
  "packUInt32 bf val = packVarint bf val"

definition packUInt64 :: "bytes \<Rightarrow> UInt64 \<Rightarrow> bytes" where
  "packUInt64 bf val = packVarint bf val"

definition packInt32 :: "bytes \<Rightarrow> Int32 \<Rightarrow> bytes" where
  "packInt32 bf val = (if sint val < 0 then packUInt64 bf (scast val) else packUInt32 bf val)"

definition packSInt32 :: "bytes \<Rightarrow> Int32 \<Rightarrow> bytes" where
  "packSInt32 bf val = packUInt32 bf (zzEncode32 val)"

definition packEnum :: "bytes \<Rightarrow> UInt32 \<Rightarrow> bytes" where
  "packEnum bf val = packUInt32 bf val"

definition packInt64 :: "bytes \<Rightarrow> Int64 \<Rightarrow> bytes" where
  "packInt64 bf val = packUInt64 bf val"

definition packSInt64 :: "bytes \<Rightarrow> Int64 \<Rightarrow> bytes" where
  "packSInt64 bf val = packUInt64 bf (zzEncode64 val)"

section \<open>Unpacking\<close>

text \<open>
  The loop of \<open>unpackUInt32\<close> and \<open>unpackUInt64\<close>: the byte under \<open>buf\<close> has been added to \<open>val\<close>
  already; while its high bit is set, the next byte is shifted in by \<open>shiftn\<close>.
\<close>

fun unpackVarint_loop :: "nat \<Rightarrow> 'a::len word \<Rightarrow> bytes \<Rightarrow> nat \<Rightarrow> 'a word unpacked" where
  "unpackVarint_loop shiftn val [] ls = Undef"
| "unpackVarint_loop shiftn val (b # bs) ls =
     (if 128 \<le> b then
        (if ls - 1 = 0 then Fail \<lparr>buf = bs, leftSize = 0\<rparr>
         else case bs of [] \<Rightarrow> Undef
              | b' # _ \<Rightarrow>
                  (if LENGTH('a) \<le> shiftn then Undef
                   else unpackVarint_loop (shiftn + 7)
                          (val + push_bit shiftn (ucast (b' AND 0x7F))) bs (ls - 1)))
      else Ok val \<lparr>buf = bs, leftSize = ls - 1\<rparr>)"

definition unpackVarint :: "cursor \<Rightarrow> 'a::len word unpacked" where
  "unpackVarint c =
     (if leftSize c = 0 then Fail c
      else case buf c of [] \<Rightarrow> Undef
           | b # _ \<Rightarrow> unpackVarint_loop 7 (ucast (b AND 0x7F)) (buf c) (leftSize c))"

definition unpackUInt32 :: "cursor \<Rightarrow> UInt32 unpacked" where
  "unpackUInt32 c = unpackVarint c"

definition unpackUInt64 :: "cursor \<Rightarrow> UInt64 unpacked" where
  "unpackUInt64 c = unpackVarint c"

definition unpackInt32 :: "cursor \<Rightarrow> Int32 unpacked" where
  "unpackInt32 c = and_then (unpackUInt64 c) (\<lambda>n c'. Ok (ucast n) c')"

definition unpackSInt32 :: "cursor \<Rightarrow> Int32 unpacked" where
  "unpackSInt32 c = and_then (unpackUInt32 c) (\<lambda>n c'. Ok (zzDecode32 n) c')"

definition unpackEnum :: "cursor \<Rightarrow> UInt32 unpacked" where
  "unpackEnum c = and_then (unpackUInt32 c) (\<lambda>n c'. Ok n c')"

definition unpackInt64 :: "cursor \<Rightarrow> Int64 unpacked" where
  "unpackInt64 c = unpackUInt64 c"

definition unpackSInt64 :: "cursor \<Rightarrow> Int64 unpacked" where
  "unpackSInt64 c = and_then (unpackUInt64 c) (\<lambda>n c'. Ok (zzDecode64 n) c')"

section \<open>Reference coding\<close>

text \<open>
  The base-128 representation the two loops implement, on natural numbers: seven bits per byte,
  least significant group first, the high bit set on every byte but the last.
\<close>

fun varint_bytes :: "nat \<Rightarrow> bytes" where
  "varint_bytes n =
     (if 128 \<le> n then word_of_nat (n mod 128 + 128) # varint_bytes (n div 128)
      else [word_of_nat n])"

declare varint_bytes.simps [simp del]

text \<open>\<open>advanced k c c'\<close>: the cursor has moved \<open>k\<close> bytes ahead, inside what was left.\<close>

definition advanced :: "nat \<Rightarrow> cursor \<Rightarrow> cursor \<Rightarrow> bool" where
  "advanced k c c' \<longleftrightarrow> k \<le> leftSize c \<and> buf c' = drop k (buf c) \<and> leftSize c' = leftSize c - k"

section \<open>Packing computes the reference coding\<close>

lemma byte_or_80: "(x :: UInt8) OR 0x80 = word_of_nat (unat x mod 128 + 128)"
  using or_top_bit [where 'a = 8 and k = 7 and x = x] by (simp add: take_bit_of_nat_mod)

lemma unat_byte_cont: "unat (word_of_nat (n mod 128 + 128) :: UInt8) = n mod 128 + 128"
  by (subst unat_of_nat) simp

lemma unat_byte_last: "n < 128 \<Longrightarrow> unat (word_of_nat n :: UInt8) = n"
  by (subst unat_of_nat) simp

lemma unat_ucast_mod_128: "unat (ucast (v :: 'a::len word) :: UInt8) mod 128 = unat v mod 128"
  by (simp add: unsigned_ucast_eq take_bit_eq_mod mod_mod_cancel)

lemma ucast_or_80:
  "(ucast (v :: 'a::len word) :: UInt8) OR 0x80 = word_of_nat (unat v mod 128 + 128)"
  by (simp add: byte_or_80 unat_ucast_mod_128)

lemma shift_recombine: "r * 2 ^ sh + q * 2 ^ (sh + 7) = (r + q * 128) * (2 :: nat) ^ sh"
  by (simp add: power_add algebra_simps)

lemma ucast_and_7F:
  "(ucast (v AND 0x7F) :: 'b::len word) = word_of_nat (unat (v :: 'a::len word) mod 128)"
  by (simp add: and_7F_take_bit ucast_eq_of_nat unat_take_bit_mod)

lemma packVarint_eq: "packVarint bf (v :: 'a::len word) = bf @ varint_bytes (unat v)"
proof (induction bf v rule: packVarint.induct)
  case (1 bf v)
  show ?case
  proof (cases "128 \<le> unat v")
    case True
    with 1 show ?thesis
      by (simp add: packVarint.simps [of bf v] varint_bytes.simps [of "unat v"]
          ucast_or_80 unat_drop_bit_div)
  next
    case False
    then show ?thesis
      by (simp add: packVarint.simps [of bf v] varint_bytes.simps [of "unat v"] ucast_and_7F)
  qed
qed

section \<open>Unpacking inverts it\<close>

lemma varint_bytes_head:
  obtains b bs where "varint_bytes n = b # bs" "unat b mod 128 = n mod 128"
proof (cases "128 \<le> n")
  case True
  then show ?thesis using that unat_byte_cont [of n] by (simp add: varint_bytes.simps [of n])
next
  case False
  then show ?thesis using that unat_byte_last [of n] by (simp add: varint_bytes.simps [of n])
qed

lemma unpackVarint_loop_more:
  "\<lbrakk>128 \<le> b; ls - 1 \<noteq> 0; shiftn < LENGTH('a)\<rbrakk> \<Longrightarrow>
     unpackVarint_loop shiftn (val :: 'a::len word) (b # b' # bs) ls =
     unpackVarint_loop (shiftn + 7) (val + push_bit shiftn (ucast (b' AND 0x7F))) (b' # bs) (ls - 1)"
  by simp

lemma unpackVarint_loop_bytes:
  assumes "n * 2 ^ sh < 2 ^ LENGTH('a)" and "length (varint_bytes n) \<le> ls"
  shows "unpackVarint_loop (sh + 7) (acc + word_of_nat ((n mod 128) * 2 ^ sh) :: 'a::len word)
           (varint_bytes n @ rest) ls
         = Ok (acc + word_of_nat (n * 2 ^ sh))
              \<lparr>buf = rest, leftSize = ls - length (varint_bytes n)\<rparr>"
  using assms
proof (induction n arbitrary: sh acc ls rule: varint_bytes.induct)
  case (1 n)
  show ?case
  proof (cases "128 \<le> n")
    case True
    obtain b bs where hd: "varint_bytes (n div 128) = b # bs" "unat b mod 128 = n div 128 mod 128"
      by (rule varint_bytes_head)
    have vb: "varint_bytes n = word_of_nat (n mod 128 + 128) # b # bs"
      using True hd by (simp add: varint_bytes.simps [of n])
    have "2 ^ (sh + 7) \<le> n * 2 ^ sh" using True by (simp add: power_add)
    also have "\<dots> < 2 ^ LENGTH('a)" by (rule "1.prems"(1))
    finally have shlt: "sh + 7 < LENGTH('a)" by simp
    have cont: "(128 :: UInt8) \<le> word_of_nat (n mod 128 + 128)"
      by (simp add: word_le_nat_alt unat_byte_cont del: of_nat_add)
    have le: "n div 128 * 2 ^ (sh + 7) < 2 ^ LENGTH('a)"
    proof -
      have "n div 128 * 2 ^ (sh + 7) = (n div 128 * 128) * 2 ^ sh" by (simp add: power_add)
      also have "\<dots> \<le> n * 2 ^ sh" by simp
      finally show ?thesis using "1.prems"(1) by simp
    qed
    have eq: "acc + word_of_nat (n mod 128 * 2 ^ sh) + word_of_nat (n div 128 * 2 ^ (sh + 7))
        = (acc + word_of_nat (n * 2 ^ sh) :: 'a word)"
    proof -
      have "n mod 128 * 2 ^ sh + n div 128 * 2 ^ (sh + 7) = n * 2 ^ sh"
        by (simp only: shift_recombine) simp
      then show ?thesis by (metis add.assoc of_nat_add)
    qed
    have ls: "ls - 1 \<noteq> 0" and ls': "length (varint_bytes (n div 128)) \<le> ls - 1"
      using "1.prems"(2) by (auto simp: vb hd)
    have b': "push_bit (sh + 7) (ucast (b AND 0x7F)) =
        (word_of_nat (n div 128 mod 128 * 2 ^ (sh + 7)) :: 'a word)"
      by (simp add: ucast_and_7F hd push_bit_eq_mult)
    note IH = "1.IH" [OF True le ls', of "acc + word_of_nat (n mod 128 * 2 ^ sh)"]
    have "ls - 1 - length (varint_bytes (n div 128)) = ls - length (varint_bytes n)"
      by (simp add: vb hd)
    with IH show ?thesis
      by (simp only: vb append_Cons unpackVarint_loop_more [OF cont ls shlt] b' eq hd)
  next
    case False
    have "\<not> (128 :: UInt8) \<le> word_of_nat n"
      using False by (simp add: word_le_nat_alt unat_byte_last)
    then show ?thesis using False by (simp add: varint_bytes.simps [of n])
  qed
qed


lemma unpackVarint_packed:
  assumes "n < 2 ^ LENGTH('a)" and "length (varint_bytes n) \<le> ls"
  shows "unpackVarint \<lparr>buf = varint_bytes n @ rest, leftSize = ls\<rparr>
         = Ok (word_of_nat n :: 'a::len word) \<lparr>buf = rest, leftSize = ls - length (varint_bytes n)\<rparr>"
proof -
  obtain b bs where hd: "varint_bytes n = b # bs" "unat b mod 128 = n mod 128"
    by (rule varint_bytes_head)
  have "ls \<noteq> 0" using assms(2) hd by auto
  moreover have "(ucast (b AND 0x7F) :: 'a word) = 0 + word_of_nat (n mod 128 * 2 ^ 0)"
    by (simp add: ucast_and_7F hd)
  ultimately have "unpackVarint \<lparr>buf = varint_bytes n @ rest, leftSize = ls\<rparr> =
      unpackVarint_loop (0 + 7) (0 + word_of_nat (n mod 128 * 2 ^ 0) :: 'a word) (varint_bytes n @ rest) ls"
    by (simp add: unpackVarint_def hd del: unpackVarint_loop.simps)
  also have "\<dots> = Ok (0 + word_of_nat (n * 2 ^ 0)) \<lparr>buf = rest, leftSize = ls - length (varint_bytes n)\<rparr>"
    by (rule unpackVarint_loop_bytes) (use assms in auto)
  finally show ?thesis by simp
qed

section \<open>The size functions count the bytes written\<close>

lemma length_varint_bytes_Suc:
  "128 ^ k \<le> n \<Longrightarrow> n < 128 ^ Suc k \<Longrightarrow> length (varint_bytes n) = Suc k"
proof (induction k arbitrary: n)
  case 0
  then show ?case by (simp add: varint_bytes.simps [of n])
next
  case (Suc k)
  have "128 ^ k \<le> n div 128" "n div 128 < 128 ^ Suc k"
    using Suc.prems by (auto simp: less_eq_div_iff_mult_less_eq div_less_iff_less_mult mult.commute)
  then have "length (varint_bytes (n div 128)) = Suc k" by (rule Suc.IH)
  moreover have "128 \<le> n"
    using Suc.prems(1) by (metis le_trans one_le_numeral power_increasing power_one_right le_add1 Suc_eq_plus1_left)
  ultimately show ?case by (simp add: varint_bytes.simps [of n])
qed

lemma length_varint_bytes_1: "n < 128 \<Longrightarrow> length (varint_bytes n) = 1"
  by (simp add: varint_bytes.simps [of n])

lemma sizeUInt32_length: "sizeUInt32 v = length (varint_bytes (unat v))"
  using unat_lt_exp [of v]
    length_varint_bytes_1 [of "unat v"] length_varint_bytes_Suc [of 1 "unat v"]
    length_varint_bytes_Suc [of 2 "unat v"] length_varint_bytes_Suc [of 3 "unat v"]
    length_varint_bytes_Suc [of 4 "unat v"]
  by (simp add: sizeUInt32_def word_less_nat_alt)

lemma sizeUInt64_length: "sizeUInt64 v = length (varint_bytes (unat v))"
  using unat_lt_exp [of v]
    length_varint_bytes_1 [of "unat v"] length_varint_bytes_Suc [of 1 "unat v"]
    length_varint_bytes_Suc [of 2 "unat v"] length_varint_bytes_Suc [of 3 "unat v"]
    length_varint_bytes_Suc [of 4 "unat v"] length_varint_bytes_Suc [of 5 "unat v"]
    length_varint_bytes_Suc [of 6 "unat v"] length_varint_bytes_Suc [of 7 "unat v"]
    length_varint_bytes_Suc [of 8 "unat v"] length_varint_bytes_Suc [of 9 "unat v"]
  by (simp add: sizeUInt64_def word_less_nat_alt)

section \<open>Zigzag is invertible\<close>

lemma neg_and_1: "- (w AND 1) = (if bit w 0 then - 1 else (0 :: 'a::len word))"
  by (simp add: and_one_eq bit_0 mod_2_eq_odd)

lemma bit_zigzag:
  assumes "LENGTH('a) = Suc k" and "i < LENGTH('a)"
  shows "bit (push_bit 1 n XOR signed_drop_bit k (n :: 'a::len word)) i =
           ((0 < i \<and> bit n (i - 1)) \<noteq> bit n k)"
  using assms by (cases i)
    (auto simp only: bit_xor_iff bit_push_bit_iff bit_signed_drop_bit_iff, auto simp: bit_simps)

lemma zigzag_inverse:
  assumes "LENGTH('a) = Suc k" and "e = push_bit 1 n XOR signed_drop_bit k n"
  shows "drop_bit 1 e XOR (- (e AND 1)) = (n :: 'a::len word)"
proof (rule bit_word_eqI)
  fix i assume i: "i < LENGTH('a)"
  have e0: "bit e 0 = bit n k" using bit_zigzag [OF assms(1), of 0 n] assms(1) by (simp add: assms(2))
  have ei: "bit e (Suc i) = (bit n i \<noteq> bit n k)" if "i < k"
    using bit_zigzag [OF assms(1), of "Suc i" n] that assms(1) by (simp add: assms(2))
  show "bit (drop_bit 1 e XOR - (e AND 1)) i = bit n i"
    using i e0 ei assms(1) by (cases "i < k") (auto simp: neg_and_1 bit_simps less_Suc_eq dest: bit_imp_le_length)
qed

lemma zzDecode32_zzEncode32: "zzDecode32 (zzEncode32 n) = n"
  using zigzag_inverse [where 'a = 32 and k = 31 and n = n, OF _ refl] by (simp add: zzDecode32_def zzEncode32_def)

lemma zzDecode64_zzEncode64: "zzDecode64 (zzEncode64 n) = n"
  using zigzag_inverse [where 'a = 64 and k = 63 and n = n, OF _ refl] by (simp add: zzDecode64_def zzEncode64_def)


section \<open>Unpacking arbitrary input\<close>

lemma unpackVarint_loop_Undef_iff:
  assumes "0 < ls" "ls \<le> length bs"
    and "LENGTH('a) \<le> sh + 7 * m" "0 < m \<longrightarrow> sh + 7 * (m - 1) < LENGTH('a)"
  shows "unpackVarint_loop sh (val :: 'a::len word) bs ls = Undef \<longleftrightarrow>
           Suc m < ls \<and> (\<forall>i\<le>m. 128 \<le> bs ! i)"
  using assms
proof (induction m arbitrary: sh val bs ls)
  case 0
  then obtain b bs' where "bs = b # bs'" by (cases bs) auto
  with 0 show ?case by (cases bs') auto
next
  case (Suc m)
  then obtain b bs' where bs: "bs = b # bs'" by (cases bs) auto
  show ?case
  proof (cases "128 \<le> b \<and> ls - 1 \<noteq> 0")
    case True
    with Suc.prems bs obtain b' bs'' where bs': "bs' = b' # bs''" by (cases bs') auto
    have "unpackVarint_loop sh val bs ls =
        unpackVarint_loop (sh + 7) (val + push_bit sh (ucast (b' AND 0x7F))) bs' (ls - 1)"
      unfolding bs bs' using True Suc.prems by (intro unpackVarint_loop_more) auto
    moreover have "(unpackVarint_loop (sh + 7) (val + push_bit sh (ucast (b' AND 0x7F))) bs' (ls - 1) = Undef)
        \<longleftrightarrow> Suc m < ls - 1 \<and> (\<forall>i\<le>m. 128 \<le> bs' ! i)"
      using True Suc.prems bs by (intro Suc.IH) auto
    ultimately show ?thesis
      using True bs by (auto simp: All_less_Suc2 less_Suc_eq_le [symmetric])
  next
    case False
    then show ?thesis using bs Suc.prems by (auto split: list.splits)
  qed
qed

lemma unpackUInt32_Undef_iff:
  "cursor_ok c \<Longrightarrow> unpackUInt32 c = Undef \<longleftrightarrow> 5 < leftSize c \<and> (\<forall>i\<le>4. 128 \<le> buf c ! i)"
  using unpackVarint_loop_Undef_iff [where 'a = 32 and sh = 7 and m = 4 and ls = "leftSize c" and bs = "buf c"]
  by (auto simp: unpackUInt32_def unpackVarint_def cursor_ok_def simp del: unpackVarint_loop.simps split: list.splits)

lemma unpackUInt64_Undef_iff:
  "cursor_ok c \<Longrightarrow> unpackUInt64 c = Undef \<longleftrightarrow> 10 < leftSize c \<and> (\<forall>i\<le>9. 128 \<le> buf c ! i)"
  using unpackVarint_loop_Undef_iff [where 'a = 64 and sh = 7 and m = 9 and ls = "leftSize c" and bs = "buf c"]
  by (auto simp: unpackUInt64_def unpackVarint_def cursor_ok_def simp del: unpackVarint_loop.simps split: list.splits)

lemma advanced_cursor_ok: "advanced k c c' \<Longrightarrow> cursor_ok c \<Longrightarrow> cursor_ok c'"
  by (auto simp: advanced_def cursor_ok_def)

lemma advanced_trans: "advanced j a b \<Longrightarrow> advanced k b c \<Longrightarrow> advanced (j + k) a c"
  by (auto simp: advanced_def add.commute)

lemma unpackVarint_loop_Ok:
  "unpackVarint_loop sh val bs ls = Ok v c' \<Longrightarrow> 0 < ls \<Longrightarrow>
     \<exists>k>0. advanced k \<lparr>buf = bs, leftSize = ls\<rparr> c'"
proof (induction sh val bs ls rule: unpackVarint_loop.induct)
  case (1 shiftn val ls)
  then show ?case by simp
next
  case (2 shiftn val b bs ls)
  show ?case
  proof (cases "128 \<le> b")
    case True
    with 2 obtain b' bs' where *: "bs = b' # bs'" "ls - 1 \<noteq> 0" "\<not> LENGTH('a) \<le> shiftn"
      by (auto split: if_splits list.splits)
    with True 2 obtain k where "0 < k" "advanced k \<lparr>buf = bs, leftSize = ls - 1\<rparr> c'"
      by fastforce
    then show ?thesis using 2(3) by (intro exI [of _ "Suc k"]) (auto simp: advanced_def)
  next
    case False
    with 2 show ?thesis by (intro exI [of _ 1]) (auto simp: advanced_def)
  qed
qed

lemma unpackVarint_Ok: "unpackVarint c = Ok v c' \<Longrightarrow> \<exists>k>0. advanced k c c'"
  using unpackVarint_loop_Ok [of 7 _ "buf c" "leftSize c" v c']
  by (auto simp: unpackVarint_def advanced_def simp del: unpackVarint_loop.simps
      split: if_splits list.splits)

lemma unpackVarint_loop_Fail:
  "unpackVarint_loop sh val bs ls = Fail c' \<Longrightarrow> 0 < ls \<Longrightarrow> leftSize c' = 0"
  by (induction sh val bs ls rule: unpackVarint_loop.induct) (auto split: if_splits list.splits)

lemma unpackVarint_Fail: "unpackVarint c = Fail c' \<Longrightarrow> leftSize c' = 0"
  using unpackVarint_loop_Fail [of 7 _ "buf c" "leftSize c" c']
  by (auto simp: unpackVarint_def simp del: unpackVarint_loop.simps split: if_splits list.splits)

end
