(* ===== verification/Ssu_Containers.thy ===== *)
theory Ssu_Containers
  imports Prelude
begin

text \<open>
  The two containers of \<open>src/Ssu\<close>: \<open>RepeatedObject\<close> (a growable array that starts in an inline
  array of eight elements) and \<open>ReferredObject\<close> (a lazily allocated single object). The element a
  default constructor leaves in fresh array cells is the parameter \<open>dflt\<close>; whether
  \<open>new(std::nothrow)\<close> succeeds is the parameter \<open>mem_ok\<close>. The contract of a growable sequence is the
  locale \<open>seq_container\<close>, which \<open>RepeatedObject\<close> implements.
\<close>

section \<open>RepeatedObject\<close>

text \<open>
  \<open>heapObj = None\<close> says that \<open>_objs\<close> points to the inline array \<open>_initObj\<close>, \<open>Some xs\<close> that it
  points to a heap array with the contents \<open>xs\<close>.
\<close>

record 'a repeated =
  initObj :: "'a list"
  heapObj :: "'a list option"
  rsize :: nat
  capacity :: nat

definition initSize :: nat where
  "initSize = 8"

definition objs :: "'a repeated \<Rightarrow> 'a list" where
  "objs r = (case heapObj r of None \<Rightarrow> initObj r | Some xs \<Rightarrow> xs)"

definition set_obj :: "nat \<Rightarrow> 'a \<Rightarrow> 'a repeated \<Rightarrow> 'a repeated" where
  "set_obj i v r =
     (case heapObj r of None \<Rightarrow> r\<lparr>initObj := (initObj r)[i := v]\<rparr>
      | Some xs \<Rightarrow> r\<lparr>heapObj := Some (xs[i := v])\<rparr>)"

definition repeated_new :: "'a \<Rightarrow> 'a repeated" where
  "repeated_new dflt =
     \<lparr>initObj = replicate initSize dflt, heapObj = None, rsize = 0, capacity = initSize\<rparr>"

text \<open>\<open>operator[]\<close> has no bounds check; outside the array the access is undefined (\<open>None\<close>).\<close>

definition repeated_at :: "'a repeated \<Rightarrow> nat \<Rightarrow> 'a option" where
  "repeated_at r idx = (if idx < length (objs r) then Some (objs r ! idx) else None)"

definition reserve :: "'a \<Rightarrow> nat \<Rightarrow> 'a repeated \<Rightarrow> 'a repeated" where
  "reserve dflt newsize r =
     (if newsize \<le> capacity r then r
      else let cap = max newsize (capacity r * 2)
           in r\<lparr>capacity := cap,
                heapObj := Some (take (rsize r) (objs r) @ replicate (cap - rsize r) dflt)\<rparr>)"

definition repeated_add :: "'a \<Rightarrow> 'a \<Rightarrow> 'a repeated \<Rightarrow> 'a repeated" where
  "repeated_add dflt val r =
     (let r' = (if capacity r \<le> rsize r then reserve dflt (capacity r + 1) r else r)
      in (set_obj (rsize r') val r')\<lparr>rsize := rsize r' + 1\<rparr>)"

text \<open>\<open>add()\<close> without an argument hands out a reference to the next cell: its index.\<close>

definition repeated_add_ref :: "'a \<Rightarrow> 'a repeated \<Rightarrow> nat \<times> 'a repeated" where
  "repeated_add_ref dflt r =
     (let r' = (if capacity r \<le> rsize r then reserve dflt (capacity r + 1) r else r)
      in (rsize r', r'\<lparr>rsize := rsize r' + 1\<rparr>))"

text \<open>The elements between \<open>begin()\<close> and \<open>end()\<close>.\<close>

definition repeated_elems :: "'a repeated \<Rightarrow> 'a list" where
  "repeated_elems r = take (rsize r) (objs r)"

definition repeated_clear :: "'a repeated \<Rightarrow> 'a repeated" where
  "repeated_clear r = r\<lparr>heapObj := None, rsize := 0, capacity := initSize\<rparr>"

section \<open>ReferredObject\<close>

record 'a referred =
  robj :: "'a option"

definition referred_new :: "'a referred" where
  "referred_new = \<lparr>robj = None\<rparr>"

definition checkObject :: "bool \<Rightarrow> 'a \<Rightarrow> 'a referred \<Rightarrow> 'a referred" where
  "checkObject mem_ok dflt r =
     (case robj r of None \<Rightarrow> (if mem_ok then r\<lparr>robj := Some dflt\<rparr> else r) | Some _ \<Rightarrow> r)"

definition getMutable :: "bool \<Rightarrow> 'a \<Rightarrow> 'a referred \<Rightarrow> 'a option \<times> 'a referred" where
  "getMutable mem_ok dflt r = (let r' = checkObject mem_ok dflt r in (robj r', r'))"

text \<open>Assignment dereferences the pointer after \<open>checkObject\<close>: undefined (\<open>None\<close>) when it is null.\<close>

definition referred_assign :: "bool \<Rightarrow> 'a \<Rightarrow> 'a \<Rightarrow> 'a referred \<Rightarrow> 'a referred option" where
  "referred_assign mem_ok dflt other r =
     (let r' = checkObject mem_ok dflt r
      in case robj r' of None \<Rightarrow> None | Some _ \<Rightarrow> Some (r'\<lparr>robj := Some other\<rparr>))"

section \<open>The contract of a growable sequence\<close>

locale seq_container =
  fixes elems :: "'s \<Rightarrow> 'a list"
    and invar :: "'s \<Rightarrow> bool"
    and empty :: "'s"
    and add :: "'a \<Rightarrow> 's \<Rightarrow> 's"
    and at :: "'s \<Rightarrow> nat \<Rightarrow> 'a option"
    and clear :: "'s \<Rightarrow> 's"
  assumes empty: "invar empty" "elems empty = []"
    and add: "invar s \<Longrightarrow> invar (add x s)" "invar s \<Longrightarrow> elems (add x s) = elems s @ [x]"
    and at: "invar s \<Longrightarrow> i < length (elems s) \<Longrightarrow> at s i = Some (elems s ! i)"
    and clear: "invar s \<Longrightarrow> invar (clear s)" "invar s \<Longrightarrow> elems (clear s) = []"
begin

lemma add_all: "invar s \<Longrightarrow> invar (fold add xs s) \<and> elems (fold add xs s) = elems s @ xs"
  by (induction xs arbitrary: s) (auto simp: add)

lemma add_all_empty: "elems (fold add xs empty) = xs"
  using add_all [of empty xs] empty by simp

lemma at_after_adds: "invar s \<Longrightarrow> i < length (elems s) \<Longrightarrow> at (fold add xs s) i = Some (elems s ! i)"
  using add_all [of s xs] by (simp add: at nth_append)

end

section \<open>RepeatedObject implements it\<close>

definition repeated_ok :: "'a repeated \<Rightarrow> bool" where
  "repeated_ok r \<longleftrightarrow> length (initObj r) = initSize \<and> capacity r = length (objs r)
     \<and> initSize \<le> capacity r \<and> rsize r \<le> capacity r"

lemmas repeated_defs = repeated_ok_def repeated_elems_def objs_def

lemma objs_rsize [simp]: "objs (r\<lparr>rsize := n\<rparr>) = objs r"
  by (simp add: objs_def split: option.splits)

lemma repeated_new_ok: "repeated_ok (repeated_new d)" "repeated_elems (repeated_new d) = []"
  by (simp_all add: repeated_defs repeated_new_def)

lemma reserve_ok:
  "repeated_ok r \<Longrightarrow> repeated_ok (reserve d n r)"
  "repeated_ok r \<Longrightarrow> repeated_elems (reserve d n r) = repeated_elems r"
  "rsize (reserve d n r) = rsize r"
  "n \<le> capacity (reserve d n r)"
  by (auto simp: repeated_defs reserve_def Let_def split: option.splits)

lemma set_obj_ok:
  assumes "repeated_ok r" and "rsize r < capacity r"
  shows "repeated_ok ((set_obj (rsize r) v r)\<lparr>rsize := rsize r + 1\<rparr>)"
    and "repeated_elems ((set_obj (rsize r) v r)\<lparr>rsize := rsize r + 1\<rparr>) = repeated_elems r @ [v]"
  using assms by (auto simp: repeated_defs set_obj_def take_Suc_conv_app_nth split: option.splits)

lemma repeated_add_ok:
  assumes "repeated_ok r"
  shows "repeated_ok (repeated_add d v r) \<and> repeated_elems (repeated_add d v r) = repeated_elems r @ [v]"
proof (cases "capacity r \<le> rsize r")
  case True
  let ?r = "reserve d (capacity r + 1) r"
  have "rsize ?r < capacity ?r"
    using reserve_ok(3) [of d "capacity r + 1" r] reserve_ok(4) [of "capacity r + 1" d r] assms by (simp add: repeated_ok_def)
  then show ?thesis
    using True set_obj_ok [OF reserve_ok(1) [OF assms], of d "capacity r + 1" v] reserve_ok(2) [OF assms]
    by (simp add: repeated_add_def Let_def)
next
  case False
  then show ?thesis using set_obj_ok [OF assms] by (simp add: repeated_add_def Let_def)
qed

lemma repeated_at_ok:
  "repeated_ok r \<Longrightarrow> i < length (repeated_elems r) \<Longrightarrow> repeated_at r i = Some (repeated_elems r ! i)"
  by (auto simp: repeated_defs repeated_at_def)

lemma repeated_clear_ok:
  "repeated_ok r \<Longrightarrow> repeated_ok (repeated_clear r)"
  "repeated_elems (repeated_clear r) = []"
  by (auto simp: repeated_defs repeated_clear_def)

interpretation rep: seq_container repeated_elems repeated_ok "repeated_new d" "repeated_add d"
    repeated_at repeated_clear for d
  by unfold_locales (auto simp: repeated_new_ok repeated_add_ok repeated_at_ok repeated_clear_ok)

lemma repeated_size_elems: "repeated_ok r \<Longrightarrow> length (repeated_elems r) = rsize r"
  by (simp add: repeated_defs)

lemma repeated_add_ref_ok:
  assumes "repeated_ok r" and "repeated_add_ref d r = (i, r')"
  shows "repeated_ok r' \<and> i = rsize r \<and> rsize r' = rsize r + 1 \<and> (\<exists>x. repeated_elems r' = repeated_elems r @ [x])"
proof -
  define q where "q = (if capacity r \<le> rsize r then reserve d (capacity r + 1) r else r)"
  have q: "repeated_ok q" "repeated_elems q = repeated_elems r" "rsize q = rsize r" "rsize q < capacity q"
    using assms(1) reserve_ok(1,2) [of r d "capacity r + 1"] reserve_ok(3) [of d "capacity r + 1" r] reserve_ok(4) [of "capacity r + 1" d r]
    by (auto simp: q_def repeated_ok_def)
  have r': "i = rsize q" "r' = q\<lparr>rsize := rsize q + 1\<rparr>"
    using assms(2) by (auto simp: repeated_add_ref_def q_def Let_def)
  have "repeated_elems r' = repeated_elems q @ [objs q ! rsize q]"
    using q by (simp add: r' repeated_elems_def repeated_ok_def take_Suc_conv_app_nth)
  then show ?thesis using q by (auto simp: r' repeated_ok_def)
qed

lemma getMutable_ok:
  "getMutable True d r = (x, r') \<Longrightarrow> x = Some (case robj r of None \<Rightarrow> d | Some y \<Rightarrow> y) \<and> robj r' = x"
  by (auto simp: getMutable_def checkObject_def Let_def split: option.splits)

section \<open>Properties\<close>

text \<open>
  \<open>RepeatedObject\<close> behaves as a growable sequence: adding an element, also across a reallocation,
  keeps the invariant and every earlier element readable at its index, and makes the new element the
  last one.
\<close>

theorem repeated_add_extends:
  assumes "repeated_ok r"
  shows "repeated_ok (repeated_add d v r) \<and> repeated_elems (repeated_add d v r) = repeated_elems r @ [v]
    \<and> (\<forall>i<rsize r. repeated_at (repeated_add d v r) i = repeated_at r i)
    \<and> repeated_at (repeated_add d v r) (rsize r) = Some v"
proof -
  have el: "repeated_ok (repeated_add d v r)" "repeated_elems (repeated_add d v r) = repeated_elems r @ [v]"
    using repeated_add_ok [OF assms] by auto
  have len: "length (repeated_elems r) = rsize r" by (rule repeated_size_elems) (rule assms)
  show ?thesis
    using el len repeated_at_ok [OF assms] repeated_at_ok [OF el(1)] by (simp add: nth_append)
qed

theorem repeated_add_extends_witness:
  "(let r = fold (repeated_add (0 :: nat)) [1..<9] (repeated_new 0) in
    capacity r = 8 \<and> capacity (repeated_add 0 9 r) = 16 \<and> repeated_at (repeated_add 0 9 r) 8 = Some 9)"
proof -
  let ?r = "fold (repeated_add (0 :: nat)) [1..<9] (repeated_new 0)"
  have r: "repeated_ok ?r" "repeated_elems ?r = [1..<9]"
    using rep.add_all [OF repeated_new_ok(1), of 0 "[1..<9]" 0] by (simp_all add: repeated_new_ok)
  then have sz: "rsize ?r = 8" using repeated_size_elems [OF r(1)] by simp
  have "capacity ?r = 8"
    by (simp add: repeated_add_def repeated_new_def initSize_def set_obj_def Let_def upt_rec)
  then show ?thesis
    using repeated_add_extends [OF r(1), of 0 9] sz
    by (simp add: repeated_add_def reserve_def set_obj_def Let_def split: option.splits)
qed

end
