(* ===== verification/Ssu_Codec.thy ===== *)
theory Ssu_Codec
  imports Ssu_Varint Ssu_Containers
begin

text \<open>
  The rest of \<open>src/Ssu/SsuUtils.h\<close> and \<open>src/Ssu/SsuObject.h\<close>: booleans, floating-point values (as
  their bit patterns), strings and binary blocks (a pointer and a length are the bytes they
  delimit), nested objects, repeated and packed repeated fields, and field tags. A class derived
  from \<open>ssu::Object\<close> is a record of its three virtual functions. The loops over packed fields are
  partial functions in the option monad: \<open>None\<close> says that the loop does not return.
\<close>

section \<open>Objects\<close>

record 'o object_class =
  osize :: "'o \<Rightarrow> nat"
  opackBuffer :: "bytes \<Rightarrow> 'o \<Rightarrow> bytes"
  ounpackBuffer :: "cursor \<Rightarrow> 'o \<Rightarrow> 'o unpacked"

text \<open>
  \<open>Object::pack\<close> extends the buffer by \<open>size()\<close> zero bytes and lets \<open>packBuffer\<close> write over them;
  \<open>None\<close> stands for writing past the end of the extended buffer.
\<close>

definition object_pack :: "'o object_class \<Rightarrow> 'o \<Rightarrow> bytes \<Rightarrow> bytes option" where
  "object_pack cls x bf =
     (let pktSize = osize cls x in
      if 0 < pktSize then
        (let out = opackBuffer cls [] x in
         if length out \<le> pktSize then Some (bf @ out @ replicate (pktSize - length out) 0) else None)
      else Some bf)"

definition object_unpack :: "'o object_class \<Rightarrow> bytes \<Rightarrow> nat \<Rightarrow> 'o \<Rightarrow> 'o unpacked" where
  "object_unpack cls buffer len x = ounpackBuffer cls \<lparr>buf = buffer, leftSize = len\<rparr> x"

section \<open>Sizes\<close>

definition sizeFloat :: "UInt32 \<Rightarrow> nat" where
  "sizeFloat val = 4"

definition sizeDouble :: "UInt64 \<Rightarrow> nat" where
  "sizeDouble val = 8"

definition sizeBool :: "bool \<Rightarrow> nat" where
  "sizeBool val = 1"

definition sizeString :: "bytes \<Rightarrow> nat" where
  "sizeString val = (let sz = word_of_nat (length val) :: UInt32 in sizeUInt32 sz + unat sz)"

definition sizeStringPtr :: "bytes \<Rightarrow> nat" where
  "sizeStringPtr val = sizeString val"

definition sizeBinary :: "bytes \<Rightarrow> nat" where
  "sizeBinary val = sizeUInt32 (word_of_nat (length val)) + length val"

definition sizeObject :: "'o object_class \<Rightarrow> 'o \<Rightarrow> nat" where
  "sizeObject cls x = (let sz = osize cls x in sizeUInt32 (word_of_nat sz) + sz)"

definition sizeReferred :: "bool \<Rightarrow> 'o \<Rightarrow> 'o object_class \<Rightarrow> 'o referred \<Rightarrow> (nat \<times> 'o referred) option" where
  "sizeReferred mem_ok dflt cls r =
     (case getMutable mem_ok dflt r of
        (None, r') \<Rightarrow> None
      | (Some x, r') \<Rightarrow> (let sz = osize cls x in Some (sizeUInt32 (word_of_nat sz) + sz, r')))"

fun sizeRepeated_loop :: "('a \<Rightarrow> nat) \<Rightarrow> nat \<Rightarrow> 'a list \<Rightarrow> nat" where
  "sizeRepeated_loop func sz [] = sz"
| "sizeRepeated_loop func sz (x # xs) = sizeRepeated_loop func (sz + func x) xs"

definition sizeRepeated :: "'a repeated \<Rightarrow> ('a \<Rightarrow> nat) \<Rightarrow> nat" where
  "sizeRepeated val func = sizeRepeated_loop func 0 (repeated_elems val)"

definition sizeRepeatedPacked :: "'a repeated \<Rightarrow> ('a \<Rightarrow> nat) \<Rightarrow> nat" where
  "sizeRepeatedPacked val func =
     (let sz = sizeRepeated val func in sz + sizeUInt32 (word_of_nat sz))"

section \<open>Packing\<close>

definition packBinary :: "bytes \<Rightarrow> bytes \<Rightarrow> bytes" where
  "packBinary bf val = bf @ val"

definition packFloat :: "bytes \<Rightarrow> UInt32 \<Rightarrow> bytes" where
  "packFloat bf val = packBinary bf (le32 val)"

definition packDouble :: "bytes \<Rightarrow> UInt64 \<Rightarrow> bytes" where
  "packDouble bf val = packBinary bf (le64 val)"

definition packBool :: "bytes \<Rightarrow> bool \<Rightarrow> bytes" where
  "packBool bf val = bf @ [if val then 1 else 0]"

definition packString :: "bytes \<Rightarrow> bytes \<Rightarrow> bytes" where
  "packString bf val = bf @ val"

definition packObject :: "'o object_class \<Rightarrow> bytes \<Rightarrow> 'o \<Rightarrow> bytes" where
  "packObject cls bf x = opackBuffer cls bf x"

definition packReferred :: "bool \<Rightarrow> 'o \<Rightarrow> 'o object_class \<Rightarrow> bytes \<Rightarrow> 'o referred \<Rightarrow> (bytes \<times> 'o referred) option" where
  "packReferred mem_ok dflt cls bf r =
     (case getMutable mem_ok dflt r of
        (None, r') \<Rightarrow> None
      | (Some x, r') \<Rightarrow> Some (packObject cls bf x, r'))"

fun packRepeated_loop :: "(bytes \<Rightarrow> 'a \<Rightarrow> bytes) \<Rightarrow> bytes \<Rightarrow> 'a list \<Rightarrow> bytes" where
  "packRepeated_loop func bf [] = bf"
| "packRepeated_loop func bf (x # xs) = packRepeated_loop func (func bf x) xs"

definition packRepeated :: "bytes \<Rightarrow> 'a repeated \<Rightarrow> (bytes \<Rightarrow> 'a \<Rightarrow> bytes) \<Rightarrow> bytes" where
  "packRepeated bf val func = packRepeated_loop func bf (repeated_elems val)"

definition packTag :: "bytes \<Rightarrow> UInt32 \<Rightarrow> UInt8 \<Rightarrow> bytes" where
  "packTag bf i type = packUInt32 bf (push_bit 3 i + ucast type)"

definition packInt32Tag :: "bytes \<Rightarrow> UInt32 \<Rightarrow> Int32 \<Rightarrow> bytes" where
  "packInt32Tag bf i val = packInt32 (packTag bf i 0) val"

definition packSInt32Tag :: "bytes \<Rightarrow> UInt32 \<Rightarrow> Int32 \<Rightarrow> bytes" where
  "packSInt32Tag bf i val = packSInt32 (packTag bf i 0) val"

definition packUInt32Tag :: "bytes \<Rightarrow> UInt32 \<Rightarrow> UInt32 \<Rightarrow> bytes" where
  "packUInt32Tag bf i val = packUInt32 (packTag bf i 0) val"

definition packEnumTag :: "bytes \<Rightarrow> UInt32 \<Rightarrow> UInt32 \<Rightarrow> bytes" where
  "packEnumTag bf i val = packEnum (packTag bf i 0) val"

definition packInt64Tag :: "bytes \<Rightarrow> UInt32 \<Rightarrow> Int64 \<Rightarrow> bytes" where
  "packInt64Tag bf i val = packInt64 (packTag bf i 0) val"

definition packSInt64Tag :: "bytes \<Rightarrow> UInt32 \<Rightarrow> Int64 \<Rightarrow> bytes" where
  "packSInt64Tag bf i val = packSInt64 (packTag bf i 0) val"

definition packUInt64Tag :: "bytes \<Rightarrow> UInt32 \<Rightarrow> UInt64 \<Rightarrow> bytes" where
  "packUInt64Tag bf i val = packUInt64 (packTag bf i 0) val"

definition packFloatTag :: "bytes \<Rightarrow> UInt32 \<Rightarrow> UInt32 \<Rightarrow> bytes" where
  "packFloatTag bf i val = packFloat (packTag bf i 5) val"

definition packDoubleTag :: "bytes \<Rightarrow> UInt32 \<Rightarrow> UInt64 \<Rightarrow> bytes" where
  "packDoubleTag bf i val = packDouble (packTag bf i 1) val"

definition packBoolTag :: "bytes \<Rightarrow> UInt32 \<Rightarrow> bool \<Rightarrow> bytes" where
  "packBoolTag bf i val = packBool (packTag bf i 0) val"

definition packStringTag :: "bytes \<Rightarrow> UInt32 \<Rightarrow> bytes \<Rightarrow> bytes" where
  "packStringTag bf i val = packString (packUInt32 (packTag bf i 2) (word_of_nat (length val))) val"

definition packStringPtrTag :: "bytes \<Rightarrow> UInt32 \<Rightarrow> bytes \<Rightarrow> bytes" where
  "packStringPtrTag bf i val = packString (packUInt32 (packTag bf i 2) (word_of_nat (length val))) val"

definition packBinaryTag :: "bytes \<Rightarrow> UInt32 \<Rightarrow> bytes \<Rightarrow> bytes" where
  "packBinaryTag bf i val = packBinary (packUInt32 (packTag bf i 2) (word_of_nat (length val))) val"

definition packObjectTag :: "'o object_class \<Rightarrow> bytes \<Rightarrow> UInt32 \<Rightarrow> 'o \<Rightarrow> bytes" where
  "packObjectTag cls bf i x =
     packObject cls (packUInt32 (packTag bf i 2) (word_of_nat (osize cls x))) x"

definition packReferredTag ::
  "bool \<Rightarrow> 'o \<Rightarrow> 'o object_class \<Rightarrow> bytes \<Rightarrow> UInt32 \<Rightarrow> 'o referred \<Rightarrow> (bytes \<times> 'o referred) option" where
  "packReferredTag mem_ok dflt cls bf i r =
     (case getMutable mem_ok dflt r of
        (None, r') \<Rightarrow> None
      | (Some x, r') \<Rightarrow> Some (packObjectTag cls bf i x, r'))"

definition packRepeatedTag :: "bytes \<Rightarrow> UInt32 \<Rightarrow> 'a repeated \<Rightarrow> (bytes \<Rightarrow> UInt32 \<Rightarrow> 'a \<Rightarrow> bytes) \<Rightarrow> bytes" where
  "packRepeatedTag bf i val func = packRepeated_loop (\<lambda>bf x. func bf i x) bf (repeated_elems val)"

definition packRepeatedPackedTag ::
  "bytes \<Rightarrow> UInt32 \<Rightarrow> 'a repeated \<Rightarrow> (bytes \<Rightarrow> 'a \<Rightarrow> bytes) \<Rightarrow> ('a \<Rightarrow> nat) \<Rightarrow> bytes" where
  "packRepeatedPackedTag bf i val func sizefunc =
     packRepeated_loop func
       (packUInt32 (packTag bf i 2) (word_of_nat (sizeRepeated val sizefunc))) (repeated_elems val)"

section \<open>Unpacking\<close>

definition unpackBinary :: "cursor \<Rightarrow> nat \<Rightarrow> bytes unpacked" where
  "unpackBinary c len =
     (if leftSize c < len then Fail c
      else if length (buf c) < len then Undef
      else Ok (take len (buf c)) \<lparr>buf = drop len (buf c), leftSize = leftSize c - len\<rparr>)"

definition unpackFloat :: "cursor \<Rightarrow> UInt32 unpacked" where
  "unpackFloat c = and_then (unpackBinary c 4) (\<lambda>bs c'. Ok (of_le32 bs) c')"

definition unpackDouble :: "cursor \<Rightarrow> UInt64 unpacked" where
  "unpackDouble c = and_then (unpackBinary c 8) (\<lambda>bs c'. Ok (of_le64 bs) c')"

definition unpackBool :: "cursor \<Rightarrow> bool unpacked" where
  "unpackBool c =
     (if leftSize c = 0 then Fail c
      else case buf c of [] \<Rightarrow> Undef
           | b # bs \<Rightarrow> Ok (b \<noteq> 0) \<lparr>buf = bs, leftSize = leftSize c - 1\<rparr>)"

text \<open>A string whose length field exceeds what is left is cut to what is left, not refused.\<close>

definition unpackString :: "cursor \<Rightarrow> bytes unpacked" where
  "unpackString c =
     and_then (unpackUInt32 c) (\<lambda>length0 c'.
       let len = unat (if leftSize c' < unat length0 then word_of_nat (leftSize c') else length0) in
       if length (buf c') < len then Undef
       else Ok (take len (buf c')) \<lparr>buf = drop len (buf c'), leftSize = size_sub (leftSize c') len\<rparr>)"

definition unpackStringPtr :: "cursor \<Rightarrow> bytes unpacked" where
  "unpackStringPtr c =
     and_then (unpackUInt32 c) (\<lambda>length0 c'.
       let len = unat (if leftSize c' < unat length0 then word_of_nat (leftSize c') else length0) in
       if length (buf c') < len then Undef
       else Ok (take len (buf c')) \<lparr>buf = drop len (buf c'), leftSize = size_sub (leftSize c') len\<rparr>)"

text \<open>
  The nested object gets the length \<open>n\<close> of the field as its \<open>leftSize\<close>, without a comparison with
  the \<open>leftSize\<close> of the enclosing message; the outer counter then wraps when \<open>n\<close> is larger.
\<close>

definition unpackObject :: "'o object_class \<Rightarrow> cursor \<Rightarrow> 'o \<Rightarrow> 'o unpacked" where
  "unpackObject cls c x =
     and_then (unpackUInt32 c) (\<lambda>n c'.
       case ounpackBuffer cls \<lparr>buf = buf c', leftSize = unat n\<rparr> x of
         Undef \<Rightarrow> Undef
       | Fail _ \<Rightarrow> Fail c'
       | Ok x' _ \<Rightarrow> Ok x' \<lparr>buf = drop (unat n) (buf c'), leftSize = size_sub (leftSize c') (unat n)\<rparr>)"

definition unpackObjectPtr :: "bool \<Rightarrow> 'o \<Rightarrow> 'o object_class \<Rightarrow> cursor \<Rightarrow> 'o unpacked" where
  "unpackObjectPtr mem_ok dflt cls c = (if mem_ok then ounpackBuffer cls c dflt else Fail c)"

definition unpackReferred :: "bool \<Rightarrow> 'o \<Rightarrow> 'o object_class \<Rightarrow> cursor \<Rightarrow> 'o referred \<Rightarrow> 'o referred unpacked" where
  "unpackReferred mem_ok dflt cls c r =
     (case getMutable mem_ok dflt r of
        (None, r') \<Rightarrow> Undef
      | (Some x, r') \<Rightarrow> and_then (unpackObject cls c x) (\<lambda>x' c'. Ok (r'\<lparr>robj := Some x'\<rparr>) c'))"

definition unpackRepeated :: "'a \<Rightarrow> (cursor \<Rightarrow> 'a unpacked) \<Rightarrow> cursor \<Rightarrow> 'a repeated \<Rightarrow> 'a repeated unpacked" where
  "unpackRepeated dflt func c val = and_then (func c) (\<lambda>v c'. Ok (repeated_add dflt v val) c')"

partial_function (option) unpackPacked_loop ::
  "'a \<Rightarrow> (cursor \<Rightarrow> 'a unpacked) \<Rightarrow> cursor \<Rightarrow> 'a repeated \<Rightarrow> 'a repeated unpacked option" where
  "unpackPacked_loop dflt func c val =
     (if 0 < leftSize c then
        (case func c of
           Undef \<Rightarrow> Some Undef
         | Fail c' \<Rightarrow> Some (Fail c')
         | Ok v c' \<Rightarrow> unpackPacked_loop dflt func c' (repeated_add dflt v val))
      else Some (Ok val c))"

definition unpackRepeatedPacked ::
  "'a \<Rightarrow> (cursor \<Rightarrow> 'a unpacked) \<Rightarrow> cursor \<Rightarrow> 'a repeated \<Rightarrow> 'a repeated unpacked option" where
  "unpackRepeatedPacked dflt func c val =
     (case unpackUInt32 c of
        Undef \<Rightarrow> Some Undef
      | Fail c' \<Rightarrow> Some (Fail c')
      | Ok n c' \<Rightarrow>
          (case unpackPacked_loop dflt func \<lparr>buf = buf c', leftSize = unat n\<rparr> val of
             None \<Rightarrow> None
           | Some Undef \<Rightarrow> Some Undef
           | Some (Fail _) \<Rightarrow> Some (Fail c')
           | Some (Ok val' _) \<Rightarrow>
               Some (Ok val' \<lparr>buf = drop (unat n) (buf c'), leftSize = size_sub (leftSize c') (unat n)\<rparr>)))"

definition unpackRepeatedPtr :: "'a \<Rightarrow> (cursor \<Rightarrow> 'a unpacked) \<Rightarrow> cursor \<Rightarrow> 'a repeated \<Rightarrow> 'a repeated unpacked" where
  "unpackRepeatedPtr dflt func c val =
     and_then (unpackUInt32 c) (\<lambda>n c'.
       case func \<lparr>buf = buf c', leftSize = unat n\<rparr> of
         Undef \<Rightarrow> Undef
       | Fail _ \<Rightarrow> Fail c'
       | Ok v _ \<Rightarrow> Ok (repeated_add dflt v val)
                     \<lparr>buf = drop (unat n) (buf c'), leftSize = size_sub (leftSize c') (unat n)\<rparr>)"

definition unpackRepeatedPackedPtr ::
  "'a \<Rightarrow> (cursor \<Rightarrow> 'a unpacked) \<Rightarrow> cursor \<Rightarrow> 'a repeated \<Rightarrow> 'a repeated unpacked option" where
  "unpackRepeatedPackedPtr dflt func c val = unpackRepeatedPacked dflt func c val"

definition unpackTag :: "cursor \<Rightarrow> (UInt32 \<times> UInt8) unpacked" where
  "unpackTag c = and_then (unpackUInt32 c) (\<lambda>n c'. Ok (drop_bit 3 n, ucast (n AND 7)) c')"

section \<open>The contract of a field codec\<close>

text \<open>
  A field decoder makes progress: on success it has consumed at least one byte, inside what was
  left. This is what makes the loops over packed fields return.
\<close>

locale field_decoder =
  fixes unpack :: "cursor \<Rightarrow> 'a unpacked"
  assumes progress: "unpack c = Ok v c' \<Longrightarrow> \<exists>k>0. advanced k c c'"
begin

lemma packed_loop_returns: "\<exists>r. unpackPacked_loop d unpack c val = Some r"
proof (induction "leftSize c" arbitrary: c val rule: less_induct)
  case less
  show ?case
  proof (cases "unpack c")
    case (Ok v c')
    show ?thesis
    proof (cases "0 < leftSize c")
      case True
      then have "leftSize c' < leftSize c" using progress [OF Ok] by (auto simp: advanced_def)
      then show ?thesis using less.hyps [of c'] Ok True by (simp add: unpackPacked_loop.simps [of d unpack c])
    qed (simp add: unpackPacked_loop.simps)
  qed (simp_all add: unpackPacked_loop.simps)
qed

lemma packed_returns: "\<exists>r. unpackRepeatedPacked d unpack c val = Some r"
proof (cases "unpackUInt32 c")
  case (Ok n c')
  obtain r where "unpackPacked_loop d unpack \<lparr>buf = buf c', leftSize = unat n\<rparr> val = Some r"
    using packed_loop_returns by blast
  with Ok show ?thesis by (cases r) (simp_all add: unpackRepeatedPacked_def)
qed (simp_all add: unpackRepeatedPacked_def)

end

lemma sizeRepeated_loop_sum: "sizeRepeated_loop f a xs = a + sum_list (map f xs)"
  by (induction xs arbitrary: a) auto

lemma packUInt32_eq: "packUInt32 bf v = bf @ varint_bytes (unat v)"
  by (simp add: packUInt32_def packVarint_eq)

lemma packUInt64_eq: "packUInt64 bf v = bf @ varint_bytes (unat v)"
  by (simp add: packUInt64_def packVarint_eq)

lemma unpackUInt32_bytes:
  "sizeUInt32 v \<le> ls \<Longrightarrow> unpackUInt32 \<lparr>buf = varint_bytes (unat v) @ rest, leftSize = ls\<rparr> =
     Ok v \<lparr>buf = rest, leftSize = ls - sizeUInt32 v\<rparr>"
  using unpackVarint_packed [where 'a = 32, OF unat_lt_exp [of v]]
  by (simp add: unpackUInt32_def sizeUInt32_length)

lemma unpackUInt64_bytes:
  "length (varint_bytes (unat v)) \<le> ls \<Longrightarrow> unpackUInt64 \<lparr>buf = varint_bytes (unat v) @ rest, leftSize = ls\<rparr> =
     Ok v \<lparr>buf = rest, leftSize = ls - length (varint_bytes (unat v))\<rparr>"
  using unpackVarint_packed [where 'a = 64, OF unat_lt_exp [of v]]
  by (simp add: unpackUInt64_def)

text \<open>The full contract: sizes count the bytes, and unpacking inverts packing.\<close>

locale field_codec = field_decoder unpack
  for unpack :: "cursor \<Rightarrow> 'a unpacked" +
  fixes sz :: "'a \<Rightarrow> nat"
    and pack :: "bytes \<Rightarrow> 'a \<Rightarrow> bytes"
  assumes pack_append: "pack bf v = bf @ pack [] v"
    and pack_length: "length (pack [] v) = sz v"
    and unpack_pack: "sz v \<le> ls \<Longrightarrow>
      unpack \<lparr>buf = pack [] v @ rest, leftSize = ls\<rparr> = Ok v \<lparr>buf = rest, leftSize = ls - sz v\<rparr>"
begin

lemma size_pos: "0 < sz v"
  using progress [OF unpack_pack [of v "sz v" "[]"]] by (auto simp: advanced_def)

lemma pack_all: "packRepeated_loop pack bf xs = bf @ concat (map (pack []) xs)"
proof (induction xs arbitrary: bf)
  case (Cons x xs)
  then show ?case using pack_append [of bf x] by simp
qed simp

lemma length_pack_all: "length (concat (map (pack []) xs)) = sum_list (map sz xs)"
  by (induction xs) (simp_all add: pack_length)

lemma unpack_all:
  "unpackPacked_loop d unpack \<lparr>buf = concat (map (pack []) xs) @ rest, leftSize = sum_list (map sz xs)\<rparr> val
     = Some (Ok (fold (repeated_add d) xs val) \<lparr>buf = rest, leftSize = 0\<rparr>)"
proof (induction xs arbitrary: val)
  case (Cons x xs)
  have "unpack \<lparr>buf = pack [] x @ (concat (map (pack []) xs) @ rest), leftSize = sz x + sum_list (map sz xs)\<rparr>
      = Ok x \<lparr>buf = concat (map (pack []) xs) @ rest, leftSize = sum_list (map sz xs)\<rparr>"
    by (subst unpack_pack) simp_all
  then show ?case using Cons.IH size_pos [of x] by (subst unpackPacked_loop.simps) simp
qed (simp add: unpackPacked_loop.simps)

text \<open>A packed field is written as tag, length and elements; reading it back appends them all.\<close>

lemma packed_bytes:
  "packRepeatedPackedTag bf i r pack sz = packUInt32 (packTag bf i 2) (word_of_nat (sum_list (map sz (repeated_elems r))))
     @ concat (map (pack []) (repeated_elems r))"
  by (simp add: packRepeatedPackedTag_def sizeRepeated_def sizeRepeated_loop_sum pack_all)

lemma unpack_packed:
  assumes n: "n = sum_list (map sz xs)" "n < 2 ^ 32" and w: "w = word_of_nat n" and ls: "sizeUInt32 w + n \<le> ls"
    and val: "repeated_ok val"
  shows "\<exists>val'. unpackRepeatedPacked d unpack
           \<lparr>buf = packUInt32 [] w @ concat (map (pack []) xs) @ rest, leftSize = ls\<rparr> val
         = Some (Ok val' \<lparr>buf = rest, leftSize = ls - sizeUInt32 w - n\<rparr>)
         \<and> repeated_ok val' \<and> repeated_elems val' = repeated_elems val @ xs"
proof -
  have un: "unat w = n" using n(2) by (simp add: w unat_of_nat)
  have 1: "unpackUInt32 \<lparr>buf = packUInt32 [] w @ concat (map (pack []) xs) @ rest, leftSize = ls\<rparr> =
      Ok w \<lparr>buf = concat (map (pack []) xs) @ rest, leftSize = ls - sizeUInt32 w\<rparr>"
    using ls unpackUInt32_bytes [of w ls] by (simp add: packUInt32_eq)
  have 2: "drop n (concat (map (pack []) xs) @ rest) = rest"
    using length_pack_all [of xs] by (simp add: n)
  have 3: "n \<le> ls - sizeUInt32 w" using ls by simp
  note 4 = unpack_all [of d xs rest val, folded n(1)]
  show ?thesis
    unfolding unpackRepeatedPacked_def
    using rep.add_all [OF val, of d xs] 3
    by (simp add: 1 un 2 4 del: drop_append)
qed

lemma packed_field_roundtrip:
  assumes "repeated_ok r" "repeated_ok val" "sizeRepeated r sz < 2 ^ 32"
  shows "\<exists>val'. unpackRepeatedPacked d unpack
      \<lparr>buf = drop (sizeUInt32 (push_bit 3 i + 2)) (packRepeatedPackedTag [] i r pack sz) @ rest,
       leftSize = sizeRepeatedPacked r sz + k\<rparr> val = Some (Ok val' \<lparr>buf = rest, leftSize = k\<rparr>)
    \<and> repeated_ok val' \<and> repeated_elems val' = repeated_elems val @ repeated_elems r"
proof -
  let ?xs = "repeated_elems r"
  let ?w = "word_of_nat (sum_list (map sz ?xs)) :: UInt32"
  have sr: "sizeRepeated r sz = sum_list (map sz ?xs)"
    by (simp add: sizeRepeated_def sizeRepeated_loop_sum)
  have "drop (sizeUInt32 (push_bit 3 i + 2)) (packRepeatedPackedTag [] i r pack sz) =
      packUInt32 [] ?w @ concat (map (pack []) ?xs)"
    by (simp add: packed_bytes packTag_def packUInt32_eq sizeUInt32_length)
  moreover have "sizeRepeatedPacked r sz + k = sizeUInt32 ?w + sum_list (map sz ?xs) + k"
    by (simp add: sizeRepeatedPacked_def sr Let_def)
  ultimately show ?thesis
    using unpack_packed [OF refl _ refl _ assms(2), of ?xs "sizeUInt32 ?w + sum_list (map sz ?xs) + k" d rest] assms(3)
    by (simp add: sr)
qed

end

lemma unpackVarint_decoder: "field_decoder (unpackVarint :: cursor \<Rightarrow> 'a::len word unpacked)"
  by unfold_locales (rule unpackVarint_Ok)

lemma field_decoder_map:
  assumes "field_decoder u" shows "field_decoder (\<lambda>c. and_then (u c) (\<lambda>n c'. Ok (f n) c'))"
proof
  fix c v c' assume "and_then (u c) (\<lambda>n c'. Ok (f n) c') = Ok v c'"
  then show "\<exists>k>0. advanced k c c'"
    using field_decoder.progress [OF assms] by (cases "u c") auto
qed

lemma unpackBinary_decoder:
  "0 < n \<Longrightarrow> field_decoder (\<lambda>c. unpackBinary c n)"
  by unfold_locales (auto simp: unpackBinary_def advanced_def split: if_splits)

lemmas varint_codec_simps = packUInt32_eq packUInt64_eq unpackUInt32_bytes [unfolded sizeUInt32_length]
  unpackUInt64_bytes sizeUInt32_length sizeUInt64_length

interpretation uint32: field_codec unpackUInt32 sizeUInt32 packUInt32
proof (intro field_codec.intro field_codec_axioms.intro)
  show "field_decoder unpackUInt32"
    using unpackVarint_decoder [where 'a = 32] by (simp add: unpackUInt32_def [abs_def])
qed (simp_all add: varint_codec_simps)

interpretation uint64: field_codec unpackUInt64 sizeUInt64 packUInt64
proof (intro field_codec.intro field_codec_axioms.intro)
  show "field_decoder unpackUInt64"
    using unpackVarint_decoder [where 'a = 64] by (simp add: unpackUInt64_def [abs_def])
qed (simp_all add: varint_codec_simps)

interpretation enum: field_codec unpackEnum sizeEnum packEnum
proof (intro field_codec.intro field_codec_axioms.intro)
  show "field_decoder unpackEnum"
    unfolding unpackEnum_def [abs_def] by (rule field_decoder_map) (rule uint32.field_decoder_axioms)
qed (simp_all add: varint_codec_simps packEnum_def sizeEnum_def unpackEnum_def)

interpretation sint32: field_codec unpackSInt32 sizeSInt32 packSInt32
proof (intro field_codec.intro field_codec_axioms.intro)
  show "field_decoder unpackSInt32"
    unfolding unpackSInt32_def [abs_def] by (rule field_decoder_map) (rule uint32.field_decoder_axioms)
qed (simp_all add: varint_codec_simps packSInt32_def sizeSInt32_def unpackSInt32_def zzDecode32_zzEncode32)

interpretation sint64: field_codec unpackSInt64 sizeSInt64 packSInt64
proof (intro field_codec.intro field_codec_axioms.intro)
  show "field_decoder unpackSInt64"
    unfolding unpackSInt64_def [abs_def] by (rule field_decoder_map) (rule uint64.field_decoder_axioms)
qed (simp_all add: varint_codec_simps packSInt64_def sizeSInt64_def unpackSInt64_def zzDecode64_zzEncode64)

interpretation int64: field_codec unpackInt64 sizeInt64 packInt64
proof (intro field_codec.intro field_codec_axioms.intro)
  show "field_decoder unpackInt64"
    unfolding unpackInt64_def [abs_def] by (rule uint64.field_decoder_axioms)
qed (simp_all add: varint_codec_simps packInt64_def sizeInt64_def unpackInt64_def)

text \<open>
  An \<open>int\<close> is written as 64-bit sign-extended value when negative and as 32-bit value otherwise;
  both are the varint of one 64-bit number, which \<open>unpackInt32\<close> reads and truncates.
\<close>

definition int32_wire :: "Int32 \<Rightarrow> UInt64" where
  "int32_wire v = (if sint v < 0 then scast v else ucast v)"

lemma unat_ucast_64: "unat (ucast (v :: UInt32) :: UInt64) = unat v"
  by (simp add: unsigned_ucast_eq take_bit_nat_eq_self_iff) (use unat_lt_exp [of v] in simp)

lemma packInt32_eq: "packInt32 bf v = bf @ varint_bytes (unat (int32_wire v))"
  by (simp add: packInt32_def int32_wire_def varint_codec_simps unat_ucast_64)

lemma sizeInt32_length: "sizeInt32 v = length (varint_bytes (unat (int32_wire v)))"
  by (simp add: sizeInt32_def int32_wire_def varint_codec_simps unat_ucast_64)

lemma ucast_int32_wire: "ucast (int32_wire v) = v"
  unfolding int32_wire_def by (rule bit_word_eqI) (auto simp: bit_simps)

interpretation int32: field_codec unpackInt32 sizeInt32 packInt32
proof (intro field_codec.intro field_codec_axioms.intro)
  show "field_decoder unpackInt32"
    unfolding unpackInt32_def [abs_def] by (rule field_decoder_map) (rule uint64.field_decoder_axioms)
qed (simp_all add: packInt32_eq sizeInt32_length unpackInt32_def unpackUInt64_bytes ucast_int32_wire)

interpretation boolean: field_codec unpackBool sizeBool packBool
  by unfold_locales (auto simp: unpackBool_def packBool_def sizeBool_def advanced_def intro!: exI [of _ 1] split: if_splits list.splits)

lemma unpackBinary_bytes:
  "length bs \<le> ls \<Longrightarrow> unpackBinary \<lparr>buf = bs @ rest, leftSize = ls\<rparr> (length bs) = Ok bs \<lparr>buf = rest, leftSize = ls - length bs\<rparr>"
  by (simp add: unpackBinary_def)

lemma unpackBinary_le32:
  "4 \<le> ls \<Longrightarrow> unpackBinary \<lparr>buf = le32 v @ rest, leftSize = ls\<rparr> 4 = Ok (le32 v) \<lparr>buf = rest, leftSize = ls - 4\<rparr>"
  using unpackBinary_bytes [of "le32 v"] by simp

lemma unpackBinary_le64:
  "8 \<le> ls \<Longrightarrow> unpackBinary \<lparr>buf = le64 v @ rest, leftSize = ls\<rparr> 8 = Ok (le64 v) \<lparr>buf = rest, leftSize = ls - 8\<rparr>"
  using unpackBinary_bytes [of "le64 v"] by simp

interpretation float: field_codec unpackFloat sizeFloat packFloat
  using field_decoder_map [OF unpackBinary_decoder [of 4], of of_le32] of_le32_le32 [of _ "[]"]
  by (intro field_codec.intro field_codec_axioms.intro)
    (simp_all add: unpackFloat_def [abs_def] sizeFloat_def packFloat_def packBinary_def unpackBinary_le32)

interpretation double: field_codec unpackDouble sizeDouble packDouble
  using field_decoder_map [OF unpackBinary_decoder [of 8], of of_le64] of_le64_le64 [of _ "[]"]
  by (intro field_codec.intro field_codec_axioms.intro)
    (simp_all add: unpackDouble_def [abs_def] sizeDouble_def packDouble_def packBinary_def unpackBinary_le64)

section \<open>Tags\<close>

lemma tag_word:
  assumes "i < 2 ^ 29" and "t < 8"
  shows "unat (push_bit 3 (i :: UInt32) + ucast (t :: UInt8)) = unat i * 8 + unat t"
proof -
  have i: "unat i < 2 ^ 29" using assms(1) by (simp add: word_less_nat_alt)
  have t: "unat t < 8" using assms(2) by (simp add: word_less_nat_alt)
  have "push_bit 3 i + ucast t = (word_of_nat (unat i * 8 + unat t) :: UInt32)"
    by (simp add: push_bit_eq_mult)
  moreover have "unat (word_of_nat (unat i * 8 + unat t) :: UInt32) = unat i * 8 + unat t"
    using i t by (subst unat_of_nat) simp
  ultimately show ?thesis by simp
qed

lemma tag_split:
  assumes "i < 2 ^ 29" and "t < 8" and "n = push_bit 3 (i :: UInt32) + ucast (t :: UInt8)"
  shows "drop_bit 3 n = i" and "ucast (n AND 7) = t"
proof -
  have t: "unat t < 8" using assms(2) by (simp add: word_less_nat_alt)
  have n: "unat n = unat i * 8 + unat t" using tag_word [OF assms(1,2)] assms(3) by simp
  have "unat (drop_bit 3 n) = unat i" using t n by (simp add: unat_drop_bit_div)
  then show "drop_bit 3 n = i" by (simp add: word_unat_eq_iff)
  have "n AND 7 = take_bit 3 n"
    using take_bit_eq_mask [of 3 n] by (simp add: mask_eq_exp_minus_1)
  then have "(ucast (n AND 7) :: UInt8) = word_of_nat (unat n mod 8)"
    by (simp add: ucast_eq_of_nat unat_take_bit_mod)
  then show "ucast (n AND 7) = t" using t n by (simp add: word_unat_eq_iff)
qed

definition sizeTag :: "UInt32 \<Rightarrow> UInt8 \<Rightarrow> nat" where
  "sizeTag i t = sizeUInt32 (push_bit 3 i + ucast t)"

lemma packTag_eq: "packTag bf i t = bf @ packTag [] i t" and length_packTag: "length (packTag [] i t) = sizeTag i t"
  by (simp_all add: packTag_def sizeTag_def varint_codec_simps)

lemma unpackTag_packTag:
  "\<lbrakk>i < 2 ^ 29; t < 8; sizeTag i t \<le> ls\<rbrakk> \<Longrightarrow>
     unpackTag \<lparr>buf = packTag [] i t @ rest, leftSize = ls\<rparr> = Ok (i, t) \<lparr>buf = rest, leftSize = ls - sizeTag i t\<rparr>"
  by (simp add: unpackTag_def packTag_def sizeTag_def uint32.unpack_pack tag_split)

lemma sizeTag_small: "\<lbrakk>i < 16; t < 8\<rbrakk> \<Longrightarrow> sizeTag i t = 1"
proof -
  assume a: "i < 16" "t < 8"
  then have "i < 2 ^ 29" by (simp add: word_less_nat_alt)
  from tag_word [OF this a(2)] a have "unat (push_bit 3 i + ucast t :: UInt32) < 128"
    by (simp add: word_less_nat_alt)
  then show ?thesis by (simp add: sizeTag_def sizeUInt32_length length_varint_bytes_1)
qed

section \<open>Strings\<close>

lemma unat_length: "length s < 2 ^ 32 \<Longrightarrow> unat (word_of_nat (length s) :: UInt32) = length s"
  by (simp add: unat_of_nat)

text \<open>Reading a string back after its tag (as \<open>packStringTag\<close> and \<open>packStringPtrTag\<close> wrote it).\<close>

lemma unpackString_packed:
  assumes "length s < 2 ^ 32" "sizeString s \<le> ls"
  shows "unpackString \<lparr>buf = packString (packUInt32 [] (word_of_nat (length s))) s @ rest, leftSize = ls\<rparr> =
     Ok s \<lparr>buf = rest, leftSize = ls - sizeString s\<rparr>"
proof -
  let ?w = "word_of_nat (length s) :: UInt32"
  have "unpackUInt32 \<lparr>buf = packUInt32 [] ?w @ s @ rest, leftSize = ls\<rparr> =
      Ok ?w \<lparr>buf = s @ rest, leftSize = ls - sizeUInt32 ?w\<rparr>"
    by (rule uint32.unpack_pack) (use assms in \<open>simp add: sizeString_def Let_def\<close>)
  moreover have "length s \<le> ls - sizeUInt32 ?w" using assms by (simp add: sizeString_def unat_length Let_def)
  ultimately show ?thesis
    using assms by (simp add: unpackString_def packString_def unat_length sizeString_def Let_def not_less)
qed

text \<open>Whatever the input, a string read inside the memory leaves the cursor inside the memory.\<close>

lemma unpackString_cut:
  assumes "unpackUInt32 c = Ok n c'" "cursor_ok c'"
  shows "unpackString c = (let len = min (unat n) (leftSize c') in
           Ok (take len (buf c')) \<lparr>buf = drop len (buf c'), leftSize = leftSize c' - len\<rparr>)"
proof -
  have "unat (word_of_nat (leftSize c') :: UInt32) = leftSize c'" if "leftSize c' < unat n"
    using that unat_lt_exp [of n] by (simp add: unat_of_nat)
  then show ?thesis using assms by (auto simp: unpackString_def cursor_ok_def Let_def min_def)
qed

lemma unpackUInt32_cursor_ok: "unpackUInt32 c = Ok n c' \<Longrightarrow> cursor_ok c \<Longrightarrow> cursor_ok c'"
  using uint32.progress advanced_cursor_ok by blast

lemma unpackString_Undef_iff:
  assumes "cursor_ok c" shows "unpackString c = Undef \<longleftrightarrow> unpackUInt32 c = Undef"
proof (cases "unpackUInt32 c")
  case (Ok n c')
  then have "cursor_ok c'" using assms by (rule unpackUInt32_cursor_ok)
  from unpackString_cut [OF Ok this] Ok show ?thesis by (simp add: Let_def)
qed (simp_all add: unpackString_def)

section \<open>The contract of an object class\<close>

text \<open>
  What the code relies on of the three virtual functions of \<open>ssu::Object\<close>: \<open>packBuffer\<close> writes
  exactly \<open>size()\<close> bytes and \<open>unpackBuffer\<close>, given those bytes, restores the object.
\<close>

locale ssu_object =
  fixes cls :: "'o object_class"
  assumes opack_append: "opackBuffer cls bf x = bf @ opackBuffer cls [] x"
    and opack_length: "length (opackBuffer cls [] x) = osize cls x"
    and ounpack_opack: "ounpackBuffer cls \<lparr>buf = opackBuffer cls [] x @ rest, leftSize = osize cls x\<rparr> x0 =
      Ok x \<lparr>buf = rest, leftSize = 0\<rparr>"
begin

lemma object_pack_eq: "object_pack cls x bf = Some (bf @ opackBuffer cls [] x)"
  using opack_length [of x] by (auto simp: object_pack_def Let_def)

lemma object_roundtrip:
  "object_pack cls x [] = Some bs \<Longrightarrow> object_unpack cls bs (length bs) x0 = Ok x \<lparr>buf = [], leftSize = 0\<rparr>"
  using ounpack_opack [of x "[]" x0] opack_length [of x] by (auto simp: object_pack_eq object_unpack_def)

lemma packObjectTag_eq:
  "packObjectTag cls bf i x = packTag bf i 2 @ packUInt32 [] (word_of_nat (osize cls x)) @ opackBuffer cls [] x"
  using opack_append [of "packUInt32 (packTag bf i 2) (word_of_nat (osize cls x))" x]
  by (simp add: packObjectTag_def packObject_def packUInt32_eq)

lemma length_packObjectTag: "length (packObjectTag cls [] i x) = sizeTag i 2 + sizeObject cls x"
  by (simp add: packObjectTag_eq length_packTag uint32.pack_length sizeObject_def opack_length Let_def)

lemma unpackObject_packed:
  assumes "osize cls x < 2 ^ 32" "sizeObject cls x \<le> ls"
  shows "unpackObject cls \<lparr>buf = packUInt32 [] (word_of_nat (osize cls x)) @ opackBuffer cls [] x @ rest, leftSize = ls\<rparr> x0
         = Ok x \<lparr>buf = rest, leftSize = ls - sizeObject cls x\<rparr>"
proof -
  let ?w = "word_of_nat (osize cls x) :: UInt32"
  have un: "unat ?w = osize cls x" using assms(1) by (simp add: unat_of_nat)
  have le: "sizeUInt32 ?w + osize cls x \<le> ls" using assms(2) by (simp add: sizeObject_def Let_def)
  have "unpackUInt32 \<lparr>buf = packUInt32 [] ?w @ opackBuffer cls [] x @ rest, leftSize = ls\<rparr> =
      Ok ?w \<lparr>buf = opackBuffer cls [] x @ rest, leftSize = ls - sizeUInt32 ?w\<rparr>"
    by (rule uint32.unpack_pack) (use le in simp)
  moreover have "osize cls x \<le> ls - sizeUInt32 ?w" using le by simp
  ultimately show ?thesis
    by (simp add: unpackObject_def un ounpack_opack opack_length sizeObject_def Let_def)
qed

end

text \<open>
  The length of a nested object is not compared with what is left of the message: when it is
  larger, an accepted object leaves \<open>leftSize\<close> wrapped around.
\<close>

lemma unpackObject_wraps:
  assumes "unpackUInt32 c = Ok n c'" and "leftSize c' < unat n"
    and "ounpackBuffer cls \<lparr>buf = buf c', leftSize = unat n\<rparr> x = Ok x' c''"
  shows "unpackObject cls c x = Ok x' \<lparr>buf = drop (unat n) (buf c'), leftSize = 2 ^ 64 + leftSize c' - unat n\<rparr>"
  using assms by (simp add: unpackObject_def size_sub_def)

section \<open>Properties\<close>

text \<open>
  C6. Integer fields round trip: for each of the seven integer encodings, unpacking the bytes that
  packing wrote, followed by anything, gives back the value and leaves the cursor exactly behind
  those bytes, for every value (including negative ones).
\<close>

theorem integer_fields_roundtrip:
  "unpackUInt32 \<lparr>buf = packUInt32 [] u @ rest, leftSize = sizeUInt32 u + k\<rparr> = Ok u \<lparr>buf = rest, leftSize = k\<rparr>
   \<and> unpackUInt64 \<lparr>buf = packUInt64 [] v @ rest, leftSize = sizeUInt64 v + k\<rparr> = Ok v \<lparr>buf = rest, leftSize = k\<rparr>
   \<and> unpackInt32 \<lparr>buf = packInt32 [] i @ rest, leftSize = sizeInt32 i + k\<rparr> = Ok i \<lparr>buf = rest, leftSize = k\<rparr>
   \<and> unpackSInt32 \<lparr>buf = packSInt32 [] i @ rest, leftSize = sizeSInt32 i + k\<rparr> = Ok i \<lparr>buf = rest, leftSize = k\<rparr>
   \<and> unpackInt64 \<lparr>buf = packInt64 [] j @ rest, leftSize = sizeInt64 j + k\<rparr> = Ok j \<lparr>buf = rest, leftSize = k\<rparr>
   \<and> unpackSInt64 \<lparr>buf = packSInt64 [] j @ rest, leftSize = sizeSInt64 j + k\<rparr> = Ok j \<lparr>buf = rest, leftSize = k\<rparr>
   \<and> unpackEnum \<lparr>buf = packEnum [] u @ rest, leftSize = sizeEnum u + k\<rparr> = Ok u \<lparr>buf = rest, leftSize = k\<rparr>"
  by (simp add: uint32.unpack_pack uint64.unpack_pack int32.unpack_pack sint32.unpack_pack
      int64.unpack_pack sint64.unpack_pack enum.unpack_pack)

text \<open>
  Fixed-size fields round trip: booleans, and the bit patterns of floats and doubles.
\<close>

lemma fixed_fields_roundtrip:
  "unpackBool \<lparr>buf = packBool [] b @ rest, leftSize = sizeBool b + k\<rparr> = Ok b \<lparr>buf = rest, leftSize = k\<rparr>
   \<and> unpackFloat \<lparr>buf = packFloat [] f @ rest, leftSize = sizeFloat f + k\<rparr> = Ok f \<lparr>buf = rest, leftSize = k\<rparr>
   \<and> unpackDouble \<lparr>buf = packDouble [] d @ rest, leftSize = sizeDouble d + k\<rparr> = Ok d \<lparr>buf = rest, leftSize = k\<rparr>"
  by (simp add: boolean.unpack_pack float.unpack_pack double.unpack_pack)

text \<open>
  The size functions are exact: each counts the bytes its pack function writes, which keeps
  \<open>Object::pack\<close> inside the buffer it has resized.
\<close>

theorem sizes_are_exact:
  "length (packUInt32 [] u) = sizeUInt32 u \<and> length (packUInt64 [] v) = sizeUInt64 v
   \<and> length (packInt32 [] i) = sizeInt32 i \<and> length (packSInt32 [] i) = sizeSInt32 i
   \<and> length (packInt64 [] j) = sizeInt64 j \<and> length (packSInt64 [] j) = sizeSInt64 j
   \<and> length (packEnum [] u) = sizeEnum u \<and> length (packBool [] b) = sizeBool b
   \<and> length (packFloat [] u) = sizeFloat u \<and> length (packDouble [] v) = sizeDouble v"
  by (simp add: uint32.pack_length uint64.pack_length int32.pack_length sint32.pack_length int64.pack_length
      sint64.pack_length enum.pack_length boolean.pack_length float.pack_length double.pack_length)

text \<open>
  C36. Reading a varint from a cursor inside its memory is undefined in exactly one case: a shift by
  the width of the type or more, on six (eleven for 64 bits) or more bytes of which the first five
  (ten) have the high bit set.
\<close>

theorem varint_undefined_iff:
  assumes "cursor_ok c"
  shows "(unpackUInt32 c = Undef \<longleftrightarrow> 5 < leftSize c \<and> (\<forall>i\<le>4. 128 \<le> buf c ! i))
    \<and> (unpackUInt64 c = Undef \<longleftrightarrow> 10 < leftSize c \<and> (\<forall>i\<le>9. 128 \<le> buf c ! i))"
  using unpackUInt32_Undef_iff [OF assms] unpackUInt64_Undef_iff [OF assms] by blast

lemma replicate_80_nth: "i < n \<Longrightarrow> (replicate n (0x80 :: UInt8)) ! i = 0x80"
  by simp

theorem varint_undefined_iff_witness:
  "unpackUInt32 \<lparr>buf = replicate 6 0x80, leftSize = 6\<rparr> = Undef \<and>
   unpackUInt64 \<lparr>buf = replicate 6 0x80, leftSize = 6\<rparr> \<noteq> Undef"
  using varint_undefined_iff [of "\<lparr>buf = replicate 6 0x80, leftSize = 6\<rparr>"] by (simp add: cursor_ok_def replicate_80_nth)

text \<open>
  A field tag round trips for every field number below \<open>2^29\<close> and wire type below 8, and the
  one-byte tag that packet classes count for field numbers below 16 is what is written.
\<close>

lemma tag_roundtrip:
  assumes "i < 2 ^ 29" "t < 8"
  shows "unpackTag \<lparr>buf = packTag [] i t @ rest, leftSize = length (packTag [] i t) + k\<rparr> = Ok (i, t) \<lparr>buf = rest, leftSize = k\<rparr>
    \<and> (i < 16 \<longrightarrow> length (packTag [] i t) = 1)"
  using unpackTag_packTag [OF assms, of "sizeTag i t + k" rest] sizeTag_small [OF _ assms(2)]
  by (simp add: length_packTag)

text \<open>
  A string written by \<open>packStringTag\<close> is read back unchanged by \<open>unpackTag\<close> and \<open>unpackString\<close>; and on
  arbitrary input inside the memory \<open>unpackString\<close> cuts a length field that is too large to what is
  left instead of reading beyond it.
\<close>

theorem string_field_correct:
  "(i < 2 ^ 29 \<longrightarrow> length s < 2 ^ 32 \<longrightarrow>
      and_then (unpackTag \<lparr>buf = packStringTag [] i s @ rest, leftSize = length (packStringTag [] i s) + k\<rparr>)
        (\<lambda>_. unpackString) = Ok s \<lparr>buf = rest, leftSize = k\<rparr>)
   \<and> (cursor_ok c \<longrightarrow> unpackUInt32 c = Ok n c' \<longrightarrow>
        unpackString c = (let len = min (unat n) (leftSize c') in
          Ok (take len (buf c')) \<lparr>buf = drop len (buf c'), leftSize = leftSize c' - len\<rparr>))"
proof (intro conjI impI)
  assume i: "i < 2 ^ 29" and s: "length s < 2 ^ 32"
  let ?w = "word_of_nat (length s) :: UInt32"
  have eq: "packStringTag [] i s = packTag [] i 2 @ packString (packUInt32 [] ?w) s"
    using packTag_eq [of "[]" i 2] by (simp add: packStringTag_def packString_def packUInt32_eq)
  have len: "length (packString (packUInt32 [] ?w) s) = sizeString s"
    using s by (simp add: packString_def uint32.pack_length sizeString_def unat_length Let_def)
  show "and_then (unpackTag \<lparr>buf = packStringTag [] i s @ rest, leftSize = length (packStringTag [] i s) + k\<rparr>)
        (\<lambda>_. unpackString) = Ok s \<lparr>buf = rest, leftSize = k\<rparr>"
    using unpackTag_packTag [OF i, of 2 "sizeTag i 2 + sizeString s + k"] unpackString_packed [OF s, of "sizeString s + k" rest]
    by (simp add: eq len length_packTag)
next
  assume "cursor_ok c" "unpackUInt32 c = Ok n c'"
  then show "unpackString c = (let len = min (unat n) (leftSize c') in
          Ok (take len (buf c')) \<lparr>buf = drop len (buf c'), leftSize = leftSize c' - len\<rparr>)"
    using unpackString_cut unpackUInt32_cursor_ok by blast
qed

theorem string_field_correct_witness:
  "and_then (unpackTag \<lparr>buf = packStringTag [] 5 [104, 105] @ [1], leftSize = length (packStringTag [] 5 [104, 105]) + 1\<rparr>)
     (\<lambda>_. unpackString) = Ok [104, 105] \<lparr>buf = [1], leftSize = 1\<rparr>
   \<and> unpackString \<lparr>buf = [9, 104, 105], leftSize = 3\<rparr> = Ok [104, 105] \<lparr>buf = [], leftSize = 0\<rparr>"
proof -
  have "unpackUInt32 \<lparr>buf = [9, 104, 105], leftSize = 3\<rparr> = Ok 9 \<lparr>buf = [104, 105], leftSize = 2\<rparr>"
    by (simp add: unpackUInt32_def unpackVarint_def)
  then show ?thesis
    using string_field_correct [of 5 "[104, 105]" "[1]" 1 "\<lparr>buf = [9, 104, 105], leftSize = 3\<rparr>" 9 "\<lparr>buf = [104, 105], leftSize = 2\<rparr>"]
    by (simp add: cursor_ok_def)
qed


lemma repeated_of_list:
  "repeated_ok (fold (repeated_add d) xs (repeated_new d))" "repeated_elems (fold (repeated_add d) xs (repeated_new d)) = xs"
  using rep.add_all [OF repeated_new_ok(1), of d xs] by (simp_all add: repeated_new_ok)



end
