(* ===== verification/Net_Socket.thy ===== *)
theory Net_Socket
  imports Prelude
begin

text \<open>
  \<open>TcpNetwork/Socket\<close> and \<open>TcpNetwork/TcpSocket\<close>: the socket classes over the operating system's
  socket calls. The operating system is the parameter \<open>'w os\<close>, a record of its calls over a world
  \<open>'w\<close>; every method threads the world. \<open>TcpNetwork\<close> compiles on Windows only (it uses \<open>WEWOULDBLOCK\<close>
  and \<open>CopyMemory\<close>), so its \<open>_WIN32\<close> branches are modelled; the \<open>fcntl\<close> branch of \<open>makeBlock\<close>, which
  the textually equal \<open>Network/Socket.cpp\<close> takes elsewhere, is modelled beside it. Handles are
  \<open>socket_t\<close>, a signed integer in which \<open>-1\<close> is \<open>INVALID_SOCKET\<close>.
\<close>

section \<open>The operating system's calls\<close>

record sockaddr_in =
  sin_family :: int
  sin_addr :: UInt32
  sin_port :: UInt16

record 'w os =
  sys_socket :: "int \<Rightarrow> int \<Rightarrow> int \<Rightarrow> 'w \<Rightarrow> int \<times> 'w"
  sys_bind :: "int \<Rightarrow> sockaddr_in \<Rightarrow> 'w \<Rightarrow> int \<times> 'w"
  sys_listen :: "int \<Rightarrow> int \<Rightarrow> 'w \<Rightarrow> int \<times> 'w"
  sys_shutdown :: "int \<Rightarrow> int \<Rightarrow> 'w \<Rightarrow> int \<times> 'w"
  sys_close :: "int \<Rightarrow> 'w \<Rightarrow> int \<times> 'w"
  sys_setsockopt :: "int \<Rightarrow> int \<Rightarrow> int \<Rightarrow> int list \<Rightarrow> 'w \<Rightarrow> int \<times> 'w"
  sys_ioctl_fionbio :: "int \<Rightarrow> nat \<Rightarrow> 'w \<Rightarrow> int \<times> 'w"
  sys_getfl :: "int \<Rightarrow> 'w \<Rightarrow> int \<times> 'w"
  sys_setfl :: "int \<Rightarrow> int \<Rightarrow> 'w \<Rightarrow> int \<times> 'w"
  sys_lasterr :: "'w \<Rightarrow> int"
  sys_inet_addr :: "string \<Rightarrow> UInt32"
  sys_gethostbyname :: "string \<Rightarrow> 'w \<Rightarrow> UInt32 option \<times> 'w"
  sys_getsockname :: "int \<Rightarrow> 'w \<Rightarrow> int \<times> sockaddr_in \<times> 'w"
  sys_getpeername :: "int \<Rightarrow> 'w \<Rightarrow> int \<times> sockaddr_in \<times> 'w"
  sys_connect :: "int \<Rightarrow> sockaddr_in \<Rightarrow> 'w \<Rightarrow> int \<times> 'w"
  sys_recv :: "int \<Rightarrow> int \<Rightarrow> 'w \<Rightarrow> int \<times> bytes \<times> 'w"
  sys_send :: "int \<Rightarrow> bytes \<Rightarrow> int \<Rightarrow> 'w \<Rightarrow> int \<times> 'w"
  sys_select :: "int \<Rightarrow> int \<Rightarrow> 'w \<Rightarrow> int \<times> bool \<times> 'w"

text \<open>Constants of the socket headers.\<close>

definition INVALID_SOCKET :: int where "INVALID_SOCKET = - 1"
definition SOCKET_ERROR :: int where "SOCKET_ERROR = - 1"
definition AF_INET :: int where "AF_INET = 2"
definition SOCK_STREAM :: int where "SOCK_STREAM = 1"
definition SOL_SOCKET :: int where "SOL_SOCKET = 0xFFFF"
definition SO_LINGER :: int where "SO_LINGER = 0x80"
definition IPPROTO_TCP :: int where "IPPROTO_TCP = 6"
definition TCP_NODELAY :: int where "TCP_NODELAY = 1"
definition INADDR_NONE :: UInt32 where "INADDR_NONE = 0xFFFFFFFF"
definition WEWOULDBLOCK :: int where "WEWOULDBLOCK = 10035"
definition WEINPROGRESS :: int where "WEINPROGRESS = 10036"
definition O_NONBLOCK :: int where "O_NONBLOCK = 2048"

text \<open>Host to network byte order and back, on a little-endian host.\<close>

definition htonl :: "UInt32 \<Rightarrow> UInt32" where
  "htonl x = of_le32 (rev (le32 x))"

definition ntohl :: "UInt32 \<Rightarrow> UInt32" where
  "ntohl x = of_le32 (rev (le32 x))"

definition htons :: "UInt16 \<Rightarrow> UInt16" where
  "htons x = of_le16 (rev (le16 x))"

section \<open>Socket\<close>

record sock =
  fd :: int
  sid :: UInt32
  sdata :: "nat option"
  pendClose_flag :: bool

definition Socket_fd :: "int \<Rightarrow> sock" where
  "Socket_fd f = \<lparr>fd = f, sid = 0, sdata = None, pendClose_flag = False\<rparr>"

definition Socket_init :: "'w os \<Rightarrow> int \<Rightarrow> int \<Rightarrow> int \<Rightarrow> sock \<Rightarrow> 'w \<Rightarrow> bool \<times> sock \<times> 'w" where
  "Socket_init os af type protocol s w =
     (let (r, w') = sys_socket os af type protocol w in (0 \<le> r, s\<lparr>fd := r\<rparr>, w'))"

definition initialized :: "sock \<Rightarrow> bool" where
  "initialized s \<longleftrightarrow> 0 \<le> fd s"

definition resolveAddress :: "'w os \<Rightarrow> string \<Rightarrow> 'w \<Rightarrow> UInt32 \<times> 'w" where
  "resolveAddress os addr w =
     (let a = sys_inet_addr os addr in
      if a = INADDR_NONE then
        (case sys_gethostbyname os addr w of
           (None, w') \<Rightarrow> (0xFFFFFFFF, w')
         | (Some h, w') \<Rightarrow> (ntohl h, w'))
      else (ntohl a, w))"

definition bind_addr :: "'w os \<Rightarrow> UInt32 \<Rightarrow> UInt16 \<Rightarrow> sock \<Rightarrow> 'w \<Rightarrow> bool \<times> 'w" where
  "bind_addr os ipaddr port s w =
     (let (r, w') = sys_bind os (fd s) \<lparr>sin_family = AF_INET, sin_addr = htonl ipaddr, sin_port = htons port\<rparr> w
      in if r = SOCKET_ERROR then (False, w') else (True, w'))"

definition bind_host :: "'w os \<Rightarrow> string \<Rightarrow> UInt16 \<Rightarrow> sock \<Rightarrow> 'w \<Rightarrow> bool \<times> 'w" where
  "bind_host os addr port s w =
     (let (ipaddr, w') = resolveAddress os addr w
      in if ipaddr = 0xFFFFFFFF then (False, w') else bind_addr os ipaddr port s w')"

definition bind_any :: "'w os \<Rightarrow> UInt16 \<Rightarrow> sock \<Rightarrow> 'w \<Rightarrow> bool \<times> 'w" where
  "bind_any os port s w = bind_addr os 0 port s w"

definition Socket_listen :: "'w os \<Rightarrow> int \<Rightarrow> sock \<Rightarrow> 'w \<Rightarrow> bool \<times> 'w" where
  "Socket_listen os backlog s w = (let (r, w') = sys_listen os (fd s) backlog w in (0 \<le> r, w'))"

definition Socket_shutdown :: "'w os \<Rightarrow> int \<Rightarrow> sock \<Rightarrow> 'w \<Rightarrow> 'w" where
  "Socket_shutdown os sf s w = (if fd s < 0 then w else snd (sys_shutdown os (fd s) sf w))"

text \<open>\<open>close\<close> keeps the handle: the assignment \<open>_fd = -1\<close> is commented out.\<close>

definition Socket_close :: "'w os \<Rightarrow> sock \<Rightarrow> 'w \<Rightarrow> 'w" where
  "Socket_close os s w = (if fd s < 0 then w else snd (sys_close os (fd s) w))"

definition makeLinger :: "'w os \<Rightarrow> bool \<Rightarrow> sock \<Rightarrow> 'w \<Rightarrow> bool \<times> 'w" where
  "makeLinger os enabled s w =
     (let (r, w') = sys_setsockopt os (fd s) SOL_SOCKET SO_LINGER [if enabled then 1 else 0, 0] w
      in if r = SOCKET_ERROR then (False, w') else (True, w'))"

definition makeBlock :: "'w os \<Rightarrow> bool \<Rightarrow> sock \<Rightarrow> 'w \<Rightarrow> bool \<times> 'w" where
  "makeBlock os enabled s w =
     (let (r, w') = sys_ioctl_fionbio os (fd s) (if enabled then 0 else 1) w
      in if r = SOCKET_ERROR then (False, w') else (True, w'))"

definition makeBlock_fcntl :: "'w os \<Rightarrow> bool \<Rightarrow> sock \<Rightarrow> 'w \<Rightarrow> bool \<times> 'w" where
  "makeBlock_fcntl os enabled s w =
     (let (flags, w1) = sys_getfl os (fd s) w in
      if flags < 0 then (False, w1)
      else if enabled then
        (let (r, w2) = sys_setfl os (fd s) (flags AND NOT O_NONBLOCK) w1 in
         if r = - 1 then (False, w2) else (True, w2))
      else
        (let (r, w2) = sys_setfl os (fd s) (flags OR O_NONBLOCK) w1 in
         if r = - 1 then (False, w2) else (True, w2)))"

definition makeNoDelay :: "'w os \<Rightarrow> bool \<Rightarrow> sock \<Rightarrow> 'w \<Rightarrow> bool \<times> 'w" where
  "makeNoDelay os enabled s w =
     (let (r, w') = sys_setsockopt os (fd s) IPPROTO_TCP TCP_NODELAY [if enabled then 1 else 0] w
      in (r = - 1, w'))"

definition lastErr :: "'w os \<Rightarrow> 'w \<Rightarrow> int" where
  "lastErr os w = sys_lasterr os w"

definition getAddr :: "'w os \<Rightarrow> sock \<Rightarrow> 'w \<Rightarrow> UInt32 \<times> 'w" where
  "getAddr os s w =
     (let (r, addr, w') = sys_getsockname os (fd s) w
      in if r < 0 then (0xFFFFFFFF, w') else (ntohl (sin_addr addr), w'))"

definition getRemoteAddr :: "'w os \<Rightarrow> sock \<Rightarrow> 'w \<Rightarrow> UInt32 \<times> 'w" where
  "getRemoteAddr os s w =
     (let (r, addr, w') = sys_getpeername os (fd s) w
      in if r < 0 then (0xFFFFFFFF, w') else (ntohl (sin_addr addr), w'))"

section \<open>TcpSocket\<close>

definition TcpSocket_new :: "'w os \<Rightarrow> 'w \<Rightarrow> sock \<times> 'w" where
  "TcpSocket_new os w = snd (Socket_init os AF_INET SOCK_STREAM 0 (Socket_fd (- 1)) w)"

definition pendClose :: "sock \<Rightarrow> sock" where
  "pendClose s = s\<lparr>pendClose_flag := True\<rparr>"

definition TcpSocket_connect_addr :: "'w os \<Rightarrow> UInt32 \<Rightarrow> UInt16 \<Rightarrow> sock \<Rightarrow> 'w \<Rightarrow> bool \<times> 'w" where
  "TcpSocket_connect_addr os ipaddr port s w =
     (let (r, w') = sys_connect os (fd s) \<lparr>sin_family = AF_INET, sin_addr = htonl ipaddr, sin_port = htons port\<rparr> w
      in if r = SOCKET_ERROR \<and> (lastErr os w' \<noteq> WEINPROGRESS \<and> lastErr os w' \<noteq> WEWOULDBLOCK)
         then (False, w') else (True, w'))"

definition TcpSocket_connect :: "'w os \<Rightarrow> string \<Rightarrow> UInt16 \<Rightarrow> sock \<Rightarrow> 'w \<Rightarrow> bool \<times> 'w" where
  "TcpSocket_connect os addr port s w =
     (let (ipaddr, w') = resolveAddress os addr w
      in if ipaddr = 0xFFFFFFFF then (False, w') else TcpSocket_connect_addr os ipaddr port s w')"

definition TcpSocket_read :: "'w os \<Rightarrow> int \<Rightarrow> sock \<Rightarrow> 'w \<Rightarrow> int \<times> bytes \<times> 'w" where
  "TcpSocket_read os len s w = sys_recv os (fd s) len w"

definition TcpSocket_write :: "'w os \<Rightarrow> bytes \<Rightarrow> int \<Rightarrow> sock \<Rightarrow> 'w \<Rightarrow> int \<times> 'w" where
  "TcpSocket_write os bs len s w = sys_send os (fd s) bs len w"

section \<open>Laws\<close>

lemma ntohl_htonl [simp]: "ntohl (htonl x) = x"
proof -
  have "le32 (htonl x) = rev (le32 x)" by (simp add: htonl_def le32_of_le32)
  then show ?thesis using of_le32_le32 [of x "[]"] by (simp add: ntohl_def)
qed

text \<open>Both connecting and binding refuse a host that does not resolve, without touching the socket.\<close>

lemma unresolved_refused:
  "resolveAddress os addr w = (0xFFFFFFFF, w') \<Longrightarrow>
     TcpSocket_connect os addr port s w = (False, w') \<and> bind_host os addr port s w = (False, w')"
  by (simp add: TcpSocket_connect_def bind_host_def)

text \<open>After \<open>makeBlock\<close> by \<open>fcntl\<close>, exactly the bit \<open>O_NONBLOCK\<close> of the file flags has changed.\<close>

lemma bit_O_NONBLOCK: "bit O_NONBLOCK n \<longleftrightarrow> n = 11"
proof -
  have e: "O_NONBLOCK = 2 ^ 11" by (simp add: O_NONBLOCK_def)
  show ?thesis by (simp only: e bit_exp_iff) auto
qed

lemma makeBlock_fcntl_bits:
  assumes get: "sys_getfl os (fd s) w = (flags, w1)" "0 \<le> flags"
    and set: "\<And>v. sys_setfl os (fd s) v w1 = (0, W v)"
  shows "\<exists>v. makeBlock_fcntl os enabled s w = (True, W v) \<and> bit v 11 = (\<not> enabled)
    \<and> (\<forall>n. n \<noteq> 11 \<longrightarrow> bit v n = bit flags n)"
proof (intro exI conjI)
  let ?v = "if enabled then flags AND NOT O_NONBLOCK else flags OR O_NONBLOCK"
  show "makeBlock_fcntl os enabled s w = (True, W ?v)"
    using get set by (simp add: makeBlock_fcntl_def)
  show "bit ?v 11 = (\<not> enabled)" "\<forall>n. n \<noteq> 11 \<longrightarrow> bit ?v n = bit flags n"
    by (auto simp: bit_O_NONBLOCK bit_and_iff bit_or_iff bit_not_iff)
qed

end
