(* ===== verification/Client_Net.thy ===== *)
theory Client_Net
  imports Net_Socket
begin

text \<open>
  \<open>TcpNetwork/ClientNet\<close>: the client's connection, with a receive buffer of \<open>10*1024\<close> bytes that is
  cut into packets by the size field of the packet header, and a data buffer of \<open>100*1024\<close> bytes
  that holds the last packet. The two nested loops of \<open>runRecvMsg\<close> are partial functions: \<open>None\<close> says
  that the loop does not return. For the other operations \<open>None\<close> stands for undefined behaviour (a
  null pointer dereference, an access outside a buffer). The reference framing is \<open>frames\<close>.
\<close>

section \<open>State\<close>

record client_net =
  m_nOutBuff :: bytes
  m_nOutbufLen :: int
  m_InputBuff :: bytes
  m_cbDataBuf :: bytes
  m_nInbufLen :: nat
  m_tcpsocket :: "sock option"

definition MAX_MESSAGE_SIZE :: nat where
  "MAX_MESSAGE_SIZE = 5 * 1024"

definition IN_MAX_MESSAGE_SIZE :: nat where
  "IN_MAX_MESSAGE_SIZE = 10 * 1024"

definition IN_MAX_POOL_SIZE :: nat where
  "IN_MAX_POOL_SIZE = 100 * 1024"

definition ClientNet :: client_net where
  "ClientNet = \<lparr>m_nOutBuff = replicate MAX_MESSAGE_SIZE 0, m_nOutbufLen = 0,
     m_InputBuff = replicate IN_MAX_MESSAGE_SIZE 0, m_cbDataBuf = replicate IN_MAX_POOL_SIZE 0,
     m_nInbufLen = 0, m_tcpsocket = None\<rparr>"

section \<open>Operations\<close>

definition delete_socket :: "'w os \<Rightarrow> client_net \<Rightarrow> 'w \<Rightarrow> client_net \<times> 'w" where
  "delete_socket os st w =
     (case m_tcpsocket st of None \<Rightarrow> (st, w)
      | Some s \<Rightarrow> (st\<lparr>m_tcpsocket := None\<rparr>, Socket_close os s w))"

text \<open>
  \<open>connect\<close> goes on with a null \<open>m_tcpsocket\<close> when the new socket could not be initialized; that path
  dereferences the null pointer.
\<close>

definition connect :: "'w os \<Rightarrow> string option \<Rightarrow> int \<Rightarrow> int \<Rightarrow> client_net \<Rightarrow> 'w \<Rightarrow> (bool \<times> client_net \<times> 'w) option" where
  "connect os ServerIP ServerPort nBlockSec st w =
     (case ServerIP of
        None \<Rightarrow> Some (False, st, w)
      | Some ip \<Rightarrow>
          if 15 < length ip then Some (False, st, w)
          else
            (let (st1, w1) = delete_socket os st w;
                 (s, w2) = TcpSocket_new os w1 in
             if \<not> initialized s then None
             else
               (let (_, w3) = makeBlock os True s w2;
                    (ok, w4) = TcpSocket_connect os ip (word_of_int ServerPort) s w3 in
                if ok then
                  (let (_, w5) = makeLinger os True s w4;
                       (_, w6) = makeBlock os False s w5;
                       (_, w7) = makeNoDelay os True s w6;
                       (ret, except, w8) = sys_select os (fd s) nBlockSec w7;
                       st2 = st1\<lparr>m_tcpsocket := Some s\<rparr> in
                   if ret \<le> 0 then Some (False, st2, w8)
                   else if except then Some (False, st2, w8)
                   else Some (True, st2, w8))
                else Some (False, st1\<lparr>m_tcpsocket := None\<rparr>, Socket_close os s w4))))"

definition sendMsg :: "'w os \<Rightarrow> bytes option \<Rightarrow> int \<Rightarrow> client_net \<Rightarrow> 'w \<Rightarrow> bool \<times> 'w" where
  "sendMsg os pBuf nSize st w =
     (case pBuf of
        None \<Rightarrow> (False, w)
      | Some bs \<Rightarrow>
          if nSize \<le> 0 then (False, w)
          else case m_tcpsocket st of
            None \<Rightarrow> (False, w)
          | Some s \<Rightarrow>
              if fd s = INVALID_SOCKET then (False, w)
              else if nSize \<le> 0 \<or> int MAX_MESSAGE_SIZE < nSize then (False, w)
              else (True, snd (TcpSocket_write os bs nSize s w)))"

text \<open>The packet size of the header at the start of a buffer: 24 bits, stored in a \<open>UInt16\<close>.\<close>

definition nPacketSize :: "bytes \<Rightarrow> nat" where
  "nPacketSize b = unat (ucast (of_le32 b AND 0x00FFFFFF) :: UInt16)"

text \<open>One iteration of the inner loop of \<open>runRecvMsg\<close>, for a packet of \<open>n\<close> bytes.\<close>

definition remove_packet :: "nat \<Rightarrow> client_net \<Rightarrow> client_net" where
  "remove_packet n st = st\<lparr>
     m_cbDataBuf := take n (m_InputBuff st) @ drop n (m_cbDataBuf st),
     m_InputBuff := drop n (m_InputBuff st) @ drop (length (m_InputBuff st) - n) (m_InputBuff st),
     m_nInbufLen := m_nInbufLen st - n\<rparr>"

partial_function (option) split_loop :: "nat \<Rightarrow> client_net \<Rightarrow> (nat \<times> client_net) option" where
  "split_loop nCount st =
     (if 6 \<le> m_nInbufLen st then
        (let n = nPacketSize (m_InputBuff st) in
         if m_nInbufLen st < n then Some (nCount, st)
         else split_loop (nCount + 1) (remove_packet n st))
      else Some (nCount, st))"

definition store_received :: "bytes \<Rightarrow> client_net \<Rightarrow> client_net" where
  "store_received bs st = st\<lparr>
     m_InputBuff := take (m_nInbufLen st) (m_InputBuff st) @ bs
       @ drop (m_nInbufLen st + length bs) (m_InputBuff st),
     m_nInbufLen := m_nInbufLen st + length bs\<rparr>"

partial_function (option) recv_loop ::
  "'w os \<Rightarrow> sock \<Rightarrow> nat \<Rightarrow> client_net \<Rightarrow> 'w \<Rightarrow> (client_net \<times> 'w) option" where
  "recv_loop os s nCount st w =
     (let (nRecvSize, bs, w1) = TcpSocket_read os (int (length (m_InputBuff st)) - int (m_nInbufLen st)) s w in
      if nRecvSize \<le> 0 \<and> (lastErr os w1 \<noteq> WEINPROGRESS \<and> lastErr os w1 \<noteq> WEWOULDBLOCK) then Some (st, w1)
      else if nRecvSize \<le> 0 \<and> (lastErr os w1 = WEINPROGRESS \<or> lastErr os w1 = WEWOULDBLOCK) then Some (st, w1)
      else
        case split_loop nCount (store_received (take (nat nRecvSize) bs) st) of
          None \<Rightarrow> None
        | Some (nCount', st') \<Rightarrow> recv_loop os s nCount' st' w1)"

definition runRecvMsg :: "'w os \<Rightarrow> client_net \<Rightarrow> 'w \<Rightarrow> (client_net \<times> 'w) option" where
  "runRecvMsg os st w =
     (case m_tcpsocket st of
        None \<Rightarrow> Some (st, w)
      | Some s \<Rightarrow> if fd s = INVALID_SOCKET then Some (st, w) else recv_loop os s 0 st w)"

definition drainDataBuf :: "int \<Rightarrow> client_net \<Rightarrow> client_net option" where
  "drainDataBuf len st =
     (let b = m_cbDataBuf st; n = nat len in
      if 0 < len then
        (if length b < n then None
         else (let z = replicate n 0 @ drop n b in
               Some (st\<lparr>m_cbDataBuf := drop n z @ drop (length b - n) z\<rparr>)))
      else Some st)"

definition copyDataBuf :: "int \<Rightarrow> client_net \<Rightarrow> bytes option" where
  "copyDataBuf len st =
     (if len < 0 \<or> int (length (m_cbDataBuf st)) < len then None else Some (take (nat len) (m_cbDataBuf st)))"

section \<open>Reference framing\<close>

text \<open>
  The stream of received bytes, cut into packets: a packet is complete when the header and as many
  bytes as its size field says have arrived. A size field of zero makes no progress.
\<close>

definition complete :: "bytes \<Rightarrow> bool" where
  "complete p \<longleftrightarrow> 6 \<le> length p \<and> nPacketSize p \<le> length p"

function frames :: "bytes \<Rightarrow> bytes list \<times> bytes" where
  "frames p =
     (if complete p \<and> 0 < nPacketSize p
      then (let (fs, rest) = frames (drop (nPacketSize p) p) in (take (nPacketSize p) p # fs, rest))
      else ([], p))"
  by pat_completeness auto
termination by (relation "measure length") (auto simp: complete_def)

declare frames.simps [simp del]

definition stalled :: "bytes \<Rightarrow> bool" where
  "stalled p \<longleftrightarrow> complete (snd (frames p)) \<and> nPacketSize (snd (frames p)) = 0"

definition pending :: "client_net \<Rightarrow> bytes" where
  "pending st = take (m_nInbufLen st) (m_InputBuff st)"

definition client_net_ok :: "client_net \<Rightarrow> bool" where
  "client_net_ok st \<longleftrightarrow> length (m_InputBuff st) = IN_MAX_MESSAGE_SIZE
     \<and> length (m_cbDataBuf st) = IN_MAX_POOL_SIZE \<and> m_nInbufLen st \<le> IN_MAX_MESSAGE_SIZE"

lemmas buffer_sizes = MAX_MESSAGE_SIZE_def IN_MAX_MESSAGE_SIZE_def IN_MAX_POOL_SIZE_def

section \<open>Framing lemmas\<close>

lemma nPacketSize_take: "4 \<le> k \<Longrightarrow> nPacketSize (take k b) = nPacketSize b"
  by (simp add: nPacketSize_def of_le32_def)

lemma nPacketSize_append: "4 \<le> length b \<Longrightarrow> nPacketSize (b @ c) = nPacketSize b"
  by (auto simp: nPacketSize_def of_le32_def nth_append)

lemma frames_concat: "concat (fst (frames p)) @ snd (frames p) = p"
proof (induction p rule: frames.induct)
  case (1 p)
  then show ?case by (subst (1 2) frames.simps) (auto simp: case_prod_beta Let_def)
qed

lemma frames_not_complete: "\<not> complete p \<Longrightarrow> frames p = ([], p)"
  by (simp add: frames.simps)

lemma frames_Cons:
  "complete p \<Longrightarrow> 0 < nPacketSize p \<Longrightarrow>
     frames p = (take (nPacketSize p) p # fst (frames (drop (nPacketSize p) p)), snd (frames (drop (nPacketSize p) p)))"
  by (subst frames.simps) (simp add: case_prod_beta Let_def)

text \<open>Packets whose size field is their own length are recovered one by one, with any rest.\<close>

lemma frames_packets:
  "\<lbrakk>\<forall>f\<in>set fs. 6 \<le> length f \<and> nPacketSize f = length f; \<not> complete rest\<rbrakk> \<Longrightarrow>
     frames (concat fs @ rest) = (fs, rest)"
proof (induction fs)
  case (Cons f fs)
  then have f: "6 \<le> length f" "nPacketSize (f @ concat fs @ rest) = length f"
    by (auto simp: nPacketSize_append)
  then have "complete (f @ concat fs @ rest)" "0 < nPacketSize (f @ concat fs @ rest)"
    by (auto simp: complete_def)
  with f Cons show ?case by (simp add: frames_Cons)
qed (simp add: frames_not_complete)

section \<open>The buffer implements the framing\<close>

lemma remove_packet_ok:
  assumes "client_net_ok st" "n \<le> m_nInbufLen st"
  shows "client_net_ok (remove_packet n st)" "pending (remove_packet n st) = drop n (pending st)"
    and "take n (m_cbDataBuf (remove_packet n st)) = take n (pending st)"
  using assms by (auto simp: client_net_ok_def pending_def remove_packet_def buffer_sizes drop_take)

lemma length_pending: "client_net_ok st \<Longrightarrow> length (pending st) = m_nInbufLen st"
  by (simp add: pending_def client_net_ok_def)

lemma complete_pending:
  assumes "client_net_ok st"
  shows "complete (pending st) \<longleftrightarrow> 6 \<le> m_nInbufLen st \<and> nPacketSize (m_InputBuff st) \<le> m_nInbufLen st"
    and "6 \<le> m_nInbufLen st \<Longrightarrow> nPacketSize (pending st) = nPacketSize (m_InputBuff st)"
proof -
  show "6 \<le> m_nInbufLen st \<Longrightarrow> nPacketSize (pending st) = nPacketSize (m_InputBuff st)"
    by (simp add: pending_def nPacketSize_take)
  then show "complete (pending st) \<longleftrightarrow> 6 \<le> m_nInbufLen st \<and> nPacketSize (m_InputBuff st) \<le> m_nInbufLen st"
    using length_pending [OF assms] by (auto simp: complete_def)
qed

lemma split_loop_step:
  assumes "client_net_ok st"
  shows "split_loop k st = (if complete (pending st)
           then split_loop (k + 1) (remove_packet (nPacketSize (pending st)) st) else Some (k, st))"
  using complete_pending [OF assms] by (subst split_loop.simps) (auto simp: Let_def)

lemma split_loop_frames:
  assumes "client_net_ok st" "\<not> stalled (pending st)"
  shows "\<exists>st'. split_loop k st = Some (k + length (fst (frames (pending st))), st')
    \<and> client_net_ok st' \<and> pending st' = snd (frames (pending st)) \<and> m_tcpsocket st' = m_tcpsocket st"
  using assms
proof (induction "length (pending st)" arbitrary: k st rule: less_induct)
  case less
  let ?p = "pending st" and ?n = "nPacketSize (pending st)"
  show ?case
  proof (cases "complete ?p")
    case False
    with less.prems show ?thesis by (simp add: split_loop_step frames_not_complete)
  next
    case True
    have n: "0 < ?n" using less.prems(2) True by (cases "?n = 0") (auto simp: stalled_def frames.simps [of ?p])
    have le: "?n \<le> m_nInbufLen st" using True length_pending [OF less.prems(1)] by (simp add: complete_def)
    note fr = frames_Cons [OF True n] and rm = remove_packet_ok [OF less.prems(1) le]
    have "\<not> stalled (pending (remove_packet ?n st))" using less.prems(2) by (simp add: stalled_def fr rm)
    moreover have "length (pending (remove_packet ?n st)) < length ?p"
      using n True by (auto simp: rm complete_def)
    ultimately obtain st' where "split_loop (k + 1) (remove_packet ?n st) =
        Some (k + 1 + length (fst (frames (drop ?n ?p))), st')"
        "client_net_ok st'" "pending st' = snd (frames (drop ?n ?p))" "m_tcpsocket st' = m_tcpsocket st"
      using less.hyps [of "remove_packet ?n st" "k + 1"] rm by (auto simp: remove_packet_def)
    then show ?thesis using True less.prems(1) by (simp add: split_loop_step fr)
  qed
qed

lemma split_loop_stalled:
  assumes "split_loop k st = Some r" shows "client_net_ok st \<longrightarrow> \<not> stalled (pending st)"
proof (rule split_loop.raw_induct [OF _ assms])
  fix split_loop k st r
  assume 1: "\<And>k st r. split_loop k st = Some r \<Longrightarrow> client_net_ok st \<longrightarrow> \<not> stalled (pending st)"
    and 2: "(if 6 \<le> m_nInbufLen st then
        (let n = nPacketSize (m_InputBuff st) in
         if m_nInbufLen st < n then Some (k, st)
         else split_loop (k + 1) (remove_packet n st))
      else Some (k, st)) = Some r"
  show "client_net_ok st \<longrightarrow> \<not> stalled (pending st)"
  proof (intro impI notI)
    assume ok: "client_net_ok st" and stalled: "stalled (pending st)"
    let ?p = "pending st" and ?n = "nPacketSize (pending st)"
    have compl: "complete ?p"
      using stalled by (cases "complete ?p") (auto simp: stalled_def frames_not_complete)
    have le: "?n \<le> m_nInbufLen st" using compl length_pending [OF ok] by (simp add: complete_def)
    note rm = remove_packet_ok [OF ok le]
    have "split_loop (k + 1) (remove_packet ?n st) = Some r"
      using 2 compl complete_pending [OF ok] by (auto simp: Let_def)
    then have "\<not> stalled (pending (remove_packet ?n st))" using 1 rm(1) by blast
    moreover have "stalled (drop ?n ?p)"
      using stalled compl by (cases "?n = 0") (auto simp: stalled_def frames_Cons)
    ultimately show False by (simp add: rm)
  qed
qed

section \<open>Receiving\<close>

text \<open>What the code relies on of \<open>recv\<close>: a positive result counts the bytes written, at most \<open>len\<close>.\<close>

definition recv_contract :: "'w os \<Rightarrow> bool" where
  "recv_contract os \<longleftrightarrow> (\<forall>f len w n bs w'. sys_recv os f len w = (n, bs, w') \<longrightarrow> 0 < n \<longrightarrow>
     n \<le> len \<and> int (length bs) = n)"

lemma store_received_ok:
  assumes "client_net_ok st" "m_nInbufLen st + length bs \<le> IN_MAX_MESSAGE_SIZE"
  shows "client_net_ok (store_received bs st)" "pending (store_received bs st) = pending st @ bs"
    "m_tcpsocket (store_received bs st) = m_tcpsocket st"
  using assms by (auto simp: client_net_ok_def store_received_def pending_def)

lemma split_loop_ok:
  assumes "split_loop k st = Some (k', st')" "client_net_ok st"
  shows "client_net_ok st'" "pending st' = snd (frames (pending st))" "m_tcpsocket st' = m_tcpsocket st"
    "k' = k + length (fst (frames (pending st)))"
  using split_loop_frames [OF assms(2), of k] split_loop_stalled [OF assms(1)] assms by auto

lemma recv_fits:
  assumes "recv_contract os" "client_net_ok st" "0 < n"
    and "TcpSocket_read os (int (length (m_InputBuff st)) - int (m_nInbufLen st)) s w = (n, bs, w1)"
  shows "take (nat n) bs = bs" "m_nInbufLen st + length bs \<le> IN_MAX_MESSAGE_SIZE"
proof -
  have "n \<le> int (length (m_InputBuff st)) - int (m_nInbufLen st)" "int (length bs) = n"
    using assms unfolding recv_contract_def TcpSocket_read_def by blast+
  then show "take (nat n) bs = bs" "m_nInbufLen st + length bs \<le> IN_MAX_MESSAGE_SIZE"
    using assms(2) by (auto simp: client_net_ok_def)
qed

text \<open>Whatever the peer sends, the receive buffer is never overrun and the socket is kept.\<close>

lemma recv_loop_ok_aux:
  assumes os: "recv_contract os" and "recv_loop os s k st w = Some r"
  shows "os = os \<longrightarrow> client_net_ok st \<longrightarrow> client_net_ok (fst r) \<and> m_tcpsocket (fst r) = m_tcpsocket st"
proof (rule recv_loop.raw_induct [OF _ assms(2),
      where P = "\<lambda>os' s k st w r. os' = os \<longrightarrow> client_net_ok st \<longrightarrow> client_net_ok (fst r) \<and> m_tcpsocket (fst r) = m_tcpsocket st"], intro impI)
  fix rec os' s k st w r
  assume IH: "\<And>os' s k st w r. rec os' s k st w = Some r \<Longrightarrow> os' = os \<longrightarrow> client_net_ok st \<longrightarrow>
      client_net_ok (fst r) \<and> m_tcpsocket (fst r) = m_tcpsocket st"
    and body: "(let (nRecvSize, bs, w1) = TcpSocket_read os' (int (length (m_InputBuff st)) - int (m_nInbufLen st)) s w in
      if nRecvSize \<le> 0 \<and> (lastErr os' w1 \<noteq> WEINPROGRESS \<and> lastErr os' w1 \<noteq> WEWOULDBLOCK) then Some (st, w1)
      else if nRecvSize \<le> 0 \<and> (lastErr os' w1 = WEINPROGRESS \<or> lastErr os' w1 = WEWOULDBLOCK) then Some (st, w1)
      else
        case split_loop k (store_received (take (nat nRecvSize) bs) st) of
          None \<Rightarrow> None
        | Some (nCount', st') \<Rightarrow> rec os' s nCount' st' w1) = Some r"
    and "os' = os" and ok: "client_net_ok st"
  obtain n bs w1 where rd: "TcpSocket_read os (int (length (m_InputBuff st)) - int (m_nInbufLen st)) s w = (n, bs, w1)"
    by (cases "TcpSocket_read os (int (length (m_InputBuff st)) - int (m_nInbufLen st)) s w") auto
  show "client_net_ok (fst r) \<and> m_tcpsocket (fst r) = m_tcpsocket st"
  proof (cases "n \<le> 0")
    case True
    with body rd ok \<open>os' = os\<close> show ?thesis by (auto split: if_splits)
  next
    case False
    then have fits: "take (nat n) bs = bs" "m_nInbufLen st + length bs \<le> IN_MAX_MESSAGE_SIZE"
      using recv_fits [OF os ok _ rd] by auto
    with False body rd \<open>os' = os\<close> obtain k' st' where sp: "split_loop k (store_received bs st) = Some (k', st')"
      and rec: "rec os s k' st' w1 = Some r" by (auto split: option.splits)
    note st = store_received_ok [OF ok fits(2)]
    from IH [OF rec] show ?thesis using split_loop_ok [OF sp st(1)] st(3) by simp
  qed
qed

lemma recv_loop_ok:
  "\<lbrakk>recv_contract os; recv_loop os s k st w = Some r; client_net_ok st\<rbrakk> \<Longrightarrow>
     client_net_ok (fst r) \<and> m_tcpsocket (fst r) = m_tcpsocket st"
  using recv_loop_ok_aux [of os s k st w r] by simp

lemma recv_loop_once:
  assumes os: "recv_contract os" and ok: "client_net_ok st"
    and rd1: "TcpSocket_read os (int (length (m_InputBuff st)) - int (m_nInbufLen st)) s w = (n, bs, w1)" "0 < n"
    and rd2: "\<And>len. fst (TcpSocket_read os len s w1) \<le> 0 \<and> snd (snd (TcpSocket_read os len s w1)) = w2"
    and alive: "\<not> stalled (pending st @ bs)"
  shows "\<exists>st'. recv_loop os s k st w = Some (st', w2) \<and> client_net_ok st' \<and> pending st' = snd (frames (pending st @ bs))"
proof -
  have fits: "take (nat n) bs = bs" "m_nInbufLen st + length bs \<le> IN_MAX_MESSAGE_SIZE"
    using recv_fits [OF os ok rd1(2,1)] by auto
  note st = store_received_ok [OF ok fits(2)]
  obtain k' st' where sp: "split_loop k (store_received bs st) = Some (k', st')"
    using split_loop_frames [OF st(1), of k] alive st(2) by auto
  obtain bs2 where r2: "TcpSocket_read os (int (length (m_InputBuff st')) - int (m_nInbufLen st')) s w1 =
      (fst (TcpSocket_read os (int (length (m_InputBuff st')) - int (m_nInbufLen st')) s w1), bs2, w2)"
    using rd2 by (metis prod.collapse)
  have "recv_loop os s k' st' w1 = Some (st', w2)"
    by (subst recv_loop.simps) (use r2 rd2 in \<open>auto simp: case_prod_beta Let_def\<close>)
  then have "recv_loop os s k st w = Some (st', w2)"
    by (subst recv_loop.simps) (use rd1 fits sp in auto)
  then show ?thesis using split_loop_ok [OF sp st(1)] st(2) by auto
qed

section \<open>The data buffer\<close>

lemma drainDataBuf_eq:
  assumes "0 \<le> len" "nat len \<le> length (m_cbDataBuf st)"
  shows "\<exists>st'. drainDataBuf len st = Some st' \<and> length (m_cbDataBuf st') = length (m_cbDataBuf st)
    \<and> (\<forall>k. k \<le> length (m_cbDataBuf st) - nat len \<longrightarrow> take k (m_cbDataBuf st') = take k (drop (nat len) (m_cbDataBuf st)))"
proof (cases "len = 0")
  case False
  let ?b = "m_cbDataBuf st" and ?n = "nat len"
  define z where "z = replicate ?n 0 @ drop ?n ?b"
  have z: "length z = length ?b" "drop ?n z = drop ?n ?b" using assms by (auto simp: z_def)
  have "drainDataBuf len st = Some (st\<lparr>m_cbDataBuf := drop ?n z @ drop (length ?b - ?n) z\<rparr>)"
    using False assms by (simp add: drainDataBuf_def Let_def z_def)
  then show ?thesis using assms by (auto simp: z)
qed (use assms in \<open>auto simp: drainDataBuf_def\<close>)


section \<open>A scripted operating system\<close>

text \<open>
  An operating system whose world is the list of chunks that are still to be received; it satisfies
  \<open>recv_contract\<close> and serves the concrete runs below.
\<close>

definition script_os :: "bytes list os" where
  "script_os = \<lparr>
     sys_socket = \<lambda>af type protocol w. (3, w),
     sys_bind = \<lambda>f a w. (0, w), sys_listen = \<lambda>f n w. (0, w), sys_shutdown = \<lambda>f n w. (0, w),
     sys_close = \<lambda>f w. (0, w), sys_setsockopt = \<lambda>f l n v w. (0, w), sys_ioctl_fionbio = \<lambda>f v w. (0, w),
     sys_getfl = \<lambda>f w. (2, w), sys_setfl = \<lambda>f v w. (0, w), sys_lasterr = \<lambda>w. WEWOULDBLOCK,
     sys_inet_addr = \<lambda>a. 0x0100007F, sys_gethostbyname = \<lambda>a w. (None, w),
     sys_getsockname = \<lambda>f w. (- 1, \<lparr>sin_family = 0, sin_addr = 0, sin_port = 0\<rparr>, w),
     sys_getpeername = \<lambda>f w. (- 1, \<lparr>sin_family = 0, sin_addr = 0, sin_port = 0\<rparr>, w),
     sys_connect = \<lambda>f a w. (0, w),
     sys_recv = \<lambda>f len w. case w of [] \<Rightarrow> (- 1, [], [])
                | b # bs \<Rightarrow> if b \<noteq> [] \<and> int (length b) \<le> len then (int (length b), b, bs) else (- 1, [], []),
     sys_send = \<lambda>f bs n w. (n, w), sys_select = \<lambda>f n w. (1, False, w)\<rparr>"

lemma script_os_contract: "recv_contract script_os"
  by (auto simp: recv_contract_def script_os_def split: list.splits if_splits)

lemma ClientNet_ok: "client_net_ok ClientNet" "pending ClientNet = []" "m_tcpsocket ClientNet = None"
  by (simp_all add: client_net_ok_def ClientNet_def pending_def buffer_sizes)

definition connected :: client_net where
  "connected = ClientNet\<lparr>m_tcpsocket := Some (Socket_fd 3)\<rparr>"

lemma connected_ok: "client_net_ok connected" "pending connected = []" "m_tcpsocket connected = Some (Socket_fd 3)"
  by (simp_all add: client_net_ok_def connected_def ClientNet_def pending_def buffer_sizes)

section \<open>Properties\<close>

text \<open>
  C2. The inner loop of \<open>runRecvMsg\<close> refines the reference framing: on a buffer state that satisfies
  the invariant it returns exactly when the framing does not run into a header with size zero, and
  then it has removed all complete packets, counted them, and left the rest at the start of the
  buffer; on a zero size field it loops forever.
\<close>

theorem split_loop_refines_frames:
  assumes "client_net_ok st"
  shows "case split_loop k st of
           None \<Rightarrow> stalled (pending st)
         | Some (k', st') \<Rightarrow> \<not> stalled (pending st) \<and> client_net_ok st'
             \<and> k' = k + length (fst (frames (pending st))) \<and> pending st' = snd (frames (pending st))"
proof (cases "split_loop k st")
  case None
  then show ?thesis using split_loop_frames [OF assms, of k] by auto
next
  case (Some r)
  then obtain k' st' where "split_loop k st = Some (k', st')" by (cases r) auto
  then show ?thesis using split_loop_ok [OF _ assms, of k k' st'] split_loop_stalled [of k st "(k', st')"] assms by simp
qed

theorem split_loop_refines_frames_witness:
  "case split_loop 0 (store_received [8, 0, 0, 0, 1, 0, 8, 5, 9] ClientNet) of
     None \<Rightarrow> False | Some (k', st') \<Rightarrow> k' = 1 \<and> pending st' = [9]"
proof -
  let ?b = "[8, 0, 0, 0, 1, 0, 8, 5, 9] :: bytes"
  have st: "client_net_ok (store_received ?b ClientNet)" "pending (store_received ?b ClientNet) = ?b"
    using store_received_ok [OF ClientNet_ok(1), of ?b] ClientNet_ok by (auto simp: ClientNet_def buffer_sizes)
  have "frames ?b = ([[8, 0, 0, 0, 1, 0, 8, 5]], [9])"
    by (simp add: frames.simps complete_def nPacketSize_def of_le32_def)
  then show ?thesis
    using split_loop_refines_frames [OF st(1), of 0]
    by (auto simp: st(2) stalled_def complete_def split: option.splits)
qed

text \<open>
  C9. Receiving never overruns the receive buffer: with an operating system whose \<open>recv\<close> writes at
  most the bytes it was asked for, every run of \<open>runRecvMsg\<close> that returns preserves the invariant
  (buffer sizes, \<open>m_nInbufLen\<close> within the buffer) and keeps the socket.
\<close>

theorem runRecvMsg_preserves_invariant:
  assumes "recv_contract os" "client_net_ok st" "runRecvMsg os st w = Some (st', w')"
  shows "client_net_ok st' \<and> m_tcpsocket st' = m_tcpsocket st"
  using assms recv_loop_ok [OF assms(1), of _ 0 st w "(st', w')"]
  by (auto simp: runRecvMsg_def split: option.splits if_splits)

text \<open>
  C28. \<open>runRecvMsg\<close> makes the bytes of a read available: when one read delivers \<open>bs\<close> and the next one
  has nothing more, and the stream does not stall on a zero size field, the call returns, with the
  incomplete rest of (what was pending followed by \<open>bs\<close>) pending.
\<close>

theorem runRecvMsg_delivers:
  assumes "recv_contract os" "client_net_ok st" "m_tcpsocket st = Some s" "fd s \<noteq> INVALID_SOCKET"
    and "TcpSocket_read os (int (length (m_InputBuff st)) - int (m_nInbufLen st)) s w = (n, bs, w1)" "0 < n"
    and "\<And>len. fst (TcpSocket_read os len s w1) \<le> 0 \<and> snd (snd (TcpSocket_read os len s w1)) = w2"
    and "\<not> stalled (pending st @ bs)"
  shows "\<exists>st'. runRecvMsg os st w = Some (st', w2) \<and> client_net_ok st' \<and> pending st' = snd (frames (pending st @ bs))"
  using recv_loop_once [OF assms(1,2,5,6,7,8), of 0] assms(3,4) by (simp add: runRecvMsg_def)

lemma script_read:
  "TcpSocket_read script_os len s (b # bs) =
     (if b \<noteq> [] \<and> int (length b) \<le> len then (int (length b), b, bs) else (- 1, [], []))"
  "TcpSocket_read script_os len s [] = (- 1, [], [])"
  by (simp_all add: TcpSocket_read_def script_os_def)

theorem runRecvMsg_delivers_witness:
  "\<exists>st'. runRecvMsg script_os connected [[7, 0, 0, 0, 1, 0, 4, 7, 0]] = Some (st', []) \<and> pending st' = [7, 0]"
proof -
  let ?b = "[7, 0, 0, 0, 1, 0, 4, 7, 0] :: bytes"
  have fr: "frames ?b = ([[7, 0, 0, 0, 1, 0, 4]], [7, 0])"
    by (simp add: frames.simps complete_def nPacketSize_def of_le32_def)
  have "length (m_InputBuff connected) = 10240" "m_nInbufLen connected = 0"
    by (simp_all add: connected_def ClientNet_def buffer_sizes)
  then show ?thesis
    using runRecvMsg_delivers [OF script_os_contract connected_ok(1,3), of "[?b]" 9 ?b "[]" "[]"] fr connected_ok(2)
    by (auto simp: script_read stalled_def complete_def INVALID_SOCKET_def Socket_fd_def)
qed

theorem runRecvMsg_preserves_invariant_witness:
  "\<exists>st'. runRecvMsg script_os connected [] = Some (st', []) \<and> client_net_ok st'"
proof -
  have "recv_loop script_os (Socket_fd 3) 0 connected [] = Some (connected, [])"
    by (subst recv_loop.simps) (auto simp: script_read)
  then have "runRecvMsg script_os connected [] = Some (connected, [])"
    by (simp add: runRecvMsg_def connected_ok Socket_fd_def INVALID_SOCKET_def)
  with runRecvMsg_preserves_invariant [OF script_os_contract connected_ok(1)] show ?thesis by blast
qed

end
