(* ===== verification/Packets.thy ===== *)
theory Packets
  imports Ssu_Codec Client_Net
begin

text \<open>
  \<open>Classes/Packet\<close>: the two packet classes of the protocol (\<open>PacketsCtoS\<close>, \<open>PacketsStoC\<close>), as object
  classes of \<open>Ssu_Codec\<close>, and \<open>Builder\<close>, which puts the six-byte header (24 bits of size, one byte for
  a key, 16 bits of opcode) in front of a packed object and hands the result to \<open>ClientNet::sendMsg\<close>.
\<close>

section \<open>CSUserLogin\<close>

record CSUserLogin_0x1 =
  result :: UInt32

definition CSUserLogin_packBuffer :: "bytes \<Rightarrow> CSUserLogin_0x1 \<Rightarrow> bytes" where
  "CSUserLogin_packBuffer bf x = packUInt32Tag bf 1 (result x)"

definition CSUserLogin_size :: "CSUserLogin_0x1 \<Rightarrow> nat" where
  "CSUserLogin_size x = 1 + sizeUInt32 (result x)"

lemma unpackTag_progress: "unpackTag c = Ok t c' \<Longrightarrow> leftSize c' < leftSize c"
  by (cases "unpackUInt32 c") (auto simp: unpackTag_def advanced_def dest!: uint32.progress)

text \<open>
  The loop over the fields. A tag other than \<open>1\<close> is ignored and its payload is not skipped: the next
  iteration reads a tag at the first byte of the payload.
\<close>

function CSUserLogin_unpackBuffer :: "cursor \<Rightarrow> CSUserLogin_0x1 \<Rightarrow> CSUserLogin_0x1 unpacked" where
  "CSUserLogin_unpackBuffer c x =
     (if 0 < leftSize c then
        (case unpackTag c of
           Undef \<Rightarrow> Undef
         | Fail c' \<Rightarrow> Fail c'
         | Ok (tag, type) c' \<Rightarrow>
             (if tag = 1 then
                (if type \<noteq> 0 then Fail c'
                 else case unpackUInt32 c' of
                   Undef \<Rightarrow> Undef
                 | Fail c'' \<Rightarrow> Fail c''
                 | Ok v c'' \<Rightarrow> CSUserLogin_unpackBuffer c'' (x\<lparr>result := v\<rparr>))
              else CSUserLogin_unpackBuffer c' x))
      else Ok x c)"
  by pat_completeness auto
termination
  by (relation "measure (\<lambda>(c, x). leftSize c)")
    (auto simp: advanced_def dest!: unpackTag_progress uint32.progress)

declare CSUserLogin_unpackBuffer.simps [simp del]

definition CSUserLogin_class :: "CSUserLogin_0x1 object_class" where
  "CSUserLogin_class = \<lparr>osize = CSUserLogin_size, opackBuffer = CSUserLogin_packBuffer,
     ounpackBuffer = CSUserLogin_unpackBuffer\<rparr>"

section \<open>SCUserLogin\<close>

datatype SCUserLogin_0x1 = SCUserLogin_0x1

definition SCUserLogin_class :: "SCUserLogin_0x1 object_class" where
  "SCUserLogin_class = \<lparr>osize = \<lambda>x. 0, opackBuffer = \<lambda>bf x. bf, ounpackBuffer = \<lambda>c x. Ok x c\<rparr>"

section \<open>Both classes satisfy the object contract\<close>

lemma packUInt32Tag_eq: "packUInt32Tag bf i v = bf @ packTag [] i 0 @ packUInt32 [] v"
  using packTag_eq [of bf i 0] by (simp add: packUInt32Tag_def packUInt32_eq)

lemma tag_1: "sizeTag 1 0 = 1" "unpackTag \<lparr>buf = packTag [] 1 0 @ rest, leftSize = Suc ls\<rparr> =
    Ok (1, 0) \<lparr>buf = rest, leftSize = ls\<rparr>"
  using sizeTag_small [of 1 0] unpackTag_packTag [of 1 0 "Suc ls" rest] by simp_all

lemma CSUserLogin_roundtrip:
  "CSUserLogin_unpackBuffer \<lparr>buf = CSUserLogin_packBuffer [] x @ rest, leftSize = CSUserLogin_size x\<rparr> x0 =
     Ok x \<lparr>buf = rest, leftSize = 0\<rparr>"
proof -
  have "unpackTag \<lparr>buf = CSUserLogin_packBuffer [] x @ rest, leftSize = CSUserLogin_size x\<rparr> =
      Ok (1, 0) \<lparr>buf = packUInt32 [] (result x) @ rest, leftSize = sizeUInt32 (result x)\<rparr>"
    by (simp add: CSUserLogin_packBuffer_def packUInt32Tag_eq CSUserLogin_size_def tag_1)
  then show ?thesis
    by (subst CSUserLogin_unpackBuffer.simps, simp add: CSUserLogin_size_def uint32.unpack_pack)
      (subst CSUserLogin_unpackBuffer.simps, simp)
qed

interpretation cs_login: ssu_object CSUserLogin_class
proof
  show "opackBuffer CSUserLogin_class bf x = bf @ opackBuffer CSUserLogin_class [] x" for bf x
    by (simp add: CSUserLogin_class_def CSUserLogin_packBuffer_def packUInt32Tag_eq)
  show "length (opackBuffer CSUserLogin_class [] x) = osize CSUserLogin_class x" for x
    by (simp add: CSUserLogin_class_def CSUserLogin_packBuffer_def packUInt32Tag_eq CSUserLogin_size_def
        length_packTag tag_1 uint32.pack_length)
qed (simp add: CSUserLogin_class_def CSUserLogin_roundtrip)

interpretation sc_login: ssu_object SCUserLogin_class
proof
  show "ounpackBuffer SCUserLogin_class \<lparr>buf = opackBuffer SCUserLogin_class [] x @ rest, leftSize = osize SCUserLogin_class x\<rparr> x0 =
      Ok x \<lparr>buf = rest, leftSize = 0\<rparr>" for x rest x0
    by (cases x; cases x0) (simp add: SCUserLogin_class_def)
qed (simp_all add: SCUserLogin_class_def)

section \<open>Builder\<close>

record 'o builder =
  stream :: "bytes option"
  bop :: UInt16
  content :: 'o

definition Builder :: "UInt16 \<Rightarrow> 'o \<Rightarrow> 'o builder" where
  "Builder o1 x = \<lparr>stream = None, bop = o1, content = x\<rparr>"

text \<open>
  \<open>pack\<close>, with \<open>packContent\<close> of \<open>BuilderT\<close> inlined; \<open>mem_ok\<close> says whether \<open>new(std::nothrow)\<close> succeeds and
  \<open>None\<close> stands for a \<open>packBuffer\<close> that writes more than \<open>size()\<close> bytes.
\<close>

definition builder_pack :: "bool \<Rightarrow> 'o object_class \<Rightarrow> 'o builder \<Rightarrow> (bool \<times> 'o builder) option" where
  "builder_pack mem_ok cls b =
     (if \<not> mem_ok then Some (False, b)
      else
        (let s = replicate 4 0 @ le16 (bop b) in
         case object_pack cls (content b) s of
           None \<Rightarrow> None
         | Some s' \<Rightarrow>
             (let sz = word_of_nat (size_sub (length s') 6) :: UInt64 in
              Some (True, b\<lparr>stream := Some (take 3 (le64 sz) @ drop 3 s')\<rparr>))))"

definition repack :: "bool \<Rightarrow> 'o object_class \<Rightarrow> 'o builder \<Rightarrow> (bool \<times> 'o builder) option" where
  "repack mem_ok cls b = builder_pack mem_ok cls b"

definition ensure_packed :: "bool \<Rightarrow> 'o object_class \<Rightarrow> 'o builder \<Rightarrow> (bool \<times> 'o builder) option" where
  "ensure_packed mem_ok cls b =
     (case stream b of Some _ \<Rightarrow> Some (True, b) | None \<Rightarrow> builder_pack mem_ok cls b)"

definition builder_data :: "bool \<Rightarrow> 'o object_class \<Rightarrow> 'o builder \<Rightarrow> (bytes \<times> 'o builder) option" where
  "builder_data mem_ok cls b =
     (case ensure_packed mem_ok cls b of
        None \<Rightarrow> None
      | Some (ok, b') \<Rightarrow> Some (if ok then the (stream b') else [], b'))"

definition builder_send ::
  "'w os \<Rightarrow> bool \<Rightarrow> 'o object_class \<Rightarrow> client_net \<Rightarrow> 'o builder \<Rightarrow> 'w \<Rightarrow> ('o builder \<times> 'w) option" where
  "builder_send os mem_ok cls net b w =
     (case ensure_packed mem_ok cls b of
        None \<Rightarrow> None
      | Some (ok, b') \<Rightarrow>
          (case stream b' of
             Some s \<Rightarrow> Some (b', if ok then snd (sendMsg os (Some s) (sint (word_of_nat (length s) :: Int32)) net w) else w)
           | None \<Rightarrow> Some (b', w)))"

section \<open>The packet a builder makes\<close>

definition packet :: "UInt16 \<Rightarrow> bytes \<Rightarrow> bytes" where
  "packet o1 body = take 3 (le64 (word_of_nat (length body))) @ [0] @ le16 o1 @ body"

lemma length_packet [simp]: "length (packet o1 body) = 6 + length body"
  by (simp add: packet_def)

lemma builder_pack_eq:
  assumes "object_pack cls (content b) s = Some (s @ body)" "s = replicate 4 0 @ le16 (bop b)"
  shows "builder_pack True cls b = Some (True, b\<lparr>stream := Some (packet (bop b) body)\<rparr>)"
proof -
  have "drop 3 (replicate 4 0 @ le16 (bop b) @ body) = [0] @ le16 (bop b) @ body"
    by (simp add: numeral_eq_Suc)
  then show ?thesis using assms by (simp add: builder_pack_def Let_def packet_def)
qed

lemma take3_le64: "take 3 (le64 w) = [ucast w, ucast (drop_bit 8 w), ucast (drop_bit 16 w)]"
proof -
  have "take 3 (le64 w) = [ucast (ucast w :: UInt32), ucast (drop_bit 8 (ucast w :: UInt32)),
      ucast (drop_bit 16 (ucast w :: UInt32))]"
    by (simp add: le64_def le32_def)
  moreover have "(ucast (drop_bit k (ucast w :: UInt32)) :: UInt8) = ucast (drop_bit k w)" if "k \<le> 24" for k
    by (rule bit_word_eqI) (use that in \<open>auto simp: bit_simps\<close>)
  from this [of 0] this [of 8] this [of 16] have "(ucast (ucast w :: UInt32) :: UInt8) = ucast w"
    "(ucast (drop_bit 8 (ucast w :: UInt32)) :: UInt8) = ucast (drop_bit 8 w)"
    "(ucast (drop_bit 16 (ucast w :: UInt32)) :: UInt8) = ucast (drop_bit 16 w)" by simp_all
  ultimately show ?thesis by simp
qed

lemma le64_low3:
  assumes "n < 2 ^ 24"
  shows "of_le32 (take 3 (le64 (word_of_nat n)) @ k # rest) AND 0x00FFFFFF = word_of_nat n"
proof -
  have m: "(0x00FFFFFF :: UInt32) = mask 24" by (simp add: mask_eq_exp_minus_1)
  have "bit (of_le32 (take 3 (le64 (word_of_nat n)) @ k # rest) AND mask 24) i = bit (word_of_nat n :: UInt32) i"
    if "i < 32" for i
  proof -
    have hi: "\<not> bit n i" if "24 \<le> i" using assms that by (metis bit_take_bit_iff leD take_bit_nat_eq_self)
    consider "i < 8" | "8 \<le> i" "i < 16" | "16 \<le> i" "i < 24" | "24 \<le> i" by fastforce
    then show ?thesis using that hi
      by cases (auto simp: of_le32_def take3_le64 bit_simps)
  qed
  then show ?thesis unfolding m by (intro bit_word_eqI) simp
qed

section \<open>Properties\<close>

text \<open>
  A nested object whose length field exceeds what is left of the message, but whose class accepts
  the bytes, is accepted: the outer \<open>leftSize\<close> then wraps around to nearly \<open>2^64\<close>.
\<close>

theorem nested_length_not_checked:
  assumes "unpackUInt32 c = Ok n c'" "leftSize c' < unat n"
    and "ounpackBuffer cls \<lparr>buf = buf c', leftSize = unat n\<rparr> x = Ok x' c''"
  shows "unpackObject cls c x = Ok x' \<lparr>buf = drop (unat n) (buf c'), leftSize = 2 ^ 64 + leftSize c' - unat n\<rparr>"
  by (rule unpackObject_wraps) (rule assms)+

theorem nested_length_not_checked_witness:
  "unpackObject SCUserLogin_class \<lparr>buf = [100, 1, 2], leftSize = 3\<rparr> SCUserLogin_0x1 =
     Ok SCUserLogin_0x1 \<lparr>buf = [], leftSize = 2 ^ 64 - 98\<rparr>"
  using nested_length_not_checked [of "\<lparr>buf = [100, 1, 2], leftSize = 3\<rparr>" 100 "\<lparr>buf = [1, 2], leftSize = 2\<rparr>"
      SCUserLogin_class SCUserLogin_0x1]
  by (simp add: SCUserLogin_class_def unpackUInt32_def unpackVarint_def)

text \<open>
  Nested objects round trip: a login object written by \<open>packObjectTag\<close> is restored by \<open>unpackTag\<close>
  and \<open>unpackObject\<close>, whatever object it is read into, and \<open>sizeObject\<close> counts the bytes after the tag.
\<close>

theorem nested_object_roundtrip:
  "length (packObjectTag CSUserLogin_class [] 1 x) = 1 + sizeObject CSUserLogin_class x
   \<and> and_then (unpackTag \<lparr>buf = packObjectTag CSUserLogin_class [] 1 x @ rest,
        leftSize = length (packObjectTag CSUserLogin_class [] 1 x) + k\<rparr>)
        (\<lambda>_ c. unpackObject CSUserLogin_class c x0) = Ok x \<lparr>buf = rest, leftSize = k\<rparr>"
proof -
  have t: "sizeTag 1 2 = 1" using sizeTag_small [of 1 2] by simp
  have sz: "osize CSUserLogin_class x < 2 ^ 32"
    by (simp add: CSUserLogin_class_def CSUserLogin_size_def sizeUInt32_def)
  have tag: "unpackTag \<lparr>buf = packObjectTag CSUserLogin_class [] 1 x @ rest, leftSize = 1 + sizeObject CSUserLogin_class x + k\<rparr> =
      Ok (1, 2) \<lparr>buf = packUInt32 [] (word_of_nat (osize CSUserLogin_class x)) @ opackBuffer CSUserLogin_class [] x @ rest,
        leftSize = sizeObject CSUserLogin_class x + k\<rparr>"
    using unpackTag_packTag [of 1 2 "1 + sizeObject CSUserLogin_class x + k"] t by (simp add: cs_login.packObjectTag_eq)
  show ?thesis
    using cs_login.unpackObject_packed [OF sz, of "sizeObject CSUserLogin_class x + k" rest x0] tag t
    by (simp add: cs_login.length_packObjectTag)
qed

text \<open>
  A login packet survives its own codec for every value of \<open>result\<close>: \<open>Object::pack\<close> never writes
  beyond the \<open>size()\<close> bytes it reserved, appends to what the buffer held, and \<open>Object::unpack\<close> on those
  bytes restores the object.
\<close>

theorem login_pack_unpack:
  "\<exists>bs. object_pack CSUserLogin_class x bf = Some (bf @ bs) \<and> length bs = CSUserLogin_size x
     \<and> object_unpack CSUserLogin_class bs (length bs) x0 = Ok x \<lparr>buf = [], leftSize = 0\<rparr>"
  using cs_login.object_pack_eq [of x] cs_login.opack_length [of x] cs_login.object_roundtrip [of x _ x0]
  by (intro exI [of _ "opackBuffer CSUserLogin_class [] x"]) (simp add: CSUserLogin_class_def)

end
