(* ===== verification/Msg_Queue.thy ===== *)
theory Msg_Queue
  imports Prelude
begin

text \<open>
  \<open>System/MsgQueue.h\<close> (a double-buffered message queue) over \<open>System/Event\<close> in its pthread version
  \<open>System/Unix/EventImpl\<close>. The sequential operations come first; then the interleaving of any number
  of producers with the one consumer as a step relation, in which the queue mutex makes a push and
  the swap of the two buffers exclude each other, while waiting for the event, resetting it and
  clearing the fetched buffer happen outside the mutex, as in the code.
\<close>

section \<open>Event\<close>

record event =
  eauto :: bool
  estate :: bool

definition EventImpl :: "bool \<Rightarrow> event" where
  "EventImpl autoReset = \<lparr>eauto = autoReset, estate = False\<rparr>"

definition setImpl :: "event \<Rightarrow> event" where
  "setImpl e = e\<lparr>estate := True\<rparr>"

definition resetImpl :: "event \<Rightarrow> event" where
  "resetImpl e = e\<lparr>estate := False\<rparr>"

text \<open>
  A wait with a timeout, when no other thread changes the event before the deadline: it succeeds on
  a signalled event and times out on one that is not.
\<close>

definition tryWait :: "event \<Rightarrow> bool \<times> event" where
  "tryWait e = (if estate e then (True, if eauto e then e\<lparr>estate := False\<rparr> else e) else (False, e))"

text \<open>
  The absolute deadline \<open>(tv_sec, tv_nsec)\<close> that \<open>waitImpl\<close> computes from the time of day. The callers
  pass a \<open>UInt32\<close> timeout, so that the division and remainder are on non-negative numbers.
\<close>

definition abstime :: "int \<Rightarrow> int \<Rightarrow> int \<Rightarrow> int \<times> int" where
  "abstime tv_sec tv_usec milliseconds =
     (let sec = tv_sec + milliseconds div 1000;
          nsec = tv_usec * 1000 + (milliseconds mod 1000) * 1000000 in
      if 1000000000 \<le> nsec then (sec + 1, nsec - 1000000000) else (sec, nsec))"

section \<open>MsgQueue\<close>

record 'a msg_queue =
  currQueue :: nat
  qevent :: event
  msgQueue :: "'a list list"

definition MsgQueue :: "'a msg_queue" where
  "MsgQueue = \<lparr>currQueue = 0, qevent = EventImpl False, msgQueue = [[], []]\<rparr>"

definition pushMsgNoLock :: "'a \<Rightarrow> 'a msg_queue \<Rightarrow> 'a msg_queue" where
  "pushMsgNoLock x q = q\<lparr>msgQueue := (msgQueue q)[currQueue q := (msgQueue q ! currQueue q) @ [x]]\<rparr>"

definition pushMsg :: "'a \<Rightarrow> 'a msg_queue \<Rightarrow> 'a msg_queue" where
  "pushMsg x q = (let q' = pushMsgNoLock x q in q'\<lparr>qevent := setImpl (qevent q')\<rparr>)"

text \<open>The pointer \<open>fetchMsg\<close> returns is the index of the buffer it points to.\<close>

definition fetchMsg :: "'a msg_queue \<Rightarrow> nat option \<times> 'a msg_queue" where
  "fetchMsg q =
     (if msgQueue q ! currQueue q = [] then (None, q)
      else (let q' = q\<lparr>currQueue := 1 - currQueue q\<rparr> in (Some (1 - currQueue q'), q')))"

definition fetchMsg_wait :: "'a msg_queue \<Rightarrow> nat option \<times> 'a msg_queue" where
  "fetchMsg_wait q =
     (let (ok, e) = tryWait (qevent q) in
      if \<not> ok then (None, q\<lparr>qevent := e\<rparr>)
      else (let (r, q') = fetchMsg (q\<lparr>qevent := e\<rparr>) in (r, q'\<lparr>qevent := resetImpl (qevent q')\<rparr>)))"

definition fetchEnd :: "nat \<Rightarrow> 'a msg_queue \<Rightarrow> 'a msg_queue" where
  "fetchEnd i q = q\<lparr>msgQueue := (msgQueue q)[i := []]\<rparr>"

definition tryWaitEvent :: "'a msg_queue \<Rightarrow> bool \<times> 'a msg_queue" where
  "tryWaitEvent q =
     (let (ok, e) = tryWait (qevent q) in
      if \<not> ok then (False, q\<lparr>qevent := e\<rparr>) else (True, q\<lparr>qevent := resetImpl e\<rparr>))"

section \<open>Producers and the consumer, interleaved\<close>

datatype consumer = Idle | Waited | Fetched "nat option" | Busy nat

text \<open>
  \<open>pushing\<close> says that a producer holds the queue mutex between its \<open>push_back\<close> and its \<open>set\<close>;
  \<open>sent\<close> and \<open>delivered\<close> record the messages pushed and the messages handed to the consumer's loop.
\<close>

record 'a system =
  mq :: "'a msg_queue"
  pushing :: bool
  cons :: consumer
  sent :: "'a list"
  delivered :: "'a list"

definition init_system :: "'a system" where
  "init_system = \<lparr>mq = MsgQueue, pushing = False, cons = Idle, sent = [], delivered = []\<rparr>"

inductive mq_step :: "'a system \<Rightarrow> 'a system \<Rightarrow> bool" where
  push_begin: "\<not> pushing s \<Longrightarrow>
    mq_step s (s\<lparr>mq := pushMsgNoLock x (mq s), pushing := True, sent := sent s @ [x]\<rparr>)"
| push_end: "pushing s \<Longrightarrow>
    mq_step s (s\<lparr>mq := (mq s)\<lparr>qevent := setImpl (qevent (mq s))\<rparr>, pushing := False\<rparr>)"
| c_wait: "cons s = Idle \<Longrightarrow> tryWait (qevent (mq s)) = (True, e) \<Longrightarrow>
    mq_step s (s\<lparr>mq := (mq s)\<lparr>qevent := e\<rparr>, cons := Waited\<rparr>)"
| c_fetch: "cons s = Waited \<Longrightarrow> \<not> pushing s \<Longrightarrow> fetchMsg (mq s) = (r, q) \<Longrightarrow>
    mq_step s (s\<lparr>mq := q, cons := Fetched r\<rparr>)"
| c_reset_none: "cons s = Fetched None \<Longrightarrow>
    mq_step s (s\<lparr>mq := (mq s)\<lparr>qevent := resetImpl (qevent (mq s))\<rparr>, cons := Idle\<rparr>)"
| c_reset_some: "cons s = Fetched (Some i) \<Longrightarrow>
    mq_step s (s\<lparr>mq := (mq s)\<lparr>qevent := resetImpl (qevent (mq s))\<rparr>, cons := Busy i,
                delivered := delivered s @ (msgQueue (mq s) ! i)\<rparr>)"
| c_end: "cons s = Busy i \<Longrightarrow>
    mq_step s (s\<lparr>mq := fetchEnd i (mq s), cons := Idle\<rparr>)"

inductive_cases mq_stepE: "mq_step s s'"

inductive mq_reachable :: "'a system \<Rightarrow> bool" where
  mq_init: "mq_reachable init_system"
| mq_more: "mq_reachable s \<Longrightarrow> mq_step s s' \<Longrightarrow> mq_reachable s'"

section \<open>The invariant\<close>

definition mq_current :: "'a msg_queue \<Rightarrow> 'a list" where
  "mq_current q = msgQueue q ! currQueue q"

definition mq_other :: "'a msg_queue \<Rightarrow> 'a list" where
  "mq_other q = msgQueue q ! (1 - currQueue q)"

definition in_flight :: "'a system \<Rightarrow> 'a list" where
  "in_flight s = (case cons s of Fetched (Some i) \<Rightarrow> msgQueue (mq s) ! i | _ \<Rightarrow> [])"

definition mq_inv :: "'a system \<Rightarrow> bool" where
  "mq_inv s \<longleftrightarrow> length (msgQueue (mq s)) = 2 \<and> currQueue (mq s) < 2
     \<and> sent s = delivered s @ in_flight s @ mq_current (mq s)
     \<and> (case cons s of Fetched (Some i) \<Rightarrow> i = 1 - currQueue (mq s)
        | Busy i \<Rightarrow> i = 1 - currQueue (mq s) | _ \<Rightarrow> mq_other (mq s) = [])"

lemmas mq_defs = mq_inv_def mq_current_def mq_other_def in_flight_def

lemma mq_two: "length qs = 2 \<Longrightarrow> k < (2 :: nat) \<Longrightarrow> (\<exists>a b. qs = [a, b]) \<and> (k = 0 \<or> k = 1)"
  by (auto simp: numeral_2_eq_2 length_Suc_conv less_Suc_eq)

lemma mq_inv_step: "mq_step s s' \<Longrightarrow> mq_inv s \<Longrightarrow> mq_inv s'"
proof (induction rule: mq_step.induct)
  case (c_fetch s r q)
  then show ?case using mq_two [of "msgQueue (mq s)" "currQueue (mq s)"]
    by (auto simp: mq_defs fetchMsg_def Let_def split: if_splits)
next
  case (c_end s i)
  then show ?case using mq_two [of "msgQueue (mq s)" "currQueue (mq s)"]
    by (auto simp: mq_defs fetchEnd_def)
next
  case (push_begin s x)
  then show ?case using mq_two [of "msgQueue (mq s)" "currQueue (mq s)"]
    by (auto simp: mq_defs pushMsgNoLock_def split: consumer.splits option.splits)
qed (auto simp: mq_defs split: consumer.splits option.splits)

lemma mq_inv_reachable: "mq_reachable s \<Longrightarrow> mq_inv s"
  by (induction rule: mq_reachable.induct)
    (auto simp: mq_inv_step, simp add: mq_defs init_system_def MsgQueue_def)

section \<open>Properties\<close>

text \<open>
  C3. Under every interleaving of producers with the consumer, the messages handed to the consumer,
  followed by the buffer it has just fetched and the buffer producers push to, are exactly the
  messages pushed, in order: none is lost, duplicated or reordered.
\<close>

theorem msgQueue_fifo:
  "mq_reachable s \<Longrightarrow> sent s = delivered s @ in_flight s @ mq_current (mq s)"
  using mq_inv_reachable [of s] by (simp add: mq_inv_def)

text \<open>A run with one complete push, one fetch, and a second push before the event is reset.\<close>

definition missed_wakeup :: "nat system" where
  "missed_wakeup = \<lparr>mq = \<lparr>currQueue = 1, qevent = \<lparr>eauto = False, estate = False\<rparr>, msgQueue = [[], [2]]\<rparr>,
     pushing = False, cons = Idle, sent = [1, 2], delivered = [1]\<rparr>"

lemma missed_wakeup_reachable: "mq_reachable missed_wakeup"
proof -
  let ?e = "\<lambda>b. \<lparr>eauto = False, estate = b\<rparr>"
  let ?s = "\<lambda>cur b qs p c sn dl. \<lparr>mq = \<lparr>currQueue = cur, qevent = ?e b, msgQueue = qs\<rparr>,
     pushing = p, cons = c, sent = sn, delivered = dl\<rparr> :: nat system"
  note defs = pushMsgNoLock_def setImpl_def resetImpl_def tryWait_def fetchMsg_def fetchEnd_def Let_def
  have "mq_reachable (?s 0 False [[], []] False Idle [] [])"
    using mq_init [where 'a = nat] by (simp add: init_system_def MsgQueue_def EventImpl_def)
  then have "mq_reachable (?s 0 False [[1], []] True Idle [1] [])"
    by (rule mq_more) (use mq_step.push_begin [of "?s 0 False [[], []] False Idle [] []" 1] in \<open>simp add: defs\<close>)
  then have "mq_reachable (?s 0 True [[1], []] False Idle [1] [])"
    by (rule mq_more) (use mq_step.push_end [of "?s 0 False [[1], []] True Idle [1] []"] in \<open>simp add: defs\<close>)
  then have "mq_reachable (?s 0 True [[1], []] False Waited [1] [])"
    by (rule mq_more) (use mq_step.c_wait [of "?s 0 True [[1], []] False Idle [1] []" "?e True"] in \<open>simp add: defs\<close>)
  then have "mq_reachable (?s 1 True [[1], []] False (Fetched (Some 0)) [1] [])"
    by (rule mq_more) (use mq_step.c_fetch [of "?s 0 True [[1], []] False Waited [1] []"] in \<open>simp add: defs\<close>)
  then have "mq_reachable (?s 1 True [[1], [2]] True (Fetched (Some 0)) [1, 2] [])"
    by (rule mq_more) (use mq_step.push_begin [of "?s 1 True [[1], []] False (Fetched (Some 0)) [1] []" 2] in \<open>simp add: defs\<close>)
  then have "mq_reachable (?s 1 True [[1], [2]] False (Fetched (Some 0)) [1, 2] [])"
    by (rule mq_more) (use mq_step.push_end [of "?s 1 True [[1], [2]] True (Fetched (Some 0)) [1, 2] []"] in \<open>simp add: defs\<close>)
  then have "mq_reachable (?s 1 False [[1], [2]] False (Busy 0) [1, 2] [1])"
    by (rule mq_more) (use mq_step.c_reset_some [of "?s 1 True [[1], [2]] False (Fetched (Some 0)) [1, 2] []"] in \<open>simp add: defs\<close>)
  then have "mq_reachable (?s 1 False [[], [2]] False Idle [1, 2] [1])"
    by (rule mq_more) (use mq_step.c_end [of "?s 1 False [[1], [2]] False (Busy 0) [1, 2] [1]"] in \<open>simp add: defs\<close>)
  then show ?thesis by (simp add: missed_wakeup_def)
qed

theorem msgQueue_fifo_witness:
  "sent missed_wakeup = delivered missed_wakeup @ in_flight missed_wakeup @ mq_current (mq missed_wakeup)"
  by (rule msgQueue_fifo) (rule missed_wakeup_reachable)

text \<open>
  A wake-up can be missed: \<open>fetchMsg(milli)\<close> resets the event after it has released the mutex, so
  a state is reachable in which a message waits in the queue, no push is under way, the consumer is
  idle, and its wait does not succeed.
\<close>

theorem msgQueue_missed_wakeup:
  "\<exists>s :: nat system. mq_reachable s \<and> mq_current (mq s) \<noteq> [] \<and> \<not> pushing s \<and> cons s = Idle
     \<and> fst (tryWait (qevent (mq s))) = False \<and> fst (fetchMsg_wait (mq s)) = None"
  by (rule exI [of _ missed_wakeup])
    (simp add: missed_wakeup_reachable, simp add: missed_wakeup_def mq_current_def tryWait_def fetchMsg_wait_def)

text \<open>
  The deadline of a timed wait is normalised, \<open>0 \<le> tv_nsec < 10^9\<close>, and lies exactly the requested
  number of milliseconds after the time of day (for a non-negative timeout and a normalised time).
\<close>

lemma abstime_normalised:
  assumes "0 \<le> usec" "usec < 1000000" "0 \<le> ms"
  shows "case abstime sec usec ms of (s, n) \<Rightarrow> 0 \<le> n \<and> n < 1000000000
    \<and> s * 1000000000 + n = sec * 1000000000 + usec * 1000 + ms * 1000000"
proof -
  obtain q r where "ms div 1000 = q" "ms mod 1000 = r" "ms = q * 1000 + r" "0 \<le> r" "r < 1000"
    by (metis div_mult_mod_eq pos_mod_bound pos_mod_sign zero_less_numeral)
  then show ?thesis using assms by (auto simp: abstime_def Let_def)
qed

end
