(* ===== verification/Processor.thy ===== *)
theory Processor
  imports Client_Net Msg_Queue
begin

text \<open>
  \<open>Packet/Processor\<close>: the handler tables, the parsing of a packet out of the client's data buffer
  (\<open>parseInit\<close>), the stream cipher of packet bodies (\<open>decryptPacket\<close>), and the message queue the
  parsed messages are pushed to. A \<open>Handler *\<close> is an identifier, a null pointer is \<open>None\<close>; the message
  block (\<open>HandlerMsgInit\<close> followed by the body) is a record. \<open>None\<close> results stand for accesses outside
  an array.
\<close>

section \<open>State\<close>

record handler_msg_init =
  mhandler :: nat
  msize :: UInt32
  sessionId :: UInt32
  fromGateway :: UInt32
  remoteAddr :: UInt32
  mbody :: bytes

record processor =
  initHandlers :: "nat option list"
  playerHandlers :: "nat option list"
  msgs :: "handler_msg_init msg_queue"

definition Processor :: processor where
  "Processor = \<lparr>initHandlers = [], playerHandlers = [], msgs = MsgQueue\<rparr>"

section \<open>Decryption\<close>

definition next_ch :: "UInt32 \<Rightarrow> UInt32" where
  "next_ch ch = (ch * 97) mod 251"

fun decrypt_loop :: "UInt32 \<Rightarrow> bytes \<Rightarrow> bytes" where
  "decrypt_loop ch [] = []"
| "decrypt_loop ch (b # bs) = (let ch' = next_ch ch in (b XOR ucast ch') # decrypt_loop ch' bs)"

text \<open>The body is given as its \<open>size\<close> bytes; the result is the new opcode and the new body.\<close>

definition decryptPacket :: "UInt32 \<Rightarrow> UInt16 \<Rightarrow> bytes \<Rightarrow> UInt16 \<times> bytes" where
  "decryptPacket key op1 bf =
     (if key < 2 then (op1, bf)
      else
        (let newkey = (((key - 2) * 33721) mod 65537) mod 251;
             ch2 = newkey;
             ch = (ch2 * 97) mod 251 in
         (op1 XOR ucast (push_bit 8 ch + ch2), decrypt_loop ch bf)))"

section \<open>Handlers\<close>

definition resize_table :: "nat \<Rightarrow> nat option list \<Rightarrow> nat option list" where
  "resize_table n t = take n t @ replicate (n - length t) None"

definition add_to_table :: "UInt16 \<Rightarrow> nat \<Rightarrow> nat option list \<Rightarrow> nat option list" where
  "add_to_table op1 h t =
     (if length t < unat op1 then (resize_table (unat op1 + 1) t)[unat op1 := Some h] else t)"

definition addHandler :: "UInt16 \<Rightarrow> UInt8 \<Rightarrow> nat \<Rightarrow> processor \<Rightarrow> processor" where
  "addHandler op1 type h p =
     (if type AND 1 \<noteq> 0 then p\<lparr>initHandlers := add_to_table op1 h (initHandlers p)\<rparr>
      else if type AND 2 \<noteq> 0 then p\<lparr>playerHandlers := add_to_table op1 h (playerHandlers p)\<rparr>
      else p)"

definition Handler :: "UInt16 \<Rightarrow> UInt8 \<Rightarrow> nat \<Rightarrow> processor \<Rightarrow> processor" where
  "Handler op1 type h p = addHandler op1 type h p"

section \<open>Parsing\<close>

definition parseInit ::
  "bool \<Rightarrow> bytes \<Rightarrow> int \<Rightarrow> UInt32 \<Rightarrow> UInt32 \<Rightarrow> processor \<Rightarrow> client_net \<Rightarrow> (bool \<times> processor \<times> client_net) option" where
  "parseInit mem_ok evbuf len data addr p net =
     (if len < 6 then Some (False, p, net)
      else if length evbuf < 6 then None
      else
        (let hsize = of_le32 evbuf;
             sz = hsize AND 0x00FFFFFF in
         if len < int (unat sz) + 6 then Some (False, p, net)
         else
           (let key = drop_bit 24 hsize in
            if \<not> mem_ok then
              (case drainDataBuf (int (unat sz) + 6) net of
                 None \<Rightarrow> None | Some net' \<Rightarrow> Some (True, p, net'))
            else
              (case drainDataBuf 6 net of
                 None \<Rightarrow> None
               | Some net' \<Rightarrow>
                   (case copyDataBuf (int (unat sz)) net' of
                      None \<Rightarrow> None
                    | Some bf \<Rightarrow>
                        (let (op1, body) = decryptPacket key (of_le16 (drop 4 evbuf)) bf in
                         if length (initHandlers p) \<le> unat op1 then None
                         else case initHandlers p ! unat op1 of
                           None \<Rightarrow> Some (True, p, net')
                         | Some h \<Rightarrow>
                             Some (True,
                               p\<lparr>msgs := pushMsg \<lparr>mhandler = h, msize = sz, sessionId = data,
                                   fromGateway = 0xFFFFFFFF, remoteAddr = addr, mbody = body\<rparr> (msgs p)\<rparr>,
                               net')))))))"

section \<open>Lemmas\<close>

lemma decrypt_loop_twice: "decrypt_loop ch (decrypt_loop ch bs) = bs"
  by (induction ch bs rule: decrypt_loop.induct) (simp_all add: Let_def xor.assoc)

lemma length_decrypt_loop [simp]: "length (decrypt_loop ch bs) = length bs"
  by (induction ch bs rule: decrypt_loop.induct) (simp_all add: Let_def)

lemma length_add_to_table: "length (add_to_table op1 h t) = max (length t) (if length t < unat op1 then unat op1 + 1 else 0)"
  by (auto simp: add_to_table_def resize_table_def)

lemma add_to_table_old: "i < length t \<Longrightarrow> add_to_table op1 h t ! i = t ! i"
  by (auto simp: add_to_table_def resize_table_def nth_append nth_list_update)

lemma add_to_table_new:
  "length t < unat op1 \<Longrightarrow> add_to_table op1 h t ! unat op1 = Some h \<and> unat op1 < length (add_to_table op1 h t)"
  by (auto simp: add_to_table_def resize_table_def)

section \<open>Properties\<close>

text \<open>
  The packet cipher is an involution: decrypting with a key what was decrypted with the same key
  gives back the opcode and the body (so the peer encrypts with the same routine), and the length of
  the body is kept.
\<close>

theorem decryptPacket_involution:
  "(case decryptPacket key op1 bf of (op2, bf2) \<Rightarrow> decryptPacket key op2 bf2 = (op1, bf) \<and> length bf2 = length bf)"
  by (simp add: decryptPacket_def Let_def decrypt_loop_twice xor.assoc)

text \<open>
  Registration takes effect only for an opcode beyond the end of the table: an initial handler
  added for \<open>op\<close> is in the table afterwards exactly when the table was shorter than \<open>op\<close> or the slot
  held that handler already; no other slot that existed changes.
\<close>

theorem addHandler_registers_iff:
  assumes "type AND 1 \<noteq> 0"
  shows "(unat op1 < length (initHandlers (addHandler op1 type h p)) \<and> initHandlers (addHandler op1 type h p) ! unat op1 = Some h)
       \<longleftrightarrow> (length (initHandlers p) < unat op1 \<or> (unat op1 < length (initHandlers p) \<and> initHandlers p ! unat op1 = Some h))"
    (is "?reg \<longleftrightarrow> ?cond")
proof (cases "length (initHandlers p) < unat op1")
  case True
  then show ?thesis using assms add_to_table_new [of "initHandlers p" op1 h] by (simp add: addHandler_def)
next
  case False
  then show ?thesis using assms by (auto simp: addHandler_def add_to_table_def)
qed

text \<open>With opcodes 1 and 2 registered in this order, the second handler is not in the table.\<close>

theorem addHandler_registers_iff_witness:
  "(let p = addHandler 1 1 10 Processor in
    initHandlers p ! 1 = Some 10
    \<and> \<not> (2 < length (initHandlers (addHandler 2 1 20 p)) \<and> initHandlers (addHandler 2 1 20 p) ! 2 = Some 20))"
  using addHandler_registers_iff [of 1 2 20 "addHandler 1 1 10 Processor"]
  by (simp add: addHandler_def add_to_table_def resize_table_def Processor_def Let_def)

end
