(* ===== verification/Sys_Text.thy ===== *)
theory Sys_Text
  imports Prelude
begin

text \<open>
  The text utilities of \<open>System\<close>: \<open>StringTokenizer\<close>, \<open>NumberConv\<close> and \<open>CsvParser\<close>. An iterator or offset
  into a text is the rest of the text from there; the bytes between the parser's \<open>lastOff\<close> and \<open>offset\<close>
  are its pending segment. The conversion functions of the C library (\<open>strtoull\<close> and relatives, on a
  platform with 64-bit \<open>long\<close>) are written out as far as the code uses them.
\<close>

section \<open>StringTokenizer\<close>

function tokenize_loop :: "string \<Rightarrow> bool \<Rightarrow> string \<Rightarrow> string list \<Rightarrow> string list" where
  "tokenize_loop tok ignore_empty it1 seps =
     (let part = takeWhile (\<lambda>c. c \<notin> set tok) it1;
          it2 = dropWhile (\<lambda>c. c \<notin> set tok) it1;
          seps' = (if ignore_empty then (if part \<noteq> [] then seps @ [part] else seps) else seps @ [part]) in
      if it2 = [] then seps' else tokenize_loop tok ignore_empty (tl it2) seps')"
  by pat_completeness auto
termination
proof (relation "measure (\<lambda>(tok, ie, it, seps). length it)")
  fix tok ie it seps and part :: string and it2 seps'
  assume "it2 = dropWhile (\<lambda>c. c \<notin> set tok) it" "it2 \<noteq> []"
  then show "((tok, ie, tl it2, seps'), tok, ie, it, seps) \<in> measure (\<lambda>(tok, ie, it, seps). length it)"
    using tl_dropWhile_less [of it "\<lambda>c. c \<notin> set tok"] by (cases "it = []") auto
qed auto

declare tokenize_loop.simps [simp del]

definition StringTokenizer :: "string \<Rightarrow> string \<Rightarrow> bool \<Rightarrow> string list" where
  "StringTokenizer str tok ignore_empty = (if str = [] then [] else tokenize_loop tok ignore_empty str [])"

section \<open>Conversions of the C library\<close>

definition is_space :: "char \<Rightarrow> bool" where
  "is_space c \<longleftrightarrow> (9 \<le> (of_char c :: nat) \<and> (of_char c :: nat) \<le> 13) \<or> of_char c = (32 :: nat)"

definition digit_value :: "char \<Rightarrow> nat" where
  "digit_value c =
     (let n = of_char c :: nat in
      if 48 \<le> n \<and> n \<le> 57 then n - 48
      else if 97 \<le> n \<and> n \<le> 122 then n - 87
      else if 65 \<le> n \<and> n \<le> 90 then n - 55
      else 99)"

fun digits_value :: "nat \<Rightarrow> nat \<Rightarrow> string \<Rightarrow> nat" where
  "digits_value radix acc [] = acc"
| "digits_value radix acc (c # cs) =
     (if digit_value c < radix then digits_value radix (acc * radix + digit_value c) cs else acc)"

text \<open>Sign and magnitude of the number at the start of a text; a hexadecimal number may have \<open>0x\<close>.\<close>

definition strip_0x :: "nat \<Rightarrow> string \<Rightarrow> string" where
  "strip_0x radix s =
     (if radix = 16 \<and> 2 < length s \<and> s ! 0 = CHR ''0'' \<and> (s ! 1 = CHR ''x'' \<or> s ! 1 = CHR ''X'') \<and> digit_value (s ! 2) < 16
      then drop 2 s else s)"

definition scan_number :: "nat \<Rightarrow> string \<Rightarrow> bool \<times> nat" where
  "scan_number radix s =
     (let t = dropWhile is_space s;
          neg = (t \<noteq> [] \<and> hd t = CHR ''-'');
          u = (if t \<noteq> [] \<and> (hd t = CHR ''-'' \<or> hd t = CHR ''+'') then tl t else t) in
      (neg, digits_value radix 0 (strip_0x radix u)))"

definition strtoull :: "string \<Rightarrow> nat \<Rightarrow> UInt64" where
  "strtoull s radix =
     (let (neg, n) = scan_number radix s in
      if 2 ^ 64 \<le> n then - 1 else if neg then - word_of_nat n else word_of_nat n)"

definition strtoll :: "string \<Rightarrow> nat \<Rightarrow> Int64" where
  "strtoll s radix =
     (let (neg, n) = scan_number radix s in
      if neg then (if 2 ^ 63 < n then word_of_int (- (2 ^ 63)) else - word_of_nat n)
      else (if 2 ^ 63 \<le> n then word_of_int (2 ^ 63 - 1) else word_of_nat n))"

section \<open>NumberConv\<close>

text \<open>The text is null-terminated: \<open>str[1]\<close> of a one-character text is the terminator.\<close>

definition testRadix :: "string \<Rightarrow> string \<times> nat" where
  "testRadix str =
     (if str \<noteq> [] \<and> hd str = CHR ''0'' then
        (if tl str \<noteq> [] \<and> (hd (tl str) = CHR ''X'' \<or> hd (tl str) = CHR ''x'') then (drop 2 str, 16) else (drop 1 str, 8))
      else (str, 10))"

definition toUInt64 :: "string \<Rightarrow> UInt64" where
  "toUInt64 str = (let (s, radix) = testRadix str in strtoull s radix)"

definition toInt64 :: "string \<Rightarrow> Int64" where
  "toInt64 str = (let (s, radix) = testRadix str in strtoll s radix)"

definition toUInt32 :: "string \<Rightarrow> UInt32" where
  "toUInt32 str = (let (s, radix) = testRadix str in ucast (strtoull s radix))"

definition toInt32 :: "string \<Rightarrow> Int32" where
  "toInt32 str = (let (s, radix) = testRadix str in ucast (strtoll s radix))"

definition toUInt16 :: "string \<Rightarrow> UInt16" where
  "toUInt16 str = (let (s, radix) = testRadix str in ucast (strtoull s radix))"

definition toInt16 :: "string \<Rightarrow> Int16" where
  "toInt16 str = (let (s, radix) = testRadix str in ucast (strtoll s radix))"

definition toUInt8 :: "string \<Rightarrow> UInt8" where
  "toUInt8 str = (let (s, radix) = testRadix str in ucast (strtoull s radix))"

definition toInt8 :: "string \<Rightarrow> Int8" where
  "toInt8 str = (let (s, radix) = testRadix str in ucast (strtoll s radix))"

section \<open>CsvParser\<close>

record csv_parser =
  csv_rows :: "string list list"
  csv_sep :: char
  csv_quote :: char
  csv_cur :: nat

definition CsvParser :: "char \<Rightarrow> char \<Rightarrow> csv_parser" where
  "CsvParser seperator quote = \<lparr>csv_rows = [], csv_sep = seperator, csv_quote = quote, csv_cur = 0\<rparr>"

definition newline :: "char \<Rightarrow> bool" where
  "newline c \<longleftrightarrow> c = CHR 0x0D \<or> c = CHR 0x0A"

definition csv_finish :: "string \<Rightarrow> string \<Rightarrow> string list \<Rightarrow> string list list \<Rightarrow> string list list" where
  "csv_finish seg curline flds rows =
     (let flds' = (if seg \<noteq> [] then flds @ [curline @ seg] else flds) in
      if flds' \<noteq> [] then rows @ [flds'] else rows)"

text \<open>
  The loop of \<open>load\<close>: \<open>quoted\<close> is \<open>status = 1\<close>, \<open>seg\<close> the pending segment, \<open>data\<close> the text from \<open>offset\<close> on;
  behind the last character the buffer has a zero.
\<close>

function csv_loop ::
  "char \<Rightarrow> char \<Rightarrow> bool \<Rightarrow> string \<Rightarrow> string \<Rightarrow> string list \<Rightarrow> string list list \<Rightarrow> string \<Rightarrow> string list list" where
  "csv_loop sep quote quoted seg curline flds rows [] = csv_finish seg curline flds rows"
| "csv_loop sep quote quoted seg curline flds rows (c # data) =
     (if newline c then
        csv_loop sep quote quoted [] [] [] (rows @ [flds @ [curline @ seg]]) (dropWhile newline data)
      else if \<not> quoted then
        (if c = sep then csv_loop sep quote quoted [] [] (flds @ [curline @ seg]) rows data
         else if c = quote then csv_loop sep quote True [] (curline @ seg) flds rows data
         else csv_loop sep quote quoted (seg @ [c]) curline flds rows data)
      else
        (if c = CHR 0x5C \<and> (if data = [] then CHR 0x00 else hd data) = quote then
           csv_loop sep quote quoted [] (curline @ seg @ [quote]) flds rows (tl data)
         else if c = quote then csv_loop sep quote False [] (curline @ seg) flds rows data
         else csv_loop sep quote quoted (seg @ [c]) curline flds rows data))"
  by pat_completeness auto
termination
  by (relation "measure (\<lambda>(sep, quote, quoted, seg, curline, flds, rows, data). length data)")
    (auto simp: le_imp_less_Suc length_dropWhile_le)

text \<open>
  \<open>load\<close>: \<open>file\<close> is the contents of the file, \<open>None\<close> when it cannot be opened, and \<open>mem_ok\<close> says whether
  the buffer can be allocated.
\<close>

definition csv_load :: "bool \<Rightarrow> string option \<Rightarrow> csv_parser \<Rightarrow> bool \<times> csv_parser" where
  "csv_load mem_ok file p =
     (let p0 = p\<lparr>csv_cur := 0, csv_rows := []\<rparr> in
      case file of
        None \<Rightarrow> (False, p0)
      | Some data \<Rightarrow>
          if data = [] then (True, p0)
          else if \<not> mem_ok then (False, p0)
          else (True, p0\<lparr>csv_rows := csv_loop (csv_sep p) (csv_quote p) False [] [] [] [] data\<rparr>))"

definition csv_row :: "nat \<Rightarrow> csv_parser \<Rightarrow> string list" where
  "csv_row idx p = (if length (csv_rows p) \<le> idx then [] else csv_rows p ! idx)"

definition csv_field :: "string list \<Rightarrow> nat \<Rightarrow> string" where
  "csv_field row idx = (if length row \<le> idx then [] else row ! idx)"

definition csv_next :: "csv_parser \<Rightarrow> string list option \<times> csv_parser" where
  "csv_next p =
     (if length (csv_rows p) \<le> csv_cur p then (None, p)
      else (Some (csv_rows p ! csv_cur p), p\<lparr>csv_cur := csv_cur p + 1\<rparr>))"

definition csv_skip :: "nat \<Rightarrow> csv_parser \<Rightarrow> csv_parser" where
  "csv_skip l p = p\<lparr>csv_cur := csv_cur p + l\<rparr>"

definition csv_resetCursor :: "csv_parser \<Rightarrow> csv_parser" where
  "csv_resetCursor p = p\<lparr>csv_cur := 0\<rparr>"

definition csv_clear :: "csv_parser \<Rightarrow> csv_parser" where
  "csv_clear p = p\<lparr>csv_rows := [], csv_cur := 0\<rparr>"

definition asInt64 :: "string list \<Rightarrow> nat \<Rightarrow> Int64" where "asInt64 row idx = toInt64 (csv_field row idx)"
definition asUInt64 :: "string list \<Rightarrow> nat \<Rightarrow> UInt64" where "asUInt64 row idx = toUInt64 (csv_field row idx)"
definition asInt32 :: "string list \<Rightarrow> nat \<Rightarrow> Int32" where "asInt32 row idx = toInt32 (csv_field row idx)"
definition asUInt32 :: "string list \<Rightarrow> nat \<Rightarrow> UInt32" where "asUInt32 row idx = toUInt32 (csv_field row idx)"
definition asInt16 :: "string list \<Rightarrow> nat \<Rightarrow> Int16" where "asInt16 row idx = toInt16 (csv_field row idx)"
definition asUInt16 :: "string list \<Rightarrow> nat \<Rightarrow> UInt16" where "asUInt16 row idx = toUInt16 (csv_field row idx)"
definition asInt8 :: "string list \<Rightarrow> nat \<Rightarrow> Int8" where "asInt8 row idx = toInt8 (csv_field row idx)"
definition asUInt8 :: "string list \<Rightarrow> nat \<Rightarrow> UInt8" where "asUInt8 row idx = toUInt8 (csv_field row idx)"

section \<open>Tokens\<close>

fun join :: "char \<Rightarrow> string list \<Rightarrow> string" where
  "join t [] = []"
| "join t [x] = x"
| "join t (x # y # xs) = x @ t # join t (y # xs)"

lemma span_token:
  assumes "t \<notin> set x"
  shows "takeWhile (\<lambda>c. c \<noteq> t) (x @ t # r) = x" "dropWhile (\<lambda>c. c \<noteq> t) (x @ t # r) = t # r"
    "takeWhile (\<lambda>c. c \<noteq> t) x = x" "dropWhile (\<lambda>c. c \<noteq> t) x = []"
proof -
  have x: "\<forall>c\<in>set x. c \<noteq> t" using assms by auto
  from span_component [OF x, of t r] span_name [OF x]
  show "takeWhile (\<lambda>c. c \<noteq> t) (x @ t # r) = x" "dropWhile (\<lambda>c. c \<noteq> t) (x @ t # r) = t # r"
    "takeWhile (\<lambda>c. c \<noteq> t) x = x" "dropWhile (\<lambda>c. c \<noteq> t) x = []" by simp_all
qed

definition kept :: "bool \<Rightarrow> string list \<Rightarrow> string list" where
  "kept ignore_empty xs = (if ignore_empty then filter (\<lambda>x. x \<noteq> []) xs else xs)"

lemma tokenize_loop_join:
  "xs \<noteq> [] \<Longrightarrow> \<forall>x\<in>set xs. t \<notin> set x \<Longrightarrow> tokenize_loop [t] ie (join t xs) acc = acc @ kept ie xs"
proof (induction t xs arbitrary: acc rule: join.induct)
  case (2 t x)
  then have x: "t \<notin> set x" by simp
  show ?case by (subst tokenize_loop.simps) (simp add: Let_def kept_def span_token [OF x])
next
  case (3 t x y xs)
  have x: "t \<notin> set x" using 3 by simp
  note sp = span_token(1,2) [OF x, of "join t (y # xs)"]
  have "tokenize_loop [t] ie (join t (x # y # xs)) acc =
      tokenize_loop [t] ie (join t (y # xs)) (if ie then (if x \<noteq> [] then acc @ [x] else acc) else acc @ [x])"
    by (subst tokenize_loop.simps) (use sp in \<open>simp add: Let_def\<close>)
  also have "\<dots> = acc @ kept ie (x # y # xs)" using "3.IH" "3.prems" by (simp add: kept_def)
  finally show ?case .
qed simp

text \<open>
  Tokenizing a joined list gives the list back: for parts without the separator whose join is not
  the empty text, all parts in order, or the non-empty ones when empty parts are ignored.
\<close>

theorem tokenizer_join:
  assumes "\<forall>x\<in>set xs. t \<notin> set x" "join t xs \<noteq> []"
  shows "StringTokenizer (join t xs) [t] ignore_empty = kept ignore_empty xs"
proof -
  have "xs \<noteq> []" using assms(2) by auto
  then show ?thesis using assms tokenize_loop_join [of xs t ignore_empty "[]"] by (simp add: StringTokenizer_def)
qed

theorem tokenizer_join_witness:
  "StringTokenizer ''a::b'' '':'' True = [''a'', ''b''] \<and> StringTokenizer ''a::b'' '':'' False = [''a'', [], ''b'']"
  using tokenizer_join [of "[''a'', [], ''b'']" "CHR '':''" True] tokenizer_join [of "[''a'', [], ''b'']" "CHR '':''" False]
  by (simp add: kept_def)

section \<open>Numbers\<close>

text \<open>Printing in a radix up to 16, as a reference for the conversions.\<close>

definition digit_char :: "nat \<Rightarrow> char" where
  "digit_char d = (if d < 10 then char_of (48 + d) else char_of (87 + d))"

fun print_radix :: "nat \<Rightarrow> nat \<Rightarrow> string" where
  "print_radix radix n =
     (if n < radix \<or> radix < 2 then [digit_char n] else print_radix radix (n div radix) @ [digit_char (n mod radix)])"

declare print_radix.simps [simp del]

lemma digit_value_char: "d < 16 \<Longrightarrow> digit_value (digit_char d) = d"
  by (auto simp: digit_value_def digit_char_def Let_def of_char_of take_bit_eq_mod)

lemma digits_value_append:
  "\<forall>c\<in>set xs. digit_value c < radix \<Longrightarrow> digits_value radix acc (xs @ ys) = digits_value radix (digits_value radix acc xs) ys"
  by (induction xs arbitrary: acc) auto

lemma print_radix_digits: "2 \<le> radix \<Longrightarrow> radix \<le> 16 \<Longrightarrow> c \<in> set (print_radix radix n) \<Longrightarrow> digit_value c < radix"
proof (induction radix n rule: print_radix.induct)
  case (1 radix n)
  have "n mod radix < radix" using 1 by simp
  then have "n mod radix < radix \<and> n mod radix < 16" using 1 by linarith
  then show ?case using 1 by (subst (asm) (2) print_radix.simps) (auto simp: digit_value_char split: if_splits)
qed

lemma digits_value_print: "2 \<le> radix \<Longrightarrow> radix \<le> 16 \<Longrightarrow> digits_value radix 0 (print_radix radix n) = n"
proof (induction radix n rule: print_radix.induct)
  case (1 radix n)
  show ?case
  proof (cases "n < radix")
    case True
    then show ?thesis using 1 by (simp add: print_radix.simps digit_value_char)
  next
    case False
    have m: "n mod radix < radix" using 1 by simp
    have "digits_value radix 0 (print_radix radix n) = digits_value radix (n div radix) [digit_char (n mod radix)]"
      using 1 False print_radix_digits [of radix _ "n div radix"]
      by (simp add: print_radix.simps [of radix n] digits_value_append del: digits_value.simps)
    then show ?thesis using m 1 by (simp add: digit_value_char)
  qed
qed

lemma print_radix_hd: "2 \<le> radix \<Longrightarrow> 0 < n \<Longrightarrow> \<exists>d ds. print_radix radix n = digit_char d # ds \<and> 0 < d \<and> d < radix"
proof (induction radix n rule: print_radix.induct)
  case (1 radix n)
  show ?case
  proof (cases "n < radix")
    case False
    then have "0 < n div radix" using 1 by (simp add: div_greater_zero_iff)
    then show ?thesis using 1 False by (subst print_radix.simps) auto
  next
    case True
    then show ?thesis using 1 by (intro exI [of _ n] exI [of _ "[]"]) (simp add: print_radix.simps)
  qed
qed

lemma digit_char_plain:
  assumes "d < 16"
  shows "\<not> is_space (digit_char d)" "digit_char d \<noteq> CHR ''-''" "digit_char d \<noteq> CHR ''+''" "d \<noteq> 0 \<Longrightarrow> digit_char d \<noteq> CHR ''0''"
proof -
  have n: "(of_char (digit_char d) :: nat) = (if d < 10 then 48 + d else 87 + d)"
    using assms by (simp add: digit_char_def of_char_of take_bit_eq_mod)
  show "\<not> is_space (digit_char d)" using n by (auto simp: is_space_def)
  show "digit_char d \<noteq> CHR ''-''" "digit_char d \<noteq> CHR ''+''" "d \<noteq> 0 \<Longrightarrow> digit_char d \<noteq> CHR ''0''"
    using n by (auto dest: arg_cong [of _ _ "of_char :: char \<Rightarrow> nat"] split: if_splits)
qed

lemma scan_print:
  assumes "2 \<le> radix" "radix \<le> 16" "0 < n"
  shows "scan_number radix (print_radix radix n) = (False, n)"
proof -
  obtain d ds where p: "print_radix radix n = digit_char d # ds" "0 < d" "d < radix" using print_radix_hd assms by blast
  have d: "d < 16" using p assms by simp
  have "strip_0x radix (digit_char d # ds) = digit_char d # ds"
    using digit_char_plain(4) [OF d] p(2) by (simp add: strip_0x_def)
  then show ?thesis
    using digit_char_plain(1,2,3) [OF d] digits_value_print [OF assms(1,2), of n]
    by (simp add: scan_number_def p(1) Let_def)
qed

text \<open>
  The conversions invert decimal and hexadecimal printing over the whole range of the type:
  \<open>toUInt64\<close> of the decimal or \<open>0x\<close>-prefixed hexadecimal digits of \<open>n\<close> is \<open>n\<close> for every positive
  \<open>n < 2^64\<close>, and \<open>toInt64\<close> for every positive \<open>n < 2^63\<close>.
\<close>

theorem number_conversion_roundtrip:
  assumes "0 < n" "n < 2 ^ 64"
  shows "toUInt64 (print_radix 10 n) = word_of_nat n \<and> toUInt64 (''0x'' @ print_radix 16 n) = word_of_nat n
    \<and> (n < 2 ^ 63 \<longrightarrow> toInt64 (print_radix 10 n) = word_of_nat n)"
proof -
  obtain d ds where p: "print_radix 10 n = digit_char d # ds" "0 < d" "d < 10" using print_radix_hd [of 10 n] assms by auto
  then have r: "testRadix (print_radix 10 n) = (print_radix 10 n, 10)"
    using digit_char_plain(4) [of d] by (simp add: testRadix_def)
  show ?thesis
    using assms scan_print [of 10 n] scan_print [of 16 n] r
    by (simp add: toUInt64_def toInt64_def strtoull_def strtoll_def testRadix_def [of "CHR ''0'' # _"] del: print_radix.simps)
qed

theorem number_conversion_roundtrip_witness:
  "toUInt64 (''0x'' @ print_radix 16 255) = 255 \<and> toInt64 (print_radix 10 1234) = 1234"
  using number_conversion_roundtrip [of 255] number_conversion_roundtrip [of 1234] by simp

section \<open>Comma-separated rows\<close>

definition plain_field :: "char \<Rightarrow> char \<Rightarrow> string \<Rightarrow> bool" where
  "plain_field sep quote f \<longleftrightarrow> (\<forall>c\<in>set f. c \<noteq> sep \<and> c \<noteq> quote \<and> \<not> newline c)"

lemma csv_loop_field:
  "plain_field sep quote f \<Longrightarrow>
     csv_loop sep quote False seg curline flds rows (f @ data) = csv_loop sep quote False (seg @ f) curline flds rows data"
  by (induction f arbitrary: seg) (auto simp: plain_field_def)

lemma newline_lf: "newline CHR 0x0A"
  by (simp add: newline_def)

lemma csv_loop_line:
  assumes "fs \<noteq> []" "\<forall>f\<in>set fs. plain_field sep quote f" "\<not> newline sep"
  shows "csv_loop sep quote False [] [] flds rows (join sep fs @ CHR 0x0A # data) =
         csv_loop sep quote False [] [] [] (rows @ [flds @ fs]) (dropWhile newline data)"
  using assms
proof (induction sep fs arbitrary: flds rule: join.induct)
  case (2 t x)
  then show ?case using csv_loop_field [of t quote x "[]" "[]" flds rows "CHR 0x0A # data"] newline_lf by simp
next
  case (3 t x y xs)
  then show ?case using csv_loop_field [of t quote x "[]" "[]" flds rows "t # join t (y # xs) @ CHR 0x0A # data"] by simp
qed simp

definition print_csv :: "char \<Rightarrow> string list list \<Rightarrow> string" where
  "print_csv sep rows = concat (map (\<lambda>r. join sep r @ [CHR 0x0A]) rows)"

lemma dropWhile_print_csv:
  assumes "\<forall>r\<in>set rows. (\<forall>f\<in>set r. plain_field sep quote f) \<and> join sep r \<noteq> []" "\<not> newline sep"
  shows "dropWhile newline (print_csv sep rows) = print_csv sep rows"
proof (cases rows)
  case (Cons r rs)
  have "\<not> newline (hd (join sep r))"
    using assms Cons by (cases "(sep, r)" rule: join.cases)
      (auto simp: plain_field_def hd_append dest: hd_in_set)
  moreover have "join sep r \<noteq> []" using assms Cons by simp
  ultimately show ?thesis by (cases "join sep r") (auto simp: Cons print_csv_def)
qed (simp add: print_csv_def)

lemma csv_loop_rows:
  assumes "\<forall>r\<in>set rows. (\<forall>f\<in>set r. plain_field sep quote f) \<and> join sep r \<noteq> []" "\<not> newline sep"
  shows "csv_loop sep quote False [] [] [] acc (print_csv sep rows) = acc @ rows"
  using assms
proof (induction rows arbitrary: acc)
  case (Cons r rs)
  have ne: "r \<noteq> []" using Cons.prems by auto
  have "csv_loop sep quote False [] [] [] acc (print_csv sep (r # rs)) =
      csv_loop sep quote False [] [] [] (acc @ [r]) (dropWhile newline (print_csv sep rs))"
    using csv_loop_line [OF ne, of sep quote "[]" acc "print_csv sep rs"] Cons.prems by (simp add: print_csv_def)
  then show ?case using Cons dropWhile_print_csv [of rs sep quote] by simp
qed (simp add: print_csv_def csv_finish_def)

text \<open>
  Plain tables round trip: rows of fields without separator, quote and line end, printed one per
  line, are loaded as exactly those rows, and \<open>next\<close> then delivers them one after the other.
\<close>

theorem csv_roundtrip:
  assumes "\<forall>r\<in>set rows. (\<forall>f\<in>set r. plain_field sep quote f) \<and> join sep r \<noteq> []" "\<not> newline sep" "rows \<noteq> []"
  shows "\<exists>p. csv_load True (Some (print_csv sep rows)) (CsvParser sep quote) = (True, p) \<and> csv_rows p = rows
    \<and> (\<forall>i<length rows. csv_next (csv_skip i p) = (Some (rows ! i), csv_skip (Suc i) p))"
proof -
  have "print_csv sep rows \<noteq> []" using assms(3) by (cases rows) (auto simp: print_csv_def)
  then show ?thesis using csv_loop_rows [OF assms(1,2), of "[]"]
    by (simp add: csv_load_def CsvParser_def Let_def csv_next_def csv_skip_def)
qed

theorem csv_roundtrip_witness:
  "\<exists>p. csv_load True (Some (print_csv CHR '','' [[''a'', ''b''], [''1'', []]])) (CsvParser CHR '','' CHR 0x22) = (True, p)
     \<and> csv_rows p = [[''a'', ''b''], [''1'', []]]"
proof -
  have "\<forall>r\<in>set [[''a'', ''b''], [''1'', []]]. (\<forall>f\<in>set r. plain_field CHR '','' CHR 0x22 f) \<and> join CHR '','' r \<noteq> []"
    by (simp add: plain_field_def newline_def)
  from csv_roundtrip [OF this] show ?thesis by (auto simp: newline_def)
qed

text \<open>
  A quoted field at the very end of the file is lost: when the file ends right behind the closing
  quote of the last field, that field is not added to its row.
\<close>

lemma csv_last_quoted_field_lost:
  assumes "plain_field sep quote f" "plain_field sep quote g" "sep \<noteq> quote" "\<not> newline sep" "\<not> newline quote"
    and "CHR 0x5C \<notin> set g"
  shows "csv_loop sep quote False [] [] [] [] (f @ [sep, quote] @ g @ [quote]) = [[f]]"
proof -
  have q: "csv_loop sep quote True seg cl flds rows (g @ data) = csv_loop sep quote True (seg @ g) cl flds rows data" for seg cl flds rows data
    using assms(2,6) by (induction g arbitrary: seg) (auto simp: plain_field_def)
  have "csv_loop sep quote False [] [] [] [] (f @ [sep, quote] @ g @ [quote]) =
      csv_loop sep quote False f [] [] [] (sep # quote # g @ [quote])"
    using csv_loop_field [OF assms(1), of "[]" "[]" "[]" "[]" "[sep, quote] @ g @ [quote]"] by simp
  also have "\<dots> = csv_loop sep quote True g [] [f] [] [quote]" using assms q by simp
  also have "\<dots> = [[f]]" using assms by (auto simp: csv_finish_def newline_def)
  finally show ?thesis .
qed

end
