(* ===== verification/Path.thy ===== *)
theory Path
  imports Sys_Text
begin

text \<open>
  \<open>System/Path.cpp\<close> and \<open>System/Path.h\<close> with \<open>System/Unix/PathImpl.cpp\<close>: paths as a list of directories
  and a file name, their parsing from and printing to the Unix, Windows and VMS notations, and the
  operations that keep the list of directories normalised. The platform branches are those of the
  non-Windows build. A string iterator is the rest of the string it points to. A parser may throw
  (\<open>Throws\<close>); \<open>parseUnix\<close> calls itself on the home directory and is a partial function, in which
  \<open>None\<close> says that it does not return.
\<close>

section \<open>State\<close>

record path =
  pnode :: string
  pdevice :: string
  pname :: string
  pversion :: string
  pdirs :: "string list"
  pabsolute :: bool

datatype 'a outcome = Throws | Returns 'a

datatype style = PATH_UNIX | PATH_WINDOWS | PATH_VMS | PATH_NATIVE | PATH_GUESS

definition Path_new :: "bool \<Rightarrow> path" where
  "Path_new a = \<lparr>pnode = [], pdevice = [], pname = [], pversion = [], pdirs = [], pabsolute = a\<rparr>"

definition path_clear :: "path \<Rightarrow> path" where
  "path_clear p = p\<lparr>pnode := [], pdevice := [], pname := [], pdirs := [], pversion := [], pabsolute := False\<rparr>"

section \<open>Directories\<close>

definition pushDirectory :: "string \<Rightarrow> path \<Rightarrow> path" where
  "pushDirectory dir p =
     (if dir \<noteq> [] \<and> dir \<noteq> ''.'' then
        (if dir = ''..'' then
           (if pdirs p \<noteq> [] \<and> last (pdirs p) \<noteq> ''..'' then p\<lparr>pdirs := butlast (pdirs p)\<rparr>
            else if \<not> pabsolute p then p\<lparr>pdirs := pdirs p @ [dir]\<rparr>
            else p)
         else p\<lparr>pdirs := pdirs p @ [dir]\<rparr>)
      else p)"

definition popDirectory :: "path \<Rightarrow> path option" where
  "popDirectory p = (if pdirs p = [] then None else Some (p\<lparr>pdirs := butlast (pdirs p)\<rparr>))"

definition makeDirectory :: "path \<Rightarrow> path" where
  "makeDirectory p = (pushDirectory (pname p) p)\<lparr>pname := [], pversion := []\<rparr>"

definition makeFile :: "path \<Rightarrow> path" where
  "makeFile p =
     (if pdirs p \<noteq> [] \<and> pname p = [] then p\<lparr>pname := last (pdirs p), pdirs := butlast (pdirs p)\<rparr> else p)"

definition makeAbsolute_base :: "path \<Rightarrow> path \<Rightarrow> path" where
  "makeAbsolute_base base p =
     (if \<not> pabsolute p then
        (let tmp = fold pushDirectory (pdirs p) (makeDirectory base) in
         p\<lparr>pnode := pnode tmp, pdevice := pdevice tmp, pdirs := pdirs tmp, pabsolute := pabsolute base\<rparr>)
      else p)"

definition absolute_base :: "path \<Rightarrow> path \<Rightarrow> path" where
  "absolute_base base p = (if \<not> pabsolute p then makeAbsolute_base base p else p)"

definition makeParent :: "path \<Rightarrow> path" where
  "makeParent p =
     (if pname p = [] then
        (if pdirs p = [] then (if \<not> pabsolute p then p\<lparr>pdirs := pdirs p @ [''..'']\<rparr> else p)
         else if last (pdirs p) = ''..'' then p\<lparr>pdirs := pdirs p @ [''..'']\<rparr>
         else p\<lparr>pdirs := butlast (pdirs p)\<rparr>)
      else p\<lparr>pname := [], pversion := []\<rparr>)"

definition parent :: "path \<Rightarrow> path" where
  "parent p = makeParent p"

definition path_append :: "path \<Rightarrow> path \<Rightarrow> path" where
  "path_append q p =
     (let p' = makeDirectory p in p'\<lparr>pdirs := pdirs p' @ pdirs q, pname := pname q, pversion := pversion q\<rparr>)"

definition directory :: "int \<Rightarrow> path \<Rightarrow> string option" where
  "directory n p =
     (if n < int (length (pdirs p)) then (if n < 0 then None else Some (pdirs p ! nat n)) else Some (pname p))"

fun resolve_loop :: "nat \<Rightarrow> path \<Rightarrow> path \<Rightarrow> nat \<Rightarrow> path" where
  "resolve_loop i q p 0 = p"
| "resolve_loop i q p (Suc n) = resolve_loop (i + 1) q (pushDirectory (the (directory (int i) q)) p) n"

definition resolve :: "path \<Rightarrow> path \<Rightarrow> path" where
  "resolve q p =
     (if pabsolute q then q
      else (resolve_loop 0 q p (length (pdirs q)))\<lparr>pname := pname q\<rparr>)"

definition Path_file :: "path \<Rightarrow> string \<Rightarrow> path" where
  "Path_file par fileName = (makeDirectory par)\<lparr>pname := fileName\<rparr>"

definition Path_relative :: "path \<Rightarrow> path \<Rightarrow> path" where
  "Path_relative par rel = resolve rel par"

definition setNode :: "string \<Rightarrow> path \<Rightarrow> path" where
  "setNode node p = p\<lparr>pnode := node, pabsolute := pabsolute p \<or> node \<noteq> []\<rparr>"

definition setDevice :: "string \<Rightarrow> path \<Rightarrow> path" where
  "setDevice device p = p\<lparr>pdevice := device, pabsolute := pabsolute p \<or> device \<noteq> []\<rparr>"

section \<open>File names\<close>

text \<open>\<open>rfind\<close>: the position of the last occurrence, \<open>None\<close> for \<open>npos\<close>.\<close>

fun rfind :: "char \<Rightarrow> string \<Rightarrow> nat option" where
  "rfind c [] = None"
| "rfind c (x # xs) = (case rfind c xs of Some n \<Rightarrow> Some (Suc n) | None \<Rightarrow> if x = c then Some 0 else None)"

definition getBaseName :: "path \<Rightarrow> string" where
  "getBaseName p = (case rfind CHR ''.'' (pname p) of Some pos \<Rightarrow> take pos (pname p) | None \<Rightarrow> pname p)"

definition getExtension :: "path \<Rightarrow> string" where
  "getExtension p = (case rfind CHR ''.'' (pname p) of Some pos \<Rightarrow> drop (pos + 1) (pname p) | None \<Rightarrow> [])"

definition setFileName :: "string \<Rightarrow> path \<Rightarrow> path" where
  "setFileName name p = p\<lparr>pname := name\<rparr>"

definition setBaseName :: "string \<Rightarrow> path \<Rightarrow> path" where
  "setBaseName name p =
     (let ext = getExtension p in p\<lparr>pname := (if ext \<noteq> [] then name @ ''.'' @ ext else name)\<rparr>)"

definition setExtension :: "string \<Rightarrow> path \<Rightarrow> path" where
  "setExtension extension p =
     p\<lparr>pname := (if extension \<noteq> [] then getBaseName p @ ''.'' @ extension else getBaseName p)\<rparr>"

section \<open>Parsing\<close>

function unix_loop :: "string \<Rightarrow> path \<Rightarrow> path" where
  "unix_loop it p =
     (if it = [] then p
      else
        (let name = takeWhile (\<lambda>c. c \<noteq> CHR ''/'') it; it' = dropWhile (\<lambda>c. c \<noteq> CHR ''/'') it in
         if it' \<noteq> [] then
           unix_loop (tl it')
             (if pdirs p = [] then
                (if name \<noteq> [] \<and> last name = CHR '':'' then p\<lparr>pdevice := butlast name\<rparr> else pushDirectory name p)
              else pushDirectory name p)
         else p\<lparr>pname := name\<rparr>))"
  by pat_completeness auto
termination
  by (relation "measure (\<lambda>(it, p). length it)")
    (simp_all only: in_measure case_prod_conv wf_measure tl_dropWhile_less not_False_eq_True)

declare unix_loop.simps [simp del]

partial_function (option) parseUnix :: "string \<Rightarrow> string \<Rightarrow> path option" where
  "parseUnix home path =
     (let p = Path_new False in
      if path = [] then Some p
      else if hd path = CHR ''/'' then Some (unix_loop (tl path) (p\<lparr>pabsolute := True\<rparr>))
      else if hd path = CHR ''~'' \<and> (tl path = [] \<or> hd (tl path) = CHR ''/'') then
        Option.bind (parseUnix home home)
          (\<lambda>cwd. Some (unix_loop (tl path) (p\<lparr>pdirs := pdirs cwd, pabsolute := True\<rparr>)))
      else Some (unix_loop path p))"

definition win_sep :: "char \<Rightarrow> bool" where
  "win_sep c \<longleftrightarrow> c = CHR 0x5C \<or> c = CHR ''/''"

function win_loop :: "string \<Rightarrow> path \<Rightarrow> path" where
  "win_loop it p =
     (if it = [] then p
      else
        (let name = takeWhile (\<lambda>c. \<not> win_sep c) it; it' = dropWhile (\<lambda>c. \<not> win_sep c) it in
         if it' \<noteq> [] then win_loop (tl it') (pushDirectory name p)
         else p\<lparr>pname := name\<rparr>))"
  by pat_completeness auto
termination
  by (relation "measure (\<lambda>(it, p). length it)")
    (simp_all only: in_measure case_prod_conv wf_measure tl_dropWhile_less not_False_eq_True)

declare win_loop.simps [simp del]

definition is_letter :: "char \<Rightarrow> bool" where
  "is_letter d \<longleftrightarrow> (of_char CHR ''a'' \<le> (of_char d :: nat) \<and> (of_char d :: nat) \<le> of_char CHR ''z'')
     \<or> (of_char CHR ''A'' \<le> (of_char d :: nat) \<and> (of_char d :: nat) \<le> of_char CHR ''Z'')"

text \<open>The prefix of a Windows path: the state after it and the rest of the string.\<close>

definition win_prefix :: "string \<Rightarrow> (path \<times> string) outcome" where
  "win_prefix path =
     (let ab = win_sep (hd path);
          p = (Path_new False)\<lparr>pabsolute := ab\<rparr>;
          it = (if ab then tl path else path) in
      if ab \<and> it \<noteq> [] \<and> win_sep (hd it) then
        (let it2 = tl it; rest = dropWhile (\<lambda>c. \<not> win_sep c) it2 in
         Returns (p\<lparr>pnode := takeWhile (\<lambda>c. \<not> win_sep c) it2\<rparr>, if rest \<noteq> [] then tl rest else rest))
      else if it \<noteq> [] then
        (let d = hd it; it2 = tl it in
         if it2 \<noteq> [] \<and> hd it2 = CHR '':'' then
           (if ab \<or> \<not> is_letter d then Throws
            else
              (let it3 = tl it2 in
               if it3 = [] \<or> \<not> win_sep (hd it3) then Throws
               else Returns (p\<lparr>pabsolute := True, pdevice := [d]\<rparr>, tl it3)))
         else Returns (p, it))
      else Returns (p, it))"

definition win_finish :: "path \<Rightarrow> path" where
  "win_finish p = (if pnode p \<noteq> [] \<and> pdirs p = [] \<and> pname p \<noteq> [] then makeDirectory p else p)"

definition parseWindows :: "string \<Rightarrow> path outcome" where
  "parseWindows path =
     (if path = [] then Returns (win_finish (Path_new False))
      else case win_prefix path of
        Throws \<Rightarrow> Throws
      | Returns (p, it) \<Rightarrow> Returns (win_finish (win_loop it p)))"

text \<open>
  The two loops over a bracketed VMS directory list; \<open>base\<close> is \<open>None\<close> in the first list and the depth
  \<open>d\<close> below which a dash does not remove directories in the second.
\<close>

definition vms_dir :: "nat option \<Rightarrow> string \<Rightarrow> path \<Rightarrow> path" where
  "vms_dir base name p =
     (if name \<noteq> [] then
        (if name = ''-'' then
           (case base of
              None \<Rightarrow> (if pdirs p = [] \<or> last (pdirs p) = ''..'' then p\<lparr>pdirs := pdirs p @ [''..'']\<rparr>
                        else p\<lparr>pdirs := butlast (pdirs p)\<rparr>)
            | Some d \<Rightarrow> (if d < length (pdirs p) then p\<lparr>pdirs := butlast (pdirs p)\<rparr> else p))
         else p\<lparr>pdirs := pdirs p @ [name]\<rparr>)
      else p)"

function vms_loop :: "nat option \<Rightarrow> string \<Rightarrow> path \<Rightarrow> string \<times> path" where
  "vms_loop base it p =
     (if it \<noteq> [] \<and> hd it \<noteq> CHR '']'' then
        (let name = (if hd it = CHR ''-'' then ''-'' else takeWhile (\<lambda>c. c \<noteq> CHR ''.'' \<and> c \<noteq> CHR '']'') it);
             it1 = (if hd it = CHR ''-'' then it else dropWhile (\<lambda>c. c \<noteq> CHR ''.'' \<and> c \<noteq> CHR '']'') it);
             it2 = (if it1 \<noteq> [] \<and> hd it1 \<noteq> CHR '']'' then tl it1 else it1) in
         vms_loop base it2 (vms_dir base name p))
      else (it, p))"
  by pat_completeness auto
termination
proof (relation "measure (\<lambda>(base, it, p). length it)")
  fix base :: "nat option" and it :: string and p name it1 it2
  let ?P = "\<lambda>c. c \<noteq> CHR ''.'' \<and> c \<noteq> CHR '']''"
  assume c: "it \<noteq> [] \<and> hd it \<noteq> CHR '']''"
    and it1: "it1 = (if hd it = CHR ''-'' then it else dropWhile ?P it)"
    and it2: "it2 = (if it1 \<noteq> [] \<and> hd it1 \<noteq> CHR '']'' then tl it1 else it1)"
  from c obtain x xs where it: "it = x # xs" by (cases it) auto
  have "length (dropWhile ?P xs) \<le> length xs" by (rule length_dropWhile_le)
  then show "((base, it2, vms_dir base name p), (base, it, p)) \<in> measure (\<lambda>(base, it, p). length it)"
    using c it1 it2 it by (auto split: if_splits)
qed auto

declare vms_loop.simps [simp del]

text \<open>The directory part, with \<open>it\<close> behind its opening bracket; the result is behind the closing one.\<close>

definition vms_brackets :: "string \<Rightarrow> path \<Rightarrow> (string \<times> path) outcome" where
  "vms_brackets it p =
     (if it = [] then Returns (it, p)
      else
        (let (it1, p1) = (if hd it = CHR ''.'' then (tl it, p\<lparr>pabsolute := False\<rparr>)
                          else if hd it = CHR '']'' \<or> hd it = CHR ''-'' then (it, p\<lparr>pabsolute := False\<rparr>)
                          else (it, p\<lparr>pabsolute := True\<rparr>));
             (it2, p2) = vms_loop None it1 p1 in
         if it2 = [] then Throws
         else
           (let it3 = tl it2 in
            if it3 \<noteq> [] \<and> hd it3 = CHR ''['' then
              (if \<not> pabsolute p2 then Throws
               else
                 (let it4 = tl it3 in
                  if it4 \<noteq> [] \<and> hd it4 = CHR ''.'' then Throws
                  else
                    (let (it5, p3) = vms_loop (Some (length (pdirs p2))) it4 p2 in
                     if it5 = [] then Throws else Returns (tl it5, p3))))
            else Returns (it3, p2))))"

definition vms_version :: "string \<Rightarrow> path \<Rightarrow> path" where
  "vms_version it p = (if it \<noteq> [] \<and> hd it = CHR '';'' then p\<lparr>pversion := tl it\<rparr> else p)"

definition parseVMS :: "string \<Rightarrow> path outcome" where
  "parseVMS path =
     (let p = Path_new False;
          name = takeWhile (\<lambda>c. c \<noteq> CHR '':'' \<and> c \<noteq> CHR ''['' \<and> c \<noteq> CHR '';'') path;
          it = dropWhile (\<lambda>c. c \<noteq> CHR '':'' \<and> c \<noteq> CHR ''['' \<and> c \<noteq> CHR '';'') path in
      if path = [] then Returns p
      else if it = [] then Returns (p\<lparr>pname := name\<rparr>)
      else
        (let (name1, it1, p1) =
               (if hd it = CHR '':'' then
                  (if tl it \<noteq> [] \<and> hd (tl it) = CHR '':''
                   then ([], tl (tl it), p\<lparr>pnode := name, pabsolute := True\<rparr>)
                   else ([], tl it, p\<lparr>pdevice := name, pabsolute := True\<rparr>))
                else (name, it, p));
             (name2, it2, p2) =
               (if it1 \<noteq> [] \<and> pdevice p1 = [] \<and> hd it1 \<noteq> CHR ''['' then
                  (let n = name1 @ takeWhile (\<lambda>c. c \<noteq> CHR '':'' \<and> c \<noteq> CHR '';'') it1;
                       i = dropWhile (\<lambda>c. c \<noteq> CHR '':'' \<and> c \<noteq> CHR '';'') it1 in
                   if i \<noteq> [] \<and> hd i = CHR '':'' then ([], tl i, p1\<lparr>pdevice := n, pabsolute := True\<rparr>)
                   else (n, i, p1))
                else (name1, it1, p1)) in
         if name2 = [] then
           (case (if it2 \<noteq> [] \<and> hd it2 = CHR ''['' then vms_brackets (tl it2) p2 else Returns (it2, p2)) of
              Throws \<Rightarrow> Throws
            | Returns (it3, p3) \<Rightarrow>
                Returns (vms_version (dropWhile (\<lambda>c. c \<noteq> CHR '';'') it3)
                  (p3\<lparr>pname := takeWhile (\<lambda>c. c \<noteq> CHR '';'') it3\<rparr>)))
         else Returns (vms_version it2 (p2\<lparr>pname := name2\<rparr>))))"

text \<open>
  The scan of \<open>parseGuess\<close>; the cases of its \<open>switch\<close> for brackets fall through, so that an opening
  bracket also sets \<open>hasClosBracket\<close> and both brackets set \<open>semiIt\<close>.
\<close>

record guess =
  hasBackslash :: bool
  hasSlash :: bool
  hasOpenBracket :: bool
  hasClosBracket :: bool
  semiIt :: string

fun guess_scan :: "string \<Rightarrow> guess \<Rightarrow> guess" where
  "guess_scan [] g = g"
| "guess_scan (c # it) g = guess_scan it
     (if c = CHR 0x5C then g\<lparr>hasBackslash := True\<rparr>
      else if c = CHR ''/'' then g\<lparr>hasSlash := True\<rparr>
      else if c = CHR ''['' then g\<lparr>hasOpenBracket := True, hasClosBracket := True, semiIt := c # it\<rparr>
      else if c = CHR '']'' then g\<lparr>hasClosBracket := hasOpenBracket g, semiIt := c # it\<rparr>
      else if c = CHR '';'' then g\<lparr>semiIt := c # it\<rparr>
      else g)"

definition is_digit :: "char \<Rightarrow> bool" where
  "is_digit c \<longleftrightarrow> of_char CHR ''0'' \<le> (of_char c :: nat) \<and> (of_char c :: nat) \<le> of_char CHR ''9''"

definition parseGuess :: "string \<Rightarrow> string \<Rightarrow> path outcome option" where
  "parseGuess home path =
     (let isWindows = (2 < length path \<and> path ! 1 = CHR '':'' \<and> (path ! 2 = CHR ''/'' \<or> path ! 2 = CHR 0x5C));
          g0 = \<lparr>hasBackslash = False, hasSlash = False, hasOpenBracket = False, hasClosBracket = False, semiIt = []\<rparr>;
          g = (if isWindows then g0 else guess_scan path g0) in
      if hasBackslash g \<or> isWindows then Some (parseWindows path)
      else if hasSlash g then map_option Returns (parseUnix home path)
      else if hasClosBracket g \<or> (semiIt g \<noteq> [] \<and> (\<forall>c\<in>set (tl (semiIt g)). is_digit c)) then Some (parseVMS path)
      else map_option Returns (parseUnix home path))"

definition assign_native :: "string \<Rightarrow> string \<Rightarrow> path option" where
  "assign_native home path = parseUnix home path"

fun assign_style :: "string \<Rightarrow> string \<Rightarrow> style \<Rightarrow> path outcome option" where
  "assign_style home path PATH_UNIX = map_option Returns (parseUnix home path)"
| "assign_style home path PATH_WINDOWS = Some (parseWindows path)"
| "assign_style home path PATH_VMS = Some (parseVMS path)"
| "assign_style home path PATH_NATIVE = map_option Returns (assign_native home path)"
| "assign_style home path PATH_GUESS = parseGuess home path"

text \<open>\<open>tryParse\<close> leaves the path unchanged when the parser throws.\<close>

definition tryParse :: "string \<Rightarrow> string \<Rightarrow> style \<Rightarrow> path \<Rightarrow> (bool \<times> path) option" where
  "tryParse home path st p =
     (case assign_style home path st of
        None \<Rightarrow> None
      | Some Throws \<Rightarrow> Some (False, p)
      | Some (Returns q) \<Rightarrow> Some (True, q))"

definition parseDirectory :: "string \<Rightarrow> string \<Rightarrow> path option" where
  "parseDirectory home path = map_option makeDirectory (assign_native home path)"

section \<open>Printing\<close>

definition buildUnix :: "path \<Rightarrow> string" where
  "buildUnix p =
     (if pdevice p \<noteq> [] then ''/'' @ pdevice p @ '':/'' else if pabsolute p then ''/'' else [])
     @ concat (map (\<lambda>d. d @ ''/'') (pdirs p)) @ pname p"

definition buildWindows :: "path \<Rightarrow> string" where
  "buildWindows p =
     (if pnode p \<noteq> [] then [CHR 0x5C, CHR 0x5C] @ pnode p @ [CHR 0x5C]
      else if pdevice p \<noteq> [] then pdevice p @ [CHR '':'', CHR 0x5C]
      else if pabsolute p then [CHR 0x5C] else [])
     @ concat (map (\<lambda>d. d @ [CHR 0x5C]) (pdirs p)) @ pname p"

definition vms_item :: "string \<Rightarrow> string" where
  "vms_item d = (if d = ''..'' then ''-'' else d)"

definition buildVMS :: "path \<Rightarrow> string" where
  "buildVMS p =
     (if pnode p \<noteq> [] then pnode p @ ''::'' else [])
     @ (if pdevice p \<noteq> [] then pdevice p @ '':'' else [])
     @ (case pdirs p of [] \<Rightarrow> []
        | d # ds \<Rightarrow> ''['' @ (if \<not> pabsolute p \<and> d \<noteq> ''..'' then ''.'' else []) @ vms_item d
             @ concat (map (\<lambda>e. (if e \<noteq> ''..'' then ''.'' else []) @ vms_item e) ds) @ '']'')
     @ pname p @ (if pversion p \<noteq> [] then '';'' @ pversion p else [])"

fun toString :: "style \<Rightarrow> path \<Rightarrow> string" where
  "toString PATH_UNIX p = buildUnix p"
| "toString PATH_WINDOWS p = buildWindows p"
| "toString PATH_VMS p = buildVMS p"
| "toString PATH_NATIVE p = buildUnix p"
| "toString PATH_GUESS p = buildUnix p"

section \<open>Normalised directory lists\<close>

text \<open>
  A directory list is normalised when it has no empty and no \<open>.\<close> entries, and \<open>..\<close> only at its start,
  and there only when the path is relative.
\<close>

definition normal_dirs :: "bool \<Rightarrow> string list \<Rightarrow> bool" where
  "normal_dirs ab ds =
     (let rest = dropWhile (\<lambda>d. d = ''..'') ds in
      (\<forall>d\<in>set rest. d \<noteq> [] \<and> d \<noteq> ''.'' \<and> d \<noteq> ''..'') \<and> (ab \<longrightarrow> rest = ds))"

definition path_normal :: "path \<Rightarrow> bool" where
  "path_normal p = normal_dirs (pabsolute p) (pdirs p)"

definition plain_dir :: "string \<Rightarrow> bool" where
  "plain_dir d \<longleftrightarrow> d \<noteq> [] \<and> d \<noteq> ''.'' \<and> d \<noteq> ''..''"

lemma path_clear_eq: "path_clear p = Path_new False"
  by (simp add: path_clear_def Path_new_def)

lemma normal_dirs_iff:
  "normal_dirs ab ds \<longleftrightarrow> (\<exists>n rest. ds = replicate n ''..'' @ rest \<and> (\<forall>d\<in>set rest. plain_dir d) \<and> (ab \<longrightarrow> n = 0))"
proof
  assume a: "normal_dirs ab ds"
  let ?rest = "dropWhile (\<lambda>d. d = ''..'') ds" and ?pre = "takeWhile (\<lambda>d. d = ''..'') ds"
  have "?pre = replicate (length ?pre) ''..''" by (rule replicate_length_same [symmetric]) (auto dest: set_takeWhileD)
  then have "ds = replicate (length ?pre) ''..'' @ ?rest" by (metis takeWhile_dropWhile_id)
  moreover have "ab \<longrightarrow> length ?pre = 0"
  proof
    assume ab
    then have "?rest = ds" using a unfolding normal_dirs_def Let_def by blast
    moreover have "length ?pre + length ?rest = length ds"
      by (simp only: length_append [symmetric] takeWhile_dropWhile_id)
    ultimately show "length ?pre = 0" by (metis add_cancel_left_left)
  qed
  moreover have "\<forall>d\<in>set ?rest. plain_dir d" using a unfolding normal_dirs_def plain_dir_def Let_def by blast
  ultimately show "\<exists>n rest. ds = replicate n ''..'' @ rest \<and> (\<forall>d\<in>set rest. plain_dir d) \<and> (ab \<longrightarrow> n = 0)"
    by blast
next
  assume "\<exists>n rest. ds = replicate n ''..'' @ rest \<and> (\<forall>d\<in>set rest. plain_dir d) \<and> (ab \<longrightarrow> n = 0)"
  then obtain n rest where *: "ds = replicate n ''..'' @ rest" "\<forall>d\<in>set rest. plain_dir d" "ab \<longrightarrow> n = 0" by blast
  have "dropWhile (\<lambda>d. d = ''..'') (replicate n ''..'' @ rest) = dropWhile (\<lambda>d. d = ''..'') rest"
    by (induction n) auto
  also have "\<dots> = rest" using *(2) by (cases rest) (auto simp: plain_dir_def)
  finally show "normal_dirs ab ds" using *(2,3) unfolding *(1) normal_dirs_def plain_dir_def by auto
qed

lemma pushDirectory_fields [simp]:
  "pabsolute (pushDirectory d p) = pabsolute p" "pname (pushDirectory d p) = pname p"
  "pnode (pushDirectory d p) = pnode p" "pdevice (pushDirectory d p) = pdevice p" "pversion (pushDirectory d p) = pversion p"
  by (simp_all add: pushDirectory_def)

lemma pushDirectory_normal:
  assumes "path_normal p" shows "path_normal (pushDirectory d p)"
proof -
  obtain n rest where ds: "pdirs p = replicate n ''..'' @ rest" "\<forall>d\<in>set rest. plain_dir d" "pabsolute p \<longrightarrow> n = 0"
    using assms by (auto simp: path_normal_def normal_dirs_iff)
  consider (skip) "d = [] \<or> d = ''.''" | (plain) "plain_dir d" | (up) "d = ''..''" "rest \<noteq> []" | (top) "d = ''..''" "rest = []"
    by (auto simp: plain_dir_def)
  then show ?thesis
  proof cases
    case plain
    then have "pushDirectory d p = p\<lparr>pdirs := replicate n ''..'' @ (rest @ [d])\<rparr>"
      using ds(1) by (simp add: pushDirectory_def plain_dir_def)
    then show ?thesis unfolding path_normal_def normal_dirs_iff using ds plain by (intro exI [of _ n] exI [of _ "rest @ [d]"]) auto
  next
    case up
    then have "last rest \<noteq> ''..''" using ds(2) last_in_set [of rest] by (auto simp: plain_dir_def)
    then have "pushDirectory d p = p\<lparr>pdirs := replicate n ''..'' @ butlast rest\<rparr>"
      using up ds(1) by (simp add: pushDirectory_def butlast_append)
    then show ?thesis unfolding path_normal_def normal_dirs_iff
      using ds by (intro exI [of _ n] exI [of _ "butlast rest"]) (auto dest: in_set_butlastD)
  next
    case top
    have "pushDirectory d p = (if pabsolute p then p else p\<lparr>pdirs := replicate (Suc n) ''..''\<rparr>)"
      using top ds by (auto simp: pushDirectory_def replicate_append_same [symmetric] simp del: replicate_append_same)
    then show ?thesis unfolding path_normal_def normal_dirs_iff
      using ds top by (auto intro: exI [of _ "Suc n"] exI [of _ n] exI [of _ "[]"])
  qed (use assms in \<open>auto simp: pushDirectory_def\<close>)
qed

text \<open>Pushing an entry that keeps the list normalised is appending it.\<close>

lemma pushDirectory_append:
  assumes "normal_dirs (pabsolute p) (pdirs p @ [d])"
  shows "pushDirectory d p = p\<lparr>pdirs := pdirs p @ [d]\<rparr>"
proof -
  obtain n rest where ds: "pdirs p @ [d] = replicate n ''..'' @ rest" "\<forall>d\<in>set rest. plain_dir d" "pabsolute p \<longrightarrow> n = 0"
    using assms by (auto simp: normal_dirs_iff)
  show ?thesis
  proof (cases rest rule: rev_cases)
    case Nil
    then have eq: "pdirs p @ [d] = replicate n ''..''" using ds(1) by simp
    have "set (pdirs p @ [d]) \<subseteq> {''..''}" unfolding eq by auto
    then have "d = ''..''" "\<forall>e\<in>set (pdirs p). e = ''..''" by auto
    moreover have "n \<noteq> 0" using eq by (cases n) auto
    ultimately have "d = ''..''" "\<forall>e\<in>set (pdirs p). e = ''..''" "n \<noteq> 0" by auto
    then show ?thesis using ds(3) last_in_set [of "pdirs p"] by (auto simp: pushDirectory_def)
  next
    case (snoc rest' e)
    then have "plain_dir d" using ds by auto
    then show ?thesis by (simp add: pushDirectory_def plain_dir_def)
  qed
qed

lemma normal_dirs_prefix: "normal_dirs ab (xs @ ys) \<Longrightarrow> normal_dirs ab xs"
proof -
  assume "normal_dirs ab (xs @ ys)"
  then obtain n rest where ds: "xs @ ys = replicate n ''..'' @ rest" "\<forall>d\<in>set rest. plain_dir d" "ab \<longrightarrow> n = 0"
    by (auto simp: normal_dirs_iff)
  from ds(1) obtain us where "(xs = replicate n ''..'' @ us \<and> us @ ys = rest) \<or> (xs @ us = replicate n ''..'' \<and> ys = us @ rest)"
    by (auto simp: append_eq_append_conv2)
  then show ?thesis
  proof
    assume "xs = replicate n ''..'' @ us \<and> us @ ys = rest"
    then show ?thesis using ds unfolding normal_dirs_iff by (intro exI [of _ n] exI [of _ us]) auto
  next
    assume a: "xs @ us = replicate n ''..'' \<and> ys = us @ rest"
    then have "xs = replicate (length xs) ''..''"
      by (metis append_eq_conv_conj length_append le_add1 length_replicate min.absorb2 take_replicate)
    then show ?thesis using a ds(3) unfolding normal_dirs_iff
      by (intro exI [of _ "length xs"] exI [of _ "[]"]) auto
  qed
qed

section \<open>The parsing loops\<close>

lemma normal_dirs_nonempty: "normal_dirs ab ds \<Longrightarrow> d \<in> set ds \<Longrightarrow> d \<noteq> []"
proof -
  assume "normal_dirs ab ds" and d: "d \<in> set ds"
  then obtain n rest where *: "ds = replicate n ''..'' @ rest" "\<forall>d\<in>set rest. plain_dir d"
    unfolding normal_dirs_iff by blast
  have "d = ''..'' \<or> d \<in> set rest" using d unfolding *(1) by (auto split: if_splits)
  then show "d \<noteq> []" using *(2) by (auto simp: plain_dir_def)
qed

lemma unix_loop_normal: "path_normal p \<Longrightarrow> path_normal (unix_loop it p)"
proof (induction it p rule: unix_loop.induct)
  case (1 it p)
  let ?it = "dropWhile (\<lambda>c. c \<noteq> CHR ''/'') it" and ?n = "takeWhile (\<lambda>c. c \<noteq> CHR ''/'') it"
  let ?p = "if pdirs p = [] then (if ?n \<noteq> [] \<and> last ?n = CHR '':'' then p\<lparr>pdevice := butlast ?n\<rparr> else pushDirectory ?n p)
     else pushDirectory ?n p"
  have "path_normal ?p" using "1.prems" by (auto simp: pushDirectory_normal) (simp add: path_normal_def)
  moreover have "path_normal (p\<lparr>pname := ?n\<rparr>)" using "1.prems" by (simp add: path_normal_def)
  ultimately show ?case using 1 by (subst unix_loop.simps) (simp add: Let_def)
qed

lemma unix_loop_absolute: "pabsolute (unix_loop it p) = pabsolute p"
proof (induction it p rule: unix_loop.induct)
  case (1 it p)
  then show ?case by (subst unix_loop.simps) (simp add: Let_def)
qed

lemma Path_new_normal: "path_normal (Path_new a)" "path_normal ((Path_new a)\<lparr>pabsolute := b\<rparr>)"
  by (simp_all add: path_normal_def Path_new_def normal_dirs_def)

definition tilde :: "string \<Rightarrow> bool" where
  "tilde s \<longleftrightarrow> s \<noteq> [] \<and> hd s = CHR ''~'' \<and> (tl s = [] \<or> hd (tl s) = CHR ''/'')"

lemma parseUnix_no_tilde:
  "\<not> tilde s \<Longrightarrow> parseUnix home s =
     Some (if s \<noteq> [] \<and> hd s = CHR ''/'' then unix_loop (tl s) ((Path_new False)\<lparr>pabsolute := True\<rparr>)
           else unix_loop s (Path_new False))"
  by (subst parseUnix.simps) (auto simp: tilde_def Let_def unix_loop.simps [of "[]"])

lemma parseUnix_tilde:
  "tilde s \<Longrightarrow> parseUnix home s = Option.bind (parseUnix home home)
     (\<lambda>cwd. Some (unix_loop (tl s) ((Path_new False)\<lparr>pdirs := pdirs cwd, pabsolute := True\<rparr>)))"
  by (subst parseUnix.simps) (auto simp: tilde_def)

lemma unix_loop_dirs:
  assumes "normal_dirs (pabsolute p) (pdirs p @ ds)" "\<forall>d\<in>set ds. CHR ''/'' \<notin> set d"
    and "pdirs p = [] \<longrightarrow> ds \<noteq> [] \<longrightarrow> last (hd ds) \<noteq> CHR '':''" "CHR ''/'' \<notin> set name" "pname p = []"
  shows "unix_loop (concat (map (\<lambda>d. d @ ''/'') ds) @ name) p = p\<lparr>pdirs := pdirs p @ ds, pname := name\<rparr>"
  using assms
proof (induction ds arbitrary: p)
  case Nil
  show ?case
  proof (cases "name = []")
    case False
    have "takeWhile (\<lambda>c. c \<noteq> CHR ''/'') name = name \<and> dropWhile (\<lambda>c. c \<noteq> CHR ''/'') name = []"
      by (rule span_name) (use Nil in auto)
    then show ?thesis using False by (subst unix_loop.simps) simp
  qed (use Nil in \<open>simp add: unix_loop.simps\<close>)
next
  case (Cons d ds)
  let ?rest = "concat (map (\<lambda>d. d @ ''/'') ds) @ name"
  have n: "normal_dirs (pabsolute p) (pdirs p @ [d])"
    using Cons.prems(1) normal_dirs_prefix [of "pabsolute p" "pdirs p @ [d]" ds] by simp
  note push = pushDirectory_append [OF n]
  have sp: "takeWhile (\<lambda>c. c \<noteq> CHR ''/'') (d @ CHR ''/'' # ?rest) = d"
    "dropWhile (\<lambda>c. c \<noteq> CHR ''/'') (d @ CHR ''/'' # ?rest) = CHR ''/'' # ?rest"
    by (rule span_component, use Cons.prems(2) in auto)+
  have "unix_loop (d @ CHR ''/'' # ?rest) p = unix_loop ?rest (p\<lparr>pdirs := pdirs p @ [d]\<rparr>)"
    by (subst unix_loop.simps) (use sp push Cons.prems(3) in \<open>auto simp: Let_def\<close>)
  also have "\<dots> = p\<lparr>pdirs := pdirs p @ d # ds, pname := name\<rparr>"
    using Cons.IH [of "p\<lparr>pdirs := pdirs p @ [d]\<rparr>"] Cons.prems by simp
  finally show ?case by simp
qed

section \<open>Printing and parsing\<close>

text \<open>
  The paths the Unix notation can express: no node and no version, slash-free normalised parts, a
  first directory that does not end in a colon (it would be read as a device), a device only on an
  absolute path, and no leading tilde on a relative one.
\<close>

definition unix_printable :: "path \<Rightarrow> bool" where
  "unix_printable p \<longleftrightarrow> pnode p = [] \<and> pversion p = [] \<and> path_normal p
     \<and> (\<forall>d\<in>set (pdirs p). CHR ''/'' \<notin> set d) \<and> CHR ''/'' \<notin> set (pname p) \<and> CHR ''/'' \<notin> set (pdevice p)
     \<and> (pdirs p \<noteq> [] \<longrightarrow> last (hd (pdirs p)) \<noteq> CHR '':'')
     \<and> (pdevice p \<noteq> [] \<longrightarrow> pabsolute p) \<and> (pabsolute p \<or> \<not> tilde (buildUnix p))"

lemma buildUnix_relative_head:
  assumes "unix_printable p" "\<not> pabsolute p"
  shows "buildUnix p = concat (map (\<lambda>d. d @ ''/'') (pdirs p)) @ pname p" "buildUnix p = [] \<or> hd (buildUnix p) \<noteq> CHR ''/''"
proof -
  show b: "buildUnix p = concat (map (\<lambda>d. d @ ''/'') (pdirs p)) @ pname p"
    using assms by (auto simp: buildUnix_def unix_printable_def)
  show "buildUnix p = [] \<or> hd (buildUnix p) \<noteq> CHR ''/''"
  proof (cases "pdirs p")
    case Nil
    then show ?thesis using assms b by (cases "pname p") (auto simp: unix_printable_def)
  next
    case (Cons d ds)
    have "normal_dirs (pabsolute p) (d # ds)" using assms Cons by (simp add: unix_printable_def path_normal_def)
    then have "d \<noteq> []" by (rule normal_dirs_nonempty) simp
    moreover have "CHR ''/'' \<notin> set d" using assms(1) Cons by (simp add: unix_printable_def)
    ultimately show ?thesis unfolding b Cons by (cases d) auto
  qed
qed

text \<open>
  C40. Unix notation round trips: for every path the notation can express, parsing the printed path
  gives back exactly the same path (device, directories, name and whether it is absolute).
\<close>

theorem unix_path_roundtrip:
  assumes "unix_printable p"
  shows "parseUnix home (buildUnix p) = Some p"
proof -
  let ?s = "concat (map (\<lambda>d. d @ ''/'') (pdirs p)) @ pname p"
  have loop: "unix_loop ?s q = q\<lparr>pdirs := pdirs p, pname := pname p\<rparr>"
    if "pdirs q = []" "pname q = []" "pabsolute q = pabsolute p" for q
    using unix_loop_dirs [of q "pdirs p" "pname p"] assms that by (simp add: unix_printable_def path_normal_def)
  show ?thesis
  proof (cases "pabsolute p")
    case False
    note r = buildUnix_relative_head [OF assms False]
    have "\<not> tilde (buildUnix p)" "pdevice p = []" using assms False by (auto simp: unix_printable_def)
    then show ?thesis
      using parseUnix_no_tilde [of "buildUnix p" home] r loop [of "Path_new False"] assms False
      by (auto simp: Path_new_def unix_printable_def)
  next
    case True
    let ?q = "(Path_new False)\<lparr>pabsolute := True\<rparr>"
    have "unix_loop (tl (buildUnix p)) ?q = p"
    proof (cases "pdevice p = []")
      case True
      then show ?thesis using \<open>pabsolute p\<close> assms loop [of ?q] by (simp add: buildUnix_def Path_new_def unix_printable_def)
    next
      case False
      let ?d = "pdevice p @ '':''"
      have "\<forall>c\<in>set ?d. c \<noteq> CHR ''/''" using assms by (auto simp: unix_printable_def)
      from span_component [OF this, of "CHR ''/''" ?s]
      have sp: "takeWhile (\<lambda>c. c \<noteq> CHR ''/'') (?d @ CHR ''/'' # ?s) = ?d"
        "dropWhile (\<lambda>c. c \<noteq> CHR ''/'') (?d @ CHR ''/'' # ?s) = CHR ''/'' # ?s" by simp_all
      have "unix_loop (?d @ CHR ''/'' # ?s) ?q = unix_loop ?s (?q\<lparr>pdevice := pdevice p\<rparr>)"
        by (subst unix_loop.simps) (use sp in \<open>auto simp: Let_def Path_new_def\<close>)
      then show ?thesis using False \<open>pabsolute p\<close> assms loop [of "?q\<lparr>pdevice := pdevice p\<rparr>"]
        by (simp add: buildUnix_def Path_new_def unix_printable_def)
    qed
    moreover have "buildUnix p \<noteq> [] \<and> hd (buildUnix p) = CHR ''/''" using True by (simp add: buildUnix_def)
    moreover have "\<not> tilde (buildUnix p)" using calculation by (auto simp: tilde_def)
    ultimately show ?thesis using parseUnix_no_tilde [of "buildUnix p" home] by simp
  qed
qed

theorem unix_path_roundtrip_witness:
  "parseUnix ''/home/u/'' (buildUnix \<lparr>pnode = [], pdevice = ''c'', pname = ''a.txt'', pversion = [], pdirs = [''x'', ''y''], pabsolute = True\<rparr>)
     = Some \<lparr>pnode = [], pdevice = ''c'', pname = ''a.txt'', pversion = [], pdirs = [''x'', ''y''], pabsolute = True\<rparr>"
  by (rule unix_path_roundtrip) (simp add: unix_printable_def path_normal_def normal_dirs_def)

text \<open>
  Parsing normalises: with an absolute home directory, parsing any string in Unix notation
  returns, and the result has no empty, \<open>.\<close> or inner \<open>..\<close> directory; an absolute result has no \<open>..\<close> at
  all, so it cannot climb above its root.
\<close>

theorem parseUnix_normalises:
  assumes "home \<noteq> []" "hd home = CHR ''/''"
  shows "\<exists>p. parseUnix home s = Some p \<and> path_normal p"
proof -
  have nt: "\<not> tilde home" using assms by (auto simp: tilde_def)
  have ph: "parseUnix home home = Some (unix_loop (tl home) ((Path_new False)\<lparr>pabsolute := True\<rparr>))"
    using parseUnix_no_tilde [OF nt, of home] assms by simp
  have nh: "path_normal (unix_loop (tl home) ((Path_new False)\<lparr>pabsolute := True\<rparr>))"
    by (intro unix_loop_normal Path_new_normal)
  then have "path_normal ((Path_new False)\<lparr>pdirs := pdirs (unix_loop (tl home) ((Path_new False)\<lparr>pabsolute := True\<rparr>)), pabsolute := True\<rparr>)"
    using unix_loop_absolute [of "tl home" "(Path_new False)\<lparr>pabsolute := True\<rparr>"] by (simp add: path_normal_def)
  then show ?thesis
    using parseUnix_no_tilde [of s home] parseUnix_tilde [of s home] ph
    by (cases "tilde s") (auto intro: unix_loop_normal Path_new_normal)
qed

theorem parseUnix_normalises_witness:
  "\<exists>p. parseUnix ''/root/'' ''~/../a/./b//../c'' = Some p \<and> path_normal p"
  by (rule parseUnix_normalises) simp_all

section \<open>Operations keep paths normalised\<close>

lemma fold_push_normal: "path_normal p \<Longrightarrow> path_normal (fold pushDirectory ds p)"
  by (induction ds arbitrary: p) (auto simp: pushDirectory_normal)

lemma fold_push_fields: "pabsolute (fold pushDirectory ds p) = pabsolute p"
  by (induction ds arbitrary: p) auto

lemma makeDirectory_normal: "path_normal p \<Longrightarrow> path_normal (makeDirectory p)" "pabsolute (makeDirectory p) = pabsolute p"
  using pushDirectory_normal [of p "pname p"] by (simp_all add: makeDirectory_def path_normal_def)

lemma resolve_loop_eq:
  "i + n = length (pdirs q) \<Longrightarrow> resolve_loop i q p n = fold pushDirectory (drop i (pdirs q)) p"
proof (induction n arbitrary: i p)
  case (Suc n)
  then have "drop i (pdirs q) = pdirs q ! i # drop (Suc i) (pdirs q)" by (simp add: Cons_nth_drop_Suc)
  moreover have "the (directory (int i) q) = pdirs q ! i" using Suc.prems by (simp add: directory_def)
  ultimately show ?case using Suc.IH [of "i + 1"] Suc.prems by simp
qed simp

lemma normal_dirs_abs: "normal_dirs True ds \<longleftrightarrow> (\<forall>d\<in>set ds. plain_dir d)"
  unfolding normal_dirs_iff by (auto intro!: exI [of _ 0])

lemma normal_dirs_butlast: "normal_dirs ab ds \<Longrightarrow> normal_dirs ab (butlast ds)"
  by (cases ds rule: rev_cases) (auto dest: normal_dirs_prefix)

text \<open>
  Resolving a path against a base, making it absolute, taking its parent and turning a file into
  a directory keep paths normalised; in particular resolving a relative path against an absolute
  base gives an absolute path without \<open>..\<close>, whatever the relative path is.
\<close>

theorem path_operations_normal:
  assumes "path_normal p"
  shows "path_normal (makeDirectory p)
    \<and> (pabsolute p \<longrightarrow> \<not> pabsolute q \<longrightarrow> pabsolute (resolve q p) \<and> (\<forall>d\<in>set (pdirs (resolve q p)). plain_dir d))
    \<and> (\<not> pabsolute q \<longrightarrow> pabsolute p \<longrightarrow> pabsolute (makeAbsolute_base p q) \<and> (\<forall>d\<in>set (pdirs (makeAbsolute_base p q)). plain_dir d))
    \<and> (pabsolute p \<longrightarrow> path_normal (makeParent p) \<and> length (pdirs (makeParent p)) \<le> length (pdirs p))"
proof (intro conjI impI)
  let ?r = "fold pushDirectory (pdirs q) p"
  have r: "path_normal ?r" "pabsolute ?r = pabsolute p"
    using fold_push_normal [OF assms] fold_push_fields by auto
  show "path_normal (makeDirectory p)" by (rule makeDirectory_normal) (rule assms)
  { assume a: "pabsolute p" "\<not> pabsolute q"
    have "resolve q p = ?r\<lparr>pname := pname q\<rparr>" using a resolve_loop_eq [of 0 "length (pdirs q)" q p] by (simp add: resolve_def)
    then show "pabsolute (resolve q p)" "\<forall>d\<in>set (pdirs (resolve q p)). plain_dir d"
      using r a by (simp_all add: path_normal_def normal_dirs_abs) }
  { assume a: "\<not> pabsolute q" "pabsolute p"
    let ?t = "fold pushDirectory (pdirs q) (makeDirectory p)"
    have "path_normal ?t" "pabsolute ?t"
      using fold_push_normal [OF makeDirectory_normal(1) [OF assms]] makeDirectory_normal(2) fold_push_fields a by auto
    then show "pabsolute (makeAbsolute_base p q)" "\<forall>d\<in>set (pdirs (makeAbsolute_base p q)). plain_dir d"
      using a by (simp_all add: makeAbsolute_base_def Let_def path_normal_def normal_dirs_abs) }
  { assume a: "pabsolute p"
    then have pl: "\<forall>d\<in>set (pdirs p). plain_dir d" using assms by (simp add: path_normal_def normal_dirs_abs)
    then have "pdirs p \<noteq> [] \<Longrightarrow> last (pdirs p) \<noteq> ''..''" using last_in_set [of "pdirs p"] by (auto simp: plain_dir_def)
    then show "path_normal (makeParent p)" "length (pdirs (makeParent p)) \<le> length (pdirs p)"
      using a pl by (auto simp: makeParent_def path_normal_def normal_dirs_abs dest: in_set_butlastD) }
qed

theorem path_operations_normal_witness:
  "(let p = (Path_new True)\<lparr>pdirs := [''srv'']\<rparr>; q = (Path_new False)\<lparr>pdirs := [''..'', ''..'', ''etc''], pname := ''x''\<rparr> in
    pdirs (resolve q p) = [''etc''] \<and> (\<forall>d\<in>set (pdirs (resolve q p)). plain_dir d))"
proof -
  let ?p = "(Path_new True)\<lparr>pdirs := [''srv'']\<rparr>"
  let ?q = "(Path_new False)\<lparr>pdirs := [''..'', ''..'', ''etc''], pname := ''x''\<rparr>"
  have "pdirs (resolve ?q ?p) = [''etc'']"
    by (simp add: Path_new_def resolve_def directory_def pushDirectory_def)
  moreover have "path_normal ?p" "pabsolute ?p" "\<not> pabsolute ?q"
    by (simp_all add: Path_new_def path_normal_def normal_dirs_def)
  ultimately show ?thesis using path_operations_normal [of ?p ?q] by (simp only: Let_def) blast
qed

section \<open>File names\<close>

lemma rfind_notin: "c \<notin> set s \<Longrightarrow> rfind c s = None"
  by (induction s) auto

lemma rfind_append: "c \<notin> set t \<Longrightarrow> rfind c (s @ c # t) = Some (length s)"
  by (induction s) (auto simp: rfind_notin)

lemma rfind_None: "rfind c s = None \<Longrightarrow> c \<notin> set s"
  by (induction s) (auto split: option.splits if_splits)

lemma rfind_Some: "rfind c s = Some n \<Longrightarrow> n < length s \<and> s ! n = c \<and> c \<notin> set (drop (Suc n) s)"
proof (induction s arbitrary: n)
  case (Cons x s)
  then show ?case by (cases "rfind c s") (auto split: if_splits dest: rfind_None)
qed simp

text \<open>
  Base name and extension are the two halves of the file name: setting a dot-free extension makes
  it the extension and keeps the base name, setting the base name keeps a non-empty extension, and
  base name, dot and extension make up the name.
\<close>

lemma extension_laws:
  assumes "e \<noteq> []" "CHR ''.'' \<notin> set e"
  shows "getExtension (setExtension e p) = e \<and> getBaseName (setExtension e p) = getBaseName p
    \<and> (getExtension p \<noteq> [] \<longrightarrow> getBaseName p @ ''.'' @ getExtension p = pname p)
    \<and> (getExtension p \<noteq> [] \<longrightarrow> getBaseName (setBaseName b p) = b \<and> getExtension (setBaseName b p) = getExtension p)"
proof -
  have ext: "CHR ''.'' \<notin> set (getExtension p)"
    using rfind_Some [of "CHR ''.''" "pname p"] by (auto simp: getExtension_def split: option.splits)
  have 1: "rfind CHR ''.'' (getBaseName p @ ''.'' @ e) = Some (length (getBaseName p))"
    using rfind_append [OF assms(2)] by simp
  have 2: "getBaseName p @ ''.'' @ getExtension p = pname p" if ne: "getExtension p \<noteq> []"
  proof -
    obtain n where n: "rfind CHR ''.'' (pname p) = Some n"
      using ne by (auto simp: getExtension_def split: option.splits)
    from rfind_Some [OF n] have "pname p = take n (pname p) @ CHR ''.'' # drop (Suc n) (pname p)"
      using id_take_nth_drop [of n "pname p"] by simp
    then show ?thesis by (simp add: getExtension_def getBaseName_def n)
  qed
  have 3: "rfind CHR ''.'' (b @ ''.'' @ getExtension p) = Some (length b)"
    using rfind_append [OF ext] by simp
  show ?thesis
    using assms(1) 1 2 3 by (auto simp: setExtension_def setBaseName_def getExtension_def [of "_\<lparr>pname := _\<rparr>"] getBaseName_def [of "_\<lparr>pname := _\<rparr>"] Let_def)
qed

text \<open>
  \<open>makeFile\<close> undoes \<open>makeDirectory\<close> for a file name that is a plain directory name; only the version
  is lost. \<open>makeParent\<close> of a file is its directory.
\<close>

lemma makeFile_makeDirectory:
  assumes "plain_dir (pname p)"
  shows "makeFile (makeDirectory p) = p\<lparr>pversion := []\<rparr> \<and> makeParent p = makeParent (makeDirectory p)\<lparr>pname := [], pversion := []\<rparr>"
  using assms by (auto simp: makeFile_def makeDirectory_def pushDirectory_def plain_dir_def makeParent_def)

section \<open>Windows notation\<close>

lemma win_loop_dirs:
  assumes "normal_dirs (pabsolute p) (pdirs p @ ds)" "\<forall>d\<in>set ds. \<forall>c\<in>set d. \<not> win_sep c"
    and "\<forall>c\<in>set name. \<not> win_sep c" "pname p = []"
  shows "win_loop (concat (map (\<lambda>d. d @ [CHR 0x5C]) ds) @ name) p = p\<lparr>pdirs := pdirs p @ ds, pname := name\<rparr>"
  using assms
proof (induction ds arbitrary: p)
  case Nil
  show ?case
  proof (cases "name = []")
    case False
    have "takeWhile (\<lambda>c. \<not> win_sep c) name = name \<and> dropWhile (\<lambda>c. \<not> win_sep c) name = []"
      by (rule span_name) (use Nil in auto)
    then show ?thesis using False by (subst win_loop.simps) simp
  qed (use Nil in \<open>simp add: win_loop.simps\<close>)
next
  case (Cons d ds)
  let ?rest = "concat (map (\<lambda>d. d @ [CHR 0x5C]) ds) @ name"
  have n: "normal_dirs (pabsolute p) (pdirs p @ [d])"
    using Cons.prems(1) normal_dirs_prefix [of "pabsolute p" "pdirs p @ [d]" ds] by simp
  have d: "\<forall>c\<in>set d. \<not> win_sep c" using Cons.prems(2) by simp
  have "\<not> \<not> win_sep CHR 0x5C" by (simp add: win_sep_def)
  note sp = span_component [OF d this, of ?rest]
  have "win_loop (d @ CHR 0x5C # ?rest) p = win_loop ?rest (p\<lparr>pdirs := pdirs p @ [d]\<rparr>)"
    by (subst win_loop.simps) (use sp pushDirectory_append [OF n] in \<open>simp add: Let_def\<close>)
  also have "\<dots> = p\<lparr>pdirs := pdirs p @ d # ds, pname := name\<rparr>"
    using Cons.IH [of "p\<lparr>pdirs := pdirs p @ [d]\<rparr>"] Cons.prems by simp
  finally show ?case by simp
qed

text \<open>
  The paths the Windows notation can express: separator-free normalised parts, no version, a node or a
  one-letter drive only on an absolute path and not both, a node with a share directory unless there
  is no name, and no colon as the second character of a path without node and drive.
\<close>

definition win_body :: "path \<Rightarrow> string" where
  "win_body p = concat (map (\<lambda>d. d @ [CHR 0x5C]) (pdirs p)) @ pname p"

definition windows_printable :: "path \<Rightarrow> bool" where
  "windows_printable p \<longleftrightarrow> pversion p = [] \<and> path_normal p
     \<and> (\<forall>d\<in>set (pdirs p). \<forall>c\<in>set d. \<not> win_sep c) \<and> (\<forall>c\<in>set (pname p). \<not> win_sep c) \<and> (\<forall>c\<in>set (pnode p). \<not> win_sep c)
     \<and> (pnode p \<noteq> [] \<longrightarrow> pabsolute p \<and> pdevice p = [] \<and> (pdirs p = [] \<longrightarrow> pname p = []))
     \<and> (pdevice p \<noteq> [] \<longrightarrow> pabsolute p \<and> length (pdevice p) = 1 \<and> is_letter (hd (pdevice p)))
     \<and> (pnode p = [] \<longrightarrow> pdevice p = [] \<longrightarrow> \<not> (1 < length (win_body p) \<and> win_body p ! 1 = CHR '':''))"

lemma buildWindows_eq:
  "buildWindows p = (if pnode p \<noteq> [] then CHR 0x5C # CHR 0x5C # pnode p @ CHR 0x5C # win_body p
     else if pdevice p \<noteq> [] then pdevice p @ CHR '':'' # CHR 0x5C # win_body p
     else if pabsolute p then CHR 0x5C # win_body p else win_body p)"
  by (simp add: buildWindows_def win_body_def)

lemma win_body_head:
  assumes "windows_printable p" "win_body p \<noteq> []"
  shows "\<not> win_sep (hd (win_body p))"
proof (cases "pdirs p")
  case Nil
  then show ?thesis using assms by (auto simp: windows_printable_def win_body_def)
next
  case (Cons d ds)
  have "normal_dirs (pabsolute p) (d # ds)" using assms Cons by (simp add: windows_printable_def path_normal_def)
  then have "d \<noteq> []" by (rule normal_dirs_nonempty) simp
  moreover have "\<forall>c\<in>set d. \<not> win_sep c" using assms(1) Cons by (simp add: windows_printable_def)
  ultimately show ?thesis unfolding win_body_def Cons by (cases d) auto
qed

lemma letter_not_sep: "is_letter c \<Longrightarrow> \<not> win_sep c"
  by (auto simp: is_letter_def win_sep_def)

lemma win_loop_body:
  assumes "windows_printable p" "pdirs q = []" "pname q = []" "pabsolute q = pabsolute p"
    and "pnode q = pnode p" "pdevice q = pdevice p" "pversion q = []"
  shows "win_finish (win_loop (win_body p) q) = p"
proof -
  have "win_loop (win_body p) q = q\<lparr>pdirs := pdirs p, pname := pname p\<rparr>"
    using win_loop_dirs [of q "pdirs p" "pname p"] assms
    by (simp add: windows_printable_def path_normal_def win_body_def)
  then have "win_loop (win_body p) q = p"
    using assms by (cases p; cases q) (simp add: windows_printable_def)
  then show ?thesis using assms(1) by (auto simp: win_finish_def windows_printable_def)
qed

lemma win_body_no_drive:
  assumes "windows_printable p" "pnode p = []" "pdevice p = []"
  shows "\<not> (tl (win_body p) \<noteq> [] \<and> hd (tl (win_body p)) = CHR '':'')"
  using assms by (cases "win_body p"; cases "tl (win_body p)") (auto simp: windows_printable_def)

lemma win_prefix_build:
  assumes "windows_printable p" "buildWindows p \<noteq> []"
  shows "win_prefix (buildWindows p) =
    Returns (\<lparr>pnode = pnode p, pdevice = pdevice p, pname = [], pversion = [], pdirs = [], pabsolute = pabsolute p\<rparr>, win_body p)"
proof -
  have sep: "win_sep CHR 0x5C" by (simp add: win_sep_def)
  define b where "b = win_body p"
  have bs: "b \<noteq> [] \<Longrightarrow> \<not> win_sep (hd b)" using win_body_head [OF assms(1)] by (simp add: b_def)
  consider (node) "pnode p \<noteq> []" | (device) "pnode p = []" "pdevice p \<noteq> []" | (plain) "pnode p = []" "pdevice p = []" by blast
  then show ?thesis
  proof cases
    case node
    have nd: "\<forall>c\<in>set (pnode p). \<not> win_sep c" "pabsolute p" "pdevice p = []"
      using assms(1) node by (auto simp: windows_printable_def)
    then show ?thesis
      using node span_component [OF nd(1), of "CHR 0x5C" b] sep by (simp add: buildWindows_eq win_prefix_def b_def Path_new_def)
  next
    case device
    then obtain d where d: "pdevice p = [d]" "is_letter d" "pabsolute p"
      using assms(1) by (cases "pdevice p") (auto simp: windows_printable_def)
    then show ?thesis
      using device sep letter_not_sep [OF d(2)] by (simp add: buildWindows_eq win_prefix_def b_def Path_new_def)
  next
    case plain
    then show ?thesis
      using sep bs win_body_no_drive [OF assms(1) plain] assms(2)
      by (auto simp: buildWindows_eq win_prefix_def b_def [symmetric] Path_new_def Let_def)
  qed
qed

text \<open>
  Windows notation round trips: for every path it can express (UNC node, drive letter, absolute or
  relative), parsing the printed path returns exactly that path and does not throw.
\<close>

theorem windows_path_roundtrip:
  assumes "windows_printable p"
  shows "parseWindows (buildWindows p) = Returns p"
proof (cases "buildWindows p = []")
  case False
  then show ?thesis
    using win_prefix_build [OF assms] win_loop_body [OF assms] by (simp add: parseWindows_def)
next
  case True
  then have "win_body p = []" "pnode p = []" "pdevice p = []" "\<not> pabsolute p"
    by (auto simp: buildWindows_eq split: if_splits)
  then show ?thesis
    using True win_loop_body [OF assms, of "Path_new False"]
    by (simp add: parseWindows_def Path_new_def win_loop.simps [of "[]"])
qed

theorem windows_path_roundtrip_witness:
  "parseWindows (buildWindows \<lparr>pnode = [], pdevice = ''C'', pname = ''a.txt'', pversion = [], pdirs = [''x'', ''y''], pabsolute = True\<rparr>)
     = Returns \<lparr>pnode = [], pdevice = ''C'', pname = ''a.txt'', pversion = [], pdirs = [''x'', ''y''], pabsolute = True\<rparr>"
  by (rule windows_path_roundtrip)
    (simp add: windows_printable_def path_normal_def normal_dirs_def win_sep_def is_letter_def)

section \<open>The environment\<close>

text \<open>
  \<open>PathImpl\<close>: what the functions ask of the system is the record \<open>env\<close>: the current directory, the
  home directories of the real and effective user in the password database, and environment
  variables. A null \<open>HOME\<close> is assigned to a string (undefined, \<open>None\<close>).
\<close>

record env =
  env_cwd :: "string option"
  env_pw_uid :: "string option"
  env_pw_euid :: "string option"
  env_getenv :: "string \<Rightarrow> string option"

definition ensure_slash :: "string \<Rightarrow> string" where
  "ensure_slash path = (if path \<noteq> [] \<and> last path \<noteq> CHR ''/'' then path @ ''/'' else path)"

definition currentImpl :: "env \<Rightarrow> string outcome" where
  "currentImpl e = (case env_cwd e of Some cwd \<Rightarrow> Returns (ensure_slash cwd) | None \<Rightarrow> Throws)"

definition homeImpl :: "env \<Rightarrow> string option" where
  "homeImpl e =
     map_option ensure_slash
       (case env_pw_uid e of Some d \<Rightarrow> Some d
        | None \<Rightarrow> (case env_pw_euid e of Some d \<Rightarrow> Some d | None \<Rightarrow> env_getenv e ''HOME''))"

definition tempImpl :: "env \<Rightarrow> string" where
  "tempImpl e = (case env_getenv e ''TMPDIR'' of Some tmp \<Rightarrow> ensure_slash tmp | None \<Rightarrow> ''/tmp/'')"

definition nullImpl :: string where
  "nullImpl = ''/dev/null''"

definition listRootsImpl :: "string list \<Rightarrow> string list" where
  "listRootsImpl roots = [''/'']"

definition var_char :: "char \<Rightarrow> bool" where
  "var_char c \<longleftrightarrow> is_digit c \<or> c = CHR ''_''"

definition env_value :: "env \<Rightarrow> string \<Rightarrow> string" where
  "env_value e var = (case env_getenv e var of Some val \<Rightarrow> val | None \<Rightarrow> [])"

function expand_loop :: "env \<Rightarrow> string \<Rightarrow> string \<Rightarrow> string" where
  "expand_loop e it result =
     (if it = [] then result
      else if hd it = CHR ''$'' then
        (let it1 = tl it in
         if it1 \<noteq> [] \<and> hd it1 = CHR ''{'' then
           (let it2 = tl it1 in
            expand_loop e (tl (dropWhile (\<lambda>c. c \<noteq> CHR ''}'') it2))
              (result @ env_value e (takeWhile (\<lambda>c. c \<noteq> CHR ''}'') it2)))
         else expand_loop e (dropWhile var_char it1) (result @ env_value e (takeWhile var_char it1)))
      else expand_loop e (tl it) (result @ [hd it]))"
  by pat_completeness auto
termination
proof (relation "measure (\<lambda>(e, it, r). length it)")
  fix e :: env and it result it1 it2 :: string
  assume "it \<noteq> []" "it1 = tl it" "it1 \<noteq> [] \<and> hd it1 = CHR ''{''" "it2 = tl it1"
  then show "((e, tl (dropWhile (\<lambda>c. c \<noteq> CHR ''}'') it2), result @ env_value e (takeWhile (\<lambda>c. c \<noteq> CHR ''}'') it2)), e, it, result)
      \<in> measure (\<lambda>(e, it, r). length it)"
    using length_dropWhile_le [of "\<lambda>c. c \<noteq> CHR ''}''" it2] by (cases it; cases "tl it") auto
next
  fix e :: env and it result it1 :: string
  assume "it \<noteq> []" "it1 = tl it"
  then show "((e, dropWhile var_char it1, result @ env_value e (takeWhile var_char it1)), e, it, result)
      \<in> measure (\<lambda>(e, it, r). length it)"
    using length_dropWhile_le [of var_char it1] by (cases it) auto
qed auto

declare expand_loop.simps [simp del]

definition expandImpl :: "env \<Rightarrow> string \<Rightarrow> string option" where
  "expandImpl e path =
     (if path \<noteq> [] \<and> hd path = CHR ''~'' then
        (if tl path \<noteq> [] \<and> hd (tl path) = CHR ''/'' then
           map_option (expand_loop e (tl (tl path))) (homeImpl e)
         else Some (expand_loop e (tl path) ''~''))
      else Some (expand_loop e path []))"

text \<open>\<open>makeAbsolute()\<close> without an argument takes the current directory, which \<open>Path\<close> parses.\<close>

definition makeAbsolute :: "env \<Rightarrow> string \<Rightarrow> path \<Rightarrow> path outcome option" where
  "makeAbsolute e home p =
     (case currentImpl e of
        Throws \<Rightarrow> Some Throws
      | Returns cur \<Rightarrow> map_option (\<lambda>base. Returns (makeAbsolute_base base p)) (assign_native home cur))"

text \<open>\<open>find\<close>: the first directory of the list in which the file exists; \<open>ex\<close> is \<open>File::exists\<close>.\<close>

fun find_in :: "string \<Rightarrow> (path \<Rightarrow> bool) \<Rightarrow> string list \<Rightarrow> string \<Rightarrow> path \<Rightarrow> (bool \<times> path) option" where
  "find_in home ex [] name path = Some (False, path)"
| "find_in home ex (d # ds) name path =
     (case (assign_native home d, assign_native home name) of
        (Some pd, Some pn) \<Rightarrow>
          (let p = resolve pn (makeDirectory pd) in
           if ex p then Some (True, p) else find_in home ex ds name path)
      | _ \<Rightarrow> None)"

definition pathSeparator :: char where
  "pathSeparator = CHR '':''"

definition find_pathlist :: "string \<Rightarrow> (path \<Rightarrow> bool) \<Rightarrow> string \<Rightarrow> string \<Rightarrow> path \<Rightarrow> (bool \<times> path) option" where
  "find_pathlist home ex pathList name path = find_in home ex (StringTokenizer pathList [pathSeparator] True) name path"

lemma expand_loop_plain: "CHR ''$'' \<notin> set s \<Longrightarrow> expand_loop e s r = r @ s"
proof (induction s arbitrary: r)
  case (Cons c s)
  then show ?case by (subst expand_loop.simps) auto
qed (simp add: expand_loop.simps)

text \<open>
  Expansion: a string without \<open>$\<close> that does not start with a tilde is unchanged; \<open>${VAR}\<close> in front of
  such a string is replaced by the value of the variable (nothing when it is unset). A bare \<open>$NAME\<close> is not
  expanded by name: only digits and underscores count as characters of the variable, so \<open>$HOME\<close> asks
  for the variable with the empty name and leaves \<open>HOME\<close> behind.
\<close>

lemma expand_variables:
  assumes "CHR ''$'' \<notin> set s"
  shows "((s = [] \<or> hd s \<noteq> CHR ''~'') \<longrightarrow> expandImpl e s = Some s)
    \<and> (CHR ''}'' \<notin> set v \<longrightarrow> expandImpl e (''${'' @ v @ ''}'' @ s) = Some (env_value e v @ s))
    \<and> expandImpl e (''$HOME'' @ s) = Some (env_value e [] @ ''HOME'' @ s)"
proof (intro conjI impI)
  show "s = [] \<or> hd s \<noteq> CHR ''~'' \<Longrightarrow> expandImpl e s = Some s"
    using expand_loop_plain [OF assms] by (auto simp: expandImpl_def)
next
  assume "CHR ''}'' \<notin> set v"
  then have v: "\<forall>c\<in>set v. c \<noteq> CHR ''}''" by auto
  have sp: "takeWhile (\<lambda>c. c \<noteq> CHR ''}'') (v @ CHR ''}'' # s) = v" "dropWhile (\<lambda>c. c \<noteq> CHR ''}'') (v @ CHR ''}'' # s) = CHR ''}'' # s"
    using span_component [OF v, of "CHR ''}''" s] by simp_all
  show "expandImpl e (''${'' @ v @ ''}'' @ s) = Some (env_value e v @ s)"
    using sp expand_loop_plain [OF assms] by (simp add: expandImpl_def expand_loop.simps [of e "_ # _"])
next
  have "expand_loop e (''HOME'' @ s) r = r @ ''HOME'' @ s" for r
    using expand_loop_plain [of "''HOME'' @ s" e r] assms by simp
  then show "expandImpl e (''$HOME'' @ s) = Some (env_value e [] @ ''HOME'' @ s)"
    by (simp add: expandImpl_def expand_loop.simps [of e "CHR ''$'' # _"] var_char_def is_digit_def)
qed

end
