(* ===== verification/Serialize.thy ===== *)
theory Serialize
  imports Prelude
begin

text \<open>
  \<open>System/Serialize.cpp\<close>: values are appended to a byte buffer in a variable-length encoding; \<open>ToString\<close>
  fills in a four-byte header (16 bits of length, a checksum, the version) and prints the buffer in
  base 64; \<open>DeserializeInfo\<close> decodes the text, checks length and checksum and reads the values back.
  The characters of the text are bytes. \<open>None\<close> stands for undefined behaviour: reading outside the
  decoded block, through a null pointer, or a field the constructor left uninitialised.
\<close>

section \<open>Writing\<close>

definition table64 :: bytes where
  "table64 = map (\<lambda>c. word_of_nat (of_char c)) ''ABCDEFGHIJKLMNOPQRSTUVWXYZabcdefghijklmnopqrstuvwxyz0123456789+/''"

record serialize_info =
  sbuffer :: bytes

definition SerializeInfo :: "UInt8 \<Rightarrow> serialize_info" where
  "SerializeInfo version = \<lparr>sbuffer = replicate 3 0 @ [version]\<rparr>"

definition enc_UInt32 :: "UInt32 \<Rightarrow> bytes" where
  "enc_UInt32 val =
     (if val < 0x80 then [ucast val]
      else if val < 0x4000 then [ucast ((val AND 0x3f) OR 0x80), ucast (drop_bit 6 val)]
      else if val < 0x200000 then
        [ucast ((val AND 0x1f) OR 0xc0), ucast (drop_bit 5 val), ucast (drop_bit 13 val)]
      else if val < 0x10000000 then
        [ucast ((val AND 0xf) OR 0xe0), ucast (drop_bit 4 val), ucast (drop_bit 12 val), ucast (drop_bit 20 val)]
      else [0xff, ucast val, ucast (drop_bit 8 val), ucast (drop_bit 16 val), ucast (drop_bit 24 val)])"

definition put_UInt32 :: "UInt32 \<Rightarrow> serialize_info \<Rightarrow> serialize_info" where
  "put_UInt32 val s = s\<lparr>sbuffer := sbuffer s @ enc_UInt32 val\<rparr>"

definition put_Int32 :: "Int32 \<Rightarrow> serialize_info \<Rightarrow> serialize_info" where
  "put_Int32 val s = put_UInt32 val s"

definition put_UInt64 :: "UInt64 \<Rightarrow> serialize_info \<Rightarrow> serialize_info" where
  "put_UInt64 val s =
     (let val1 = ucast (val AND 0xffffffff); val2 = ucast (drop_bit 32 val) in put_UInt32 val2 (put_UInt32 val1 s))"

definition put_Int64 :: "Int64 \<Rightarrow> serialize_info \<Rightarrow> serialize_info" where
  "put_Int64 val s = put_UInt64 val s"

definition put_UInt16 :: "UInt16 \<Rightarrow> serialize_info \<Rightarrow> serialize_info" where
  "put_UInt16 val s = put_UInt32 (ucast val) s"

definition put_Int16 :: "Int16 \<Rightarrow> serialize_info \<Rightarrow> serialize_info" where
  "put_Int16 val s = put_UInt32 (scast val) s"

definition put_UInt8 :: "UInt8 \<Rightarrow> serialize_info \<Rightarrow> serialize_info" where
  "put_UInt8 val s = put_UInt32 (ucast val) s"

definition put_Int8 :: "Int8 \<Rightarrow> serialize_info \<Rightarrow> serialize_info" where
  "put_Int8 val s = put_UInt32 (scast val) s"

text \<open>The table indices of the four characters of a group of three bytes.\<close>

definition idx1 :: "UInt8 \<Rightarrow> nat" where
  "idx1 a = unat (a AND 0x3f)"

definition idx2 :: "UInt8 \<Rightarrow> UInt8 \<Rightarrow> nat" where
  "idx2 a b = unat ((drop_bit 6 (ucast a) AND 0x3) OR push_bit 2 (ucast b AND 0xf) :: UInt32)"

definition idx3 :: "UInt8 \<Rightarrow> UInt8 \<Rightarrow> nat" where
  "idx3 b c = unat ((drop_bit 4 (ucast b) AND 0xf) OR push_bit 4 (ucast c AND 0x3) :: UInt32)"

definition idx4 :: "UInt8 \<Rightarrow> nat" where
  "idx4 c = unat (drop_bit 2 (ucast c) AND 0x3f :: UInt32)"

definition idx2_last :: "UInt8 \<Rightarrow> nat" where
  "idx2_last a = unat (drop_bit 6 (ucast a) AND 0x3 :: UInt32)"

definition idx3_last :: "UInt8 \<Rightarrow> nat" where
  "idx3_last b = unat (drop_bit 4 (ucast b) AND 0xf :: UInt32)"

definition group4 :: "UInt8 \<Rightarrow> UInt8 \<Rightarrow> UInt8 \<Rightarrow> bytes" where
  "group4 a b c = [table64 ! idx1 a, table64 ! idx2 a b, table64 ! idx3 b c, table64 ! idx4 c]"

function ToString_loop :: "bytes \<Rightarrow> nat \<Rightarrow> bytes \<Rightarrow> nat \<times> bytes" where
  "ToString_loop bf i str =
     (if i < length bf - 3 then ToString_loop bf (i + 3) (str @ group4 (bf ! i) (bf ! (i + 1)) (bf ! (i + 2)))
      else (i, str))"
  by pat_completeness auto
termination by (relation "measure (\<lambda>(bf, i, str). length bf - i)") auto

declare ToString_loop.simps [simp del]

definition header :: "bytes \<Rightarrow> bytes" where
  "header bf =
     (let len = length bf - 4 in
      bf[0 := word_of_nat (len mod 256), 1 := word_of_nat (len div 256 mod 256), 2 := sum_list (drop 4 bf)])"

definition ToString_tail :: "bytes \<Rightarrow> nat \<Rightarrow> bytes \<Rightarrow> bytes" where
  "ToString_tail bf i str =
     (if length bf mod 3 = 1 then
        str @ [table64 ! idx1 (bf ! i), table64 ! idx2_last (bf ! i), 0x3D, 0x3D]
      else if length bf mod 3 = 2 then
        str @ [table64 ! idx1 (bf ! i), table64 ! idx2 (bf ! i) (bf ! (i + 1)), table64 ! idx3_last (bf ! (i + 1)), 0x3D]
      else str @ group4 (bf ! i) (bf ! (i + 1)) (bf ! (i + 2)))"

definition ToString :: "serialize_info \<Rightarrow> bytes \<times> serialize_info" where
  "ToString s =
     (let bf = header (sbuffer s);
          (i, str) = ToString_loop bf 0 [] in
      (ToString_tail bf i str, s\<lparr>sbuffer := bf\<rparr>))"

section \<open>Reading\<close>

definition table128 :: "int list" where
  "table128 =
     [- 1, - 1, - 1, - 1, - 1, - 1, - 1, - 1, - 1, - 1, - 1, - 1, - 1, - 1, - 1, - 1,
      - 1, - 1, - 1, - 1, - 1, - 1, - 1, - 1, - 1, - 1, - 1, - 1, - 1, - 1, - 1, - 1,
      - 1, - 1, - 1, - 1, - 1, - 1, - 1, - 1, - 1, - 1, - 1, 62, - 1, - 1, - 1, 63,
      52, 53, 54, 55, 56, 57, 58, 59, 60, 61, - 1, - 1, - 1, 0, - 1, - 1,
      - 1, 0, 1, 2, 3, 4, 5, 6, 7, 8, 9, 10, 11, 12, 13, 14,
      15, 16, 17, 18, 19, 20, 21, 22, 23, 24, 25, - 1, - 1, - 1, - 1, - 1,
      - 1, 26, 27, 28, 29, 30, 31, 32, 33, 34, 35, 36, 37, 38, 39, 40,
      41, 42, 43, 44, 45, 46, 47, 48, 49, 50, 51, - 1, - 1, - 1, - 1, - 1]"

text \<open>\<open>pend = None\<close>: the constructor returned before it set \<open>pend\<close>; \<open>pbuf = None\<close> is the null pointer.\<close>

record deserialize_info =
  valid :: bool
  pbuf :: "bytes option"
  pend :: "nat option"
  current :: nat

definition bad_char :: "UInt8 \<Rightarrow> bool" where
  "bad_char c \<longleftrightarrow> 128 \<le> unat c \<or> table128 ! unat c = - 1"

definition val128 :: "UInt8 \<Rightarrow> UInt32" where
  "val128 c = word_of_int (table128 ! unat c)"

definition group3 :: "UInt8 \<Rightarrow> UInt8 \<Rightarrow> UInt8 \<Rightarrow> UInt8 \<Rightarrow> bytes" where
  "group3 c1 c2 c3 c4 =
     [ucast (val128 c1 OR push_bit 6 (val128 c2 AND 0x3)),
      ucast ((drop_bit 2 (val128 c2) AND 0xf) OR push_bit 4 (val128 c3 AND 0xf)),
      ucast ((drop_bit 4 (val128 c3) AND 0x3) OR push_bit 2 (val128 c4))]"

text \<open>The decoding loop: the bytes written, the size counted so far, and whether every character was good.\<close>

fun decode_loop :: "bytes \<Rightarrow> bytes \<Rightarrow> nat \<Rightarrow> bytes \<times> nat \<times> bool" where
  "decode_loop (c1 # c2 # c3 # c4 # rest) out sz =
     (if bad_char c1 \<or> bad_char c2 \<or> bad_char c3 \<or> bad_char c4 then (out, sz, False)
      else decode_loop rest (out @ group3 c1 c2 c3 c4)
             (if c3 = 0x3D then sz + 1 else if c4 = 0x3D then sz + 2 else sz + 3))"
| "decode_loop _ out sz = (out, sz, True)"

definition DeserializeInfo :: "bytes \<Rightarrow> deserialize_info" where
  "DeserializeInfo restore =
     (let len = length restore in
      if len mod 4 \<noteq> 0 \<or> len < 4 then \<lparr>valid = False, pbuf = None, pend = None, current = 0\<rparr>
      else
        (let (b, sz, ok) = decode_loop restore [] 0 in
         if \<not> ok then \<lparr>valid = False, pbuf = Some b, pend = None, current = length b\<rparr>
         else if unat (of_le16 b) \<noteq> size_sub sz 4 then \<lparr>valid = False, pbuf = Some b, pend = None, current = length b\<rparr>
         else if sum_list (drop 4 (take sz b)) \<noteq> b ! 2 then \<lparr>valid = False, pbuf = Some b, pend = Some sz, current = length b\<rparr>
         else \<lparr>valid = True, pbuf = Some b, pend = Some sz, current = 4\<rparr>))"

definition isValid :: "deserialize_info \<Rightarrow> bool" where
  "isValid d = valid d"

definition isEnd :: "deserialize_info \<Rightarrow> bool option" where
  "isEnd d = map_option (\<lambda>e. e \<le> current d) (pend d)"

definition GetVersion :: "deserialize_info \<Rightarrow> UInt8 option" where
  "GetVersion d = (case pbuf d of Some b \<Rightarrow> (if 3 < length b then Some (b ! 3) else None) | None \<Rightarrow> None)"

text \<open>How many bytes the encoding that starts with byte \<open>b\<close> has, and their value.\<close>

definition enc_width :: "UInt8 \<Rightarrow> nat" where
  "enc_width b = (if b < 0x80 then 1 else if b < 0xc0 then 2 else if b < 0xe0 then 3 else if b < 0xf0 then 4 else 5)"

definition dec_UInt32 :: "bytes \<Rightarrow> UInt32" where
  "dec_UInt32 cur =
     (if cur ! 0 < 0x80 then ucast (cur ! 0)
      else if cur ! 0 < 0xc0 then (ucast (cur ! 0) AND 0x3f) OR push_bit 6 (ucast (cur ! 1))
      else if cur ! 0 < 0xe0 then
        (ucast (cur ! 0) AND 0x1f) OR push_bit 5 (ucast (cur ! 1)) OR push_bit 13 (ucast (cur ! 2))
      else if cur ! 0 < 0xf0 then
        (ucast (cur ! 0) AND 0x0f) OR push_bit 4 (ucast (cur ! 1)) OR push_bit 12 (ucast (cur ! 2)) OR push_bit 20 (ucast (cur ! 3))
      else of_le32 (drop 1 cur))"

definition get_UInt32 :: "deserialize_info \<Rightarrow> (UInt32 \<times> deserialize_info) option" where
  "get_UInt32 d =
     (case (pbuf d, pend d) of
        (Some b, Some e) \<Rightarrow>
          (if length b \<le> current d then None
           else
             (let cur = drop (current d) b; n = enc_width (cur ! 0) in
              if e < current d + n then Some (0, d\<lparr>current := e\<rparr>)
              else Some (dec_UInt32 cur, d\<lparr>current := current d + n\<rparr>)))
      | _ \<Rightarrow> None)"

definition get_UInt64 :: "deserialize_info \<Rightarrow> (UInt64 \<times> deserialize_info) option" where
  "get_UInt64 d =
     Option.bind (get_UInt32 d) (\<lambda>(val1, d1).
       Option.bind (get_UInt32 d1) (\<lambda>(val2, d2). Some (ucast val1 OR push_bit 32 (ucast val2), d2)))"

definition get_Int64 :: "deserialize_info \<Rightarrow> (Int64 \<times> deserialize_info) option" where
  "get_Int64 d =
     Option.bind (get_UInt32 d) (\<lambda>(val1, d1).
       Option.bind (get_UInt32 d1) (\<lambda>(val2, d2). Some (ucast val1 OR push_bit 32 (ucast val2), d2)))"

definition get_Int32 :: "deserialize_info \<Rightarrow> (Int32 \<times> deserialize_info) option" where
  "get_Int32 d = get_UInt32 d"

definition get_UInt16 :: "deserialize_info \<Rightarrow> (UInt16 \<times> deserialize_info) option" where
  "get_UInt16 d = map_option (\<lambda>(val1, d'). (ucast val1, d')) (get_UInt32 d)"

definition get_Int16 :: "deserialize_info \<Rightarrow> (Int16 \<times> deserialize_info) option" where
  "get_Int16 d = map_option (\<lambda>(val1, d'). (ucast val1, d')) (get_UInt32 d)"

definition get_UInt8 :: "deserialize_info \<Rightarrow> (UInt8 \<times> deserialize_info) option" where
  "get_UInt8 d = map_option (\<lambda>(val1, d'). (ucast val1, d')) (get_UInt32 d)"

definition get_Int8 :: "deserialize_info \<Rightarrow> (Int8 \<times> deserialize_info) option" where
  "get_Int8 d = map_option (\<lambda>(val1, d'). (ucast val1, d')) (get_UInt32 d)"

section \<open>Masks and small words\<close>

lemma and_masks:
  "(w :: 'a::len word) AND 0x3 = take_bit 2 w" "w AND 0xf = take_bit 4 w" "w AND 0x1f = take_bit 5 w"
  "w AND 0x3f = take_bit 6 w" "w AND 0xff = take_bit 8 w"
proof -
  have m: "mask 2 = (0x3 :: 'a word)" "mask 4 = (0xf :: 'a word)" "mask 5 = (0x1f :: 'a word)"
    "mask 6 = (0x3f :: 'a word)" "mask 8 = (0xff :: 'a word)"
    by (simp_all add: mask_eq_exp_minus_1)
  show "w AND 0x3 = take_bit 2 w" "w AND 0xf = take_bit 4 w" "w AND 0x1f = take_bit 5 w"
    "w AND 0x3f = take_bit 6 w" "w AND 0xff = take_bit 8 w"
    by (simp_all only: m [symmetric] take_bit_eq_mask)
qed

lemma Suc_Suc_diff_2 [simp]: "2 \<le> n \<Longrightarrow> Suc (Suc (n - 2)) = n"
  by simp

lemma bit_below: "(v :: 'a::len word) < 2 ^ k \<Longrightarrow> bit v n \<Longrightarrow> n < k"
proof (rule ccontr)
  assume a: "v < 2 ^ k" "bit v n" "\<not> n < k"
  have "k < LENGTH('a)" using a bit_imp_le_length by fastforce
  then have "unat (2 ^ k :: 'a word) = 2 ^ k" using unat_of_nat [of "2 ^ k", where 'a = 'a] by simp
  then have "unat v < 2 ^ k" using a(1) by (simp add: word_less_nat_alt)
  then have "take_bit k v = v" by (simp add: word_unat_eq_iff unat_take_bit_mod)
  then show False using a(2,3) by (metis bit_take_bit_iff)
qed

text \<open>A byte with a two-, three- or four-bit prefix over \<open>k\<close> low bits of a value.\<close>

lemma unat_prefixed:
  assumes "k < 8" "m mod 2 ^ k = 0" "m + 2 ^ k \<le> 256"
  shows "unat (ucast (take_bit k v OR word_of_nat m) :: UInt8) = unat (v :: UInt32) mod 2 ^ k + m"
proof -
  have "take_bit k v OR word_of_nat m = take_bit k v + (word_of_nat m :: UInt32)"
  proof (rule disjunctive_add [symmetric])
    fix n
    have "\<not> bit m n" if "n < k"
    proof -
      have "take_bit k m = 0" using assms(2) by (simp add: take_bit_eq_mod)
      then show ?thesis using that by (metis bit_0_eq bit_take_bit_iff bot_apply bot_bool_def)
    qed
    then show "\<not> bit (take_bit k v) n \<or> \<not> bit (word_of_nat m :: UInt32) n"
      by (auto simp: bit_simps)
  qed
  also have "take_bit k v + word_of_nat m = (word_of_nat (unat v mod 2 ^ k + m) :: UInt32)"
    by (simp add: take_bit_of_nat_mod)
  finally have e: "take_bit k v OR word_of_nat m = (word_of_nat (unat v mod 2 ^ k + m) :: UInt32)" .
  have "unat v mod 2 ^ k < 2 ^ k" by simp
  then have "unat v mod 2 ^ k + m < 256" using assms(3) by linarith
  then have "unat (ucast (word_of_nat (unat v mod 2 ^ k + m) :: UInt32) :: UInt8) = unat v mod 2 ^ k + m"
    by (simp add: unsigned_ucast_eq unat_of_nat take_bit_eq_mod del: of_nat_add)
  then show ?thesis by (simp only: e)
qed

lemma prefix_bytes:
  "unat (ucast ((v AND 0x3f) OR 0x80) :: UInt8) = unat (v :: UInt32) mod 64 + 128"
  "unat (ucast ((v AND 0x1f) OR 0xc0) :: UInt8) = unat v mod 32 + 192"
  "unat (ucast ((v AND 0xf) OR 0xe0) :: UInt8) = unat v mod 16 + 224"
  using unat_prefixed [of 6 128 v] unat_prefixed [of 5 192 v] unat_prefixed [of 4 224 v]
  by (simp_all add: and_masks)

lemma prefix_low:
  "(ucast (ucast ((v AND 0x3f) OR 0x80) :: UInt8) AND 0x3f :: UInt32) = take_bit 6 v"
  "(ucast (ucast ((v AND 0x1f) OR 0xc0) :: UInt8) AND 0x1f :: UInt32) = take_bit 5 v"
  "(ucast (ucast ((v AND 0xf) OR 0xe0) :: UInt8) AND 0xf :: UInt32) = take_bit 4 v"
proof -
  have u: "unat (take_bit k (ucast (b :: UInt8) :: UInt32)) = unat b mod 2 ^ k" for k b
  proof -
    have "unat (ucast b :: UInt32) = unat b" using unat_lt_exp [of b] by (simp add: unsigned_ucast_eq take_bit_eq_mod)
    then show ?thesis by (simp only: unat_take_bit_mod)
  qed
  have m: "(x + 128) mod 64 = x mod 64" "(x + 192) mod 32 = x mod 32" "(x + 224) mod 16 = x mod 16" for x :: nat
    using mod_mult_self1 [of x 2 64] mod_mult_self1 [of x 6 32] mod_mult_self1 [of x 14 16] by simp_all
  show "(ucast (ucast ((v AND 0x3f) OR 0x80) :: UInt8) AND 0x3f :: UInt32) = take_bit 6 v"
    "(ucast (ucast ((v AND 0x1f) OR 0xc0) :: UInt8) AND 0x1f :: UInt32) = take_bit 5 v"
    "(ucast (ucast ((v AND 0xf) OR 0xe0) :: UInt8) AND 0xf :: UInt32) = take_bit 4 v"
    unfolding word_unat_eq_iff and_masks(2,3,4) [where w = "ucast _"] u
    by (simp_all only: prefix_bytes unat_take_bit_mod) (simp_all add: m)
qed

section \<open>The value encoding\<close>

lemma enc_width_enc: "enc_UInt32 v \<noteq> [] \<and> enc_width (hd (enc_UInt32 v)) = length (enc_UInt32 v)"
proof -
  have m: "unat v mod 64 < 64" "unat v mod 32 < 32" "unat v mod 16 < 16" by simp_all
  have u: "v < 0x80 \<Longrightarrow> unat (ucast v :: UInt8) = unat v"
    by (simp add: unsigned_ucast_eq take_bit_eq_mod word_less_nat_alt)
  show ?thesis using m by (auto simp: enc_UInt32_def enc_width_def word_less_nat_alt prefix_bytes u)
qed


lemma dec_enc: "dec_UInt32 (enc_UInt32 v @ rest) = v"
proof -
  have m: "unat v mod 64 < 64" "unat v mod 32 < 32" "unat v mod 16 < 16" by simp_all
  have le: "[ucast v, ucast (drop_bit 8 v), ucast (drop_bit 16 v), ucast (drop_bit 24 v)] @ rest = le32 v @ rest"
    by (simp add: le32_def)
  consider (1) "v < 0x80" | (2) "\<not> v < 0x80" "v < 0x4000" | (3) "\<not> v < 0x80" "\<not> v < 0x4000" "v < 0x200000"
    | (4) "\<not> v < 0x80" "\<not> v < 0x4000" "\<not> v < 0x200000" "v < 0x10000000"
    | (5) "\<not> v < 0x80" "\<not> v < 0x4000" "\<not> v < 0x200000" "\<not> v < 0x10000000" by blast
  then show ?thesis
  proof cases
    case 1
    have u: "unat (ucast v :: UInt8) = unat v"
      using 1 by (simp add: unsigned_ucast_eq take_bit_eq_mod word_less_nat_alt)
    have b: "bit v n \<Longrightarrow> n < 7" for n using bit_below [of v 7 n] 1 by simp
    have "(ucast (ucast v :: UInt8) :: UInt32) = v" by (rule bit_word_eqI) (auto simp: bit_simps dest: b)
    then show ?thesis using 1 by (simp add: enc_UInt32_def dec_UInt32_def word_less_nat_alt u)
  next
    case 2
    have b: "bit v n \<Longrightarrow> n < 14" for n using bit_below [of v 14 n] 2 by simp
    have "dec_UInt32 (enc_UInt32 v @ rest) = (ucast (ucast ((v AND 0x3f) OR 0x80) :: UInt8) AND 0x3f) OR push_bit 6 (ucast (ucast (drop_bit 6 v) :: UInt8))"
      using 2 m by (simp add: enc_UInt32_def dec_UInt32_def word_less_nat_alt [where 'a = 8] prefix_bytes)
    also have "\<dots> = v" unfolding prefix_low by (rule bit_word_eqI) (auto simp: bit_simps not_less dest: b)
    finally show ?thesis .
  next
    case 3
    have b: "bit v n \<Longrightarrow> n < 21" for n using bit_below [of v 21 n] 3 by simp
    have "dec_UInt32 (enc_UInt32 v @ rest) = (ucast (ucast ((v AND 0x1f) OR 0xc0) :: UInt8) AND 0x1f) OR
        push_bit 5 (ucast (ucast (drop_bit 5 v) :: UInt8)) OR push_bit 13 (ucast (ucast (drop_bit 13 v) :: UInt8))"
      using 3 m by (simp add: enc_UInt32_def dec_UInt32_def word_less_nat_alt [where 'a = 8] prefix_bytes)
    also have "\<dots> = v" unfolding prefix_low
    proof (rule bit_word_eqI)
      fix n :: nat consider "n < 5" | "5 \<le> n" "n < 13" | "13 \<le> n" by linarith
      then show "bit (take_bit 5 v OR push_bit 5 (ucast (ucast (drop_bit 5 v) :: UInt8)) OR push_bit 13 (ucast (ucast (drop_bit 13 v) :: UInt8))) n = bit v n"
        by cases (auto simp: bit_simps dest: b)
    qed
    finally show ?thesis .
  next
    case 4
    have b: "bit v n \<Longrightarrow> n < 28" for n using bit_below [of v 28 n] 4 by simp
    have "dec_UInt32 (enc_UInt32 v @ rest) = (ucast (ucast ((v AND 0xf) OR 0xe0) :: UInt8) AND 0xf) OR
        push_bit 4 (ucast (ucast (drop_bit 4 v) :: UInt8)) OR push_bit 12 (ucast (ucast (drop_bit 12 v) :: UInt8)) OR
        push_bit 20 (ucast (ucast (drop_bit 20 v) :: UInt8))"
      using 4 m by (simp add: enc_UInt32_def dec_UInt32_def word_less_nat_alt [where 'a = 8] prefix_bytes)
    also have "\<dots> = v" unfolding prefix_low
    proof (rule bit_word_eqI)
      fix n :: nat consider "n < 4" | "4 \<le> n" "n < 12" | "12 \<le> n" "n < 20" | "20 \<le> n" by linarith
      then show "bit (take_bit 4 v OR push_bit 4 (ucast (ucast (drop_bit 4 v) :: UInt8)) OR
          push_bit 12 (ucast (ucast (drop_bit 12 v) :: UInt8)) OR push_bit 20 (ucast (ucast (drop_bit 20 v) :: UInt8))) n = bit v n"
        by cases (auto simp: bit_simps dest: b)
    qed
    finally show ?thesis .
  next
    case 5
    then show ?thesis using of_le32_le32 [of v rest] le
      by (simp add: enc_UInt32_def dec_UInt32_def)
  qed
qed


section \<open>Base 64\<close>

lemma table64_eq: "table64 = [65, 66, 67, 68, 69, 70, 71, 72, 73, 74, 75, 76, 77, 78, 79, 80, 81, 82, 83, 84, 85, 86, 87, 88, 89, 90, 97, 98, 99, 100, 101, 102, 103, 104, 105, 106, 107, 108, 109, 110, 111, 112, 113, 114, 115, 116, 117, 118, 119, 120, 121, 122, 48, 49, 50, 51, 52, 53, 54, 55, 56, 57, 43, 47]"
  by (simp add: table64_def)

lemma table_inverse_all: "map (\<lambda>c. table128 ! unat c) table64 = map int [0..<64]"
  by (simp add: table64_eq table128_def upt_rec)

lemma table64_chars: "\<forall>c\<in>set table64. unat c < 128 \<and> c \<noteq> 0x3D" "length table64 = 64"
  by (simp_all add: table64_eq)

lemma table_inverse:
  assumes "i < 64"
  shows "\<not> bad_char (table64 ! i)" "val128 (table64 ! i) = word_of_nat i" "table64 ! i \<noteq> 0x3D"
proof -
  have l: "i < length table64" using assms table64_chars(2) by simp
  have "map (\<lambda>c. table128 ! unat c) table64 ! i = int i"
    unfolding table_inverse_all using assms by (simp only: nth_map length_upt nth_upt)
  then have "table128 ! unat (table64 ! i) = int i" using l by (simp only: nth_map)
  moreover have "unat (table64 ! i) < 128 \<and> table64 ! i \<noteq> 0x3D" using table64_chars(1) nth_mem [OF l] by blast
  ultimately show "\<not> bad_char (table64 ! i)" "val128 (table64 ! i) = word_of_nat i" "table64 ! i \<noteq> 0x3D"
    by (auto simp: bad_char_def val128_def)
qed

lemma bad_char_eq: "\<not> bad_char 0x3D" "val128 0x3D = 0"
  by (simp_all add: bad_char_def val128_def table128_def nth_append)

lemma take_bit_less: "k < LENGTH('a) \<Longrightarrow> unat (take_bit k (w :: 'a::len word)) < 2 ^ k"
  by (simp add: unat_take_bit_mod)

lemma idx_less: "idx1 a < 64" "idx2 a b < 64" "idx3 b c < 64" "idx4 c < 64" "idx2_last a < 64" "idx3_last b < 64"
proof -
  have t: "take_bit 6 w = w \<Longrightarrow> unat w < 64" for w :: UInt32
    using take_bit_less [of 6 w] by simp
  show "idx1 a < 64" using take_bit_less [of 6 a] by (simp add: idx1_def and_masks)
  show "idx2 a b < 64" "idx3 b c < 64" "idx4 c < 64" "idx2_last a < 64" "idx3_last b < 64"
    unfolding idx2_def idx3_def idx4_def idx2_last_def idx3_last_def
    by (intro t bit_word_eqI; auto simp: and_masks bit_simps)+
qed

lemma val128_idx:
  "val128 (table64 ! idx1 a) = ucast (take_bit 6 a)"
  "val128 (table64 ! idx2 a b) = take_bit 2 (drop_bit 6 (ucast a)) OR push_bit 2 (take_bit 4 (ucast b))"
  "val128 (table64 ! idx3 b c) = take_bit 4 (drop_bit 4 (ucast b)) OR push_bit 4 (take_bit 2 (ucast c))"
  "val128 (table64 ! idx4 c) = take_bit 6 (drop_bit 2 (ucast c))"
  "val128 (table64 ! idx2_last a) = take_bit 2 (drop_bit 6 (ucast a))"
  "val128 (table64 ! idx3_last b) = take_bit 4 (drop_bit 4 (ucast b))"
  by (simp_all add: table_inverse idx_less)
    (simp_all add: idx1_def idx2_def idx3_def idx4_def idx2_last_def idx3_last_def and_masks)

lemma group3_bytes:
  "(ucast (ucast (take_bit 6 a) OR push_bit 6 (take_bit 2 (take_bit 2 (drop_bit 6 (ucast a)) OR push_bit 2 x :: UInt32))) :: UInt8) = a"
  "(ucast (ucast (take_bit 6 a) OR push_bit 6 (take_bit 2 (take_bit 2 (drop_bit 6 (ucast a)) :: UInt32))) :: UInt8) = a"
  "(ucast (take_bit 4 (drop_bit 2 (take_bit 2 (drop_bit 6 (ucast a)) OR push_bit 2 (take_bit 4 (ucast b)))) OR
     push_bit 4 (take_bit 4 (take_bit 4 (drop_bit 4 (ucast b)) OR push_bit 4 y)) :: UInt32) :: UInt8) = b"
  "(ucast (take_bit 4 (drop_bit 2 (take_bit 2 (drop_bit 6 (ucast a)) OR push_bit 2 (take_bit 4 (ucast b)))) OR
     push_bit 4 (take_bit 4 (take_bit 4 (drop_bit 4 (ucast b)))) :: UInt32) :: UInt8) = b"
  "(ucast (take_bit 2 (drop_bit 4 (take_bit 4 (drop_bit 4 (ucast b)) OR push_bit 4 (take_bit 2 (ucast c)))) OR
     push_bit 2 (take_bit 6 (drop_bit 2 (ucast c))) :: UInt32) :: UInt8) = c"
  by (rule bit_word_eqI, auto simp: bit_simps not_less)+

lemma group3_group4:
  "group3 (table64 ! idx1 a) (table64 ! idx2 a b) (table64 ! idx3 b c) (table64 ! idx4 c) = [a, b, c]"
  unfolding group3_def val128_idx and_masks by (simp only: group3_bytes)

lemma group3_last:
  "take 1 (group3 (table64 ! idx1 a) (table64 ! idx2_last a) 0x3D 0x3D) = [a]"
  "take 2 (group3 (table64 ! idx1 a) (table64 ! idx2 a b) (table64 ! idx3_last b) 0x3D) = [a, b]"
  unfolding group3_def val128_idx and_masks bad_char_eq group3_bytes by (simp_all add: numeral_2_eq_2)

text \<open>The text of a block, group by group.\<close>

fun b64 :: "bytes \<Rightarrow> bytes" where
  "b64 [] = []"
| "b64 [a] = [table64 ! idx1 a, table64 ! idx2_last a, 0x3D, 0x3D]"
| "b64 [a, b] = [table64 ! idx1 a, table64 ! idx2 a b, table64 ! idx3_last b, 0x3D]"
| "b64 (a # b # c # rest) = group4 a b c @ b64 rest"

lemma drop_nth3: "i + 2 < length xs \<Longrightarrow> drop i xs = xs ! i # xs ! (i + 1) # xs ! (i + 2) # drop (i + 3) xs"
  by (simp add: Cons_nth_drop_Suc [symmetric] numeral_3_eq_3)

lemma ToString_tail_b64:
  assumes "i mod 3 = 0" "i < length bf" "\<not> i < length bf - 3"
  shows "ToString_tail bf i str = str @ b64 (drop i bf)"
proof -
  obtain k where k: "i = 3 * k" using assms(1) by auto
  consider "length bf = i + 1" | "length bf = i + 2" | "length bf = i + 3" using assms(2,3) by linarith
  then show ?thesis
  proof cases
    case 1
    then have "drop i bf = [bf ! i]" by (simp add: Cons_nth_drop_Suc [symmetric])
    moreover have "length bf mod 3 = 1" using 1 k by simp
    ultimately show ?thesis by (simp add: ToString_tail_def)
  next
    case 2
    then have "drop i bf = [bf ! i, bf ! (i + 1)]" by (simp add: Cons_nth_drop_Suc [symmetric])
    moreover have "length bf mod 3 = 2" using 2 k by presburger
    ultimately show ?thesis by (simp add: ToString_tail_def)
  next
    case 3
    then have "drop i bf = [bf ! i, bf ! (i + 1), bf ! (i + 2)]" by (simp add: Cons_nth_drop_Suc [symmetric])
    moreover have "length bf mod 3 = 0" using 3 k by simp
    ultimately show ?thesis by (simp add: ToString_tail_def)
  qed
qed

lemma ToString_loop_b64:
  "i mod 3 = 0 \<Longrightarrow> i < length bf \<Longrightarrow>
     (case ToString_loop bf i str of (j, s) \<Rightarrow> ToString_tail bf j s) = str @ b64 (drop i bf)"
proof (induction bf i str rule: ToString_loop.induct)
  case (1 bf i str)
  show ?case
  proof (cases "i < length bf - 3")
    case True
    have "(i + 3) mod 3 = 0" "i + 3 < length bf" using 1 True by auto
    from "1.IH" [OF True this] show ?thesis
      using True drop_nth3 [of i bf] by (subst ToString_loop.simps) (simp add: numeral_eq_Suc)
  next
    case False
    then show ?thesis using ToString_tail_b64 1 by (subst ToString_loop.simps) simp
  qed
qed

lemma length_header [simp]: "length (header bf) = length bf"
  by (simp add: header_def Let_def)

lemma ToString_b64: "sbuffer s \<noteq> [] \<Longrightarrow> fst (ToString s) = b64 (header (sbuffer s))"
  using ToString_loop_b64 [of 0 "header (sbuffer s)" "[]"] by (auto simp: ToString_def Let_def case_prod_beta)

lemma length_b64: "length (b64 b) = 4 * ((length b + 2) div 3)"
proof (induction b rule: b64.induct)
  case (4 a b c rest)
  have "(length (a # b # c # rest) + 2) div 3 = 1 + (length rest + 2) div 3" by simp
  then show ?case using 4 by (simp add: group4_def)
qed simp_all

lemma decode_b64: "\<exists>pad. decode_loop (b64 b) out sz = (out @ b @ pad, sz + length b, True)"
proof (induction b arbitrary: out sz rule: b64.induct)
  case (2 a)
  have "group3 (table64 ! idx1 a) (table64 ! idx2_last a) 0x3D 0x3D = [a] @ drop 1 (group3 (table64 ! idx1 a) (table64 ! idx2_last a) 0x3D 0x3D)"
    using group3_last(1) [of a] append_take_drop_id [of 1 "group3 (table64 ! idx1 a) (table64 ! idx2_last a) 0x3D 0x3D"] by metis
  then show ?case by (simp add: table_inverse idx_less bad_char_eq) metis
next
  case (3 a b)
  have "group3 (table64 ! idx1 a) (table64 ! idx2 a b) (table64 ! idx3_last b) 0x3D =
      [a, b] @ drop 2 (group3 (table64 ! idx1 a) (table64 ! idx2 a b) (table64 ! idx3_last b) 0x3D)"
    using group3_last(2) [of a b] append_take_drop_id [of 2 "group3 (table64 ! idx1 a) (table64 ! idx2 a b) (table64 ! idx3_last b) 0x3D"] by metis
  then show ?case by (simp add: table_inverse idx_less bad_char_eq) metis
next
  case (4 a b c rest)
  then show ?case using 4 [of "out @ [a, b, c]" "sz + 3"]
    by (simp add: group4_def table_inverse idx_less group3_group4 numeral_3_eq_3)
qed simp

section \<open>The header\<close>

lemma of_le16_length:
  "of_le16 (word_of_nat (n mod 256) # word_of_nat (n div 256 mod 256) # rest) = word_of_nat n"
proof -
  have "(ucast (word_of_nat n :: UInt16) :: UInt8) = word_of_nat (n mod 256)"
    by (simp add: word_unat_eq_iff unsigned_ucast_eq unat_of_nat take_bit_eq_mod mod_mod_cancel)
  moreover have "(ucast (drop_bit 8 (word_of_nat n :: UInt16)) :: UInt8) = word_of_nat (n div 256 mod 256)"
  proof -
    have e: "n div 256 mod 256 = take_bit 8 (drop_bit 8 n)" by (simp add: take_bit_eq_mod drop_bit_eq_div)
    show ?thesis unfolding e by (rule bit_word_eqI) (auto simp: bit_simps)
  qed
  ultimately show ?thesis using of_le16_le16 [of "word_of_nat n" rest] by (simp add: le16_def)
qed

lemma header_parts:
  assumes "4 \<le> length bf"
  shows "of_le16 (header bf @ pad) = word_of_nat (length bf - 4)" "header bf ! 2 = sum_list (drop 4 bf)"
    "drop 3 (header bf) = drop 3 bf"
proof -
  obtain a b c d r where bf: "bf = a # b # c # d # r"
    using assms by (auto simp: numeral_eq_Suc Suc_le_length_iff)
  have h: "header bf = word_of_nat (length r mod 256) # word_of_nat (length r div 256 mod 256) # sum_list r # d # r"
    by (simp add: header_def bf Let_def numeral_2_eq_2)
  show "of_le16 (header bf @ pad) = word_of_nat (length bf - 4)" "header bf ! 2 = sum_list (drop 4 bf)" "drop 3 (header bf) = drop 3 bf"
    unfolding h by (simp_all add: of_le16_length bf)
qed

lemma DeserializeInfo_ToString:
  assumes "4 \<le> length (sbuffer s)" "length (sbuffer s) < 65540"
  shows "\<exists>pad. DeserializeInfo (fst (ToString s)) =
    \<lparr>valid = True, pbuf = Some (header (sbuffer s) @ pad), pend = Some (length (sbuffer s)), current = 4\<rparr>"
proof -
  let ?b = "sbuffer s"
  have ne: "?b \<noteq> []" using assms by auto
  obtain pad where dec: "decode_loop (fst (ToString s)) [] 0 = (header ?b @ pad, length ?b, True)"
    using decode_b64 [of "header ?b" "[]" 0] by (auto simp: ToString_b64 [OF ne])
  have len: "length (fst (ToString s)) mod 4 = 0" "\<not> length (fst (ToString s)) < 4"
    using assms(1) by (auto simp: ToString_b64 [OF ne] length_b64)
  have "unat (of_le16 (header ?b @ pad)) = size_sub (length ?b) 4"
    using assms by (simp only: header_parts(1) unat_of_nat) simp
  moreover have "sum_list (drop 4 (take (length ?b) (header ?b @ pad))) = (header ?b @ pad) ! 2"
  proof -
    have "drop 4 (header ?b) = drop 4 ?b"
      using arg_cong [OF header_parts(3) [OF assms(1)], of "drop 1"] by simp
    then show ?thesis using header_parts(2) [OF assms(1)] assms(1) by (simp add: nth_append)
  qed
  ultimately show ?thesis using dec len by (intro exI [of _ pad]) (simp add: DeserializeInfo_def Let_def)
qed

lemma get_UInt32_at:
  assumes "pbuf d = Some b" "pend d = Some e" "drop (current d) b = enc_UInt32 v @ rest" "current d + length (enc_UInt32 v) \<le> e"
  shows "get_UInt32 d = Some (v, d\<lparr>current := current d + length (enc_UInt32 v)\<rparr>)"
proof -
  have ne: "enc_UInt32 v \<noteq> []" "enc_width (hd (enc_UInt32 v)) = length (enc_UInt32 v)" using enc_width_enc by auto
  have "current d < length b" using assms(3) ne(1) by (cases "length b \<le> current d") auto
  moreover have "(enc_UInt32 v @ rest) ! 0 = hd (enc_UInt32 v)" using ne(1) by (simp add: hd_conv_nth nth_append)
  ultimately show ?thesis using assms ne(2) dec_enc [of v rest] by (simp add: get_UInt32_def Let_def)
qed

section \<open>Sequences of typed values\<close>

datatype ser_value = VU64 UInt64 | VU32 UInt32 | VU16 UInt16 | VU8 UInt8 | VI64 Int64 | VI32 Int32 | VI16 Int16 | VI8 Int8

fun put_value :: "ser_value \<Rightarrow> serialize_info \<Rightarrow> serialize_info" where
  "put_value (VU64 v) = put_UInt64 v" | "put_value (VU32 v) = put_UInt32 v" | "put_value (VU16 v) = put_UInt16 v"
| "put_value (VU8 v) = put_UInt8 v" | "put_value (VI64 v) = put_Int64 v" | "put_value (VI32 v) = put_Int32 v"
| "put_value (VI16 v) = put_Int16 v" | "put_value (VI8 v) = put_Int8 v"

text \<open>Reading a value of the type of a given one.\<close>

fun get_value :: "ser_value \<Rightarrow> deserialize_info \<Rightarrow> (ser_value \<times> deserialize_info) option" where
  "get_value (VU64 _) d = map_option (\<lambda>(v, d'). (VU64 v, d')) (get_UInt64 d)"
| "get_value (VU32 _) d = map_option (\<lambda>(v, d'). (VU32 v, d')) (get_UInt32 d)"
| "get_value (VU16 _) d = map_option (\<lambda>(v, d'). (VU16 v, d')) (get_UInt16 d)"
| "get_value (VU8 _) d = map_option (\<lambda>(v, d'). (VU8 v, d')) (get_UInt8 d)"
| "get_value (VI64 _) d = map_option (\<lambda>(v, d'). (VI64 v, d')) (get_Int64 d)"
| "get_value (VI32 _) d = map_option (\<lambda>(v, d'). (VI32 v, d')) (get_Int32 d)"
| "get_value (VI16 _) d = map_option (\<lambda>(v, d'). (VI16 v, d')) (get_Int16 d)"
| "get_value (VI8 _) d = map_option (\<lambda>(v, d'). (VI8 v, d')) (get_Int8 d)"

fun get_values :: "ser_value list \<Rightarrow> deserialize_info \<Rightarrow> (ser_value list \<times> deserialize_info) option" where
  "get_values [] d = Some ([], d)"
| "get_values (v # vs) d = Option.bind (get_value v d) (\<lambda>(w, d1). Option.bind (get_values vs d1) (\<lambda>(ws, d2). Some (w # ws, d2)))"

text \<open>The bytes of a value: one or two encoded 32-bit words.\<close>

fun value_words :: "ser_value \<Rightarrow> UInt32 list" where
  "value_words (VU64 v) = [ucast (v AND 0xffffffff), ucast (drop_bit 32 v)]" | "value_words (VU32 v) = [v]"
| "value_words (VU16 v) = [ucast v]" | "value_words (VU8 v) = [ucast v]"
| "value_words (VI64 v) = [ucast (v AND 0xffffffff), ucast (drop_bit 32 v)]" | "value_words (VI32 v) = [v]"
| "value_words (VI16 v) = [scast v]" | "value_words (VI8 v) = [scast v]"

definition value_bytes :: "ser_value \<Rightarrow> bytes" where
  "value_bytes v = concat (map enc_UInt32 (value_words v))"

lemma put_value_bytes: "sbuffer (put_value v s) = sbuffer s @ value_bytes v"
  by (cases v) (simp_all add: value_bytes_def put_UInt32_def put_UInt64_def put_UInt16_def put_UInt8_def
      put_Int64_def put_Int32_def put_Int16_def put_Int8_def Let_def)

lemma put_values_bytes: "sbuffer (fold put_value vs s) = sbuffer s @ concat (map value_bytes vs)"
  by (induction vs arbitrary: s) (simp_all add: put_value_bytes)

lemma narrow:
  "ucast (ucast (v :: UInt16) :: UInt32) = v" "ucast (scast (v :: UInt16) :: UInt32) = v"
  "ucast (ucast (w :: UInt8) :: UInt32) = w" "ucast (scast (w :: UInt8) :: UInt32) = w"
  by (rule bit_word_eqI, auto simp: bit_simps)+

lemma join_halves: "ucast (ucast ((v :: UInt64) AND 0xffffffff) :: UInt32) OR push_bit 32 (ucast (ucast (drop_bit 32 v) :: UInt32)) = v"
proof -
  have m: "v AND 0xffffffff = take_bit 32 v" using take_bit_eq_mask [of 32 v] by (simp add: mask_eq_exp_minus_1)
  show ?thesis unfolding m by (rule bit_word_eqI) (auto simp: bit_simps not_less)
qed

lemma get_value_at:
  assumes "pbuf d = Some b" "pend d = Some e" "drop (current d) b = value_bytes v @ rest" "current d + length (value_bytes v) \<le> e"
  shows "get_value v d = Some (v, d\<lparr>current := current d + length (value_bytes v)\<rparr>)"
proof -
  have two: "get_UInt32 d = Some (x, d\<lparr>current := current d + length (enc_UInt32 x)\<rparr>)
     \<and> get_UInt32 (d\<lparr>current := current d + length (enc_UInt32 x)\<rparr>) =
         Some (y, d\<lparr>current := current d + (length (enc_UInt32 x) + length (enc_UInt32 y))\<rparr>)"
    if v: "value_words v = [x, y]" for x y
  proof
    show "get_UInt32 d = Some (x, d\<lparr>current := current d + length (enc_UInt32 x)\<rparr>)"
      using get_UInt32_at [of d b e x "enc_UInt32 y @ rest"] assms v by (simp add: value_bytes_def)
    have "drop (current d + length (enc_UInt32 x)) b = enc_UInt32 y @ rest"
      using arg_cong [OF assms(3), of "drop (length (enc_UInt32 x))"] v by (simp add: value_bytes_def add.commute)
    then show "get_UInt32 (d\<lparr>current := current d + length (enc_UInt32 x)\<rparr>) =
         Some (y, d\<lparr>current := current d + (length (enc_UInt32 x) + length (enc_UInt32 y))\<rparr>)"
      using get_UInt32_at [of "d\<lparr>current := current d + length (enc_UInt32 x)\<rparr>" b e y rest] assms v
      by (simp add: value_bytes_def add.assoc)
  qed
  have one: "get_UInt32 d = Some (x, d\<lparr>current := current d + length (value_bytes v)\<rparr>)" if "value_words v = [x]" for x
    using get_UInt32_at [of d b e x rest] assms that by (simp add: value_bytes_def)
  show ?thesis
    using one two by (cases v)
      (simp_all add: get_UInt16_def get_UInt8_def get_Int32_def get_Int16_def get_Int8_def narrow
        get_UInt64_def get_Int64_def join_halves value_bytes_def)
qed

lemma get_values_at:
  assumes "pbuf d = Some b" "pend d = Some e" "drop (current d) b = concat (map value_bytes vs) @ rest"
    "current d + length (concat (map value_bytes vs)) \<le> e"
  shows "get_values vs d = Some (vs, d\<lparr>current := current d + length (concat (map value_bytes vs))\<rparr>)"
  using assms
proof (induction vs arbitrary: d)
  case (Cons v vs)
  let ?d = "d\<lparr>current := current d + length (value_bytes v)\<rparr>"
  have "get_value v d = Some (v, ?d)"
    using get_value_at [of d b e v "concat (map value_bytes vs) @ rest"] Cons.prems by simp
  moreover have "drop (current ?d) b = concat (map value_bytes vs) @ rest"
    using arg_cong [OF Cons.prems(3), of "drop (length (value_bytes v))"] by (simp add: add.commute)
  ultimately show ?case using Cons.IH [of ?d] Cons.prems by (simp add: add.assoc)
qed simp

section \<open>Properties\<close>

text \<open>
  Serialization round trips through text: for any sequence of values of the eight integer types
  whose encoding has fewer than 65536 bytes, the text printed by \<open>ToString\<close> is accepted by
  \<open>DeserializeInfo\<close>, has the version, yields exactly the values, in order, and is then at its end.
\<close>

theorem serialize_roundtrip:
  assumes "s = fold put_value vs (SerializeInfo version)" "length (sbuffer s) < 65540"
  shows "let d = DeserializeInfo (fst (ToString s)) in
    isValid d \<and> GetVersion d = Some version \<and>
    (case get_values vs d of Some (ws, d') \<Rightarrow> ws = vs \<and> isEnd d' = Some True | None \<Rightarrow> False)"
proof -
  let ?p = "concat (map value_bytes vs)"
  have sb: "sbuffer s = [0, 0, 0, version] @ ?p"
    by (simp add: assms(1) put_values_bytes SerializeInfo_def numeral_eq_Suc)
  then have l4: "4 \<le> length (sbuffer s)" by simp
  obtain pad where d: "DeserializeInfo (fst (ToString s)) =
    \<lparr>valid = True, pbuf = Some (header (sbuffer s) @ pad), pend = Some (length (sbuffer s)), current = 4\<rparr>" (is "_ = ?d")
    using DeserializeInfo_ToString [OF l4 assms(2)] by blast
  have h3: "drop 3 (header (sbuffer s)) = version # ?p" using header_parts(3) [OF l4] by (simp add: sb)
  have "header (sbuffer s) ! 3 = version" using hd_drop_conv_nth [of 3 "header (sbuffer s)"] h3 l4 by simp
  then have v: "(header (sbuffer s) @ pad) ! 3 = version" using l4 by (simp add: nth_append)
  have "drop 4 (header (sbuffer s)) = ?p" using arg_cong [OF h3, of "drop 1"] by simp
  then have "get_values vs ?d = Some (vs, ?d\<lparr>current := 4 + length ?p\<rparr>)"
    using get_values_at [of ?d "header (sbuffer s) @ pad" "length (sbuffer s)" vs pad] l4 by (simp add: sb)
  then show ?thesis using v l4 by (simp add: d isValid_def GetVersion_def isEnd_def sb Let_def)
qed

theorem serialize_roundtrip_witness:
  "let d = DeserializeInfo (fst (ToString (fold put_value [VU32 300, VI8 (- 1), VU64 5] (SerializeInfo 7)))) in
    isValid d \<and> GetVersion d = Some 7 \<and>
    (case get_values [VU32 300, VI8 (- 1), VU64 5] d of Some (ws, d') \<Rightarrow> ws = [VU32 300, VI8 (- 1), VU64 5] \<and> isEnd d' = Some True
     | None \<Rightarrow> False)"
proof -
  have "length (enc_UInt32 v) \<le> 5" for v by (simp add: enc_UInt32_def)
  note l = this [of "300"] this [of "scast (- 1 :: Int8)"] this [of "ucast ((5 :: UInt64) AND 0xffffffff)"] this [of "ucast (drop_bit 32 (5 :: UInt64))"]
  have "length (sbuffer (fold put_value [VU32 300, VI8 (- 1), VU64 5] (SerializeInfo 7))) < 65540"
    unfolding put_values_bytes using l by (simp add: value_bytes_def SerializeInfo_def)
  from serialize_roundtrip [OF refl this] show ?thesis .
qed

text \<open>
  A block whose payload has 65536 bytes or more is not restored: its length does not fit the
  16 bits of the header, and \<open>DeserializeInfo\<close> rejects the text that \<open>ToString\<close> printed.
\<close>

lemma serialize_too_long:
  assumes "65540 \<le> length (sbuffer s)"
  shows "\<not> isValid (DeserializeInfo (fst (ToString s)))"
proof -
  let ?b = "sbuffer s"
  have ne: "?b \<noteq> []" using assms by auto
  obtain pad where dec: "decode_loop (fst (ToString s)) [] 0 = (header ?b @ pad, length ?b, True)"
    using decode_b64 [of "header ?b" "[]" 0] by (auto simp: ToString_b64 [OF ne])
  have "unat (of_le16 (header ?b @ pad)) \<noteq> size_sub (length ?b) 4"
    using assms unat_lt_exp [of "of_le16 (header ?b @ pad)"] by simp
  then show ?thesis using dec by (auto simp: DeserializeInfo_def isValid_def Let_def)
qed

end
