(* ===== verification/Unique_ID.thy ===== *)
theory Unique_ID
  imports Prelude
begin

text \<open>
  \<open>System/UniqueID.h\<close> for 32-bit identifiers: a counter of the largest identifier handed out and an
  ordered set of freed ranges. The set is the list of its ranges in order; identifiers are natural
  numbers and every increment wraps at \<open>2^32\<close>. The contract of an identifier pool is the locale
  \<open>id_pool\<close>, over the set of identifiers in use.
\<close>

section \<open>State and operations\<close>

definition inc32 :: "nat \<Rightarrow> nat" where
  "inc32 x = (x + 1) mod 2 ^ 32"

record unique_id =
  maxId :: nat
  freeId :: "(nat \<times> nat) list"

definition UniqueID :: unique_id where
  "UniqueID = \<lparr>maxId = 0, freeId = []\<rparr>"

definition next_id :: "unique_id \<Rightarrow> nat \<times> unique_id" where
  "next_id u =
     (case freeId u of
        [] \<Rightarrow> (inc32 (maxId u), u\<lparr>maxId := inc32 (maxId u)\<rparr>)
      | (lo, hi) # rest \<Rightarrow> (lo, u\<lparr>freeId := (if lo = hi then rest else (inc32 lo, hi) # rest)\<rparr>))"

definition insert_free :: "nat \<times> nat \<Rightarrow> (nat \<times> nat) list \<Rightarrow> (nat \<times> nat) list \<Rightarrow> (nat \<times> nat) list" where
  "insert_free fid before after =
     (if before \<noteq> [] \<and> fst (last before) = fst fid then before @ after else before @ fid # after)"

definition addFreeN :: "nat \<Rightarrow> nat \<Rightarrow> unique_id \<Rightarrow> unique_id" where
  "addFreeN lId hId u =
     u\<lparr>freeId := insert_free (lId, hId) (takeWhile (\<lambda>e. fst e \<le> lId) (freeId u)) (dropWhile (\<lambda>e. fst e \<le> lId) (freeId u))\<rparr>"

definition setMax :: "nat \<Rightarrow> unique_id \<Rightarrow> unique_id" where
  "setMax i u = u\<lparr>maxId := i\<rparr>"

text \<open>\<open>before\<close> and \<open>after\<close> are the ranges in front of and from \<open>upper_bound(fid)\<close> on.\<close>

definition addFree_ranges :: "nat \<Rightarrow> nat \<Rightarrow> (nat \<times> nat) list \<Rightarrow> (nat \<times> nat) list \<Rightarrow> (nat \<times> nat) list" where
  "addFree_ranges lId hId before after =
     (if before = [] then
        (if after \<noteq> [] \<and> fst (hd after) \<le> inc32 hId then (lId, snd (hd after)) # tl after
         else insert_free (lId, hId) before after)
      else if after = [] then
        (if lId \<le> inc32 (snd (last before)) then butlast before @ [(fst (last before), hId)]
         else insert_free (lId, hId) before after)
      else if fst (hd after) \<le> inc32 hId then
        (if lId \<le> inc32 (snd (last before))
         then butlast before @ (fst (last before), snd (hd after)) # tl after
         else before @ (lId, snd (hd after)) # tl after)
      else
        (if lId \<le> inc32 (snd (last before)) then butlast before @ (fst (last before), hId) # after
         else insert_free (lId, hId) before after))"

definition addFree :: "nat \<Rightarrow> nat \<Rightarrow> unique_id \<Rightarrow> unique_id" where
  "addFree lId hId u =
     u\<lparr>freeId := addFree_ranges lId hId (takeWhile (\<lambda>e. fst e \<le> lId) (freeId u)) (dropWhile (\<lambda>e. fst e \<le> lId) (freeId u))\<rparr>"

section \<open>The contract of an identifier pool\<close>

locale id_pool =
  fixes invar :: "'s \<Rightarrow> bool"
    and in_use :: "'s \<Rightarrow> nat set"
    and full :: "'s \<Rightarrow> bool"
    and empty :: 's
    and next1 :: "'s \<Rightarrow> nat \<times> 's"
    and free :: "nat \<Rightarrow> nat \<Rightarrow> 's \<Rightarrow> 's"
  assumes empty: "invar empty" "in_use empty = {}"
    and next1: "invar s \<Longrightarrow> \<not> full s \<Longrightarrow> next1 s = (i, s') \<Longrightarrow> invar s' \<and> i \<notin> in_use s \<and> in_use s' = insert i (in_use s)"
    and free: "invar s \<Longrightarrow> l \<le> h \<Longrightarrow> {l..h} \<subseteq> in_use s \<Longrightarrow> invar (free l h s) \<and> in_use (free l h s) = in_use s - {l..h}"
begin

text \<open>Taking \<open>n\<close> identifiers in a row gives \<open>n\<close> different ones, none of them in use before.\<close>

fun take_n :: "nat \<Rightarrow> 's \<Rightarrow> nat list \<times> 's" where
  "take_n 0 s = ([], s)"
| "take_n (Suc n) s = (let (i, s1) = next1 s; (is, s2) = take_n n s1 in (i # is, s2))"

fun never_full :: "nat \<Rightarrow> 's \<Rightarrow> bool" where
  "never_full 0 s = True"
| "never_full (Suc n) s = (\<not> full s \<and> never_full n (snd (next1 s)))"

lemma take_n_fresh:
  "invar s \<Longrightarrow> never_full n s \<Longrightarrow> take_n n s = (is, s') \<Longrightarrow>
     invar s' \<and> distinct is \<and> set is \<inter> in_use s = {} \<and> in_use s' = in_use s \<union> set is"
proof (induction n arbitrary: s "is" s')
  case (Suc n)
  obtain i s1 where n1: "next1 s = (i, s1)" by (cases "next1 s")
  obtain js s2 where t: "take_n n s1 = (js, s2)" by (cases "take_n n s1")
  have "invar s1" "i \<notin> in_use s" "in_use s1 = insert i (in_use s)" using next1 [OF Suc.prems(1) _ n1] Suc.prems(2) by auto
  then show ?case using Suc.IH [of s1 js s2] Suc.prems n1 t by auto
qed simp

end

section \<open>UniqueID is one\<close>

definition ranges_ok :: "(nat \<times> nat) list \<Rightarrow> bool" where
  "ranges_ok xs \<longleftrightarrow> sorted_wrt (\<lambda>a b. snd a < fst b) xs \<and> (\<forall>x\<in>set xs. fst x \<le> snd x)"

definition free_ids :: "(nat \<times> nat) list \<Rightarrow> nat set" where
  "free_ids xs = (\<Union>x\<in>set xs. {fst x..snd x})"

definition uid_ok :: "unique_id \<Rightarrow> bool" where
  "uid_ok u \<longleftrightarrow> maxId u < 2 ^ 32 \<and> ranges_ok (freeId u) \<and> free_ids (freeId u) \<subseteq> {1..maxId u}"

definition uid_in_use :: "unique_id \<Rightarrow> nat set" where
  "uid_in_use u = {1..maxId u} - free_ids (freeId u)"

text \<open>The pool is used up when no range is free and the counter has reached its largest value.\<close>

definition uid_full :: "unique_id \<Rightarrow> bool" where
  "uid_full u \<longleftrightarrow> freeId u = [] \<and> maxId u = 2 ^ 32 - 1"

lemma inc32_less: "x < 2 ^ 32 - 1 \<Longrightarrow> inc32 x = x + 1"
  by (simp add: inc32_def)

lemma next_id_ok:
  assumes ok: "uid_ok u" and nf: "\<not> uid_full u" and n: "next_id u = (i, u')"
  shows "uid_ok u' \<and> i \<notin> uid_in_use u \<and> uid_in_use u' = insert i (uid_in_use u)"
proof (cases "freeId u")
  case Nil
  then have "inc32 (maxId u) = maxId u + 1" using ok nf by (simp add: uid_full_def uid_ok_def inc32_less)
  then show ?thesis using Nil n ok nf by (auto simp: next_id_def uid_ok_def uid_in_use_def free_ids_def ranges_ok_def uid_full_def)
next
  case (Cons r rest)
  obtain lo hi where r: "r = (lo, hi)" by (cases r)
  have lohi: "lo \<le> hi" "\<forall>x\<in>set rest. hi < fst x" "hi \<le> maxId u" "1 \<le> lo" "maxId u < 2 ^ 32"
    and rest: "ranges_ok rest" "free_ids rest \<subseteq> {1..maxId u}"
    using ok Cons r by (auto simp: uid_ok_def ranges_ok_def free_ids_def)
  have fr: "free_ids (freeId u) = {lo..hi} \<union> free_ids rest" by (simp add: Cons r free_ids_def)
  have lor: "lo \<notin> free_ids rest" using lohi by (force simp: free_ids_def)
  show ?thesis
  proof (cases "lo = hi")
    case True
    then have "i = lo" "u' = u\<lparr>freeId := rest\<rparr>" using n Cons r by (simp_all add: next_id_def)
    then show ?thesis using True fr lohi rest lor ok by (auto simp: uid_ok_def uid_in_use_def)
  next
    case False
    then have inc: "inc32 lo = lo + 1" using lohi by (simp add: inc32_less)
    then have "i = lo" "u' = u\<lparr>freeId := (lo + 1, hi) # rest\<rparr>" using n Cons r False by (auto simp: next_id_def)
    moreover have "free_ids ((lo + 1, hi) # rest) = {lo + 1..hi} \<union> free_ids rest" by (simp add: free_ids_def)
    moreover have "ranges_ok ((lo + 1, hi) # rest)" using False lohi rest by (auto simp: ranges_ok_def)
    moreover have "{lo..hi} = insert lo {lo + 1..hi}" using lohi by auto
    ultimately show ?thesis using fr lohi rest lor ok by (auto simp: uid_ok_def uid_in_use_def)
  qed
qed

lemma free_ids_simps [simp]:
  "free_ids [] = {}" "free_ids (x # xs) = {fst x..snd x} \<union> free_ids xs" "free_ids (xs @ ys) = free_ids xs \<union> free_ids ys"
  by (auto simp: free_ids_def)

lemma free_ids_mem: "i \<in> free_ids xs \<longleftrightarrow> (\<exists>x\<in>set xs. fst x \<le> i \<and> i \<le> snd x)"
  by (auto simp: free_ids_def)

lemma ranges_ok_append:
  "ranges_ok (xs @ ys) \<longleftrightarrow> ranges_ok xs \<and> ranges_ok ys \<and> (\<forall>a\<in>set xs. \<forall>b\<in>set ys. snd a < fst b)"
  by (auto simp: ranges_ok_def sorted_wrt_append)

lemma ranges_ok_Cons: "ranges_ok (x # xs) \<longleftrightarrow> fst x \<le> snd x \<and> (\<forall>b\<in>set xs. snd x < fst b) \<and> ranges_ok xs"
  by (auto simp: ranges_ok_def)

lemma upper_bound_split:
  assumes "ranges_ok xs" "l \<le> h" "{l..h} \<inter> free_ids xs = {}"
  defines "B \<equiv> takeWhile (\<lambda>e. fst e \<le> l) xs" and "A \<equiv> dropWhile (\<lambda>e. fst e \<le> l) xs"
  shows "xs = B @ A" "\<forall>b\<in>set B. snd b < l" "\<forall>a\<in>set A. h < fst a"
proof -
  show xs: "xs = B @ A" by (simp add: B_def A_def)
  have ok: "ranges_ok B" "ranges_ok A" using assms(1) unfolding xs by (auto simp: ranges_ok_append)
  show "\<forall>b\<in>set B. snd b < l"
  proof
    fix b assume b: "b \<in> set B"
    then have "fst b \<le> l" by (auto simp: B_def dest: set_takeWhileD)
    moreover have "l \<notin> free_ids xs" using assms(2,3) by auto
    ultimately show "snd b < l" using b xs by (fastforce simp: free_ids_mem)
  qed
  have hdA: "A \<noteq> [] \<Longrightarrow> l < fst (hd A)" unfolding A_def using hd_dropWhile [of "\<lambda>e. fst e \<le> l" xs] by auto
  show "\<forall>a\<in>set A. h < fst a"
  proof
    fix a assume a: "a \<in> set A"
    then obtain r rs where A: "A = r # rs" by (cases A) auto
    then have "l < fst r" "fst r \<le> fst a" using hdA a ok(2) by (auto simp: ranges_ok_Cons)
    then have "l < fst a" by simp
    moreover have "fst a \<in> free_ids xs" using a xs ok(2) by (fastforce simp: free_ids_mem ranges_ok_def)
    ultimately show "h < fst a" using disjoint_iff [THEN iffD1, OF assms(3), rule_format, of "fst a"] by (cases "fst a \<le> h") auto
  qed
qed

lemma addFree_ranges_ok:
  assumes ok: "ranges_ok (B @ A)" and lh: "l \<le> h" "h < 2 ^ 32 - 1 \<or> A = []" "h < 2 ^ 32"
    and B: "\<forall>b\<in>set B. snd b < l" and A: "\<forall>a\<in>set A. h < fst a"
  shows "ranges_ok (addFree_ranges l h B A) \<and> free_ids (addFree_ranges l h B A) = free_ids (B @ A) \<union> {l..h}"
proof -
  have ih: "A \<noteq> [] \<Longrightarrow> inc32 h = h + 1" using lh by (auto simp: inc32_less)
  have "B \<noteq> [] \<Longrightarrow> snd (last B) < l" using B by simp
  then have ib: "B \<noteq> [] \<Longrightarrow> inc32 (snd (last B)) = snd (last B) + 1" using lh by (subst inc32_less) auto
  have okB: "ranges_ok B" and okA: "ranges_ok A" and AB: "\<forall>b\<in>set B. \<forall>a\<in>set A. snd b < fst a"
    using ok by (auto simp: ranges_ok_append)
  have fstB: "\<forall>b\<in>set B. fst b \<le> snd b" using okB by (simp add: ranges_ok_def)
  have ins: "insert_free (l, h) B A = B @ (l, h) # A"
    using B fstB last_in_set [of B] by (fastforce simp: insert_free_def)
  show ?thesis
  proof (cases B rule: rev_cases)
    case Nil
    show ?thesis
    proof (cases A)
      case (Cons a A')
      then show ?thesis using Nil okA A lh ih ins by (cases "fst a \<le> inc32 h") (auto simp: addFree_ranges_def ranges_ok_Cons)
    qed (use Nil lh ins in \<open>auto simp: addFree_ranges_def ranges_ok_def\<close>)
  next
    case (snoc B' b)
    have b: "snd b < l" "fst b \<le> snd b" "ranges_ok B'" "\<forall>c\<in>set B'. snd c < fst b" "\<forall>c\<in>set B'. snd c < l"
      using snoc B okB by (auto simp: ranges_ok_append ranges_ok_Cons)
    have bA: "\<forall>a\<in>set A. snd b < fst a" "\<forall>c\<in>set B'. \<forall>a\<in>set A. snd c < fst a" using AB snoc by auto
    have ib': "inc32 (snd b) = snd b + 1" using ib snoc by simp
    show ?thesis
    proof (cases A)
      case Nil
      then show ?thesis using snoc b lh ins ib'
        by (cases "l \<le> inc32 (snd b)") (auto simp: addFree_ranges_def ranges_ok_append ranges_ok_Cons ranges_ok_def [of "[]"])
    next
      case (Cons a A')
      have a: "h < fst a" "fst a \<le> snd a" "ranges_ok A'" "\<forall>c\<in>set A'. snd a < fst c" "\<forall>c\<in>set A'. h < fst c"
        using Cons A okA by (auto simp: ranges_ok_Cons)
      have bA': "\<forall>c\<in>set A'. snd b < fst c" "\<forall>c\<in>set B'. snd c < fst a \<and> (\<forall>d\<in>set A'. snd c < fst d)" using bA Cons by auto
      have ih': "inc32 h = h + 1" using ih Cons by simp
      show ?thesis
        using snoc Cons b a lh ins ib' ih' bA' bA
        by (cases "fst a \<le> inc32 h"; cases "l \<le> inc32 (snd b)")
          (auto simp: addFree_ranges_def ranges_ok_append ranges_ok_Cons)
    qed
  qed
qed

lemma addFree_ok:
  assumes ok: "uid_ok u" and lh: "l \<le> h" and sub: "{l..h} \<subseteq> uid_in_use u"
  shows "uid_ok (addFree l h u) \<and> uid_in_use (addFree l h u) = uid_in_use u - {l..h}"
proof -
  let ?xs = "freeId u"
  let ?B = "takeWhile (\<lambda>e. fst e \<le> l) ?xs" and ?A = "dropWhile (\<lambda>e. fst e \<le> l) ?xs"
  have xs: "ranges_ok ?xs" "{l..h} \<inter> free_ids ?xs = {}" using ok sub by (auto simp: uid_ok_def uid_in_use_def)
  note sp = upper_bound_split [OF xs(1) lh xs(2)]
  have "l \<in> uid_in_use u" "h \<in> uid_in_use u" using lh sub by auto
  then have hm: "1 \<le> l" "h \<le> maxId u" "maxId u < 2 ^ 32" using ok by (auto simp: uid_in_use_def uid_ok_def)
  have hA: "h < 2 ^ 32 - 1 \<or> ?A = []"
  proof (cases ?A)
    case (Cons a A')
    then have "h < fst a" using sp(3) by simp
    moreover have "a \<in> set ?xs" using Cons by (metis list.set_intros(1) set_dropWhileD)
    then have "fst a \<in> free_ids ?xs" using xs(1) by (fastforce simp: free_ids_mem ranges_ok_def)
    then have "fst a \<le> maxId u" using ok by (auto simp: uid_ok_def)
    ultimately show ?thesis using hm by linarith
  qed simp
  have "ranges_ok (addFree_ranges l h ?B ?A) \<and> free_ids (addFree_ranges l h ?B ?A) = free_ids (?B @ ?A) \<union> {l..h}"
    by (rule addFree_ranges_ok) (use xs lh hA hm sp in auto)
  then show ?thesis using ok hm by (auto simp: addFree_def uid_ok_def uid_in_use_def)
qed

interpretation uid: id_pool uid_ok uid_in_use uid_full UniqueID next_id addFree
proof
  show "uid_ok UniqueID" "uid_in_use UniqueID = {}"
    by (simp_all add: uid_ok_def UniqueID_def ranges_ok_def uid_in_use_def)
qed (rule next_id_ok addFree_ok; assumption)+

section \<open>Properties\<close>

text \<open>
  Identifiers are unique: \<open>next\<close> returns an identifier that is not in use and marks exactly it as
  used, and \<open>addFree\<close> of a range in use makes exactly this range free again, merging ranges as needed;
  both keep the free ranges ordered and disjoint.
\<close>

theorem unique_ids:
  assumes "uid_ok u"
  shows "(\<not> uid_full u \<longrightarrow> (case next_id u of (i, u') \<Rightarrow> uid_ok u' \<and> i \<notin> uid_in_use u \<and> uid_in_use u' = insert i (uid_in_use u)))
    \<and> (l \<le> h \<longrightarrow> {l..h} \<subseteq> uid_in_use u \<longrightarrow> uid_ok (addFree l h u) \<and> uid_in_use (addFree l h u) = uid_in_use u - {l..h})"
  using uid.next1 [OF assms] uid.free [OF assms] by (auto split: prod.splits)

theorem unique_ids_witness:
  "(let u = \<lparr>maxId = 9, freeId = [(2, 3), (6, 7)]\<rparr> in
    freeId (addFree 4 5 u) = [(2, 7)] \<and> uid_ok (addFree 4 5 u) \<and> uid_in_use (addFree 4 5 u) = uid_in_use u - {4..5})"
proof -
  let ?u = "\<lparr>maxId = 9, freeId = [(2, 3), (6, 7)]\<rparr>"
  have "uid_ok ?u" "{4..5} \<subseteq> uid_in_use ?u" by (auto simp: uid_ok_def ranges_ok_def uid_in_use_def)
  moreover have "freeId (addFree 4 5 ?u) = [(2, 7)]" by (simp add: addFree_def addFree_ranges_def inc32_def)
  ultimately show ?thesis using unique_ids [of ?u 4 5] by (simp add: Let_def)
qed

text \<open>
  Freeing a range that is free already can lose identifiers: when it lies inside the last free
  range, that range is cut down to the new upper end.
\<close>

lemma double_free_shrinks:
  assumes "lo \<le> l" "h < hi" "hi < 2 ^ 32 - 1" "l \<le> h"
  shows "freeId (addFree l h \<lparr>maxId = m, freeId = [(lo, hi)]\<rparr>) = [(lo, h)]"
  using assms by (simp add: addFree_def addFree_ranges_def inc32_less)

end
