(* ===== verification/Ini_File.thy ===== *)
theory Ini_File
  imports Prelude "HOL-Library.List_Lexorder"
begin

text \<open>
  \<open>System/IniFile\<close>: sections of keys, both in a \<open>std::map\<close> ordered without regard to case, with loading
  from and saving to text. A \<open>std::map\<close> is the list of its entries in iteration order. A pointer to a
  section or key that the code gets from the map is the map key under which it finds it; the object
  itself is the record of its members (the parent pointer is the enclosing record). Text is written
  with the Unix line end \<open>_CRLFA\<close>.
\<close>

section \<open>The ordered map\<close>

definition tolower :: "char \<Rightarrow> nat" where
  "tolower c = (let n = of_char c in if 65 \<le> n \<and> n \<le> 90 then n + 32 else n)"

definition ci_key :: "string \<Rightarrow> nat list" where
  "ci_key s = map tolower (takeWhile (\<lambda>c. c \<noteq> CHR 0x00) s)"

definition ci_less :: "string \<Rightarrow> string \<Rightarrow> bool" where
  "ci_less s1 s2 \<longleftrightarrow> ci_key s1 < ci_key s2"

fun map_find :: "string \<Rightarrow> (string \<times> 'a) list \<Rightarrow> 'a option" where
  "map_find k [] = None"
| "map_find k ((k', v) # m) =
     (if ci_less k k' then None else if ci_less k' k then map_find k m else Some v)"

fun map_put :: "string \<Rightarrow> 'a \<Rightarrow> (string \<times> 'a) list \<Rightarrow> (string \<times> 'a) list" where
  "map_put k v [] = [(k, v)]"
| "map_put k v ((k', w) # m) =
     (if ci_less k k' then (k, v) # (k', w) # m
      else if ci_less k' k then (k', w) # map_put k v m else (k', v) # m)"

fun map_erase :: "string \<Rightarrow> (string \<times> 'a) list \<Rightarrow> (string \<times> 'a) list" where
  "map_erase k [] = []"
| "map_erase k ((k', w) # m) =
     (if ci_less k k' then (k', w) # m else if ci_less k' k then (k', w) # map_erase k m else m)"

section \<open>Text helpers\<close>

definition blank :: string where
  "blank = [CHR '' '', CHR 0x09]"

definition RTrim :: "string \<Rightarrow> string \<Rightarrow> string" where
  "RTrim chars str = rev (dropWhile (\<lambda>c. c \<in> set chars) (rev str))"

definition LTrim :: "string \<Rightarrow> string \<Rightarrow> string" where
  "LTrim chars str = dropWhile (\<lambda>c. c \<in> set chars) str"

definition Trim :: "string \<Rightarrow> string" where
  "Trim str = LTrim blank (RTrim blank str)"

text \<open>\<open>std::string::find_first_of\<close> for one character; \<open>None\<close> is \<open>npos\<close>, the largest \<open>size_t\<close>.\<close>

fun find_first_of :: "char \<Rightarrow> string \<Rightarrow> nat option" where
  "find_first_of c [] = None"
| "find_first_of c (x # s) = (if x = c then Some 0 else map_option Suc (find_first_of c s))"

text \<open>The lines that repeated calls of \<open>std::getline\<close> return.\<close>

function getlines :: "string \<Rightarrow> string list" where
  "getlines s =
     (if s = [] then []
      else takeWhile (\<lambda>c. c \<noteq> CHR 0x0A) s # getlines (tl (dropWhile (\<lambda>c. c \<noteq> CHR 0x0A) s)))"
  by pat_completeness auto
termination by (relation "measure length") (simp_all del: length_tl add: tl_dropWhile_less)

declare getlines.simps [simp del]

section \<open>Keys and sections\<close>

record ini_key =
  m_sKeyName :: string
  m_sValue :: string

record ini_section =
  m_sSectionName :: string
  m_keys :: "(string \<times> ini_key) list"

record ini_file =
  m_sections :: "(string \<times> ini_section) list"

definition IniKeyA :: "string \<Rightarrow> ini_key" where
  "IniKeyA sKeyName = \<lparr>m_sKeyName = sKeyName, m_sValue = []\<rparr>"

definition SetValue :: "string \<Rightarrow> ini_key \<Rightarrow> ini_key" where
  "SetValue sValue k = k\<lparr>m_sValue := sValue\<rparr>"

definition IniSectionA :: "string \<Rightarrow> ini_section" where
  "IniSectionA sSectionName = \<lparr>m_sSectionName = sSectionName, m_keys = []\<rparr>"

definition GetKey :: "string \<Rightarrow> ini_section \<Rightarrow> ini_key option" where
  "GetKey sKeyName sec = map_find (Trim sKeyName) (m_keys sec)"

definition RemoveAllKeys :: "ini_section \<Rightarrow> ini_section" where
  "RemoveAllKeys sec = sec\<lparr>m_keys := []\<rparr>"

definition RemoveKey :: "string \<Rightarrow> ini_section \<Rightarrow> ini_section" where
  "RemoveKey sKey sec =
     (case map_find (Trim sKey) (m_keys sec) of None \<Rightarrow> sec
      | Some _ \<Rightarrow> sec\<lparr>m_keys := map_erase (Trim sKey) (m_keys sec)\<rparr>)"

definition RemoveKey_ptr :: "ini_key \<Rightarrow> ini_section \<Rightarrow> ini_section" where
  "RemoveKey_ptr pKey sec =
     (case map_find (m_sKeyName pKey) (m_keys sec) of None \<Rightarrow> sec
      | Some _ \<Rightarrow> sec\<lparr>m_keys := map_erase (m_sKeyName pKey) (m_keys sec)\<rparr>)"

text \<open>\<open>AddKey\<close> returns the pointer to the new or existing key, here the map key that finds it.\<close>

definition AddKey :: "string \<Rightarrow> ini_section \<Rightarrow> string \<times> ini_section" where
  "AddKey sKeyName sec =
     (let k = Trim sKeyName in
      case map_find k (m_keys sec) of
        None \<Rightarrow> (k, sec\<lparr>m_keys := map_put k (IniKeyA k) (m_keys sec)\<rparr>)
      | Some _ \<Rightarrow> (k, sec))"

text \<open>A change through a pointer to a key of the section.\<close>

definition update_key :: "string \<Rightarrow> (ini_key \<Rightarrow> ini_key) \<Rightarrow> ini_section \<Rightarrow> ini_section" where
  "update_key pKey g sec =
     (case map_find pKey (m_keys sec) of None \<Rightarrow> sec
      | Some k \<Rightarrow> sec\<lparr>m_keys := map_put pKey (g k) (m_keys sec)\<rparr>)"

definition GetKeyValue_section :: "string \<Rightarrow> ini_section \<Rightarrow> string" where
  "GetKeyValue_section sKey sec = (case GetKey sKey sec of None \<Rightarrow> [] | Some k \<Rightarrow> m_sValue k)"

definition SetKeyValue_section :: "string \<Rightarrow> string \<Rightarrow> ini_section \<Rightarrow> ini_section" where
  "SetKeyValue_section sKey sValue sec =
     (let (pKey, sec') = AddKey sKey sec in update_key pKey (SetValue sValue) sec')"

definition SetKeyName :: "string \<Rightarrow> ini_key \<Rightarrow> ini_section \<Rightarrow> bool \<times> ini_section" where
  "SetKeyName sKeyName this sec =
     (let n = Trim sKeyName in
      case map_find n (m_keys sec) of
        Some _ \<Rightarrow> (False, sec)
      | None \<Rightarrow>
          (let m = (case map_find (m_sKeyName this) (m_keys sec) of None \<Rightarrow> m_keys sec
                    | Some _ \<Rightarrow> map_erase (m_sKeyName this) (m_keys sec)) in
           (True, sec\<lparr>m_keys := map_put n (this\<lparr>m_sKeyName := n\<rparr>) m\<rparr>)))"

section \<open>The file\<close>

definition IniFileA :: ini_file where
  "IniFileA = \<lparr>m_sections = []\<rparr>"

definition RemoveAllSections :: "ini_file \<Rightarrow> ini_file" where
  "RemoveAllSections f = f\<lparr>m_sections := []\<rparr>"

definition GetSection :: "string \<Rightarrow> ini_file \<Rightarrow> ini_section option" where
  "GetSection sSection f = map_find (Trim sSection) (m_sections f)"

definition AddSection :: "string \<Rightarrow> ini_file \<Rightarrow> string \<times> ini_file" where
  "AddSection sSection f =
     (let s = Trim sSection in
      case map_find s (m_sections f) of
        None \<Rightarrow> (s, f\<lparr>m_sections := map_put s (IniSectionA s) (m_sections f)\<rparr>)
      | Some _ \<Rightarrow> (s, f))"

definition update_section :: "string \<Rightarrow> (ini_section \<Rightarrow> ini_section) \<Rightarrow> ini_file \<Rightarrow> ini_file" where
  "update_section pSec g f =
     (case map_find pSec (m_sections f) of None \<Rightarrow> f
      | Some sec \<Rightarrow> f\<lparr>m_sections := map_put pSec (g sec) (m_sections f)\<rparr>)"

definition GetKeyValue :: "string \<Rightarrow> string \<Rightarrow> ini_file \<Rightarrow> string" where
  "GetKeyValue sSection sKey f =
     (case GetSection sSection f of None \<Rightarrow> []
      | Some sec \<Rightarrow> (case GetKey sKey sec of None \<Rightarrow> [] | Some k \<Rightarrow> m_sValue k))"

definition SetKeyValue :: "string \<Rightarrow> string \<Rightarrow> string \<Rightarrow> ini_file \<Rightarrow> ini_file" where
  "SetKeyValue sSection sKey sValue f =
     (let (pSec, f') = AddSection sSection f in
      update_section pSec (\<lambda>sec. let (pKey, sec') = AddKey sKey sec in update_key pKey (SetValue sValue) sec') f')"

definition RemoveSection :: "string \<Rightarrow> ini_file \<Rightarrow> ini_file" where
  "RemoveSection sSection f =
     (case map_find (Trim sSection) (m_sections f) of None \<Rightarrow> f
      | Some _ \<Rightarrow> f\<lparr>m_sections := map_erase (Trim sSection) (m_sections f)\<rparr>)"

definition RemoveSection_ptr :: "ini_section \<Rightarrow> ini_file \<Rightarrow> ini_file" where
  "RemoveSection_ptr pSection f =
     (case map_find (m_sSectionName pSection) (m_sections f) of None \<Rightarrow> f
      | Some _ \<Rightarrow> f\<lparr>m_sections := map_erase (m_sSectionName pSection) (m_sections f)\<rparr>)"

definition SetSectionName :: "string \<Rightarrow> ini_section \<Rightarrow> ini_file \<Rightarrow> bool \<times> ini_file" where
  "SetSectionName sSectionName this f =
     (let n = Trim sSectionName in
      case map_find n (m_sections f) of
        Some _ \<Rightarrow> (False, f)
      | None \<Rightarrow>
          (let m = (case map_find (m_sSectionName this) (m_sections f) of None \<Rightarrow> m_sections f
                    | Some _ \<Rightarrow> map_erase (m_sSectionName this) (m_sections f)) in
           (True, f\<lparr>m_sections := map_put n (this\<lparr>m_sSectionName := n\<rparr>) m\<rparr>)))"

definition RenameSection :: "string \<Rightarrow> string \<Rightarrow> ini_file \<Rightarrow> bool \<times> ini_file" where
  "RenameSection sSectionName sNewSectionName f =
     (case GetSection sSectionName f of None \<Rightarrow> (False, f)
      | Some sec \<Rightarrow> SetSectionName sNewSectionName sec f)"

definition RenameKey :: "string \<Rightarrow> string \<Rightarrow> string \<Rightarrow> ini_file \<Rightarrow> bool \<times> ini_file" where
  "RenameKey sSectionName sKeyName sNewKeyName f =
     (case GetSection sSectionName f of None \<Rightarrow> (False, f)
      | Some sec \<Rightarrow>
          (case GetKey sKeyName sec of None \<Rightarrow> (False, f)
           | Some k \<Rightarrow>
               (let (ok, sec') = SetKeyName sNewKeyName k sec in
                (ok, update_section (Trim sSectionName) (\<lambda>_. sec') f))))"

section \<open>Saving and loading\<close>

definition Save_key :: "ini_key \<Rightarrow> string" where
  "Save_key k = m_sKeyName k @ ''='' @ m_sValue k @ [CHR 0x0A]"

definition Save_section :: "ini_section \<Rightarrow> string" where
  "Save_section sec = ''['' @ m_sSectionName sec @ '']'' @ [CHR 0x0A] @ concat (map (\<lambda>(_, k). Save_key k) (m_keys sec))"

definition Save :: "ini_file \<Rightarrow> string" where
  "Save f = concat (map (\<lambda>(_, sec). Save_section sec) (m_sections f))"

definition Save_file :: "bool \<Rightarrow> ini_file \<Rightarrow> bool \<times> string option" where
  "Save_file is_open f = (if is_open then (True, Some (Save f)) else (False, None))"

datatype line_type = KEY | SECTION | COMMENT | OTHER

definition nType :: "string \<Rightarrow> line_type" where
  "nType sRead =
     (let t = (if find_first_of CHR ''['' sRead = Some 0 \<and> last (RTrim (blank @ [CHR 0x0D, CHR 0x0A]) sRead) = CHR '']''
               then SECTION else OTHER);
          t = (if t = OTHER \<and> find_first_of CHR ''='' sRead \<noteq> Some 0 then KEY else t) in
      if t = OTHER \<and> find_first_of CHR ''#'' sRead = Some 0 then COMMENT else t)"

definition split_key :: "string \<Rightarrow> string \<times> string" where
  "split_key sRead =
     (case find_first_of CHR ''='' sRead of
        None \<Rightarrow> (sRead, sRead)
      | Some iFind \<Rightarrow> (take iFind sRead, drop (iFind + 1) sRead))"

definition Load_line :: "string \<Rightarrow> string option \<times> ini_file \<Rightarrow> string option \<times> ini_file" where
  "Load_line line = (\<lambda>(pSection, f).
     (let sRead = RTrim [CHR 0x0A, CHR 0x0D] (LTrim blank line) in
      if sRead = [] then (pSection, f)
      else case nType sRead of
        SECTION \<Rightarrow> (let (s, f') = AddSection (take (length sRead - 2) (drop 1 sRead)) f in (Some s, f'))
      | KEY \<Rightarrow>
          (case pSection of
             None \<Rightarrow> (pSection, f)
           | Some s \<Rightarrow>
               (let (sKey, sValue) = split_key sRead in
                (pSection, update_section s
                  (\<lambda>sec. let (pKey, sec') = AddKey sKey sec in update_key pKey (SetValue sValue) sec') f)))
      | COMMENT \<Rightarrow> (pSection, f)
      | OTHER \<Rightarrow> (pSection, f)))"

definition Load :: "string \<Rightarrow> bool \<Rightarrow> ini_file \<Rightarrow> ini_file" where
  "Load input bMerge f =
     (let f' = (if bMerge then f else RemoveAllSections f) in
      snd (fold Load_line (getlines input) (None, f')))"

definition Load_file :: "string option \<Rightarrow> bool \<Rightarrow> ini_file \<Rightarrow> bool \<times> ini_file" where
  "Load_file input bMerge f = (case input of None \<Rightarrow> (False, f) | Some s \<Rightarrow> (True, Load s bMerge f))"

section \<open>The map interface\<close>

text \<open>What the sections and files rely on of a map whose keys count up to \<open>key\<close>.\<close>

locale ordered_dict =
  fixes find :: "string \<Rightarrow> 'm \<Rightarrow> 'v option" and put :: "string \<Rightarrow> 'v \<Rightarrow> 'm \<Rightarrow> 'm"
    and erase :: "string \<Rightarrow> 'm \<Rightarrow> 'm" and ok :: "'m \<Rightarrow> bool" and key :: "string \<Rightarrow> 'k"
  assumes ok_put: "ok m \<Longrightarrow> ok (put k v m)"
    and ok_erase: "ok m \<Longrightarrow> ok (erase k m)"
    and find_put: "ok m \<Longrightarrow> find k' (put k v m) = (if key k' = key k then Some v else find k' m)"
    and find_erase: "ok m \<Longrightarrow> find k' (erase k m) = (if key k' = key k then None else find k' m)"
    and find_key: "key k' = key k \<Longrightarrow> find k' m = find k m"
begin

lemma find_put_same: "ok m \<Longrightarrow> key k' = key k \<Longrightarrow> find k' (put k v m) = Some v"
  by (simp add: find_put)

lemma move_ok: "ok m \<Longrightarrow> ok (put new v (erase old m))"
  by (simp add: ok_put ok_erase)

lemma find_move:
  "ok m \<Longrightarrow> find k (put new v (erase old m)) =
     (if key k = key new then Some v else if key k = key old then None else find k m)"
  by (simp add: find_put find_erase ok_erase)

lemma erase_absent: "ok m \<Longrightarrow> find old m = None \<Longrightarrow> find k (erase old m) = find k m"
  by (auto simp: find_erase dest: find_key [of k old m])

end

definition map_ok :: "(string \<times> 'a) list \<Rightarrow> bool" where
  "map_ok m \<longleftrightarrow> sorted_wrt (\<lambda>x y. ci_key (fst x) < ci_key (fst y)) m"

lemma map_ok_simps [simp]: "map_ok []" "map_ok ((k, v) # m) \<longleftrightarrow> map_ok m \<and> (\<forall>x\<in>set m. ci_key k < ci_key (fst x))"
  by (auto simp: map_ok_def)

lemma map_find_none: "\<forall>x\<in>set m. ci_key k < ci_key (fst x) \<Longrightarrow> map_find k m = None"
  by (cases m) (auto simp: ci_less_def)

lemma map_put_in: "(k', w) \<in> set (map_put k v m) \<Longrightarrow>
    (k', w) \<in> set m \<or> w = v \<and> (k' = k \<and> map_find k m = None \<or> (\<exists>u. (k', u) \<in> set m \<and> map_find k m = Some u \<and> ci_key k' = ci_key k))"
  by (induction m) (auto simp: ci_less_def split: if_splits)

lemma map_put_keys: "x \<in> set (map_put k v m) \<Longrightarrow> ci_key (fst x) = ci_key k \<or> x \<in> set m"
  using map_put_in [of "fst x" "snd x" k v m] by auto

lemma map_erase_set: "set (map_erase k m) \<subseteq> set m"
  by (induction m) (auto split: if_splits)

lemma map_put_ok: "map_ok m \<Longrightarrow> map_ok (map_put k v m)"
proof (induction m)
  case (Cons x m)
  obtain k' w where x: "x = (k', w)" by (cases x)
  have "\<forall>y\<in>set (map_put k v m). ci_key k' < ci_key (fst y)" if "ci_key k' < ci_key k"
    using map_put_keys [of _ k v m] that Cons.prems x by fastforce
  then show ?case using Cons x by (auto simp: ci_less_def)
qed simp

lemma map_erase_ok: "map_ok m \<Longrightarrow> map_ok (map_erase k m)"
proof (induction m)
  case (Cons x m)
  then show ?case using map_erase_set [of k m] by (cases x) auto
qed simp

interpretation dict: ordered_dict map_find map_put map_erase map_ok ci_key
proof
  fix m :: "(string \<times> 'a) list" and k k' v
  show "map_ok m \<Longrightarrow> map_ok (map_put k v m)" by (rule map_put_ok)
  show "map_ok m \<Longrightarrow> map_ok (map_erase k m)" by (rule map_erase_ok)
  show "map_ok m \<Longrightarrow> map_find k' (map_put k v m) = (if ci_key k' = ci_key k then Some v else map_find k' m)"
    by (induction m) (auto simp: ci_less_def)
  show "map_ok m \<Longrightarrow> map_find k' (map_erase k m) = (if ci_key k' = ci_key k then None else map_find k' m)"
  proof (induction m)
    case (Cons x m)
    obtain a w where x: "x = (a, w)" by (cases x)
    have "map_find k' m = None" if "ci_key k' \<le> ci_key a"
      using Cons.prems x that by (intro map_find_none) auto
    then show ?case using Cons x by (auto simp: ci_less_def)
  qed simp
  show "ci_key k' = ci_key k \<Longrightarrow> map_find k' m = map_find k m"
    by (induction m) (auto simp: ci_less_def)
qed

lemma map_find_in: "map_find k m = Some v \<Longrightarrow> \<exists>k'. (k', v) \<in> set m \<and> ci_key k' = ci_key k"
  by (induction m) (auto simp: ci_less_def split: if_splits)

section \<open>The invariant\<close>

definition section_ok :: "ini_section \<Rightarrow> bool" where
  "section_ok sec \<longleftrightarrow> map_ok (m_keys sec) \<and> (\<forall>(n, k)\<in>set (m_keys sec). m_sKeyName k = n \<and> Trim n = n)"

definition file_ok :: "ini_file \<Rightarrow> bool" where
  "file_ok f \<longleftrightarrow> map_ok (m_sections f) \<and>
     (\<forall>(n, sec)\<in>set (m_sections f). m_sSectionName sec = n \<and> Trim n = n \<and> section_ok sec)"

definition bare :: "string \<Rightarrow> bool" where
  "bare s \<longleftrightarrow> s = [] \<or> hd s \<notin> set blank \<and> last s \<notin> set blank"

lemma last_RTrim: "RTrim chars s = [] \<or> last (RTrim chars s) \<notin> set chars"
  using hd_dropWhile [of "\<lambda>c. c \<in> set chars" "rev s"] by (auto simp: RTrim_def last_rev)

lemma last_LTrim: "LTrim chars s = [] \<or> last (LTrim chars s) = last s \<and> hd (LTrim chars s) \<notin> set chars"
proof (cases "LTrim chars s = []")
  case False
  have "s = takeWhile (\<lambda>c. c \<in> set chars) s @ LTrim chars s" by (simp add: LTrim_def)
  then have "last s = last (LTrim chars s)" using False by (metis last_appendR)
  then show ?thesis using False hd_dropWhile [of "\<lambda>c. c \<in> set chars" s] by (simp add: LTrim_def)
qed simp

lemma bare_Trim [simp]: "bare (Trim s)"
  using last_RTrim [of blank s] last_LTrim [of blank "RTrim blank s"] by (auto simp: bare_def Trim_def LTrim_def)

lemma LTrim_id: "s = [] \<or> hd s \<notin> set chars \<Longrightarrow> LTrim chars s = s"
  by (cases s) (auto simp: LTrim_def)

lemma RTrim_id: "s = [] \<or> last s \<notin> set chars \<Longrightarrow> RTrim chars s = s"
  by (cases s rule: rev_cases) (auto simp: RTrim_def)

lemma Trim_bare: "bare s \<Longrightarrow> Trim s = s"
  by (auto simp: Trim_def bare_def RTrim_id LTrim_id)

lemma Trim_Trim [simp]: "Trim (Trim s) = Trim s"
  by (simp add: Trim_bare)

lemma Trim_eq_bare: "Trim s = s \<longleftrightarrow> bare s"
  using bare_Trim [of s] Trim_bare by metis

lemma IniFileA_ok [simp]: "file_ok IniFileA"
  by (simp add: file_ok_def IniFileA_def)

lemma IniSectionA_ok [simp]: "section_ok (IniSectionA s)"
  by (simp add: section_ok_def IniSectionA_def)

text \<open>Putting an entry with the right name keeps the names of the entries.\<close>

lemma put_all:
  assumes "\<forall>(n, x)\<in>set m. Q n x" "(k', w) \<in> set (map_put k v m)"
    and "map_find k m = None \<Longrightarrow> Q k v"
    and "\<And>n u. Q n u \<Longrightarrow> map_find k m = Some u \<Longrightarrow> Q n v"
  shows "Q k' w"
  using map_put_in [OF assms(2)] assms(1,3,4) by auto

lemma put_key_ok:
  assumes "section_ok sec" and "map_find k (m_keys sec) = None \<Longrightarrow> m_sKeyName e = k \<and> Trim k = k"
    and "\<And>u. map_find k (m_keys sec) = Some u \<Longrightarrow> m_sKeyName e = m_sKeyName u"
  shows "section_ok (sec\<lparr>m_keys := map_put k e (m_keys sec)\<rparr>)"
proof -
  have "m_sKeyName w = n \<and> Trim n = n" if "(n, w) \<in> set (map_put k e (m_keys sec))" for n w
    using put_all [of "m_keys sec" "\<lambda>n w. m_sKeyName w = n \<and> Trim n = n", OF _ that] assms
    by (auto simp: section_ok_def)
  then show ?thesis using assms(1) by (auto simp: section_ok_def dict.ok_put)
qed

lemma put_section_ok:
  assumes "file_ok f" "section_ok e" and "map_find k (m_sections f) = None \<Longrightarrow> m_sSectionName e = k \<and> Trim k = k"
    and "\<And>u. map_find k (m_sections f) = Some u \<Longrightarrow> m_sSectionName e = m_sSectionName u"
  shows "file_ok (f\<lparr>m_sections := map_put k e (m_sections f)\<rparr>)"
proof -
  have "m_sSectionName w = n \<and> Trim n = n \<and> section_ok w" if "(n, w) \<in> set (map_put k e (m_sections f))" for n w
    using put_all [of "m_sections f" "\<lambda>n w. m_sSectionName w = n \<and> Trim n = n \<and> section_ok w", OF _ that] assms
    by (auto simp: file_ok_def)
  then show ?thesis using assms(1) by (auto simp: file_ok_def dict.ok_put)
qed

lemma erase_key_ok: "section_ok sec \<Longrightarrow> section_ok (sec\<lparr>m_keys := map_erase k (m_keys sec)\<rparr>)"
  using map_erase_set [of k "m_keys sec"] by (fastforce simp: section_ok_def dict.ok_erase)

lemma erase_section_ok: "file_ok f \<Longrightarrow> file_ok (f\<lparr>m_sections := map_erase k (m_sections f)\<rparr>)"
  using map_erase_set [of k "m_sections f"] by (fastforce simp: file_ok_def dict.ok_erase)

lemma found_section_ok:
  "file_ok f \<Longrightarrow> map_find k (m_sections f) = Some sec \<Longrightarrow> section_ok sec \<and> ci_key (m_sSectionName sec) = ci_key k"
  using map_find_in [of k "m_sections f" sec] by (auto simp: file_ok_def)

lemma found_key_name:
  "section_ok sec \<Longrightarrow> map_find k (m_keys sec) = Some e \<Longrightarrow> ci_key (m_sKeyName e) = ci_key k"
  using map_find_in [of k "m_keys sec" e] by (auto simp: section_ok_def)

section \<open>Setting values\<close>

lemma set_in_section [simp]:
  "(let (pKey, sec') = AddKey sKey sec in update_key pKey (SetValue sValue) sec') = SetKeyValue_section sKey sValue sec"
  by (simp add: SetKeyValue_section_def)

lemma AddKey_spec:
  assumes "section_ok sec" "AddKey k sec = (p, sec')"
  shows "p = Trim k" "section_ok sec'" "m_sSectionName sec' = m_sSectionName sec"
    and "\<exists>e. map_find (Trim k) (m_keys sec') = Some e"
    and "ci_key n \<noteq> ci_key (Trim k) \<Longrightarrow> map_find n (m_keys sec') = map_find n (m_keys sec)"
proof -
  have ok: "map_ok (m_keys sec)" using assms(1) by (simp add: section_ok_def)
  show "p = Trim k" "section_ok sec'" "m_sSectionName sec' = m_sSectionName sec"
    using assms put_key_ok [OF assms(1), of "Trim k" "IniKeyA (Trim k)"]
    by (auto simp: AddKey_def Let_def IniKeyA_def split: option.splits)
  show "\<exists>e. map_find (Trim k) (m_keys sec') = Some e"
    and "ci_key n \<noteq> ci_key (Trim k) \<Longrightarrow> map_find n (m_keys sec') = map_find n (m_keys sec)"
    using assms ok by (auto simp: AddKey_def Let_def dict.find_put split: option.splits)
qed

lemma SetKeyValue_section_spec:
  assumes "section_ok sec"
  shows "section_ok (SetKeyValue_section k v sec)" "m_sSectionName (SetKeyValue_section k v sec) = m_sSectionName sec"
    and "GetKeyValue_section k' (SetKeyValue_section k v sec) =
      (if ci_key (Trim k') = ci_key (Trim k) then v else GetKeyValue_section k' sec)"
proof -
  obtain p sec' where a: "AddKey k sec = (p, sec')" by (cases "AddKey k sec")
  note s = AddKey_spec [OF assms a]
  obtain e where e: "map_find (Trim k) (m_keys sec') = Some e" using s(4) by auto
  have eq: "SetKeyValue_section k v sec = sec'\<lparr>m_keys := map_put (Trim k) (SetValue v e) (m_keys sec')\<rparr>"
    using e by (simp add: SetKeyValue_section_def a s(1) update_key_def)
  show "section_ok (SetKeyValue_section k v sec)"
    unfolding eq by (rule put_key_ok [OF s(2)]) (use e in \<open>simp_all add: SetValue_def\<close>)
  show "m_sSectionName (SetKeyValue_section k v sec) = m_sSectionName sec" by (simp add: eq s(3))
  show "GetKeyValue_section k' (SetKeyValue_section k v sec) =
      (if ci_key (Trim k') = ci_key (Trim k) then v else GetKeyValue_section k' sec)"
    using s(2) s(5) by (simp add: eq GetKeyValue_section_def GetKey_def section_ok_def dict.find_put SetValue_def)
qed

lemma AddSection_spec:
  assumes "file_ok f" "AddSection s f = (p, f')"
  shows "p = Trim s" "file_ok f'"
    and "map_find n (m_sections f') =
      (if ci_key n = ci_key (Trim s) \<and> map_find (Trim s) (m_sections f) = None then Some (IniSectionA (Trim s))
       else map_find n (m_sections f))"
proof -
  have ok: "map_ok (m_sections f)" using assms(1) by (simp add: file_ok_def)
  show "p = Trim s" "file_ok f'"
    using assms put_section_ok [OF assms(1), of "IniSectionA (Trim s)" "Trim s"]
    by (auto simp: AddSection_def Let_def IniSectionA_def [THEN arg_cong [where f = m_sSectionName]] split: option.splits)
  show "map_find n (m_sections f') =
      (if ci_key n = ci_key (Trim s) \<and> map_find (Trim s) (m_sections f) = None then Some (IniSectionA (Trim s))
       else map_find n (m_sections f))"
    using assms ok by (auto simp: AddSection_def Let_def dict.find_put split: option.splits)
qed

lemma update_section_spec:
  assumes "file_ok f" and "\<And>sec. section_ok sec \<Longrightarrow> section_ok (g sec) \<and> m_sSectionName (g sec) = m_sSectionName sec"
  shows "file_ok (update_section p g f)"
    and "map_find n (m_sections (update_section p g f)) =
      (if ci_key n = ci_key p then map_option g (map_find p (m_sections f)) else map_find n (m_sections f))"
proof -
  have ok: "map_ok (m_sections f)" using assms(1) by (simp add: file_ok_def)
  show "file_ok (update_section p g f)"
    using assms(1) found_section_ok [OF assms(1), of p] assms(2)
    by (auto simp: update_section_def split: option.splits intro!: put_section_ok)
  show "map_find n (m_sections (update_section p g f)) =
      (if ci_key n = ci_key p then map_option g (map_find p (m_sections f)) else map_find n (m_sections f))"
    using ok dict.find_key [of n p "m_sections f"] by (auto simp: update_section_def dict.find_put split: option.splits)
qed

lemma GetKeyValue_alt:
  "GetKeyValue s k f = (case map_find (Trim s) (m_sections f) of None \<Rightarrow> [] | Some sec \<Rightarrow> GetKeyValue_section k sec)"
  by (simp add: GetKeyValue_def GetSection_def GetKeyValue_section_def split: option.split)

lemma GetKeyValue_section_new [simp]: "GetKeyValue_section k (IniSectionA s) = []"
  by (simp add: GetKeyValue_section_def GetKey_def IniSectionA_def)

lemma SetKeyValue_spec:
  assumes "file_ok f"
  shows "file_ok (SetKeyValue s k v f)"
    and "GetKeyValue s' k' (SetKeyValue s k v f) =
      (if ci_key (Trim s') = ci_key (Trim s) \<and> ci_key (Trim k') = ci_key (Trim k) then v else GetKeyValue s' k' f)"
proof -
  obtain p f' where a: "AddSection s f = (p, f')" by (cases "AddSection s f")
  note s = AddSection_spec [OF assms a]
  have eq: "SetKeyValue s k v f = update_section (Trim s) (SetKeyValue_section k v) f'"
    by (simp add: SetKeyValue_def a s(1))
  have g: "section_ok (SetKeyValue_section k v sec) \<and> m_sSectionName (SetKeyValue_section k v sec) = m_sSectionName sec"
    if "section_ok sec" for sec using SetKeyValue_section_spec [OF that] by simp
  note u = update_section_spec [OF s(2), of "SetKeyValue_section k v", OF g]
  show "file_ok (SetKeyValue s k v f)" unfolding eq by (rule u(1))
  have "section_ok sec" if "map_find (Trim s) (m_sections f) = Some sec" for sec
    using found_section_ok [OF assms that] by simp
  then show "GetKeyValue s' k' (SetKeyValue s k v f) =
      (if ci_key (Trim s') = ci_key (Trim s) \<and> ci_key (Trim k') = ci_key (Trim k) then v else GetKeyValue s' k' f)"
    using dict.find_key [of "Trim s'" "Trim s" "m_sections f"]
    by (auto simp: GetKeyValue_alt eq u(2) s(3) SetKeyValue_section_spec split: option.splits)
qed

section \<open>Renaming and removing\<close>

lemma SetSectionName_spec:
  assumes f: "file_ok f" and sec: "map_find p (m_sections f) = Some sec"
    and r: "SetSectionName t sec f = (ok, f')"
  shows "ok \<longleftrightarrow> map_find (Trim t) (m_sections f) = None" "\<not> ok \<Longrightarrow> f' = f" "file_ok f'"
    and "ok \<Longrightarrow> map_find n (m_sections f') =
      (if ci_key n = ci_key (Trim t) then Some (sec\<lparr>m_sSectionName := Trim t\<rparr>)
       else if ci_key n = ci_key p then None else map_find n (m_sections f))"
proof -
  note s = found_section_ok [OF f sec]
  have old: "map_find (m_sSectionName sec) (m_sections f) = Some sec"
    using s sec dict.find_key [of "m_sSectionName sec" p "m_sections f"] by simp
  show "ok \<longleftrightarrow> map_find (Trim t) (m_sections f) = None" "\<not> ok \<Longrightarrow> f' = f"
    using r by (auto simp: SetSectionName_def Let_def split: option.splits)
  have ok: "map_ok (m_sections f)" using f by (simp add: file_ok_def)
  have sec_ok: "section_ok (sec\<lparr>m_sSectionName := Trim t\<rparr>)" using s by (simp add: section_ok_def)
  have gone: "map_find (Trim t) (map_erase (m_sSectionName sec) (m_sections f)) = None"
    if "map_find (Trim t) (m_sections f) = None" using that ok by (simp add: dict.find_erase)
  show "file_ok f'"
  proof (cases "map_find (Trim t) (m_sections f)")
    case None
    then show ?thesis
      using put_section_ok [OF erase_section_ok [OF f] sec_ok, of "Trim t" "m_sSectionName sec"] r old gone
      by (simp add: SetSectionName_def Let_def)
  qed (use r f in \<open>simp add: SetSectionName_def Let_def\<close>)
  show "ok \<Longrightarrow> map_find n (m_sections f') =
      (if ci_key n = ci_key (Trim t) then Some (sec\<lparr>m_sSectionName := Trim t\<rparr>)
       else if ci_key n = ci_key p then None else map_find n (m_sections f))"
    using r old ok s by (auto simp: SetSectionName_def Let_def dict.find_move split: option.splits)
qed

lemma SetKeyName_spec:
  assumes sec: "section_ok sec" and k: "map_find p (m_keys sec) = Some k"
    and r: "SetKeyName t k sec = (ok, sec')"
  shows "ok \<longleftrightarrow> map_find (Trim t) (m_keys sec) = None" "\<not> ok \<Longrightarrow> sec' = sec" "section_ok sec'"
    and "m_sSectionName sec' = m_sSectionName sec"
    and "ok \<Longrightarrow> map_find n (m_keys sec') =
      (if ci_key n = ci_key (Trim t) then Some (k\<lparr>m_sKeyName := Trim t\<rparr>)
       else if ci_key n = ci_key p then None else map_find n (m_keys sec))"
proof -
  note s = found_key_name [OF sec k]
  have old: "map_find (m_sKeyName k) (m_keys sec) = Some k"
    using s k dict.find_key [of "m_sKeyName k" p "m_keys sec"] by simp
  show "ok \<longleftrightarrow> map_find (Trim t) (m_keys sec) = None" "\<not> ok \<Longrightarrow> sec' = sec" "m_sSectionName sec' = m_sSectionName sec"
    using r by (auto simp: SetKeyName_def Let_def split: option.splits)
  have ok: "map_ok (m_keys sec)" using sec by (simp add: section_ok_def)
  have gone: "map_find (Trim t) (map_erase (m_sKeyName k) (m_keys sec)) = None"
    if "map_find (Trim t) (m_keys sec) = None" using that ok by (simp add: dict.find_erase)
  show "section_ok sec'"
  proof (cases "map_find (Trim t) (m_keys sec)")
    case None
    then show ?thesis
      using put_key_ok [OF erase_key_ok [OF sec], of "Trim t" "m_sKeyName k" "k\<lparr>m_sKeyName := Trim t\<rparr>"] r old gone
      by (simp add: SetKeyName_def Let_def)
  qed (use r sec in \<open>simp add: SetKeyName_def Let_def\<close>)
  show "ok \<Longrightarrow> map_find n (m_keys sec') =
      (if ci_key n = ci_key (Trim t) then Some (k\<lparr>m_sKeyName := Trim t\<rparr>)
       else if ci_key n = ci_key p then None else map_find n (m_keys sec))"
    using r old ok s by (auto simp: SetKeyName_def Let_def dict.find_move split: option.splits)
qed

lemma RemoveSection_spec:
  assumes "file_ok f"
  shows "file_ok (RemoveSection s f)"
    and "map_find n (m_sections (RemoveSection s f)) =
      (if ci_key n = ci_key (Trim s) then None else map_find n (m_sections f))"
  using assms erase_section_ok [OF assms, of "Trim s"] dict.find_key [of n "Trim s" "m_sections f"]
  by (auto simp: RemoveSection_def file_ok_def dict.find_erase split: option.splits)

lemma RemoveKey_spec:
  assumes "section_ok sec"
  shows "section_ok (RemoveKey k sec)" "m_sSectionName (RemoveKey k sec) = m_sSectionName sec"
    and "GetKey k' (RemoveKey k sec) = (if ci_key (Trim k') = ci_key (Trim k) then None else GetKey k' sec)"
  using assms erase_key_ok [OF assms, of "Trim k"] dict.find_key [of "Trim k'" "Trim k" "m_keys sec"]
  by (auto simp: RemoveKey_def GetKey_def section_ok_def dict.find_erase split: option.splits)

section \<open>Loading keeps the invariant\<close>

lemma Load_line_eq:
  "Load_line line (pSection, f) =
     (let sRead = RTrim [CHR 0x0A, CHR 0x0D] (LTrim blank line) in
      if sRead = [] then (pSection, f)
      else case nType sRead of
        SECTION \<Rightarrow> (let (s, f') = AddSection (take (length sRead - 2) (drop 1 sRead)) f in (Some s, f'))
      | KEY \<Rightarrow>
          (case pSection of
             None \<Rightarrow> (pSection, f)
           | Some s \<Rightarrow> (pSection, update_section s (SetKeyValue_section (fst (split_key sRead)) (snd (split_key sRead))) f))
      | _ \<Rightarrow> (pSection, f))"
  by (simp add: Load_line_def SetKeyValue_section_def [abs_def] case_prod_beta Let_def del: set_in_section
      split: line_type.split option.split)

lemma Load_line_ok: "file_ok (snd st) \<Longrightarrow> file_ok (snd (Load_line line st))"
proof -
  assume f: "file_ok (snd st)"
  have g: "section_ok (SetKeyValue_section k v sec) \<and> m_sSectionName (SetKeyValue_section k v sec) = m_sSectionName sec"
    if "section_ok sec" for k v sec using SetKeyValue_section_spec [OF that] by simp
  have u: "file_ok (update_section p (SetKeyValue_section k v) (snd st))" for p k v
    by (rule update_section_spec(1) [OF f]) (rule g)
  have a: "file_ok (snd (AddSection s (snd st)))" for s
    using AddSection_spec(2) [OF f, of s "fst (AddSection s (snd st))" "snd (AddSection s (snd st))"] by simp
  show ?thesis using f u a
    by (cases st) (auto simp: Load_line_eq Let_def case_prod_beta split: line_type.split option.split)
qed

lemma fold_Load_ok: "file_ok (snd st) \<Longrightarrow> file_ok (snd (fold Load_line ls st))"
  by (induction ls arbitrary: st) (simp_all add: Load_line_ok)

lemma Load_ok: "file_ok f \<Longrightarrow> file_ok (Load input bMerge f)"
  using fold_Load_ok [of "(None, if bMerge then f else RemoveAllSections f)" "getlines input"]
  by (simp add: Load_def RemoveAllSections_def file_ok_def Let_def)

section \<open>Reading back what was saved\<close>

definition key_printable :: "ini_key \<Rightarrow> bool" where
  "key_printable k \<longleftrightarrow> m_sKeyName k \<noteq> [] \<and> hd (m_sKeyName k) \<noteq> CHR ''['' \<and> CHR ''='' \<notin> set (m_sKeyName k)
     \<and> CHR 0x0A \<notin> set (m_sKeyName k) \<union> set (m_sValue k) \<and> (m_sValue k = [] \<or> last (m_sValue k) \<noteq> CHR 0x0D)"

definition file_printable :: "ini_file \<Rightarrow> bool" where
  "file_printable f \<longleftrightarrow> (\<forall>(n, sec)\<in>set (m_sections f). CHR 0x0A \<notin> set n \<and> (\<forall>(_, k)\<in>set (m_keys sec). key_printable k))"

lemma map_put_append:
  assumes "\<forall>x\<in>set m. ci_key (fst x) < ci_key k"
  shows "map_put k v m = m @ [(k, v)]" "map_find k m = None" "map_find k (m @ [(k, v)]) = Some v"
    "map_put k w (m @ [(k, v)]) = m @ [(k, w)]"
  using assms by (induction m) (auto simp: ci_less_def)

lemma getlines_append: "CHR 0x0A \<notin> set l \<Longrightarrow> getlines (l @ CHR 0x0A # rest) = l # getlines rest"
proof -
  assume "CHR 0x0A \<notin> set l"
  then have "\<forall>c\<in>set l. c \<noteq> CHR 0x0A" by auto
  then show ?thesis
    using span_component [of l "\<lambda>c. c \<noteq> CHR 0x0A" "CHR 0x0A" rest] by (subst getlines.simps) simp
qed

lemma getlines_concat: "\<forall>l\<in>set ls. CHR 0x0A \<notin> set l \<Longrightarrow> getlines (concat (map (\<lambda>l. l @ [CHR 0x0A]) ls)) = ls"
proof (induction ls)
  case (Cons l ls)
  then show ?case by (simp add: getlines_append)
qed (simp add: getlines.simps)

lemma find_first_of_append: "c \<notin> set s \<Longrightarrow> find_first_of c (s @ c # t) = Some (length s)"
  by (induction s) auto

lemma find_first_of_0: "find_first_of c s = Some 0 \<longleftrightarrow> s \<noteq> [] \<and> hd s = c"
  by (cases s) auto

lemma Load_key_line:
  assumes "key_printable k" "bare (m_sKeyName k)"
  shows "Load_line (m_sKeyName k @ ''='' @ m_sValue k) (Some s, f) =
    (Some s, update_section s (SetKeyValue_section (m_sKeyName k) (m_sValue k)) f)"
proof -
  let ?l = "m_sKeyName k @ ''='' @ m_sValue k"
  have ne: "?l \<noteq> []" "hd ?l = hd (m_sKeyName k)" using assms by (simp_all add: key_printable_def)
  have "hd ?l \<notin> set blank" using assms by (auto simp: bare_def key_printable_def)
  then have l: "LTrim blank ?l = ?l" by (intro LTrim_id) simp
  have "m_sValue k = [] \<or> last (m_sValue k) \<noteq> CHR 0x0A"
    using assms(1) unfolding key_printable_def by (metis UnCI last_in_set)
  then have "last ?l \<notin> {CHR 0x0A, CHR 0x0D}"
    using assms by (cases "m_sValue k = []") (auto simp: key_printable_def)
  then have r: "RTrim [CHR 0x0A, CHR 0x0D] ?l = ?l" by (intro RTrim_id) simp
  have "hd (m_sKeyName k) \<noteq> CHR ''=''" using assms(1) unfolding key_printable_def by (metis hd_in_set)
  then have t: "nType ?l = KEY"
    using assms ne by (simp add: nType_def find_first_of_0 key_printable_def Let_def)
  have "split_key ?l = (m_sKeyName k, m_sValue k)"
    using find_first_of_append [of "CHR ''=''" "m_sKeyName k" "m_sValue k"] assms by (simp add: split_key_def key_printable_def)
  then show ?thesis using ne by (simp only: Load_line_eq l r Let_def t line_type.case option.case fst_conv snd_conv if_False)
qed

lemma Load_section_line:
  assumes "bare n"
  shows "Load_line (''['' @ n @ '']'') (ps, f) = (let (s, f') = AddSection n f in (Some s, f'))"
proof -
  let ?l = "''['' @ n @ '']''"
  have l: "LTrim blank ?l = ?l" by (rule LTrim_id) (simp add: blank_def)
  have r: "RTrim [CHR 0x0A, CHR 0x0D] ?l = ?l" by (rule RTrim_id) simp
  have r2: "RTrim (blank @ [CHR 0x0D, CHR 0x0A]) ?l = ?l" by (rule RTrim_id) (simp add: blank_def)
  have t: "nType ?l = SECTION" by (simp only: nType_def r2) (simp add: Let_def)
  have "?l \<noteq> []" "take (length ?l - 2) (drop 1 ?l) = n" by simp_all
  then show ?thesis by (simp only: Load_line_eq l r Let_def t line_type.case if_False)
qed

lemma SetKeyValue_section_append:
  assumes "\<forall>x\<in>set (m_keys sec). ci_key (fst x) < ci_key k" "bare k"
  shows "SetKeyValue_section k v sec = sec\<lparr>m_keys := m_keys sec @ [(k, \<lparr>m_sKeyName = k, m_sValue = v\<rparr>)]\<rparr>"
  using map_put_append [OF assms(1)] Trim_bare [OF assms(2)]
  by (simp add: SetKeyValue_section_def AddKey_def update_key_def IniKeyA_def SetValue_def)

lemma update_last_section:
  assumes "\<forall>x\<in>set m. ci_key (fst x) < ci_key s"
  shows "update_section s g (f\<lparr>m_sections := m @ [(s, sec)]\<rparr>) = f\<lparr>m_sections := m @ [(s, g sec)]\<rparr>"
  using map_put_append [OF assms] by (simp add: update_section_def)


lemma Load_keys:
  assumes "\<forall>x\<in>set m. ci_key (fst x) < ci_key s"
    and "map_ok (m_keys sec @ ks)" "\<forall>(n, k)\<in>set ks. m_sKeyName k = n \<and> bare n \<and> key_printable k"
  shows "fold Load_line (map (\<lambda>(_, k). m_sKeyName k @ ''='' @ m_sValue k) ks) (Some s, f\<lparr>m_sections := m @ [(s, sec)]\<rparr>) =
    (Some s, f\<lparr>m_sections := m @ [(s, sec\<lparr>m_keys := m_keys sec @ ks\<rparr>)]\<rparr>)"
  using assms(2,3)
proof (induction ks arbitrary: sec)
  case (Cons x ks)
  obtain n k where x: "x = (n, k)" by (cases x)
  have k: "m_sKeyName k = n" "bare (m_sKeyName k)" "key_printable k" using Cons.prems x by auto
  have less: "\<forall>y\<in>set (m_keys sec). ci_key (fst y) < ci_key n" using Cons.prems(1) x by (auto simp: map_ok_def sorted_wrt_append)
  have kk: "\<lparr>m_sKeyName = n, m_sValue = m_sValue k\<rparr> = k" using k by simp
  let ?sec = "sec\<lparr>m_keys := m_keys sec @ [(n, k)]\<rparr>"
  have "SetKeyValue_section n (m_sValue k) sec = ?sec"
    using SetKeyValue_section_append [OF less] k kk by simp
  then have "Load_line (m_sKeyName k @ ''='' @ m_sValue k) (Some s, f\<lparr>m_sections := m @ [(s, sec)]\<rparr>) =
      (Some s, f\<lparr>m_sections := m @ [(s, ?sec)]\<rparr>)"
    using Load_key_line [OF k(3,2)] update_last_section [OF assms(1)] k(1) by simp
  moreover have "map_ok (m_keys ?sec @ ks)" using Cons.prems(1) x by simp
  ultimately show ?case using Cons.IH [of ?sec] Cons.prems(2) x by simp
qed simp

definition section_lines :: "ini_section \<Rightarrow> string list" where
  "section_lines sec = (''['' @ m_sSectionName sec @ '']'') # map (\<lambda>(_, k). m_sKeyName k @ ''='' @ m_sValue k) (m_keys sec)"

lemma Load_section:
  assumes "\<forall>x\<in>set (m_sections f). ci_key (fst x) < ci_key n"
    and "m_sSectionName sec = n" "bare n" "section_ok sec" "\<forall>(_, k)\<in>set (m_keys sec). key_printable k"
  shows "fold Load_line (section_lines sec) (ps, f) = (Some n, f\<lparr>m_sections := m_sections f @ [(n, sec)]\<rparr>)"
proof -
  have "AddSection n f = (n, f\<lparr>m_sections := m_sections f @ [(n, IniSectionA n)]\<rparr>)"
    using map_put_append [OF assms(1)] Trim_bare [OF assms(3)] by (simp add: AddSection_def)
  then have "Load_line (''['' @ n @ '']'') (ps, f) = (Some n, f\<lparr>m_sections := m_sections f @ [(n, IniSectionA n)]\<rparr>)"
    using Load_section_line [OF assms(3)] by simp
  moreover have "(IniSectionA n)\<lparr>m_keys := m_keys sec\<rparr> = sec" using assms(2) by (simp add: IniSectionA_def)
  moreover have "map_ok (m_keys (IniSectionA n) @ m_keys sec)" "m_keys (IniSectionA n) = []"
    using assms(4) by (simp_all add: IniSectionA_def section_ok_def)
  moreover have "\<forall>(n, k)\<in>set (m_keys sec). m_sKeyName k = n \<and> bare n \<and> key_printable k"
    using assms(4,5) by (auto simp: section_ok_def Trim_eq_bare)
  ultimately show ?thesis
    using Load_keys [OF assms(1), of "IniSectionA n" "m_keys sec" f] assms(2) by (simp add: section_lines_def)
qed

lemma Load_sections:
  assumes "map_ok (m_sections f @ ss)"
    and "\<forall>(n, sec)\<in>set ss. m_sSectionName sec = n \<and> bare n \<and> section_ok sec \<and> (\<forall>(_, k)\<in>set (m_keys sec). key_printable k)"
  shows "snd (fold Load_line (concat (map (\<lambda>(_, sec). section_lines sec) ss)) (ps, f)) = f\<lparr>m_sections := m_sections f @ ss\<rparr>"
  using assms
proof (induction ss arbitrary: ps f)
  case (Cons x ss)
  obtain n sec where x: "x = (n, sec)" by (cases x)
  have "\<forall>y\<in>set (m_sections f). ci_key (fst y) < ci_key n" using Cons.prems(1) x by (auto simp: map_ok_def sorted_wrt_append)
  then have "fold Load_line (section_lines sec) (ps, f) = (Some n, f\<lparr>m_sections := m_sections f @ [(n, sec)]\<rparr>)"
    using Load_section [of f n sec ps] Cons.prems(2) x by auto
  then show ?case using Cons.IH [of "f\<lparr>m_sections := m_sections f @ [(n, sec)]\<rparr>" "Some n"] Cons.prems x by simp
qed simp

lemma Save_lines: "Save f = concat (map (\<lambda>l. l @ [CHR 0x0A]) (concat (map (\<lambda>(_, sec). section_lines sec) (m_sections f))))"
proof -
  have "concat (map (\<lambda>(_, k). Save_key k) ks) =
      concat (map (\<lambda>l. l @ [CHR 0x0A]) (map (\<lambda>(_, k). m_sKeyName k @ ''='' @ m_sValue k) ks))" for ks :: "(string \<times> ini_key) list"
    by (induction ks) (auto simp: Save_key_def)
  then have "Save_section sec = concat (map (\<lambda>l. l @ [CHR 0x0A]) (section_lines sec))" for sec
    by (simp add: Save_section_def section_lines_def)
  then have "concat (map (\<lambda>(_, sec). Save_section sec) ss) =
      concat (map (\<lambda>l. l @ [CHR 0x0A]) (concat (map (\<lambda>(_, sec). section_lines sec) ss)))" for ss :: "(string \<times> ini_section) list"
    by (induction ss) auto
  then show ?thesis by (simp only: Save_def)
qed


lemma printable_lines:
  assumes "file_ok f" "file_printable f"
  shows "\<forall>l\<in>set (concat (map (\<lambda>(_, sec). section_lines sec) (m_sections f))). CHR 0x0A \<notin> set l"
  using assms by (fastforce simp: file_ok_def file_printable_def section_lines_def key_printable_def)

lemma SetKeyValue_new:
  assumes "bare s" "bare k"
  shows "SetKeyValue s k v IniFileA =
    \<lparr>m_sections = [(s, \<lparr>m_sSectionName = s, m_keys = [(k, \<lparr>m_sKeyName = k, m_sValue = v\<rparr>)]\<rparr>)]\<rparr>"
  by (simp add: SetKeyValue_def AddSection_def IniFileA_def update_section_def ci_less_def IniSectionA_def
      SetKeyValue_section_def AddKey_def update_key_def IniKeyA_def SetValue_def Trim_bare assms Let_def del: set_in_section)

section \<open>Properties\<close>

text \<open>
  C33. Setting a value and reading it back: after \<open>SetKeyValue\<close> the value is found under the same section
  and key, up to case and surrounding blanks, every other value is unchanged, and the invariant holds.
\<close>

theorem ini_set_get:
  assumes "file_ok f"
  shows "file_ok (SetKeyValue s k v f) \<and> GetKeyValue s' k' (SetKeyValue s k v f) =
    (if ci_key (Trim s') = ci_key (Trim s) \<and> ci_key (Trim k') = ci_key (Trim k) then v else GetKeyValue s' k' f)"
  using SetKeyValue_spec [OF assms] by simp

theorem ini_set_get_witness:
  "GetKeyValue '' SERVER '' ''Port'' (SetKeyValue ''server'' ''port'' ''80'' IniFileA) = ''80''"
proof -
  have "ci_key (Trim '' SERVER '') = ci_key (Trim ''server'')" "ci_key (Trim ''Port'') = ci_key (Trim ''port'')"
    by (simp_all add: ci_key_def Trim_def LTrim_def RTrim_def blank_def tolower_def)
  then show ?thesis using ini_set_get [OF IniFileA_ok, of "''server''" "''port''" "''80''" "'' SERVER ''" "''Port''"] by simp
qed

text \<open>
  Renaming a section succeeds exactly when the section exists and no section has the new name, also
  not in another case; then all values of the section are found under the new name only, the values
  of the other sections are unchanged, and otherwise nothing changes.
\<close>

theorem ini_rename_section:
  assumes "file_ok f" "RenameSection s t f = (ok, f')"
  shows "file_ok f' \<and> (ok \<longleftrightarrow> GetSection s f \<noteq> None \<and> GetSection t f = None) \<and> (\<not> ok \<longrightarrow> f' = f)
    \<and> (ok \<longrightarrow> GetKeyValue n k f' =
        (if ci_key (Trim n) = ci_key (Trim t) then GetKeyValue s k f
         else if ci_key (Trim n) = ci_key (Trim s) then [] else GetKeyValue n k f))"
proof (cases "map_find (Trim s) (m_sections f)")
  case None
  then show ?thesis using assms by (simp add: RenameSection_def GetSection_def)
next
  case (Some sec)
  then have r: "SetSectionName t sec f = (ok, f')" using assms(2) by (simp add: RenameSection_def GetSection_def)
  have "GetKeyValue_section k (sec\<lparr>m_sSectionName := x\<rparr>) = GetKeyValue_section k sec" for x
    by (simp add: GetKeyValue_section_def GetKey_def)
  then show ?thesis
    using SetSectionName_spec [OF assms(1) Some r] Some by (auto simp: GetSection_def GetKeyValue_alt)
qed

theorem ini_rename_section_witness:
  "let f = SetKeyValue ''a'' ''k'' ''1'' IniFileA in
   case RenameSection ''a'' ''b'' f of (ok, f') \<Rightarrow> ok \<and> GetKeyValue ''b'' ''k'' f' = ''1'' \<and> GetKeyValue ''a'' ''k'' f' = []"
proof -
  let ?f = "SetKeyValue ''a'' ''k'' ''1'' IniFileA"
  have f: "file_ok ?f" by (rule SetKeyValue_spec(1)) simp
  have t: "Trim ''a'' = ''a''" "Trim ''b'' = ''b''" "Trim ''k'' = ''k''" by (simp_all add: Trim_eq_bare bare_def blank_def)
  have c: "ci_key ''b'' \<noteq> ci_key ''a''" by (simp add: ci_key_def tolower_def)
  obtain ok f' where r: "RenameSection ''a'' ''b'' ?f = (ok, f')" by (cases "RenameSection ''a'' ''b'' ?f")
  have "GetSection ''a'' ?f \<noteq> None" "GetSection ''b'' ?f = None"
    using c by (auto simp: SetKeyValue_new bare_def blank_def GetSection_def t ci_less_def)
  moreover have "GetKeyValue ''a'' ''k'' ?f = ''1''" using SetKeyValue_spec(2) [OF IniFileA_ok] by simp
  ultimately show ?thesis
    using ini_rename_section [OF f r, of "''b''" "''k''"] ini_rename_section [OF f r, of "''a''" "''k''"] r c by (simp add: t)
qed

text \<open>
  Every operation keeps the file well formed: sections and keys stay ordered without duplicates up
  to case, each stored under its own name, and names stay without surrounding blanks. This holds for
  loading any text, merged into the old contents or not.
\<close>

theorem ini_operations_ok:
  assumes "file_ok f"
  shows "file_ok (SetKeyValue s k v f) \<and> file_ok (RemoveSection s f) \<and> file_ok (snd (RenameSection s t f))
    \<and> file_ok (snd (RenameKey s k t f)) \<and> file_ok (Load input bMerge f)"
proof (intro conjI)
  show "file_ok (snd (RenameSection s t f))"
  proof (cases "map_find (Trim s) (m_sections f)")
    case (Some sec)
    then show ?thesis
      using SetSectionName_spec(3) [OF assms Some, of t "fst (SetSectionName t sec f)" "snd (SetSectionName t sec f)"]
      by (simp add: RenameSection_def GetSection_def)
  qed (simp add: RenameSection_def GetSection_def assms)
  show "file_ok (snd (RenameKey s k t f))"
  proof (cases "map_find (Trim s) (m_sections f)")
    case (Some sec)
    note s = found_section_ok [OF assms Some]
    show ?thesis
    proof (cases "GetKey k sec")
      case None
      then show ?thesis by (simp add: RenameKey_def GetSection_def Some assms)
    next
      case (Some e)
      obtain ok sec' where r: "SetKeyName t e sec = (ok, sec')" by (cases "SetKeyName t e sec")
      note k = SetKeyName_spec [OF _ Some [unfolded GetKey_def] r]
      have "file_ok (f\<lparr>m_sections := map_put (Trim s) sec' (m_sections f)\<rparr>)"
        by (rule put_section_ok [OF assms]) (use s k \<open>map_find (Trim s) (m_sections f) = Some sec\<close> in auto)
      then show ?thesis
        using Some r \<open>map_find (Trim s) (m_sections f) = Some sec\<close>
        by (simp add: RenameKey_def GetSection_def update_section_def)
    qed
  qed (simp add: RenameKey_def GetSection_def assms)
qed (use assms SetKeyValue_spec RemoveSection_spec Load_ok in blast)+

theorem ini_operations_ok_witness:
  "file_ok (Load ''[a]'' False (SetKeyValue ''b'' ''k'' ''v'' IniFileA))"
  using ini_operations_ok [OF conjunct1 [OF ini_operations_ok [OF IniFileA_ok]]] by blast

text \<open>
  C7. Saving and loading restores the file: for a well-formed file whose names and values survive the
  line format, loading the saved text into any object gives exactly the same sections, keys and values.
\<close>

theorem ini_save_load:
  assumes "file_ok f" "file_printable f"
  shows "Load (Save f) False g = f"
proof -
  have "map_ok (m_sections (g\<lparr>m_sections := []\<rparr>) @ m_sections f)" using assms(1) by (simp add: file_ok_def)
  moreover have "\<forall>(n, sec)\<in>set (m_sections f). m_sSectionName sec = n \<and> bare n \<and> section_ok sec \<and> (\<forall>(_, k)\<in>set (m_keys sec). key_printable k)"
    using assms by (fastforce simp: file_ok_def file_printable_def Trim_eq_bare)
  ultimately have "snd (fold Load_line (concat (map (\<lambda>(_, sec). section_lines sec) (m_sections f))) (None, g\<lparr>m_sections := []\<rparr>)) =
      g\<lparr>m_sections := m_sections f\<rparr>" using Load_sections [of "g\<lparr>m_sections := []\<rparr>" "m_sections f" None] by simp
  then show ?thesis
    using getlines_concat [OF printable_lines [OF assms]] by (simp add: Load_def Save_lines RemoveAllSections_def)
qed

theorem ini_save_load_witness:
  "(let f = SetKeyValue ''net'' ''port'' ''8=0'' IniFileA in Save f = ''[net]'' @ [CHR 0x0A] @ ''port=8=0'' @ [CHR 0x0A] \<and> Load (Save f) False IniFileA = f)"
proof -
  let ?f = "SetKeyValue ''net'' ''port'' ''8=0'' IniFileA"
  have f: "?f = \<lparr>m_sections = [(''net'', \<lparr>m_sSectionName = ''net'', m_keys = [(''port'', \<lparr>m_sKeyName = ''port'', m_sValue = ''8=0''\<rparr>)]\<rparr>)]\<rparr>"
    by (simp add: SetKeyValue_new bare_def blank_def)
  have "file_ok ?f" by (rule SetKeyValue_spec(1)) simp
  moreover have "file_printable ?f" by (simp add: f file_printable_def key_printable_def)
  ultimately show ?thesis using ini_save_load [of ?f IniFileA] by (simp add: f Save_def Save_section_def Save_key_def)
qed

text \<open>
  Comment lines are not recognised: a line that starts with \<open>#\<close> and has no \<open>=\<close>, below a section, is
  loaded as a key that is named like the line and has the line as its value.
\<close>

theorem ini_comment_is_a_key:
  assumes "bare (CHR ''#'' # c)" "CHR ''='' \<notin> set c" "last (CHR ''#'' # c) \<notin> {CHR 0x0A, CHR 0x0D}"
    and "file_ok f" "map_find s (m_sections f) = Some sec"
  shows "case Load_line (CHR ''#'' # c) (Some s, f) of (ps, f') \<Rightarrow>
    (case map_find s (m_sections f') of None \<Rightarrow> False | Some sec' \<Rightarrow> GetKeyValue_section (CHR ''#'' # c) sec' = CHR ''#'' # c)"
proof -
  let ?l = "CHR ''#'' # c"
  have l: "LTrim blank ?l = ?l" by (rule LTrim_id) (simp add: blank_def)
  have r: "RTrim [CHR 0x0A, CHR 0x0D] ?l = ?l" by (rule RTrim_id) (use assms(3) in simp)
  have t: "nType ?l = KEY" by (simp add: nType_def find_first_of_0 Let_def del: find_first_of.simps)
  have "find_first_of CHR ''='' c = None" using assms(2) by (induction c) auto
  then have k: "split_key ?l = (?l, ?l)" by (simp add: split_key_def)
  have "Load_line ?l (Some s, f) = (Some s, update_section s (SetKeyValue_section ?l ?l) f)"
    by (simp add: Load_line_eq l r t k Let_def del: find_first_of.simps)
  moreover have "map_find s (m_sections (update_section s (SetKeyValue_section ?l ?l) f)) = Some (SetKeyValue_section ?l ?l sec)"
    using update_section_spec(2) [OF assms(4), of "SetKeyValue_section ?l ?l" s s] SetKeyValue_section_spec assms(5) by simp
  ultimately show ?thesis
    using SetKeyValue_section_spec(3) [of sec] found_section_ok [OF assms(4,5)] by simp
qed

theorem ini_comment_is_a_key_witness:
  "case Load_line ''# note'' (Some ''a'', SetKeyValue ''a'' ''k'' ''1'' IniFileA) of (ps, f') \<Rightarrow>
    (case map_find ''a'' (m_sections f') of None \<Rightarrow> False | Some sec' \<Rightarrow> GetKeyValue_section ''# note'' sec' = ''# note'')"
proof -
  let ?f = "SetKeyValue ''a'' ''k'' ''1'' IniFileA"
  obtain sec where "map_find ''a'' (m_sections ?f) = Some sec"
    by (auto simp: SetKeyValue_new bare_def blank_def ci_less_def)
  from ini_comment_is_a_key [OF _ _ _ SetKeyValue_spec(1) [OF IniFileA_ok] this, of "'' note''"] show ?thesis
    by (simp add: bare_def blank_def)
qed

end
