(* ===== verification/Sha1.thy ===== *)
theory Sha1
  imports Prelude
begin

text \<open>
  \<open>System/SHA1Engine\<close> and \<open>System/DigestEngine\<close>: the incremental SHA-1 engine, with its byte counter,
  the partly filled block and the compression, on a little-endian machine. The block buffer is an
  array of words that the code also writes byte by byte. The reference is the definition of FIPS 180
  on whole messages.
\<close>

section \<open>The engine\<close>

record sha1_context =
  ctx_digest :: "UInt32 list"
  countLo :: UInt32
  countHi :: UInt32
  ctx_data :: "UInt32 list"
  slop :: nat

text \<open>The words of a memory area, and its bytes.\<close>

fun words_of :: "bytes \<Rightarrow> UInt32 list" where
  "words_of (a # b # c # d # r) = of_le32 [a, b, c, d] # words_of r"
| "words_of _ = []"

definition bytes_of :: "UInt32 list \<Rightarrow> bytes" where
  "bytes_of ws = concat (map le32 ws)"

definition swap_word :: "UInt32 \<Rightarrow> UInt32" where
  "swap_word w =
     (let value = push_bit 16 w OR drop_bit 16 w in
      drop_bit 8 (value AND 0xFF00FF00) OR push_bit 8 (value AND 0x00FF00FF))"

definition byteReverse :: "nat \<Rightarrow> UInt32 list \<Rightarrow> UInt32 list" where
  "byteReverse byteCount ws = map swap_word (take (byteCount div 4) ws) @ drop (byteCount div 4) ws"

definition reset :: sha1_context where
  "reset = \<lparr>ctx_digest = [0x67452301, 0xEFCDAB89, 0x98BADCFE, 0x10325476, 0xC3D2E1F0],
     countLo = 0, countHi = 0, ctx_data = replicate 16 0, slop = 0\<rparr>"

definition f1 :: "UInt32 \<Rightarrow> UInt32 \<Rightarrow> UInt32 \<Rightarrow> UInt32" where
  "f1 x y z = (x AND y) OR (NOT x AND z)"

definition f2 :: "UInt32 \<Rightarrow> UInt32 \<Rightarrow> UInt32 \<Rightarrow> UInt32" where
  "f2 x y z = x XOR y XOR z"

definition f3 :: "UInt32 \<Rightarrow> UInt32 \<Rightarrow> UInt32 \<Rightarrow> UInt32" where
  "f3 x y z = (x AND y) OR (x AND z) OR (y AND z)"

definition f4 :: "UInt32 \<Rightarrow> UInt32 \<Rightarrow> UInt32 \<Rightarrow> UInt32" where
  "f4 x y z = x XOR y XOR z"

definition S_rot :: "nat \<Rightarrow> UInt32 \<Rightarrow> UInt32" where
  "S_rot n X = push_bit n X OR drop_bit (32 - n) X"

definition expand :: "nat \<Rightarrow> UInt32 list \<Rightarrow> UInt32 list" where
  "expand count W =
     W[count := S_rot 1 (W ! (count - 3) XOR W ! (count - 8) XOR W ! (count - 14) XOR W ! (count - 16))]"

type_synonym sha1_vars = "UInt32 \<times> UInt32 \<times> UInt32 \<times> UInt32 \<times> UInt32"

definition subRound :: "(UInt32 \<Rightarrow> UInt32 \<Rightarrow> UInt32 \<Rightarrow> UInt32) \<Rightarrow> UInt32 \<Rightarrow> UInt32 list \<Rightarrow> nat \<Rightarrow> sha1_vars \<Rightarrow> sha1_vars" where
  "subRound f K W count = (\<lambda>(A, B, C, D, E).
     (let temp = S_rot 5 A + f B C D + E + W ! count + K in (temp, A, S_rot 30 B, C, D)))"

text \<open>The local array \<open>W\<close> starts with the data buffer; its other elements are written before they are read.\<close>

definition expanded :: "UInt32 list \<Rightarrow> UInt32 list" where
  "expanded dat = fold expand [16..<80] (take 16 dat @ replicate 64 0)"

definition rounds :: "UInt32 list \<Rightarrow> sha1_vars \<Rightarrow> sha1_vars" where
  "rounds W v =
     fold (subRound f4 0xCA62C1D6 W) [60..<80]
       (fold (subRound f3 0x8F1BBCDC W) [40..<60]
         (fold (subRound f2 0x6ED9EBA1 W) [20..<40]
           (fold (subRound f1 0x5A827999 W) [0..<20] v)))"

definition transform :: "sha1_context \<Rightarrow> sha1_context" where
  "transform ctx =
     (let h = ctx_digest ctx;
          (A, B, C, D, E) = rounds (expanded (ctx_data ctx)) (h ! 0, h ! 1, h ! 2, h ! 3, h ! 4) in
      ctx\<lparr>ctx_digest := [h ! 0 + A, h ! 1 + B, h ! 2 + C, h ! 3 + D, h ! 4 + E]\<rparr>)"

definition set_byte :: "nat \<Rightarrow> UInt8 \<Rightarrow> UInt32 list \<Rightarrow> UInt32 list" where
  "set_byte i b ws = words_of ((bytes_of ws)[i := b])"

definition update_byte :: "UInt8 \<Rightarrow> sha1_context \<Rightarrow> sha1_context" where
  "update_byte b ctx =
     (let ctx1 = ctx\<lparr>ctx_data := set_byte (slop ctx) b (ctx_data ctx), slop := slop ctx + 1\<rparr> in
      if slop ctx1 = 64
      then (transform (ctx1\<lparr>ctx_data := byteReverse 64 (ctx_data ctx1)\<rparr>))\<lparr>slop := 0\<rparr>
      else ctx1)"

definition update_count :: "UInt32 \<Rightarrow> sha1_context \<Rightarrow> sha1_context" where
  "update_count count ctx =
     (let hi = (if countLo ctx + push_bit 3 count < countLo ctx then countHi ctx + 1 else countHi ctx) in
      ctx\<lparr>countLo := countLo ctx + push_bit 3 count, countHi := hi + drop_bit 29 count\<rparr>)"

definition updateImpl :: "bytes \<Rightarrow> sha1_context \<Rightarrow> sha1_context" where
  "updateImpl buffer ctx = fold update_byte buffer (update_count (word_of_nat (length buffer)) ctx)"

text \<open>\<open>memset\<close> of the bytes from \<open>i\<close> up to \<open>j\<close> of the buffer.\<close>

definition clear_bytes :: "nat \<Rightarrow> nat \<Rightarrow> UInt32 list \<Rightarrow> UInt32 list" where
  "clear_bytes i j ws =
     (let b = bytes_of ws in words_of (take i b @ replicate (j - i) 0 @ drop j b))"

definition hash_bytes :: "UInt32 list \<Rightarrow> bytes" where
  "hash_bytes h = map (\<lambda>count. ucast (drop_bit (8 * (3 - count mod 4)) (h ! (count div 4))) AND 0xFF) [0..<20]"

definition pad_block :: "sha1_context \<Rightarrow> sha1_context" where
  "pad_block ctx =
     (let count = unat (drop_bit 3 (countLo ctx) AND 0x3F);
          d = set_byte count 0x80 (ctx_data ctx);
          count = count + 1 in
      if 56 < count
      then (let ctx1 = transform (ctx\<lparr>ctx_data := byteReverse 64 (clear_bytes count 64 d)\<rparr>) in
            ctx1\<lparr>ctx_data := clear_bytes 0 56 (ctx_data ctx1)\<rparr>)
      else ctx\<lparr>ctx_data := clear_bytes count 56 d\<rparr>)"

definition digest :: "sha1_context \<Rightarrow> bytes \<times> sha1_context" where
  "digest ctx =
     (let lowBitcount = countLo ctx; highBitcount = countHi ctx;
          ctx1 = pad_block ctx;
          d = (byteReverse 64 (ctx_data ctx1))[14 := highBitcount, 15 := lowBitcount];
          ctx2 = transform (ctx1\<lparr>ctx_data := d\<rparr>) in
      (hash_bytes (ctx_digest ctx2), reset))"

definition digestToHex :: "bytes \<Rightarrow> string" where
  "digestToHex bs =
     (let digits = ''0123456789abcdef'' in
      concat (map (\<lambda>c. [digits ! unat (drop_bit 4 c AND 0xF), digits ! unat (c AND 0xF)]) bs))"

section \<open>The reference\<close>

definition rotl :: "nat \<Rightarrow> UInt32 \<Rightarrow> UInt32" where
  "rotl n w = word_rotl n w"

definition sha_f :: "nat \<Rightarrow> UInt32 \<Rightarrow> UInt32 \<Rightarrow> UInt32 \<Rightarrow> UInt32" where
  "sha_f t x y z =
     (if t < 20 then (x AND y) XOR (NOT x AND z)
      else if 40 \<le> t \<and> t < 60 then (x AND y) XOR (x AND z) XOR (y AND z)
      else x XOR y XOR z)"

definition sha_K :: "nat \<Rightarrow> UInt32" where
  "sha_K t = (if t < 20 then 0x5A827999 else if t < 40 then 0x6ED9EBA1 else if t < 60 then 0x8F1BBCDC else 0xCA62C1D6)"

fun schedule :: "UInt32 list \<Rightarrow> nat \<Rightarrow> UInt32" where
  "schedule M t =
     (if t < 16 then M ! t
      else rotl 1 (schedule M (t - 3) XOR schedule M (t - 8) XOR schedule M (t - 14) XOR schedule M (t - 16)))"

declare schedule.simps [simp del]

definition sha_step :: "UInt32 list \<Rightarrow> nat \<Rightarrow> sha1_vars \<Rightarrow> sha1_vars" where
  "sha_step M t = (\<lambda>(a, b, c, d, e). (rotl 5 a + sha_f t b c d + e + sha_K t + schedule M t, a, rotl 30 b, c, d))"

definition compress :: "UInt32 list \<Rightarrow> UInt32 list \<Rightarrow> UInt32 list" where
  "compress H M =
     (let (a, b, c, d, e) = fold (sha_step M) [0..<80] (H ! 0, H ! 1, H ! 2, H ! 3, H ! 4) in
      [H ! 0 + a, H ! 1 + b, H ! 2 + c, H ! 3 + d, H ! 4 + e])"

fun be_words :: "bytes \<Rightarrow> UInt32 list" where
  "be_words (a # b # c # d # r) = of_le32 [d, c, b, a] # be_words r"
| "be_words _ = []"

function sha_blocks :: "UInt32 list \<Rightarrow> bytes \<Rightarrow> UInt32 list" where
  "sha_blocks H m = (if length m < 64 then H else sha_blocks (compress H (be_words (take 64 m))) (drop 64 m))"
  by pat_completeness auto
termination by (relation "measure (\<lambda>(H, m). length m)") auto

declare sha_blocks.simps [simp del]

definition be32 :: "UInt32 \<Rightarrow> bytes" where
  "be32 w = rev (le32 w)"

definition sha_pad :: "bytes \<Rightarrow> bytes" where
  "sha_pad m =
     (let bits = word_of_nat (8 * length m) :: UInt64 in
      m @ [0x80] @ replicate ((119 - length m mod 64) mod 64) 0 @ be32 (ucast (drop_bit 32 bits)) @ be32 (ucast bits))"

definition sha1 :: "bytes \<Rightarrow> bytes" where
  "sha1 m = concat (map be32 (sha_blocks [0x67452301, 0xEFCDAB89, 0x98BADCFE, 0x10325476, 0xC3D2E1F0] (sha_pad m)))"

section \<open>Compression\<close>

lemma S_rot_rotl: "0 < n \<Longrightarrow> n < 32 \<Longrightarrow> S_rot n w = rotl n w"
proof (rule bit_word_eqI)
  fix k assume n: "0 < n" "n < 32" and "k < LENGTH(32)"
  then have k: "k < 32" by simp
  have m: "(k + (32 - n)) mod 32 = (if n \<le> k then k - n else k + (32 - n))"
  proof (cases "n \<le> k")
    case True
    then have "k + (32 - n) = 32 + (k - n)" using n by simp
    then show ?thesis using True k by (simp del: add_diff_assoc)
  qed (use n in simp)
  have "bit (S_rot n w) k \<longleftrightarrow> n \<le> k \<and> bit w (k - n) \<or> bit w (k + (32 - n))"
    using n k by (simp add: S_rot_def bit_or_iff bit_push_bit_iff bit_drop_bit_eq add.commute)
  moreover have "bit w (k + (32 - n)) \<Longrightarrow> k < n" using bit_imp_le_length [of w "k + (32 - n)"] n by auto
  ultimately show "bit (S_rot n w) k = bit (rotl n w) k"
    using n k m by (auto simp: rotl_def bit_word_rotl_iff)
qed

lemma f_simps:
  "t < 20 \<Longrightarrow> sha_f t = f1" "20 \<le> t \<Longrightarrow> t < 40 \<Longrightarrow> sha_f t = f2"
  "40 \<le> t \<Longrightarrow> t < 60 \<Longrightarrow> sha_f t = f3" "60 \<le> t \<Longrightarrow> sha_f t = f4"
  by (intro ext bit_word_eqI; auto simp: sha_f_def f1_def f2_def f3_def f4_def bit_simps)+

lemma fold_cong_upt: "(\<And>t. i \<le> t \<Longrightarrow> t < j \<Longrightarrow> f t = g t) \<Longrightarrow> fold f [i..<j] = fold g [i..<j]"
  by (rule ext, rule fold_cong) auto

lemma expand_schedule:
  assumes "length M = 16" "n \<le> 64"
  shows "length (fold expand [16..<16 + n] (M @ replicate 64 0)) = 80
    \<and> (\<forall>t<16 + n. fold expand [16..<16 + n] (M @ replicate 64 0) ! t = schedule M t)"
  using assms(2)
proof (induction n)
  case 0
  then show ?case using assms(1) by (simp add: nth_append schedule.simps)
next
  case (Suc n)
  let ?W = "fold expand [16..<16 + n] (M @ replicate 64 0)"
  from Suc have len: "length ?W = 80" and W: "\<And>t. t < 16 + n \<Longrightarrow> ?W ! t = schedule M t" by auto
  have "expand (16 + n) ?W = ?W[16 + n := schedule M (16 + n)]"
    by (simp add: expand_def W S_rot_rotl schedule.simps [of M "16 + n"])
  moreover have "[16..<16 + Suc n] = [16..<16 + n] @ [16 + n]"
    by (simp only: add_Suc_right upt_Suc_append le_add1)
  ultimately have f: "fold expand [16..<16 + Suc n] (M @ replicate 64 0) = ?W[16 + n := schedule M (16 + n)]" by simp
  show ?case unfolding f using len W Suc.prems by (auto simp: nth_list_update less_Suc_eq)
qed

lemma expanded_schedule: "length M = 16 \<Longrightarrow> t < 80 \<Longrightarrow> expanded M ! t = schedule M t"
  using expand_schedule [of M 64] by (simp add: expanded_def)

lemma subRound_step:
  assumes "length M = 16" "t < 80"
  shows "subRound (sha_f t) (sha_K t) (expanded M) t = sha_step M t"
  by (rule ext) (auto simp: subRound_def sha_step_def expanded_schedule [OF assms] S_rot_rotl Let_def ac_simps)

lemma fold_upt_split: "i \<le> j \<Longrightarrow> j \<le> k \<Longrightarrow> fold f [i..<k] v = fold f [j..<k] (fold f [i..<j] v)"
  by (metis fold_append comp_apply upt_add_eq_append le_Suc_ex)

lemma rounds_fold:
  assumes "length M = 16"
  shows "rounds (expanded M) v = fold (sha_step M) [0..<80] v"
proof -
  note st = subRound_step [OF assms]
  have "fold (subRound f1 0x5A827999 (expanded M)) [0..<20] = fold (sha_step M) [0..<20]"
    by (rule fold_cong_upt) (simp flip: st add: f_simps sha_K_def)
  moreover have "fold (subRound f2 0x6ED9EBA1 (expanded M)) [20..<40] = fold (sha_step M) [20..<40]"
    by (rule fold_cong_upt) (simp flip: st add: f_simps sha_K_def)
  moreover have "fold (subRound f3 0x8F1BBCDC (expanded M)) [40..<60] = fold (sha_step M) [40..<60]"
    by (rule fold_cong_upt) (simp flip: st add: f_simps sha_K_def)
  moreover have "fold (subRound f4 0xCA62C1D6 (expanded M)) [60..<80] = fold (sha_step M) [60..<80]"
    by (rule fold_cong_upt) (simp flip: st add: f_simps sha_K_def)
  ultimately show ?thesis
    using fold_upt_split [of 0 20 80 "sha_step M" v] fold_upt_split [of 20 40 80 "sha_step M"] fold_upt_split [of 40 60 80 "sha_step M"]
    by (simp add: rounds_def)
qed

lemma transform_compress:
  "length (ctx_data ctx) = 16 \<Longrightarrow> transform ctx = ctx\<lparr>ctx_digest := compress (ctx_digest ctx) (ctx_data ctx)\<rparr>"
  by (simp add: transform_def compress_def rounds_fold Let_def case_prod_beta)

section \<open>Words and bytes of the buffer\<close>

lemma words_bytes [simp]: "words_of (bytes_of ws) = ws"
proof (induction ws)
  case (Cons w ws)
  have "of_le32 (le32 w) = w" using of_le32_le32 [of w "[]"] by simp
  then show ?case using Cons by (simp add: bytes_of_def le32_def)
qed (simp add: bytes_of_def)

lemma length_words: "length bs = 4 * n \<Longrightarrow> length (words_of bs) = n"
proof (induction n arbitrary: bs)
  case (Suc n)
  then obtain a b c d r where "bs = a # b # c # d # r" by (auto simp: numeral_eq_Suc length_Suc_conv)
  then show ?case using Suc by simp
qed simp

lemma bytes_words: "length bs = 4 * n \<Longrightarrow> bytes_of (words_of bs) = bs"
proof (induction n arbitrary: bs)
  case (Suc n)
  then obtain a b c d r where "bs = a # b # c # d # r" by (auto simp: numeral_eq_Suc length_Suc_conv)
  then show ?case using Suc le32_of_le32 [of "[a, b, c, d]"] by (simp add: bytes_of_def)
qed (simp add: bytes_of_def)

lemma length_bytes [simp]: "length (bytes_of ws) = 4 * length ws"
  by (induction ws) (simp_all add: bytes_of_def)

lemma byte_masks:
  "(0x00FF00FF :: UInt32) = mask 8 OR push_bit 16 (mask 8)" "(0xFF00FF00 :: UInt32) = push_bit 8 (mask 8) OR push_bit 24 (mask 8)"
  by (simp_all add: mask_eq_exp_minus_1)

lemma swap_word_le: "swap_word (of_le32 [a, b, c, d]) = of_le32 [d, c, b, a]"
proof (rule bit_word_eqI)
  fix n assume "n < LENGTH(32)"
  then consider "n < 8" | "8 \<le> n" "n < 16" | "16 \<le> n" "n < 24" | "24 \<le> n" "n < 32" by fastforce
  then show "bit (swap_word (of_le32 [a, b, c, d])) n = bit (of_le32 [d, c, b, a] :: UInt32) n"
    by cases (auto simp: swap_word_def of_le32_def byte_masks bit_simps Let_def dest: bit_imp_le_length)
qed

lemma reverse_words: "length bs = 64 \<Longrightarrow> byteReverse 64 (words_of bs) = be_words bs"
proof -
  have "map swap_word (words_of bs) = be_words bs" if "length bs = 4 * n" for n bs
    using that
  proof (induction n arbitrary: bs)
    case (Suc n)
    then obtain a b c d r where "bs = a # b # c # d # r" by (auto simp: numeral_eq_Suc length_Suc_conv)
    then show ?case using Suc by (simp add: swap_word_le)
  qed simp
  moreover assume "length bs = 64"
  ultimately show ?thesis using length_words [of bs 16] by (simp add: byteReverse_def)
qed

section \<open>Blocks\<close>

lemma sha_blocks_Nil [simp]: "sha_blocks H [] = H"
  by (simp add: sha_blocks.simps)

lemma sha_blocks_append:
  assumes "length full = 64 * n" shows "sha_blocks H (full @ r) = sha_blocks (sha_blocks H full) r"
  using assms
proof (induction n arbitrary: H full)
  case (Suc n)
  then have "\<not> length full < 64" "length (drop 64 full) = 64 * n" by simp_all
  then show ?case using Suc.IH [of "drop 64 full"]
    by (simp add: sha_blocks.simps [of H "full @ r"] sha_blocks.simps [of H full])
qed simp

lemma sha_blocks_one: "length b = 64 \<Longrightarrow> sha_blocks H b = compress H (be_words b)"
  by (simp add: sha_blocks.simps)

lemma be_words_append: "length x = 4 * n \<Longrightarrow> be_words (x @ y) = be_words x @ be_words y"
proof (induction n arbitrary: x)
  case (Suc n)
  then obtain a b c d r where "x = a # b # c # d # r" by (auto simp: numeral_eq_Suc length_Suc_conv)
  then show ?case using Suc by simp
qed simp

lemma length_be_words: "length x = 4 * n \<Longrightarrow> length (be_words x) = n"
proof (induction n arbitrary: x)
  case (Suc n)
  then obtain a b c d r where "x = a # b # c # d # r" by (auto simp: numeral_eq_Suc length_Suc_conv)
  then show ?case using Suc by simp
qed simp

lemma be_words_be32: "be_words (be32 w @ r) = w # be_words r"
  using of_le32_le32 [of w "[]"] by (simp add: be32_def le32_def)

lemma set_length_words:
  assumes "length x = 56" "length y = 8"
  shows "(be_words (x @ y))[14 := h, 15 := l] = be_words (x @ be32 h @ be32 l)"
proof -
  obtain p q where "be_words y = [p, q]" using length_be_words [of y 2] assms(2) by (auto simp: numeral_eq_Suc length_Suc_conv)
  moreover have "length (be_words x) = 14" using length_be_words [of x 14] assms(1) by simp
  ultimately show ?thesis
    using be_words_append [of x 14] assms(1) be_words_be32 [of l "[]"] by (simp add: be_words_be32 list_update_append)
qed

lemma hash_bytes_be: "length h = 5 \<Longrightarrow> hash_bytes h = concat (map be32 h)"
proof -
  assume "length h = 5"
  then obtain a b c d e where h: "h = [a, b, c, d, e]" by (auto simp: numeral_eq_Suc length_Suc_conv)
  have "(0xFF :: UInt8) = - 1" by simp
  then have "x AND 0xFF = x" for x :: UInt8 by (simp only: and.right_neutral)
  then show ?thesis by (simp add: h hash_bytes_def be32_def le32_def upt_conv_Cons)
qed

section \<open>The state of the engine\<close>

definition sha_inv :: "bytes \<Rightarrow> sha1_context \<Rightarrow> bool" where
  "sha_inv msg ctx \<longleftrightarrow> (\<exists>full part n. msg = full @ part \<and> length full = 64 * n \<and> length part < 64 \<and> slop ctx = length part
     \<and> ctx_digest ctx = sha_blocks (ctx_digest reset) full \<and> length (ctx_data ctx) = 16
     \<and> take (length part) (bytes_of (ctx_data ctx)) = part)"

definition bit_count :: "sha1_context \<Rightarrow> nat" where
  "bit_count ctx = unat (countLo ctx) + 2 ^ 32 * unat (countHi ctx)"

lemma reset_inv: "sha_inv [] reset" "bit_count reset = 0"
  by (auto simp: sha_inv_def reset_def bit_count_def sha_blocks.simps [of _ "[]"])

lemma set_byte_bytes:
  assumes "length ws = 16"
  shows "length (set_byte i b ws) = 16" "bytes_of (set_byte i b ws) = (bytes_of ws)[i := b]"
  using assms length_words [of "(bytes_of ws)[i := b]" 16] bytes_words [of "(bytes_of ws)[i := b]" 16]
  by (simp_all add: set_byte_def)

lemma reverse_block:
  assumes "length ws = 16"
  shows "byteReverse 64 ws = be_words (bytes_of ws)" "length (byteReverse 64 ws) = 16"
  using reverse_words [of "bytes_of ws"] assms length_be_words [of "bytes_of ws" 16] by simp_all

lemma update_byte_inv:
  assumes "sha_inv msg ctx"
  shows "sha_inv (msg @ [b]) (update_byte b ctx)" "bit_count (update_byte b ctx) = bit_count ctx"
proof -
  from assms obtain full part n where m: "msg = full @ part" "length full = 64 * n" "length part < 64"
    and s: "slop ctx = length part" "ctx_digest ctx = sha_blocks (ctx_digest reset) full" "length (ctx_data ctx) = 16"
      "take (length part) (bytes_of (ctx_data ctx)) = part"
    unfolding sha_inv_def by blast
  let ?d = "set_byte (length part) b (ctx_data ctx)"
  note d = set_byte_bytes [OF s(3), of "length part" b]
  have t: "take (Suc (length part)) (bytes_of ?d) = part @ [b]"
    using s m by (simp add: d(2) take_Suc_conv_app_nth)
  show "sha_inv (msg @ [b]) (update_byte b ctx)"
  proof (cases "Suc (length part) = 64")
    case True
    then have bl: "bytes_of ?d = part @ [b]" using t d(1) by simp
    have "sha_blocks (ctx_digest reset) (full @ part @ [b]) = compress (ctx_digest ctx) (byteReverse 64 ?d)"
      using sha_blocks_append [OF m(2)] sha_blocks_one [of "part @ [b]"] True s(2) bl reverse_block(1) [OF d(1)] by simp
    then show ?thesis
      using True s m d reverse_block(2) [OF d(1)] unfolding sha_inv_def
      by (intro exI [of _ "full @ part @ [b]"] exI [of _ "[]"] exI [of _ "Suc n"])
        (simp add: update_byte_def transform_compress)
  next
    case False
    then show ?thesis
      using s m d t unfolding sha_inv_def
      by (intro exI [of _ full] exI [of _ "part @ [b]"] exI [of _ n]) (simp add: update_byte_def)
  qed
  show "bit_count (update_byte b ctx) = bit_count ctx"
    by (simp add: update_byte_def bit_count_def transform_def Let_def case_prod_beta)
qed

lemma update_bytes_inv:
  "sha_inv msg ctx \<Longrightarrow> sha_inv (msg @ bs) (fold update_byte bs ctx) \<and> bit_count (fold update_byte bs ctx) = bit_count ctx"
proof (induction bs arbitrary: msg ctx)
  case (Cons b bs)
  then show ?case using update_byte_inv [OF Cons.prems, of b] Cons.IH [of "msg @ [b]" "update_byte b ctx"] by simp
qed simp


section \<open>Counting bits\<close>

lemma div_mod_carry: "k \<le> x \<Longrightarrow> x < 2 * k \<Longrightarrow> x div k = 1 \<and> x mod k = x - (k :: nat)"
  using le_mod_geq [of k x] le_div_geq [of k x] by (cases "k = 0") auto

lemma mod_pair: "a < k \<Longrightarrow> a + k * (h mod k) = (a + k * h) mod (k * k :: nat)"
  by (simp add: mod_mult2_eq add.commute)

lemma update_count_bits:
  assumes "n < 2 ^ 32"
  shows "bit_count (update_count (word_of_nat n) ctx) = (bit_count ctx + 8 * n) mod 2 ^ 64"
proof -
  let ?w = "word_of_nat n :: UInt32" and ?lo = "unat (countLo ctx)" and ?hi = "unat (countHi ctx)"
  let ?m = "8 * n mod 2 ^ 32" and ?q = "8 * n div 2 ^ 32"
  define c where "c = (?lo + ?m) div 2 ^ 32"
  have w: "unat ?w = n" using assms by (simp add: unat_of_nat)
  have p: "unat (push_bit 3 ?w) = ?m"
    using w by (simp add: push_bit_eq_mult unat_word_ariths mult.commute)
  have lo': "unat (countLo ctx + push_bit 3 ?w) = (?lo + ?m) mod 2 ^ 32"
    by (simp add: unat_word_ariths p)
  have lt: "?lo < 2 ^ 32" "?m < 2 ^ 32" using unat_lt_exp [of "countLo ctx"] by simp_all
  have c: "c = (if countLo ctx + push_bit 3 ?w < countLo ctx then 1 else 0)"
  proof (cases "?lo + ?m < 2 ^ 32")
    case False
    then have "c = 1 \<and> (?lo + ?m) mod 2 ^ 32 = ?lo + ?m - 2 ^ 32"
      unfolding c_def using lt by (intro div_mod_carry) linarith+
    moreover have "?lo + ?m - 2 ^ 32 < ?lo" using lt False by linarith
    ultimately show ?thesis by (simp only: word_less_nat_alt lo') simp
  next
    case True
    then have "c = 0" "(?lo + ?m) mod 2 ^ 32 = ?lo + ?m" unfolding c_def by (simp_all only: div_less mod_less)
    then show ?thesis by (simp only: word_less_nat_alt lo') simp
  qed
  have q: "unat (drop_bit 29 ?w) = ?q" using w by (simp add: unat_drop_bit_div)
  have hi': "unat (countHi (update_count ?w ctx)) = (?hi + c + ?q) mod 2 ^ 32"
    by (simp add: update_count_def Let_def c unat_word_ariths q mod_simps)
  have "(?lo + ?m) mod 2 ^ 32 + 2 ^ 32 * c = ?lo + ?m" unfolding c_def by simp
  moreover have "?m + 2 ^ 32 * ?q = 8 * n" by (rule mod_mult_div_eq)
  ultimately have e: "(?lo + ?m) mod 2 ^ 32 + 2 ^ 32 * (?hi + c + ?q) = bit_count ctx + 8 * n"
    by (simp add: bit_count_def algebra_simps)
  have "bit_count (update_count ?w ctx) = (?lo + ?m) mod 2 ^ 32 + 2 ^ 32 * ((?hi + c + ?q) mod 2 ^ 32)"
    unfolding bit_count_def hi' by (simp add: lo' update_count_def Let_def)
  also have "\<dots> = ((?lo + ?m) mod 2 ^ 32 + 2 ^ 32 * (?hi + c + ?q)) mod 2 ^ 64"
    using mod_pair [of "(?lo + ?m) mod 2 ^ 32" "2 ^ 32" "?hi + c + ?q"] by (simp only: power_add [symmetric]) simp
  finally show ?thesis unfolding e .
qed

lemma updateImpl_inv:
  assumes "sha_inv msg ctx" "bit_count ctx = 8 * length msg mod 2 ^ 64" "length bs < 2 ^ 32"
  shows "sha_inv (msg @ bs) (updateImpl bs ctx)" "bit_count (updateImpl bs ctx) = 8 * length (msg @ bs) mod 2 ^ 64"
proof -
  let ?c = "update_count (word_of_nat (length bs)) ctx"
  have "sha_inv msg ?c" using assms(1) by (simp add: sha_inv_def update_count_def Let_def)
  from update_bytes_inv [OF this, of bs] update_count_bits [OF assms(3), of ctx] assms(2)
  show "sha_inv (msg @ bs) (updateImpl bs ctx)" "bit_count (updateImpl bs ctx) = 8 * length (msg @ bs) mod 2 ^ 64"
    by (simp_all add: updateImpl_def mod_simps algebra_simps)
qed

section \<open>Padding\<close>

lemma length_field:
  assumes "bit_count ctx = 8 * len mod 2 ^ 64"
  shows "countLo ctx = ucast (word_of_nat (8 * len) :: UInt64)" "countHi ctx = ucast (drop_bit 32 (word_of_nat (8 * len) :: UInt64))"
    and "unat (drop_bit 3 (countLo ctx) AND 0x3F) = len mod 64"
proof -
  define b :: UInt64 where "b = word_of_nat (8 * len)"
  let ?lo = "unat (countLo ctx)" and ?hi = "unat (countHi ctx)"
  have ub: "unat (word_of_nat k :: UInt64) = k mod 2 ^ 64" for k by (simp add: unat_of_nat)
  have b: "unat b = ?lo + 2 ^ 32 * ?hi" using assms unfolding b_def ub bit_count_def by simp
  have lt: "?lo < 2 ^ 32" "?hi < 2 ^ 32" using unat_lt_exp [of "countLo ctx"] unat_lt_exp [of "countHi ctx"] by simp_all
  have lo: "?lo = unat b mod 2 ^ 32" and hi: "?hi = unat b div 2 ^ 32" unfolding b using lt by simp_all
  have "unat (ucast b :: UInt32) = unat b mod 2 ^ 32" by (simp add: unsigned_ucast_eq take_bit_eq_mod)
  then show "countLo ctx = ucast (word_of_nat (8 * len) :: UInt64)" 
    using lo unfolding b_def [symmetric] by (simp add: word_unat_eq_iff)
  have "unat (ucast (drop_bit 32 b) :: UInt32) = unat b div 2 ^ 32 mod 2 ^ 32"
    by (simp add: unsigned_ucast_eq take_bit_eq_mod unat_drop_bit_div)
  then show "countHi ctx = ucast (drop_bit 32 (word_of_nat (8 * len) :: UInt64))"
    using hi lt unfolding b_def [symmetric] by (simp add: word_unat_eq_iff)
  have "mask 6 = (0x3F :: UInt32)" by (simp add: mask_eq_exp_minus_1)
  then have "drop_bit 3 (countLo ctx) AND 0x3F = take_bit 6 (drop_bit 3 (countLo ctx))" by (metis take_bit_eq_mask)
  then have "unat (drop_bit 3 (countLo ctx) AND 0x3F) = ?lo div 8 mod 64"
    by (simp add: unat_take_bit_mod unat_drop_bit_div)
  moreover have "?lo = 8 * (len mod 2 ^ 29)"
    using lo unfolding b_def ub by (simp add: mod_mod_cancel mult_mod_right)
  moreover have "len mod 2 ^ 29 mod 64 = len mod 64" by (rule mod_mod_cancel) simp
  ultimately show "unat (drop_bit 3 (countLo ctx) AND 0x3F) = len mod 64" by simp
qed

lemma clear_bytes_bytes:
  assumes "length ws = 16" "i \<le> j" "j \<le> 64"
  shows "length (clear_bytes i j ws) = 16"
    "bytes_of (clear_bytes i j ws) = take i (bytes_of ws) @ replicate (j - i) 0 @ drop j (bytes_of ws)"
  using assms length_words [of "take i (bytes_of ws) @ replicate (j - i) 0 @ drop j (bytes_of ws)" 16]
    bytes_words [of "take i (bytes_of ws) @ replicate (j - i) 0 @ drop j (bytes_of ws)" 16]
  by (simp_all add: clear_bytes_def Let_def)

text \<open>
  Padding leaves a block whose first 56 bytes end the padded message, for any eight bytes of length
  that follow.
\<close>

lemma pad_block_spec:
  assumes "length (ctx_data ctx) = 16" "take k (bytes_of (ctx_data ctx)) = part" "length part = k" "k < 64"
    and "unat (drop_bit 3 (countLo ctx) AND 0x3F) = k"
  shows "\<exists>x y. length x = 56 \<and> length y = 8 \<and> length (ctx_data (pad_block ctx)) = 16
    \<and> bytes_of (ctx_data (pad_block ctx)) = x @ y
    \<and> (\<forall>z. length z = 8 \<longrightarrow> compress (ctx_digest (pad_block ctx)) (be_words (x @ z)) =
          sha_blocks (ctx_digest ctx) (part @ [0x80] @ replicate ((119 - k) mod 64) 0 @ z))"
proof -
  let ?d = "set_byte k 0x80 (ctx_data ctx)"
  note d = set_byte_bytes [OF assms(1), of k "0x80"]
  have t: "take (Suc k) (bytes_of ?d) = part @ [0x80]" using assms by (simp add: d(2) take_Suc_conv_app_nth)
  show ?thesis
  proof (cases "56 < Suc k")
    case False
    let ?x = "part @ [0x80] @ replicate (55 - k) 0" and ?y = "drop 56 (bytes_of ?d)"
    have "119 - k = 64 + (55 - k)" using False by simp
    then have z: "(119 - k) mod 64 = 55 - k" by (simp only: mod_add_self1) simp
    note c = clear_bytes_bytes [OF d(1), of "Suc k" 56]
    have "pad_block ctx = ctx\<lparr>ctx_data := clear_bytes (Suc k) 56 ?d\<rparr>"
      using False by (simp add: pad_block_def assms(5) Let_def)
    then show ?thesis
      using c t False d(1) assms(3) sha_blocks_one [of "?x @ _"] z by (intro exI [of _ ?x] exI [of _ ?y]) simp
  next
    case True
    let ?b = "part @ [0x80] @ replicate (63 - k) 0"
    have "119 - k = (63 - k) + 56" "119 - k < 64" using True assms(4) by simp_all
    then have z: "replicate ((119 - k) mod 64) (0 :: UInt8) = replicate (63 - k) 0 @ replicate 56 0"
      by (simp only: mod_less replicate_add)
    note c = clear_bytes_bytes [OF d(1), of "Suc k" 64]
    let ?e = "byteReverse 64 (clear_bytes (Suc k) 64 ?d)"
    have e: "?e = be_words ?b" "length ?e = 16"
      using reverse_block [OF c(1)] c(2) t assms(3,4) d(1) by simp_all
    note g = clear_bytes_bytes [OF e(2), of 0 56]
    have p: "pad_block ctx = ctx\<lparr>ctx_digest := compress (ctx_digest ctx) ?e, ctx_data := clear_bytes 0 56 ?e\<rparr>"
      using True e(2) by (simp add: pad_block_def assms(5) Let_def transform_compress)
    have "sha_blocks (ctx_digest ctx) (?b @ replicate 56 0 @ w) = compress (compress (ctx_digest ctx) ?e) (be_words (replicate 56 0 @ w))"
      if "length w = 8" for w
      using sha_blocks_append [of ?b 1] sha_blocks_one [of ?b] sha_blocks_one [of "replicate 56 0 @ w"] that assms(3,4) e(1) by simp
    then show ?thesis
      using p g e(2) z by (intro exI [of _ "replicate 56 0"] exI [of _ "drop 56 (bytes_of ?e)"]) simp
  qed
qed

lemma digest_sha1:
  assumes "sha_inv msg ctx" "bit_count ctx = 8 * length msg mod 2 ^ 64"
  shows "digest ctx = (sha1 msg, reset)"
proof -
  from assms(1) obtain full part n where m: "msg = full @ part" "length full = 64 * n" "length part < 64"
    and s: "slop ctx = length part" "ctx_digest ctx = sha_blocks (ctx_digest reset) full" "length (ctx_data ctx) = 16"
      "take (length part) (bytes_of (ctx_data ctx)) = part"
    unfolding sha_inv_def by blast
  let ?k = "length part" and ?z = "be32 (countHi ctx) @ be32 (countLo ctx)" and ?p = "pad_block ctx"
  have k: "unat (drop_bit 3 (countLo ctx) AND 0x3F) = ?k" using length_field(3) [OF assms(2)] m by simp
  from pad_block_spec [OF s(3,4) refl m(3) k] obtain x y
    where x: "length x = 56" "length y = 8" "length (ctx_data ?p) = 16" "bytes_of (ctx_data ?p) = x @ y"
      and c: "\<And>z. length z = 8 \<Longrightarrow> compress (ctx_digest ?p) (be_words (x @ z)) =
          sha_blocks (ctx_digest ctx) (part @ [0x80] @ replicate ((119 - ?k) mod 64) 0 @ z)" by blast
  have w: "(byteReverse 64 (ctx_data ?p))[14 := countHi ctx, 15 := countLo ctx] = be_words (x @ ?z)"
    using reverse_block(1) [OF x(3)] set_length_words [OF x(1,2)] x(4) by simp
  have len: "length (be_words (x @ ?z)) = 16" using length_be_words [of "x @ ?z" 16] x(1) by (simp add: be32_def)
  have pad: "sha_pad msg = full @ part @ [0x80] @ replicate ((119 - ?k) mod 64) 0 @ ?z"
    using length_field(1,2) [OF assms(2)] m by (simp add: sha_pad_def Let_def)
  have r: "ctx_digest reset = [0x67452301, 0xEFCDAB89, 0x98BADCFE, 0x10325476, 0xC3D2E1F0]" by (simp add: reset_def)
  have h: "sha_blocks (ctx_digest reset) (sha_pad msg) = compress (ctx_digest ?p) (be_words (x @ ?z))"
    unfolding pad using sha_blocks_append [OF m(2)] c [of ?z] s(2) by (simp add: be32_def)
  have "hash_bytes (compress H M) = concat (map be32 (compress H M))" for H M
    by (rule hash_bytes_be) (simp add: compress_def case_prod_beta Let_def)
  then show ?thesis using len by (simp add: digest_def Let_def w transform_compress sha1_def r [symmetric] h)
qed


section \<open>Properties\<close>

text \<open>
  C4. The engine computes SHA-1 incrementally: a fresh engine that is updated with any sequence of
  chunks (each shorter than \<open>2^32\<close> bytes) has as its digest the SHA-1 hash of their concatenation as
  FIPS 180 defines it, and is then reset to its initial state.
\<close>

theorem sha1_engine_correct:
  assumes "\<forall>c\<in>set chunks. length c < 2 ^ 32"
  shows "digest (fold updateImpl chunks reset) = (sha1 (concat chunks), reset)"
proof -
  have "sha_inv (msg @ concat chunks) (fold updateImpl chunks ctx)
      \<and> bit_count (fold updateImpl chunks ctx) = 8 * length (msg @ concat chunks) mod 2 ^ 64"
    if "sha_inv msg ctx" "bit_count ctx = 8 * length msg mod 2 ^ 64" for msg ctx
    using that assms
  proof (induction chunks arbitrary: msg ctx)
    case (Cons c cs)
    then show ?case using updateImpl_inv [of msg ctx c] Cons.IH [of "msg @ c" "updateImpl c ctx"] by simp
  qed simp
  from this [of "[]" reset] show ?thesis using digest_sha1 reset_inv by simp
qed

theorem sha1_engine_correct_witness:
  "digest (updateImpl [98, 99] (updateImpl [97] reset)) = (sha1 [97, 98, 99], reset)"
  using sha1_engine_correct [of "[[97], [98, 99]]"] by simp

end
