(* ===== verification/Tcp_Client.thy ===== *)
theory Tcp_Client
  imports Client_Net Msg_Queue
begin

text \<open>
  \<open>Network/TcpClient\<close> and \<open>Network/TcpAction\<close>: the sessions of the event-driven client and the queue of
  actions that other threads hand to it. libevent, the operating system and the virtual methods of
  the event handlers are parameters over a world \<open>'w\<close>; sockets live in an explicit store from which
  \<open>delete\<close> removes them, and \<open>None\<close> as the result of an operation stands for undefined behaviour
  (the use of a deleted socket).
\<close>

section \<open>State and environment\<close>

record 'w libevent =
  ev_base_new :: "'w \<Rightarrow> bool \<times> 'w"
  ev_base_loopbreak :: "'w \<Rightarrow> 'w"
  bev_socket_new :: "bool \<Rightarrow> 'w \<Rightarrow> nat option \<times> 'w"
  bev_connect_hostname :: "nat \<Rightarrow> string \<Rightarrow> UInt16 \<Rightarrow> 'w \<Rightarrow> int \<times> 'w"
  bev_getfd :: "nat \<Rightarrow> 'w \<Rightarrow> int"
  bev_setcb :: "nat \<Rightarrow> nat \<Rightarrow> 'w \<Rightarrow> 'w"
  bev_enable :: "nat \<Rightarrow> 'w \<Rightarrow> 'w"
  bev_disable_write :: "nat \<Rightarrow> 'w \<Rightarrow> 'w"
  bev_free :: "nat \<Rightarrow> 'w \<Rightarrow> 'w"
  bev_write :: "nat \<Rightarrow> bytes \<Rightarrow> 'w \<Rightarrow> 'w"
  bev_output_length :: "nat \<Rightarrow> 'w \<Rightarrow> nat"
  evbuffer_length :: "nat \<Rightarrow> 'w \<Rightarrow> nat"
  evbuffer_drain :: "nat \<Rightarrow> nat \<Rightarrow> 'w \<Rightarrow> 'w"

text \<open>The virtual methods of an event handler, which is a number.\<close>

record 'w handlers =
  h_onRead :: "nat \<Rightarrow> nat \<Rightarrow> nat \<Rightarrow> 'w \<Rightarrow> bool \<times> 'w"
  h_onDisconnect :: "nat \<Rightarrow> nat \<Rightarrow> 'w \<Rightarrow> 'w"
  h_destroy :: "nat \<Rightarrow> 'w \<Rightarrow> 'w"

record client_data =
  cd_bev :: nat
  cd_eventHandler :: nat

datatype tcp_action = ActionClose UInt32 bool | ActionSend bytes UInt32 UInt32

record tcp_client =
  tc_server :: "nat list"
  tc_store :: "nat \<Rightarrow> (sock \<times> client_data) option"
  tc_fresh :: nat
  tc_defHandler :: nat
  tc_running :: bool
  tc_ownBase :: bool
  tc_threadSafe :: bool
  tc_clientUniqueId :: UInt32
  tc_queue :: "tcp_action option msg_queue"

definition TcpClientBase :: "'w libevent \<Rightarrow> bool \<Rightarrow> bool \<Rightarrow> nat \<Rightarrow> 'w \<Rightarrow> (tcp_client \<times> 'w) option" where
  "TcpClientBase ev has_base tsafe dummyHandler w =
     (let c = \<lparr>tc_server = [], tc_store = Map.empty, tc_fresh = 0, tc_defHandler = dummyHandler, tc_running = True,
           tc_ownBase = \<not> has_base, tc_threadSafe = tsafe, tc_clientUniqueId = 0, tc_queue = MsgQueue\<rparr> in
      if has_base then Some (c, w)
      else (case ev_base_new ev w of (True, w') \<Rightarrow> Some (c, w') | (False, _) \<Rightarrow> None))"

section \<open>Callbacks\<close>

definition dummy_onRead :: "'w libevent \<Rightarrow> nat \<Rightarrow> 'w \<Rightarrow> bool \<times> 'w" where
  "dummy_onRead ev evbuf w =
     (let len = evbuffer_length ev evbuf w in
      (False, if 0 < len then evbuffer_drain ev evbuf len w else w))"

partial_function (option) read_loop :: "'w handlers \<Rightarrow> nat \<Rightarrow> nat \<Rightarrow> nat \<Rightarrow> 'w \<Rightarrow> 'w option" where
  "read_loop hs h s evbuf w =
     (let (more, w') = h_onRead hs h s evbuf w in if more then read_loop hs h s evbuf w' else Some w')"

definition onClientRead :: "'w handlers \<Rightarrow> nat \<Rightarrow> tcp_client \<Rightarrow> 'w \<Rightarrow> 'w option" where
  "onClientRead hs s c w =
     (case tc_store c s of None \<Rightarrow> None
      | Some (_, cd) \<Rightarrow> read_loop hs (cd_eventHandler cd) s (cd_bev cd) w)"

definition onClientWrite :: "'w os \<Rightarrow> 'w libevent \<Rightarrow> nat \<Rightarrow> tcp_client \<Rightarrow> 'w \<Rightarrow> 'w option" where
  "onClientWrite os ev s c w =
     (case tc_store c s of None \<Rightarrow> None
      | Some (ts, cd) \<Rightarrow>
          Some (if pendClose_flag ts \<and> bev_output_length ev (cd_bev cd) w = 0 then Socket_shutdown os 2 ts w else w))"

text \<open>\<open>~ClientData\<close> frees the bufferevent and destroys the handler.\<close>

definition delete_data :: "'w libevent \<Rightarrow> 'w handlers \<Rightarrow> client_data \<Rightarrow> 'w \<Rightarrow> 'w" where
  "delete_data ev hs cd w = h_destroy hs (cd_eventHandler cd) (bev_free ev (cd_bev cd) w)"

text \<open>\<open>remove\<close> deletes the socket (its destructor closes it); it stays in \<open>_server\<close>.\<close>

definition tc_remove :: "'w os \<Rightarrow> nat \<Rightarrow> tcp_client \<Rightarrow> 'w \<Rightarrow> (tcp_client \<times> 'w) option" where
  "tc_remove os s c w =
     (case tc_store c s of None \<Rightarrow> None
      | Some (ts, _) \<Rightarrow> Some (c\<lparr>tc_store := (tc_store c)(s := None)\<rparr>, Socket_close os ts w))"

definition onClientEvent ::
  "'w os \<Rightarrow> 'w libevent \<Rightarrow> 'w handlers \<Rightarrow> bool \<Rightarrow> nat \<Rightarrow> tcp_client \<Rightarrow> 'w \<Rightarrow> (tcp_client \<times> 'w) option" where
  "onClientEvent os ev hs eof_error_timeout s c w =
     (if eof_error_timeout then
        (case tc_store c s of None \<Rightarrow> None
         | Some (ts, cd) \<Rightarrow>
             (let w1 = bev_disable_write ev (cd_bev cd) w;
                  w2 = h_onDisconnect hs (cd_eventHandler cd) s w1 in
              tc_remove os s c (delete_data ev hs cd w2)))
      else Some (c, w))"

section \<open>Sessions\<close>

definition tc_connect ::
  "'w os \<Rightarrow> 'w libevent \<Rightarrow> bool \<Rightarrow> bool \<Rightarrow> string \<Rightarrow> UInt16 \<Rightarrow> tcp_client \<Rightarrow> 'w \<Rightarrow> UInt32 option \<times> tcp_client \<times> 'w" where
  "tc_connect os ev mem1 mem2 host port c w =
     (case bev_socket_new ev (tc_threadSafe c) w of
        (None, w1) \<Rightarrow> (None, c, w1)
      | (Some bev, w1) \<Rightarrow>
          (let (r, w2) = bev_connect_hostname ev bev host port w1 in
           if r < 0 then (None, c, w2)
           else if \<not> mem1 then (None, c, bev_free ev bev w2)
           else if \<not> mem2 then (None, c, Socket_close os (Socket_fd (bev_getfd ev bev w2)) (bev_free ev bev w2))
           else
             (let s = tc_fresh c;
                  w3 = bev_enable ev bev (bev_setcb ev bev s w2);
                  uid = tc_clientUniqueId c + 1;
                  i = push_bit 20 uid + word_of_nat (length (tc_server c)) in
              (Some i,
               c\<lparr>tc_server := tc_server c @ [s], tc_fresh := s + 1, tc_clientUniqueId := uid,
                 tc_store := (tc_store c)(s \<mapsto> ((Socket_fd (bev_getfd ev bev w2))\<lparr>sid := i\<rparr>,
                    \<lparr>cd_bev = bev, cd_eventHandler = tc_defHandler c\<rparr>))\<rparr>,
               w3))))"

text \<open>
  The lookup that \<open>setHandler\<close>, \<open>close2\<close>, \<open>pendClose2\<close> and \<open>send2\<close> start with: the low 20 bits of the id
  are the index, and the id of the socket has to agree. The inner \<open>None\<close> is no session.
\<close>

definition find_session :: "UInt32 \<Rightarrow> tcp_client \<Rightarrow> (nat \<times> sock \<times> client_data) option option" where
  "find_session i c =
     (let index = unat (i AND 0xFFFFF) in
      if length (tc_server c) \<le> index then Some None
      else case tc_store c (tc_server c ! index) of
        None \<Rightarrow> None
      | Some (ts, cd) \<Rightarrow> if sid ts = i then Some (Some (tc_server c ! index, ts, cd)) else Some None)"

definition setHandler :: "'w handlers \<Rightarrow> UInt32 \<Rightarrow> nat \<Rightarrow> tcp_client \<Rightarrow> 'w \<Rightarrow> (tcp_client \<times> 'w) option" where
  "setHandler hs i eh c w =
     (case find_session i c of None \<Rightarrow> None
      | Some None \<Rightarrow> Some (c, w)
      | Some (Some (s, ts, cd)) \<Rightarrow>
          if cd_eventHandler cd \<noteq> eh
          then Some (c\<lparr>tc_store := (tc_store c)(s \<mapsto> (ts, cd\<lparr>cd_eventHandler := eh\<rparr>))\<rparr>, h_destroy hs (cd_eventHandler cd) w)
          else Some (c, w))"

definition close2 :: "'w os \<Rightarrow> UInt32 \<Rightarrow> tcp_client \<Rightarrow> 'w \<Rightarrow> 'w option" where
  "close2 os i c w =
     (case find_session i c of None \<Rightarrow> None
      | Some None \<Rightarrow> Some w
      | Some (Some (s, ts, cd)) \<Rightarrow> Some (Socket_shutdown os 2 ts w))"

definition pendClose2 :: "'w os \<Rightarrow> 'w libevent \<Rightarrow> UInt32 \<Rightarrow> tcp_client \<Rightarrow> 'w \<Rightarrow> (tcp_client \<times> 'w) option" where
  "pendClose2 os ev i c w =
     (case find_session i c of None \<Rightarrow> None
      | Some None \<Rightarrow> Some (c, w)
      | Some (Some (s, ts, cd)) \<Rightarrow>
          if bev_output_length ev (cd_bev cd) w = 0 then Some (c, Socket_shutdown os 2 ts w)
          else Some (c\<lparr>tc_store := (tc_store c)(s \<mapsto> (ts\<lparr>pendClose_flag := True\<rparr>, cd))\<rparr>, w))"

definition send2 :: "'w libevent \<Rightarrow> UInt32 \<Rightarrow> bytes \<Rightarrow> tcp_client \<Rightarrow> 'w \<Rightarrow> 'w option" where
  "send2 ev i b c w =
     (case find_session i c of None \<Rightarrow> None
      | Some None \<Rightarrow> Some w
      | Some (Some (s, ts, cd)) \<Rightarrow> Some (bev_write ev (cd_bev cd) b w))"

definition send2_pair :: "'w libevent \<Rightarrow> UInt32 \<Rightarrow> bytes \<Rightarrow> bytes \<Rightarrow> tcp_client \<Rightarrow> 'w \<Rightarrow> 'w option" where
  "send2_pair ev i b1 b2 c w =
     (case find_session i c of None \<Rightarrow> None
      | Some None \<Rightarrow> Some w
      | Some (Some (s, ts, cd)) \<Rightarrow> Some (bev_write ev (cd_bev cd) b2 (bev_write ev (cd_bev cd) b1 w)))"

definition send2_triple :: "'w libevent \<Rightarrow> UInt32 \<Rightarrow> bytes \<Rightarrow> bytes \<Rightarrow> bytes \<Rightarrow> tcp_client \<Rightarrow> 'w \<Rightarrow> 'w option" where
  "send2_triple ev i b1 b2 b3 c w =
     (case find_session i c of None \<Rightarrow> None
      | Some None \<Rightarrow> Some w
      | Some (Some (s, ts, cd)) \<Rightarrow>
          Some (bev_write ev (cd_bev cd) b3 (bev_write ev (cd_bev cd) b2 (bev_write ev (cd_bev cd) b1 w))))"

section \<open>Actions\<close>

definition run_action ::
  "'w os \<Rightarrow> 'w libevent \<Rightarrow> tcp_action \<Rightarrow> tcp_client \<Rightarrow> 'w \<Rightarrow> (tcp_client \<times> 'w) option" where
  "run_action os ev a c w =
     (case a of
        ActionClose i pend \<Rightarrow>
          if pend then pendClose2 os ev i c w else map_option (Pair c) (close2 os i c w)
      | ActionSend packet i gid \<Rightarrow>
          if packet = [] then Some (c, w)
          else if gid = 0xFFFFFFFF then map_option (Pair c) (send2 ev i packet c w)
          else map_option (Pair c) (send2_triple ev i (le16 1) (le32 gid) packet c w))"

fun run_actions ::
  "'w os \<Rightarrow> 'w libevent \<Rightarrow> tcp_action option list \<Rightarrow> tcp_client \<Rightarrow> 'w \<Rightarrow> (tcp_client \<times> 'w) option" where
  "run_actions os ev [] c w = Some (c, w)"
| "run_actions os ev (None # as) c w = run_actions os ev as c w"
| "run_actions os ev (Some a # as) c w =
     (case run_action os ev a c w of None \<Rightarrow> None | Some (c', w') \<Rightarrow> run_actions os ev as c' w')"

text \<open>\<open>close\<close> pushes the new action when the allocation \<^emph>\<open>failed\<close>, that is, the null pointer.\<close>

definition tc_close :: "bool \<Rightarrow> UInt32 \<Rightarrow> tcp_client \<Rightarrow> tcp_client" where
  "tc_close mem_ok i c =
     (let ac = (if mem_ok then Some (ActionClose i False) else None) in
      if ac = None then c\<lparr>tc_queue := pushMsg ac (tc_queue c)\<rparr> else c)"

text \<open>\<open>onRunCheck\<close> fetches a buffer of actions and runs it; it does not call \<open>fetchEnd\<close>.\<close>

definition onRunCheck :: "'w os \<Rightarrow> 'w libevent \<Rightarrow> tcp_client \<Rightarrow> 'w \<Rightarrow> (tcp_client \<times> 'w) option" where
  "onRunCheck os ev c w =
     (if tc_running c then
        (let (aq, q) = fetchMsg (tc_queue c); c' = c\<lparr>tc_queue := q\<rparr> in
         case aq of None \<Rightarrow> Some (c', w) | Some k \<Rightarrow> run_actions os ev (msgQueue q ! k) c' w)
      else Some (c, ev_base_loopbreak ev w))"

definition tc_stop :: "tcp_client \<Rightarrow> tcp_client" where
  "tc_stop c = c\<lparr>tc_running := False\<rparr>"

section \<open>The invariant of the session table\<close>

definition client_ok :: "tcp_client \<Rightarrow> bool" where
  "client_ok c \<longleftrightarrow> distinct (tc_server c) \<and> (\<forall>s\<in>set (tc_server c). s < tc_fresh c)
     \<and> (\<forall>k<length (tc_server c). \<forall>ts cd. tc_store c (tc_server c ! k) = Some (ts, cd) \<longrightarrow> unat (sid ts AND 0xFFFFF) = k)"

lemma index_of_id:
  assumes "n < 2 ^ 20"
  shows "unat ((push_bit 20 u + word_of_nat n :: UInt32) AND 0xFFFFF) = n"
proof -
  let ?i = "push_bit 20 u + word_of_nat n :: UInt32"
  have "mask 20 = (0xFFFFF :: UInt32)" by (simp add: mask_eq_exp_minus_1)
  then have "?i AND 0xFFFFF = take_bit 20 ?i" by (metis take_bit_eq_mask)
  moreover have "unat ?i = (unat u * 2 ^ 20 + n) mod 2 ^ 32"
    using assms by (simp add: push_bit_eq_mult unat_word_ariths unat_of_nat mod_simps)
  moreover have "(unat u * 2 ^ 20 + n) mod 2 ^ 32 mod 2 ^ 20 = n"
    using assms by (subst mod_mod_cancel) simp_all
  ultimately show ?thesis by (simp only: unat_take_bit_mod)
qed

lemma find_session_index:
  assumes "client_ok c" "k < length (tc_server c)" "tc_store c (tc_server c ! k) = Some (ts, cd)"
  shows "find_session (sid ts) c = Some (Some (tc_server c ! k, ts, cd))"
proof -
  have "unat (sid ts AND 0xFFFFF) = k" using assms unfolding client_ok_def by blast
  then show ?thesis using assms(2,3) by (simp add: find_session_def)
qed

lemma find_session_Some:
  assumes "find_session i c = Some (Some (s, ts, cd))"
  shows "sid ts = i" "tc_store c s = Some (ts, cd)"
  using assms by (auto simp: find_session_def Let_def split: if_splits option.splits)

lemma tc_connect_success:
  assumes "tc_connect os ev m1 m2 host port c w = (Some i, c', w')"
  shows "\<exists>bev f. i = push_bit 20 (tc_clientUniqueId c + 1) + word_of_nat (length (tc_server c))
    \<and> c' = c\<lparr>tc_server := tc_server c @ [tc_fresh c], tc_fresh := tc_fresh c + 1, tc_clientUniqueId := tc_clientUniqueId c + 1,
        tc_store := (tc_store c)(tc_fresh c \<mapsto> ((Socket_fd f)\<lparr>sid := i\<rparr>, \<lparr>cd_bev = bev, cd_eventHandler = tc_defHandler c\<rparr>))\<rparr>"
  using assms by (auto simp: tc_connect_def Let_def case_prod_beta split: option.splits prod.splits if_splits)

lemma tc_connect_ok:
  assumes "client_ok c" "length (tc_server c) < 2 ^ 20" "tc_connect os ev m1 m2 host port c w = (Some i, c', w')"
  shows "client_ok c'"
    and "\<exists>ts cd. find_session i c' = Some (Some (tc_fresh c, ts, cd)) \<and> cd_eventHandler cd = tc_defHandler c"
    and "find_session j c = Some (Some x) \<Longrightarrow> find_session j c' = Some (Some x)"
proof -
  let ?n = "length (tc_server c)" and ?s = "tc_fresh c"
  obtain bev f where i: "i = push_bit 20 (tc_clientUniqueId c + 1) + word_of_nat ?n"
    and c': "c' = c\<lparr>tc_server := tc_server c @ [?s], tc_fresh := ?s + 1, tc_clientUniqueId := tc_clientUniqueId c + 1,
        tc_store := (tc_store c)(?s \<mapsto> ((Socket_fd f)\<lparr>sid := i\<rparr>, \<lparr>cd_bev = bev, cd_eventHandler = tc_defHandler c\<rparr>))\<rparr>"
    using tc_connect_success [OF assms(3)] by blast
  have idx: "unat (i AND 0xFFFFF) = ?n" unfolding i by (rule index_of_id) (rule assms(2))
  have old: "tc_server c ! k \<noteq> ?s" if "k < ?n" for k
    using assms(1) nth_mem [OF that] by (metis client_ok_def less_irrefl)
  show ok: "client_ok c'"
    using assms(1) idx old by (auto simp: client_ok_def c' nth_append less_Suc_eq)
  show "\<exists>ts cd. find_session i c' = Some (Some (?s, ts, cd)) \<and> cd_eventHandler cd = tc_defHandler c"
    by (simp add: find_session_def idx c' Let_def nth_append)
  show "find_session j c = Some (Some x) \<Longrightarrow> find_session j c' = Some (Some x)"
    using old by (auto simp: find_session_def c' Let_def nth_append split: if_splits option.splits)
qed

lemma onClientEvent_store:
  "onClientEvent os ev hs True s c w = Some (c', w') \<Longrightarrow> c' = c\<lparr>tc_store := (tc_store c)(s := None)\<rparr>"
  by (auto simp: onClientEvent_def tc_remove_def Let_def split: option.splits)

lemma run_action_queue:
  "run_action os ev a c w = Some (c', w') \<Longrightarrow> tc_queue c' = tc_queue c \<and> tc_running c' = tc_running c"
  by (auto simp: run_action_def pendClose2_def split: tcp_action.splits if_splits option.splits)

lemma run_actions_queue:
  "run_actions os ev as c w = Some (c', w') \<Longrightarrow> tc_queue c' = tc_queue c \<and> tc_running c' = tc_running c"
proof (induction os ev as c w rule: run_actions.induct)
  case (3 os ev a as c w)
  then show ?case by (auto split: option.splits dest!: run_action_queue)
qed auto

section \<open>Sending\<close>

text \<open>The reference: what a send action puts on the wire, and where.\<close>

definition wire :: "bytes \<Rightarrow> UInt32 \<Rightarrow> bytes list" where
  "wire packet gid = (if gid = 0xFFFFFFFF then [packet] else [le16 1, le32 gid, packet])"

definition write_send :: "'w libevent \<Rightarrow> tcp_client \<Rightarrow> bytes \<times> UInt32 \<times> UInt32 \<Rightarrow> 'w \<Rightarrow> 'w" where
  "write_send ev c = (\<lambda>(packet, i, gid) w.
     case find_session i c of Some (Some (s, ts, cd)) \<Rightarrow> fold (bev_write ev (cd_bev cd)) (wire packet gid) w | _ \<Rightarrow> w)"

definition send_action :: "bytes \<times> UInt32 \<times> UInt32 \<Rightarrow> tcp_action option" where
  "send_action = (\<lambda>(packet, i, gid). Some (ActionSend packet i gid))"

lemma find_session_queue [simp]: "find_session i (c\<lparr>tc_queue := q\<rparr>) = find_session i c"
  by (simp add: find_session_def Let_def split: option.split)

lemma write_send_queue [simp]: "write_send ev (c\<lparr>tc_queue := q\<rparr>) = write_send ev c"
  by (simp add: write_send_def)

lemma run_send:
  assumes "packet \<noteq> []" "find_session i c \<noteq> None"
  shows "run_action os ev (ActionSend packet i gid) c w = Some (c, write_send ev c (packet, i, gid) w)"
  using assms by (auto simp: run_action_def send2_def send2_triple_def write_send_def wire_def split: option.splits)

lemma run_sends:
  assumes "\<forall>(p, i, g)\<in>set sends. p \<noteq> [] \<and> find_session i c \<noteq> None"
  shows "run_actions os ev (map send_action sends) c w = Some (c, fold (write_send ev c) sends w)"
  using assms
proof (induction sends arbitrary: w)
  case (Cons x sends)
  obtain p i g where x: "x = (p, i, g)" by (cases x)
  then show ?case using Cons by (simp add: send_action_def run_send)
qed simp

lemma fold_pushMsg:
  "\<exists>e'. fold pushMsg xs \<lparr>currQueue = 0, qevent = e, msgQueue = [ys, zs]\<rparr> = \<lparr>currQueue = 0, qevent = e', msgQueue = [ys @ xs, zs]\<rparr>"
proof (induction xs arbitrary: ys e)
  case (Cons x xs)
  then show ?case using Cons.IH [of "setImpl e" "ys @ [x]"] by (simp add: pushMsg_def pushMsgNoLock_def)
qed simp

section \<open>Properties\<close>

text \<open>
  C34. Session ids: with fewer than \<open>2^20\<close> connections so far, a successful \<open>connect\<close> returns an id under
  which exactly the new socket is found, with the default handler, every session found before is
  still found under its id, and the table invariant is kept.
\<close>

theorem connect_gives_session:
  assumes "client_ok c" "length (tc_server c) < 2 ^ 20" "tc_connect os ev m1 m2 host port c w = (Some i, c', w')"
  shows "client_ok c' \<and> (\<exists>ts cd. find_session i c' = Some (Some (tc_fresh c, ts, cd)) \<and> sid ts = i \<and> cd_eventHandler cd = tc_defHandler c)
    \<and> (\<forall>j x. find_session j c = Some (Some x) \<longrightarrow> find_session j c' = Some (Some x))"
  using tc_connect_ok [OF assms] find_session_Some(1) by blast

text \<open>A libevent whose world is the list of chunks written; every connection succeeds.\<close>

definition test_ev :: "bytes list libevent" where
  "test_ev = \<lparr>ev_base_new = \<lambda>w. (True, w), ev_base_loopbreak = \<lambda>w. w, bev_socket_new = \<lambda>t w. (Some 1, w),
     bev_connect_hostname = \<lambda>b h p w. (0, w), bev_getfd = \<lambda>b w. 5, bev_setcb = \<lambda>b s w. w, bev_enable = \<lambda>b w. w,
     bev_disable_write = \<lambda>b w. w, bev_free = \<lambda>b w. w, bev_write = \<lambda>b x w. w @ [x],
     bev_output_length = \<lambda>b w. 0, evbuffer_length = \<lambda>b w. 0, evbuffer_drain = \<lambda>b n w. w\<rparr>"

definition test_client :: tcp_client where
  "test_client = fst (the (TcpClientBase test_ev True True 9 []))"

definition test_connected :: tcp_client where
  "test_connected = fst (snd (tc_connect script_os test_ev True True ''localhost'' 80 test_client []))"

lemma test_client_eq:
  "test_client = \<lparr>tc_server = [], tc_store = Map.empty, tc_fresh = 0, tc_defHandler = 9, tc_running = True,
     tc_ownBase = False, tc_threadSafe = True, tc_clientUniqueId = 0, tc_queue = MsgQueue\<rparr>"
  by (simp add: test_client_def TcpClientBase_def)

lemma test_connect:
  "client_ok test_client" "tc_connect script_os test_ev True True ''localhost'' 80 test_client [] = (Some 0x100000, test_connected, [])"
proof -
  show "client_ok test_client" by (simp add: client_ok_def test_client_eq)
  show "tc_connect script_os test_ev True True ''localhost'' 80 test_client [] = (Some 0x100000, test_connected, [])"
    by (simp add: test_connected_def tc_connect_def test_ev_def test_client_eq Let_def)
qed

theorem connect_gives_session_witness:
  "client_ok test_connected \<and> (\<exists>ts cd. find_session 0x100000 test_connected = Some (Some (0, ts, cd)) \<and> cd_eventHandler cd = 9)"
  using connect_gives_session [OF test_connect(1) _ test_connect(2)] by (auto simp: test_client_eq)

text \<open>
  Queued packets arrive at their sessions in order: on a running client with an empty queue, send
  actions pushed by other threads for sessions that are alive, or for ids that were never given out,
  are all carried out by the next \<open>onRunCheck\<close>, in the order of the pushes. Each writes to the
  bufferevent of exactly the session with its id: the packet alone for a direct client, and with the
  count 1 and the receiver in front for a client behind a gateway; an unknown id writes nothing.
\<close>

theorem queued_sends_written:
  assumes "tc_running c" "tc_queue c = MsgQueue" "sends \<noteq> []"
    and "\<forall>(p, i, g)\<in>set sends. p \<noteq> [] \<and> find_session i c \<noteq> None"
  shows "\<exists>q. onRunCheck os ev (c\<lparr>tc_queue := fold pushMsg (map send_action sends) (tc_queue c)\<rparr>) w =
    Some (c\<lparr>tc_queue := q\<rparr>, fold (write_send ev c) sends w)"
proof -
  have q: "\<exists>e. fold pushMsg (map send_action sends) MsgQueue = \<lparr>currQueue = 0, qevent = e, msgQueue = [map send_action sends, []]\<rparr>"
    using fold_pushMsg [of "map send_action sends" "EventImpl False" "[]"] by (simp add: MsgQueue_def)
  then obtain e where e: "fold pushMsg (map send_action sends) (tc_queue c) =
      \<lparr>currQueue = 0, qevent = e, msgQueue = [map send_action sends, []]\<rparr>" using assms(2) by auto
  let ?c = "c\<lparr>tc_queue := \<lparr>currQueue = 1, qevent = e, msgQueue = [map send_action sends, []]\<rparr>\<rparr>"
  have "onRunCheck os ev (c\<lparr>tc_queue := fold pushMsg (map send_action sends) (tc_queue c)\<rparr>) w =
      run_actions os ev (map send_action sends) ?c w"
    using assms(1,3) unfolding e by (simp add: onRunCheck_def fetchMsg_def)
  also have "\<dots> = Some (?c, fold (write_send ev ?c) sends w)"
    by (rule run_sends) (use assms(4) in simp)
  finally show ?thesis by auto
qed

theorem queued_sends_written_witness:
  "\<exists>q. onRunCheck script_os test_ev (test_connected\<lparr>tc_queue := fold pushMsg (map send_action [([7, 8], 0x100000, 0x01020304), ([9], 0x100000, 0xFFFFFFFF)]) (tc_queue test_connected)\<rparr>) [] =
     Some (test_connected\<lparr>tc_queue := q\<rparr>, [[1, 0], [4, 3, 2, 1], [7, 8], [9]])"
proof -
  obtain ts cd where f: "find_session 0x100000 test_connected = Some (Some (0, ts, cd))"
    using tc_connect_ok(2) [OF test_connect(1) _ test_connect(2)] by (auto simp: test_client_eq)
  have "fold (write_send test_ev test_connected) [([7, 8], 0x100000, 0x01020304), ([9], 0x100000, 0xFFFFFFFF)] [] =
      [[1, 0], [4, 3, 2, 1], [7, 8], [9]]" using f by (simp add: write_send_def wire_def test_ev_def le32_def le16_def)
  moreover have "tc_running test_connected" "tc_queue test_connected = MsgQueue"
    by (simp_all add: test_connected_def tc_connect_def test_ev_def test_client_eq Let_def)
  ultimately show ?thesis
    using queued_sends_written [of test_connected "[([7, 8], 0x100000, 0x01020304), ([9], 0x100000, 0xFFFFFFFF)]" script_os test_ev "[]"] f
    by simp
qed

text \<open>
  C35. After a session has disconnected its slot still points to the deleted socket: every later action
  on its id (closing it, sending to it, changing its handler) uses freed memory.
\<close>

theorem disconnected_session_dangles:
  assumes "client_ok c" "find_session i c = Some (Some (s, ts, cd))"
    and "onClientEvent os ev hs True s c w = Some (c', w')"
  shows "find_session i c' = None \<and> close2 os i c' w'' = None \<and> setHandler hs i eh c' w'' = None
    \<and> (packet \<noteq> [] \<longrightarrow> run_action os ev (ActionSend packet i gid) c' w'' = None)"
proof -
  have c': "c' = c\<lparr>tc_store := (tc_store c)(s := None)\<rparr>" by (rule onClientEvent_store [OF assms(3)])
  have "find_session i c' = None"
    using assms(2) by (auto simp: find_session_def c' Let_def split: if_splits option.splits)
  then show ?thesis by (simp add: close2_def setHandler_def run_action_def send2_def send2_triple_def)
qed

definition no_handlers :: "'w handlers" where
  "no_handlers = \<lparr>h_onRead = \<lambda>h s b w. (False, w), h_onDisconnect = \<lambda>h s w. w, h_destroy = \<lambda>h w. w\<rparr>"

theorem disconnected_session_dangles_witness:
  "\<exists>c' w'. onClientEvent script_os test_ev no_handlers True 0 test_connected [] = Some (c', w') \<and> close2 script_os 0x100000 c' w' = None"
proof -
  obtain ts cd where f: "find_session 0x100000 test_connected = Some (Some (0, ts, cd))"
    using tc_connect_ok(2) [OF test_connect(1) _ test_connect(2)] by (auto simp: test_client_eq)
  have ok: "client_ok test_connected" using tc_connect_ok(1) [OF test_connect(1) _ test_connect(2)] by (simp add: test_client_eq)
  obtain c' w' where e: "onClientEvent script_os test_ev no_handlers True 0 test_connected [] = Some (c', w')"
    using find_session_Some(2) [OF f] by (auto simp: onClientEvent_def tc_remove_def Let_def)
  show ?thesis using disconnected_session_dangles [OF ok f e] e by blast
qed

text \<open>
  The action queue is never emptied: \<open>onRunCheck\<close> does not end the fetch, so that the buffer it ran
  is filled further the next time but one, and its actions are run again. On a running client with
  an empty queue, three rounds of pushing one action and checking run \<open>a\<close>, then \<open>b\<close>, then \<open>a\<close> again and
  \<open>d\<close>. Closing through \<open>TcpClient::close\<close> queues nothing at all.
\<close>

theorem actions_run_again:
  assumes "tc_running c" "tc_queue c = MsgQueue"
    and "onRunCheck os ev (c\<lparr>tc_queue := pushMsg (Some a) (tc_queue c)\<rparr>) w = Some (c1, w1)"
    and "onRunCheck os ev (c1\<lparr>tc_queue := pushMsg (Some b) (tc_queue c1)\<rparr>) w1 = Some (c2, w2)"
  shows "(\<exists>q. onRunCheck os ev (c2\<lparr>tc_queue := pushMsg (Some d) (tc_queue c2)\<rparr>) w2 =
      run_actions os ev [Some a, Some d] (c2\<lparr>tc_queue := q\<rparr>) w2) \<and> tc_close True i c = c"
proof -
  let ?e = "\<lparr>eauto = False, estate = True\<rparr>"
  have "run_actions os ev [Some a] (c\<lparr>tc_queue := \<lparr>currQueue = 1, qevent = ?e, msgQueue = [[Some a], []]\<rparr>\<rparr>) w = Some (c1, w1)"
    using assms(1-3) by (simp add: onRunCheck_def pushMsg_def pushMsgNoLock_def fetchMsg_def MsgQueue_def EventImpl_def setImpl_def)
  from run_actions_queue [OF this] have q1: "tc_queue c1 = \<lparr>currQueue = 1, qevent = ?e, msgQueue = [[Some a], []]\<rparr>" "tc_running c1"
    using assms(1) by simp_all
  have "run_actions os ev [Some b] (c1\<lparr>tc_queue := \<lparr>currQueue = 0, qevent = ?e, msgQueue = [[Some a], [Some b]]\<rparr>\<rparr>) w1 = Some (c2, w2)"
    using assms(4) q1 by (simp add: onRunCheck_def pushMsg_def pushMsgNoLock_def fetchMsg_def setImpl_def)
  from run_actions_queue [OF this] have "tc_queue c2 = \<lparr>currQueue = 0, qevent = ?e, msgQueue = [[Some a], [Some b]]\<rparr>" "tc_running c2"
    using q1(2) by simp_all
  then show ?thesis
    by (auto simp: onRunCheck_def pushMsg_def pushMsgNoLock_def fetchMsg_def setImpl_def tc_close_def)
qed

theorem actions_run_again_witness:
  "\<exists>c1 c2 q. onRunCheck script_os test_ev (test_client\<lparr>tc_queue := pushMsg (Some (ActionClose 1 False)) MsgQueue\<rparr>) [] = Some (c1, [])
    \<and> onRunCheck script_os test_ev (c1\<lparr>tc_queue := pushMsg (Some (ActionClose 2 False)) (tc_queue c1)\<rparr>) [] = Some (c2, [])
    \<and> onRunCheck script_os test_ev (c2\<lparr>tc_queue := pushMsg (Some (ActionClose 3 False)) (tc_queue c2)\<rparr>) [] =
        run_actions script_os test_ev [Some (ActionClose 1 False), Some (ActionClose 3 False)] (c2\<lparr>tc_queue := q\<rparr>) []"
proof -
  let ?e = "\<lparr>eauto = False, estate = True\<rparr>" and ?a = "Some (ActionClose 1 False)" and ?b = "Some (ActionClose 2 False)"
  define c1 where "c1 = test_client\<lparr>tc_queue := \<lparr>currQueue = 1, qevent = ?e, msgQueue = [[?a], []]\<rparr>\<rparr>"
  define c2 where "c2 = test_client\<lparr>tc_queue := \<lparr>currQueue = 0, qevent = ?e, msgQueue = [[?a], [?b]]\<rparr>\<rparr>"
  note defs = onRunCheck_def pushMsg_def pushMsgNoLock_def fetchMsg_def setImpl_def run_action_def close2_def find_session_def test_client_eq
  have r1: "onRunCheck script_os test_ev (test_client\<lparr>tc_queue := pushMsg ?a (tc_queue test_client)\<rparr>) [] = Some (c1, [])"
    by (simp add: defs c1_def MsgQueue_def EventImpl_def)
  have r2: "onRunCheck script_os test_ev (c1\<lparr>tc_queue := pushMsg ?b (tc_queue c1)\<rparr>) [] = Some (c2, [])"
    by (simp add: defs c1_def c2_def)
  have q: "tc_running test_client" "tc_queue test_client = MsgQueue" by (simp_all add: test_client_eq)
  show ?thesis using actions_run_again [OF q r1 r2] r1 r2 q(2) by fastforce
qed

end
