(* ===== verification/Time_Util.thy ===== *)
theory Time_Util
  imports Prelude
begin

text \<open>
  \<open>System/TimeUtil\<close>: the cached time of day with the boundaries of the current day, in 32-bit seconds.
  The time, the time zone (seconds west of Greenwich, converted to \<open>UInt32\<close>) and \<open>localtime\<close> are
  arguments.
\<close>

section \<open>Operations\<close>

record time_util =
  tu_now :: UInt32
  tu_thisDay :: UInt32
  tu_nextDay :: UInt32
  tu_weekDay :: UInt8
  tu_monthDay :: UInt8
  tu_month :: UInt8
  tu_testMonthDay :: UInt8

text \<open>The fields of \<open>struct tm\<close> that are used: day of the week, day of the month, month.\<close>

type_synonym localtime = "UInt32 \<Rightarrow> int \<times> int \<times> int"

definition SharpDay_at :: "UInt32 \<Rightarrow> int \<Rightarrow> UInt32 \<Rightarrow> UInt32" where
  "SharpDay_at tzone c tm =
     (let tmptm = (tm + tzone) div 86400 * 86400 + tzone;
          tmptm = (if tm < tmptm then tmptm - 86400 else if tmptm + 86400 \<le> tm then tmptm + 86400 else tmptm) in
      tmptm + word_of_int (c * 86400))"

definition SharpDay :: "int \<Rightarrow> time_util \<Rightarrow> UInt32" where
  "SharpDay c tu = tu_thisDay tu + word_of_int (c * 86400)"

definition SharpHour :: "int \<Rightarrow> time_util \<Rightarrow> UInt32" where
  "SharpHour c tu = (tu_now tu + word_of_int (c * 3600)) div 3600 * 3600"

definition SharpFourtyMin :: "int \<Rightarrow> time_util \<Rightarrow> UInt32" where
  "SharpFourtyMin c tu = (tu_now tu + word_of_int (c * 2400)) div 2400 * 2400"

definition SharpMinute :: "int \<Rightarrow> time_util \<Rightarrow> UInt32" where
  "SharpMinute c tu = (tu_now tu + word_of_int (c * 60)) div 60 * 60"

definition GetTick :: "(int \<times> int) option \<Rightarrow> UInt64" where
  "GetTick tv = (case tv of None \<Rightarrow> 0 | Some (tv_sec, tv_usec) \<Rightarrow> word_of_int (tv_sec * 1000000 + tv_usec))"

definition tu_Update :: "localtime \<Rightarrow> UInt32 \<Rightarrow> time_util \<Rightarrow> bool \<times> time_util" where
  "tu_Update localtime time tu =
     (let tu1 = tu\<lparr>tu_now := time\<rparr> in
      if time < tu_nextDay tu then (False, tu1)
      else
        (let days = (time - tu_nextDay tu) div 86400;
             thisDay = tu_nextDay tu + days * 86400;
             (wday, mday, mon) = localtime time in
         (True, tu1\<lparr>tu_thisDay := thisDay, tu_nextDay := thisDay + 86400, tu_weekDay := word_of_int wday,
            tu_monthDay := word_of_int mday, tu_month := word_of_int mon\<rparr>)))"

text \<open>
  The constructor, with the results of its two calls of \<open>time\<close>; the members it does not set start out
  as the argument \<open>junk\<close>.
\<close>

definition TimeUtil :: "UInt32 \<Rightarrow> localtime \<Rightarrow> UInt32 \<Rightarrow> UInt32 \<Rightarrow> time_util \<Rightarrow> time_util" where
  "TimeUtil tzone localtime time0 time junk =
     (let tu = snd (tu_Update localtime time (junk\<lparr>tu_nextDay := SharpDay_at tzone 0 time0\<rparr>)) in
      tu\<lparr>tu_testMonthDay := tu_monthDay tu\<rparr>)"

section \<open>Day boundaries\<close>

lemma uint_in_range: "0 \<le> x \<Longrightarrow> x < 2 ^ 32 \<Longrightarrow> uint (word_of_int x :: UInt32) = x"
  by (simp add: uint_word_of_int)

lemma day_floor: "a div 86400 * 86400 \<le> a" "a < a div 86400 * 86400 + (86400 :: int)"
  using div_mult_mod_eq [of a 86400] pos_mod_bound [of 86400 a] pos_mod_sign [of 86400 a] by linarith+

definition day_start :: "int \<Rightarrow> int \<Rightarrow> int \<Rightarrow> bool" where
  "day_start z d t \<longleftrightarrow> (d - z) mod 86400 = 0 \<and> d \<le> t \<and> t < d + 86400"

lemma day_start_shift:
  fixes t z :: int
  assumes "- 43200 \<le> z" "z \<le> 43200"
  defines "x \<equiv> (t + z) div 86400 * 86400 + z"
  shows "day_start z (if t < x then x - 86400 else if x + 86400 \<le> t then x + 86400 else x) t"
proof -
  define q where "q = (t + z) div 86400"
  have q: "q * 86400 \<le> t + z" "t + z < q * 86400 + 86400" unfolding q_def by (rule day_floor)+
  have "x = q * 86400 + z" by (simp add: x_def q_def)
  then have m: "(x - z) mod 86400 = 0" "(x - 86400 - z) mod 86400 = 0" "(x + 86400 - z) mod 86400 = 0"
    and b: "x \<le> t + 2 * z" "t + 2 * z < x + 86400" using q by (simp_all add: algebra_simps)
  show ?thesis using m b assms(1,2) by (simp add: day_start_def)
qed

lemma SharpDay_at_int:
  assumes z: "- 43200 \<le> z" "z \<le> 43200" and t: "172800 \<le> uint tm" "uint tm < 2 ^ 32 - 172800"
  defines "x \<equiv> (uint tm + z) div 86400 * 86400 + z"
  shows "SharpDay_at (word_of_int z) 0 tm =
    word_of_int (if uint tm < x then x - 86400 else if x + 86400 \<le> uint tm then x + 86400 else x)"
proof -
  let ?z = "word_of_int z :: UInt32"
  have tz: "tm + ?z = word_of_int (uint tm + z)" by simp
  have a: "uint (tm + ?z) = uint tm + z" unfolding tz using z t by (intro uint_in_range) simp_all
  have "(tm + ?z) div 86400 = word_of_int ((uint tm + z) div 86400)"
    by (simp add: word_div_def a)
  then have w: "(tm + ?z) div 86400 * 86400 + ?z = word_of_int x"
    by (simp add: x_def)
  have b: "x \<le> uint tm + 2 * z" "uint tm + 2 * z < x + 86400" 
    using day_floor [of "uint tm + z"] unfolding x_def by linarith+
  have x: "uint (word_of_int x :: UInt32) = x" "uint (word_of_int x + 86400 :: UInt32) = x + 86400"
    using b z t uint_in_range [of x] uint_in_range [of "x + 86400"] by (simp_all add: wi_hom_syms)
  show ?thesis unfolding SharpDay_at_def w Let_def word_less_def word_le_def x
    by (simp add: wi_hom_syms)
qed


lemma SharpDay_at_spec:
  assumes "- 43200 \<le> z" "z \<le> 43200" "172800 \<le> uint tm" "uint tm < 2 ^ 32 - 172800"
  shows "day_start z (uint (SharpDay_at (word_of_int z) 0 tm)) (uint tm)"
proof -
  let ?x = "(uint tm + z) div 86400 * 86400 + z"
  let ?r = "if uint tm < ?x then ?x - 86400 else if ?x + 86400 \<le> uint tm then ?x + 86400 else ?x"
  have d: "day_start z ?r (uint tm)" by (rule day_start_shift [OF assms(1,2)])
  then have "uint (word_of_int ?r :: UInt32) = ?r" using assms(3,4) by (intro uint_in_range) (auto simp: day_start_def)
  then show ?thesis using d unfolding SharpDay_at_int [OF assms] by simp
qed

lemma Update_day_start:
  assumes "(uint (tu_nextDay tu) - z) mod 86400 = 0" "uint (tu_nextDay tu) \<le> uint time" "uint time < 2 ^ 32 - 172800"
    and "tu_Update lt time tu = (r, tu')"
  shows "r \<and> day_start z (uint (tu_thisDay tu')) (uint time) \<and> uint (tu_nextDay tu') = uint (tu_thisDay tu') + 86400"
proof -
  let ?n = "uint (tu_nextDay tu)" and ?d = "(uint time - uint (tu_nextDay tu)) div 86400"
  have n: "\<not> time < tu_nextDay tu" using assms(2) by (simp add: word_less_def)
  have "uint (time - tu_nextDay tu) = uint time - ?n" using assms(2) by (simp add: uint_sub_if')
  then have "(time - tu_nextDay tu) div 86400 = word_of_int ?d" by (simp add: word_div_def)
  then have w: "tu_nextDay tu + (time - tu_nextDay tu) div 86400 * 86400 = word_of_int (?n + ?d * 86400)"
    by (simp add: wi_hom_syms)
  have b: "?n + ?d * 86400 \<le> uint time" "uint time < ?n + ?d * 86400 + 86400" "0 \<le> ?d"
    using day_floor [of "uint time - ?n"] assms(2) by (linarith, linarith, simp add: pos_imp_zdiv_nonneg_iff)
  have x: "uint (word_of_int (?n + ?d * 86400) :: UInt32) = ?n + ?d * 86400"
    "uint (word_of_int (?n + ?d * 86400) + 86400 :: UInt32) = ?n + ?d * 86400 + 86400"
    using b assms(3) uint_in_range [of "?n + ?d * 86400"] uint_in_range [of "?n + ?d * 86400 + 86400"] by (simp_all add: wi_hom_syms)
  have "?n + ?d * 86400 - z = ?n - z + ?d * 86400" by simp
  then have "(?n + ?d * 86400 - z) mod 86400 = 0" using assms(1) by (metis mod_mult_self1)
  then show ?thesis using assms(4) n b w x by (auto simp: tu_Update_def Let_def day_start_def split: prod.splits)
qed

section \<open>Properties\<close>

text \<open>
  Day boundaries: for a time zone of at most twelve hours and a time that is two days away from the
  ends of the 32-bit range, the constructor finds the local midnight before the time, and every later
  update at a time not before the next midnight moves on to the midnight before that time, however
  many days have passed; the next day starts 86400 seconds later.
\<close>

theorem day_boundaries:
  assumes "- 43200 \<le> z" "z \<le> 43200" "172800 \<le> uint time0" "time0 \<le> time" "uint time < 2 ^ 32 - 172800"
    and "tu = TimeUtil (word_of_int z) lt time0 time junk"
    and "tu_nextDay tu \<le> later" "uint later < 2 ^ 32 - 172800" "tu_Update lt later tu = (r, tu')"
  shows "day_start z (uint (tu_thisDay tu)) (uint time) \<and> uint (tu_nextDay tu) = uint (tu_thisDay tu) + 86400
    \<and> r \<and> day_start z (uint (tu_thisDay tu')) (uint later) \<and> uint (tu_nextDay tu') = uint (tu_thisDay tu') + 86400"
proof -
  let ?n = "SharpDay_at (word_of_int z) 0 time0"
  have n: "day_start z (uint ?n) (uint time0)"
    by (rule SharpDay_at_spec [OF assms(1-3)]) (use assms(4,5) in \<open>simp add: word_le_def\<close>)
  obtain r1 tu1 where u: "tu_Update lt time (junk\<lparr>tu_nextDay := ?n\<rparr>) = (r1, tu1)" by (metis surj_pair)
  have 1: "day_start z (uint (tu_thisDay tu)) (uint time)" "uint (tu_nextDay tu) = uint (tu_thisDay tu) + 86400"
    using Update_day_start [of "junk\<lparr>tu_nextDay := ?n\<rparr>" z time lt r1 tu1] n u assms(4-6)
    by (auto simp: TimeUtil_def day_start_def word_le_def)
  then have "uint (tu_nextDay tu) - z = uint (tu_thisDay tu) - z + 86400" by simp
  then have "(uint (tu_nextDay tu) - z) mod 86400 = 0" using 1(1) by (metis day_start_def mod_add_self2)
  then show ?thesis
    using 1 Update_day_start [of tu z later lt r tu'] assms(7-9) by (simp add: word_le_def)
qed

theorem day_boundaries_witness:
  "let tu = TimeUtil (word_of_int (- 28800)) (\<lambda>t. (0, 1, 0)) 1400000000 1400000001 \<lparr>tu_now = 0, tu_thisDay = 0, tu_nextDay = 0, tu_weekDay = 0,
       tu_monthDay = 0, tu_month = 0, tu_testMonthDay = 0\<rparr> in
   day_start (- 28800) (uint (tu_thisDay tu)) 1400000001
   \<and> day_start (- 28800) (uint (tu_thisDay (snd (tu_Update (\<lambda>t. (0, 1, 0)) 1400200000 tu)))) 1400200000"
proof -
  let ?tu = "TimeUtil (word_of_int (- 28800)) (\<lambda>t. (0, 1, 0)) 1400000000 1400000001 \<lparr>tu_now = 0, tu_thisDay = 0, tu_nextDay = 0, tu_weekDay = 0,
       tu_monthDay = 0, tu_month = 0, tu_testMonthDay = 0\<rparr>"
  have n: "tu_nextDay ?tu = 1400083200"
    by (simp add: TimeUtil_def tu_Update_def SharpDay_at_def Let_def)
  obtain r tu' where u: "tu_Update (\<lambda>t. (0, 1, 0)) 1400200000 ?tu = (r, tu')" by (metis surj_pair)
  show ?thesis using day_boundaries [OF _ _ _ _ _ refl _ _ u] n u by (simp add: day_start_def)
qed

text \<open>
  Thirteen hours east of Greenwich the start of the day is wrong: in the first two hours of a day
  the midnight before the last one is returned.
\<close>

lemma day_start_far_east_wrong:
  "SharpDay_at (word_of_int (- 46800)) 0 1400068400 = 1399978800 \<and> \<not> day_start (- 46800) 1399978800 1400068400"
  by (simp add: SharpDay_at_def day_start_def)

end
