(* ===== verification/Worker_Timers.thy ===== *)
theory Worker_Timers
  imports Prelude
begin

text \<open>
  The timers of \<open>Worker/Base\<close>: named timers on events of libevent, with an optional first interval that
  differs from the period. The event functions of libevent are parameters over a world \<open>'w\<close>; \<open>None\<close> as
  the result of an operation stands for undefined behaviour (the use of a null event).
\<close>

section \<open>Operations\<close>

text \<open>An event is a number; \<open>new_event persist id\<close> creates one whose callback is the timer \<open>id\<close>.\<close>

record 'w event_api =
  new_event :: "bool \<Rightarrow> int \<Rightarrow> 'w \<Rightarrow> nat option \<times> 'w"
  assign_event :: "nat \<Rightarrow> bool \<Rightarrow> int \<Rightarrow> 'w \<Rightarrow> 'w"
  add_event :: "nat \<Rightarrow> int \<times> int \<Rightarrow> 'w \<Rightarrow> 'w"
  del_event :: "nat \<Rightarrow> 'w \<Rightarrow> 'w"
  free_event :: "nat \<Rightarrow> 'w \<Rightarrow> 'w"
  loopbreak :: "'w \<Rightarrow> 'w"

record timer_data =
  t_ev :: nat
  t_nextInt :: UInt32
  t_data :: nat

record worker =
  w_running :: bool
  w_timers :: "int \<rightharpoonup> timer_data"

definition timeval :: "UInt32 \<Rightarrow> int \<times> int" where
  "timeval interval = (uint (interval div 1000), uint (interval mod 1000 * 1000))"

definition addTimer ::
  "'w event_api \<Rightarrow> bool \<Rightarrow> int \<Rightarrow> UInt32 \<Rightarrow> UInt32 \<Rightarrow> nat \<Rightarrow> worker \<Rightarrow> 'w \<Rightarrow> (bool \<times> worker \<times> 'w) option" where
  "addTimer ev mem_ok i interval firstInterval dat wk w =
     (if w_timers wk i \<noteq> None then Some (False, wk, w)
      else if \<not> mem_ok then Some (False, wk, w)
      else if firstInterval \<noteq> 0 then
        (case new_event ev False i w of
           (None, w1) \<Rightarrow> Some (False, wk, w1)
         | (Some e, w1) \<Rightarrow>
             Some (True, wk\<lparr>w_timers := (w_timers wk)(i \<mapsto> \<lparr>t_ev = e, t_nextInt = interval, t_data = dat\<rparr>)\<rparr>,
               add_event ev e (timeval firstInterval) w1))
      else
        (case new_event ev True i w of
           (None, w1) \<Rightarrow> None
         | (Some e, w1) \<Rightarrow>
             Some (True, wk\<lparr>w_timers := (w_timers wk)(i \<mapsto> \<lparr>t_ev = e, t_nextInt = 0, t_data = dat\<rparr>)\<rparr>,
               add_event ev e (timeval interval) w1)))"

definition delTimer :: "'w event_api \<Rightarrow> int \<Rightarrow> worker \<Rightarrow> 'w \<Rightarrow> bool \<times> worker \<times> 'w" where
  "delTimer ev i wk w =
     (case w_timers wk i of
        None \<Rightarrow> (False, wk, w)
      | Some td \<Rightarrow>
          (True, wk\<lparr>w_timers := (w_timers wk)(i := None)\<rparr>, free_event ev (t_ev td) (del_event ev (t_ev td) w)))"

text \<open>
  The callback of the timer \<open>i\<close>, with the virtual method \<open>onTimer\<close> as a parameter: a stopped worker leaves
  the loop; after the first interval the event becomes periodic.
\<close>

definition timer_callback ::
  "'w event_api \<Rightarrow> (int \<Rightarrow> nat \<Rightarrow> worker \<Rightarrow> 'w \<Rightarrow> worker \<times> 'w) \<Rightarrow> int \<Rightarrow> worker \<Rightarrow> 'w \<Rightarrow> (worker \<times> 'w) option" where
  "timer_callback ev onTimer i wk w =
     (case w_timers wk i of
        None \<Rightarrow> None
      | Some td \<Rightarrow>
          if \<not> w_running wk then Some (wk, loopbreak ev w)
          else
            (let (wk1, w1) =
               (if t_nextInt td \<noteq> 0
                then (wk\<lparr>w_timers := (w_timers wk)(i \<mapsto> td\<lparr>t_nextInt := 0\<rparr>)\<rparr>,
                      add_event ev (t_ev td) (timeval (t_nextInt td)) (assign_event ev (t_ev td) True i w))
                else (wk, w)) in
             Some (onTimer i (t_data td) wk1 w1)))"

definition worker_stop :: "worker \<Rightarrow> worker" where
  "worker_stop wk = wk\<lparr>w_running := False\<rparr>"

section \<open>Lemmas\<close>

text \<open>A \<open>timeval\<close> made from milliseconds is normalised and has exactly their length.\<close>

lemma timeval_exact:
  "case timeval ms of (s, us) \<Rightarrow> 0 \<le> us \<and> us < 1000000 \<and> s * 1000000 + us = uint ms * 1000"
proof -
  have m: "uint (ms mod 1000 * 1000) = uint ms mod 1000 * 1000"
  proof -
    have "uint ms mod 1000 * 1000 < 2 ^ 32" using pos_mod_bound [of 1000 "uint ms"] by simp
    then show ?thesis by (simp add: uint_word_ariths(3) uint_mod)
  qed
  have "uint ms = uint ms div 1000 * 1000 + uint ms mod 1000" by simp
  then have "uint ms * 1000 = uint ms div 1000 * 1000000 + uint ms mod 1000 * 1000" by linarith
  then show ?thesis using pos_mod_bound [of 1000 "uint ms"] by (simp add: timeval_def m uint_div)
qed

text \<open>The worker with a timer \<open>i\<close> on the event \<open>e\<close> whose next interval is \<open>n\<close>.\<close>

definition with_timer :: "int \<Rightarrow> nat \<Rightarrow> UInt32 \<Rightarrow> nat \<Rightarrow> worker \<Rightarrow> worker" where
  "with_timer i e n d wk = wk\<lparr>w_timers := (w_timers wk)(i \<mapsto> \<lparr>t_ev = e, t_nextInt = n, t_data = d\<rparr>)\<rparr>"

text \<open>
  When libevent cannot create the event, \<open>addTimer\<close> fails cleanly only for a timer with a first
  interval: for a purely periodic one the test looks at the wrong pointer and the null event is armed.
\<close>

lemma periodic_null_event:
  assumes "w_timers wk i = None" "new_event ev (first = 0) i w = (None, w1)"
  shows "addTimer ev True i period first d wk w = (if first = 0 then None else Some (False, wk, w1))"
  using assms by (cases "first = 0") (simp_all add: addTimer_def)

section \<open>Properties\<close>

text \<open>
  The life of a timer on a running worker: \<open>addTimer\<close> registers it and arms its event for the first
  interval (the period, if there is none); a second \<open>addTimer\<close> with the id is refused; the first
  callback after a separate first interval re-arms the event periodically before it calls \<open>onTimer\<close>,
  later ones do not; \<open>delTimer\<close> gives back the worker as it was. The armed time is exact to the
  millisecond.
\<close>

theorem timer_life:
  assumes "w_timers wk i = None" "w_running wk" "new_event ev (first = 0) i w = (Some e, w1)"
  shows "addTimer ev True i period first d wk w =
      Some (True, with_timer i e (if first = 0 then 0 else period) d wk, add_event ev e (timeval (if first = 0 then period else first)) w1)
    \<and> addTimer ev m i p f d' (with_timer i e n d wk) w' = Some (False, with_timer i e n d wk, w')
    \<and> timer_callback ev onTimer i (with_timer i e n d wk) w' =
        Some (onTimer i d (with_timer i e 0 d wk)
          (if n = 0 then w' else add_event ev e (timeval n) (assign_event ev e True i w')))
    \<and> delTimer ev i (with_timer i e n d wk) w' = (True, wk, free_event ev e (del_event ev e w'))
    \<and> (case timeval n of (s, us) \<Rightarrow> 0 \<le> us \<and> us < 1000000 \<and> s * 1000000 + us = uint n * 1000)"
proof -
  have "(w_timers wk)(i := None) = w_timers wk" using assms(1) by auto
  then have "wk\<lparr>w_timers := (w_timers wk)(i := None)\<rparr> = wk" by simp
  then show ?thesis
    using assms timeval_exact [of n] by (auto simp: addTimer_def timer_callback_def delTimer_def with_timer_def)
qed

text \<open>An event library whose world is the list of calls that arm events.\<close>

definition log_events :: "(nat \<times> int \<times> int) list event_api" where
  "log_events = \<lparr>new_event = \<lambda>p i w. (Some 4, w), assign_event = \<lambda>e p i w. w, add_event = \<lambda>e tv w. w @ [(e, tv)],
     del_event = \<lambda>e w. w, free_event = \<lambda>e w. w, loopbreak = \<lambda>w. w\<rparr>"

theorem timer_life_witness:
  "\<exists>wk1. addTimer log_events True (- 1) 50 1500 0 \<lparr>w_running = True, w_timers = Map.empty\<rparr> [] = Some (True, wk1, [(4, 1, 500000)])
    \<and> delTimer log_events (- 1) wk1 [] = (True, \<lparr>w_running = True, w_timers = Map.empty\<rparr>, [])"
  using timer_life [of "\<lparr>w_running = True, w_timers = Map.empty\<rparr>" "- 1" log_events 1500 "[]" 4 "[]" 50 0 _ _ _ _ 50 "[]"]
  by (simp add: log_events_def timeval_def)

end
