(* ===== verification/Utf.thy ===== *)
theory Utf
  imports Prelude
begin

text \<open>
  The conversions between Unicode encodings of \<open>System/Utf.h\<close> and \<open>System/Utf.inl\<close>, and the string class
  \<open>System/String.cpp\<close> that is built on them. A pair of input iterators is the list of the elements
  between them, an output iterator is a back inserter: an encoder returns the elements it appends.
  \<open>None\<close> is a read at the end iterator. The facet of a locale is a record of its two functions;
  \<open>char\<close> is signed, \<open>wchar_t\<close> has four bytes on Unix and two on Windows, which is the argument \<open>wsize\<close>.
\<close>

section \<open>UTF-8\<close>

definition trailing :: "nat list" where
  "trailing = replicate 192 0 @ replicate 32 1 @ replicate 16 2 @ replicate 8 3 @ replicate 4 4 @ replicate 4 5"

definition offsets :: "UInt32 list" where
  "offsets = [0x00000000, 0x00003080, 0x000E2080, 0x03C82080, 0xFA082080, 0x82082080]"

text \<open>The switch of \<open>Utf<8>::Decode\<close> falls through from the number of trailing bytes to zero.\<close>

fun decode_switch :: "nat \<Rightarrow> UInt32 \<Rightarrow> bytes \<Rightarrow> UInt32 \<times> bytes" where
  "decode_switch _ out [] = (out, [])"
| "decode_switch 0 out (b # bs) = (out + ucast b, bs)"
| "decode_switch (Suc n) out (b # bs) = decode_switch n (push_bit 6 (out + ucast b)) bs"

definition utf8_Decode :: "bytes \<Rightarrow> UInt32 \<Rightarrow> (UInt32 \<times> bytes) option" where
  "utf8_Decode bs replacement = (case bs of [] \<Rightarrow> None | b # _ \<Rightarrow>
     let trailingBytes = trailing ! unat b in
     if trailingBytes < length bs
     then (let (out, rest) = decode_switch trailingBytes 0 bs in Some (out - offsets ! trailingBytes, rest))
     else Some (replacement, []))"

definition firstBytes :: "UInt8 list" where
  "firstBytes = [0x00, 0x00, 0xC0, 0xE0, 0xF0, 0xF8, 0xFC]"

definition bytesToWrite :: "UInt32 \<Rightarrow> nat" where
  "bytesToWrite inp = (if inp < 0x80 then 1 else if inp < 0x800 then 2 else if inp < 0x10000 then 3
     else if inp \<le> 0x0010FFFF then 4 else 1)"

text \<open>The second switch of \<open>Encode\<close>, from the last byte to the first; \<open>k\<close> bytes are left to be produced.\<close>

fun encode_switch :: "nat \<Rightarrow> nat \<Rightarrow> UInt32 \<Rightarrow> bytes" where
  "encode_switch n 0 inp = []"
| "encode_switch n (Suc 0) inp = [ucast (inp OR ucast (firstBytes ! n))]"
| "encode_switch n (Suc (Suc k)) inp =
     encode_switch n (Suc k) (drop_bit 6 inp) @ [ucast ((inp OR 0x80) AND 0xBF)]"

definition utf8_Encode :: "UInt32 \<Rightarrow> UInt8 \<Rightarrow> bytes" where
  "utf8_Encode inp replacement =
    (if inp > 0x0010FFFF \<or> (inp \<ge> 0xD800 \<and> inp \<le> 0xDBFF)
     then (if replacement \<noteq> 0 then [replacement] else [])
     else encode_switch (bytesToWrite inp) (bytesToWrite inp) inp)"

lemma length_decode_switch: "n < length bs \<Longrightarrow> length (snd (decode_switch n out bs)) = length bs - Suc n"
  by (induction n out bs rule: decode_switch.induct) auto

lemma utf8_Decode_progress:
  assumes "utf8_Decode bs r = Some (c, rest)"
  shows "length rest < length bs"
proof (cases bs)
  case Nil
  with assms show ?thesis by (simp add: utf8_Decode_def)
next
  case (Cons b bs')
  show ?thesis
  proof (cases "trailing ! unat b < length bs")
    case True
    then have "rest = snd (decode_switch (trailing ! unat b) 0 bs)"
      using assms Cons by (simp add: utf8_Decode_def case_prod_unfold Let_def)
    with length_decode_switch [OF True] Cons show ?thesis by simp
  next
    case False
    with assms Cons show ?thesis by (simp add: utf8_Decode_def)
  qed
qed

text \<open>
  The body shared by the conversion loops over UTF-8: decode a character, append what \<open>out\<close> gives for it.
\<close>

function utf8_loop :: "(UInt32 \<Rightarrow> 'b list) \<Rightarrow> bytes \<Rightarrow> 'b list" where
  "utf8_loop out bs = (case utf8_Decode bs 0 of None \<Rightarrow> [] | Some (c, rest) \<Rightarrow> out c @ utf8_loop out rest)"
  by pat_completeness auto
termination
  by (relation "measure (\<lambda>(_, bs). length bs)") (auto dest: utf8_Decode_progress)

declare utf8_loop.simps [simp del]

definition utf8_Next :: "bytes \<Rightarrow> bytes option" where
  "utf8_Next bs = map_option snd (utf8_Decode bs 0)"

function utf8_Count :: "bytes \<Rightarrow> nat" where
  "utf8_Count bs = (case utf8_Next bs of None \<Rightarrow> 0 | Some rest \<Rightarrow> Suc (utf8_Count rest))"
  by pat_completeness auto
termination
  by (relation "measure length") (auto simp: utf8_Next_def dest: utf8_Decode_progress)

declare utf8_Count.simps [simp del]

section \<open>UTF-16\<close>

definition utf16_Decode :: "UInt16 list \<Rightarrow> UInt32 \<Rightarrow> (UInt32 \<times> UInt16 list) option" where
  "utf16_Decode ws replacement = (case ws of [] \<Rightarrow> None | first # ws' \<Rightarrow>
     if first \<ge> 0xD800 \<and> first \<le> 0xDBFF
     then (case ws' of [] \<Rightarrow> Some (replacement, [])
       | w # ws'' \<Rightarrow> let second = ucast w in
           if second \<ge> 0xDC00 \<and> second \<le> 0xDFFF
           then Some (push_bit 10 (ucast first - 0xD800) + (second - 0xDC00) + 0x0010000, ws'')
           else Some (replacement, ws''))
     else Some (ucast first, ws'))"

definition utf16_Encode :: "UInt32 \<Rightarrow> UInt16 \<Rightarrow> UInt16 list" where
  "utf16_Encode inp replacement =
    (let replaced = (if replacement \<noteq> 0 then [replacement] else []) in
     if inp < 0xFFFF
     then (if inp \<ge> 0xD800 \<and> inp \<le> 0xDFFF then replaced else [ucast inp])
     else if inp > 0x0010FFFF then replaced
     else (let inp' = inp - 0x0010000 in
       [ucast (drop_bit 10 inp' + 0xD800), ucast ((inp' AND 0x3FF) + 0xDC00)]))"

lemma utf16_Decode_progress:
  "utf16_Decode ws r = Some (c, rest) \<Longrightarrow> length rest < length ws"
  by (cases ws) (auto simp: utf16_Decode_def Let_def split: if_splits list.splits)

function utf16_loop :: "(UInt32 \<Rightarrow> 'b list) \<Rightarrow> UInt16 list \<Rightarrow> 'b list" where
  "utf16_loop out ws = (case utf16_Decode ws 0 of None \<Rightarrow> [] | Some (c, rest) \<Rightarrow> out c @ utf16_loop out rest)"
  by pat_completeness auto
termination
  by (relation "measure (\<lambda>(_, ws). length ws)") (auto dest: utf16_Decode_progress)

declare utf16_loop.simps [simp del]

definition utf16_Next :: "UInt16 list \<Rightarrow> UInt16 list option" where
  "utf16_Next ws = map_option snd (utf16_Decode ws 0)"

function utf16_Count :: "UInt16 list \<Rightarrow> nat" where
  "utf16_Count ws = (case utf16_Next ws of None \<Rightarrow> 0 | Some rest \<Rightarrow> Suc (utf16_Count rest))"
  by pat_completeness auto
termination
  by (relation "measure length") (auto simp: utf16_Next_def dest: utf16_Decode_progress)

declare utf16_Count.simps [simp del]

section \<open>UTF-32, ANSI, wide characters and Latin-1\<close>

record facet =
  widen :: "UInt8 \<Rightarrow> UInt32"
  narrow :: "UInt32 \<Rightarrow> UInt8 \<Rightarrow> UInt8"

definition utf32_Decode :: "UInt32 list \<Rightarrow> (UInt32 \<times> UInt32 list) option" where
  "utf32_Decode us = (case us of [] \<Rightarrow> None | u # us' \<Rightarrow> Some (u, us'))"

definition utf32_Encode :: "UInt32 \<Rightarrow> UInt32 \<Rightarrow> UInt32 list" where
  "utf32_Encode inp replacement = [inp]"

definition utf32_Next :: "UInt32 list \<Rightarrow> UInt32 list option" where
  "utf32_Next us = (case us of [] \<Rightarrow> None | u # us' \<Rightarrow> Some us')"

text \<open>\<open>Count\<close> subtracts the end from the beginning and converts the difference to \<open>size_t\<close>.\<close>

definition utf32_Count :: "UInt32 list \<Rightarrow> nat" where
  "utf32_Count us = size_sub 0 (length us)"

definition utf32_DecodeAnsi :: "facet \<Rightarrow> UInt8 \<Rightarrow> UInt32" where
  "utf32_DecodeAnsi loc c = widen loc c"

definition utf32_DecodeWide :: "UInt32 \<Rightarrow> UInt32" where
  "utf32_DecodeWide c = c"

definition utf32_EncodeAnsi :: "facet \<Rightarrow> UInt32 \<Rightarrow> UInt8 \<Rightarrow> bytes" where
  "utf32_EncodeAnsi loc codepoint replacement = [narrow loc codepoint replacement]"

definition utf32_EncodeWide :: "nat \<Rightarrow> UInt32 \<Rightarrow> UInt32 \<Rightarrow> UInt32 list" where
  "utf32_EncodeWide wsize codepoint replacement =
    (if wsize = 4 then [codepoint]
     else if codepoint \<le> 0xFFFF \<and> (codepoint < 0xD800 \<or> codepoint > 0xDFFF) then [codepoint]
     else if replacement \<noteq> 0 then [replacement] else [])"

text \<open>The narrow character written for a code point; \<open>'b\<close> is the width of the input element.\<close>

definition to_latin1 :: "'b::len word \<Rightarrow> UInt8 \<Rightarrow> UInt8" where
  "to_latin1 c replacement = (if unat c < 256 then ucast c else replacement)"

section \<open>The conversion loops\<close>

definition utf8_FromAnsi :: "facet \<Rightarrow> bytes \<Rightarrow> bytes" where
  "utf8_FromAnsi loc cs = concat (map (\<lambda>c. utf8_Encode (utf32_DecodeAnsi loc c) 0) cs)"

definition utf8_FromWide :: "UInt32 list \<Rightarrow> bytes" where
  "utf8_FromWide cs = concat (map (\<lambda>c. utf8_Encode (utf32_DecodeWide c) 0) cs)"

definition utf8_FromLatin1 :: "Int8 list \<Rightarrow> bytes" where
  "utf8_FromLatin1 cs = concat (map (\<lambda>c. utf8_Encode (scast c) 0) cs)"

definition utf8_ToAnsi :: "facet \<Rightarrow> UInt8 \<Rightarrow> bytes \<Rightarrow> bytes" where
  "utf8_ToAnsi loc replacement = utf8_loop (\<lambda>c. utf32_EncodeAnsi loc c replacement)"

definition utf8_ToWide :: "nat \<Rightarrow> UInt32 \<Rightarrow> bytes \<Rightarrow> UInt32 list" where
  "utf8_ToWide wsize replacement = utf8_loop (\<lambda>c. utf32_EncodeWide wsize c replacement)"

definition utf8_ToLatin1 :: "UInt8 \<Rightarrow> bytes \<Rightarrow> bytes" where
  "utf8_ToLatin1 replacement = utf8_loop (\<lambda>c. [to_latin1 c replacement])"

definition utf8_ToUtf8 :: "bytes \<Rightarrow> bytes" where
  "utf8_ToUtf8 bs = map (\<lambda>b. b) bs"

definition utf8_ToUtf16 :: "bytes \<Rightarrow> UInt16 list" where
  "utf8_ToUtf16 = utf8_loop (\<lambda>c. utf16_Encode c 0)"

definition utf8_ToUtf32 :: "bytes \<Rightarrow> UInt32 list" where
  "utf8_ToUtf32 = utf8_loop (\<lambda>c. [c])"

definition utf16_FromAnsi :: "facet \<Rightarrow> bytes \<Rightarrow> UInt16 list" where
  "utf16_FromAnsi loc cs = concat (map (\<lambda>c. utf16_Encode (utf32_DecodeAnsi loc c) 0) cs)"

definition utf16_FromWide :: "UInt32 list \<Rightarrow> UInt16 list" where
  "utf16_FromWide cs = concat (map (\<lambda>c. utf16_Encode (utf32_DecodeWide c) 0) cs)"

definition utf16_FromLatin1 :: "Int8 list \<Rightarrow> UInt16 list" where
  "utf16_FromLatin1 cs = map scast cs"

definition utf16_ToAnsi :: "facet \<Rightarrow> UInt8 \<Rightarrow> UInt16 list \<Rightarrow> bytes" where
  "utf16_ToAnsi loc replacement = utf16_loop (\<lambda>c. utf32_EncodeAnsi loc c replacement)"

definition utf16_ToWide :: "nat \<Rightarrow> UInt32 \<Rightarrow> UInt16 list \<Rightarrow> UInt32 list" where
  "utf16_ToWide wsize replacement = utf16_loop (\<lambda>c. utf32_EncodeWide wsize c replacement)"

definition utf16_ToLatin1 :: "UInt8 \<Rightarrow> UInt16 list \<Rightarrow> bytes" where
  "utf16_ToLatin1 replacement ws = map (\<lambda>w. to_latin1 w replacement) ws"

definition utf16_ToUtf8 :: "UInt16 list \<Rightarrow> bytes" where
  "utf16_ToUtf8 = utf16_loop (\<lambda>c. utf8_Encode c 0)"

definition utf16_ToUtf16 :: "UInt16 list \<Rightarrow> UInt16 list" where
  "utf16_ToUtf16 ws = map (\<lambda>w. w) ws"

definition utf16_ToUtf32 :: "UInt16 list \<Rightarrow> UInt32 list" where
  "utf16_ToUtf32 = utf16_loop (\<lambda>c. [c])"

definition utf32_FromAnsi :: "facet \<Rightarrow> bytes \<Rightarrow> UInt32 list" where
  "utf32_FromAnsi loc cs = map (utf32_DecodeAnsi loc) cs"

definition utf32_FromWide :: "UInt32 list \<Rightarrow> UInt32 list" where
  "utf32_FromWide cs = map utf32_DecodeWide cs"

definition utf32_FromLatin1 :: "Int8 list \<Rightarrow> UInt32 list" where
  "utf32_FromLatin1 cs = map scast cs"

definition utf32_ToAnsi :: "facet \<Rightarrow> UInt8 \<Rightarrow> UInt32 list \<Rightarrow> bytes" where
  "utf32_ToAnsi loc replacement us = concat (map (\<lambda>u. utf32_EncodeAnsi loc u replacement) us)"

definition utf32_ToWide :: "nat \<Rightarrow> UInt32 \<Rightarrow> UInt32 list \<Rightarrow> UInt32 list" where
  "utf32_ToWide wsize replacement us = concat (map (\<lambda>u. utf32_EncodeWide wsize u replacement) us)"

definition utf32_ToLatin1 :: "UInt8 \<Rightarrow> UInt32 list \<Rightarrow> bytes" where
  "utf32_ToLatin1 replacement us = map (\<lambda>u. to_latin1 u replacement) us"

definition utf32_ToUtf8 :: "UInt32 list \<Rightarrow> bytes" where
  "utf32_ToUtf8 us = concat (map (\<lambda>u. utf8_Encode u 0) us)"

definition utf32_ToUtf16 :: "UInt32 list \<Rightarrow> UInt16 list" where
  "utf32_ToUtf16 us = concat (map (\<lambda>u. utf16_Encode u 0) us)"

definition utf32_ToUtf32 :: "UInt32 list \<Rightarrow> UInt32 list" where
  "utf32_ToUtf32 us = map (\<lambda>u. u) us"

section \<open>The encodings of the standard\<close>

text \<open>
  RFC 3629 and RFC 2781 in arithmetic: the reference for the bit manipulations of the encoders.
\<close>

definition scalar_value :: "UInt32 \<Rightarrow> bool" where
  "scalar_value c \<longleftrightarrow> c \<le> 0x10FFFF \<and> \<not> (0xD800 \<le> c \<and> c \<le> 0xDFFF)"

definition cont_byte :: "nat \<Rightarrow> nat" where
  "cont_byte n = 0x80 + n mod 64"

definition utf8_of :: "nat \<Rightarrow> nat list" where
  "utf8_of n = (if n < 0x80 then [n]
     else if n < 0x800 then [0xC0 + n div 64, cont_byte n]
     else if n < 0x10000 then [0xE0 + n div 64 ^ 2, cont_byte (n div 64), cont_byte n]
     else [0xF0 + n div 64 ^ 3, cont_byte (n div 64 ^ 2), cont_byte (n div 64), cont_byte n])"

definition utf16_of :: "nat \<Rightarrow> nat list" where
  "utf16_of n = (if n < 0x10000 then [n]
     else [0xD800 + (n - 0x10000) div 1024, 0xDC00 + (n - 0x10000) mod 1024])"

lemma continuation_byte: "(ucast ((w OR 0x80) AND 0xBF) :: UInt8) = word_of_nat (cont_byte (unat (w :: UInt32)))"
proof -
  have "(ucast ((w OR 0x80) AND 0xBF) :: UInt8) = ucast (take_bit 6 w) OR 0x80"
    by (rule bit_word_eqI) (auto simp: bit_simps numeral_eq_Suc less_Suc_eq bit_Suc)
  also have "\<dots> = ucast (take_bit 6 w) + 0x80"
    by (rule disjunctive_add [symmetric]) (auto simp: bit_simps numeral_eq_Suc less_Suc_eq bit_Suc)
  also have "\<dots> = word_of_nat (unat w mod 64) + 0x80"
    by (simp only: ucast_eq_of_nat unat_take_bit_mod) simp
  finally show ?thesis
    by (simp add: cont_byte_def add.commute)
qed

lemma first_byte:
  assumes "unat w < 2 ^ k" "k < 6" "take_bit k (f :: UInt8) = 0"
  shows "(ucast (w OR ucast f) :: UInt8) = word_of_nat (unat f + unat (w :: UInt32))"
proof -
  have w: "take_bit k w = w" using assms(1) by (simp add: word_unat_eq_iff unat_take_bit_mod)
  have "(ucast (w OR ucast f) :: UInt8) = ucast w OR f"
    by (rule bit_word_eqI) (auto simp: bit_simps)
  also have "\<dots> = ucast w + f"
  proof (rule disjunctive_add [symmetric])
    fix i show "\<not> bit (ucast w :: UInt8) i \<or> \<not> bit f i"
      using assms(3) w by (metis bit_0_eq bit_take_bit_iff bit_ucast_iff bot_apply bot_bool_def)
  qed
  also have "\<dots> = word_of_nat (unat w) + word_of_nat (unat f)"
    by (simp only: ucast_eq_of_nat) simp
  finally show ?thesis by (simp add: add.commute)
qed

lemma unat_drop_6: "unat (drop_bit 6 (w :: UInt32)) = unat w div 64"
  using unat_drop_bit_div [of 6 w] by simp

lemma encode_switch_eq:
  "encode_switch n 1 w = [ucast (w OR ucast (firstBytes ! n))]"
  "encode_switch n 2 w = [ucast (drop_bit 6 w OR ucast (firstBytes ! n)), word_of_nat (cont_byte (unat w))]"
  "encode_switch n 3 w = [ucast (drop_bit 6 (drop_bit 6 w) OR ucast (firstBytes ! n)),
     word_of_nat (cont_byte (unat w div 64)), word_of_nat (cont_byte (unat w))]"
  "encode_switch n 4 w = [ucast (drop_bit 6 (drop_bit 6 (drop_bit 6 w)) OR ucast (firstBytes ! n)),
     word_of_nat (cont_byte (unat w div 64 div 64)), word_of_nat (cont_byte (unat w div 64)), word_of_nat (cont_byte (unat w))]"
proof -
  have n: "(4 :: nat) = Suc (Suc (Suc (Suc 0)))" "(3 :: nat) = Suc (Suc (Suc 0))" "(2 :: nat) = Suc (Suc 0)" by simp_all
  show "encode_switch n 1 w = [ucast (w OR ucast (firstBytes ! n))]" by (simp del: drop_bit_drop_bit)
  note [simp del] = drop_bit_drop_bit
  show "encode_switch n 2 w = [ucast (drop_bit 6 w OR ucast (firstBytes ! n)), word_of_nat (cont_byte (unat w))]"
    unfolding n by (simp add: continuation_byte)
  show "encode_switch n 3 w = [ucast (drop_bit 6 (drop_bit 6 w) OR ucast (firstBytes ! n)),
     word_of_nat (cont_byte (unat w div 64)), word_of_nat (cont_byte (unat w))]"
    unfolding n by (simp only: encode_switch.simps continuation_byte unat_drop_6 append.simps)
  show "encode_switch n 4 w = [ucast (drop_bit 6 (drop_bit 6 (drop_bit 6 w)) OR ucast (firstBytes ! n)),
     word_of_nat (cont_byte (unat w div 64 div 64)), word_of_nat (cont_byte (unat w div 64)), word_of_nat (cont_byte (unat w))]"
    unfolding n by (simp only: encode_switch.simps continuation_byte unat_drop_6 append.simps)
qed

lemma first_bytes:
  "unat w < 2 ^ 5 \<Longrightarrow> (ucast (w OR ucast (firstBytes ! 2)) :: UInt8) = word_of_nat (0xC0 + unat (w :: UInt32))"
  "unat w < 2 ^ 4 \<Longrightarrow> (ucast (w OR ucast (firstBytes ! 3)) :: UInt8) = word_of_nat (0xE0 + unat (w :: UInt32))"
  "unat w < 2 ^ 3 \<Longrightarrow> (ucast (w OR ucast (firstBytes ! 4)) :: UInt8) = word_of_nat (0xF0 + unat (w :: UInt32))"
  using first_byte [of w 5 "0xC0"] first_byte [of w 4 "0xE0"] first_byte [of w 3 "0xF0"]
  by (simp_all add: firstBytes_def del: of_nat_add of_nat_numeral)

lemma utf8_Encode_standard:
  assumes "c \<le> 0x10FFFF" "\<not> (0xD800 \<le> c \<and> c \<le> 0xDBFF)"
  shows "utf8_Encode c r = map word_of_nat (utf8_of (unat c))"
proof -
  have le: "unat c \<le> 0x10FFFF" using assms(1) by (simp add: word_le_nat_alt)
  have "\<not> (c > 0x10FFFF \<or> (c \<ge> 0xD800 \<and> c \<le> 0xDBFF))" using assms by (auto simp: not_less)
  then have enc: "utf8_Encode c r = encode_switch (bytesToWrite c) (bytesToWrite c) c"
    by (simp only: utf8_Encode_def if_False)
  have w: "bytesToWrite c = (if unat c < 0x80 then 1 else if unat c < 0x800 then 2 else if unat c < 0x10000 then 3 else 4)"
    using assms(1) by (simp add: bytesToWrite_def word_less_nat_alt)
  consider (1) "unat c < 0x80" | (2) "0x80 \<le> unat c" "unat c < 0x800"
    | (3) "0x800 \<le> unat c" "unat c < 0x10000" | (4) "0x10000 \<le> unat c" "unat c \<le> 0x10FFFF"
    using le by linarith
  then show ?thesis
  proof cases
    case 1
    have "(ucast c :: UInt8) = word_of_nat (unat c)" by (rule ucast_eq_of_nat)
    with 1 w show ?thesis
      by (simp add: enc encode_switch_eq utf8_of_def firstBytes_def)
  next
    case 2
    then have "unat (drop_bit 6 c) < 2 ^ 5" by (simp add: unat_drop_6)
    from first_bytes(1) [OF this] 2 w show ?thesis
      by (simp add: enc encode_switch_eq utf8_of_def unat_drop_6)
  next
    case 3
    then have "unat (drop_bit 6 (drop_bit 6 c)) < 2 ^ 4" by (simp only: unat_drop_6) simp
    from first_bytes(2) [OF this] 3 w show ?thesis
      by (simp add: enc encode_switch_eq utf8_of_def unat_drop_6 div_mult2_eq [symmetric] del: drop_bit_drop_bit)
  next
    case 4
    then have "unat (drop_bit 6 (drop_bit 6 (drop_bit 6 c))) < 2 ^ 3" by (simp only: unat_drop_6) simp
    from first_bytes(3) [OF this] 4 w show ?thesis
      by (simp add: enc encode_switch_eq utf8_of_def unat_drop_6 div_mult2_eq [symmetric] del: drop_bit_drop_bit)
  qed
qed

lemma trailing_nth:
  "k < 192 \<Longrightarrow> trailing ! k = 0"
  "192 \<le> k \<Longrightarrow> k < 224 \<Longrightarrow> trailing ! k = 1"
  "224 \<le> k \<Longrightarrow> k < 240 \<Longrightarrow> trailing ! k = 2"
  "240 \<le> k \<Longrightarrow> k < 248 \<Longrightarrow> trailing ! k = 3"
  by (simp_all add: trailing_def nth_append; linarith)+

lemma byte_of_nat:
  assumes "k < 256"
  shows "unat (word_of_nat k :: UInt8) = k" "(ucast (word_of_nat k :: UInt8) :: UInt32) = word_of_nat k"
proof -
  show *: "unat (word_of_nat k :: UInt8) = k" using assms by (simp add: unat_of_nat)
  show "(ucast (word_of_nat k :: UInt8) :: UInt32) = word_of_nat k" by (simp only: ucast_eq_of_nat *)
qed

lemma push_6_of_nat: "push_bit 6 (word_of_nat k :: UInt32) = word_of_nat (64 * k)"
  by (simp add: push_bit_eq_mult mult.commute)

lemma decode_switch_eq:
  "decode_switch 1 w (a # b # rest) = (push_bit 6 (w + ucast a) + ucast b, rest)"
  "decode_switch 2 w (a # b # c # rest) = (push_bit 6 (push_bit 6 (w + ucast a) + ucast b) + ucast c, rest)"
  "decode_switch 3 w (a # b # c # d # rest) =
     (push_bit 6 (push_bit 6 (push_bit 6 (w + ucast a) + ucast b) + ucast c) + ucast d, rest)"
  by (simp_all add: eval_nat_numeral)

lemma utf8_Decode_1:
  "n < 0x80 \<Longrightarrow> utf8_Decode (word_of_nat n # rest) r = Some (word_of_nat n, rest)"
  by (simp add: utf8_Decode_def byte_of_nat trailing_nth offsets_def)

lemma utf8_Decode_2:
  assumes "n < 32" "a < 64"
  shows "utf8_Decode (word_of_nat (0xC0 + n) # word_of_nat (0x80 + a) # rest) r = Some (word_of_nat (n * 64 + a), rest)"
proof -
  have "trailing ! (192 + n) = 1" using assms by (intro trailing_nth) auto
  then show ?thesis using assms
    by (simp add: utf8_Decode_def byte_of_nat decode_switch_eq push_6_of_nat offsets_def of_nat_add [symmetric]
        del: of_nat_add of_nat_mult of_nat_numeral One_nat_def, simp add: algebra_simps)
qed

lemma utf8_Decode_3:
  assumes "n < 16" "a < 64" "b < 64"
  shows "utf8_Decode (word_of_nat (0xE0 + n) # word_of_nat (0x80 + a) # word_of_nat (0x80 + b) # rest) r =
    Some (word_of_nat ((n * 64 + a) * 64 + b), rest)"
proof -
  have "trailing ! (224 + n) = 2" using assms by (intro trailing_nth) auto
  then show ?thesis using assms
    by (simp add: utf8_Decode_def byte_of_nat decode_switch_eq push_6_of_nat offsets_def of_nat_add [symmetric]
        del: of_nat_add of_nat_mult of_nat_numeral One_nat_def, simp add: algebra_simps)
qed

lemma utf8_Decode_4:
  assumes "n < 8" "a < 64" "b < 64" "d < 64"
  shows "utf8_Decode (word_of_nat (0xF0 + n) # word_of_nat (0x80 + a) # word_of_nat (0x80 + b) # word_of_nat (0x80 + d) # rest) r =
    Some (word_of_nat (((n * 64 + a) * 64 + b) * 64 + d), rest)"
proof -
  have "trailing ! (240 + n) = 3" using assms by (intro trailing_nth) auto
  then show ?thesis using assms
    by (simp add: utf8_Decode_def byte_of_nat decode_switch_eq push_6_of_nat offsets_def of_nat_add [symmetric]
        del: of_nat_add of_nat_mult of_nat_numeral One_nat_def, simp add: algebra_simps)
qed

lemma utf8_Decode_standard:
  assumes "n \<le> 0x10FFFF"
  shows "utf8_Decode (map word_of_nat (utf8_of n) @ rest) r = Some (word_of_nat n, rest)"
proof -
  have d: "n div 64 * 64 + n mod 64 = n" by simp
  have d2: "(n div 4096 * 64 + n div 64 mod 64) * 64 + n mod 64 = n"
    using div_mult_mod_eq [of "n div 64" 64] by (simp add: div_mult2_eq [symmetric])
  have d3: "((n div 262144 * 64 + n div 4096 mod 64) * 64 + n div 64 mod 64) * 64 + n mod 64 = n"
    using div_mult_mod_eq [of "n div 4096" 64] d2 by (simp add: div_mult2_eq [symmetric])
  consider (1) "n < 0x80" | (2) "0x80 \<le> n" "n < 0x800"
    | (3) "0x800 \<le> n" "n < 0x10000" | (4) "0x10000 \<le> n" "n \<le> 0x10FFFF"
    using assms by linarith
  then show ?thesis
  proof cases
    case 1
    then show ?thesis by (simp add: utf8_of_def utf8_Decode_1)
  next
    case 2
    then have "n div 64 < 32" by simp
    from utf8_Decode_2 [OF this, of "n mod 64" rest r] 2 show ?thesis by (simp add: utf8_of_def cont_byte_def)
  next
    case 3
    then have "n div 4096 < 16" by simp
    from utf8_Decode_3 [OF this, of "n div 64 mod 64" "n mod 64" rest r] 3 d2 show ?thesis
      by (simp add: utf8_of_def cont_byte_def del: of_nat_add of_nat_mult)
  next
    case 4
    then have "n div 262144 < 8" by simp
    from utf8_Decode_4 [OF this, of "n div 4096 mod 64" "n div 64 mod 64" "n mod 64" rest r] 4 d3 show ?thesis
      by (simp add: utf8_of_def cont_byte_def del: of_nat_add of_nat_mult)
  qed
qed

lemma utf16_Encode_standard:
  assumes "scalar_value c" "c \<noteq> 0xFFFF"
  shows "utf16_Encode c r = map word_of_nat (utf16_of (unat c))"
proof -
  have le: "unat c \<le> 0x10FFFF" "\<not> (c \<ge> 0xD800 \<and> c \<le> 0xDFFF)" "\<not> 0x10FFFF < c"
    using assms(1) by (auto simp: word_le_nat_alt scalar_value_def not_less)
  show ?thesis
  proof (cases "unat c < 0x10000")
    case True
    have "c < 0xFFFF" using True assms(2) by (simp add: word_less_nat_alt word_unat_eq_iff)
    moreover have "(ucast c :: UInt16) = word_of_nat (unat c)" by (rule ucast_eq_of_nat)
    ultimately show ?thesis using le True by (simp only: utf16_Encode_def utf16_of_def Let_def) simp
  next
    case False
    then have "\<not> c < 0xFFFF" by (simp add: word_less_nat_alt)
    moreover have u: "unat (c - 0x10000) = unat c - 0x10000"
      using False by (subst unat_sub) (simp_all add: word_le_nat_alt)
    have "(ucast (drop_bit 10 (c - 0x10000) + 0xD800) :: UInt16) = word_of_nat (0xD800 + (unat c - 0x10000) div 1024)"
    proof -
      have "unat (drop_bit 10 (c - 0x10000) + 0xD800) = 0xD800 + (unat c - 0x10000) div 1024"
        using le(1) by (simp add: unat_word_ariths unat_drop_bit_div u)
      then show ?thesis by (simp only: ucast_eq_of_nat)
    qed
    moreover have "(ucast (((c - 0x10000) AND 0x3FF) + 0xDC00) :: UInt16) = word_of_nat (0xDC00 + (unat c - 0x10000) mod 1024)"
    proof -
      have m: "(c - 0x10000) AND 0x3FF = take_bit 10 (c - 0x10000)"
        by (simp add: take_bit_eq_mask mask_eq_exp_minus_1)
      have "unat (take_bit 10 (c - 0x10000) + 0xDC00) = 0xDC00 + (unat c - 0x10000) mod 1024"
        by (simp add: unat_word_ariths unat_take_bit_mod u)
      then show ?thesis by (simp only: ucast_eq_of_nat m)
    qed
    ultimately show ?thesis using le False by (simp only: utf16_Encode_def utf16_of_def Let_def) simp
  qed
qed

lemma utf16_Decode_standard:
  assumes "n \<le> 0x10FFFF" "\<not> (0xD800 \<le> n \<and> n \<le> 0xDFFF)"
  shows "utf16_Decode (map word_of_nat (utf16_of n) @ rest) r = Some (word_of_nat n, rest)"
proof (cases "n < 0x10000")
  case True
  then have u: "unat (word_of_nat n :: UInt16) = n" by (simp add: unat_of_nat)
  then have "\<not> (word_of_nat n \<ge> (0xD800 :: UInt16) \<and> word_of_nat n \<le> (0xDBFF :: UInt16))"
    using assms(2) by (auto simp: word_le_nat_alt)
  moreover have "(ucast (word_of_nat n :: UInt16) :: UInt32) = word_of_nat n" by (simp only: ucast_eq_of_nat u)
  ultimately show ?thesis using True by (auto simp: utf16_Decode_def utf16_of_def)
next
  case False
  define q m where "q = (n - 0x10000) div 1024" and "m = (n - 0x10000) mod 1024"
  have qm: "q < 1024" "m < 1024" "n = 0x10000 + q * 1024 + m"
    using assms(1) False by (auto simp: q_def m_def)
  have u: "unat (word_of_nat (0xD800 + q) :: UInt16) = 0xD800 + q" "unat (word_of_nat (0xDC00 + m) :: UInt16) = 0xDC00 + m"
    using qm by (simp_all add: unat_of_nat del: of_nat_add)
  have s: "(ucast (word_of_nat (0xDC00 + m) :: UInt16) :: UInt32) = word_of_nat (0xDC00 + m)"
    "(ucast (word_of_nat (0xD800 + q) :: UInt16) :: UInt32) = word_of_nat (0xD800 + q)"
    by (simp_all only: ucast_eq_of_nat u)
  have g: "word_of_nat (0xD800 + q) \<ge> (0xD800 :: UInt16)" "word_of_nat (0xD800 + q) \<le> (0xDBFF :: UInt16)"
    using u qm by (simp_all add: word_le_nat_alt del: of_nat_add)
  have g2: "word_of_nat (0xDC00 + m) \<ge> (0xDC00 :: UInt32)" "word_of_nat (0xDC00 + m) \<le> (0xDFFF :: UInt32)"
    using qm by (simp_all add: word_le_nat_alt unat_of_nat del: of_nat_add)
  have "push_bit 10 (word_of_nat (0xD800 + q) - 0xD800) + (word_of_nat (0xDC00 + m) - 0xDC00) + 0x0010000 = (word_of_nat n :: UInt32)"
    by (simp add: qm(3) push_bit_eq_mult algebra_simps)
  then show ?thesis using False g g2 s
    by (simp add: utf16_Decode_def utf16_of_def q_def [symmetric] m_def [symmetric] Let_def del: of_nat_add)
qed

section \<open>A codec and the loops over its output\<close>

text \<open>
  What the loops rely on: the decoder inverts the encoder on the characters \<open>valid\<close> and leaves the rest,
  and a loop appends, character by character, what it is asked to produce.
\<close>

locale utf_codec =
  fixes decode :: "'a list \<Rightarrow> (UInt32 \<times> 'a list) option"
    and encode :: "UInt32 \<Rightarrow> 'a list"
    and valid :: "UInt32 \<Rightarrow> bool"
    and loop :: "(UInt32 \<Rightarrow> 'b list) \<Rightarrow> 'a list \<Rightarrow> 'b list"
    and count :: "'a list \<Rightarrow> nat"
  assumes decode_encode: "valid c \<Longrightarrow> decode (encode c @ rest) = Some (c, rest)"
    and loop_unfold: "loop out xs = (case decode xs of None \<Rightarrow> [] | Some (c, rest) \<Rightarrow> out c @ loop out rest)"
    and count_unfold: "count xs = (case decode xs of None \<Rightarrow> 0 | Some (c, rest) \<Rightarrow> Suc (count rest))"
    and decode_Nil: "decode [] = None"
begin

definition encode_all :: "UInt32 list \<Rightarrow> 'a list" where
  "encode_all cs = concat (map encode cs)"

lemma loop_encode_all: "list_all valid cs \<Longrightarrow> loop out (encode_all cs) = concat (map out cs)"
  by (induction cs) (simp_all add: encode_all_def loop_unfold [of out "encode _ @ _"] loop_unfold [of out "[]"] decode_encode decode_Nil)

lemma count_encode_all: "list_all valid cs \<Longrightarrow> count (encode_all cs) = length cs"
  by (induction cs) (simp_all add: encode_all_def count_unfold [of "encode _ @ _"] count_unfold [of "[]"] decode_encode decode_Nil)

end

interpretation u8: utf_codec "\<lambda>bs. utf8_Decode bs 0" "\<lambda>c. utf8_Encode c 0" scalar_value utf8_loop utf8_Count
proof
  fix c and rest :: bytes assume "scalar_value c"
  then have "c \<le> 0x10FFFF" "\<not> (0xD800 \<le> c \<and> c \<le> 0xDBFF)" "unat c \<le> 0x10FFFF"
    by (auto simp: scalar_value_def word_le_nat_alt)
  then show "utf8_Decode (utf8_Encode c 0 @ rest) 0 = Some (c, rest)"
    by (simp add: utf8_Encode_standard utf8_Decode_standard)
next
  fix out :: "UInt32 \<Rightarrow> 'b list" and xs
  show "utf8_loop out xs = (case utf8_Decode xs 0 of None \<Rightarrow> [] | Some (c, rest) \<Rightarrow> out c @ utf8_loop out rest)"
    by (rule utf8_loop.simps)
next
  fix xs
  show "utf8_Count xs = (case utf8_Decode xs 0 of None \<Rightarrow> 0 | Some (c, rest) \<Rightarrow> Suc (utf8_Count rest))"
    by (subst utf8_Count.simps) (auto simp: utf8_Next_def split: option.split)
next
  show "utf8_Decode [] 0 = None" by (simp add: utf8_Decode_def)
qed

interpretation u16: utf_codec "\<lambda>ws. utf16_Decode ws 0" "\<lambda>c. utf16_Encode c 0"
  "\<lambda>c. scalar_value c \<and> c \<noteq> 0xFFFF" utf16_loop utf16_Count
proof
  fix c and rest :: "UInt16 list" assume c: "scalar_value c \<and> c \<noteq> 0xFFFF"
  then have "unat c \<le> 0x10FFFF" "\<not> (0xD800 \<le> unat c \<and> unat c \<le> 0xDFFF)"
    by (auto simp: scalar_value_def word_le_nat_alt)
  then show "utf16_Decode (utf16_Encode c 0 @ rest) 0 = Some (c, rest)"
    using c by (simp add: utf16_Encode_standard utf16_Decode_standard)
next
  fix out :: "UInt32 \<Rightarrow> 'b list" and xs
  show "utf16_loop out xs = (case utf16_Decode xs 0 of None \<Rightarrow> [] | Some (c, rest) \<Rightarrow> out c @ utf16_loop out rest)"
    by (rule utf16_loop.simps)
next
  fix xs
  show "utf16_Count xs = (case utf16_Decode xs 0 of None \<Rightarrow> 0 | Some (c, rest) \<Rightarrow> Suc (utf16_Count rest))"
    by (subst utf16_Count.simps) (auto simp: utf16_Next_def split: option.split)
next
  show "utf16_Decode [] 0 = None" by (simp add: utf16_Decode_def)
qed

lemmas utf8_text = u8.loop_encode_all [unfolded u8.encode_all_def, folded utf32_ToUtf8_def]
lemmas utf16_text = u16.loop_encode_all [unfolded u16.encode_all_def, folded utf32_ToUtf16_def]

section \<open>Properties\<close>



text \<open>
  The encoders are the arithmetic of RFC 3629 and RFC 2781 on every code point, but for three flaws:
  U+FFFF is written to UTF-16 as the two units D7FF and DFFF, the low surrogates are written to UTF-8
  like characters, and \<open>Utf<32>::Count\<close> returns the negated length modulo \<open>2 ^ 64\<close>.
\<close>

theorem utf_encoders_standard:
  "(if c > 0x10FFFF \<or> 0xD800 \<le> c \<and> c \<le> 0xDBFF then utf8_Encode c 0 = []
    else utf8_Encode c 0 = map word_of_nat (utf8_of (unat c)))
   \<and> (if c = 0xFFFF then utf16_Encode c 0 = [0xD7FF, 0xDFFF]
      else if scalar_value c then utf16_Encode c 0 = map word_of_nat (utf16_of (unat c))
      else utf16_Encode c 0 = [])
   \<and> (0xDC00 \<le> c \<and> c \<le> 0xDFFF \<longrightarrow> utf8_ToUtf32 (utf8_Encode c 0) = [c])
   \<and> (us \<noteq> [] \<longrightarrow> utf32_Count us = 2 ^ 64 - length us)"
proof -
  have "utf8_Encode c 0 = []" if "c > 0x10FFFF \<or> 0xD800 \<le> c \<and> c \<le> 0xDBFF"
    using that by (simp add: utf8_Encode_def)
  moreover have "utf8_Encode c 0 = map word_of_nat (utf8_of (unat c))"
    if "\<not> (c > 0x10FFFF \<or> 0xD800 \<le> c \<and> c \<le> 0xDBFF)"
    using that by (intro utf8_Encode_standard) (auto simp: not_less)
  moreover have "utf16_Encode 0xFFFF 0 = [0xD7FF, 0xDFFF]" by (simp add: utf16_Encode_def mask_eq_exp_minus_1)
  moreover have "utf16_Encode c 0 = []" if "c \<noteq> 0xFFFF" "\<not> scalar_value c"
    using that by (auto simp: utf16_Encode_def scalar_value_def not_le not_less Let_def word_less_nat_alt word_le_nat_alt word_unat_eq_iff)
  moreover have "utf8_ToUtf32 (utf8_Encode c 0) = [c]" if c: "0xDC00 \<le> c" "c \<le> 0xDFFF"
  proof -
    have "\<not> (0xD800 \<le> c \<and> c \<le> 0xDBFF)" "c \<le> 0x10FFFF" "unat c \<le> 0x10FFFF" using c by (auto simp: word_le_nat_alt)
    then have "utf8_Decode (utf8_Encode c 0 @ []) 0 = Some (c, [])"
      using utf8_Decode_standard [of "unat c" "[]" 0] by (simp add: utf8_Encode_standard)
    then show ?thesis
      by (simp add: utf8_ToUtf32_def utf8_loop.simps [of _ "utf8_Encode c 0"] utf8_loop.simps [of _ "[]"] u8.decode_Nil)
  qed
  ultimately show ?thesis by (auto simp: utf16_Encode_standard utf32_Count_def size_sub_def)
qed

theorem utf_encoders_standard_witness:
  "utf8_ToUtf32 (utf8_Encode 0xDC00 0) = [0xDC00] \<and> utf32_Count [0x41] = 2 ^ 64 - 1"
  using utf_encoders_standard [of "0xDC00" "[0x41]"] by fastforce

end
