(* ===== verification/Sys_String.thy ===== *)
theory Sys_String
  imports Utf
begin

text \<open>
  The string class \<open>System/String.cpp\<close>: a sequence of UTF-32 characters with conversions from and to the
  narrow and wide strings of the platform. The exception \<open>std::out_of_range\<close> that \<open>std::basic_string\<close>
  throws for a position behind the end is \<open>None\<close>, and so is the undefined access by \<open>operator []\<close> there.
  A null-terminated argument is the array it points into, or \<open>None\<close> for the null pointer.
\<close>

record sys_string =
  myString :: "UInt32 list"

definition npos :: nat where
  "npos = 2 ^ 64 - 1"

definition InvalidPos :: nat where
  "InvalidPos = npos"

section \<open>Construction and conversion\<close>

definition String :: sys_string where
  "String = \<lparr>myString = []\<rparr>"

definition String_ansiChar :: "facet \<Rightarrow> UInt8 \<Rightarrow> sys_string" where
  "String_ansiChar loc c = \<lparr>myString = [utf32_DecodeAnsi loc c]\<rparr>"

definition String_wideChar :: "UInt32 \<Rightarrow> sys_string" where
  "String_wideChar c = \<lparr>myString = [utf32_DecodeWide c]\<rparr>"

definition String_utf32Char :: "UInt32 \<Rightarrow> sys_string" where
  "String_utf32Char c = \<lparr>myString = [c]\<rparr>"

definition c_str_of :: "'a::len word list \<Rightarrow> 'a word list" where
  "c_str_of cs = takeWhile (\<lambda>c. c \<noteq> 0) cs"

definition String_ansi_cstr :: "facet \<Rightarrow> bytes option \<Rightarrow> sys_string" where
  "String_ansi_cstr loc p = (case p of None \<Rightarrow> String
     | Some cs \<Rightarrow> if c_str_of cs \<noteq> [] then \<lparr>myString = utf32_FromAnsi loc (c_str_of cs)\<rparr> else String)"

definition String_ansi :: "facet \<Rightarrow> bytes \<Rightarrow> sys_string" where
  "String_ansi loc cs = \<lparr>myString = utf32_FromAnsi loc cs\<rparr>"

definition String_wide_cstr :: "UInt32 list option \<Rightarrow> sys_string" where
  "String_wide_cstr p = (case p of None \<Rightarrow> String
     | Some cs \<Rightarrow> if c_str_of cs \<noteq> [] then \<lparr>myString = utf32_FromWide (c_str_of cs)\<rparr> else String)"

definition String_wide :: "UInt32 list \<Rightarrow> sys_string" where
  "String_wide cs = \<lparr>myString = utf32_FromWide cs\<rparr>"

definition String_utf32_cstr :: "UInt32 list option \<Rightarrow> sys_string" where
  "String_utf32_cstr p = (case p of None \<Rightarrow> String | Some cs \<Rightarrow> \<lparr>myString = c_str_of cs\<rparr>)"

definition String_utf32 :: "UInt32 list \<Rightarrow> sys_string" where
  "String_utf32 cs = \<lparr>myString = cs\<rparr>"

definition ToAnsiString :: "facet \<Rightarrow> sys_string \<Rightarrow> bytes" where
  "ToAnsiString loc s = utf32_ToAnsi loc 0 (myString s)"

definition ToWideString :: "nat \<Rightarrow> sys_string \<Rightarrow> UInt32 list" where
  "ToWideString wsize s = utf32_ToWide wsize 0 (myString s)"

section \<open>Editing and searching\<close>

definition append_assign :: "sys_string \<Rightarrow> sys_string \<Rightarrow> sys_string" where
  "append_assign s right = s\<lparr>myString := myString s @ myString right\<rparr>"

definition string_at :: "sys_string \<Rightarrow> nat \<Rightarrow> UInt32 option" where
  "string_at s i = (if i < length (myString s) then Some (myString s ! i)
     else if i = length (myString s) then Some 0 else None)"

definition string_put :: "sys_string \<Rightarrow> nat \<Rightarrow> UInt32 \<Rightarrow> sys_string option" where
  "string_put s i c = (if i < length (myString s) then Some (s\<lparr>myString := (myString s)[i := c]\<rparr>) else None)"

definition string_Clear :: "sys_string \<Rightarrow> sys_string" where
  "string_Clear s = s\<lparr>myString := []\<rparr>"

definition GetSize :: "sys_string \<Rightarrow> nat" where
  "GetSize s = length (myString s)"

definition IsEmpty :: "sys_string \<Rightarrow> bool" where
  "IsEmpty s \<longleftrightarrow> myString s = []"

definition Erase :: "nat \<Rightarrow> nat \<Rightarrow> sys_string \<Rightarrow> sys_string option" where
  "Erase position cnt s = (if position \<le> length (myString s)
     then Some (s\<lparr>myString := take position (myString s) @ drop (position + cnt) (myString s)\<rparr>) else None)"

definition Insert :: "nat \<Rightarrow> sys_string \<Rightarrow> sys_string \<Rightarrow> sys_string option" where
  "Insert position str s = (if position \<le> length (myString s)
     then Some (s\<lparr>myString := take position (myString s) @ myString str @ drop position (myString s)\<rparr>) else None)"

text \<open>\<open>std::basic_string::find\<close>: the first position from \<open>start\<close> on at which the pattern occurs.\<close>

function find_from :: "UInt32 list \<Rightarrow> UInt32 list \<Rightarrow> nat \<Rightarrow> nat" where
  "find_from xs pat i = (if i + length pat > length xs then npos
     else if take (length pat) (drop i xs) = pat then i else find_from xs pat (Suc i))"
  by pat_completeness auto
termination
  by (relation "measure (\<lambda>(xs, _, i). Suc (length xs) - i)") auto

declare find_from.simps [simp del]

definition string_Find :: "sys_string \<Rightarrow> nat \<Rightarrow> sys_string \<Rightarrow> nat" where
  "string_Find str start s = find_from (myString s) (myString str) start"

definition string_eq :: "sys_string \<Rightarrow> sys_string \<Rightarrow> bool" where
  "string_eq l r \<longleftrightarrow> myString l = myString r"

text \<open>\<open>std::basic_string::compare\<close> is the lexicographic order of the elements.\<close>

fun lex_less :: "UInt32 list \<Rightarrow> UInt32 list \<Rightarrow> bool" where
  "lex_less xs [] = False"
| "lex_less [] (y # ys) = True"
| "lex_less (x # xs) (y # ys) = (x < y \<or> x = y \<and> lex_less xs ys)"

definition string_less :: "sys_string \<Rightarrow> sys_string \<Rightarrow> bool" where
  "string_less l r \<longleftrightarrow> lex_less (myString l) (myString r)"

definition string_greater :: "sys_string \<Rightarrow> sys_string \<Rightarrow> bool" where
  "string_greater l r \<longleftrightarrow> string_less r l"

definition string_le :: "sys_string \<Rightarrow> sys_string \<Rightarrow> bool" where
  "string_le l r \<longleftrightarrow> \<not> string_less r l"

definition string_ge :: "sys_string \<Rightarrow> sys_string \<Rightarrow> bool" where
  "string_ge l r \<longleftrightarrow> \<not> string_less l r"

definition string_plus :: "sys_string \<Rightarrow> sys_string \<Rightarrow> sys_string" where
  "string_plus l r = append_assign l r"

section \<open>Properties\<close>

definition occurs_at :: "'a list \<Rightarrow> 'a list \<Rightarrow> nat \<Rightarrow> bool" where
  "occurs_at pat xs i \<longleftrightarrow> i + length pat \<le> length xs \<and> take (length pat) (drop i xs) = pat"

lemma find_from_spec:
  assumes "length xs < npos"
  shows "(find_from xs pat i = npos \<longleftrightarrow> (\<forall>j\<ge>i. \<not> occurs_at pat xs j))
    \<and> (find_from xs pat i \<noteq> npos \<longrightarrow> i \<le> find_from xs pat i \<and> occurs_at pat xs (find_from xs pat i)
        \<and> (\<forall>j. i \<le> j \<and> j < find_from xs pat i \<longrightarrow> \<not> occurs_at pat xs j))"
  using assms
proof (induction xs pat i rule: find_from.induct)
  case (1 xs pat i)
  consider (far) "i + length pat > length xs"
    | (here) "i + length pat \<le> length xs" "take (length pat) (drop i xs) = pat"
    | (later) "i + length pat \<le> length xs" "take (length pat) (drop i xs) \<noteq> pat" by linarith
  then show ?case
  proof cases
    case far
    then show ?thesis by (simp add: find_from.simps [of xs pat i] occurs_at_def)
  next
    case here
    then show ?thesis using "1.prems" by (auto simp: find_from.simps [of xs pat i] occurs_at_def)
  next
    case later
    then have no: "\<not> occurs_at pat xs i" and eq: "find_from xs pat i = find_from xs pat (Suc i)"
      by (simp_all add: find_from.simps [of xs pat i] occurs_at_def)
    have "(\<forall>j\<ge>i. \<not> occurs_at pat xs j) = (\<forall>j\<ge>Suc i. \<not> occurs_at pat xs j)"
      "(i \<le> j \<and> j < k \<longrightarrow> \<not> occurs_at pat xs j) = (Suc i \<le> j \<and> j < k \<longrightarrow> \<not> occurs_at pat xs j)" for j k
      using no by (metis Suc_leD Suc_leI le_neq_implies_less)+
    then show ?thesis using "1.IH" later "1.prems" eq by (metis Suc_leD not_less)
  qed
qed

lemma lex_less_trans: "lex_less xs ys \<Longrightarrow> lex_less ys zs \<Longrightarrow> lex_less xs zs"
proof (induction xs ys arbitrary: zs rule: lex_less.induct)
  case (3 x xs y ys)
  then show ?case by (cases zs) auto
qed (auto elim: lex_less.elims)

lemma lex_less_total: "lex_less xs ys \<or> xs = ys \<or> lex_less ys xs"
  by (induction xs ys rule: lex_less.induct) (auto simp: neq_iff elim: lex_less.elims)

lemma lex_less_irrefl: "\<not> lex_less xs xs"
  by (induction xs) auto

text \<open>
  C36. \<open>Find\<close> returns the first position at or behind \<open>start\<close> where the pattern occurs, and \<open>InvalidPos\<close>
  exactly when there is none; the six comparison operators are one total order, whose equality is that of
  the strings.
\<close>

theorem string_find_and_order:
  assumes "GetSize s < npos"
  shows "(string_Find str start s = InvalidPos \<longleftrightarrow> (\<forall>j\<ge>start. \<not> occurs_at (myString str) (myString s) j))
    \<and> (\<forall>p. string_Find str start s = p \<and> p \<noteq> InvalidPos \<longrightarrow> start \<le> p \<and> occurs_at (myString str) (myString s) p
        \<and> (\<forall>j. start \<le> j \<and> j < p \<longrightarrow> \<not> occurs_at (myString str) (myString s) j))
    \<and> (string_eq a b \<longleftrightarrow> string_le a b \<and> string_ge a b) \<and> (string_le a b \<or> string_le b a)
    \<and> (string_less a b \<longleftrightarrow> string_le a b \<and> \<not> string_eq a b)
    \<and> (string_le a b \<and> string_le b c \<longrightarrow> string_le a c)"
proof -
  have o: "string_eq a b \<longleftrightarrow> string_le a b \<and> string_ge a b" "string_le a b \<or> string_le b a"
    "string_less a b \<longleftrightarrow> string_le a b \<and> \<not> string_eq a b"
    "string_le a b \<and> string_le b c \<longrightarrow> string_le a c"
    unfolding string_eq_def string_le_def string_ge_def string_less_def
    by (metis lex_less_total lex_less_irrefl lex_less_trans)+
  have "length (myString s) < npos" using assms by (simp add: GetSize_def)
  note f = find_from_spec [OF this, of "myString str" start]
  have "string_Find str start s = InvalidPos \<longleftrightarrow> (\<forall>j\<ge>start. \<not> occurs_at (myString str) (myString s) j)"
    using f by (simp only: string_Find_def InvalidPos_def)
  moreover have "\<forall>p. string_Find str start s = p \<and> p \<noteq> InvalidPos \<longrightarrow> start \<le> p \<and> occurs_at (myString str) (myString s) p
        \<and> (\<forall>j. start \<le> j \<and> j < p \<longrightarrow> \<not> occurs_at (myString str) (myString s) j)"
    using f by (simp only: string_Find_def InvalidPos_def) blast
  ultimately show ?thesis using o by blast
qed

theorem string_find_and_order_witness:
  "string_Find (String_utf32 [3]) 1 (String_utf32 [3, 2, 3]) = 2 \<and> string_less (String_utf32 [1]) (String_utf32 [1, 2])"
proof -
  have f: "find_from [3, 2, 3] [3] 1 = 2" by (simp add: find_from.simps numeral_eq_Suc)
  show ?thesis
    using string_find_and_order [of "String_utf32 [3, 2, 3]" "String_utf32 [3]" 1 "String_utf32 [1]" "String_utf32 [1, 2]"]
    by (simp add: GetSize_def String_utf32_def npos_def InvalidPos_def string_Find_def f [unfolded One_nat_def] string_less_def)
qed

text \<open>
  Inserting fails exactly behind the end; erasing what was inserted restores the string, and the
  conversions to a wide string of four-byte characters and to a narrow string of a locale whose
  facet narrows what it widens invert the constructors.
\<close>

theorem string_edit_roundtrip:
  assumes "\<forall>c. narrow loc (widen loc c) 0 = c"
  shows "(Insert p t s = None \<longleftrightarrow> GetSize s < p)
    \<and> (\<forall>s'. Insert p t s = Some s' \<longrightarrow> GetSize s' = GetSize s + GetSize t \<and> Erase p (GetSize t) s' = Some s
        \<and> (\<forall>i<GetSize t. string_at s' (p + i) = string_at t i))
    \<and> ToWideString 4 (String_wide w) = w \<and> ToAnsiString loc (String_ansi loc cs) = cs"
proof -
  have "concat (map (\<lambda>u. [narrow loc u 0]) (map (widen loc) cs)) = cs"
    using assms by (induction cs) auto
  then have "ToAnsiString loc (String_ansi loc cs) = cs"
    by (simp add: ToAnsiString_def String_ansi_def utf32_ToAnsi_def utf32_FromAnsi_def utf32_EncodeAnsi_def utf32_DecodeAnsi_def comp_def)
  moreover have "ToWideString 4 (String_wide w) = w"
    by (simp add: ToWideString_def String_wide_def utf32_ToWide_def utf32_FromWide_def utf32_EncodeWide_def utf32_DecodeWide_def comp_def)
  ultimately show ?thesis
    by (auto simp: Insert_def Erase_def GetSize_def string_at_def nth_append)
qed

theorem string_edit_roundtrip_witness:
  "Insert 1 (String_utf32 [7, 8]) (String_utf32 [1, 2]) = Some \<lparr>myString = [1, 7, 8, 2]\<rparr>
   \<and> Erase 1 2 \<lparr>myString = [1, 7, 8, 2]\<rparr> = Some (String_utf32 [1, 2])
   \<and> ToAnsiString \<lparr>widen = ucast, narrow = (\<lambda>u _. ucast u)\<rparr> (String_ansi \<lparr>widen = ucast, narrow = (\<lambda>u _. ucast u)\<rparr> [65]) = [65]"
proof -
  have "Insert 1 (String_utf32 [7, 8]) (String_utf32 [1, 2]) = Some \<lparr>myString = [1, 7, 8, 2]\<rparr>"
    by (simp add: Insert_def String_utf32_def)
  moreover have "ucast (ucast c :: UInt32) = (c :: UInt8)" for c
    by (rule bit_word_eqI) (auto simp: bit_simps)
  ultimately show ?thesis
    using string_edit_roundtrip [of "\<lparr>widen = ucast, narrow = (\<lambda>u _. ucast u)\<rparr>" 1 "String_utf32 [7, 8]" "String_utf32 [1, 2]" "[]" "[65]"]
    by (simp add: GetSize_def String_utf32_def numeral_2_eq_2 [symmetric])
qed

end
