(* ===== verification/Tiny_MT.thy ===== *)
theory Tiny_MT
  imports Sha1 Complex_Main
begin

text \<open>
  The pseudo random numbers: the generators \<open>System/TinyMT/tinymt32\<close> and \<open>System/TinyMT/tinymt64\<close> and the
  class \<open>System/Random\<close> on top of the latter. The macro \<open>LINEARITY_CHECK\<close> is not defined by the sources.
  A floating point result is the real number it stands for: the values in \<open>[1, 2)\<close> that the generators
  assemble from bits are exact, and so is subtracting one; the conversion of an integer to floating
  point rounds to nearest, ties to even, which \<open>round_to\<close> writes out.
\<close>

section \<open>The 32-bit generator\<close>

record tinymt32_t =
  status32 :: "UInt32 list"
  mat1_32 :: UInt32
  mat2_32 :: UInt32
  tmat_32 :: UInt32

definition TINYMT32_MASK :: UInt32 where
  "TINYMT32_MASK = 0x7fffffff"

definition tinymt32_next_state :: "tinymt32_t \<Rightarrow> tinymt32_t" where
  "tinymt32_next_state random =
    (let st = status32 random;
         y0 = st ! 3;
         x0 = (st ! 0 AND TINYMT32_MASK) XOR st ! 1 XOR st ! 2;
         x = x0 XOR push_bit 1 x0;
         y = y0 XOR (drop_bit 1 y0 XOR x);
         st1 = [st ! 1, st ! 2, x XOR push_bit 10 y, y];
         st2 = st1[1 := st1 ! 1 XOR (- (y AND 1) AND mat1_32 random)];
         st3 = st2[2 := st2 ! 2 XOR (- (y AND 1) AND mat2_32 random)]
     in random\<lparr>status32 := st3\<rparr>)"

definition temper_word32 :: "tinymt32_t \<Rightarrow> UInt32" where
  "temper_word32 random =
    (let t1 = status32 random ! 0 + drop_bit 8 (status32 random ! 2);
         t0 = status32 random ! 3 XOR t1
     in t0 XOR (- (t1 AND 1) AND tmat_32 random))"

definition tinymt32_temper :: "tinymt32_t \<Rightarrow> UInt32" where
  "tinymt32_temper random = temper_word32 random"

definition conv_u32 :: "tinymt32_t \<Rightarrow> UInt32" where
  "conv_u32 random = drop_bit 9 (temper_word32 random) OR 0x3f800000"

definition conv_open_u32 :: "tinymt32_t \<Rightarrow> UInt32" where
  "conv_open_u32 random = drop_bit 9 (temper_word32 random) OR 0x3f800001"

text \<open>The value of a normal \<open>float\<close> and a normal \<open>double\<close> whose sign bit is clear.\<close>

definition float_value :: "UInt32 \<Rightarrow> real" where
  "float_value u = (1 + real (unat (take_bit 23 u)) / 2 ^ 23) * 2 ^ unat (drop_bit 23 u) / 2 ^ 127"

definition double_value :: "UInt64 \<Rightarrow> real" where
  "double_value u = (1 + real (unat (take_bit 52 u)) / 2 ^ 52) * 2 ^ unat (drop_bit 52 u) / 2 ^ 1023"

text \<open>The distance of the floating point numbers of \<open>p\<close> digits around \<open>n\<close>, and rounding to one of them.\<close>

function ulp :: "nat \<Rightarrow> nat \<Rightarrow> nat" where
  "ulp p n = (if n < 2 ^ p then 1 else 2 * ulp p (n div 2))"
  by pat_completeness auto
termination
proof (relation "measure snd")
  fix p n :: nat assume "\<not> n < 2 ^ p"
  then have "0 < n" by (metis gr0I zero_less_numeral zero_less_power)
  then show "((p, n div 2), (p, n)) \<in> measure snd" by simp
qed simp

declare ulp.simps [simp del]

definition round_to :: "nat \<Rightarrow> nat \<Rightarrow> nat" where
  "round_to p n = (let u = ulp p n; q = n div u; r = n mod u in
     if 2 * r < u \<or> 2 * r = u \<and> even q then q * u else (q + 1) * u)"

definition tinymt32_temper_conv :: "tinymt32_t \<Rightarrow> real" where
  "tinymt32_temper_conv random = float_value (conv_u32 random)"

definition tinymt32_temper_conv_open :: "tinymt32_t \<Rightarrow> real" where
  "tinymt32_temper_conv_open random = float_value (conv_open_u32 random)"

definition tinymt32_generate_uint32 :: "tinymt32_t \<Rightarrow> UInt32 \<times> tinymt32_t" where
  "tinymt32_generate_uint32 random = (let random' = tinymt32_next_state random in (tinymt32_temper random', random'))"

definition tinymt32_generate_float :: "tinymt32_t \<Rightarrow> real \<times> tinymt32_t" where
  "tinymt32_generate_float random = (let random' = tinymt32_next_state random in
     (real (round_to 24 (unat (tinymt32_temper random'))) / 2 ^ 32, random'))"

definition tinymt32_generate_float12 :: "tinymt32_t \<Rightarrow> real \<times> tinymt32_t" where
  "tinymt32_generate_float12 random = (let random' = tinymt32_next_state random in (tinymt32_temper_conv random', random'))"

definition tinymt32_generate_float01 :: "tinymt32_t \<Rightarrow> real \<times> tinymt32_t" where
  "tinymt32_generate_float01 random = (let random' = tinymt32_next_state random in (tinymt32_temper_conv random' - 1, random'))"

definition tinymt32_generate_floatOO :: "tinymt32_t \<Rightarrow> real \<times> tinymt32_t" where
  "tinymt32_generate_floatOO random = (let random' = tinymt32_next_state random in (tinymt32_temper_conv_open random' - 1, random'))"

definition tinymt32_generate_32double :: "tinymt32_t \<Rightarrow> real \<times> tinymt32_t" where
  "tinymt32_generate_32double random = (let random' = tinymt32_next_state random in
     (real (unat (tinymt32_temper random')) / 2 ^ 32, random'))"

subsection \<open>Initialisation\<close>

definition MIN_LOOP :: nat where
  "MIN_LOOP = 8"

definition ini_func1_32 :: "UInt32 \<Rightarrow> UInt32" where
  "ini_func1_32 x = (x XOR drop_bit 27 x) * 1664525"

definition ini_func2_32 :: "UInt32 \<Rightarrow> UInt32" where
  "ini_func2_32 x = (x XOR drop_bit 27 x) * 1566083941"

definition period_certification32 :: "tinymt32_t \<Rightarrow> tinymt32_t" where
  "period_certification32 random =
    (let st = status32 random in
     if st ! 0 AND TINYMT32_MASK = 0 \<and> st ! 1 = 0 \<and> st ! 2 = 0 \<and> st ! 3 = 0
     then random\<lparr>status32 := [0x54, 0x49, 0x4E, 0x59]\<rparr> else random)"

definition init_step32 :: "nat \<Rightarrow> UInt32 list \<Rightarrow> UInt32 list" where
  "init_step32 i st = (let p = st ! ((i - 1) mod 4) in
     st[i mod 4 := st ! (i mod 4) XOR (word_of_nat i + 1812433253 * (p XOR drop_bit 30 p))])"

definition tinymt32_init :: "UInt32 \<Rightarrow> tinymt32_t \<Rightarrow> tinymt32_t" where
  "tinymt32_init seed random =
    (let st = fold init_step32 [1..<MIN_LOOP] [seed, mat1_32 random, mat2_32 random, tmat_32 random];
         random1 = period_certification32 (random\<lparr>status32 := st\<rparr>)
     in (tinymt32_next_state ^^ 8) random1)"

text \<open>
  The mixing steps of \<open>init_by_array\<close>, in both widths; \<open>f\<close> is \<open>ini_func1\<close> or \<open>ini_func2\<close>. The second loop,
  which adds no key, is the first one with a zero key.
\<close>

definition mix_first :: "('a::len word \<Rightarrow> 'a word) \<Rightarrow> nat \<Rightarrow> 'a word list \<Rightarrow> 'a word list" where
  "mix_first f key_length st =
    (let r = f (st ! 0 XOR st ! 1 XOR st ! 3);
         st1 = st[1 := st ! 1 + r];
         r1 = r + word_of_nat key_length;
         st2 = st1[2 := st1 ! 2 + r1]
     in st2[0 := r1])"

definition mix_add :: "('a::len word \<Rightarrow> 'a word) \<Rightarrow> 'a word \<Rightarrow> 'a word list \<times> nat \<Rightarrow> 'a word list \<times> nat" where
  "mix_add f key = (\<lambda>(st, i).
    (let r = f (st ! i XOR st ! ((i + 1) mod 4) XOR st ! ((i + 3) mod 4));
         st1 = st[(i + 1) mod 4 := st ! ((i + 1) mod 4) + r];
         r1 = r + (key + word_of_nat i);
         st2 = st1[(i + 2) mod 4 := st1 ! ((i + 2) mod 4) + r1]
     in (st2[i := r1], (i + 1) mod 4)))"

definition mix_xor :: "('a::len word \<Rightarrow> 'a word) \<Rightarrow> 'a word list \<times> nat \<Rightarrow> 'a word list \<times> nat" where
  "mix_xor f = (\<lambda>(st, i).
    (let r = f (st ! i + st ! ((i + 1) mod 4) + st ! ((i + 3) mod 4));
         st1 = st[(i + 1) mod 4 := st ! ((i + 1) mod 4) XOR r];
         r1 = r - word_of_nat i;
         st2 = st1[(i + 2) mod 4 := st1 ! ((i + 2) mod 4) XOR r1]
     in (st2[i := r1], (i + 1) mod 4)))"

definition mix_array :: "('a::len word \<Rightarrow> 'a word) \<Rightarrow> ('a word \<Rightarrow> 'a word) \<Rightarrow> 'a word list \<Rightarrow> 'a word list \<Rightarrow> 'a word list" where
  "mix_array g1 g2 init_key st =
    (let key_length = length init_key;
         count = (if key_length + 1 > MIN_LOOP then key_length + 1 else MIN_LOOP) - 1;
         keys = init_key @ replicate (count - key_length) 0
     in fst ((mix_xor g2 ^^ 4) (fold (mix_add g1) keys (mix_first g1 key_length st, 1))))"

definition tinymt32_init_by_array :: "UInt32 list \<Rightarrow> tinymt32_t \<Rightarrow> tinymt32_t" where
  "tinymt32_init_by_array init_key random =
    (let st = mix_array ini_func1_32 ini_func2_32 init_key [0, mat1_32 random, mat2_32 random, tmat_32 random]
     in (tinymt32_next_state ^^ 8) (period_certification32 (random\<lparr>status32 := st\<rparr>)))"

definition tinymt32_generate_floatOC :: "tinymt32_t \<Rightarrow> real \<times> tinymt32_t" where
  "tinymt32_generate_floatOC random =
    (let (f, random') = tinymt32_generate_float (tinymt32_next_state random) in (1 - f, random'))"

section \<open>The 64-bit generator\<close>

record tinymt64_t =
  status64 :: "UInt64 list"
  mat1_64 :: UInt32
  mat2_64 :: UInt32
  tmat_64 :: UInt64

definition TINYMT64_MASK :: UInt64 where
  "TINYMT64_MASK = 0x7fffffffffffffff"

definition tinymt64_next_state :: "tinymt64_t \<Rightarrow> tinymt64_t" where
  "tinymt64_next_state random =
    (let s0 = status64 random ! 0 AND TINYMT64_MASK;
         x0 = s0 XOR status64 random ! 1;
         x1 = x0 XOR push_bit 12 x0;
         x2 = x1 XOR drop_bit 32 x1;
         x3 = x2 XOR push_bit 32 x2;
         x = x3 XOR push_bit 11 x3
     in random\<lparr>status64 := [status64 random ! 1 XOR (- (x AND 1) AND ucast (mat1_64 random)),
          x XOR (- (x AND 1) AND push_bit 32 (ucast (mat2_64 random)))]\<rparr>)"

definition temper_word64 :: "tinymt64_t \<Rightarrow> UInt64" where
  "temper_word64 random =
    (let x0 = status64 random ! 0 + status64 random ! 1;
         x = x0 XOR drop_bit 8 (status64 random ! 0)
     in x XOR (- (x AND 1) AND tmat_64 random))"

definition tinymt64_temper :: "tinymt64_t \<Rightarrow> UInt64" where
  "tinymt64_temper random = temper_word64 random"

definition tinymt64_temper_conv :: "tinymt64_t \<Rightarrow> real" where
  "tinymt64_temper_conv random = double_value (drop_bit 12 (temper_word64 random) OR 0x3ff0000000000000)"

definition tinymt64_temper_conv_open :: "tinymt64_t \<Rightarrow> real" where
  "tinymt64_temper_conv_open random = double_value (drop_bit 12 (temper_word64 random) OR 0x3ff0000000000001)"

definition tinymt64_generate_uint64 :: "tinymt64_t \<Rightarrow> UInt64 \<times> tinymt64_t" where
  "tinymt64_generate_uint64 random = (let random' = tinymt64_next_state random in (tinymt64_temper random', random'))"

definition tinymt64_generate_double :: "tinymt64_t \<Rightarrow> real \<times> tinymt64_t" where
  "tinymt64_generate_double random = (let random' = tinymt64_next_state random in
     (real (round_to 53 (unat (tinymt64_temper random'))) / 2 ^ 64, random'))"

definition tinymt64_generate_double01 :: "tinymt64_t \<Rightarrow> real \<times> tinymt64_t" where
  "tinymt64_generate_double01 random = (let random' = tinymt64_next_state random in (tinymt64_temper_conv random' - 1, random'))"

definition tinymt64_generate_double12 :: "tinymt64_t \<Rightarrow> real \<times> tinymt64_t" where
  "tinymt64_generate_double12 random = (let random' = tinymt64_next_state random in (tinymt64_temper_conv random', random'))"

definition tinymt64_generate_doubleOC :: "tinymt64_t \<Rightarrow> real \<times> tinymt64_t" where
  "tinymt64_generate_doubleOC random = (let random' = tinymt64_next_state random in (2 - tinymt64_temper_conv random', random'))"

definition tinymt64_generate_doubleOO :: "tinymt64_t \<Rightarrow> real \<times> tinymt64_t" where
  "tinymt64_generate_doubleOO random = (let random' = tinymt64_next_state random in (tinymt64_temper_conv_open random' - 1, random'))"

definition ini_func1_64 :: "UInt64 \<Rightarrow> UInt64" where
  "ini_func1_64 x = (x XOR drop_bit 59 x) * 2173292883993"

definition ini_func2_64 :: "UInt64 \<Rightarrow> UInt64" where
  "ini_func2_64 x = (x XOR drop_bit 59 x) * 58885565329898161"

definition period_certification64 :: "tinymt64_t \<Rightarrow> tinymt64_t" where
  "period_certification64 random =
    (if status64 random ! 0 AND TINYMT64_MASK = 0 \<and> status64 random ! 1 = 0
     then random\<lparr>status64 := [0x54, 0x4D]\<rparr> else random)"

definition init_step64 :: "nat \<Rightarrow> UInt64 list \<Rightarrow> UInt64 list" where
  "init_step64 i st = (let p = st ! ((i - 1) mod 2) in
     st[i mod 2 := st ! (i mod 2) XOR (word_of_nat i + 6364136223846793005 * (p XOR drop_bit 62 p))])"

definition tinymt64_init :: "UInt64 \<Rightarrow> tinymt64_t \<Rightarrow> tinymt64_t" where
  "tinymt64_init seed random =
    (let st = fold init_step64 [1..<MIN_LOOP]
       [seed XOR push_bit 32 (ucast (mat1_64 random)), ucast (mat2_64 random) XOR tmat_64 random]
     in period_certification64 (random\<lparr>status64 := st\<rparr>))"

definition tinymt64_init_by_array :: "UInt64 list \<Rightarrow> tinymt64_t \<Rightarrow> tinymt64_t" where
  "tinymt64_init_by_array init_key random =
    (let st = mix_array ini_func1_64 ini_func2_64 init_key [0, ucast (mat1_64 random), ucast (mat2_64 random), tmat_64 random]
     in period_certification64 (random\<lparr>status64 := [st ! 0 XOR st ! 1, st ! 2 XOR st ! 3]\<rparr>))"

section \<open>The class Random\<close>

text \<open>
  What \<open>getRandSeed\<close> finds in its surroundings: the bytes that reading \<open>/dev/urandom\<close> delivered (\<open>None\<close> when
  it failed), the time, the address of the object, and the contents of its uninitialised variables.
\<close>

record rand_env =
  urandom :: "bytes option"
  rtime :: UInt32
  this_ptr :: UInt64
  junk :: bytes
  uninit :: bytes

text \<open>\<open>x\<close> is the static variable of the function; it is returned updated.\<close>

definition getRandSeed :: "rand_env \<Rightarrow> UInt64 \<Rightarrow> UInt64 \<times> UInt64" where
  "getRandSeed env x =
    (let got = (case urandom env of None \<Rightarrow> [] | Some bs \<Rightarrow> take 8 bs) in
     if got = []
     then (let engine = updateImpl (junk env) (updateImpl (le64 (this_ptr env)) (updateImpl (le32 (rtime env)) reset));
               d = fst (digest engine);
               x' = x + of_le64 d
           in (x', x'))
     else (of_le64 (got @ drop (length got) (uninit env)), x))"

definition initState :: "UInt64 \<Rightarrow> tinymt64_t" where
  "initState seed = tinymt64_init seed
     \<lparr>status64 = [0, 0], mat1_64 = 0x7a840f50, mat2_64 = 0xf3d8fcf6, tmat_64 = 0x9746beffffbffffe\<rparr>"

definition Random :: "rand_env \<Rightarrow> UInt64 \<Rightarrow> tinymt64_t \<times> UInt64" where
  "Random env x = (let (seed, x') = getRandSeed env x in (initState seed, x'))"

definition Random_seed :: "UInt64 \<Rightarrow> tinymt64_t" where
  "Random_seed seed = initState seed"

definition next64 :: "tinymt64_t \<Rightarrow> UInt64 \<times> tinymt64_t" where
  "next64 r = tinymt64_generate_uint64 r"

definition next32 :: "tinymt64_t \<Rightarrow> UInt32 \<times> tinymt64_t" where
  "next32 r = (let (v, r') = next64 r in (ucast v, r'))"

text \<open>The remainder by zero is undefined.\<close>

definition next32_below :: "UInt32 \<Rightarrow> tinymt64_t \<Rightarrow> (UInt32 \<times> tinymt64_t) option" where
  "next32_below n r = (if n = 0 then None else let (v, r') = next64 r in Some (ucast (v mod ucast n), r'))"

definition next64_below :: "UInt64 \<Rightarrow> tinymt64_t \<Rightarrow> (UInt64 \<times> tinymt64_t) option" where
  "next64_below n r = (if n = 0 then None else let (v, r') = next64 r in Some (v mod n, r'))"

definition nextChar :: "tinymt64_t \<Rightarrow> UInt8 \<times> tinymt64_t" where
  "nextChar r = (let (v, r') = next64 r in (ucast (drop_bit 3 v AND 0xFF), r'))"

definition nextBool :: "tinymt64_t \<Rightarrow> bool \<times> tinymt64_t" where
  "nextBool r = (let (v, r') = next64 r in (v AND 0x1000 \<noteq> 0, r'))"

definition nextDouble :: "tinymt64_t \<Rightarrow> real \<times> tinymt64_t" where
  "nextDouble r = tinymt64_generate_double01 r"


text \<open>A double is a multiple of \<open>2 ^ -52\<close> here; its conversion to \<open>float\<close> rounds it to 24 digits.\<close>

definition nextFloat :: "tinymt64_t \<Rightarrow> real \<times> tinymt64_t" where
  "nextFloat r = (let (d, r') = nextDouble r in (real (round_to 24 (nat \<lfloor>d * 2 ^ 52\<rfloor>)) / 2 ^ 52, r'))"

section \<open>The state transition is a permutation\<close>

lemma xor_push_inj:
  assumes "x XOR push_bit k x = y XOR push_bit k (y :: 'a::len word)" "0 < k"
  shows "x = y"
proof -
  have "bit x n = bit y n" for n
  proof (induction n rule: less_induct)
    case (less n)
    have "bit (x XOR push_bit k x) n = bit (y XOR push_bit k y) n" by (simp only: assms(1))
    then show ?case using less [of "n - k"] assms(2) by (auto simp: bit_simps dest: bit_imp_le_length)
  qed
  then show ?thesis by (simp add: bit_eq_iff)
qed

lemma xor_drop_inj:
  assumes "x XOR drop_bit k x = y XOR drop_bit k (y :: 'a::len word)" "0 < k"
  shows "x = y"
proof -
  have "bit x n = bit y n" for n
  proof (induction "LENGTH('a) - n" arbitrary: n rule: less_induct)
    case less
    have "bit (x XOR drop_bit k x) n = bit (y XOR drop_bit k y) n" by (simp only: assms(1))
    then have "(bit x n \<noteq> bit x (k + n)) = (bit y n \<noteq> bit y (k + n))" by (simp add: bit_simps)
    moreover have "bit x (k + n) = bit y (k + n)"
    proof (cases "n < LENGTH('a)")
      case True
      then show ?thesis using less [of "k + n"] assms(2) by simp
    next
      case False
      then have "\<not> bit x (k + n)" "\<not> bit y (k + n)" by (auto dest: bit_imp_le_length)
      then show ?thesis by simp
    qed
    ultimately show ?case by blast
  qed
  then show ?thesis by (simp add: bit_eq_iff)
qed

definition mix64 :: "UInt64 \<Rightarrow> UInt64" where
  "mix64 x0 = (let x1 = x0 XOR push_bit 12 x0; x2 = x1 XOR drop_bit 32 x1; x3 = x2 XOR push_bit 32 x2
     in x3 XOR push_bit 11 x3)"

lemma mix64_inj: "mix64 x = mix64 y \<Longrightarrow> x = y"
  unfolding mix64_def Let_def by (meson xor_push_inj xor_drop_inj zero_less_numeral)

lemma mask64_bit: "bit (w AND TINYMT64_MASK) n \<longleftrightarrow> bit w n \<and> n < 63"
proof -
  have m: "TINYMT64_MASK = mask 63" by (simp add: TINYMT64_MASK_def mask_eq_exp_minus_1)
  show ?thesis by (simp only: m) (auto simp: bit_simps)
qed

lemma mask32_bit: "bit (w AND TINYMT32_MASK) n \<longleftrightarrow> bit w n \<and> n < 31"
proof -
  have m: "TINYMT32_MASK = mask 31" by (simp add: TINYMT32_MASK_def mask_eq_exp_minus_1)
  show ?thesis by (simp only: m) (auto simp: bit_simps)
qed


text \<open>The part of the state that matters: the top bit of the first word is masked out by every step.\<close>

definition core64 :: "tinymt64_t \<Rightarrow> UInt64 \<times> UInt64" where
  "core64 r = (status64 r ! 0 AND TINYMT64_MASK, status64 r ! 1)"

definition core32 :: "tinymt32_t \<Rightarrow> UInt32 \<times> UInt32 \<times> UInt32 \<times> UInt32" where
  "core32 r = (status32 r ! 0 AND TINYMT32_MASK, status32 r ! 1, status32 r ! 2, status32 r ! 3)"

lemma low_bit_kept:
  "(x XOR (- (x AND 1) AND push_bit k m)) AND 1 = (x AND 1 :: 'a::len word)" if "0 < k"
  by (rule bit_word_eqI) (use that in \<open>auto simp: bit_simps bit_1_iff\<close>)

lemma xor_cancel: "a XOR c = b XOR c \<Longrightarrow> a = (b :: 'a::len word)"
  by (metis xor.assoc xor_self_eq xor.right_neutral)

text \<open>One step on these 127 bits.\<close>

definition step64 :: "UInt32 \<Rightarrow> UInt32 \<Rightarrow> UInt64 \<times> UInt64 \<Rightarrow> UInt64 \<times> UInt64" where
  "step64 m1 m2 = (\<lambda>(a, b). let x = mix64 (a XOR b) in
     ((b XOR (- (x AND 1) AND ucast m1)) AND TINYMT64_MASK, x XOR (- (x AND 1) AND push_bit 32 (ucast m2))))"

definition step32 :: "UInt32 \<Rightarrow> UInt32 \<Rightarrow> UInt32 \<times> UInt32 \<times> UInt32 \<times> UInt32 \<Rightarrow> UInt32 \<times> UInt32 \<times> UInt32 \<times> UInt32" where
  "step32 m1 m2 = (\<lambda>(a, b, c, d).
    (let x0 = a XOR b XOR c; x = x0 XOR push_bit 1 x0; y = (d XOR drop_bit 1 d) XOR x in
     (b AND TINYMT32_MASK, c XOR (- (y AND 1) AND m1), (x XOR push_bit 10 y) XOR (- (y AND 1) AND m2), y)))"

lemma core64_next_state: "core64 (tinymt64_next_state r) = step64 (mat1_64 r) (mat2_64 r) (core64 r)"
  by (simp add: core64_def tinymt64_next_state_def mix64_def step64_def Let_def)

lemma core32_next_state: "core32 (tinymt32_next_state r) = step32 (mat1_32 r) (mat2_32 r) (core32 r)"
  by (simp add: core32_def tinymt32_next_state_def step32_def Let_def xor.assoc)

lemma step64_inj:
  assumes "step64 m1 m2 (a, b) = step64 m1 m2 (a', b')" "\<not> bit a 63" "\<not> bit a' 63"
  shows "a = a' \<and> b = b'"
proof -
  let ?x = "mix64 (a XOR b)" and ?y = "mix64 (a' XOR b')"
  let ?m = "push_bit 32 (ucast m2) :: UInt64" and ?c = "\<lambda>x. - (x AND 1) AND ucast m1 :: UInt64"
  have e: "?x XOR (- (?x AND 1) AND ?m) = ?y XOR (- (?y AND 1) AND ?m)"
    and low: "(b XOR ?c ?x) AND TINYMT64_MASK = (b' XOR ?c ?y) AND TINYMT64_MASK"
    using assms(1) by (simp_all add: step64_def Let_def)
  have "?x AND 1 = ?y AND 1" using e by (metis low_bit_kept zero_less_numeral)
  with e have xy: "?x = ?y" by (metis xor_cancel)
  then have s: "a XOR b = a' XOR b'" by (rule mix64_inj)
  have "b = b'"
  proof (rule bit_word_eqI)
    fix n assume "n < LENGTH(64)"
    then have n: "n < 63 \<or> n = 63" by auto
    have "bit (a XOR b) n = bit (a' XOR b') n" by (simp only: s)
    moreover have "bit ((b XOR ?c ?y) AND TINYMT64_MASK) n = bit ((b' XOR ?c ?y) AND TINYMT64_MASK) n"
      using low by (simp only: xy)
    ultimately show "bit b n = bit b' n"
      using n assms(2,3) by (simp only: bit_xor_iff mask64_bit) auto
  qed
  with s show ?thesis by (metis xor_cancel)
qed

lemma step32_inj:
  assumes "step32 m1 m2 (a, b, c, d) = step32 m1 m2 (a', b', c', d')" "\<not> bit a 31" "\<not> bit a' 31"
  shows "a = a' \<and> b = b' \<and> c = c' \<and> d = d'"
proof -
  define x where "x = (a XOR b XOR c) XOR push_bit 1 (a XOR b XOR c)"
  define x' where "x' = (a' XOR b' XOR c') XOR push_bit 1 (a' XOR b' XOR c')"
  define y where "y = (d XOR drop_bit 1 d) XOR x"
  define y' where "y' = (d' XOR drop_bit 1 d') XOR x'"
  have s: "step32 m1 m2 (a, b, c, d) =
      (b AND TINYMT32_MASK, c XOR (- (y AND 1) AND m1), (x XOR push_bit 10 y) XOR (- (y AND 1) AND m2), y)"
    by (simp only: step32_def Let_def prod.case x_def y_def)
  have s': "step32 m1 m2 (a', b', c', d') =
      (b' AND TINYMT32_MASK, c' XOR (- (y' AND 1) AND m1), (x' XOR push_bit 10 y') XOR (- (y' AND 1) AND m2), y')"
    by (simp only: step32_def Let_def prod.case x'_def y'_def)
  have e: "b AND TINYMT32_MASK = b' AND TINYMT32_MASK" "c XOR (- (y AND 1) AND m1) = c' XOR (- (y' AND 1) AND m1)"
    "(x XOR push_bit 10 y) XOR (- (y AND 1) AND m2) = (x' XOR push_bit 10 y') XOR (- (y' AND 1) AND m2)" "y = y'"
    using assms(1) s s' by auto
  have c: "c = c'" using e(2,4) by (metis xor_cancel)
  have x: "x = x'" using e(3,4) by (metis xor_cancel)
  then have d: "d = d'" using e(4) unfolding y_def y'_def by (metis xor_cancel xor_drop_inj zero_less_one)
  have "a XOR b XOR c = a' XOR b' XOR c'" using x unfolding x_def x'_def by (rule xor_push_inj) simp
  then have s: "a XOR b = a' XOR b'" using c by (metis xor_cancel xor.assoc)
  have "b = b'"
  proof (rule bit_word_eqI)
    fix n assume "n < LENGTH(32)"
    then have n: "n < 31 \<or> n = 31" by auto
    have "bit (a XOR b) n = bit (a' XOR b') n" "bit (b AND TINYMT32_MASK) n = bit (b' AND TINYMT32_MASK) n"
      by (simp_all only: s e(1))
    then show "bit b n = bit b' n" using n assms(2,3) by (simp only: bit_xor_iff mask32_bit) auto
  qed
  with s c d show ?thesis by (metis xor_cancel)
qed

lemma step_core_inj:
  "step64 m1 m2 (core64 r) = step64 m1 m2 (core64 r') \<longleftrightarrow> core64 r = core64 r'"
  "step32 m1 m2 (core32 q) = step32 m1 m2 (core32 q') \<longleftrightarrow> core32 q = core32 q'"
proof -
  have "\<not> bit (w AND TINYMT64_MASK) 63" "\<not> bit (v AND TINYMT32_MASK) 31" for w v
    by (simp_all only: mask64_bit mask32_bit) simp_all
  then show "step64 m1 m2 (core64 r) = step64 m1 m2 (core64 r') \<longleftrightarrow> core64 r = core64 r'"
    "step32 m1 m2 (core32 q) = step32 m1 m2 (core32 q') \<longleftrightarrow> core32 q = core32 q'"
    unfolding core64_def core32_def by (metis step64_inj, metis step32_inj)
qed

lemma step_zero: "step64 m1 m2 (0, 0) = (0, 0)" "step32 m1 m2 (0, 0, 0, 0) = (0, 0, 0, 0)"
  by (simp_all add: step64_def step32_def mix64_def)

lemma core_zero: "core64 (r\<lparr>status64 := [0, 0]\<rparr>) = (0, 0)" "core32 (q\<lparr>status32 := [0, 0, 0, 0]\<rparr>) = (0, 0, 0, 0)"
  by (simp_all add: core64_def core32_def)

lemma next_state64_nonzero: "core64 r \<noteq> (0, 0) \<Longrightarrow> core64 (tinymt64_next_state r) \<noteq> (0, 0)"
  by (metis step_core_inj(1) core64_next_state step_zero(1) core_zero(1))

lemma next_state32_nonzero: "core32 r \<noteq> (0, 0, 0, 0) \<Longrightarrow> core32 (tinymt32_next_state r) \<noteq> (0, 0, 0, 0)"
  by (metis step_core_inj(2) core32_next_state step_zero(2) core_zero(2))

lemma period_certification_nonzero:
  "core64 (period_certification64 r) \<noteq> (0, 0)" "core32 (period_certification32 q) \<noteq> (0, 0, 0, 0)"
  by (auto simp: core64_def core32_def period_certification64_def period_certification32_def Let_def TINYMT64_MASK_def TINYMT32_MASK_def)

lemma states_nonzero:
  "core64 r \<noteq> (0, 0) \<Longrightarrow> core64 ((tinymt64_next_state ^^ n) r) \<noteq> (0, 0)"
  "core32 q \<noteq> (0, 0, 0, 0) \<Longrightarrow> core32 ((tinymt32_next_state ^^ n) q) \<noteq> (0, 0, 0, 0)"
  by (induction n) (simp_all add: next_state64_nonzero next_state32_nonzero)

text \<open>
  Both generators never reach the all-zero state, in which they would be stuck: every way of
  initialising them avoids it, every step keeps away from it, and a step is injective on the 127 bits of
  state, so that no two sequences of states ever merge.
\<close>

theorem tinymt_states:
  "core64 ((tinymt64_next_state ^^ n) (tinymt64_init seed p)) \<noteq> (0, 0)
   \<and> core64 ((tinymt64_next_state ^^ n) (tinymt64_init_by_array key p)) \<noteq> (0, 0)
   \<and> core32 ((tinymt32_next_state ^^ n) (tinymt32_init seed' q)) \<noteq> (0, 0, 0, 0)
   \<and> core32 ((tinymt32_next_state ^^ n) (tinymt32_init_by_array key' q)) \<noteq> (0, 0, 0, 0)
   \<and> (core64 (tinymt64_next_state (p\<lparr>status64 := s\<rparr>)) = core64 (tinymt64_next_state (p\<lparr>status64 := s'\<rparr>))
        \<longleftrightarrow> core64 (p\<lparr>status64 := s\<rparr>) = core64 (p\<lparr>status64 := s'\<rparr>))
   \<and> (core32 (tinymt32_next_state (q\<lparr>status32 := t\<rparr>)) = core32 (tinymt32_next_state (q\<lparr>status32 := t'\<rparr>))
        \<longleftrightarrow> core32 (q\<lparr>status32 := t\<rparr>) = core32 (q\<lparr>status32 := t'\<rparr>))"
proof (intro conjI)
  show "core64 ((tinymt64_next_state ^^ n) (tinymt64_init seed p)) \<noteq> (0, 0)"
    "core64 ((tinymt64_next_state ^^ n) (tinymt64_init_by_array key p)) \<noteq> (0, 0)"
    by (simp_all add: states_nonzero tinymt64_init_def tinymt64_init_by_array_def Let_def period_certification_nonzero)
  show "core32 ((tinymt32_next_state ^^ n) (tinymt32_init seed' q)) \<noteq> (0, 0, 0, 0)"
    "core32 ((tinymt32_next_state ^^ n) (tinymt32_init_by_array key' q)) \<noteq> (0, 0, 0, 0)"
    unfolding tinymt32_init_def tinymt32_init_by_array_def Let_def
    by (intro states_nonzero period_certification_nonzero)+
qed (simp_all add: core64_next_state core32_next_state step_core_inj)

section \<open>The ranges of Random\<close>

lemma conv_value:
  "double_value (drop_bit 12 w OR 0x3ff0000000000000) = 1 + real (unat (drop_bit 12 w)) / 2 ^ 52"
proof -
  let ?u = "drop_bit 12 w OR 0x3ff0000000000000"
  have e: "(0x3ff0000000000000 :: UInt64) = push_bit 52 0x3ff" by simp
  have t: "take_bit 52 ?u = drop_bit 12 w"
    unfolding e by (rule bit_word_eqI) (auto simp: bit_simps dest: bit_imp_le_length)
  have d: "drop_bit 52 ?u = 0x3ff"
  proof -
    have "drop_bit 52 (drop_bit 12 w OR push_bit 52 0x3ff) = take_bit 12 (0x3ff :: UInt64)"
      by (rule bit_word_eqI) (auto simp: bit_simps dest: bit_imp_le_length)
    then show ?thesis unfolding e by simp
  qed
  show ?thesis by (simp only: double_value_def t d) simp
qed

lemma drop_12_less: "unat (drop_bit 12 (w :: UInt64)) < 2 ^ 52"
  using unat_lt_exp [of w] by (simp add: unat_drop_bit_div)

lemma nextDouble_value:
  "\<exists>m < 2 ^ 52. fst (nextDouble r) = real m / 2 ^ 52"
proof -
  let ?w = "temper_word64 (tinymt64_next_state r)"
  have "fst (nextDouble r) = real (unat (drop_bit 12 ?w)) / 2 ^ 52"
    by (simp only: nextDouble_def tinymt64_generate_double01_def tinymt64_temper_conv_def conv_value Let_def) simp
  then show ?thesis using drop_12_less [of ?w] by blast
qed

lemma ulp_power: "\<exists>j. ulp p n = 2 ^ j \<and> (n < 2 ^ k \<longrightarrow> p \<le> k \<longrightarrow> j + p \<le> k)"
proof (induction p n arbitrary: k rule: ulp.induct)
  case (1 p n)
  show ?case
  proof (cases "n < 2 ^ p")
    case True
    then show ?thesis by (intro exI [of _ 0]) (simp add: ulp.simps [of p n])
  next
    case False
    then obtain j where j: "ulp p (n div 2) = 2 ^ j" "n div 2 < 2 ^ (k - 1) \<longrightarrow> p \<le> k - 1 \<longrightarrow> j + p \<le> k - 1"
      using "1.IH" by blast
    have "j + 1 + p \<le> k" if "n < 2 ^ k" "p \<le> k"
    proof -
      have "p < k" using that False by (metis le_neq_implies_less not_less)
      moreover from this that(1) have "n div 2 < 2 ^ (k - 1)" by (cases k) auto
      ultimately show ?thesis using j(2) by linarith
    qed
    then show ?thesis using j(1) False by (intro exI [of _ "Suc j"]) (simp add: ulp.simps [of p n])
  qed
qed

lemma round_to_bound:
  assumes "n < 2 ^ k" "p \<le> k"
  shows "round_to p n \<le> 2 ^ k"
proof -
  obtain j where j: "ulp p n = 2 ^ j" "j \<le> k" using ulp_power [of p n k] assms by auto
  have "n div 2 ^ j < 2 ^ (k - j)"
    using assms(1) j(2) by (simp add: less_mult_imp_div_less flip: power_add)
  then have "(n div 2 ^ j + 1) * 2 ^ j \<le> 2 ^ (k - j) * 2 ^ j" by (intro mult_right_mono) auto
  also have "\<dots> = 2 ^ k" using j(2) by (simp flip: power_add)
  finally have "(n div 2 ^ j + 1) * 2 ^ j \<le> 2 ^ k" .
  moreover have "n div 2 ^ j * 2 ^ j \<le> (n div 2 ^ j + 1) * 2 ^ j" by simp
  ultimately show ?thesis by (auto simp: round_to_def j(1) Let_def)
qed

text \<open>
  A random number below \<open>n\<close> is below \<open>n\<close>, and asking for one below zero is undefined; \<open>nextDouble\<close> is in
  \<open>[0, 1)\<close> as documented, \<open>nextFloat\<close> in \<open>[0, 1]\<close>.
\<close>

theorem random_ranges:
  "(next32_below n r = None \<longleftrightarrow> n = 0) \<and> (\<forall>v r'. next32_below n r = Some (v, r') \<longrightarrow> v < n \<and> r' = tinymt64_next_state r)
   \<and> (next64_below m r = None \<longleftrightarrow> m = 0) \<and> (\<forall>v r'. next64_below m r = Some (v, r') \<longrightarrow> v < m \<and> r' = tinymt64_next_state r)
   \<and> 0 \<le> fst (nextDouble r) \<and> fst (nextDouble r) < 1 \<and> 0 \<le> fst (nextFloat r) \<and> fst (nextFloat r) \<le> 1"
proof -
  have s: "snd (next64 r) = tinymt64_next_state r" by (simp add: next64_def tinymt64_generate_uint64_def Let_def)
  have "ucast (v mod ucast n) < n" if "n \<noteq> 0" for v :: UInt64
  proof -
    have "unat (ucast n :: UInt64) = unat n" using unat_lt_exp [of n] by (simp add: unsigned_ucast_eq take_bit_eq_mod)
    then have "unat (v mod ucast n) = unat v mod unat n" by (simp add: unat_mod)
    moreover have "unat v mod unat n < unat n" using that by (intro mod_less_divisor) (simp add: unat_gt_0)
    moreover have "unat v mod unat n < 2 ^ 32" using calculation(2) unat_lt_exp [of n] by simp
    ultimately have "unat (ucast (v mod ucast n) :: UInt32) < unat n"
      by (simp add: unsigned_ucast_eq take_bit_eq_mod)
    then show ?thesis by (simp add: word_less_nat_alt)
  qed
  moreover have "v mod m < m" if "m \<noteq> 0" for v
    using that by (simp add: word_less_nat_alt unat_mod unat_gt_0)
  moreover obtain k where k: "k < 2 ^ 52" "fst (nextDouble r) = real k / 2 ^ 52" using nextDouble_value by blast
  moreover have "fst (nextFloat r) = real (round_to 24 k) / 2 ^ 52"
    using k(2) by (simp add: nextFloat_def case_prod_unfold)
  moreover have "round_to 24 k \<le> 2 ^ 52" using k(1) by (intro round_to_bound) simp_all
  then have "real (round_to 24 k) \<le> 2 ^ 52" using of_nat_mono by fastforce
  ultimately show ?thesis using s
    by (auto simp: next32_below_def next64_below_def case_prod_unfold)
qed

theorem random_ranges_witness:
  "next32_below 0 (Random_seed 1) = None \<and> (\<exists>v r'. next32_below 10 (Random_seed 1) = Some (v, r') \<and> v < 10)"
  using random_ranges [of 0 "Random_seed 1" 0] random_ranges [of 10 "Random_seed 1" 0]
  by (cases "next32_below 10 (Random_seed 1)") auto

text \<open>
  Where rounding reaches one: \<open>tinymt32_generate_float\<close>, documented to stay below one, and
  \<open>Random::nextFloat\<close> return exactly one in the states given; and a seed read from \<open>/dev/urandom\<close> that
  comes short takes its upper bytes from an uninitialised variable.
\<close>

theorem random_flaws:
  "fst (tinymt32_generate_float \<lparr>status32 = [0x55555400, 0, 0, 0x2AA], mat1_32 = 0, mat2_32 = 0, tmat_32 = t\<rparr>) = 1
   \<and> fst (nextFloat ((initState seed)\<lparr>status64 := [0x3b8c7f3f0cff1ff4, 0]\<rparr>)) = 1
   \<and> (urandom env = Some bs \<and> 0 < length bs \<and> length bs < 8 \<longrightarrow>
        fst (getRandSeed env x) = of_le64 (bs @ drop (length bs) (uninit env)))"
proof -
  let ?r = "(initState seed)\<lparr>status64 := [0x3b8c7f3f0cff1ff4, 0]\<rparr>"
  have u: "ulp 24 4294967295 = 256" "ulp 24 4503599627370495 = 2 ^ 28" by (simp_all add: ulp.simps)
  have r: "round_to 24 4294967295 = 2 ^ 32" "round_to 24 (2 ^ 52 - 1) = 2 ^ 52" by (simp_all add: round_to_def u)
  have "fst (tinymt32_generate_float \<lparr>status32 = [0x55555400, 0, 0, 0x2AA], mat1_32 = 0, mat2_32 = 0, tmat_32 = t\<rparr>) = 1"
    using r(1) by (simp add: tinymt32_generate_float_def tinymt32_next_state_def tinymt32_temper_def temper_word32_def TINYMT32_MASK_def)
  moreover have "fst (nextDouble ?r) = real (2 ^ 52 - 1 :: nat) / 2 ^ 52"
    by (simp add: nextDouble_def tinymt64_generate_double01_def tinymt64_temper_conv_def conv_value
        tinymt64_next_state_def temper_word64_def TINYMT64_MASK_def)
  then have "fst (nextFloat ?r) = 1"
    using r(2) by (simp add: nextFloat_def case_prod_unfold)
  ultimately show ?thesis by (auto simp: getRandSeed_def)
qed

theorem random_flaws_witness:
  "fst (getRandSeed \<lparr>urandom = Some [1, 2], rtime = 0, this_ptr = 0, junk = [], uninit = [9, 9, 9, 9, 9, 9, 9, 9]\<rparr> 0)
     = of_le64 [1, 2, 9, 9, 9, 9, 9, 9]"
  using random_flaws [of 0 0 "\<lparr>urandom = Some [1, 2], rtime = 0, this_ptr = 0, junk = [], uninit = [9, 9, 9, 9, 9, 9, 9, 9]\<rparr>" "[1, 2]" 0]
  by (simp add: numeral_2_eq_2)

end
