(* ===== verification/Heap_Array.thy ===== *)
theory Heap_Array
  imports Prelude "HOL-Library.Multiset"
begin

text \<open>
  Binary heaps in arrays, shared by the timeouts of libevent and by the timers of \<open>System/Timer\<close>: moving an
  element up or down by swaps, parameterised with the test \<open>gt\<close> that orders two elements the wrong way.
  The locale \<open>heap_order\<close> states what the test has to satisfy.
\<close>

named_theorems heap_simps \<open>facts on heap positions\<close>

definition par :: "nat \<Rightarrow> nat" where
  "par i = (i - 1) div 2"

definition swap :: "nat \<Rightarrow> nat \<Rightarrow> 'a list \<Rightarrow> 'a list" where
  "swap i j xs = xs[i := xs ! j, j := xs ! i]"

function sift_up :: "('a \<Rightarrow> 'a \<Rightarrow> bool) \<Rightarrow> 'a list \<Rightarrow> nat \<Rightarrow> 'a list" where
  "sift_up gt xs h = (if h \<noteq> 0 \<and> gt (xs ! par h) (xs ! h) then sift_up gt (swap h (par h) xs) (par h) else xs)"
  by pat_completeness auto
termination
  by (relation "measure (\<lambda>(_, _, h). h)") (auto simp: par_def)

text \<open>The smaller child of \<open>h\<close>, the right one only when it is strictly smaller.\<close>

definition min_child :: "('a \<Rightarrow> 'a \<Rightarrow> bool) \<Rightarrow> 'a list \<Rightarrow> nat \<Rightarrow> nat" where
  "min_child gt xs h = (if 2 * h + 2 < length xs \<and> \<not> gt (xs ! (2 * h + 2)) (xs ! (2 * h + 1)) then 2 * h + 2 else 2 * h + 1)"

function sift_down :: "('a \<Rightarrow> 'a \<Rightarrow> bool) \<Rightarrow> 'a list \<Rightarrow> nat \<Rightarrow> 'a list" where
  "sift_down gt xs h = (if 2 * h + 1 < length xs \<and> gt (xs ! h) (xs ! min_child gt xs h)
     then sift_down gt (swap h (min_child gt xs h) xs) (min_child gt xs h) else xs)"
  by pat_completeness auto
termination
  by (relation "measure (\<lambda>(_, xs, h). length xs - h)") (auto simp: min_child_def swap_def)

declare sift_up.simps [simp del] sift_down.simps [simp del]

lemma length_swap [simp]: "length (swap i j xs) = length xs"
  by (simp add: swap_def)

lemma mset_swap: "i < length xs \<Longrightarrow> j < length xs \<Longrightarrow> mset (swap i j xs) = mset xs"
  by (simp add: swap_def Multiset.mset_swap)

lemma nth_swap:
  "i < length xs \<Longrightarrow> j < length xs \<Longrightarrow> swap i j xs ! k = (if k = i then xs ! j else if k = j then xs ! i else xs ! k)"
  by (auto simp: swap_def nth_list_update)

lemma par_less [heap_simps]: "0 < i \<Longrightarrow> par i < i"
  by (auto simp: par_def)

lemma par_child [heap_simps]: "0 < i \<Longrightarrow> par i = h \<longleftrightarrow> i = 2 * h + 1 \<or> i = 2 * h + 2"
  unfolding par_def by presburger

lemma length_sift [simp]: "length (sift_up gt xs h) = length xs" "length (sift_down gt xs h) = length xs"
proof -
  show "length (sift_up gt xs h) = length xs"
    by (induction gt xs h rule: sift_up.induct) (simp add: sift_up.simps)
  show "length (sift_down gt xs h) = length xs"
    by (induction gt xs h rule: sift_down.induct) (simp add: sift_down.simps)
qed

lemma min_child_bounds: "2 * h + 1 < length xs \<Longrightarrow> min_child gt xs h < length xs \<and> h < min_child gt xs h \<and> par (min_child gt xs h) = h"
  by (auto simp: min_child_def par_def)

lemma mset_sift_up: "h < length xs \<Longrightarrow> mset (sift_up gt xs h) = mset xs"
proof (induction gt xs h rule: sift_up.induct)
  case (1 gt xs h)
  then show ?case using par_less [of h] by (subst sift_up.simps) (auto simp: mset_swap)
qed

lemma mset_sift_down: "mset (sift_down gt xs h) = mset xs"
proof (induction gt xs h rule: sift_down.induct)
  case (1 gt xs h)
  then show ?case using min_child_bounds [of h xs gt] by (subst sift_down.simps) (auto simp: mset_swap)
qed

lemma sift_up_append: "h < length xs \<Longrightarrow> sift_up gt (xs @ ys) h = sift_up gt xs h @ ys"
proof (induction gt xs h rule: sift_up.induct)
  case (1 gt xs h)
  show ?case
  proof (cases "h \<noteq> 0 \<and> gt (xs ! par h) (xs ! h)")
    case True
    then have p: "par h < length xs" using par_less [of h] "1.prems" by simp
    then have "swap h (par h) (xs @ ys) = swap h (par h) xs @ ys"
      using "1.prems" by (simp add: swap_def nth_append list_update_append)
    then show ?thesis using True p "1.prems" "1.IH"
      by (subst (1 2) sift_up.simps) (simp add: nth_append)
  next
    case False
    then show ?thesis using "1.prems" par_less [of h] by (subst (1 2) sift_up.simps) (auto simp: nth_append)
  qed
qed

section \<open>The heap order\<close>

definition is_heap :: "('a \<Rightarrow> 'a \<Rightarrow> bool) \<Rightarrow> 'a list \<Rightarrow> bool" where
  "is_heap gt xs \<longleftrightarrow> (\<forall>i<length xs. 0 < i \<longrightarrow> \<not> gt (xs ! par i) (xs ! i))"

text \<open>A heap but for the element at \<open>h\<close>, which may be too small, or too large; its children fit its parent.\<close>

definition grand :: "('a \<Rightarrow> 'a \<Rightarrow> bool) \<Rightarrow> 'a list \<Rightarrow> nat \<Rightarrow> bool" where
  "grand gt xs h \<longleftrightarrow> (\<forall>i<length xs. 0 < h \<longrightarrow> 0 < i \<longrightarrow> par i = h \<longrightarrow> \<not> gt (xs ! par h) (xs ! i))"

definition heap_but_up :: "('a \<Rightarrow> 'a \<Rightarrow> bool) \<Rightarrow> 'a list \<Rightarrow> nat \<Rightarrow> bool" where
  "heap_but_up gt xs h \<longleftrightarrow> (\<forall>i<length xs. 0 < i \<longrightarrow> i \<noteq> h \<longrightarrow> \<not> gt (xs ! par i) (xs ! i)) \<and> grand gt xs h"

definition heap_but_down :: "('a \<Rightarrow> 'a \<Rightarrow> bool) \<Rightarrow> 'a list \<Rightarrow> nat \<Rightarrow> bool" where
  "heap_but_down gt xs h \<longleftrightarrow> (\<forall>i<length xs. 0 < i \<longrightarrow> par i \<noteq> h \<longrightarrow> \<not> gt (xs ! par i) (xs ! i)) \<and> grand gt xs h"

locale heap_order =
  fixes gt :: "'a \<Rightarrow> 'a \<Rightarrow> bool"
  assumes asym: "gt x y \<Longrightarrow> \<not> gt y x"
    and cotrans: "gt x z \<Longrightarrow> gt x y \<or> gt y z"
begin

lemma le_trans: "\<not> gt x y \<Longrightarrow> \<not> gt y z \<Longrightarrow> \<not> gt x z"
  using cotrans by blast

lemma sift_up_heap: "h < length xs \<Longrightarrow> heap_but_up gt xs h \<Longrightarrow> is_heap gt (sift_up gt xs h)"
proof (induction h arbitrary: xs rule: less_induct)
  case (less h)
  show ?case
  proof (cases "h \<noteq> 0 \<and> gt (xs ! par h) (xs ! h)")
    case False
    with less.prems show ?thesis by (subst sift_up.simps) (auto simp: is_heap_def heap_but_up_def)
  next
    case True
    let ?ys = "swap h (par h) xs"
    have p: "par h < h" "par h < length xs" using True less.prems(1) par_less [of h] by auto
    have ok: "\<not> gt (xs ! par i) (xs ! i)" if "i < length xs" "0 < i" "i \<noteq> h" for i
      using less.prems(2) that by (simp add: heap_but_up_def)
    have gr: "\<not> gt (xs ! par h) (xs ! i)" if "i < length xs" "0 < i" "par i = h" for i
      using less.prems(2) that True by (simp add: heap_but_up_def grand_def)
    have "\<not> gt (?ys ! par i) (?ys ! i)" if "i < length ?ys" "0 < i" "i \<noteq> par h" for i
    proof -
      consider "i = h" | "i \<noteq> h" "par i = h" | "i \<noteq> h" "par i = par h" | "par i \<noteq> h" "par i \<noteq> par h" "i \<noteq> h" by blast
      then show ?thesis
      proof cases
        case 1 with True asym p less.prems(1) show ?thesis by (simp add: nth_swap)
      next
        case 2 with gr that p less.prems(1) show ?thesis by (simp add: nth_swap)
      next
        case 3
        then have "\<not> gt (xs ! h) (xs ! i)" using ok [of i] that True asym le_trans by (metis length_swap)
        with 3 that p less.prems(1) show ?thesis by (simp add: nth_swap)
      next
        case 4 with ok [of i] that p less.prems(1) show ?thesis by (simp add: nth_swap)
      qed
    qed
    moreover have "grand gt ?ys (par h)"
    proof (unfold grand_def, intro allI impI)
      fix i assume i: "i < length ?ys" "0 < par h" "0 < i" "par i = par h"
      have pp: "par (par h) < par h" using i(2) by (rule par_less)
      have g: "\<not> gt (xs ! par (par h)) (xs ! par h)" using ok [of "par h"] i p by simp
      have "\<not> gt (xs ! par (par h)) (xs ! i)" if "i \<noteq> h"
        using le_trans [OF g] ok [of i] i that by simp
      with g i p pp less.prems(1) show "\<not> gt (?ys ! par (par h)) (?ys ! i)" by (auto simp: nth_swap)
    qed
    ultimately have "heap_but_up gt ?ys (par h)" by (simp add: heap_but_up_def)
    then show ?thesis using less.IH [of "par h" ?ys] p True by (subst sift_up.simps) simp
  qed
qed

lemma min_child_le:
  assumes "i < length xs" "0 < i" "par i = h"
  shows "\<not> gt (xs ! min_child gt xs h) (xs ! i)"
proof -
  have "\<not> gt (xs ! i) (xs ! i)" using asym by blast
  moreover have "i = 2 * h + 1 \<or> i = 2 * h + 2" using assms par_child by blast
  ultimately show ?thesis using assms(1) asym by (auto simp: min_child_def)
qed

lemma sift_down_heap: "h < length xs \<Longrightarrow> heap_but_down gt xs h \<Longrightarrow> is_heap gt (sift_down gt xs h)"
proof (induction "length xs - h" arbitrary: xs h rule: less_induct)
  case less
  let ?c = "min_child gt xs h"
  have ok: "\<not> gt (xs ! par i) (xs ! i)" if "i < length xs" "0 < i" "par i \<noteq> h" for i
    using less.prems(2) that by (simp add: heap_but_down_def)
  show ?case
  proof (cases "2 * h + 1 < length xs \<and> gt (xs ! h) (xs ! ?c)")
    case False
    have "\<not> gt (xs ! par i) (xs ! i)" if i: "i < length xs" "0 < i" for i
    proof (cases "par i = h")
      case True
      then have "2 * h + 1 < length xs" using i par_child [OF i(2), of h] by linarith
      with False have "\<not> gt (xs ! h) (xs ! ?c)" by simp
      then show ?thesis using True le_trans min_child_le [OF i True] by blast
    qed (use ok i in blast)
    then have "is_heap gt xs" by (simp add: is_heap_def)
    then show ?thesis using False by (subst sift_down.simps) (simp only: if_False)
  next
    case True
    let ?ys = "swap h ?c xs"
    have c: "?c < length xs" "h < ?c" "par ?c = h" using min_child_bounds True by blast+
    have "\<not> gt (?ys ! par i) (?ys ! i)" if i: "i < length ?ys" "0 < i" "par i \<noteq> ?c" for i
    proof -
      consider "i = ?c" | "i = h" "i \<noteq> ?c" | "i \<noteq> ?c" "i \<noteq> h" "par i = h" | "i \<noteq> ?c" "i \<noteq> h" "par i \<noteq> h" by blast
      then show ?thesis
      proof cases
        case 1 with c True asym less.prems(1) show ?thesis by (simp add: nth_swap)
      next
        case 2
        have "\<not> gt (xs ! par h) (xs ! ?c)" using less.prems(2) c i 2 by (simp add: heap_but_down_def grand_def)
        moreover have "par h \<noteq> h" using 2 i par_less [of h] by simp
        ultimately show ?thesis using 2 i c less.prems(1) by (simp add: nth_swap)
      next
        case 3 with min_child_le [of i xs h] i c less.prems(1) show ?thesis by (simp add: nth_swap)
      next
        case 4 with ok [of i] i c less.prems(1) show ?thesis by (simp add: nth_swap)
      qed
    qed
    moreover have "grand gt ?ys ?c"
    proof (unfold grand_def, intro allI impI)
      fix i assume i: "i < length ?ys" "0 < i" "par i = ?c"
      then have "?c < i" using par_less [of i] by simp
      then show "\<not> gt (?ys ! par ?c) (?ys ! i)" using ok [of i] i c less.prems(1) by (simp add: nth_swap)
    qed
    ultimately have "heap_but_down gt ?ys ?c" by (simp add: heap_but_down_def)
    then have "is_heap gt (sift_down gt ?ys ?c)" using c by (intro less.hyps) simp_all
    then show ?thesis using True by (subst sift_down.simps) simp
  qed
qed

lemma heap_top: "is_heap gt xs \<Longrightarrow> i < length xs \<Longrightarrow> \<not> gt (xs ! 0) (xs ! i)"
proof (induction i rule: less_induct)
  case (less i)
  show ?case
  proof (cases "i = 0")
    case True then show ?thesis using asym by blast
  next
    case False
    then have "\<not> gt (xs ! 0) (xs ! par i)" using less par_less [of i] by simp
    moreover have "\<not> gt (xs ! par i) (xs ! i)" using less.prems False by (simp add: is_heap_def)
    ultimately show ?thesis by (rule le_trans)
  qed
qed

lemma heap_top_all: "is_heap gt xs \<Longrightarrow> y \<in> set xs \<Longrightarrow> \<not> gt (hd xs) y"
  by (metis heap_top hd_conv_nth in_set_conv_nth length_pos_if_in_set list.size(3) not_less_zero)

lemma push_up_heap: "is_heap gt xs \<Longrightarrow> is_heap gt (sift_up gt (xs @ [e]) (length xs))"
proof (rule sift_up_heap)
  assume h: "is_heap gt xs"
  have "\<not> gt ((xs @ [e]) ! par i) ((xs @ [e]) ! i)" if "i < length xs" "0 < i" for i
    using h that par_less [of i] by (simp add: is_heap_def nth_append)
  moreover have "grand gt (xs @ [e]) (length xs)" by (auto simp: grand_def dest: par_less)
  ultimately show "heap_but_up gt (xs @ [e]) (length xs)" by (auto simp: heap_but_up_def)
qed simp

text \<open>Replacing the element at \<open>h\<close>: what is smaller than its parent moves up, anything else down.\<close>

lemma replace_heap:
  assumes "is_heap gt xs" "h < length xs"
  shows "is_heap gt (if 0 < h \<and> gt (xs ! par h) e then sift_up gt (xs[h := e]) h else sift_down gt (xs[h := e]) h)"
proof -
  let ?ys = "xs[h := e]"
  have ok: "\<not> gt (xs ! par i) (xs ! i)" if "i < length xs" "0 < i" for i
    using assms that by (simp add: is_heap_def)
  have gr: "grand gt ?ys h"
  proof (unfold grand_def, intro allI impI)
    fix i assume i: "i < length ?ys" "0 < h" "0 < i" "par i = h"
    then have "par h \<noteq> h" "i \<noteq> h" using par_less [of h] par_less [of i] by simp_all
    then show "\<not> gt (?ys ! par h) (?ys ! i)"
      using le_trans [of "xs ! par h" "xs ! h" "xs ! i"] ok [of h] ok [of i] i assms(2) by (simp add: nth_list_update)
  qed
  show ?thesis
  proof (cases "0 < h \<and> gt (xs ! par h) e")
    case True
    have "\<not> gt (?ys ! par i) (?ys ! i)" if i: "i < length ?ys" "0 < i" "i \<noteq> h" for i
    proof (cases "par i = h")
      case True': True
      have "\<not> gt (xs ! par h) (xs ! i)"
        using le_trans [of "xs ! par h" "xs ! h" "xs ! i"] ok [of h] ok [of i] True True' i assms(2) by simp
      then have "\<not> gt e (xs ! i)" using True asym le_trans by blast
      then show ?thesis using True' i assms(2) by simp
    qed (use ok i in \<open>simp add: nth_list_update\<close>)
    with gr have "heap_but_up gt ?ys h" by (simp add: heap_but_up_def)
    with True assms(2) sift_up_heap show ?thesis by simp
  next
    case False
    have "\<not> gt (?ys ! par i) (?ys ! i)" if i: "i < length ?ys" "0 < i" "par i \<noteq> h" for i
      using ok [of i] False i assms(2) by (cases "i = h") simp_all
    with gr have "heap_but_down gt ?ys h" by (simp add: heap_but_down_def)
    with False assms(2) sift_down_heap show ?thesis by auto
  qed
qed

end

end
