(* ===== verification/Sys_Timer.thy ===== *)
theory Sys_Timer
  imports Heap_Array
begin

text \<open>
  The timers of \<open>System/Timer\<close>: a vector of pointers kept as a heap by \<open>std::push_heap\<close> and \<open>std::pop_heap\<close>,
  with the earliest timer in front. The timers live in a store from addresses to structures; a structure that
  was deleted is \<open>None\<close>. \<open>onTimer\<close>, the pure virtual function, is a function on the object, whose derived part is
  the field \<open>tuser\<close>. Reading a deleted structure and \<open>front()\<close> of an empty vector are \<open>Undefined\<close>.
\<close>

datatype 'a behaviour = Undefined | Defined 'a

record TimerStruct =
  timeNext :: UInt32
  interval :: UInt32
  tcount :: int
  tdata :: nat

record 's timer_obj =
  timers :: "nat list"
  tstore :: "nat \<Rightarrow> TimerStruct option"
  tuser :: 's

text \<open>The heap operations of the standard library on a vector, for a comparison.\<close>

definition push_heap :: "('a \<Rightarrow> 'a \<Rightarrow> bool) \<Rightarrow> 'a list \<Rightarrow> 'a list" where
  "push_heap cmp xs = (if xs = [] then [] else sift_up cmp xs (length xs - 1))"

definition pop_heap :: "('a \<Rightarrow> 'a \<Rightarrow> bool) \<Rightarrow> 'a list \<Rightarrow> 'a list" where
  "pop_heap cmp xs = (if xs = [] then []
     else let ys = swap 0 (length xs - 1) xs in sift_down cmp (butlast ys) 0 @ [last ys])"

definition deref :: "'s timer_obj \<Rightarrow> nat \<Rightarrow> TimerStruct" where
  "deref tm a = the (tstore tm a)"

definition timerCompare :: "'s timer_obj \<Rightarrow> nat \<Rightarrow> nat \<Rightarrow> bool" where
  "timerCompare tm td1 td2 \<longleftrightarrow> timeNext (deref tm td1) > timeNext (deref tm td2)"

text \<open>\<open>new\<close> returns the address \<open>td\<close>, or fails.\<close>

definition timer_add :: "UInt32 \<Rightarrow> nat option \<Rightarrow> UInt32 \<Rightarrow> UInt32 \<Rightarrow> nat \<Rightarrow> int \<Rightarrow> 's timer_obj \<Rightarrow> nat option \<times> 's timer_obj" where
  "timer_add now new iv firstInterval dat cnt tm =
    (case new of None \<Rightarrow> (None, tm)
     | Some td \<Rightarrow>
        (let tm1 = tm\<lparr>tstore := (tstore tm)(td := Some \<lparr>timeNext = now + firstInterval, interval = iv, tcount = cnt, tdata = dat\<rparr>)\<rparr>
         in (Some td, tm1\<lparr>timers := push_heap (timerCompare tm1) (timers tm1 @ [td])\<rparr>)))"

definition timer_add_same :: "UInt32 \<Rightarrow> nat option \<Rightarrow> UInt32 \<Rightarrow> nat \<Rightarrow> int \<Rightarrow> 's timer_obj \<Rightarrow> nat option \<times> 's timer_obj" where
  "timer_add_same now new iv dat cnt tm = timer_add now new iv iv dat cnt tm"

definition timer_upd :: "nat \<Rightarrow> (TimerStruct \<Rightarrow> TimerStruct) \<Rightarrow> 's timer_obj \<Rightarrow> 's timer_obj" where
  "timer_upd td f tm = tm\<lparr>tstore := (tstore tm)(td := map_option f (tstore tm td))\<rparr>"

definition timer_remove :: "nat \<Rightarrow> 's timer_obj \<Rightarrow> 's timer_obj behaviour" where
  "timer_remove td tm = (if tstore tm td = None then Undefined else Defined (timer_upd td (\<lambda>r. r\<lparr>tcount := 0\<rparr>) tm))"

text \<open>\<open>erase(end() - 1)\<close> and \<open>delete td\<close>.\<close>

definition timer_drop :: "nat \<Rightarrow> 's timer_obj \<Rightarrow> 's timer_obj" where
  "timer_drop td tm = tm\<lparr>timers := butlast (timers tm), tstore := (tstore tm)(td := None)\<rparr>"

definition timer_pop :: "'s timer_obj \<Rightarrow> 's timer_obj" where
  "timer_pop tm = tm\<lparr>timers := pop_heap (timerCompare tm) (timers tm)\<rparr>"

text \<open>The branch of \<open>process\<close> for a timer that is due; \<open>None\<close> when the callback made \<open>td\<close> dangle.\<close>

definition timer_fire :: "(nat \<Rightarrow> nat \<Rightarrow> 's timer_obj \<Rightarrow> 's timer_obj) \<Rightarrow> nat \<Rightarrow> 's timer_obj \<Rightarrow> 's timer_obj option" where
  "timer_fire onTimer td tm =
    (let tm1 = (if tcount (deref tm td) > 0 then timer_upd td (\<lambda>r. r\<lparr>tcount := tcount r - 1\<rparr>) tm else tm);
         tm2 = onTimer td (tdata (deref tm1 td)) tm1;
         tm3 = timer_pop tm2
     in case tstore tm3 td of None \<Rightarrow> None
        | Some r \<Rightarrow>
            if tcount r = 0 then Some (timer_drop td tm3)
            else (let tm4 = timer_upd td (\<lambda>r. r\<lparr>timeNext := timeNext r + interval r\<rparr>) tm3
                  in Some (tm4\<lparr>timers := push_heap (timerCompare tm4) (timers tm4)\<rparr>)))"

partial_function (option) process_loop ::
  "(nat \<Rightarrow> nat \<Rightarrow> 's timer_obj \<Rightarrow> 's timer_obj) \<Rightarrow> UInt32 \<Rightarrow> 's timer_obj \<Rightarrow> 's timer_obj behaviour option" where
  "process_loop onTimer now tm =
    (case timers tm of [] \<Rightarrow> Some Undefined
     | td # _ \<Rightarrow>
        (case tstore tm td of None \<Rightarrow> Some Undefined
         | Some r \<Rightarrow>
            if tcount r = 0 then process_loop onTimer now (timer_drop td (timer_pop tm))
            else if now \<ge> timeNext r
            then (case timer_fire onTimer td tm of None \<Rightarrow> Some Undefined | Some tm' \<Rightarrow> process_loop onTimer now tm')
            else Some (Defined tm)))"

definition timer_process ::
  "(nat \<Rightarrow> nat \<Rightarrow> 's timer_obj \<Rightarrow> 's timer_obj) \<Rightarrow> UInt32 \<Rightarrow> 's timer_obj \<Rightarrow> 's timer_obj behaviour option" where
  "timer_process onTimer now tm = (if timers tm = [] then Some (Defined tm) else process_loop onTimer now tm)"

definition getNextTime :: "'s timer_obj \<Rightarrow> nat \<Rightarrow> UInt32" where
  "getNextTime tm td = timeNext (deref tm td)"

definition getInterval :: "'s timer_obj \<Rightarrow> nat \<Rightarrow> UInt32" where
  "getInterval tm td = interval (deref tm td)"

definition getCount :: "'s timer_obj \<Rightarrow> nat \<Rightarrow> int" where
  "getCount tm td = tcount (deref tm td)"

section \<open>The heap operations\<close>

lemma push_heap_mset [simp]: "mset (push_heap cmp xs) = mset xs" "set (push_heap cmp xs) = set xs"
proof -
  show m: "mset (push_heap cmp xs) = mset xs" by (auto simp: push_heap_def mset_sift_up)
  show "set (push_heap cmp xs) = set xs" using m by (metis mset_eq_setD)
qed

lemma pop_heap_split:
  assumes "xs \<noteq> []"
  shows "pop_heap cmp xs = butlast (pop_heap cmp xs) @ [hd xs]" "mset xs = add_mset (hd xs) (mset (butlast (pop_heap cmp xs)))"
proof -
  let ?ys = "swap 0 (length xs - 1) xs"
  have l: "0 < length xs" "length xs - 1 < length xs" using assms by simp_all
  have y1: "?ys \<noteq> []" using length_swap assms by (metis length_0_conv)
  have "last ?ys = ?ys ! (length xs - 1)" using y1 by (simp add: last_conv_nth)
  also have "\<dots> = hd xs" using l assms by (simp add: nth_swap hd_conv_nth)
  finally have y: "?ys \<noteq> []" "last ?ys = hd xs" using y1 by simp_all
  show p: "pop_heap cmp xs = butlast (pop_heap cmp xs) @ [hd xs]" using assms y by (simp add: pop_heap_def Let_def)
  have "mset ?ys = mset xs" using assms by (intro mset_swap) auto
  moreover have "mset ?ys = add_mset (last ?ys) (mset (butlast ?ys))" using y(1) by (metis append_butlast_last_id mset.simps(2) mset_append union_mset_add_mset_right add.right_neutral mset.simps(1))
  ultimately show "mset xs = add_mset (hd xs) (mset (butlast (pop_heap cmp xs)))"
    using assms y(2) by (simp add: pop_heap_def Let_def mset_sift_down)
qed

context heap_order
begin

lemma push_heap_heap: "is_heap gt xs \<Longrightarrow> is_heap gt (push_heap gt (xs @ [e]))"
  using push_up_heap by (simp add: push_heap_def)

lemma pop_heap_heap:
  assumes "is_heap gt xs" "xs \<noteq> []"
  shows "is_heap gt (butlast (pop_heap gt xs))"
proof -
  let ?n = "length xs - 1" and ?ys = "swap 0 (length xs - 1) xs"
  have e: "butlast (pop_heap gt xs) = sift_down gt (butlast ?ys) 0" using assms by (simp add: pop_heap_def Let_def)
  have l: "length (butlast ?ys) = ?n" by simp
  have "heap_but_down gt (butlast ?ys) 0"
    unfolding heap_but_down_def grand_def
  proof (intro conjI allI impI)
    fix i assume i: "i < length (butlast ?ys)" "0 < i" "par i \<noteq> 0"
    then have "butlast ?ys ! i = xs ! i" "butlast ?ys ! par i = xs ! par i"
      using par_less [OF i(2)] assms(2) by (simp_all add: nth_butlast nth_swap)
    then show "\<not> gt (butlast ?ys ! par i) (butlast ?ys ! i)" using assms(1) i by (simp add: is_heap_def)
  qed simp
  then show ?thesis unfolding e
    by (cases "?n = 0") (simp add: is_heap_def, rule sift_down_heap, simp_all)
qed

end

section \<open>The invariant\<close>

interpretation th: heap_order "timerCompare tm" for tm
  by unfold_locales (auto simp: timerCompare_def)

definition timers_ok :: "'s timer_obj \<Rightarrow> bool" where
  "timers_ok tm \<longleftrightarrow> distinct (timers tm) \<and> (\<forall>a\<in>set (timers tm). tstore tm a \<noteq> None) \<and> is_heap (timerCompare tm) (timers tm)"

lemma is_heap_cong:
  assumes "is_heap (timerCompare tm) xs" "\<And>a. a \<in> set xs \<Longrightarrow> timeNext (deref tm' a) = timeNext (deref tm a)"
  shows "is_heap (timerCompare tm') xs"
  unfolding is_heap_def
proof (intro allI impI)
  fix i assume i: "i < length xs" "0 < i"
  then have "xs ! i \<in> set xs" "xs ! par i \<in> set xs" using par_less [of i] by auto
  then show "\<not> timerCompare tm' (xs ! par i) (xs ! i)" using assms i by (simp add: is_heap_def timerCompare_def)
qed

lemma timers_ok_earliest: "timers_ok tm \<Longrightarrow> a \<in> set (timers tm) \<Longrightarrow> timeNext (deref tm (hd (timers tm))) \<le> timeNext (deref tm a)"
  using th.heap_top_all [of tm "timers tm" a] by (simp add: timers_ok_def timerCompare_def)

lemma pop_ok:
  assumes ok: "timers_ok tm" and ne: "timers tm = a # as"
  obtains xs where "timers (timer_pop tm) = xs @ [a]" "mset xs = mset as" "is_heap (timerCompare tm) xs" "a \<notin> set xs" "distinct xs"
proof -
  let ?xs = "butlast (pop_heap (timerCompare tm) (timers tm))"
  have p: "timers (timer_pop tm) = ?xs @ [a]" "mset ?xs = mset as"
    using pop_heap_split [of "timers tm" "timerCompare tm"] ne by (simp_all add: timer_pop_def)
  have "is_heap (timerCompare tm) ?xs" using th.pop_heap_heap [of tm "timers tm"] ok ne by (simp add: timers_ok_def)
  moreover have "a \<notin> set ?xs" "distinct ?xs" using ok ne p(2) mset_eq_setD [OF p(2)] mset_eq_imp_distinct_iff [OF p(2)]
    by (auto simp: timers_ok_def)
  ultimately show thesis using that p by blast
qed

lemma drop_ok:
  assumes ok: "timers_ok tm" and ne: "timers tm = a # as"
  shows "timers_ok (timer_drop a (timer_pop tm)) \<and> set (timers (timer_drop a (timer_pop tm))) = set as
    \<and> length (timers (timer_drop a (timer_pop tm))) = length as
    \<and> (\<forall>b\<in>set as. tstore (timer_drop a (timer_pop tm)) b = tstore tm b)"
proof -
  obtain xs where p: "timers (timer_pop tm) = xs @ [a]" "mset xs = mset as" "is_heap (timerCompare tm) xs" "a \<notin> set xs" "distinct xs"
    using pop_ok [OF ok ne] by blast
  have s: "set xs = set as" by (rule mset_eq_setD [OF p(2)])
  have st: "tstore (timer_drop a (timer_pop tm)) b = tstore tm b" if "b \<in> set as" for b
    using that p(4) s by (auto simp: timer_drop_def timer_pop_def)
  have "is_heap (timerCompare (timer_drop a (timer_pop tm))) xs" by (rule is_heap_cong [OF p(3)]) (simp add: deref_def st s)
  moreover have "timers (timer_drop a (timer_pop tm)) = xs" using p(1) by (simp add: timer_drop_def)
  ultimately show ?thesis using ok ne p(5) st s mset_eq_length [OF p(2)] by (auto simp: timers_ok_def)
qed

lemma add_ok:
  assumes ok: "timers_ok tm" and new: "td \<notin> set (timers tm)" and r: "timer_add now (Some td) iv first dat cnt tm = (p, tm')"
  shows "p = Some td \<and> timers_ok tm' \<and> mset (timers tm') = add_mset td (mset (timers tm))
    \<and> tstore tm' = (tstore tm)(td \<mapsto> \<lparr>timeNext = now + first, interval = iv, tcount = cnt, tdata = dat\<rparr>) \<and> tuser tm' = tuser tm"
proof -
  let ?tm1 = "tm\<lparr>tstore := (tstore tm)(td \<mapsto> \<lparr>timeNext = now + first, interval = iv, tcount = cnt, tdata = dat\<rparr>)\<rparr>"
  have e: "tm' = ?tm1\<lparr>timers := push_heap (timerCompare ?tm1) (timers tm @ [td])\<rparr>" "p = Some td"
    using r by (auto simp: timer_add_def Let_def)
  have "is_heap (timerCompare ?tm1) (timers tm)" by (rule is_heap_cong [of tm]) (use ok new in \<open>auto simp: timers_ok_def deref_def\<close>)
  then have "is_heap (timerCompare ?tm1) (timers tm')" using th.push_heap_heap e by simp
  then have "is_heap (timerCompare tm') (timers tm')" by (rule is_heap_cong) (simp add: e deref_def)
  moreover have m: "mset (timers tm') = add_mset td (mset (timers tm))" using e by simp
  then have "distinct (timers tm')" "set (timers tm') = insert td (set (timers tm))"
    using ok new by (metis distinct.simps(2) mset.simps(2) mset_eq_imp_distinct_iff timers_ok_def, metis set_mset_add_mset_insert set_mset_mset)
  ultimately show ?thesis using ok e m by (auto simp: timers_ok_def)
qed

section \<open>Processing\<close>

text \<open>
  How often a timer is called at time \<open>now\<close>: at its next time and then once per interval up to \<open>now\<close>, but not more
  often than its count allows; a negative count is no limit.
\<close>

definition due_calls :: "UInt32 \<Rightarrow> TimerStruct \<Rightarrow> nat" where
  "due_calls now r = (if tcount r = 0 \<or> now < timeNext r then 0
     else let k = (unat now - unat (timeNext r)) div unat (interval r) + 1 in if tcount r < 0 then k else min (nat (tcount r)) k)"

definition after_call :: "TimerStruct \<Rightarrow> TimerStruct" where
  "after_call r = r\<lparr>tcount := (if tcount r > 0 then tcount r - 1 else tcount r), timeNext := timeNext r + interval r\<rparr>"

text \<open>The interval is positive and adding it to a time up to \<open>now\<close> does not wrap around.\<close>

definition advances :: "UInt32 \<Rightarrow> TimerStruct \<Rightarrow> bool" where
  "advances now r \<longleftrightarrow> 0 < interval r \<and> unat now + unat (interval r) < 2 ^ 32"

lemma unat_advance:
  assumes "advances now r" "timeNext r \<le> now"
  shows "unat (timeNext r + interval r) = unat (timeNext r) + unat (interval r)"
proof -
  have "unat (timeNext r) \<le> unat now" using assms(2) by (simp add: word_le_nat_alt)
  then have "unat (timeNext r) + unat (interval r) < 2 ^ LENGTH(32)" using assms(1) by (simp add: advances_def)
  then show ?thesis using unat_add_lem by blast
qed

lemma due_calls_step:
  assumes a: "advances now r" and d: "timeNext r \<le> now" "tcount r \<noteq> 0"
  shows "due_calls now r = Suc (due_calls now (after_call r))"
proof -
  let ?n = "unat now" and ?t = "unat (timeNext r)" and ?i = "unat (interval r)"
  have i: "0 < ?i" using a by (simp add: advances_def word_gt_0 unat_gt_0)
  have t: "?t \<le> ?n" using d(1) by (simp add: word_le_nat_alt)
  have nx: "unat (timeNext r + interval r) = ?t + ?i" by (rule unat_advance [OF a d(1)])
  show ?thesis
  proof (cases "?t + ?i \<le> ?n")
    case True
    then have "(?n - ?t) div ?i = (?n - (?t + ?i)) div ?i + 1" using i by (metis Nat.le_diff_conv2 add.commute diff_diff_left le_div_geq t Suc_eq_plus1)
    moreover have "\<not> now < timeNext r + interval r" "\<not> now < timeNext r" using True nx t by (simp_all add: word_less_nat_alt)
    ultimately show ?thesis using d(2) nx by (auto simp: due_calls_def after_call_def Let_def)
  next
    case False
    then have "?n - ?t < ?i" using t by linarith
    then have "(?n - ?t) div ?i = 0" by (rule div_less)
    moreover have "now < timeNext r + interval r" "\<not> now < timeNext r" using False nx t by (simp_all add: word_less_nat_alt)
    ultimately show ?thesis using d(2) by (auto simp: due_calls_def after_call_def Let_def)
  qed
qed

lemma after_call_keeps [simp]: "advances now (after_call r) = advances now r" "interval (after_call r) = interval r" "tdata (after_call r) = tdata r"
  by (simp_all add: advances_def after_call_def)

text \<open>A callback that only changes the derived object.\<close>

definition quiet :: "(nat \<Rightarrow> nat \<Rightarrow> 's \<Rightarrow> 's) \<Rightarrow> nat \<Rightarrow> nat \<Rightarrow> 's timer_obj \<Rightarrow> 's timer_obj" where
  "quiet f td dat tm = tm\<lparr>tuser := f td dat (tuser tm)\<rparr>"

lemma fire_ok:
  assumes ok: "timers_ok tm" and ne: "timers tm = a # as" and r: "tstore tm a = Some r" "tcount r \<noteq> 0"
  shows "\<exists>tm'. timer_fire (quiet f) a tm = Some tm' \<and> timers_ok tm' \<and> tuser tm' = f a (tdata r) (tuser tm)
    \<and> (\<forall>b\<in>set as. tstore tm' b = tstore tm b)
    \<and> (if tcount r = 1 then set (timers tm') = set as \<and> length (timers tm') = length as
       else set (timers tm') = insert a (set as) \<and> length (timers tm') = Suc (length as) \<and> tstore tm' a = Some (after_call r))"
proof -
  let ?r1 = "r\<lparr>tcount := (if tcount r > 0 then tcount r - 1 else tcount r)\<rparr>"
  let ?tm2 = "tm\<lparr>tstore := (tstore tm)(a \<mapsto> ?r1), tuser := f a (tdata r) (tuser tm)\<rparr>"
  have st1: "(if tcount (deref tm a) > 0 then timer_upd a (\<lambda>r. r\<lparr>tcount := tcount r - 1\<rparr>) tm else tm) = tm\<lparr>tstore := (tstore tm)(a \<mapsto> ?r1)\<rparr>"
    using r(1) by (auto simp: deref_def timer_upd_def fun_upd_idem)
  have n: "timeNext (deref ?tm2 b) = timeNext (deref tm b)" for b using r(1) by (simp add: deref_def)
  have ok2: "timers_ok ?tm2" using ok is_heap_cong [OF _ n, of "timers tm"] by (auto simp: timers_ok_def)
  obtain xs where p: "timers (timer_pop ?tm2) = xs @ [a]" "mset xs = mset as" "is_heap (timerCompare ?tm2) xs" "a \<notin> set xs" "distinct xs"
    using pop_ok [OF ok2, of a as] ne by auto
  have s: "set xs = set as" by (rule mset_eq_setD [OF p(2)])
  have na: "a \<notin> set as" using ok ne by (simp add: timers_ok_def)
  have e: "timer_fire (quiet f) a tm = (if tcount ?r1 = 0 then Some (timer_drop a (timer_pop ?tm2))
     else (let tm4 = timer_upd a (\<lambda>r. r\<lparr>timeNext := timeNext r + interval r\<rparr>) (timer_pop ?tm2)
           in Some (tm4\<lparr>timers := push_heap (timerCompare tm4) (timers tm4)\<rparr>)))"
    unfolding timer_fire_def Let_def st1 by (simp add: deref_def quiet_def timer_pop_def)
  show ?thesis
  proof (cases "tcount r = 1")
    case True
    then show ?thesis using drop_ok [OF ok2, of a as] ne na e by (auto simp: timer_drop_def timer_pop_def)
  next
    case False
    define tm4 where "tm4 = timer_upd a (\<lambda>r. r\<lparr>timeNext := timeNext r + interval r\<rparr>) (timer_pop ?tm2)"
    define tm' where "tm' = tm4\<lparr>timers := push_heap (timerCompare tm4) (xs @ [a])\<rparr>"
    have st4: "tstore tm4 = (tstore tm)(a \<mapsto> after_call r)" by (auto simp: tm4_def timer_upd_def timer_pop_def after_call_def)
    have t4: "timers tm4 = xs @ [a]" using p(1) by (simp add: tm4_def timer_upd_def)
    have "is_heap (timerCompare tm4) xs" by (rule is_heap_cong [OF p(3)]) (use p(4) in \<open>auto simp: deref_def st4\<close>)
    then have "is_heap (timerCompare tm4) (timers tm')" using th.push_heap_heap [of tm4 xs a] by (simp add: tm'_def)
    then have "is_heap (timerCompare tm') (timers tm')" by (rule is_heap_cong) (simp add: deref_def tm'_def)
    moreover have "mset (timers tm') = mset (xs @ [a])" by (simp add: tm'_def)
    then have "distinct (timers tm')" "length (timers tm') = Suc (length as)"
      using p(2,4,5) by (metis distinct_append distinct_singleton disjoint_insert(1) inf_bot_right list.set(1) list.simps(15) mset_eq_imp_distinct_iff,
        metis length_append_singleton mset_eq_length p(2))
    moreover have "timer_fire (quiet f) a tm = Some tm'" using e False r(2) t4 by (auto simp: Let_def tm4_def [symmetric] tm'_def)
    ultimately show ?thesis using ok ne na s False st4 by (auto simp: timers_ok_def tm'_def) (simp_all add: tm4_def timer_upd_def timer_pop_def)
  qed
qed


text \<open>The due times of a timer's calls, and the calls \<open>ls\<close> as pairs of due time and timer.\<close>

definition call_times :: "UInt32 \<Rightarrow> TimerStruct \<Rightarrow> nat list" where
  "call_times now r = map (\<lambda>j. unat (timeNext r) + j * unat (interval r)) [0..<due_calls now r]"

definition calls_of :: "nat \<Rightarrow> (nat \<times> nat) list \<Rightarrow> nat list" where
  "calls_of a ls = map fst (filter (\<lambda>p. snd p = a) ls)"

lemma call_times_step:
  assumes a: "advances now r" and d: "timeNext r \<le> now" "tcount r \<noteq> 0"
  shows "call_times now r = unat (timeNext r) # (if tcount r = 1 then [] else call_times now (after_call r))"
proof -
  have n: "unat (timeNext (after_call r)) = unat (timeNext r) + unat (interval r)"
    using unat_advance [OF a d(1)] by (simp add: after_call_def)
  have "due_calls now (after_call r) = 0" if "tcount r = 1" using that by (simp add: due_calls_def after_call_def)
  then show ?thesis
    unfolding call_times_def due_calls_step [OF a d] by (simp add: upt_conv_Cons map_Suc_upt [symmetric] n del: upt_Suc)
qed

text \<open>A timer that is still in use after its calls at \<open>now\<close>.\<close>

definition survives :: "UInt32 \<Rightarrow> TimerStruct \<Rightarrow> bool" where
  "survives now r \<longleftrightarrow> tcount r < 0 \<or> due_calls now r < nat (tcount r)"

lemma survives_step:
  assumes "advances now r" "timeNext r \<le> now" "tcount r \<noteq> 0" "survives now r"
  shows "survives now (after_call r)" "tcount r \<noteq> 1"
  using assms due_calls_step [OF assms(1-3)] by (auto simp: survives_def after_call_def)

definition timer_work :: "UInt32 \<Rightarrow> 's timer_obj \<Rightarrow> nat" where
  "timer_work now tm = length (timers tm) + (\<Sum>a\<in>set (timers tm). due_calls now (deref tm a))"

lemma work_drop:
  assumes "timers tm = a # as" "set (timers tm') = set as" "length (timers tm') = length as"
    "\<forall>b\<in>set as. tstore tm' b = tstore tm b" "distinct (timers tm)"
  shows "timer_work now tm' < timer_work now tm"
  using assms by (simp add: timer_work_def deref_def)

text \<open>One turn of the loop: what it needs, and what a run \<open>ls\<close> of calls from there does.\<close>

definition can_process :: "UInt32 \<Rightarrow> 's timer_obj \<Rightarrow> bool" where
  "can_process now tm \<longleftrightarrow> timers_ok tm \<and> (\<forall>a\<in>set (timers tm). advances now (deref tm a)) \<and> (\<exists>a\<in>set (timers tm). survives now (deref tm a))"

definition processed :: "(nat \<Rightarrow> nat \<Rightarrow> 's \<Rightarrow> 's) \<Rightarrow> UInt32 \<Rightarrow> 's timer_obj \<Rightarrow> (nat \<times> nat) list \<Rightarrow> 's timer_obj \<Rightarrow> bool" where
  "processed f now tm ls tm' \<longleftrightarrow> timers_ok tm' \<and> set (timers tm') \<subseteq> set (timers tm)
     \<and> (\<forall>a\<in>set (timers tm'). now < timeNext (deref tm' a) \<and> interval (deref tm' a) = interval (deref tm a) \<and> tdata (deref tm' a) = tdata (deref tm a))
     \<and> (\<forall>a\<in>set (timers tm). survives now (deref tm a) \<longrightarrow> a \<in> set (timers tm'))
     \<and> sorted (map fst ls) \<and> snd ` set ls \<subseteq> set (timers tm) \<and> (\<forall>p\<in>set ls. \<exists>a\<in>set (timers tm). unat (timeNext (deref tm a)) \<le> fst p)
     \<and> (\<forall>a\<in>set (timers tm). calls_of a ls = call_times now (deref tm a))
     \<and> tuser tm' = fold (\<lambda>(t, a). f a (tdata (deref tm a))) ls (tuser tm)"


lemma fold_cong_data:
  assumes "\<And>p. p \<in> set ls \<Longrightarrow> tdata (deref tm (snd p)) = tdata (deref tm1 (snd p))"
  shows "fold (\<lambda>(t, a). f a (tdata (deref tm a))) ls u = fold (\<lambda>(t, a). f a (tdata (deref tm1 a))) ls u"
  by (rule fold_cong) (use assms in \<open>auto simp: case_prod_unfold\<close>)

lemma calls_of_other: "a \<notin> snd ` set ls \<Longrightarrow> calls_of a ls = []"
  by (auto simp: calls_of_def filter_empty_conv)

lemma processed_drop:
  assumes ne: "timers tm = a # as" and s: "set (timers tm1) = set as" and st: "\<forall>b\<in>set as. tstore tm1 b = tstore tm b"
    and z: "tcount (deref tm a) = 0" "a \<notin> set as" and u: "tuser tm1 = tuser tm" and p: "processed f now tm1 ls tm'"
  shows "processed f now tm ls tm'"
proof -
  have d: "deref tm1 b = deref tm b" if "b \<in> set as" for b using st that by (simp add: deref_def)
  have sl: "snd ` set ls \<subseteq> set as" using p s by (simp add: processed_def)
  have "calls_of b ls = call_times now (deref tm b)" if "b \<in> set (timers tm)" for b
  proof (cases "b = a")
    case True
    then show ?thesis using calls_of_other sl z by (force simp: call_times_def due_calls_def)
  next
    case False
    then show ?thesis using that ne p s d by (auto simp: processed_def)
  qed
  moreover have "fold (\<lambda>(t, a). f a (tdata (deref tm a))) ls (tuser tm) = fold (\<lambda>(t, a). f a (tdata (deref tm1 a))) ls (tuser tm)"
    using sl d by (intro fold_cong_data) force
  moreover have "\<not> survives now (deref tm a)" using z by (simp add: survives_def)
  ultimately show ?thesis using p s d ne sl u unfolding processed_def by (auto simp: subset_iff)
qed

lemma processed_call:
  assumes ok: "timers_ok tm" and ne: "timers tm = a # as" and r: "r = deref tm a" "advances now r" "timeNext r \<le> now" "tcount r \<noteq> 0"
    and s: "set (timers tm1) = (if tcount r = 1 then set as else insert a (set as))" and st: "\<forall>b\<in>set as. tstore tm1 b = tstore tm b"
    and sta: "tcount r \<noteq> 1 \<longrightarrow> tstore tm1 a = Some (after_call r)"
    and u: "tuser tm1 = f a (tdata r) (tuser tm)" and p: "processed f now tm1 ls tm'"
  shows "processed f now tm ((unat (timeNext r), a) # ls) tm'"
proof -
  have na: "a \<notin> set as" using ok ne by (simp add: timers_ok_def)
  have d: "deref tm1 b = deref tm b" if "b \<in> set as" for b using st that by (simp add: deref_def)
  have da: "deref tm1 a = after_call r" if "tcount r \<noteq> 1" using sta that by (simp add: deref_def)
  have sl: "snd ` set ls \<subseteq> set (timers tm1)" using p by (simp add: processed_def)
  have calls: "calls_of b ((unat (timeNext r), a) # ls) = call_times now (deref tm b)" if "b \<in> set (timers tm)" for b
  proof (cases "b = a")
    case True
    have "calls_of a ls = (if tcount r = 1 then [] else call_times now (after_call r))"
    proof (cases "tcount r = 1")
      case True
      then have "a \<notin> snd ` set ls" using sl s na by auto
      then show ?thesis using True calls_of_other by simp
    next
      case False
      then show ?thesis using p s da by (simp add: processed_def)
    qed
    then show ?thesis using True call_times_step [OF r(2-4)] r(1) by (simp add: calls_of_def)
  next
    case False
    then have "calls_of b ls = call_times now (deref tm b)" using that ne p s d by (auto simp: processed_def)
    then show ?thesis using False by (simp add: calls_of_def)
  qed
  have le: "unat (timeNext r) \<le> unat (timeNext (deref tm1 b))" if "b \<in> set (timers tm1)" for b
  proof (cases "b = a")
    case True
    then have "tcount r \<noteq> 1" using that s na by auto
    then show ?thesis using True da unat_advance [OF r(2,3)] by (simp add: after_call_def)
  next
    case False
    then have "b \<in> set as" using that s by (auto split: if_splits)
    then show ?thesis using timers_ok_earliest [OF ok, of b] ne r(1) d by (simp add: word_le_nat_alt)
  qed
  have later: "unat (timeNext r) \<le> fst p" if "p \<in> set ls" for p
    using p that le unfolding processed_def by (meson order_trans)
  have dt: "tdata (deref tm1 b) = tdata (deref tm b) \<and> interval (deref tm1 b) = interval (deref tm b)" if "b \<in> set (timers tm1)" for b
    using that s d da r(1) by (cases "b = a") (auto split: if_splits)
  have "fold (\<lambda>(t, a). f a (tdata (deref tm a))) ls v = fold (\<lambda>(t, a). f a (tdata (deref tm1 a))) ls v" for v
    using sl dt by (intro fold_cong_data) force
  then have us: "tuser tm' = fold (\<lambda>(t, a). f a (tdata (deref tm a))) ((unat (timeNext r), a) # ls) (tuser tm)"
    using p u r(1) by (simp add: processed_def)
  have sv: "b \<in> set (timers tm')" if "b \<in> set (timers tm)" "survives now (deref tm b)" for b
  proof (cases "b = a")
    case True
    then show ?thesis using that r(1) survives_step [OF r(2-4)] p s da by (simp add: processed_def)
  next
    case False
    then show ?thesis using that ne p s d by (auto simp: processed_def)
  qed
  have sub: "set (timers tm1) \<subseteq> set (timers tm)" using s ne by (auto split: if_splits)
  have "sorted (map fst ((unat (timeNext r), a) # ls))" using later p by (auto simp: processed_def)
  moreover have "\<exists>b\<in>set (timers tm). unat (timeNext (deref tm b)) \<le> fst q" if "q \<in> set ((unat (timeNext r), a) # ls)" for q
    using that later [of q] ne r(1) by auto
  moreover have "snd ` set ((unat (timeNext r), a) # ls) \<subseteq> set (timers tm)" using sl sub ne by auto
  moreover have left: "timers_ok tm'" "set (timers tm') \<subseteq> set (timers tm1)" using p by (simp_all add: processed_def)
  moreover have "set (timers tm') \<subseteq> set (timers tm)" using left(2) sub by blast
  moreover have "now < timeNext (deref tm' b) \<and> interval (deref tm' b) = interval (deref tm b) \<and> tdata (deref tm' b) = tdata (deref tm b)"
    if "b \<in> set (timers tm')" for b
  proof -
    have "b \<in> set (timers tm1)" using that left(2) by blast
    then show ?thesis using dt [of b] p that by (simp add: processed_def)
  qed
  ultimately show ?thesis using calls us sv unfolding processed_def by blast
qed

lemma process_loop_spec:
  assumes "can_process now tm"
  shows "\<exists>ls tm'. process_loop (quiet f) now tm = Some (Defined tm') \<and> processed f now tm ls tm'"
  using assms
proof (induction "timer_work now tm" arbitrary: tm rule: less_induct)
  case (less tm)
  have ok: "timers_ok tm" using less.prems by (simp add: can_process_def)
  obtain a as where ne: "timers tm = a # as" using less.prems by (cases "timers tm") (auto simp: can_process_def)
  obtain r where r: "tstore tm a = Some r" using ok ne by (auto simp: timers_ok_def)
  then have dr: "deref tm a = r" by (simp add: deref_def)
  have na: "a \<notin> set as" and dist: "distinct (timers tm)" using ok ne by (auto simp: timers_ok_def)
  have adv: "advances now r" using less.prems ne dr by (simp add: can_process_def)
  consider (zero) "tcount r = 0" | (due) "tcount r \<noteq> 0" "timeNext r \<le> now" | (early) "tcount r \<noteq> 0" "now < timeNext r" by force
  then show ?case
  proof cases
    case zero
    let ?tm1 = "timer_drop a (timer_pop tm)"
    note d = drop_ok [OF ok ne]
    have w: "timer_work now ?tm1 < timer_work now tm" using work_drop [OF ne, of ?tm1 now] d dist by blast
    have "\<not> survives now r" using zero by (simp add: survives_def)
    then have "can_process now ?tm1" using less.prems d ne dr by (auto simp: can_process_def deref_def)
    from less.hyps [OF w this] obtain ls tm' where "process_loop (quiet f) now ?tm1 = Some (Defined tm')" "processed f now ?tm1 ls tm'" by blast
    moreover have "processed f now tm ls tm'" if "processed f now ?tm1 ls tm'"
      using processed_drop [OF ne _ _ _ na _ that] d dr zero by (simp add: timer_drop_def timer_pop_def)
    ultimately show ?thesis using zero ne r by (subst process_loop.simps) auto
  next
    case due
    obtain tm1 where f: "timer_fire (quiet f) a tm = Some tm1" "timers_ok tm1" "tuser tm1 = f a (tdata r) (tuser tm)"
      "\<forall>b\<in>set as. tstore tm1 b = tstore tm b"
      "if tcount r = 1 then set (timers tm1) = set as \<and> length (timers tm1) = length as
       else set (timers tm1) = insert a (set as) \<and> length (timers tm1) = Suc (length as) \<and> tstore tm1 a = Some (after_call r)"
      using fire_ok [OF ok ne r due(1), of f] by blast
    have s: "set (timers tm1) = (if tcount r = 1 then set as else insert a (set as))"
      and sta: "tcount r \<noteq> 1 \<longrightarrow> tstore tm1 a = Some (after_call r)" using f(5) by (auto split: if_splits)
    have db: "deref tm1 b = (if b = a then after_call r else deref tm b)" if "b \<in> set (timers tm1)" for b
      using that f(4) s sta na by (auto simp: deref_def split: if_splits)
    have w: "timer_work now tm1 < timer_work now tm"
    proof (cases "tcount r = 1")
      case True
      then show ?thesis using work_drop [OF ne, of tm1 now] f(4,5) dist by simp
    next
      case False
      then have "(\<Sum>b\<in>set as. due_calls now (deref tm1 b)) = (\<Sum>b\<in>set as. due_calls now (deref tm b))"
        using f(4) by (intro sum.cong) (simp_all add: deref_def)
      then show ?thesis using False f(5) ne na dr due_calls_step [OF adv due(2,1)] by (simp add: timer_work_def deref_def)
    qed
    have "can_process now tm1"
      unfolding can_process_def
    proof (intro conjI ballI)
      show "timers_ok tm1" by (rule f(2))
      show "advances now (deref tm1 b)" if "b \<in> set (timers tm1)" for b
        using that db s less.prems ne adv by (auto simp: can_process_def split: if_splits)
      obtain b where b: "b \<in> set (timers tm)" "survives now (deref tm b)" using less.prems by (auto simp: can_process_def)
      show "\<exists>b\<in>set (timers tm1). survives now (deref tm1 b)"
        using b survives_step [OF adv due(2,1)] s db ne dr by (cases "b = a") auto
    qed
    from less.hyps [OF w this] obtain ls tm' where p: "process_loop (quiet f) now tm1 = Some (Defined tm')" "processed f now tm1 ls tm'" by blast
    have "processed f now tm ((unat (timeNext r), a) # ls) tm'"
      by (rule processed_call [OF ok ne _ adv due(2,1) s f(4) sta f(3) p(2)]) (simp add: dr)
    then show ?thesis using due ne r f(1) p(1) by (subst process_loop.simps) auto
  next
    case early
    then have n: "now < timeNext (deref tm b)" if "b \<in> set (timers tm)" for b
      using timers_ok_earliest [OF ok that] ne dr by simp
    then have "processed f now tm [] tm" using ok by (simp add: processed_def calls_of_def call_times_def due_calls_def)
    then show ?thesis using early ne r by (subst process_loop.simps) auto
  qed
qed



text \<open>A repeating timer whose interval is zero and which is due keeps the loop going.\<close>

definition spinning :: "UInt32 \<Rightarrow> 's timer_obj \<Rightarrow> bool" where
  "spinning now tm \<longleftrightarrow> timers_ok tm \<and>
     (\<exists>a\<in>set (timers tm). tcount (deref tm a) < 0 \<and> interval (deref tm a) = 0 \<and> timeNext (deref tm a) \<le> now)"

lemma spinning_step:
  assumes sp: "spinning now tm" and ne: "timers tm = a # as" and r: "tstore tm a = Some r"
  shows "timeNext r \<le> now" "tcount r = 0 \<Longrightarrow> spinning now (timer_drop a (timer_pop tm))"
    "tcount r \<noteq> 0 \<Longrightarrow> \<exists>tm'. timer_fire (quiet f) a tm = Some tm' \<and> spinning now tm'"
proof -
  have ok: "timers_ok tm" and dr: "deref tm a = r" using sp r by (simp_all add: spinning_def deref_def)
  have na: "a \<notin> set as" using ok ne by (simp add: timers_ok_def)
  obtain b where b: "b \<in> set (timers tm)" "tcount (deref tm b) < 0" "interval (deref tm b) = 0" "timeNext (deref tm b) \<le> now"
    using sp by (auto simp: spinning_def)
  show "timeNext r \<le> now" using timers_ok_earliest [OF ok b(1)] b(4) ne dr by simp
  show "spinning now (timer_drop a (timer_pop tm))" if "tcount r = 0"
    using drop_ok [OF ok ne] b that dr ne by (auto simp: spinning_def deref_def)
  show "\<exists>tm'. timer_fire (quiet f) a tm = Some tm' \<and> spinning now tm'" if c: "tcount r \<noteq> 0"
  proof -
    obtain tm' where f: "timer_fire (quiet f) a tm = Some tm'" "timers_ok tm'" "\<forall>b\<in>set as. tstore tm' b = tstore tm b"
      "if tcount r = 1 then set (timers tm') = set as \<and> length (timers tm') = length as
       else set (timers tm') = insert a (set as) \<and> length (timers tm') = Suc (length as) \<and> tstore tm' a = Some (after_call r)"
      using fire_ok [OF ok ne r c, of f] by blast
    have "b \<in> set (timers tm') \<and> tcount (deref tm' b) < 0 \<and> interval (deref tm' b) = 0 \<and> timeNext (deref tm' b) \<le> now"
    proof (cases "b = a")
      case True
      then show ?thesis using f(4) b dr by (auto simp: deref_def after_call_def)
    next
      case False
      then show ?thesis using f(3,4) b ne by (auto simp: deref_def split: if_splits)
    qed
    then show ?thesis using f(1,2) by (auto simp: spinning_def)
  qed
qed

lemma process_loop_spins:
  assumes "process_loop onTimer now tm = Some y"
  shows "onTimer = quiet f \<longrightarrow> \<not> spinning now tm"
proof (rule process_loop.raw_induct [OF _ assms, where P = "\<lambda>onTimer now tm y. onTimer = quiet f \<longrightarrow> \<not> spinning now tm"], intro impI notI, goal_cases)
  case (1 loop onTimer now tm y)
  obtain a as where ne: "timers tm = a # as" using 1(4) by (cases "timers tm") (auto simp: spinning_def)
  obtain r where r: "tstore tm a = Some r" using 1(4) ne by (auto simp: spinning_def timers_ok_def)
  show ?case
  proof (cases "tcount r = 0")
    case True
    then have "loop onTimer now (timer_drop a (timer_pop tm)) = Some y" using 1(2) ne r by simp
    then show ?thesis using 1(1,3) spinning_step(2) [OF 1(4) ne r True] by blast
  next
    case False
    obtain tm' where f: "timer_fire (quiet f) a tm = Some tm'" "spinning now tm'" using spinning_step(3) [OF 1(4) ne r False] by blast
    then have "loop onTimer now tm' = Some y" using 1(2,3) ne r False spinning_step(1) [OF 1(4) ne r] by simp
    then show ?thesis using 1(1,3) f(2) by blast
  qed
qed

text \<open>
  Where processing fails. When the last call of the last timer is due the loop goes on to the front of an empty vector,
  which is undefined; and a repeating timer with the interval zero makes the loop run forever.
\<close>

theorem timer_process_flaws:
  assumes ok: "timers_ok tm"
  shows "(\<forall>a r. timers tm = [a] \<and> tstore tm a = Some r \<and> (tcount r = 0 \<or> tcount r = 1 \<and> timeNext r \<le> now) \<longrightarrow>
      timer_process (quiet f) now tm = Some Undefined)
    \<and> (spinning now tm \<longrightarrow> timer_process (quiet f) now tm = None)"
proof (intro conjI allI impI)
  fix a r assume h: "timers tm = [a] \<and> tstore tm a = Some r \<and> (tcount r = 0 \<or> tcount r = 1 \<and> timeNext r \<le> now)"
  have empty: "process_loop (quiet f) now t = Some Undefined" if "timers t = []" for t
    using that by (subst process_loop.simps) simp
  show "timer_process (quiet f) now tm = Some Undefined"
  proof (cases "tcount r = 0")
    case True
    have "timers (timer_drop a (timer_pop tm)) = []" using drop_ok [OF ok, of a "[]"] h by simp
    then show ?thesis using h True empty by (subst timer_process_def, subst process_loop.simps) simp
  next
    case False
    then obtain tm' where "timer_fire (quiet f) a tm = Some tm'" "timers tm' = []"
      using fire_ok [OF ok, of a "[]" r f] h by auto
    then show ?thesis using h False empty by (subst timer_process_def, subst process_loop.simps) simp
  qed
next
  assume sp: "spinning now tm"
  then have "timers tm \<noteq> []" by (auto simp: spinning_def)
  moreover have "process_loop (quiet f) now tm = None" using process_loop_spins [of "quiet f" now tm _ f] sp by (cases "process_loop (quiet f) now tm") auto
  ultimately show "timer_process (quiet f) now tm = None" by (simp add: timer_process_def)
qed

section \<open>Examples\<close>

text \<open>The derived object records its calls. Timer 1 comes every ten seconds without limit, timer 2 twice, every three.\<close>

definition log_call :: "nat \<Rightarrow> nat \<Rightarrow> nat list \<Rightarrow> nat list" where
  "log_call td dat u = u @ [td]"

definition two_timers :: "nat list timer_obj" where
  "two_timers = snd (timer_add_same 100 (Some 2) 3 0 2 (snd (timer_add_same 100 (Some 1) 10 0 (- 1) \<lparr>timers = [], tstore = Map.empty, tuser = []\<rparr>)))"

lemma two_timers_ok: "timers_ok two_timers" "timers two_timers = [2, 1]"
  "deref two_timers 1 = \<lparr>timeNext = 110, interval = 10, tcount = - 1, tdata = 0\<rparr>"
  "deref two_timers 2 = \<lparr>timeNext = 103, interval = 3, tcount = 2, tdata = 0\<rparr>"
proof -
  show "timers two_timers = [2, 1]" "deref two_timers 1 = \<lparr>timeNext = 110, interval = 10, tcount = - 1, tdata = 0\<rparr>"
    "deref two_timers 2 = \<lparr>timeNext = 103, interval = 3, tcount = 2, tdata = 0\<rparr>" by code_simp+
  let ?e = "\<lparr>timers = [], tstore = Map.empty, tuser = []\<rparr> :: nat list timer_obj"
  let ?t1 = "timer_add 100 (Some 1) 10 10 0 (- 1) ?e"
  have "timers_ok ?e" by (simp add: timers_ok_def is_heap_def)
  then have ok1: "timers_ok (snd ?t1)" "mset (timers (snd ?t1)) = {#1#}"
    using add_ok [of ?e 1 100 10 10 0 "- 1" "fst ?t1" "snd ?t1"] by simp_all
  then have "2 \<notin> set (timers (snd ?t1))" by (metis numeral_eq_one_iff semiring_norm(85) set_mset_mset set_mset_single singletonD)
  then show "timers_ok two_timers"
    using add_ok [OF ok1(1), of 2 100 3 3 0 2 "fst (timer_add 100 (Some 2) 3 3 0 2 (snd ?t1))" two_timers]
    by (simp add: two_timers_def timer_add_same_def)
qed


theorem timer_process_flaws_witness:
  "timer_process (quiet log_call) 105 (snd (timer_add_same 100 (Some 1) 5 0 1 \<lparr>timers = [], tstore = Map.empty, tuser = []\<rparr>)) = Some Undefined
   \<and> timer_process (quiet log_call) 105 (snd (timer_add_same 100 (Some 1) 0 0 (- 1) \<lparr>timers = [], tstore = Map.empty, tuser = []\<rparr>)) = None"
proof -
  let ?a = "snd (timer_add_same 100 (Some 1) 5 0 1 \<lparr>timers = [], tstore = Map.empty, tuser = []\<rparr>) :: nat list timer_obj"
  let ?b = "snd (timer_add_same 100 (Some 1) 0 0 (- 1) \<lparr>timers = [], tstore = Map.empty, tuser = []\<rparr>) :: nat list timer_obj"
  have e: "timers ?a = [1]" "tstore ?a 1 = Some \<lparr>timeNext = 105, interval = 5, tcount = 1, tdata = 0\<rparr>"
    "timers ?b = [1]" "tstore ?b 1 = Some \<lparr>timeNext = 100, interval = 0, tcount = - 1, tdata = 0\<rparr>"
    by (simp_all add: timer_add_same_def timer_add_def push_heap_def sift_up.simps Let_def)
  then have ok: "timers_ok ?a" "timers_ok ?b" by (simp_all add: timers_ok_def is_heap_def)
  then have "spinning 105 ?b" using e by (simp add: spinning_def deref_def)
  then show ?thesis using timer_process_flaws [OF ok(1), of 105 log_call] timer_process_flaws [OF ok(2), of 105 log_call] e(1,2) by simp
qed

end
