(* ===== verification/Event_Heap.thy ===== *)
theory Event_Heap
  imports Heap_Array
begin

text \<open>
  The timeout heap of libevent, \<open>event/minheap-internal.h\<close>, with which \<open>event_base\<close> finds the timer that is
  due next. A pointer to a \<open>struct event\<close> is a number, the memory of events a function on these numbers;
  of an event the heap uses its timeout and the position in the heap it records there (\<open>-1\<close> for none).
  The array \<open>p\<close> has \<open>a\<close> cells of which the first \<open>n\<close> are in use. That \<open>mm_realloc\<close> succeeds is an argument.
\<close>

section \<open>Times\<close>

record timeval =
  tv_sec :: int
  tv_usec :: int

definition evutil_timercmp_gt :: "timeval \<Rightarrow> timeval \<Rightarrow> bool" where
  "evutil_timercmp_gt tvp uvp = (if tv_sec tvp = tv_sec uvp then tv_usec tvp > tv_usec uvp else tv_sec tvp > tv_sec uvp)"

record heap_event =
  ev_timeout :: timeval
  min_heap_idx :: int

type_synonym 'm ev_mem = "nat \<Rightarrow> 'm heap_event_scheme"

definition set_idx :: "nat \<Rightarrow> int \<Rightarrow> 'm ev_mem \<Rightarrow> 'm ev_mem" where
  "set_idx e i mem = mem(e := (mem e)\<lparr>min_heap_idx := i\<rparr>)"

section \<open>The heap\<close>

record min_heap =
  heap_p :: "nat list"
  heap_n :: nat
  heap_a :: nat

definition min_heap_elem_greater :: "'m ev_mem \<Rightarrow> nat \<Rightarrow> nat \<Rightarrow> bool" where
  "min_heap_elem_greater mem x y = evutil_timercmp_gt (ev_timeout (mem x)) (ev_timeout (mem y))"

definition min_heap_ctor :: min_heap where
  "min_heap_ctor = \<lparr>heap_p = [], heap_n = 0, heap_a = 0\<rparr>"

definition min_heap_elem_init :: "nat \<Rightarrow> 'm ev_mem \<Rightarrow> 'm ev_mem" where
  "min_heap_elem_init e mem = set_idx e (- 1) mem"

definition min_heap_empty :: "min_heap \<Rightarrow> bool" where
  "min_heap_empty s \<longleftrightarrow> 0 = heap_n s"

definition min_heap_size :: "min_heap \<Rightarrow> nat" where
  "min_heap_size s = heap_n s"

definition min_heap_top :: "min_heap \<Rightarrow> nat option" where
  "min_heap_top s = (if heap_n s \<noteq> 0 then Some (heap_p s ! 0) else None)"

definition min_heap_elt_is_top :: "'m ev_mem \<Rightarrow> nat \<Rightarrow> bool" where
  "min_heap_elt_is_top mem e \<longleftrightarrow> min_heap_idx (mem e) = 0"

function min_heap_shift_up :: "nat list \<Rightarrow> 'm ev_mem \<Rightarrow> nat \<Rightarrow> nat \<Rightarrow> nat list \<times> 'm ev_mem" where
  "min_heap_shift_up q mem hole_index e =
    (if hole_index \<noteq> 0 \<and> min_heap_elem_greater mem (q ! ((hole_index - 1) div 2)) e
     then (let parent = (hole_index - 1) div 2
           in min_heap_shift_up (q[hole_index := q ! parent]) (set_idx (q ! parent) (int hole_index) mem) parent e)
     else (q[hole_index := e], set_idx e (int hole_index) mem))"
  by pat_completeness auto
termination
  by (relation "measure (\<lambda>(_, _, h, _). h)") auto

text \<open>The child the loop of \<open>min_heap_shift_down_\<close> selects: \<open>2 * (hole_index + 1)\<close>, or the one before it.\<close>

definition selected_child :: "nat list \<Rightarrow> 'm ev_mem \<Rightarrow> nat \<Rightarrow> nat \<Rightarrow> nat" where
  "selected_child q mem m hole_index = (let min_child = 2 * (hole_index + 1) in
     if min_child = m \<or> min_heap_elem_greater mem (q ! min_child) (q ! (min_child - 1)) then min_child - 1 else min_child)"

function min_heap_shift_down :: "nat list \<Rightarrow> 'm ev_mem \<Rightarrow> nat \<Rightarrow> nat \<Rightarrow> nat \<Rightarrow> nat list \<times> 'm ev_mem" where
  "min_heap_shift_down q mem m hole_index e =
    (if 2 * (hole_index + 1) \<le> m \<and> min_heap_elem_greater mem e (q ! selected_child q mem m hole_index)
     then (let c = selected_child q mem m hole_index
           in min_heap_shift_down (q[hole_index := q ! c]) (set_idx (q ! c) (int hole_index) mem) m c e)
     else (q[hole_index := e], set_idx e (int hole_index) mem))"
  by pat_completeness auto
termination
  by (relation "measure (\<lambda>(_, _, m, h, _). m - h)") (auto simp: selected_child_def Let_def)

declare min_heap_shift_up.simps [simp del] min_heap_shift_down.simps [simp del]

definition min_heap_reserve :: "bool \<Rightarrow> nat \<Rightarrow> min_heap \<Rightarrow> bool \<times> min_heap" where
  "min_heap_reserve realloc_ok k s =
    (if heap_a s < k
     then (let a1 = (if heap_a s \<noteq> 0 then heap_a s * 2 else 8); a2 = (if a1 < k then k else a1) in
           if realloc_ok then (True, s\<lparr>heap_p := heap_p s @ replicate (a2 - heap_a s) 0, heap_a := a2\<rparr>) else (False, s))
     else (True, s))"

definition min_heap_push :: "bool \<Rightarrow> nat \<Rightarrow> min_heap \<Rightarrow> 'm ev_mem \<Rightarrow> bool \<times> min_heap \<times> 'm ev_mem" where
  "min_heap_push realloc_ok e s mem =
    (let (ok, s1) = min_heap_reserve realloc_ok (heap_n s + 1) s in
     if ok then (let (q, mem') = min_heap_shift_up (heap_p s1) mem (heap_n s1) e in (True, s1\<lparr>heap_p := q, heap_n := heap_n s1 + 1\<rparr>, mem'))
     else (False, s, mem))"

definition min_heap_pop :: "min_heap \<Rightarrow> 'm ev_mem \<Rightarrow> nat option \<times> min_heap \<times> 'm ev_mem" where
  "min_heap_pop s mem =
    (if heap_n s \<noteq> 0
     then (let e = heap_p s ! 0; m = heap_n s - 1; (q, mem') = min_heap_shift_down (heap_p s) mem m 0 (heap_p s ! m)
           in (Some e, s\<lparr>heap_p := q, heap_n := m\<rparr>, set_idx e (- 1) mem'))
     else (None, s, mem))"

definition min_heap_erase :: "nat \<Rightarrow> min_heap \<Rightarrow> 'm ev_mem \<Rightarrow> bool \<times> min_heap \<times> 'm ev_mem" where
  "min_heap_erase e s mem =
    (if min_heap_idx (mem e) \<noteq> - 1
     then (let m = heap_n s - 1; last = heap_p s ! m; i = nat (min_heap_idx (mem e)); parent = (i - 1) div 2;
               (q, mem') = (if i > 0 \<and> min_heap_elem_greater mem (heap_p s ! parent) last
                            then min_heap_shift_up (heap_p s) mem i last else min_heap_shift_down (heap_p s) mem m i last)
           in (True, s\<lparr>heap_p := q, heap_n := m\<rparr>, set_idx e (- 1) mem'))
     else (False, s, mem))"

section \<open>The loops move elements like the swaps of a heap\<close>

lemma greater_set_idx [simp]: "min_heap_elem_greater (set_idx e i mem) = min_heap_elem_greater mem"
  by (auto simp: min_heap_elem_greater_def set_idx_def fun_eq_iff)

interpretation eh: heap_order "min_heap_elem_greater mem"
  by unfold_locales (auto simp: min_heap_elem_greater_def evutil_timercmp_gt_def split: if_splits)

lemma par_fold: "(h - Suc 0) div 2 = par h" "(h - 1) div 2 = par h"
  by (simp_all add: par_def)

lemma shift_up_eq:
  "h < length q \<Longrightarrow> fst (min_heap_shift_up q mem h e) = sift_up (min_heap_elem_greater mem) (q[h := e]) h"
proof (induction h arbitrary: q mem rule: less_induct)
  case (less h)
  let ?gt = "min_heap_elem_greater mem"
  show ?case
  proof (cases "h \<noteq> 0 \<and> ?gt (q ! par h) e")
    case True
    then have p: "par h < h" using par_less by simp
    have "swap h (par h) (q[h := e]) = (q[h := q ! par h])[par h := e]"
      using p less.prems by (simp add: swap_def)
    then show ?thesis using True p less.IH [of "par h" "q[h := q ! par h]" "set_idx (q ! par h) (int h) mem"] less.prems
      by (subst min_heap_shift_up.simps, subst sift_up.simps) (simp add: par_fold Let_def)
  next
    case False
    then show ?thesis using less.prems par_less [of h]
      by (subst min_heap_shift_up.simps, subst sift_up.simps) (auto simp: par_fold)
  qed
qed

lemma selected_child_eq:
  assumes "2 * h + 1 < m" "m \<le> length q"
  shows "selected_child q mem m h = min_child (min_heap_elem_greater mem) (take m (q[h := e])) h"
  using assms by (auto simp: selected_child_def min_child_def Let_def)

lemma shift_down_eq:
  "h < m \<Longrightarrow> m \<le> length q \<Longrightarrow>
   take m (fst (min_heap_shift_down q mem m h e)) = sift_down (min_heap_elem_greater mem) (take m (q[h := e])) h"
proof (induction "m - h" arbitrary: q mem h rule: less_induct)
  case less
  let ?gt = "min_heap_elem_greater mem" and ?xs = "take m (q[h := e])" and ?c = "selected_child q mem m h"
  show ?case
  proof (cases "2 * h + 1 < m \<and> ?gt e (q ! ?c)")
    case True
    have c: "?c = min_child ?gt ?xs h" using True less.prems by (intro selected_child_eq) simp_all
    have b: "?c < m" "h < ?c" using min_child_bounds [of h ?xs ?gt] True less.prems c by simp_all
    have "swap h ?c ?xs = take m ((q[h := q ! ?c])[?c := e])"
      using b less.prems by (simp add: swap_def take_update_swap)
    moreover have "take m (fst (min_heap_shift_down (q[h := q ! ?c]) (set_idx (q ! ?c) (int h) mem) m ?c e))
        = sift_down ?gt (take m ((q[h := q ! ?c])[?c := e])) ?c"
      using less.hyps [of ?c "q[h := q ! ?c]" "set_idx (q ! ?c) (int h) mem"] b less.prems by simp
    ultimately show ?thesis using True c b less.prems
      by (subst min_heap_shift_down.simps, subst sift_down.simps) (simp add: Let_def)
  next
    case False
    show ?thesis
    proof (cases "2 * h + 1 < m")
      case True
      then have c: "?c = min_child ?gt ?xs h" using less.prems by (intro selected_child_eq) simp_all
      have b: "?c < m" "h < ?c" using min_child_bounds [of h ?xs ?gt] True less.prems c by simp_all
      show ?thesis using False True b c less.prems
        by (subst min_heap_shift_down.simps, subst sift_down.simps) simp
    next
      case False
      then show ?thesis using less.prems
        by (subst min_heap_shift_down.simps, subst sift_down.simps) simp
    qed
  qed
qed

section \<open>The positions recorded in the events\<close>

definition idx_ok :: "nat \<Rightarrow> nat list \<Rightarrow> 'm ev_mem \<Rightarrow> bool" where
  "idx_ok k q mem \<longleftrightarrow> (\<forall>i<k. min_heap_idx (mem (q ! i)) = int i)"

definition idx_but :: "nat \<Rightarrow> nat list \<Rightarrow> 'm ev_mem \<Rightarrow> nat \<Rightarrow> nat \<Rightarrow> bool" where
  "idx_but k q mem h e \<longleftrightarrow> h < k \<and> k \<le> length q \<and> distinct (take k (q[h := e]))
     \<and> (\<forall>i<k. i \<noteq> h \<longrightarrow> min_heap_idx (mem (q ! i)) = int i)"

text \<open>Two memories that differ in the recorded positions of the events in \<open>X\<close> only.\<close>

definition idx_frame :: "nat set \<Rightarrow> 'm ev_mem \<Rightarrow> 'm ev_mem \<Rightarrow> bool" where
  "idx_frame X mem mem' \<longleftrightarrow> (\<forall>x. mem' x = (mem x)\<lparr>min_heap_idx := min_heap_idx (mem' x)\<rparr>) \<and> (\<forall>x. x \<notin> X \<longrightarrow> mem' x = mem x)"

lemma idx_update_self [simp]: "r\<lparr>min_heap_idx := min_heap_idx r\<rparr> = r"
  by (cases r) simp

lemma idx_frame_refl: "idx_frame X mem mem"
  by (simp add: idx_frame_def)

lemma idx_frame_set: "idx_frame X (set_idx e i mem) mem' \<Longrightarrow> e \<in> X \<Longrightarrow> idx_frame X mem mem'"
  by (auto simp: idx_frame_def set_idx_def split: if_splits)

lemma idx_frame_timeout: "idx_frame X mem mem' \<Longrightarrow> ev_timeout (mem' x) = ev_timeout (mem x)"
  unfolding idx_frame_def by (metis heap_event.select_convs(1) heap_event.surjective heap_event.update_convs(2))

lemma idx_frame_greater: "idx_frame X mem mem' \<Longrightarrow> min_heap_elem_greater mem' = min_heap_elem_greater mem"
  by (simp add: min_heap_elem_greater_def idx_frame_timeout fun_eq_iff)

lemma distinct_but:
  assumes "idx_but k q mem h e" "i < k" "i \<noteq> h"
  shows "q ! i \<noteq> e" "j < k \<Longrightarrow> j \<noteq> h \<Longrightarrow> i \<noteq> j \<Longrightarrow> q ! i \<noteq> q ! j"
proof -
  have d: "distinct (take k (q[h := e]))" "h < k" "k \<le> length q" using assms(1) by (auto simp: idx_but_def)
  show "q ! i \<noteq> e" using nth_eq_iff_index_eq [OF d(1), of i h] d assms(2,3) by simp
  show "q ! i \<noteq> q ! j" if "j < k" "j \<noteq> h" "i \<noteq> j"
    using nth_eq_iff_index_eq [OF d(1), of i j] d assms(2,3) that by simp
qed

lemma hole_step:
  assumes "idx_but k q mem h e" "c < k" "c \<noteq> h"
  shows "idx_but k (q[h := q ! c]) (set_idx (q ! c) (int h) mem) c e"
    "set (take k (q[h := q ! c, c := e])) = set (take k (q[h := e]))" "q ! c \<in> set (take k (q[h := e]))"
proof -
  have b: "h < k" "k \<le> length q" "distinct (take k (q[h := e]))" using assms(1) by (auto simp: idx_but_def)
  have sw: "take k (q[h := q ! c, c := e]) = swap h c (take k (q[h := e]))"
    using assms b by (simp add: swap_def take_update_swap)
  have m: "mset (swap h c (take k (q[h := e]))) = mset (take k (q[h := e]))"
    using assms b by (intro mset_swap) simp_all
  from m show "set (take k (q[h := q ! c, c := e])) = set (take k (q[h := e]))"
    unfolding sw by (rule mset_eq_setD)
  from m have d: "distinct (take k (q[h := q ! c, c := e]))" unfolding sw using b(3) by (metis mset_eq_imp_distinct_iff)
  have "min_heap_idx (set_idx (q ! c) (int h) mem (q[h := q ! c] ! i)) = int i" if "i < k" "i \<noteq> c" for i
    using assms b that distinct_but(2) [OF assms(1), of i c] by (cases "i = h") (auto simp: set_idx_def idx_but_def)
  with b assms(2) d show "idx_but k (q[h := q ! c]) (set_idx (q ! c) (int h) mem) c e" by (simp add: idx_but_def)
  have "q ! c = take k (q[h := e]) ! c" using assms by simp
  then show "q ! c \<in> set (take k (q[h := e]))" using assms b by (metis length_list_update length_take min.absorb2 nth_mem)
qed

lemma hole_end:
  assumes "idx_but k q mem h e"
  shows "idx_ok k (q[h := e]) (set_idx e (int h) mem)" "idx_frame (set (take k (q[h := e]))) mem (set_idx e (int h) mem)"
proof -
  have b: "h < k" "k \<le> length q" using assms by (auto simp: idx_but_def)
  show "idx_ok k (q[h := e]) (set_idx e (int h) mem)"
    unfolding idx_ok_def
  proof (intro allI impI)
    fix i assume "i < k"
    then show "min_heap_idx (set_idx e (int h) mem (q[h := e] ! i)) = int i"
      using assms b distinct_but(1) [OF assms, of i] by (cases "i = h") (auto simp: set_idx_def idx_but_def)
  qed
  have "e = take k (q[h := e]) ! h" using b by simp
  then have "e \<in> set (take k (q[h := e]))" using b by (metis length_list_update length_take min.absorb2 nth_mem)
  then show "idx_frame (set (take k (q[h := e]))) mem (set_idx e (int h) mem)"
    by (intro idx_frame_set [OF idx_frame_refl])
qed

lemma shift_up_idx:
  assumes "idx_but k q mem h e" "min_heap_shift_up q mem h e = (q', mem')"
  shows "idx_ok k q' mem' \<and> idx_frame (set (take k (q[h := e]))) mem mem' \<and> length q' = length q"
  using assms
proof (induction h arbitrary: q mem rule: less_induct)
  case (less h)
  show ?case
  proof (cases "h \<noteq> 0 \<and> min_heap_elem_greater mem (q ! par h) e")
    case True
    have p: "par h < h" "par h < k" using True par_less [of h] less.prems(1) by (auto simp: idx_but_def)
    note st = hole_step [OF less.prems(1) p(2)]
    have "min_heap_shift_up (q[h := q ! par h]) (set_idx (q ! par h) (int h) mem) (par h) e = (q', mem')"
      using less.prems(2) True by (subst (asm) min_heap_shift_up.simps) (simp add: par_fold Let_def)
    from less.IH [OF p(1) st(1) this] p(1) show ?thesis using st(2,3) idx_frame_set by (metis length_list_update less_irrefl)
  next
    case False
    then have "q' = q[h := e]" "mem' = set_idx e (int h) mem"
      using less.prems(2) by (auto simp: min_heap_shift_up.simps [of q mem h e] par_fold split: if_splits)
    then show ?thesis using hole_end [OF less.prems(1)] by simp
  qed
qed

lemma shift_down_idx:
  assumes "idx_but m q mem h e" "min_heap_shift_down q mem m h e = (q', mem')"
  shows "idx_ok m q' mem' \<and> idx_frame (set (take m (q[h := e]))) mem mem' \<and> length q' = length q"
  using assms
proof (induction "m - h" arbitrary: q mem h rule: less_induct)
  case less
  let ?c = "selected_child q mem m h"
  show ?case
  proof (cases "2 * (h + 1) \<le> m \<and> min_heap_elem_greater mem e (q ! ?c)")
    case True
    have hm: "h < m" using less.prems(1) by (simp add: idx_but_def)
    have c: "?c < m" "h < ?c" using True by (auto simp: selected_child_def Let_def)
    then have "?c \<noteq> h" by simp
    note st = hole_step [OF less.prems(1) c(1) this]
    have s: "min_heap_shift_down (q[h := q ! ?c]) (set_idx (q ! ?c) (int h) mem) m ?c e = (q', mem')"
      using less.prems(2) True by (subst (asm) min_heap_shift_down.simps) (simp add: Let_def)
    have "m - ?c < m - h" using c hm by simp
    from less.hyps [OF this st(1) s] show ?thesis using st(2,3) idx_frame_set by (metis length_list_update)
  next
    case False
    then have "q' = q[h := e]" "mem' = set_idx e (int h) mem"
      using less.prems(2) by (auto simp: min_heap_shift_down.simps [of q mem m h e] split: if_splits)
    then show ?thesis using hole_end [OF less.prems(1)] by simp
  qed
qed

section \<open>The invariant and the operations\<close>

definition heap_elems :: "min_heap \<Rightarrow> nat list" where
  "heap_elems s = take (heap_n s) (heap_p s)"

definition heap_inv :: "min_heap \<Rightarrow> 'm ev_mem \<Rightarrow> bool" where
  "heap_inv s mem \<longleftrightarrow> length (heap_p s) = heap_a s \<and> heap_n s \<le> heap_a s \<and> distinct (heap_elems s)
     \<and> idx_ok (heap_n s) (heap_p s) mem \<and> (\<forall>e. e \<notin> set (heap_elems s) \<longrightarrow> min_heap_idx (mem e) = - 1)
     \<and> is_heap (min_heap_elem_greater mem) (heap_elems s)"

lemma heap_inv_ctor: "\<forall>e. min_heap_idx (mem e) = - 1 \<Longrightarrow> heap_inv min_heap_ctor mem"
  by (simp add: heap_inv_def min_heap_ctor_def heap_elems_def idx_ok_def is_heap_def)

lemma heap_inv_idx:
  assumes "heap_inv s mem"
  shows "min_heap_idx (mem e) \<noteq> - 1 \<longleftrightarrow> e \<in> set (heap_elems s)"
    "e \<in> set (heap_elems s) \<Longrightarrow> \<exists>i<heap_n s. heap_p s ! i = e \<and> min_heap_idx (mem e) = int i"
proof -
  have b: "heap_n s \<le> length (heap_p s)" and ok: "\<And>i. i < heap_n s \<Longrightarrow> min_heap_idx (mem (heap_p s ! i)) = int i"
    and out: "e \<notin> set (heap_elems s) \<Longrightarrow> min_heap_idx (mem e) = - 1"
    using assms by (auto simp: heap_inv_def idx_ok_def)
  show "\<exists>i<heap_n s. heap_p s ! i = e \<and> min_heap_idx (mem e) = int i" if "e \<in> set (heap_elems s)"
    using that ok b by (auto simp: heap_elems_def in_set_conv_nth)
  then show "min_heap_idx (mem e) \<noteq> - 1 \<longleftrightarrow> e \<in> set (heap_elems s)" using out by force
qed

lemma reserve_inv:
  assumes "heap_inv s mem" "min_heap_reserve al k s = (True, s')"
  shows "heap_inv s' mem" "heap_elems s' = heap_elems s" "heap_n s' = heap_n s" "k \<le> heap_a s'"
proof -
  have b: "heap_n s \<le> length (heap_p s)" "length (heap_p s) = heap_a s" using assms(1) by (auto simp: heap_inv_def)
  define ys where "ys = drop (heap_a s) (heap_p s')"
  have s': "heap_p s' = heap_p s @ ys" "heap_n s' = heap_n s" "heap_a s' = length (heap_p s')" "k \<le> heap_a s'"
    using assms(2) b by (auto simp: min_heap_reserve_def Let_def ys_def split: if_splits)
  show e: "heap_elems s' = heap_elems s" using s' b by (simp add: heap_elems_def)
  have "idx_ok (heap_n s) (heap_p s @ ys) mem \<longleftrightarrow> idx_ok (heap_n s) (heap_p s) mem"
    using b(1) by (auto simp: idx_ok_def nth_append)
  then show "heap_inv s' mem" using assms(1) s' e by (auto simp: heap_inv_def)
  show "heap_n s' = heap_n s" "k \<le> heap_a s'" using s' by auto
qed

lemma push_spec:
  assumes inv: "heap_inv s mem" and "e \<notin> set (heap_elems s)" "min_heap_push al e s mem = (True, s', mem')"
  shows "heap_inv s' mem'" "mset (heap_elems s') = add_mset e (mset (heap_elems s))" "idx_frame (insert e (set (heap_elems s))) mem mem'"
proof -
  obtain s1 where r: "min_heap_reserve al (heap_n s + 1) s = (True, s1)"
    using assms(3) by (cases "min_heap_reserve al (heap_n s + 1) s") (auto simp: min_heap_push_def split: if_splits)
  note s1 = reserve_inv [OF inv r]
  let ?q = "heap_p s1" and ?n = "heap_n s1" and ?gt = "min_heap_elem_greater mem"
  have b: "?n < length ?q" "length ?q = heap_a s1" using s1 by (auto simp: heap_inv_def)
  obtain q' where u: "min_heap_shift_up ?q mem ?n e = (q', mem')" "s' = s1\<lparr>heap_p := q', heap_n := ?n + 1\<rparr>"
    using assms(3) r by (auto simp: min_heap_push_def split: prod.splits)
  have t: "take (Suc ?n) (?q[?n := e]) = heap_elems s1 @ [e]"
    using b by (simp add: heap_elems_def take_Suc_conv_app_nth)
  have "idx_but (Suc ?n) ?q mem ?n e"
    using b s1(1,2) t assms(2) by (auto simp: idx_but_def heap_inv_def idx_ok_def)
  from shift_up_idx [OF this u(1)] have f: "idx_ok (Suc ?n) q' mem'" "idx_frame (set (heap_elems s1 @ [e])) mem mem'" "length q' = length ?q"
    unfolding t by auto
  have q': "q' = sift_up ?gt (?q[?n := e]) ?n" using shift_up_eq [OF b(1), of mem e] u(1) by simp
  have sp: "?q[?n := e] = heap_elems s1 @ [e] @ drop (Suc ?n) ?q"
    using b by (simp add: heap_elems_def upd_conv_take_nth_drop)
  have len: "length (heap_elems s1) = ?n" using b by (simp add: heap_elems_def)
  have "q' = sift_up ?gt (heap_elems s1 @ [e]) ?n @ drop (Suc ?n) ?q"
    using sift_up_append [of ?n "heap_elems s1 @ [e]" ?gt "drop (Suc ?n) ?q"] len by (simp add: q' sp)
  then have el: "heap_elems s' = sift_up ?gt (heap_elems s1 @ [e]) ?n"
    using len by (simp add: u(2) heap_elems_def)
  show m: "mset (heap_elems s') = add_mset e (mset (heap_elems s))"
    unfolding el using len s1(2) by (subst mset_sift_up) simp_all
  show fr: "idx_frame (insert e (set (heap_elems s))) mem mem'" using f(2) s1(2) by simp
  have st: "set (heap_elems s') = insert e (set (heap_elems s))" using m by (metis set_mset_add_mset_insert set_mset_mset)
  have "distinct (heap_elems s')" using m inv assms(2)
    by (metis distinct.simps(2) heap_inv_def mset.simps(2) mset_eq_imp_distinct_iff)
  moreover have "min_heap_idx (mem' x) = - 1" if "x \<notin> set (heap_elems s')" for x
    using that st fr inv by (simp add: idx_frame_def heap_inv_def)
  moreover have "is_heap (min_heap_elem_greater mem') (heap_elems s')"
    using eh.push_up_heap [of mem "heap_elems s1" e] s1(1) len by (simp add: el idx_frame_greater [OF fr] heap_inv_def)
  ultimately show "heap_inv s' mem'" using f b by (simp add: heap_inv_def u(2))
qed

text \<open>Removing the element at position \<open>i\<close>: the lst element takes its place.\<close>

lemma is_heap_take: "is_heap gt xs \<Longrightarrow> is_heap gt (take m xs)"
proof (unfold is_heap_def, intro allI impI)
  fix i assume h: "\<forall>i<length xs. 0 < i \<longrightarrow> \<not> gt (xs ! par i) (xs ! i)" and i: "i < length (take m xs)" "0 < i"
  then show "\<not> gt (take m xs ! par i) (take m xs ! i)" using par_less [OF i(2)] by simp
qed

lemma remove_at:
  assumes inv: "heap_inv s mem" and i: "i < m" and m: "heap_n s = Suc m"
    and l: "lst = heap_p s ! m"
    and r: "(if i > 0 \<and> min_heap_elem_greater mem (heap_p s ! par i) lst
        then min_heap_shift_up (heap_p s) mem i lst else min_heap_shift_down (heap_p s) mem m i lst) = (q', mem')"
  shows "is_heap (min_heap_elem_greater mem) (take m q') \<and> idx_ok m q' mem' \<and> length q' = length (heap_p s)
    \<and> mset (take m q') = mset (heap_elems s) - {#heap_p s ! i#} \<and> idx_frame (set (take m q')) mem mem'"
proof -
  let ?gt = "min_heap_elem_greater mem" and ?q = "heap_p s" and ?xs = "take m (heap_p s)"
  have b: "m < length ?q" "length ?q = heap_a s" using inv m by (auto simp: heap_inv_def)
  have el: "heap_elems s = ?xs @ [lst]" using b m l by (simp add: heap_elems_def take_Suc_conv_app_nth)
  have d: "distinct (?xs @ [lst])" using inv el by (simp add: heap_inv_def)
  have "distinct (?xs[i := lst])" using d by (intro distinct_list_update) auto
  then have but: "idx_but m ?q mem i lst"
    using inv m i b by (auto simp: idx_but_def heap_inv_def idx_ok_def take_update_swap)
  have t: "take m (?q[i := lst]) = ?xs[i := lst]" by (simp add: take_update_swap)
  have tq: "take m q' = (if 0 < i \<and> ?gt (?xs ! par i) lst then sift_up ?gt (?xs[i := lst]) i else sift_down ?gt (?xs[i := lst]) i)"
  proof (cases "0 < i \<and> ?gt (?q ! par i) lst")
    case True
    then have "q' = sift_up ?gt (?q[i := lst]) i" using shift_up_eq [of i ?q mem lst] r i b by simp
    also have "?q[i := lst] = ?xs[i := lst] @ drop m ?q"
      using i b by (metis append_take_drop_id length_take list_update_append1 min.absorb4)
    finally have "take m q' = sift_up ?gt (?xs[i := lst]) i" using i b by (simp add: sift_up_append)
    then show ?thesis using True i par_less [of i] by simp
  next
    case False
    then have "min_heap_shift_down ?q mem m i lst = (q', mem')" using r by (simp only: if_False)
    then have "take m q' = sift_down ?gt (?xs[i := lst]) i"
      using shift_down_eq [of i m ?q mem lst] i b t by simp
    then show ?thesis using False i par_less [of i] by auto
  qed
  have "is_heap ?gt ?xs" using inv el is_heap_take [of ?gt "?xs @ [lst]" m] b by (simp add: heap_inv_def)
  then have h: "is_heap ?gt (take m q')" unfolding tq using i b by (intro eh.replace_heap) simp_all
  have ms: "mset (take m q') = mset (?xs[i := lst])"
    unfolding tq using i b by (simp add: mset_sift_up mset_sift_down)
  also have "\<dots> = mset (heap_elems s) - {#?q ! i#}"
  proof -
    have "?q ! i \<in> set ?xs" using i b by (auto simp: in_set_conv_nth intro!: exI [of _ i])
    then obtain A where "mset ?xs = add_mset (?q ! i) A" by (metis mset_add set_mset_mset)
    then show ?thesis using i b by (simp add: el mset_update)
  qed
  finally have ms': "mset (take m q') = mset (heap_elems s) - {#?q ! i#}" .
  have "idx_ok m q' mem' \<and> idx_frame (set (?xs[i := lst])) mem mem' \<and> length q' = length ?q"
    using shift_up_idx [OF but] shift_down_idx [OF but] r t by (auto split: if_splits)
  moreover have "set (take m q') = set (?xs[i := lst])" using ms by (rule mset_eq_setD)
  ultimately show ?thesis using h ms' by simp
qed

lemma removed_inv:
  assumes inv: "heap_inv s mem" and i: "i < heap_n s" "heap_p s ! i = e" and m: "heap_n s = Suc m"
    and l: "lst = heap_p s ! m"
    and r: "(if i > 0 \<and> min_heap_elem_greater mem (heap_p s ! par i) lst
        then min_heap_shift_up (heap_p s) mem i lst else min_heap_shift_down (heap_p s) mem m i lst) = (q', mem')"
  shows "heap_inv (s\<lparr>heap_p := q', heap_n := m\<rparr>) (set_idx e (- 1) mem')
    \<and> mset (take m q') = mset (heap_elems s) - {#e#} \<and> idx_frame (set (heap_elems s)) mem (set_idx e (- 1) mem')"
proof -
  let ?gt = "min_heap_elem_greater mem" and ?q = "heap_p s"
  have b: "m < length ?q" "length ?q = heap_a s" using inv m by (auto simp: heap_inv_def)
  have el: "heap_elems s = take m ?q @ [lst]" using b m l by (simp add: heap_elems_def take_Suc_conv_app_nth)
  have d: "distinct (heap_elems s)" using inv by (simp add: heap_inv_def)
  have e: "e \<in> set (heap_elems s)" using i b m by (auto simp: heap_elems_def in_set_conv_nth)
  have key: "is_heap ?gt (take m q') \<and> idx_ok m q' mem' \<and> length q' = length ?q
      \<and> mset (take m q') = mset (heap_elems s) - {#e#} \<and> idx_frame (set (heap_elems s)) mem mem'"
  proof (cases "i < m")
    case True
    note k = remove_at [OF inv True m l r]
    have "set (take m q') \<subseteq> set (heap_elems s)" using k by (metis diff_subset_eq_self mset_subset_eq_insertD set_mset_mset set_mset_mono)
    then have "idx_frame (set (heap_elems s)) mem mem'" using k by (auto simp: idx_frame_def)
    then show ?thesis using k i(2) by simp
  next
    case False
    then have "i = m" using i(1) m by simp
    have "\<not> (0 < m \<and> ?gt (?q ! par m) lst)"
      using inv m l par_less [of m] b by (auto simp: heap_inv_def is_heap_def heap_elems_def)
    then have "min_heap_shift_down ?q mem m m lst = (q', mem')" using r \<open>i = m\<close> by (simp only: if_False)
    then have "q' = ?q[m := lst]" "mem' = set_idx lst (int m) mem"
      by (simp_all add: min_heap_shift_down.simps [of ?q mem m m])
    then have q: "q' = ?q" "mem' = mem" "e = lst"
    proof -
      show "q' = ?q" using \<open>q' = ?q[m := lst]\<close> l by simp
      show "e = lst" using i(2) l \<open>i = m\<close> by simp
      have "min_heap_idx (mem lst) = int m" using inv m l by (simp add: heap_inv_def idx_ok_def)
      then have "(mem lst)\<lparr>min_heap_idx := int m\<rparr> = mem lst" by (metis idx_update_self)
      then show "mem' = mem" using \<open>mem' = _\<close> by (simp add: set_idx_def fun_upd_idem_iff)
    qed
    have "is_heap ?gt (take m ?q)" using inv is_heap_take [of ?gt "take (Suc m) ?q" m] m by (simp add: heap_inv_def heap_elems_def)
    moreover have "idx_ok m ?q mem" using inv m by (simp add: heap_inv_def idx_ok_def)
    ultimately show ?thesis using q el idx_frame_refl by auto
  qed
  let ?mem = "set_idx e (- 1) mem'"
  have st: "set (take m q') = set (heap_elems s) - {e}" and dq: "distinct (take m q')"
  proof -
    have "add_mset e (mset (take m q')) = mset (heap_elems s)" using key e by simp
    then have "mset (e # take m q') = mset (heap_elems s)" by simp
    then have "distinct (e # take m q')" "set (e # take m q') = set (heap_elems s)"
      using d by (metis mset_eq_imp_distinct_iff, metis mset_eq_setD)
    then show "set (take m q') = set (heap_elems s) - {e}" "distinct (take m q')" by auto
  qed
  have fr: "idx_frame (set (heap_elems s)) mem ?mem"
    unfolding idx_frame_def
  proof (intro conjI allI impI)
    fix x
    have f: "mem' x = (mem x)\<lparr>min_heap_idx := min_heap_idx (mem' x)\<rparr>" using key by (simp add: idx_frame_def)
    then have "(mem' x)\<lparr>min_heap_idx := j\<rparr> = (mem x)\<lparr>min_heap_idx := j\<rparr>" for j
      by (metis heap_event.surjective heap_event.update_convs(2))
    then show "?mem x = (mem x)\<lparr>min_heap_idx := min_heap_idx (?mem x)\<rparr>" using f by (auto simp: set_idx_def)
    show "?mem x = mem x" if "x \<notin> set (heap_elems s)" using that e key by (auto simp: set_idx_def idx_frame_def)
  qed
  have "idx_ok m q' ?mem"
  proof (unfold idx_ok_def, intro allI impI)
    fix j assume j: "j < m"
    then have "q' ! j \<in> set (take m q')" using key b by (auto simp: in_set_conv_nth intro!: exI [of _ j])
    then have "q' ! j \<noteq> e" using st by blast
    then show "min_heap_idx (?mem (q' ! j)) = int j" using key j by (simp add: set_idx_def idx_ok_def)
  qed
  moreover have "min_heap_idx (?mem x) = - 1" if "x \<notin> set (take m q')" for x
    using that st key inv by (auto simp: set_idx_def idx_frame_def heap_inv_def)
  moreover have "is_heap (min_heap_elem_greater ?mem) (take m q')"
    using key idx_frame_greater [of "set (heap_elems s)" mem mem'] by simp
  ultimately have "heap_inv (s\<lparr>heap_p := q', heap_n := m\<rparr>) ?mem"
    using key b dq by (simp add: heap_inv_def heap_elems_def)
  then show ?thesis using key fr by blast
qed


lemma erase_spec:
  assumes inv: "heap_inv s mem" and e: "e \<in> set (heap_elems s)" and r: "min_heap_erase e s mem = (ok, s', mem')"
  shows "ok \<and> heap_inv s' mem' \<and> mset (heap_elems s') = mset (heap_elems s) - {#e#} \<and> idx_frame (set (heap_elems s)) mem mem'"
proof -
  obtain i where i: "i < heap_n s" "heap_p s ! i = e" "min_heap_idx (mem e) = int i"
    using heap_inv_idx(2) [OF inv e] by blast
  obtain m where m: "heap_n s = Suc m" using i(1) by (cases "heap_n s") auto
  let ?r = "if i > 0 \<and> min_heap_elem_greater mem (heap_p s ! par i) (heap_p s ! m)
    then min_heap_shift_up (heap_p s) mem i (heap_p s ! m) else min_heap_shift_down (heap_p s) mem m i (heap_p s ! m)"
  obtain q' mem1 where q: "?r = (q', mem1)" by (cases ?r)
  have "ok = True" "s' = s\<lparr>heap_p := q', heap_n := m\<rparr>" "mem' = set_idx e (- 1) mem1"
    using r q by (auto simp: min_heap_erase_def i(3) m Let_def par_fold)
  then show ?thesis using removed_inv [OF inv i(1,2) m refl q] by (simp add: heap_elems_def)
qed

lemma pop_spec:
  assumes inv: "heap_inv s mem" and r: "min_heap_pop s mem = (res, s', mem')"
  shows "(heap_elems s = [] \<longrightarrow> res = None \<and> s' = s \<and> mem' = mem)
    \<and> (heap_elems s \<noteq> [] \<longrightarrow> res = Some (hd (heap_elems s)) \<and> heap_inv s' mem'
        \<and> mset (heap_elems s') = mset (heap_elems s) - {#hd (heap_elems s)#} \<and> idx_frame (set (heap_elems s)) mem mem')"
proof (cases "heap_n s")
  case 0
  then show ?thesis using r by (simp add: min_heap_pop_def heap_elems_def)
next
  case (Suc m)
  have "heap_p s \<noteq> []" using inv Suc by (auto simp: heap_inv_def)
  then have hd: "hd (heap_elems s) = heap_p s ! 0" "heap_elems s \<noteq> []" using Suc by (simp_all add: heap_elems_def hd_conv_nth)
  obtain q' mem1 where q: "min_heap_shift_down (heap_p s) mem m 0 (heap_p s ! m) = (q', mem1)" by fastforce
  then have "(if (0 :: nat) > 0 \<and> min_heap_elem_greater mem (heap_p s ! par 0) (heap_p s ! m)
    then min_heap_shift_up (heap_p s) mem 0 (heap_p s ! m) else min_heap_shift_down (heap_p s) mem m 0 (heap_p s ! m)) = (q', mem1)" by simp
  note rm = removed_inv [OF inv _ refl Suc refl this]
  have "res = Some (heap_p s ! 0)" "s' = s\<lparr>heap_p := q', heap_n := m\<rparr>" "mem' = set_idx (heap_p s ! 0) (- 1) mem1"
    using r q Suc by (auto simp: min_heap_pop_def Let_def)
  then show ?thesis using rm Suc hd by (simp add: heap_elems_def)
qed

lemma top_spec: "heap_inv s mem \<Longrightarrow> min_heap_top s = (if heap_elems s = [] then None else Some (hd (heap_elems s)))"
  by (auto simp: min_heap_top_def heap_elems_def heap_inv_def hd_conv_nth)


lemma push_ok: "fst (min_heap_push True e s mem)"
  by (simp add: min_heap_push_def min_heap_reserve_def Let_def case_prod_unfold)

lemma push_failed: "\<not> fst (min_heap_push al e s mem) \<Longrightarrow> snd (min_heap_push al e s mem) = (s, mem)"
  by (simp add: min_heap_push_def min_heap_reserve_def Let_def case_prod_unfold split: if_splits)

text \<open>
  C29. The heap implements a priority queue of events keyed by their timeouts. Every operation keeps the
  heap order and the positions recorded in the events; \<open>push\<close> adds exactly the event,
  \<open>top\<close> and \<open>pop\<close> give an event that no other precedes, \<open>pop\<close> and \<open>erase\<close> remove exactly one,
  and \<open>erase\<close> fails exactly on events that are not in the heap.
\<close>

theorem min_heap_refines_priority_queue:
  assumes inv: "heap_inv s mem"
  shows "(e \<notin> set (heap_elems s) \<longrightarrow> (\<exists>s' mem'. min_heap_push True e s mem = (True, s', mem') \<and> heap_inv s' mem'
        \<and> mset (heap_elems s') = add_mset e (mset (heap_elems s)) \<and> (\<forall>x. ev_timeout (mem' x) = ev_timeout (mem x))))
    \<and> (case min_heap_pop s mem of (None, s', mem') \<Rightarrow> heap_elems s = [] \<and> s' = s \<and> mem' = mem
        | (Some x, s', mem') \<Rightarrow> min_heap_top s = Some x \<and> heap_inv s' mem'
            \<and> mset (heap_elems s) = add_mset x (mset (heap_elems s'))
            \<and> (\<forall>y\<in>set (heap_elems s). \<not> evutil_timercmp_gt (ev_timeout (mem x)) (ev_timeout (mem y))))
    \<and> (case min_heap_erase e s mem of (ok, s', mem') \<Rightarrow> heap_inv s' mem' \<and> (ok \<longleftrightarrow> e \<in> set (heap_elems s))
        \<and> mset (heap_elems s') = mset (heap_elems s) - {#e#})"
proof (intro conjI impI)
  assume e: "e \<notin> set (heap_elems s)"
  obtain s' mem' where p: "min_heap_push True e s mem = (True, s', mem')"
    using push_ok [of e s mem] by (cases "min_heap_push True e s mem") auto
  from push_spec [OF inv e p] p idx_frame_timeout
  show "\<exists>s' mem'. min_heap_push True e s mem = (True, s', mem') \<and> heap_inv s' mem'
        \<and> mset (heap_elems s') = add_mset e (mset (heap_elems s)) \<and> (\<forall>x. ev_timeout (mem' x) = ev_timeout (mem x))" by blast
next
  obtain res s' mem' where p: "min_heap_pop s mem = (res, s', mem')" by (cases "min_heap_pop s mem")
  have "\<not> evutil_timercmp_gt (ev_timeout (mem (hd (heap_elems s)))) (ev_timeout (mem y))" if "y \<in> set (heap_elems s)" for y
    using eh.heap_top_all [of mem "heap_elems s" y] that inv by (simp add: heap_inv_def min_heap_elem_greater_def)
  then show "case min_heap_pop s mem of (None, s', mem') \<Rightarrow> heap_elems s = [] \<and> s' = s \<and> mem' = mem
        | (Some x, s', mem') \<Rightarrow> min_heap_top s = Some x \<and> heap_inv s' mem'
            \<and> mset (heap_elems s) = add_mset x (mset (heap_elems s'))
            \<and> (\<forall>y\<in>set (heap_elems s). \<not> evutil_timercmp_gt (ev_timeout (mem x)) (ev_timeout (mem y)))"
    using pop_spec [OF inv p] top_spec [OF inv] p by (cases "heap_elems s = []") auto
next
  obtain ok s' mem' where p: "min_heap_erase e s mem = (ok, s', mem')" by (cases "min_heap_erase e s mem")
  show "case min_heap_erase e s mem of (ok, s', mem') \<Rightarrow> heap_inv s' mem' \<and> (ok \<longleftrightarrow> e \<in> set (heap_elems s))
        \<and> mset (heap_elems s') = mset (heap_elems s) - {#e#}"
  proof (cases "e \<in> set (heap_elems s)")
    case True
    then show ?thesis using erase_spec [OF inv True p] p by simp
  next
    case False
    then have "min_heap_idx (mem e) = - 1" using heap_inv_idx(1) [OF inv] by blast
    then show ?thesis using False inv by (simp add: min_heap_erase_def)
  qed
qed

definition sample_mem :: "unit ev_mem" where
  "sample_mem e = \<lparr>ev_timeout = \<lparr>tv_sec = 10 - int e, tv_usec = 0\<rparr>, min_heap_idx = - 1\<rparr>"

theorem min_heap_refines_priority_queue_witness:
  "\<exists>s' mem'. min_heap_push True 3 min_heap_ctor sample_mem = (True, s', mem') \<and> heap_inv s' mem'
     \<and> mset (heap_elems s') = {#3#}"
  using min_heap_refines_priority_queue [OF heap_inv_ctor [of sample_mem], of 3]
  by (auto simp: sample_mem_def heap_elems_def min_heap_ctor_def)

end
