(* ===== verification/Event_Base.thy ===== *)
theory Event_Base
  imports Event_Heap
begin

text \<open>
  The core of the event loop in \<open>event/event.c\<close>, on which the worker timers and the event-driven client run:
  events with their flags, the queues of inserted and active events, timeouts, and one pass of the loop.
  Bit sets are sets of the named bits. The program never turns on the thread support of libevent (the calls
  are commented out in \<open>Network/Else/UtilsImpl.cpp\<close>), so the locks are empty statements, \<open>EVBASE_IN_THREAD\<close> holds
  and \<open>EVBASE_NEED_NOTIFY\<close> does not; nor does it create common timeouts, so \<open>n_common_timeouts\<close> is zero and
  \<open>is_common_timeout\<close> is false. The current time is an argument. The maps from descriptors and signals to
  events (\<open>evmap.c\<close>) are a record of functions over a state \<open>'io\<close>, user callbacks a function on the base.
  \<open>None\<close> stands for \<open>event_errx\<close>, which ends the process.
\<close>

section \<open>Times\<close>

definition evutil_timeradd :: "timeval \<Rightarrow> timeval \<Rightarrow> timeval" where
  "evutil_timeradd tvp uvp =
    (let s = tv_sec tvp + tv_sec uvp; u = tv_usec tvp + tv_usec uvp in
     if u \<ge> 1000000 then \<lparr>tv_sec = s + 1, tv_usec = u - 1000000\<rparr> else \<lparr>tv_sec = s, tv_usec = u\<rparr>)"

definition evutil_timersub :: "timeval \<Rightarrow> timeval \<Rightarrow> timeval" where
  "evutil_timersub tvp uvp =
    (let s = tv_sec tvp - tv_sec uvp; u = tv_usec tvp - tv_usec uvp in
     if u < 0 then \<lparr>tv_sec = s - 1, tv_usec = u + 1000000\<rparr> else \<lparr>tv_sec = s, tv_usec = u\<rparr>)"

definition evutil_timerclear :: timeval where
  "evutil_timerclear = \<lparr>tv_sec = 0, tv_usec = 0\<rparr>"

definition evutil_timerisset :: "timeval \<Rightarrow> bool" where
  "evutil_timerisset tvp \<longleftrightarrow> tv_sec tvp \<noteq> 0 \<or> tv_usec tvp \<noteq> 0"

definition evutil_timercmp_lt :: "timeval \<Rightarrow> timeval \<Rightarrow> bool" where
  "evutil_timercmp_lt tvp uvp = (if tv_sec tvp = tv_sec uvp then tv_usec tvp < tv_usec uvp else tv_sec tvp < tv_sec uvp)"

definition evutil_timercmp_le :: "timeval \<Rightarrow> timeval \<Rightarrow> bool" where
  "evutil_timercmp_le tvp uvp = (if tv_sec tvp = tv_sec uvp then tv_usec tvp \<le> tv_usec uvp else tv_sec tvp \<le> tv_sec uvp)"

definition evutil_timercmp_ge :: "timeval \<Rightarrow> timeval \<Rightarrow> bool" where
  "evutil_timercmp_ge tvp uvp = (if tv_sec tvp = tv_sec uvp then tv_usec tvp \<ge> tv_usec uvp else tv_sec tvp \<ge> tv_sec uvp)"

section \<open>Events and the event base\<close>

datatype evlist = EVLIST_TIMEOUT | EVLIST_INSERTED | EVLIST_SIGNAL | EVLIST_ACTIVE | EVLIST_INTERNAL | EVLIST_INIT

datatype ev_bit = EV_TIMEOUT | EV_READ | EV_WRITE | EV_SIGNAL | EV_PERSIST | EV_ET

datatype ev_closure_kind = EV_CLOSURE_NONE | EV_CLOSURE_SIGNAL | EV_CLOSURE_PERSIST

text \<open>\<open>ev_pncalls\<close> points to the counter of the loop over a signal's calls, or is null.\<close>

record event = heap_event +
  ev_flags :: "evlist set"
  ev_events :: "ev_bit set"
  ev_res :: "ev_bit set"
  ev_pri :: nat
  ev_closure :: ev_closure_kind
  ev_io_timeout :: timeval
  ev_fd :: int
  ev_ncalls :: int
  ev_pncalls :: "int option"
  ev_callback :: nat

record 'io event_base =
  timeheap :: min_heap
  mem :: "nat \<Rightarrow> event"
  eventqueue :: "nat list"
  activequeues :: "nat list list"
  event_count :: int
  event_count_active :: int
  virtual_event_count :: int
  event_running_priority :: int
  event_continue :: bool
  event_break :: bool
  event_gotterm :: bool
  running_loop :: bool
  event_tv :: timeval
  iomap :: 'io

record 'io evmap =
  evmap_io_add :: "int \<Rightarrow> nat \<Rightarrow> 'io \<Rightarrow> int \<times> 'io"
  evmap_signal_add :: "int \<Rightarrow> nat \<Rightarrow> 'io \<Rightarrow> int \<times> 'io"
  evmap_io_del :: "int \<Rightarrow> nat \<Rightarrow> 'io \<Rightarrow> int \<times> 'io"
  evmap_signal_del :: "int \<Rightarrow> nat \<Rightarrow> 'io \<Rightarrow> int \<times> 'io"

definition upd_event :: "nat \<Rightarrow> (event \<Rightarrow> event) \<Rightarrow> 'io event_base \<Rightarrow> 'io event_base" where
  "upd_event ev f base = base\<lparr>mem := (mem base)(ev := f (mem base ev))\<rparr>"

definition event_assign :: "nat \<Rightarrow> int \<Rightarrow> ev_bit set \<Rightarrow> nat \<Rightarrow> 'io event_base \<Rightarrow> bool \<times> 'io event_base" where
  "event_assign ev fd events callback base =
    (let base1 = upd_event ev (\<lambda>r. r\<lparr>ev_callback := callback, ev_fd := fd, ev_events := events, ev_res := {},
           ev_flags := {EVLIST_INIT}, ev_ncalls := 0, ev_pncalls := None\<rparr>) base in
     if EV_SIGNAL \<in> events \<and> (EV_READ \<in> events \<or> EV_WRITE \<in> events) then (False, base1)
     else
       (let base2 = upd_event ev (\<lambda>r. if EV_SIGNAL \<in> events then r\<lparr>ev_closure := EV_CLOSURE_SIGNAL\<rparr>
              else if EV_PERSIST \<in> events then r\<lparr>ev_io_timeout := evutil_timerclear, ev_closure := EV_CLOSURE_PERSIST\<rparr>
              else r\<lparr>ev_closure := EV_CLOSURE_NONE\<rparr>) base1;
            base3 = base2\<lparr>mem := min_heap_elem_init ev (mem base2)\<rparr>
        in (True, upd_event ev (\<lambda>r. r\<lparr>ev_pri := length (activequeues base) div 2\<rparr>) base3)))"

definition event_priority_set :: "nat \<Rightarrow> int \<Rightarrow> 'io event_base \<Rightarrow> bool \<times> 'io event_base" where
  "event_priority_set ev pri base =
    (if EVLIST_ACTIVE \<in> ev_flags (mem base ev) then (False, base)
     else if pri < 0 \<or> pri \<ge> int (length (activequeues base)) then (False, base)
     else (True, upd_event ev (\<lambda>r. r\<lparr>ev_pri := nat pri\<rparr>) base))"

definition event_pending :: "nat \<Rightarrow> ev_bit set \<Rightarrow> 'io event_base \<Rightarrow> ev_bit set" where
  "event_pending ev event base =
    (let r = mem base ev;
         flags = (if EVLIST_INSERTED \<in> ev_flags r then ev_events r \<inter> {EV_READ, EV_WRITE, EV_SIGNAL} else {})
           \<union> (if EVLIST_ACTIVE \<in> ev_flags r then ev_res r else {})
           \<union> (if EVLIST_TIMEOUT \<in> ev_flags r then {EV_TIMEOUT} else {})
     in flags \<inter> (event \<inter> {EV_TIMEOUT, EV_READ, EV_WRITE, EV_SIGNAL}))"

section \<open>The queues\<close>

definition event_queue_insert :: "bool \<Rightarrow> nat \<Rightarrow> evlist \<Rightarrow> 'io event_base \<Rightarrow> 'io event_base option" where
  "event_queue_insert al ev queue base =
    (let r = mem base ev in
     if queue \<in> ev_flags r then (if queue = EVLIST_ACTIVE then Some base else None)
     else
       (let base1 = (if EVLIST_INTERNAL \<notin> ev_flags r then base\<lparr>event_count := event_count base + 1\<rparr> else base);
            base2 = upd_event ev (\<lambda>r. r\<lparr>ev_flags := insert queue (ev_flags r)\<rparr>) base1
        in case queue of
             EVLIST_INSERTED \<Rightarrow> Some (base2\<lparr>eventqueue := eventqueue base2 @ [ev]\<rparr>)
           | EVLIST_ACTIVE \<Rightarrow> Some (base2\<lparr>event_count_active := event_count_active base2 + 1,
               activequeues := (activequeues base2)[ev_pri r := activequeues base2 ! ev_pri r @ [ev]]\<rparr>)
           | EVLIST_TIMEOUT \<Rightarrow> (let (_, h, m) = min_heap_push al ev (timeheap base2) (mem base2)
               in Some (base2\<lparr>timeheap := h, mem := m\<rparr>))
           | _ \<Rightarrow> None))"

definition event_queue_remove :: "nat \<Rightarrow> evlist \<Rightarrow> 'io event_base \<Rightarrow> 'io event_base option" where
  "event_queue_remove ev queue base =
    (let r = mem base ev in
     if queue \<notin> ev_flags r then None
     else
       (let base1 = (if EVLIST_INTERNAL \<notin> ev_flags r then base\<lparr>event_count := event_count base - 1\<rparr> else base);
            base2 = upd_event ev (\<lambda>r. r\<lparr>ev_flags := ev_flags r - {queue}\<rparr>) base1
        in case queue of
             EVLIST_INSERTED \<Rightarrow> Some (base2\<lparr>eventqueue := remove1 ev (eventqueue base2)\<rparr>)
           | EVLIST_ACTIVE \<Rightarrow> Some (base2\<lparr>event_count_active := event_count_active base2 - 1,
               activequeues := (activequeues base2)[ev_pri r := remove1 ev (activequeues base2 ! ev_pri r)]\<rparr>)
           | EVLIST_TIMEOUT \<Rightarrow> (let (_, h, m) = min_heap_erase ev (timeheap base2) (mem base2)
               in Some (base2\<lparr>timeheap := h, mem := m\<rparr>))
           | _ \<Rightarrow> None))"

text \<open>Aborting the loop over a signal's calls: \<open>*ev->ev_pncalls = 0\<close>.\<close>

definition abort_signal_loop :: "nat \<Rightarrow> 'io event_base \<Rightarrow> 'io event_base" where
  "abort_signal_loop ev base =
    (let r = mem base ev in
     if EV_SIGNAL \<in> ev_events r \<and> ev_ncalls r \<noteq> 0 \<and> ev_pncalls r \<noteq> None
     then upd_event ev (\<lambda>r. r\<lparr>ev_pncalls := Some 0\<rparr>) base else base)"

section \<open>Adding, deleting and activating\<close>

definition io_events :: "event \<Rightarrow> bool" where
  "io_events r \<longleftrightarrow> EV_READ \<in> ev_events r \<or> EV_WRITE \<in> ev_events r"

text \<open>The part of \<open>event_add_internal\<close> that inserts the event for input and output or for a signal.\<close>

definition add_io :: "'io evmap \<Rightarrow> nat \<Rightarrow> 'io event_base \<Rightarrow> (int \<times> 'io event_base) option" where
  "add_io em ev base =
    (let r = mem base ev in
     if (io_events r \<or> EV_SIGNAL \<in> ev_events r) \<and> EVLIST_INSERTED \<notin> ev_flags r \<and> EVLIST_ACTIVE \<notin> ev_flags r
     then (let (res, io') = (if io_events r then evmap_io_add em (ev_fd r) ev (iomap base)
                             else evmap_signal_add em (ev_fd r) ev (iomap base));
               base1 = base\<lparr>iomap := io'\<rparr>
           in if res \<noteq> - 1
              then map_option (Pair (if res = 1 then 0 else res)) (event_queue_insert True ev EVLIST_INSERTED base1)
              else Some (res, base1))
     else Some (0, base))"

text \<open>The part that sets the timeout.\<close>

definition add_timeout :: "bool \<Rightarrow> timeval \<Rightarrow> timeval \<Rightarrow> bool \<Rightarrow> nat \<Rightarrow> 'io event_base \<Rightarrow> 'io event_base option" where
  "add_timeout al now tv tv_is_absolute ev base =
    (let base1 = (if ev_closure (mem base ev) = EV_CLOSURE_PERSIST \<and> \<not> tv_is_absolute
                  then upd_event ev (\<lambda>r. r\<lparr>ev_io_timeout := tv\<rparr>) base else base);
         base2 = (if EVLIST_TIMEOUT \<in> ev_flags (mem base1 ev) then event_queue_remove ev EVLIST_TIMEOUT base1 else Some base1);
         base3 = (case base2 of None \<Rightarrow> None
           | Some b \<Rightarrow> if EVLIST_ACTIVE \<in> ev_flags (mem b ev) \<and> EV_TIMEOUT \<in> ev_res (mem b ev)
                       then event_queue_remove ev EVLIST_ACTIVE (abort_signal_loop ev b) else Some b)
     in case base3 of None \<Rightarrow> None
        | Some b \<Rightarrow> event_queue_insert al ev EVLIST_TIMEOUT
            (upd_event ev (\<lambda>r. r\<lparr>ev_timeout := (if tv_is_absolute then tv else evutil_timeradd now tv)\<rparr>) b))"

definition event_add_internal ::
  "'io evmap \<Rightarrow> bool \<Rightarrow> timeval \<Rightarrow> nat \<Rightarrow> timeval option \<Rightarrow> bool \<Rightarrow> 'io event_base \<Rightarrow> (int \<times> 'io event_base) option" where
  "event_add_internal em al now ev tv tv_is_absolute base =
    (let (ok, h) = (if tv \<noteq> None \<and> EVLIST_TIMEOUT \<notin> ev_flags (mem base ev)
                    then min_heap_reserve al (1 + min_heap_size (timeheap base)) (timeheap base) else (True, timeheap base))
     in if \<not> ok then Some (- 1, base)
        else case add_io em ev (base\<lparr>timeheap := h\<rparr>) of None \<Rightarrow> None
        | Some (res, base1) \<Rightarrow>
            (case tv of None \<Rightarrow> Some (res, base1)
             | Some t \<Rightarrow> if res \<noteq> - 1
                 then map_option (Pair res) (add_timeout al now t tv_is_absolute ev base1) else Some (res, base1)))"

definition del_from :: "nat \<Rightarrow> evlist \<Rightarrow> 'io event_base \<Rightarrow> 'io event_base option" where
  "del_from ev queue base = (if queue \<in> ev_flags (mem base ev) then event_queue_remove ev queue base else Some base)"

definition event_del_internal :: "'io evmap \<Rightarrow> nat \<Rightarrow> 'io event_base \<Rightarrow> (int \<times> 'io event_base) option" where
  "event_del_internal em ev base =
    (let base1 = (if EV_SIGNAL \<in> ev_events (mem base ev) then abort_signal_loop ev base else base) in
     case del_from ev EVLIST_TIMEOUT base1 of None \<Rightarrow> None
     | Some base2 \<Rightarrow>
        (case del_from ev EVLIST_ACTIVE base2 of None \<Rightarrow> None
         | Some base3 \<Rightarrow>
            if EVLIST_INSERTED \<in> ev_flags (mem base3 ev)
            then (case event_queue_remove ev EVLIST_INSERTED base3 of None \<Rightarrow> None
               | Some base4 \<Rightarrow>
                   (let r = mem base4 ev;
                        (res, io') = (if io_events r then evmap_io_del em (ev_fd r) ev (iomap base4)
                                      else evmap_signal_del em (ev_fd r) ev (iomap base4))
                    in Some (if res = 1 then 0 else res, base4\<lparr>iomap := io'\<rparr>)))
            else Some (0, base3)))"

definition event_active_nolock :: "nat \<Rightarrow> ev_bit set \<Rightarrow> int \<Rightarrow> 'io event_base \<Rightarrow> 'io event_base option" where
  "event_active_nolock ev res ncalls base =
    (let r = mem base ev in
     if EVLIST_ACTIVE \<in> ev_flags r then Some (upd_event ev (\<lambda>r. r\<lparr>ev_res := ev_res r \<union> res\<rparr>) base)
     else
       (let base1 = upd_event ev (\<lambda>r. r\<lparr>ev_res := res\<rparr>) base;
            base2 = (if int (ev_pri r) < event_running_priority base1 then base1\<lparr>event_continue := True\<rparr> else base1);
            base3 = (if EV_SIGNAL \<in> ev_events r then upd_event ev (\<lambda>r. r\<lparr>ev_ncalls := ncalls, ev_pncalls := None\<rparr>) base2 else base2)
        in event_queue_insert True ev EVLIST_ACTIVE base3))"

section \<open>Timeouts\<close>

text \<open>How long the back end may wait: \<open>None\<close> for no limit.\<close>

definition timeout_next :: "timeval \<Rightarrow> 'io event_base \<Rightarrow> timeval option" where
  "timeout_next now base = (case min_heap_top (timeheap base) of None \<Rightarrow> None
     | Some ev \<Rightarrow> let t = ev_timeout (mem base ev) in
         if evutil_timercmp_le t now then Some evutil_timerclear else Some (evutil_timersub t now))"

definition sub_timeouts :: "timeval \<Rightarrow> nat list \<Rightarrow> (nat \<Rightarrow> event) \<Rightarrow> nat \<Rightarrow> event" where
  "sub_timeouts off evs m = fold (\<lambda>ev m. m(ev := (m ev)\<lparr>ev_timeout := evutil_timersub (ev_timeout (m ev)) off\<rparr>)) evs m"

definition timeout_correct :: "bool \<Rightarrow> timeval \<Rightarrow> 'io event_base \<Rightarrow> 'io event_base" where
  "timeout_correct use_monotonic tv base =
    (if use_monotonic then base
     else if evutil_timercmp_ge tv (event_tv base) then base\<lparr>event_tv := tv\<rparr>
     else (let off = evutil_timersub (event_tv base) tv in
       base\<lparr>mem := sub_timeouts off (take (heap_n (timeheap base)) (heap_p (timeheap base))) (mem base), event_tv := tv\<rparr>))"

text \<open>The loop of \<open>timeout_process\<close>; not returning, or \<open>event_errx\<close>, is \<open>None\<close>.\<close>

partial_function (option) timeout_loop :: "'io evmap \<Rightarrow> timeval \<Rightarrow> 'io event_base \<Rightarrow> 'io event_base option" where
  "timeout_loop em now base = (case min_heap_top (timeheap base) of None \<Rightarrow> Some base
     | Some ev \<Rightarrow>
         if evutil_timercmp_gt (ev_timeout (mem base ev)) now then Some base
         else (case event_del_internal em ev base of None \<Rightarrow> None
           | Some (_, base1) \<Rightarrow> (case event_active_nolock ev {EV_TIMEOUT} 1 base1 of None \<Rightarrow> None
               | Some base2 \<Rightarrow> timeout_loop em now base2)))"

definition timeout_process :: "'io evmap \<Rightarrow> timeval \<Rightarrow> 'io event_base \<Rightarrow> 'io event_base option" where
  "timeout_process em now base = (if min_heap_empty (timeheap base) then Some base else timeout_loop em now base)"

section \<open>Running the callbacks\<close>

text \<open>
  The user's callback of an event is a function \<open>cb\<close> of the event's number and the base, which may add, delete
  and activate events and ask the loop to stop.
\<close>

definition event_persist_closure ::
  "'io evmap \<Rightarrow> bool \<Rightarrow> timeval \<Rightarrow> (nat \<Rightarrow> 'io event_base \<Rightarrow> 'io event_base) \<Rightarrow> nat \<Rightarrow> 'io event_base \<Rightarrow> 'io event_base option" where
  "event_persist_closure em al now cb ev base =
    (let r = mem base ev; delay = ev_io_timeout r in
     if tv_sec delay \<noteq> 0 \<or> tv_usec delay \<noteq> 0
     then (let relative_to = (if EV_TIMEOUT \<in> ev_res r then ev_timeout r else now);
               run_at = evutil_timeradd relative_to delay;
               run_at' = (if evutil_timercmp_lt run_at now then evutil_timeradd now delay else run_at)
           in map_option (\<lambda>(_, b). cb ev b) (event_add_internal em al now ev (Some run_at') True base))
     else Some (cb ev base))"

text \<open>The loop of \<open>event_signal_closure\<close>; \<open>n\<close> is its local counter, to which \<open>ev_pncalls\<close> points unless it is null.\<close>

definition pointed :: "nat \<Rightarrow> int \<Rightarrow> 'io event_base \<Rightarrow> int" where
  "pointed ev n base = (case ev_pncalls (mem base ev) of None \<Rightarrow> n | Some v \<Rightarrow> v)"

partial_function (option) signal_loop ::
  "(nat \<Rightarrow> 'io event_base \<Rightarrow> 'io event_base) \<Rightarrow> nat \<Rightarrow> int \<Rightarrow> 'io event_base \<Rightarrow> 'io event_base option" where
  "signal_loop cb ev n base =
    (if n = 0 then Some base
     else
       (let n1 = n - 1;
            base1 = upd_event ev (\<lambda>r. r\<lparr>ev_ncalls := n1, ev_pncalls := (if n1 = 0 \<or> ev_pncalls r = None then None else Some n1)\<rparr>) base;
            base2 = cb ev base1;
            n2 = pointed ev n1 base2
        in if event_break base2
           then Some (if n2 \<noteq> 0 then upd_event ev (\<lambda>r. r\<lparr>ev_pncalls := None\<rparr>) base2 else base2)
           else signal_loop cb ev n2 base2))"

definition event_signal_closure ::
  "(nat \<Rightarrow> 'io event_base \<Rightarrow> 'io event_base) \<Rightarrow> nat \<Rightarrow> 'io event_base \<Rightarrow> 'io event_base option" where
  "event_signal_closure cb ev base =
    (let n = ev_ncalls (mem base ev) in
     signal_loop cb ev n (if n \<noteq> 0 then upd_event ev (\<lambda>r. r\<lparr>ev_pncalls := Some n\<rparr>) base else base))"

definition run_closure ::
  "'io evmap \<Rightarrow> bool \<Rightarrow> timeval \<Rightarrow> (nat \<Rightarrow> 'io event_base \<Rightarrow> 'io event_base) \<Rightarrow> nat \<Rightarrow> 'io event_base \<Rightarrow> 'io event_base option" where
  "run_closure em al now cb ev base =
    (case ev_closure (mem base ev) of
       EV_CLOSURE_SIGNAL \<Rightarrow> event_signal_closure cb ev base
     | EV_CLOSURE_PERSIST \<Rightarrow> event_persist_closure em al now cb ev base
     | EV_CLOSURE_NONE \<Rightarrow> Some (cb ev base))"

text \<open>Processing the active queue \<open>i\<close>: the number of events run that are not internal, or \<open>-1\<close> after a break.\<close>

partial_function (option) event_process_active_single_queue ::
  "'io evmap \<Rightarrow> bool \<Rightarrow> timeval \<Rightarrow> (nat \<Rightarrow> 'io event_base \<Rightarrow> 'io event_base) \<Rightarrow> nat \<Rightarrow> int \<Rightarrow> 'io event_base
     \<Rightarrow> (int \<times> 'io event_base) option" where
  "event_process_active_single_queue em al now cb i cnt base =
    (case activequeues base ! i of
       [] \<Rightarrow> Some (cnt, base)
     | ev # _ \<Rightarrow>
        (case (if EV_PERSIST \<in> ev_events (mem base ev) then event_queue_remove ev EVLIST_ACTIVE base
               else map_option snd (event_del_internal em ev base)) of
           None \<Rightarrow> None
         | Some base1 \<Rightarrow>
            (let cnt1 = (if EVLIST_INTERNAL \<notin> ev_flags (mem base1 ev) then cnt + 1 else cnt) in
             case run_closure em al now cb ev base1 of
               None \<Rightarrow> None
             | Some base2 \<Rightarrow>
                 if event_break base2 then Some (- 1, base2)
                 else if event_continue base2 then Some (cnt1, base2)
                 else event_process_active_single_queue em al now cb i cnt1 base2)))"

text \<open>\<open>deferred\<close> runs the deferred callbacks.\<close>

fun process_queues ::
  "'io evmap \<Rightarrow> bool \<Rightarrow> timeval \<Rightarrow> (nat \<Rightarrow> 'io event_base \<Rightarrow> 'io event_base) \<Rightarrow> nat list \<Rightarrow> int \<Rightarrow> 'io event_base
     \<Rightarrow> (int \<times> 'io event_base) option" where
  "process_queues em al now cb [] c base = Some (c, base)"
| "process_queues em al now cb (i # is) c base =
    (if activequeues base ! i \<noteq> []
     then (case event_process_active_single_queue em al now cb i 0 (base\<lparr>event_running_priority := int i\<rparr>) of
             None \<Rightarrow> None
           | Some (c', base1) \<Rightarrow> if c' \<noteq> 0 then Some (c', base1) else process_queues em al now cb is c' base1)
     else process_queues em al now cb is c base)"

definition event_process_active ::
  "'io evmap \<Rightarrow> bool \<Rightarrow> timeval \<Rightarrow> (nat \<Rightarrow> 'io event_base \<Rightarrow> 'io event_base) \<Rightarrow> ('io event_base \<Rightarrow> 'io event_base)
     \<Rightarrow> 'io event_base \<Rightarrow> (int \<times> 'io event_base) option" where
  "event_process_active em al now cb deferred base =
    (case process_queues em al now cb [0..<length (activequeues base)] 0 base of
       None \<Rightarrow> None
     | Some (c, base1) \<Rightarrow>
         if c < 0 then Some (- 1, base1\<lparr>event_running_priority := - 1\<rparr>)
         else Some (c, (deferred base1)\<lparr>event_running_priority := - 1\<rparr>))"

definition event_haveevents :: "'io event_base \<Rightarrow> bool" where
  "event_haveevents base \<longleftrightarrow> virtual_event_count base > 0 \<or> event_count base > 0"

section \<open>The invariant\<close>

definition queues :: "evlist set" where
  "queues = {EVLIST_INSERTED, EVLIST_ACTIVE, EVLIST_TIMEOUT}"

definition on_queue :: "'io event_base \<Rightarrow> evlist \<Rightarrow> nat list" where
  "on_queue base queue = (case queue of EVLIST_INSERTED \<Rightarrow> eventqueue base | EVLIST_ACTIVE \<Rightarrow> concat (activequeues base)
     | EVLIST_TIMEOUT \<Rightarrow> heap_elems (timeheap base) | _ \<Rightarrow> [])"

definition external :: "'io event_base \<Rightarrow> evlist \<Rightarrow> int" where
  "external base queue = int (length (filter (\<lambda>e. EVLIST_INTERNAL \<notin> ev_flags (mem base e)) (on_queue base queue)))"

definition base_ok :: "'io event_base \<Rightarrow> bool" where
  "base_ok base \<longleftrightarrow> heap_inv (timeheap base) (mem base)
     \<and> (\<forall>queue\<in>queues. distinct (on_queue base queue) \<and> (\<forall>e. queue \<in> ev_flags (mem base e) \<longleftrightarrow> e \<in> set (on_queue base queue)))
     \<and> (\<forall>e. ev_pri (mem base e) < length (activequeues base))
     \<and> (\<forall>i<length (activequeues base). \<forall>e\<in>set (activequeues base ! i). ev_pri (mem base e) = i)
     \<and> event_count_active base = int (length (on_queue base EVLIST_ACTIVE))
     \<and> event_count base = external base EVLIST_INSERTED + external base EVLIST_ACTIVE + external base EVLIST_TIMEOUT"

text \<open>What no queue operation changes of an event.\<close>

definition core :: "event \<Rightarrow> event" where
  "core r = r\<lparr>min_heap_idx := 0, ev_flags := {}\<rparr>"

lemma core_fields:
  assumes "core r = core r'"
  shows "ev_timeout r = ev_timeout r'" "ev_events r = ev_events r'" "ev_res r = ev_res r'" "ev_pri r = ev_pri r'"
    "ev_closure r = ev_closure r'" "ev_io_timeout r = ev_io_timeout r'" "ev_fd r = ev_fd r'"
    "ev_ncalls r = ev_ncalls r'" "ev_pncalls r = ev_pncalls r'" "ev_callback r = ev_callback r'"
  using assms by (cases r; cases r'; simp add: core_def)+

lemma idx_frame_core:
  assumes "idx_frame X m m'"
  shows "core (m' x) = core (m x)" "ev_flags (m' x) = ev_flags (m x)"
proof -
  have "m' x = (m x)\<lparr>min_heap_idx := min_heap_idx (m' x)\<rparr>" using assms by (simp add: idx_frame_def)
  then obtain i where "m' x = (m x)\<lparr>min_heap_idx := i\<rparr>" by blast
  then show "core (m' x) = core (m x)" "ev_flags (m' x) = ev_flags (m x)" by (simp_all add: core_def)
qed

lemma heap_inv_cong:
  assumes "heap_inv s m" "\<And>x. min_heap_idx (m' x) = min_heap_idx (m x)"
    "\<And>x. x \<in> set (heap_elems s) \<Longrightarrow> ev_timeout (m' x) = ev_timeout (m x)"
  shows "heap_inv s m'"
proof -
  have "is_heap (min_heap_elem_greater m') (heap_elems s)"
    unfolding is_heap_def
  proof (intro allI impI)
    fix i assume i: "i < length (heap_elems s)" "0 < i"
    then have "heap_elems s ! par i \<in> set (heap_elems s)" "heap_elems s ! i \<in> set (heap_elems s)"
      using par_less [of i] by auto
    then show "\<not> min_heap_elem_greater m' (heap_elems s ! par i) (heap_elems s ! i)"
      using assms i by (simp add: heap_inv_def is_heap_def min_heap_elem_greater_def)
  qed
  then show ?thesis using assms by (simp add: heap_inv_def idx_ok_def)
qed

text \<open>The effect of moving \<open>ev\<close> onto or off a queue, up to the position in the heap.\<close>

definition queue_frame :: "'io event_base \<Rightarrow> 'io event_base \<Rightarrow> bool" where
  "queue_frame b b' \<longleftrightarrow> (\<forall>x. core (mem b' x) = core (mem b x)) \<and> length (activequeues b') = length (activequeues b)
     \<and> event_running_priority b' = event_running_priority b \<and> event_continue b' = event_continue b
     \<and> event_break b' = event_break b \<and> event_gotterm b' = event_gotterm b \<and> event_tv b' = event_tv b
     \<and> iomap b' = iomap b \<and> virtual_event_count b' = virtual_event_count b"

lemma base_okD:
  assumes "base_ok b"
  shows "heap_inv (timeheap b) (mem b)" "\<And>Q. Q \<in> queues \<Longrightarrow> distinct (on_queue b Q)"
    "\<And>Q e. Q \<in> queues \<Longrightarrow> Q \<in> ev_flags (mem b e) \<longleftrightarrow> e \<in> set (on_queue b Q)"
    "\<And>e. ev_pri (mem b e) < length (activequeues b)"
    "\<And>i e. i < length (activequeues b) \<Longrightarrow> e \<in> set (activequeues b ! i) \<Longrightarrow> ev_pri (mem b e) = i"
    "event_count_active b = int (length (on_queue b EVLIST_ACTIVE))"
    "event_count b = external b EVLIST_INSERTED + external b EVLIST_ACTIVE + external b EVLIST_TIMEOUT"
  using assms by (simp_all add: base_ok_def)

lemma queues_simps [simp]: "EVLIST_INSERTED \<in> queues" "EVLIST_ACTIVE \<in> queues" "EVLIST_TIMEOUT \<in> queues" "EVLIST_INTERNAL \<notin> queues"
  by (simp_all add: queues_def)

text \<open>Adding to one of the lists keeps the counts when the flags of the event change accordingly.\<close>

lemma external_mset:
  fixes b b' :: "'io event_base"
  assumes "\<And>x. EVLIST_INTERNAL \<in> ev_flags (mem b' x) \<longleftrightarrow> EVLIST_INTERNAL \<in> ev_flags (mem b x)"
  shows "mset (on_queue b' Q) = mset (on_queue b Q) \<Longrightarrow> external b' Q = external b Q"
    "mset (on_queue b' Q) = add_mset ev (mset (on_queue b Q)) \<Longrightarrow>
       external b' Q = external b Q + (if EVLIST_INTERNAL \<in> ev_flags (mem b ev) then 0 else 1)"
proof -
  let ?P = "\<lambda>x. EVLIST_INTERNAL \<notin> ev_flags (mem b x)"
  have P: "(\<lambda>x. EVLIST_INTERNAL \<notin> ev_flags (mem b' x)) = ?P" using assms by simp
  have e: "external c Q = int (size (filter_mset (\<lambda>x. EVLIST_INTERNAL \<notin> ev_flags (mem c x)) (mset (on_queue c Q))))" for c :: "'io event_base"
    unfolding external_def by (metis mset_filter size_mset)
  show "external b' Q = external b Q" if "mset (on_queue b' Q) = mset (on_queue b Q)"
    using that by (simp only: e P)
  show "external b' Q = external b Q + (if EVLIST_INTERNAL \<in> ev_flags (mem b ev) then 0 else 1)"
    if "mset (on_queue b' Q) = add_mset ev (mset (on_queue b Q))"
    using that by (simp add: e P)
qed


lemma concat_update:
  "i < length xss \<Longrightarrow> mset (concat (xss[i := ys])) + mset (xss ! i) = mset (concat xss) + mset ys"
proof (induction xss arbitrary: i)
  case (Cons xs xss)
  then show ?case by (cases i) auto
qed simp

text \<open>Establishing the invariant after an event went onto a queue.\<close>

lemma base_ok_insert:
  assumes ok: "base_ok b" and Q: "Q \<in> queues" "Q \<notin> ev_flags (mem b ev)"
    and h: "heap_inv (timeheap b') (mem b')"
    and on: "mset (on_queue b' Q) = add_mset ev (mset (on_queue b Q))" "\<And>Q'. Q' \<in> queues \<Longrightarrow> Q' \<noteq> Q \<Longrightarrow> on_queue b' Q' = on_queue b Q'"
    and fl: "\<And>x. ev_flags (mem b' x) = (if x = ev then insert Q (ev_flags (mem b x)) else ev_flags (mem b x))"
    and fr: "queue_frame b b'"
    and aq: "\<And>i. i < length (activequeues b) \<Longrightarrow> set (activequeues b' ! i) \<subseteq> set (activequeues b ! i) \<union> (if i = ev_pri (mem b ev) then {ev} else {})"
    and cn: "event_count_active b' = event_count_active b + (if Q = EVLIST_ACTIVE then 1 else 0)"
      "event_count b' = event_count b + (if EVLIST_INTERNAL \<in> ev_flags (mem b ev) then 0 else 1)"
  shows "base_ok b'"
proof -
  have new: "ev \<notin> set (on_queue b Q)" using base_okD(3) [OF ok Q(1)] Q(2) by blast
  have int: "EVLIST_INTERNAL \<in> ev_flags (mem b' x) \<longleftrightarrow> EVLIST_INTERNAL \<in> ev_flags (mem b x)" for x
    using Q(1) fl [of x] by (auto simp: queues_def)
  have st: "set (on_queue b' Q) = insert ev (set (on_queue b Q))" using on(1) by (metis set_mset_add_mset_insert set_mset_mset)
  have ds: "distinct (on_queue b' Q)" using on(1) new base_okD(2) [OF ok Q(1)]
    by (metis distinct.simps(2) mset.simps(2) mset_eq_imp_distinct_iff)
  have q: "distinct (on_queue b' Q') \<and> (\<forall>e. Q' \<in> ev_flags (mem b' e) \<longleftrightarrow> e \<in> set (on_queue b' Q'))" if "Q' \<in> queues" for Q'
    using base_okD(2,3) [OF ok that] that on(2) st ds fl by (cases "Q' = Q") auto
  have pri: "ev_pri (mem b' x) = ev_pri (mem b x)" for x
    by (rule core_fields(4)) (use fr in \<open>simp add: queue_frame_def\<close>)
  have "external b' Q' = external b Q' + (if Q' = Q \<and> EVLIST_INTERNAL \<notin> ev_flags (mem b ev) then 1 else 0)" if "Q' \<in> queues" for Q'
  proof (cases "Q' = Q")
    case True
    then show ?thesis using external_mset(2) [of b' b, OF int on(1)] by simp
  next
    case False
    then show ?thesis using external_mset(1) [of b' b Q', OF int] on(2) [OF that] by simp
  qed
  then have "event_count b' = external b' EVLIST_INSERTED + external b' EVLIST_ACTIVE + external b' EVLIST_TIMEOUT"
    using cn(2) base_okD(7) [OF ok] Q(1) by (auto simp: queues_def)
  moreover have "length (on_queue b' EVLIST_ACTIVE) = length (on_queue b EVLIST_ACTIVE) + (if Q = EVLIST_ACTIVE then 1 else 0)"
    using on by (cases "Q = EVLIST_ACTIVE") (metis add.commute plus_1_eq_Suc size_add_mset size_mset, simp)
  then have "event_count_active b' = int (length (on_queue b' EVLIST_ACTIVE))" using cn(1) base_okD(6) [OF ok] by simp
  moreover have "ev_pri (mem b' e) = i" if "i < length (activequeues b')" "e \<in> set (activequeues b' ! i)" for i e
    using aq [of i] that base_okD(5) [OF ok, of i e] fr pri by (auto simp: queue_frame_def split: if_splits)
  ultimately show ?thesis using h q pri base_okD(4) [OF ok] fr by (auto simp: base_ok_def queue_frame_def)
qed

lemma base_ok_remove:
  assumes ok: "base_ok b" and Q: "Q \<in> queues" "Q \<in> ev_flags (mem b ev)"
    and h: "heap_inv (timeheap b') (mem b')"
    and on: "mset (on_queue b Q) = add_mset ev (mset (on_queue b' Q))" "\<And>Q'. Q' \<in> queues \<Longrightarrow> Q' \<noteq> Q \<Longrightarrow> on_queue b' Q' = on_queue b Q'"
    and fl: "\<And>x. ev_flags (mem b' x) = (if x = ev then ev_flags (mem b x) - {Q} else ev_flags (mem b x))"
    and fr: "queue_frame b b'"
    and aq: "\<And>i. i < length (activequeues b) \<Longrightarrow> set (activequeues b' ! i) \<subseteq> set (activequeues b ! i)"
    and cn: "event_count_active b' = event_count_active b - (if Q = EVLIST_ACTIVE then 1 else 0)"
      "event_count b' = event_count b - (if EVLIST_INTERNAL \<in> ev_flags (mem b ev) then 0 else 1)"
  shows "base_ok b'"
proof -
  have int: "EVLIST_INTERNAL \<in> ev_flags (mem b' x) \<longleftrightarrow> EVLIST_INTERNAL \<in> ev_flags (mem b x)" for x
    using Q(1) fl [of x] by (auto simp: queues_def)
  have "distinct (ev # on_queue b' Q)" "set (ev # on_queue b' Q) = set (on_queue b Q)"
    using on(1) base_okD(2) [OF ok Q(1)] by (metis mset.simps(2) mset_eq_imp_distinct_iff, metis mset.simps(2) mset_eq_setD)
  then have st: "set (on_queue b' Q) = set (on_queue b Q) - {ev}" "distinct (on_queue b' Q)" by auto
  have q: "distinct (on_queue b' Q') \<and> (\<forall>e. Q' \<in> ev_flags (mem b' e) \<longleftrightarrow> e \<in> set (on_queue b' Q'))" if "Q' \<in> queues" for Q'
    using base_okD(2,3) [OF ok that] that on(2) st fl by (cases "Q' = Q") auto
  have pri: "ev_pri (mem b' x) = ev_pri (mem b x)" for x
    by (rule core_fields(4)) (use fr in \<open>simp add: queue_frame_def\<close>)
  have "external b Q' = external b' Q' + (if Q' = Q \<and> EVLIST_INTERNAL \<notin> ev_flags (mem b ev) then 1 else 0)" if "Q' \<in> queues" for Q'
  proof (cases "Q' = Q")
    case True
    then show ?thesis using external_mset(2) [of b b', OF int [symmetric] on(1)] int by simp
  next
    case False
    then show ?thesis using external_mset(1) [of b' b Q', OF int] on(2) [OF that] by simp
  qed
  then have "event_count b' = external b' EVLIST_INSERTED + external b' EVLIST_ACTIVE + external b' EVLIST_TIMEOUT"
    using cn(2) base_okD(7) [OF ok] Q(1) by (auto simp: queues_def)
  moreover have "length (on_queue b EVLIST_ACTIVE) = length (on_queue b' EVLIST_ACTIVE) + (if Q = EVLIST_ACTIVE then 1 else 0)"
    using on by (cases "Q = EVLIST_ACTIVE") (metis add.commute plus_1_eq_Suc size_add_mset size_mset, simp)
  then have "event_count_active b' = int (length (on_queue b' EVLIST_ACTIVE))" using cn(1) base_okD(6) [OF ok] by simp
  moreover have "ev_pri (mem b' e) = i" if "i < length (activequeues b')" "e \<in> set (activequeues b' ! i)" for i e
    using aq [of i] that base_okD(5) [OF ok, of i e] fr pri by (auto simp: queue_frame_def split: if_splits)
  ultimately show ?thesis using h q pri base_okD(4) [OF ok] fr by (auto simp: base_ok_def queue_frame_def)
qed

definition inserted :: "evlist \<Rightarrow> nat \<Rightarrow> 'io event_base \<Rightarrow> 'io event_base \<Rightarrow> bool" where
  "inserted Q ev b b' \<longleftrightarrow> base_ok b' \<and> queue_frame b b' \<and> mset (on_queue b' Q) = add_mset ev (mset (on_queue b Q))
     \<and> (\<forall>Q'\<in>queues. Q' \<noteq> Q \<longrightarrow> on_queue b' Q' = on_queue b Q')
     \<and> (\<forall>x. ev_flags (mem b' x) = (if x = ev then insert Q (ev_flags (mem b x)) else ev_flags (mem b x)))
     \<and> activequeues b' = (if Q = EVLIST_ACTIVE then (activequeues b)[ev_pri (mem b ev) := activequeues b ! ev_pri (mem b ev) @ [ev]]
          else activequeues b)"

definition removed :: "evlist \<Rightarrow> nat \<Rightarrow> 'io event_base \<Rightarrow> 'io event_base \<Rightarrow> bool" where
  "removed Q ev b b' \<longleftrightarrow> base_ok b' \<and> queue_frame b b' \<and> mset (on_queue b Q) = add_mset ev (mset (on_queue b' Q))
     \<and> (\<forall>Q'\<in>queues. Q' \<noteq> Q \<longrightarrow> on_queue b' Q' = on_queue b Q')
     \<and> (\<forall>x. ev_flags (mem b' x) = (if x = ev then ev_flags (mem b x) - {Q} else ev_flags (mem b x)))
     \<and> activequeues b' = (if Q = EVLIST_ACTIVE then (activequeues b)[ev_pri (mem b ev) := remove1 ev (activequeues b ! ev_pri (mem b ev))]
          else activequeues b)"

lemma core_flags [simp]: "core (r\<lparr>ev_flags := f\<rparr>) = core r"
  by (simp add: core_def)

lemma push_reserved:
  assumes "al \<or> heap_n s < heap_a s"
  shows "fst (min_heap_push al e s m)"
  using assms by (auto simp: min_heap_push_def min_heap_reserve_def Let_def case_prod_unfold)

lemma queue_insert_spec:
  assumes ok: "base_ok b" and Q: "Q \<in> queues" "Q \<notin> ev_flags (mem b ev)"
    and room: "Q = EVLIST_TIMEOUT \<longrightarrow> al \<or> heap_n (timeheap b) < heap_a (timeheap b)"
  shows "\<exists>b'. event_queue_insert al ev Q b = Some b' \<and> inserted Q ev b b'"
proof -
  let ?n = "if EVLIST_INTERNAL \<in> ev_flags (mem b ev) then 0 else 1"
  let ?m = "(mem b)(ev := (mem b ev)\<lparr>ev_flags := insert Q (ev_flags (mem b ev))\<rparr>)"
  have h: "heap_inv (timeheap b) ?m" by (rule heap_inv_cong [OF base_okD(1) [OF ok]]) auto
  have pri: "ev_pri (mem b ev) < length (activequeues b)" by (rule base_okD(4) [OF ok])
  consider "Q = EVLIST_INSERTED" | "Q = EVLIST_ACTIVE" | "Q = EVLIST_TIMEOUT" using Q(1) by (auto simp: queues_def)
  then show ?thesis
  proof cases
    case 1
    define b' where "b' = b\<lparr>event_count := event_count b + ?n, mem := ?m, eventqueue := eventqueue b @ [ev]\<rparr>"
    have e: "event_queue_insert al ev Q b = Some b'"
      using 1 Q(2) by (simp add: event_queue_insert_def upd_event_def b'_def Let_def)
    have f: "queue_frame b b'" by (simp add: queue_frame_def b'_def)
    have on: "mset (on_queue b' Q) = add_mset ev (mset (on_queue b Q))" "\<And>Q'. Q' \<in> queues \<Longrightarrow> Q' \<noteq> Q \<Longrightarrow> on_queue b' Q' = on_queue b Q'"
      using 1 by (auto simp: on_queue_def b'_def split: evlist.split)
    have "base_ok b'" by (rule base_ok_insert [OF ok Q _ on _ f]) (use 1 h in \<open>auto simp: b'_def\<close>)
    then show ?thesis using e f on 1 by (auto simp: inserted_def b'_def)
  next
    case 2
    define b' where "b' = b\<lparr>event_count := event_count b + ?n, mem := ?m, event_count_active := event_count_active b + 1,
      activequeues := (activequeues b)[ev_pri (mem b ev) := activequeues b ! ev_pri (mem b ev) @ [ev]]\<rparr>"
    have e: "event_queue_insert al ev Q b = Some b'"
      using 2 Q(2) by (simp add: event_queue_insert_def upd_event_def b'_def Let_def)
    have f: "queue_frame b b'" by (simp add: queue_frame_def b'_def)
    have on: "mset (on_queue b' Q) = add_mset ev (mset (on_queue b Q))" "\<And>Q'. Q' \<in> queues \<Longrightarrow> Q' \<noteq> Q \<Longrightarrow> on_queue b' Q' = on_queue b Q'"
      using 2 concat_update [OF pri, of "activequeues b ! ev_pri (mem b ev) @ [ev]"]
      by (auto simp: on_queue_def b'_def split: evlist.split)
    have "base_ok b'" by (rule base_ok_insert [OF ok Q _ on _ f]) (use 2 h pri in \<open>auto simp: b'_def nth_list_update\<close>)
    then show ?thesis using e f on 2 by (auto simp: inserted_def b'_def)
  next
    case 3
    have new: "ev \<notin> set (heap_elems (timeheap b))" using base_okD(3) [OF ok Q(1), of ev] Q(2) 3 by (simp add: on_queue_def)
    obtain h' m' where p: "min_heap_push al ev (timeheap b) ?m = (True, h', m')"
      using push_reserved [of al "timeheap b" ev ?m] room 3 by (cases "min_heap_push al ev (timeheap b) ?m") auto
    note ps = push_spec [OF h new p]
    define b' where "b' = b\<lparr>event_count := event_count b + ?n, timeheap := h', mem := m'\<rparr>"
    have e: "event_queue_insert al ev Q b = Some b'"
      using 3 Q(2) p by (simp add: event_queue_insert_def upd_event_def b'_def Let_def)
    have fl: "ev_flags (m' x) = (if x = ev then insert Q (ev_flags (mem b x)) else ev_flags (mem b x))" for x
      using idx_frame_core(2) [OF ps(3), of x] by simp
    have f: "queue_frame b b'" using idx_frame_core(1) [OF ps(3)] by (simp add: queue_frame_def b'_def)
    have on: "mset (on_queue b' Q) = add_mset ev (mset (on_queue b Q))" "\<And>Q'. Q' \<in> queues \<Longrightarrow> Q' \<noteq> Q \<Longrightarrow> on_queue b' Q' = on_queue b Q'"
      using 3 ps(2) by (auto simp: on_queue_def b'_def split: evlist.split)
    have "base_ok b'" by (rule base_ok_insert [OF ok Q _ on _ f]) (use 3 ps(1) fl in \<open>auto simp: b'_def\<close>)
    then show ?thesis using e f on fl 3 by (auto simp: inserted_def b'_def)
  qed
qed

lemma queue_remove_spec:
  assumes ok: "base_ok b" and Q: "Q \<in> queues" "Q \<in> ev_flags (mem b ev)"
  shows "\<exists>b'. event_queue_remove ev Q b = Some b' \<and> removed Q ev b b'"
proof -
  let ?n = "if EVLIST_INTERNAL \<in> ev_flags (mem b ev) then 0 else 1"
  let ?m = "(mem b)(ev := (mem b ev)\<lparr>ev_flags := ev_flags (mem b ev) - {Q}\<rparr>)"
  have h: "heap_inv (timeheap b) ?m" by (rule heap_inv_cong [OF base_okD(1) [OF ok]]) auto
  have pri: "ev_pri (mem b ev) < length (activequeues b)" by (rule base_okD(4) [OF ok])
  have mem: "ev \<in> set (on_queue b Q)" using base_okD(3) [OF ok Q(1)] Q(2) by blast
  consider "Q = EVLIST_INSERTED" | "Q = EVLIST_ACTIVE" | "Q = EVLIST_TIMEOUT" using Q(1) by (auto simp: queues_def)
  then show ?thesis
  proof cases
    case 1
    define b' where "b' = b\<lparr>event_count := event_count b - ?n, mem := ?m, eventqueue := remove1 ev (eventqueue b)\<rparr>"
    have e: "event_queue_remove ev Q b = Some b'"
      using 1 Q(2) by (simp add: event_queue_remove_def upd_event_def b'_def Let_def)
    have f: "queue_frame b b'" by (simp add: queue_frame_def b'_def)
    have on: "mset (on_queue b Q) = add_mset ev (mset (on_queue b' Q))" "\<And>Q'. Q' \<in> queues \<Longrightarrow> Q' \<noteq> Q \<Longrightarrow> on_queue b' Q' = on_queue b Q'"
      using 1 mem by (auto simp: on_queue_def b'_def split: evlist.split)
    have "base_ok b'" by (rule base_ok_remove [OF ok Q _ on _ f]) (use 1 h in \<open>auto simp: b'_def\<close>)
    then show ?thesis using e f on 1 by (auto simp: removed_def b'_def)
  next
    case 2
    let ?a = "activequeues b ! ev_pri (mem b ev)"
    define b' where "b' = b\<lparr>event_count := event_count b - ?n, mem := ?m, event_count_active := event_count_active b - 1,
      activequeues := (activequeues b)[ev_pri (mem b ev) := remove1 ev ?a]\<rparr>"
    have e: "event_queue_remove ev Q b = Some b'"
      using 2 Q(2) by (simp add: event_queue_remove_def upd_event_def b'_def Let_def)
    obtain i where "i < length (activequeues b)" "ev \<in> set (activequeues b ! i)"
      using mem 2 by (auto simp: on_queue_def in_set_conv_nth [of _ "activequeues b"])
    then have a: "ev \<in> set ?a" using base_okD(5) [OF ok] by blast
    have f: "queue_frame b b'" by (simp add: queue_frame_def b'_def)
    have "mset (concat (activequeues b')) + mset ?a = mset (concat (activequeues b)) + mset (remove1 ev ?a)"
      using concat_update [OF pri] by (simp add: b'_def)
    moreover have "mset ?a = add_mset ev (mset (remove1 ev ?a))" using a by simp
    ultimately have "mset (concat (activequeues b)) = add_mset ev (mset (concat (activequeues b')))"
      by (metis add_right_cancel union_mset_add_mset_left union_mset_add_mset_right)
    then have on: "mset (on_queue b Q) = add_mset ev (mset (on_queue b' Q))" "\<And>Q'. Q' \<in> queues \<Longrightarrow> Q' \<noteq> Q \<Longrightarrow> on_queue b' Q' = on_queue b Q'"
      using 2 by (auto simp: on_queue_def b'_def split: evlist.split)
    have "base_ok b'" by (rule base_ok_remove [OF ok Q _ on _ f])
      (use 2 h pri in \<open>auto simp: b'_def nth_list_update split: if_splits dest: notin_set_remove1 set_mp [OF set_remove1_subset]\<close>)
    then show ?thesis using e f on 2 by (auto simp: removed_def b'_def)
  next
    case 3
    have new: "ev \<in> set (heap_elems (timeheap b))" using mem 3 by (simp add: on_queue_def)
    obtain k h' m' where p: "min_heap_erase ev (timeheap b) ?m = (k, h', m')"
      by (cases "min_heap_erase ev (timeheap b) ?m") auto
    note ps = erase_spec [OF h new p]
    define b' where "b' = b\<lparr>event_count := event_count b - ?n, timeheap := h', mem := m'\<rparr>"
    have e: "event_queue_remove ev Q b = Some b'"
      using 3 Q(2) p by (simp add: event_queue_remove_def upd_event_def b'_def Let_def)
    have fl: "ev_flags (m' x) = (if x = ev then ev_flags (mem b x) - {Q} else ev_flags (mem b x))" for x
      using idx_frame_core(2) [of _ ?m m' x] ps by auto
    have f: "queue_frame b b'" using idx_frame_core(1) [of _ ?m m'] ps by (auto simp: queue_frame_def b'_def)
    have on: "mset (on_queue b Q) = add_mset ev (mset (on_queue b' Q))" "\<And>Q'. Q' \<in> queues \<Longrightarrow> Q' \<noteq> Q \<Longrightarrow> on_queue b' Q' = on_queue b Q'"
      using 3 ps new by (auto simp: on_queue_def b'_def split: evlist.split)
    have "base_ok b'" by (rule base_ok_remove [OF ok Q _ on _ f]) (use 3 ps fl in \<open>auto simp: b'_def\<close>)
    then show ?thesis using e f on fl 3 by (auto simp: removed_def b'_def)
  qed
qed

section \<open>Deleting and activating keep the invariant\<close>

lemma base_ok_upd:
  assumes "base_ok b" "\<And>r. ev_flags (f r) = ev_flags r \<and> min_heap_idx (f r) = min_heap_idx r \<and> ev_pri (f r) = ev_pri r"
    "\<And>r. ev_timeout (f r) = ev_timeout r \<or> EVLIST_TIMEOUT \<notin> ev_flags (mem b ev)"
  shows "base_ok (upd_event ev f b)"
proof -
  have fl: "ev_flags (mem (upd_event ev f b) x) = ev_flags (mem b x)" "ev_pri (mem (upd_event ev f b) x) = ev_pri (mem b x)" for x
    using assms(2) by (auto simp: upd_event_def)
  have o: "on_queue (upd_event ev f b) Q = on_queue b Q" for Q by (simp add: on_queue_def upd_event_def split: evlist.split)
  have "heap_inv (timeheap b) (mem (upd_event ev f b))"
  proof (rule heap_inv_cong [OF base_okD(1) [OF assms(1)]])
    show "min_heap_idx (mem (upd_event ev f b) x) = min_heap_idx (mem b x)" for x using assms(2) by (auto simp: upd_event_def)
    show "ev_timeout (mem (upd_event ev f b) x) = ev_timeout (mem b x)" if "x \<in> set (heap_elems (timeheap b))" for x
      using that assms(3) base_okD(3) [OF assms(1), of EVLIST_TIMEOUT x] by (auto simp: upd_event_def on_queue_def)
  qed
  then show ?thesis using assms(1) fl o
    by (simp add: base_ok_def external_def) (simp add: upd_event_def)
qed

lemma on_queue_upd [simp]: "on_queue (upd_event ev f b) Q = on_queue b Q" "activequeues (upd_event ev f b) = activequeues b"
  "mem (upd_event ev f b) x = (if x = ev then f (mem b x) else mem b x)"
  by (simp_all add: on_queue_def upd_event_def split: evlist.split)

lemma base_ok_iomap [simp]: "base_ok (b\<lparr>iomap := io\<rparr>) = base_ok b" "on_queue (b\<lparr>iomap := io\<rparr>) Q = on_queue b Q"
  by (simp_all add: base_ok_def on_queue_def external_def split: evlist.split)

lemma base_ok_continue [simp]: "base_ok (b\<lparr>event_continue := c\<rparr>) = base_ok b" "on_queue (b\<lparr>event_continue := c\<rparr>) Q = on_queue b Q"
  by (simp_all add: base_ok_def on_queue_def external_def split: evlist.split)

text \<open>
  What deleting changes: the event leaves the queues it was on, the counter of a signal loop may be reset.
\<close>

definition core2 :: "event \<Rightarrow> event" where
  "core2 r = r\<lparr>min_heap_idx := 0, ev_flags := {}, ev_pncalls := None\<rparr>"

lemma core_core2: "core r = core r' \<Longrightarrow> core2 r = core2 r'"
  by (cases r; cases r'; simp add: core_def core2_def)

lemma core2_fields:
  assumes "core2 r = core2 r'"
  shows "ev_timeout r = ev_timeout r'" "ev_events r = ev_events r'" "ev_res r = ev_res r'" "ev_pri r = ev_pri r'"
    "ev_closure r = ev_closure r'" "ev_io_timeout r = ev_io_timeout r'" "ev_fd r = ev_fd r'" "ev_callback r = ev_callback r'"
  using assms by (cases r; cases r'; simp add: core2_def)+

definition left :: "evlist set \<Rightarrow> nat \<Rightarrow> 'io event_base \<Rightarrow> 'io event_base \<Rightarrow> bool" where
  "left Qs ev b b' \<longleftrightarrow> base_ok b' \<and> (\<forall>x. ev_flags (mem b' x) = (if x = ev then ev_flags (mem b x) - Qs else ev_flags (mem b x)))
     \<and> (\<forall>Q\<in>queues. mset (on_queue b' Q) = (if Q \<in> Qs then mset (on_queue b Q) - {#ev#} else mset (on_queue b Q)))
     \<and> activequeues b' = (if EVLIST_ACTIVE \<in> Qs then map (removeAll ev) (activequeues b) else activequeues b)
     \<and> (\<forall>x. core2 (mem b' x) = core2 (mem b x)) \<and> (\<forall>x. x \<noteq> ev \<longrightarrow> core (mem b' x) = core (mem b x))
     \<and> event_running_priority b' = event_running_priority b \<and> event_continue b' = event_continue b
     \<and> event_break b' = event_break b \<and> event_tv b' = event_tv b"

lemma active_other_queues:
  assumes ok: "base_ok b" and i: "i < length (activequeues b)"
  shows "removeAll ev (activequeues b ! i) = (if i = ev_pri (mem b ev) then remove1 ev (activequeues b ! i) else activequeues b ! i)"
proof -
  have "distinct (activequeues b ! i)"
    using base_okD(2) [OF ok, of EVLIST_ACTIVE] i by (auto simp: on_queue_def distinct_concat_iff)
  then have "remove1 ev (activequeues b ! i) = removeAll ev (activequeues b ! i)" by (rule distinct_remove1_removeAll)
  moreover have "ev \<notin> set (activequeues b ! i)" if "i \<noteq> ev_pri (mem b ev)" using base_okD(5) [OF ok i] that by blast
  ultimately show ?thesis by (metis removeAll_id)
qed

lemma removed_left:
  assumes ok: "base_ok b" and r: "removed Q ev b b'" and Q: "Q \<in> queues"
  shows "left {Q} ev b b'"
proof -
  have a: "(activequeues b)[ev_pri (mem b ev) := remove1 ev (activequeues b ! ev_pri (mem b ev))] = map (removeAll ev) (activequeues b)"
    using active_other_queues [OF ok] by (intro nth_equalityI) (simp_all add: nth_list_update)
  have c: "core (mem b' x) = core (mem b x)" for x using r by (simp add: removed_def queue_frame_def)
  have "mset (on_queue b' Q') = (if Q' \<in> {Q} then mset (on_queue b Q') - {#ev#} else mset (on_queue b Q'))" if "Q' \<in> queues" for Q'
    using r that by (simp add: removed_def)
  moreover have "activequeues b' = (if EVLIST_ACTIVE \<in> {Q} then map (removeAll ev) (activequeues b) else activequeues b)"
    using r a by (simp add: removed_def)
  ultimately show ?thesis using r c core_core2 [OF c] unfolding left_def removed_def queue_frame_def by blast
qed

lemma left_none:
  assumes ok: "base_ok b" and Q: "Q \<in> queues" "Q \<notin> ev_flags (mem b ev)"
  shows "left {Q} ev b b"
proof -
  have o: "ev \<notin> set (on_queue b Q)" using base_okD(3) [OF ok Q(1)] Q(2) by blast
  then have "mset (on_queue b Q) - {#ev#} = mset (on_queue b Q)" by (simp add: diff_single_trivial)
  moreover have "map (removeAll ev) (activequeues b) = activequeues b" if "Q = EVLIST_ACTIVE"
    using o that by (auto simp: on_queue_def intro!: map_idI removeAll_id)
  moreover have "ev_flags (mem b ev) - {Q} = ev_flags (mem b ev)" using Q(2) by blast
  ultimately show ?thesis using ok by (cases "Q = EVLIST_ACTIVE") (auto simp: left_def)
qed

lemma del_from_spec:
  assumes ok: "base_ok b" and Q: "Q \<in> queues"
  shows "\<exists>b'. del_from ev Q b = Some b' \<and> left {Q} ev b b'"
proof (cases "Q \<in> ev_flags (mem b ev)")
  case True
  then show ?thesis using queue_remove_spec [OF ok Q True] removed_left [OF ok _ Q] by (auto simp: del_from_def)
next
  case False
  then show ?thesis using left_none [OF ok Q False] by (simp add: del_from_def)
qed

lemma left_trans:
  assumes "left Qs ev b1 b2" "left Qs' ev b2 b3" "Qs \<inter> Qs' = {}"
  shows "left (Qs \<union> Qs') ev b1 b3"
proof -
  have "mset (on_queue b3 Q) = (if Q \<in> Qs \<union> Qs' then mset (on_queue b1 Q) - {#ev#} else mset (on_queue b1 Q))" if "Q \<in> queues" for Q
    using assms that unfolding left_def by auto
  moreover have "activequeues b3 = (if EVLIST_ACTIVE \<in> Qs \<union> Qs' then map (removeAll ev) (activequeues b1) else activequeues b1)"
    using assms unfolding left_def by (auto simp: comp_def)
  moreover have "ev_flags (mem b3 x) = (if x = ev then ev_flags (mem b1 x) - (Qs \<union> Qs') else ev_flags (mem b1 x))" for x
    using assms(1,2) unfolding left_def by auto
  ultimately show ?thesis using assms(1,2) unfolding left_def by simp
qed

lemma left_iomap: "left Qs ev b b' \<Longrightarrow> left Qs ev b (b'\<lparr>iomap := io\<rparr>)"
  by (simp add: left_def)

lemma left_abort:
  assumes "base_ok b"
  shows "left {} ev b (abort_signal_loop ev b)"
proof -
  have "base_ok (abort_signal_loop ev b)" using assms by (simp add: abort_signal_loop_def Let_def base_ok_upd)
  then show ?thesis by (auto simp: left_def abort_signal_loop_def Let_def core_def core2_def) (simp_all add: upd_event_def)
qed

lemma event_del_spec:
  assumes ok: "base_ok b"
  shows "\<exists>res b'. event_del_internal em ev b = Some (res, b') \<and> left queues ev b b'"
proof -
  let ?b1 = "if EV_SIGNAL \<in> ev_events (mem b ev) then abort_signal_loop ev b else b"
  have l1: "left {} ev b ?b1" using left_abort [OF ok] ok by (auto simp: left_def)
  then have ok1: "base_ok ?b1" by (simp add: left_def)
  obtain b2 where b2: "del_from ev EVLIST_TIMEOUT ?b1 = Some b2" "left {EVLIST_TIMEOUT} ev ?b1 b2"
    using del_from_spec [OF ok1, of EVLIST_TIMEOUT] by auto
  then have ok2: "base_ok b2" by (simp add: left_def)
  obtain b3 where b3: "del_from ev EVLIST_ACTIVE b2 = Some b3" "left {EVLIST_ACTIVE} ev b2 b3"
    using del_from_spec [OF ok2, of EVLIST_ACTIVE] by auto
  then have ok3: "base_ok b3" by (simp add: left_def)
  obtain b4 where b4: "del_from ev EVLIST_INSERTED b3 = Some b4" "left {EVLIST_INSERTED} ev b3 b4"
    using del_from_spec [OF ok3, of EVLIST_INSERTED] by auto
  have "left ({} \<union> {EVLIST_TIMEOUT} \<union> {EVLIST_ACTIVE} \<union> {EVLIST_INSERTED}) ev b b4"
    by (intro left_trans [OF left_trans [OF left_trans [OF l1 b2(2)] b3(2)] b4(2)]) simp_all
  moreover have "{} \<union> {EVLIST_TIMEOUT} \<union> {EVLIST_ACTIVE} \<union> {EVLIST_INSERTED} = queues" by (auto simp: queues_def)
  ultimately have l: "left queues ev b b4" by simp
  show ?thesis
  proof (cases "EVLIST_INSERTED \<in> ev_flags (mem b3 ev)")
    case True
    then have "event_queue_remove ev EVLIST_INSERTED b3 = Some b4" using b4(1) by (simp add: del_from_def)
    then show ?thesis using True b2(1) b3(1) left_iomap [OF l]
      by (auto simp: event_del_internal_def Let_def split: prod.split)
  next
    case False
    then have "b4 = b3" using b4(1) by (simp add: del_from_def)
    then show ?thesis using False b2(1) b3(1) l by (simp add: event_del_internal_def Let_def)
  qed
qed

lemma active_spec:
  assumes ok: "base_ok b" and n: "EVLIST_ACTIVE \<notin> ev_flags (mem b ev)"
  shows "\<exists>b'. event_active_nolock ev res nc b = Some b' \<and> base_ok b'
    \<and> (\<forall>x. ev_flags (mem b' x) = (if x = ev then insert EVLIST_ACTIVE (ev_flags (mem b x)) else ev_flags (mem b x)))
    \<and> (\<forall>Q\<in>queues. Q \<noteq> EVLIST_ACTIVE \<longrightarrow> on_queue b' Q = on_queue b Q)
    \<and> activequeues b' = (activequeues b)[ev_pri (mem b ev) := activequeues b ! ev_pri (mem b ev) @ [ev]]
    \<and> (\<forall>x. x \<noteq> ev \<longrightarrow> core (mem b' x) = core (mem b x)) \<and> ev_res (mem b' ev) = res
    \<and> (\<forall>x. ev_timeout (mem b' x) = ev_timeout (mem b x) \<and> ev_pri (mem b' x) = ev_pri (mem b x))"
proof -
  define b1 where "b1 = upd_event ev (\<lambda>r. r\<lparr>ev_res := res\<rparr>) b"
  define b2 where "b2 = (if int (ev_pri (mem b ev)) < event_running_priority b1 then b1\<lparr>event_continue := True\<rparr> else b1)"
  define b3 where "b3 = (if EV_SIGNAL \<in> ev_events (mem b ev) then upd_event ev (\<lambda>r. r\<lparr>ev_ncalls := nc, ev_pncalls := None\<rparr>) b2 else b2)"
  have ok1: "base_ok b1" unfolding b1_def by (rule base_ok_upd [OF ok]) simp_all
  then have ok2: "base_ok b2" by (simp add: b2_def)
  then have ok3: "base_ok b3" by (simp add: b3_def base_ok_upd)
  have eq: "event_active_nolock ev res nc b = event_queue_insert True ev EVLIST_ACTIVE b3"
    using n by (simp add: event_active_nolock_def Let_def b1_def b2_def b3_def)
  have m: "ev_flags (mem b3 x) = ev_flags (mem b x)" "ev_timeout (mem b3 x) = ev_timeout (mem b x)"
    "ev_pri (mem b3 x) = ev_pri (mem b x)" "x \<noteq> ev \<Longrightarrow> mem b3 x = mem b x" "ev_res (mem b3 ev) = res" for x
    by (simp_all add: b1_def b2_def b3_def)
  have q: "on_queue b3 Q = on_queue b Q" "activequeues b3 = activequeues b" for Q
    by (simp_all add: b1_def b2_def b3_def)
  obtain b' where b': "event_queue_insert True ev EVLIST_ACTIVE b3 = Some b'" "inserted EVLIST_ACTIVE ev b3 b'"
    using queue_insert_spec [OF ok3, of EVLIST_ACTIVE ev True] n m(1) by auto
  have c: "core (mem b' x) = core (mem b3 x)" for x using b'(2) by (simp add: inserted_def queue_frame_def)
  show ?thesis using b' eq m q core_fields(1,3,4) [OF c] c by (auto simp: inserted_def)
qed

text \<open>
  The events \<open>fs\<close> timed out: they left the heap and the queue of inserted events, lost what they were active
  for and went to the end of the active queues of their priorities, in the order of \<open>fs\<close>; other events and
  the order among them are as before.
\<close>

definition timed_out :: "nat list \<Rightarrow> 'io event_base \<Rightarrow> 'io event_base \<Rightarrow> bool" where
  "timed_out fs b b' \<longleftrightarrow> base_ok b' \<and> set (on_queue b' EVLIST_TIMEOUT) = set (on_queue b EVLIST_TIMEOUT) - set fs
     \<and> length (activequeues b') = length (activequeues b)
     \<and> (\<forall>i<length (activequeues b). activequeues b' ! i =
          filter (\<lambda>e. e \<notin> set fs) (activequeues b ! i) @ filter (\<lambda>e. ev_pri (mem b e) = i) fs)
     \<and> (\<forall>x. ev_flags (mem b' x) = (if x \<in> set fs then insert EVLIST_ACTIVE (ev_flags (mem b x) - queues) else ev_flags (mem b x)))
     \<and> (\<forall>x. ev_res (mem b' x) = (if x \<in> set fs then {EV_TIMEOUT} else ev_res (mem b x)))
     \<and> (\<forall>x. x \<notin> set fs \<longrightarrow> core (mem b' x) = core (mem b x))
     \<and> (\<forall>x. ev_timeout (mem b' x) = ev_timeout (mem b x) \<and> ev_pri (mem b' x) = ev_pri (mem b x))"

lemma timed_out_Nil: "base_ok b \<Longrightarrow> timed_out [] b b"
  by (simp add: timed_out_def)

lemma timed_out_Cons:
  assumes "timed_out [e] b b1" "timed_out fs b1 b2" "e \<notin> set fs"
  shows "timed_out (e # fs) b b2"
proof -
  have "activequeues b2 ! i = filter (\<lambda>x. x \<notin> set (e # fs)) (activequeues b ! i) @ filter (\<lambda>x. ev_pri (mem b x) = i) (e # fs)"
    if "i < length (activequeues b)" for i
    using assms that by (auto simp: timed_out_def intro!: filter_cong)
  moreover have "ev_flags (mem b2 x) = (if x \<in> set (e # fs) then insert EVLIST_ACTIVE (ev_flags (mem b x) - queues) else ev_flags (mem b x))" for x
    using assms by (auto simp: timed_out_def)
  moreover have "set (on_queue b2 EVLIST_TIMEOUT) = set (on_queue b EVLIST_TIMEOUT) - set (e # fs)"
    using assms by (auto simp: timed_out_def)
  ultimately show ?thesis using assms(1,2) by (simp add: timed_out_def)
qed

lemma fire_spec:
  assumes ok: "base_ok b"
  shows "\<exists>res b1 b2. event_del_internal em ev b = Some (res, b1) \<and> event_active_nolock ev {EV_TIMEOUT} 1 b1 = Some b2 \<and> timed_out [ev] b b2"
proof -
  obtain res b1 where d: "event_del_internal em ev b = Some (res, b1)" "left queues ev b b1" using event_del_spec [OF ok] by blast
  have c: "core2 (mem b1 x) = core2 (mem b x)" for x using d(2) by (simp add: left_def)
  note cf = core2_fields(1,3,4) [OF c]
  have ok1: "base_ok b1" and fl: "\<And>x. ev_flags (mem b1 x) = (if x = ev then ev_flags (mem b x) - queues else ev_flags (mem b x))"
    and aq: "activequeues b1 = map (removeAll ev) (activequeues b)"
    and th: "mset (on_queue b1 EVLIST_TIMEOUT) = mset (on_queue b EVLIST_TIMEOUT) - {#ev#}"
    and oc: "\<And>x. x \<noteq> ev \<Longrightarrow> core (mem b1 x) = core (mem b x)" using d(2) by (auto simp: left_def)
  obtain b2 where a: "event_active_nolock ev {EV_TIMEOUT} 1 b1 = Some b2" and ok2: "base_ok b2"
    and fl2: "\<And>x. ev_flags (mem b2 x) = (if x = ev then insert EVLIST_ACTIVE (ev_flags (mem b1 x)) else ev_flags (mem b1 x))"
    and th2: "on_queue b2 EVLIST_TIMEOUT = on_queue b1 EVLIST_TIMEOUT"
    and aq2: "activequeues b2 = (activequeues b1)[ev_pri (mem b1 ev) := activequeues b1 ! ev_pri (mem b1 ev) @ [ev]]"
    and oc2: "\<And>x. x \<noteq> ev \<Longrightarrow> core (mem b2 x) = core (mem b1 x)" and r2: "ev_res (mem b2 ev) = {EV_TIMEOUT}"
    and t2: "\<And>x. ev_timeout (mem b2 x) = ev_timeout (mem b1 x) \<and> ev_pri (mem b2 x) = ev_pri (mem b1 x)"
    using active_spec [OF ok1, of ev "{EV_TIMEOUT}" 1] fl by auto
  have "distinct (on_queue b EVLIST_TIMEOUT)" using base_okD(2) [OF ok] by simp
  then have "set (on_queue b2 EVLIST_TIMEOUT) = set (on_queue b EVLIST_TIMEOUT) - {ev}"
    using th th2 by (metis distinct_remove1_removeAll mset_eq_setD mset_remove1 set_removeAll)
  moreover have "ev_res (mem b2 x) = ev_res (mem b x)" if "x \<noteq> ev" for x
    using core_fields(3) [OF oc2 [OF that]] cf(2) by simp
  moreover have "activequeues b2 ! i = filter (\<lambda>e. e \<notin> set [ev]) (activequeues b ! i) @ filter (\<lambda>e. ev_pri (mem b e) = i) [ev]"
    if "i < length (activequeues b)" for i
    using that aq cf(3) by (auto simp: aq2 nth_list_update removeAll_filter_not_eq intro!: filter_cong)
  ultimately have "timed_out [ev] b b2"
    using ok2 fl fl2 oc oc2 r2 t2 cf aq by (auto simp: timed_out_def aq2)
  then show ?thesis using d(1) a by blast
qed

definition due :: "timeval \<Rightarrow> 'io event_base \<Rightarrow> nat set" where
  "due now b = {e \<in> set (on_queue b EVLIST_TIMEOUT). \<not> evutil_timercmp_gt (ev_timeout (mem b e)) now}"

definition no_later :: "'io event_base \<Rightarrow> nat \<Rightarrow> nat \<Rightarrow> bool" where
  "no_later b x y \<longleftrightarrow> \<not> evutil_timercmp_gt (ev_timeout (mem b x)) (ev_timeout (mem b y))"

lemma heap_top_least:
  assumes ok: "base_ok b" and top: "min_heap_top (timeheap b) = Some ev" and e: "e \<in> set (on_queue b EVLIST_TIMEOUT)"
  shows "no_later b ev e" "ev \<in> set (on_queue b EVLIST_TIMEOUT)"
proof -
  have h: "heap_inv (timeheap b) (mem b)" by (rule base_okD(1) [OF ok])
  have t: "heap_elems (timeheap b) \<noteq> []" "ev = hd (heap_elems (timeheap b))"
    using top top_spec [OF h] by (auto split: if_splits)
  show "no_later b ev e" using eh.heap_top_all [of "mem b" "heap_elems (timeheap b)" e] h t e
    by (simp add: no_later_def heap_inv_def min_heap_elem_greater_def on_queue_def)
  show "ev \<in> set (on_queue b EVLIST_TIMEOUT)" using t by (simp add: on_queue_def)
qed

lemma gt_trans: "\<not> evutil_timercmp_gt a b \<Longrightarrow> \<not> evutil_timercmp_gt b c \<Longrightarrow> \<not> evutil_timercmp_gt a c"
  by (auto simp: evutil_timercmp_gt_def split: if_splits)

lemma timeout_loop_spec:
  assumes "base_ok b"
  shows "\<exists>fs b'. timeout_loop em now b = Some b' \<and> timed_out fs b b' \<and> distinct fs \<and> set fs = due now b \<and> sorted_wrt (no_later b) fs"
  using assms
proof (induction "card (set (on_queue b EVLIST_TIMEOUT))" arbitrary: b rule: less_induct)
  case (less b)
  show ?case
  proof (cases "min_heap_top (timeheap b)")
    case None
    then have "on_queue b EVLIST_TIMEOUT = []"
      using top_spec [OF base_okD(1) [OF less.prems]] by (simp add: on_queue_def split: if_splits)
    then have "due now b = {}" by (simp add: due_def)
    then show ?thesis using None timed_out_Nil [OF less.prems] by (subst timeout_loop.simps) (auto intro!: exI [of _ "[]"])
  next
    case (Some ev)
    note top = heap_top_least [OF less.prems Some]
    have ev: "ev \<in> set (on_queue b EVLIST_TIMEOUT)"
      using top_spec [OF base_okD(1) [OF less.prems]] Some by (auto simp: on_queue_def split: if_splits)
    show ?thesis
    proof (cases "evutil_timercmp_gt (ev_timeout (mem b ev)) now")
      case True
      then have "due now b = {}" using top(1) gt_trans unfolding due_def no_later_def by blast
      then show ?thesis using Some True timed_out_Nil [OF less.prems] by (subst timeout_loop.simps) (auto intro!: exI [of _ "[]"])
    next
      case False
      obtain res b1 b2 where f: "event_del_internal em ev b = Some (res, b1)" "event_active_nolock ev {EV_TIMEOUT} 1 b1 = Some b2" "timed_out [ev] b b2"
        using fire_spec [OF less.prems] by blast
      have st: "set (on_queue b2 EVLIST_TIMEOUT) = set (on_queue b EVLIST_TIMEOUT) - {ev}" and t: "\<And>x. ev_timeout (mem b2 x) = ev_timeout (mem b x)"
        and ok2: "base_ok b2" using f(3) by (auto simp: timed_out_def)
      have "card (set (on_queue b2 EVLIST_TIMEOUT)) < card (set (on_queue b EVLIST_TIMEOUT))"
        unfolding st by (rule psubset_card_mono) (use ev in auto)
      from less.hyps [OF this ok2] obtain fs b' where ih: "timeout_loop em now b2 = Some b'" "timed_out fs b2 b'" "distinct fs"
        "set fs = due now b2" "sorted_wrt (no_later b2) fs" by blast
      have d: "due now b = insert ev (due now b2)" "ev \<notin> due now b2" using st t False ev by (auto simp: due_def)
      have nl: "no_later b2 = no_later b" using t by (auto simp: no_later_def fun_eq_iff)
      have "no_later b ev x" if "x \<in> set fs" for x using that ih(4) st top(1) by (auto simp: due_def)
      then have "timeout_loop em now b = Some b' \<and> timed_out (ev # fs) b b' \<and> distinct (ev # fs) \<and> set (ev # fs) = due now b \<and> sorted_wrt (no_later b) (ev # fs)"
        using timed_out_Cons [OF f(3) ih(2)] ih d nl Some False f(1,2) by (subst timeout_loop.simps) auto
      then show ?thesis by blast
    qed
  qed
qed

section \<open>Adding\<close>

text \<open>An operation on \<open>ev\<close> that keeps the invariant and every other event.\<close>

definition others :: "nat \<Rightarrow> 'io event_base \<Rightarrow> 'io event_base \<Rightarrow> bool" where
  "others ev b b' \<longleftrightarrow> base_ok b' \<and> (\<forall>x. x \<noteq> ev \<longrightarrow> core (mem b' x) = core (mem b x) \<and> ev_flags (mem b' x) = ev_flags (mem b x))
     \<and> length (activequeues b') = length (activequeues b)
     \<and> ev_events (mem b' ev) = ev_events (mem b ev) \<and> ev_closure (mem b' ev) = ev_closure (mem b ev) \<and> ev_pri (mem b' ev) = ev_pri (mem b ev)"

lemma others_refl: "base_ok b \<Longrightarrow> others ev b b"
  by (simp add: others_def)

lemma others_trans: "others ev b1 b2 \<Longrightarrow> others ev b2 b3 \<Longrightarrow> others ev b1 b3"
  by (simp add: others_def)

lemma others_left:
  assumes "left Qs ev b b'"
  shows "others ev b b'"
proof -
  have c: "core2 (mem b' x) = core2 (mem b x)" for x using assms by (simp add: left_def)
  show ?thesis using assms core2_fields(2,4,5) [OF c] by (simp add: left_def others_def)
qed

lemma others_inserted:
  assumes "inserted Q ev b b'"
  shows "others ev b b'"
proof -
  have c: "core (mem b' x) = core (mem b x)" for x using assms by (simp add: inserted_def queue_frame_def)
  show ?thesis using assms c core_fields(2,4,5) [OF c] by (simp add: inserted_def queue_frame_def others_def)
qed

lemma others_iomap: "others ev b b' \<Longrightarrow> others ev b (b'\<lparr>iomap := io\<rparr>)"
  by (simp add: others_def)

lemma others_del:
  assumes "base_ok b" "Q \<in> queues"
  shows "\<exists>b'. del_from ev Q b = Some b' \<and> left {Q} ev b b' \<and> others ev b b'"
  using del_from_spec [OF assms] others_left by blast

lemma add_timeout_spec:
  assumes ok: "base_ok b"
  shows "\<exists>b'. add_timeout True now tv absolute ev b = Some b' \<and> others ev b b' \<and> EVLIST_TIMEOUT \<in> ev_flags (mem b' ev)
    \<and> ev_timeout (mem b' ev) = (if absolute then tv else evutil_timeradd now tv)
    \<and> (EVLIST_ACTIVE \<in> ev_flags (mem b' ev) \<longleftrightarrow> EVLIST_ACTIVE \<in> ev_flags (mem b ev) \<and> EV_TIMEOUT \<notin> ev_res (mem b ev))"
proof -
  let ?b1 = "if ev_closure (mem b ev) = EV_CLOSURE_PERSIST \<and> \<not> absolute then upd_event ev (\<lambda>r. r\<lparr>ev_io_timeout := tv\<rparr>) b else b"
  let ?t = "if absolute then tv else evutil_timeradd now tv"
  have o1: "others ev b ?b1" and ok1: "base_ok ?b1" and f1: "ev_flags (mem ?b1 ev) = ev_flags (mem b ev)" "ev_res (mem ?b1 ev) = ev_res (mem b ev)"
    using ok base_ok_upd [OF ok, of "\<lambda>r. r\<lparr>ev_io_timeout := tv\<rparr>" ev] by (simp_all add: others_def)
  obtain b2 where d2: "del_from ev EVLIST_TIMEOUT ?b1 = Some b2" and l2: "left {EVLIST_TIMEOUT} ev ?b1 b2" and o2: "others ev ?b1 b2"
    using others_del [OF ok1, of EVLIST_TIMEOUT ev] by auto
  have ok2: "base_ok b2" and f2: "ev_flags (mem b2 ev) = ev_flags (mem b ev) - {EVLIST_TIMEOUT}" using l2 f1 by (simp_all add: left_def)
  have c2: "core2 (mem b2 ev) = core2 (mem ?b1 ev)" using l2 unfolding left_def by blast
  then have r2: "ev_res (mem b2 ev) = ev_res (mem b ev)" using core2_fields(3) [OF c2] f1 by simp
  let ?drop = "EVLIST_ACTIVE \<in> ev_flags (mem b2 ev) \<and> EV_TIMEOUT \<in> ev_res (mem b2 ev)"
  obtain b3 where d3: "(if ?drop then event_queue_remove ev EVLIST_ACTIVE (abort_signal_loop ev b2) else Some b2) = Some b3"
    and o3: "others ev b2 b3" and f3: "ev_flags (mem b3 ev) = ev_flags (mem b2 ev) - (if ?drop then {EVLIST_ACTIVE} else {})"
  proof (cases ?drop)
    case True
    have la: "left {} ev b2 (abort_signal_loop ev b2)" by (rule left_abort [OF ok2])
    then have oka: "base_ok (abort_signal_loop ev b2)" "EVLIST_ACTIVE \<in> ev_flags (mem (abort_signal_loop ev b2) ev)"
      using True by (simp_all add: left_def)
    obtain c where c: "del_from ev EVLIST_ACTIVE (abort_signal_loop ev b2) = Some c" "left {EVLIST_ACTIVE} ev (abort_signal_loop ev b2) c"
      using del_from_spec [OF oka(1), of EVLIST_ACTIVE] by auto
    have "left {EVLIST_ACTIVE} ev b2 c" using left_trans [OF la c(2)] by simp
    then have "others ev b2 c" "ev_flags (mem c ev) = ev_flags (mem b2 ev) - {EVLIST_ACTIVE}"
      by (rule others_left, simp add: left_def)
    then show thesis using True c(1) oka(2) that [of c] by (simp add: del_from_def)
  next
    case False
    then show thesis using that [of b2] others_refl [OF ok2] by auto
  qed
  have ok3: "base_ok b3" using o3 by (simp add: others_def)
  let ?b4 = "upd_event ev (\<lambda>r. r\<lparr>ev_timeout := ?t\<rparr>) b3"
  have n3: "EVLIST_TIMEOUT \<notin> ev_flags (mem b3 ev)" using f2 f3 by auto
  then have ok4: "base_ok ?b4" by (intro base_ok_upd [OF ok3]) simp_all
  then have o4: "others ev b3 ?b4" by (simp add: others_def)
  obtain b5 where d5: "event_queue_insert True ev EVLIST_TIMEOUT ?b4 = Some b5" and i5: "inserted EVLIST_TIMEOUT ev ?b4 b5"
    using queue_insert_spec [OF ok4, of EVLIST_TIMEOUT ev True] n3 by auto
  have c5: "core (mem b5 ev) = core (mem ?b4 ev)" using i5 by (simp add: inserted_def queue_frame_def)
  have fl5: "ev_flags (mem b5 ev) = insert EVLIST_TIMEOUT (ev_flags (mem b3 ev))" using i5 by (simp add: inserted_def)
  have "add_timeout True now tv absolute ev b = Some b5"
    unfolding add_timeout_def Let_def using d2 d3 d5 by (simp add: del_from_def)
  moreover have "others ev b b5" using others_trans o1 o2 o3 o4 others_inserted [OF i5] by blast
  moreover have "ev_timeout (mem b5 ev) = ?t" using core_fields(1) [OF c5] by simp
  moreover have "EVLIST_ACTIVE \<in> ev_flags (mem b5 ev) \<longleftrightarrow> EVLIST_ACTIVE \<in> ev_flags (mem b ev) \<and> EV_TIMEOUT \<notin> ev_res (mem b ev)"
    using fl5 f3 f2 r2 by auto
  ultimately show ?thesis using fl5 by auto
qed

lemma add_io_spec:
  assumes ok: "base_ok b"
  shows "\<exists>res b'. add_io em ev b = Some (res, b') \<and> others ev b b' \<and> res \<noteq> 1
    \<and> (EVLIST_TIMEOUT \<in> ev_flags (mem b' ev) \<longleftrightarrow> EVLIST_TIMEOUT \<in> ev_flags (mem b ev))
    \<and> (EVLIST_ACTIVE \<in> ev_flags (mem b' ev) \<longleftrightarrow> EVLIST_ACTIVE \<in> ev_flags (mem b ev)) \<and> ev_res (mem b' ev) = ev_res (mem b ev)
    \<and> (res \<noteq> - 1 \<and> (io_events (mem b ev) \<or> EV_SIGNAL \<in> ev_events (mem b ev)) \<longrightarrow>
         EVLIST_INSERTED \<in> ev_flags (mem b' ev) \<or> EVLIST_ACTIVE \<in> ev_flags (mem b' ev))"
proof (cases "(io_events (mem b ev) \<or> EV_SIGNAL \<in> ev_events (mem b ev)) \<and> EVLIST_INSERTED \<notin> ev_flags (mem b ev) \<and> EVLIST_ACTIVE \<notin> ev_flags (mem b ev)")
  case True
  obtain res io' where m: "(if io_events (mem b ev) then evmap_io_add em (ev_fd (mem b ev)) ev (iomap b)
      else evmap_signal_add em (ev_fd (mem b ev)) ev (iomap b)) = (res, io')" by fastforce
  let ?b1 = "b\<lparr>iomap := io'\<rparr>"
  have ok1: "base_ok ?b1" using ok by simp
  obtain b2 where b2: "event_queue_insert True ev EVLIST_INSERTED ?b1 = Some b2" "inserted EVLIST_INSERTED ev ?b1 b2"
    using queue_insert_spec [OF ok1, of EVLIST_INSERTED ev True] True by auto
  have c: "core (mem b2 ev) = core (mem ?b1 ev)" using b2(2) by (simp add: inserted_def queue_frame_def)
  have "add_io em ev b = (if res \<noteq> - 1 then Some (if res = 1 then 0 else res, b2) else Some (res, ?b1))"
    using True m b2(1) by (auto simp: add_io_def Let_def)
  moreover have "others ev b ?b1" using ok by (simp add: others_def)
  ultimately show ?thesis using b2(2) others_trans [OF _ others_inserted [OF b2(2)]] True core_fields(3) [OF c]
    by (auto simp: inserted_def)
next
  case False
  then show ?thesis using others_refl [OF ok] by (auto simp: add_io_def Let_def)
qed

lemma heap_reserve_ok:
  assumes ok: "base_ok b" and r: "min_heap_reserve al k (timeheap b) = (True, h)"
  shows "others ev b (b\<lparr>timeheap := h\<rparr>)"
proof -
  note s = reserve_inv [OF base_okD(1) [OF ok] r]
  have "on_queue (b\<lparr>timeheap := h\<rparr>) Q = on_queue b Q" for Q using s(2) by (simp add: on_queue_def split: evlist.split)
  then have "base_ok (b\<lparr>timeheap := h\<rparr>)" using ok s(1) by (simp add: base_ok_def external_def)
  then show ?thesis by (simp add: others_def)
qed

lemma event_add_spec:
  assumes ok: "base_ok b"
  shows "\<exists>res b'. event_add_internal em True now ev tv absolute b = Some (res, b') \<and> others ev b b'
    \<and> (res \<noteq> - 1 \<and> (io_events (mem b ev) \<or> EV_SIGNAL \<in> ev_events (mem b ev)) \<and> EVLIST_ACTIVE \<notin> ev_flags (mem b ev) \<longrightarrow> EVLIST_INSERTED \<in> ev_flags (mem b' ev) \<or> tv \<noteq> None)
    \<and> (\<forall>t. tv = Some t \<and> res \<noteq> - 1 \<longrightarrow> EVLIST_TIMEOUT \<in> ev_flags (mem b' ev)
         \<and> ev_timeout (mem b' ev) = (if absolute then t else evutil_timeradd now t)
         \<and> (EVLIST_ACTIVE \<in> ev_flags (mem b' ev) \<longleftrightarrow> EVLIST_ACTIVE \<in> ev_flags (mem b ev) \<and> EV_TIMEOUT \<notin> ev_res (mem b ev)))"
proof -
  let ?r = "if tv \<noteq> None \<and> EVLIST_TIMEOUT \<notin> ev_flags (mem b ev)
    then min_heap_reserve True (1 + min_heap_size (timeheap b)) (timeheap b) else (True, timeheap b)"
  obtain h where h: "?r = (True, h)" by (cases ?r) (auto simp: min_heap_reserve_def Let_def split: if_splits)
  have o0: "others ev b (b\<lparr>timeheap := h\<rparr>)"
    using h heap_reserve_ok [OF ok] others_refl [OF ok] by (auto split: if_splits)
  then have ok0: "base_ok (b\<lparr>timeheap := h\<rparr>)" by (simp add: others_def)
  obtain res b1 where a: "add_io em ev (b\<lparr>timeheap := h\<rparr>) = Some (res, b1)" "others ev (b\<lparr>timeheap := h\<rparr>) b1"
    "EVLIST_ACTIVE \<in> ev_flags (mem b1 ev) \<longleftrightarrow> EVLIST_ACTIVE \<in> ev_flags (mem b ev)" "ev_res (mem b1 ev) = ev_res (mem b ev)"
    "res \<noteq> - 1 \<and> (io_events (mem b ev) \<or> EV_SIGNAL \<in> ev_events (mem b ev)) \<longrightarrow> EVLIST_INSERTED \<in> ev_flags (mem b1 ev) \<or> EVLIST_ACTIVE \<in> ev_flags (mem b1 ev)"
    using add_io_spec [OF ok0, of em ev] by auto
  have o1: "others ev b b1" by (rule others_trans [OF o0 a(2)])
  then have ok1: "base_ok b1" by (simp add: others_def)
  show ?thesis
  proof (cases tv)
    case None
    then show ?thesis using h a o1 by (auto simp: event_add_internal_def)
  next
    case (Some t)
    show ?thesis
    proof (cases "res = - 1")
      case True
      then show ?thesis using h a o1 Some by (auto simp: event_add_internal_def)
    next
      case False
      then show ?thesis using h a o1 Some add_timeout_spec [OF ok1, of now t absolute ev] others_trans [OF o1]
        by (auto simp: event_add_internal_def)
    qed
  qed
qed

end
