(* ===== verification/Event_Loop.thy ===== *)
theory Event_Loop
  imports Event_Base
begin

text \<open>
  What the event loop of \<open>event/event.c\<close> guarantees: timers fire exactly when they are due, in order, deleted events
  never run, the wait ends at the earliest timeout, and the whole of \<open>event_base_loop\<close> keeps the event base
  consistent as long as the callbacks and the back end do.
\<close>

section \<open>The loop\<close>

text \<open>The base after \<open>event_base_new_with_config\<close> has found a back end, \<open>now\<close> being the current time.\<close>

definition EVENT_MAX_PRIORITIES :: int where
  "EVENT_MAX_PRIORITIES = 256"

definition event_base_priority_init :: "bool \<Rightarrow> int \<Rightarrow> int \<Rightarrow> 'io event_base \<Rightarrow> bool \<times> 'io event_base" where
  "event_base_priority_init al deferred_active npriorities base =
    (if event_count_active base + deferred_active \<noteq> 0 \<or> npriorities < 1 \<or> npriorities \<ge> EVENT_MAX_PRIORITIES then (False, base)
     else if npriorities = int (length (activequeues base)) then (True, base)
     else if al then (True, base\<lparr>activequeues := replicate (nat npriorities) []\<rparr>)
     else (False, base\<lparr>activequeues := []\<rparr>))"

definition event_base_new :: "bool \<Rightarrow> timeval \<Rightarrow> (nat \<Rightarrow> event) \<Rightarrow> 'io \<Rightarrow> 'io event_base option" where
  "event_base_new al now m io =
    (let base = \<lparr>timeheap = min_heap_ctor, mem = m, eventqueue = [], activequeues = [], event_count = 0, event_count_active = 0,
       virtual_event_count = 0, event_running_priority = 0, event_continue = False, event_break = False, event_gotterm = False,
       running_loop = False, event_tv = now, iomap = io\<rparr>;
       (ok, base1) = event_base_priority_init al 0 1 base
     in if ok then Some base1 else None)"

text \<open>
  The back end and the clock act on the state \<open>'io\<close>; \<open>dispatch\<close> waits at most the given time and activates the
  events of ready descriptors.
\<close>

record 'io backend =
  gettime :: "'io \<Rightarrow> timeval \<times> 'io"
  dispatch :: "timeval option \<Rightarrow> 'io event_base \<Rightarrow> int \<times> 'io event_base"
  deferred_active :: "'io event_base \<Rightarrow> int"
  process_deferred :: "'io event_base \<Rightarrow> 'io event_base"

definition base_gettime :: "'io backend \<Rightarrow> 'io event_base \<Rightarrow> timeval \<times> 'io event_base" where
  "base_gettime be base = (let (t, io') = gettime be (iomap base) in (t, base\<lparr>iomap := io'\<rparr>))"

definition N_ACTIVE_CALLBACKS :: "'io backend \<Rightarrow> 'io event_base \<Rightarrow> int" where
  "N_ACTIVE_CALLBACKS be base = event_count_active base + deferred_active be base"

text \<open>The start of a pass, up to the wait that is passed to the back end.\<close>

definition loop_wait :: "'io backend \<Rightarrow> bool \<Rightarrow> bool \<Rightarrow> 'io event_base \<Rightarrow> timeval option \<times> 'io event_base" where
  "loop_wait be use_monotonic nonblock base =
    (let (tv, base1) = (if use_monotonic then (evutil_timerclear, base) else base_gettime be base);
         base2 = timeout_correct use_monotonic tv base1
     in if N_ACTIVE_CALLBACKS be base2 = 0 \<and> \<not> nonblock
        then (if min_heap_top (timeheap base2) = None then (None, base2)
              else (let (now, base3) = base_gettime be base2 in (timeout_next now base3, base3)))
        else (Some evutil_timerclear, base2))"

partial_function (option) loop_passes ::
  "'io backend \<Rightarrow> 'io evmap \<Rightarrow> bool \<Rightarrow> bool \<Rightarrow> bool \<Rightarrow> bool \<Rightarrow> (nat \<Rightarrow> 'io event_base \<Rightarrow> 'io event_base) \<Rightarrow> 'io event_base
     \<Rightarrow> (int \<times> 'io event_base) option" where
  "loop_passes be em al use_monotonic once nonblock cb base0 =
    (let base = base0\<lparr>event_continue := False\<rparr> in
     if event_gotterm base \<or> event_break base then Some (0, base)
     else
       (let (wait, base1) = loop_wait be use_monotonic nonblock base in
        if \<not> event_haveevents base1 \<and> N_ACTIVE_CALLBACKS be base1 = 0 then Some (1, base1)
        else
          (let (t, base2) = base_gettime be base1; (res, base3) = dispatch be wait (base2\<lparr>event_tv := t\<rparr>) in
           if res = - 1 then Some (- 1, base3)
           else
             (let (now, base4) = base_gettime be base3 in
              case timeout_process em now base4 of None \<Rightarrow> None
              | Some base5 \<Rightarrow>
                 if N_ACTIVE_CALLBACKS be base5 \<noteq> 0
                 then (case event_process_active em al now cb (process_deferred be) base5 of None \<Rightarrow> None
                   | Some (n, base6) \<Rightarrow>
                       if once \<and> N_ACTIVE_CALLBACKS be base6 = 0 \<and> n \<noteq> 0 then Some (0, base6)
                       else loop_passes be em al use_monotonic once nonblock cb base6)
                 else if nonblock then Some (0, base5)
                 else loop_passes be em al use_monotonic once nonblock cb base5))))"

definition event_base_loop ::
  "'io backend \<Rightarrow> 'io evmap \<Rightarrow> bool \<Rightarrow> bool \<Rightarrow> bool \<Rightarrow> bool \<Rightarrow> (nat \<Rightarrow> 'io event_base \<Rightarrow> 'io event_base) \<Rightarrow> 'io event_base
     \<Rightarrow> (int \<times> 'io event_base) option" where
  "event_base_loop be em al use_monotonic once nonblock cb base =
    (if running_loop base then Some (- 1, base)
     else map_option (\<lambda>(res, b). (res, b\<lparr>running_loop := False\<rparr>))
       (loop_passes be em al use_monotonic once nonblock cb (base\<lparr>running_loop := True, event_gotterm := False, event_break := False\<rparr>)))"

definition event_base_loopbreak :: "'io event_base \<Rightarrow> 'io event_base" where
  "event_base_loopbreak base = base\<lparr>event_break := True\<rparr>"

definition event_loopexit_cb :: "'io event_base \<Rightarrow> 'io event_base" where
  "event_loopexit_cb base = base\<lparr>event_gotterm := True\<rparr>"

section \<open>Processing the timeouts\<close>

lemma timeout_process_spec:
  assumes "base_ok b"
  obtains fs b' where "timeout_process em now b = Some b'" "timed_out fs b b'" "distinct fs" "set fs = due now b" "sorted_wrt (no_later b) fs"
proof (cases "min_heap_empty (timeheap b)")
  case True
  then have "due now b = {}" by (simp add: due_def on_queue_def min_heap_empty_def heap_elems_def)
  then show ?thesis using True timed_out_Nil [OF assms] that [of b "[]"] by (simp add: timeout_process_def)
next
  case False
  then show ?thesis using timeout_loop_spec [OF assms, of em now] that by (auto simp: timeout_process_def)
qed

section \<open>The passes keep the invariant\<close>

lemma base_ok_flags [simp]:
  "base_ok (b\<lparr>event_tv := t\<rparr>) = base_ok b" "base_ok (b\<lparr>event_break := c\<rparr>) = base_ok b" "base_ok (b\<lparr>event_gotterm := c\<rparr>) = base_ok b"
  "base_ok (b\<lparr>running_loop := c\<rparr>) = base_ok b" "base_ok (b\<lparr>event_running_priority := i\<rparr>) = base_ok b"
  by (simp_all add: base_ok_def on_queue_def external_def split: evlist.split)

lemma base_ok_new:
  assumes "\<forall>e. ev_flags (m e) \<inter> queues = {} \<and> ev_pri (m e) = 0 \<and> min_heap_idx (m e) = - 1"
  shows "\<exists>b. event_base_new True now m io = Some b \<and> base_ok b \<and> mem b = m \<and> iomap b = io"
proof -
  have "heap_inv min_heap_ctor m" using heap_inv_ctor assms by blast
  moreover have "Q \<notin> ev_flags (m e)" if "Q \<in> queues" for Q e using assms that by blast
  ultimately show ?thesis using assms
    by (auto simp: event_base_new_def event_base_priority_init_def EVENT_MAX_PRIORITIES_def base_ok_def on_queue_def external_def
        min_heap_ctor_def heap_elems_def queues_def split: evlist.split)
qed

text \<open>A consistent base with \<open>n\<close> priorities, and callbacks that keep it so.\<close>

definition base_okn :: "nat \<Rightarrow> 'io event_base \<Rightarrow> bool" where
  "base_okn n b \<longleftrightarrow> base_ok b \<and> length (activequeues b) = n"

definition keeps_ok :: "('io event_base \<Rightarrow> 'io event_base) \<Rightarrow> bool" where
  "keeps_ok f \<longleftrightarrow> (\<forall>n b. base_okn n b \<longrightarrow> base_okn n (f b))"

lemma base_okn_simps [simp]:
  "base_okn n (b\<lparr>event_tv := t\<rparr>) = base_okn n b" "base_okn n (b\<lparr>event_break := c\<rparr>) = base_okn n b" "base_okn n (b\<lparr>event_gotterm := c\<rparr>) = base_okn n b"
  "base_okn n (b\<lparr>running_loop := c\<rparr>) = base_okn n b" "base_okn n (b\<lparr>event_running_priority := i\<rparr>) = base_okn n b"
  "base_okn n (b\<lparr>iomap := io\<rparr>) = base_okn n b" "base_okn n (b\<lparr>event_continue := c\<rparr>) = base_okn n b"
  by (simp_all add: base_okn_def)

lemma base_okn_upd:
  assumes "base_okn n b" "\<And>r. ev_flags (f r) = ev_flags r \<and> min_heap_idx (f r) = min_heap_idx r \<and> ev_pri (f r) = ev_pri r \<and> ev_timeout (f r) = ev_timeout r"
  shows "base_okn n (upd_event ev f b)"
  using assms base_ok_upd [of b f ev] by (simp add: base_okn_def)

lemma base_okn_others: "others ev b b' \<Longrightarrow> base_okn n b \<Longrightarrow> base_okn n b'"
  by (simp add: others_def base_okn_def)

lemma keeps_okD: "keeps_ok f \<Longrightarrow> base_okn n b \<Longrightarrow> base_okn n (f b)"
  by (simp add: keeps_ok_def)

lemma signal_loop_ok:
  assumes "signal_loop cb ev k b = Some b'"
  shows "(\<forall>e. keeps_ok (cb e)) \<longrightarrow> base_okn n b \<longrightarrow> base_okn n b'"
proof (rule signal_loop.raw_induct [OF _ assms, where P = "\<lambda>cb ev k b b'. (\<forall>e. keeps_ok (cb e)) \<longrightarrow> base_okn n b \<longrightarrow> base_okn n b'"], intro impI, goal_cases)
  case (1 f cb ev k b b')
  let ?b1 = "upd_event ev (\<lambda>r. r\<lparr>ev_ncalls := k - 1, ev_pncalls := (if k - 1 = 0 \<or> ev_pncalls r = None then None else Some (k - 1))\<rparr>) b"
  have "base_okn n ?b1" by (rule base_okn_upd [OF 1(4)]) simp
  then have ok: "base_okn n (cb ev ?b1)" using 1(3) keeps_okD by blast
  show ?case
  proof (cases "k \<noteq> 0 \<and> \<not> event_break (cb ev ?b1)")
    case True
    then have "f cb ev (pointed ev (k - 1) (cb ev ?b1)) (cb ev ?b1) = Some b'" using 1(2) by (simp add: Let_def)
    then show ?thesis using 1(1,3) ok by blast
  next
    case False
    then show ?thesis using 1(2,4) ok base_okn_upd [OF ok, of "\<lambda>r. r\<lparr>ev_pncalls := None\<rparr>"] by (auto simp: Let_def split: if_splits)
  qed
qed

lemma run_closure_ok:
  assumes "run_closure em True now cb ev b = Some b'" "\<forall>e. keeps_ok (cb e)" "base_okn n b"
  shows "base_okn n b'"
proof (cases "ev_closure (mem b ev)")
  case EV_CLOSURE_NONE
  then show ?thesis using assms by (auto simp: run_closure_def keeps_ok_def)
next
  case EV_CLOSURE_SIGNAL
  let ?k = "ev_ncalls (mem b ev)"
  have "base_okn n (if ?k \<noteq> 0 then upd_event ev (\<lambda>r. r\<lparr>ev_pncalls := Some ?k\<rparr>) b else b)"
    using assms(3) base_okn_upd [OF assms(3), of "\<lambda>r. r\<lparr>ev_pncalls := Some ?k\<rparr>"] by simp
  then show ?thesis using assms(1,2) EV_CLOSURE_SIGNAL signal_loop_ok by (simp add: run_closure_def event_signal_closure_def Let_def) blast
next
  case EV_CLOSURE_PERSIST
  have ok: "base_ok b" using assms(3) by (simp add: base_okn_def)
  have "base_okn n b1" if "event_add_internal em True now ev tv True b = Some (r, b1)" for tv r b1
    using event_add_spec [OF ok, of em now ev tv True] that base_okn_others assms(3) by auto
  then show ?thesis using assms EV_CLOSURE_PERSIST
    by (auto simp: run_closure_def event_persist_closure_def Let_def keeps_okD split: if_splits)
qed

lemma take_off_ok:
  assumes ok: "base_okn n b" and ev: "ev \<in> set (activequeues b ! i)" "i < n"
    and r: "(if persist then event_queue_remove ev EVLIST_ACTIVE b else map_option snd (event_del_internal em ev b)) = Some b1"
  shows "base_okn n b1"
proof -
  have okb: "base_ok b" "EVLIST_ACTIVE \<in> ev_flags (mem b ev)"
    using ok ev base_okD(3) [of b EVLIST_ACTIVE ev] by (auto simp: base_okn_def on_queue_def)
  have "others ev b b1"
  proof (cases persist)
    case True
    then show ?thesis using r queue_remove_spec [OF okb(1) _ okb(2)] removed_left [OF okb(1)] others_left by (fastforce simp: queues_def)
  next
    case False
    then show ?thesis using r event_del_spec [OF okb(1), of em ev] others_left by auto
  qed
  then show ?thesis using ok by (rule base_okn_others)
qed

lemma single_queue_ok:
  assumes "event_process_active_single_queue em al now cb i cnt b = Some r"
  shows "al \<longrightarrow> (\<forall>e. keeps_ok (cb e)) \<longrightarrow> base_okn n b \<longrightarrow> i < n \<longrightarrow> base_okn n (snd r)"
proof (rule event_process_active_single_queue.raw_induct [OF _ assms, where P = "\<lambda>em al now cb i cnt b r.
    al \<longrightarrow> (\<forall>e. keeps_ok (cb e)) \<longrightarrow> base_okn n b \<longrightarrow> i < n \<longrightarrow> base_okn n (snd r)"], intro impI, goal_cases)
  case (1 f em al now cb i cnt b r)
  show ?case
  proof (cases "activequeues b ! i")
    case Nil
    then show ?thesis using 1(2,5) by auto
  next
    case (Cons ev evs)
    obtain b1 where b1: "(if EV_PERSIST \<in> ev_events (mem b ev) then event_queue_remove ev EVLIST_ACTIVE b
        else map_option snd (event_del_internal em ev b)) = Some b1"
      using 1(2) Cons by (auto split: option.splits)
    have ok1: "base_okn n b1" by (rule take_off_ok [OF 1(5) _ 1(6) b1]) (simp add: Cons)
    obtain b2 where b2: "run_closure em al now cb ev b1 = Some b2"
      using 1(2) Cons b1 by (auto simp: Let_def split: option.splits)
    have ok2: "base_okn n b2" using run_closure_ok 1(3,4) b2 ok1 by simp
    let ?c = "if EVLIST_INTERNAL \<notin> ev_flags (mem b1 ev) then cnt + 1 else cnt"
    show ?thesis
    proof (cases "event_break b2 \<or> event_continue b2")
      case True
      then show ?thesis using 1(2) Cons b1 b2 ok2 by (auto simp: Let_def split: if_splits)
    next
      case False
      then have "f em al now cb i ?c b2 = Some r" using 1(2) Cons b1 b2 by (simp add: Let_def)
      then show ?thesis using 1(1,3,4,6) ok2 by blast
    qed
  qed
qed

lemma process_queues_ok:
  assumes "process_queues em True now cb is c b = Some r" "\<forall>e. keeps_ok (cb e)" "base_okn n b" "\<forall>i\<in>set is. i < n"
  shows "base_okn n (snd r)"
  using assms
proof (induction "is" arbitrary: c b)
  case (Cons i "is")
  show ?case
  proof (cases "activequeues b ! i = []")
    case True
    then show ?thesis using Cons by simp
  next
    case False
    then obtain c' b1 where s: "event_process_active_single_queue em True now cb i 0 (b\<lparr>event_running_priority := int i\<rparr>) = Some (c', b1)"
      using Cons.prems(1) by (auto split: option.splits)
    have "base_okn n b1" using single_queue_ok [OF s, of n] Cons.prems by simp
    then show ?thesis using Cons False s by (auto split: if_splits)
  qed
qed auto

lemma process_active_ok:
  assumes "event_process_active em True now cb deferred b = Some r" "\<forall>e. keeps_ok (cb e)" "keeps_ok deferred" "base_okn n b"
  shows "base_okn n (snd r)"
proof -
  obtain c b1 where p: "process_queues em True now cb [0..<length (activequeues b)] 0 b = Some (c, b1)"
    using assms(1) by (auto simp: event_process_active_def split: option.splits)
  have "base_okn n b1" using process_queues_ok [OF p assms(2,4)] assms(4) by (simp add: base_okn_def)
  then show ?thesis using assms(1,3) p by (auto simp: event_process_active_def keeps_okD split: if_splits)
qed

lemma loop_wait_ok:
  assumes "loop_wait be True nonblock b = (w, b1)"
  shows "base_okn n b1 = base_okn n b"
    "event_break b1 = event_break b" "event_gotterm b1 = event_gotterm b" "running_loop b1 = running_loop b"
    "event_haveevents b1 = event_haveevents b" "event_count_active b1 = event_count_active b"
  using assms by (auto simp: loop_wait_def event_haveevents_def timeout_correct_def base_gettime_def Let_def split: if_splits prod.splits)

lemma base_gettime_ok:
  assumes "base_gettime be b = (t, b1)"
  shows "base_okn n b1 = base_okn n b"
  using assms by (auto simp: base_gettime_def split: prod.splits)

lemma timeout_process_ok:
  assumes "timeout_process em now b = Some b'" "base_okn n b"
  shows "base_okn n b'"
proof -
  have "base_ok b" using assms(2) by (simp add: base_okn_def)
  then obtain fs where "timed_out fs b b'" using timeout_process_spec [of b em now] assms(1) by (metis option.inject)
  then show ?thesis using assms(2) by (simp add: timed_out_def base_okn_def)
qed

definition backend_ok :: "'io backend \<Rightarrow> bool" where
  "backend_ok be \<longleftrightarrow> (\<forall>w. keeps_ok (\<lambda>b. snd (dispatch be w b))) \<and> keeps_ok (process_deferred be)"

text \<open>What the result of the loop says.\<close>

definition loop_result :: "'io backend \<Rightarrow> bool \<Rightarrow> bool \<Rightarrow> int \<Rightarrow> 'io event_base \<Rightarrow> bool" where
  "loop_result be once nonblock r b \<longleftrightarrow> r \<in> {- 1, 0, 1}
     \<and> (r = 1 \<longrightarrow> \<not> event_haveevents b \<and> N_ACTIVE_CALLBACKS be b = 0)
     \<and> (r = 0 \<and> \<not> once \<and> \<not> nonblock \<longrightarrow> event_gotterm b \<or> event_break b)
     \<and> (r = - 1 \<longrightarrow> (\<exists>w b0. dispatch be w b0 = (- 1, b)))"

lemma loop_passes_ok:
  assumes "loop_passes be em al mn once nonblock cb b = Some r"
  shows "al \<longrightarrow> mn \<longrightarrow> (\<forall>e. keeps_ok (cb e)) \<longrightarrow> backend_ok be \<longrightarrow> base_okn n b \<longrightarrow>
    base_okn n (snd r) \<and> loop_result be once nonblock (fst r) (snd r)"
proof (rule loop_passes.raw_induct [OF _ assms, where P = "\<lambda>be em al mn once nonblock cb b r.
    al \<longrightarrow> mn \<longrightarrow> (\<forall>e. keeps_ok (cb e)) \<longrightarrow> backend_ok be \<longrightarrow> base_okn n b \<longrightarrow>
    base_okn n (snd r) \<and> loop_result be once nonblock (fst r) (snd r)"], intro impI, goal_cases)
  case (1 f be em al mn once nonblock cb b r)
  let ?b = "b\<lparr>event_continue := False\<rparr>"
  obtain w b1 where w: "loop_wait be True nonblock ?b = (w, b1)" by fastforce
  obtain t b2 where g: "base_gettime be b1 = (t, b2)" by fastforce
  obtain res b3 where d: "dispatch be w (b2\<lparr>event_tv := t\<rparr>) = (res, b3)" by fastforce
  obtain now b4 where h: "base_gettime be b3 = (now, b4)" by fastforce
  have ok1: "base_okn n b1" using loop_wait_ok [OF w] 1(7) by simp
  have "base_okn n (b2\<lparr>event_tv := t\<rparr>)" using base_gettime_ok [OF g] ok1 by simp
  then have "base_okn n (snd (dispatch be w (b2\<lparr>event_tv := t\<rparr>)))" using 1(6) unfolding backend_ok_def keeps_ok_def by blast
  then have ok3: "base_okn n b3" using d by simp
  then have ok4: "base_okn n b4" using base_gettime_ok [OF h] by simp
  then have "base_ok b4" by (simp add: base_okn_def)
  then obtain b5 where t5: "timeout_process em now b4 = Some b5" using timeout_process_spec [of b4 em now] by metis
  have ok5: "base_okn n b5" by (rule timeout_process_ok [OF t5 ok4])
  consider (stop) "event_gotterm b \<or> event_break b"
    | (idle) "\<not> (event_gotterm b \<or> event_break b)" "\<not> event_haveevents b1 \<and> N_ACTIVE_CALLBACKS be b1 = 0"
    | (failed) "\<not> (event_gotterm b \<or> event_break b)" "\<not> (\<not> event_haveevents b1 \<and> N_ACTIVE_CALLBACKS be b1 = 0)" "res = - 1"
    | (pass) "\<not> (event_gotterm b \<or> event_break b)" "\<not> (\<not> event_haveevents b1 \<and> N_ACTIVE_CALLBACKS be b1 = 0)" "res \<noteq> - 1"
    by blast
  then show ?case
  proof cases
    case stop
    then show ?thesis using 1(2,7) by (auto simp: Let_def loop_result_def)
  next
    case idle
    then show ?thesis using 1(2,4) w ok1 by (auto simp: Let_def loop_result_def)
  next
    case failed
    then have "\<exists>w b0. dispatch be w b0 = (- 1, b3)" using d by blast
    moreover have "r = (- 1, b3)" using failed 1(2,4) w g d by (auto simp: Let_def)
    ultimately show ?thesis using ok3 by (simp add: loop_result_def)
  next
    case pass
    show ?thesis
    proof (cases "N_ACTIVE_CALLBACKS be b5 = 0")
      case True
      then show ?thesis using 1(1,3-6) pass ok5 1(2) w g d h t5 by (auto simp: Let_def loop_result_def split: if_splits)
    next
      case False
      then obtain k b6 where p: "event_process_active em True now cb (process_deferred be) b5 = Some (k, b6)"
        using 1(2,3,4) pass w g d h t5 by (auto simp: Let_def split: option.splits)
      have ok6: "base_okn n b6" using process_active_ok [OF p 1(5) _ ok5] 1(6) by (simp add: backend_ok_def)
      show ?thesis
      proof (cases "once \<and> N_ACTIVE_CALLBACKS be b6 = 0 \<and> k \<noteq> 0")
        case True
        then show ?thesis using False p 1(2-4) pass ok6 w g d h t5 by (auto simp: Let_def loop_result_def)
      next
        case again: False
        have "(if once \<and> N_ACTIVE_CALLBACKS be b6 = 0 \<and> k \<noteq> 0 then Some (0, b6) else f be em al mn once nonblock cb b6) = Some r"
          using False p 1(2-4) pass w g d h t5 by (auto simp: Let_def)
        then have "f be em al mn once nonblock cb b6 = Some r" using again by (simp only: if_False)
        then show ?thesis using 1(1,3-6) ok6 by blast
      qed
    qed
  qed
qed


lemma due_flags: "base_ok b \<Longrightarrow> e \<in> due now b \<longleftrightarrow> EVLIST_TIMEOUT \<in> ev_flags (mem b e) \<and> \<not> evutil_timercmp_gt (ev_timeout (mem b e)) now"
  using base_okD(3) [of b EVLIST_TIMEOUT e] by (auto simp: due_def)

text \<open>
  C5. Processing the timeouts always returns and activates exactly the events whose time has come, in the order of
  their timeouts, each at the end of the queue of its priority with the timeout as its only result; no other
  event changes and the structure stays consistent, whatever the descriptor map answers.
\<close>

theorem timeout_process_fires_due:
  assumes "base_ok b"
  shows "\<exists>fs b'. timeout_process em now b = Some b' \<and> timed_out fs b b' \<and> distinct fs \<and> set fs = due now b \<and> sorted_wrt (no_later b) fs"
  using timeout_process_spec [OF assms, of em now] by metis


text \<open>
  C38. The wait that the loop passes to its back end ends exactly at the earliest timeout: waiting for it makes some
  event due, no event is due at any moment before its end, and there is no limit exactly when no timeout is pending.
\<close>

theorem timeout_next_exact:
  assumes ok: "base_ok b" and us: "0 \<le> tv_usec now" "tv_usec now < 1000000"
    "\<forall>e\<in>set (on_queue b EVLIST_TIMEOUT). 0 \<le> tv_usec (ev_timeout (mem b e)) \<and> tv_usec (ev_timeout (mem b e)) < 1000000"
  shows "case timeout_next now b of None \<Rightarrow> on_queue b EVLIST_TIMEOUT = []
    | Some w \<Rightarrow> tv_sec w \<ge> 0 \<and> 0 \<le> tv_usec w \<and> tv_usec w < 1000000 \<and> due (evutil_timeradd now w) b \<noteq> {}
        \<and> (\<forall>t. evutil_timerisset w \<and> evutil_timercmp_gt (evutil_timeradd now w) t \<longrightarrow> due t b = {})"
proof (cases "min_heap_top (timeheap b)")
  case None
  then have "on_queue b EVLIST_TIMEOUT = []" using top_spec [OF base_okD(1) [OF ok]] by (simp add: on_queue_def split: if_splits)
  then show ?thesis using None by (simp add: timeout_next_def)
next
  case (Some ev)
  note top = heap_top_least [OF ok Some]
  have ev: "ev \<in> set (on_queue b EVLIST_TIMEOUT)"
    using top_spec [OF base_okD(1) [OF ok]] Some by (auto simp: on_queue_def split: if_splits)
  let ?t = "ev_timeout (mem b ev)"
  have u: "0 \<le> tv_usec ?t" "tv_usec ?t < 1000000" using us(3) ev by auto
  show ?thesis
  proof (cases "evutil_timercmp_le ?t now")
    case True
    then have "evutil_timeradd now evutil_timerclear = now" "ev \<in> due now b"
      using us ev by (auto simp: evutil_timeradd_def evutil_timerclear_def due_def evutil_timercmp_gt_def evutil_timercmp_le_def split: if_splits)
    then show ?thesis using True Some by (auto simp: timeout_next_def evutil_timerclear_def evutil_timerisset_def)
  next
    case False
    have s: "evutil_timeradd now (evutil_timersub ?t now) = ?t" using u us by (simp add: evutil_timeradd_def evutil_timersub_def Let_def)
    have "ev \<in> due ?t b" using ev by (simp add: due_def evutil_timercmp_gt_def)
    moreover have "due t b = {}" if "evutil_timercmp_gt ?t t" for t using top(1) gt_trans that unfolding due_def no_later_def by blast
    moreover have "tv_sec (evutil_timersub ?t now) \<ge> 0 \<and> 0 \<le> tv_usec (evutil_timersub ?t now) \<and> tv_usec (evutil_timersub ?t now) < 1000000"
      using False u us by (auto simp: evutil_timersub_def evutil_timercmp_le_def Let_def split: if_splits)
    ultimately show ?thesis using False Some s by (auto simp: timeout_next_def)
  qed
qed

text \<open>
  C39. Deleting an event takes it off every queue, so that it is pending for nothing and no pass over the timeouts activates
  it, and changes no other event.
\<close>

theorem event_del_leaves_nothing:
  assumes ok: "base_ok b"
  shows "\<exists>res b1. event_del_internal em ev b = Some (res, b1) \<and> base_ok b1 \<and> event_pending ev what b1 = {}
    \<and> (\<forall>x. x \<noteq> ev \<longrightarrow> event_pending x what b1 = event_pending x what b)
    \<and> (\<exists>b2. timeout_process em now b1 = Some b2 \<and> event_pending ev what b2 = {})"
proof -
  obtain res b1 where d: "event_del_internal em ev b = Some (res, b1)" "left queues ev b b1" using event_del_spec [OF ok] by blast
  have ok1: "base_ok b1" and fl: "\<And>x. ev_flags (mem b1 x) = (if x = ev then ev_flags (mem b x) - queues else ev_flags (mem b x))"
    using d(2) by (auto simp: left_def)
  have c: "core (mem b1 x) = core (mem b x)" if "x \<noteq> ev" for x using d(2) that by (simp add: left_def)
  obtain fs b2 where p: "timeout_process em now b1 = Some b2" "timed_out fs b1 b2" "set fs = due now b1"
    using timeout_process_spec [OF ok1, of em now] by metis
  then have "ev_flags (mem b2 ev) = ev_flags (mem b1 ev)" using due_flags [OF ok1, of ev] fl by (simp add: timed_out_def)
  moreover have "event_pending x what b1 = event_pending x what b" if "x \<noteq> ev" for x
    using core_fields(2,3) [OF c [OF that]] fl that by (simp add: event_pending_def Let_def)
  ultimately show ?thesis using d(1) ok1 p(1) fl by (auto simp: event_pending_def Let_def)
qed

section \<open>A run with one timer\<close>

text \<open>
  The state of the back end is the time; the back end sleeps as long as it may. Event 7 is a timer of two and a
  half seconds.
\<close>

definition sleeping_backend :: "timeval backend" where
  "sleeping_backend = \<lparr>gettime = (\<lambda>t. (t, t)),
     dispatch = (\<lambda>w b. (0, b\<lparr>iomap := evutil_timeradd (iomap b) (case w of None \<Rightarrow> evutil_timerclear | Some d \<Rightarrow> d)\<rparr>)),
     deferred_active = (\<lambda>_. 0), process_deferred = (\<lambda>b. b)\<rparr>"

definition no_evmap :: "timeval evmap" where
  "no_evmap = \<lparr>evmap_io_add = (\<lambda>_ _ t. (0, t)), evmap_signal_add = (\<lambda>_ _ t. (0, t)), evmap_io_del = (\<lambda>_ _ t. (0, t)),
     evmap_signal_del = (\<lambda>_ _ t. (0, t))\<rparr>"

definition timer_mem :: "nat \<Rightarrow> event" where
  "timer_mem e = \<lparr>ev_timeout = evutil_timerclear, min_heap_idx = - 1, ev_flags = {EVLIST_INIT}, ev_events = {}, ev_res = {}, ev_pri = 0,
     ev_closure = EV_CLOSURE_NONE, ev_io_timeout = evutil_timerclear, ev_fd = - 1, ev_ncalls = 0, ev_pncalls = None, ev_callback = 0\<rparr>"

definition start_time :: timeval where
  "start_time = \<lparr>tv_sec = 100, tv_usec = 700000\<rparr>"

definition new_base :: "timeval event_base" where
  "new_base = the (event_base_new True start_time timer_mem start_time)"

definition timer_base :: "timeval event_base" where
  "timer_base = snd (the (event_add_internal no_evmap True start_time 7 (Some \<lparr>tv_sec = 2, tv_usec = 500000\<rparr>) False new_base))"

lemma new_base_ok: "base_ok new_base"
  using base_ok_new [of timer_mem start_time start_time] by (auto simp: new_base_def timer_mem_def queues_def)

lemma timer_added:
  "event_add_internal no_evmap True start_time 7 (Some \<lparr>tv_sec = 2, tv_usec = 500000\<rparr>) False new_base = Some (0, timer_base)"
  "due \<lparr>tv_sec = 104, tv_usec = 0\<rparr> timer_base = {7}" "on_queue timer_base EVLIST_TIMEOUT = [7]"
  "ev_timeout (mem timer_base 7) = \<lparr>tv_sec = 103, tv_usec = 200000\<rparr>"
proof -
  let ?r = "event_add_internal no_evmap True start_time 7 (Some \<lparr>tv_sec = 2, tv_usec = 500000\<rparr>) False new_base"
  have "map_option fst ?r = Some 0" by code_simp
  then show "?r = Some (0, timer_base)" by (auto simp: timer_base_def)
  show "due \<lparr>tv_sec = 104, tv_usec = 0\<rparr> timer_base = {7}" by code_simp
  show "on_queue timer_base EVLIST_TIMEOUT = [7]" by code_simp
  show "ev_timeout (mem timer_base 7) = \<lparr>tv_sec = 103, tv_usec = 200000\<rparr>" by code_simp
qed

lemma timer_base_ok: "base_ok timer_base"
  using event_add_spec [OF new_base_ok, of no_evmap start_time 7 "Some \<lparr>tv_sec = 2, tv_usec = 500000\<rparr>" False] timer_added(1)
  by (auto simp: others_def)

theorem timeout_process_fires_due_witness:
  "\<exists>b'. timeout_process no_evmap \<lparr>tv_sec = 104, tv_usec = 0\<rparr> timer_base = Some b' \<and> timed_out [7] timer_base b'"
proof -
  obtain fs b' where f: "timeout_process no_evmap \<lparr>tv_sec = 104, tv_usec = 0\<rparr> timer_base = Some b'" "timed_out fs timer_base b'"
    "distinct fs" "set fs = {7}"
    using timeout_process_fires_due [OF timer_base_ok, of no_evmap "\<lparr>tv_sec = 104, tv_usec = 0\<rparr>"] timer_added(2) by auto
  then have "fs = [7]" by (metis distinct_singleton list.set(1,2) set_eq_iff_mset_eq_distinct mset_single_iff mset.simps)
  then show ?thesis using f by blast
qed


theorem timeout_next_exact_witness:
  "case timeout_next \<lparr>tv_sec = 100, tv_usec = 800000\<rparr> timer_base of None \<Rightarrow> False
    | Some w \<Rightarrow> due (evutil_timeradd \<lparr>tv_sec = 100, tv_usec = 800000\<rparr> w) timer_base \<noteq> {}"
  using timeout_next_exact [OF timer_base_ok, of "\<lparr>tv_sec = 100, tv_usec = 800000\<rparr>"] timer_added(3,4)
  by (simp split: option.splits)

theorem event_del_leaves_nothing_witness:
  "\<exists>res b1. event_del_internal no_evmap 7 timer_base = Some (res, b1) \<and> event_pending 7 {EV_TIMEOUT} b1 = {}"
  using event_del_leaves_nothing [OF timer_base_ok, of no_evmap 7 "{EV_TIMEOUT}" start_time] by blast

text \<open>In the run with one timer the loop sleeps once, runs the timer and ends because nothing is left.\<close>

lemmas loop_code [code] = loop_passes.simps timeout_loop.simps event_process_active_single_queue.simps signal_loop.simps


section \<open>A clock that runs backwards\<close>

definition normal :: "timeval \<Rightarrow> bool" where
  "normal t \<longleftrightarrow> 0 \<le> tv_usec t \<and> tv_usec t < 1000000"

definition micros :: "timeval \<Rightarrow> int" where
  "micros t = tv_sec t * 1000000 + tv_usec t"

lemma micros_less: "normal s \<Longrightarrow> normal t \<Longrightarrow> evutil_timercmp_gt s t \<longleftrightarrow> micros s > micros t"
  by (auto simp: normal_def micros_def evutil_timercmp_gt_def)

lemma micros_sub: "normal s \<Longrightarrow> normal t \<Longrightarrow> normal (evutil_timersub s t) \<and> micros (evutil_timersub s t) = micros s - micros t"
  by (simp add: normal_def micros_def evutil_timersub_def Let_def)

lemma sub_timeouts_apply:
  "distinct evs \<Longrightarrow> sub_timeouts off evs m e = (if e \<in> set evs then (m e)\<lparr>ev_timeout := evutil_timersub (ev_timeout (m e)) off\<rparr> else m e)"
  by (induction evs arbitrary: m) (auto simp: sub_timeouts_def)

text \<open>
  When the clock has been set back, every pending timeout moves back by the same amount, so that each event
  has as much time left as at the last reading of the clock, and the heap stays in order without being rebuilt.
\<close>

theorem timeout_correct_keeps_time_left:
  assumes ok: "base_ok b" and tv: "normal tv" "normal (event_tv b)" "evutil_timercmp_gt (event_tv b) tv"
    and n: "\<forall>e\<in>set (on_queue b EVLIST_TIMEOUT). normal (ev_timeout (mem b e))"
  shows "base_ok (timeout_correct False tv b) \<and> event_tv (timeout_correct False tv b) = tv
    \<and> (\<forall>e\<in>set (on_queue b EVLIST_TIMEOUT).
         micros (ev_timeout (mem (timeout_correct False tv b) e)) - micros tv = micros (ev_timeout (mem b e)) - micros (event_tv b))"
proof -
  let ?b = "timeout_correct False tv b" and ?off = "evutil_timersub (event_tv b) tv" and ?h = "heap_elems (timeheap b)"
  have h: "heap_inv (timeheap b) (mem b)" by (rule base_okD(1) [OF ok])
  have th: "on_queue b EVLIST_TIMEOUT = ?h" by (simp add: on_queue_def)
  have e: "?b = b\<lparr>mem := sub_timeouts ?off ?h (mem b), event_tv := tv\<rparr>"
    using tv(3) by (auto simp: timeout_correct_def heap_elems_def evutil_timercmp_ge_def evutil_timercmp_gt_def Let_def split: if_splits)
  have m: "mem ?b x = (if x \<in> set ?h then (mem b x)\<lparr>ev_timeout := evutil_timersub (ev_timeout (mem b x)) ?off\<rparr> else mem b x)" for x
    using e h by (simp add: sub_timeouts_apply heap_inv_def)
  have k: "normal (ev_timeout (mem ?b x)) \<and> micros (ev_timeout (mem ?b x)) = micros (ev_timeout (mem b x)) - (micros (event_tv b) - micros tv)"
    if "x \<in> set ?h" for x using that n tv micros_sub by (simp add: m th)
  have "is_heap (min_heap_elem_greater (mem ?b)) ?h"
    unfolding is_heap_def
  proof (intro allI impI)
    fix i assume i: "i < length ?h" "0 < i"
    then have s: "?h ! par i \<in> set ?h" "?h ! i \<in> set ?h" using par_less [of i] by auto
    have "\<not> min_heap_elem_greater (mem b) (?h ! par i) (?h ! i)" using h i by (simp add: heap_inv_def is_heap_def)
    then show "\<not> min_heap_elem_greater (mem ?b) (?h ! par i) (?h ! i)"
      using s k n by (simp add: min_heap_elem_greater_def micros_less th)
  qed
  moreover have "min_heap_idx (mem ?b x) = min_heap_idx (mem b x)" for x by (simp add: m)
  ultimately have "heap_inv (timeheap b) (mem ?b)" using h by (simp add: heap_inv_def idx_ok_def)
  moreover have "ev_flags (mem ?b x) = ev_flags (mem b x)" "ev_pri (mem ?b x) = ev_pri (mem b x)" for x by (simp_all add: m)
  moreover have "on_queue ?b Q = on_queue b Q" for Q using e by (simp add: on_queue_def split: evlist.split)
  moreover have "timeheap ?b = timeheap b" "activequeues ?b = activequeues b" "event_count ?b = event_count b"
    "event_count_active ?b = event_count_active b" "event_tv ?b = tv" by (simp_all add: e)
  ultimately have "base_ok ?b" "event_tv ?b = tv" using ok by (simp_all add: base_ok_def external_def)
  then show ?thesis using k by (simp add: th)
qed

theorem timeout_correct_keeps_time_left_witness:
  "micros (ev_timeout (mem (timeout_correct False \<lparr>tv_sec = 40, tv_usec = 0\<rparr> timer_base) 7)) = 42500000"
proof -
  have "event_tv timer_base = start_time" by code_simp
  then show ?thesis
    using timeout_correct_keeps_time_left [OF timer_base_ok, of "\<lparr>tv_sec = 40, tv_usec = 0\<rparr>"] timer_added(3,4)
    by (simp add: start_time_def normal_def micros_def evutil_timercmp_gt_def)
qed

end
