(* ===== verification/Ev_Buffer.thy ===== *)
theory Ev_Buffer
  imports Prelude
begin

text \<open>
  The buffers of libevent (\<open>event/buffer.c\<close>), through which the event-driven client sends and receives: a list of
  chains, each an array with the data between \<open>misalign\<close> and \<open>misalign + off\<close>. \<open>last_with_datap\<close>, a pointer to
  the link that leads to the last chain with data, is the index of that chain; \<open>last\<close> is the last element of the list.
  Chains are pinned only by overlapped input and output on Windows and mapped or sent from a file only by
  \<open>evbuffer_add_file\<close>, neither of which occurs here, so that no chain is pinned; chains that refer to foreign
  memory are immutable. An argument \<open>new\<close> is the address that an allocation returns, \<open>None\<close> when it fails;
  freshly allocated bytes, which are never read before they are written, are zero. Sizes do not overflow (see
  \<open>alloc_size64\<close> for the exception). \<open>None\<close> as a result stands for a failed assertion or a null pointer.
  Callbacks are recorded in \<open>cb_log\<close> with the numbers they are called with.
\<close>

section \<open>Chains\<close>

record evbuffer_chain =
  caddr :: nat
  cbuffer :: bytes
  misalign :: nat
  off :: nat
  immutable :: bool

definition buffer_len :: "evbuffer_chain \<Rightarrow> nat" where
  "buffer_len c = length (cbuffer c)"

definition cdata :: "evbuffer_chain \<Rightarrow> bytes" where
  "cdata c = take (off c) (drop (misalign c) (cbuffer c))"

definition CHAIN_SPACE_LEN :: "evbuffer_chain \<Rightarrow> nat" where
  "CHAIN_SPACE_LEN c = (if immutable c then 0 else buffer_len c - (misalign c + off c))"

definition CHAIN_SPACE_PTR :: "evbuffer_chain \<Rightarrow> nat \<times> nat" where
  "CHAIN_SPACE_PTR c = (caddr c, misalign c + off c)"

text \<open>\<open>memcpy(chain->buffer + p, bs, length bs)\<close>.\<close>

definition store :: "nat \<Rightarrow> bytes \<Rightarrow> evbuffer_chain \<Rightarrow> evbuffer_chain" where
  "store p bs c = c\<lparr>cbuffer := take p (cbuffer c) @ bs @ drop (p + length bs) (cbuffer c)\<rparr>"

definition MIN_BUFFER_SIZE :: nat where
  "MIN_BUFFER_SIZE = 1024"

definition EVBUFFER_CHAIN_SIZE :: nat where
  "EVBUFFER_CHAIN_SIZE = 48"

function alloc_loop :: "nat \<Rightarrow> nat \<Rightarrow> nat" where
  "alloc_loop to_alloc sz = (if 0 < to_alloc \<and> to_alloc < sz then alloc_loop (2 * to_alloc) sz else to_alloc)"
  by pat_completeness auto
termination
  by (relation "measure (\<lambda>(a, s). s - a)") auto

declare alloc_loop.simps [simp del]

definition evbuffer_chain_new :: "nat option \<Rightarrow> nat \<Rightarrow> evbuffer_chain option" where
  "evbuffer_chain_new new sz = map_option
     (\<lambda>a. \<lparr>caddr = a, cbuffer = replicate (alloc_loop MIN_BUFFER_SIZE (sz + EVBUFFER_CHAIN_SIZE) - EVBUFFER_CHAIN_SIZE) 0,
        misalign = 0, off = 0, immutable = False\<rparr>) new"

text \<open>The same size computed in 64-bit words, as the code does; \<open>None\<close> when the loop does not end.\<close>

partial_function (option) alloc_loop64 :: "UInt64 \<Rightarrow> UInt64 \<Rightarrow> UInt64 option" where
  "alloc_loop64 to_alloc sz = (if to_alloc < sz then alloc_loop64 (push_bit 1 to_alloc) sz else Some to_alloc)"

definition alloc_size64 :: "UInt64 \<Rightarrow> UInt64 option" where
  "alloc_size64 sz = map_option (\<lambda>a. a - 48) (alloc_loop64 1024 (sz + 48))"

definition evbuffer_chain_align :: "evbuffer_chain \<Rightarrow> evbuffer_chain" where
  "evbuffer_chain_align c = (store 0 (cdata c) c)\<lparr>misalign := 0\<rparr>"

definition evbuffer_chain_should_realign :: "evbuffer_chain \<Rightarrow> nat \<Rightarrow> bool" where
  "evbuffer_chain_should_realign c datlen \<longleftrightarrow> buffer_len c - off c \<ge> datlen \<and> off c < buffer_len c div 2 \<and> off c \<le> 2048"

section \<open>Buffers\<close>

record evbuffer_cb_entry =
  cb_id :: nat
  cb_enabled :: bool
  cb_nodefer :: bool

record evbuffer =
  chains :: "evbuffer_chain list"
  last_with_data :: nat
  total_len :: nat
  n_add_for_cb :: nat
  n_del_for_cb :: nat
  freeze_start :: bool
  freeze_end :: bool
  deferred_cbs :: bool
  cb_queued :: bool
  callbacks :: "evbuffer_cb_entry list"
  cb_log :: "(nat \<times> int \<times> nat \<times> nat) list"

definition evbuffer_new :: evbuffer where
  "evbuffer_new = \<lparr>chains = [], last_with_data = 0, total_len = 0, n_add_for_cb = 0, n_del_for_cb = 0, freeze_start = False,
     freeze_end = False, deferred_cbs = False, cb_queued = False, callbacks = [], cb_log = []\<rparr>"

definition evbuffer_get_length :: "evbuffer \<Rightarrow> nat" where
  "evbuffer_get_length buf = total_len buf"

definition evbuffer_get_contiguous_space :: "evbuffer \<Rightarrow> nat" where
  "evbuffer_get_contiguous_space buf = (case chains buf of [] \<Rightarrow> 0 | c # _ \<Rightarrow> off c)"

text \<open>The calls of one run, for the entries that the mask selects.\<close>

definition evbuffer_run_callbacks :: "bool \<Rightarrow> evbuffer \<Rightarrow> evbuffer" where
  "evbuffer_run_callbacks running_deferred buf =
    (let selected = (\<lambda>e. cb_enabled e \<and> (if running_deferred then \<not> cb_nodefer e else if deferred_cbs buf then cb_nodefer e else True));
         clear = (running_deferred \<or> \<not> deferred_cbs buf)
     in if callbacks buf = [] then buf\<lparr>n_add_for_cb := 0, n_del_for_cb := 0\<rparr>
        else if n_add_for_cb buf = 0 \<and> n_del_for_cb buf = 0 then buf
        else
          (let orig_size = int (total_len buf) + int (n_del_for_cb buf) - int (n_add_for_cb buf);
               calls = map (\<lambda>e. (cb_id e, orig_size, n_add_for_cb buf, n_del_for_cb buf)) (filter selected (callbacks buf));
               buf1 = buf\<lparr>cb_log := cb_log buf @ calls\<rparr>
           in if clear then buf1\<lparr>n_add_for_cb := 0, n_del_for_cb := 0\<rparr> else buf1))"

definition evbuffer_invoke_callbacks :: "evbuffer \<Rightarrow> evbuffer" where
  "evbuffer_invoke_callbacks buf =
    (if callbacks buf = [] then buf\<lparr>n_add_for_cb := 0, n_del_for_cb := 0\<rparr>
     else if deferred_cbs buf \<and> cb_queued buf then buf
     else evbuffer_run_callbacks False (if deferred_cbs buf then buf\<lparr>cb_queued := True\<rparr> else buf))"

definition evbuffer_deferred_callback :: "evbuffer \<Rightarrow> evbuffer" where
  "evbuffer_deferred_callback buf = evbuffer_run_callbacks True (buf\<lparr>cb_queued := False\<rparr>)"

definition evbuffer_add_cb :: "nat \<Rightarrow> evbuffer \<Rightarrow> evbuffer" where
  "evbuffer_add_cb cb buf = buf\<lparr>callbacks := \<lparr>cb_id = cb, cb_enabled = True, cb_nodefer = False\<rparr> # callbacks buf\<rparr>"

definition evbuffer_remove_cb :: "nat \<Rightarrow> evbuffer \<Rightarrow> int \<times> evbuffer" where
  "evbuffer_remove_cb cb buf =
    (case dropWhile (\<lambda>e. cb_id e \<noteq> cb) (callbacks buf) of [] \<Rightarrow> (- 1, buf)
     | _ # es \<Rightarrow> (0, buf\<lparr>callbacks := takeWhile (\<lambda>e. cb_id e \<noteq> cb) (callbacks buf) @ es\<rparr>))"

definition evbuffer_freeze :: "bool \<Rightarrow> evbuffer \<Rightarrow> evbuffer" where
  "evbuffer_freeze start buf = (if start then buf\<lparr>freeze_start := True\<rparr> else buf\<lparr>freeze_end := True\<rparr>)"

definition evbuffer_unfreeze :: "bool \<Rightarrow> evbuffer \<Rightarrow> evbuffer" where
  "evbuffer_unfreeze start buf = (if start then buf\<lparr>freeze_start := False\<rparr> else buf\<lparr>freeze_end := False\<rparr>)"

text \<open>The chains before the first empty one at or behind \<open>last_with_datap\<close>, and the victims from there on.\<close>

definition kept_chains :: "evbuffer \<Rightarrow> evbuffer_chain list" where
  "kept_chains buf = take (last_with_data buf) (chains buf) @ takeWhile (\<lambda>c. off c \<noteq> 0) (drop (last_with_data buf) (chains buf))"

definition victims :: "evbuffer \<Rightarrow> evbuffer_chain list" where
  "victims buf = dropWhile (\<lambda>c. off c \<noteq> 0) (drop (last_with_data buf) (chains buf))"

definition evbuffer_chains_all_empty :: "evbuffer_chain list \<Rightarrow> bool" where
  "evbuffer_chains_all_empty cs \<longleftrightarrow> list_all (\<lambda>c. off c = 0) cs"

definition evbuffer_free_trailing_empty_chains :: "evbuffer \<Rightarrow> evbuffer option" where
  "evbuffer_free_trailing_empty_chains buf =
    (if evbuffer_chains_all_empty (victims buf) then Some (buf\<lparr>chains := kept_chains buf\<rparr>) else None)"

definition evbuffer_chain_insert :: "evbuffer_chain \<Rightarrow> evbuffer \<Rightarrow> evbuffer option" where
  "evbuffer_chain_insert c buf =
    map_option (\<lambda>b. b\<lparr>total_len := total_len b + off c\<rparr>)
      (if last_with_data buf \<ge> length (chains buf)
       then (if last_with_data buf = 0 \<and> chains buf = [] then Some (buf\<lparr>chains := [c]\<rparr>) else None)
       else if victims buf = []
       then Some (buf\<lparr>chains := chains buf @ [c], last_with_data := (if off c \<noteq> 0 then length (chains buf) else last_with_data buf)\<rparr>)
       else if evbuffer_chains_all_empty (victims buf) then Some (buf\<lparr>chains := kept_chains buf @ [c]\<rparr>)
       else None)"

definition advance_last_with_data :: "evbuffer \<Rightarrow> evbuffer" where
  "advance_last_with_data buf =
    (if last_with_data buf \<ge> length (chains buf) then buf
     else buf\<lparr>last_with_data := last_with_data buf + length (takeWhile (\<lambda>c. off c \<noteq> 0) (drop (Suc (last_with_data buf)) (chains buf)))\<rparr>)"

definition ZERO_CHAIN :: "evbuffer \<Rightarrow> evbuffer" where
  "ZERO_CHAIN buf = buf\<lparr>chains := [], last_with_data := 0, total_len := 0\<rparr>"

text \<open>Replacing the last chain, and counting \<open>n\<close> added bytes.\<close>

definition set_last :: "evbuffer_chain \<Rightarrow> evbuffer \<Rightarrow> evbuffer" where
  "set_last c buf = buf\<lparr>chains := butlast (chains buf) @ [c]\<rparr>"

definition count_added :: "nat \<Rightarrow> evbuffer \<Rightarrow> evbuffer" where
  "count_added n buf = buf\<lparr>total_len := total_len buf + n, n_add_for_cb := n_add_for_cb buf + n\<rparr>"

section \<open>Adding\<close>

definition append_data :: "bytes \<Rightarrow> evbuffer_chain \<Rightarrow> evbuffer_chain" where
  "append_data bs c = (store (misalign c + off c) bs c)\<lparr>off := off c + length bs\<rparr>"

text \<open>The part of \<open>evbuffer_add\<close> behind the allocation of a first chain.\<close>

definition add_to_last :: "nat option \<Rightarrow> bytes \<Rightarrow> evbuffer \<Rightarrow> (int \<times> evbuffer) option" where
  "add_to_last new bs buf =
    (let c = last (chains buf); datlen = length bs;
         remain = (if immutable c then 0 else buffer_len c - misalign c - off c)
     in if \<not> immutable c \<and> remain \<ge> datlen
        then Some (0, evbuffer_invoke_callbacks (count_added datlen (set_last (append_data bs c) buf)))
        else if \<not> immutable c \<and> evbuffer_chain_should_realign c datlen
        then Some (0, evbuffer_invoke_callbacks (count_added datlen (set_last (append_data bs (evbuffer_chain_align c)) buf)))
        else
          (let to_alloc = (if buffer_len c \<le> 2048 then 2 * buffer_len c else buffer_len c) in
           case evbuffer_chain_new new (max datlen to_alloc) of
             None \<Rightarrow> Some (- 1, buf)
           | Some tmp \<Rightarrow>
              (let buf1 = (if remain \<noteq> 0 then count_added remain (set_last (append_data (take remain bs) c) buf) else buf);
                   rest = drop remain bs;
                   tmp1 = (store 0 rest tmp)\<lparr>off := length rest\<rparr>
               in map_option (\<lambda>b. (0, evbuffer_invoke_callbacks (b\<lparr>n_add_for_cb := n_add_for_cb b + length rest\<rparr>)))
                    (evbuffer_chain_insert tmp1 buf1))))"

definition evbuffer_add :: "nat option \<Rightarrow> bytes \<Rightarrow> evbuffer \<Rightarrow> (int \<times> evbuffer) option" where
  "evbuffer_add new bs buf =
    (if freeze_end buf then Some (- 1, buf)
     else if chains buf = []
     then (case evbuffer_chain_new new (length bs) of None \<Rightarrow> Some (- 1, buf)
           | Some c \<Rightarrow> (case evbuffer_chain_insert c buf of None \<Rightarrow> None | Some b \<Rightarrow> add_to_last new bs b))
     else add_to_last new bs buf)"

text \<open>The part of \<open>evbuffer_prepend\<close> behind the allocation of a first chain.\<close>

definition prepend_to_first :: "nat option \<Rightarrow> bytes \<Rightarrow> evbuffer \<Rightarrow> int \<times> evbuffer" where
  "prepend_to_first new bs buf =
    (let c0 = hd (chains buf); cs = tl (chains buf); datlen = length bs;
         c = (if \<not> immutable c0 \<and> off c0 = 0 then c0\<lparr>misalign := buffer_len c0\<rparr> else c0)
     in if \<not> immutable c \<and> misalign c \<ge> datlen
        then (0, evbuffer_invoke_callbacks (count_added datlen (buf\<lparr>chains :=
               (store (misalign c - datlen) bs c)\<lparr>off := off c + datlen, misalign := misalign c - datlen\<rparr> # cs\<rparr>)))
        else
          (let fits = (\<not> immutable c \<and> misalign c \<noteq> 0);
               m = (if fits then misalign c else 0);
               c1 = (if fits then (store 0 (drop (datlen - m) bs) c)\<lparr>off := off c + m, misalign := 0\<rparr> else c);
               buf1 = count_added m (buf\<lparr>chains := c1 # cs\<rparr>);
               rest = take (datlen - m) bs
           in case evbuffer_chain_new new (length rest) of
                None \<Rightarrow> (- 1, buf1)
              | Some tmp \<Rightarrow>
                 (let tmp1 = (store (buffer_len tmp - length rest) rest tmp)\<lparr>off := length rest, misalign := buffer_len tmp - length rest\<rparr>
                  in (0, evbuffer_invoke_callbacks (buf1\<lparr>chains := tmp1 # c1 # cs, last_with_data := Suc (last_with_data buf1),
                        total_len := total_len buf1 + length rest, n_add_for_cb := n_add_for_cb buf1 + misalign c1\<rparr>)))))"

definition evbuffer_prepend :: "nat option \<Rightarrow> bytes \<Rightarrow> evbuffer \<Rightarrow> (int \<times> evbuffer) option" where
  "evbuffer_prepend new bs buf =
    (if freeze_start buf then Some (- 1, buf)
     else if chains buf = []
     then (case evbuffer_chain_new new (length bs) of None \<Rightarrow> Some (- 1, buf)
           | Some c \<Rightarrow> map_option (prepend_to_first new bs) (evbuffer_chain_insert c buf))
     else Some (prepend_to_first new bs buf))"

definition evbuffer_add_reference :: "nat option \<Rightarrow> bytes \<Rightarrow> evbuffer \<Rightarrow> (int \<times> evbuffer) option" where
  "evbuffer_add_reference new bs buf =
    (case new of None \<Rightarrow> Some (- 1, buf)
     | Some a \<Rightarrow>
        if freeze_end buf then Some (- 1, buf)
        else map_option (\<lambda>b. (0, evbuffer_invoke_callbacks (b\<lparr>n_add_for_cb := n_add_for_cb b + length bs\<rparr>)))
          (evbuffer_chain_insert \<lparr>caddr = a, cbuffer = bs, misalign = 0, off = length bs, immutable = True\<rparr> buf))"

section \<open>Removing\<close>

text \<open>The loop of \<open>evbuffer_drain\<close>; \<open>None\<close> when it runs off the end of the chains.\<close>

fun drain_loop :: "nat \<Rightarrow> evbuffer_chain list \<Rightarrow> nat \<Rightarrow> (evbuffer_chain list \<times> nat) option" where
  "drain_loop remaining [] lwd = None"
| "drain_loop remaining (c # cs) lwd =
    (if remaining \<ge> off c then drain_loop (remaining - off c) cs (lwd - 1)
     else Some (c\<lparr>misalign := misalign c + remaining, off := off c - remaining\<rparr> # cs, lwd))"

definition evbuffer_drain :: "nat \<Rightarrow> evbuffer \<Rightarrow> (int \<times> evbuffer) option" where
  "evbuffer_drain len buf =
    (if total_len buf = 0 then Some (0, buf)
     else if freeze_start buf then Some (- 1, buf)
     else if len \<ge> total_len buf
     then Some (0, evbuffer_invoke_callbacks ((ZERO_CHAIN buf)\<lparr>n_del_for_cb := n_del_for_cb buf + total_len buf\<rparr>))
     else map_option (\<lambda>(cs, lwd). (0, evbuffer_invoke_callbacks (buf\<lparr>chains := cs, last_with_data := lwd,
            total_len := total_len buf - len, n_del_for_cb := n_del_for_cb buf + len\<rparr>)))
       (drain_loop len (chains buf) (last_with_data buf)))"

fun copyout_loop :: "nat \<Rightarrow> evbuffer_chain list \<Rightarrow> bytes option" where
  "copyout_loop datlen cs =
    (if datlen = 0 then Some []
     else case cs of [] \<Rightarrow> None
     | c # cs' \<Rightarrow> if datlen \<ge> off c then map_option ((@) (cdata c)) (copyout_loop (datlen - off c) cs')
                 else Some (take datlen (cdata c)))"

declare copyout_loop.simps [simp del]

text \<open>The result and the bytes written to \<open>data_out\<close>.\<close>

definition evbuffer_copyout :: "nat \<Rightarrow> evbuffer \<Rightarrow> (int \<times> bytes) option" where
  "evbuffer_copyout datlen0 buf =
    (let datlen = (if datlen0 \<ge> total_len buf then total_len buf else datlen0) in
     if datlen = 0 then Some (0, [])
     else if freeze_start buf then Some (- 1, [])
     else map_option (Pair (int datlen)) (copyout_loop datlen (chains buf)))"

definition evbuffer_remove :: "nat \<Rightarrow> evbuffer \<Rightarrow> (int \<times> bytes \<times> evbuffer) option" where
  "evbuffer_remove datlen buf =
    (case evbuffer_copyout datlen buf of None \<Rightarrow> None
     | Some (n, bs) \<Rightarrow>
        if n > 0 then map_option (\<lambda>(r, b). (if r < 0 then - 1 else n, bs, b)) (evbuffer_drain (nat n) buf)
        else Some (n, bs, buf))"

section \<open>The bytes of a buffer and its invariant\<close>

definition chain_ok :: "evbuffer_chain \<Rightarrow> bool" where
  "chain_ok c \<longleftrightarrow> misalign c + off c \<le> buffer_len c"

definition chain_bytes :: "evbuffer_chain list \<Rightarrow> bytes" where
  "chain_bytes cs = concat (map cdata cs)"

definition contents :: "evbuffer \<Rightarrow> bytes" where
  "contents buf = chain_bytes (chains buf)"

text \<open>The comment at \<open>last_with_datap\<close>: no chain behind it has data.\<close>

definition evb_ok :: "evbuffer \<Rightarrow> bool" where
  "evb_ok buf \<longleftrightarrow> list_all chain_ok (chains buf) \<and> total_len buf = sum_list (map off (chains buf))
     \<and> (if chains buf = [] then last_with_data buf = 0 else last_with_data buf < length (chains buf))
     \<and> evbuffer_chains_all_empty (drop (Suc (last_with_data buf)) (chains buf))"

text \<open>No empty chain waits behind the last one with data.\<close>

definition evb_tidy :: "evbuffer \<Rightarrow> bool" where
  "evb_tidy buf \<longleftrightarrow> chains buf = [] \<or> Suc (last_with_data buf) = length (chains buf)"

named_theorems evb_simps \<open>the invariant and the bytes of a buffer\<close>

lemma chain_bytes_simps [simp]:
  "chain_bytes [] = []"
  "chain_bytes (c # cs) = cdata c @ chain_bytes cs"
  "chain_bytes (cs @ ds) = chain_bytes cs @ chain_bytes ds"
  by (simp_all add: chain_bytes_def)

lemma length_cdata [simp]: "chain_ok c \<Longrightarrow> length (cdata c) = off c"
  by (simp add: cdata_def chain_ok_def buffer_len_def)

lemma cdata_empty [simp]: "off c = 0 \<Longrightarrow> cdata c = []"
  by (simp add: cdata_def)

lemma length_chain_bytes: "list_all chain_ok cs \<Longrightarrow> length (chain_bytes cs) = sum_list (map off cs)"
  by (induction cs) auto

lemma all_empty_simps [simp]:
  "evbuffer_chains_all_empty []"
  "evbuffer_chains_all_empty (c # cs) \<longleftrightarrow> off c = 0 \<and> evbuffer_chains_all_empty cs"
  "evbuffer_chains_all_empty (cs @ ds) \<longleftrightarrow> evbuffer_chains_all_empty cs \<and> evbuffer_chains_all_empty ds"
  by (simp_all add: evbuffer_chains_all_empty_def)

lemma all_empty_bytes [simp]: "evbuffer_chains_all_empty cs \<Longrightarrow> chain_bytes cs = []"
  by (induction cs) auto

lemma all_empty_sum [simp]: "evbuffer_chains_all_empty cs \<Longrightarrow> sum_list (map off cs) = 0"
  by (induction cs) auto

lemma invoke_callbacks_fields [simp]:
  "chains (evbuffer_invoke_callbacks buf) = chains buf"
  "last_with_data (evbuffer_invoke_callbacks buf) = last_with_data buf"
  "total_len (evbuffer_invoke_callbacks buf) = total_len buf"
  "freeze_start (evbuffer_invoke_callbacks buf) = freeze_start buf"
  "freeze_end (evbuffer_invoke_callbacks buf) = freeze_end buf"
  "callbacks (evbuffer_invoke_callbacks buf) = callbacks buf"
  "deferred_cbs (evbuffer_invoke_callbacks buf) = deferred_cbs buf"
  by (simp_all add: evbuffer_invoke_callbacks_def evbuffer_run_callbacks_def Let_def)

lemma invoke_callbacks_keeps [simp]:
  "evb_ok (evbuffer_invoke_callbacks buf) = evb_ok buf"
  "evb_tidy (evbuffer_invoke_callbacks buf) = evb_tidy buf"
  "contents (evbuffer_invoke_callbacks buf) = contents buf"
  by (simp_all add: evb_ok_def evb_tidy_def contents_def)

lemma evb_ok_length: "evb_ok buf \<Longrightarrow> total_len buf = length (contents buf)"
  by (simp add: evb_ok_def contents_def length_chain_bytes)

lemma evb_ok_new [simp]: "evb_ok evbuffer_new" "evb_tidy evbuffer_new" "contents evbuffer_new = []"
  by (simp_all add: evb_ok_def evb_tidy_def evbuffer_new_def contents_def)

section \<open>Writing into a chain\<close>

lemma store_fields [simp]:
  "misalign (store p bs c) = misalign c" "off (store p bs c) = off c" "immutable (store p bs c) = immutable c"
  "caddr (store p bs c) = caddr c"
  by (simp_all add: store_def)

lemma buffer_len_store [simp]: "p + length bs \<le> buffer_len c \<Longrightarrow> buffer_len (store p bs c) = buffer_len c"
  by (simp add: store_def buffer_len_def)

lemma buffer_len_update [simp]:
  "buffer_len (c\<lparr>misalign := m\<rparr>) = buffer_len c" "buffer_len (c\<lparr>off := n\<rparr>) = buffer_len c"
  by (simp_all add: buffer_len_def)

lemma append_data_spec [simp]:
  assumes "misalign c + off c + length bs \<le> buffer_len c"
  shows "cdata (append_data bs c) = cdata c @ bs" "chain_ok (append_data bs c)" "off (append_data bs c) = off c + length bs"
    "misalign (append_data bs c) = misalign c" "buffer_len (append_data bs c) = buffer_len c"
proof -
  have m: "min (length (cbuffer c)) (misalign c + off c) = misalign c + off c"
    using assms by (simp add: buffer_len_def)
  have "drop (misalign c) (take (misalign c + off c) (cbuffer c)) = take (off c) (drop (misalign c) (cbuffer c))"
    by (simp add: drop_take)
  then show "cdata (append_data bs c) = cdata c @ bs"
    using assms by (simp add: append_data_def cdata_def store_def buffer_len_def m)
  show "chain_ok (append_data bs c)" "off (append_data bs c) = off c + length bs"
    "misalign (append_data bs c) = misalign c" "buffer_len (append_data bs c) = buffer_len c"
    using assms by (simp_all add: append_data_def chain_ok_def)
qed

lemma chain_align_spec [simp]:
  assumes "chain_ok c"
  shows "cdata (evbuffer_chain_align c) = cdata c" "misalign (evbuffer_chain_align c) = 0" "off (evbuffer_chain_align c) = off c"
    "buffer_len (evbuffer_chain_align c) = buffer_len c" "chain_ok (evbuffer_chain_align c)"
  using assms by (simp_all add: evbuffer_chain_align_def chain_ok_def store_def buffer_len_def cdata_def)

text \<open>Writing in front of the data.\<close>

lemma store_front:
  assumes "chain_ok c" "length bs \<le> misalign c"
  shows "cdata ((store (misalign c - length bs) bs c)\<lparr>off := off c + length bs, misalign := misalign c - length bs\<rparr>) = bs @ cdata c"
  using assms by (simp add: cdata_def store_def chain_ok_def buffer_len_def min_def)

lemma alloc_loop_ge: "0 < a \<Longrightarrow> sz \<le> alloc_loop a sz"
  by (induction a sz rule: alloc_loop.induct) (subst alloc_loop.simps, auto)

lemma chain_new_spec:
  assumes "evbuffer_chain_new new sz = Some c"
  shows "sz \<le> buffer_len c" "misalign c = 0" "off c = 0" "\<not> immutable c" "new = Some (caddr c)"
proof -
  have "sz + EVBUFFER_CHAIN_SIZE \<le> alloc_loop MIN_BUFFER_SIZE (sz + EVBUFFER_CHAIN_SIZE)"
    by (rule alloc_loop_ge) (simp add: MIN_BUFFER_SIZE_def)
  with assms show "sz \<le> buffer_len c" "misalign c = 0" "off c = 0" "\<not> immutable c" "new = Some (caddr c)"
    by (auto simp: evbuffer_chain_new_def buffer_len_def)
qed

lemma chain_new_None [simp]: "evbuffer_chain_new new sz = None \<longleftrightarrow> new = None" "evbuffer_chain_new None sz = None"
  by (simp_all add: evbuffer_chain_new_def)

section \<open>Inserting a chain\<close>

lemma evb_ok_split:
  assumes "evb_ok buf" "chains buf \<noteq> []"
  obtains xs x rest where "chains buf = xs @ x # rest" "last_with_data buf = length xs" "evbuffer_chains_all_empty rest"
    "list_all chain_ok xs" "chain_ok x" "list_all chain_ok rest"
proof -
  let ?k = "last_with_data buf"
  have k: "?k < length (chains buf)" using assms by (simp add: evb_ok_def)
  note sp = id_take_nth_drop [OF k]
  have "list_all chain_ok (chains buf)" "evbuffer_chains_all_empty (drop (Suc ?k) (chains buf))"
    using assms by (simp_all add: evb_ok_def)
  with k show thesis
    by (intro that [OF sp]) (auto simp: list_all_iff dest: in_set_takeD in_set_dropD)
qed

lemma evb_okI:
  assumes "chains buf = xs @ x # rest" "last_with_data buf = length xs" "evbuffer_chains_all_empty rest"
    "list_all chain_ok xs" "chain_ok x" "list_all chain_ok rest" "total_len buf = sum_list (map off xs) + off x"
  shows "evb_ok buf"
  using assms by (simp add: evb_ok_def)

lemma all_empty_dropWhile: "evbuffer_chains_all_empty cs \<Longrightarrow> dropWhile (\<lambda>c. 0 < off c) cs = cs"
  "evbuffer_chains_all_empty cs \<Longrightarrow> takeWhile (\<lambda>c. 0 < off c) cs = []"
  by (cases cs; auto)+

lemma victims_split:
  assumes "chains buf = xs @ x # rest" "last_with_data buf = length xs" "evbuffer_chains_all_empty rest"
  shows "victims buf = (if off x = 0 then x # rest else rest)" "kept_chains buf = (if off x = 0 then xs else xs @ [x])"
  using assms by (simp_all add: victims_def kept_chains_def all_empty_dropWhile)

lemma chain_insert_spec:
  assumes ok: "evb_ok buf" and c: "chain_ok c"
  obtains cs k where
    "evbuffer_chain_insert c buf = Some (buf\<lparr>chains := cs @ [c], last_with_data := k, total_len := total_len buf + off c\<rparr>)"
    "chain_bytes cs = contents buf"
    "evb_tidy buf \<or> off c = 0 \<Longrightarrow> evb_ok (buf\<lparr>chains := cs @ [c], last_with_data := k, total_len := total_len buf + off c\<rparr>)"
    "evb_tidy buf \<and> (off c \<noteq> 0 \<or> contents buf = []) \<Longrightarrow> k = length cs"
proof (cases "chains buf = []")
  case True
  with ok c show thesis
    by (intro that [where cs = "[]" and k = 0]) (auto simp: evbuffer_chain_insert_def evb_ok_def contents_def)
next
  case False
  obtain xs x rest where sp: "chains buf = xs @ x # rest" "last_with_data buf = length xs" "evbuffer_chains_all_empty rest"
    "list_all chain_ok xs" "chain_ok x" "list_all chain_ok rest"
    using evb_ok_split [OF ok False] by blast
  have tl: "total_len buf = sum_list (map off xs) + off x" using ok sp by (simp add: evb_ok_def)
  note v = victims_split [OF sp(1-3)]
  show thesis
  proof (cases "off x = 0")
    case True
    show thesis
      by (rule that [where cs = xs and k = "length xs"])
         (use True sp v tl c in \<open>auto simp: evbuffer_chain_insert_def evb_ok_def contents_def evb_tidy_def\<close>)
  next
    case False
    have x: "cdata x \<noteq> []" using sp False by (metis length_cdata list.size(3))
    show thesis
      by (rule that [where cs = "xs @ [x]" and k = "if rest = [] \<and> off c \<noteq> 0 then Suc (length xs) else length xs"])
         (use False sp v tl c x in \<open>auto simp: evbuffer_chain_insert_def evb_ok_def contents_def evb_tidy_def\<close>)
  qed
qed

section \<open>Adding refines appending\<close>

text \<open>What an operation that turns \<open>buf\<close> into \<open>b\<close> promises: the invariant, the bytes and the settings.\<close>

definition evb_becomes :: "evbuffer \<Rightarrow> evbuffer \<Rightarrow> bytes \<Rightarrow> bool" where
  "evb_becomes buf b bs \<longleftrightarrow> evb_ok b \<and> contents b = bs \<and> freeze_start b = freeze_start buf \<and> freeze_end b = freeze_end buf
     \<and> callbacks b = callbacks buf \<and> deferred_cbs b = deferred_cbs buf"

lemma evb_becomes_invoke [simp]: "evb_becomes buf (evbuffer_invoke_callbacks b) bs = evb_becomes buf b bs"
  by (simp add: evb_becomes_def)

lemma evb_tidy_split:
  assumes "evb_ok buf" "evb_tidy buf" "chains buf \<noteq> []"
  obtains xs c where "chains buf = xs @ [c]" "last_with_data buf = length xs" "list_all chain_ok xs" "chain_ok c"
    "total_len buf = sum_list (map off xs) + off c" "contents buf = chain_bytes xs @ cdata c"
proof -
  obtain xs x rest where sp: "chains buf = xs @ x # rest" "last_with_data buf = length xs" "evbuffer_chains_all_empty rest"
    "list_all chain_ok xs" "chain_ok x" "list_all chain_ok rest"
    using evb_ok_split [OF assms(1,3)] by blast
  moreover have "rest = []" using assms(2) sp by (simp add: evb_tidy_def)
  ultimately show thesis using assms(1) by (intro that [of xs x]) (simp_all add: evb_ok_def contents_def)
qed

text \<open>The last chain takes more bytes.\<close>

lemma fill_last:
  assumes "chains buf = xs @ [c]" "last_with_data buf = length xs" "list_all chain_ok xs" "chain_ok c'"
    "total_len buf = sum_list (map off xs) + off c" "cdata c' = cdata c @ bs" "off c' = off c + length bs"
  shows "evb_becomes buf (count_added (length bs) (set_last c' buf)) (contents buf @ bs)"
    "evb_tidy (count_added (length bs) (set_last c' buf))"
  using assms by (simp_all add: evb_becomes_def evb_ok_def evb_tidy_def count_added_def set_last_def contents_def)

text \<open>A chain with the bytes goes to the end.\<close>

lemma add_new_chain:
  assumes "evb_ok buf" "evb_tidy buf" "chain_ok c" "cdata c = bs" "off c = length bs"
  shows "\<exists>b. map_option (\<lambda>b. (0, evbuffer_invoke_callbacks (b\<lparr>n_add_for_cb := n_add_for_cb b + n\<rparr>))) (evbuffer_chain_insert c buf) = Some (0, b)
     \<and> evb_becomes buf b (contents buf @ bs) \<and> (bs \<noteq> [] \<longrightarrow> evb_tidy b)"
proof -
  obtain cs k where
    ins: "evbuffer_chain_insert c buf = Some (buf\<lparr>chains := cs @ [c], last_with_data := k, total_len := total_len buf + off c\<rparr>)"
    and cs: "chain_bytes cs = contents buf"
    and ok: "evb_ok (buf\<lparr>chains := cs @ [c], last_with_data := k, total_len := total_len buf + off c\<rparr>)"
    and k: "off c \<noteq> 0 \<Longrightarrow> k = length cs"
    using chain_insert_spec [OF assms(1,3)] assms(2) by metis
  then show ?thesis using assms(4,5) by (auto simp: evb_becomes_def evb_tidy_def contents_def evb_ok_def)
qed

lemma add_to_last_spec:
  assumes ok: "evb_ok buf" and tidy: "evb_tidy buf" and ne: "chains buf \<noteq> []"
  shows "add_to_last new bs buf = Some (- 1, buf) \<and> new = None
     \<or> (\<exists>b. add_to_last new bs buf = Some (0, b) \<and> evb_becomes buf b (contents buf @ bs) \<and> (bs \<noteq> [] \<longrightarrow> evb_tidy b))"
proof -
  obtain xs c where sp: "chains buf = xs @ [c]" "last_with_data buf = length xs" "list_all chain_ok xs" "chain_ok c"
    "total_len buf = sum_list (map off xs) + off c" "contents buf = chain_bytes xs @ cdata c"
    using evb_tidy_split [OF ok tidy ne] by blast
  note fill = fill_last [OF sp(1-3) _ sp(5)]
  have lst: "last (chains buf) = c" using sp by simp
  define remain where "remain = (if immutable c then 0 else buffer_len c - misalign c - off c)"
  consider (fits) "\<not> immutable c" "remain \<ge> length bs"
    | (align) "\<not> immutable c" "remain < length bs" "evbuffer_chain_should_realign c (length bs)"
    | (grow) "immutable c \<or> remain < length bs \<and> \<not> evbuffer_chain_should_realign c (length bs)"
    by fastforce
  then show ?thesis
  proof cases
    case fits
    then have "misalign c + off c + length bs \<le> buffer_len c" using sp(4) by (simp add: remain_def chain_ok_def)
    then show ?thesis
      using fits fill [of "append_data bs c" bs] by (simp add: add_to_last_def Let_def lst remain_def)
  next
    case align
    then have "misalign (evbuffer_chain_align c) + off (evbuffer_chain_align c) + length bs \<le> buffer_len (evbuffer_chain_align c)"
      using sp(4) by (auto simp: evbuffer_chain_should_realign_def chain_ok_def)
    then show ?thesis
      using align sp(4) fill [of "append_data bs (evbuffer_chain_align c)" bs]
      by (simp add: add_to_last_def Let_def lst remain_def)
  next
    case grow
    then have rl: "remain \<le> length bs" by (auto simp: remain_def)
    let ?sz = "max (length bs) (if buffer_len c \<le> 2048 then 2 * buffer_len c else buffer_len c)"
    show ?thesis
    proof (cases "evbuffer_chain_new new ?sz")
      case None
      then show ?thesis using grow
        by (auto simp: add_to_last_def Let_def lst remain_def)
    next
      case (Some tmp)
      note new = chain_new_spec [OF Some]
      let ?buf1 = "if remain \<noteq> 0 then count_added remain (set_last (append_data (take remain bs) c) buf) else buf"
      let ?tmp1 = "(store 0 (drop remain bs) tmp)\<lparr>off := length bs - remain\<rparr>"
      have ok1: "evb_becomes buf ?buf1 (contents buf @ take remain bs)" "evb_tidy ?buf1"
        using fill [of "append_data (take remain bs) c" "take remain bs"] sp(4) rl ok tidy
        by (auto simp: remain_def chain_ok_def evb_becomes_def)
      have tmp1: "chain_ok ?tmp1" "cdata ?tmp1 = drop remain bs" "off ?tmp1 = length (drop remain bs)"
        using new by (simp_all add: chain_ok_def cdata_def store_def buffer_len_def)
      have "evb_ok ?buf1" using ok1 by (simp only: evb_becomes_def)
      from add_new_chain [OF this ok1(2) tmp1, of "length bs - remain"] obtain b where
        "map_option (\<lambda>b. (0, evbuffer_invoke_callbacks (b\<lparr>n_add_for_cb := n_add_for_cb b + (length bs - remain)\<rparr>)))
           (evbuffer_chain_insert ?tmp1 ?buf1) = Some (0, b)"
        "evb_becomes ?buf1 b (contents ?buf1 @ drop remain bs)" "drop remain bs \<noteq> [] \<longrightarrow> evb_tidy b"
        by blast
      moreover have "add_to_last new bs buf = map_option (\<lambda>b. (0, evbuffer_invoke_callbacks (b\<lparr>n_add_for_cb := n_add_for_cb b + (length bs - remain)\<rparr>)))
           (evbuffer_chain_insert ?tmp1 ?buf1)"
        using grow Some by (auto simp: add_to_last_def Let_def lst remain_def)
      moreover have "bs \<noteq> [] \<Longrightarrow> drop remain bs \<noteq> []" using grow by (auto simp: remain_def)
      ultimately show ?thesis using ok1(1) by (auto simp: evb_becomes_def)
    qed
  qed
qed

lemma add_spec:
  assumes ok: "evb_ok buf" and tidy: "evb_tidy buf"
  shows "evbuffer_add new bs buf = Some (- 1, buf) \<and> (new = None \<or> freeze_end buf)
     \<or> (\<exists>b. evbuffer_add new bs buf = Some (0, b) \<and> \<not> freeze_end buf \<and> evb_becomes buf b (contents buf @ bs) \<and> (bs \<noteq> [] \<longrightarrow> evb_tidy b))"
proof (cases "freeze_end buf \<or> chains buf = [] \<and> new = None")
  case True
  then show ?thesis by (auto simp: evbuffer_add_def)
next
  case False
  show ?thesis
  proof (cases "chains buf = []")
    case True
    with False obtain c where new: "evbuffer_chain_new new (length bs) = Some c"
      by (metis chain_new_None(1) not_None_eq)
    note c = chain_new_spec [OF new]
    have [simp]: "chain_ok c" using c by (simp add: chain_ok_def)
    from True ok have buf: "last_with_data buf = 0" "total_len buf = 0" "contents buf = []"
      by (simp_all add: evb_ok_def contents_def)
    define b where "b = buf\<lparr>chains := [c]\<rparr>"
    have ins: "evbuffer_chain_insert c buf = Some b"
      using True buf c by (simp add: evbuffer_chain_insert_def b_def)
    have b: "evb_ok b" "evb_tidy b" "chains b \<noteq> []" "contents b = []"
      using buf c by (simp_all add: b_def evb_ok_def evb_tidy_def contents_def)
    have "new \<noteq> None" using c by simp
    with add_to_last_spec [OF b(1-3), of new bs] False True new ins b(4) buf(3) show ?thesis
      by (auto simp: evbuffer_add_def evb_becomes_def b_def)
  next
    case ne: False
    with add_to_last_spec [OF ok tidy ne, of new bs] False show ?thesis by (auto simp: evbuffer_add_def)
  qed
qed

lemma add_reference_spec:
  assumes ok: "evb_ok buf" and tidy: "evb_tidy buf"
  shows "evbuffer_add_reference new bs buf = Some (- 1, buf) \<and> (new = None \<or> freeze_end buf)
     \<or> (\<exists>b. evbuffer_add_reference new bs buf = Some (0, b) \<and> \<not> freeze_end buf \<and> evb_becomes buf b (contents buf @ bs) \<and> (bs \<noteq> [] \<longrightarrow> evb_tidy b))"
proof (cases "new = None \<or> freeze_end buf")
  case True
  then show ?thesis by (cases new) (auto simp: evbuffer_add_reference_def)
next
  case False
  then obtain a where "new = Some a" "\<not> freeze_end buf" by auto
  then show ?thesis
    using add_new_chain [OF ok tidy, of "\<lparr>caddr = a, cbuffer = bs, misalign = 0, off = length bs, immutable = True\<rparr>" bs "length bs"]
    by (simp add: evbuffer_add_reference_def chain_ok_def cdata_def buffer_len_def)
qed

section \<open>Prepending\<close>

lemma replace_first:
  assumes "evb_ok buf" "chains buf = c0 # cs" "chain_ok c" "cdata c = bs @ cdata c0" "off c = off c0 + length bs"
  shows "evb_becomes buf (count_added (length bs) (buf\<lparr>chains := c # cs\<rparr>)) (bs @ contents buf)"
    "evb_tidy (count_added (length bs) (buf\<lparr>chains := c # cs\<rparr>)) = evb_tidy buf"
  using assms by (auto simp: evb_becomes_def evb_ok_def evb_tidy_def count_added_def contents_def)

lemma new_first:
  assumes "evb_ok buf" "chains buf \<noteq> []" "chain_ok c" "cdata c = bs" "off c = length bs"
    and "b = buf\<lparr>chains := c # chains buf, last_with_data := Suc (last_with_data buf), total_len := total_len buf + length bs, n_add_for_cb := n\<rparr>"
  shows "evb_becomes buf b (bs @ contents buf)" "evb_tidy b = evb_tidy buf"
  using assms by (auto simp: evb_becomes_def evb_ok_def evb_tidy_def contents_def)

lemma prepend_to_first_spec:
  assumes ok: "evb_ok buf" and ne: "chains buf \<noteq> []"
  shows "(\<exists>b. prepend_to_first new bs buf = (0, b) \<and> evb_becomes buf b (bs @ contents buf) \<and> (evb_tidy buf \<longrightarrow> evb_tidy b))
     \<or> new = None \<and> (\<exists>b m. prepend_to_first new bs buf = (- 1, b) \<and> evb_becomes buf b (drop m bs @ contents buf) \<and> (evb_tidy buf \<longrightarrow> evb_tidy b))"
proof -
  obtain c0 cs where ch: "chains buf = c0 # cs" using ne by (cases "chains buf") auto
  have c0: "chain_ok c0" using ok ch by (simp add: evb_ok_def)
  define c where "c = (if \<not> immutable c0 \<and> off c0 = 0 then c0\<lparr>misalign := buffer_len c0\<rparr> else c0)"
  have c: "chain_ok c" "cdata c = cdata c0" "off c = off c0"
    using c0 by (simp_all add: c_def chain_ok_def)
  note first = replace_first [OF ok ch]
  show ?thesis
  proof (cases "\<not> immutable c \<and> misalign c \<ge> length bs")
    case True
    define c' where "c' = (store (misalign c - length bs) bs c)\<lparr>off := off c + length bs, misalign := misalign c - length bs\<rparr>"
    have "chain_ok c'" "cdata c' = bs @ cdata c0" "off c' = off c0 + length bs"
      using c True store_front [of c bs] by (simp_all add: c'_def chain_ok_def)
    note f = first [OF this]
    have "prepend_to_first new bs buf = (0, evbuffer_invoke_callbacks (count_added (length bs) (buf\<lparr>chains := c' # cs\<rparr>)))"
      using True by (simp add: prepend_to_first_def Let_def ch c_def c'_def)
    with f show ?thesis by simp
  next
    case False
    define m where "m = (if \<not> immutable c \<and> misalign c \<noteq> 0 then misalign c else 0)"
    define c1 where "c1 = (if \<not> immutable c \<and> misalign c \<noteq> 0 then (store 0 (drop (length bs - m) bs) c)\<lparr>off := off c + m, misalign := 0\<rparr> else c)"
    have m: "m \<le> length bs" using False by (auto simp: m_def)
    have "chain_ok c1" "cdata c1 = drop (length bs - m) bs @ cdata c0" "off c1 = off c0 + length (drop (length bs - m) bs)"
      using c m False store_front [of c "drop (length bs - m) bs"] by (auto simp: c1_def m_def chain_ok_def)
    note f = first [OF this]
    define buf1 where "buf1 = count_added m (buf\<lparr>chains := c1 # cs\<rparr>)"
    have buf1: "evb_becomes buf buf1 (drop (length bs - m) bs @ contents buf)" "evb_tidy buf1 = evb_tidy buf"
      using f m by (simp_all add: buf1_def)
    then have ok1: "evb_ok buf1" "chains buf1 = c1 # cs" by (simp_all add: evb_becomes_def buf1_def count_added_def)
    have eq: "prepend_to_first new bs buf = (case evbuffer_chain_new new (length bs - m) of None \<Rightarrow> (- 1, buf1)
      | Some tmp \<Rightarrow> (0, evbuffer_invoke_callbacks (buf1\<lparr>chains := (store (buffer_len tmp - (length bs - m)) (take (length bs - m) bs) tmp)
            \<lparr>off := length bs - m, misalign := buffer_len tmp - (length bs - m)\<rparr> # c1 # cs, last_with_data := Suc (last_with_data buf1),
                        total_len := total_len buf1 + (length bs - m), n_add_for_cb := n_add_for_cb buf1 + misalign c1\<rparr>)))"
      unfolding prepend_to_first_def Let_def ch list.sel c_def [symmetric] m_def [symmetric] c1_def [symmetric] buf1_def [symmetric]
      using False by (auto split: option.splits)
    show ?thesis
    proof (cases "evbuffer_chain_new new (length bs - m)")
      case None
      then show ?thesis using buf1 eq by auto
    next
      case (Some tmp)
      note new = chain_new_spec [OF Some]
      define tmp1 where "tmp1 = (store (buffer_len tmp - (length bs - m)) (take (length bs - m) bs) tmp)
            \<lparr>off := length bs - m, misalign := buffer_len tmp - (length bs - m)\<rparr>"
      have "chain_ok tmp1" "cdata tmp1 = take (length bs - m) bs" "off tmp1 = length (take (length bs - m) bs)"
        using new by (simp_all add: tmp1_def chain_ok_def cdata_def store_def buffer_len_def)
      from new_first [OF ok1(1) _ this refl] ok1(2) buf1 eq Some show ?thesis
        by (simp add: tmp1_def evb_becomes_def flip: append_assoc)
    qed
  qed
qed

lemma prepend_spec:
  assumes ok: "evb_ok buf"
  shows "freeze_start buf \<and> evbuffer_prepend new bs buf = Some (- 1, buf)
     \<or> \<not> freeze_start buf \<and> (\<exists>b. evbuffer_prepend new bs buf = Some (0, b) \<and> evb_becomes buf b (bs @ contents buf) \<and> (evb_tidy buf \<longrightarrow> evb_tidy b))
     \<or> new = None \<and> (\<exists>b m. evbuffer_prepend new bs buf = Some (- 1, b) \<and> evb_becomes buf b (drop m bs @ contents buf) \<and> (evb_tidy buf \<longrightarrow> evb_tidy b))"
proof (cases "freeze_start buf")
  case True
  then show ?thesis by (simp add: evbuffer_prepend_def)
next
  case nf: False
  show ?thesis
  proof (cases "chains buf = []")
    case False
    with nf prepend_to_first_spec [OF ok False, of new bs] show ?thesis by (auto simp: evbuffer_prepend_def)
  next
    case True
    show ?thesis
    proof (cases "evbuffer_chain_new new (length bs)")
      case None
      then have "evbuffer_prepend new bs buf = Some (- 1, buf)" "evb_becomes buf buf (drop (length bs) bs @ contents buf)"
        using True nf ok by (simp_all add: evbuffer_prepend_def evb_becomes_def)
      then show ?thesis using None unfolding chain_new_None by blast
    next
      case (Some c)
      note c = chain_new_spec [OF Some]
      have [simp]: "chain_ok c" using c by (simp add: chain_ok_def)
      from True ok have buf: "last_with_data buf = 0" "total_len buf = 0" "contents buf = []"
        by (simp_all add: evb_ok_def contents_def)
      define b where "b = buf\<lparr>chains := [c]\<rparr>"
      have b: "evb_ok b" "evb_tidy b" "chains b \<noteq> []" "contents b = []" "evbuffer_chain_insert c buf = Some b"
        using True buf c by (simp_all add: b_def evb_ok_def evb_tidy_def contents_def evbuffer_chain_insert_def)
      have "new \<noteq> None" using c by simp
      with prepend_to_first_spec [OF b(1,3), of new bs] nf True Some b(2,4,5) buf(3) show ?thesis
        by (auto simp: evbuffer_prepend_def evb_becomes_def b_def)
    qed
  qed
qed

section \<open>Draining and reading\<close>

lemma drain_loop_spec:
  assumes "list_all chain_ok cs" "n < sum_list (map off cs)" "evbuffer_chains_all_empty (drop (Suc k) cs)" "k < length cs"
  shows "\<exists>cs' k'. drain_loop n cs k = Some (cs', k') \<and> list_all chain_ok cs' \<and> chain_bytes cs' = drop n (chain_bytes cs)
     \<and> sum_list (map off cs') = sum_list (map off cs) - n \<and> k' < length cs' \<and> evbuffer_chains_all_empty (drop (Suc k') cs')
     \<and> (Suc k = length cs \<longrightarrow> Suc k' = length cs')"
  using assms
proof (induction n cs k rule: drain_loop.induct)
  case (2 n c cs k)
  show ?case
  proof (cases "off c \<le> n")
    case True
    have k: "k \<noteq> 0" using 2(3,4) True by (intro notI) simp
    then have "k - 1 < length cs" "n - off c < sum_list (map off cs)" using 2(3,5) True by auto
    with 2(1) [OF True] 2(2,4) k have "\<exists>cs' k'. drain_loop (n - off c) cs (k - 1) = Some (cs', k') \<and> list_all chain_ok cs'
       \<and> chain_bytes cs' = drop (n - off c) (chain_bytes cs) \<and> sum_list (map off cs') = sum_list (map off cs) - (n - off c)
       \<and> k' < length cs' \<and> evbuffer_chains_all_empty (drop (Suc k') cs') \<and> (Suc (k - 1) = length cs \<longrightarrow> Suc k' = length cs')"
      by simp
    moreover have "sum_list (map off cs) - (n - off c) = sum_list (map off (c # cs)) - n" using True by simp
    ultimately show ?thesis using True k 2(2) by auto
  next
    case False
    then have "cdata (c\<lparr>misalign := misalign c + n, off := off c - n\<rparr>) = drop n (cdata c)"
      by (simp add: cdata_def drop_take add.commute)
    then show ?thesis using 2 False by (auto simp: chain_ok_def buffer_len_def)
  qed
qed simp

lemma drain_spec:
  assumes ok: "evb_ok buf"
  shows "contents buf \<noteq> [] \<and> freeze_start buf \<and> evbuffer_drain n buf = Some (- 1, buf)
    \<or> (contents buf = [] \<or> \<not> freeze_start buf)
       \<and> (\<exists>b. evbuffer_drain n buf = Some (0, b) \<and> evb_becomes buf b (drop n (contents buf)) \<and> (evb_tidy buf \<longrightarrow> evb_tidy b))"
proof -
  have len: "total_len buf = length (contents buf)" by (rule evb_ok_length [OF ok])
  consider (none) "contents buf = []" | (frozen) "contents buf \<noteq> []" "freeze_start buf"
    | (all) "contents buf \<noteq> []" "\<not> freeze_start buf" "n \<ge> total_len buf"
    | (some) "contents buf \<noteq> []" "\<not> freeze_start buf" "n < total_len buf" by linarith
  then show ?thesis
  proof cases
    case all
    then show ?thesis by (auto simp: evbuffer_drain_def len evb_becomes_def ZERO_CHAIN_def evb_ok_def evb_tidy_def contents_def)
  next
    case some
    then have "chains buf \<noteq> []" by (auto simp: contents_def)
    with ok some drain_loop_spec [of "chains buf" n "last_with_data buf"] obtain cs k where
      "drain_loop n (chains buf) (last_with_data buf) = Some (cs, k)" "list_all chain_ok cs" "chain_bytes cs = drop n (contents buf)"
      "sum_list (map off cs) = total_len buf - n" "k < length cs" "evbuffer_chains_all_empty (drop (Suc k) cs)"
      "Suc (last_with_data buf) = length (chains buf) \<Longrightarrow> Suc k = length cs"
      by (auto simp: evb_ok_def contents_def)
    then show ?thesis using some
      by (auto simp: evbuffer_drain_def len evb_becomes_def evb_ok_def evb_tidy_def contents_def)
  qed (simp_all add: evbuffer_drain_def len evb_becomes_def ok)
qed

lemma copyout_loop_spec:
  assumes "list_all chain_ok cs" "n \<le> sum_list (map off cs)"
  shows "copyout_loop n cs = Some (take n (chain_bytes cs))"
  using assms
proof (induction cs arbitrary: n)
  case (Cons c cs)
  then show ?case by (subst copyout_loop.simps) (simp add: take_append)
qed (simp add: copyout_loop.simps)

lemma copyout_spec:
  assumes ok: "evb_ok buf"
  shows "evbuffer_copyout n buf = (if n = 0 \<or> contents buf = [] then Some (0, []) else if freeze_start buf then Some (- 1, [])
     else Some (int (min n (length (contents buf))), take n (contents buf)))"
proof -
  have "copyout_loop (min n (total_len buf)) (chains buf) = Some (take n (contents buf))"
    using ok evb_ok_length [OF ok] copyout_loop_spec [of "chains buf" "min n (total_len buf)"]
    by (cases "n \<le> total_len buf") (simp_all add: evb_ok_def contents_def)
  with evb_ok_length [OF ok] show ?thesis
    by (auto simp: evbuffer_copyout_def Let_def min_def)
qed

lemma remove_spec:
  assumes ok: "evb_ok buf"
  shows "n \<noteq> 0 \<and> contents buf \<noteq> [] \<and> freeze_start buf \<and> evbuffer_remove n buf = Some (- 1, [], buf)
    \<or> (n = 0 \<or> contents buf = [] \<or> \<not> freeze_start buf)
       \<and> (\<exists>b. evbuffer_remove n buf = Some (int (min n (length (contents buf))), take n (contents buf), b)
            \<and> evb_becomes buf b (drop n (contents buf)) \<and> (evb_tidy buf \<longrightarrow> evb_tidy b))"
proof (cases "n = 0 \<or> contents buf = [] \<or> freeze_start buf")
  case True
  then show ?thesis using ok by (auto simp: evbuffer_remove_def copyout_spec [OF ok] evb_becomes_def)
next
  case False
  then have pos: "0 < int (min n (length (contents buf)))" by simp
  have "drop (min n (length (contents buf))) (contents buf) = drop n (contents buf)" by (simp add: min_def)
  with False pos drain_spec [OF ok, of "min n (length (contents buf))"] show ?thesis
    by (auto simp: evbuffer_remove_def copyout_spec [OF ok])
qed

section \<open>Sizes that overflow\<close>

lemma alloc_loop64_zero: "0 < sz \<Longrightarrow> alloc_loop64 0 sz = None"
proof -
  have "\<not> (t = 0 \<and> 0 < sz)" if "alloc_loop64 t sz = Some y" for t sz y
    by (rule alloc_loop64.raw_induct [OF _ that, where P = "\<lambda>t sz y. \<not> (t = 0 \<and> 0 < sz)"]) (auto split: if_splits)
  then show "0 < sz \<Longrightarrow> alloc_loop64 0 sz = None" by fastforce
qed

lemma alloc_loop64_doubles:
  assumes "\<And>k. k < 64 \<Longrightarrow> 2 ^ k < sz" "n \<le> 54"
  shows "alloc_loop64 1024 sz = alloc_loop64 (2 ^ (10 + n)) sz"
  using assms(2)
proof (induction n)
  case (Suc n)
  have "push_bit 1 (2 ^ (10 + n) :: UInt64) = 2 ^ (10 + Suc n)" by (simp only: push_bit_eq_mult) (simp only: add_Suc_right power_Suc, simp)
  then have "alloc_loop64 (2 ^ (10 + n)) sz = alloc_loop64 (2 ^ (10 + Suc n)) sz"
    by (subst alloc_loop64.simps) (use assms(1) [of "10 + n"] Suc.prems in simp)
  with Suc show ?case by simp
qed simp

text \<open>
  A size near the top of the range wraps around when the size of the chain is added, and the chain has 976 bytes; a size from
  half of the range on makes the doubling reach zero, and the loop does not end.
\<close>

lemma alloc_size_flaws: "alloc_size64 (- 48) = Some 976" "alloc_size64 0x8000000000000000 = None"
proof -
  show "alloc_size64 (- 48) = Some 976" by (simp add: alloc_size64_def alloc_loop64.simps)
  have lt: "(2 ^ k :: UInt64) < 0x8000000000000030" if "k < 64" for k
  proof -
    have "(2 :: nat) ^ k \<le> 2 ^ 63" using that by (intro power_increasing) auto
    moreover have "unat (2 ^ k :: UInt64) \<le> 2 ^ k" by (simp add: unsigned_of_nat [of "2 ^ k", where 'b = 64, simplified] take_bit_nat_less_eq_self)
    ultimately show ?thesis by (simp add: word_less_nat_alt)
  qed
  have "alloc_loop64 1024 0x8000000000000030 = alloc_loop64 (2 ^ (10 + 54)) 0x8000000000000030"
    by (rule alloc_loop64_doubles) (use lt in auto)
  also have "(2 ^ (10 + 54) :: UInt64) = 0" by simp
  finally show "alloc_size64 0x8000000000000000 = None" by (simp add: alloc_size64_def alloc_loop64_zero)
qed

end
