(* ===== verification/Ev_Buffer_Move.thy ===== *)
theory Ev_Buffer_Move
  imports Ev_Buffer
begin

text \<open>
  The operations of \<open>event/buffer.c\<close> that move chains instead of bytes: \<open>evbuffer_add_buffer\<close>,
  \<open>evbuffer_prepend_buffer\<close> and \<open>evbuffer_remove_buffer\<close> between two different buffers (with the same buffer twice they
  return 0 at once), and \<open>evbuffer_pullup\<close>, which makes the first bytes of a buffer contiguous. The lemmas show
  what they do to the bytes of the buffers, and the last section runs any sequence of operations against a list of bytes.
\<close>

section \<open>Buffer to buffer\<close>

definition COPY_CHAIN :: "evbuffer \<Rightarrow> evbuffer \<Rightarrow> evbuffer" where
  "COPY_CHAIN dst src = dst\<lparr>chains := chains src, last_with_data := last_with_data src, total_len := total_len src\<rparr>"

definition APPEND_CHAIN :: "evbuffer \<Rightarrow> evbuffer \<Rightarrow> evbuffer option" where
  "APPEND_CHAIN dst src =
    (if chains dst = [] then None
     else Some (dst\<lparr>chains := chains dst @ chains src, last_with_data := length (chains dst) + last_with_data src,
       total_len := total_len dst + total_len src\<rparr>))"

definition PREPEND_CHAIN :: "evbuffer \<Rightarrow> evbuffer \<Rightarrow> evbuffer option" where
  "PREPEND_CHAIN dst src =
    (if chains src = [] then None
     else Some (dst\<lparr>chains := chains src @ chains dst, total_len := total_len dst + total_len src,
       last_with_data := (if last_with_data dst \<ge> length (chains dst) then last_with_data src
                          else length (chains src) + last_with_data dst)\<rparr>))"

text \<open>The end that both share: \<open>inbuf\<close> is emptied, the bytes are counted and the callbacks invoked.\<close>

definition finish_move :: "evbuffer \<Rightarrow> evbuffer \<Rightarrow> int \<times> evbuffer \<times> evbuffer" where
  "finish_move outbuf inbuf =
    (0, evbuffer_invoke_callbacks (outbuf\<lparr>n_add_for_cb := n_add_for_cb outbuf + total_len inbuf\<rparr>),
     evbuffer_invoke_callbacks ((ZERO_CHAIN inbuf)\<lparr>n_del_for_cb := n_del_for_cb inbuf + total_len inbuf\<rparr>))"

definition evbuffer_add_buffer :: "evbuffer \<Rightarrow> evbuffer \<Rightarrow> (int \<times> evbuffer \<times> evbuffer) option" where
  "evbuffer_add_buffer outbuf inbuf =
    (if total_len inbuf = 0 then Some (0, outbuf, inbuf)
     else if freeze_end outbuf \<or> freeze_start inbuf then Some (- 1, outbuf, inbuf)
     else map_option (\<lambda>out. finish_move out inbuf)
       (if total_len outbuf = 0 then Some (COPY_CHAIN outbuf inbuf) else APPEND_CHAIN outbuf inbuf))"

definition evbuffer_prepend_buffer :: "evbuffer \<Rightarrow> evbuffer \<Rightarrow> (int \<times> evbuffer \<times> evbuffer) option" where
  "evbuffer_prepend_buffer outbuf inbuf =
    (if total_len inbuf = 0 then Some (0, outbuf, inbuf)
     else if freeze_start outbuf \<or> freeze_start inbuf then Some (- 1, outbuf, inbuf)
     else map_option (\<lambda>out. finish_move out inbuf)
       (if total_len outbuf = 0 then Some (COPY_CHAIN outbuf inbuf) else PREPEND_CHAIN outbuf inbuf))"

text \<open>
  The loop of \<open>evbuffer_remove_buffer\<close>: the chains that go, those that stay, the bytes still to take from the
  first of them, and the index of the last chain with data among those that stay. \<open>reset\<close> says that
  \<open>last_with_datap\<close> has been set to \<open>&src->first\<close>, where the loop still finds the old first chain.
\<close>

fun remove_chains :: "nat \<Rightarrow> evbuffer_chain list \<Rightarrow> nat \<Rightarrow> bool \<Rightarrow>
  (evbuffer_chain list \<times> evbuffer_chain list \<times> nat \<times> nat \<times> bool) option" where
  "remove_chains datlen [] k reset = None"
| "remove_chains datlen (c # cs) k reset =
    (if off c \<le> datlen
     then if k = 0 \<and> \<not> reset then None
          else map_option (\<lambda>(moved, rest). (c # moved, rest)) (remove_chains (datlen - off c) cs (k - 1) (reset \<or> k = 1))
     else Some ([], c # cs, datlen, k, reset))"

definition evbuffer_remove_buffer :: "nat option \<Rightarrow> evbuffer \<Rightarrow> evbuffer \<Rightarrow> nat \<Rightarrow> (int \<times> evbuffer \<times> evbuffer) option" where
  "evbuffer_remove_buffer new src dst datlen =
    (if datlen = 0 then Some (0, src, dst)
     else if freeze_end dst \<or> freeze_start src then Some (- 1, src, dst)
     else if datlen \<ge> total_len src
     then map_option (\<lambda>(_, dst', src'). (int (total_len src), src', dst')) (evbuffer_add_buffer dst src)
     else case remove_chains datlen (chains src) (last_with_data src) False of None \<Rightarrow> None
     | Some (moved, rest, left, k, reset) \<Rightarrow>
        (let nread = sum_list (map off moved);
             c = hd rest;
             rest' = c\<lparr>misalign := misalign c + left, off := off c - left\<rparr> # tl rest;
             src' = src\<lparr>chains := (if nread \<noteq> 0 then rest' else moved @ rest'),
                        last_with_data := (if nread \<noteq> 0 \<or> reset then k else k + length moved)\<rparr>
         in case (if nread = 0 then Some dst
                  else map_option (\<lambda>d. count_added nread (advance_last_with_data (d\<lparr>chains := chains d @ moved\<rparr>)))
                         (evbuffer_free_trailing_empty_chains dst)) of None \<Rightarrow> None
            | Some dst1 \<Rightarrow>
               map_option (\<lambda>(_, dst2).
                   (let total = nread + left;
                        src2 = src'\<lparr>total_len := total_len src' - total, n_del_for_cb := n_del_for_cb src' + total\<rparr>
                    in if total \<noteq> 0 then (int total, evbuffer_invoke_callbacks src2, evbuffer_invoke_callbacks dst2)
                       else (int total, src2, dst2)))
                 (evbuffer_add new (take left (cdata c)) dst1)))"

section \<open>Moving refines concatenation\<close>

lemma COPY_CHAIN_spec:
  assumes "evb_ok src"
  shows "evb_becomes dst (COPY_CHAIN dst src) (contents src)" "evb_tidy (COPY_CHAIN dst src) = evb_tidy src"
  using assms by (simp_all add: evb_becomes_def COPY_CHAIN_def evb_ok_def contents_def evb_tidy_def)

lemma APPEND_CHAIN_spec:
  assumes "evb_ok src" "evb_ok dst" "chains src \<noteq> []" "chains dst \<noteq> []"
  shows "\<exists>b. APPEND_CHAIN dst src = Some b \<and> evb_becomes dst b (contents dst @ contents src) \<and> (evb_tidy src \<longrightarrow> evb_tidy b)"
  using assms by (auto simp: evb_becomes_def APPEND_CHAIN_def evb_ok_def contents_def evb_tidy_def)

lemma PREPEND_CHAIN_spec:
  assumes "evb_ok src" "evb_ok dst" "chains src \<noteq> []" "chains dst \<noteq> []"
  shows "\<exists>b. PREPEND_CHAIN dst src = Some b \<and> evb_becomes dst b (contents src @ contents dst) \<and> (evb_tidy dst \<longrightarrow> evb_tidy b)"
  using assms by (auto simp: evb_becomes_def PREPEND_CHAIN_def evb_ok_def contents_def evb_tidy_def)

lemma evb_ok_nonempty: "evb_ok buf \<Longrightarrow> total_len buf \<noteq> 0 \<Longrightarrow> chains buf \<noteq> []"
  by (auto simp: evb_ok_def)

lemma evb_ok_empty: "evb_ok buf \<Longrightarrow> total_len buf = 0 \<longleftrightarrow> contents buf = []"
  by (simp add: evb_ok_length)

text \<open>A chain of \<open>finish_move\<close> behind a linked buffer \<open>out\<close>.\<close>

lemma finish_move_spec:
  assumes "evb_becomes outbuf out bs"
  shows "\<exists>o' i'. finish_move out inbuf = (0, o', i') \<and> evb_becomes outbuf o' bs \<and> evb_becomes inbuf i' []
     \<and> (evb_tidy out \<longrightarrow> evb_tidy o') \<and> evb_tidy i'"
  using assms by (simp add: finish_move_def evb_becomes_def evb_ok_def contents_def ZERO_CHAIN_def evb_tidy_def)

lemma add_buffer_spec:
  assumes i: "evb_ok inbuf" and o: "evb_ok outbuf" and nf: "contents inbuf = [] \<or> \<not> freeze_end outbuf \<and> \<not> freeze_start inbuf"
  shows "\<exists>o' i'. evbuffer_add_buffer outbuf inbuf = Some (0, o', i') \<and> evb_becomes outbuf o' (contents outbuf @ contents inbuf)
     \<and> evb_becomes inbuf i' [] \<and> (evb_tidy inbuf \<and> evb_tidy outbuf \<longrightarrow> evb_tidy o')"
proof (cases "total_len inbuf = 0")
  case True
  then show ?thesis using i o by (simp add: evbuffer_add_buffer_def evb_becomes_def evb_ok_empty)
next
  case False
  have "\<exists>b. (if total_len outbuf = 0 then Some (COPY_CHAIN outbuf inbuf) else APPEND_CHAIN outbuf inbuf) = Some b
     \<and> evb_becomes outbuf b (contents outbuf @ contents inbuf) \<and> (evb_tidy inbuf \<longrightarrow> evb_tidy b)"
    using APPEND_CHAIN_spec [OF i o] COPY_CHAIN_spec [OF i, of outbuf] evb_ok_nonempty [OF i False] evb_ok_nonempty [OF o] evb_ok_empty [OF o]
    by auto
  then obtain b where b: "(if total_len outbuf = 0 then Some (COPY_CHAIN outbuf inbuf) else APPEND_CHAIN outbuf inbuf) = Some b"
    "evb_becomes outbuf b (contents outbuf @ contents inbuf)" "evb_tidy inbuf \<longrightarrow> evb_tidy b" by blast
  from finish_move_spec [OF b(2), of inbuf] b(1,3) False nf evb_ok_empty [OF i] show ?thesis
    by (auto simp: evbuffer_add_buffer_def)
qed

lemma prepend_buffer_spec:
  assumes i: "evb_ok inbuf" and o: "evb_ok outbuf" and nf: "contents inbuf = [] \<or> \<not> freeze_start outbuf \<and> \<not> freeze_start inbuf"
  shows "\<exists>o' i'. evbuffer_prepend_buffer outbuf inbuf = Some (0, o', i') \<and> evb_becomes outbuf o' (contents inbuf @ contents outbuf)
     \<and> evb_becomes inbuf i' [] \<and> (evb_tidy inbuf \<and> evb_tidy outbuf \<longrightarrow> evb_tidy o')"
proof (cases "total_len inbuf = 0")
  case True
  then show ?thesis using i o by (simp add: evbuffer_prepend_buffer_def evb_becomes_def evb_ok_empty)
next
  case False
  have "\<exists>b. (if total_len outbuf = 0 then Some (COPY_CHAIN outbuf inbuf) else PREPEND_CHAIN outbuf inbuf) = Some b
     \<and> evb_becomes outbuf b (contents inbuf @ contents outbuf) \<and> (evb_tidy inbuf \<and> evb_tidy outbuf \<longrightarrow> evb_tidy b)"
    using PREPEND_CHAIN_spec [OF i o] COPY_CHAIN_spec [OF i, of outbuf] evb_ok_nonempty [OF i False] evb_ok_nonempty [OF o] evb_ok_empty [OF o]
    by auto
  then obtain b where b: "(if total_len outbuf = 0 then Some (COPY_CHAIN outbuf inbuf) else PREPEND_CHAIN outbuf inbuf) = Some b"
    "evb_becomes outbuf b (contents inbuf @ contents outbuf)" "evb_tidy inbuf \<and> evb_tidy outbuf \<longrightarrow> evb_tidy b" by blast
  from finish_move_spec [OF b(2), of inbuf] b(1,3) False nf evb_ok_empty [OF i] show ?thesis
    by (auto simp: evbuffer_prepend_buffer_def)
qed

text \<open>No chain in front of the last one with data is empty.\<close>

definition evb_dense :: "evbuffer \<Rightarrow> bool" where
  "evb_dense buf \<longleftrightarrow> list_all (\<lambda>c. off c \<noteq> 0) (take (last_with_data buf) (chains buf))"

lemma remove_chains_spec:
  assumes "list_all chain_ok cs" "n < sum_list (map off cs)" "evbuffer_chains_all_empty (drop (Suc k) cs)" "k < length cs"
    "list_all (\<lambda>c. off c \<noteq> 0) (take k cs)"
  shows "\<exists>moved c rest left reset. remove_chains n cs k r = Some (moved, c # rest, left, k - length moved, reset) \<and> cs = moved @ c # rest
     \<and> length moved \<le> k \<and> n = sum_list (map off moved) + left \<and> left < off c \<and> list_all (\<lambda>c. off c \<noteq> 0) moved"
  using assms
proof (induction n cs k r rule: remove_chains.induct)
  case (2 n c cs k r)
  show ?case
  proof (cases "off c \<le> n")
    case True
    have k: "k \<noteq> 0" using 2(3,4) True by (intro notI) simp
    then obtain k' where k': "k = Suc k'" by (cases k) auto
    have "n - off c < sum_list (map off cs)" using 2(3) True by simp
    with 2(1) 2(2,4,5,6) True k' obtain moved d rest left reset where
      "remove_chains (n - off c) cs k' (r \<or> k = 1) = Some (moved, d # rest, left, k' - length moved, reset)" "cs = moved @ d # rest"
      "length moved \<le> k'" "n - off c = sum_list (map off moved) + left" "left < off d" "list_all (\<lambda>c. off c \<noteq> 0) moved"
      by fastforce
    then show ?thesis using True k' 2(6) by (intro exI [of _ "c # moved"] exI [of _ d] exI [of _ rest] exI [of _ left] exI [of _ reset]) auto
  qed auto
qed simp

lemma takeWhile_nonempty [simp]: "list_all (\<lambda>c. off c \<noteq> 0) cs \<Longrightarrow> takeWhile (\<lambda>c. 0 < off c) cs = cs"
  by (simp add: takeWhile_eq_all_conv list_all_iff)

lemma move_to_end:
  assumes ok: "evb_ok dst" and m: "list_all chain_ok moved" "list_all (\<lambda>c. off c \<noteq> 0) moved" "moved \<noteq> []"
  shows "\<exists>d. evbuffer_free_trailing_empty_chains dst = Some d
     \<and> evb_becomes dst (count_added (sum_list (map off moved)) (advance_last_with_data (d\<lparr>chains := chains d @ moved\<rparr>))) (contents dst @ chain_bytes moved)
     \<and> evb_tidy (count_added (sum_list (map off moved)) (advance_last_with_data (d\<lparr>chains := chains d @ moved\<rparr>)))"
proof -
  obtain c cs where mc: "moved = c # cs" using m(3) by (cases moved) auto
  show ?thesis
  proof (cases "chains dst = []")
    case True
    with ok m mc show ?thesis
      by (simp add: evbuffer_free_trailing_empty_chains_def victims_def kept_chains_def evb_ok_def advance_last_with_data_def
          count_added_def evb_becomes_def evb_tidy_def contents_def)
  next
    case False
    obtain xs x rest where sp: "chains dst = xs @ x # rest" "last_with_data dst = length xs" "evbuffer_chains_all_empty rest"
      "list_all chain_ok xs" "chain_ok x" "list_all chain_ok rest"
      using evb_ok_split [OF ok False] by blast
    have tl: "total_len dst = sum_list (map off xs) + off x" using ok sp by (simp add: evb_ok_def)
    show ?thesis
      using sp tl m mc
      by (cases "off x = 0")
         (simp_all add: evbuffer_free_trailing_empty_chains_def victims_split [OF sp(1-3)] evb_ok_def advance_last_with_data_def
          count_added_def evb_becomes_def evb_tidy_def contents_def)
  qed
qed

lemma remove_buffer_spec:
  assumes s: "evb_ok src" "evb_dense src" and d: "evb_ok dst" "evb_tidy dst" and nf: "\<not> freeze_end dst" "\<not> freeze_start src"
  shows "\<exists>src' dst'. evbuffer_remove_buffer (Some a) src dst n = Some (int (min n (length (contents src))), src', dst')
     \<and> evb_becomes src src' (drop n (contents src)) \<and> evb_becomes dst dst' (contents dst @ take n (contents src))"
proof -
  note len = evb_ok_length [OF s(1)]
  consider "n = 0" | (all) "n \<noteq> 0" "n \<ge> total_len src" | (some) "n \<noteq> 0" "n < total_len src" by linarith
  then show ?thesis
  proof cases
    case 1
    then show ?thesis using s d by (simp add: evbuffer_remove_buffer_def evb_becomes_def)
  next
    case all
    with add_buffer_spec [OF s(1) d(1)] nf show ?thesis by (auto simp: evbuffer_remove_buffer_def len)
  next
    case some
    then have "chains src \<noteq> []" using s by (auto simp: evb_ok_def)
    with s some remove_chains_spec [of "chains src" n "last_with_data src" False] obtain moved c rest left reset where
      rc: "remove_chains n (chains src) (last_with_data src) False = Some (moved, c # rest, left, last_with_data src - length moved, reset)"
      and ch: "chains src = moved @ c # rest" and k: "length moved \<le> last_with_data src" and n: "n = sum_list (map off moved) + left"
      and left: "left < off c" and m: "list_all (\<lambda>c. off c \<noteq> 0) moved"
      by (auto simp: evb_ok_def evb_dense_def)
    have cok: "list_all chain_ok moved" "chain_ok c" "list_all chain_ok rest" using s(1) ch by (simp_all add: evb_ok_def)
    let ?nread = "sum_list (map off moved)"
    have nr: "?nread = 0 \<longleftrightarrow> moved = []" using m by (cases moved) auto
    have lm: "length (chain_bytes moved) = ?nread" by (rule length_chain_bytes [OF cok(1)])
    define c' where "c' = c\<lparr>misalign := misalign c + left, off := off c - left\<rparr>"
    have c': "chain_ok c'" "cdata c' = drop left (cdata c)" "off c' = off c - left"
      using cok left by (simp_all add: c'_def chain_ok_def cdata_def drop_take add.commute buffer_len_def)
    obtain dst1 where dst1: "(if ?nread = 0 then Some dst else map_option (\<lambda>d. count_added ?nread (advance_last_with_data (d\<lparr>chains := chains d @ moved\<rparr>)))
         (evbuffer_free_trailing_empty_chains dst)) = Some dst1"
      "evb_becomes dst dst1 (contents dst @ chain_bytes moved)" "evb_tidy dst1"
      using that [of dst] d move_to_end [OF d(1) cok(1) m] nr unfolding evb_becomes_def
      by (cases "moved = []") (fastforce, metis (no_types, lifting) option.simps(9))
    have "evb_ok dst1" "\<not> freeze_end dst1" using dst1 nf by (simp_all add: evb_becomes_def)
    with add_spec [of dst1 "Some a" "take left (cdata c)"] dst1 obtain dst2 where
      dst2: "evbuffer_add (Some a) (take left (cdata c)) dst1 = Some (0, dst2)"
      "evb_becomes dst1 dst2 (contents dst1 @ take left (cdata c))" by auto
    define src2 where "src2 = src\<lparr>chains := c' # rest, last_with_data := last_with_data src - length moved,
      total_len := total_len src - n, n_del_for_cb := n_del_for_cb src + n\<rparr>"
    have cs: "contents src = chain_bytes moved @ cdata c @ chain_bytes rest" by (simp add: contents_def ch)
    have src2: "evb_becomes src src2 (drop n (contents src))"
      using s(1) ch c' cok left n k lm
      by (auto simp: evb_becomes_def src2_def evb_ok_def contents_def Suc_diff_le drop_Cons')
    have dst2': "evb_becomes dst dst2 (contents dst @ take n (contents src))"
      using dst2(2) dst1(2) lm n left cok by (simp add: evb_becomes_def cs)
    have "evbuffer_remove_buffer (Some a) src dst n = Some (int n, evbuffer_invoke_callbacks src2, evbuffer_invoke_callbacks dst2)"
      using some nf rc nr dst1(1) dst2(1) n k
      by (cases "moved = []") (auto simp: evbuffer_remove_buffer_def Let_def src2_def c'_def simp del: sum_list_eq_0_iff)
    then show ?thesis using src2 dst2' some len by simp
  qed
qed

section \<open>Pulling up\<close>

text \<open>
  The copy loop of \<open>evbuffer_pullup\<close>: the bytes copied, the number of chains used up, and the chains left, of which the
  first loses the bytes copied from it.
\<close>

fun pull_loop :: "nat \<Rightarrow> evbuffer_chain list \<Rightarrow> bytes \<times> nat \<times> evbuffer_chain list" where
  "pull_loop n [] = ([], 0, [])"
| "pull_loop n (c # cs) =
    (if off c \<le> n then (case pull_loop (n - off c) cs of (bs, j, rest) \<Rightarrow> (cdata c @ bs, Suc j, rest))
     else (take n (cdata c), 0, c\<lparr>misalign := misalign c + n, off := off c - n\<rparr> # cs))"

text \<open>
  The new index of the last chain with data, where \<open>k\<close> is the old one, \<open>e\<close> the index of the first chain left and
  \<open>j\<close> the number of chains freed: it was freed itself, the link to it was freed, or neither.
\<close>

definition pulled_last :: "nat \<Rightarrow> nat \<Rightarrow> nat \<Rightarrow> evbuffer_chain list \<Rightarrow> nat" where
  "pulled_last k e j rest =
    (if k = 0 then 0 else if k < e then 0
     else if k = e \<and> 0 < j then (if rest \<noteq> [] \<and> off (hd rest) \<noteq> 0 then 1 else 0)
     else k - e + 1)"

text \<open>Pulling up \<open>n\<close> bytes that the first chain does not have: into its own free space, or into a new chain.\<close>

definition pull_into_first :: "nat \<Rightarrow> evbuffer_chain \<Rightarrow> evbuffer_chain list \<Rightarrow> evbuffer \<Rightarrow> (nat \<times> nat) option \<times> evbuffer" where
  "pull_into_first n c cs buf =
    (case pull_loop (n - off c) cs of (bs, j, rest) \<Rightarrow>
       (Some (caddr c, misalign c), buf\<lparr>chains := (store (misalign c + off c) bs c)\<lparr>off := n\<rparr> # rest,
          last_with_data := pulled_last (last_with_data buf) (Suc j) j rest\<rparr>))"

definition pull_into_new :: "nat \<Rightarrow> evbuffer_chain \<Rightarrow> evbuffer \<Rightarrow> (nat \<times> nat) option \<times> evbuffer" where
  "pull_into_new n tmp buf =
    (case pull_loop n (chains buf) of (bs, j, rest) \<Rightarrow>
       (Some (caddr tmp, misalign tmp), buf\<lparr>chains := (store 0 bs tmp)\<lparr>off := n\<rparr> # rest,
          last_with_data := pulled_last (last_with_data buf) j j rest\<rparr>))"

definition evbuffer_pullup :: "nat option \<Rightarrow> int \<Rightarrow> evbuffer \<Rightarrow> ((nat \<times> nat) option \<times> evbuffer) option" where
  "evbuffer_pullup new sz buf =
    (let n = (if sz < 0 then total_len buf else nat sz) in
     if n = 0 \<or> n > total_len buf then Some (None, buf)
     else case chains buf of [] \<Rightarrow> None
     | c # cs \<Rightarrow>
        if off c \<ge> n then Some (Some (caddr c, misalign c), buf)
        else if buffer_len c - misalign c \<ge> n then Some (pull_into_first n c cs buf)
        else (case evbuffer_chain_new new n of None \<Rightarrow> Some (None, buf)
              | Some tmp \<Rightarrow> Some (pull_into_new n tmp buf)))"

text \<open>What is left of \<open>cs\<close> when the chains before \<open>j\<close> are gone.\<close>

definition left_from :: "nat \<Rightarrow> evbuffer_chain list \<Rightarrow> evbuffer_chain list \<Rightarrow> bool" where
  "left_from j cs rest \<longleftrightarrow> rest = [] \<and> j = length cs
     \<or> j < length cs \<and> off (cs ! j) \<noteq> 0 \<and> (\<exists>c. rest = c # drop (Suc j) cs \<and> off c \<noteq> 0)"

lemma left_from_Cons [simp]: "left_from (Suc j) (c # cs) rest = left_from j cs rest"
  by (simp add: left_from_def)

lemma pull_loop_spec:
  assumes "list_all chain_ok cs" "n \<le> sum_list (map off cs)"
  shows "\<exists>j rest. pull_loop n cs = (take n (chain_bytes cs), j, rest) \<and> chain_bytes rest = drop n (chain_bytes cs)
     \<and> list_all chain_ok rest \<and> sum_list (map off rest) = sum_list (map off cs) - n \<and> left_from j cs rest
     \<and> (cs \<noteq> [] \<longrightarrow> off (hd cs) \<le> n \<longrightarrow> 0 < j)"
  using assms
proof (induction n cs rule: pull_loop.induct)
  case (2 n c cs)
  show ?case
  proof (cases "off c \<le> n")
    case True
    with 2 have "n - off c \<le> sum_list (map off cs)" by simp
    with 2 True show ?thesis by fastforce
  next
    case False
    then have "cdata (c\<lparr>misalign := misalign c + n, off := off c - n\<rparr>) = drop n (cdata c)"
      by (simp add: cdata_def drop_take add.commute)
    then show ?thesis using 2 False by (auto simp: chain_ok_def buffer_len_def left_from_def)
  qed
qed (simp add: left_from_def)

lemma pulled_last_spec:
  assumes k: "evbuffer_chains_all_empty (drop (Suc k) cs)" "k < length cs" and e: "0 < e" "left_from e cs rest"
  shows "evbuffer_chains_all_empty (drop (pulled_last k e j rest) rest)" "pulled_last k e j rest < Suc (length rest)"
    "Suc k = length cs \<Longrightarrow> pulled_last k e j rest = length rest"
proof -
  have "e \<le> k" if "off (cs ! e) \<noteq> 0" "e < length cs"
  proof (rule ccontr)
    assume "\<not> e \<le> k"
    then have "cs ! e \<in> set (drop (Suc k) cs)"
      using that by (auto simp: in_set_conv_nth intro!: exI [of _ "e - Suc k"])
    then show False using k(1) that by (auto simp: evbuffer_chains_all_empty_def list_all_iff)
  qed
  moreover have "drop (k - e) (drop (Suc e) cs) = drop (Suc k) cs" if "e \<le> k"
    using that by simp
  ultimately show "evbuffer_chains_all_empty (drop (pulled_last k e j rest) rest)" "pulled_last k e j rest < Suc (length rest)"
    "Suc k = length cs \<Longrightarrow> pulled_last k e j rest = length rest"
    using k e by (auto simp: left_from_def pulled_last_def)
qed

text \<open>A first chain with the bytes up to \<open>n\<close> in front of what is left.\<close>

lemma pulled_up:
  assumes ok: "evb_ok buf" and ne: "chains buf \<noteq> []" and e: "0 < e" "left_from e (chains buf) rest"
    and t: "chain_ok tmp" "cdata tmp @ chain_bytes rest = contents buf" "off tmp + sum_list (map off rest) = total_len buf" "list_all chain_ok rest"
    and b: "b = buf\<lparr>chains := tmp # rest, last_with_data := pulled_last (last_with_data buf) e j rest\<rparr>"
  shows "evb_becomes buf b (contents buf)" "evb_tidy buf \<Longrightarrow> evb_tidy b"
proof -
  have k: "evbuffer_chains_all_empty (drop (Suc (last_with_data buf)) (chains buf))" "last_with_data buf < length (chains buf)"
    using ok ne by (simp_all add: evb_ok_def)
  note p = pulled_last_spec [OF k e, of j]
  show "evb_becomes buf b (contents buf)" using p t by (auto simp: b evb_becomes_def evb_ok_def contents_def)
  show "evb_tidy b" if "evb_tidy buf" using p(3) that ne by (simp add: b evb_tidy_def)
qed

text \<open>The result of a pull-up: the bytes and the invariant stay, and the first \<open>n\<close> bytes are in the first chain.\<close>

definition pulled :: "evbuffer \<Rightarrow> nat \<Rightarrow> (nat \<times> nat) option \<times> evbuffer \<Rightarrow> bool" where
  "pulled buf n r \<longleftrightarrow> evb_becomes buf (snd r) (contents buf) \<and> (evb_tidy buf \<longrightarrow> evb_tidy (snd r)) \<and> chains (snd r) \<noteq> []
     \<and> fst r = Some (caddr (hd (chains (snd r))), misalign (hd (chains (snd r))))
     \<and> take n (cdata (hd (chains (snd r)))) = take n (contents buf)"

lemma pull_into_first_spec:
  assumes ok: "evb_ok buf" and ch: "chains buf = c # cs" and n: "off c < n" "n \<le> buffer_len c - misalign c" "n \<le> total_len buf"
  shows "pulled buf n (pull_into_first n c cs buf)"
proof -
  have cok: "chain_ok c" "list_all chain_ok cs" "total_len buf = off c + sum_list (map off cs)" using ok ch by (simp_all add: evb_ok_def)
  have cb: "contents buf = cdata c @ chain_bytes cs" by (simp add: contents_def ch)
  have "n - off c \<le> sum_list (map off cs)" using n cok by simp
  from pull_loop_spec [OF cok(2) this] obtain j rest where
    p: "pull_loop (n - off c) cs = (take (n - off c) (chain_bytes cs), j, rest)" "chain_bytes rest = drop (n - off c) (chain_bytes cs)"
    "list_all chain_ok rest" "sum_list (map off rest) = sum_list (map off cs) - (n - off c)" "left_from j cs rest" by blast
  define bs where "bs = take (n - off c) (chain_bytes cs)"
  have lb: "length bs = n - off c" using n cok by (simp add: bs_def length_chain_bytes)
  have ap: "(store (misalign c + off c) bs c)\<lparr>off := n\<rparr> = append_data bs c" using n lb by (simp add: append_data_def)
  have fit: "misalign c + off c + length bs \<le> buffer_len c" using n lb by auto
  have "cdata (append_data bs c) @ chain_bytes rest = contents buf" "off (append_data bs c) + sum_list (map off rest) = total_len buf"
    using fit p(2,4) cb lb n cok by (simp_all add: bs_def)
  note u = pulled_up [OF ok _ _ _ append_data_spec(2) [OF fit] this p(3) refl, of "Suc j" j]
  have "take n (contents buf) = cdata c @ bs" using cb cok n by (simp add: bs_def)
  moreover have "caddr (append_data bs c) = caddr c" by (simp add: append_data_def)
  ultimately show ?thesis using u n p(1,5) fit cok lb ch
    by (simp add: pulled_def pull_into_first_def ap flip: bs_def)
qed

lemma pull_into_new_spec:
  assumes ok: "evb_ok buf" and ne: "chains buf \<noteq> []" and n: "off (hd (chains buf)) < n" "n \<le> total_len buf"
    and t: "evbuffer_chain_new new n = Some tmp"
  shows "pulled buf n (pull_into_new n tmp buf)"
proof -
  note tmp = chain_new_spec [OF t] and len = evb_ok_length [OF ok]
  have "list_all chain_ok (chains buf)" "n \<le> sum_list (map off (chains buf))" using n ok by (simp_all add: evb_ok_def)
  from pull_loop_spec [OF this] n ne ok obtain j rest where
    p: "pull_loop n (chains buf) = (take n (contents buf), j, rest)" "chain_bytes rest = drop n (contents buf)"
    "list_all chain_ok rest" "sum_list (map off rest) = total_len buf - n" "left_from j (chains buf) rest" "0 < j"
    by (auto simp: contents_def evb_ok_def)
  define tmp1 where "tmp1 = (store 0 (take n (contents buf)) tmp)\<lparr>off := n\<rparr>"
  have t1: "chain_ok tmp1" "cdata tmp1 = take n (contents buf)" "off tmp1 = n" "misalign tmp1 = misalign tmp" "caddr tmp1 = caddr tmp"
    using tmp n len by (simp_all add: tmp1_def chain_ok_def cdata_def store_def buffer_len_def)
  have "cdata tmp1 @ chain_bytes rest = contents buf" "off tmp1 + sum_list (map off rest) = total_len buf"
    using t1 p n len by simp_all
  note u = pulled_up [OF ok ne p(6,5) t1(1) this p(3) refl, of j]
  with p(1) t1 show ?thesis by (simp add: pulled_def pull_into_new_def tmp1_def [symmetric])
qed

lemma pullup_spec:
  assumes ok: "evb_ok buf" and n: "0 < n" "n \<le> length (contents buf)" and sz: "(if sz < 0 then length (contents buf) else nat sz) = n"
  shows "\<exists>r. evbuffer_pullup (Some a) sz buf = Some r \<and> pulled buf n r"
proof -
  have len: "total_len buf = length (contents buf)" by (rule evb_ok_length [OF ok])
  from n len ok obtain c cs where ch: "chains buf = c # cs" by (cases "chains buf") (auto simp: evb_ok_def)
  have c: "chain_ok c" using ok ch by (simp add: evb_ok_def)
  obtain tmp where t: "evbuffer_chain_new (Some a) n = Some tmp" by (cases "evbuffer_chain_new (Some a) n") auto
  have eq: "evbuffer_pullup (Some a) sz buf = Some (if n \<le> off c then (Some (caddr c, misalign c), buf)
      else if n \<le> buffer_len c - misalign c then pull_into_first n c cs buf else pull_into_new n tmp buf)"
    unfolding evbuffer_pullup_def len sz Let_def using n ch t by simp
  consider "n \<le> off c" | "off c < n" "n \<le> buffer_len c - misalign c" | "off c < n" "\<not> n \<le> buffer_len c - misalign c"
    by linarith
  then show ?thesis
  proof cases
    case 1
    then have "pulled buf n (Some (caddr c, misalign c), buf)"
      using ok ch c by (simp add: pulled_def evb_becomes_def contents_def)
    then show ?thesis using 1 eq by simp
  next
    case 2
    then show ?thesis using pull_into_first_spec [OF ok ch] n len eq by simp
  next
    case 3
    then show ?thesis using pull_into_new_spec [OF ok _ _ _ t] n len ch eq by simp
  qed
qed

section \<open>A buffer is a list of bytes\<close>

datatype evb_op = Op_add bytes | Op_reference bytes | Op_prepend bytes | Op_drain nat | Op_remove nat | Op_copyout nat | Op_pullup int

text \<open>
  One operation of the buffer: the result, the bytes handed out (for a pull-up those at the returned address) and the buffer.
  The allocator returns the address \<open>a\<close>.
\<close>

fun evb_do :: "nat \<times> evb_op \<Rightarrow> evbuffer \<Rightarrow> (int \<times> bytes \<times> evbuffer) option" where
  "evb_do (a, Op_add bs) buf = map_option (\<lambda>(r, b). (r, [], b)) (evbuffer_add (Some a) bs buf)"
| "evb_do (a, Op_reference bs) buf = map_option (\<lambda>(r, b). (r, [], b)) (evbuffer_add_reference (Some a) bs buf)"
| "evb_do (a, Op_prepend bs) buf = map_option (\<lambda>(r, b). (r, [], b)) (evbuffer_prepend (Some a) bs buf)"
| "evb_do (a, Op_drain n) buf = map_option (\<lambda>(r, b). (r, [], b)) (evbuffer_drain n buf)"
| "evb_do (a, Op_remove n) buf = evbuffer_remove n buf"
| "evb_do (a, Op_copyout n) buf = map_option (\<lambda>(r, bs). (r, bs, buf)) (evbuffer_copyout n buf)"
| "evb_do (a, Op_pullup sz) buf =
    map_option (\<lambda>(p, b). case p of None \<Rightarrow> (- 1, [], b)
       | Some _ \<Rightarrow> (0, take (if sz < 0 then total_len buf else nat sz) (cdata (hd (chains b))), b)) (evbuffer_pullup (Some a) sz buf)"

text \<open>The same operation on a list of bytes.\<close>

fun bytes_do :: "nat \<times> evb_op \<Rightarrow> bytes \<Rightarrow> int \<times> bytes \<times> bytes" where
  "bytes_do (a, Op_add bs) s = (0, [], s @ bs)"
| "bytes_do (a, Op_reference bs) s = (0, [], s @ bs)"
| "bytes_do (a, Op_prepend bs) s = (0, [], bs @ s)"
| "bytes_do (a, Op_drain n) s = (0, [], drop n s)"
| "bytes_do (a, Op_remove n) s = (int (min n (length s)), take n s, drop n s)"
| "bytes_do (a, Op_copyout n) s = (int (min n (length s)), take n s, s)"
| "bytes_do (a, Op_pullup sz) s =
    (let n = (if sz < 0 then length s else nat sz) in if n = 0 \<or> n > length s then (- 1, [], s) else (0, take n s, s))"

text \<open>Data is added at the end only in non-empty pieces.\<close>

fun op_nonempty :: "nat \<times> evb_op \<Rightarrow> bool" where
  "op_nonempty (a, Op_add bs) = (bs \<noteq> [])"
| "op_nonempty (a, Op_reference bs) = (bs \<noteq> [])"
| "op_nonempty _ = True"

text \<open>Running a list of operations, with everything handed out.\<close>

fun run_ops :: "('o \<Rightarrow> 'b \<Rightarrow> (int \<times> bytes \<times> 'b) option) \<Rightarrow> 'o list \<Rightarrow> 'b \<Rightarrow> ((int \<times> bytes) list \<times> 'b) option" where
  "run_ops step [] b = Some ([], b)"
| "run_ops step (x # xs) b =
    (case step x b of None \<Rightarrow> None
     | Some (r, bs, b') \<Rightarrow> map_option (\<lambda>(out, b''). ((r, bs) # out, b'')) (run_ops step xs b'))"

locale byte_buffer =
  fixes step :: "'o \<Rightarrow> 'b \<Rightarrow> (int \<times> bytes \<times> 'b) option"
    and spec :: "'o \<Rightarrow> bytes \<Rightarrow> int \<times> bytes \<times> bytes"
    and bytes_of :: "'b \<Rightarrow> bytes"
    and inv :: "'b \<Rightarrow> bool"
    and allowed :: "'o \<Rightarrow> bool"
  assumes refines: "\<lbrakk>inv b; allowed x\<rbrakk> \<Longrightarrow>
    \<exists>b'. step x b = Some (fst (spec x (bytes_of b)), fst (snd (spec x (bytes_of b))), b')
      \<and> inv b' \<and> bytes_of b' = snd (snd (spec x (bytes_of b)))"
begin

lemma run_refines:
  assumes "inv b" "list_all allowed xs"
  shows "\<exists>out b' s'. run_ops step xs b = Some (out, b') \<and> run_ops (\<lambda>x s. Some (spec x s)) xs (bytes_of b) = Some (out, s')
     \<and> inv b' \<and> bytes_of b' = s'"
  using assms
proof (induction xs arbitrary: b)
  case (Cons x xs)
  from refines [of b x] Cons.prems obtain b' where
    st: "step x b = Some (fst (spec x (bytes_of b)), fst (snd (spec x (bytes_of b))), b')" "inv b'" "bytes_of b' = snd (snd (spec x (bytes_of b)))"
    by auto
  with Cons.IH [of b'] Cons.prems show ?case by (auto simp: case_prod_beta)
qed simp

end

definition evb_usable :: "evbuffer \<Rightarrow> bool" where
  "evb_usable buf \<longleftrightarrow> evb_ok buf \<and> evb_tidy buf \<and> \<not> freeze_start buf \<and> \<not> freeze_end buf"

lemma evb_usable_becomes:
  assumes "evb_usable buf" "evb_becomes buf b s" "evb_tidy b"
  shows "evb_usable b" "contents b = s"
  using assms by (simp_all add: evb_usable_def evb_becomes_def)

lemma evb_do_refines:
  assumes "evb_usable buf" "op_nonempty x"
  shows "\<exists>b. evb_do x buf = Some (fst (bytes_do x (contents buf)), fst (snd (bytes_do x (contents buf))), b)
     \<and> evb_usable b \<and> contents b = snd (snd (bytes_do x (contents buf)))"
proof -
  have u: "evb_ok buf" "evb_tidy buf" "\<not> freeze_start buf" "\<not> freeze_end buf" using assms(1) by (simp_all add: evb_usable_def)
  note b = evb_usable_becomes [OF assms(1)] and len = evb_ok_length [OF u(1)]
  obtain a y where x: "x = (a, y)" by (cases x)
  show ?thesis
  proof (cases y)
    case (Op_add bs)
    with add_spec [OF u(1,2), of "Some a" bs] u assms(2) x b show ?thesis by auto
  next
    case (Op_reference bs)
    with add_reference_spec [OF u(1,2), of "Some a" bs] u assms(2) x b show ?thesis by auto
  next
    case (Op_prepend bs)
    with prepend_spec [OF u(1), of "Some a" bs] u x b show ?thesis by auto
  next
    case (Op_drain n)
    with drain_spec [OF u(1), of n] u x b show ?thesis by auto
  next
    case (Op_remove n)
    with remove_spec [OF u(1), of n] u x b show ?thesis by auto
  next
    case (Op_copyout n)
    then show ?thesis using x assms(1) u by (simp add: copyout_spec)
  next
    case (Op_pullup sz)
    define n where "n = (if sz < 0 then length (contents buf) else nat sz)"
    show ?thesis
    proof (cases "n = 0 \<or> length (contents buf) < n")
      case True
      then have "evbuffer_pullup (Some a) sz buf = Some (None, buf)"
        unfolding evbuffer_pullup_def len n_def [symmetric] Let_def by simp
      moreover have "bytes_do x (contents buf) = (- 1, [], contents buf)"
        unfolding x Op_pullup bytes_do.simps n_def [symmetric] Let_def using True by simp
      ultimately show ?thesis using Op_pullup x assms(1) by simp
    next
      case False
      with pullup_spec [OF u(1) _ _ n_def [symmetric], of a] obtain r where
        r: "evbuffer_pullup (Some a) sz buf = Some r" "pulled buf n r" by auto
      moreover have "bytes_do x (contents buf) = (0, take n (contents buf), contents buf)"
        unfolding x Op_pullup bytes_do.simps n_def [symmetric] Let_def using False by simp
      moreover have "evb_do x buf = map_option (\<lambda>(p, b). case p of None \<Rightarrow> (- 1, [], b) | Some _ \<Rightarrow> (0, take n (cdata (hd (chains b))), b)) (Some r)"
        unfolding x Op_pullup evb_do.simps r(1) len n_def ..
      ultimately show ?thesis using u b by (cases r) (auto simp: pulled_def)
    qed
  qed
qed

interpretation evb: byte_buffer evb_do bytes_do contents evb_usable op_nonempty
  by unfold_locales (rule evb_do_refines)



text \<open>
  Moving a whole buffer to the end or to the front of another, or its first bytes to the end of another, moves exactly these bytes
  without changing their order: whatever leaves one buffer arrives in the other, although chains are relinked and only the
  bytes of the last, divided chain are copied.
\<close>

theorem evbuffer_moves_bytes:
  assumes "evb_ok src" "evb_dense src" "evb_ok dst" "evb_tidy dst" "\<not> freeze_end dst" "\<not> freeze_start src" "\<not> freeze_start dst"
  shows "(\<exists>dst' src'. evbuffer_add_buffer dst src = Some (0, dst', src') \<and> evb_becomes dst dst' (contents dst @ contents src) \<and> evb_becomes src src' [])
    \<and> (\<exists>dst' src'. evbuffer_prepend_buffer dst src = Some (0, dst', src') \<and> evb_becomes dst dst' (contents src @ contents dst) \<and> evb_becomes src src' [])
    \<and> (\<exists>src' dst'. evbuffer_remove_buffer (Some a) src dst n = Some (int (min n (length (contents src))), src', dst')
         \<and> evb_becomes src src' (drop n (contents src)) \<and> evb_becomes dst dst' (contents dst @ take n (contents src)))"
  using add_buffer_spec [OF assms(1,3)] prepend_buffer_spec [OF assms(1,3)] remove_buffer_spec [OF assms(1,2,3,4,5,6)] assms by blast

definition two_pieces :: evbuffer where
  "two_pieces = evbuffer_new\<lparr>chains := [\<lparr>caddr = 1, cbuffer = [1, 2], misalign = 0, off = 2, immutable = True\<rparr>,
     \<lparr>caddr = 2, cbuffer = [3, 4, 5], misalign = 0, off = 3, immutable = True\<rparr>], last_with_data := 1, total_len := 5\<rparr>"

theorem evbuffer_moves_bytes_witness:
  "evb_ok two_pieces \<and> evb_dense two_pieces \<and> evb_tidy evbuffer_new \<and> \<not> freeze_start two_pieces
   \<and> (\<exists>src dst. evbuffer_remove_buffer (Some 3) two_pieces evbuffer_new 3 = Some (3, src, dst) \<and> contents src = [4, 5] \<and> contents dst = [1, 2, 3])"
proof -
  have h: "evb_ok two_pieces" "evb_dense two_pieces" "\<not> freeze_end evbuffer_new" "\<not> freeze_start two_pieces" "\<not> freeze_start evbuffer_new"
    "contents two_pieces = [1, 2, 3, 4, 5]"
    by (simp_all add: two_pieces_def evb_ok_def evb_dense_def chain_ok_def buffer_len_def contents_def cdata_def evbuffer_new_def)
  from evbuffer_moves_bytes [OF h(1,2) evb_ok_new(1,2) h(3-5), of 3 3] h show ?thesis
    by (auto simp: evb_becomes_def)
qed

end
