(* ===== verification/Ev_Buffer_Search.thy ===== *)
theory Ev_Buffer_Search
  imports Ev_Buffer_Move
begin

text \<open>
  Positions in a buffer (\<open>struct evbuffer_ptr\<close>), searching and reading lines, of \<open>event/buffer.c\<close>. The chain of a position is
  its index, \<open>None\<close> for the null pointer. The lemmas show that the chains are scanned as one string of bytes: a search
  finds the first occurrence, and a line is what stands in front of the first end of line.
\<close>

section \<open>Bytes\<close>

fun memchr :: "UInt8 \<Rightarrow> bytes \<Rightarrow> nat option" where
  "memchr x [] = None"
| "memchr x (y # ys) = (if x = y then Some 0 else map_option Suc (memchr x ys))"

text \<open>\<open>memcmp\<close>, of which only the sign is used.\<close>

fun memcmp :: "bytes \<Rightarrow> bytes \<Rightarrow> int" where
  "memcmp (x # xs) (y # ys) = (if x = y then memcmp xs ys else uint x - uint y)"
| "memcmp _ _ = 0"

definition CR :: UInt8 where "CR = 13"

definition LF :: UInt8 where "LF = 10"

section \<open>Positions\<close>

record evbuffer_ptr =
  pos :: int
  pchain :: "nat option"
  pos_in_chain :: nat

datatype evbuffer_ptr_how = EVBUFFER_PTR_SET | EVBUFFER_PTR_ADD

text \<open>The chains from a position on.\<close>

definition from_ptr :: "evbuffer \<Rightarrow> evbuffer_ptr \<Rightarrow> evbuffer_chain list" where
  "from_ptr buf it = (case pchain it of None \<Rightarrow> [] | Some i \<Rightarrow> drop i (chains buf))"

definition ptr_start :: "evbuffer \<Rightarrow> evbuffer_ptr" where
  "ptr_start buf = \<lparr>pos = 0, pchain = (if chains buf = [] then None else Some 0), pos_in_chain = 0\<rparr>"

definition chain_index :: "evbuffer_ptr \<Rightarrow> nat" where
  "chain_index it = (case pchain it of None \<Rightarrow> 0 | Some i \<Rightarrow> i)"

text \<open>The loop of \<open>evbuffer_ptr_set\<close>: the chain with the position and the position in it.\<close>

fun ptr_set_loop :: "evbuffer_chain list \<Rightarrow> nat \<Rightarrow> nat \<Rightarrow> nat \<Rightarrow> (nat \<times> nat) option" where
  "ptr_set_loop [] i position left = None"
| "ptr_set_loop (c # cs) i position left =
    (if position + left \<ge> off c then ptr_set_loop cs (Suc i) 0 (left - (off c - position)) else Some (i, position + left))"

definition evbuffer_ptr_set :: "evbuffer \<Rightarrow> evbuffer_ptr \<Rightarrow> nat \<Rightarrow> evbuffer_ptr_how \<Rightarrow> int \<times> evbuffer_ptr" where
  "evbuffer_ptr_set buf it position how =
    (let start = (case how of EVBUFFER_PTR_SET \<Rightarrow> (ptr_start buf)\<lparr>pos := int position\<rparr>
                  | EVBUFFER_PTR_ADD \<Rightarrow> it\<lparr>pos := pos it + int position\<rparr>)
     in case ptr_set_loop (from_ptr buf start) (chain_index start) (pos_in_chain start) position of
          None \<Rightarrow> (- 1, it\<lparr>pos := - 1, pchain := None\<rparr>)
        | Some (i, p) \<Rightarrow> (0, start\<lparr>pchain := Some i, pos_in_chain := p\<rparr>))"

text \<open>\<open>evbuffer_ptr_memcmp\<close>, and its loop over the chains from the position on.\<close>

fun ptr_memcmp_loop :: "evbuffer_chain list \<Rightarrow> nat \<Rightarrow> bytes \<Rightarrow> int" where
  "ptr_memcmp_loop [] position mem = 0"
| "ptr_memcmp_loop (c # cs) position mem =
    (if mem = [] then 0
     else let n = (if length mem + position > off c then off c - position else length mem);
              r = memcmp (take n (drop position (cdata c))) (take n mem)
          in if r \<noteq> 0 then r else ptr_memcmp_loop cs 0 (drop n mem))"

definition evbuffer_ptr_memcmp :: "evbuffer \<Rightarrow> evbuffer_ptr \<Rightarrow> bytes \<Rightarrow> int" where
  "evbuffer_ptr_memcmp buf it mem =
    (if pos it + int (length mem) > int (total_len buf) then - 1
     else ptr_memcmp_loop (from_ptr buf it) (pos_in_chain it) mem)"

definition evbuffer_getchr :: "evbuffer \<Rightarrow> evbuffer_ptr \<Rightarrow> UInt8" where
  "evbuffer_getchr buf it = cdata (chains buf ! chain_index it) ! pos_in_chain it"

section \<open>Searching\<close>

definition not_found :: evbuffer_ptr where
  "not_found = \<lparr>pos = - 1, pchain = None, pos_in_chain = 0\<rparr>"

lemma memchr_Some: "memchr x bs = Some p \<Longrightarrow> p < length bs \<and> bs ! p = x \<and> x \<notin> set (take p bs)"
  by (induction bs arbitrary: p) (auto split: if_splits)

lemma memchr_None: "memchr x bs = None \<longleftrightarrow> x \<notin> set bs"
  by (induction bs) auto

text \<open>
  The loop of \<open>evbuffer_search_range\<close>: \<open>i\<close> is the index of the first chain of the list, \<open>pic\<close> and \<open>p\<close> the position in it and
  in the buffer. (The code leaves the position in the chain where it is when nothing is found.)
\<close>

function search_loop :: "evbuffer \<Rightarrow> bytes \<Rightarrow> evbuffer_ptr option \<Rightarrow> evbuffer_chain list \<Rightarrow> nat \<Rightarrow> nat \<Rightarrow> int \<Rightarrow> evbuffer_ptr" where
  "search_loop buf what end_at [] i pic p = not_found"
| "search_loop buf what end_at (c # cs) i pic p =
    (case memchr (hd what) (drop pic (cdata c)) of
       Some k \<Rightarrow>
         (let it = \<lparr>pos = p + int k, pchain = Some i, pos_in_chain = pic + k\<rparr> in
          if evbuffer_ptr_memcmp buf it what = 0
          then (case end_at of Some e \<Rightarrow> if pos it + int (length what) > pos e then not_found else it | None \<Rightarrow> it)
          else if Suc (pic + k) = off c then search_loop buf what end_at cs (Suc i) 0 (p + int k + 1)
          else search_loop buf what end_at (c # cs) i (Suc (pic + k)) (p + int k + 1))
     | None \<Rightarrow>
         if (case end_at of Some e \<Rightarrow> pchain e = Some i | None \<Rightarrow> False) then not_found
         else search_loop buf what end_at cs (Suc i) 0 (p + int (off c - pic)))"
  by pat_completeness auto
termination
  by (relation "measures [\<lambda>(buf, what, e, cs, i, pic, p). length cs, \<lambda>(buf, what, e, cs, i, pic, p). length (cdata (hd cs)) - pic]")
     (auto dest!: memchr_Some)

declare search_loop.simps(2) [simp del]

definition evbuffer_search_range :: "evbuffer \<Rightarrow> bytes \<Rightarrow> evbuffer_ptr option \<Rightarrow> evbuffer_ptr option \<Rightarrow> evbuffer_ptr" where
  "evbuffer_search_range buf what start end_at =
    (let it = (case start of Some s \<Rightarrow> s | None \<Rightarrow> ptr_start buf) in
     if what = [] then it
     else search_loop buf what end_at (from_ptr buf it) (chain_index it) (pos_in_chain it) (pos it))"

definition evbuffer_search :: "evbuffer \<Rightarrow> bytes \<Rightarrow> evbuffer_ptr option \<Rightarrow> evbuffer_ptr" where
  "evbuffer_search buf what start = evbuffer_search_range buf what start None"

text \<open>The address that \<open>evbuffer_find\<close> returns.\<close>

definition evbuffer_find :: "nat option \<Rightarrow> evbuffer \<Rightarrow> bytes \<Rightarrow> ((nat \<times> nat) option \<times> evbuffer) option" where
  "evbuffer_find new buf what =
    (let it = evbuffer_search buf what None in
     if pos it < 0 then Some (None, buf)
     else map_option (\<lambda>(p, b). (map_option (\<lambda>(a, m). (a, m + nat (pos it))) p, b)) (evbuffer_pullup new (pos it + int (length what)) buf))"

section \<open>Ends of lines\<close>

datatype evbuffer_eol_style = EVBUFFER_EOL_ANY | EVBUFFER_EOL_CRLF | EVBUFFER_EOL_CRLF_STRICT | EVBUFFER_EOL_LF

text \<open>The first carriage return or line feed, looked for in chunks of 128 bytes.\<close>

function find_eol_char :: "bytes \<Rightarrow> nat option" where
  "find_eol_char s =
    (if s = [] then None
     else let chunk = take 128 s; cr = memchr CR chunk; lf = memchr LF chunk
          in case cr of
               Some i \<Rightarrow> (case lf of Some j \<Rightarrow> Some (if j < i then j else i) | None \<Rightarrow> Some i)
             | None \<Rightarrow> (case lf of Some j \<Rightarrow> Some j | None \<Rightarrow> map_option ((+) 128) (find_eol_char (drop 128 s))))"
  by pat_completeness auto
termination
  by (relation "measure length") auto

declare find_eol_char.simps [simp del]

text \<open>\<open>evbuffer_strchr\<close> and \<open>evbuffer_find_eol_char\<close> walk over the chains alike.\<close>

fun scan_chains :: "(bytes \<Rightarrow> nat option) \<Rightarrow> evbuffer_chain list \<Rightarrow> nat \<Rightarrow> nat \<Rightarrow> int \<Rightarrow> evbuffer_ptr option" where
  "scan_chains look [] i pic p = None"
| "scan_chains look (c # cs) i pic p =
    (case look (drop pic (cdata c)) of
       Some k \<Rightarrow> Some \<lparr>pos = p + int k, pchain = Some i, pos_in_chain = pic + k\<rparr>
     | None \<Rightarrow> scan_chains look cs (Suc i) 0 (p + int (off c - pic)))"

definition evbuffer_strchr :: "evbuffer \<Rightarrow> evbuffer_ptr \<Rightarrow> UInt8 \<Rightarrow> evbuffer_ptr option" where
  "evbuffer_strchr buf it chr = scan_chains (memchr chr) (from_ptr buf it) (chain_index it) (pos_in_chain it) (pos it)"

definition evbuffer_find_eol_char :: "evbuffer \<Rightarrow> evbuffer_ptr \<Rightarrow> evbuffer_ptr option" where
  "evbuffer_find_eol_char buf it = scan_chains find_eol_char (from_ptr buf it) (chain_index it) (pos_in_chain it) (pos it)"

text \<open>The count that \<open>evbuffer_strspn\<close> returns.\<close>

fun strspn_loop :: "UInt8 set \<Rightarrow> evbuffer_chain list \<Rightarrow> nat \<Rightarrow> nat" where
  "strspn_loop chrset [] i = 0"
| "strspn_loop chrset (c # cs) i =
    (let run = length (takeWhile (\<lambda>b. b \<in> chrset) (drop i (cdata c)))
     in if i + run < off c then run else run + strspn_loop chrset cs 0)"

definition evbuffer_strspn :: "evbuffer \<Rightarrow> evbuffer_ptr \<Rightarrow> UInt8 set \<Rightarrow> int" where
  "evbuffer_strspn buf it chrset =
    (if pchain it = None then - 1 else int (strspn_loop chrset (from_ptr buf it) (pos_in_chain it)))"

text \<open>The loop of the style \<open>EVBUFFER_EOL_CRLF\<close>: the position and the length of the end of line, inside \<open>Some\<close>.\<close>

partial_function (option) crlf_loop :: "evbuffer \<Rightarrow> evbuffer_ptr \<Rightarrow> (evbuffer_ptr \<times> nat) option option" where
  "crlf_loop buf it =
    (case evbuffer_find_eol_char buf it of None \<Rightarrow> Some None
     | Some it1 \<Rightarrow>
        if evbuffer_getchr buf it1 = LF then Some (Some (it1, 1))
        else if evbuffer_ptr_memcmp buf it1 [CR, LF] = 0 then Some (Some (it1, 2))
        else (case evbuffer_ptr_set buf it1 1 EVBUFFER_PTR_ADD of (r, it2) \<Rightarrow> if r < 0 then Some None else crlf_loop buf it2))"

definition evbuffer_search_eol :: "evbuffer \<Rightarrow> evbuffer_ptr option \<Rightarrow> evbuffer_eol_style \<Rightarrow> (evbuffer_ptr \<times> nat) option option" where
  "evbuffer_search_eol buf start eol_style =
    (let it = (case start of Some s \<Rightarrow> s | None \<Rightarrow> ptr_start buf) in
     case eol_style of
       EVBUFFER_EOL_ANY \<Rightarrow> Some (map_option (\<lambda>it1. (it1, nat (evbuffer_strspn buf it1 {CR, LF}))) (evbuffer_find_eol_char buf it))
     | EVBUFFER_EOL_CRLF_STRICT \<Rightarrow> (let it1 = evbuffer_search buf [CR, LF] (Some it) in Some (if pos it1 < 0 then None else Some (it1, 2)))
     | EVBUFFER_EOL_CRLF \<Rightarrow> crlf_loop buf it
     | EVBUFFER_EOL_LF \<Rightarrow> Some (map_option (\<lambda>it1. (it1, 1)) (evbuffer_strchr buf it LF)))"

text \<open>
  The line, \<open>None\<close> for a null pointer, and the buffer. \<open>mem\<close> says whether the line can be allocated. The inner calls
  \<open>evbuffer_remove\<close> and \<open>evbuffer_drain\<close> cannot fail here, and their results are not looked at.
\<close>

definition evbuffer_readln :: "bool \<Rightarrow> evbuffer \<Rightarrow> evbuffer_eol_style \<Rightarrow> (bytes option \<times> evbuffer) option" where
  "evbuffer_readln mem buf eol_style =
    (if freeze_start buf then Some (None, buf)
     else case evbuffer_search_eol buf None eol_style of None \<Rightarrow> None
     | Some None \<Rightarrow> Some (None, buf)
     | Some (Some (it, extra_drain)) \<Rightarrow>
        if \<not> mem then Some (None, buf)
        else case evbuffer_remove (nat (pos it)) buf of None \<Rightarrow> None
        | Some (_, line, b) \<Rightarrow> map_option (\<lambda>(_, b'). (Some line, b')) (evbuffer_drain extra_drain b))"

definition evbuffer_readline :: "bool \<Rightarrow> evbuffer \<Rightarrow> (bytes option \<times> evbuffer) option" where
  "evbuffer_readline mem buf = evbuffer_readln mem buf EVBUFFER_EOL_ANY"

section \<open>The chains are scanned as one string\<close>

fun find_sub :: "bytes \<Rightarrow> bytes \<Rightarrow> nat option" where
  "find_sub what [] = (if what = [] then Some 0 else None)"
| "find_sub what (b # bs) = (if take (length what) (b # bs) = what then Some 0 else map_option Suc (find_sub what bs))"

lemma memcmp_eq: "length xs = length ys \<Longrightarrow> memcmp xs ys = 0 \<longleftrightarrow> xs = ys"
  by (induction xs ys rule: memcmp.induct) (auto simp: word_uint_eq_iff)

lemma memcmp_loop_empty [simp]: "ptr_memcmp_loop cs i [] = 0"
  by (cases cs) auto

lemma ptr_memcmp_loop_eq:
  assumes "list_all chain_ok cs" "cs \<noteq> [] \<Longrightarrow> position \<le> off (hd cs)" "length mem \<le> length (drop position (chain_bytes cs))"
  shows "ptr_memcmp_loop cs position mem = 0 \<longleftrightarrow> take (length mem) (drop position (chain_bytes cs)) = mem"
  using assms
proof (induction cs position mem rule: ptr_memcmp_loop.induct)
  case (2 c cs position mem)
  show ?case
  proof (cases "mem = []")
    case False
    let ?d = "drop position (cdata c)"
    have d: "length ?d = off c - position" "position \<le> off c" "drop position (chain_bytes (c # cs)) = ?d @ chain_bytes cs"
      using 2(2,3) by auto
    define n where "n = (if length mem + position > off c then off c - position else length mem)"
    define r where "r = memcmp (take n ?d) (take n mem)"
    have n: "n \<le> length ?d" "n \<le> length mem" using d by (auto simp: n_def)
    have r: "r = 0 \<longleftrightarrow> take n ?d = take n mem" unfolding r_def by (rule memcmp_eq) (use n in simp)
    have ih: "ptr_memcmp_loop cs 0 (drop n mem) = 0 \<longleftrightarrow> take (length mem - n) (chain_bytes cs) = drop n mem" if "r = 0"
      using 2(1) [OF False n_def r_def] that 2(2,4) d n by (auto simp: n_def)
    have loop: "ptr_memcmp_loop (c # cs) position mem = (if r \<noteq> 0 then r else ptr_memcmp_loop cs 0 (drop n mem))"
      using False by (simp add: n_def r_def Let_def)
    have tk: "take (length mem) (?d @ chain_bytes cs) = take n ?d @ take (length mem - n) (chain_bytes cs)"
      using d by (auto simp: n_def)
    have "length (take n ?d) = n" using n by simp
    then have "take (length mem) (?d @ chain_bytes cs) = mem \<longleftrightarrow> r = 0 \<and> take (length mem - n) (chain_bytes cs) = drop n mem"
      unfolding tk r append_eq_conv_conj by (simp only: refl)
    then show ?thesis unfolding loop d(3) using ih by auto
  qed auto
qed auto

lemma find_sub_skip:
  "\<lbrakk>hd what \<notin> set (take k s); k \<le> length s; what \<noteq> []\<rbrakk> \<Longrightarrow> find_sub what s = map_option ((+) k) (find_sub what (drop k s))"
proof (induction s arbitrary: k)
  case (Cons b s)
  then show ?case
    by (cases k; cases what) (auto simp: option.map_comp comp_def option.map_ident)
qed (simp add: option.map_ident)

text \<open>A position that lies where its chain says; \<open>ptr_at\<close> gives the chains before and from its chain on.\<close>

definition ptr_at :: "evbuffer \<Rightarrow> evbuffer_ptr \<Rightarrow> evbuffer_chain list \<Rightarrow> evbuffer_chain list \<Rightarrow> bool" where
  "ptr_at buf it pre cs \<longleftrightarrow> chains buf = pre @ cs \<and> cs \<noteq> [] \<and> pchain it = Some (length pre)
     \<and> pos_in_chain it \<le> off (hd cs) \<and> pos it = int (length (chain_bytes pre) + pos_in_chain it)"

lemma ptr_atD:
  assumes "ptr_at buf it pre cs" "evb_ok buf"
  shows "from_ptr buf it = cs" "chain_index it = length pre" "list_all chain_ok cs"
    "drop (nat (pos it)) (contents buf) = drop (pos_in_chain it) (chain_bytes cs)" "0 \<le> pos it"
    "total_len buf = length (chain_bytes pre) + length (chain_bytes cs)"
    "pos_in_chain it \<le> length (chain_bytes cs)"
  using assms evb_ok_length [OF assms(2)]
  by (cases cs; simp add: ptr_at_def from_ptr_def chain_index_def evb_ok_def contents_def nat_int_add)+

lemma ptr_memcmp_eq:
  assumes "ptr_at buf it pre cs" "evb_ok buf"
  shows "evbuffer_ptr_memcmp buf it mem = 0 \<longleftrightarrow> take (length mem) (drop (pos_in_chain it) (chain_bytes cs)) = mem"
proof (cases "pos it + int (length mem) > int (total_len buf)")
  case True
  then have "length (drop (pos_in_chain it) (chain_bytes cs)) < length mem"
    using ptr_atD(6,7) [OF assms] assms(1) by (auto simp: ptr_at_def)
  then have "take (length mem) (drop (pos_in_chain it) (chain_bytes cs)) \<noteq> mem" by (metis length_take min.strict_order_iff nat_neq_iff)
  with True show ?thesis by (simp add: evbuffer_ptr_memcmp_def)
next
  case False
  then have "length mem \<le> length (drop (pos_in_chain it) (chain_bytes cs))"
    using ptr_atD(6) [OF assms] assms(1) by (auto simp: ptr_at_def)
  with False ptr_atD [OF assms] assms(1) ptr_memcmp_loop_eq [of cs "pos_in_chain it" mem] show ?thesis
    by (simp add: evbuffer_ptr_memcmp_def ptr_at_def)
qed

lemma search_loop_spec:
  assumes "evb_ok buf" "chains buf = pre @ cs" "i = length pre" "cs \<noteq> [] \<Longrightarrow> pic \<le> off (hd cs)"
    "p = int (length (chain_bytes pre) + pic)" "what \<noteq> []" "e = None"
  shows "pos (search_loop buf what e cs i pic p) = (case find_sub what (drop pic (chain_bytes cs)) of None \<Rightarrow> - 1 | Some n \<Rightarrow> p + int n)"
  using assms
proof (induction buf what e cs i pic p arbitrary: pre rule: search_loop.induct)
  case (1 buf what e i pic p)
  then show ?case by (simp add: not_found_def)
next
  case (2 buf what e c cs i pic p)
  note [simp] = 2(10)
  have c: "chain_ok c" "list_all chain_ok cs" using 2(4,5) by (simp_all add: evb_ok_def)
  have pic: "pic \<le> off c" using 2(7) by simp
  let ?d = "drop pic (cdata c)"
  have d: "length ?d = off c - pic" "drop pic (chain_bytes (c # cs)) = ?d @ chain_bytes cs" using c pic by simp_all
  show ?case
  proof (cases "memchr (hd what) ?d")
    case None
    then have "find_sub what (?d @ chain_bytes cs) = map_option ((+) (off c - pic)) (find_sub what (chain_bytes cs))"
      using find_sub_skip [of what "off c - pic" "?d @ chain_bytes cs"] d 2(9) by (simp add: memchr_None)
    moreover have "pos (search_loop buf what e cs (Suc i) 0 (p + int (off c - pic))) =
       (case find_sub what (drop 0 (chain_bytes cs)) of None \<Rightarrow> - 1 | Some n \<Rightarrow> p + int (off c - pic) + int n)"
      by (rule 2(1) [OF None _ 2(4), of "pre @ [c]"]) (use 2 c pic in auto)
    ultimately show ?thesis using None unfolding d(2) by (simp add: search_loop.simps(2) split: option.split)
  next
    case (Some k)
    note k = memchr_Some [OF Some]
    have sub: "find_sub what (?d @ chain_bytes cs) = map_option ((+) k) (find_sub what (drop k (?d @ chain_bytes cs)))"
      by (rule find_sub_skip) (use k 2(9) in simp_all)
    define it where "it = \<lparr>pos = p + int k, pchain = Some i, pos_in_chain = pic + k\<rparr>"
    have it: "ptr_at buf it pre (c # cs)" using 2(5,6,8) k d by (auto simp: ptr_at_def it_def)
    obtain x s where xs: "drop k (?d @ chain_bytes cs) = x # s" using k by (cases "drop k (?d @ chain_bytes cs)") auto
    have ah: "drop (pic + k) (chain_bytes (c # cs)) = x # s"
      using xs unfolding d(2) [symmetric] drop_drop by (simp only: add.commute)
    have cmp: "evbuffer_ptr_memcmp buf it what = 0 \<longleftrightarrow> take (length what) (x # s) = what"
      unfolding ah [symmetric] using ptr_memcmp_eq [OF it 2(4), of what] by (simp only: it_def evbuffer_ptr.simps)
    show ?thesis
    proof (cases "evbuffer_ptr_memcmp buf it what = 0")
      case True
      with cmp sub xs Some show ?thesis unfolding d(2) by (simp add: search_loop.simps(2) it_def [symmetric]) (simp add: it_def)
    next
      case False
      have s: "drop (Suc (pic + k)) (chain_bytes (c # cs)) = s" using ah by (metis drop_Suc list.sel(3) tl_drop)
      have "pos (search_loop buf what e (c # cs) i pic p) = (case find_sub what s of None \<Rightarrow> - 1 | Some n \<Rightarrow> p + int k + 1 + int n)"
      proof (cases "Suc (pic + k) = off c")
        case True
        have "pos (search_loop buf what e cs (Suc i) 0 (p + int k + 1)) =
           (case find_sub what (drop 0 (chain_bytes cs)) of None \<Rightarrow> - 1 | Some n \<Rightarrow> p + int k + 1 + int n)"
          by (rule 2(2) [OF Some it_def False True 2(4), of "pre @ [c]"]) (use 2 c pic k d True in auto)
        moreover have "s = chain_bytes cs" using s True c by simp
        ultimately show ?thesis using Some False True by (simp add: search_loop.simps(2) it_def [symmetric])
      next
        case neq: False
        have "pos (search_loop buf what e (c # cs) i (Suc (pic + k)) (p + int k + 1)) =
           (case find_sub what (drop (Suc (pic + k)) (chain_bytes (c # cs))) of None \<Rightarrow> - 1 | Some n \<Rightarrow> p + int k + 1 + int n)"
          by (rule 2(3) [OF Some it_def False neq 2(4), of pre]) (use 2 c pic k d neq in auto)
        then show ?thesis using Some False neq s by (simp add: search_loop.simps(2) it_def [symmetric])
      qed
      with False cmp sub xs show ?thesis unfolding d(2) by (auto split: option.split)
    qed
  qed
qed

section \<open>Lines\<close>

text \<open>The number of bytes in front of the first one with \<open>P\<close>.\<close>

fun first_index :: "(UInt8 \<Rightarrow> bool) \<Rightarrow> bytes \<Rightarrow> nat option" where
  "first_index P [] = None"
| "first_index P (b # bs) = (if P b then Some 0 else map_option Suc (first_index P bs))"

lemma first_index_append:
  "first_index P (xs @ ys) = (case first_index P xs of Some n \<Rightarrow> Some n | None \<Rightarrow> map_option ((+) (length xs)) (first_index P ys))"
  by (induction xs; cases "first_index P ys") (auto split: option.splits)

lemma first_index_Some: "first_index P bs = Some n \<Longrightarrow> n < length bs \<and> P (bs ! n) \<and> (\<forall>b \<in> set (take n bs). \<not> P b)"
  by (induction bs arbitrary: n) (auto split: if_splits)

lemma memchr_first: "memchr x bs = first_index (\<lambda>b. b = x) bs"
  by (induction bs) auto

lemma first_index_disj:
  "first_index (\<lambda>b. P b \<or> Q b) bs = (case first_index P bs of
       Some i \<Rightarrow> (case first_index Q bs of Some j \<Rightarrow> Some (if j < i then j else i) | None \<Rightarrow> Some i)
     | None \<Rightarrow> first_index Q bs)"
  by (induction bs) (auto split: option.splits)

lemma find_eol_first: "find_eol_char s = first_index (\<lambda>b. b = CR \<or> b = LF) s"
proof (induction s rule: find_eol_char.induct)
  case (1 s)
  show ?case
  proof (cases "s = []")
    case False
    let ?E = "\<lambda>b. b = CR \<or> b = LF"
    have step: "find_eol_char s = (case first_index ?E (take 128 s) of Some n \<Rightarrow> Some n | None \<Rightarrow> map_option ((+) 128) (find_eol_char (drop 128 s)))"
      by (subst find_eol_char.simps) (use False in \<open>simp add: memchr_first first_index_disj Let_def split: option.split\<close>)
    have ih: "find_eol_char (drop 128 s) = first_index ?E (drop 128 s)" if "first_index ?E (take 128 s) = None"
      using 1 [OF False refl refl refl] that by (auto simp: memchr_first first_index_disj split: option.splits)
    have "first_index ?E s = first_index ?E (take 128 s @ drop 128 s)" by simp
    also have "\<dots> = (case first_index ?E (take 128 s) of Some n \<Rightarrow> Some n | None \<Rightarrow> map_option ((+) 128) (first_index ?E (drop 128 s)))"
      unfolding first_index_append by (cases "length s \<le> 128") (simp_all split: option.split)
    finally show ?thesis unfolding step using ih by (simp split: option.split)
  qed (simp add: find_eol_char.simps)
qed

lemma scan_chains_spec:
  assumes "list_all chain_ok cs" "cs \<noteq> [] \<Longrightarrow> pic \<le> off (hd cs)" "\<And>bs. look bs = first_index P bs" "chains buf = pre @ cs"
    "i = length pre" "p = int (length (chain_bytes pre) + pic)"
  shows "(first_index P (drop pic (chain_bytes cs)) = None \<and> scan_chains look cs i pic p = None)
     \<or> (\<exists>it pre' cs' n. scan_chains look cs i pic p = Some it \<and> first_index P (drop pic (chain_bytes cs)) = Some n \<and> pos it = p + int n
         \<and> ptr_at buf it pre' cs' \<and> pos_in_chain it < off (hd cs'))"
  using assms
proof (induction cs arbitrary: pre i pic p)
  case (Cons c cs)
  let ?d = "drop pic (cdata c)"
  have d: "length ?d = off c - pic" "pic \<le> off c" "drop pic (chain_bytes (c # cs)) = ?d @ chain_bytes cs" using Cons.prems(1,2) by simp_all
  show ?case
  proof (cases "first_index P ?d")
    case None
    have "list_all chain_ok cs" using Cons.prems(1) by simp
    from Cons.IH [OF this _ Cons.prems(3), of 0 "pre @ [c]" "Suc i" "p + int (off c - pic)"] None Cons.prems d show ?thesis
      unfolding d(3) by (auto simp: first_index_append)
  next
    case (Some n)
    let ?it = "\<lparr>pos = p + int n, pchain = Some i, pos_in_chain = pic + n\<rparr>"
    have "ptr_at buf ?it pre (c # cs)" "pos_in_chain ?it < off c"
      using first_index_Some [OF Some] Cons.prems d by (auto simp: ptr_at_def)
    then show ?thesis using Some Cons.prems(3) unfolding d(3) by (fastforce simp: first_index_append)
  qed
qed simp

lemma strspn_loop_spec:
  assumes "list_all chain_ok cs" "cs \<noteq> [] \<Longrightarrow> i \<le> off (hd cs)"
  shows "strspn_loop A cs i = length (takeWhile (\<lambda>b. b \<in> A) (drop i (chain_bytes cs)))"
  using assms
proof (induction cs arbitrary: i)
  case (Cons c cs)
  let ?d = "drop i (cdata c)"
  have d: "length ?d = off c - i" "i \<le> off c" "drop i (chain_bytes (c # cs)) = ?d @ chain_bytes cs" using Cons.prems by simp_all
  show ?case
  proof (cases "\<forall>b \<in> set ?d. b \<in> A")
    case True
    then have "takeWhile (\<lambda>b. b \<in> A) ?d = ?d" by simp
    then have "length (takeWhile (\<lambda>b. b \<in> A) ?d) = off c - i" using d(1) by metis
    with True d Cons show ?thesis unfolding d(3) by (simp add: takeWhile_append2 Let_def)
  next
    case False
    then have "length (takeWhile (\<lambda>b. b \<in> A) ?d) < length ?d"
      by (metis le_neq_implies_less length_takeWhile_le takeWhile_eq_all_conv takeWhile_eq_take take_all_iff order_refl)
    with False d show ?thesis unfolding d(3) by (auto simp: Let_def takeWhile_append1)
  qed
qed simp

lemma ptr_set_loop_spec:
  assumes "list_all chain_ok cs" "cs \<noteq> [] \<Longrightarrow> pic \<le> off (hd cs)"
  shows "if pic + left < length (chain_bytes cs)
     then \<exists>pre2 cs2 p. ptr_set_loop cs i pic left = Some (i + length pre2, p) \<and> cs = pre2 @ cs2 \<and> cs2 \<noteq> [] \<and> p < off (hd cs2)
       \<and> length (chain_bytes pre2) + p = pic + left
     else ptr_set_loop cs i pic left = None"
  using assms
proof (induction cs i pic left rule: ptr_set_loop.induct)
  case (2 c cs i pic left)
  have c: "length (cdata c) = off c" "list_all chain_ok cs" "pic \<le> off c" using 2(2,3) by simp_all
  show ?case
  proof (cases "off c \<le> pic + left")
    case True
    note ih = 2(1) [OF True c(2)]
    have eq: "pic + left < length (chain_bytes (c # cs)) \<longleftrightarrow> left - (off c - pic) < length (chain_bytes cs)"
      using c True by auto
    show ?thesis
    proof (cases "left - (off c - pic) < length (chain_bytes cs)")
      case lt: True
      with ih obtain pre2 cs2 p where "ptr_set_loop cs (Suc i) 0 (left - (off c - pic)) = Some (Suc i + length pre2, p)" "cs = pre2 @ cs2"
        "cs2 \<noteq> []" "p < off (hd cs2)" "length (chain_bytes pre2) + p = left - (off c - pic)" by auto
      then have "ptr_set_loop (c # cs) i pic left = Some (i + length (c # pre2), p)" "c # cs = (c # pre2) @ cs2" "cs2 \<noteq> []"
        "p < off (hd cs2)" "length (chain_bytes (c # pre2)) + p = pic + left"
        using True c by auto
      then show ?thesis using eq lt by meson
    next
      case False
      then show ?thesis using ih eq True by simp
    qed
  next
    case False
    then have "ptr_set_loop (c # cs) i pic left = Some (i + length [], pic + left)" "pic + left < off (hd (c # cs))" by simp_all
    moreover have "pic + left < length (chain_bytes (c # cs))" using False c by simp
    ultimately show ?thesis by fastforce
  qed
qed simp

text \<open>
  Setting or advancing a position finds the chain that holds the byte at the new position and the place in it, for every
  position in front of the end of the buffer; at the end or behind it the position becomes invalid.
\<close>

lemma ptr_set_spec:
  assumes "evb_ok buf" "how = EVBUFFER_PTR_ADD \<Longrightarrow> ptr_at buf it pre cs"
    "n = (if how = EVBUFFER_PTR_ADD then nat (pos it) + d else d)"
  shows "if n < length (contents buf)
     then \<exists>it' pre' cs'. evbuffer_ptr_set buf it d how = (0, it') \<and> pos it' = int n \<and> ptr_at buf it' pre' cs'
       \<and> pos_in_chain it' < off (hd cs') \<and> evbuffer_getchr buf it' = contents buf ! n
     else evbuffer_ptr_set buf it d how = (- 1, it\<lparr>pos := - 1, pchain := None\<rparr>)"
proof -
  define st where "st = (case how of EVBUFFER_PTR_SET \<Rightarrow> (ptr_start buf)\<lparr>pos := int d\<rparr> | EVBUFFER_PTR_ADD \<Rightarrow> it\<lparr>pos := pos it + int d\<rparr>)"
  define pre0 where "pre0 = (case how of EVBUFFER_PTR_SET \<Rightarrow> [] | EVBUFFER_PTR_ADD \<Rightarrow> pre)"
  define cs0 where "cs0 = (case how of EVBUFFER_PTR_SET \<Rightarrow> chains buf | EVBUFFER_PTR_ADD \<Rightarrow> cs)"
  have st: "chains buf = pre0 @ cs0" "from_ptr buf st = cs0" "chain_index st = length pre0" "list_all chain_ok cs0"
    "cs0 \<noteq> [] \<Longrightarrow> pos_in_chain st \<le> off (hd cs0)" "n = length (chain_bytes pre0) + pos_in_chain st + d" "pos st = int n"
    using assms by (auto simp: st_def pre0_def cs0_def from_ptr_def chain_index_def ptr_start_def ptr_at_def evb_ok_def split: evbuffer_ptr_how.splits)
  have eq: "evbuffer_ptr_set buf it d how = (case ptr_set_loop cs0 (length pre0) (pos_in_chain st) d of
      None \<Rightarrow> (- 1, it\<lparr>pos := - 1, pchain := None\<rparr>) | Some (i, p) \<Rightarrow> (0, st\<lparr>pchain := Some i, pos_in_chain := p\<rparr>))"
    unfolding evbuffer_ptr_set_def Let_def st_def [symmetric] st(2,3) ..
  note l = ptr_set_loop_spec [OF st(4,5), of d "length pre0"]
  have cont: "contents buf = chain_bytes pre0 @ chain_bytes cs0" by (simp add: contents_def st(1))
  show ?thesis
  proof (cases "pos_in_chain st + d < length (chain_bytes cs0)")
    case True
    with l obtain pre2 cs2 p where x: "ptr_set_loop cs0 (length pre0) (pos_in_chain st) d = Some (length pre0 + length pre2, p)"
      "cs0 = pre2 @ cs2" "cs2 \<noteq> []" "p < off (hd cs2)" "length (chain_bytes pre2) + p = pos_in_chain st + d" by auto
    obtain c cs3 where c: "cs2 = c # cs3" using x(3) by (cases cs2) auto
    define it' where "it' = st\<lparr>pchain := Some (length pre0 + length pre2), pos_in_chain := p\<rparr>"
    have "ptr_at buf it' (pre0 @ pre2) cs2" using x st by (simp add: ptr_at_def it'_def)
    moreover have "evbuffer_getchr buf it' = contents buf ! n"
      unfolding cont st(6) add.assoc x(5) [symmetric] using x(2,4) st(1,4) c
      by (simp add: evbuffer_getchr_def it'_def chain_index_def nth_append)
    ultimately show ?thesis using True st(6,7) x eq by (auto simp: cont it'_def)
  next
    case False
    then show ?thesis using l eq st(6) by (simp add: cont)
  qed
qed

text \<open>Where the first line of a string ends, and how long the end of line is.\<close>

fun crlf_end :: "bytes \<Rightarrow> (nat \<times> nat) option" where
  "crlf_end [] = None"
| "crlf_end (b # bs) = (if b = LF then Some (0, 1) else if b = CR \<and> take 1 bs = [LF] then Some (0, 2)
     else map_option (\<lambda>(n, e). (Suc n, e)) (crlf_end bs))"

definition line_end :: "evbuffer_eol_style \<Rightarrow> bytes \<Rightarrow> (nat \<times> nat) option" where
  "line_end style s = (case style of
       EVBUFFER_EOL_ANY \<Rightarrow> map_option (\<lambda>n. (n, length (takeWhile (\<lambda>b. b \<in> {CR, LF}) (drop n s)))) (first_index (\<lambda>b. b = CR \<or> b = LF) s)
     | EVBUFFER_EOL_CRLF \<Rightarrow> crlf_end s
     | EVBUFFER_EOL_CRLF_STRICT \<Rightarrow> map_option (\<lambda>n. (n, 2)) (find_sub [CR, LF] s)
     | EVBUFFER_EOL_LF \<Rightarrow> map_option (\<lambda>n. (n, 1)) (first_index (\<lambda>b. b = LF) s))"

lemma crlf_end_skip:
  "\<forall>b \<in> set (take n s). b \<noteq> CR \<and> b \<noteq> LF \<Longrightarrow> n \<le> length s \<Longrightarrow> crlf_end s = map_option (\<lambda>(m, e). (n + m, e)) (crlf_end (drop n s))"
proof (induction s arbitrary: n)
  case (Cons b s)
  then show ?case by (cases n) (auto simp: option.map_comp comp_def case_prod_beta option.map_ident)
qed simp

lemma first_index_None: "first_index P s = None \<longleftrightarrow> (\<forall>b \<in> set s. \<not> P b)"
  by (induction s) auto

lemma crlf_end_none: "\<forall>b \<in> set s. b \<noteq> CR \<and> b \<noteq> LF \<Longrightarrow> crlf_end s = None"
  by (induction s) auto

lemma CR_neq_LF [simp]: "CR \<noteq> LF" "LF \<noteq> CR"
  by (simp_all add: CR_def LF_def)

lemma crlf_end_first:
  assumes "first_index (\<lambda>b. b = CR \<or> b = LF) s = Some n"
  shows "crlf_end s = (if s ! n = LF then Some (n, 1) else if take 1 (drop (Suc n) s) = [LF] then Some (n, 2)
     else map_option (\<lambda>(m, e). (Suc n + m, e)) (crlf_end (drop (Suc n) s)))"
proof -
  note fi = first_index_Some [OF assms]
  have "crlf_end s = map_option (\<lambda>(m, e). (n + m, e)) (crlf_end (drop n s))" by (rule crlf_end_skip) (use fi in auto)
  moreover have "drop n s = s ! n # drop (Suc n) s" using fi by (simp add: Cons_nth_drop_Suc)
  ultimately show ?thesis using fi by (cases "crlf_end (drop (Suc n) s)") auto
qed

text \<open>Looking for the end of a line from a position on.\<close>

lemma find_eol_at:
  assumes "evb_ok buf" "ptr_at buf it pre cs" "s = drop (nat (pos it)) (contents buf)"
  shows "first_index (\<lambda>b. b = CR \<or> b = LF) s = None \<and> evbuffer_find_eol_char buf it = None
     \<or> (\<exists>it1 pre1 cs1 n. evbuffer_find_eol_char buf it = Some it1 \<and> first_index (\<lambda>b. b = CR \<or> b = LF) s = Some n \<and> pos it1 = pos it + int n
         \<and> ptr_at buf it1 pre1 cs1 \<and> pos_in_chain it1 < off (hd cs1))"
  unfolding evbuffer_find_eol_char_def assms(3) ptr_atD [OF assms(2,1)]
  by (rule scan_chains_spec) (use assms ptr_atD [OF assms(2,1)] in \<open>auto simp: find_eol_first ptr_at_def\<close>)

lemma getchr_at:
  assumes "evb_ok buf" "ptr_at buf it pre cs" "pos_in_chain it < off (hd cs)"
  shows "evbuffer_getchr buf it = contents buf ! nat (pos it)" "nat (pos it) < length (contents buf)"
proof -
  obtain c cs' where c: "cs = c # cs'" "chain_ok c" using assms ptr_atD(3) [OF assms(2,1)] by (cases cs) (auto simp: ptr_at_def)
  with assms show "evbuffer_getchr buf it = contents buf ! nat (pos it)" "nat (pos it) < length (contents buf)"
    by (simp_all add: evbuffer_getchr_def ptr_at_def chain_index_def contents_def nth_append nat_int_add)
qed

lemma crlf_loop_spec:
  assumes "evb_ok buf" "ptr_at buf it pre cs"
  shows "\<exists>r. crlf_loop buf it = Some r \<and> map_option (\<lambda>(i, e). (pos i, e)) r
     = map_option (\<lambda>(n, e). (pos it + int n, e)) (crlf_end (drop (nat (pos it)) (contents buf)))"
  using assms(2)
proof (induction "length (contents buf) - nat (pos it)" arbitrary: it pre cs rule: less_induct)
  case less
  define s where "s = drop (nat (pos it)) (contents buf)"
  from find_eol_at [OF assms(1) less(2) s_def] show ?case
  proof (elim disjE conjE exE)
    assume "first_index (\<lambda>b. b = CR \<or> b = LF) s = None" "evbuffer_find_eol_char buf it = None"
    then show ?thesis by (subst crlf_loop.simps) (simp add: first_index_None crlf_end_none s_def [symmetric])
  next
    fix it1 pre1 cs1 n
    assume f: "evbuffer_find_eol_char buf it = Some it1" "first_index (\<lambda>b. b = CR \<or> b = LF) s = Some n" "pos it1 = pos it + int n"
      and p: "ptr_at buf it1 pre1 cs1" "pos_in_chain it1 < off (hd cs1)"
    note fi = first_index_Some [OF f(2)] and ce = crlf_end_first [OF f(2)]
    have it1: "nat (pos it1) = nat (pos it) + n" using f(3) ptr_atD(5) [OF less(2) assms(1)] by simp
    have ch: "evbuffer_getchr buf it1 = s ! n" using getchr_at [OF assms(1) p] fi by (simp add: s_def it1)
    have "drop (pos_in_chain it1) (chain_bytes cs1) = drop n s"
      using ptr_atD(4) [OF p(1) assms(1)] by (simp add: it1 s_def add.commute)
    also have "\<dots> = s ! n # drop (Suc n) s" using fi by (simp add: Cons_nth_drop_Suc)
    finally have "drop (pos_in_chain it1) (chain_bytes cs1) = s ! n # drop (Suc n) s" .
    then have cmp: "evbuffer_ptr_memcmp buf it1 [CR, LF] = 0 \<longleftrightarrow> s ! n = CR \<and> take 1 (drop (Suc n) s) = [LF]"
      using ptr_memcmp_eq [OF p(1) assms(1), of "[CR, LF]"] by simp
    have ds: "drop (Suc (nat (pos it1))) (contents buf) = drop (Suc n) s" by (simp add: it1 s_def add.commute)
    note ps = ptr_set_spec [OF assms(1) p(1) refl, of EVBUFFER_PTR_ADD 1, simplified]
    show ?thesis
    proof (cases "s ! n = LF \<or> take 1 (drop (Suc n) s) = [LF]")
      case True
      then show ?thesis by (subst crlf_loop.simps) (use f fi ch cmp ce in \<open>auto simp: s_def [symmetric]\<close>)
    next
      case cr: False
      then have loop: "crlf_loop buf it = (case evbuffer_ptr_set buf it1 1 EVBUFFER_PTR_ADD of (r, it2) \<Rightarrow> if r < 0 then Some None else crlf_loop buf it2)"
        by (subst crlf_loop.simps) (use f(1) ch cmp in simp)
      show ?thesis
      proof (cases "Suc (nat (pos it1)) < length (contents buf)")
        case True
        with ps obtain it2 pre2 cs2 where it2: "evbuffer_ptr_set buf it1 1 EVBUFFER_PTR_ADD = (0, it2)" "pos it2 = 1 + int (nat (pos it1))"
          "ptr_at buf it2 pre2 cs2" by auto
        have n2: "nat (pos it2) = Suc (nat (pos it1))" using it2(2) by linarith
        have "length (contents buf) - nat (pos it2) < length (contents buf) - nat (pos it)" using n2 it1 True by simp
        from less(1) [OF this it2(3)] obtain r where r: "crlf_loop buf it2 = Some r"
          "map_option (\<lambda>(i, e). (pos i, e)) r = map_option (\<lambda>(m, e). (pos it2 + int m, e)) (crlf_end (drop (Suc n) s))"
          unfolding n2 ds by blast
        then show ?thesis using loop it2(1,2) ptr_atD(5) [OF less(2) assms(1)] cr ce unfolding s_def [symmetric]
          by (cases "crlf_end (drop (Suc n) s)") (auto simp: it1)
      next
        case False
        then have "crlf_end (drop (Suc n) s) = None" using ds by simp
        then show ?thesis using False ps loop ce cr by (simp add: s_def [symmetric])
      qed
    qed
  qed
qed

section \<open>Searching and reading lines refine the list of bytes\<close>

lemma ptr_start_at: "evb_ok buf \<Longrightarrow> chains buf \<noteq> [] \<Longrightarrow> ptr_at buf (ptr_start buf) [] (chains buf)"
  by (simp add: ptr_at_def ptr_start_def)

lemma search_spec:
  assumes "evb_ok buf" "what \<noteq> []"
  shows "pos (evbuffer_search buf what None) = (case find_sub what (contents buf) of None \<Rightarrow> - 1 | Some n \<Rightarrow> int n)"
proof (cases "chains buf = []")
  case True
  with assms(2) show ?thesis
    by (simp add: evbuffer_search_def evbuffer_search_range_def ptr_start_def from_ptr_def contents_def not_found_def)
next
  case False
  have "pos (search_loop buf what None (chains buf) 0 0 0) = (case find_sub what (drop 0 (chain_bytes (chains buf))) of None \<Rightarrow> - 1 | Some n \<Rightarrow> 0 + int n)"
    by (rule search_loop_spec [where pre = "[]"]) (use assms in auto)
  with assms(2) False show ?thesis
    by (simp add: evbuffer_search_def evbuffer_search_range_def ptr_start_def from_ptr_def chain_index_def contents_def split: option.splits)
qed

lemma search_eol_spec:
  assumes ok: "evb_ok buf"
  shows "\<exists>r. evbuffer_search_eol buf None style = Some r \<and> map_option (\<lambda>(i, e). (pos i, e)) r = map_option (\<lambda>(n, e). (int n, e)) (line_end style (contents buf))"
proof (cases "chains buf = []")
  case True
  then show ?thesis
    by (cases style; subst evbuffer_search_eol_def)
       (auto simp: crlf_loop.simps line_end_def contents_def evbuffer_find_eol_char_def evbuffer_strchr_def from_ptr_def ptr_start_def
         evbuffer_search_def evbuffer_search_range_def not_found_def)
next
  case False
  note at = ptr_start_at [OF ok False]
  have st: "pos (ptr_start buf) = 0" "pos_in_chain (ptr_start buf) = 0" "chain_index (ptr_start buf) = 0" "from_ptr buf (ptr_start buf) = chains buf"
    using False by (simp_all add: ptr_start_def chain_index_def from_ptr_def)
  have cok: "list_all chain_ok (chains buf)" using ok by (simp add: evb_ok_def)
  show ?thesis
  proof (cases style)
    case EVBUFFER_EOL_ANY
    from find_eol_at [OF ok at refl] show ?thesis
    proof (elim disjE conjE exE)
      fix it1 pre1 cs1 n
      assume f: "evbuffer_find_eol_char buf (ptr_start buf) = Some it1"
        "first_index (\<lambda>b. b = CR \<or> b = LF) (drop (nat (pos (ptr_start buf))) (contents buf)) = Some n" "pos it1 = pos (ptr_start buf) + int n"
        and p: "ptr_at buf it1 pre1 cs1"
      have "evbuffer_strspn buf it1 {CR, LF} = int (length (takeWhile (\<lambda>b. b \<in> {CR, LF}) (drop n (contents buf))))"
        using ptr_atD [OF p ok] p f(3) strspn_loop_spec [of cs1 "pos_in_chain it1" "{CR, LF}"]
        by (simp add: evbuffer_strspn_def ptr_at_def st)
      then show ?thesis using f by (simp add: evbuffer_search_eol_def EVBUFFER_EOL_ANY line_end_def st)
    qed (simp add: evbuffer_search_eol_def EVBUFFER_EOL_ANY line_end_def st)
  next
    case EVBUFFER_EOL_CRLF
    then show ?thesis using crlf_loop_spec [OF ok at] by (simp add: evbuffer_search_eol_def st line_end_def)
  next
    case EVBUFFER_EOL_CRLF_STRICT
    have "evbuffer_search buf [CR, LF] (Some (ptr_start buf)) = evbuffer_search buf [CR, LF] None"
      by (simp add: evbuffer_search_def evbuffer_search_range_def)
    then show ?thesis using search_spec [OF ok, of "[CR, LF]"] EVBUFFER_EOL_CRLF_STRICT
      by (auto simp: evbuffer_search_eol_def line_end_def split: option.splits)
  next
    case EVBUFFER_EOL_LF
    from scan_chains_spec [of "chains buf" 0 "memchr LF" "\<lambda>b. b = LF" buf "[]" 0 0] cok EVBUFFER_EOL_LF show ?thesis
      by (auto simp: evbuffer_search_eol_def line_end_def evbuffer_strchr_def st memchr_first contents_def)
  qed
qed

lemma readln_spec:
  assumes ok: "evb_ok buf" and nf: "\<not> freeze_start buf"
  shows "case line_end style (contents buf) of None \<Rightarrow> evbuffer_readln True buf style = Some (None, buf)
     | Some (n, e) \<Rightarrow> \<exists>b. evbuffer_readln True buf style = Some (Some (take n (contents buf)), b) \<and> evb_becomes buf b (drop (n + e) (contents buf))"
proof -
  obtain r where r: "evbuffer_search_eol buf None style = Some r"
    "map_option (\<lambda>(i, e). (pos i, e)) r = map_option (\<lambda>(n, e). (int n, e)) (line_end style (contents buf))"
    using search_eol_spec [OF ok] by blast
  show ?thesis
  proof (cases "line_end style (contents buf)")
    case None
    then show ?thesis using r nf by (simp add: evbuffer_readln_def)
  next
    case (Some ne)
    obtain n e where ne: "ne = (n, e)" by (cases ne)
    with Some r obtain it where it: "r = Some (it, e)" "pos it = int n" by (cases r) auto
    from remove_spec [OF ok, of n] nf obtain b where b: "evbuffer_remove n buf = Some (int (min n (length (contents buf))), take n (contents buf), b)"
      "evb_becomes buf b (drop n (contents buf))" by auto
    then have "evb_ok b" "\<not> freeze_start b" using nf by (simp_all add: evb_becomes_def)
    with drain_spec [of b e] obtain b' where "evbuffer_drain e b = Some (0, b')" "evb_becomes b b' (drop e (contents b))" by auto
    with b it Some ne r(1) nf show ?thesis
      by (auto simp: evbuffer_readln_def evb_becomes_def add.commute)
  qed
qed

text \<open>
  C20. Reading a line, in each of the four styles, returns the bytes in front of the first end of line of the buffer and removes
  them together with the end of line; without an end of line it returns nothing and leaves the buffer as it is. The
  ends of line are found in the string of all bytes, even when one straddles two chains, and the loop over carriage returns
  ends.
\<close>

theorem evbuffer_readln_correct:
  assumes ok: "evb_ok buf" and nf: "\<not> freeze_start buf"
  shows "case line_end style (contents buf) of None \<Rightarrow> evbuffer_readln True buf style = Some (None, buf)
     | Some (n, e) \<Rightarrow> \<exists>b. evbuffer_readln True buf style = Some (Some (take n (contents buf)), b) \<and> evb_becomes buf b (drop (n + e) (contents buf))"
  by (rule readln_spec [OF ok nf])

text \<open>Two chains: the first ends with a carriage return, the second starts with the line feed.\<close>

definition two_chains :: evbuffer where
  "two_chains = evbuffer_new\<lparr>chains := [\<lparr>caddr = 1, cbuffer = [0, 72, 105, 13], misalign = 1, off = 3, immutable = True\<rparr>,
     \<lparr>caddr = 2, cbuffer = [10, 33], misalign = 0, off = 2, immutable = True\<rparr>], last_with_data := 1, total_len := 5\<rparr>"

theorem evbuffer_readln_correct_witness:
  "evb_ok two_chains \<and> \<not> freeze_start two_chains \<and> length (chains two_chains) = 2
   \<and> (\<exists>b. evbuffer_readln True two_chains EVBUFFER_EOL_CRLF = Some (Some [72, 105], b) \<and> contents b = [33])"
proof -
  have ok: "evb_ok two_chains" "\<not> freeze_start two_chains" "length (chains two_chains) = 2"
    by (simp_all add: two_chains_def evb_ok_def chain_ok_def buffer_len_def evbuffer_new_def)
  have c: "contents two_chains = [72, 105, 13, 10, 33]" by (simp add: two_chains_def contents_def cdata_def)
  have "line_end EVBUFFER_EOL_CRLF (contents two_chains) = Some (2, 2)"
    unfolding c by (simp add: line_end_def CR_def LF_def)
  with evbuffer_readln_correct [OF ok(1,2), of EVBUFFER_EOL_CRLF] ok c show ?thesis
    by (auto simp: evb_becomes_def)
qed

lemma find_sub_Some: "find_sub what s = Some n \<Longrightarrow> take (length what) (drop n s) = what"
  by (induction s arbitrary: n) (auto split: if_splits)

text \<open>
  \<open>evbuffer_search\<close> returns the position of the first occurrence of a non-empty string in the bytes of the buffer, and -1
  when there is none; \<open>evbuffer_find\<close> then returns the address of the same bytes in the pulled-up first chain.
\<close>

theorem evbuffer_search_correct:
  assumes ok: "evb_ok buf" and ne: "what \<noteq> []"
  shows "pos (evbuffer_search buf what None) = (case find_sub what (contents buf) of None \<Rightarrow> - 1 | Some n \<Rightarrow> int n)
    \<and> (case find_sub what (contents buf) of None \<Rightarrow> evbuffer_find (Some a) buf what = Some (None, buf)
       | Some n \<Rightarrow> \<exists>b. evbuffer_find (Some a) buf what = Some (Some (caddr (hd (chains b)), misalign (hd (chains b)) + n), b)
           \<and> evb_becomes buf b (contents buf) \<and> take (length what) (drop n (cdata (hd (chains b)))) = what)"
proof (cases "find_sub what (contents buf)")
  case None
  then show ?thesis using search_spec [OF ok ne] by (simp add: evbuffer_find_def Let_def)
next
  case (Some n)
  have s: "pos (evbuffer_search buf what None) = int n" using search_spec [OF ok ne] Some by simp
  note f = find_sub_Some [OF Some]
  have "length (take (length what) (drop n (contents buf))) = length what" using f by simp
  then have le: "n + length what \<le> length (contents buf)" using ne by (cases what) (auto simp: min_def split: if_splits)
  from pullup_spec [OF ok _ le, of "int n + int (length what)" a] ne obtain r where
    r: "evbuffer_pullup (Some a) (int n + int (length what)) buf = Some r" "pulled buf (n + length what) r" by (auto simp: nat_int_add)
  have "take (length what) (drop n (cdata (hd (chains (snd r))))) = what"
    using r(2) f by (metis add.commute pulled_def take_drop)
  then show ?thesis using r s Some by (cases r) (auto simp: evbuffer_find_def Let_def pulled_def)
qed

theorem evbuffer_search_correct_witness:
  "evb_ok two_chains \<and> [13, 10] \<noteq> ([] :: bytes) \<and> pos (evbuffer_search two_chains [13, 10] None) = 2
   \<and> pos (evbuffer_search two_chains [13, 13] None) = - 1"
proof -
  have ok: "evb_ok two_chains"
    by (simp add: two_chains_def evb_ok_def chain_ok_def buffer_len_def evbuffer_new_def)
  have c: "contents two_chains = [72, 105, 13, 10, 33]" by (simp add: two_chains_def contents_def cdata_def)
  from evbuffer_search_correct [OF ok, of "[13, 10]"] evbuffer_search_correct [OF ok, of "[13, 13]"] ok show ?thesis
    by (simp add: c)
qed

end
