(* ===== verification/Ev_Buffer_Space.thy ===== *)
theory Ev_Buffer_Space
  imports Ev_Buffer_Move
begin

text \<open>
  Space at the end of a buffer, of \<open>event/buffer.c\<close>: making room in one chain or in several, handing it to the caller
  (\<open>evbuffer_reserve_space\<close>) and taking what was written (\<open>evbuffer_commit_space\<close>), and the reads and writes on a socket
  that are built on it. A piece of space is an address, given by the address of its chain and the offset in it, and a length.
  The socket calls are arguments: the number of readable bytes, the bytes a read delivers and the number of bytes a
  write accepts.
\<close>

type_synonym iovec = "(nat \<times> nat) \<times> nat"

section \<open>Making room\<close>

text \<open>The result of making room in one chain is its index, \<open>None\<close> when the allocation fails.\<close>

definition evbuffer_chain_insert_new :: "nat option \<Rightarrow> nat \<Rightarrow> evbuffer \<Rightarrow> (nat option \<times> evbuffer) option" where
  "evbuffer_chain_insert_new new datlen buf =
    (case evbuffer_chain_new new datlen of None \<Rightarrow> Some (None, buf)
     | Some c \<Rightarrow> map_option (\<lambda>b. (Some (length (chains b) - 1), b)) (evbuffer_chain_insert c buf))"

definition resize_chain :: "nat option \<Rightarrow> nat \<Rightarrow> nat \<Rightarrow> evbuffer \<Rightarrow> nat option \<times> evbuffer" where
  "resize_chain new datlen i buf =
    (let c = chains buf ! i in
     case evbuffer_chain_new new (off c + datlen) of None \<Rightarrow> (None, buf)
     | Some tmp \<Rightarrow> (Some i, buf\<lparr>chains := (chains buf)[i := (store 0 (cdata c) tmp)\<lparr>off := off c\<rparr>]\<rparr>))"

definition evbuffer_expand_singlechain :: "nat option \<Rightarrow> nat \<Rightarrow> evbuffer \<Rightarrow> (nat option \<times> evbuffer) option" where
  "evbuffer_expand_singlechain new datlen buf =
    (let k = last_with_data buf;
         i = (if k < length (chains buf) \<and> CHAIN_SPACE_LEN (chains buf ! k) = 0 then Suc k else k);
         c = chains buf ! i;
         r = (if i \<ge> length (chains buf) \<or> immutable c then evbuffer_chain_insert_new new datlen buf
              else if CHAIN_SPACE_LEN c \<ge> datlen then Some (Some i, buf)
              else if off c = 0 then evbuffer_chain_insert_new new datlen buf
              else if evbuffer_chain_should_realign c datlen then Some (Some i, buf\<lparr>chains := (chains buf)[i := evbuffer_chain_align c]\<rparr>)
              else if CHAIN_SPACE_LEN c < buffer_len c div 8 \<or> off c > 4096
              then (if Suc i < length (chains buf) \<and> CHAIN_SPACE_LEN (chains buf ! Suc i) \<ge> datlen then Some (Some (Suc i), buf)
                    else evbuffer_chain_insert_new new datlen buf)
              else Some (resize_chain new datlen i buf))
     in case r of Some (Some j, b) \<Rightarrow> if CHAIN_SPACE_LEN (chains b ! j) \<ge> datlen then r else None | _ \<Rightarrow> r)"

definition evbuffer_expand :: "nat option \<Rightarrow> nat \<Rightarrow> evbuffer \<Rightarrow> (int \<times> evbuffer) option" where
  "evbuffer_expand new datlen buf =
    map_option (\<lambda>(r, b). (if r = None then - 1 else 0, b)) (evbuffer_expand_singlechain new datlen buf)"

text \<open>
  The loop of \<open>_evbuffer_expand_fast\<close> over the chains from \<open>last_with_datap\<close> on, which realigns the empty ones: there is
  enough room, \<open>n\<close> chains do not have enough, or the chains ran out.
\<close>

datatype fast_result = Enough | Full | Ran_off nat

fun fast_loop :: "nat \<Rightarrow> nat \<Rightarrow> bool \<Rightarrow> nat \<Rightarrow> nat \<Rightarrow> evbuffer_chain list \<Rightarrow> (evbuffer_chain list \<times> fast_result) option" where
  "fast_loop datlen n first used avail [] = Some ([], Ran_off avail)"
| "fast_loop datlen n first used avail (c # cs) =
    (if off c \<noteq> 0 \<and> \<not> first then None
     else
       (let sp = (if off c \<noteq> 0 then CHAIN_SPACE_LEN c else buffer_len c);
            used' = (if off c = 0 \<or> sp \<noteq> 0 then Suc used else used);
            avail' = avail + sp;
            c' = (if off c = 0 then c\<lparr>misalign := 0\<rparr> else c)
        in if avail' \<ge> datlen then Some (c' # cs, Enough)
           else if used' = n then Some (c' # cs, Full)
           else map_option (\<lambda>(cs', r). (c' # cs', r)) (fast_loop datlen n False used' avail' cs)))"

text \<open>Replacing all empty chains at the end by a new one.\<close>

definition nuke_empty :: "nat option \<Rightarrow> nat \<Rightarrow> evbuffer \<Rightarrow> (int \<times> evbuffer) option" where
  "nuke_empty new datlen buf =
    (let k = last_with_data buf; c = chains buf ! k; rmv_all = (off c = 0);
         avail = (if rmv_all then 0 else CHAIN_SPACE_LEN c);
         kept = (if rmv_all then [] else take (Suc k) (chains buf))
     in if (rmv_all \<and> k \<noteq> 0) \<or> \<not> evbuffer_chains_all_empty (drop (Suc k) (chains buf)) then None
        else case evbuffer_chain_new new (datlen - avail) of
          None \<Rightarrow> Some (- 1, if rmv_all then ZERO_CHAIN buf else buf\<lparr>chains := kept\<rparr>)
        | Some tmp \<Rightarrow> Some (0, buf\<lparr>chains := kept @ [tmp]\<rparr>))"

definition evbuffer_expand_fast :: "nat option \<Rightarrow> nat \<Rightarrow> nat \<Rightarrow> evbuffer \<Rightarrow> (int \<times> evbuffer) option" where
  "evbuffer_expand_fast new datlen n buf =
    (if chains buf = [] \<or> immutable (last (chains buf))
     then map_option (\<lambda>(r, b). (if r = None then - 1 else 0, b)) (evbuffer_chain_insert_new new datlen buf)
     else case fast_loop datlen n True 0 0 (drop (last_with_data buf) (chains buf)) of None \<Rightarrow> None
     | Some (cs, r) \<Rightarrow>
        (let buf1 = buf\<lparr>chains := take (last_with_data buf) (chains buf) @ cs\<rparr> in
         case r of Enough \<Rightarrow> Some (0, buf1)
         | Ran_off avail \<Rightarrow>
            (case evbuffer_chain_new new (datlen - avail) of None \<Rightarrow> Some (- 1, buf1)
             | Some tmp \<Rightarrow> Some (0, buf1\<lparr>chains := chains buf1 @ [tmp]\<rparr>))
         | Full \<Rightarrow> nuke_empty new datlen buf1))"

section \<open>Reserving and committing\<close>

text \<open>The first chain with space at or behind \<open>last_with_datap\<close>.\<close>

definition first_with_space :: "evbuffer \<Rightarrow> nat" where
  "first_with_space buf = (if CHAIN_SPACE_LEN (chains buf ! last_with_data buf) = 0 then Suc (last_with_data buf) else last_with_data buf)"

fun setup_loop :: "nat \<Rightarrow> nat \<Rightarrow> bool \<Rightarrow> nat \<Rightarrow> evbuffer_chain list \<Rightarrow> iovec list option" where
  "setup_loop 0 howmuch exact so_far cs = Some []"
| "setup_loop (Suc n) howmuch exact so_far cs =
    (if so_far \<ge> howmuch then Some []
     else case cs of [] \<Rightarrow> None
     | c # cs' \<Rightarrow>
        (let avail = (if CHAIN_SPACE_LEN c > howmuch - so_far \<and> exact then howmuch - so_far else CHAIN_SPACE_LEN c)
         in map_option ((#) (CHAIN_SPACE_PTR c, avail)) (setup_loop n howmuch exact (so_far + avail) cs')))"

text \<open>The pieces of space, \<open>Some None\<close> for the result -1; with no chain at all the code follows a null pointer.\<close>

definition evbuffer_read_setup_vecs :: "evbuffer \<Rightarrow> int \<Rightarrow> nat \<Rightarrow> bool \<Rightarrow> iovec list option option" where
  "evbuffer_read_setup_vecs buf howmuch n_vecs_avail exact =
    (if howmuch < 0 then Some None
     else if last_with_data buf \<ge> length (chains buf) then None
     else map_option Some (setup_loop n_vecs_avail (nat howmuch) exact 0 (drop (first_with_space buf) (chains buf))))"

text \<open>The result is the list of pieces, \<open>None\<close> inside for -1. A negative size is a huge \<open>size_t\<close> that is not modelled here.\<close>

definition evbuffer_reserve_space :: "nat option \<Rightarrow> evbuffer \<Rightarrow> nat \<Rightarrow> nat \<Rightarrow> (iovec list option \<times> evbuffer) option" where
  "evbuffer_reserve_space new buf sz n_vecs =
    (if freeze_end buf \<or> n_vecs < 1 then Some (None, buf)
     else if n_vecs = 1
     then (case evbuffer_expand_singlechain new sz buf of None \<Rightarrow> None
           | Some (None, b) \<Rightarrow> Some (None, b)
           | Some (Some i, b) \<Rightarrow> Some (Some [(CHAIN_SPACE_PTR (chains b ! i), CHAIN_SPACE_LEN (chains b ! i))], b))
     else case evbuffer_expand_fast new sz n_vecs buf of None \<Rightarrow> None
     | Some (r, b) \<Rightarrow> if r < 0 then Some (None, b)
        else map_option (\<lambda>v. (v, b)) (evbuffer_read_setup_vecs b (int sz) n_vecs False))"

definition grow_chain :: "nat \<Rightarrow> evbuffer_chain \<Rightarrow> evbuffer_chain" where
  "grow_chain n c = c\<lparr>off := off c + n\<rparr>"

text \<open>The two passes of \<open>evbuffer_commit_space\<close>, and the index of the last chain that got bytes.\<close>

definition vecs_in_bounds :: "iovec list \<Rightarrow> evbuffer_chain list \<Rightarrow> bool" where
  "vecs_in_bounds vec cs \<longleftrightarrow> length vec \<le> length cs
     \<and> list_all (\<lambda>((p, n), c). p = CHAIN_SPACE_PTR c \<and> n \<le> CHAIN_SPACE_LEN c) (zip vec cs)"

definition grow_chains :: "iovec list \<Rightarrow> evbuffer_chain list \<Rightarrow> evbuffer_chain list" where
  "grow_chains vec cs = map (\<lambda>((p, n), c). grow_chain n c) (zip vec cs) @ drop (length vec) cs"

fun last_used :: "nat \<Rightarrow> nat \<Rightarrow> iovec list \<Rightarrow> nat" where
  "last_used k i [] = k"
| "last_used k i ((p, n) # vec) = last_used (if n \<noteq> 0 then i else k) (Suc i) vec"

definition evbuffer_commit_space :: "evbuffer \<Rightarrow> iovec list \<Rightarrow> int \<times> evbuffer" where
  "evbuffer_commit_space buf vec =
    (if freeze_end buf then (- 1, buf)
     else if vec = [] then (0, buf)
     else if length vec = 1 \<and> chains buf \<noteq> [] \<and> fst (hd vec) = CHAIN_SPACE_PTR (last (chains buf))
     then (let n = snd (hd vec); c = last (chains buf) in
           if n > CHAIN_SPACE_LEN c then (- 1, buf)
           else let buf1 = set_last (grow_chain n c) buf;
                    buf2 = (if n \<noteq> 0 then advance_last_with_data buf1 else buf1)
                in (0, evbuffer_invoke_callbacks (count_added n buf2)))
     else if last_with_data buf \<ge> length (chains buf) then (- 1, buf)
     else (let i = first_with_space buf in
           if \<not> vecs_in_bounds vec (drop i (chains buf)) then (- 1, buf)
           else (0, evbuffer_invoke_callbacks (count_added (sum_list (map snd vec))
                  (buf\<lparr>chains := take i (chains buf) @ grow_chains vec (drop i (chains buf)),
                       last_with_data := last_used (last_with_data buf) i vec\<rparr>)))))"

text \<open>The caller writes \<open>bs\<close> at an address.\<close>

definition write_at :: "nat \<times> nat \<Rightarrow> bytes \<Rightarrow> evbuffer \<Rightarrow> evbuffer" where
  "write_at p bs buf = buf\<lparr>chains := map (\<lambda>c. if caddr c = fst p then store (snd p) bs c else c) (chains buf)\<rparr>"

section \<open>Room does not change the bytes\<close>

lemma insert_new_spec:
  assumes "evb_ok buf"
  shows "\<exists>i b. evbuffer_chain_insert_new (Some a) datlen buf = Some (Some i, b) \<and> evb_becomes buf b (contents buf) \<and> Suc i = length (chains b)
     \<and> CHAIN_SPACE_LEN (last (chains b)) \<ge> datlen \<and> caddr (last (chains b)) = a \<and> off (last (chains b)) = 0
     \<and> last_with_data b \<le> i \<and> length (chains b) \<le> last_with_data b + 2"
proof -
  obtain c where c: "evbuffer_chain_new (Some a) datlen = Some c" by (cases "evbuffer_chain_new (Some a) datlen") auto
  note new = chain_new_spec [OF c]
  have cok: "chain_ok c" "CHAIN_SPACE_LEN c \<ge> datlen" using new by (simp_all add: chain_ok_def CHAIN_SPACE_LEN_def)
  show ?thesis
  proof (cases "chains buf = []")
    case True
    with assms have "evbuffer_chain_insert c buf = Some (buf\<lparr>chains := [c]\<rparr>)" using new by (simp add: evbuffer_chain_insert_def evb_ok_def)
    then show ?thesis using c cok new True assms
      by (auto simp: evbuffer_chain_insert_new_def evb_becomes_def evb_ok_def contents_def)
  next
    case False
    obtain xs x rest where sp: "chains buf = xs @ x # rest" "last_with_data buf = length xs" "evbuffer_chains_all_empty rest"
      "list_all chain_ok xs" "chain_ok x" "list_all chain_ok rest"
      using evb_ok_split [OF assms False] by blast
    have tl: "total_len buf = sum_list (map off xs) + off x" using assms sp by (simp add: evb_ok_def)
    let ?cs = "(if off x = 0 then xs else xs @ [x]) @ [c]"
    have "evbuffer_chain_insert c buf = Some (buf\<lparr>chains := ?cs\<rparr>)"
      using sp new by (auto simp: evbuffer_chain_insert_def victims_split [OF sp(1-3)])
    then show ?thesis using c cok new sp tl
      by (auto simp: evbuffer_chain_insert_new_def evb_becomes_def evb_ok_def contents_def)
  qed
qed

text \<open>Replacing a chain by one with the same bytes.\<close>

lemma update_chain:
  assumes "evb_ok buf" "i < length (chains buf)" "chain_ok c" "cdata c = cdata (chains buf ! i)" "off c = off (chains buf ! i)"
  shows "evb_becomes buf (buf\<lparr>chains := (chains buf)[i := c]\<rparr>) (contents buf)"
proof -
  have "map off ((chains buf)[i := c]) = map off (chains buf)" "map cdata ((chains buf)[i := c]) = map cdata (chains buf)"
    using assms by (metis list_update_id map_update)+
  moreover have "list_all chain_ok ((chains buf)[i := c])"
    using assms by (auto simp: evb_ok_def list_all_iff dest!: set_update_subset_insert [THEN subsetD])
  moreover have "evbuffer_chains_all_empty (drop (Suc k) ((chains buf)[i := c])) = evbuffer_chains_all_empty (drop (Suc k) (chains buf))" for k
  proof -
    have "map off (drop (Suc k) ((chains buf)[i := c])) = map off (drop (Suc k) (chains buf))"
      using calculation(1) by (metis drop_map)
    moreover have "evbuffer_chains_all_empty cs \<longleftrightarrow> list_all (\<lambda>n. n = 0) (map off cs)" for cs
      by (simp add: evbuffer_chains_all_empty_def list.pred_map comp_def)
    ultimately show ?thesis by simp
  qed
  ultimately show ?thesis using assms(1)
    by (simp add: evb_becomes_def evb_ok_def contents_def chain_bytes_def)
qed

text \<open>At most one empty chain waits behind the last one with data; the lemma about room says what a commit then finds.\<close>

definition evb_spare :: "evbuffer \<Rightarrow> bool" where
  "evb_spare buf \<longleftrightarrow> length (chains buf) \<le> last_with_data buf + 2"

definition room :: "evbuffer \<Rightarrow> nat \<Rightarrow> nat option \<times> evbuffer \<Rightarrow> bool" where
  "room buf datlen r \<longleftrightarrow> (\<exists>i. fst r = Some i \<and> evb_becomes buf (snd r) (contents buf) \<and> i < length (chains (snd r))
     \<and> CHAIN_SPACE_LEN (chains (snd r) ! i) \<ge> datlen \<and> last_with_data (snd r) \<le> i
     \<and> (evb_spare buf \<longrightarrow> evb_spare (snd r) \<and> (Suc i = length (chains (snd r)) \<or> i = first_with_space (snd r))))"

lemma room_insert_new:
  assumes "evb_ok buf"
  shows "\<exists>r. evbuffer_chain_insert_new (Some a) datlen buf = Some r \<and> room buf datlen r"
proof -
  obtain i b where r: "evbuffer_chain_insert_new (Some a) datlen buf = Some (Some i, b)" "evb_becomes buf b (contents buf)" "Suc i = length (chains b)"
     "CHAIN_SPACE_LEN (last (chains b)) \<ge> datlen" "last_with_data b \<le> i" "length (chains b) \<le> last_with_data b + 2"
    using insert_new_spec [OF assms, of a datlen] by blast
  moreover have "last (chains b) = chains b ! i" using r(3) by (metis last_conv_nth diff_Suc_1 length_greater_0_conv zero_less_Suc)
  ultimately show ?thesis by (auto simp: room_def evb_spare_def)
qed

lemma room_realign:
  assumes ok: "evb_ok buf" and i: "i < length (chains buf)" "last_with_data buf \<le> i" "evb_spare buf \<longrightarrow> Suc i = length (chains buf) \<or> i = last_with_data buf"
    and c: "chain_ok c" "cdata c = cdata (chains buf ! i)" "off c = off (chains buf ! i)" "CHAIN_SPACE_LEN c \<ge> datlen" "CHAIN_SPACE_LEN c \<noteq> 0"
  shows "room buf datlen (Some i, buf\<lparr>chains := (chains buf)[i := c]\<rparr>)"
  using update_chain [OF ok i(1) c(1-3)] i c(4,5) by (auto simp: room_def evb_spare_def first_with_space_def)

lemma room_resize:
  assumes ok: "evb_ok buf" and i: "i < length (chains buf)" "last_with_data buf \<le> i" "evb_spare buf \<longrightarrow> Suc i = length (chains buf) \<or> i = last_with_data buf"
    and d: "datlen \<noteq> 0"
  shows "room buf datlen (resize_chain (Some a) datlen i buf)"
proof -
  let ?c = "chains buf ! i"
  obtain tmp where t: "evbuffer_chain_new (Some a) (off ?c + datlen) = Some tmp" by (cases "evbuffer_chain_new (Some a) (off ?c + datlen)") auto
  note tmp = chain_new_spec [OF t]
  have cok: "chain_ok ?c" using ok i(1) by (simp add: evb_ok_def list_all_length)
  let ?t = "(store 0 (cdata ?c) tmp)\<lparr>off := off ?c\<rparr>"
  have "chain_ok ?t" "cdata ?t = cdata ?c" "CHAIN_SPACE_LEN ?t \<ge> datlen" "CHAIN_SPACE_LEN ?t \<noteq> 0"
    using tmp cok d by (auto simp: chain_ok_def cdata_def store_def buffer_len_def CHAIN_SPACE_LEN_def)
  with room_realign [OF ok i, of ?t datlen] show ?thesis by (simp add: resize_chain_def t Let_def)
qed

lemma room_checked:
  "room buf datlen r \<Longrightarrow> (case Some r of Some (Some j, b) \<Rightarrow> if CHAIN_SPACE_LEN (chains b ! j) \<ge> datlen then Some r else None | _ \<Rightarrow> Some r) = Some r"
  by (cases r) (auto simp: room_def)

lemma align_space: "chain_ok c \<Longrightarrow> \<not> immutable c \<Longrightarrow> CHAIN_SPACE_LEN (evbuffer_chain_align c) = buffer_len c - off c"
  by (simp add: CHAIN_SPACE_LEN_def) (simp add: evbuffer_chain_align_def)

lemma expand_singlechain_spec:
  assumes ok: "evb_ok buf"
  shows "\<exists>r. evbuffer_expand_singlechain (Some a) datlen buf = Some r \<and> room buf datlen r"
proof -
  define k where "k = last_with_data buf"
  define i where "i = (if k < length (chains buf) \<and> CHAIN_SPACE_LEN (chains buf ! k) = 0 then Suc k else k)"
  define c where "c = chains buf ! i"
  let ?ins = "evbuffer_chain_insert_new (Some a) datlen buf"
  let ?r = "if i \<ge> length (chains buf) \<or> immutable c then ?ins
              else if CHAIN_SPACE_LEN c \<ge> datlen then Some (Some i, buf)
              else if off c = 0 then ?ins
              else if evbuffer_chain_should_realign c datlen then Some (Some i, buf\<lparr>chains := (chains buf)[i := evbuffer_chain_align c]\<rparr>)
              else if CHAIN_SPACE_LEN c < buffer_len c div 8 \<or> off c > 4096
              then (if Suc i < length (chains buf) \<and> CHAIN_SPACE_LEN (chains buf ! Suc i) \<ge> datlen then Some (Some (Suc i), buf) else ?ins)
              else Some (resize_chain (Some a) datlen i buf)"
  have "\<exists>r. ?r = Some r \<and> room buf datlen r"
  proof (cases "i < length (chains buf) \<and> \<not> immutable c")
    case False
    then show ?thesis using room_insert_new [OF ok] by auto
  next
    case True
    then have len: "i < length (chains buf)" "\<not> immutable c" by simp_all
    have i: "k \<le> i" "i \<le> Suc k" "i = k \<or> Suc i = length (chains buf) \<or> \<not> evb_spare buf" "i = first_with_space buf"
      using len by (auto simp: i_def evb_spare_def k_def first_with_space_def)
    have sp: "evb_spare buf \<longrightarrow> Suc i = length (chains buf) \<or> i = last_with_data buf" using i by (auto simp: k_def)
    have cok: "chain_ok c" using ok len by (simp add: evb_ok_def list_all_length c_def)
    have a: "chain_ok (evbuffer_chain_align c)" "cdata (evbuffer_chain_align c) = cdata (chains buf ! i)" "off (evbuffer_chain_align c) = off (chains buf ! i)"
      using chain_align_spec [OF cok] by (simp_all add: c_def)
    have al: "room buf datlen (Some i, buf\<lparr>chains := (chains buf)[i := evbuffer_chain_align c]\<rparr>)"
      if "evbuffer_chain_should_realign c datlen" "\<not> CHAIN_SPACE_LEN c \<ge> datlen"
      by (rule room_realign [OF ok len(1) _ sp a])
         (use i(1) that align_space [OF cok len(2)] in \<open>auto simp: k_def evbuffer_chain_should_realign_def\<close>)
    have rs: "room buf datlen (resize_chain (Some a) datlen i buf)" if "\<not> CHAIN_SPACE_LEN c \<ge> datlen"
      by (rule room_resize) (use ok len i sp that in \<open>auto simp: k_def\<close>)
    have nx: "room buf datlen (Some (Suc i), buf)" if "Suc i < length (chains buf)" "CHAIN_SPACE_LEN (chains buf ! Suc i) \<ge> datlen"
      using that ok i by (auto simp: room_def evb_becomes_def evb_spare_def k_def)
    have this_one: "room buf datlen (Some i, buf)" if "CHAIN_SPACE_LEN c \<ge> datlen"
      using that ok i len by (auto simp: room_def evb_becomes_def k_def c_def)
    show ?thesis using True al rs nx this_one room_insert_new [OF ok, of a datlen] by (auto simp del: split_paired_Ex)
  qed
  then obtain r where r: "?r = Some r" "room buf datlen r" by blast
  have "evbuffer_expand_singlechain (Some a) datlen buf =
      (case ?r of Some (Some j, b) \<Rightarrow> if CHAIN_SPACE_LEN (chains b ! j) \<ge> datlen then ?r else None | _ \<Rightarrow> ?r)"
    unfolding evbuffer_expand_singlechain_def Let_def k_def [symmetric] i_def [symmetric] c_def [symmetric] ..
  also have "\<dots> = Some r" unfolding r(1) by (rule room_checked [OF r(2)])
  finally show ?thesis using r(2) by blast
qed

section \<open>What is committed is appended\<close>

text \<open>The allocator returns an address that no chain has; then no two chains have the same.\<close>

definition fresh_addr :: "nat \<Rightarrow> evbuffer \<Rightarrow> bool" where
  "fresh_addr a buf \<longleftrightarrow> distinct (a # map caddr (chains buf))"

lemma kept_prefix: "\<exists>n. kept_chains buf = take n (chains buf)"
proof -
  have "kept_chains buf @ victims buf = chains buf" by (simp add: kept_chains_def victims_def)
  then show ?thesis by (metis append_eq_conv_conj)
qed

lemma distinct_insert_new:
  assumes "fresh_addr a buf" "evbuffer_chain_insert_new (Some a) datlen buf = Some (i, b)"
  shows "distinct (map caddr (chains b))"
proof -
  obtain n where n: "kept_chains buf = take n (chains buf)" using kept_prefix by blast
  obtain c where c: "evbuffer_chain_new (Some a) datlen = Some c" "caddr c = a"
    using chain_new_spec(5) [of "Some a" datlen] by (cases "evbuffer_chain_new (Some a) datlen") auto
  have "evbuffer_chain_insert c buf = None \<or> (\<exists>b m. evbuffer_chain_insert c buf = Some b \<and> chains b = take m (chains buf) @ [c])"
    unfolding evbuffer_chain_insert_def n by (auto intro: exI [of _ "length (chains buf)"])
  with assms(2) c(1) obtain m where "chains b = take m (chains buf) @ [c]" by (auto simp: evbuffer_chain_insert_new_def)
  then have "map caddr (chains b) = take m (map caddr (chains buf)) @ [a]" using c(2) by (simp add: take_map)
  then show ?thesis using assms(1) by (auto simp: fresh_addr_def dest: in_set_takeD)
qed

lemma distinct_update:
  assumes "fresh_addr a buf" "caddr c = a \<or> i < length (chains buf) \<and> caddr c = caddr (chains buf ! i)"
  shows "distinct (map caddr ((chains buf)[i := c]))"
proof (cases "caddr c = a")
  case True
  then show ?thesis using assms(1) by (auto simp: fresh_addr_def map_update intro!: distinct_list_update)
next
  case False
  with assms(2) have "(map caddr (chains buf))[i := caddr c] = map caddr (chains buf)" by (metis list_update_id nth_map)
  then show ?thesis using assms(1) by (simp add: fresh_addr_def map_update)
qed

lemma distinct_expand:
  assumes f: "fresh_addr a buf" and e: "evbuffer_expand_singlechain (Some a) datlen buf = Some (r, b)"
  shows "distinct (map caddr (chains b))"
proof -
  have al: "distinct (map caddr ((chains buf)[i := evbuffer_chain_align (chains buf ! i)]))" for i
    by (cases "i < length (chains buf)")
       (use f distinct_update [OF f] in \<open>auto simp: fresh_addr_def evbuffer_chain_align_def list_update_beyond\<close>)
  have rs: "distinct (map caddr (chains b'))" if "resize_chain (Some a) datlen i buf = (x, b')" for i x b'
    using that f distinct_update [OF f] chain_new_spec(5) [of "Some a"]
    by (auto simp: resize_chain_def Let_def fresh_addr_def split: option.splits)
  from e f distinct_insert_new [OF f, of datlen] al rs show ?thesis
    by (auto simp: evbuffer_expand_singlechain_def Let_def fresh_addr_def split: if_splits option.splits prod.splits)
qed

text \<open>The caller's bytes go to the space of the chain with that address, and to no other.\<close>

lemma write_at_nth:
  assumes "distinct (map caddr (chains b))" "i < length (chains b)"
  shows "write_at (CHAIN_SPACE_PTR (chains b ! i)) bs b = b\<lparr>chains := (chains b)[i := store (misalign (chains b ! i) + off (chains b ! i)) bs (chains b ! i)]\<rparr>"
proof -
  let ?c = "chains b ! i"
  have "map (\<lambda>c. if caddr c = caddr ?c then store (misalign ?c + off ?c) bs c else c) (chains b) = (chains b)[i := store (misalign ?c + off ?c) bs ?c]"
    by (rule nth_equalityI) (use assms in \<open>auto simp: nth_list_update distinct_conv_nth\<close>)
  then show ?thesis unfolding write_at_def CHAIN_SPACE_PTR_def fst_conv snd_conv by simp
qed

text \<open>Growing a chain at or behind the last one with data by bytes that are there.\<close>

lemma append_at:
  assumes ok: "evb_ok b" and i: "i < length (chains b)" "last_with_data b \<le> i" and c: "chain_ok c" "cdata c = cdata (chains b ! i) @ bs"
    "off c = off (chains b ! i) + length bs" and k: "k = (if bs = [] then last_with_data b else i)"
    and b': "b' = b\<lparr>chains := (chains b)[i := c], last_with_data := k, total_len := total_len b + length bs, n_add_for_cb := n\<rparr>"
  shows "evb_becomes b b' (contents b @ bs)" "evb_spare b \<Longrightarrow> evb_spare b'"
proof -
  obtain xs x rest where ch: "chains b = xs @ x # rest" "length xs = i"
    using id_take_nth_drop [OF i(1)] i(1) by (metis length_take less_imp_le min.absorb2)
  have upd: "(chains b)[i := c] = xs @ c # rest" "chains b ! i = x" using ch by (auto simp: nth_append)
  have e: "evbuffer_chains_all_empty rest" "evbuffer_chains_all_empty (drop (Suc (last_with_data b)) (xs @ x # rest))"
    using ok ch i(2) by (auto simp: evb_ok_def drop_Cons' split: if_splits)
  show "evb_becomes b b' (contents b @ bs)"
    using ok ch c e upd i(2) unfolding b' k by (cases "last_with_data b = i") (auto simp: evb_becomes_def evb_ok_def contents_def drop_Cons' split: if_splits)
  show "evb_spare b \<Longrightarrow> evb_spare b'" using i(2) by (auto simp: b' k evb_spare_def)
qed

lemma commit_one:
  assumes ok: "evb_ok b" and sp: "evb_spare b" and nf: "\<not> freeze_end b" and d: "distinct (map caddr (chains b))"
    and i: "i < length (chains b)" "last_with_data b \<le> i" "Suc i = length (chains b) \<or> i = first_with_space b"
    and bs: "length bs \<le> CHAIN_SPACE_LEN (chains b ! i)" and p: "p = CHAIN_SPACE_PTR (chains b ! i)"
  shows "\<exists>b'. evbuffer_commit_space (write_at p bs b) [(p, length bs)] = (0, b') \<and> evb_becomes b b' (contents b @ bs) \<and> evb_spare b'"
proof -
  define c where "c = chains b ! i"
  define c1 where "c1 = store (misalign c + off c) bs c"
  define b1 where "b1 = b\<lparr>chains := (chains b)[i := c1]\<rparr>"
  have cok: "chain_ok c" using ok i(1) by (simp add: c_def evb_ok_def list_all_length)
  then have fit: "misalign c + off c + length bs \<le> buffer_len c" using bs by (auto simp: c_def [symmetric] CHAIN_SPACE_LEN_def chain_ok_def split: if_splits)
  have bsc: "length bs \<le> CHAIN_SPACE_LEN c" using bs by (simp add: c_def)
  have c1: "CHAIN_SPACE_PTR c1 = p" "CHAIN_SPACE_LEN c1 = CHAIN_SPACE_LEN c" "caddr c1 = caddr c"
    using fit by (simp_all add: c1_def p c_def [symmetric] CHAIN_SPACE_PTR_def CHAIN_SPACE_LEN_def)
  have g: "grow_chain (length bs) c1 = append_data bs c" by (simp add: c1_def grow_chain_def append_data_def)
  have w: "write_at p bs b = b1" unfolding p using write_at_nth [OF d i(1)] by (simp add: b1_def c1_def c_def)
  define k where "k = (if bs = [] then last_with_data b else i)"
  define b' where "b' = b\<lparr>chains := (chains b)[i := append_data bs c], last_with_data := k, total_len := total_len b + length bs,
    n_add_for_cb := n_add_for_cb b + length bs\<rparr>"
  have app: "evb_becomes b b' (contents b @ bs)" "evb_spare b'"
    using append_at [OF ok i(1,2), of "append_data bs c" bs k b'] fit sp by (simp_all add: c_def [symmetric] k_def b'_def)
  obtain xs rest where ch: "chains b = xs @ c # rest" "length xs = i"
    using id_take_nth_drop [OF i(1)] i(1) by (metis c_def length_take less_imp_le min.absorb2)
  have ch1: "chains b1 = xs @ c1 # rest" "chains b' = xs @ append_data bs c # rest" using ch by (auto simp: b1_def b'_def)
  have "evbuffer_commit_space b1 [(p, length bs)] = (0, evbuffer_invoke_callbacks b')"
  proof (cases "Suc i = length (chains b)")
    case True
    then have r: "rest = []" using ch by simp
    have "last_with_data b = i \<or> Suc (last_with_data b) = i" using sp i(2) True by (auto simp: evb_spare_def)
    then have "evbuffer_commit_space b1 [(p, length bs)] = (0, evbuffer_invoke_callbacks (count_added (length bs) (b\<lparr>chains := xs @ [append_data bs c], last_with_data := k\<rparr>)))"
      using ch ch1 r nf c1 bsc fit g
      by (auto simp: evbuffer_commit_space_def Let_def set_last_def advance_last_with_data_def k_def c_def [symmetric] b1_def)
    then show ?thesis using ch r by (auto simp: count_added_def b'_def)
  next
    case False
    then have fw: "i = first_with_space b" and r: "rest \<noteq> []" using i ch by auto
    then have fw1: "first_with_space b1 = i" "last_with_data b1 < length (chains b1)"
      using ch ch1 c1 i(2) unfolding first_with_space_def
      by (auto simp: b1_def nth_append nth_list_update split: if_splits)
    have "caddr (last rest) \<noteq> caddr c" using d ch r by (auto simp: image_iff) (metis last_in_set)
    then have "p \<noteq> CHAIN_SPACE_PTR (last (chains b1))" using ch1 r by (simp add: p c_def [symmetric] CHAIN_SPACE_PTR_def)
    then show ?thesis using fw1 ch ch1 c1 nf bsc g
      by (auto simp: evbuffer_commit_space_def Let_def vecs_in_bounds_def grow_chains_def count_added_def b'_def k_def c_def [symmetric] b1_def)
  qed
  then show ?thesis using app w by (auto simp: evb_spare_def)
qed

text \<open>
  Reserving space in one chain, writing at most that many bytes to it and committing them appends exactly these bytes to the
  buffer, whichever of the six ways of making room is taken, as long as at most one empty chain waits at the end; the reservation
  itself does not change the bytes.
\<close>

theorem reserve_commit_appends:
  assumes ok: "evb_ok buf" and sp: "evb_spare buf" and nf: "\<not> freeze_end buf" and fr: "fresh_addr a buf" and bs: "length bs \<le> sz"
  shows "\<exists>p n b b'. evbuffer_reserve_space (Some a) buf sz 1 = Some (Some [(p, n)], b) \<and> sz \<le> n \<and> evb_becomes buf b (contents buf)
     \<and> evbuffer_commit_space (write_at p bs b) [(p, length bs)] = (0, b') \<and> evb_becomes buf b' (contents buf @ bs) \<and> evb_spare b'"
proof -
  obtain r where r: "evbuffer_expand_singlechain (Some a) sz buf = Some r" "room buf sz r" using expand_singlechain_spec [OF ok] by blast
  obtain i b where ib: "r = (Some i, b)" using r(2) by (cases r) (auto simp: room_def)
  have b: "evb_becomes buf b (contents buf)" "i < length (chains b)" "CHAIN_SPACE_LEN (chains b ! i) \<ge> sz" "last_with_data b \<le> i" "evb_spare b"
    "Suc i = length (chains b) \<or> i = first_with_space b"
    using r(2) sp ib by (auto simp: room_def)
  have d: "distinct (map caddr (chains b))" using distinct_expand [OF fr] r(1) ib by blast
  have "evb_ok b" "\<not> freeze_end b" "length bs \<le> CHAIN_SPACE_LEN (chains b ! i)" using b bs nf by (auto simp: evb_becomes_def)
  from commit_one [OF this(1) b(5) this(2) d b(2,4,6) this(3) refl] obtain b' where
    b': "evbuffer_commit_space (write_at (CHAIN_SPACE_PTR (chains b ! i)) bs b) [(CHAIN_SPACE_PTR (chains b ! i), length bs)] = (0, b')"
    "evb_becomes b b' (contents b @ bs)" "evb_spare b'" by blast
  have "evbuffer_reserve_space (Some a) buf sz 1 = Some (Some [(CHAIN_SPACE_PTR (chains b ! i), CHAIN_SPACE_LEN (chains b ! i))], b)"
    using r(1) ib nf by (simp add: evbuffer_reserve_space_def)
  moreover have "evb_becomes buf b' (contents buf @ bs)" using b'(2) b(1) by (simp add: evb_becomes_def)
  ultimately show ?thesis using b b' by blast
qed

theorem reserve_commit_appends_witness:
  "evb_ok evbuffer_new \<and> evb_spare evbuffer_new \<and> fresh_addr 1 evbuffer_new
   \<and> (\<exists>p n b b'. evbuffer_reserve_space (Some 1) evbuffer_new 5 1 = Some (Some [(p, n)], b)
        \<and> evbuffer_commit_space (write_at p [7, 8] b) [(p, 2)] = (0, b') \<and> contents b' = [7, 8])"
proof -
  have h: "evb_spare evbuffer_new" "fresh_addr 1 evbuffer_new" "\<not> freeze_end evbuffer_new"
    by (simp_all add: evb_spare_def fresh_addr_def evbuffer_new_def)
  from reserve_commit_appends [OF evb_ok_new(1) h(1,3,2), of "[7, 8]" 5] h show ?thesis
    by (fastforce simp: evb_becomes_def numeral_2_eq_2)
qed

section \<open>Reading from and writing to a socket\<close>

definition EVBUFFER_MAX_READ :: nat where
  "EVBUFFER_MAX_READ = 4096"

definition NUM_READ_IOVEC :: nat where
  "NUM_READ_IOVEC = 4"

definition NUM_WRITE_IOVEC :: nat where
  "NUM_WRITE_IOVEC = 16"

text \<open>How much to read, from the request and from what \<open>get_n_bytes_readable_on_socket\<close> returned.\<close>

definition read_amount :: "int \<Rightarrow> int \<Rightarrow> nat" where
  "read_amount readable howmuch =
    (let n = (if readable \<le> 0 \<or> readable > int EVBUFFER_MAX_READ then int EVBUFFER_MAX_READ else readable)
     in nat (if howmuch < 0 \<or> howmuch > n then n else howmuch))"

text \<open>The system call fills the pieces, which are the space of successive chains, one after the other.\<close>

fun receive_into :: "iovec list \<Rightarrow> bytes \<Rightarrow> evbuffer_chain list \<Rightarrow> evbuffer_chain list" where
  "receive_into ((p, n) # vec) bs (c # cs) = store (misalign c + off c) (take n bs) c # receive_into vec (drop n bs) cs"
| "receive_into _ bs cs = cs"

text \<open>The loop behind it: the number of bytes read is spread over the chains, and the last chain that gets any is noted.\<close>

fun spread_read :: "nat \<Rightarrow> nat \<Rightarrow> nat \<Rightarrow> evbuffer_chain list \<Rightarrow> evbuffer_chain list \<times> nat option" where
  "spread_read (Suc nvecs) remaining i (c # cs) =
    (if CHAIN_SPACE_LEN c < remaining
     then (case spread_read nvecs (remaining - CHAIN_SPACE_LEN c) (Suc i) cs of (cs', l) \<Rightarrow> (grow_chain (CHAIN_SPACE_LEN c) c # cs', l))
     else (grow_chain remaining c # cs, Some i))"
| "spread_read _ remaining i cs = (cs, None)"

text \<open>
  \<open>nv\<close> is the number of pieces that \<open>_evbuffer_read_setup_vecs\<close> may use (4 with native vectors, 2 on Windows), \<open>received\<close> what
  the system call delivers for these pieces, \<open>None\<close> when it fails.
\<close>

definition evbuffer_read :: "nat option \<Rightarrow> nat \<Rightarrow> int \<Rightarrow> (iovec list \<Rightarrow> bytes option) \<Rightarrow> evbuffer \<Rightarrow> int \<Rightarrow> (int \<times> evbuffer) option" where
  "evbuffer_read new nv readable received buf howmuch =
    (if freeze_end buf then Some (- 1, buf)
     else case evbuffer_expand_fast new (read_amount readable howmuch) NUM_READ_IOVEC buf of None \<Rightarrow> None
     | Some (r, b) \<Rightarrow>
        if r = - 1 then Some (- 1, b)
        else case evbuffer_read_setup_vecs b (int (read_amount readable howmuch)) nv True of None \<Rightarrow> None
        | Some None \<Rightarrow> None
        | Some (Some vec) \<Rightarrow>
           (case received vec of None \<Rightarrow> Some (- 1, b)
            | Some bs \<Rightarrow>
               if bs = [] then Some (0, b)
               else (let k = first_with_space b;
                         (cs, l) = spread_read (length vec) (length bs) k (receive_into vec bs (drop k (chains b)))
                     in Some (int (length bs), evbuffer_invoke_callbacks (count_added (length bs)
                          (b\<lparr>chains := take k (chains b) @ cs, last_with_data := (case l of None \<Rightarrow> last_with_data b | Some j \<Rightarrow> j)\<rparr>))))))"

text \<open>What \<open>evbuffer_write_iovec\<close> hands to the system call: pieces of the chains, at most 16 of them.\<close>

fun write_pieces :: "nat \<Rightarrow> nat \<Rightarrow> evbuffer_chain list \<Rightarrow> bytes list" where
  "write_pieces (Suc n) howmuch (c # cs) =
    (if howmuch = 0 then []
     else if howmuch \<ge> off c then cdata c # write_pieces n (howmuch - off c) cs
     else [take howmuch (cdata c)])"
| "write_pieces _ howmuch cs = []"

definition evbuffer_write_iovec :: "(bytes list \<Rightarrow> int) \<Rightarrow> evbuffer \<Rightarrow> int \<Rightarrow> int" where
  "evbuffer_write_iovec sent buf howmuch =
    (if howmuch < 0 then - 1
     else let iov = write_pieces NUM_WRITE_IOVEC (nat howmuch) (chains buf) in if iov = [] then 0 else sent iov)"

definition evbuffer_write_atmost :: "(bytes list \<Rightarrow> int) \<Rightarrow> evbuffer \<Rightarrow> int \<Rightarrow> (int \<times> evbuffer) option" where
  "evbuffer_write_atmost sent buf howmuch =
    (if freeze_start buf then Some (- 1, buf)
     else let h = (if howmuch < 0 \<or> howmuch > int (total_len buf) then int (total_len buf) else howmuch);
              n = (if h > 0 then evbuffer_write_iovec sent buf h else - 1)
          in if n > 0 then map_option (\<lambda>(_, b). (n, b)) (evbuffer_drain (nat n) buf) else Some (n, buf))"

definition evbuffer_write :: "(bytes list \<Rightarrow> int) \<Rightarrow> evbuffer \<Rightarrow> (int \<times> evbuffer) option" where
  "evbuffer_write sent buf = evbuffer_write_atmost sent buf (- 1)"

section \<open>A read appends, a write takes from the front\<close>

lemma write_pieces_prefix:
  assumes "list_all chain_ok cs"
  shows "\<exists>m \<le> h. concat (write_pieces n h cs) = take m (chain_bytes cs)"
  using assms
proof (induction n h cs rule: write_pieces.induct)
  case (1 n h c cs)
  show ?case
  proof (cases "h \<noteq> 0 \<and> off c \<le> h")
    case True
    with 1 obtain m where "m \<le> h - off c" "concat (write_pieces n (h - off c) cs) = take m (chain_bytes cs)" by auto
    then have "off c + m \<le> h" "concat (write_pieces (Suc n) h (c # cs)) = take (off c + m) (chain_bytes (c # cs))"
      using True 1(2) by auto
    then show ?thesis by blast
  next
    case False
    then show ?thesis using 1(2) by (cases "h = 0") (auto intro!: exI [of _ h])
  qed
qed (auto intro!: exI [of _ 0])

text \<open>
  Writing to a socket hands it the first bytes of the buffer, in order, and removes exactly those it accepted; when it
  accepts none or fails, and when there is nothing to write, the buffer stays as it is.
\<close>

theorem evbuffer_write_takes_front:
  assumes ok: "evb_ok buf" and nf: "\<not> freeze_start buf" and sent: "\<And>iov. sent iov \<le> int (length (concat iov))"
    and h: "h = (if howmuch < 0 \<or> howmuch > int (length (contents buf)) then length (contents buf) else nat howmuch)"
    and iov: "iov = write_pieces NUM_WRITE_IOVEC h (chains buf)" and r: "r = (if h = 0 then - 1 else if iov = [] then 0 else sent iov)"
  shows "(\<exists>b. evbuffer_write_atmost sent buf howmuch = Some (r, b) \<and> evb_becomes buf b (drop (nat r) (contents buf)))
     \<and> (\<exists>m \<le> h. concat iov = take m (contents buf) \<and> nat r \<le> m)"
proof -
  have eq: "evbuffer_write_atmost sent buf howmuch = (if r > 0 then map_option (\<lambda>(_, b). (r, b)) (evbuffer_drain (nat r) buf) else Some (r, buf))"
    unfolding r iov h using nf evb_ok_length [OF ok] by (auto simp: evbuffer_write_atmost_def evbuffer_write_iovec_def Let_def)
  have "list_all chain_ok (chains buf)" using ok by (simp add: evb_ok_def)
  from write_pieces_prefix [OF this, of h NUM_WRITE_IOVEC] obtain m where m: "m \<le> h" "concat iov = take m (contents buf)"
    by (auto simp: iov contents_def)
  then have rm: "nat r \<le> m" using sent [of iov] by (auto simp: r)
  show ?thesis
  proof (cases "r > 0")
    case True
    with drain_spec [OF ok, of "nat r"] nf eq m rm show ?thesis by auto
  next
    case False
    then show ?thesis using eq m rm ok by (auto simp: evb_becomes_def)
  qed
qed

text \<open>Three bytes in one chain, and a socket that takes two bytes at a time.\<close>

definition three_bytes :: evbuffer where
  "three_bytes = evbuffer_new\<lparr>chains := [\<lparr>caddr = 1, cbuffer = [7, 8, 9], misalign = 0, off = 3, immutable = True\<rparr>], total_len := 3\<rparr>"

lemma three_bytes_ok [simp]:
  "evb_ok three_bytes" "contents three_bytes = [7, 8, 9]" "freeze_start three_bytes = False" "freeze_end three_bytes = False"
  by (simp_all add: three_bytes_def evb_ok_def chain_ok_def buffer_len_def contents_def cdata_def evbuffer_new_def)

definition slow_socket :: "bytes list \<Rightarrow> int" where
  "slow_socket iov = min 2 (int (length (concat iov)))"

theorem evbuffer_write_takes_front_witness:
  "evb_ok three_bytes \<and> \<not> freeze_start three_bytes \<and> slow_socket [[7, 8, 9]] = 2
     \<and> (\<exists>b. evbuffer_write_atmost slow_socket three_bytes (- 1) = Some (2, b) \<and> contents b = [9])"
proof -
  have iov: "[[7, 8, 9]] = write_pieces NUM_WRITE_IOVEC 3 (chains three_bytes)"
    by (simp add: three_bytes_def cdata_def NUM_WRITE_IOVEC_def eval_nat_numeral)
  have s: "slow_socket iov \<le> int (length (concat iov))" for iov by (simp add: slow_socket_def)
  have h: "3 = (if (- 1 :: int) < 0 \<or> - 1 > int (length (contents three_bytes)) then length (contents three_bytes) else nat (- 1))" by simp
  have r: "2 = (if (3 :: nat) = 0 then - 1 else if [[7, 8, 9 :: UInt8]] = [] then 0 else slow_socket [[7, 8, 9]])"
    by (simp add: slow_socket_def)
  from evbuffer_write_takes_front [OF three_bytes_ok(1) _ s h iov r] obtain b where
    b: "evbuffer_write_atmost slow_socket three_bytes (- 1) = Some (2, b)" "evb_becomes three_bytes b (drop (nat 2) (contents three_bytes))" by auto
  have "contents b = [9]" using b(2) by (simp add: evb_becomes_def)
  then show ?thesis using b(1) by (simp add: slow_socket_def)
qed

text \<open>
  The state in which reading works: besides the invariant, the chain at \<open>last_with_datap\<close> has data or is the first, as its comment
  says, and no empty piece of foreign memory is in the buffer.
\<close>

definition evb_regular :: "evbuffer \<Rightarrow> bool" where
  "evb_regular buf \<longleftrightarrow> evb_ok buf \<and> list_all (\<lambda>c. immutable c \<longrightarrow> off c \<noteq> 0) (chains buf)
     \<and> (last_with_data buf \<noteq> 0 \<longrightarrow> off (chains buf ! last_with_data buf) \<noteq> 0)"

definition space :: "evbuffer_chain list \<Rightarrow> nat" where
  "space cs = sum_list (map CHAIN_SPACE_LEN cs)"

lemma space_simps [simp]: "space [] = 0" "space (c # cs) = CHAIN_SPACE_LEN c + space cs" "space (cs @ ds) = space cs + space ds"
  by (simp_all add: space_def)

text \<open>Chains with the same bytes.\<close>

definition same_bytes :: "evbuffer_chain list \<Rightarrow> evbuffer_chain list \<Rightarrow> bool" where
  "same_bytes cs ds \<longleftrightarrow> map off cs = map off ds \<and> map cdata cs = map cdata ds \<and> map immutable cs = map immutable ds \<and> list_all chain_ok ds"

lemma same_bytes_refl: "list_all chain_ok cs \<Longrightarrow> same_bytes cs cs"
  by (simp add: same_bytes_def)

lemma same_bytes_length: "same_bytes cs ds \<Longrightarrow> length ds = length cs"
  unfolding same_bytes_def by (metis length_map)

lemma same_bytes_Cons:
  "same_bytes cs ds \<Longrightarrow> off c = off d \<Longrightarrow> cdata c = cdata d \<Longrightarrow> immutable c = immutable d \<Longrightarrow> chain_ok d \<Longrightarrow> same_bytes (c # cs) (d # ds)"
  by (simp add: same_bytes_def)

lemma all_empty_map: "evbuffer_chains_all_empty cs \<longleftrightarrow> list_all (\<lambda>n. n = 0) (map off cs)"
  by (simp add: evbuffer_chains_all_empty_def list.pred_map comp_def)

lemma same_bytes_regular:
  assumes r: "evb_regular buf" and s: "same_bytes (drop (last_with_data buf) (chains buf)) cs"
    and b: "b = buf\<lparr>chains := take (last_with_data buf) (chains buf) @ cs\<rparr>"
  shows "evb_regular b" "evb_becomes buf b (contents buf)"
proof -
  let ?k = "last_with_data buf"
  have sb: "map off (chains b) = map off (chains buf)" "map cdata (chains b) = map cdata (chains buf)"
    "map immutable (chains b) = map immutable (chains buf)"
    using s unfolding same_bytes_def b by (simp_all, metis append_take_drop_id map_append take_map, metis append_take_drop_id map_append take_map,
      metis append_take_drop_id map_append take_map)
  have ok: "list_all chain_ok (chains b)" using s r by (auto simp: b same_bytes_def evb_regular_def evb_ok_def list_all_iff dest: in_set_takeD)
  have len: "length (chains b) = length (chains buf)" using sb(1) by (metis length_map)
  have em: "evbuffer_chains_all_empty (drop (Suc ?k) (chains b)) = evbuffer_chains_all_empty (drop (Suc ?k) (chains buf))"
    unfolding all_empty_map using sb(1) by (metis drop_map)
  have ne: "chains b = [] \<longleftrightarrow> chains buf = []" using len by auto
  have kb: "last_with_data b = ?k" "total_len b = total_len buf" by (simp_all add: b)
  have okb: "evb_ok b" using r ok sb(1) len em ne kb unfolding evb_regular_def evb_ok_def by simp
  then show "evb_becomes buf b (contents buf)" using sb(2) by (simp add: evb_becomes_def b contents_def chain_bytes_def)
  have "list_all (\<lambda>c. immutable c \<longrightarrow> off c \<noteq> 0) cs \<longleftrightarrow> list_all (\<lambda>(i, n). i \<longrightarrow> n \<noteq> 0) (zip (map immutable cs) (map off cs))" for cs :: "evbuffer_chain list"
    by (induction cs) auto
  then have "list_all (\<lambda>c. immutable c \<longrightarrow> off c \<noteq> 0) (chains b)" using r sb by (simp add: evb_regular_def)
  moreover have "off (chains b ! ?k) = off (chains buf ! ?k)" if "?k < length (chains buf)" using sb(1) that len by (metis nth_map)
  ultimately show "evb_regular b" using okb r kb by (auto simp: evb_regular_def evb_ok_def split: if_splits)
qed

lemma fast_loop_spec:
  assumes "list_all chain_ok cs" "evbuffer_chains_all_empty (if first then tl cs else cs)" "list_all (\<lambda>c. immutable c \<longrightarrow> off c \<noteq> 0) cs"
  shows "\<exists>cs' r. fast_loop datlen n first used avail cs = Some (cs', r) \<and> same_bytes cs cs'
     \<and> (r = Enough \<longrightarrow> datlen \<le> avail + space cs') \<and> (\<forall>av. r = Ran_off av \<longrightarrow> av = avail + space cs')"
  using assms
proof (induction datlen n first used avail cs rule: fast_loop.induct)
  case (1 datlen n first used avail)
  then show ?case by (simp add: same_bytes_def)
next
  case (2 datlen n first used avail c cs)
  define sp where "sp = (if off c \<noteq> 0 then CHAIN_SPACE_LEN c else buffer_len c)"
  define used' where "used' = (if off c = 0 \<or> sp \<noteq> 0 then Suc used else used)"
  define c' where "c' = (if off c = 0 then c\<lparr>misalign := 0\<rparr> else c)"
  have ne: "\<not> (off c \<noteq> 0 \<and> \<not> first)" using 2(3) by (auto split: if_splits)
  have c': "off c = off c'" "cdata c = cdata c'" "immutable c = immutable c'" "chain_ok c'" "CHAIN_SPACE_LEN c' = sp"
    using 2(2,4) by (auto simp: c'_def chain_ok_def sp_def CHAIN_SPACE_LEN_def)
  have cs: "list_all chain_ok cs" "evbuffer_chains_all_empty cs" "list_all (\<lambda>c. immutable c \<longrightarrow> off c \<noteq> 0) cs"
    using 2(2,3,4) by (auto split: if_splits)
  have eq: "fast_loop datlen n first used avail (c # cs) = (if avail + sp \<ge> datlen then Some (c' # cs, Enough)
      else if used' = n then Some (c' # cs, Full)
      else map_option (\<lambda>(cs', r). (c' # cs', r)) (fast_loop datlen n False used' (avail + sp) cs))"
    unfolding fast_loop.simps Let_def sp_def [symmetric] used'_def [symmetric] c'_def [symmetric] by (subst if_not_P [OF ne]) (rule refl)
  have here: "same_bytes (c # cs) (c' # cs)" by (rule same_bytes_Cons) (use cs c' in \<open>simp_all add: same_bytes_def\<close>)
  show ?case
  proof (cases "avail + sp \<ge> datlen \<or> used' = n")
    case True
    then show ?thesis unfolding eq using here c' by (cases "avail + sp \<ge> datlen") auto
  next
    case False
    then have nf: "\<not> avail + sp \<ge> datlen" "used' \<noteq> n" by auto
    from 2(1) [OF ne sp_def used'_def refl c'_def nf] cs obtain cs' r where
      l: "fast_loop datlen n False used' (avail + sp) cs = Some (cs', r)" "same_bytes cs cs'"
      "r = Enough \<longrightarrow> datlen \<le> avail + sp + space cs'" "\<forall>av. r = Ran_off av \<longrightarrow> av = avail + sp + space cs'" by auto
    have "same_bytes (c # cs) (c' # cs')" by (rule same_bytes_Cons [OF l(2) c'(1-4)])
    then show ?thesis unfolding eq using nf l c'(5) by (auto simp: add.assoc)
  qed
qed

text \<open>Room in the chains from the first with space on.\<close>

definition roomy :: "evbuffer \<Rightarrow> nat \<Rightarrow> evbuffer \<Rightarrow> bool" where
  "roomy buf datlen b \<longleftrightarrow> evb_becomes buf b (contents buf) \<and> evb_regular b \<and> chains b \<noteq> [] \<and> datlen \<le> space (drop (last_with_data b) (chains b))"

lemma space_first: "evb_ok b \<Longrightarrow> chains b \<noteq> [] \<Longrightarrow> space (drop (first_with_space b) (chains b)) = space (drop (last_with_data b) (chains b))"
  by (auto simp: first_with_space_def evb_ok_def Cons_nth_drop_Suc [symmetric])

lemma roomy_append:
  assumes r: "evb_regular b1" and be: "evb_becomes buf b1 (contents buf)" and ne: "chains b1 \<noteq> []"
    and t: "evbuffer_chain_new new sz = Some tmp" and d: "datlen \<le> space (drop (last_with_data b1) (chains b1)) + sz"
  shows "roomy buf datlen (b1\<lparr>chains := chains b1 @ [tmp]\<rparr>)"
proof -
  note tmp = chain_new_spec [OF t]
  have "chain_ok tmp" "CHAIN_SPACE_LEN tmp \<ge> sz" using tmp by (simp_all add: chain_ok_def CHAIN_SPACE_LEN_def)
  moreover have "last_with_data b1 < length (chains b1)" using r ne by (simp add: evb_regular_def evb_ok_def)
  ultimately show ?thesis using assms tmp
    by (auto simp: roomy_def evb_becomes_def evb_regular_def evb_ok_def contents_def nth_append)
qed

lemma nuke_empty_spec:
  assumes r: "evb_regular b" and ne: "chains b \<noteq> []"
  shows "\<exists>b'. nuke_empty (Some a) datlen b = Some (0, b') \<and> roomy b datlen b'"
proof -
  have ok: "evb_ok b" using r by (simp add: evb_regular_def)
  obtain xs x rest where sp: "chains b = xs @ x # rest" "last_with_data b = length xs" "evbuffer_chains_all_empty rest"
    "list_all chain_ok xs" "chain_ok x" "list_all chain_ok rest" using evb_ok_split [OF ok ne] by blast
  have tl: "total_len b = sum_list (map off xs) + off x" using ok sp by (simp add: evb_ok_def)
  define avail where "avail = (if off x = 0 then 0 else CHAIN_SPACE_LEN x)"
  obtain tmp where t: "evbuffer_chain_new (Some a) (datlen - avail) = Some tmp" by (cases "evbuffer_chain_new (Some a) (datlen - avail)") auto
  note tmp = chain_new_spec [OF t]
  have tm: "chain_ok tmp" "CHAIN_SPACE_LEN tmp \<ge> datlen - avail" using tmp by (simp_all add: chain_ok_def CHAIN_SPACE_LEN_def)
  have xs0: "off x = 0 \<Longrightarrow> xs = []" using r sp by (auto simp: evb_regular_def)
  define b' where "b' = b\<lparr>chains := (if off x = 0 then [] else xs @ [x]) @ [tmp]\<rparr>"
  have "nuke_empty (Some a) datlen b = Some (0, b')"
    using sp t xs0 by (auto simp: nuke_empty_def Let_def avail_def b'_def nth_append)
  moreover have "roomy b datlen b'"
    using r sp tl tm tmp xs0 by (auto simp: roomy_def b'_def evb_becomes_def evb_regular_def evb_ok_def contents_def avail_def nth_append split: if_splits)
  ultimately show ?thesis by blast
qed

lemma roomy_trans: "evb_becomes buf b1 (contents buf) \<Longrightarrow> roomy b1 datlen b \<Longrightarrow> roomy buf datlen b"
  by (auto simp: roomy_def evb_becomes_def)

lemma insert_new_roomy:
  assumes r: "evb_regular buf"
  shows "\<exists>i b. evbuffer_chain_insert_new (Some a) datlen buf = Some (Some i, b) \<and> roomy buf datlen b"
proof -
  have ok: "evb_ok buf" using r by (simp add: evb_regular_def)
  obtain c where c: "evbuffer_chain_new (Some a) datlen = Some c" by (cases "evbuffer_chain_new (Some a) datlen") auto
  note new = chain_new_spec [OF c]
  have cok: "chain_ok c" "CHAIN_SPACE_LEN c \<ge> datlen" using new by (simp_all add: chain_ok_def CHAIN_SPACE_LEN_def)
  show ?thesis
  proof (cases "chains buf = []")
    case True
    with ok have "evbuffer_chain_insert c buf = Some (buf\<lparr>chains := [c]\<rparr>)" using new by (simp add: evbuffer_chain_insert_def evb_ok_def)
    then show ?thesis using c cok new True ok
      by (auto simp: evbuffer_chain_insert_new_def roomy_def evb_regular_def evb_becomes_def evb_ok_def contents_def)
  next
    case False
    obtain xs x rest where sp: "chains buf = xs @ x # rest" "last_with_data buf = length xs" "evbuffer_chains_all_empty rest"
      "list_all chain_ok xs" "chain_ok x" "list_all chain_ok rest"
      using evb_ok_split [OF ok False] by blast
    have tl: "total_len buf = sum_list (map off xs) + off x" using ok sp by (simp add: evb_ok_def)
    have xs0: "off x = 0 \<Longrightarrow> xs = []" using r sp by (auto simp: evb_regular_def)
    let ?b = "buf\<lparr>chains := (if off x = 0 then xs else xs @ [x]) @ [c]\<rparr>"
    have "evbuffer_chain_insert c buf = Some ?b"
      using sp new by (auto simp: evbuffer_chain_insert_def victims_split [OF sp(1-3)])
    moreover have "roomy buf datlen ?b"
      using r c cok new sp tl xs0 by (auto simp: roomy_def evb_regular_def evb_becomes_def evb_ok_def contents_def nth_append)
    ultimately show ?thesis using c by (auto simp: evbuffer_chain_insert_new_def)
  qed
qed

lemma expand_fast_spec:
  assumes r: "evb_regular buf"
  shows "\<exists>b. evbuffer_expand_fast (Some a) datlen n buf = Some (0, b) \<and> roomy buf datlen b"
proof (cases "chains buf = [] \<or> immutable (last (chains buf))")
  case True
  with insert_new_roomy [OF r, of a datlen] show ?thesis by (auto simp: evbuffer_expand_fast_def)
next
  case False
  let ?k = "last_with_data buf"
  have ok: "evb_ok buf" and ne: "chains buf \<noteq> []" using r False by (simp_all add: evb_regular_def)
  have k: "?k < length (chains buf)" using ok ne by (simp add: evb_ok_def)
  have "list_all chain_ok (drop ?k (chains buf))" "list_all (\<lambda>c. immutable c \<longrightarrow> off c \<noteq> 0) (drop ?k (chains buf))"
    "evbuffer_chains_all_empty (tl (drop ?k (chains buf)))"
    using r k by (auto simp: evb_regular_def evb_ok_def list_all_iff drop_Suc tl_drop dest: in_set_dropD split: if_splits)
  then obtain cs res where l: "fast_loop datlen n True 0 0 (drop ?k (chains buf)) = Some (cs, res)" "same_bytes (drop ?k (chains buf)) cs"
     "res = Enough \<longrightarrow> datlen \<le> space cs" "\<forall>av. res = Ran_off av \<longrightarrow> av = space cs"
    using fast_loop_spec [of "drop ?k (chains buf)" True datlen n 0 0] by auto
  define b1 where "b1 = buf\<lparr>chains := take ?k (chains buf) @ cs\<rparr>"
  note b1 = same_bytes_regular [OF r l(2) b1_def]
  have nb1: "chains b1 \<noteq> []" "drop (last_with_data b1) (chains b1) = cs"
    using k same_bytes_length [OF l(2)] by (auto simp: b1_def)
  show ?thesis
  proof (cases res)
    case Enough
    then show ?thesis using False l b1 nb1 by (auto simp: evbuffer_expand_fast_def Let_def roomy_def b1_def)
  next
    case Full
    from nuke_empty_spec [OF b1(1) nb1(1), of a datlen] roomy_trans [OF b1(2)] Full show ?thesis
      using False l by (auto simp: evbuffer_expand_fast_def Let_def b1_def)
  next
    case (Ran_off av)
    obtain tmp where t: "evbuffer_chain_new (Some a) (datlen - av) = Some tmp" by (cases "evbuffer_chain_new (Some a) (datlen - av)") auto
    have "roomy buf datlen (b1\<lparr>chains := chains b1 @ [tmp]\<rparr>)"
      by (rule roomy_append [OF b1 nb1(1) t]) (use nb1(2) l(4) Ran_off in auto)
    then show ?thesis using False l t Ran_off by (auto simp: evbuffer_expand_fast_def Let_def b1_def)
  qed
qed

lemma store_nil [simp]: "store p [] c = c"
  by (simp add: store_def)

lemma receive_nothing [simp]: "receive_into vec [] cs = cs"
  by (induction vec "[] :: bytes" cs rule: receive_into.induct) auto

lemma setup_loop_sum: "setup_loop n h True sf cs = Some vec \<Longrightarrow> sf \<le> h \<Longrightarrow> sum_list (map snd vec) \<le> h - sf"
proof (induction n arbitrary: sf cs vec)
  case (Suc n)
  show ?case
  proof (cases "sf < h \<and> cs \<noteq> []")
    case True
    then obtain c cs1 where cs: "cs = c # cs1" by (cases cs) auto
    define avail where "avail = (if CHAIN_SPACE_LEN c > h - sf then h - sf else CHAIN_SPACE_LEN c)"
    from Suc.prems(1) cs True obtain vec1 where vec: "vec = (CHAIN_SPACE_PTR c, avail) # vec1" "setup_loop n h True (sf + avail) cs1 = Some vec1"
      by (auto simp: Let_def avail_def)
    have "sf + avail \<le> h" using True by (auto simp: avail_def)
    with Suc.IH [OF vec(2) this] vec(1) show ?thesis by simp
  qed (use Suc.prems in \<open>auto split: if_splits list.splits\<close>)
qed simp

lemma grow_store: "grow_chain (length bs) (store (misalign c + off c) bs c) = append_data bs c"
  by (simp add: grow_chain_def append_data_def)

lemma space_fits: "chain_ok c \<Longrightarrow> length bs \<le> CHAIN_SPACE_LEN c \<Longrightarrow> misalign c + off c + length bs \<le> buffer_len c"
  by (auto simp: CHAIN_SPACE_LEN_def chain_ok_def split: if_splits)

lemma space_store: "chain_ok c \<Longrightarrow> length bs \<le> CHAIN_SPACE_LEN c \<Longrightarrow> CHAIN_SPACE_LEN (store (misalign c + off c) bs c) = CHAIN_SPACE_LEN c"
  using space_fits [of c bs] by (simp add: CHAIN_SPACE_LEN_def)

text \<open>Filling the space of the chains with what was read, and noting it, appends it.\<close>

lemma spread_spec:
  assumes "setup_loop nv h True sf cs = Some vec" "sf \<le> h" "list_all chain_ok cs" "evbuffer_chains_all_empty (tl cs)" "bs \<noteq> []" "length bs \<le> sum_list (map snd vec)"
  shows "\<exists>cs' j. spread_read (length vec) (length bs) i (receive_into vec bs cs) = (cs', Some (i + j)) \<and> list_all chain_ok cs'
     \<and> chain_bytes cs' = chain_bytes cs @ bs \<and> sum_list (map off cs') = sum_list (map off cs) + length bs \<and> length cs' = length cs \<and> j < length cs
     \<and> evbuffer_chains_all_empty (drop (Suc j) cs') \<and> off (cs' ! j) \<noteq> 0
     \<and> (list_all (\<lambda>c. immutable c \<longrightarrow> off c \<noteq> 0) cs \<longrightarrow> list_all (\<lambda>c. immutable c \<longrightarrow> off c \<noteq> 0) cs')"
  using assms
proof (induction nv arbitrary: sf cs vec bs i)
  case (Suc nv)
  from Suc.prems(1,5,6) obtain c cs1 where cs: "cs = c # cs1" and lt: "sf < h" by (cases cs) (auto split: if_splits)
  define avail where "avail = (if CHAIN_SPACE_LEN c > h - sf then h - sf else CHAIN_SPACE_LEN c)"
  from Suc.prems(1) cs lt obtain vec1 where vec: "vec = (CHAIN_SPACE_PTR c, avail) # vec1" "setup_loop nv h True (sf + avail) cs1 = Some vec1"
    by (auto simp: Let_def avail_def)
  have le: "sf + avail \<le> h" "avail \<le> CHAIN_SPACE_LEN c" using lt by (auto simp: avail_def)
  have cok: "chain_ok c" "list_all chain_ok cs1" "evbuffer_chains_all_empty cs1" using Suc.prems(3,4) cs by simp_all
  have rest: "sum_list (map snd vec1) \<le> h - (sf + avail)" by (rule setup_loop_sum [OF vec(2) le(1)])
  show ?case
  proof (cases "CHAIN_SPACE_LEN c < length bs")
    case True
    have av: "avail = CHAIN_SPACE_LEN c" using True Suc.prems(6) rest vec(1) by (auto simp: avail_def simp del: sum_list_eq_0_iff split: if_splits)
    define d where "d = append_data (take avail bs) c"
    have tk: "length (take avail bs) = CHAIN_SPACE_LEN c" using True av by simp
    have d: "chain_ok d" "cdata d = cdata c @ take avail bs" "off d = off c + avail" "immutable d = immutable c"
      using space_fits [OF cok(1), of "take avail bs"] tk av by (simp_all add: d_def) (simp add: append_data_def)
    have g: "grow_chain (CHAIN_SPACE_LEN c) (store (misalign c + off c) (take avail bs) c) = d"
      using grow_store [of "take avail bs" c] tk by (simp add: d_def)
    have "evbuffer_chains_all_empty (tl cs1)" using cok(3) by (cases cs1) auto
    moreover have "drop avail bs \<noteq> []" "length (drop avail bs) \<le> sum_list (map snd vec1)" using True av Suc.prems(6) vec(1) by auto
    ultimately obtain cs' j where
      ih: "spread_read (length vec1) (length bs - avail) (Suc i) (receive_into vec1 (drop avail bs) cs1) = (cs', Some (Suc i + j))" "list_all chain_ok cs'"
      "chain_bytes cs' = chain_bytes cs1 @ drop avail bs" "sum_list (map off cs') = sum_list (map off cs1) + (length bs - avail)" "length cs' = length cs1" "j < length cs1"
      "evbuffer_chains_all_empty (drop (Suc j) cs')" "off (cs' ! j) \<noteq> 0"
      "list_all (\<lambda>c. immutable c \<longrightarrow> off c \<noteq> 0) cs1 \<longrightarrow> list_all (\<lambda>c. immutable c \<longrightarrow> off c \<noteq> 0) cs'"
      using Suc.IH [OF vec(2) le(1) cok(2), of "drop avail bs" "Suc i"] by auto
    have "spread_read (length vec) (length bs) i (receive_into vec bs cs) = (d # cs', Some (i + Suc j))"
      using ih(1) True av g tk space_store [OF cok(1), of "take avail bs"] unfolding vec(1) cs by simp
    moreover have "chain_bytes (d # cs') = chain_bytes cs @ bs" using ih(3) d(2) cok(3) by (simp add: cs)
    ultimately show ?thesis using ih d cok True av cs by (intro exI [of _ "d # cs'"] exI [of _ "Suc j"]) auto
  next
    case False
    have av: "length bs \<le> avail" using False Suc.prems(6) rest vec(1) by (auto simp: avail_def simp del: sum_list_eq_0_iff split: if_splits)
    define d where "d = append_data bs c"
    have fit: "length bs \<le> CHAIN_SPACE_LEN c" using False by simp
    have d: "chain_ok d" "cdata d = cdata c @ bs" "off d = off c + length bs" "immutable d = immutable c"
      using space_fits [OF cok(1) fit] by (simp_all add: d_def) (simp add: append_data_def)
    have "spread_read (length vec) (length bs) i (receive_into vec bs cs) = (d # cs1, Some (i + 0))"
      using False av space_store [OF cok(1) fit] grow_store [of bs c] unfolding vec(1) cs by (simp add: d_def)
    then show ?thesis using d cok Suc.prems(5) cs by (intro exI [of _ "d # cs1"] exI [of _ 0]) auto
  qed
qed (use assms in simp)

lemma setup_loop_ok: "h \<le> sf + space cs \<Longrightarrow> \<exists>vec. setup_loop nv h True sf cs = Some vec"
proof (induction nv arbitrary: sf cs)
  case (Suc nv)
  show ?case
  proof (cases "sf < h")
    case True
    with Suc.prems obtain c cs1 where cs: "cs = c # cs1" by (cases cs) auto
    define avail where "avail = (if CHAIN_SPACE_LEN c > h - sf then h - sf else CHAIN_SPACE_LEN c)"
    have "h \<le> sf + avail + space cs1" using Suc.prems cs by (auto simp: avail_def)
    from Suc.IH [OF this] True show ?thesis by (auto simp: cs Let_def avail_def)
  qed simp
qed simp

lemma evb_regular_invoke [simp]: "evb_regular (evbuffer_invoke_callbacks b) = evb_regular b"
  by (simp add: evb_regular_def)

text \<open>Appending read bytes behind the chain \<open>k\<close>.\<close>

lemma read_appends:
  assumes reg: "evb_regular b" and k: "k \<le> length (chains b)" "last_with_data b \<le> k" "k \<le> Suc (last_with_data b)" and cs: "list_all chain_ok cs"
    "chain_bytes cs = chain_bytes (drop k (chains b)) @ bs" "sum_list (map off cs) = sum_list (map off (drop k (chains b))) + length bs"
    "length cs = length (drop k (chains b))" "j < length cs" "evbuffer_chains_all_empty (drop (Suc j) cs)" "off (cs ! j) \<noteq> 0" "list_all (\<lambda>c. immutable c \<longrightarrow> off c \<noteq> 0) cs"
    and b': "b' = count_added (length bs) (b\<lparr>chains := take k (chains b) @ cs, last_with_data := k + j\<rparr>)"
  shows "evb_becomes b b' (contents b @ bs)" "evb_regular b'"
proof -
  have ok: "evb_ok b" using reg by (simp add: evb_regular_def)
  have "contents b = chain_bytes (take k (chains b)) @ chain_bytes (drop k (chains b))"
    unfolding contents_def by (metis append_take_drop_id chain_bytes_simps(3))
  moreover have "sum_list (map off (chains b)) = sum_list (map off (take k (chains b))) + sum_list (map off (drop k (chains b)))"
    by (metis append_take_drop_id map_append sum_list_append)
  moreover have "list_all chain_ok (take k (chains b))" using ok by (auto simp: evb_ok_def list_all_iff dest: in_set_takeD)
  moreover have "drop (Suc (k + j)) (take k (chains b) @ cs) = drop (Suc j) cs" using k(1) by (simp add: min_def)
  ultimately show be: "evb_becomes b b' (contents b @ bs)" using ok cs k(1) by (auto simp: evb_becomes_def b' count_added_def evb_ok_def contents_def)
  have "list_all (\<lambda>c. immutable c \<longrightarrow> off c \<noteq> 0) (take k (chains b))" using reg by (auto simp: evb_regular_def list_all_iff dest: in_set_takeD)
  then show "evb_regular b'" using be cs(7,8) k(1) by (simp add: evb_regular_def evb_becomes_def b' count_added_def nth_append)
qed

text \<open>
  C19. Reading from a socket asks for at most 4096 bytes and for space that the buffer has, appends exactly the bytes that the
  socket delivered, over as many chains as it takes, and returns their number; when the socket fails or delivers nothing the bytes
  of the buffer stay as they are. No assertion of the code fails on the way.
\<close>

theorem evbuffer_read_appends:
  assumes r: "evb_regular buf" and nf: "\<not> freeze_end buf"
    and sock: "\<And>vec bs. received vec = Some bs \<Longrightarrow> length bs \<le> sum_list (map snd vec)"
  shows "\<exists>b0 vec res b. evbuffer_expand_fast (Some a) (read_amount readable howmuch) NUM_READ_IOVEC buf = Some (0, b0)
     \<and> evbuffer_read_setup_vecs b0 (int (read_amount readable howmuch)) nv True = Some (Some vec)
     \<and> evbuffer_read (Some a) nv readable received buf howmuch = Some (res, b) \<and> sum_list (map snd vec) \<le> 4096 \<and> evb_regular b
     \<and> (case received vec of None \<Rightarrow> res = - 1 \<and> evb_becomes buf b (contents buf)
        | Some bs \<Rightarrow> res = int (length bs) \<and> evb_becomes buf b (contents buf @ bs))"
proof -
  define h where "h = read_amount readable howmuch"
  have h: "h \<le> 4096" by (auto simp: h_def read_amount_def EVBUFFER_MAX_READ_def Let_def)
  obtain b where e: "evbuffer_expand_fast (Some a) h NUM_READ_IOVEC buf = Some (0, b)" "roomy buf h b" using expand_fast_spec [OF r] by blast
  have b: "evb_becomes buf b (contents buf)" "evb_regular b" "evb_ok b" "chains b \<noteq> []" "h \<le> space (drop (first_with_space b) (chains b))"
    using e(2) space_first by (auto simp: roomy_def evb_regular_def)
  let ?k = "first_with_space b"
  have lwd: "last_with_data b < length (chains b)" using b by (simp add: evb_ok_def)
  then have k: "?k \<le> length (chains b)" "last_with_data b \<le> ?k" "?k \<le> Suc (last_with_data b)" by (auto simp: first_with_space_def)
  obtain vec where v: "setup_loop nv h True 0 (drop ?k (chains b)) = Some vec" using setup_loop_ok b(5) by (metis add_0)
  have pin: "evbuffer_expand_fast (Some a) (read_amount readable howmuch) NUM_READ_IOVEC buf = Some (0, b)"
    "evbuffer_read_setup_vecs b (int (read_amount readable howmuch)) nv True = Some (Some vec)"
    using e(1) v lwd by (simp_all add: h_def [symmetric] evbuffer_read_setup_vecs_def)
  have sum: "sum_list (map snd vec) \<le> h" using setup_loop_sum [OF v] by simp
  have eq: "evbuffer_read (Some a) nv readable received buf howmuch = (case received vec of None \<Rightarrow> Some (- 1, b)
      | Some bs \<Rightarrow> if bs = [] then Some (0, b)
         else (let (cs, l) = spread_read (length vec) (length bs) ?k (receive_into vec bs (drop ?k (chains b)))
               in Some (int (length bs), evbuffer_invoke_callbacks (count_added (length bs)
                    (b\<lparr>chains := take ?k (chains b) @ cs, last_with_data := (case l of None \<Rightarrow> last_with_data b | Some j \<Rightarrow> j)\<rparr>)))))"
    using nf e(1) v lwd by (simp add: evbuffer_read_def h_def [symmetric] evbuffer_read_setup_vecs_def Let_def split: option.split)
  show ?thesis
  proof (cases "received vec = None \<or> received vec = Some []")
    case True
    then have "evbuffer_read (Some a) nv readable received buf howmuch = Some (if received vec = None then - 1 else 0, b)" unfolding eq by auto
    then show ?thesis using pin True b sum h by (intro exI [of _ b] exI [of _ vec]) auto
  next
    case False
    then obtain bs where bs: "received vec = Some bs" "bs \<noteq> []" by auto
    have cok: "list_all chain_ok (drop ?k (chains b))" "list_all (\<lambda>c. immutable c \<longrightarrow> off c \<noteq> 0) (drop ?k (chains b))"
      using b by (auto simp: evb_ok_def evb_regular_def list_all_iff dest: in_set_dropD)
    have "evbuffer_chains_all_empty (drop (Suc ?k) (chains b))"
      using b(3) k(2) by (auto simp: evb_ok_def evbuffer_chains_all_empty_def list_all_iff dest!: set_drop_subset_set_drop [of "Suc (last_with_data b)" "Suc ?k", THEN subsetD, rotated])
    then have "evbuffer_chains_all_empty (tl (drop ?k (chains b)))" by (simp add: drop_Suc tl_drop)
    from spread_spec [OF v _ cok(1) this bs(2) sock [OF bs(1)], of ?k] obtain cs j where
      s: "spread_read (length vec) (length bs) ?k (receive_into vec bs (drop ?k (chains b))) = (cs, Some (?k + j))" "list_all chain_ok cs"
      "chain_bytes cs = chain_bytes (drop ?k (chains b)) @ bs" "sum_list (map off cs) = sum_list (map off (drop ?k (chains b))) + length bs"
      "length cs = length (drop ?k (chains b))" "j < length cs" "evbuffer_chains_all_empty (drop (Suc j) cs)" "off (cs ! j) \<noteq> 0"
      "list_all (\<lambda>c. immutable c \<longrightarrow> off c \<noteq> 0) cs" using cok(2) by auto
    define b' where "b' = count_added (length bs) (b\<lparr>chains := take ?k (chains b) @ cs, last_with_data := ?k + j\<rparr>)"
    note b' = read_appends [OF b(2) k s(2-9) b'_def]
    have "evb_becomes buf b' (contents buf @ bs)" using b'(1) b(1) by (simp add: evb_becomes_def)
    then show ?thesis using pin eq bs s(1) b'(2) sum h by (intro exI [of _ b] exI [of _ vec]) (auto simp: b'_def)
  qed
qed

text \<open>A socket with one byte to read.\<close>

definition one_byte_socket :: "iovec list \<Rightarrow> bytes option" where
  "one_byte_socket vec = Some (take (sum_list (map snd vec)) [42])"

theorem evbuffer_read_appends_witness:
  "evb_regular evbuffer_new \<and> \<not> freeze_end evbuffer_new
   \<and> (\<exists>vec res b. evbuffer_read (Some 1) 4 1 one_byte_socket evbuffer_new (- 1) = Some (res, b) \<and> one_byte_socket vec = Some (contents b) \<and> evb_regular b)"
proof -
  have h: "evb_regular evbuffer_new" "\<not> freeze_end evbuffer_new" by (simp_all add: evb_regular_def) (simp_all add: evbuffer_new_def)
  have s: "length bs \<le> sum_list (map snd vec)" if "one_byte_socket vec = Some bs" for vec bs
    using that by (auto simp: one_byte_socket_def)
  from evbuffer_read_appends [of evbuffer_new one_byte_socket 1 1 "- 1" 4, OF h s] h show ?thesis
    by (fastforce simp: one_byte_socket_def evb_becomes_def)
qed

section \<open>Where the buffers fail\<close>

lemma alloc_1024: "sz \<le> 976 \<Longrightarrow> alloc_loop 1024 (sz + 48) = 1024"
  by (subst alloc_loop.simps) simp

lemma chain_new_small: "sz \<le> 976 \<Longrightarrow> evbuffer_chain_new (Some a) sz =
  Some \<lparr>caddr = a, cbuffer = replicate 976 0, misalign = 0, off = 0, immutable = False\<rparr>"
  by (simp add: evbuffer_chain_new_def MIN_BUFFER_SIZE_def EVBUFFER_CHAIN_SIZE_def alloc_1024)

lemma prepend_not_announced:
  "\<exists>b. evbuffer_prepend (Some 2) [6] (evbuffer_add_cb 5 three_bytes) = Some (0, b) \<and> contents b = [6, 7, 8, 9] \<and> cb_log b = []"
  by (simp add: evbuffer_prepend_def prepend_to_first_def three_bytes_def evbuffer_new_def evbuffer_add_cb_def Let_def chain_new_small count_added_def
      evbuffer_invoke_callbacks_def evbuffer_run_callbacks_def contents_def cdata_def store_def buffer_len_def)

definition drained_chain :: evbuffer where
  "drained_chain = evbuffer_new\<lparr>chains := [\<lparr>caddr = 1, cbuffer = [0, 8, 9], misalign = 1, off = 2, immutable = False\<rparr>], total_len := 2\<rparr>"

lemma prepend_failure_changes:
  "\<exists>b. evbuffer_prepend None [6, 7] drained_chain = Some (- 1, b) \<and> contents b = [7, 8, 9]"
  by (simp add: evbuffer_prepend_def prepend_to_first_def drained_chain_def evbuffer_new_def Let_def count_added_def contents_def cdata_def store_def buffer_len_def)

lemma remove_buffer_loses:
  "\<exists>src dst. evbuffer_remove_buffer None three_bytes evbuffer_new 2 = Some (2, src, dst) \<and> contents src = [9] \<and> contents dst = []"
  by (simp add: evbuffer_remove_buffer_def three_bytes_def evbuffer_new_def Let_def evbuffer_add_def contents_def cdata_def)

definition roomy_chain :: evbuffer where
  "roomy_chain = evbuffer_new\<lparr>chains := [\<lparr>caddr = 1, cbuffer = [97, 0, 0], misalign = 0, off = 1, immutable = False\<rparr>], total_len := 1\<rparr>"

lemma bytes_out_of_order:
  "\<exists>b1 b2 b3 p n b4. evbuffer_add_reference (Some 2) [] roomy_chain = Some (0, b1) \<and> evbuffer_add (Some 3) [98] b1 = Some (0, b2)
     \<and> contents b2 = [97, 98] \<and> evbuffer_reserve_space (Some 4) b2 1 1 = Some (Some [(p, n)], b3)
     \<and> evbuffer_commit_space (write_at p [99] b3) [(p, 1)] = (0, b4) \<and> contents b4 = [97, 99, 98]"
proof -
  define b1 where "b1 = roomy_chain\<lparr>chains := chains roomy_chain @ [\<lparr>caddr = 2, cbuffer = [], misalign = 0, off = 0, immutable = True\<rparr>]\<rparr>"
  have 1: "evbuffer_add_reference (Some 2) [] roomy_chain = Some (0, b1)"
    by (simp add: evbuffer_add_reference_def evbuffer_chain_insert_def victims_def evbuffer_invoke_callbacks_def roomy_chain_def evbuffer_new_def b1_def)
  define tmp where "tmp = \<lparr>caddr = 3, cbuffer = 98 # replicate 975 0, misalign = 0, off = 1, immutable = False\<rparr>"
  define b2 where "b2 = roomy_chain\<lparr>chains := chains roomy_chain @ [tmp], total_len := 2\<rparr>"
  have 2: "evbuffer_add (Some 3) [98] b1 = Some (0, b2)"
    by (simp add: evbuffer_add_def add_to_last_def Let_def b1_def roomy_chain_def evbuffer_new_def chain_new_small store_def buffer_len_def
        evbuffer_chain_insert_def victims_def kept_chains_def evbuffer_invoke_callbacks_def b2_def tmp_def)
  have 3: "evbuffer_reserve_space (Some 4) b2 1 1 = Some (Some [((1, 1), 2)], b2)"
    by (simp add: evbuffer_reserve_space_def evbuffer_expand_singlechain_def Let_def b2_def roomy_chain_def evbuffer_new_def
        CHAIN_SPACE_LEN_def CHAIN_SPACE_PTR_def buffer_len_def)
  define b4 where "b4 = roomy_chain\<lparr>chains := [\<lparr>caddr = 1, cbuffer = [97, 99, 0], misalign = 0, off = 2, immutable = False\<rparr>, tmp], total_len := 3\<rparr>"
  have 4: "evbuffer_commit_space (write_at (1, 1) [99] b2) [((1, 1), 1)] = (0, b4)"
    by (simp add: evbuffer_commit_space_def Let_def write_at_def b2_def roomy_chain_def evbuffer_new_def tmp_def CHAIN_SPACE_LEN_def CHAIN_SPACE_PTR_def
        buffer_len_def first_with_space_def vecs_in_bounds_def grow_chains_def grow_chain_def count_added_def evbuffer_invoke_callbacks_def store_def b4_def)
  have "contents b2 = [97, 98]" "contents b4 = [97, 99, 98]"
    by (simp_all add: b2_def b4_def tmp_def roomy_chain_def contents_def cdata_def)
  with 1 2 3 4 show ?thesis by blast
qed


end
