(* ===== verification/Ev_Tagging.thy ===== *)
theory Ev_Tagging
  imports Ev_Buffer_Move
begin

unbundle bit_operations_syntax

text \<open>
  Model of \<open>event/event_tagging.c\<close>: tagged data in an evbuffer. An integer is a nibble with the number of nibbles minus
  one, followed by the nibbles; a tag is a sequence of groups of seven bits. Every operation that may allocate takes the
  results of the allocator as a function of the number of the call (\<open>None\<close> where it fails). A pointer into the buffer is
  what \<open>evbuffer_pullup\<close> returns, and \<open>None\<close> stands for an access outside the memory it points to, for a shift by more
  than the width, or for an access through a null pointer.
\<close>

section \<open>Integers\<close>

text \<open>The loop of \<open>ENCODE_INT_INTERNAL\<close>, for both widths.\<close>

function encode_nibbles :: "bytes \<Rightarrow> nat \<Rightarrow> 'a :: len word \<Rightarrow> (bytes \<times> nat) option" where
  "encode_nibbles data at number =
    (if number = 0 then Some (data, at)
     else if at div 2 < length data
     then encode_nibbles (data[at div 2 :=
            if odd at then (data ! (at div 2) AND 0xf0) OR ucast (number AND 0x0f)
            else (data ! (at div 2) AND 0x0f) OR push_bit 4 (ucast (number AND 0x0f))])
          (Suc at) (drop_bit 4 number)
     else None)"
  by pat_completeness auto
termination
proof (relation "measure (\<lambda>(data, at, number). unat number)")
  fix number :: "'a word"
  assume "number \<noteq> 0"
  then have "unat number div 16 < unat number" by (simp add: unat_gt_0)
  moreover have "unat (drop_bit 4 number) = unat number div 16"
    by (simp only: unsigned_drop_bit_eq) (simp add: drop_bit_eq_div take_bit_nat_eq_self)
  ultimately show "((data1, off1, drop_bit 4 number), data, at, number) \<in> measure (\<lambda>(data, at, number). unat number)" for data1 off1 data at
    by simp
qed simp

declare encode_nibbles.simps [simp del]

text \<open>The bytes of the array and the number of them that are used.\<close>

definition ENCODE_INT_INTERNAL :: "'a :: len word \<Rightarrow> (bytes \<times> nat) option" where
  "ENCODE_INT_INTERNAL number =
    (case encode_nibbles (replicate (LENGTH('a) div 8 + 1) 0) 1 number of None \<Rightarrow> None
     | Some (data, at) \<Rightarrow>
        (let nibbles = (if at > 2 then at - 2 else 0)
         in Some (data[0 := (data ! 0 AND 0x0f) OR push_bit 4 (word_of_nat nibbles AND 0x0f)], (at + 1) div 2)))"

definition encode_int_internal :: "UInt32 \<Rightarrow> (bytes \<times> nat) option" where
  "encode_int_internal number = ENCODE_INT_INTERNAL number"

definition encode_int64_internal :: "UInt64 \<Rightarrow> (bytes \<times> nat) option" where
  "encode_int64_internal number = ENCODE_INT_INTERNAL number"

text \<open>Appending the used part of an array; the result of \<open>evbuffer_add\<close> is ignored.\<close>

definition add_ignored :: "nat option \<Rightarrow> bytes \<Rightarrow> evbuffer \<Rightarrow> evbuffer option" where
  "add_ignored new bs buf = map_option snd (evbuffer_add new bs buf)"

definition add_array :: "nat option \<Rightarrow> (bytes \<times> nat) option \<Rightarrow> evbuffer \<Rightarrow> evbuffer option" where
  "add_array new r buf = (case r of None \<Rightarrow> None | Some (data, len) \<Rightarrow> add_ignored new (take len data) buf)"

definition evtag_encode_int :: "nat option \<Rightarrow> UInt32 \<Rightarrow> evbuffer \<Rightarrow> evbuffer option" where
  "evtag_encode_int new number buf = add_array new (encode_int_internal number) buf"

definition evtag_encode_int64 :: "nat option \<Rightarrow> UInt64 \<Rightarrow> evbuffer \<Rightarrow> evbuffer option" where
  "evtag_encode_int64 new number buf = add_array new (encode_int64_internal number) buf"

text \<open>The byte at \<open>data[i]\<close>, where \<open>data\<close> is a result of \<open>evbuffer_pullup\<close>: it points into the first chain.\<close>

definition pulled_byte :: "(nat \<times> nat) option \<times> evbuffer \<Rightarrow> nat \<Rightarrow> UInt8 option" where
  "pulled_byte r i =
    (case r of (Some (a, p), buf) \<Rightarrow>
       (case chains buf of [] \<Rightarrow> None
        | c # _ \<Rightarrow> if caddr c = a \<and> p + i < buffer_len c then Some (cbuffer c ! (p + i)) else None)
     | _ \<Rightarrow> None)"

fun decode_nibbles :: "(nat \<Rightarrow> UInt8 option) \<Rightarrow> nat \<Rightarrow> 'a :: len word \<Rightarrow> 'a word option" where
  "decode_nibbles data 0 number = Some number"
| "decode_nibbles data (Suc n) number =
    (case data (Suc n div 2) of None \<Rightarrow> None
     | Some b \<Rightarrow> decode_nibbles data n (push_bit 4 number OR
         (if odd (Suc n) then ucast (b AND 0x0f) else ucast (drop_bit 4 (b AND 0xf0)))))"

text \<open>The result, what is written to \<open>*pnumber\<close> if anything is, and the buffer, whose first bytes may have been pulled up.\<close>

definition DECODE_INT_INTERNAL :: "(nat \<Rightarrow> nat option) \<Rightarrow> nat \<Rightarrow> evbuffer \<Rightarrow> nat \<Rightarrow> (int \<times> 'a :: len word option \<times> evbuffer) option" where
  "DECODE_INT_INTERNAL al maxnibbles buf offset =
    (let len = int (evbuffer_get_length buf) - int offset in
     if len \<le> 0 then Some (- 1, None, buf)
     else case evbuffer_pullup (al 0) (int offset + 1) buf of None \<Rightarrow> None
     | Some r1 \<Rightarrow>
        (case pulled_byte r1 offset of None \<Rightarrow> None
         | Some b0 \<Rightarrow>
            (let nibbles = unat (drop_bit 4 (b0 AND 0xf0)) + 1; n = nibbles div 2 + 1 in
             if nibbles > maxnibbles \<or> int n > len then Some (- 1, None, snd r1)
             else case evbuffer_pullup (al 1) (int (offset + n)) (snd r1) of None \<Rightarrow> None
             | Some r2 \<Rightarrow>
                (case decode_nibbles (\<lambda>i. pulled_byte r2 (offset + i)) nibbles 0 of None \<Rightarrow> None
                 | Some number \<Rightarrow> Some (int n, Some number, snd r2)))))"

definition decode_int_internal :: "(nat \<Rightarrow> nat option) \<Rightarrow> evbuffer \<Rightarrow> nat \<Rightarrow> (int \<times> UInt32 option \<times> evbuffer) option" where
  "decode_int_internal al buf offset = DECODE_INT_INTERNAL al 8 buf offset"

definition decode_int64_internal :: "(nat \<Rightarrow> nat option) \<Rightarrow> evbuffer \<Rightarrow> nat \<Rightarrow> (int \<times> UInt64 option \<times> evbuffer) option" where
  "decode_int64_internal al buf offset = DECODE_INT_INTERNAL al 16 buf offset"

definition drain_ignored :: "nat \<Rightarrow> evbuffer \<Rightarrow> evbuffer option" where
  "drain_ignored n buf = map_option snd (evbuffer_drain n buf)"

definition decode_and_drain :: "(int \<times> 'a :: len word option \<times> evbuffer) option \<Rightarrow> (int \<times> 'a word option \<times> evbuffer) option" where
  "decode_and_drain d =
    (case d of None \<Rightarrow> None
     | Some (res, v, b) \<Rightarrow> if res \<noteq> - 1 then map_option (\<lambda>b'. (0, v, b')) (drain_ignored (nat res) b) else Some (- 1, v, b))"

definition evtag_decode_int :: "(nat \<Rightarrow> nat option) \<Rightarrow> evbuffer \<Rightarrow> (int \<times> UInt32 option \<times> evbuffer) option" where
  "evtag_decode_int al buf = decode_and_drain (decode_int_internal al buf 0)"

definition evtag_decode_int64 :: "(nat \<Rightarrow> nat option) \<Rightarrow> evbuffer \<Rightarrow> (int \<times> UInt64 option \<times> evbuffer) option" where
  "evtag_decode_int64 al buf = decode_and_drain (decode_int64_internal al buf 0)"

section \<open>Tags\<close>

text \<open>The loop of \<open>evtag_encode_tag\<close> over its array of five bytes.\<close>

function encode_tag_loop :: "bytes \<Rightarrow> nat \<Rightarrow> UInt32 \<Rightarrow> (bytes \<times> nat) option" where
  "encode_tag_loop data bytes tag =
    (let lower = ucast (tag AND 0x7f) :: UInt8; tag' = drop_bit 7 tag;
         b = (if tag' \<noteq> 0 then lower OR 0x80 else lower)
     in if bytes \<ge> length data then None
        else if tag' \<noteq> 0 then encode_tag_loop (data[bytes := b]) (Suc bytes) tag'
        else Some (data[bytes := b], Suc bytes))"
  by pat_completeness auto
termination
  by (relation "measure (\<lambda>(data, bytes, tag). length data - bytes)") auto

declare encode_tag_loop.simps [simp del]

definition evtag_encode_tag :: "nat option \<Rightarrow> UInt32 \<Rightarrow> evbuffer \<Rightarrow> (int \<times> evbuffer) option" where
  "evtag_encode_tag new tag buf =
    (case encode_tag_loop (replicate 5 0) 0 tag of None \<Rightarrow> None
     | Some (data, bytes) \<Rightarrow> map_option (Pair (int bytes)) (add_ignored new (take bytes data) buf))"

text \<open>
  The loop of \<open>decode_tag_internal\<close>: \<open>None\<close> if it shifts by more than the width or reads outside the memory, otherwise
  the number of bytes if the end of the tag was found, and the number. The shift of an \<open>int\<close> into its sign
  bit is taken to wrap.
\<close>

function decode_tag_loop :: "(nat \<Rightarrow> UInt8 option) \<Rightarrow> nat \<Rightarrow> nat \<Rightarrow> UInt32 \<Rightarrow> (nat option \<times> UInt32) option" where
  "decode_tag_loop data len count number =
    (if count < len
     then case data count of None \<Rightarrow> None
     | Some lower \<Rightarrow>
        if 7 * count \<ge> 32 then None
        else (let number' = number OR push_bit (7 * count) (ucast (lower AND 0x7f)) in
          if lower AND 0x80 = 0 then Some (Some (Suc count), number')
          else decode_tag_loop data len (Suc count) number')
     else Some (None, number))"
  by pat_completeness auto
termination
  by (relation "measure (\<lambda>(data, len, count, number). len - count)") auto

declare decode_tag_loop.simps [simp del]

definition decode_tag_internal :: "nat option \<Rightarrow> evbuffer \<Rightarrow> bool \<Rightarrow> (int \<times> UInt32 option \<times> evbuffer) option" where
  "decode_tag_internal new buf dodrain =
    (let len = evbuffer_get_length buf in
     case evbuffer_pullup new (int (min len 5)) buf of None \<Rightarrow> None
     | Some r \<Rightarrow>
        (case decode_tag_loop (pulled_byte r) len 0 0 of None \<Rightarrow> None
         | Some (None, _) \<Rightarrow> Some (- 1, None, snd r)
         | Some (Some count, number) \<Rightarrow>
            map_option (\<lambda>b. (int count, Some number, b)) (if dodrain then drain_ignored count (snd r) else Some (snd r))))"

definition evtag_decode_tag :: "nat option \<Rightarrow> evbuffer \<Rightarrow> (int \<times> UInt32 option \<times> evbuffer) option" where
  "evtag_decode_tag new buf = decode_tag_internal new buf True"

definition evtag_peek :: "nat option \<Rightarrow> evbuffer \<Rightarrow> (int \<times> UInt32 option \<times> evbuffer) option" where
  "evtag_peek new buf = decode_tag_internal new buf False"

section \<open>Marshalling\<close>

definition evtag_marshal :: "(nat \<Rightarrow> nat option) \<Rightarrow> UInt32 \<Rightarrow> bytes \<Rightarrow> evbuffer \<Rightarrow> evbuffer option" where
  "evtag_marshal al tag data buf =
    (case evtag_encode_tag (al 0) tag buf of None \<Rightarrow> None
     | Some (_, b1) \<Rightarrow>
        (case evtag_encode_int (al 1) (word_of_nat (length data)) b1 of None \<Rightarrow> None
         | Some b2 \<Rightarrow> add_ignored (al 2) data b2))"

text \<open>The second component is the emptied buffer \<open>data\<close>.\<close>

definition evtag_marshal_buffer :: "(nat \<Rightarrow> nat option) \<Rightarrow> UInt32 \<Rightarrow> evbuffer \<Rightarrow> evbuffer \<Rightarrow> (evbuffer \<times> evbuffer) option" where
  "evtag_marshal_buffer al tag data buf =
    (case evtag_encode_tag (al 0) tag buf of None \<Rightarrow> None
     | Some (_, b1) \<Rightarrow>
        (case evtag_encode_int (al 1) (word_of_nat (evbuffer_get_length data)) b1 of None \<Rightarrow> None
         | Some b2 \<Rightarrow> map_option snd (evbuffer_add_buffer b2 data)))"

definition marshal_array :: "(nat \<Rightarrow> nat option) \<Rightarrow> UInt32 \<Rightarrow> (bytes \<times> nat) option \<Rightarrow> evbuffer \<Rightarrow> evbuffer option" where
  "marshal_array al tag r buf =
    (case r of None \<Rightarrow> None
     | Some (data, len) \<Rightarrow>
        (case evtag_encode_tag (al 0) tag buf of None \<Rightarrow> None
         | Some (_, b1) \<Rightarrow>
            (case evtag_encode_int (al 1) (word_of_nat len) b1 of None \<Rightarrow> None
             | Some b2 \<Rightarrow> add_ignored (al 2) (take len data) b2)))"

definition evtag_marshal_int :: "(nat \<Rightarrow> nat option) \<Rightarrow> UInt32 \<Rightarrow> UInt32 \<Rightarrow> evbuffer \<Rightarrow> evbuffer option" where
  "evtag_marshal_int al tag integer buf = marshal_array al tag (encode_int_internal integer) buf"

definition evtag_marshal_int64 :: "(nat \<Rightarrow> nat option) \<Rightarrow> UInt32 \<Rightarrow> UInt64 \<Rightarrow> evbuffer \<Rightarrow> evbuffer option" where
  "evtag_marshal_int64 al tag integer buf = marshal_array al tag (encode_int64_internal integer) buf"

text \<open>A C string is given with its terminating zero; \<open>strlen\<close> stops there.\<close>

definition evtag_marshal_string :: "(nat \<Rightarrow> nat option) \<Rightarrow> UInt32 \<Rightarrow> bytes \<Rightarrow> evbuffer \<Rightarrow> evbuffer option" where
  "evtag_marshal_string al tag str buf = evtag_marshal al tag (takeWhile (\<lambda>b. b \<noteq> 0) str) buf"

text \<open>Seconds and microseconds are \<open>long\<close>; the second integer is written behind the first one in an array of ten bytes.\<close>

definition evtag_marshal_timeval :: "(nat \<Rightarrow> nat option) \<Rightarrow> UInt32 \<Rightarrow> Int64 \<times> Int64 \<Rightarrow> evbuffer \<Rightarrow> evbuffer option" where
  "evtag_marshal_timeval al tag tv buf =
    (case encode_int_internal (ucast (fst tv)) of None \<Rightarrow> None
     | Some (d1, l1) \<Rightarrow>
        (case encode_int_internal (ucast (snd tv)) of None \<Rightarrow> None
         | Some (d2, l2) \<Rightarrow> if l1 + length d2 > 10 then None else evtag_marshal al tag (take l1 d1 @ take l2 d2) buf))"

section \<open>Unmarshalling\<close>

text \<open>Every result is the value of the function, what it wrote through its pointer, and the buffer.\<close>

definition evtag_peek_length :: "(nat \<Rightarrow> nat option) \<Rightarrow> evbuffer \<Rightarrow> (int \<times> UInt32 option \<times> evbuffer) option" where
  "evtag_peek_length al buf =
    (case decode_tag_internal (al 0) buf False of None \<Rightarrow> None
     | Some (len, _, b1) \<Rightarrow>
        if len = - 1 then Some (- 1, None, b1)
        else case decode_int_internal (\<lambda>i. al (Suc i)) b1 (nat len) of None \<Rightarrow> None
        | Some (res, v, b2) \<Rightarrow>
            if res = - 1 then Some (- 1, v, b2)
            else Some (0, map_option (\<lambda>n. n + word_of_int (res + len)) v, b2))"

definition evtag_payload_length :: "(nat \<Rightarrow> nat option) \<Rightarrow> evbuffer \<Rightarrow> (int \<times> UInt32 option \<times> evbuffer) option" where
  "evtag_payload_length al buf =
    (case decode_tag_internal (al 0) buf False of None \<Rightarrow> None
     | Some (len, _, b1) \<Rightarrow>
        if len = - 1 then Some (- 1, None, b1)
        else case decode_int_internal (\<lambda>i. al (Suc i)) b1 (nat len) of None \<Rightarrow> None
        | Some (res, v, b2) \<Rightarrow> Some (if res = - 1 then - 1 else 0, v, b2))"

text \<open>The length is returned as an \<open>int\<close>.\<close>

definition evtag_unmarshal_header :: "(nat \<Rightarrow> nat option) \<Rightarrow> evbuffer \<Rightarrow> (int \<times> UInt32 option \<times> evbuffer) option" where
  "evtag_unmarshal_header al buf =
    (case decode_tag_internal (al 0) buf True of None \<Rightarrow> None
     | Some (r, tag, b1) \<Rightarrow>
        if r = - 1 then Some (- 1, tag, b1)
        else case evtag_decode_int (\<lambda>i. al (Suc i)) b1 of
          Some (r', Some len, b2) \<Rightarrow>
            if r' = - 1 \<or> evbuffer_get_length b2 < unat len then Some (- 1, tag, b2) else Some (sint len, tag, b2)
        | Some (_, None, b2) \<Rightarrow> Some (- 1, tag, b2)
        | None \<Rightarrow> None)"

text \<open>A negative length passed as \<open>size_t\<close>.\<close>

definition as_size_t :: "int \<Rightarrow> nat" where
  "as_size_t n = unat (word_of_int n :: UInt64)"

definition evtag_consume :: "(nat \<Rightarrow> nat option) \<Rightarrow> evbuffer \<Rightarrow> (int \<times> evbuffer) option" where
  "evtag_consume al buf =
    (case evtag_unmarshal_header al buf of None \<Rightarrow> None
     | Some (len, _, b) \<Rightarrow> if len = - 1 then Some (- 1, b) else map_option (Pair 0) (drain_ignored (as_size_t len) b))"

text \<open>
  The bytes that \<open>evbuffer_add\<close> takes from the pointer: the length as \<open>size_t\<close> has to lie inside the chain, and a null
  pointer is good for no bytes only.
\<close>

definition pulled_bytes :: "(nat \<times> nat) option \<times> evbuffer \<Rightarrow> nat \<Rightarrow> bytes option" where
  "pulled_bytes r n =
    (if n = 0 then Some []
     else case chains (snd r) of [] \<Rightarrow> None
     | c # _ \<Rightarrow>
        (case fst r of None \<Rightarrow> None
         | Some (a, p) \<Rightarrow> if caddr c = a \<and> p + n \<le> buffer_len c then Some (take n (drop p (cbuffer c))) else None))"

text \<open>The result, the tag, the buffer and \<open>dst\<close>.\<close>

definition evtag_unmarshal :: "(nat \<Rightarrow> nat option) \<Rightarrow> evbuffer \<Rightarrow> evbuffer \<Rightarrow> (int \<times> UInt32 option \<times> evbuffer \<times> evbuffer) option" where
  "evtag_unmarshal al src dst =
    (case evtag_unmarshal_header al src of None \<Rightarrow> None
     | Some (len, tag, b) \<Rightarrow>
        if len = - 1 then Some (- 1, tag, b, dst)
        else case evbuffer_pullup (al 3) len b of None \<Rightarrow> None
        | Some r \<Rightarrow>
           if freeze_end dst then Some (- 1, tag, snd r, dst)
           else case pulled_bytes r (as_size_t len) of None \<Rightarrow> None
           | Some bs \<Rightarrow>
              (case evbuffer_add (al 4) bs dst of None \<Rightarrow> None
               | Some (res, dst') \<Rightarrow>
                  if res = - 1 then Some (- 1, tag, snd r, dst')
                  else map_option (\<lambda>b'. (len, tag, b', dst')) (drain_ignored (as_size_t len) (snd r))))"

definition unmarshal_int_with :: "((nat \<Rightarrow> nat option) \<Rightarrow> evbuffer \<Rightarrow> nat \<Rightarrow> (int \<times> 'a :: len word option \<times> evbuffer) option) \<Rightarrow>
    (nat \<Rightarrow> nat option) \<Rightarrow> evbuffer \<Rightarrow> UInt32 \<Rightarrow> (int \<times> 'a word option \<times> evbuffer) option" where
  "unmarshal_int_with decode al buf need_tag =
    (case decode_tag_internal (al 0) buf True of None \<Rightarrow> None
     | Some (r, tag, b1) \<Rightarrow>
        if r = - 1 \<or> tag \<noteq> Some need_tag then Some (- 1, None, b1)
        else case evtag_decode_int (\<lambda>i. al (Suc i)) b1 of
          Some (r', Some len, b2) \<Rightarrow>
            if r' = - 1 \<or> evbuffer_get_length b2 < unat len then Some (- 1, None, b2)
            else (case decode (\<lambda>i. al (3 + i)) b2 0 of None \<Rightarrow> None
              | Some (result, v, b3) \<Rightarrow>
                 map_option (\<lambda>b4. (if result < 0 \<or> result > int (unat len) then - 1 else result, v, b4)) (drain_ignored (unat len) b3))
        | Some (_, None, b2) \<Rightarrow> Some (- 1, None, b2)
        | None \<Rightarrow> None)"

definition evtag_unmarshal_int :: "(nat \<Rightarrow> nat option) \<Rightarrow> evbuffer \<Rightarrow> UInt32 \<Rightarrow> (int \<times> UInt32 option \<times> evbuffer) option" where
  "evtag_unmarshal_int al buf need_tag = unmarshal_int_with decode_int_internal al buf need_tag"

definition evtag_unmarshal_int64 :: "(nat \<Rightarrow> nat option) \<Rightarrow> evbuffer \<Rightarrow> UInt32 \<Rightarrow> (int \<times> UInt64 option \<times> evbuffer) option" where
  "evtag_unmarshal_int64 al buf need_tag = unmarshal_int_with decode_int64_internal al buf need_tag"

definition evtag_unmarshal_fixed :: "(nat \<Rightarrow> nat option) \<Rightarrow> evbuffer \<Rightarrow> UInt32 \<Rightarrow> nat \<Rightarrow> (int \<times> bytes option \<times> evbuffer) option" where
  "evtag_unmarshal_fixed al src need_tag len =
    (case evtag_unmarshal_header al src of None \<Rightarrow> None
     | Some (tag_len, tag, b) \<Rightarrow>
        if tag_len < 0 \<or> tag \<noteq> Some need_tag then Some (- 1, None, b)
        else if nat tag_len \<noteq> len then Some (- 1, None, b)
        else map_option (\<lambda>(_, data, b'). (0, Some data, b')) (evbuffer_remove len b))"

text \<open>
  \<open>mm\<close> says for which sizes \<open>mm_malloc\<close> succeeds. The string is the bytes with the zero at the end, as far as they were
  copied; with a negative length the zero would be written in front of the memory.
\<close>

definition evtag_unmarshal_string :: "(nat \<Rightarrow> bool) \<Rightarrow> (nat \<Rightarrow> nat option) \<Rightarrow> evbuffer \<Rightarrow> UInt32 \<Rightarrow> (int \<times> bytes option \<times> evbuffer) option" where
  "evtag_unmarshal_string mm al buf need_tag =
    (case evtag_unmarshal_header al buf of None \<Rightarrow> None
     | Some (tag_len, tag, b) \<Rightarrow>
        if tag_len = - 1 \<or> tag \<noteq> Some need_tag then Some (- 1, None, b)
        else if \<not> mm (as_size_t (tag_len + 1)) then Some (- 1, None, b)
        else if tag_len < 0 then None
        else map_option (\<lambda>(_, data, b'). (0, Some (data @ [0]), b')) (evbuffer_remove (nat tag_len) b))"

text \<open>What is written to \<open>ptv->tv_sec\<close> and \<open>ptv->tv_usec\<close>.\<close>

definition evtag_unmarshal_timeval :: "(nat \<Rightarrow> nat option) \<Rightarrow> evbuffer \<Rightarrow> UInt32 \<Rightarrow>
    (int \<times> (UInt32 option \<times> UInt32 option) \<times> evbuffer) option" where
  "evtag_unmarshal_timeval al buf need_tag =
    (case evtag_unmarshal_header al buf of None \<Rightarrow> None
     | Some (len, tag, b) \<Rightarrow>
        if len = - 1 then Some (- 1, (None, None), b)
        else let finish = (\<lambda>(result, tv, b'). map_option (\<lambda>b''. (result, tv, b'')) (drain_ignored (as_size_t len) b')) in
          if tag \<noteq> Some need_tag then finish (- 1, (None, None), b)
          else case decode_int_internal (\<lambda>i. al (3 + i)) b 0 of None \<Rightarrow> None
          | Some (offset, sec, b1) \<Rightarrow>
             if offset = - 1 then finish (- 1, (None, None), b1)
             else case decode_int_internal (\<lambda>i. al (5 + i)) b1 (nat offset) of None \<Rightarrow> None
             | Some (offset2, usec, b2) \<Rightarrow>
                if offset2 = - 1 then finish (- 1, (sec, None), b2)
                else finish (if offset + offset2 > len then - 1 else 0, (sec, usec), b2))"

section \<open>The wire format\<close>

text \<open>The nibble at a position of a byte string: even positions are the high halves.\<close>

definition nib :: "bytes \<Rightarrow> nat \<Rightarrow> UInt8" where
  "nib bs p = (if even p then drop_bit 4 (bs ! (p div 2)) else bs ! (p div 2) AND 0xf)"

fun pack_nibbles :: "UInt8 list \<Rightarrow> bytes" where
  "pack_nibbles [] = []"
| "pack_nibbles [a] = [push_bit 4 a]"
| "pack_nibbles (a # b # ns) = (push_bit 4 a OR b) # pack_nibbles ns"

text \<open>The number of nibbles of a number without leading zeros, and the nibbles from the lowest one on.\<close>

function ndigits :: "'a :: len word \<Rightarrow> nat" where
  "ndigits w = (if w = 0 then 0 else Suc (ndigits (drop_bit 4 w)))"
  by pat_completeness auto
termination
proof (relation "measure unat")
  fix w :: "'a word"
  assume "w \<noteq> 0"
  then have "unat w div 16 < unat w" by (simp add: unat_gt_0)
  moreover have "unat (drop_bit 4 w) = unat w div 16"
    by (simp only: unsigned_drop_bit_eq) (simp add: drop_bit_eq_div take_bit_nat_eq_self)
  ultimately show "(drop_bit 4 w, w) \<in> measure unat" by simp
qed simp

declare ndigits.simps [simp del]

definition digit :: "'a :: len word \<Rightarrow> nat \<Rightarrow> UInt8" where
  "digit w i = ucast (drop_bit (4 * i) w AND 0xf)"

definition int_wire :: "'a :: len word \<Rightarrow> bytes" where
  "int_wire w = (let k = max 1 (ndigits w) in pack_nibbles (word_of_nat (k - 1) # map (digit w) [0..<k]))"

lemma and_0xf: "(w :: 'a :: len word) AND 0xf = take_bit 4 w"
proof -
  have "mask 4 = (0xf :: 'a word)" by (simp add: mask_eq_exp_minus_1)
  then show ?thesis by (metis take_bit_eq_mask)
qed

lemma and_0xf0: "(b :: UInt8) AND 0xf0 = push_bit 4 (drop_bit 4 b)"
proof -
  have "push_bit 4 (mask 4) = (0xf0 :: UInt8)" by (simp add: mask_eq_exp_minus_1 push_bit_eq_mult)
  then have "b AND 0xf0 = b AND push_bit 4 (mask 4)" by simp
  then show ?thesis by (simp only:) (rule bit_word_eqI, auto simp: bit_simps)
qed

lemma nibble_bit: "\<lbrakk>(n :: 'a :: len word) AND 0xf = n; bit n j\<rbrakk> \<Longrightarrow> j < 4"
  by (metis and_0xf bit_take_bit_iff)

lemma nib_byte: "2 * i = p \<Longrightarrow> bs ! i = push_bit 4 (nib bs p) OR nib bs (Suc p)"
  by (rule bit_word_eqI) (auto simp: nib_def and_0xf bit_simps)

lemma nibs_eqI:
  assumes "length xs = length ys" "\<And>p. p < 2 * length xs \<Longrightarrow> nib xs p = nib ys p"
  shows "xs = ys"
proof (rule nth_equalityI [OF assms(1)])
  fix i
  assume "i < length xs"
  then show "xs ! i = ys ! i" using assms(2) [of "2 * i"] assms(2) [of "Suc (2 * i)"] nib_byte [of i "2 * i" xs] nib_byte [of i "2 * i" ys] by simp
qed

lemma length_pack [simp]: "length (pack_nibbles ns) = (length ns + 1) div 2"
  by (induction ns rule: pack_nibbles.induct) auto

lemma nib_halves:
  fixes a b :: UInt8
  assumes "a AND 0xf = a" "b AND 0xf = b"
  shows "drop_bit 4 (push_bit 4 a OR b) = a" "(push_bit 4 a OR b) AND 0xf = b"
  unfolding and_0xf by (rule bit_word_eqI, auto simp: bit_simps dest: nibble_bit [OF assms(1)] nibble_bit [OF assms(2)])+

lemma nib_pack:
  assumes "p < 2 * length (pack_nibbles ns)" "list_all (\<lambda>n. n AND 0xf = n) ns"
  shows "nib (pack_nibbles ns) p = (if p < length ns then ns ! p else 0)"
  using assms
proof (induction ns arbitrary: p rule: pack_nibbles.induct)
  case (2 a)
  then have "p = 0 \<or> p = 1" by auto
  then show ?case using nib_halves [of a 0] 2 by (elim disjE) (simp_all add: nib_def)
next
  case (3 a b ns)
  consider "p = 0" | "p = 1" | q where "p = Suc (Suc q)" by (cases p; cases "p - 1") auto
  then show ?case
  proof cases
    case 3
    then show ?thesis using "3.IH" [of q] "3.prems" by (auto simp: nib_def split: if_splits)
  qed (use nib_halves [of a b] "3.prems" in \<open>simp_all add: nib_def\<close>)
qed simp

text \<open>Writing a nibble.\<close>

lemma nib_write:
  fixes x :: UInt8
  assumes "q div 2 < length bs" "x AND 0xf = x"
    and "bs' = bs[q div 2 := if odd q then (bs ! (q div 2) AND 0xf0) OR x else (bs ! (q div 2) AND 0x0f) OR push_bit 4 x]"
  shows "nib bs' p = (if p = q then x else nib bs p)"
proof (cases "p div 2 = q div 2")
  case True
  then have pq: "p = q \<or> even p = odd q" by presburger
  have "drop_bit 4 ((b AND 0xf0) OR x) = drop_bit 4 b" "((b AND 0xf0) OR x) AND 0xf = x"
    "drop_bit 4 ((b AND 0xf) OR push_bit 4 x) = x" "((b AND 0xf) OR push_bit 4 x) AND 0xf = b AND 0xf" for b :: UInt8
    unfolding and_0xf0 unfolding and_0xf using nibble_bit [OF assms(2)] bit_imp_le_length [of b]
    by (auto intro!: bit_word_eqI simp: bit_simps dest: nibble_bit [OF assms(2)])
  then show ?thesis using True pq assms(1) by (auto simp: assms(3) nib_def)
next
  case False
  then show ?thesis by (auto simp: assms(3) nib_def)
qed

lemma digit_nibble [simp]: "digit w i AND 0xf = digit w i"
  unfolding digit_def and_0xf by (rule bit_word_eqI) (auto simp: bit_simps)

lemma digit_drop: "digit (drop_bit 4 w) i = digit w (Suc i)"
  by (simp add: digit_def add.commute)

lemma encode_nibbles_spec:
  fixes w :: "'a :: len word"
  assumes "at + ndigits w \<le> 2 * length data"
  shows "\<exists>data'. encode_nibbles data at w = Some (data', at + ndigits w) \<and> length data' = length data
    \<and> (\<forall>p. nib data' p = (if at \<le> p \<and> p < at + ndigits w then digit w (p - at) else nib data p))"
  using assms
proof (induction data at w rule: encode_nibbles.induct)
  case (1 data at w)
  show ?case
  proof (cases "w = 0")
    case True
    then show ?thesis by (auto simp: encode_nibbles.simps ndigits.simps)
  next
    case False
    then have nd: "ndigits w = Suc (ndigits (drop_bit 4 w))" by (subst ndigits.simps) simp
    then have b: "at div 2 < length data" using 1 by auto
    define x where "x = (ucast (w AND 0xf) :: UInt8)"
    have x: "x AND 0xf = x" "digit w 0 = x" using digit_nibble [of w 0] by (simp_all add: x_def digit_def)
    define d1 where "d1 = data[at div 2 := if odd at then (data ! (at div 2) AND 0xf0) OR x else (data ! (at div 2) AND 0x0f) OR push_bit 4 x]"
    have step: "encode_nibbles data at w = encode_nibbles d1 (Suc at) (drop_bit 4 w)"
      using False b by (subst encode_nibbles.simps) (simp add: d1_def x_def)
    obtain d' where d': "encode_nibbles d1 (Suc at) (drop_bit 4 w) = Some (d', Suc at + ndigits (drop_bit 4 w))" "length d' = length data"
      "\<And>p. nib d' p = (if Suc at \<le> p \<and> p < Suc at + ndigits (drop_bit 4 w) then digit (drop_bit 4 w) (p - Suc at) else nib d1 p)"
      using "1.IH" [OF False b, folded x_def d1_def] "1.prems" nd by (auto simp: d1_def)
    have "nib d' p = (if at \<le> p \<and> p < at + ndigits w then digit w (p - at) else nib data p)" for p
      using d'(3) [of p] nib_write [OF b x(1) d1_def, of p] x(2) nd by (auto simp: digit_drop Suc_diff_Suc)
    with d' step nd show ?thesis by auto
  qed
qed

lemma ndigits_le: "drop_bit (4 * k) w = 0 \<Longrightarrow> ndigits w \<le> k"
proof (induction k arbitrary: w)
  case 0
  then show ?case by (simp add: ndigits.simps)
next
  case (Suc k)
  then have "drop_bit (4 * k) (drop_bit 4 w) = 0" by (simp add: add.commute)
  from Suc.IH [OF this] show ?case by (subst ndigits.simps) auto
qed

lemma drop_ndigits: "drop_bit (4 * ndigits w) w = 0"
proof (induction w rule: ndigits.induct)
  case (1 w)
  show ?case
  proof (cases "w = 0")
    case False
    then have "ndigits w = Suc (ndigits (drop_bit 4 w))" by (subst ndigits.simps) simp
    then show ?thesis using 1 [OF False] by (simp add: add.commute)
  qed simp
qed

lemma ndigits_length: "LENGTH('a) \<le> 4 * k \<Longrightarrow> ndigits (w :: 'a :: len word) \<le> k"
  by (rule ndigits_le) (rule bit_word_eqI, auto simp: bit_simps dest!: bit_imp_le_length)

lemma small_nibble: "n < 16 \<Longrightarrow> word_of_nat n AND 0xf = (word_of_nat n :: UInt8)"
  unfolding and_0xf word_unat_eq_iff unsigned_take_bit_eq by (simp add: unat_of_nat take_bit_nat_eq_self)

lemma length_int_wire: "length (int_wire w) = (max 1 (ndigits w) + 2) div 2"
  by (simp add: int_wire_def Let_def)

lemma nib_int_wire:
  assumes "ndigits w \<le> 16" "p < 2 * length (int_wire w)"
  shows "nib (int_wire w) p = (if p = 0 then word_of_nat (max 1 (ndigits w) - 1) else if p \<le> ndigits w then digit w (p - 1) else 0)"
proof -
  define k where "k = max 1 (ndigits w)"
  define ns where "ns = (word_of_nat (k - 1) :: UInt8) # map (digit w) [0..<k]"
  have "list_all (\<lambda>n. n AND 0xf = n) ns" using assms(1) small_nibble [of "k - 1"] by (auto simp: ns_def k_def list_all_iff max_def split: if_splits)
  moreover have wire: "int_wire w = pack_nibbles ns" by (simp only: int_wire_def k_def ns_def Let_def)
  ultimately have "nib (int_wire w) p = (if p < length ns then ns ! p else 0)" using assms(2) by (simp add: nib_pack)
  moreover have "digit w 0 = 0" if "ndigits w = 0" using drop_ndigits [of w] that by (simp add: digit_def)
  ultimately show ?thesis by (auto simp: ns_def k_def nth_Cons' max_def split: if_splits)
qed

lemma nib_replicate [simp]: "p < 2 * n \<Longrightarrow> nib (replicate n 0) p = 0"
  by (simp add: nib_def less_mult_imp_div_less mult.commute)

lemma nib_take: "p < 2 * n \<Longrightarrow> nib (take n bs) p = nib bs p"
  by (simp add: nib_def less_mult_imp_div_less mult.commute)

text \<open>The encoder writes the wire format, inside its array.\<close>

lemma encode_is_wire:
  fixes w :: "'a :: len word"
  assumes len: "LENGTH('a) = 8 * m" "0 < m" "m \<le> 8"
  shows "\<exists>data. ENCODE_INT_INTERNAL w = Some (data, length (int_wire w)) \<and> length data = m + 1
    \<and> length (int_wire w) \<le> m + 1 \<and> take (length (int_wire w)) data = int_wire w"
proof -
  define k where "k = ndigits w"
  have k: "k \<le> 2 * m" unfolding k_def by (rule ndigits_length) (simp add: len)
  have k16: "k \<le> 16" using k len by simp
  obtain d where d: "encode_nibbles (replicate (m + 1) 0) 1 w = Some (d, 1 + k)" "length d = m + 1"
    "\<And>p. nib d p = (if 1 \<le> p \<and> p < 1 + k then digit w (p - 1) else nib (replicate (m + 1) 0) p)"
    using encode_nibbles_spec [of 1 w "replicate (m + 1) 0"] k by (auto simp: k_def)
  define x where "x = (word_of_nat (max 1 k - 1) :: UInt8)"
  have x: "x AND 0xf = x" unfolding x_def using k16 by (intro small_nibble) auto
  define d' where "d' = d[0 := (d ! 0 AND 0xf) OR push_bit 4 x]"
  have nib': "nib d' p = (if p = 0 then x else nib d p)" for p
    using nib_write [of 0 d x d' p] x d(2) by (simp add: d'_def)
  have n: "length (int_wire w) = (k + 2) div 2" by (auto simp: length_int_wire k_def max_def)
  have nibs: "(if 1 + k > 2 then 1 + k - 2 else 0) = max 1 k - 1" by auto
  have "LENGTH('a) div 8 + 1 = m + 1" "(1 + k + 1) div 2 = length (int_wire w)" using len n by simp_all
  then have enc: "ENCODE_INT_INTERNAL w = Some (d', length (int_wire w))"
    unfolding ENCODE_INT_INTERNAL_def by (simp only: d(1) option.case prod.case Let_def nibs x_def [symmetric] x d'_def)
  have le: "length (int_wire w) \<le> m + 1" using n k by simp
  have "take (length (int_wire w)) d' = int_wire w"
  proof (rule nibs_eqI)
    show l: "length (take (length (int_wire w)) d') = length (int_wire w)" using le d(2) by (simp add: d'_def)
    fix p
    assume "p < 2 * length (take (length (int_wire w)) d')"
    then have p: "p < 2 * length (int_wire w)" by (simp only: l)
    then have "p < 2 * (m + 1)" using k unfolding n by presburger
    then have "nib (replicate (m + 1) 0) p = 0" by (rule nib_replicate)
    then show "nib (take (length (int_wire w)) d') p = nib (int_wire w) p"
      using p nib_int_wire [of w p] k16 d(3) [of p] by (simp add: nib_take nib' x_def k_def)
  qed
  then show ?thesis using enc le d(2) by (auto simp: d'_def)
qed

lemma nib_nibble: "nib bs p AND 0xf = nib bs p"
  unfolding nib_def and_0xf by (rule bit_word_eqI) (auto simp: bit_simps dest: bit_imp_le_length)

lemma decode_nibbles_spec:
  fixes acc :: "'a :: len word"
  assumes "\<And>j. j \<le> n div 2 \<Longrightarrow> data j = Some (bs ! j)"
  shows "\<exists>r. decode_nibbles data n acc = Some r
    \<and> (\<forall>i < LENGTH('a). bit r i \<longleftrightarrow> (if i < 4 * n then bit (nib bs (Suc (i div 4))) (i mod 4) else bit acc (i - 4 * n)))"
  using assms
proof (induction n arbitrary: acc)
  case (Suc n)
  define acc' where "acc' = push_bit 4 acc OR ucast (nib bs (Suc n))"
  have "j \<le> n div 2 \<Longrightarrow> data j = Some (bs ! j)" for j using Suc.prems [of j] by (meson div_le_mono le_SucI le_trans order_refl)
  from Suc.IH [OF this, of acc'] obtain r where r: "decode_nibbles data n acc' = Some r"
    "\<And>i. i < LENGTH('a) \<Longrightarrow> bit r i \<longleftrightarrow> (if i < 4 * n then bit (nib bs (Suc (i div 4))) (i mod 4) else bit acc' (i - 4 * n))" by blast
  have "drop_bit 4 (b AND 0xf0) = drop_bit 4 b" for b :: UInt8
    unfolding and_0xf0 by (rule bit_word_eqI) (auto simp: bit_simps dest: bit_imp_le_length)
  then have "decode_nibbles data (Suc n) acc = Some r"
    using Suc.prems [of "Suc n div 2"] r(1) unfolding acc'_def nib_def decode_nibbles.simps by (simp only: option.case) (simp split: if_splits)
  moreover have "bit r i \<longleftrightarrow> (if i < 4 * Suc n then bit (nib bs (Suc (i div 4))) (i mod 4) else bit acc (i - 4 * Suc n))" if "i < LENGTH('a)" for i
  proof (cases "i < 4 * n \<or> 4 * Suc n \<le> i")
    case True
    have "\<not> bit (nib bs (Suc n)) (4 + j)" for j using nibble_bit [OF nib_nibble, of bs "Suc n" "4 + j"] by auto
    moreover have "i < 4 * n \<or> (\<exists>j. i = 4 * n + 4 + j)" using True by (auto simp: le_iff_add)
    ultimately show ?thesis using r(2) [OF that] that by (auto simp: acc'_def bit_simps add.assoc)
  next
    case False
    then have "i div 4 = n" by auto
    then have "i mod 4 = i - 4 * n" using minus_mult_div_eq_mod [of i 4] by simp
    note this \<open>i div 4 = n\<close>
    then show ?thesis using r(2) [OF that] that False by (auto simp: acc'_def bit_simps)
  qed
  ultimately show ?case by blast
qed simp

section \<open>Reading from the buffer\<close>

lemma pulled_byte_spec:
  assumes "pulled buf n r" "n \<le> length (contents buf)" "i < n"
  shows "pulled_byte r i = Some (contents buf ! i)"
proof -
  obtain c cs where ch: "chains (snd r) = c # cs" using assms(1) by (cases "chains (snd r)") (auto simp: pulled_def)
  with assms(1) have eq: "take n (cdata c) = take n (contents buf)" and ok: "chain_ok c"
    by (simp_all add: pulled_def evb_becomes_def evb_ok_def)
  from arg_cong [OF eq, of length] assms(2) ok have "n \<le> off c" by auto
  moreover from eq assms(2,3) have "cdata c ! i = contents buf ! i" by (metis nth_take)
  ultimately have "misalign c + i < buffer_len c" "cbuffer c ! (misalign c + i) = contents buf ! i"
    using assms(3) ok by (simp_all add: cdata_def chain_ok_def buffer_len_def)
  then show ?thesis using assms(1) ch by (cases r) (auto simp: pulled_byte_def pulled_def)
qed

lemma pullup_nat:
  assumes "evb_ok buf" "0 < n" "n \<le> length (contents buf)" "new \<noteq> None"
  shows "\<exists>r. evbuffer_pullup new (int n) buf = Some r \<and> pulled buf n r"
  using pullup_spec [OF assms(1-3), of "int n"] assms(4) by auto

lemma pulled_keeps:
  assumes "pulled buf n r"
  shows "evb_becomes buf (snd r) (contents buf)" "contents (snd r) = contents buf" "evb_ok (snd r)"
    "evb_tidy buf \<Longrightarrow> evb_tidy (snd r)"
  using assms by (simp_all add: pulled_def evb_becomes_def)

text \<open>What the decoder finds in a list of bytes: the number and its length.\<close>

definition int_unwire :: "nat \<Rightarrow> bytes \<Rightarrow> ('a :: len word \<times> nat) option" where
  "int_unwire maxnibbles bs =
    (if bs = [] then None
     else let nibbles = unat (nib bs 0) + 1; n = nibbles div 2 + 1 in
       if nibbles > maxnibbles \<or> n > length bs then None
       else map_option (\<lambda>v. (v, n)) (decode_nibbles (\<lambda>i. Some (bs ! i)) nibbles 0))"

lemma decode_nibbles_cong:
  fixes acc :: "'a :: len word"
  shows "(\<And>j. j \<le> n div 2 \<Longrightarrow> data j = data' j) \<Longrightarrow> decode_nibbles data n acc = decode_nibbles data' n acc"
proof (induction n arbitrary: acc)
  case (Suc n)
  have "decode_nibbles data n x = decode_nibbles data' n x" for x :: "'a word"
    by (rule Suc.IH, rule Suc.prems) (use div_le_mono [of n "Suc n" 2] in linarith)
  then show ?case using Suc.prems [of "Suc n div 2"] by (simp only: decode_nibbles.simps)
qed simp

lemma decode_nibbles_Some: "\<exists>v. decode_nibbles (\<lambda>i. Some (bs ! i)) n acc = Some v"
  using decode_nibbles_spec [of n "\<lambda>i. Some (bs ! i)" bs acc] by blast

lemma decode_spec:
  assumes ok: "evb_ok buf" and al: "\<And>i. al i \<noteq> None"
  shows "\<exists>b. (DECODE_INT_INTERNAL al maxnibbles buf offset :: (int \<times> 'a :: len word option \<times> evbuffer) option) =
      Some (case int_unwire maxnibbles (drop offset (contents buf)) of None \<Rightarrow> (- 1, None, b) | Some (v, n) \<Rightarrow> (int n, Some v, b))
    \<and> evb_becomes buf b (contents buf) \<and> (evb_tidy buf \<longrightarrow> evb_tidy b)"
proof (cases "length (contents buf) \<le> offset")
  case True
  then show ?thesis using ok evb_ok_length [OF ok]
    by (simp add: DECODE_INT_INTERNAL_def evbuffer_get_length_def int_unwire_def evb_becomes_def)
next
  case False
  define bs where "bs = drop offset (contents buf)"
  have len: "total_len buf = length (contents buf)" by (rule evb_ok_length [OF ok])
  have bs: "bs \<noteq> []" "length bs = length (contents buf) - offset" using False by (auto simp: bs_def)
  obtain r1 where r1: "evbuffer_pullup (al 0) (int offset + 1) buf = Some r1" "pulled buf (offset + 1) r1"
    using pullup_nat [OF ok, of "offset + 1" "al 0"] False al [of 0] by (auto simp: algebra_simps)
  note k1 = pulled_keeps [OF r1(2)]
  have b0: "pulled_byte r1 offset = Some (bs ! 0)" using pulled_byte_spec [OF r1(2), of offset] False by (simp add: bs_def)
  define nibbles where "nibbles = unat (nib bs 0) + 1"
  define n where "n = nibbles div 2 + 1"
  have "drop_bit 4 (b AND 0xf0) = drop_bit 4 b" for b :: UInt8
    unfolding and_0xf0 by (rule bit_word_eqI) (auto simp: bit_simps dest: bit_imp_le_length)
  then have nb: "unat (drop_bit 4 (bs ! 0 AND 0xf0)) + 1 = nibbles" by (simp only: nibbles_def nib_def) simp
  have un: "(int_unwire maxnibbles bs :: ('a word \<times> nat) option) = (if nibbles > maxnibbles \<or> n > length bs then None
      else map_option (\<lambda>v. (v, n)) (decode_nibbles (\<lambda>i. Some (bs ! i)) nibbles 0))"
    using bs(1) by (simp add: int_unwire_def nibbles_def n_def Let_def)
  have D: "(DECODE_INT_INTERNAL al maxnibbles buf offset :: (int \<times> 'a word option \<times> evbuffer) option) =
      (if nibbles > maxnibbles \<or> int n > int (length bs) then Some (- 1, None, snd r1)
       else case evbuffer_pullup (al 1) (int (offset + n)) (snd r1) of None \<Rightarrow> None
       | Some r2 \<Rightarrow> (case decode_nibbles (\<lambda>i. pulled_byte r2 (offset + i)) nibbles 0 of None \<Rightarrow> None
           | Some number \<Rightarrow> Some (int n, Some number, snd r2)))"
    using False r1(1) b0 len bs(2) unfolding DECODE_INT_INTERNAL_def Let_def evbuffer_get_length_def n_def nb [symmetric]
    by (simp add: of_nat_diff)
  show ?thesis
  proof (cases "nibbles > maxnibbles \<or> n > length bs")
    case True
    then show ?thesis using D un k1 by (auto simp: bs_def)
  next
    case ok2: False
    then have fits: "offset + n \<le> length (contents buf)" "0 < offset + n" using bs(2) False by (auto simp: n_def)
    from fits obtain r2 where r2: "evbuffer_pullup (al 1) (int (offset + n)) (snd r1) = Some r2" "pulled (snd r1) (offset + n) r2"
      using pullup_nat [OF k1(3), of "offset + n" "al 1"] al [of 1] k1(2) by auto
    note k2 = pulled_keeps [OF r2(2)]
    have "pulled_byte r2 (offset + j) = Some (bs ! j)" if "j \<le> nibbles div 2" for j
      using pulled_byte_spec [OF r2(2), of "offset + j"] that fits False k1(2) by (simp add: bs_def n_def)
    then have "decode_nibbles (\<lambda>i. pulled_byte r2 (offset + i)) nibbles acc = decode_nibbles (\<lambda>i. Some (bs ! i)) nibbles acc" for acc :: "'a word"
      by (intro decode_nibbles_cong) auto
    moreover obtain v :: "'a word" where "decode_nibbles (\<lambda>i. Some (bs ! i)) nibbles 0 = Some v" using decode_nibbles_Some by blast
    moreover have "evb_becomes buf (snd r2) (contents buf) \<and> (evb_tidy buf \<longrightarrow> evb_tidy (snd r2))"
      using k1 k2 by (auto simp: evb_becomes_def)
    ultimately show ?thesis using D un ok2 r2(1) by (auto simp: bs_def)
  qed
qed

lemma int_unwire_wire:
  fixes w :: "'a :: len word"
  assumes len: "LENGTH('a) = 8 * m" "0 < m" "m \<le> 8"
  shows "int_unwire (2 * m) (int_wire w @ rest) = Some (w, length (int_wire w))"
proof -
  define k where "k = max 1 (ndigits w)"
  have k: "k \<le> 2 * m" unfolding k_def using ndigits_length [of "2 * m" w] len by simp
  have k16: "ndigits w \<le> 16" using k len by (simp add: k_def)
  have n: "length (int_wire w) = k div 2 + 1" using length_int_wire [of w] by (simp add: k_def)
  have nibs: "nib (int_wire w @ rest) p = nib (int_wire w) p" if "p < 2 * length (int_wire w)" for p
    using that by (simp add: nib_def nth_append less_mult_imp_div_less mult.commute)
  have "nib (int_wire w @ rest) 0 = word_of_nat (k - 1)" using nibs [of 0] nib_int_wire [OF k16, of 0] n by (simp add: k_def)
  moreover have "unat (word_of_nat (k - 1) :: UInt8) = k - 1" using k len by (simp add: unat_of_nat)
  ultimately have kk: "unat (nib (int_wire w @ rest) 0) + 1 = k" by (simp add: k_def)
  obtain r :: "'a word" where r: "decode_nibbles (\<lambda>i. Some ((int_wire w @ rest) ! i)) k 0 = Some r"
    "\<And>i. i < LENGTH('a) \<Longrightarrow> bit r i \<longleftrightarrow> (if i < 4 * k then bit (nib (int_wire w @ rest) (Suc (i div 4))) (i mod 4) else bit (0 :: 'a word) (i - 4 * k))"
    using decode_nibbles_spec [of k "\<lambda>i. Some ((int_wire w @ rest) ! i)" "int_wire w @ rest" 0] by blast
  have "r = w"
  proof (rule bit_word_eqI)
    fix i
    assume i: "i < LENGTH('a)"
    show "bit r i = bit w i"
    proof (cases "i < 4 * ndigits w")
      case True
      then have q: "Suc (i div 4) \<le> ndigits w" by auto
      then have "Suc (i div 4) < 2 * length (int_wire w)" using n by (simp add: k_def)
      then have "nib (int_wire w @ rest) (Suc (i div 4)) = digit w (i div 4)"
        using nibs nib_int_wire [OF k16, of "Suc (i div 4)"] q by simp
      moreover have "i mod 4 < 8" using mod_less_divisor [of 4 i] by linarith
      ultimately show ?thesis using r(2) [OF i] True i by (simp add: k_def digit_def and_0xf bit_simps)
    next
      case False
      then have "\<not> bit w i" using arg_cong [OF drop_ndigits, of "\<lambda>v. bit v (i - 4 * ndigits w)" w] by (simp add: bit_simps)
      moreover have "\<not> bit r i"
      proof (cases "i < 4 * k")
        case True
        with False have z: "ndigits w = 0" "i < 4" by (auto simp: k_def max_def split: if_splits)
        then have "nib (int_wire w @ rest) 1 = 0" using nibs [of 1] nib_int_wire [OF k16, of 1] n by (simp add: k_def)
        then show ?thesis using r(2) [OF i] True z by simp
      qed (use r(2) [OF i] in simp)
      ultimately show ?thesis by simp
    qed
  qed
  moreover have "int_wire w @ rest \<noteq> []" using n by auto
  ultimately show ?thesis using r(1) k n unfolding int_unwire_def Let_def kk by simp
qed

section \<open>The format of tags\<close>

function tag_wire :: "UInt32 \<Rightarrow> bytes" where
  "tag_wire t = (if drop_bit 7 t = 0 then [ucast t] else (ucast (take_bit 7 t) OR 0x80) # tag_wire (drop_bit 7 t))"
  by pat_completeness auto
termination
proof (relation "measure unat")
  fix t :: UInt32
  assume "drop_bit 7 t \<noteq> 0"
  then have "t \<noteq> 0" by auto
  then have "unat t div 128 < unat t" by (simp add: unat_gt_0)
  moreover have "unat (drop_bit 7 t) = unat t div 128"
    by (simp only: unsigned_drop_bit_eq) (simp add: drop_bit_eq_div take_bit_nat_eq_self unsigned_less [of t, where 'a = nat, simplified])
  ultimately show "(drop_bit 7 t, t) \<in> measure unat" by simp
qed simp

declare tag_wire.simps [simp del]

abbreviation more_follows :: "UInt8 \<Rightarrow> bool" where
  "more_follows b \<equiv> b AND 0x80 \<noteq> 0"

fun tag_value :: "bytes \<Rightarrow> UInt32" where
  "tag_value [] = 0"
| "tag_value (b # bs) = ucast (b AND 0x7f) OR push_bit 7 (tag_value bs)"

text \<open>What the decoder finds in a list of bytes: the tag and the number of its bytes.\<close>

definition tag_unwire :: "bytes \<Rightarrow> (UInt32 \<times> nat) option" where
  "tag_unwire bs =
    (let k = length (takeWhile more_follows bs)
     in if k < 5 \<and> k < length bs then Some (tag_value (take (Suc k) bs), Suc k) else None)"

lemma more_follows_bit: "more_follows b \<longleftrightarrow> bit b 7"
  using and_exp_eq_0_iff_not_bit [of b 7] by simp

lemma tag_wire_first:
  assumes "drop_bit 7 t = 0"
  shows "\<not> more_follows (ucast t)" "ucast ((ucast t :: UInt8) AND 0x7f) = t"
proof -
  have t: "bit t n \<Longrightarrow> n < 7" for n
    using arg_cong [OF assms, of "\<lambda>v. bit v (n - 7)"] by (cases "n < 7") (auto simp: bit_simps)
  show "ucast ((ucast t :: UInt8) AND 0x7f) = t"
    by (rule bit_word_eqI) (auto simp: and_7F_take_bit bit_simps dest: t)
  show "\<not> more_follows (ucast t)" unfolding more_follows_bit using t [of 7] by (auto simp: bit_simps)
qed

lemma tag_wire_next:
  fixes t :: UInt32
  shows "more_follows (ucast (take_bit 7 t) OR 0x80)" "ucast ((ucast (take_bit 7 t) OR 0x80 :: UInt8) AND 0x7f) = take_bit 7 t"
    "take_bit 7 t OR push_bit 7 (drop_bit 7 t) = t"
proof -
  show "more_follows (ucast (take_bit 7 t) OR 0x80)" unfolding more_follows_bit by (simp add: bit_or_iff)
  show "ucast ((ucast (take_bit 7 t) OR 0x80 :: UInt8) AND 0x7f) = take_bit 7 t"
    by (rule bit_word_eqI) (auto simp: and_7F_take_bit bit_simps)
  show "take_bit 7 t OR push_bit 7 (drop_bit 7 t) = t"
  proof (rule bit_word_eqI)
    fix n
    assume "n < LENGTH(32)"
    then show "bit (take_bit 7 t OR push_bit 7 (drop_bit 7 t)) n = bit t n" by (cases "n < 7") (simp_all add: bit_simps)
  qed
qed

lemma tag_wire_split: "\<exists>xs x. tag_wire t = xs @ [x] \<and> list_all more_follows xs \<and> \<not> more_follows x"
proof (induction t rule: tag_wire.induct)
  case (1 t)
  show ?case
  proof (cases "drop_bit 7 t = 0")
    case True
    then have "tag_wire t = [] @ [ucast t]" by (subst tag_wire.simps) simp
    then show ?thesis using tag_wire_first(1) [OF True] by (intro exI [of _ "[]"] exI [of _ "ucast t"]) simp
  next
    case False
    then obtain xs x where "tag_wire (drop_bit 7 t) = xs @ [x]" "list_all more_follows xs" "\<not> more_follows x" using 1 by blast
    moreover from False have "tag_wire t = (ucast (take_bit 7 t) OR 0x80) # tag_wire (drop_bit 7 t)" by (subst tag_wire.simps) simp
    ultimately have "tag_wire t = ((ucast (take_bit 7 t) OR 0x80) # xs) @ [x] \<and> list_all more_follows ((ucast (take_bit 7 t) OR 0x80) # xs) \<and> \<not> more_follows x"
      using tag_wire_next(1) [of t] by simp
    then show ?thesis by blast
  qed
qed

lemma tag_value_wire: "tag_value (tag_wire t) = t"
proof (induction t rule: tag_wire.induct)
  case (1 t)
  show ?case
  proof (cases "drop_bit 7 t = 0")
    case True
    then show ?thesis using tag_wire_first(2) [OF True] by (subst tag_wire.simps) simp
  next
    case False
    then show ?thesis using 1 tag_wire_next(2,3) [of t] by (subst tag_wire.simps) simp
  qed
qed

lemma length_tag_wire_le: "drop_bit (7 * k) t = 0 \<Longrightarrow> 0 < k \<Longrightarrow> length (tag_wire t) \<le> k"
proof (induction k arbitrary: t)
  case (Suc k)
  show ?case
  proof (cases "drop_bit 7 t = 0")
    case True
    then show ?thesis by (subst tag_wire.simps) simp
  next
    case False
    with Suc.prems have "drop_bit (7 * k) (drop_bit 7 t) = 0" "0 < k" by (auto simp: add.commute intro: Nat.gr0I)
    from Suc.IH [OF this] show ?thesis using False by (subst tag_wire.simps) simp
  qed
qed simp

lemma length_tag_wire: "0 < length (tag_wire t)" "length (tag_wire t) \<le> 5"
proof -
  show "0 < length (tag_wire t)" by (subst tag_wire.simps) simp
  have "drop_bit (7 * 5) t = 0" by (rule bit_word_eqI) (auto simp: bit_simps dest: bit_imp_le_length)
  then show "length (tag_wire t) \<le> 5" by (rule length_tag_wire_le) simp
qed

lemma tag_unwire_wire: "tag_unwire (tag_wire t @ rest) = Some (t, length (tag_wire t))"
proof -
  obtain xs x where w: "tag_wire t = xs @ [x]" "list_all more_follows xs" "\<not> more_follows x" using tag_wire_split by blast
  then have tw: "takeWhile more_follows (tag_wire t @ rest) = xs" by (auto simp: list_all_iff takeWhile_append2)
  have "Suc (length xs) = length (tag_wire t)" using w by simp
  then show ?thesis using tag_value_wire [of t] length_tag_wire(2) [of t] w(1)
    unfolding tag_unwire_def tw Let_def by auto
qed

lemma encode_tag_loop_spec:
  assumes "k + length (tag_wire t) \<le> length data"
  shows "\<exists>data'. encode_tag_loop data k t = Some (data', k + length (tag_wire t)) \<and> length data' = length data
    \<and> take (k + length (tag_wire t)) data' = take k data @ tag_wire t"
  using assms
proof (induction t arbitrary: data k rule: tag_wire.induct)
  case (1 t)
  have k: "k < length data" using 1 length_tag_wire(1) [of t] by linarith
  have m: "ucast (t AND 0x7f) = (ucast (take_bit 7 t) :: UInt8)"
    by (rule bit_word_eqI) (auto simp: and_7F_take_bit bit_simps)
  show ?case
  proof (cases "drop_bit 7 t = 0")
    case True
    have "ucast (take_bit 7 t) = (ucast t :: UInt8)"
      using tag_wire_next(3) [of t] True by simp
    then show ?thesis using True k m by (subst encode_tag_loop.simps) (simp add: Let_def tag_wire.simps [of t] take_Suc_conv_app_nth)
  next
    case False
    define d where "d = data[k := ucast (take_bit 7 t) OR 0x80]"
    have w: "tag_wire t = (ucast (take_bit 7 t) OR 0x80) # tag_wire (drop_bit 7 t)" using False by (subst tag_wire.simps) simp
    have "encode_tag_loop data k t = encode_tag_loop d (Suc k) (drop_bit 7 t)"
      using False k m by (subst encode_tag_loop.simps) (simp add: Let_def d_def)
    moreover have "take (Suc k) d = take k data @ [ucast (take_bit 7 t) OR 0x80]" using k by (simp add: d_def take_Suc_conv_app_nth)
    ultimately show ?thesis using 1(1) [OF False, of "Suc k" d] "1.prems" w by (auto simp: d_def)
  qed
qed

text \<open>The decoder on arbitrary bytes, of which it reads at most five.\<close>

lemma decode_tag_loop_spec:
  assumes "\<And>i. i < min 5 (length bs) \<Longrightarrow> data i = Some (bs ! i)" "count \<le> 5" "count \<le> length bs"
    and k: "k = length (takeWhile more_follows (drop count bs))"
  shows "(5 \<le> count + k \<and> 5 < length bs \<longrightarrow> decode_tag_loop data (length bs) count number = None)
    \<and> (count + k = length bs \<and> length bs \<le> 5 \<longrightarrow> (\<exists>v. decode_tag_loop data (length bs) count number = Some (None, v)))
    \<and> (count + k < 5 \<and> count + k < length bs \<longrightarrow>
        decode_tag_loop data (length bs) count number = Some (Some (Suc (count + k)), number OR push_bit (7 * count) (tag_value (take (Suc k) (drop count bs)))))"
  using assms(2,3) k
proof (induction "5 - count" arbitrary: count number k)
  case 0
  then have "count = 5" by simp
  then show ?case by (auto simp: decode_tag_loop.simps [of data _ 5] split: option.splits)
next
  case (Suc d)
  show ?case
  proof (cases "count < length bs")
    case False
    then have "count = length bs" using Suc.prems by simp
    then show ?thesis using Suc by (subst decode_tag_loop.simps) auto
  next
    case True
    have c: "count < 5" using Suc.hyps by simp
    define b where "b = bs ! count"
    have dr: "drop count bs = b # drop (Suc count) bs" using True by (simp add: b_def Cons_nth_drop_Suc)
    have data: "data count = Some b" using assms(1) [of count] True c by (simp add: b_def)
    define number' where "number' = number OR push_bit (7 * count) (ucast (b AND 0x7f))"
    have step: "decode_tag_loop data (length bs) count number =
      (if more_follows b then decode_tag_loop data (length bs) (Suc count) number' else Some (Some (Suc count), number'))"
      using True c data by (subst decode_tag_loop.simps) (simp add: number'_def Let_def)
    show ?thesis
    proof (cases "more_follows b")
      case False
      then show ?thesis using step Suc.prems dr True c by (simp add: number'_def)
    next
      case more: True
      define k' where "k' = length (takeWhile more_follows (drop (Suc count) bs))"
      have k: "k = Suc k'" using Suc.prems dr more by (simp add: k'_def)
      have v: "number' OR push_bit (7 * Suc count) v = number OR push_bit (7 * count) (ucast (b AND 0x7f) OR push_bit 7 v)" for v :: UInt32
        by (simp add: number'_def push_bit_or or.assoc add.commute)
      show ?thesis
        using Suc.hyps(1) [of "Suc count" k' number'] Suc.hyps(2) c True step more unfolding v
        by (simp add: k dr k'_def)
    qed
  qed
qed

lemma decode_tag_spec:
  assumes ok: "evb_ok buf" and new: "new \<noteq> None" and fr: "\<not> freeze_start buf"
  shows "if 5 < length (contents buf) \<and> list_all more_follows (take 5 (contents buf)) then decode_tag_internal new buf dodrain = None
    else (\<exists>b. decode_tag_internal new buf dodrain =
        Some (case tag_unwire (contents buf) of None \<Rightarrow> (- 1, None, b) | Some (t, n) \<Rightarrow> (int n, Some t, b))
      \<and> evb_becomes buf b (case tag_unwire (contents buf) of None \<Rightarrow> contents buf | Some (t, n) \<Rightarrow> if dodrain then drop n (contents buf) else contents buf)
      \<and> (evb_tidy buf \<longrightarrow> evb_tidy b))"
proof (cases "contents buf = []")
  case True
  then have "total_len buf = 0" using evb_ok_length [OF ok] by simp
  then show ?thesis using True ok
    by (simp add: decode_tag_internal_def evbuffer_get_length_def evbuffer_pullup_def decode_tag_loop.simps tag_unwire_def evb_becomes_def)
next
  case False
  define bs where "bs = contents buf"
  define k where "k = length (takeWhile more_follows bs)"
  have len: "total_len buf = length bs" unfolding bs_def by (rule evb_ok_length [OF ok])
  obtain r where r: "evbuffer_pullup new (int (min (length bs) 5)) buf = Some r" "pulled buf (min (length bs) 5) r"
    using pullup_nat [OF ok, of "min (length bs) 5" new] new False by (auto simp: bs_def)
  note kp = pulled_keeps [OF r(2)]
  have rd: "pulled_byte r i = Some (bs ! i)" if "i < min 5 (length bs)" for i
    using pulled_byte_spec [OF r(2), of i] that by (simp add: bs_def min.commute)
  have loop: "5 \<le> k \<and> 5 < length bs \<longrightarrow> decode_tag_loop (pulled_byte r) (length bs) 0 0 = None"
    "k = length bs \<and> length bs \<le> 5 \<longrightarrow> (\<exists>v. decode_tag_loop (pulled_byte r) (length bs) 0 0 = Some (None, v))"
    "k < 5 \<and> k < length bs \<longrightarrow> decode_tag_loop (pulled_byte r) (length bs) 0 0 = Some (Some (Suc k), tag_value (take (Suc k) bs))"
    using decode_tag_loop_spec [of bs "pulled_byte r" 0 k 0, OF rd] by (simp_all add: k_def)
  have D: "decode_tag_internal new buf dodrain = (case decode_tag_loop (pulled_byte r) (length bs) 0 0 of None \<Rightarrow> None
         | Some (None, _) \<Rightarrow> Some (- 1, None, snd r)
         | Some (Some count, number) \<Rightarrow>
            map_option (\<lambda>b. (int count, Some number, b)) (if dodrain then drain_ignored count (snd r) else Some (snd r)))"
    by (simp add: decode_tag_internal_def evbuffer_get_length_def len r(1) Let_def)
  have kl: "k \<le> length bs" unfolding k_def by (rule length_takeWhile_le)
  have un: "tag_unwire bs = (if k < 5 \<and> k < length bs then Some (tag_value (take (Suc k) bs), Suc k) else None)"
    by (simp add: tag_unwire_def k_def Let_def)
  consider "5 \<le> k" "5 < length bs" | "k = length bs" "length bs \<le> 5" | "k < 5" "k < length bs"
    using kl by linarith
  then show ?thesis
  proof cases
    case 1
    have "take k bs = takeWhile more_follows bs" unfolding k_def by (metis append_eq_conv_conj takeWhile_dropWhile_id)
    then have "take 5 bs = take 5 (takeWhile more_follows bs)" using 1 by (metis min.absorb1 take_take)
    then have "list_all more_follows (take 5 bs)" by (auto simp: list_all_iff dest!: in_set_takeD set_takeWhileD)
    then show ?thesis using 1 loop D by (simp add: bs_def)
  next
    case 2
    then show ?thesis using loop D un kp by (auto simp: bs_def)
  next
    case 3
    then have "\<not> more_follows (bs ! k)" "bs ! k \<in> set (take 5 bs)"
      using nth_length_takeWhile [of more_follows bs] nth_mem [of k "take 5 bs"] by (auto simp: k_def)
    then have no: "\<not> list_all more_follows (take 5 (contents buf))" by (auto simp: list_all_iff bs_def)
    have "\<exists>b. evbuffer_drain (Suc k) (snd r) = Some (0, b) \<and> evb_becomes (snd r) b (drop (Suc k) bs) \<and> (evb_tidy (snd r) \<longrightarrow> evb_tidy b)"
      using drain_spec [OF kp(3), of "Suc k"] kp fr by (auto simp: bs_def evb_becomes_def)
    then show ?thesis using 3 loop D un kp no by (auto simp: bs_def drain_ignored_def evb_becomes_def)
  qed
qed

section \<open>Writing records\<close>

definition evb_open :: "evbuffer \<Rightarrow> bool" where
  "evb_open buf \<longleftrightarrow> chains buf \<noteq> [] \<and> \<not> immutable (last (chains buf))"

definition appended :: "evbuffer \<Rightarrow> bytes \<Rightarrow> evbuffer \<Rightarrow> bool" where
  "appended buf bs b \<longleftrightarrow> evb_usable b \<and> evb_open b \<and> contents b = contents buf @ bs"

lemma chain_insert_last:
  assumes "evbuffer_chain_insert c buf = Some b"
  shows "chains b \<noteq> [] \<and> last (chains b) = c"
  using assms by (auto simp: evbuffer_chain_insert_def split: if_splits option.splits)

lemma immutable_updates [simp]: "immutable (append_data bs c) = immutable c" "immutable (evbuffer_chain_align c) = immutable c"
  by (simp_all add: append_data_def evbuffer_chain_align_def)

lemma evb_open_updates [simp]:
  "evb_open (evbuffer_invoke_callbacks b) = evb_open b" "evb_open (count_added n b) = evb_open b"
  "evb_open (set_last c b) \<longleftrightarrow> \<not> immutable c" "evb_open (b\<lparr>n_add_for_cb := m\<rparr>) = evb_open b"
  by (simp_all add: evb_open_def count_added_def set_last_def)

lemma add_to_last_open:
  assumes "add_to_last new bs buf = Some (0, b)"
  shows "evb_open b"
proof -
  define c where "c = last (chains buf)"
  define remain where "remain = (if immutable c then 0 else buffer_len c - misalign c - off c)"
  show ?thesis
  proof (cases "\<not> immutable c \<and> (remain \<ge> length bs \<or> evbuffer_chain_should_realign c (length bs))")
    case True
    then show ?thesis using assms unfolding add_to_last_def Let_def c_def [symmetric] remain_def [symmetric] by (auto split: if_splits)
  next
    case False
    let ?sz = "max (length bs) (if buffer_len c \<le> 2048 then 2 * buffer_len c else buffer_len c)"
    let ?buf1 = "if remain \<noteq> 0 then count_added remain (set_last (append_data (take remain bs) c) buf) else buf"
    have eq: "add_to_last new bs buf = (case evbuffer_chain_new new ?sz of None \<Rightarrow> Some (- 1, buf)
        | Some tmp \<Rightarrow> map_option (\<lambda>b. (0, evbuffer_invoke_callbacks (b\<lparr>n_add_for_cb := n_add_for_cb b + length (drop remain bs)\<rparr>)))
             (evbuffer_chain_insert ((store 0 (drop remain bs) tmp)\<lparr>off := length (drop remain bs)\<rparr>) ?buf1))"
      unfolding add_to_last_def Let_def c_def [symmetric] remain_def [symmetric] using False by (simp only: if_False de_Morgan_conj) (auto simp: remain_def)
    then obtain tmp where t: "evbuffer_chain_new new ?sz = Some tmp" using assms by (cases "evbuffer_chain_new new ?sz") auto
    obtain b1 where b1: "evbuffer_chain_insert ((store 0 (drop remain bs) tmp)\<lparr>off := length (drop remain bs)\<rparr>) ?buf1 = Some b1"
      "b = evbuffer_invoke_callbacks (b1\<lparr>n_add_for_cb := n_add_for_cb b1 + length (drop remain bs)\<rparr>)"
      using assms unfolding eq t by auto
    from chain_insert_last [OF b1(1)] b1(2) chain_new_spec(4) [OF t] show ?thesis by (simp only: evb_open_updates) (simp add: evb_open_def)
  qed
qed

lemma add_usable:
  assumes u: "evb_usable buf" and new: "new \<noteq> None" and bs: "bs \<noteq> [] \<or> evb_open buf"
  shows "\<exists>b. evbuffer_add new bs buf = Some (0, b) \<and> appended buf bs b"
proof -
  have ok: "evb_ok buf" "evb_tidy buf" "\<not> freeze_end buf" using u by (simp_all add: evb_usable_def)
  obtain b where b: "evbuffer_add new bs buf = Some (0, b)" "evb_becomes buf b (contents buf @ bs)" "bs \<noteq> [] \<longrightarrow> evb_tidy b"
    using add_spec [OF ok(1,2), of new bs] new ok(3) by auto
  have "evb_open b"
    using b(1) ok(3) add_to_last_open by (auto simp: evbuffer_add_def split: if_splits option.splits)
  moreover have "evb_tidy b"
  proof (cases "bs = []")
    case True
    with bs have op: "chains buf \<noteq> []" "\<not> immutable (last (chains buf))" by (simp_all add: evb_open_def)
    then have "b = evbuffer_invoke_callbacks (count_added 0 (set_last (append_data [] (last (chains buf))) buf))"
      using b(1) ok(3) True by (simp add: evbuffer_add_def add_to_last_def Let_def)
    then show ?thesis using ok(2) op(1) by (simp add: evb_tidy_def count_added_def set_last_def)
  qed (use b(3) in simp)
  ultimately show ?thesis using b u by (auto simp: appended_def evb_usable_def evb_becomes_def)
qed

lemma add_ignored_spec:
  assumes "evb_usable buf" "new \<noteq> None" "bs \<noteq> [] \<or> evb_open buf"
  shows "\<exists>b. add_ignored new bs buf = Some b \<and> appended buf bs b"
  using add_usable [OF assms] by (auto simp: add_ignored_def)

lemma wire_nonempty: "int_wire w \<noteq> []" "tag_wire t \<noteq> []"
  using length_int_wire [of w] length_tag_wire [of t] by auto

lemma encode_int_wire:
  "\<exists>data. encode_int_internal n = Some (data, length (int_wire n)) \<and> length data = 5 \<and> length (int_wire n) \<le> 5 \<and> take (length (int_wire n)) data = int_wire n"
  "\<exists>data. encode_int64_internal m = Some (data, length (int_wire m)) \<and> length data = 9 \<and> length (int_wire m) \<le> 9 \<and> take (length (int_wire m)) data = int_wire m"
  using encode_is_wire [of 4 n] encode_is_wire [of 8 m] by (simp_all add: encode_int_internal_def encode_int64_internal_def)

lemma encode_tag_spec:
  assumes "evb_usable buf" "new \<noteq> None"
  shows "\<exists>b. evtag_encode_tag new tag buf = Some (int (length (tag_wire tag)), b) \<and> appended buf (tag_wire tag) b"
proof -
  obtain d where "encode_tag_loop (replicate 5 0) 0 tag = Some (d, length (tag_wire tag))" "take (length (tag_wire tag)) d = tag_wire tag"
    using encode_tag_loop_spec [of 0 tag "replicate 5 0"] length_tag_wire(2) [of tag] by auto
  moreover obtain b where "add_ignored new (tag_wire tag) buf = Some b" "appended buf (tag_wire tag) b"
    using add_ignored_spec [OF assms, of "tag_wire tag"] wire_nonempty by auto
  ultimately show ?thesis by (simp add: evtag_encode_tag_def)
qed

lemma encode_int_spec:
  assumes "evb_usable buf" "new \<noteq> None"
  shows "\<exists>b. evtag_encode_int new n buf = Some b \<and> appended buf (int_wire n) b"
    "\<exists>b. evtag_encode_int64 new m buf = Some b \<and> appended buf (int_wire m) b"
  using encode_int_wire(1) [of n] encode_int_wire(2) [of m] add_ignored_spec [OF assms, of "int_wire n"] add_ignored_spec [OF assms, of "int_wire m"]
  by (auto simp: wire_nonempty evtag_encode_int_def evtag_encode_int64_def add_array_def)

text \<open>A record: the tag, the length of the data, the data.\<close>

definition record_wire :: "UInt32 \<Rightarrow> bytes \<Rightarrow> bytes" where
  "record_wire tag data = tag_wire tag @ int_wire (word_of_nat (length data) :: UInt32) @ data"

lemma appended_trans: "\<lbrakk>appended a xs b; appended b ys c\<rbrakk> \<Longrightarrow> appended a (xs @ ys) c"
  by (simp add: appended_def)

lemma appended_usable: "appended a xs b \<Longrightarrow> evb_usable b \<and> evb_open b"
  by (simp add: appended_def)

lemma marshal_spec:
  assumes u: "evb_usable buf" and al: "\<And>i. al i \<noteq> None"
  shows "\<exists>b. evtag_marshal al tag data buf = Some b \<and> appended buf (record_wire tag data) b"
proof -
  obtain b1 where b1: "evtag_encode_tag (al 0) tag buf = Some (int (length (tag_wire tag)), b1)" "appended buf (tag_wire tag) b1"
    using encode_tag_spec [OF u al] by blast
  note u1 = appended_usable [OF b1(2)]
  obtain b2 where b2: "evtag_encode_int (al 1) (word_of_nat (length data)) b1 = Some b2" "appended b1 (int_wire (word_of_nat (length data) :: UInt32)) b2"
    using encode_int_spec(1) [of b1 "al 1"] u1 al by blast
  note u2 = appended_usable [OF b2(2)]
  obtain b3 where b3: "add_ignored (al 2) data b2 = Some b3" "appended b2 data b3"
    using add_ignored_spec [of b2 "al 2" data] u2 al by blast
  from appended_trans [OF b1(2) appended_trans [OF b2(2) b3(2)]] show ?thesis
    using b1(1) b2(1) b3(1) by (simp add: evtag_marshal_def record_wire_def)
qed

lemma marshal_array_spec:
  assumes "r = Some (data, length bs)" "take (length bs) data = bs"
  shows "marshal_array al tag r buf = evtag_marshal al tag bs buf"
  by (simp only: marshal_array_def evtag_marshal_def assms option.case prod.case)

lemma marshal_int_eq:
  "evtag_marshal_int al tag n = evtag_marshal al tag (int_wire n)"
  "evtag_marshal_int64 al tag m = evtag_marshal al tag (int_wire m)"
  using encode_int_wire(1) [of n] encode_int_wire(2) [of m] marshal_array_spec
  by (auto simp: evtag_marshal_int_def evtag_marshal_int64_def fun_eq_iff)

lemma marshal_timeval_eq:
  "evtag_marshal_timeval al tag (ucast (s :: UInt32), ucast (us :: UInt32)) = evtag_marshal al tag (int_wire s @ int_wire us)"
proof -
  have "ucast (ucast s :: Int64) = s" "ucast (ucast us :: Int64) = us" by (rule bit_word_eqI; simp add: bit_simps)+
  then show ?thesis using encode_int_wire(1) [of s] encode_int_wire(1) [of us]
    by (auto simp: evtag_marshal_timeval_def fun_eq_iff)
qed

lemma marshal_string_eq: "0 \<notin> set s \<Longrightarrow> evtag_marshal_string al tag (s @ [0]) = evtag_marshal al tag s"
proof -
  assume "0 \<notin> set s"
  then have "takeWhile (\<lambda>b. b \<noteq> 0) (s @ [0]) = s" by (induction s) auto
  then show ?thesis by (simp add: evtag_marshal_string_def fun_eq_iff)
qed

section \<open>Reading records\<close>

text \<open>The buffer \<open>b\<close> holds \<open>bs\<close>.\<close>

definition holds :: "bytes \<Rightarrow> evbuffer \<Rightarrow> bool" where
  "holds bs b \<longleftrightarrow> evb_usable b \<and> contents b = bs"

lemma holds_becomes: "\<lbrakk>evb_usable buf; evb_becomes buf b bs; evb_tidy buf \<longrightarrow> evb_tidy b\<rbrakk> \<Longrightarrow> holds bs b"
  by (auto simp: holds_def evb_usable_def evb_becomes_def)

lemma drain_holds: "holds bs buf \<Longrightarrow> \<exists>b. drain_ignored n buf = Some b \<and> holds (drop n bs) b"
  using drain_spec [of buf n] holds_becomes [of buf _ "drop n bs"] by (auto simp: holds_def drain_ignored_def evb_usable_def)

lemma remove_holds:
  assumes "holds (data @ rest) buf"
  shows "\<exists>b. evbuffer_remove (length data) buf = Some (int (length data), data, b) \<and> holds rest b"
proof -
  have u: "evb_usable buf" "contents buf = data @ rest" using assms by (simp_all add: holds_def)
  obtain b where "evbuffer_remove (length data) buf = Some (int (length data), data, b)"
    "evb_becomes buf b rest" "evb_tidy buf \<longrightarrow> evb_tidy b"
    using remove_spec [of buf "length data"] u by (auto simp: evb_usable_def)
  then show ?thesis using holds_becomes [OF u(1)] by blast
qed

lemma tag_read:
  assumes "holds (tag_wire t @ rest) buf" "new \<noteq> None"
  shows "\<exists>b. decode_tag_internal new buf dodrain = Some (int (length (tag_wire t)), Some t, b)
    \<and> holds (if dodrain then rest else tag_wire t @ rest) b"
proof -
  have u: "evb_usable buf" "evb_ok buf" "\<not> freeze_start buf" and c: "contents buf = tag_wire t @ rest"
    using assms by (simp_all add: holds_def evb_usable_def)
  have "\<not> (5 < length (contents buf) \<and> list_all more_follows (take 5 (contents buf)))"
  proof
    assume *: "5 < length (contents buf) \<and> list_all more_follows (take 5 (contents buf))"
    obtain xs x where w: "tag_wire t = xs @ [x]" "\<not> more_follows x" using tag_wire_split by blast
    then have "take 5 (contents buf) ! length xs = x" "length xs < length (take 5 (contents buf))"
      using length_tag_wire(2) [of t] * c by (simp_all add: nth_append)
    then have "x \<in> set (take 5 (contents buf))" by (metis nth_mem)
    then show False using * w(2) by (simp only: list_all_iff) blast
  qed
  with decode_tag_spec [OF u(2) assms(2) u(3), of dodrain] obtain b where
    "decode_tag_internal new buf dodrain = Some (int (length (tag_wire t)), Some t, b)"
    "evb_becomes buf b (if dodrain then rest else tag_wire t @ rest)" "evb_tidy buf \<longrightarrow> evb_tidy b"
    using c tag_unwire_wire [of t rest] by (cases dodrain) force+
  then show ?thesis using holds_becomes [OF u(1)] by blast
qed

lemma int_read:
  assumes "holds (pre @ int_wire (w :: 'a :: len word) @ rest) buf" "\<And>i. al i \<noteq> None" "LENGTH('a) = 8 * m" "0 < m" "m \<le> 8"
  shows "\<exists>b. DECODE_INT_INTERNAL al (2 * m) buf (length pre) = Some (int (length (int_wire w)), Some w, b)
    \<and> holds (pre @ int_wire w @ rest) b"
proof -
  have u: "evb_usable buf" "evb_ok buf" and c: "contents buf = pre @ int_wire w @ rest"
    using assms by (simp_all add: holds_def evb_usable_def)
  have un: "(int_unwire (2 * m) (drop (length pre) (contents buf)) :: ('a word \<times> nat) option) = Some (w, length (int_wire w))"
    using int_unwire_wire [OF assms(3-5), of w rest] by (simp add: c)
  obtain b where "DECODE_INT_INTERNAL al (2 * m) buf (length pre) = Some (int (length (int_wire w)), Some w, b)"
    "evb_becomes buf b (contents buf)" "evb_tidy buf \<longrightarrow> evb_tidy b"
    using decode_spec [OF u(2), where 'a = 'a, where al = al and maxnibbles = "2 * m" and offset = "length pre"] assms(2) unfolding un by auto
  then show ?thesis using holds_becomes [OF u(1)] c by metis
qed

lemma int32_read:
  assumes "holds (pre @ int_wire (w :: UInt32) @ rest) buf" "\<And>i. al i \<noteq> None"
  shows "\<exists>b. decode_int_internal al buf (length pre) = Some (int (length (int_wire w)), Some w, b) \<and> holds (pre @ int_wire w @ rest) b"
  using int_read [OF assms, of 4] by (simp add: decode_int_internal_def)

lemma int64_read:
  assumes "holds (pre @ int_wire (w :: UInt64) @ rest) buf" "\<And>i. al i \<noteq> None"
  shows "\<exists>b. decode_int64_internal al buf (length pre) = Some (int (length (int_wire w)), Some w, b) \<and> holds (pre @ int_wire w @ rest) b"
  using int_read [OF assms, of 8] by (simp add: decode_int64_internal_def)

lemma decode_int_read:
  assumes "holds (int_wire w @ rest) buf" "\<And>i. al i \<noteq> None"
  shows "\<exists>b. evtag_decode_int al buf = Some (0, Some w, b) \<and> holds rest b"
proof -
  obtain b1 where b1: "decode_int_internal al buf 0 = Some (int (length (int_wire w)), Some w, b1)" "holds (int_wire w @ rest) b1"
    using int32_read [of "[]" w rest buf al] assms by auto
  from drain_holds [OF this(2), of "length (int_wire w)"] b1 show ?thesis
    by (auto simp: evtag_decode_int_def decode_and_drain_def)
qed

lemma decode_int64_read:
  assumes "holds (int_wire w @ rest) buf" "\<And>i. al i \<noteq> None"
  shows "\<exists>b. evtag_decode_int64 al buf = Some (0, Some w, b) \<and> holds rest b"
proof -
  obtain b1 where b1: "decode_int64_internal al buf 0 = Some (int (length (int_wire w)), Some w, b1)" "holds (int_wire w @ rest) b1"
    using int64_read [of "[]" w rest buf al] assms by auto
  from drain_holds [OF this(2), of "length (int_wire w)"] b1 show ?thesis
    by (auto simp: evtag_decode_int64_def decode_and_drain_def)
qed

lemma unat_length32: "n < 2 ^ 31 \<Longrightarrow> unat (word_of_nat n :: UInt32) = n" "n < 2 ^ 31 \<Longrightarrow> sint (word_of_nat n :: UInt32) = int n"
  by (simp_all add: unat_of_nat sint_word_ariths signed_of_nat signed_take_bit_int_eq_self)

lemma holds_length: "holds bs b \<Longrightarrow> evbuffer_get_length b = length bs"
  using evb_ok_length [of b] by (simp add: holds_def evb_usable_def evbuffer_get_length_def)

lemma header_read:
  assumes h: "holds (record_wire tag data @ rest) buf" and al: "\<And>i. al i \<noteq> None" and len: "length data < 2 ^ 31"
  shows "\<exists>b. evtag_unmarshal_header al buf = Some (int (length data), Some tag, b) \<and> holds (data @ rest) b"
proof -
  define l where "l = (word_of_nat (length data) :: UInt32)"
  obtain b1 where b1: "decode_tag_internal (al 0) buf True = Some (int (length (tag_wire tag)), Some tag, b1)" "holds (int_wire l @ data @ rest) b1"
    using tag_read [of tag _ buf "al 0" True] h al by (auto simp: record_wire_def l_def)
  obtain b2 where b2: "evtag_decode_int (\<lambda>i. al (Suc i)) b1 = Some (0, Some l, b2)" "holds (data @ rest) b2"
    using decode_int_read [OF b1(2), of "\<lambda>i. al (Suc i)"] al by blast
  show ?thesis using b1(1) b2 holds_length [OF b2(2)] unat_length32 [OF len]
    by (simp add: evtag_unmarshal_header_def l_def)
qed

lemma as_size_t_nat: "n < 2 ^ 32 \<Longrightarrow> as_size_t (int n) = n"
  by (simp add: as_size_t_def unat_of_nat)

lemma unmarshal_with_read:
  fixes w :: "'a :: len word"
  assumes h: "holds (record_wire tag (int_wire w) @ rest) buf" and al: "\<And>i. al i \<noteq> None" and len: "length (int_wire w) < 2 ^ 31"
    and dec: "\<And>b. holds (int_wire w @ rest) b \<Longrightarrow> \<exists>b'. decode (\<lambda>i. al (3 + i)) b 0 = Some (int (length (int_wire w)), Some w, b') \<and> holds (int_wire w @ rest) b'"
  shows "\<exists>b. unmarshal_int_with decode al buf tag = Some (int (length (int_wire w)), Some w, b) \<and> holds rest b"
proof -
  define l where "l = (word_of_nat (length (int_wire w)) :: UInt32)"
  obtain b1 where b1: "decode_tag_internal (al 0) buf True = Some (int (length (tag_wire tag)), Some tag, b1)" "holds (int_wire l @ int_wire w @ rest) b1"
    using tag_read [of tag _ buf "al 0" True] h al by (auto simp: record_wire_def l_def)
  obtain b2 where b2: "evtag_decode_int (\<lambda>i. al (Suc i)) b1 = Some (0, Some l, b2)" "holds (int_wire w @ rest) b2"
    using decode_int_read [OF b1(2), of "\<lambda>i. al (Suc i)"] al by blast
  obtain b3 where b3: "decode (\<lambda>i. al (3 + i)) b2 0 = Some (int (length (int_wire w)), Some w, b3)" "holds (int_wire w @ rest) b3"
    using dec [OF b2(2)] by blast
  obtain b4 where b4: "drain_ignored (length (int_wire w)) b3 = Some b4" "holds rest b4"
    using drain_holds [OF b3(2), of "length (int_wire w)"] by auto
  show ?thesis using b1(1) b2(1) b3(1) b4 holds_length [OF b2(2)] unat_length32(1) [OF len]
    by (simp add: unmarshal_int_with_def l_def)
qed

lemma int_wire_short: "length (int_wire (n :: UInt32)) < 2 ^ 31" "length (int_wire (m :: UInt64)) < 2 ^ 31"
  using encode_int_wire(1) [of n] encode_int_wire(2) [of m] by auto

lemma unmarshal_int_read:
  assumes "holds (record_wire tag (int_wire n) @ rest) buf" "\<And>i. al i \<noteq> None"
  shows "\<exists>b. evtag_unmarshal_int al buf tag = Some (int (length (int_wire n)), Some n, b) \<and> holds rest b"
  unfolding evtag_unmarshal_int_def
  by (rule unmarshal_with_read [OF assms int_wire_short(1)]) (use int32_read [of "[]" n rest _ "\<lambda>i. al (3 + i)"] assms(2) in auto)

lemma unmarshal_int64_read:
  assumes "holds (record_wire tag (int_wire n) @ rest) buf" "\<And>i. al i \<noteq> None"
  shows "\<exists>b. evtag_unmarshal_int64 al buf tag = Some (int (length (int_wire n)), Some n, b) \<and> holds rest b"
  unfolding evtag_unmarshal_int64_def
  by (rule unmarshal_with_read [OF assms int_wire_short(2)]) (use int64_read [of "[]" n rest _ "\<lambda>i. al (3 + i)"] assms(2) in auto)

lemma unmarshal_fixed_read:
  assumes "holds (record_wire tag data @ rest) buf" "\<And>i. al i \<noteq> None" "length data < 2 ^ 31"
  shows "\<exists>b. evtag_unmarshal_fixed al buf tag (length data) = Some (0, Some data, b) \<and> holds rest b"
proof -
  obtain b1 where b1: "evtag_unmarshal_header al buf = Some (int (length data), Some tag, b1)" "holds (data @ rest) b1"
    using header_read [of tag data rest buf al] assms by blast
  with remove_holds [OF b1(2)] show ?thesis by (auto simp: evtag_unmarshal_fixed_def)
qed

lemma unmarshal_string_read:
  assumes "holds (record_wire tag data @ rest) buf" "\<And>i. al i \<noteq> None" "length data < 2 ^ 31" "mm (length data + 1)"
  shows "\<exists>b. evtag_unmarshal_string mm al buf tag = Some (0, Some (data @ [0]), b) \<and> holds rest b"
proof -
  obtain b1 where b1: "evtag_unmarshal_header al buf = Some (int (length data), Some tag, b1)" "holds (data @ rest) b1"
    using header_read [of tag data rest buf al] assms(1-3) by blast
  have "as_size_t (int (length data) + 1) = length data + 1" using as_size_t_nat [of "length data + 1"] assms(3) by (simp add: algebra_simps)
  with remove_holds [OF b1(2)] b1(1) assms(4) show ?thesis by (auto simp: evtag_unmarshal_string_def)
qed

lemma unmarshal_timeval_read:
  assumes "holds (record_wire tag (int_wire (s :: UInt32) @ int_wire (us :: UInt32)) @ rest) buf" "\<And>i. al i \<noteq> None"
  shows "\<exists>b. evtag_unmarshal_timeval al buf tag = Some (0, (Some s, Some us), b) \<and> holds rest b"
proof -
  define len where "len = length (int_wire s @ int_wire us)"
  have short: "len < 2 ^ 31" using encode_int_wire(1) [of s] encode_int_wire(1) [of us] by (auto simp: len_def)
  obtain b1 where b1: "evtag_unmarshal_header al buf = Some (int len, Some tag, b1)" "holds (int_wire s @ int_wire us @ rest) b1"
    using header_read [of tag "int_wire s @ int_wire us" rest buf al] assms short by (auto simp: len_def)
  obtain b2 where b2: "decode_int_internal (\<lambda>i. al (3 + i)) b1 0 = Some (int (length (int_wire s)), Some s, b2)" "holds (int_wire s @ int_wire us @ rest) b2"
    using int32_read [of "[]" s "int_wire us @ rest" b1 "\<lambda>i. al (3 + i)"] b1(2) assms(2) by auto
  obtain b3 where b3: "decode_int_internal (\<lambda>i. al (5 + i)) b2 (length (int_wire s)) = Some (int (length (int_wire us)), Some us, b3)" "holds (int_wire s @ int_wire us @ rest) b3"
    using int32_read [OF b2(2), of "\<lambda>i. al (5 + i)"] assms(2) by blast
  obtain b4 where b4: "drain_ignored len b3 = Some b4" "holds rest b4" using drain_holds [OF b3(2), of len] by (auto simp: len_def)
  have "as_size_t (int len) = len" using as_size_t_nat [of len] short by simp
  then show ?thesis using b1(1) b2(1) b3(1) b4 by (simp add: evtag_unmarshal_timeval_def len_def Let_def)
qed

section \<open>Streams of records\<close>

text \<open>Values that are written to a buffer one after the other and read back in the same order.\<close>

fun put_all :: "('v \<Rightarrow> evbuffer \<Rightarrow> evbuffer option) \<Rightarrow> 'v list \<Rightarrow> evbuffer \<Rightarrow> evbuffer option" where
  "put_all put [] buf = Some buf"
| "put_all put (v # vs) buf = (case put v buf of None \<Rightarrow> None | Some b \<Rightarrow> put_all put vs b)"

fun get_all :: "('s \<Rightarrow> evbuffer \<Rightarrow> ('v \<times> evbuffer) option) \<Rightarrow> 's list \<Rightarrow> evbuffer \<Rightarrow> ('v list \<times> evbuffer) option" where
  "get_all get [] buf = Some ([], buf)"
| "get_all get (s # ss) buf =
    (case get s buf of None \<Rightarrow> None | Some (v, b) \<Rightarrow> map_option (\<lambda>(vs, b'). (v # vs, b')) (get_all get ss b))"

locale stream_codec =
  fixes put :: "'v \<Rightarrow> evbuffer \<Rightarrow> evbuffer option"
    and get :: "'s \<Rightarrow> evbuffer \<Rightarrow> ('v \<times> evbuffer) option"
    and schema :: "'v \<Rightarrow> 's"
    and wire :: "'v \<Rightarrow> bytes"
    and good :: "'v \<Rightarrow> bool"
  assumes put_wire: "\<lbrakk>holds bs buf; good v\<rbrakk> \<Longrightarrow> \<exists>b. put v buf = Some b \<and> holds (bs @ wire v) b"
    and get_wire: "\<lbrakk>holds (wire v @ rest) buf; good v\<rbrakk> \<Longrightarrow> \<exists>b. get (schema v) buf = Some (v, b) \<and> holds rest b"
begin

lemma put_all_wire:
  assumes "holds bs buf" "list_all good vs"
  shows "\<exists>b. put_all put vs buf = Some b \<and> holds (bs @ concat (map wire vs)) b"
  using assms
proof (induction vs arbitrary: bs buf)
  case (Cons v vs)
  with put_wire [OF Cons.prems(1), of v] obtain b where "put v buf = Some b" "holds (bs @ wire v) b" by auto
  with Cons.IH [of "bs @ wire v" b] Cons.prems show ?case by auto
qed auto

lemma get_all_wire:
  assumes "holds (concat (map wire vs) @ rest) buf" "list_all good vs"
  shows "\<exists>b. get_all get (map schema vs) buf = Some (vs, b) \<and> holds rest b"
  using assms
proof (induction vs arbitrary: buf)
  case (Cons v vs)
  with get_wire [of v "concat (map wire vs) @ rest" buf] obtain b where
    "get (schema v) buf = Some (v, b)" "holds (concat (map wire vs) @ rest) b" by auto
  with Cons.IH [of b] Cons.prems show ?case by auto
qed auto

lemma put_get_all:
  assumes "holds [] buf" "list_all good vs"
  shows "\<exists>b b'. put_all put vs buf = Some b \<and> holds (concat (map wire vs)) b \<and> get_all get (map schema vs) b = Some (vs, b') \<and> holds [] b'"
  using put_all_wire [OF assms] get_all_wire [where rest = "[]"] assms(2) by fastforce

end

text \<open>A tag with a value of one of the types that have functions of their own.\<close>

datatype tagged = T_int UInt32 | T_int64 UInt64 | T_string bytes | T_timeval UInt32 UInt32 | T_data bytes

datatype tagged_kind = K_int | K_int64 | K_string | K_timeval | K_data nat

fun kind_of :: "UInt32 \<times> tagged \<Rightarrow> UInt32 \<times> tagged_kind" where
  "kind_of (tag, T_int _) = (tag, K_int)"
| "kind_of (tag, T_int64 _) = (tag, K_int64)"
| "kind_of (tag, T_string _) = (tag, K_string)"
| "kind_of (tag, T_timeval _ _) = (tag, K_timeval)"
| "kind_of (tag, T_data bs) = (tag, K_data (length bs))"

fun tagged_ok :: "UInt32 \<times> tagged \<Rightarrow> bool" where
  "tagged_ok (tag, T_string s) = (0 \<notin> set s \<and> length s < 2 ^ 31)"
| "tagged_ok (tag, T_data bs) = (length bs < 2 ^ 31)"
| "tagged_ok _ = True"

fun tagged_wire :: "UInt32 \<times> tagged \<Rightarrow> bytes" where
  "tagged_wire (tag, T_int n) = record_wire tag (int_wire n)"
| "tagged_wire (tag, T_int64 n) = record_wire tag (int_wire n)"
| "tagged_wire (tag, T_string s) = record_wire tag s"
| "tagged_wire (tag, T_timeval s us) = record_wire tag (int_wire s @ int_wire us)"
| "tagged_wire (tag, T_data bs) = record_wire tag bs"

fun marshal_value :: "(nat \<Rightarrow> nat) \<Rightarrow> UInt32 \<times> tagged \<Rightarrow> evbuffer \<Rightarrow> evbuffer option" where
  "marshal_value a (tag, T_int n) buf = evtag_marshal_int (Some \<circ> a) tag n buf"
| "marshal_value a (tag, T_int64 n) buf = evtag_marshal_int64 (Some \<circ> a) tag n buf"
| "marshal_value a (tag, T_string s) buf = evtag_marshal_string (Some \<circ> a) tag (s @ [0]) buf"
| "marshal_value a (tag, T_timeval s us) buf = evtag_marshal_timeval (Some \<circ> a) tag (ucast s, ucast us) buf"
| "marshal_value a (tag, T_data bs) buf = evtag_marshal (Some \<circ> a) tag bs buf"

text \<open>Reading fails (\<open>None\<close>) unless the function reports success; the zero at the end of a string is cut off.\<close>

definition succeeded :: "('x \<Rightarrow> tagged) \<Rightarrow> UInt32 \<Rightarrow> (int \<times> 'x option \<times> evbuffer) option \<Rightarrow> ((UInt32 \<times> tagged) \<times> evbuffer) option" where
  "succeeded f tag r = (case r of Some (res, Some v, b) \<Rightarrow> if res \<ge> 0 then Some ((tag, f v), b) else None | _ \<Rightarrow> None)"

fun unmarshal_value :: "(nat \<Rightarrow> nat) \<Rightarrow> UInt32 \<times> tagged_kind \<Rightarrow> evbuffer \<Rightarrow> ((UInt32 \<times> tagged) \<times> evbuffer) option" where
  "unmarshal_value a (tag, K_int) buf = succeeded T_int tag (evtag_unmarshal_int (Some \<circ> a) buf tag)"
| "unmarshal_value a (tag, K_int64) buf = succeeded T_int64 tag (evtag_unmarshal_int64 (Some \<circ> a) buf tag)"
| "unmarshal_value a (tag, K_string) buf = succeeded (\<lambda>s. T_string (butlast s)) tag (evtag_unmarshal_string (\<lambda>_. True) (Some \<circ> a) buf tag)"
| "unmarshal_value a (tag, K_timeval) buf =
    succeeded (\<lambda>(s, us). T_timeval s us) tag
      (map_option (\<lambda>(r, tv, b). (r, case tv of (Some s, Some us) \<Rightarrow> Some (s, us) | _ \<Rightarrow> None, b)) (evtag_unmarshal_timeval (Some \<circ> a) buf tag))"
| "unmarshal_value a (tag, K_data n) buf = succeeded T_data tag (evtag_unmarshal_fixed (Some \<circ> a) buf tag n)"

lemma marshal_holds:
  assumes "holds bs buf"
  shows "\<exists>b. evtag_marshal (Some \<circ> a) tag data buf = Some b \<and> holds (bs @ record_wire tag data) b"
  using marshal_spec [of buf "Some \<circ> a" tag data] assms by (auto simp: holds_def appended_def)

lemma marshal_value_wire:
  assumes "holds bs buf" "tagged_ok v"
  shows "\<exists>b. marshal_value a v buf = Some b \<and> holds (bs @ tagged_wire v) b"
proof -
  obtain tag x where v: "v = (tag, x)" by (cases v)
  show ?thesis using assms(2) marshal_holds [OF assms(1)]
    by (cases x) (simp_all add: v marshal_int_eq marshal_timeval_eq marshal_string_eq)
qed

lemma unmarshal_value_wire:
  assumes "holds (tagged_wire v @ rest) buf" "tagged_ok v"
  shows "\<exists>b. unmarshal_value a (kind_of v) buf = Some (v, b) \<and> holds rest b"
proof -
  obtain tag x where v: "v = (tag, x)" by (cases v)
  show ?thesis
  proof (cases x)
    case (T_int n)
    then show ?thesis using unmarshal_int_read [of tag n rest buf "Some \<circ> a"] assms v by (auto simp: succeeded_def)
  next
    case (T_int64 n)
    then show ?thesis using unmarshal_int64_read [of tag n rest buf "Some \<circ> a"] assms v by (auto simp: succeeded_def)
  next
    case (T_string s)
    then show ?thesis using unmarshal_string_read [of tag s rest buf "Some \<circ> a" "\<lambda>_. True"] assms v by (auto simp: succeeded_def)
  next
    case (T_timeval s us)
    then show ?thesis using unmarshal_timeval_read [of tag s us rest buf "Some \<circ> a"] assms v by (auto simp: succeeded_def)
  next
    case (T_data bs)
    then show ?thesis using unmarshal_fixed_read [of tag bs rest buf "Some \<circ> a"] assms v by (auto simp: succeeded_def)
  qed
qed

interpretation tagged: stream_codec "marshal_value a" "unmarshal_value a'" kind_of tagged_wire tagged_ok
  by unfold_locales (rule marshal_value_wire unmarshal_value_wire; assumption)+

lemma holds_new: "holds [] evbuffer_new"
  by (simp add: holds_def evb_usable_def) (simp add: evbuffer_new_def)

lemma peek_read:
  assumes h: "holds (record_wire tag data @ rest) buf" and al: "\<And>i. al i \<noteq> None"
  shows "\<exists>b1 b2. decode_tag_internal (al 0) buf False = Some (int (length (tag_wire tag)), Some tag, b1)
    \<and> decode_int_internal (\<lambda>i. al (Suc i)) b1 (length (tag_wire tag)) =
        Some (int (length (int_wire (word_of_nat (length data) :: UInt32))), Some (word_of_nat (length data)), b2)
    \<and> holds (record_wire tag data @ rest) b1 \<and> holds (record_wire tag data @ rest) b2"
proof -
  define l where "l = (word_of_nat (length data) :: UInt32)"
  have w: "record_wire tag data @ rest = tag_wire tag @ int_wire l @ data @ rest" by (simp add: record_wire_def l_def)
  obtain b1 where b1: "decode_tag_internal (al 0) buf False = Some (int (length (tag_wire tag)), Some tag, b1)" "holds (tag_wire tag @ int_wire l @ data @ rest) b1"
    using tag_read [of tag _ buf "al 0" False] h al unfolding w by auto
  with int32_read [OF b1(2), of "\<lambda>i. al (Suc i)"] al show ?thesis unfolding w l_def by auto
qed

lemma pulled_bytes_spec:
  assumes "pulled buf n r" "n \<le> length (contents buf)"
  shows "pulled_bytes r n = Some (take n (contents buf))"
proof (cases "n = 0")
  case False
  obtain c cs where ch: "chains (snd r) = c # cs" using assms(1) by (cases "chains (snd r)") (auto simp: pulled_def)
  with assms(1) have eq: "take n (cdata c) = take n (contents buf)" and ok: "chain_ok c" and p: "fst r = Some (caddr c, misalign c)"
    by (simp_all add: pulled_def evb_becomes_def evb_ok_def)
  from arg_cong [OF eq, of length] assms(2) ok have n: "n \<le> off c" by auto
  then have "take n (drop (misalign c) (cbuffer c)) = take n (cdata c)" by (simp add: cdata_def min_def)
  with eq n ok show ?thesis using False ch p by (simp add: pulled_bytes_def chain_ok_def)
qed (simp add: pulled_bytes_def)

lemma unmarshal_read:
  assumes h: "holds (record_wire tag data @ rest) buf" and al: "\<And>i. al i \<noteq> None" and len: "length data < 2 ^ 31"
    and dst: "holds ds dst" and ne: "data \<noteq> []"
  shows "\<exists>b dst'. evtag_unmarshal al buf dst = Some (int (length data), Some tag, b, dst') \<and> holds rest b \<and> holds (ds @ data) dst'"
proof -
  obtain b1 where b1: "evtag_unmarshal_header al buf = Some (int (length data), Some tag, b1)" "holds (data @ rest) b1"
    using header_read [of tag data rest buf al] h al len by blast
  then have ok: "evb_ok b1" "evb_usable b1" "contents b1 = data @ rest" by (simp_all add: holds_def evb_usable_def)
  obtain r where r: "evbuffer_pullup (al 3) (int (length data)) b1 = Some r" "pulled b1 (length data) r"
    using pullup_nat [OF ok(1), of "length data" "al 3"] ok(3) ne al by auto
  have hr: "holds (data @ rest) (snd r)" using holds_becomes [OF ok(2) pulled_keeps(1) [OF r(2)]] pulled_keeps(4) [OF r(2)] ok(3) by simp
  have sz: "as_size_t (int (length data)) = length data" using as_size_t_nat [of "length data"] len by simp
  have pb: "pulled_bytes r (length data) = Some data" using pulled_bytes_spec [OF r(2)] ok(3) by simp
  obtain d' where d': "evbuffer_add (al 4) data dst = Some (0, d')" "holds (ds @ data) d'"
    using add_usable [of dst "al 4" data] dst al ne by (auto simp: holds_def appended_def)
  obtain b2 where b2: "drain_ignored (length data) (snd r) = Some b2" "holds rest b2" using drain_holds [OF hr, of "length data"] by auto
  have "\<not> freeze_end dst" using dst by (simp add: holds_def evb_usable_def)
  then show ?thesis using b1(1) r(1) sz pb d' b2 by (simp add: evtag_unmarshal_def)
qed



text \<open>
  In front of a record, \<open>evtag_peek\<close> gives its tag, \<open>evtag_payload_length\<close> the length of its data and
  \<open>evtag_peek_length\<close> the length of the whole record, and none of them takes anything from the buffer;
  \<open>evtag_consume\<close> removes exactly the record, and \<open>evtag_unmarshal\<close> moves exactly its data to the end of another buffer.
\<close>

theorem tag_header_functions:
  assumes h: "holds (record_wire tag data @ rest) buf" and al: "\<And>i. al i \<noteq> None" and len: "length data < 2 ^ 31"
  shows "(\<exists>b. evtag_peek (al 0) buf = Some (int (length (tag_wire tag)), Some tag, b) \<and> holds (record_wire tag data @ rest) b)
    \<and> (\<exists>b. evtag_payload_length al buf = Some (0, Some (word_of_nat (length data)), b) \<and> holds (record_wire tag data @ rest) b)
    \<and> (\<exists>b. evtag_peek_length al buf = Some (0, Some (word_of_nat (length (record_wire tag data))), b) \<and> holds (record_wire tag data @ rest) b)
    \<and> (\<exists>b. evtag_consume al buf = Some (0, b) \<and> holds rest b)
    \<and> (holds ds dst \<and> data \<noteq> [] \<longrightarrow>
        (\<exists>b dst'. evtag_unmarshal al buf dst = Some (int (length data), Some tag, b, dst') \<and> holds rest b \<and> holds (ds @ data) dst'))"
proof -
  obtain b1 b2 where b: "decode_tag_internal (al 0) buf False = Some (int (length (tag_wire tag)), Some tag, b1)"
    "decode_int_internal (\<lambda>i. al (Suc i)) b1 (length (tag_wire tag)) =
        Some (int (length (int_wire (word_of_nat (length data) :: UInt32))), Some (word_of_nat (length data)), b2)"
    "holds (record_wire tag data @ rest) b1" "holds (record_wire tag data @ rest) b2"
    using peek_read [of tag data rest buf al] h al by blast
  obtain b3 where b3: "evtag_unmarshal_header al buf = Some (int (length data), Some tag, b3)" "holds (data @ rest) b3"
    using header_read [of tag data rest buf al] h al len by blast
  have sz: "as_size_t (int (length data)) = length data" using as_size_t_nat [of "length data"] len by simp
  have "\<exists>b. evtag_consume al buf = Some (0, b) \<and> holds rest b"
    using drain_holds [OF b3(2), of "length data"] b3(1) sz by (auto simp: evtag_consume_def)
  moreover have "holds ds dst \<and> data \<noteq> [] \<longrightarrow>
      (\<exists>b dst'. evtag_unmarshal al buf dst = Some (int (length data), Some tag, b, dst') \<and> holds rest b \<and> holds (ds @ data) dst')"
    using unmarshal_read [of tag data rest buf al ds dst] h al len by blast
  ultimately show ?thesis using b
    by (auto simp: evtag_peek_def evtag_payload_length_def evtag_peek_length_def record_wire_def add_ac)
qed

theorem tag_header_functions_witness:
  "\<exists>b b'. evtag_marshal (Some \<circ> id) 7 [1, 2, 3] evbuffer_new = Some b
    \<and> (\<exists>b1. evtag_payload_length (Some \<circ> id) b = Some (0, Some 3, b1)) \<and> evtag_consume (Some \<circ> id) b = Some (0, b') \<and> contents b' = []"
proof -
  obtain b where b: "evtag_marshal (Some \<circ> id) 7 [1, 2, 3] evbuffer_new = Some b" "holds (record_wire 7 [1, 2, 3] @ []) b"
    using marshal_holds [OF holds_new, of id 7 "[1, 2, 3]"] by auto
  from tag_header_functions [OF b(2), of "Some \<circ> id"] b(1) show ?thesis by (auto simp: holds_def)
qed

text \<open>
  The decoder of tags is undefined (it shifts by more than the width, behind the bytes it pulled up) exactly on more than five bytes of which
  the first five all say that more follow, which any peer can send. The seconds of a marshalled time are cut to 32 bits. The format is not the documented one: the
  groups of a tag and the nibbles of an integer are written with the lowest first.
\<close>

theorem tagging_flaws:
  "(evb_ok buf \<and> \<not> freeze_start buf \<longrightarrow>
     (decode_tag_internal (Some a) buf dodrain = None \<longleftrightarrow> 5 < length (contents buf) \<and> list_all more_follows (take 5 (contents buf))))
   \<and> evtag_marshal_timeval al tag (0x100000005, us) b = evtag_marshal_timeval al tag (5, us) b
   \<and> tag_wire 0x166 = [0xE6, 0x02] \<and> int_wire (0x12 :: UInt32) = [0x12, 0x10]"
proof (intro conjI)
  show "evb_ok buf \<and> \<not> freeze_start buf \<longrightarrow>
     (decode_tag_internal (Some a) buf dodrain = None \<longleftrightarrow> 5 < length (contents buf) \<and> list_all more_follows (take 5 (contents buf)))"
    using decode_tag_spec [of buf "Some a" dodrain] by (auto split: if_splits)
  show "evtag_marshal_timeval al tag (0x100000005, us) b = evtag_marshal_timeval al tag (5, us) b"
  proof -
    have "(ucast (0x100000005 :: Int64) :: UInt32) = ucast (5 :: Int64)" by simp
    then show ?thesis by (simp only: evtag_marshal_timeval_def fst_conv snd_conv)
  qed
  show "tag_wire 0x166 = [0xE6, 0x02]" by (simp add: tag_wire.simps)
  show "int_wire (0x12 :: UInt32) = [0x12, 0x10]" by (simp add: int_wire_def ndigits.simps digit_def Let_def)
qed

theorem tagging_flaws_witness:
  "\<exists>b. evbuffer_add (Some 1) [0x80, 0x80, 0x80, 0x80, 0x80, 1] evbuffer_new = Some (0, b) \<and> decode_tag_internal (Some 2) b True = None"
proof -
  obtain b where b: "evbuffer_add (Some 1) [0x80, 0x80, 0x80, 0x80, 0x80, 1] evbuffer_new = Some (0, b)"
    "holds [0x80, 0x80, 0x80, 0x80, 0x80, 1] b"
    using add_usable [of evbuffer_new "Some 1" "[0x80, 0x80, 0x80, 0x80, 0x80, 1]"] holds_new by (auto simp: holds_def appended_def)
  with tagging_flaws [of b 2 True] show ?thesis by (auto simp: holds_def evb_usable_def)
qed

end
