(* ===== verification/Ev_Dns.thy ===== *)
theory Ev_Dns
  imports Prelude
begin

unbundle bit_operations_syntax

text \<open>
  Model of the packet code of the DNS client and server in \<open>event/evdns.c\<close>: names as labels with compression,
  the packets that ask, and the packets that answer. A C string is given without its terminating zero. A packet
  is the array it lies in and the number of bytes received; a buffer that is written is an array of the length the code passes.
  \<open>None\<close> stands for an access outside an array. The theorems show that what is written is read back, on which packets
  the reader leaves its array, and that it always returns.
\<close>

section \<open>Writing names\<close>

abbreviation dot :: UInt8 where
  "dot \<equiv> 46"

definition be16 :: "UInt16 \<Rightarrow> bytes" where
  "be16 w = [ucast (drop_bit 8 w), ucast w]"

definition be32_bytes :: "UInt32 \<Rightarrow> bytes" where
  "be32_bytes w = [ucast (drop_bit 24 w), ucast (drop_bit 16 w), ucast (drop_bit 8 w), ucast w]"

text \<open>\<open>memcpy(buf + j, bs, length bs)\<close>.\<close>

definition put_bytes :: "nat \<Rightarrow> bytes \<Rightarrow> bytes \<Rightarrow> bytes" where
  "put_bytes j bs buf = take j buf @ bs @ drop (j + length bs) buf"

text \<open>\<open>APPEND16\<close> and \<open>APPEND32\<close>: \<open>None\<close> is the jump to \<open>overflow\<close>.\<close>

definition append_be :: "bytes \<Rightarrow> bytes \<times> nat \<Rightarrow> (bytes \<times> nat) option" where
  "append_be bs s = (case s of (buf, j) \<Rightarrow> if j + length bs > length buf then None else Some (put_bytes j bs buf, j + length bs))"

definition APPEND16 :: "UInt16 \<Rightarrow> bytes \<times> nat \<Rightarrow> (bytes \<times> nat) option" where
  "APPEND16 x s = append_be (be16 x) s"

definition APPEND32 :: "UInt32 \<Rightarrow> bytes \<times> nat \<Rightarrow> (bytes \<times> nat) option" where
  "APPEND32 x s = append_be (be32_bytes x) s"

type_synonym dnslabel_table = "(bytes \<times> nat) list"

definition MAX_LABELS :: nat where
  "MAX_LABELS = 128"

definition dnslabel_table_get_pos :: "dnslabel_table \<Rightarrow> bytes \<Rightarrow> nat option" where
  "dnslabel_table_get_pos table label = map_option snd (find (\<lambda>e. label = fst e) table)"

text \<open>\<open>dup\<close> says for which strings \<open>mm_strdup\<close> succeeds. The result is ignored by the callers.\<close>

definition dnslabel_table_add :: "(bytes \<Rightarrow> bool) \<Rightarrow> dnslabel_table \<Rightarrow> bytes \<Rightarrow> nat \<Rightarrow> dnslabel_table" where
  "dnslabel_table_add dup table label pos =
    (if length table = MAX_LABELS then table else if \<not> dup label then table else table @ [(label, pos)])"

text \<open>The zero at the end, which is written without a check.\<close>

definition end_labels :: "bytes \<Rightarrow> nat \<Rightarrow> (int \<times> bytes) option" where
  "end_labels buf j =
    (if j = 0 \<or> buf ! (j - 1) \<noteq> 0
     then if j < length buf then Some (int j + 1, buf[j := 0]) else None
     else Some (int j, buf))"

text \<open>The loop of \<open>dnsname_to_labels\<close>; the table is optional.\<close>

function labels_loop :: "(bytes \<Rightarrow> bool) \<Rightarrow> bytes \<Rightarrow> nat \<Rightarrow> bytes \<Rightarrow> dnslabel_table option \<Rightarrow> (int \<times> bytes \<times> dnslabel_table option) option" where
  "labels_loop dup buf j name table =
    (case Option.bind table (\<lambda>t. dnslabel_table_get_pos t name) of
       Some ref \<Rightarrow>
        (case APPEND16 (word_of_nat ref OR 0xc000) (buf, j) of
           None \<Rightarrow> Some (- 2, buf, table)
         | Some (buf', j') \<Rightarrow> Some (int j', buf', table))
     | None \<Rightarrow>
        (let label = takeWhile (\<lambda>c. c \<noteq> dot) name; l = length label; rest = drop l name in
         if l > 63 then Some (- 1, buf, table)
         else if j + l + 1 > length buf then Some (- 2, buf, table)
         else let table' = map_option (\<lambda>t. dnslabel_table_add dup t name j) table;
                  buf' = put_bytes j (word_of_nat l # label) buf
           in if rest = []
              then map_option (\<lambda>(r, b). (r, b, table')) (end_labels buf' (j + l + 1))
              else labels_loop dup buf' (j + l + 1) (tl rest) table'))"
  by pat_completeness auto
termination
  by (relation "measure (\<lambda>(dup, buf, j, name, table). length name)") (auto simp: Suc_le_eq)

declare labels_loop.simps [simp del]

definition dnsname_to_labels :: "(bytes \<Rightarrow> bool) \<Rightarrow> bytes \<Rightarrow> nat \<Rightarrow> bytes \<Rightarrow> dnslabel_table option \<Rightarrow> (int \<times> bytes \<times> dnslabel_table option) option" where
  "dnsname_to_labels dup buf j name table =
    (if length name > 255 then Some (- 2, buf, table) else labels_loop dup buf j name table)"

section \<open>Reading names\<close>

text \<open>
  The loop of \<open>name_parse\<close> over the array \<open>packet\<close>, of which \<open>len\<close> bytes were received, into an array of \<open>n\<close> characters. The result is
  \<open>None\<close> when a label is copied from behind the array, \<open>Some None\<close> for -1, and otherwise the characters and
  the new value of \<open>*idx\<close>.
\<close>

function name_loop :: "bytes \<Rightarrow> nat \<Rightarrow> nat \<Rightarrow> nat \<Rightarrow> nat option \<Rightarrow> nat \<Rightarrow> bytes \<Rightarrow> (bytes \<times> nat) option option" where
  "name_loop packet len n j name_end ptr_count out =
    (if j \<ge> len then Some None
     else let label_len = packet ! j; j1 = Suc j in
       if label_len = 0
       then if length out \<ge> n then Some None
            else Some (Some (out, case name_end of None \<Rightarrow> j1 | Some e \<Rightarrow> e))
       else if label_len AND 0xc0 \<noteq> 0
       then if j1 \<ge> len then Some None
            else let target = unat (label_len AND 0x3f) * 256 + unat (packet ! j1);
                     name_end' = (case name_end of None \<Rightarrow> Some (Suc j1) | Some e \<Rightarrow> Some e)
              in if target \<ge> len then Some None
                 else if Suc ptr_count > len then Some None
                 else name_loop packet len n target name_end' (Suc ptr_count) out
       else if label_len > 63 then Some None
       else if out \<noteq> [] \<and> length out + 1 \<ge> n then Some None
       else let out1 = (if out \<noteq> [] then out @ [dot] else out); l = unat label_len in
         if length out1 + l \<ge> n then Some None
         else if j1 + l > length packet then None
         else name_loop packet len n (j1 + l) name_end ptr_count (out1 @ take l (drop j1 packet)))"
  by pat_completeness auto
termination
  by (relation "measures [\<lambda>(packet, len, n, j, name_end, ptr_count, out). len - ptr_count,
        \<lambda>(packet, len, n, j, name_end, ptr_count, out). len - j]") auto

declare name_loop.simps [simp del]

definition name_parse :: "bytes \<Rightarrow> nat \<Rightarrow> nat \<Rightarrow> nat \<Rightarrow> (bytes \<times> nat) option option" where
  "name_parse packet len idx name_out_len = name_loop packet len name_out_len idx None 0 []"

section \<open>Requests\<close>

definition evdns_request_len :: "nat \<Rightarrow> nat" where
  "evdns_request_len name_len = 96 + name_len + 2 + 4"

fun append16s :: "UInt16 list \<Rightarrow> bytes \<times> nat \<Rightarrow> (bytes \<times> nat) option" where
  "append16s [] s = Some s"
| "append16s (x # xs) s = (case APPEND16 x s of None \<Rightarrow> None | Some s' \<Rightarrow> append16s xs s')"

text \<open>The number of bytes used, or a negative number, and the buffer.\<close>

definition evdns_request_data_build :: "bytes \<Rightarrow> UInt16 \<Rightarrow> UInt16 \<Rightarrow> UInt16 \<Rightarrow> bytes \<Rightarrow> (int \<times> bytes) option" where
  "evdns_request_data_build name trans_id type class buf =
    (case append16s [trans_id, 0x0100, 1, 0, 0, 0] (buf, 0) of None \<Rightarrow> Some (- 1, buf)
     | Some (buf1, j) \<Rightarrow>
        (case dnsname_to_labels (\<lambda>_. True) buf1 j name None of None \<Rightarrow> None
         | Some (r, buf2, _) \<Rightarrow>
            if r < 0 then Some (r, buf2)
            else case append16s [type, class] (buf2, nat r) of None \<Rightarrow> Some (- 1, buf2)
            | Some (buf3, j3) \<Rightarrow> Some (int j3, buf3)))"

text \<open>\<open>GET16\<close> and \<open>GET32\<close>: \<open>None\<close> is the jump to \<open>err\<close>.\<close>

definition GET16 :: "bytes \<Rightarrow> nat \<Rightarrow> nat \<Rightarrow> (UInt16 \<times> nat) option" where
  "GET16 packet len j =
    (if j + 2 > len then None else Some (push_bit 8 (ucast (packet ! j)) OR ucast (packet ! Suc j), j + 2))"

definition GET32 :: "bytes \<Rightarrow> nat \<Rightarrow> nat \<Rightarrow> (UInt32 \<times> nat) option" where
  "GET32 packet len j =
    (if j + 4 > len then None
     else Some (push_bit 24 (ucast (packet ! j)) OR push_bit 16 (ucast (packet ! (j + 1)))
       OR push_bit 8 (ucast (packet ! (j + 2))) OR ucast (packet ! (j + 3)), j + 4))"

fun get16s :: "nat \<Rightarrow> bytes \<Rightarrow> nat \<Rightarrow> nat \<Rightarrow> (UInt16 list \<times> nat) option" where
  "get16s 0 packet len j = Some ([], j)"
| "get16s (Suc n) packet len j =
    (case GET16 packet len j of None \<Rightarrow> None
     | Some (x, j') \<Rightarrow> map_option (\<lambda>(xs, j''). (x # xs, j'')) (get16s n packet len j'))"

section \<open>Names in a packet\<close>

text \<open>
  At position \<open>j\<close> of \<open>p\<close> stands a name with the given labels, reached over \<open>n\<close> pointers, and the position behind it is \<open>e\<close>.
\<close>

inductive name_at :: "bytes \<Rightarrow> nat \<Rightarrow> bytes list \<Rightarrow> nat \<Rightarrow> nat \<Rightarrow> bool" for p :: bytes where
  root: "\<lbrakk>j < length p; p ! j = 0\<rbrakk> \<Longrightarrow> name_at p j [] 0 (Suc j)"
| label: "\<lbrakk>j < length p; p ! j = word_of_nat (length l); l \<noteq> []; length l \<le> 63; Suc j + length l \<le> length p;
    take (length l) (drop (Suc j) p) = l; name_at p (Suc j + length l) ls n e\<rbrakk> \<Longrightarrow> name_at p j (l # ls) n e"
| pointer: "\<lbrakk>Suc j < length p; p ! j AND 0xc0 \<noteq> 0; t = unat (p ! j AND 0x3f) * 256 + unat (p ! Suc j); name_at p t ls n e\<rbrakk>
    \<Longrightarrow> name_at p j ls (Suc n) (Suc (Suc j))"

inductive_cases name_atE: "name_at p j ls n e"

lemma name_at_bounds: "name_at p j ls n e \<Longrightarrow> j < length p \<and> e \<le> length p"
  by (induction rule: name_at.induct) auto

lemma name_at_append: "name_at p j ls n e \<Longrightarrow> name_at (p @ xs) j ls n e"
proof (induction rule: name_at.induct)
  case (label j l ls n e)
  then show ?case by (intro name_at.label) (auto simp: nth_append)
next
  case (pointer j t ls n e)
  then show ?case by (intro name_at.pointer [where t = t]) (auto simp: nth_append)
qed (auto intro: name_at.root simp: nth_append)

fun dots :: "bytes list \<Rightarrow> bytes" where
  "dots [] = []"
| "dots [l] = l"
| "dots (l # ls) = l @ dot # dots ls"

text \<open>The characters written when \<open>out\<close> is there already.\<close>

fun join_labels :: "bytes \<Rightarrow> bytes list \<Rightarrow> bytes" where
  "join_labels out [] = out"
| "join_labels out (l # ls) = join_labels ((if out \<noteq> [] then out @ [dot] else out) @ l) ls"

lemma join_labels_append: "out \<noteq> [] \<Longrightarrow> join_labels out ls = out @ concat (map ((#) dot) ls)"
  by (induction ls arbitrary: out) auto

lemma join_labels_dots: "list_all (\<lambda>l. l \<noteq> []) ls \<Longrightarrow> join_labels [] ls = dots ls"
proof (induction ls rule: dots.induct)
  case (3 l m ls)
  then show ?case by (auto simp: join_labels_append)
qed auto

lemma length_join_labels: "length out \<le> length (join_labels out ls)"
proof (induction ls arbitrary: out)
  case (Cons l ls)
  show ?case using Cons [of "(if out \<noteq> [] then out @ [dot] else out) @ l"] by (auto split: if_splits)
qed simp

lemma small_label: "length l \<le> 63 \<Longrightarrow> l \<noteq> [] \<Longrightarrow> unat (word_of_nat (length l) :: UInt8) = length l \<and> (word_of_nat (length l) :: UInt8) \<noteq> 0
   \<and> word_of_nat (length l) AND 0xc0 = (0 :: UInt8) \<and> \<not> (63 :: UInt8) < word_of_nat (length l)"
proof (intro conjI)
  assume l: "length l \<le> 63" "l \<noteq> []"
  define w where "w = (word_of_nat (length l) :: UInt8)"
  show u: "unat w = length l" using l by (simp add: w_def unat_of_nat)
  show "w \<noteq> 0" using u l by auto
  show "\<not> 63 < w" using u l by (simp add: word_less_nat_alt)
  have "take_bit 6 w = w"
    using u l unfolding word_unat_eq_iff unsigned_take_bit_eq by (simp add: take_bit_nat_eq_self)
  moreover have "take_bit 6 w = w AND 0x3f" by (simp add: take_bit_eq_mask mask_eq_exp_minus_1)
  ultimately have "w AND 0xc0 = w AND (0x3f AND 0xc0)" by (metis and.assoc)
  then show "w AND 0xc0 = 0" by simp
qed

text \<open>The reader follows the names that are there, and needs room for the characters and the zero.\<close>

lemma name_loop_spec:
  assumes "name_at (take len packet) j ls k e" "len \<le> length packet" "ptr_count + k \<le> len" "length (join_labels out ls) < n"
  shows "name_loop packet len n j name_end ptr_count out = Some (Some (join_labels out ls, case name_end of None \<Rightarrow> e | Some e' \<Rightarrow> e'))"
  using assms
proof (induction arbitrary: name_end ptr_count out rule: name_at.induct)
  case (root j)
  then show ?case by (subst name_loop.simps) (auto simp: Let_def)
next
  case (label j l ls k e)
  have j: "j < len" "Suc j + length l \<le> len" "packet ! j = word_of_nat (length l)" using label by auto
  note sm = small_label [OF label(4,3)]
  define out1 where "out1 = (if out \<noteq> [] then out @ [dot] else out)"
  have tk: "take (length l) (drop (Suc j) packet) = l"
  proof -
    have "take (length l) (drop (Suc j) (take len packet)) = take (length l) (drop (Suc j) packet)"
      using j by (simp add: drop_take min_def)
    then show ?thesis using label(6) by simp
  qed
  have jl: "join_labels out (l # ls) = join_labels (out1 @ l) ls" by (simp add: out1_def)
  have n: "length (out1 @ l) < n" using label.prems(3) length_join_labels [of "out1 @ l" ls] unfolding jl by simp
  have o: "length out1 = (if out = [] then 0 else length out + 1)" by (simp add: out1_def)
  have "name_loop packet len n j name_end ptr_count out = name_loop packet len n (Suc j + length l) name_end ptr_count (out1 @ l)"
    using j sm n o tk label.prems(1) by (subst name_loop.simps) (auto simp: Let_def out1_def split: if_splits)
  then show ?case using label.IH [of ptr_count "out1 @ l" name_end] label.prems jl by simp
next
  case (pointer j t ls k e)
  have j: "Suc j < len" "packet ! j AND 0xc0 \<noteq> 0" using pointer by auto
  have t: "t = unat (packet ! j AND 0x3f) * 256 + unat (packet ! Suc j)" using pointer by simp
  have tl: "t < len" using name_at_bounds [OF pointer(4)] pointer.prems by simp
  have "packet ! j \<noteq> 0" using j by auto
  then have "name_loop packet len n j name_end ptr_count out =
      name_loop packet len n t (case name_end of None \<Rightarrow> Some (Suc (Suc j)) | Some e \<Rightarrow> Some e) (Suc ptr_count) out"
    using j t tl pointer.prems by (subst name_loop.simps) (auto simp: Let_def)
  then show ?case using pointer.IH [of "Suc ptr_count" out] pointer.prems by (simp split: option.splits)
qed

lemma name_parse_spec:
  assumes "name_at (take len packet) j ls k e" "len \<le> length packet" "k \<le> len" "length (dots ls) < n" "list_all (\<lambda>l. l \<noteq> []) ls"
  shows "name_parse packet len j n = Some (Some (dots ls, e))"
  using name_loop_spec [OF assms(1,2), of 0 "[]" n None] assms(3-5) by (simp add: name_parse_def join_labels_dots)

section \<open>Written names are there\<close>

definition label_ok :: "bytes \<Rightarrow> bool" where
  "label_ok l \<longleftrightarrow> l \<noteq> [] \<and> length l \<le> 63 \<and> dot \<notin> set l \<and> 0 \<notin> set l"

lemma takeWhile_dots:
  assumes "label_ok l"
  shows "takeWhile (\<lambda>c. c \<noteq> dot) (dots (l # ls)) = l" "drop (length l) (dots (l # ls)) = (if ls = [] then [] else dot # dots ls)"
proof -
  have "takeWhile (\<lambda>c. c \<noteq> dot) l = l" using assms by (auto simp: label_ok_def takeWhile_eq_all_conv)
  moreover have "takeWhile (\<lambda>c. c \<noteq> dot) (l @ dot # xs) = l" for xs using assms by (subst takeWhile_append2) (auto simp: label_ok_def)
  ultimately show "takeWhile (\<lambda>c. c \<noteq> dot) (dots (l # ls)) = l" by (cases ls) auto
  show "drop (length l) (dots (l # ls)) = (if ls = [] then [] else dot # dots ls)" by (cases ls) auto
qed

lemma dots_nonempty: "label_ok l \<Longrightarrow> dots (l # ls) \<noteq> []"
  by (cases ls) (auto simp: label_ok_def)

lemma dots_inj: "\<lbrakk>list_all label_ok ls; list_all label_ok ms; dots ls = dots ms\<rbrakk> \<Longrightarrow> ls = ms"
proof (induction ls arbitrary: ms)
  case Nil
  then show ?case using dots_nonempty [of "hd ms" "tl ms"] by (cases ms) auto
next
  case (Cons l ls)
  then obtain m ms' where ms: "ms = m # ms'" using dots_nonempty [of l ls] by (cases ms) auto
  then have "l = m" using Cons.prems takeWhile_dots(1) [of l ls] takeWhile_dots(1) [of m ms'] by simp
  moreover from this have "(if ls = [] then [] else dot # dots ls) = (if ms' = [] then [] else dot # dots ms')"
    using Cons.prems takeWhile_dots(2) [of l ls] takeWhile_dots(2) [of m ms'] ms by simp
  ultimately show ?case using Cons ms by (auto split: if_splits)
qed

definition entry_ok :: "bytes \<Rightarrow> bytes \<times> nat \<Rightarrow> bool" where
  "entry_ok p x \<longleftrightarrow> (\<exists>ls k e. fst x = dots ls \<and> list_all label_ok ls \<and> name_at p (snd x) ls k e \<and> k \<le> snd x)"

lemma entry_ok_append: "entry_ok p x \<Longrightarrow> entry_ok (p @ xs) x"
  unfolding entry_ok_def using name_at_append by blast

lemma put_bytes_simps [simp]:
  assumes "j + length bs \<le> length buf"
  shows "length (put_bytes j bs buf) = length buf" "take j (put_bytes j bs buf) = take j buf"
    "take (j + length bs) (put_bytes j bs buf) = take j buf @ bs"
  using assms by (simp_all add: put_bytes_def)

lemma pointer_word:
  assumes "r < 2 ^ 14"
  defines "w \<equiv> (word_of_nat r OR 0xc000 :: UInt16)"
  shows "ucast (drop_bit 8 w) AND 0xc0 \<noteq> (0 :: UInt8)" "unat (ucast (drop_bit 8 w) AND 0x3f :: UInt8) * 256 + unat (ucast w :: UInt8) = r"
proof -
  have r: "word_of_nat r AND 0xc000 = (0 :: UInt16)"
  proof -
    have "take_bit 14 (word_of_nat r) = (word_of_nat r :: UInt16)"
      using assms(1) unfolding word_unat_eq_iff unsigned_take_bit_eq by (simp add: unat_of_nat take_bit_nat_eq_self)
    moreover have "take_bit 14 (word_of_nat r) = (word_of_nat r :: UInt16) AND 0x3fff" by (simp add: take_bit_eq_mask mask_eq_exp_minus_1)
    ultimately have "(word_of_nat r :: UInt16) AND 0xc000 = word_of_nat r AND (0x3fff AND 0xc000)" by (metis and.assoc)
    then show ?thesis by simp
  qed
  have "bit w 15" by (simp add: w_def bit_or_iff)
  then have "bit (ucast (drop_bit 8 w) AND 0xc0 :: UInt8) 7" by (simp add: bit_simps)
  then show "ucast (drop_bit 8 w) AND 0xc0 \<noteq> (0 :: UInt8)" by (metis bit_0_eq bot_apply bot_bool_def)
  have "w = word_of_nat r + 0xc000" unfolding w_def by (rule disjunctive_add [symmetric])
      (metis r bit_and_iff bit_0_eq bot_apply bot_bool_def)
  also have "\<dots> = word_of_nat (r + 0xc000)" by simp
  finally have "unat w = (r + 0xc000) mod 2 ^ 16" by (simp only: unat_of_nat) simp
  then have w: "unat w = r + 0xc000" using assms(1) by simp
  have hi: "unat (ucast (drop_bit 8 w) :: UInt8) = 192 + r div 256"
    using assms(1) by (simp only: unsigned_ucast_eq unsigned_drop_bit_eq) (simp add: w drop_bit_eq_div take_bit_eq_mod)
  have m: "(x :: UInt8) AND 0x3f = take_bit 6 x" for x by (simp add: take_bit_eq_mask mask_eq_exp_minus_1)
  have "unat (ucast (drop_bit 8 w) AND 0x3f :: UInt8) = r div 256"
  proof -
    have "r div 256 < 64" using assms(1) by simp
    then have "(192 + r div 256) mod 64 = r div 256" using mod_mult_self2 [of "r div 256" 64 3] by (simp add: add.commute)
    then show ?thesis unfolding m unsigned_take_bit_eq hi by (simp add: take_bit_eq_mod)
  qed
  moreover have "unat (ucast w :: UInt8) = r mod 256"
    using w mod_mult_self2 [of r 256 192] by (simp add: unsigned_ucast_eq take_bit_eq_mod)
  ultimately show "unat (ucast (drop_bit 8 w) AND 0x3f :: UInt8) * 256 + unat (ucast w :: UInt8) = r" by simp
qed

lemma pointer_written:
  assumes j: "j + 2 \<le> length buf" and r: "name_at (take j buf) ref ls k e" and l: "length buf \<le> 2 ^ 14"
    and b: "buf' = put_bytes j (be16 (word_of_nat ref OR 0xc000)) buf"
  shows "name_at (take (j + 2) buf') j ls (Suc k) (j + 2)"
proof -
  define w where "w = (word_of_nat ref OR 0xc000 :: UInt16)"
  have "ref < j" using name_at_bounds [OF r] by simp
  then have ref: "ref < 2 ^ 14" using j l by simp
  have tk: "take (j + 2) buf' = take j buf @ [ucast (drop_bit 8 w), ucast w]"
    using put_bytes_simps(3) [of j "be16 w" buf] j by (simp add: b w_def be16_def)
  have "name_at (take (j + 2) buf') ref ls k e" unfolding tk by (rule name_at_append [OF r])
  moreover have "take (j + 2) buf' ! j = ucast (drop_bit 8 w)" "take (j + 2) buf' ! Suc j = ucast w" "length (take (j + 2) buf') = j + 2"
    using j unfolding tk by (simp_all add: nth_append)
  ultimately have "name_at (take (j + 2) buf') j ls (Suc k) (Suc (Suc j))"
    using pointer_word [OF ref, folded w_def] by (intro name_at.pointer [where t = ref]) simp_all
  then show ?thesis by simp
qed

lemma label_written:
  assumes l: "label_ok l" and p: "p = q @ word_of_nat (length l) # l @ xs" and n: "name_at p (Suc (length q) + length l) ls k e"
  shows "name_at p (length q) (l # ls) k e"
  using l n by (intro name_at.label) (auto simp: p label_ok_def nth_append)

lemma get_pos_Some:
  assumes "dnslabel_table_get_pos t name = Some ref"
  shows "(name, ref) \<in> set t"
  using assms by (auto simp: dnslabel_table_get_pos_def find_Some_iff) (metis fst_conv nth_mem prod.collapse snd_conv)

lemma table_add_cases: "dnslabel_table_add dup t v j = t \<or> dnslabel_table_add dup t v j = t @ [(v, j)]"
  by (simp add: dnslabel_table_add_def)

lemma dots_shorter: "label_ok l \<Longrightarrow> length (dots ls) < length (dots (l # ls))"
  by (cases ls) (auto simp: label_ok_def)

text \<open>The entries that a call adds.\<close>

definition table_grows :: "bytes \<Rightarrow> nat \<Rightarrow> dnslabel_table option \<Rightarrow> dnslabel_table option \<Rightarrow> bool" where
  "table_grows p j table table' \<longleftrightarrow>
    (case table of None \<Rightarrow> table' = None
     | Some t \<Rightarrow> \<exists>new. table' = Some (t @ new) \<and> list_all (\<lambda>x. j \<le> snd x \<and> entry_ok p x) new)"

lemma table_grows_refl [simp]: "table_grows p j table table"
  by (simp add: table_grows_def split: option.splits)

lemma table_grows_add:
  assumes g: "table_grows p i (map_option (\<lambda>t. dnslabel_table_add dup t (dots ls) j) table) table'" and i: "j \<le> i"
    and n: "name_at p j ls k e" "k \<le> j" "list_all label_ok ls"
  shows "table_grows p j table table'"
proof (cases table)
  case (Some t)
  have e: "entry_ok p (dots ls, j)" using n by (auto simp: entry_ok_def)
  have mono: "list_all (\<lambda>x. i \<le> snd x \<and> entry_ok p x) new \<Longrightarrow> list_all (\<lambda>x. j \<le> snd x \<and> entry_ok p x) new" for new
    using i by (auto simp: list_all_iff)
  from g Some obtain new where new: "table' = Some (dnslabel_table_add dup t (dots ls) j @ new)" "list_all (\<lambda>x. i \<le> snd x \<and> entry_ok p x) new"
    by (auto simp: table_grows_def)
  show ?thesis using table_add_cases [of dup t "dots ls" j]
  proof
    assume "dnslabel_table_add dup t (dots ls) j = t"
    then show ?thesis using new mono Some by (auto simp: table_grows_def)
  next
    assume "dnslabel_table_add dup t (dots ls) j = t @ [(dots ls, j)]"
    then show ?thesis using new mono Some e by (auto simp: table_grows_def intro!: exI [of _ "(dots ls, j) # new"])
  qed
qed (use g in \<open>simp add: table_grows_def\<close>)

text \<open>
  What a call leaves behind: the bytes in front of \<open>j\<close> are kept, a name with these labels stands at \<open>j\<close>,
  and every new entry of the table is right.
\<close>

definition labels_written :: "nat \<Rightarrow> bytes \<Rightarrow> nat \<Rightarrow> bytes list \<Rightarrow> dnslabel_table option \<Rightarrow> int \<times> bytes \<times> dnslabel_table option \<Rightarrow> bool" where
  "labels_written j0 buf j ls table x \<longleftrightarrow>
    (case x of (r, buf', table') \<Rightarrow>
       length buf' = length buf \<and> nat r \<le> length buf \<and> (\<exists>xs. take (nat r) buf' = take j buf @ xs)
       \<and> (\<exists>k. name_at (take (nat r) buf') j ls k (nat r) \<and> k \<le> j0)
       \<and> table_grows (take (nat r) buf') j table table')"

lemma labels_writtenI:
  assumes "r = int e" "length buf' = length buf" "e \<le> length buf" "take e buf' = take j buf @ xs"
    "name_at (take e buf') j ls k e" "k \<le> j0" "table_grows (take e buf') j table table'"
  shows "labels_written j0 buf j ls table (r, buf', table')"
  using assms by (auto simp: labels_written_def)

lemma labels_pointer_sound:
  assumes st: "labels_loop dup buf j (dots ls) (Some t) = Some (r, buf', table')" "0 \<le> r" and hit: "dnslabel_table_get_pos t (dots ls) = Some ref"
    and ok: "list_all label_ok ls" "length buf \<le> 2 ^ 14" and ref: "ref < j0" "entry_ok (take j buf) (dots ls, ref)"
  shows "labels_written j0 buf j ls (Some t) (r, buf', table')"
proof -
  have j: "j + 2 \<le> length buf" and res: "r = int (j + 2)" "buf' = put_bytes j (be16 (word_of_nat ref OR 0xc000)) buf" "table' = Some t"
    using st hit by (subst (asm) labels_loop.simps, auto simp: APPEND16_def append_be_def be16_def split: if_splits)+
  obtain ms k e where m: "dots ls = dots ms" "list_all label_ok ms" "name_at (take j buf) ref ms k e" "k \<le> ref"
    using ref(2) by (auto simp: entry_ok_def)
  then have "ms = ls" using dots_inj ok by blast
  with pointer_written [OF j m(3) ok(2) res(2)] have "name_at (take (j + 2) buf') j ls (Suc k) (j + 2)" by simp
  moreover have "take (j + 2) buf' = take j buf @ be16 (word_of_nat ref OR 0xc000)" "length buf' = length buf"
    using put_bytes_simps [of j "be16 (word_of_nat ref OR 0xc000)" buf] j by (simp_all add: res(2) be16_def)
  ultimately show ?thesis using res(1,3) j m(4) ref(1) by (intro labels_writtenI [where e = "j + 2" and k = "Suc k"]) simp_all
qed

lemma labels_root_sound:
  assumes st: "labels_loop dup buf j [] table = Some (r, buf', table')" "0 \<le> r"
    and no: "Option.bind table (\<lambda>t. dnslabel_table_get_pos t []) = None"
  shows "labels_written j0 buf j [] table (r, buf', table')"
proof -
  have b: "j + 1 \<le> length buf" using st no by (subst (asm) labels_loop.simps, simp add: Let_def split: if_splits)
  have res: "end_labels (put_bytes j [0] buf) (Suc j) = Some (r, buf')"
    "table' = map_option (\<lambda>t. dnslabel_table_add dup t (dots []) j) table"
    using st no b by (subst (asm) labels_loop.simps, auto simp: Let_def)+
  have z: "put_bytes j [0] buf ! j = 0" using b by (simp add: put_bytes_def nth_append)
  then have r: "r = int (Suc j)" "buf' = put_bytes j [0] buf" using res(1) by (simp_all add: end_labels_def)
  have tk: "take (Suc j) buf' = take j buf @ [0]" using put_bytes_simps(3) [of j "[0]" buf] b r by simp
  have n: "name_at (take (Suc j) buf') j [] 0 (Suc j)" unfolding tk by (rule name_at.root) (use b in \<open>simp_all add: nth_append\<close>)
  have "table_grows (take (Suc j) buf') j table table'"
    by (rule table_grows_add [of _ j dup "[]" j, OF _ _ n]) (simp_all add: res(2))
  then show ?thesis using r(1) b tk n r(2) by (intro labels_writtenI [where e = "Suc j" and k = 0]) simp_all
qed

lemma labels_step:
  assumes no: "Option.bind table (\<lambda>t. dnslabel_table_get_pos t (dots (l # ls))) = None" and l: "label_ok l"
    and st: "labels_loop dup buf j (dots (l # ls)) table = Some (r, buf', table')" "0 \<le> r"
    and b1: "buf1 = put_bytes j (word_of_nat (length l) # l) buf" and t1: "table1 = map_option (\<lambda>t. dnslabel_table_add dup t (dots (l # ls)) j) table"
  shows "j + length l + 1 \<le> length buf"
    "ls \<noteq> [] \<Longrightarrow> labels_loop dup buf1 (j + length l + 1) (dots ls) table1 = Some (r, buf', table')"
    "ls = [] \<Longrightarrow> end_labels buf1 (j + length l + 1) = Some (r, buf') \<and> table' = table1"
proof -
  have "length l \<le> 63" using l by (simp add: label_ok_def)
  note eq = st(1) [unfolded labels_loop.simps [of dup buf j "dots (l # ls)"] no takeWhile_dots [OF l] Let_def option.case, folded b1 t1]
  show b: "j + length l + 1 \<le> length buf" using eq st(2) \<open>length l \<le> 63\<close> by (auto split: if_splits)
  show "ls \<noteq> [] \<Longrightarrow> labels_loop dup buf1 (j + length l + 1) (dots ls) table1 = Some (r, buf', table')"
    using eq b \<open>length l \<le> 63\<close> by (auto split: if_splits)
  show "ls = [] \<Longrightarrow> end_labels buf1 (j + length l + 1) = Some (r, buf') \<and> table' = table1"
    using eq b \<open>length l \<le> 63\<close> by (auto split: if_splits)
qed

lemma put_label:
  assumes "label_ok l" "j + length l + 1 \<le> length buf" "buf1 = put_bytes j (word_of_nat (length l) # l) buf"
  shows "length buf1 = length buf" "take (j + length l + 1) buf1 = take j buf @ word_of_nat (length l) # l"
    "buf1 ! (j + length l) \<noteq> 0"
proof -
  show "length buf1 = length buf" "take (j + length l + 1) buf1 = take j buf @ word_of_nat (length l) # l"
    using put_bytes_simps [of j "word_of_nat (length l) # l" buf] assms(2,3) by simp_all
  have "buf1 ! (j + length l) = last l"
    using assms by (simp add: put_bytes_def nth_append nth_Cons' last_conv_nth label_ok_def)
  then show "buf1 ! (j + length l) \<noteq> 0" using assms(1) by (metis label_ok_def last_in_set)
qed

lemma labels_last_sound:
  assumes no: "Option.bind table (\<lambda>t. dnslabel_table_get_pos t (dots [l])) = None" and l: "label_ok l"
    and st: "labels_loop dup buf j (dots [l]) table = Some (r, buf', table')" "0 \<le> r"
  shows "labels_written j0 buf j [l] table (r, buf', table')"
proof -
  define buf1 where "buf1 = put_bytes j (word_of_nat (length l) # l) buf"
  define e where "e = j + length l + 2"
  note step = labels_step [OF no l st buf1_def refl]
  note w = put_label [OF l step(1) buf1_def]
  from step(3) w have res: "e \<le> length buf" "r = int e" "buf' = buf1[e - 1 := 0]"
    by (auto simp: end_labels_def e_def split: if_splits)
  have tk: "take e buf' = (take j buf @ word_of_nat (length l) # l) @ [0]"
    using res(1) w(1,2) by (simp add: res(3) e_def take_Suc_conv_app_nth)
  have len: "length (take j buf) = j" using res(1) by (simp add: e_def)
  have "name_at (take e buf') (Suc j + length l) [] 0 (Suc (Suc j + length l))"
    unfolding tk by (rule name_at.root) (use len in \<open>simp_all add: nth_append\<close>)
  then have n: "name_at (take e buf') j [l] 0 e"
    using label_written [OF l tk [simplified], of "[]" 0 e] len by (simp add: e_def)
  have t': "table' = map_option (\<lambda>t. dnslabel_table_add dup t (dots [l]) j) table" using step(3) by simp
  have "table_grows (take e buf') j table table'"
    by (rule table_grows_add [of _ j dup "[l]" j, OF _ _ n]) (simp_all only: t' table_grows_refl, simp_all add: l)
  then show ?thesis using res w(1) tk n by (intro labels_writtenI [where e = e and k = 0]) simp_all
qed

lemma labels_loop_sound:
  assumes "labels_loop dup buf j (dots ls) table = Some (r, buf', table')" "0 \<le> r" "list_all label_ok ls" "j0 \<le> j" "length buf \<le> 2 ^ 14"
    and "\<And>t x. \<lbrakk>table = Some t; x \<in> set t; length (fst x) \<le> length (dots ls)\<rbrakk> \<Longrightarrow> snd x < j0 \<and> entry_ok (take j buf) x"
  shows "labels_written j0 buf j ls table (r, buf', table')"
  using assms
proof (induction ls arbitrary: buf j table)
  case Nil
  show ?case
  proof (cases "Option.bind table (\<lambda>t. dnslabel_table_get_pos t [])")
    case (Some ref)
    then obtain t where t: "table = Some t" "dnslabel_table_get_pos t (dots []) = Some ref" by (cases table) auto
    with Nil(6) [OF t(1) get_pos_Some [OF t(2)]] show ?thesis
      using labels_pointer_sound [of dup buf j "[]" t r buf' table' ref j0] Nil by simp
  qed (use labels_root_sound Nil in simp)
next
  case (Cons l ls)
  have l: "label_ok l" "list_all label_ok ls" using Cons.prems by simp_all
  show ?case
  proof (cases "Option.bind table (\<lambda>t. dnslabel_table_get_pos t (dots (l # ls)))")
    case (Some ref)
    then obtain t where t: "table = Some t" "dnslabel_table_get_pos t (dots (l # ls)) = Some ref" by (cases table) auto
    from labels_pointer_sound [OF Cons.prems(1) [unfolded t(1)] Cons.prems(2) t(2) Cons.prems(3,5)] Cons.prems(6) [OF t(1) get_pos_Some [OF t(2)]]
    show ?thesis by (simp add: t(1))
  next
    case None
    show ?thesis
    proof (cases "ls = []")
      case True
      then show ?thesis using labels_last_sound [of table l dup buf j r buf' table' j0] None Cons.prems l by simp
    next
      case False
      define buf1 where "buf1 = put_bytes j (word_of_nat (length l) # l) buf"
      define i where "i = j + length l + 1"
      note step = labels_step [OF None l(1) Cons.prems(1,2) buf1_def refl, folded i_def]
      note w = put_label [OF l(1) step(1) [unfolded i_def] buf1_def, folded i_def]
      have old: "snd x < j0 \<and> entry_ok (take i buf1) x"
        if h: "map_option (\<lambda>t. dnslabel_table_add dup t (dots (l # ls)) j) table = Some t'" "x \<in> set t'" "length (fst x) \<le> length (dots ls)" for t' x
      proof -
        obtain t where t0: "table = Some t" "t' = dnslabel_table_add dup t (dots (l # ls)) j" using h(1) by (cases table) auto
        have "x \<noteq> (dots (l # ls), j)" using h(3) dots_shorter [OF l(1), of ls] by auto
        then have t: "table = Some t" "x \<in> set t" using t0 h(2) table_add_cases [of dup t "dots (l # ls)" j] by auto
        with Cons.prems(6) [OF t] h(3) dots_shorter [OF l(1), of ls] have "snd x < j0 \<and> entry_ok (take j buf) x" by simp
        then show ?thesis unfolding w(2) using entry_ok_append by blast
      qed
      have "labels_written j0 buf1 i ls (map_option (\<lambda>t. dnslabel_table_add dup t (dots (l # ls)) j) table) (r, buf', table')"
        using Cons.IH [OF step(2) [OF False] Cons.prems(2) l(2)] Cons.prems(4,5) w(1) old by (simp add: i_def)
      then obtain xs k where rec: "length buf' = length buf" "nat r \<le> length buf" "take (nat r) buf' = take i buf1 @ xs"
        "name_at (take (nat r) buf') i ls k (nat r)" "k \<le> j0"
        "table_grows (take (nat r) buf') i (map_option (\<lambda>t. dnslabel_table_add dup t (dots (l # ls)) j) table) table'"
        using w(1) by (auto simp: labels_written_def)
      have tk: "take (nat r) buf' = take j buf @ word_of_nat (length l) # l @ xs" using rec(3) w(2) by simp
      have len: "length (take j buf) = j" using step(1) by (simp add: i_def)
      have n: "name_at (take (nat r) buf') j (l # ls) k (nat r)"
        using label_written [OF l(1) tk, of ls k "nat r"] rec(4) len by (simp add: i_def)
      have "table_grows (take (nat r) buf') j table table'"
        by (rule table_grows_add [OF rec(6) _ n]) (use rec(5) Cons.prems l in \<open>simp_all add: i_def\<close>)
      from labels_writtenI [OF _ rec(1,2) tk n rec(5) this] show ?thesis using Cons.prems(2) by simp
    qed
  qed
qed

definition table_ok :: "bytes \<Rightarrow> dnslabel_table option \<Rightarrow> bool" where
  "table_ok p table \<longleftrightarrow> (case table of None \<Rightarrow> True | Some t \<Rightarrow> list_all (entry_ok p) t)"

lemma table_ok_simps [simp]: "table_ok p None" "table_ok p (Some [])"
  by (simp_all add: table_ok_def)

lemma entry_ok_bound: "entry_ok p x \<Longrightarrow> snd x < length p"
  using name_at_bounds by (auto simp: entry_ok_def)

lemma dnsname_sound:
  assumes st: "dnsname_to_labels dup buf j (dots ls) table = Some (r, buf', table')" "0 \<le> r" and ls: "list_all label_ok ls"
    and b: "length buf \<le> 2 ^ 14" "j \<le> length buf" and t: "table_ok (take j buf) table"
  shows "length buf' = length buf" "nat r \<le> length buf" "\<exists>xs. take (nat r) buf' = take j buf @ xs" "table_ok (take (nat r) buf') table'"
    "length (dots ls) \<le> 255" "\<exists>k. name_at (take (nat r) buf') j ls k (nat r) \<and> k \<le> j" "table = None \<longleftrightarrow> table' = None"
proof -
  have len: "length (dots ls) \<le> 255" and loop: "labels_loop dup buf j (dots ls) table = Some (r, buf', table')"
    using st by (auto simp: dnsname_to_labels_def split: if_splits)
  have "snd x < j \<and> entry_ok (take j buf) x" if "table = Some tt" "x \<in> set tt" for tt x
    using t that entry_ok_bound [of "take j buf" x] b(2) by (auto simp: table_ok_def list_all_iff)
  then have w: "labels_written j buf j ls table (r, buf', table')"
    by (intro labels_loop_sound [OF loop st(2) ls _ b(1)]) auto
  then obtain xs where xs: "take (nat r) buf' = take j buf @ xs" by (auto simp: labels_written_def)
  show "length buf' = length buf" "nat r \<le> length buf" "\<exists>xs. take (nat r) buf' = take j buf @ xs" "length (dots ls) \<le> 255"
    "\<exists>k. name_at (take (nat r) buf') j ls k (nat r) \<and> k \<le> j" "table = None \<longleftrightarrow> table' = None"
    using w len by (auto simp: labels_written_def table_grows_def split: option.splits)
  have "table_grows (take (nat r) buf') j table table'" using w by (simp add: labels_written_def)
  then show "table_ok (take (nat r) buf') table'"
    using t entry_ok_append [of "take j buf" _ xs] unfolding xs
    by (auto simp: table_ok_def table_grows_def list_all_iff split: option.splits)
qed

lemma name_parse_written:
  assumes "name_at (take e buf) j ls k e" "k \<le> j" "length (dots ls) \<le> 255" "list_all label_ok ls"
    and "take e packet = take e buf" "e \<le> len" "len \<le> length packet" "e \<le> length buf" "255 < n"
  shows "name_parse packet len j n = Some (Some (dots ls, e))"
proof -
  have "take len packet = take e buf @ drop e (take len packet)"
    using assms(5,6) by (metis append_take_drop_id min.absorb1 take_take)
  then have "name_at (take len packet) j ls k e" using name_at_append [OF assms(1)] by metis
  moreover have "j < len" using name_at_bounds [OF assms(1)] assms(6,8) by simp
  ultimately show ?thesis
    using name_parse_spec [of len packet j ls k e n] assms by (auto simp: list_all_iff label_ok_def)
qed

text \<open>
  A name of non-empty labels of at most 63 characters that \<open>dnsname_to_labels\<close> writes into a packet, with or without a table for compression whose
  entries stand in the packet already, is read back by \<open>name_parse\<close> from where it was written: the same name, and the same end. The bytes in front are kept, and the entries
  added to the table are right again, so that any number of names may be written one after the other.
\<close>

theorem dns_name_roundtrip:
  assumes "dnsname_to_labels dup buf j (dots ls) table = Some (r, buf', table')" "0 \<le> r" "list_all label_ok ls"
    "length buf \<le> 2 ^ 14" "j \<le> length buf" "table_ok (take j buf) table"
  shows "name_parse buf' (nat r) j 256 = Some (Some (dots ls, nat r)) \<and> (\<exists>xs. take (nat r) buf' = take j buf @ xs)
    \<and> table_ok (take (nat r) buf') table'"
proof -
  note s = dnsname_sound [OF assms]
  then obtain k where "name_at (take (nat r) buf') j ls k (nat r)" "k \<le> j" by blast
  then have "name_parse buf' (nat r) j 256 = Some (Some (dots ls, nat r))"
    by (rule name_parse_written) (use s assms(3) in simp_all)
  then show ?thesis using s(3,4) by blast
qed

theorem dns_name_roundtrip_witness:
  "dnsname_to_labels (\<lambda>_. True) [7, 7, 7, 7, 7, 7, 7, 7] 1 [97, 98, 46, 99] (Some []) =
     Some (7, [7, 2, 97, 98, 1, 99, 0, 7], Some [([97, 98, 46, 99], 1), ([99], 4)])
   \<and> name_parse [7, 2, 97, 98, 1, 99, 0, 7] 7 1 256 = Some (Some ([97, 98, 46, 99], 7))"
proof -
  have d: "dnsname_to_labels (\<lambda>_. True) [7, 7, 7, 7, 7, 7, 7, 7] 1 (dots [[97, 98], [99]]) (Some []) =
     Some (7, [7, 2, 97, 98, 1, 99, 0, 7], Some [([97, 98, 46, 99], 1), ([99], 4)])"
    by code_simp
  from dns_name_roundtrip [OF d] d show ?thesis by (simp add: label_ok_def)
qed

lemma name_loop_safe:
  "len + 63 \<le> length packet \<Longrightarrow> name_loop packet len n j name_end ptr_count out \<noteq> None"
proof (induction packet len n j name_end ptr_count out rule: name_loop.induct)
  case (1 packet len n j name_end ptr_count out)
  note eq = name_loop.simps [of packet len n j name_end ptr_count out]
  define b where "b = packet ! j"
  show ?case
  proof (cases "j \<ge> len \<or> b = 0 \<or> 63 < b \<and> b AND 0xc0 = 0")
    case True
    then show ?thesis unfolding eq Let_def b_def [symmetric] by (auto simp: b_def)
  next
    case False
    show ?thesis
    proof (cases "b AND 0xc0 \<noteq> 0")
      case True
      then show ?thesis using False 1(1) [OF _ b_def refl _ _ _ refl refl] 1(3) unfolding eq Let_def b_def [symmetric]
        by (simp only: if_False if_True de_Morgan_disj) (auto split: if_splits)
    next
      case label: False
      then have "unat b \<le> 63" using False by (simp add: word_less_nat_alt)
      then have "\<not> length packet < Suc j + unat b" using 1(3) False by linarith
      then show ?thesis using False label 1(2) [OF _ b_def refl _ _ _ _ refl refl] 1(3) unfolding eq Let_def b_def [symmetric]
        by (simp only: if_False if_True de_Morgan_disj) (auto split: if_splits)
    qed
  qed
qed

text \<open>
  The reader of names copies a label without asking whether the packet is long enough: it stays inside its array whenever 63
  bytes behind the packet belong to it, but a received packet that ends in the length of a label makes it read behind an array that is full.
  The writer of names puts the closing zero behind a buffer that the labels fill exactly.
\<close>

theorem dns_name_flaws:
  "(len + 63 \<le> length packet \<longrightarrow> name_parse packet len j n \<noteq> None)
   \<and> (0 < k \<and> k < 64 \<and> j < length packet \<and> packet ! j = word_of_nat k \<and> k < n \<and> length packet < Suc j + k \<longrightarrow> name_parse packet (length packet) j n = None)
   \<and> dnsname_to_labels dup [0, 0, 0, 0] 0 [97, 98, 99] None = None"
proof (intro conjI)
  show "len + 63 \<le> length packet \<longrightarrow> name_parse packet len j n \<noteq> None"
    using name_loop_safe by (simp add: name_parse_def)
  show "0 < k \<and> k < 64 \<and> j < length packet \<and> packet ! j = word_of_nat k \<and> k < n \<and> length packet < Suc j + k \<longrightarrow> name_parse packet (length packet) j n = None"
  proof
    assume h: "0 < k \<and> k < 64 \<and> j < length packet \<and> packet ! j = word_of_nat k \<and> k < n \<and> length packet < Suc j + k"
    then show "name_parse packet (length packet) j n = None"
      using small_label [of "replicate k 0"] unfolding name_parse_def by (subst name_loop.simps) (auto simp: Let_def)
  qed
  show "dnsname_to_labels dup [0, 0, 0, 0] 0 [97, 98, 99] None = None"
    by (simp add: dnsname_to_labels_def labels_loop.simps put_bytes_def end_labels_def Let_def)
qed

theorem dns_name_flaws_witness: "name_parse [0, 3] 2 1 256 = None"
  using dns_name_flaws [of 0 "[]" 0 256 1 "\<lambda>_. True"] dns_name_flaws [of 2 "[0, 3]" 1 256 3 "\<lambda>_. True"] by (simp add: numeral_2_eq_2)

end
