(* ===== verification/Ev_Dns_Packet.thy ===== *)
theory Ev_Dns_Packet
  imports Ev_Dns
begin

unbundle bit_operations_syntax

text \<open>
  The packets of \<open>event/evdns.c\<close> beyond names: \<open>request_parse\<close> of the server, the response that the server
  formats, and \<open>reply_parse\<close> of the client with the error that \<open>reply_handle\<close> reports. Allocation succeeds or fails as the argument
  \<open>mm\<close> says for each call. The main theorem follows a query through client, server and client again.
\<close>

abbreviation TYPE_A :: UInt16 where "TYPE_A \<equiv> 1"
abbreviation TYPE_CNAME :: UInt16 where "TYPE_CNAME \<equiv> 5"
abbreviation TYPE_SOA :: UInt16 where "TYPE_SOA \<equiv> 6"
abbreviation TYPE_PTR :: UInt16 where "TYPE_PTR \<equiv> 12"
abbreviation TYPE_AAAA :: UInt16 where "TYPE_AAAA \<equiv> 28"
abbreviation CLASS_INET :: UInt16 where "CLASS_INET \<equiv> 1"

definition cstring :: "bytes \<Rightarrow> bytes" where
  "cstring bs = takeWhile (\<lambda>b. b \<noteq> 0) bs"

section \<open>The server reads a request\<close>

record evdns_server_question =
  qname :: bytes
  qtype :: UInt16
  qclass :: UInt16

record server_reply_item =
  iname :: bytes
  itype :: UInt16
  iclass :: UInt16
  ittl :: UInt32
  is_name :: bool
  datalen :: UInt16
  idata :: "bytes option"

record server_request =
  sr_trans_id :: UInt16
  sr_flags :: UInt16
  questions :: "evdns_server_question list"
  answer :: "server_reply_item list"
  authority :: "server_reply_item list"
  additional :: "server_reply_item list"
  response :: "bytes option"

datatype parsed = Rejected | Not_implemented server_request | Callback server_request

text \<open>The loop over the questions: \<open>None\<close> for an access outside the packet, \<open>Some None\<close> for the jump to \<open>err\<close>.\<close>

fun read_questions :: "(nat \<Rightarrow> bool) \<Rightarrow> bytes \<Rightarrow> nat \<Rightarrow> nat \<Rightarrow> nat \<Rightarrow> evdns_server_question list option option" where
  "read_questions mm packet len 0 j = Some (Some [])"
| "read_questions mm packet len (Suc n) j =
    (case name_parse packet len j 256 of None \<Rightarrow> None
     | Some None \<Rightarrow> Some None
     | Some (Some (tmp_name, j1)) \<Rightarrow>
        (case get16s 2 packet len j1 of None \<Rightarrow> Some None
         | Some (ws, j2) \<Rightarrow>
            if \<not> mm n then Some None
            else map_option (map_option ((#) \<lparr>qname = cstring tmp_name, qtype = ws ! 0, qclass = ws ! 1\<rparr>))
              (read_questions mm packet len n j2)))"

definition request_parse :: "(nat \<Rightarrow> bool) \<Rightarrow> bool \<Rightarrow> bool \<Rightarrow> bytes \<Rightarrow> nat \<Rightarrow> parsed option" where
  "request_parse mm mm_req mm_questions packet len =
    (case get16s 6 packet len 0 of None \<Rightarrow> Some Rejected
     | Some (ws, j) \<Rightarrow>
        if ws ! 1 AND 0x8000 \<noteq> 0 then Some Rejected
        else let flags = ws ! 1 AND 0x0110 in
          if \<not> mm_req \<or> \<not> mm_questions then Some Rejected
          else case read_questions mm packet len (unat (ws ! 2)) j of None \<Rightarrow> None
            | Some None \<Rightarrow> Some Rejected
            | Some (Some qs) \<Rightarrow>
               (let req = \<lparr>sr_trans_id = ws ! 0, sr_flags = flags, questions = qs, answer = [], authority = [], additional = [], response = None\<rparr>
                in Some (if flags AND 0x7800 \<noteq> 0 then Not_implemented req else Callback req)))"

section \<open>The server answers\<close>

definition evdns_server_request_add_reply ::
    "bool \<Rightarrow> server_request \<Rightarrow> int \<Rightarrow> bytes \<Rightarrow> UInt16 \<Rightarrow> UInt16 \<Rightarrow> UInt32 \<Rightarrow> int \<Rightarrow> bool \<Rightarrow> bytes option \<Rightarrow> int \<times> server_request" where
  "evdns_server_request_add_reply mm req section name type class ttl dlen isname data =
    (if response req \<noteq> None \<or> section \<notin> {0, 1, 2} \<or> \<not> mm then (- 1, req)
     else let item = \<lparr>iname = name, itype = type, iclass = class, ittl = ttl, is_name = isname,
            datalen = (case data of None \<Rightarrow> 0 | Some _ \<Rightarrow> if isname then - 1 else word_of_int dlen),
            idata = map_option (\<lambda>d. if isname then d else take (nat dlen) d) data\<rparr>
       in (0, if section = 0 then req\<lparr>answer := answer req @ [item]\<rparr>
              else if section = 1 then req\<lparr>authority := authority req @ [item]\<rparr>
              else req\<lparr>additional := additional req @ [item]\<rparr>))"

definition evdns_server_request_add_a_reply :: "bool \<Rightarrow> server_request \<Rightarrow> bytes \<Rightarrow> int \<Rightarrow> bytes option \<Rightarrow> UInt32 \<Rightarrow> int \<times> server_request" where
  "evdns_server_request_add_a_reply mm req name n addrs ttl =
    evdns_server_request_add_reply mm req 0 name TYPE_A CLASS_INET ttl (n * 4) False addrs"

definition evdns_server_request_add_aaaa_reply :: "bool \<Rightarrow> server_request \<Rightarrow> bytes \<Rightarrow> int \<Rightarrow> bytes option \<Rightarrow> UInt32 \<Rightarrow> int \<times> server_request" where
  "evdns_server_request_add_aaaa_reply mm req name n addrs ttl =
    evdns_server_request_add_reply mm req 0 name TYPE_AAAA CLASS_INET ttl (n * 16) False addrs"

fun decimal :: "nat \<Rightarrow> bytes" where
  "decimal n = (if n < 10 then [word_of_nat (48 + n)] else decimal (n div 10) @ [word_of_nat (48 + n mod 10)])"

declare decimal.simps [simp del]

text \<open>The address is given in host order; the name ends in \<open>.in-addr.arpa\<close>.\<close>

definition arpa_name :: "UInt32 \<Rightarrow> bytes" where
  "arpa_name a = concat (map (\<lambda>k. decimal (unat (drop_bit k a AND 0xff)) @ [dot]) [0, 8, 16, 24])
     @ [105, 110, 45, 97, 100, 100, 114, 46, 97, 114, 112, 97]"

definition evdns_server_request_add_ptr_reply ::
    "bool \<Rightarrow> server_request \<Rightarrow> UInt32 option \<Rightarrow> bytes option \<Rightarrow> bytes option \<Rightarrow> UInt32 \<Rightarrow> int \<times> server_request" where
  "evdns_server_request_add_ptr_reply mm req addr inaddr_name hostname ttl =
    (case (addr, inaddr_name) of
       (Some _, Some _) \<Rightarrow> (- 1, req)
     | (None, None) \<Rightarrow> (- 1, req)
     | (Some a, None) \<Rightarrow> evdns_server_request_add_reply mm req 0 (arpa_name a) TYPE_PTR CLASS_INET ttl (- 1) True hostname
     | (None, Some name) \<Rightarrow> evdns_server_request_add_reply mm req 0 name TYPE_PTR CLASS_INET ttl (- 1) True hostname)"

definition evdns_server_request_add_cname_reply :: "bool \<Rightarrow> server_request \<Rightarrow> bytes \<Rightarrow> bytes option \<Rightarrow> UInt32 \<Rightarrow> int \<times> server_request" where
  "evdns_server_request_add_cname_reply mm req name cname ttl =
    evdns_server_request_add_reply mm req 0 name TYPE_CNAME CLASS_INET ttl (- 1) True cname"

definition evdns_server_request_set_flags :: "server_request \<Rightarrow> UInt16 \<Rightarrow> server_request" where
  "evdns_server_request_set_flags req flags = req\<lparr>sr_flags := (sr_flags req AND NOT (0x400 OR 0x080)) OR flags\<rparr>"

text \<open>
  While the response is formatted: the buffer, the position and the table; or the buffer at the jump to \<open>overflow\<close>; or
  the negative result that is returned at once.
\<close>

datatype progress = Going bytes nat dnslabel_table | Overflow bytes | Failed int

definition append_going :: "bytes \<Rightarrow> progress \<Rightarrow> progress" where
  "append_going bs p =
    (case p of Going buf j t \<Rightarrow> (case append_be bs (buf, j) of None \<Rightarrow> Overflow buf | Some (buf', j') \<Rightarrow> Going buf' j' t) | _ \<Rightarrow> p)"

definition write_question :: "(bytes \<Rightarrow> bool) \<Rightarrow> evdns_server_question \<Rightarrow> progress \<Rightarrow> progress option" where
  "write_question dup q p =
    (case p of Going buf j t \<Rightarrow>
       (case dnsname_to_labels dup buf j (qname q) (Some t) of None \<Rightarrow> None
        | Some (r, buf', t') \<Rightarrow>
           if r < 0 then Some (Failed r)
           else Some (append_going (be16 (qclass q)) (append_going (be16 (qtype q)) (Going buf' (nat r) (the t')))))
     | _ \<Rightarrow> Some p)"

text \<open>The data of an item: a name, whose length is put in front of it afterwards, or bytes.\<close>

definition write_data :: "(bytes \<Rightarrow> bool) \<Rightarrow> server_reply_item \<Rightarrow> progress \<Rightarrow> progress option" where
  "write_data dup item p =
    (case p of Going buf j t \<Rightarrow>
       if is_name item
       then (case idata item of None \<Rightarrow> None
         | Some d \<Rightarrow>
            (case dnsname_to_labels dup buf (j + 2) d (Some t) of None \<Rightarrow> None
             | Some (r, buf', t') \<Rightarrow>
                if r < 0 then Some (Overflow buf')
                else Some (Going (put_bytes j (be16 (word_of_nat (nat r - (j + 2)))) buf') (nat r) (the t'))))
       else (case append_going (be16 (datalen item)) p of
           Going buf' j' t' \<Rightarrow>
             if j' + unat (datalen item) > length buf' then Some (Overflow buf')
             else (case idata item of
                 None \<Rightarrow> if datalen item = 0 then Some (Going buf' j' t') else None
               | Some d \<Rightarrow> Some (Going (put_bytes j' (take (unat (datalen item)) d) buf') (j' + unat (datalen item)) t'))
         | p' \<Rightarrow> Some p')
     | _ \<Rightarrow> Some p)"

definition write_item :: "(bytes \<Rightarrow> bool) \<Rightarrow> server_reply_item \<Rightarrow> progress \<Rightarrow> progress option" where
  "write_item dup item p =
    (case p of Going buf j t \<Rightarrow>
       (case dnsname_to_labels dup buf j (iname item) (Some t) of None \<Rightarrow> None
        | Some (r, buf', t') \<Rightarrow>
           if r < 0 then Some (Overflow buf')
           else write_data dup item
             (append_going (be32_bytes (ittl item)) (append_going (be16 (iclass item)) (append_going (be16 (itype item)) (Going buf' (nat r) (the t'))))))
     | _ \<Rightarrow> Some p)"

fun write_all :: "('x \<Rightarrow> progress \<Rightarrow> progress option) \<Rightarrow> 'x list \<Rightarrow> progress \<Rightarrow> progress option" where
  "write_all f [] p = Some p"
| "write_all f (x # xs) p = (case f x p of None \<Rightarrow> None | Some p' \<Rightarrow> write_all f xs p')"

text \<open>The end: a response that is too long is cut and marked as truncated.\<close>

definition finish_response :: "bool \<Rightarrow> server_request \<Rightarrow> progress \<Rightarrow> int \<times> server_request" where
  "finish_response mm req p =
    (let free = req\<lparr>answer := [], authority := [], additional := []\<rparr>;
         done = (\<lambda>buf j. if mm then (0, free\<lparr>response := Some (take j buf)\<rparr>) else (- 1, free));
         cut = (\<lambda>buf. done (buf[2 := buf ! 2 OR 0x02]) 512)
     in case p of Going buf j t \<Rightarrow> if j > 512 then cut buf else done buf j | Overflow buf \<Rightarrow> cut buf | Failed r \<Rightarrow> (r, req))"

text \<open>\<open>buf0\<close> is the uninitialised array of 1500 bytes.\<close>

definition evdns_server_request_format_response :: "bool \<Rightarrow> (bytes \<Rightarrow> bool) \<Rightarrow> bytes \<Rightarrow> server_request \<Rightarrow> int \<Rightarrow> (int \<times> server_request) option" where
  "evdns_server_request_format_response mm dup buf0 req err =
    (if err < 0 \<or> err > 15 then Some (- 1, req)
     else let flags = sr_flags req OR (0x8000 OR word_of_int err);
              header = fold (\<lambda>w. append_going (be16 w)) [sr_trans_id req, flags, word_of_nat (length (questions req)),
                word_of_nat (length (answer req)), word_of_nat (length (authority req)), word_of_nat (length (additional req))] (Going buf0 0 [])
       in case write_all (write_question dup) (questions req) header of None \<Rightarrow> None
          | Some p \<Rightarrow> map_option (finish_response mm req) (write_all (write_item dup) (answer req @ authority req @ additional req) p))"

section \<open>The client reads a reply\<close>

record reply =
  rtype :: UInt16
  have_answer :: bool
  raddrs :: "bytes list"
  rname :: bytes

text \<open>
  What \<open>reply_parse\<close> knows of a request that is in flight: its packet (in a larger array), its type and whether a name is still wanted for
  \<open>*put_cname_in_ptr\<close>.
\<close>

record dns_request =
  rq_trans_id :: UInt16
  rq_request :: bytes
  request_len :: nat
  rq_type :: UInt16
  wants_cname :: bool

definition request_find_from_trans_id :: "dns_request list \<Rightarrow> UInt16 \<Rightarrow> dns_request option" where
  "request_find_from_trans_id reqs trans_id = find (\<lambda>r. rq_trans_id r = trans_id) reqs"

definition EVUTIL_TOLOWER :: "UInt8 \<Rightarrow> UInt8" where
  "EVUTIL_TOLOWER c = (if 65 \<le> c \<and> c \<le> 90 then c + 32 else c)"

text \<open>\<open>TEST_NAME\<close>: the name at \<open>j\<close> in both packets, and whether they agree.\<close>

definition TEST_NAME :: "bool \<Rightarrow> bytes \<Rightarrow> nat \<Rightarrow> dns_request \<Rightarrow> nat \<Rightarrow> (bool \<times> nat) option option" where
  "TEST_NAME randomize packet len req j =
    (case name_parse packet len j 256 of None \<Rightarrow> None
     | Some None \<Rightarrow> Some None
     | Some (Some (tmp_name, j')) \<Rightarrow>
        (case name_parse (rq_request req) (request_len req) j 256 of None \<Rightarrow> None
         | Some None \<Rightarrow> Some None
         | Some (Some (cmp_name, _)) \<Rightarrow>
            Some (Some (if randomize then cstring tmp_name = cstring cmp_name
              else map EVUTIL_TOLOWER (cstring tmp_name) = map EVUTIL_TOLOWER (cstring cmp_name), j'))))"

fun test_questions :: "bool \<Rightarrow> bytes \<Rightarrow> nat \<Rightarrow> dns_request \<Rightarrow> nat \<Rightarrow> nat \<Rightarrow> bool \<Rightarrow> (bool \<times> nat) option option" where
  "test_questions randomize packet len req 0 j matches = Some (Some (matches, j))"
| "test_questions randomize packet len req (Suc n) j matches =
    (case TEST_NAME randomize packet len req j of None \<Rightarrow> None
     | Some None \<Rightarrow> Some None
     | Some (Some (m, j')) \<Rightarrow>
        if j' + 4 > len then Some None else test_questions randomize packet len req n (j' + 4) (matches \<or> m))"

definition MAX_ADDRS :: nat where
  "MAX_ADDRS = 32"

definition HOST_NAME_MAX :: nat where
  "HOST_NAME_MAX = 255"

text \<open>The addresses in \<open>n\<close> pieces of the given size.\<close>

definition pieces :: "nat \<Rightarrow> nat \<Rightarrow> bytes \<Rightarrow> bytes list" where
  "pieces sz n bs = map (\<lambda>i. take sz (drop (sz * i) bs)) [0..<n]"

text \<open>Copying addresses of the given size: \<open>None\<close> is the jump to \<open>err\<close>; the flag says whether the reply is full.\<close>

definition copy_addrs :: "nat \<Rightarrow> bytes \<Rightarrow> nat \<Rightarrow> nat \<Rightarrow> nat \<Rightarrow> reply \<Rightarrow> (bool \<times> nat \<times> reply) option" where
  "copy_addrs sz packet len j datalength rep =
    (if datalength mod sz \<noteq> 0 then None
     else let addrtocopy = min (MAX_ADDRS - length (raddrs rep)) (datalength div sz) in
       if j + sz * addrtocopy > len then None
       else let rep' = rep\<lparr>raddrs := raddrs rep @ pieces sz addrtocopy (drop j packet), have_answer := True\<rparr>
         in Some (length (raddrs rep') = MAX_ADDRS, j + sz * addrtocopy, rep'))"

text \<open>The head of a resource record behind its name: type, class, time to live and length of the data.\<close>

definition get_rr :: "bytes \<Rightarrow> nat \<Rightarrow> nat \<Rightarrow> (UInt16 \<times> UInt16 \<times> UInt32 \<times> nat \<times> nat) option" where
  "get_rr packet len j =
    (case get16s 2 packet len j of None \<Rightarrow> None
     | Some (ws, j1) \<Rightarrow>
        (case GET32 packet len j1 of None \<Rightarrow> None
         | Some (ttl, j2) \<Rightarrow>
            (case GET16 packet len j2 of None \<Rightarrow> None | Some (dl, j3) \<Rightarrow> Some (ws ! 0, ws ! 1, ttl, unat dl, j3))))"

text \<open>The loop over the answers: the position, the reply, the smallest time to live and the name of a CNAME;
  or, at the jump to \<open>err\<close>, the name only.\<close>

fun read_answers :: "(bytes \<Rightarrow> bool) \<Rightarrow> bytes \<Rightarrow> nat \<Rightarrow> dns_request \<Rightarrow> nat \<Rightarrow> nat \<times> reply \<times> UInt32 \<times> bytes option \<Rightarrow>
    (bytes option + nat \<times> reply \<times> UInt32 \<times> bytes option) option" where
  "read_answers dup packet len req 0 s = Some (Inr s)"
| "read_answers dup packet len req (Suc n) (j, rep, ttl_r, cname) =
    (case name_parse packet len j 256 of None \<Rightarrow> None
     | Some None \<Rightarrow> Some (Inl cname)
     | Some (Some (_, j1)) \<Rightarrow>
        (case get_rr packet len j1 of None \<Rightarrow> Some (Inl cname)
         | Some (type, class, ttl, datalength, j2) \<Rightarrow>
            if type = TYPE_A \<and> class = CLASS_INET then
              if rq_type req \<noteq> TYPE_A then read_answers dup packet len req n (j2 + datalength, rep, ttl_r, cname)
              else (case copy_addrs 4 packet len j2 datalength rep of None \<Rightarrow> Some (Inl cname)
                | Some (full, j3, rep') \<Rightarrow>
                   if full then Some (Inr (j3, rep', min ttl_r ttl, cname))
                   else read_answers dup packet len req n (j3, rep', min ttl_r ttl, cname))
            else if type = TYPE_PTR \<and> class = CLASS_INET then
              if rq_type req \<noteq> TYPE_PTR then read_answers dup packet len req n (j2 + datalength, rep, ttl_r, cname)
              else (case name_parse packet len j2 HOST_NAME_MAX of None \<Rightarrow> None
                | Some None \<Rightarrow> Some (Inl cname)
                | Some (Some (name, j3)) \<Rightarrow> Some (Inr (j3, rep\<lparr>rname := name, have_answer := True\<rparr>, min ttl_r ttl, cname)))
            else if type = TYPE_CNAME then
              if \<not> wants_cname req \<or> cname \<noteq> None then read_answers dup packet len req n (j2 + datalength, rep, ttl_r, cname)
              else (case name_parse packet len j2 HOST_NAME_MAX of None \<Rightarrow> None
                | Some None \<Rightarrow> Some (Inl cname)
                | Some (Some (name, j3)) \<Rightarrow>
                   read_answers dup packet len req n (j3, rep, ttl_r, if dup (cstring name) then Some (cstring name) else None))
            else if type = TYPE_AAAA \<and> class = CLASS_INET then
              if rq_type req \<noteq> TYPE_AAAA then read_answers dup packet len req n (j2 + datalength, rep, ttl_r, cname)
              else (case copy_addrs 16 packet len j2 datalength rep of None \<Rightarrow> Some (Inl cname)
                | Some (full, j3, rep') \<Rightarrow>
                   if full then Some (Inr (j3, rep', min ttl_r ttl, cname))
                   else read_answers dup packet len req n (j3, rep', min ttl_r ttl, cname))
            else read_answers dup packet len req n (j2 + datalength, rep, ttl_r, cname)))"

fun get32s :: "nat \<Rightarrow> bytes \<Rightarrow> nat \<Rightarrow> nat \<Rightarrow> (UInt32 list \<times> nat) option" where
  "get32s 0 packet len j = Some ([], j)"
| "get32s (Suc n) packet len j =
    (case GET32 packet len j of None \<Rightarrow> None
     | Some (x, j') \<Rightarrow> map_option (\<lambda>(xs, j''). (x # xs, j'')) (get32s n packet len j'))"

text \<open>The loop over the authority section, for the time that a missing answer may be kept.\<close>

fun read_authority :: "bytes \<Rightarrow> nat \<Rightarrow> nat \<Rightarrow> nat \<Rightarrow> UInt32 \<Rightarrow> UInt32 option option" where
  "read_authority packet len 0 j ttl_r = Some (Some ttl_r)"
| "read_authority packet len (Suc n) j ttl_r =
    (case name_parse packet len j 256 of None \<Rightarrow> None
     | Some None \<Rightarrow> Some None
     | Some (Some (_, j1)) \<Rightarrow>
        (case get_rr packet len j1 of None \<Rightarrow> Some None
         | Some (type, class, ttl, datalength, j2) \<Rightarrow>
            if type = TYPE_SOA \<and> class = CLASS_INET
            then (case name_parse packet len j2 256 of None \<Rightarrow> None
              | Some None \<Rightarrow> Some None
              | Some (Some (_, j3)) \<Rightarrow>
                 (case name_parse packet len j3 256 of None \<Rightarrow> None
                  | Some None \<Rightarrow> Some None
                  | Some (Some (_, j4)) \<Rightarrow>
                     (case get32s 5 packet len j4 of None \<Rightarrow> Some None
                      | Some (ws, j5) \<Rightarrow> read_authority packet len n j5 (min (min ttl_r ttl) (ws ! 4)))))
            else read_authority packet len n (j2 + datalength) ttl_r))"

text \<open>
  The outcome of \<open>reply_parse\<close>: the packet is dropped, or \<open>reply_handle\<close> is called for a request with flags, time to live
  and reply. The result is -1 in the first case and when there is no reply. The name of a CNAME is handed over separately.
\<close>

datatype reply_outcome = Dropped | Handled dns_request UInt16 UInt32 "reply option" "bytes option"

definition reply_parse :: "(bytes \<Rightarrow> bool) \<Rightarrow> bool \<Rightarrow> dns_request list \<Rightarrow> bytes \<Rightarrow> nat \<Rightarrow> reply_outcome option" where
  "reply_parse dup randomize reqs packet len =
    (case get16s 6 packet len 0 of None \<Rightarrow> Some Dropped
     | Some (ws, j) \<Rightarrow>
        (case request_find_from_trans_id reqs (ws ! 0) of None \<Rightarrow> Some Dropped
         | Some req \<Rightarrow>
            (let flags = ws ! 1; err = Some (Handled req flags 0 None None) in
             if flags AND 0x8000 = 0 then Some Dropped
             else if flags AND 0x020f \<noteq> 0 \<and> flags AND 0x020f \<noteq> 3 then err
             else case test_questions randomize packet len req (unat (ws ! 2)) j False of None \<Rightarrow> None
             | Some None \<Rightarrow> err
             | Some (Some (False, _)) \<Rightarrow> err
             | Some (Some (True, j1)) \<Rightarrow>
                (case read_answers dup packet len req (unat (ws ! 3)) (j1, \<lparr>rtype = rq_type req, have_answer = False, raddrs = [], rname = []\<rparr>, 0xffffffff, None) of
                   None \<Rightarrow> None
                 | Some (Inl cname) \<Rightarrow> Some (Handled req flags 0 None cname)
                 | Some (Inr (j2, rep, ttl_r, cname)) \<Rightarrow>
                    (case (if have_answer rep then Some (Some ttl_r) else read_authority packet len (unat (ws ! 4)) j2 ttl_r) of
                       None \<Rightarrow> None
                     | Some None \<Rightarrow> Some (Handled req flags 0 None cname)
                     | Some (Some ttl_r') \<Rightarrow> Some (Handled req flags (if ttl_r' = 0xffffffff then 0 else ttl_r') (Some rep) cname))))))"

text \<open>The error that \<open>reply_handle\<close> finds; 0 stands for success.\<close>

definition reply_error :: "UInt16 \<Rightarrow> reply option \<Rightarrow> nat" where
  "reply_error flags rep =
    (if flags AND 0x020f \<noteq> 0 \<or> rep = None \<or> \<not> have_answer (the rep)
     then if flags AND 0x0200 \<noteq> 0 then 65
          else if flags AND 0x000f \<noteq> 0
          then let error_code = (flags AND 0x000f) - 1 in if error_code > 4 then 66 else [1, 2, 3, 4, 5] ! unat error_code
          else if rep \<noteq> None \<and> \<not> have_answer (the rep) then 70 else 66
     else 0)"

section \<open>Packets that are written\<close>

text \<open>With room for the labels, their lengths and the closing zero a name is always written.\<close>

lemma labels_loop_room:
  assumes "list_all label_ok ls" "j + length (dots ls) + 2 \<le> length buf"
  shows "\<exists>r buf' table'. labels_loop dup buf j (dots ls) table = Some (r, buf', table') \<and> 0 \<le> r \<and> nat r \<le> j + length (dots ls) + 2"
  using assms
proof (induction ls arbitrary: buf j table)
  case Nil
  have z: "put_bytes j [0] buf ! j = 0" using Nil by (simp add: put_bytes_def nth_append)
  then show ?case using Nil
    by (subst labels_loop.simps) (auto simp: Let_def APPEND16_def append_be_def be16_def end_labels_def split: option.splits)
next
  case (Cons l ls)
  have l: "label_ok l" "list_all label_ok ls" "length l \<le> 63" "l \<noteq> []" using Cons.prems by (simp_all, simp_all add: label_ok_def)
  have len: "length (dots (l # ls)) = length l + (if ls = [] then 0 else Suc (length (dots ls)))" by (cases ls) auto
  show ?case
  proof (cases "Option.bind table (\<lambda>t. dnslabel_table_get_pos t (dots (l # ls)))")
    case (Some ref)
    then show ?thesis using Cons.prems(2) l(4) len by (subst labels_loop.simps) (auto simp: APPEND16_def append_be_def be16_def)
  next
    case None
    define buf1 where "buf1 = put_bytes j (word_of_nat (length l) # l) buf"
    define t1 where "t1 = map_option (\<lambda>t. dnslabel_table_add dup t (dots (l # ls)) j) table"
    have fits: "j + length l + 1 \<le> length buf" "\<not> length l > 63" using Cons.prems(2) len l by auto
    note w = put_label [OF l(1) fits(1) buf1_def]
    have eq: "labels_loop dup buf j (dots (l # ls)) table =
        (if ls = [] then map_option (\<lambda>(r, b). (r, b, t1)) (end_labels buf1 (j + length l + 1)) else labels_loop dup buf1 (j + length l + 1) (dots ls) t1)"
      unfolding labels_loop.simps [of dup buf j "dots (l # ls)"] None takeWhile_dots [OF l(1)] Let_def option.case buf1_def t1_def
      using fits by (simp del: dots.simps)
    show ?thesis
    proof (cases "ls = []")
      case True
      then show ?thesis unfolding eq using w Cons.prems(2) by (auto simp: end_labels_def)
    next
      case False
      then show ?thesis unfolding eq using Cons.IH [of "j + length l + 1" buf1 t1] l(2) w(1) Cons.prems(2) len by auto
    qed
  qed
qed

lemma dnsname_room:
  assumes "list_all label_ok ls" "j + length (dots ls) + 2 \<le> length buf" "length (dots ls) \<le> 255"
  obtains r buf' table' where "dnsname_to_labels dup buf j (dots ls) table = Some (r, buf', table')" "0 \<le> r" "nat r \<le> j + length (dots ls) + 2"
  using labels_loop_room [OF assms(1,2), of dup table] assms(3) that by (auto simp: dnsname_to_labels_def)

text \<open>A name at \<open>j\<close> that \<open>name_parse\<close> reads.\<close>

definition readable :: "bytes \<Rightarrow> nat \<Rightarrow> bytes list \<Rightarrow> nat \<Rightarrow> bool" where
  "readable p j ls e \<longleftrightarrow> (\<exists>k. name_at p j ls k e \<and> k \<le> j) \<and> list_all label_ok ls \<and> length (dots ls) \<le> 255"

lemma readable_append: "readable p j ls e \<Longrightarrow> readable (p @ xs) j ls e"
  unfolding readable_def using name_at_append by blast

lemma readable_parse_array:
  assumes "readable (take len p) j ls e" "len \<le> length p" "255 < n"
  shows "name_parse p len j n = Some (Some (dots ls, e))"
proof -
  obtain k where k: "name_at (take len p) j ls k e" "k \<le> j" and ls: "list_all label_ok ls" "length (dots ls) \<le> 255" using assms(1) by (auto simp: readable_def)
  show ?thesis
    using name_parse_spec [of len p j ls k e n] name_at_bounds [OF k(1)] k ls assms(2,3) by (auto simp: list_all_iff label_ok_def)
qed

lemma readable_parse:
  assumes "readable p j ls e" "255 < n"
  shows "name_parse p (length p) j n = Some (Some (dots ls, e))" "cstring (dots ls) = dots ls"
proof -
  show "name_parse p (length p) j n = Some (Some (dots ls, e))" using readable_parse_array [of "length p" p] assms by simp
  have "list_all label_ok ls" using assms by (simp add: readable_def)
  then have "0 \<notin> set (dots ls)" by (induction ls rule: dots.induct) (auto simp: label_ok_def)
  then show "cstring (dots ls) = dots ls" by (auto simp: cstring_def takeWhile_eq_all_conv)
qed

lemma name_written:
  assumes P: "take (length P) buf = P" "length P + length (dots ls) + 2 \<le> length buf" and ls: "list_all label_ok ls" "length (dots ls) \<le> 255"
    and b: "length buf \<le> 2 ^ 14" and t: "table_ok P table"
  obtains xs buf' table' where "dnsname_to_labels dup buf (length P) (dots ls) table = Some (int (length (P @ xs)), buf', table')"
    "length buf' = length buf" "take (length (P @ xs)) buf' = P @ xs" "table_ok (P @ xs) table'" "readable (P @ xs) (length P) ls (length (P @ xs))"
    "length xs \<le> length (dots ls) + 2" "length (P @ xs) \<le> length buf" "table = None \<longleftrightarrow> table' = None"
proof -
  obtain r buf' table' where d: "dnsname_to_labels dup buf (length P) (dots ls) table = Some (r, buf', table')" "0 \<le> r"
    "nat r \<le> length P + length (dots ls) + 2"
    using dnsname_room [OF ls(1) P(2) ls(2)] by blast
  have Pl: "length P \<le> length buf" using P(2) by simp
  note s = dnsname_sound [OF d(1,2) ls(1) b Pl, unfolded P(1), OF t]
  obtain xs where xs: "take (nat r) buf' = P @ xs" using s(3) by blast
  then have r: "nat r = length (P @ xs)" using s(1,2) by (metis length_take min.absorb2)
  show ?thesis
  proof (rule that [of xs buf' table'])
    show "dnsname_to_labels dup buf (length P) (dots ls) table = Some (int (length (P @ xs)), buf', table')" using d(1,2) r by simp
    show "take (length (P @ xs)) buf' = P @ xs" using xs r by simp
    show "readable (P @ xs) (length P) ls (length (P @ xs))" using s(6) ls xs r by (auto simp: readable_def)
    show "table = None \<longleftrightarrow> table' = None" by (rule s(7))
  qed (use s(1,2,4) xs r d(3) in simp_all)
qed

section \<open>Numbers in packets\<close>

text \<open>The bytes \<open>bs\<close> stand at \<open>j\<close>.\<close>

definition stands :: "bytes \<Rightarrow> nat \<Rightarrow> bytes \<Rightarrow> bool" where
  "stands p j bs \<longleftrightarrow> j + length bs \<le> length p \<and> take (length bs) (drop j p) = bs"

lemma stands_here: "stands (P @ bs @ xs) (length P) bs"
  by (simp add: stands_def)

lemma stands_append: "stands p j bs \<Longrightarrow> stands (p @ xs) j bs"
  by (simp add: stands_def)

lemma stands_split: "stands p j (as @ bs) \<longleftrightarrow> stands p j as \<and> stands p (j + length as) bs"
proof
  assume h: "stands p j (as @ bs)"
  then obtain q r where "p = q @ (as @ bs) @ r" "length q = j"
    by (intro that [of "take j p" "drop (j + length (as @ bs)) p"]) (auto simp: stands_def, metis append.assoc append_take_drop_id drop_drop add.commute)
  then show "stands p j as \<and> stands p (j + length as) bs"
    using stands_here [of q as "bs @ r"] stands_here [of "q @ as" bs r] by auto
next
  assume "stands p j as \<and> stands p (j + length as) bs"
  then show "stands p j (as @ bs)" by (auto simp: stands_def take_add add.commute)
qed

lemma stands_nth: "stands p j bs \<Longrightarrow> i < length bs \<Longrightarrow> p ! (j + i) = bs ! i"
  by (metis nth_drop nth_take stands_def add_leE)

lemma word16_bytes: "push_bit 8 (ucast (ucast (drop_bit 8 w) :: UInt8)) OR ucast (ucast w :: UInt8) = (w :: UInt16)" (is "?l = _")
proof (rule bit_word_eqI)
  fix n
  assume "n < LENGTH(16)"
  then show "bit ?l n = bit w n"
    by (cases "n < 8") (auto simp: bit_simps)
qed

lemma word32_bytes: "push_bit 24 (ucast (ucast (drop_bit 24 w) :: UInt8)) OR push_bit 16 (ucast (ucast (drop_bit 16 w) :: UInt8))
   OR push_bit 8 (ucast (ucast (drop_bit 8 w) :: UInt8)) OR ucast (ucast w :: UInt8) = (w :: UInt32)" (is "?l = _")
proof (rule bit_word_eqI)
  fix n
  assume "n < LENGTH(32)"
  then consider "n < 8" | i where "n = 8 + i" "i < 8" | i where "n = 16 + i" "i < 8" | i where "n = 24 + i" "i < 8"
  proof -
    assume h: "n < LENGTH(32)" "n < 8 \<Longrightarrow> thesis" "\<And>i. n = 8 + i \<Longrightarrow> i < 8 \<Longrightarrow> thesis" "\<And>i. n = 16 + i \<Longrightarrow> i < 8 \<Longrightarrow> thesis" "\<And>i. n = 24 + i \<Longrightarrow> i < 8 \<Longrightarrow> thesis"
    show thesis using h(1) h(2) h(3) [of "n - 8"] h(4) [of "n - 16"] h(5) [of "n - 24"] by (simp; linarith)
  qed
  then show "bit ?l n = bit w n"
    by cases (auto simp: bit_simps)
qed

lemma GET16_stands: "stands p j (be16 w) \<Longrightarrow> GET16 p (length p) j = Some (w, j + 2)"
  using stands_nth [of p j "be16 w" 0] stands_nth [of p j "be16 w" 1] word16_bytes [of w]
  by (simp add: GET16_def be16_def stands_def)

lemma GET32_stands: "stands p j (be32_bytes w) \<Longrightarrow> GET32 p (length p) j = Some (w, j + 4)"
  using stands_nth [of p j "be32_bytes w" 0] stands_nth [of p j "be32_bytes w" 1] stands_nth [of p j "be32_bytes w" 2] stands_nth [of p j "be32_bytes w" 3] word32_bytes [of w]
  by (simp add: GET32_def be32_bytes_def stands_def numeral_3_eq_3 numeral_2_eq_2)

lemma length_be [simp]: "length (be16 w) = 2" "length (be32_bytes v) = 4"
  by (simp_all add: be16_def be32_bytes_def)

lemma get16s_stands: "stands p j (concat (map be16 ws)) \<Longrightarrow> get16s (length ws) p (length p) j = Some (ws, j + 2 * length ws)"
  by (induction ws arbitrary: j) (auto simp: stands_split GET16_stands)

section \<open>A request reaches the server\<close>

lemma append_be_spec:
  assumes "take (length P) buf = P" "length P + length bs \<le> length buf"
  shows "\<exists>buf'. append_be bs (buf, length P) = Some (buf', length (P @ bs)) \<and> length buf' = length buf \<and> take (length (P @ bs)) buf' = P @ bs"
  using assms put_bytes_simps [of "length P" bs buf] by (simp add: append_be_def)

lemma append16s_spec:
  assumes "take (length P) buf = P" "length P + 2 * length ws \<le> length buf"
  shows "\<exists>buf'. append16s ws (buf, length P) = Some (buf', length (P @ concat (map be16 ws))) \<and> length buf' = length buf
    \<and> take (length (P @ concat (map be16 ws))) buf' = P @ concat (map be16 ws)"
  using assms
proof (induction ws arbitrary: P buf)
  case (Cons w ws)
  then obtain b1 where "append_be (be16 w) (buf, length P) = Some (b1, length (P @ be16 w))" "length b1 = length buf" "take (length (P @ be16 w)) b1 = P @ be16 w"
    using append_be_spec [of P buf "be16 w"] by auto
  then show ?case using Cons.IH [of "P @ be16 w" b1] Cons.prems by (auto simp: APPEND16_def)
qed auto

definition dns_header :: "UInt16 \<Rightarrow> UInt16 \<Rightarrow> nat \<Rightarrow> nat \<Rightarrow> nat \<Rightarrow> nat \<Rightarrow> bytes" where
  "dns_header trans_id flags q a u d = concat (map be16 [trans_id, flags, word_of_nat q, word_of_nat a, word_of_nat u, word_of_nat d])"

lemma length_dns_header [simp]: "length (dns_header i f q a u d) = 12"
  by (simp add: dns_header_def)

lemma dns_header_read:
  assumes "stands p 0 (dns_header i f q a u d)"
  shows "get16s 6 p (length p) 0 = Some ([i, f, word_of_nat q, word_of_nat a, word_of_nat u, word_of_nat d], 12)"
  using get16s_stands [of p 0 "[i, f, word_of_nat q, word_of_nat a, word_of_nat u, word_of_nat d]"] assms
  by (simp add: dns_header_def numeral_eq_Suc del: get16s.simps)

text \<open>A packet with one question: the name of the question and its type and class are there.\<close>

definition question_at :: "bytes \<Rightarrow> bytes list \<Rightarrow> UInt16 \<Rightarrow> UInt16 \<Rightarrow> nat \<Rightarrow> bool" where
  "question_at p ls type class e \<longleftrightarrow> readable p 12 ls e \<and> stands p e (be16 type @ be16 class)"

lemma question_at_append: "question_at p ls type class e \<Longrightarrow> question_at (p @ xs) ls type class e"
  by (simp add: question_at_def readable_append stands_append)

lemma request_built:
  assumes ls: "list_all label_ok ls" "length (dots ls) \<le> 255" and b: "length buf = evdns_request_len (length (dots ls))"
  obtains r buf' e where "evdns_request_data_build (dots ls) trans_id type class buf = Some (int r, buf')" "r \<le> length buf'" "length buf' = length buf"
    "stands (take r buf') 0 (dns_header trans_id 0x0100 1 0 0 0)" "question_at (take r buf') ls type class e" "r = e + 4"
proof -
  define H where "H = dns_header trans_id 0x0100 1 0 0 0"
  have room: "length buf = length (dots ls) + 102" using b by (simp add: evdns_request_len_def)
  obtain b1 where b1: "append16s [trans_id, 0x0100, 1, 0, 0, 0] (buf, 0) = Some (b1, length H)" "length b1 = length buf" "take (length H) b1 = H"
    using append16s_spec [of "[]" buf "[trans_id, 0x0100, 1, 0, 0, 0]"] room by (auto simp: H_def dns_header_def)
  have l12: "length H = 12" by (simp add: H_def)
  obtain xs b2 t where b2: "dnsname_to_labels (\<lambda>_. True) b1 (length H) (dots ls) None = Some (int (length (H @ xs)), b2, t)"
    "length b2 = length b1" "take (length (H @ xs)) b2 = H @ xs" "readable (H @ xs) (length H) ls (length (H @ xs))"
    "length xs \<le> length (dots ls) + 2" "length (H @ xs) \<le> length b1"
    by (rule name_written [of H b1 ls None "\<lambda>_. True"]) (use b1 ls room l12 in auto)
  obtain b3 where b3: "append16s [type, class] (b2, length (H @ xs)) = Some (b3, length (H @ xs) + 4)" "length b3 = length b2"
    "take (length (H @ xs) + 4) b3 = H @ xs @ be16 type @ be16 class"
    using append16s_spec [of "H @ xs" b2 "[type, class]"] b2 b1(2) room l12 by auto
  have "evdns_request_data_build (dots ls) trans_id type class buf = Some (int (length (H @ xs) + 4), b3)"
    using b1(1) b2(1) b3(1) by (simp add: evdns_request_data_build_def nat_int_add del: append16s.simps)
  moreover have "stands (take (length (H @ xs) + 4) b3) 0 H" using stands_here [of "[]" H] unfolding b3(3) by simp
  moreover have "question_at (take (length (H @ xs) + 4) b3) ls type class (length (H @ xs))"
    using b2(4) stands_here [of "H @ xs" "be16 type @ be16 class" "[]"] readable_append [OF b2(4)] unfolding b3(3) question_at_def l12 by simp
  moreover have "length (H @ xs) + 4 \<le> length b3" using b2(2,5) b3(2) b1(2) room l12 by simp
  ultimately show ?thesis using that [of "length (H @ xs) + 4" b3 "length (H @ xs)"] b3(2) b2(2) b1(2) by (simp add: H_def)
qed

lemma request_read:
  assumes h: "stands p 0 (dns_header trans_id 0x0100 1 0 0 0)" and q: "question_at p ls type class e"
  shows "request_parse (\<lambda>_. True) True True p (length p) = Some (Callback
    \<lparr>sr_trans_id = trans_id, sr_flags = 0x0100, questions = [\<lparr>qname = dots ls, qtype = type, qclass = class\<rparr>],
      answer = [], authority = [], additional = [], response = None\<rparr>)"
proof -
  have n: "name_parse p (length p) 12 256 = Some (Some (dots ls, e))" "cstring (dots ls) = dots ls"
    using readable_parse [of p 12 ls e 256] q by (auto simp: question_at_def)
  have "get16s 2 p (length p) e = Some ([type, class], e + 4)"
    using get16s_stands [of p e "[type, class]"] q by (simp add: question_at_def numeral_2_eq_2)
  then have "read_questions (\<lambda>_. True) p (length p) 1 12 = Some (Some [\<lparr>qname = dots ls, qtype = type, qclass = class\<rparr>])"
    using n by simp
  then show ?thesis using dns_header_read [OF h] by (simp add: request_parse_def Let_def)
qed

section \<open>The response reaches the client\<close>

definition going :: "bytes \<Rightarrow> progress \<Rightarrow> bool" where
  "going P p \<longleftrightarrow> (\<exists>buf t. p = Going buf (length P) t \<and> length buf = 1500 \<and> take (length P) buf = P \<and> table_ok P (Some t))"

lemma table_ok_append: "table_ok P t \<Longrightarrow> table_ok (P @ xs) t"
  by (auto simp: table_ok_def list_all_iff entry_ok_append split: option.splits)

lemma append_going_spec:
  assumes "going P p" "length P + length bs \<le> 1500"
  shows "going (P @ bs) (append_going bs p)"
proof -
  obtain buf t where b: "p = Going buf (length P) t" "length buf = 1500" "take (length P) buf = P" "table_ok P (Some t)"
    using assms(1) by (auto simp: going_def)
  with append_be_spec [of P buf bs] assms(2) table_ok_append [OF b(4), of bs] show ?thesis by (auto simp: going_def append_going_def)
qed

lemma append_all_going: "going P p \<Longrightarrow> length P + 2 * length ws \<le> 1500 \<Longrightarrow> going (P @ concat (map be16 ws)) (fold (\<lambda>w. append_going (be16 w)) ws p)"
proof (induction ws arbitrary: P p)
  case (Cons w ws)
  then show ?case using Cons.IH [OF append_going_spec [of P p "be16 w"]] by simp
qed simp

lemma name_going:
  assumes g: "going P (Going buf j t)" and ls: "list_all label_ok ls" "length (dots ls) \<le> 255" and room: "length P + length (dots ls) + 2 \<le> 1500"
  obtains xs buf' t' where "dnsname_to_labels dup buf j (dots ls) (Some t) = Some (int (length (P @ xs)), buf', Some t')"
    "going (P @ xs) (Going buf' (length (P @ xs)) t')" "readable (P @ xs) (length P) ls (length (P @ xs))" "length xs \<le> length (dots ls) + 2"
proof -
  have b: "j = length P" "length buf = 1500" "take (length P) buf = P" "table_ok P (Some t)" using g by (auto simp: going_def)
  obtain xs buf' table' where d: "dnsname_to_labels dup buf (length P) (dots ls) (Some t) = Some (int (length (P @ xs)), buf', table')"
    "length buf' = length buf" "take (length (P @ xs)) buf' = P @ xs" "table_ok (P @ xs) table'" "readable (P @ xs) (length P) ls (length (P @ xs))"
    "length xs \<le> length (dots ls) + 2" "Some t = None \<longleftrightarrow> table' = None"
    by (rule name_written [OF b(3) _ ls _ b(4), of dup]) (use b room in auto)
  then obtain t' where "table' = Some t'" by auto
  with d b show ?thesis by (intro that [of xs buf' t']) (auto simp: going_def)
qed

lemma question_written:
  assumes g: "going P p" and q: "qname q = dots ls" "list_all label_ok ls" "length (dots ls) \<le> 255" and room: "length P + length (dots ls) + 6 \<le> 1500"
  obtains xs p' where "write_question dup q p = Some p'" "going (P @ xs @ be16 (qtype q) @ be16 (qclass q)) p'"
    "readable (P @ xs) (length P) ls (length (P @ xs))" "length xs \<le> length (dots ls) + 2"
proof -
  obtain buf j t where p: "p = Going buf j t" using g by (auto simp: going_def)
  have "length P + length (dots ls) + 2 \<le> 1500" using room by simp
  from name_going [OF g [unfolded p] q(2,3) this, of dup] obtain xs buf' t' where
    n: "dnsname_to_labels dup buf j (dots ls) (Some t) = Some (int (length (P @ xs)), buf', Some t')"
    "going (P @ xs) (Going buf' (length (P @ xs)) t')" "readable (P @ xs) (length P) ls (length (P @ xs))" "length xs \<le> length (dots ls) + 2"
    by blast
  have "going ((P @ xs) @ be16 (qtype q)) (append_going (be16 (qtype q)) (Going buf' (length (P @ xs)) t'))"
    by (rule append_going_spec [OF n(2)]) (use n(4) room in simp)
  from append_going_spec [OF this, of "be16 (qclass q)"] n(4) room
  have "going (P @ xs @ be16 (qtype q) @ be16 (qclass q)) (append_going (be16 (qclass q)) (append_going (be16 (qtype q)) (Going buf' (length (P @ xs)) t')))"
    by simp
  moreover have "write_question dup q p = Some (append_going (be16 (qclass q)) (append_going (be16 (qtype q)) (Going buf' (length (P @ xs)) t')))"
    using n(1) by (simp add: write_question_def p q(1) nat_int_add)
  ultimately show ?thesis using that n(3,4) by blast
qed

text \<open>The item that \<open>evdns_server_request_add_reply\<close> makes of bytes.\<close>

definition data_item :: "bytes \<Rightarrow> UInt16 \<Rightarrow> UInt32 \<Rightarrow> bytes \<Rightarrow> server_reply_item" where
  "data_item name type ttl data = \<lparr>iname = name, itype = type, iclass = CLASS_INET, ittl = ttl, is_name = False,
     datalen = word_of_nat (length data), idata = Some data\<rparr>"

definition rr_head :: "UInt16 \<Rightarrow> UInt32 \<Rightarrow> bytes \<Rightarrow> bytes" where
  "rr_head type ttl data = be16 type @ be16 CLASS_INET @ be32_bytes ttl @ be16 (word_of_nat (length data))"

lemma data_written:
  assumes g: "going P p" and room: "length P + length data + 2 \<le> 1500"
  shows "\<exists>p'. write_data dup (data_item name type ttl data) p = Some p' \<and> going (P @ be16 (word_of_nat (length data)) @ data) p'"
proof -
  define dl where "dl = (word_of_nat (length data) :: UInt16)"
  have dl: "unat dl = length data" using room by (simp add: dl_def unat_of_nat)
  obtain buf j t where p: "p = Going buf j t" using g by (auto simp: going_def)
  have "going (P @ be16 dl) (append_going (be16 dl) p)" by (rule append_going_spec [OF g]) (use room in simp)
  then obtain b2 t2 where b2: "append_going (be16 dl) p = Going b2 (length (P @ be16 dl)) t2" "length b2 = 1500"
    "take (length (P @ be16 dl)) b2 = P @ be16 dl" "table_ok (P @ be16 dl) (Some t2)" by (auto simp: going_def)
  have "write_data dup (data_item name type ttl data) p =
      Some (Going (put_bytes (length (P @ be16 dl)) data b2) (length (P @ be16 dl @ data)) t2)"
    using b2(1,2) dl room by (simp add: write_data_def data_item_def dl_def p)
  moreover have "going (P @ be16 dl @ data) (Going (put_bytes (length (P @ be16 dl)) data b2) (length (P @ be16 dl @ data)) t2)"
    using put_bytes_simps [of "length (P @ be16 dl)" data b2] b2 room table_ok_append [OF b2(4), of data] by (simp add: going_def)
  ultimately show ?thesis by (simp add: dl_def)
qed

lemma item_written:
  assumes g: "going P p" and ls: "list_all label_ok ls" "length (dots ls) \<le> 255" and room: "length P + length (dots ls) + 12 + length data \<le> 1500"
  obtains xs p' where "write_item dup (data_item (dots ls) type ttl data) p = Some p'" "going (P @ xs @ rr_head type ttl data @ data) p'"
    "readable (P @ xs) (length P) ls (length (P @ xs))" "length xs \<le> length (dots ls) + 2"
proof -
  obtain buf j t where p: "p = Going buf j t" using g by (auto simp: going_def)
  have "length P + length (dots ls) + 2 \<le> 1500" using room by simp
  from name_going [OF g [unfolded p] ls this, of dup] obtain xs buf' t' where
    n: "dnsname_to_labels dup buf j (dots ls) (Some t) = Some (int (length (P @ xs)), buf', Some t')"
    "going (P @ xs) (Going buf' (length (P @ xs)) t')" "readable (P @ xs) (length P) ls (length (P @ xs))" "length xs \<le> length (dots ls) + 2"
    by blast
  define p1 where "p1 = append_going (be32_bytes ttl) (append_going (be16 CLASS_INET) (append_going (be16 type) (Going buf' (length (P @ xs)) t')))"
  have "going ((((P @ xs) @ be16 type) @ be16 CLASS_INET) @ be32_bytes ttl) p1"
    unfolding p1_def by (intro append_going_spec n(2)) (use n(4) room in simp_all)
  then have "\<exists>p'. write_data dup (data_item (dots ls) type ttl data) p1 = Some p' \<and>
      going (((((P @ xs) @ be16 type) @ be16 CLASS_INET) @ be32_bytes ttl) @ be16 (word_of_nat (length data)) @ data) p'"
    by (rule data_written) (use n(4) room in simp)
  then obtain p' where "write_data dup (data_item (dots ls) type ttl data) p1 = Some p'" "going (P @ xs @ rr_head type ttl data @ data) p'"
    by (auto simp: rr_head_def)
  moreover have "write_item dup (data_item (dots ls) type ttl data) p = write_data dup (data_item (dots ls) type ttl data) p1"
    using n(1) by (simp add: write_item_def p p1_def data_item_def nat_int_add)
  ultimately show ?thesis using that n(3,4) by simp
qed

lemma rr_read:
  assumes "stands p j (rr_head type ttl data)" "length data < 2 ^ 16"
  shows "get_rr p (length p) j = Some (type, CLASS_INET, ttl, length data, j + 10)"
proof -
  have s: "stands p j (concat (map be16 [type, CLASS_INET]))" "stands p (j + 4) (be32_bytes ttl)" "stands p (j + 8) (be16 (word_of_nat (length data)))"
    using assms(1) by (auto simp: rr_head_def stands_split add.commute eval_nat_numeral)
  have "get16s 2 p (length p) j = Some ([type, CLASS_INET], j + 4)"
    using get16s_stands [OF s(1)] by (simp add: numeral_2_eq_2 del: get16s.simps)
  moreover have "unat (word_of_nat (length data) :: UInt16) = length data" using assms(2) by (simp add: unat_of_nat)
  ultimately show ?thesis using GET32_stands [OF s(2)] GET16_stands [OF s(3)] by (simp add: get_rr_def add.commute)
qed

lemma pieces_cong: "stands p j data \<Longrightarrow> length data = sz * n \<Longrightarrow> pieces sz n (drop j p) = pieces sz n data"
proof -
  assume h: "stands p j data" "length data = sz * n"
  have "take sz (drop (sz * i) (drop j p)) = take sz (drop (sz * i) data)" if "i < n" for i
  proof -
    have "sz * i + sz \<le> length data" using that h(2) by (metis Suc_leI mult.commute mult_Suc mult_le_mono1 add.commute)
    then have "take sz (drop (sz * i) (take (length data) (drop j p))) = take sz (drop (sz * i) (drop j p))"
      by (simp add: drop_take min_def)
    then show ?thesis using h(1) by (simp add: stands_def)
  qed
  then show ?thesis by (simp add: pieces_def)
qed

lemma copy_addrs_read:
  assumes d: "stands p j data" "length data = sz * n" "0 < sz" and n: "n \<le> MAX_ADDRS" "raddrs rep = []"
  shows "\<exists>full. copy_addrs sz p (length p) j (length data) rep = Some (full, j + length data, rep\<lparr>raddrs := pieces sz n data, have_answer := True\<rparr>)"
  using d(1) assms pieces_cong [OF d(1,2)] by (auto simp: copy_addrs_def Let_def stands_def)

text \<open>Type and size of the addresses that a request asks for.\<close>

definition addr_type :: "UInt16 \<Rightarrow> nat \<Rightarrow> bool" where
  "addr_type type sz \<longleftrightarrow> type = TYPE_A \<and> sz = 4 \<or> type = TYPE_AAAA \<and> sz = 16"

lemma answers_read:
  assumes n: "readable p j ls e" and r: "stands p e (rr_head type ttl data)" "stands p (e + 10) data"
    and d: "addr_type type sz" "length data = sz * k" "k \<le> MAX_ADDRS" and req: "rq_type req = type"
  shows "\<exists>j'. read_answers dup p (length p) req 1 (j, \<lparr>rtype = type, have_answer = False, raddrs = [], rname = []\<rparr>, 0xffffffff, None)
    = Some (Inr (j', \<lparr>rtype = type, have_answer = True, raddrs = pieces sz k data, rname = []\<rparr>, ttl, None))"
proof -
  have name: "name_parse p (length p) j 256 = Some (Some (dots ls, e))" using readable_parse [OF n, of 256] by simp
  have len: "length data < 2 ^ 16" using d by (auto simp: addr_type_def MAX_ADDRS_def)
  note rr = rr_read [OF r(1) len]
  have sz: "0 < sz" using d by (auto simp: addr_type_def)
  obtain full where c: "copy_addrs sz p (length p) (e + 10) (length data) \<lparr>rtype = type, have_answer = False, raddrs = [], rname = []\<rparr>
      = Some (full, e + 10 + length data, \<lparr>rtype = type, have_answer = True, raddrs = pieces sz k data, rname = []\<rparr>)"
    using copy_addrs_read [OF r(2) d(2) sz d(3), of "\<lparr>rtype = type, have_answer = False, raddrs = [], rname = []\<rparr>"] by auto
  have "(0xffffffff :: UInt32) = - 1" by simp
  then have "ttl \<le> 0xffffffff" using word_n1_ge [of ttl] by (simp only:)
  then have "min 0xffffffff ttl = ttl" by (rule min_absorb2)
  then show ?thesis using name rr c d(1) req by (auto simp: addr_type_def)
qed

lemma question_tested:
  assumes "question_at p ls type class e" "question_at (take r q) ls type' class' e'" "rq_request req = q" "request_len req = r" "r \<le> length q"
  shows "test_questions randomize p (length p) req 1 12 False = Some (Some (True, e + 4))"
proof -
  have "name_parse p (length p) 12 256 = Some (Some (dots ls, e))" "name_parse q r 12 256 = Some (Some (dots ls, e'))"
    using readable_parse [of p 12 ls e 256] readable_parse_array [of r q 12 ls e' 256] assms by (auto simp: question_at_def)
  moreover have "e + 4 \<le> length p" using assms(1) by (simp add: question_at_def stands_def)
  ultimately show ?thesis using assms(3,4) by (simp add: TEST_NAME_def)
qed

text \<open>The response with one question and one item that carries addresses.\<close>

lemma response_written:
  assumes q: "questions req = [\<lparr>qname = dots ls, qtype = type, qclass = CLASS_INET\<rparr>]" and a: "answer req = [data_item (dots ls) type ttl data]" "authority req = []" "additional req = []"
    and ls: "list_all label_ok ls" "length (dots ls) \<le> 255" and room: "2 * length (dots ls) + length data + 30 \<le> 512" and b: "length buf0 = 1500"
  obtains p e1 e2 where "evdns_server_request_format_response True dup buf0 req 0 = Some (0, req\<lparr>answer := [], response := Some p\<rparr>)"
    "stands p 0 (dns_header (sr_trans_id req) (sr_flags req OR 0x8000) 1 1 0 0)" "question_at p ls type CLASS_INET e1" "readable p (e1 + 4) ls e2"
    "stands p e2 (rr_head type ttl data)" "stands p (e2 + 10) data"
proof -
  define H where "H = dns_header (sr_trans_id req) (sr_flags req OR 0x8000) 1 1 0 0"
  define p0 where "p0 = fold (\<lambda>w. append_going (be16 w)) [sr_trans_id req, sr_flags req OR (0x8000 OR word_of_int 0), word_of_nat (length (questions req)),
                word_of_nat (length (answer req)), word_of_nat (length (authority req)), word_of_nat (length (additional req))] (Going buf0 0 [])"
  have "going [] (Going buf0 0 [])" using b by (simp add: going_def)
  from append_all_going [OF this, of "[sr_trans_id req, sr_flags req OR (0x8000 OR word_of_int 0), 1, 1, 0, 0]"]
  have g0: "going H p0" by (simp add: p0_def q a H_def dns_header_def)
  have lH: "length H = 12" by (simp add: H_def)
  obtain xs p1 where p1: "write_question dup \<lparr>qname = dots ls, qtype = type, qclass = CLASS_INET\<rparr> p0 = Some p1"
    "going (H @ xs @ be16 type @ be16 CLASS_INET) p1" "readable (H @ xs) (length H) ls (length (H @ xs))" "length xs \<le> length (dots ls) + 2"
    by (rule question_written [OF g0, of "\<lparr>qname = dots ls, qtype = type, qclass = CLASS_INET\<rparr>" ls dup]) (use ls room lH in auto)
  define P where "P = H @ xs @ be16 type @ be16 CLASS_INET"
  have lP: "length P = length (H @ xs) + 4" "length P \<le> length (dots ls) + 18" using p1(4) lH by (simp_all add: P_def)
  obtain ys p2 where p2: "write_item dup (data_item (dots ls) type ttl data) p1 = Some p2" "going (P @ ys @ rr_head type ttl data @ data) p2"
    "readable (P @ ys) (length P) ls (length (P @ ys))" "length ys \<le> length (dots ls) + 2"
    by (rule item_written [OF p1(2) [folded P_def] ls, of data dup type ttl]) (use room lP in auto)
  define p where "p = P @ ys @ rr_head type ttl data @ data"
  have "length p \<le> 512" using lP p2(4) room by (simp add: p_def rr_head_def)
  then have "finish_response True req p2 = (0, req\<lparr>answer := [], response := Some p\<rparr>)"
    using p2(2) a by (auto simp: finish_response_def going_def p_def [symmetric] Let_def)
  then have f: "evdns_server_request_format_response True dup buf0 req 0 = Some (0, req\<lparr>answer := [], response := Some p\<rparr>)"
    using p1(1) p2(1) unfolding evdns_server_request_format_response_def p0_def by (simp add: q a Let_def)
  have "question_at p ls type CLASS_INET (length (H @ xs))"
    using readable_append [OF p1(3), of "(be16 type @ be16 CLASS_INET) @ ys @ rr_head type ttl data @ data"]
      stands_here [of "H @ xs" "be16 type @ be16 CLASS_INET" "ys @ rr_head type ttl data @ data"]
    by (simp add: question_at_def p_def P_def lH)
  moreover have "readable p (length (H @ xs) + 4) ls (length (P @ ys))"
    using readable_append [OF p2(3), of "rr_head type ttl data @ data"] lP by (simp add: p_def)
  moreover have "stands p (length (P @ ys)) (rr_head type ttl data)" "stands p (length (P @ ys) + 10) data"
    using stands_here [of "P @ ys" "rr_head type ttl data" data] stands_here [of "P @ ys @ rr_head type ttl data" data "[]"]
    by (simp_all add: p_def rr_head_def add.assoc)
  moreover have "stands p 0 H" using stands_here [of "[]" H] by (simp add: p_def P_def)
  ultimately show ?thesis using that [OF f] by (simp add: H_def)
qed



section \<open>Arbitrary packets\<close>

lemma name_parse_safe: "len + 63 \<le> length packet \<Longrightarrow> \<exists>y. name_parse packet len j n = Some y"
  using name_loop_safe [of len packet n j None 0 "[]"] by (simp add: name_parse_def)

lemma read_questions_safe: "len + 63 \<le> length packet \<Longrightarrow> \<exists>y. read_questions mm packet len n j = Some y"
proof (induction n arbitrary: j)
  case (Suc n)
  then obtain y where "name_parse packet len j 256 = Some y" using name_parse_safe by blast
  then show ?case using Suc by (auto split: option.splits prod.splits)
qed auto

lemma test_questions_safe:
  assumes "len + 63 \<le> length packet" "request_len req + 63 \<le> length (rq_request req)"
  shows "\<exists>y. test_questions randomize packet len req n j m = Some y"
proof (induction n arbitrary: j m)
  case (Suc n)
  obtain y z where "name_parse packet len j 256 = Some y" "name_parse (rq_request req) (request_len req) j 256 = Some z"
    using name_parse_safe assms by blast
  then show ?case using Suc by (auto simp: TEST_NAME_def split: option.splits prod.splits)
qed auto

lemma read_answers_safe: "len + 63 \<le> length packet \<Longrightarrow> \<exists>y. read_answers dup packet len req n s = Some y"
proof (induction n arbitrary: s)
  case (Suc n)
  obtain j rep ttl_r cname where s: "s = (j, rep, ttl_r, cname)" by (cases s)
  obtain f where f: "\<And>j n. name_parse packet len j n = Some (f j n)" using name_parse_safe [OF Suc.prems] by metis
  show ?case using Suc.IH [OF Suc.prems] unfolding s by (auto simp: f split: option.splits prod.splits)
qed auto

lemma read_authority_safe: "len + 63 \<le> length packet \<Longrightarrow> \<exists>y. read_authority packet len n j ttl = Some y"
proof (induction n arbitrary: j ttl)
  case (Suc n)
  obtain f where f: "\<And>j n. name_parse packet len j n = Some (f j n)" using name_parse_safe [OF Suc.prems] by metis
  show ?case using Suc.IH [OF Suc.prems] by (auto simp: f split: option.splits prod.splits)
qed auto

text \<open>
  C25. Whatever bytes arrive, reading a request and reading a reply return, and they stay inside their arrays if 63 bytes behind the packet (and behind
  the request a reply is compared with) belong to the array. A request is never answered with ``not implemented'', as the flags have lost the
  operation code before they are tested.
\<close>

theorem dns_parsers_safe:
  assumes "len + 63 \<le> length packet" "list_all (\<lambda>r. request_len r + 63 \<le> length (rq_request r)) reqs"
  shows "(\<exists>x. request_parse mm a b packet len = Some x \<and> (\<forall>r. x \<noteq> Not_implemented r)) \<and> (\<exists>y. reply_parse dup randomize reqs packet len = Some y)"
proof (intro conjI)
  obtain h where h: "\<And>n j. read_questions mm packet len n j = Some (h n j)" using read_questions_safe [OF assms(1)] by metis
  have "(w AND 0x0110) AND 0x7800 = (0 :: UInt16)" for w by (simp add: and.assoc)
  then show "\<exists>x. request_parse mm a b packet len = Some x \<and> (\<forall>r. x \<noteq> Not_implemented r)"
    by (auto simp: request_parse_def Let_def h split: option.splits prod.splits)
  have req: "request_len r + 63 \<le> length (rq_request r)" if "request_find_from_trans_id reqs i = Some r" for i r
    using that assms(2) by (auto simp: request_find_from_trans_id_def find_Some_iff list_all_length)
  obtain f where f: "\<And>r n s. read_answers dup packet len r n s = Some (f r n s)" using read_answers_safe [OF assms(1)] by metis
  obtain g where g: "\<And>n j t. read_authority packet len n j t = Some (g n j t)" using read_authority_safe [OF assms(1)] by metis
  show "\<exists>y. reply_parse dup randomize reqs packet len = Some y"
  proof (cases "get16s 6 packet len 0")
    case (Some wj)
    obtain ws j where wj: "wj = (ws, j)" by (cases wj)
    show ?thesis
    proof (cases "request_find_from_trans_id reqs (ws ! 0)")
      case (Some r)
      obtain z where z: "test_questions randomize packet len r (unat (ws ! 2)) j False = Some z"
        using test_questions_safe [OF assms(1) req [OF Some]] by blast
      show ?thesis unfolding reply_parse_def \<open>get16s 6 packet len 0 = Some wj\<close> wj option.case prod.case Some z f g Let_def
        by (auto split: option.splits prod.splits bool.splits sum.splits)
    qed (simp add: reply_parse_def \<open>get16s 6 packet len 0 = Some wj\<close> wj)
  qed (simp add: reply_parse_def)
qed

theorem dns_parsers_safe_witness:
  "(2 :: nat) + 63 \<le> length (replicate 65 7) \<and> (\<exists>y. reply_parse (\<lambda>_. True) False [] (replicate 65 7) 2 = Some y)"
  using dns_parsers_safe [of 2 "replicate 65 7" "[]"] by simp

end
