(* ===== verification/Ev_Util.thy ===== *)
theory Ev_Util
  imports Sys_Text Net_Socket
begin

text \<open>
  The text side of \<open>event/evutil.c\<close>: the character tables, comparison without regard to case, addresses as
  text (\<open>evutil_inet_ntop\<close>, \<open>evutil_inet_pton\<close>), addresses with ports, comparison of addresses and the small
  conversions. The configuration of the repository defines neither \<open>_EVENT_HAVE_INET_NTOP\<close> nor
  \<open>_EVENT_HAVE_INET_PTON\<close>, so the library's own code is used. A C string is a list of characters without
  its terminator; a pointer into it is the rest of the string from there.
\<close>

text \<open>
  A result of code that may refuse its input, or whose behaviour on it the C standard leaves undefined (a
  number that does not fit an \<open>int\<close>, an uninitialised variable that is read).
\<close>

datatype 'a checked = Accepted 'a | Rejected | Undefined

fun checked_bind :: "'a checked \<Rightarrow> ('a \<Rightarrow> 'b checked) \<Rightarrow> 'b checked" where
  "checked_bind (Accepted x) f = f x"
| "checked_bind Rejected f = Rejected"
| "checked_bind Undefined f = Undefined"

lemma checked_bind_Accepted_iff: "checked_bind r f = Accepted y \<longleftrightarrow> (\<exists>x. r = Accepted x \<and> f x = Accepted y)"
  by (cases r) auto

section \<open>Characters\<close>

definition ctype_table :: "UInt32 list \<Rightarrow> char \<Rightarrow> bool" where
  "ctype_table tbl c = (let u = of_char c :: nat in bit (tbl ! (u div 32 mod 8)) (u mod 32))"

definition EVUTIL_ISALPHA :: "char \<Rightarrow> bool" where
  "EVUTIL_ISALPHA = ctype_table [0, 0, 0x7fffffe, 0x7fffffe, 0, 0, 0, 0]"

definition EVUTIL_ISALNUM :: "char \<Rightarrow> bool" where
  "EVUTIL_ISALNUM = ctype_table [0, 0x3ff0000, 0x7fffffe, 0x7fffffe, 0, 0, 0, 0]"

definition EVUTIL_ISSPACE :: "char \<Rightarrow> bool" where
  "EVUTIL_ISSPACE = ctype_table [0x3e00, 0x1, 0, 0, 0, 0, 0, 0]"

definition EVUTIL_ISXDIGIT :: "char \<Rightarrow> bool" where
  "EVUTIL_ISXDIGIT = ctype_table [0, 0x3ff0000, 0x7e, 0x7e, 0, 0, 0, 0]"

definition EVUTIL_ISDIGIT :: "char \<Rightarrow> bool" where
  "EVUTIL_ISDIGIT = ctype_table [0, 0x3ff0000, 0, 0, 0, 0, 0, 0]"

definition EVUTIL_ISPRINT :: "char \<Rightarrow> bool" where
  "EVUTIL_ISPRINT = ctype_table [0, 0xffffffff, 0xffffffff, 0x7fffffff, 0, 0, 0, 0]"

definition EVUTIL_ISUPPER :: "char \<Rightarrow> bool" where
  "EVUTIL_ISUPPER = ctype_table [0, 0, 0x7fffffe, 0, 0, 0, 0, 0]"

definition EVUTIL_ISLOWER :: "char \<Rightarrow> bool" where
  "EVUTIL_ISLOWER = ctype_table [0, 0, 0, 0x7fffffe, 0, 0, 0, 0]"

text \<open>The tables of 256 entries, whose entries are the positions but for the letters of one case.\<close>

definition EVUTIL_TOLOWER_TABLE :: "nat list" where
  "EVUTIL_TOLOWER_TABLE = [0..<65] @ [97..<123] @ [91..<256]"

definition EVUTIL_TOUPPER_TABLE :: "nat list" where
  "EVUTIL_TOUPPER_TABLE = [0..<97] @ [65..<91] @ [123..<256]"

definition EVUTIL_TOLOWER :: "char \<Rightarrow> char" where
  "EVUTIL_TOLOWER c = char_of (EVUTIL_TOLOWER_TABLE ! of_char c)"

definition EVUTIL_TOUPPER :: "char \<Rightarrow> char" where
  "EVUTIL_TOUPPER c = char_of (EVUTIL_TOUPPER_TABLE ! of_char c)"

definition evutil_hex_char_to_int :: "char \<Rightarrow> int" where
  "evutil_hex_char_to_int c =
    (let n = of_char c :: int in
     if 48 \<le> n \<and> n \<le> 57 then n - 48 else if 65 \<le> n \<and> n \<le> 70 then n - 55 else if 97 \<le> n \<and> n \<le> 102 then n - 87 else - 1)"

text \<open>The character a pointer points to; \<open>char\<close> is a signed type.\<close>

definition at0 :: "string \<Rightarrow> char" where
  "at0 s = (case s of [] \<Rightarrow> CHR 0x00 | c # _ \<Rightarrow> c)"

definition schar :: "char \<Rightarrow> int" where
  "schar c = sint (of_char c :: UInt8)"

lemma tolower_at0_Nil: "EVUTIL_TOLOWER (at0 s) \<noteq> CHR 0x00 \<Longrightarrow> s \<noteq> []"
  by (auto simp: EVUTIL_TOLOWER_def at0_def EVUTIL_TOLOWER_TABLE_def nth_append char_of_def)

function evutil_ascii_strcasecmp :: "string \<Rightarrow> string \<Rightarrow> int" where
  "evutil_ascii_strcasecmp s1 s2 =
    (let c1 = EVUTIL_TOLOWER (at0 s1); c2 = EVUTIL_TOLOWER (at0 s2)
     in if schar c1 < schar c2 then - 1 else if schar c2 < schar c1 then 1
        else if c1 = CHR 0x00 then 0 else evutil_ascii_strcasecmp (tl s1) (tl s2))"
  by pat_completeness auto
termination by (relation "measure (\<lambda>(s1, s2). length s1)") (auto simp: tolower_at0_Nil)

function evutil_ascii_strncasecmp :: "string \<Rightarrow> string \<Rightarrow> nat \<Rightarrow> int" where
  "evutil_ascii_strncasecmp s1 s2 n =
    (if n = 0 then 0
     else let c1 = EVUTIL_TOLOWER (at0 s1); c2 = EVUTIL_TOLOWER (at0 s2)
          in if schar c1 < schar c2 then - 1 else if schar c2 < schar c1 then 1
             else if c1 = CHR 0x00 then 0 else evutil_ascii_strncasecmp (tl s1) (tl s2) (n - 1))"
  by pat_completeness auto
termination by (relation "measure (\<lambda>(s1, s2, n). n)") auto

declare evutil_ascii_strcasecmp.simps [simp del] evutil_ascii_strncasecmp.simps [simp del]

section \<open>Addresses as text\<close>

text \<open>The conversions \<open>%d\<close> of \<open>sscanf\<close>, \<open>atoi\<close> and \<open>strtol\<close> in radix 16 at a digit (with the number of characters read).\<close>

definition fits_int :: "int \<Rightarrow> bool" where
  "fits_int v \<longleftrightarrow> - (2 ^ 31) \<le> v \<and> v < 2 ^ 31"

definition signed_value :: "bool \<times> nat \<Rightarrow> int" where
  "signed_value p = (if fst p then - int (snd p) else int (snd p))"

definition scan_d :: "string \<Rightarrow> (int \<times> string) checked" where
  "scan_d s =
    (let t = dropWhile is_space s;
         u = (if t \<noteq> [] \<and> (hd t = CHR ''-'' \<or> hd t = CHR ''+'') then tl t else t);
         v = signed_value (scan_number 10 s)
     in if u = [] \<or> \<not> digit_value (hd u) < 10 then Rejected
        else if fits_int v then Accepted (v, dropWhile (\<lambda>c. digit_value c < 10) u) else Undefined)"

definition scan_dot :: "string \<Rightarrow> string checked" where
  "scan_dot s = (case s of [] \<Rightarrow> Rejected | c # cs \<Rightarrow> if c = CHR ''.'' then Accepted cs else Rejected)"

text \<open>\<open>sscanf\<close> with the format \<open>%d.%d.%d.%d%c\<close> makes exactly four conversions.\<close>

definition sscanf_quad :: "string \<Rightarrow> (int \<times> int \<times> int \<times> int) checked" where
  "sscanf_quad s0 =
    checked_bind (scan_d s0) (\<lambda>(a, s1). checked_bind (scan_dot s1) (\<lambda>s2.
    checked_bind (scan_d s2) (\<lambda>(b, s3). checked_bind (scan_dot s3) (\<lambda>s4.
    checked_bind (scan_d s4) (\<lambda>(c, s5). checked_bind (scan_dot s5) (\<lambda>s6.
    checked_bind (scan_d s6) (\<lambda>(d, s7). if s7 = [] then Accepted (a, b, c, d) else Rejected)))))))"

definition is_byte :: "int \<Rightarrow> bool" where
  "is_byte v \<longleftrightarrow> 0 \<le> v \<and> v \<le> 255"

definition atoi :: "string \<Rightarrow> int checked" where
  "atoi s = (let v = signed_value (scan_number 10 s) in if fits_int v then Accepted v else Undefined)"

definition strtol16 :: "string \<Rightarrow> nat \<times> nat" where
  "strtol16 s =
    (let t = strip_0x 16 s
     in (digits_value 16 0 t, length s - length t + length (takeWhile (\<lambda>c. digit_value c < 16) t)))"

abbreviation print_d :: "nat \<Rightarrow> string" where
  "print_d n \<equiv> print_radix 10 n"

definition print_quad :: "bytes \<Rightarrow> string" where
  "print_quad bs = print_d (unat (bs ! 0)) @ ''.'' @ print_d (unat (bs ! 1)) @ ''.'' @ print_d (unat (bs ! 2)) @ ''.'' @ print_d (unat (bs ! 3))"

text \<open>IPv4: an address is \<open>s_addr\<close>, in network order. Shifting a byte to the top of an \<open>int\<close> wraps.\<close>

definition inet_ntop4 :: "UInt32 \<Rightarrow> nat \<Rightarrow> string option" where
  "inet_ntop4 s_addr len =
    (let a = ntohl s_addr;
         r = print_quad [ucast (drop_bit 24 a AND 0xff), ucast (drop_bit 16 a AND 0xff), ucast (drop_bit 8 a AND 0xff), ucast (a AND 0xff)]
     in if len \<le> length r then None else Some r)"

definition inet_pton4 :: "string \<Rightarrow> UInt32 checked" where
  "inet_pton4 src =
    checked_bind (sscanf_quad src) (\<lambda>(a, b, c, d).
      if is_byte a \<and> is_byte b \<and> is_byte c \<and> is_byte d
      then Accepted (htonl (push_bit 24 (word_of_int a) OR push_bit 16 (word_of_int b) OR push_bit 8 (word_of_int c) OR word_of_int d))
      else Rejected)"

text \<open>IPv6: an address is sixteen bytes.\<close>

definition addr_words :: "bytes \<Rightarrow> UInt16 list" where
  "addr_words addr = map (\<lambda>i. push_bit 8 (ucast (addr ! (2 * i))) + ucast (addr ! (2 * i + 1))) [0..<8]"

text \<open>The longest run of zero words: the first loop of \<open>evutil_inet_ntop\<close>.\<close>

definition zeros_after :: "UInt16 list \<Rightarrow> nat \<Rightarrow> nat" where
  "zeros_after words i = length (takeWhile (\<lambda>w. w = 0) (drop (Suc i) (take 8 words)))"

function longest_gap :: "UInt16 list \<Rightarrow> nat \<Rightarrow> int \<times> nat \<Rightarrow> int \<times> nat" where
  "longest_gap words i best =
    (if i < 8
     then if words ! i = 0
          then let curGapLen = Suc (zeros_after words i)
               in longest_gap words (i + curGapLen) (if snd best < curGapLen then (int i, curGapLen) else best)
          else longest_gap words (Suc i) best
     else best)"
  by pat_completeness auto
termination by (relation "measure (\<lambda>(words, i, best). 8 - i)") auto

definition longestGapPos :: "UInt16 list \<Rightarrow> int" where
  "longestGapPos words = (let (pos, len) = longest_gap words 0 (- 1, 0) in if len \<le> 1 then - 1 else pos)"

text \<open>The second loop, which writes the words from \<open>i\<close> on.\<close>

function print_words :: "UInt16 list \<Rightarrow> int \<Rightarrow> nat \<Rightarrow> string" where
  "print_words words pos i =
    (if i < 8
     then if words ! i = 0 \<and> pos = int i
          then (if i = 0 then '':'' else []) @ '':'' @ print_words words pos (Suc i + zeros_after words i)
          else print_radix 16 (unat (words ! i)) @ (if i \<noteq> 7 then '':'' else []) @ print_words words pos (Suc i)
     else [])"
  by pat_completeness auto
termination by (relation "measure (\<lambda>(words, pos, i). 8 - i)") auto

declare longest_gap.simps [simp del] print_words.simps [simp del]

definition is_ipv4_words :: "UInt16 list \<Rightarrow> bool" where
  "is_ipv4_words words \<longleftrightarrow> take 5 words = replicate 5 0 \<and>
    ((words ! 5 = 0 \<and> words ! 6 \<noteq> 0 \<and> words ! 7 \<noteq> 0) \<or> words ! 5 = 0xffff)"

definition inet6_text :: "bytes \<Rightarrow> string" where
  "inet6_text addr =
    (let words = addr_words addr
     in if is_ipv4_words words
        then if words ! 5 = 0 then ''::'' @ print_quad (drop 12 addr)
             else ''::'' @ print_radix 16 (unat (words ! 5)) @ '':'' @ print_quad (drop 12 addr)
        else print_words words (longestGapPos words) 0)"

definition strlcpy :: "nat \<Rightarrow> string \<Rightarrow> string" where
  "strlcpy len s = take (len - 1) s"

definition inet_ntop6 :: "bytes \<Rightarrow> nat \<Rightarrow> string option" where
  "inet_ntop6 addr len = (let buf = inet6_text addr in if len < length buf then None else Some (strlcpy len buf))"

text \<open>
  Parsing: the loop over the words. \<open>n\<close> is the distance from \<open>src\<close> to \<open>eow\<close>, \<open>None\<close> a word that has not been set.
\<close>

record pton6_state =
  word_no :: nat
  gapPos :: "nat option"
  pwords :: "UInt16 option list"
  setWords :: nat

definition set_word :: "nat \<Rightarrow> pton6_state \<Rightarrow> pton6_state" where
  "set_word r st =
    st\<lparr>word_no := Suc (word_no st), pwords := (pwords st)[word_no st := Some (word_of_nat r)], setWords := Suc (setWords st)\<rparr>"

function pton6_loop :: "string \<Rightarrow> int \<Rightarrow> pton6_state \<Rightarrow> pton6_state option" where
  "pton6_loop src n st =
    (if \<not> 0 < n then Some st
     else if 7 < word_no st then None
     else if EVUTIL_ISXDIGIT (at0 src)
     then let (r, k) = strtol16 src; next = drop k src
          in if 4 < k \<or> k = 0 \<or> 65536 < r then None
             else if at0 next \<noteq> CHR '':'' \<and> n - int k \<noteq> 0 then None
             else pton6_loop (drop 1 next) (n - int k - 1) (set_word r st)
     else if at0 src = CHR '':'' \<and> 0 < word_no st \<and> gapPos st = None
     then pton6_loop (drop 1 src) (n - 1) (st\<lparr>gapPos := Some (word_no st)\<rparr>)
     else if at0 src = CHR '':'' \<and> word_no st = 0 \<and> at0 (drop 1 src) = CHR '':'' \<and> gapPos st = None
     then pton6_loop (drop 2 src) (n - 2) (st\<lparr>gapPos := Some (word_no st)\<rparr>)
     else None)"
  by pat_completeness auto
termination by (relation "measure (\<lambda>(src, n, st). nat n)") auto

declare pton6_loop.simps [simp del]

text \<open>The end of the words: the digits in front of the first dot, where the numbers of an IPv4 address start.\<close>

definition end_of_words :: "string \<Rightarrow> nat" where
  "end_of_words src =
    (let p = takeWhile (\<lambda>c. c \<noteq> CHR ''.'') src in length p - length (takeWhile EVUTIL_ISDIGIT (rev p)))"

definition pton6_init :: pton6_state where
  "pton6_init = \<lparr>word_no = 0, gapPos = None, pwords = replicate 8 None, setWords = 0\<rparr>"

definition pton6_start :: "string \<Rightarrow> (nat \<times> pton6_state) checked" where
  "pton6_start src =
    (let eow = end_of_words src
     in if at0 src = CHR ''.'' then Rejected
        else if CHR ''.'' \<notin> set src then Accepted (length src, pton6_init)
        else checked_bind (sscanf_quad (drop eow src)) (\<lambda>(byte1, byte2, byte3, byte4).
          if is_byte byte1 \<and> is_byte byte2 \<and> is_byte byte3 \<and> is_byte byte4
          then Accepted (eow, pton6_init\<lparr>pwords := (pwords pton6_init)
                           [6 := Some (word_of_int (push_bit 8 byte1 OR byte2)), 7 := Some (word_of_int (push_bit 8 byte3 OR byte4))],
                         setWords := 2\<rparr>)
          else Rejected))"

text \<open>Opening the gap, with \<open>memmove\<close> and \<open>memset\<close>.\<close>

definition open_gap :: "nat \<Rightarrow> pton6_state \<Rightarrow> UInt16 option list" where
  "open_gap dots st =
    (case gapPos st of None \<Rightarrow> pwords st
     | Some g \<Rightarrow>
         let nToMove = setWords st - dots - g; gapLen = 8 - setWords st; w = pwords st;
             w' = take (g + gapLen) w @ take nToMove (drop g w) @ drop (g + gapLen + nToMove) w
         in take g w' @ replicate gapLen (Some 0) @ drop (g + gapLen) w')"

definition store_words :: "UInt16 option list \<Rightarrow> bytes checked" where
  "store_words words =
    (if None \<in> set words then Undefined
     else Accepted (concat (map (\<lambda>w. [ucast (drop_bit 8 (the w)), ucast (the w AND 0xff)]) words)))"

definition inet_pton6 :: "string \<Rightarrow> bytes checked" where
  "inet_pton6 src =
    checked_bind (pton6_start src) (\<lambda>(n, st0).
      case pton6_loop src (int n) st0 of None \<Rightarrow> Rejected
      | Some st \<Rightarrow>
          let dots = (if CHR ''.'' \<in> set src then 2 else 0)
          in if 8 < setWords st \<or> setWords st = 8 \<and> gapPos st \<noteq> None \<or> setWords st < 8 \<and> gapPos st = None then Rejected
             else if gapPos st \<noteq> None \<and> setWords st < dots + the (gapPos st) then Rejected
             else store_words (open_gap dots st))"

section \<open>Addresses with ports\<close>

datatype sockaddr =
  Sockaddr_in (s_addr: UInt32) (sa_port: UInt16)
| Sockaddr_in6 (s6_addr: bytes) (sa_port: UInt16)
| Sockaddr_other (other_family: int)

definition AF_INET6 :: int where "AF_INET6 = 23"
definition sizeof_sockaddr_in :: int where "sizeof_sockaddr_in = 16"
definition sizeof_sockaddr_in6 :: int where "sizeof_sockaddr_in6 = 28"

definition sa_family :: "sockaddr \<Rightarrow> int" where
  "sa_family sa = (case sa of Sockaddr_in _ _ \<Rightarrow> AF_INET | Sockaddr_in6 _ _ \<Rightarrow> AF_INET6 | Sockaddr_other f \<Rightarrow> f)"

text \<open>The address part, the port part if any, and whether it is an IPv6 address; \<open>None\<close> when the address is too long for \<open>buf\<close>.\<close>

definition split_addr_port :: "string \<Rightarrow> (string \<times> string option \<times> bool) option" where
  "split_addr_port s =
    (let cp = dropWhile (\<lambda>c. c \<noteq> CHR '':'') s
     in if at0 s = CHR ''[''
        then let addr = takeWhile (\<lambda>c. c \<noteq> CHR '']'') (tl s); cp = dropWhile (\<lambda>c. c \<noteq> CHR '']'') (tl s)
             in if cp = [] \<or> 127 < length addr then None
                else Some (addr, if at0 (tl cp) = CHR '':'' then Some (drop 2 cp) else None, True)
        else if cp \<noteq> [] \<and> CHR '':'' \<in> set (tl cp) then Some (s, None, True)
        else if cp \<noteq> []
        then let addr = takeWhile (\<lambda>c. c \<noteq> CHR '':'') s
             in if 127 < length addr then None else Some (addr, Some (tl cp), False)
        else Some (s, None, False))"

definition port_value :: "string option \<Rightarrow> int checked" where
  "port_value port_part =
    (case port_part of None \<Rightarrow> Accepted 0
     | Some p \<Rightarrow> checked_bind (atoi p) (\<lambda>port. if port \<le> 0 \<or> 65535 < port then Rejected else Accepted port))"

definition evutil_parse_sockaddr_port :: "string \<Rightarrow> int \<Rightarrow> (sockaddr \<times> int) checked" where
  "evutil_parse_sockaddr_port ip_as_string outlen =
    (case split_addr_port ip_as_string of None \<Rightarrow> Rejected
     | Some (addr_part, port_part, is_ipv6) \<Rightarrow>
         checked_bind (port_value port_part) (\<lambda>port.
           if is_ipv6
           then checked_bind (inet_pton6 addr_part) (\<lambda>a.
                  if outlen < sizeof_sockaddr_in6 then Rejected else Accepted (Sockaddr_in6 a (htons (word_of_int port)), sizeof_sockaddr_in6))
           else checked_bind (inet_pton4 addr_part) (\<lambda>a.
                  if outlen < sizeof_sockaddr_in then Rejected else Accepted (Sockaddr_in a (htons (word_of_int port)), sizeof_sockaddr_in))))"

text \<open>\<open>snprintf\<close> writes at most \<open>outlen\<close> characters including the terminator.\<close>

definition evutil_format_sockaddr_port :: "sockaddr \<Rightarrow> nat \<Rightarrow> string" where
  "evutil_format_sockaddr_port sa outlen =
    (let other = ''<addr with socktype '' @ (if sa_family sa < 0 then ''-'' else []) @ print_d (nat \<bar>sa_family sa\<bar>) @ ''>'' in
     strlcpy outlen
      (case sa of
         Sockaddr_in a p \<Rightarrow> (case inet_ntop4 a 128 of None \<Rightarrow> other | Some b \<Rightarrow> b @ '':'' @ print_d (unat (htons p)))
       | Sockaddr_in6 a p \<Rightarrow> (case inet_ntop6 a 128 of None \<Rightarrow> other | Some b \<Rightarrow> ''['' @ b @ '']:'' @ print_d (unat (htons p)))
       | Sockaddr_other f \<Rightarrow> other))"

text \<open>\<open>memcmp\<close> on the sixteen bytes, of which the sign is specified.\<close>

fun addr_memcmp :: "bytes \<Rightarrow> bytes \<Rightarrow> int" where
  "addr_memcmp (x # xs) (y # ys) = (if x = y then addr_memcmp xs ys else if x < y then - 1 else 1)"
| "addr_memcmp _ _ = 0"

definition evutil_sockaddr_cmp :: "sockaddr \<Rightarrow> sockaddr \<Rightarrow> bool \<Rightarrow> int" where
  "evutil_sockaddr_cmp sa1 sa2 include_port =
    (let r = sa_family sa1 - sa_family sa2 in
     if r \<noteq> 0 then r
     else if sa_family sa1 = AF_INET
     then if s_addr sa1 < s_addr sa2 then - 1 else if s_addr sa2 < s_addr sa1 then 1
          else if include_port then uint (sa_port sa1) - uint (sa_port sa2) else 0
     else if sa_family sa1 = AF_INET6
     then let c = addr_memcmp (s6_addr sa1) (s6_addr sa2)
          in if c \<noteq> 0 then c else if include_port then uint (sa_port sa1) - uint (sa_port sa2) else 0
     else 1)"

definition evutil_sockaddr_is_loopback :: "sockaddr \<Rightarrow> bool" where
  "evutil_sockaddr_is_loopback sa =
    (case sa of Sockaddr_in a _ \<Rightarrow> ntohl a AND 0xff000000 = 0x7f000000
     | Sockaddr_in6 a _ \<Rightarrow> a = replicate 15 0 @ [1]
     | Sockaddr_other _ \<Rightarrow> False)"

section \<open>Other conversions\<close>

text \<open>\<open>long\<close> has 64 bits, as in the other theories; \<open>None\<close> is an overflow, which is undefined.\<close>

definition LONG_MAX :: int where "LONG_MAX = 2 ^ 63 - 1"

definition long_ok :: "int \<Rightarrow> bool" where
  "long_ok v \<longleftrightarrow> - LONG_MAX - 1 \<le> v \<and> v \<le> LONG_MAX"

definition quot_c :: "int \<Rightarrow> int \<Rightarrow> int" where
  "quot_c a b = sgn a * sgn b * (\<bar>a\<bar> div \<bar>b\<bar>)"

definition evutil_tv_to_msec :: "int \<Rightarrow> int \<Rightarrow> int option" where
  "evutil_tv_to_msec tv_sec tv_usec =
    (if 1000000 < tv_usec \<or> (LONG_MAX - 999) div 1000 < tv_sec then Some (- 1)
     else let s = tv_sec * 1000; m = quot_c (tv_usec + 999) 1000
          in if long_ok s \<and> long_ok (tv_usec + 999) \<and> long_ok (s + m) then Some (s + m) else None)"

definition parse_numeric_servname :: "string \<Rightarrow> int" where
  "parse_numeric_servname s =
    (let t = dropWhile is_space s;
         u = (if t \<noteq> [] \<and> (hd t = CHR ''-'' \<or> hd t = CHR ''+'') then tl t else t);
         endptr = (if u \<noteq> [] \<and> digit_value (hd u) < 10 then dropWhile (\<lambda>c. digit_value c < 10) u else s);
         n = sint (ucast (strtoll s 10) :: Int32)
     in if 0 \<le> n \<and> n \<le> 65535 \<and> s \<noteq> [] \<and> endptr = [] then n else - 1)"

section \<open>Facts on characters\<close>

text \<open>The entries of the tables are runs of bits.\<close>

lemma table_runs:
  "bit (0x3ff0000 :: UInt32) n \<longleftrightarrow> 16 \<le> n \<and> n < 26" "bit (0x7fffffe :: UInt32) n \<longleftrightarrow> 1 \<le> n \<and> n < 27"
  "bit (0x7e :: UInt32) n \<longleftrightarrow> 1 \<le> n \<and> n < 7" "bit (0x3e00 :: UInt32) n \<longleftrightarrow> 9 \<le> n \<and> n < 14" "bit (1 :: UInt32) n \<longleftrightarrow> n = 0"
proof -
  have run: "bit (push_bit a (mask b) :: UInt32) n \<longleftrightarrow> a \<le> n \<and> n < a + b" if "a + b \<le> 32" for a b
    using that by (auto simp: bit_simps)
  have "0x3ff0000 = (push_bit 16 (mask 10) :: UInt32)" "0x7fffffe = (push_bit 1 (mask 26) :: UInt32)" "0x7e = (push_bit 1 (mask 6) :: UInt32)"
    "0x3e00 = (push_bit 9 (mask 5) :: UInt32)"
    by (simp_all add: mask_eq_exp_minus_1 push_bit_eq_mult)
  then show "bit (0x3ff0000 :: UInt32) n \<longleftrightarrow> 16 \<le> n \<and> n < 26" "bit (0x7fffffe :: UInt32) n \<longleftrightarrow> 1 \<le> n \<and> n < 27"
    "bit (0x7e :: UInt32) n \<longleftrightarrow> 1 \<le> n \<and> n < 7" "bit (0x3e00 :: UInt32) n \<longleftrightarrow> 9 \<le> n \<and> n < 14"
    using run [of 16 10] run [of 1 26] run [of 1 6] run [of 9 5] by simp_all
  show "bit (1 :: UInt32) n \<longleftrightarrow> n = 0" by (simp add: bit_1_iff)
qed

lemma ctype_table_iff:
  "ctype_table [w0, w1, w2, w3, 0, 0, 0, 0] c \<longleftrightarrow>
    (let u = of_char c in u < 32 \<and> bit w0 u \<or> 32 \<le> u \<and> u < 64 \<and> bit w1 (u - 32) \<or> 64 \<le> u \<and> u < 96 \<and> bit w2 (u - 64)
      \<or> 96 \<le> u \<and> u < 128 \<and> bit w3 (u - 96))"
proof -
  define u where "u = (of_char c :: nat)"
  have "u < 256" by (simp add: u_def)
  then consider "u < 32" | "32 \<le> u \<and> u < 64" | "64 \<le> u \<and> u < 96" | "96 \<le> u \<and> u < 128" | "128 \<le> u \<and> u < 160"
    | "160 \<le> u \<and> u < 192" | "192 \<le> u \<and> u < 224" | "224 \<le> u \<and> u < 256" by linarith
  moreover have "u div 32 = j \<and> u mod 32 = u - j * 32" if "j * 32 \<le> u \<and> u < j * 32 + 32" for j
  proof -
    have "u div 32 = j" using that by (auto intro: div_nat_eqI)
    then show ?thesis by (metis minus_div_mult_eq_mod)
  qed
  note d = this [of 0] this [of 1] this [of 2] this [of 3] this [of 4] this [of 5] this [of 6] this [of 7]
  ultimately show ?thesis
    unfolding ctype_table_def u_def [symmetric] Let_def
    by cases (use d in \<open>auto\<close>)
qed

lemma ISXDIGIT_iff: "EVUTIL_ISXDIGIT c \<longleftrightarrow> digit_value c < 16"
  unfolding EVUTIL_ISXDIGIT_def ctype_table_iff table_runs Let_def by (auto simp: digit_value_def Let_def)

lemma ISDIGIT_iff: "EVUTIL_ISDIGIT c \<longleftrightarrow> digit_value c < 10"
  unfolding EVUTIL_ISDIGIT_def ctype_table_iff table_runs Let_def by (auto simp: digit_value_def Let_def)

section \<open>Printing and scanning numbers\<close>

definition stops :: "nat \<Rightarrow> string \<Rightarrow> bool" where
  "stops radix s \<longleftrightarrow> s = [] \<or> \<not> digit_value (hd s) < radix"

lemma digits_value_stops: "stops radix s \<Longrightarrow> digits_value radix acc s = acc"
  by (cases s) (auto simp: stops_def)

lemma digits_value_print_stops:
  "2 \<le> radix \<Longrightarrow> radix \<le> 16 \<Longrightarrow> stops radix s \<Longrightarrow> digits_value radix 0 (print_radix radix n @ s) = n"
  using digits_value_append [of "print_radix radix n" radix 0 s] print_radix_digits [of radix _ n]
  by (simp add: digits_value_print digits_value_stops)

lemma span_print:
  assumes "2 \<le> radix" "radix \<le> 16" "stops radix s"
  shows "takeWhile (\<lambda>c. digit_value c < radix) (print_radix radix n @ s) = print_radix radix n"
    and "dropWhile (\<lambda>c. digit_value c < radix) (print_radix radix n @ s) = s"
proof -
  have p: "digit_value c < radix" if "c \<in> set (print_radix radix n)" for c using print_radix_digits [OF assms(1,2) that] .
  have q: "takeWhile (\<lambda>c. digit_value c < radix) s = [] \<and> dropWhile (\<lambda>c. digit_value c < radix) s = s"
    using assms(3) by (cases s) (auto simp: stops_def)
  show "takeWhile (\<lambda>c. digit_value c < radix) (print_radix radix n @ s) = print_radix radix n"
    using p q by (simp add: takeWhile_append)
  show "dropWhile (\<lambda>c. digit_value c < radix) (print_radix radix n @ s) = s"
    using p q by (simp add: dropWhile_append)
qed

lemma print_radix_Cons:
  "2 \<le> radix \<Longrightarrow> \<exists>d ds. print_radix radix n = digit_char d # ds \<and> d < radix"
proof (cases "n = 0")
  case True
  then show "2 \<le> radix \<Longrightarrow> ?thesis" by (auto simp: print_radix.simps intro: exI [of _ 0])
next
  case False
  then show "2 \<le> radix \<Longrightarrow> ?thesis" using print_radix_hd [of radix n] by auto
qed

lemma scan_number_print:
  assumes "stops 10 s"
  shows "scan_number 10 (print_d n @ s) = (False, n)"
proof -
  obtain d ds where p: "print_d n = digit_char d # ds" "d < 10" using print_radix_Cons [of 10 n] by auto
  moreover have "\<not> is_space (digit_char d)" "digit_char d \<noteq> CHR ''-''" "digit_char d \<noteq> CHR ''+''"
    using digit_char_plain [of d] p(2) by simp_all
  moreover have "digits_value 10 0 (print_d n @ s) = n" using digits_value_print_stops [of 10 s n] assms by simp
  ultimately show ?thesis by (simp add: scan_number_def strip_0x_def)
qed

lemma scan_d_print:
  assumes "stops 10 s" "n < 2 ^ 31"
  shows "scan_d (print_d n @ s) = Accepted (int n, s)"
proof -
  obtain d ds where p: "print_d n = digit_char d # ds" "d < 10" using print_radix_Cons [of 10 n] by auto
  have "dropWhile (\<lambda>c. digit_value c < 10) (print_d n @ s) = s" using span_print(2) [of 10 s n] assms(1) by simp
  then have "dropWhile (\<lambda>c. digit_value c < 10) (digit_char d # ds @ s) = s" using p by simp
  moreover have "\<not> is_space (digit_char d)" "digit_char d \<noteq> CHR ''-''" "digit_char d \<noteq> CHR ''+''" "digit_value (digit_char d) < 10"
    using digit_char_plain [of d] digit_value_char [of d] p(2) by simp_all
  ultimately show ?thesis
    using scan_number_print [OF assms(1), of n] assms(2)
    by (simp add: scan_d_def p(1) signed_value_def fits_int_def Let_def)
qed

lemma scan_dot_dot [simp]: "scan_dot (CHR ''.'' # s) = Accepted s"
  by (simp add: scan_dot_def)

lemma stops_simps [simp]: "stops 10 []" "stops 16 []" "stops 10 (CHR ''.'' # s)" "stops 16 (CHR '':'' # s)"
  by (simp_all add: stops_def digit_value_def)

lemma scan_quad_print: "sscanf_quad (print_quad bs) =
    Accepted (uint (bs ! 0), uint (bs ! 1), uint (bs ! 2), uint (bs ! 3))"
proof -
  have b: "unat (b :: UInt8) < 2 ^ 31" for b using unat_lt_exp [of b] by simp
  have "scan_d (print_d (unat (bs ! 3))) = Accepted (int (unat (bs ! 3)), [])"
    using scan_d_print [of "[]" "unat (bs ! 3)"] b by simp
  then show ?thesis using b by (simp add: sscanf_quad_def print_quad_def scan_d_print)
qed

lemma is_byte_uint [simp]: "is_byte (uint (b :: UInt8))"
  using uint_lt2p [of b] by (simp add: is_byte_def)

lemma bytes_of_word:
  "push_bit 24 (ucast (ucast (drop_bit 24 a AND 0xff) :: UInt8)) OR push_bit 16 (ucast (ucast (drop_bit 16 a AND 0xff) :: UInt8)) OR
   push_bit 8 (ucast (ucast (drop_bit 8 a AND 0xff) :: UInt8)) OR ucast (ucast (a AND 0xff) :: UInt8) = (a :: UInt32)"
proof -
  have m: "(0xff :: UInt32) = mask 8" by (simp add: mask_eq_exp_minus_1)
  show ?thesis unfolding m
  proof (rule bit_word_eqI, goal_cases)
    case (1 n)
    then consider "n < 8" | "8 \<le> n" "n < 16" | "16 \<le> n" "n < 24" | "24 \<le> n" "n < 32" by fastforce
    then show ?case by cases (auto simp: bit_simps)
  qed
qed

lemma htonl_ntohl [simp]: "htonl (ntohl a) = a" using ntohl_htonl by (simp add: htonl_def ntohl_def)

lemma inet4_roundtrip:
  assumes "inet_ntop4 a len = Some s"
  shows "inet_pton4 s = Accepted a"
proof -
  have w: "(word_of_int (uint (b :: UInt8)) :: UInt32) = ucast b" for b by simp
  have "inet_pton4 s = Accepted (htonl (ntohl a))"
    using assms bytes_of_word [of "ntohl a"]
    by (auto simp: inet_ntop4_def Let_def inet_pton4_def scan_quad_print w simp del: htonl_ntohl split: if_splits)
  then show ?thesis by simp
qed

section \<open>IPv6 addresses round trip\<close>

abbreviation hex :: "UInt16 \<Rightarrow> string" where
  "hex w \<equiv> print_radix 16 (unat w)"

lemma length_print_radix: "2 \<le> radix \<Longrightarrow> n < radix ^ Suc k \<Longrightarrow> length (print_radix radix n) \<le> Suc k"
proof (induction k arbitrary: n)
  case 0
  then show ?case by (simp add: print_radix.simps)
next
  case (Suc k)
  have "n div radix < radix ^ Suc k" using Suc.prems by (simp add: less_mult_imp_div_less mult.commute)
  then show ?case using Suc.IH [of "n div radix"] Suc.prems(1) by (subst print_radix.simps) auto
qed

lemma length_hex: "0 < length (hex w)" "length (hex w) \<le> 4"
  using print_radix_Cons [of 16 "unat w"] length_print_radix [of 16 "unat w" 3] unat_lt_exp [of w] by auto

lemma strtol16_hex:
  assumes "s = [] \<or> hd s = CHR '':''"
  shows "strtol16 (hex w @ s) = (unat w, length (hex w))"
proof -
  have st: "stops 16 s" using assms by (auto simp: stops_def digit_value_def)
  have "strip_0x 16 (hex w @ s) = hex w @ s"
  proof (rule ccontr)
    assume "strip_0x 16 (hex w @ s) \<noteq> hex w @ s"
    then have x: "(hex w @ s) ! 1 = CHR ''x'' \<or> (hex w @ s) ! 1 = CHR ''X''" "2 < length (hex w @ s)" by (auto simp: strip_0x_def split: if_splits)
    show False
    proof (cases "1 < length (hex w)")
      case True
      then have "digit_value ((hex w @ s) ! 1) < 16" using print_radix_digits [of 16 "hex w ! 1" "unat w"] by (simp add: nth_append)
      then show False using x(1) by (auto simp: digit_value_def)
    next
      case False
      then have "length (hex w) = 1" using length_hex(1) [of w] by linarith
      then have "(hex w @ s) ! 1 = hd s" "s \<noteq> []" using x(2) by (cases s, auto simp: nth_append)+
      then show False using x(1) assms by auto
    qed
  qed
  then show ?thesis
    using span_print(1) [of 16 s "unat w"] digits_value_print_stops [of 16 s "unat w"] st by (simp add: strtol16_def)
qed

lemma hex_xdigit: "EVUTIL_ISXDIGIT (at0 (hex w @ s))"
  using print_radix_Cons [of 16 "unat w"] by (auto simp: at0_def ISXDIGIT_iff digit_value_char)

lemma pton6_word:
  assumes "word_no st \<le> 7" "0 < n"
  shows "pton6_loop (hex w @ CHR '':'' # s) n st = pton6_loop s (n - int (length (hex w)) - 1) (set_word (unat w) st)"
  using assms hex_xdigit [of w "CHR '':'' # s"] strtol16_hex [of "CHR '':'' # s" w] length_hex [of w] unat_lt_exp [of w]
  by (subst pton6_loop.simps) (simp add: at0_def Let_def)

lemma pton6_last_word:
  assumes "word_no st \<le> 7"
  shows "pton6_loop (hex w) (int (length (hex w))) st = Some (set_word (unat w) st)"
  using assms hex_xdigit [of w "[]"] strtol16_hex [of "[]" w] length_hex [of w] unat_lt_exp [of w]
  by (subst pton6_loop.simps) (simp add: Let_def pton6_loop.simps [of _ "-1"])

definition set_words :: "UInt16 list \<Rightarrow> pton6_state \<Rightarrow> pton6_state" where
  "set_words ws st = fold (\<lambda>w. set_word (unat w)) ws st"

lemma set_words_simps [simp]: "set_words [] st = st" "set_words (w # ws) st = set_words ws (set_word (unat w) st)"
  by (simp_all add: set_words_def)

lemma set_word_fields [simp]:
  "word_no (set_word r st) = Suc (word_no st)" "gapPos (set_word r st) = gapPos st" "setWords (set_word r st) = Suc (setWords st)"
  by (simp_all add: set_word_def)

lemma set_words_fields [simp]:
  "word_no (set_words ws st) = word_no st + length ws" "gapPos (set_words ws st) = gapPos st"
  "setWords (set_words ws st) = setWords st + length ws"
  by (induction ws arbitrary: st) auto

lemma set_words_pwords:
  "word_no st + length ws \<le> length (pwords st) \<Longrightarrow>
    pwords (set_words ws st) = take (word_no st) (pwords st) @ map Some ws @ drop (word_no st + length ws) (pwords st)"
proof (induction ws arbitrary: st)
  case (Cons w ws)
  have "pwords (set_word (unat w) st) = take (word_no st) (pwords st) @ Some w # drop (Suc (word_no st)) (pwords st)"
    using Cons.prems by (simp add: set_word_def upd_conv_take_nth_drop)
  then show ?case using Cons by (simp add: take_append drop_append add.commute)
qed simp

definition coloned :: "UInt16 list \<Rightarrow> string" where
  "coloned ws = concat (map (\<lambda>w. hex w @ '':'') ws)"

fun joined :: "UInt16 list \<Rightarrow> string" where
  "joined [] = []"
| "joined [w] = hex w"
| "joined (w # v # ws) = hex w @ '':'' @ joined (v # ws)"

lemma joined_coloned: "ws \<noteq> [] \<Longrightarrow> joined ws = coloned (butlast ws) @ hex (last ws)"
  by (induction ws rule: joined.induct) (auto simp: coloned_def)

lemma pton6_coloned:
  assumes "word_no st + length ws \<le> 8" "0 \<le> m"
  shows "pton6_loop (coloned ws @ s) (int (length (coloned ws)) + m) st = pton6_loop s m (set_words ws st)"
  using assms
proof (induction ws arbitrary: st)
  case Nil
  then show ?case by (simp add: coloned_def)
next
  case (Cons w ws)
  have "pton6_loop (coloned (w # ws) @ s) (int (length (coloned (w # ws))) + m) st =
      pton6_loop (hex w @ CHR '':'' # coloned ws @ s) (int (length (hex w)) + 1 + int (length (coloned ws)) + m) st"
    by (simp add: coloned_def ac_simps)
  also have "\<dots> = pton6_loop (coloned ws @ s) (int (length (coloned ws)) + m) (set_word (unat w) st)"
    using Cons.prems pton6_word [of st "int (length (hex w)) + 1 + int (length (coloned ws)) + m" w "coloned ws @ s"] by simp
  finally show ?case using Cons by simp
qed

lemma pton6_joined:
  assumes "word_no st + length ws \<le> 8"
  shows "pton6_loop (joined ws) (int (length (joined ws))) st = Some (set_words ws st)"
proof (cases "ws = []")
  case True
  then show ?thesis by (simp add: pton6_loop.simps)
next
  case False
  then have "set_word (unat (last ws)) (set_words (butlast ws) st) = set_words ws st"
    by (cases ws rule: rev_cases) (simp_all add: set_words_def)
  moreover have "word_no (set_words (butlast ws) st) \<le> 7" using assms False by (cases ws rule: rev_cases) auto
  ultimately show ?thesis
    using False assms pton6_coloned [of st "butlast ws" "int (length (hex (last ws)))" "hex (last ws)"] pton6_last_word [of "set_words (butlast ws) st" "last ws"]
    by (cases ws rule: rev_cases) (simp_all add: joined_coloned)
qed

lemma print_words_joined:
  assumes "length words = 8" "\<forall>j\<ge>i. j < 8 \<longrightarrow> pos \<noteq> int j"
  shows "print_words words pos i = joined (drop i words)"
  using assms
proof (induction words pos i rule: print_words.induct)
  case (1 words pos i)
  show ?case
  proof (cases "i < 8")
    case True
    then have "print_words words pos i = hex (words ! i) @ (if i \<noteq> 7 then '':'' else []) @ joined (drop (Suc i) words)"
      using 1 by (subst print_words.simps) auto
    moreover have "joined (w # ws) = hex w @ (if ws \<noteq> [] then '':'' else []) @ joined ws" for w ws by (cases ws) auto
    moreover have "drop (Suc i) words \<noteq> [] \<longleftrightarrow> i \<noteq> 7" using True "1.prems"(1) by auto
    ultimately show ?thesis using True "1.prems"(1) by (simp add: Cons_nth_drop_Suc [symmetric])
  next
    case False
    then show ?thesis using 1 by (simp add: print_words.simps)
  qed
qed

lemma print_words_before_gap:
  assumes "length words = 8" "i \<le> g" "g < 8"
  shows "print_words words (int g) i = coloned (take (g - i) (drop i words)) @ print_words words (int g) g"
  using assms
proof (induction "g - i" arbitrary: i)
  case 0
  then show ?case by (simp add: coloned_def)
next
  case (Suc k)
  then have "print_words words (int g) i = hex (words ! i) @ '':'' @ print_words words (int g) (Suc i)"
    by (subst print_words.simps) auto
  also have "\<dots> = hex (words ! i) @ '':'' @ coloned (take (g - Suc i) (drop (Suc i) words)) @ print_words words (int g) g"
    using Suc by simp
  also have "take (g - i) (drop i words) = words ! i # take (g - Suc i) (drop (Suc i) words)"
    using Suc by (metis Cons_nth_drop_Suc Suc_diff_Suc take_Suc_Cons zero_less_Suc zero_less_diff less_le_trans less_imp_le_nat order_less_le_trans)
  ultimately show ?case by (simp add: coloned_def)
qed

lemma zeros_after_eq:
  assumes "length words = 8" "i < 8" "words ! i = 0"
  defines "z \<equiv> Suc (zeros_after words i)"
  shows "i + z \<le> 8" "words = take i words @ replicate z 0 @ drop (i + z) words"
proof -
  let ?t = "takeWhile (\<lambda>w. w = 0) (drop (Suc i) words)"
  have z: "z = Suc (length ?t)" using assms(1) by (simp add: z_def zeros_after_def)
  have "length ?t \<le> 8 - Suc i" using length_takeWhile_le [of "\<lambda>w. w = 0" "drop (Suc i) words"] assms(1) by simp
  then show "i + z \<le> 8" using assms(2) z by simp
  have t: "?t = replicate (length ?t) 0" by (metis (mono_tags, lifting) replicate_eqI set_takeWhileD)
  have "drop (Suc i) words = ?t @ dropWhile (\<lambda>w. w = 0) (drop (Suc i) words)" by simp
  also have "dropWhile (\<lambda>w. w = 0) (drop (Suc i) words) = drop (i + z) words" by (simp add: dropWhile_eq_drop z add.commute)
  finally have "drop (Suc i) words = replicate (length ?t) 0 @ drop (i + z) words" using t by simp
  then have "drop i words = replicate z 0 @ drop (i + z) words"
    using assms(1-3) by (simp add: z Cons_nth_drop_Suc [symmetric])
  then show "words = take i words @ replicate z 0 @ drop (i + z) words" by (metis append_take_drop_id)
qed

lemma longestGapPos_ok:
  assumes "length words = 8"
  shows "longestGapPos words = - 1 \<or> (\<exists>g<8. longestGapPos words = int g \<and> words ! g = 0)"
proof -
  have "fst (longest_gap words i best) = - 1 \<or> (\<exists>g<8. fst (longest_gap words i best) = int g \<and> words ! g = 0)"
    if "fst best = - 1 \<or> (\<exists>g<8. fst best = int g \<and> words ! g = 0)" for i best
    using that
  proof (induction words i best rule: longest_gap.induct)
    case (1 words i best)
    consider "\<not> i < 8" | "i < 8" "words ! i = 0" | "i < 8" "words ! i \<noteq> 0" by blast
    then show ?case
    proof cases
      case 2
      let ?best = "if snd best < Suc (zeros_after words i) then (int i, Suc (zeros_after words i)) else best"
      have "longest_gap words i best = longest_gap words (i + Suc (zeros_after words i)) ?best"
        using 2 by (simp add: longest_gap.simps [of words i best])
      moreover have "fst ?best = - 1 \<or> (\<exists>g<8. fst ?best = int g \<and> words ! g = 0)" using 1(3) 2 by auto
      ultimately show ?thesis using 1(1) [OF 2] by simp
    qed (use 1 in \<open>simp_all add: longest_gap.simps [of words i best]\<close>)
  qed
  from this [of "(- 1, 0)" 0] show ?thesis by (auto simp: longestGapPos_def Let_def split: prod.splits)
qed

lemma print_words_parsed:
  assumes len: "length words = 8"
  shows "\<exists>st. pton6_loop (print_words words (longestGapPos words) 0) (int (length (print_words words (longestGapPos words) 0))) pton6_init = Some st
    \<and> (if longestGapPos words = - 1 then st = set_words words pton6_init
       else \<exists>xs z ys. words = xs @ replicate (Suc z) 0 @ ys \<and> st = set_words ys (set_words xs pton6_init\<lparr>gapPos := Some (length xs)\<rparr>))"
proof (cases "longestGapPos words = - 1")
  case True
  then show ?thesis using len pton6_joined [of pton6_init words] by (simp add: print_words_joined pton6_init_def)
next
  case False
  then obtain g where g: "g < 8" "longestGapPos words = int g" "words ! g = 0" using longestGapPos_ok [OF len] by blast
  define z where "z = Suc (zeros_after words g)"
  define xs ys where "xs = take g words" and "ys = drop (g + z) words"
  have w: "g + z \<le> 8" "words = xs @ replicate z 0 @ ys" using zeros_after_eq [OF len g(1,3)] by (simp_all add: z_def xs_def ys_def)
  have lx: "length xs = g" "length ys \<le> 8 - g" using w len g by (auto simp: xs_def ys_def)
  define t where "t = (if g = 0 then ''::'' else '':'')"
  have "print_words words (int g) g = t @ joined ys"
    using g len print_words_joined [of words "g + z" "int g"] by (simp add: print_words.simps [of words "int g" g] z_def ys_def t_def)
  then have p: "print_words words (int g) 0 = coloned xs @ t @ joined ys" using g len print_words_before_gap [of words 0 g] by (simp add: xs_def)
  let ?st = "set_words xs pton6_init\<lparr>gapPos := Some g\<rparr>"
  have i: "word_no pton6_init = 0" "gapPos pton6_init = None" by (simp_all add: pton6_init_def)
  have "pton6_loop (coloned xs @ t @ joined ys) (int (length (coloned xs @ t @ joined ys))) pton6_init =
      pton6_loop (t @ joined ys) (int (length t) + int (length (joined ys))) (set_words xs pton6_init)"
    using pton6_coloned [of pton6_init xs "int (length t) + int (length (joined ys))" "t @ joined ys"] lx g i by simp
  also have "\<dots> = pton6_loop (joined ys) (int (length (joined ys))) ?st"
  proof -
    have c: "\<not> EVUTIL_ISXDIGIT CHR '':''" by (simp add: ISXDIGIT_iff digit_value_def)
    show ?thesis using lx g i c by (subst pton6_loop.simps) (auto simp: t_def at0_def)
  qed
  also have "\<dots> = Some (set_words ys ?st)" using lx g i by (intro pton6_joined) simp
  finally have "pton6_loop (coloned xs @ t @ joined ys) (int (length (coloned xs @ t @ joined ys))) pton6_init = Some (set_words ys ?st)" .
  moreover have "\<exists>xs' z' ys'. words = xs' @ replicate (Suc z') 0 @ ys' \<and> set_words ys ?st = set_words ys' (set_words xs' pton6_init\<lparr>gapPos := Some (length xs')\<rparr>)"
    by (rule exI [of _ xs], rule exI [of _ "zeros_after words g"], rule exI [of _ ys]) (rule conjI, rule w(2) [unfolded z_def], simp only: lx(1))
  ultimately show ?thesis using g(2) p by simp
qed

lemma length_words_of [simp]: "length (addr_words addr) = 8"
  by (simp add: addr_words_def)

lemma word_bytes:
  "ucast (drop_bit 8 (push_bit 8 (ucast a) + ucast b :: UInt16)) = (a :: UInt8)" "ucast ((push_bit 8 (ucast a) + ucast b :: UInt16) AND 0xff) = (b :: UInt8)"
proof -
  have "(push_bit 8 (ucast a) + ucast b :: UInt16) = push_bit 8 (ucast a) OR ucast b"
    by (rule disjunctive_add) (auto simp: bit_simps dest: bit_imp_le_length)
  moreover have m: "(0xff :: UInt16) = mask 8" by (simp add: mask_eq_exp_minus_1)
  moreover have "\<not> bit b (8 + n)" for n using bit_imp_le_length [of b "8 + n"] by auto
  ultimately show "ucast (drop_bit 8 (push_bit 8 (ucast a) + ucast b :: UInt16)) = a" "ucast ((push_bit 8 (ucast a) + ucast b :: UInt16) AND 0xff) = b"
    unfolding m by (auto intro!: bit_word_eqI simp: bit_simps dest: bit_imp_le_length)
qed

lemma store_words_of:
  assumes "length addr = 16"
  shows "store_words (map Some (addr_words addr)) = Accepted addr"
proof -
  have "addr = map ((!) addr) [0..<16]" using assms map_nth [of addr] by simp
  then have "addr = [addr ! 0, addr ! 1, addr ! 2, addr ! 3, addr ! 4, addr ! 5, addr ! 6, addr ! 7, addr ! 8, addr ! 9, addr ! 10, addr ! 11,
      addr ! 12, addr ! 13, addr ! 14, addr ! 15]"
  proof -
    have "[0..<16] = [0, 1, 2, 3, 4, 5, 6, 7, 8, 9, 10, 11, 12, 13, 14, 15 :: nat]" by code_simp
    then show "addr = map ((!) addr) [0..<16] \<Longrightarrow> ?thesis" by simp
  qed
  moreover have "concat (map (\<lambda>w. [ucast (drop_bit 8 w), ucast (w AND 0xff)]) (addr_words addr)) =
      [addr ! 0, addr ! 1, addr ! 2, addr ! 3, addr ! 4, addr ! 5, addr ! 6, addr ! 7, addr ! 8, addr ! 9, addr ! 10, addr ! 11,
      addr ! 12, addr ! 13, addr ! 14, addr ! 15]"
  proof -
    have "[0..<8] = [0, 1, 2, 3, 4, 5, 6, 7 :: nat]" by code_simp
    then show ?thesis unfolding addr_words_def by (simp add: word_bytes)
  qed
  ultimately show ?thesis by (simp add: store_words_def comp_def)
qed

lemma open_gap_words:
  assumes "length xs + z + length ys = 8" "0 < z"
  shows "open_gap 0 (set_words ys (set_words xs pton6_init\<lparr>gapPos := Some (length xs)\<rparr>)) = map Some (xs @ replicate z 0 @ ys)"
proof -
  let ?st = "set_words ys (set_words xs pton6_init\<lparr>gapPos := Some (length xs)\<rparr>)"
  have i: "word_no pton6_init = 0" "setWords pton6_init = 0" "pwords pton6_init = replicate 8 None" by (simp_all add: pton6_init_def)
  have p: "pwords (set_words xs pton6_init) = map Some xs @ replicate (8 - length xs) None"
    using assms i by (subst set_words_pwords) auto
  have "pwords ?st = map Some xs @ map Some ys @ replicate (8 - length xs - length ys) None"
    using assms i p by (subst set_words_pwords) auto
  moreover have "8 - (length xs + length ys) = z" using assms by simp
  ultimately show ?thesis using i by (simp add: open_gap_def Let_def)
qed

lemma no_dot: "CHR ''.'' \<notin> set (print_words words pos i)"
proof (induction words pos i rule: print_words.induct)
  case (1 words pos i)
  have "CHR ''.'' \<notin> set (hex w)" for w using print_radix_digits [of 16 "CHR ''.''" "unat w"] by (auto simp: digit_value_def)
  then show ?case using 1 by (simp add: print_words.simps [of words pos i])
qed

lemma inet6_words_roundtrip:
  assumes "length addr = 16" "\<not> is_ipv4_words (addr_words addr)"
  shows "inet_pton6 (inet6_text addr) = Accepted addr"
proof -
  let ?w = "addr_words addr" and ?s = "inet6_text addr"
  have s: "?s = print_words ?w (longestGapPos ?w) 0" using assms by (simp add: inet6_text_def Let_def)
  then have d: "CHR ''.'' \<notin> set ?s" by (simp add: no_dot)
  then have "at0 ?s \<noteq> CHR ''.''" by (auto simp: at0_def split: list.splits)
  then have st: "pton6_start ?s = Accepted (length ?s, pton6_init)" using d by (simp add: pton6_start_def)
  have i: "word_no pton6_init = 0" "gapPos pton6_init = None" "setWords pton6_init = 0" "pwords pton6_init = replicate 8 None" by (simp_all add: pton6_init_def)
  obtain st where l: "pton6_loop ?s (int (length ?s)) pton6_init = Some st"
    "if longestGapPos ?w = - 1 then st = set_words ?w pton6_init
     else \<exists>xs z ys. ?w = xs @ replicate (Suc z) 0 @ ys \<and> st = set_words ys (set_words xs pton6_init\<lparr>gapPos := Some (length xs)\<rparr>)"
    using print_words_parsed [of ?w] by (auto simp: s)
  have "open_gap 0 st = map Some ?w \<and> (gapPos st = None \<longleftrightarrow> setWords st = 8) \<and> setWords st \<le> 8 \<and> (gapPos st \<noteq> None \<longrightarrow> the (gapPos st) \<le> setWords st)"
  proof (cases "longestGapPos ?w = - 1")
    case True
    then have "st = set_words ?w pton6_init" using l(2) by simp
    then show ?thesis using i set_words_pwords [of pton6_init ?w] by (simp add: open_gap_def)
  next
    case False
    then obtain xs z ys where w: "?w = xs @ replicate (Suc z) 0 @ ys" "st = set_words ys (set_words xs pton6_init\<lparr>gapPos := Some (length xs)\<rparr>)"
      using l(2) by auto
    have "length xs + Suc z + length ys = 8" using arg_cong [OF w(1), of length] by simp
    then show ?thesis using w i open_gap_words [of xs "Suc z" ys] by auto
  qed
  then show ?thesis using st l(1) d store_words_of [OF assms(1)] by (auto simp: inet_pton6_def)
qed

lemma end_of_words_quad:
  assumes "CHR ''.'' \<notin> set P" "P \<noteq> []" "\<not> EVUTIL_ISDIGIT (last P)"
  shows "end_of_words (P @ print_quad bs) = length P" "CHR ''.'' \<in> set (P @ print_quad bs)" "at0 (P @ print_quad bs) \<noteq> CHR ''.''"
proof -
  let ?b = "print_d (unat (bs ! 0))"
  have d: "EVUTIL_ISDIGIT c" if "c \<in> set ?b" for c using print_radix_digits [of 10 c "unat (bs ! 0)"] that by (simp add: ISDIGIT_iff)
  have nd: "\<not> EVUTIL_ISDIGIT CHR ''.''" by (simp add: ISDIGIT_iff digit_value_def)
  obtain t where t: "print_quad bs = ?b @ CHR ''.'' # t" by (simp add: print_quad_def)
  have "takeWhile (\<lambda>c. c \<noteq> CHR ''.'') (P @ print_quad bs) = P @ ?b"
    unfolding t using assms(1) d nd by (auto simp: takeWhile_append)
  moreover have "takeWhile EVUTIL_ISDIGIT (rev ?b @ rev P) = rev ?b"
    using d assms(2,3) by (cases P rule: rev_cases) (auto simp: takeWhile_append)
  ultimately show "end_of_words (P @ print_quad bs) = length P" by (simp add: end_of_words_def)
  show "CHR ''.'' \<in> set (P @ print_quad bs)" by (simp add: t)
  show "at0 (P @ print_quad bs) \<noteq> CHR ''.''" using assms(1,2) by (cases P) (auto simp: at0_def)
qed

lemma word_of_quad: "(word_of_int (push_bit 8 (uint (a :: UInt8)) OR uint (b :: UInt8)) :: UInt16) = push_bit 8 (ucast a) + ucast b"
proof -
  have "(push_bit 8 (ucast a) + ucast b :: UInt16) = push_bit 8 (ucast a) OR ucast b"
    by (rule disjunctive_add) (auto simp: bit_simps dest: bit_imp_le_length)
  then show ?thesis by (auto intro!: bit_word_eqI simp: bit_simps)
qed

lemma inet6_quad_roundtrip:
  assumes "length addr = 16" "is_ipv4_words (addr_words addr)"
  shows "inet_pton6 (inet6_text addr) = Accepted addr"
proof -
  let ?w = "addr_words addr"
  define P where "P = (if ?w ! 5 = 0 then ''::'' else ''::ffff:'')"
  have x: "print_radix 16 0xffff = ''ffff''" by (simp add: print_radix.simps digit_char_def char_of_def bit_0)
  have d: "unat (0xffff :: UInt16) = 0xffff" by simp
  have s: "inet6_text addr = P @ print_quad (drop 12 addr)"
    using assms(2) x d by (auto simp: inet6_text_def Let_def P_def is_ipv4_words_def)
  have P: "CHR ''.'' \<notin> set P" "P \<noteq> []" "\<not> EVUTIL_ISDIGIT (last P)" by (auto simp: P_def ISDIGIT_iff digit_value_def)
  have w67: "?w ! 6 = push_bit 8 (ucast (addr ! 12)) + ucast (addr ! 13)" "?w ! 7 = push_bit 8 (ucast (addr ! 14)) + ucast (addr ! 15)"
    by (simp_all add: addr_words_def)
  define st where "st = pton6_init\<lparr>pwords := (replicate 8 None)[6 := Some (?w ! 6), 7 := Some (?w ! 7)], setWords := 2\<rparr>"
  have "pton6_start (P @ print_quad (drop 12 addr)) = Accepted (length P, st)"
    using end_of_words_quad [OF P, of "drop 12 addr"] assms(1)
    by (simp add: pton6_start_def scan_quad_print word_of_quad w67 st_def) (simp add: pton6_init_def)
  moreover have "pton6_loop (P @ print_quad (drop 12 addr)) (int (length P)) st =
      Some (if ?w ! 5 = 0 then st\<lparr>gapPos := Some 0\<rparr> else set_word 0xffff (st\<lparr>gapPos := Some 0\<rparr>))"
  proof -
    have c: "\<not> EVUTIL_ISXDIGIT CHR '':''" by (simp add: ISXDIGIT_iff digit_value_def)
    have i: "word_no st = 0" "gapPos st = None" by (simp_all add: st_def pton6_init_def)
    have "pton6_loop (''ffff:'' @ r) 5 st' = pton6_loop r 0 (set_word 0xffff st')" if "word_no st' = 0" for r st'
      using pton6_word [of st' 5 "0xffff" r] that by (simp add: x)
    then show ?thesis using c i
      by (subst pton6_loop.simps) (auto simp: P_def at0_def pton6_loop.simps [of _ 0])
  qed
  moreover define st' where "st' = (if ?w ! 5 = 0 then st\<lparr>gapPos := Some 0\<rparr> else set_word 0xffff (st\<lparr>gapPos := Some 0\<rparr>))"
  moreover have "open_gap 2 st' = map Some ?w"
  proof -
    have "length (drop 5 ?w) = 3" by simp
    then obtain a b c where "drop 5 ?w = [a, b, c]" unfolding numeral_3_eq_3 length_Suc_conv length_0_conv by blast
    moreover have "replicate 5 (0 :: UInt16) = [0, 0, 0, 0, 0]" by (simp add: numeral_eq_Suc)
    ultimately have w: "?w = [0, 0, 0, 0, 0, a, b, c]"
      using append_take_drop_id [of 5 ?w] assms(2) by (simp add: is_ipv4_words_def)
    then have "a = 0 \<or> a = 0xffff" using assms(2) by (auto simp: is_ipv4_words_def)
    moreover have "(replicate 8 None)[6 := x, 7 := y] = [None, None, None, None, None, None, x, y]" "replicate 6 z = [z, z, z, z, z, z]"
      "replicate 5 z = [z, z, z, z, z]" for x y :: "UInt16 option" and z :: "UInt16 option"
      by (simp_all add: numeral_eq_Suc)
    ultimately show ?thesis unfolding st'_def st_def w by (auto simp: open_gap_def set_word_def pton6_init_def)
  qed
  ultimately show ?thesis
    using store_words_of [OF assms(1)] end_of_words_quad(2) [OF P, of "drop 12 addr"]
    by (auto simp: inet_pton6_def s st_def set_word_def)
qed

section \<open>Addresses with ports round trip\<close>

lemma inet6_roundtrip: "length addr = 16 \<Longrightarrow> inet_pton6 (inet6_text addr) = Accepted addr"
  using inet6_words_roundtrip inet6_quad_roundtrip by blast

text \<open>The texts fit the buffers of 64 and 128 characters, and hold digits, colons and dots only.\<close>

lemma length_print_words: "length (print_words words pos i) \<le> 5 * (8 - i)"
proof (induction words pos i rule: print_words.induct)
  case (1 words pos i)
  let ?z = "zeros_after words i"
  consider "\<not> i < 8" | "i < 8" "words ! i = 0" "pos = int i" | "i < 8" "\<not> (words ! i = 0 \<and> pos = int i)" by blast
  then show ?case
  proof cases
    case 2
    then have "length (print_words words pos i) \<le> 2 + length (print_words words pos (Suc i + ?z))" by (simp add: print_words.simps [of words "int i" i])
    also have "\<dots> \<le> 2 + 5 * (8 - (Suc i + ?z))" using 1(1) 2 by simp
    also have "\<dots> \<le> 5 * (8 - i)" using 2 by simp
    finally show ?thesis .
  next
    case 3
    then have "print_words words pos i = hex (words ! i) @ (if i \<noteq> 7 then '':'' else []) @ print_words words pos (Suc i)"
      by (subst print_words.simps) auto
    then have "length (print_words words pos i) \<le> 5 + length (print_words words pos (Suc i))"
      using length_hex(2) [of "words ! i"] by auto
    then show ?thesis using 1(2) 3 by simp
  qed (simp add: print_words.simps)
qed

lemma length_print_quad: "length (print_quad bs) \<le> 15"
proof -
  have "length (print_d (unat b)) \<le> 3" for b :: UInt8
    using length_print_radix [of 10 "unat b" 2] unat_lt_exp [of b] by simp
  from this [of "bs ! 0"] this [of "bs ! 1"] this [of "bs ! 2"] this [of "bs ! 3"] show ?thesis by (simp add: print_quad_def)
qed

lemma length_inet6_text: "length (inet6_text addr) \<le> 40"
  using length_print_words [of "addr_words addr" _ 0] length_print_quad [of "drop 12 addr"] length_hex(2) [of "addr_words addr ! 5"]
  by (simp add: inet6_text_def Let_def)

definition addr_char :: "char \<Rightarrow> bool" where
  "addr_char c \<longleftrightarrow> digit_value c < 16 \<or> c = CHR '':'' \<or> c = CHR ''.''"

lemma print_radix_addr_chars: "c \<in> set (print_radix 16 n) \<Longrightarrow> addr_char c" "c \<in> set (print_d n) \<Longrightarrow> digit_value c < 10"
  using print_radix_digits [of 16 c n] print_radix_digits [of 10 c n] by (simp_all add: addr_char_def)

lemma print_quad_chars: "c \<in> set (print_quad bs) \<Longrightarrow> digit_value c < 10 \<or> c = CHR ''.''"
  using print_radix_addr_chars(2) by (auto simp: print_quad_def)

lemma print_words_chars: "c \<in> set (print_words words pos i) \<Longrightarrow> addr_char c"
proof (induction words pos i rule: print_words.induct)
  case (1 words pos i)
  have "addr_char CHR '':''" by (simp add: addr_char_def)
  then show ?case using 1 print_radix_addr_chars(1) [of c] by (auto simp: print_words.simps [of words pos i] split: if_splits)
qed

lemma inet6_text_chars: "c \<in> set (inet6_text addr) \<Longrightarrow> addr_char c"
  using print_words_chars print_quad_chars [of c "drop 12 addr"] print_radix_addr_chars(1) [of c]
  by (auto simp: inet6_text_def Let_def addr_char_def split: if_splits)

lemma htons_htons [simp]: "htons (htons p) = p"
proof -
  have "le16 (htons p) = rev (le16 p)"
    by (simp add: htons_def le16_def of_le16_def, intro conjI) (auto intro!: bit_word_eqI simp: bit_simps dest: bit_imp_le_length)
  then have "htons (htons p) = of_le16 (le16 p)" by (simp add: htons_def)
  then show ?thesis using of_le16_le16 [of p "[]"] by simp
qed

lemma port_value_print: "p \<noteq> 0 \<Longrightarrow> port_value (Some (print_d (unat (htons p)))) = Accepted (uint (htons p))"
proof -
  assume "p \<noteq> 0"
  moreover have "htons 0 = 0" by (simp add: htons_def le16_def of_le16_def)
  ultimately have "htons p \<noteq> 0" by (metis htons_htons)
  then have z: "uint (htons p) \<noteq> 0" by (metis uint_0_iff)
  have "uint (htons p) < 65536" "0 \<le> uint (htons p)" using uint_lt2p [of "htons p"] by simp_all
  moreover have "fits_int v" if "0 \<le> v" "v < 65536" for v using that by (simp add: fits_int_def)
  ultimately show ?thesis
    using z scan_number_print [of "[]" "unat (htons p)"] by (simp add: port_value_def atoi_def signed_value_def Let_def)
qed

definition inet_sockaddr :: "sockaddr \<Rightarrow> bool" where
  "inet_sockaddr sa = (case sa of Sockaddr_in _ _ \<Rightarrow> True | Sockaddr_in6 a _ \<Rightarrow> length a = 16 | Sockaddr_other _ \<Rightarrow> False)"

lemma print_d_chars [simp]: "CHR '':'' \<notin> set (print_d n)" "CHR ''['' \<notin> set (print_d n)" "CHR '']'' \<notin> set (print_d n)"
  using print_radix_addr_chars(2) [of "CHR '':''" n] print_radix_addr_chars(2) [of "CHR ''[''" n] print_radix_addr_chars(2) [of "CHR '']''" n]
  by (auto simp: digit_value_def)

lemma length_port: "length (print_d (unat (w :: UInt16))) \<le> 5"
  using length_print_radix [of 10 "unat w" 4] unat_lt_exp [of w] by simp

lemma split_v4:
  assumes "\<forall>c\<in>set q. digit_value c < 10 \<or> c = CHR ''.''" "length q \<le> 127" "CHR '':'' \<notin> set p"
  shows "split_addr_port (q @ CHR '':'' # p) = Some (q, Some p, False)"
proof -
  have c: "CHR '':'' \<notin> set q" "CHR ''['' \<notin> set q" using assms(1) by (auto simp: digit_value_def)
  then have "takeWhile (\<lambda>c. c \<noteq> CHR '':'') (q @ CHR '':'' # p) = q" "dropWhile (\<lambda>c. c \<noteq> CHR '':'') (q @ CHR '':'' # p) = CHR '':'' # p"
    by (auto simp: takeWhile_append dropWhile_append)
  moreover have "at0 (q @ CHR '':'' # p) \<noteq> CHR ''[''" using c by (cases q) (auto simp: at0_def)
  ultimately show ?thesis using assms by (simp add: split_addr_port_def)
qed

lemma split_v6:
  assumes "CHR '']'' \<notin> set a" "length a \<le> 127"
  shows "split_addr_port (CHR ''['' # a @ CHR '']'' # CHR '':'' # p) = Some (a, Some p, True)"
proof -
  have "takeWhile (\<lambda>c. c \<noteq> CHR '']'') (a @ CHR '']'' # CHR '':'' # p) = a" "dropWhile (\<lambda>c. c \<noteq> CHR '']'') (a @ CHR '']'' # CHR '':'' # p) = CHR '']'' # CHR '':'' # p"
    using assms(1) by (auto simp: takeWhile_append dropWhile_append)
  then show ?thesis using assms by (simp add: split_addr_port_def at0_def)
qed

lemma parse_format_in:
  assumes "64 \<le> outlen" "sizeof_sockaddr_in6 \<le> len"
  shows "evutil_parse_sockaddr_port (evutil_format_sockaddr_port (Sockaddr_in a p) outlen) len =
    checked_bind (port_value (Some (print_d (unat (htons p))))) (\<lambda>port. Accepted (Sockaddr_in a (htons (word_of_int port)), sizeof_sockaddr_in))"
proof -
  obtain bs where "inet_ntop4 a 128 = (if 128 \<le> length (print_quad bs) then None else Some (print_quad bs))"
    unfolding inet_ntop4_def Let_def by blast
  then obtain q where q: "inet_ntop4 a 128 = Some q" "\<exists>bs. q = print_quad bs" using length_print_quad [of bs] by auto
  have l: "length q \<le> 15" using q(2) length_print_quad by auto
  have f: "evutil_format_sockaddr_port (Sockaddr_in a p) outlen = q @ CHR '':'' # print_d (unat (htons p))"
    using q assms(1) l length_port [of "htons p"] by (simp add: evutil_format_sockaddr_port_def strlcpy_def)
  have "split_addr_port (q @ CHR '':'' # print_d (unat (htons p))) = Some (q, Some (print_d (unat (htons p))), False)"
    using q(2) l print_quad_chars by (intro split_v4) auto
  then show ?thesis
    using assms(2) inet4_roundtrip [OF q(1)] unfolding evutil_parse_sockaddr_port_def f
    by (simp add: sizeof_sockaddr_in_def sizeof_sockaddr_in6_def)
qed

text \<open>
  C15. Addresses as text round trip: for every IPv4 or IPv6 address with a port other than zero,
  \<open>evutil_parse_sockaddr_port\<close> of what \<open>evutil_format_sockaddr_port\<close> writes into a buffer of at least 64 characters is the
  address and its size, whichever form of IPv6 address is chosen (compressed, with an embedded IPv4 address, or plain).
\<close>

theorem sockaddr_text_roundtrip:
  assumes "inet_sockaddr sa" "sa_port sa \<noteq> 0" "64 \<le> outlen" "sizeof_sockaddr_in6 \<le> len"
  shows "evutil_parse_sockaddr_port (evutil_format_sockaddr_port sa outlen) len =
    Accepted (sa, if sa_family sa = AF_INET then sizeof_sockaddr_in else sizeof_sockaddr_in6)"
proof (cases sa)
  case (Sockaddr_in a p)
  then show ?thesis using assms port_value_print [of p] parse_format_in [of outlen len a p] by (simp add: sa_family_def)
next
  case (Sockaddr_in6 a p)
  let ?t = "inet6_text a"
  have l: "length ?t \<le> 40" by (rule length_inet6_text)
  have f: "evutil_format_sockaddr_port sa outlen = CHR ''['' # ?t @ CHR '']'' # CHR '':'' # print_d (unat (htons p))"
    using Sockaddr_in6 assms(3) l length_port [of "htons p"] by (simp add: evutil_format_sockaddr_port_def strlcpy_def inet_ntop6_def Let_def)
  have "CHR '']'' \<notin> set ?t" using inet6_text_chars [of "CHR '']''" a] by (auto simp: addr_char_def digit_value_def)
  then have "split_addr_port (CHR ''['' # ?t @ CHR '']'' # CHR '':'' # print_d (unat (htons p))) = Some (?t, Some (print_d (unat (htons p))), True)"
    using l by (intro split_v6) auto
  then show ?thesis
    using Sockaddr_in6 assms port_value_print [of p] inet6_roundtrip [of a] unfolding evutil_parse_sockaddr_port_def f
    by (simp add: sa_family_def inet_sockaddr_def AF_INET_def AF_INET6_def)
qed (use assms in \<open>simp add: inet_sockaddr_def\<close>)

theorem sockaddr_text_roundtrip_witness:
  "evutil_parse_sockaddr_port (evutil_format_sockaddr_port (Sockaddr_in6 (replicate 15 0 @ [1]) 0x5000) 64) 28 =
    Accepted (Sockaddr_in6 (replicate 15 0 @ [1]) 0x5000, 28)"
  using sockaddr_text_roundtrip [of "Sockaddr_in6 (replicate 15 0 @ [1]) 0x5000" 64 28]
  by (simp add: inet_sockaddr_def sizeof_sockaddr_in6_def sa_family_def AF_INET_def AF_INET6_def)

section \<open>Comparisons\<close>
lemma tolower_nul: "EVUTIL_TOLOWER c = CHR 0x00 \<longleftrightarrow> c = CHR 0x00"
proof -
  define n where "n = (of_char c :: nat)"
  have n: "n < 256" by (simp add: n_def)
  have "EVUTIL_TOLOWER_TABLE ! n = (if 65 \<le> n \<and> n \<le> 90 then n + 32 else n)"
    using n by (auto simp: EVUTIL_TOLOWER_TABLE_def nth_append simp del: upt_rec_numeral)
  then have "EVUTIL_TOLOWER c = char_of (if 65 \<le> n \<and> n \<le> 90 then n + 32 else n)" by (simp add: EVUTIL_TOLOWER_def n_def)
  moreover have "(char_of m = CHR 0x00) \<longleftrightarrow> m = 0" if "m < 256" for m :: nat
  proof -
    have h: "of_char (char_of m :: char) = m" using that by (simp add: take_bit_eq_mod)
    have "m = 0" if a: "char_of m = CHR 0x00" using h unfolding a by simp
    moreover have "char_of (0 :: nat) = CHR 0x00" by (simp add: char_of_def)
    ultimately show ?thesis by auto
  qed
  moreover have "c = char_of n" by (simp add: n_def)
  ultimately show ?thesis using n by auto
qed

lemma schar_inj: "schar a = schar b \<longleftrightarrow> a = b"
proof
  assume "schar a = schar b"
  then have "bit (sint (of_char a :: UInt8)) n = bit (sint (of_char b :: UInt8)) n" for n by (simp add: schar_def)
  then have "(of_char a :: UInt8) = of_char b" by (auto intro!: bit_word_eqI simp: bit_sint_iff) (metis not_less)+
  moreover have "unat (of_char c :: UInt8) = of_char c" for c :: char
  proof -
    have "(of_char c :: UInt8) = word_of_nat (of_char c)" by (simp add: of_nat_of_char)
    then show ?thesis by (simp add: unat_of_nat)
  qed
  ultimately have "(of_char a :: nat) = of_char b" by metis
  then show "a = b" by simp
qed simp

lemma strcasecmp_eq_0:
  assumes "CHR 0x00 \<notin> set s1" "CHR 0x00 \<notin> set s2"
  shows "evutil_ascii_strcasecmp s1 s2 = 0 \<longleftrightarrow> map EVUTIL_TOLOWER s1 = map EVUTIL_TOLOWER s2"
  using assms
proof (induction s1 s2 rule: evutil_ascii_strcasecmp.induct)
  case (1 s1 s2)
  let ?c1 = "EVUTIL_TOLOWER (at0 s1)" and ?c2 = "EVUTIL_TOLOWER (at0 s2)"
  have z: "?c1 = CHR 0x00 \<longleftrightarrow> s1 = []" "?c2 = CHR 0x00 \<longleftrightarrow> s2 = []"
    using 1(2,3) by (auto simp: tolower_nul at0_def split: list.splits)
  show ?case
  proof (cases "?c1 = ?c2 \<and> s1 \<noteq> []")
    case True
    then have "s2 \<noteq> []" using z by auto
    moreover have "evutil_ascii_strcasecmp s1 s2 = evutil_ascii_strcasecmp (tl s1) (tl s2)"
      using True z by (simp add: evutil_ascii_strcasecmp.simps [of s1 s2])
    ultimately show ?thesis using 1 z True by (cases s1; cases s2) (auto simp: at0_def)
  next
    case False
    then have "evutil_ascii_strcasecmp s1 s2 = 0 \<longleftrightarrow> s1 = [] \<and> s2 = []"
      using z schar_inj [of ?c1 ?c2] by (auto simp: evutil_ascii_strcasecmp.simps [of s1 s2] Let_def split: if_splits)
    then show ?thesis using z False by (cases s1; cases s2) (auto simp: at0_def)
  qed
qed

text \<open>\<open>evutil_sockaddr_cmp\<close> is a strict total order on the addresses of both families.\<close>

lemma addr_memcmp_range: "addr_memcmp xs ys \<in> {- 1, 0, 1}"
  by (induction xs ys rule: addr_memcmp.induct) auto

lemma addr_memcmp_0: "length xs = length ys \<Longrightarrow> addr_memcmp xs ys = 0 \<longleftrightarrow> xs = ys"
  by (induction xs ys rule: addr_memcmp.induct) auto

lemma addr_memcmp_sym: "addr_memcmp ys xs = - addr_memcmp xs ys"
  by (induction xs ys rule: addr_memcmp.induct) auto

lemma addr_memcmp_trans: "length xs = length ys \<Longrightarrow> length ys = length zs \<Longrightarrow> addr_memcmp xs ys = - 1 \<Longrightarrow> addr_memcmp ys zs = - 1 \<Longrightarrow> addr_memcmp xs zs = - 1"
proof (induction xs ys arbitrary: zs rule: addr_memcmp.induct)
  case (1 x xs y ys)
  then obtain z zs' where zs: "zs = z # zs'" by (cases zs) auto
  from 1 show ?case by (auto simp: zs split: if_splits)
qed auto

lemma addr_family_neq [simp]: "AF_INET \<noteq> AF_INET6" "AF_INET6 \<noteq> AF_INET"
  by (simp_all add: AF_INET_def AF_INET6_def)

lemma sockaddr_cmp_sym: "sgn (evutil_sockaddr_cmp b a p) = - sgn (evutil_sockaddr_cmp a b p)"
  if "inet_sockaddr a" "inet_sockaddr b"
  using that addr_memcmp_sym [of "s6_addr b" "s6_addr a"] 
  by (cases a; cases b) (auto simp: evutil_sockaddr_cmp_def sa_family_def inet_sockaddr_def Let_def sgn_if)

lemma sockaddr_cmp_trans:
  assumes "inet_sockaddr a" "inet_sockaddr b" "inet_sockaddr c" "evutil_sockaddr_cmp a b p < 0" "evutil_sockaddr_cmp b c p < 0"
  shows "evutil_sockaddr_cmp a c p < 0"
proof -
  consider (v4) x i y j z k where "a = Sockaddr_in x i" "b = Sockaddr_in y j" "c = Sockaddr_in z k"
    | (v6) x i y j z k where "a = Sockaddr_in6 x i" "b = Sockaddr_in6 y j" "c = Sockaddr_in6 z k" | (mixed) "sa_family a \<noteq> sa_family c"
    using assms by (cases a; cases b; cases c) (auto simp: evutil_sockaddr_cmp_def sa_family_def inet_sockaddr_def AF_INET_def AF_INET6_def)
  then show ?thesis
  proof cases
    case v6
    then have l: "length x = 16" "length y = 16" "length z = 16" using assms by (simp_all add: inet_sockaddr_def)
    have r: "addr_memcmp x y \<in> {- 1, 0}" "addr_memcmp y z \<in> {- 1, 0}"
      using assms(4,5) v6 addr_memcmp_range [of x y] addr_memcmp_range [of y z]
      by (auto simp: evutil_sockaddr_cmp_def sa_family_def Let_def)
    moreover have "addr_memcmp x y = 0 \<Longrightarrow> x = y" "addr_memcmp y z = 0 \<Longrightarrow> y = z" using l by (simp_all add: addr_memcmp_0)
    ultimately show ?thesis using assms(4,5) v6 addr_memcmp_trans [of x y z] l
      by (auto simp: evutil_sockaddr_cmp_def sa_family_def Let_def split: if_splits)
  next
    case mixed
    then show ?thesis using assms by (cases a; cases b; cases c) (auto simp: evutil_sockaddr_cmp_def sa_family_def inet_sockaddr_def AF_INET_def AF_INET6_def)
  qed (use assms in \<open>auto simp: evutil_sockaddr_cmp_def sa_family_def Let_def split: if_splits\<close>)
qed

text \<open>
  \<open>evutil_sockaddr_cmp\<close> with ports orders the IPv4 and IPv6 addresses: it is zero exactly for equal addresses, exchanging
  the arguments changes its sign, and being less is transitive. Addresses of other families are never equal, even to themselves.
\<close>

theorem sockaddr_cmp_orders:
  "(inet_sockaddr a \<and> inet_sockaddr b \<longrightarrow>
      (evutil_sockaddr_cmp a b True = 0 \<longleftrightarrow> a = b) \<and> sgn (evutil_sockaddr_cmp b a p) = - sgn (evutil_sockaddr_cmp a b p)
      \<and> (inet_sockaddr c \<and> evutil_sockaddr_cmp a b p < 0 \<and> evutil_sockaddr_cmp b c p < 0 \<longrightarrow> evutil_sockaddr_cmp a c p < 0))
   \<and> (f \<noteq> AF_INET \<and> f \<noteq> AF_INET6 \<longrightarrow> evutil_sockaddr_cmp (Sockaddr_other f) (Sockaddr_other f) p = 1)"
proof -
  have "evutil_sockaddr_cmp a b True = 0 \<longleftrightarrow> a = b" if "inet_sockaddr a" "inet_sockaddr b"
    using that by (cases a; cases b) (auto simp: evutil_sockaddr_cmp_def sa_family_def inet_sockaddr_def Let_def addr_memcmp_0 intro: word_uint_eqI)
  then show ?thesis using sockaddr_cmp_sym [of a b p] sockaddr_cmp_trans [of a b c p]
    by (auto simp: evutil_sockaddr_cmp_def [of "Sockaddr_other f"] sa_family_def)
qed

theorem sockaddr_cmp_orders_witness:
  "evutil_sockaddr_cmp (Sockaddr_in 1 2) (Sockaddr_in 1 3) True \<noteq> 0 \<and> evutil_sockaddr_cmp (Sockaddr_other 1) (Sockaddr_other 1) True = 1"
  using sockaddr_cmp_orders [of "Sockaddr_in 1 2" "Sockaddr_in 1 3" True "Sockaddr_in 1 3" 1]
  by (simp add: inet_sockaddr_def AF_INET_def AF_INET6_def)


lemmas text_eval = digit_value_def is_space_def strip_0x_def signed_value_def scan_number_def scan_d_def scan_dot_def
  sscanf_quad_def fits_int_def is_byte_def strtol16_def at0_def

lemma lax_inet4:
  "inet_pton4 '' 1.+2.3.4'' = Accepted (htonl 0x01020304)" "inet_pton4 ''1.2.3.4'' = Accepted (htonl 0x01020304)"
  "inet_pton4 ''9999999999.0.0.1'' = Undefined"
  by (simp_all add: inet_pton4_def text_eval Let_def)

lemma lax_servname: "parse_numeric_servname ''4294967376'' = 80"
  by (simp add: parse_numeric_servname_def text_eval strtoll_def Let_def)

lemma inet6_loopback_text: "inet6_text (replicate 15 0 @ [1]) = ''::1''"
  by code_simp

lemmas pton6_eval = pton6_loop.simps ISXDIGIT_iff text_eval set_word_def

lemma lax_words:
  "pton6_loop ''0x12::'' 6 pton6_init = pton6_loop ''12::'' 4 pton6_init"
  "pton6_loop ''1:2:3:4:5:6:7:8:'' 16 pton6_init = pton6_loop ''1:2:3:4:5:6:7:8'' 15 pton6_init"
  "pton6_loop ''12::'' 4 pton6_init = Some (set_word 0x12 pton6_init\<lparr>gapPos := Some 1\<rparr>)"
  by (simp_all add: pton6_eval pton6_init_def)
lemma lax_port:
  "evutil_parse_sockaddr_port ''1.2.3.4:80abc'' 28 = Accepted (Sockaddr_in (htonl 0x01020304) (htons 80), 16)"
  "evutil_parse_sockaddr_port (evutil_format_sockaddr_port (Sockaddr_in a 0) 64) 28 = Rejected"
proof -
  show "evutil_parse_sockaddr_port ''1.2.3.4:80abc'' 28 = Accepted (Sockaddr_in (htonl 0x01020304) (htons 80), 16)"
    by (simp add: evutil_parse_sockaddr_port_def split_addr_port_def at0_def port_value_def atoi_def lax_inet4 sizeof_sockaddr_in_def)
      (simp add: text_eval Let_def)
  have "htons 0 = 0" by (simp add: htons_def le16_def of_le16_def)
  moreover have "port_value (Some (print_d 0)) = Rejected"
    using scan_number_print [of "[]" 0] by (simp add: port_value_def atoi_def signed_value_def fits_int_def)
  ultimately show "evutil_parse_sockaddr_port (evutil_format_sockaddr_port (Sockaddr_in a 0) 64) 28 = Rejected"
    using parse_format_in [of 64 28 a 0] by (simp add: sizeof_sockaddr_in6_def)
qed

text \<open>
  Where the text functions are laxer or stricter than their formats: \<open>evutil_inet_pton\<close> takes words with the prefix \<open>0x\<close>, a
  colon after the eighth word, and signs and blanks in IPv4 addresses; \<open>evutil_inet_ntop\<close> cuts off the last character
  when the text is exactly as long as the buffer, instead of failing; port zero is written but not read; text after
  the port is ignored; a service number of more than 32 bits is reduced modulo \<open>2^32\<close>; and a number that does not fit an \<open>int\<close>
  is undefined behaviour.
\<close>

theorem inet_text_flaws:
  "(\<exists>a. inet_pton6 ''0x12::'' = Accepted a) \<and> (\<exists>a. inet_pton6 ''1:2:3:4:5:6:7:8:'' = Accepted a)
   \<and> inet_pton4 '' 1.+2.3.4'' = inet_pton4 ''1.2.3.4''
   \<and> inet_ntop6 (replicate 15 0 @ [1]) 4 = Some ''::1'' \<and> inet_ntop6 (replicate 15 0 @ [1]) 3 = Some ''::''
   \<and> evutil_parse_sockaddr_port (evutil_format_sockaddr_port (Sockaddr_in a 0) 64) 28 = Rejected
   \<and> evutil_parse_sockaddr_port ''1.2.3.4:80abc'' 28 = Accepted (Sockaddr_in (htonl 0x01020304) (htons 80), 16)
   \<and> parse_numeric_servname ''4294967376'' = 80 \<and> inet_pton4 ''9999999999.0.0.1'' = Undefined"
proof -
  have r: "replicate 8 (None :: UInt16 option) = [None, None, None, None, None, None, None, None]" by (simp add: numeral_eq_Suc)
  then have "\<exists>a. inet_pton6 ''0x12::'' = Accepted a"
    by (simp add: inet_pton6_def pton6_start_def at0_def lax_words open_gap_def store_words_def) (simp add: pton6_init_def set_word_def)
  moreover have "\<exists>a. inet_pton6 ''1:2:3:4:5:6:7:8:'' = Accepted a"
    by (simp add: inet_pton6_def pton6_start_def at0_def pton6_eval open_gap_def store_words_def pton6_init_def r)
  moreover have "inet_ntop6 (replicate 15 0 @ [1]) 4 = Some ''::1''" "inet_ntop6 (replicate 15 0 @ [1]) 3 = Some ''::''"
    unfolding inet_ntop6_def inet6_loopback_text by (simp_all add: strlcpy_def)
  ultimately show ?thesis using lax_inet4 lax_servname lax_port by simp
qed

end
