(* ===== verification/Http_Uri.thy ===== *)
theory Http_Uri
  imports Ev_Util
begin

text \<open>
  URIs in \<open>event/http.c\<close>: \<open>evhttp_uri_parse_with_flags\<close>, \<open>evhttp_uri_join\<close> and the functions that set a part. A string between two
  pointers is the list of its characters; where the code may look behind its end, the text that follows is
  an argument. Memory is taken to be available. The evbuffer that \<open>evhttp_uri_join\<close> fills is the list of its bytes.
\<close>

section \<open>Parts\<close>

definition uri_chars :: "bool list" where
  "uri_chars = replicate 45 False @ [True, True, False] @ replicate 10 True @ replicate 7 False @ replicate 26 True @ replicate 4 False @
    [True, False] @ replicate 26 True @ replicate 3 False @ [True] @ replicate 129 False"

definition CHAR_IS_UNRESERVED :: "char \<Rightarrow> bool" where
  "CHAR_IS_UNRESERVED c = uri_chars ! of_char c"

definition SUBDELIMS :: string where
  "SUBDELIMS = [CHR ''!'', CHR ''$'', CHR ''&'', CHR 0x27, CHR ''('', CHR '')'', CHR ''*'', CHR ''+'', CHR '','', CHR '';'', CHR ''='']"

definition scheme_ok :: "string \<Rightarrow> bool" where
  "scheme_ok s =
    (case s of [] \<Rightarrow> False
     | c # cs \<Rightarrow> EVUTIL_ISALPHA c \<and> list_all (\<lambda>c. EVUTIL_ISALNUM c \<or> c = CHR ''+'' \<or> c = CHR ''-'' \<or> c = CHR ''.'') cs)"

function userinfo_ok :: "string \<Rightarrow> bool" where
  "userinfo_ok s =
    (case s of [] \<Rightarrow> True
     | c # cs \<Rightarrow>
         if CHAR_IS_UNRESERVED c \<or> c \<in> set SUBDELIMS \<or> c = CHR '':'' then userinfo_ok cs
         else if c = CHR ''%'' \<and> 2 \<le> length cs \<and> EVUTIL_ISXDIGIT (cs ! 0) \<and> EVUTIL_ISXDIGIT (cs ! 1) then userinfo_ok (drop 2 cs)
         else False)"
  by pat_completeness auto
termination by (relation "measure length") auto

text \<open>\<open>n\<close> is the distance to \<open>eos\<close>; an escape sequence is not checked against it. \<open>strchr\<close> finds the terminator as well.\<close>

function regname_ok :: "string \<Rightarrow> int \<Rightarrow> bool" where
  "regname_ok s n =
    (if \<not> 0 < n then True
     else if CHAR_IS_UNRESERVED (at0 s) \<or> at0 s \<in> set SUBDELIMS \<or> s = [] then regname_ok (tl s) (n - 1)
     else if at0 s = CHR ''%'' \<and> EVUTIL_ISXDIGIT (at0 (drop 1 s)) \<and> EVUTIL_ISXDIGIT (at0 (drop 2 s)) then regname_ok (drop 3 s) (n - 3)
     else False)"
  by pat_completeness auto
termination by (relation "measure (\<lambda>(s, n). nat n)") auto

text \<open>The sum may leave the range of an \<open>int\<close>, which is undefined.\<close>

fun parse_port_loop :: "int \<Rightarrow> string \<Rightarrow> int checked" where
  "parse_port_loop portnum [] = Accepted portnum"
| "parse_port_loop portnum (c # cs) =
    (if \<not> EVUTIL_ISDIGIT c then Rejected
     else let portnum' = portnum * 10 + (of_char c - 48)
          in if \<not> fits_int portnum' then Undefined else if portnum' < 0 then Rejected else parse_port_loop portnum' cs)"

definition parse_port :: "string \<Rightarrow> int checked" where
  "parse_port s = parse_port_loop 0 s"

text \<open>1 for IPv6, 2 for IPvFuture.\<close>

definition bracket_addr_ok :: "string \<Rightarrow> nat checked" where
  "bracket_addr_ok s =
    (if length s < 3 \<or> s ! 0 \<noteq> CHR ''['' \<or> last s \<noteq> CHR '']'' then Rejected
     else if s ! 1 = CHR ''v''
     then let t = drop 2 (butlast s); digits = takeWhile (\<lambda>c. c \<noteq> CHR ''.'') t; rest = dropWhile (\<lambda>c. c \<noteq> CHR ''.'') t
          in if \<not> EVUTIL_ISXDIGIT (s ! 2) \<or> \<not> list_all EVUTIL_ISXDIGIT digits \<or> rest = []
             then Rejected
             else if list_all (\<lambda>c. CHAR_IS_UNRESERVED c \<or> c \<in> set SUBDELIMS \<or> c = CHR '':'') (tl rest) then Accepted 2 else Rejected
     else if 64 \<le> length s - 2 then Rejected
     else checked_bind (inet_pton6 (butlast (tl s))) (\<lambda>_. Accepted 1))"

section \<open>The structure and its parser\<close>

record evhttp_uri =
  uri_flags :: UInt32
  scheme :: "string option"
  userinfo :: "string option"
  host :: "string option"
  port :: int
  upath :: "string option"
  query :: "string option"
  fragment :: "string option"

definition evhttp_uri_new :: evhttp_uri where
  "evhttp_uri_new = \<lparr>uri_flags = 0, scheme = None, userinfo = None, host = None, port = - 1, upath = None, query = None, fragment = None\<rparr>"

definition EVHTTP_URI_NONCONFORMANT :: UInt32 where "EVHTTP_URI_NONCONFORMANT = 1"

definition evhttp_uri_set_flags :: "evhttp_uri \<Rightarrow> UInt32 \<Rightarrow> evhttp_uri" where
  "evhttp_uri_set_flags uri flags = uri\<lparr>uri_flags := flags\<rparr>"

definition host_ok :: "string \<Rightarrow> string \<Rightarrow> bool checked" where
  "host_ok h following =
    (if 2 \<le> length h \<and> hd h = CHR ''['' \<and> last h = CHR '']'' then checked_bind (bracket_addr_ok h) (\<lambda>_. Accepted True)
     else if regname_ok (h @ following) (int (length h)) then Accepted True else Rejected)"

text \<open>The port at the end of the authority: the host, the port and the text behind the host.\<close>

definition split_port :: "string \<Rightarrow> (string \<times> int \<times> string) checked" where
  "split_port h0 =
    (let digits = rev (takeWhile EVUTIL_ISDIGIT (rev h0)); r = dropWhile EVUTIL_ISDIGIT (rev h0)
     in if r \<noteq> [] \<and> hd r = CHR '':''
        then checked_bind (if digits = [] then Accepted (- 1) else parse_port digits) (\<lambda>p. Accepted (rev (tl r), p, CHR '':'' # digits))
        else Accepted (h0, - 1, []))"

definition parse_authority :: "evhttp_uri \<Rightarrow> string \<Rightarrow> string \<Rightarrow> evhttp_uri checked" where
  "parse_authority uri a following =
    (if a = [] then Accepted (uri\<lparr>host := Some []\<rparr>)
     else let ui = takeWhile (\<lambda>c. c \<noteq> CHR ''@'') a; cp = dropWhile (\<lambda>c. c \<noteq> CHR ''@'') a
          in if cp \<noteq> [] \<and> \<not> userinfo_ok ui then Rejected
             else let uri' = (if cp \<noteq> [] then uri\<lparr>userinfo := Some ui\<rparr> else uri); h0 = (if cp \<noteq> [] then tl cp else a)
                  in checked_bind (split_port h0) (\<lambda>(h, p, behind).
                       checked_bind (host_ok h (behind @ following)) (\<lambda>_. Accepted (uri'\<lparr>port := p, host := Some h\<rparr>))))"

definition end_of_authority :: "string \<Rightarrow> string" where
  "end_of_authority cp = dropWhile (\<lambda>c. \<not> (c = CHR ''?'' \<or> c = CHR ''#'' \<or> c = CHR ''/'')) cp"

datatype uri_part = PART_PATH | PART_QUERY | PART_FRAGMENT

function end_of_pchars :: "string \<Rightarrow> uri_part \<Rightarrow> string" where
  "end_of_pchars s part =
    (case s of [] \<Rightarrow> []
     | c # cs \<Rightarrow>
         if CHAR_IS_UNRESERVED c \<or> c \<in> set SUBDELIMS \<or> c = CHR '':'' \<or> c = CHR ''@'' \<or> c = CHR ''/'' then end_of_pchars cs part
         else if c = CHR ''%'' \<and> EVUTIL_ISXDIGIT (at0 cs) \<and> EVUTIL_ISXDIGIT (at0 (drop 1 cs)) then end_of_pchars (drop 2 cs) part
         else if c = CHR ''?'' \<and> part \<noteq> PART_PATH then end_of_pchars cs part
         else s)"
  by pat_completeness auto
termination by (relation "measure (\<lambda>(s, part). length s)") auto

declare userinfo_ok.simps [simp del] regname_ok.simps [simp del] end_of_pchars.simps [simp del]

definition end_of_path :: "string \<Rightarrow> uri_part \<Rightarrow> UInt32 \<Rightarrow> string" where
  "end_of_path cp part flags =
    (if flags AND EVHTTP_URI_NONCONFORMANT \<noteq> 0
     then case part of PART_PATH \<Rightarrow> dropWhile (\<lambda>c. c \<noteq> CHR ''#'' \<and> c \<noteq> CHR ''?'') cp
          | PART_QUERY \<Rightarrow> dropWhile (\<lambda>c. c \<noteq> CHR ''#'') cp
          | PART_FRAGMENT \<Rightarrow> []
     else end_of_pchars cp part)"

fun path_matches_noscheme :: "string \<Rightarrow> bool" where
  "path_matches_noscheme [] = True"
| "path_matches_noscheme (c # cs) = (if c = CHR '':'' then False else if c = CHR ''/'' then True else path_matches_noscheme cs)"

text \<open>The text between a pointer and a later one.\<close>

definition text_upto :: "string \<Rightarrow> string \<Rightarrow> string" where
  "text_upto s e = take (length s - length e) s"

definition split_scheme :: "string \<Rightarrow> string option \<times> string" where
  "split_scheme readp =
    (let s = takeWhile (\<lambda>c. c \<noteq> CHR '':'') readp; token = dropWhile (\<lambda>c. c \<noteq> CHR '':'') readp
     in if token \<noteq> [] \<and> scheme_ok s then (Some s, tl token) else (None, readp))"

text \<open>The last steps: path, query and fragment from \<open>readp\<close> on.\<close>

definition parse_rest :: "evhttp_uri \<Rightarrow> bool \<Rightarrow> string \<Rightarrow> evhttp_uri checked" where
  "parse_rest uri got_authority readp =
    (let e1 = end_of_path readp PART_PATH (uri_flags uri); path = text_upto readp e1;
         has_query = (at0 e1 = CHR ''?'');
         e2 = (if has_query then end_of_path (tl e1) PART_QUERY (uri_flags uri) else e1);
         has_fragment = (at0 e2 = CHR ''#'');
         e3 = (if has_fragment then end_of_path (tl e2) PART_FRAGMENT (uri_flags uri) else e2)
     in if e3 \<noteq> [] then Rejected
        else if \<not> got_authority \<and> at0 path = CHR ''/'' \<and> at0 (drop 1 path) = CHR ''/'' then Rejected
        else if got_authority \<and> at0 path \<noteq> CHR ''/'' \<and> path \<noteq> [] then Rejected
        else if scheme uri = None \<and> \<not> path_matches_noscheme path then Rejected
        else Accepted (uri\<lparr>upath := Some path, query := if has_query then Some (text_upto (tl e1) e2) else None,
               fragment := if has_fragment then Some (text_upto (tl e2) e3) else None\<rparr>))"

definition evhttp_uri_parse_with_flags :: "string \<Rightarrow> UInt32 \<Rightarrow> evhttp_uri checked" where
  "evhttp_uri_parse_with_flags source_uri flags =
    (let (sch, readp) = split_scheme source_uri; uri = evhttp_uri_new\<lparr>uri_flags := flags, scheme := sch\<rparr>
     in if at0 readp = CHR ''/'' \<and> at0 (drop 1 readp) = CHR ''/''
        then let authority = drop 2 readp; p = end_of_authority authority
             in checked_bind (parse_authority uri (text_upto authority p) p) (\<lambda>uri'. parse_rest uri' True p)
        else parse_rest uri False readp)"

definition evhttp_uri_parse :: "string \<Rightarrow> evhttp_uri checked" where
  "evhttp_uri_parse source_uri = evhttp_uri_parse_with_flags source_uri 0"

section \<open>Joining and setting\<close>

definition opt_text :: "string \<Rightarrow> string option \<Rightarrow> string" where
  "opt_text before s = (case s of None \<Rightarrow> [] | Some t \<Rightarrow> before @ t)"

definition authority_text :: "evhttp_uri \<Rightarrow> string \<Rightarrow> string" where
  "authority_text uri h =
    ''//'' @ (case userinfo uri of None \<Rightarrow> [] | Some u \<Rightarrow> u @ ''@'') @ h @ (if 0 \<le> port uri then '':'' @ print_d (nat (port uri)) else [])"

definition uri_text :: "evhttp_uri \<Rightarrow> string" where
  "uri_text uri =
    (case scheme uri of None \<Rightarrow> [] | Some s \<Rightarrow> s @ '':'') @ (case host uri of None \<Rightarrow> [] | Some h \<Rightarrow> authority_text uri h) @
    opt_text [] (upath uri) @ opt_text ''?'' (query uri) @ opt_text ''#'' (fragment uri)"

definition evhttp_uri_join :: "evhttp_uri \<Rightarrow> nat \<Rightarrow> string option" where
  "evhttp_uri_join uri limit =
    (if limit = 0 then None
     else if host uri \<noteq> None \<and> (case upath uri of None \<Rightarrow> False | Some p \<Rightarrow> at0 p \<noteq> CHR ''/'' \<and> p \<noteq> []) then None
     else if limit < length (uri_text uri) + 1 then None
     else Some (uri_text uri))"

definition evhttp_uri_set_scheme :: "evhttp_uri \<Rightarrow> string option \<Rightarrow> evhttp_uri checked" where
  "evhttp_uri_set_scheme uri s = (if s \<noteq> None \<and> \<not> scheme_ok (the s) then Rejected else Accepted (uri\<lparr>scheme := s\<rparr>))"

definition evhttp_uri_set_userinfo :: "evhttp_uri \<Rightarrow> string option \<Rightarrow> evhttp_uri checked" where
  "evhttp_uri_set_userinfo uri s = (if s \<noteq> None \<and> \<not> userinfo_ok (the s) then Rejected else Accepted (uri\<lparr>userinfo := s\<rparr>))"

definition evhttp_uri_set_host :: "evhttp_uri \<Rightarrow> string option \<Rightarrow> evhttp_uri checked" where
  "evhttp_uri_set_host uri s =
    (case s of None \<Rightarrow> Accepted (uri\<lparr>host := s\<rparr>)
     | Some h \<Rightarrow> if at0 h = CHR ''['' then checked_bind (bracket_addr_ok h) (\<lambda>_. Accepted (uri\<lparr>host := s\<rparr>))
               else if \<not> regname_ok h (int (length h)) then Rejected else Accepted (uri\<lparr>host := s\<rparr>))"

definition evhttp_uri_set_port :: "evhttp_uri \<Rightarrow> int \<Rightarrow> evhttp_uri checked" where
  "evhttp_uri_set_port uri p = (if p < - 1 then Rejected else Accepted (uri\<lparr>port := p\<rparr>))"

definition evhttp_uri_set_path :: "evhttp_uri \<Rightarrow> string option \<Rightarrow> evhttp_uri checked" where
  "evhttp_uri_set_path uri s =
    (if s \<noteq> None \<and> end_of_path (the s) PART_PATH (uri_flags uri) \<noteq> [] then Rejected else Accepted (uri\<lparr>upath := s\<rparr>))"

definition evhttp_uri_set_query :: "evhttp_uri \<Rightarrow> string option \<Rightarrow> evhttp_uri checked" where
  "evhttp_uri_set_query uri s =
    (if s \<noteq> None \<and> end_of_path (the s) PART_QUERY (uri_flags uri) \<noteq> [] then Rejected else Accepted (uri\<lparr>query := s\<rparr>))"

definition evhttp_uri_set_fragment :: "evhttp_uri \<Rightarrow> string option \<Rightarrow> evhttp_uri checked" where
  "evhttp_uri_set_fragment uri s =
    (if s \<noteq> None \<and> end_of_path (the s) PART_FRAGMENT (uri_flags uri) \<noteq> [] then Rejected else Accepted (uri\<lparr>fragment := s\<rparr>))"

section \<open>Facts on the scanners\<close>

lemma at0_simps [simp]: "at0 [] = CHR 0x00" "at0 (c # s) = c"
  by (simp_all add: at0_def)

lemma not_unreserved [simp]:
  "\<not> CHAR_IS_UNRESERVED CHR ''/''" "\<not> CHAR_IS_UNRESERVED CHR ''?''" "\<not> CHAR_IS_UNRESERVED CHR ''#''" "\<not> CHAR_IS_UNRESERVED CHR '':''"
  "\<not> CHAR_IS_UNRESERVED CHR ''@''" "\<not> CHAR_IS_UNRESERVED CHR ''[''" "\<not> CHAR_IS_UNRESERVED CHR '']''" "\<not> CHAR_IS_UNRESERVED CHR ''%''"
  "\<not> CHAR_IS_UNRESERVED CHR '' ''"
  by (simp_all add: CHAR_IS_UNRESERVED_def uri_chars_def nth_append)

lemma not_subdelim [simp]:
  "CHR ''/'' \<notin> set SUBDELIMS" "CHR ''?'' \<notin> set SUBDELIMS" "CHR ''#'' \<notin> set SUBDELIMS" "CHR '':'' \<notin> set SUBDELIMS"
  "CHR ''@'' \<notin> set SUBDELIMS" "CHR ''['' \<notin> set SUBDELIMS" "CHR '']'' \<notin> set SUBDELIMS" "CHR ''%'' \<notin> set SUBDELIMS"
  by (simp_all add: SUBDELIMS_def)

lemma not_xdigit [simp]:
  "\<not> EVUTIL_ISXDIGIT CHR ''/''" "\<not> EVUTIL_ISXDIGIT CHR ''?''" "\<not> EVUTIL_ISXDIGIT CHR ''#''" "\<not> EVUTIL_ISXDIGIT CHR '':''"
  "\<not> EVUTIL_ISXDIGIT CHR ''@''" "\<not> EVUTIL_ISXDIGIT CHR '']''" "\<not> EVUTIL_ISXDIGIT CHR 0x00"
  by (simp_all add: ISXDIGIT_iff digit_value_def)

text \<open>Characters that satisfy \<open>P\<close>, and escape sequences: what all scanners accept.\<close>

fun escaped_ok :: "(char \<Rightarrow> bool) \<Rightarrow> string \<Rightarrow> bool" where
  "escaped_ok P [] = True"
| "escaped_ok P (c # cs) =
    (if P c then escaped_ok P cs
     else c = CHR ''%'' \<and> (case cs of a # b # r \<Rightarrow> EVUTIL_ISXDIGIT a \<and> EVUTIL_ISXDIGIT b \<and> escaped_ok P r | _ \<Rightarrow> False))"

lemma escaped_ok_set: "escaped_ok P s \<Longrightarrow> c \<in> set s \<Longrightarrow> P c \<or> c = CHR ''%'' \<or> EVUTIL_ISXDIGIT c"
  by (induction P s rule: escaped_ok.induct) (auto split: if_splits list.splits)

lemma userinfo_ok_iff: "userinfo_ok s = escaped_ok (\<lambda>c. CHAR_IS_UNRESERVED c \<or> c \<in> set SUBDELIMS \<or> c = CHR '':'') s"
proof (induction s rule: userinfo_ok.induct)
  case (1 s)
  show ?case
  proof (cases s)
    case (Cons c cs)
    then show ?thesis
    proof (cases cs)
      case cs: (Cons a r)
      then show ?thesis using 1 Cons by (cases r) (auto simp: userinfo_ok.simps [of "c # a # _"])
    qed (use 1 Cons in \<open>simp add: userinfo_ok.simps [of "[c]"]\<close>)
  qed (simp add: userinfo_ok.simps)
qed

abbreviation reg_char :: "char \<Rightarrow> bool" where
  "reg_char c \<equiv> CHAR_IS_UNRESERVED c \<or> c \<in> set SUBDELIMS"

lemma regname_ok_iff: "\<not> EVUTIL_ISXDIGIT (at0 f) \<Longrightarrow> regname_ok (h @ f) (int (length h)) = escaped_ok reg_char h"
proof (induction reg_char h rule: escaped_ok.induct)
  case (2 c cs)
  have x: "regname_ok ((c # cs) @ f) (int (length (c # cs))) =
     (if reg_char c then regname_ok (cs @ f) (int (length cs))
      else c = CHR ''%'' \<and> EVUTIL_ISXDIGIT (at0 (cs @ f)) \<and> EVUTIL_ISXDIGIT (at0 (drop 1 (cs @ f))) \<and> regname_ok (drop 2 (cs @ f)) (int (length cs) - 2))"
    by (subst regname_ok.simps) (auto simp: at0_def)
  show ?case
  proof (cases "reg_char c")
    case False
    consider "cs = []" | a where "cs = [a]" | a b r where "cs = a # b # r" by (metis list.exhaust)
    then show ?thesis unfolding x using False 2 by cases (auto simp: at0_def)
  qed (use x 2 in auto)
qed (simp add: regname_ok.simps)

definition pchar :: "uri_part \<Rightarrow> char \<Rightarrow> bool" where
  "pchar part c \<longleftrightarrow> CHAR_IS_UNRESERVED c \<or> c \<in> set SUBDELIMS \<or> c = CHR '':'' \<or> c = CHR ''@'' \<or> c = CHR ''/'' \<or> (c = CHR ''?'' \<and> part \<noteq> PART_PATH)"

definition escape_at :: "string \<Rightarrow> bool" where
  "escape_at s \<longleftrightarrow> at0 s = CHR ''%'' \<and> EVUTIL_ISXDIGIT (at0 (drop 1 s)) \<and> EVUTIL_ISXDIGIT (at0 (drop 2 s))"

lemma escape_at_Cons3: "escape_at s \<Longrightarrow> \<exists>a b r. s = CHR ''%'' # a # b # r \<and> EVUTIL_ISXDIGIT a \<and> EVUTIL_ISXDIGIT b"
  by (cases s; cases "tl s"; cases "tl (tl s)") (auto simp: escape_at_def at0_def)

lemma end_of_pchars_cases:
  "end_of_pchars [] part = []"
  "pchar part c \<Longrightarrow> end_of_pchars (c # cs) part = end_of_pchars cs part"
  "\<not> pchar part c \<Longrightarrow> \<not> escape_at (c # cs) \<Longrightarrow> end_of_pchars (c # cs) part = c # cs"
  "\<not> pchar part CHR ''%'' \<Longrightarrow> EVUTIL_ISXDIGIT a \<Longrightarrow> EVUTIL_ISXDIGIT b \<Longrightarrow> end_of_pchars (CHR ''%'' # a # b # r) part = end_of_pchars r part"
  by (subst end_of_pchars.simps, force simp: pchar_def escape_at_def at0_def)+

lemma pchar_percent [simp]: "\<not> pchar part CHR ''%''"
  by (simp add: pchar_def)

lemma end_of_pchars_append:
  "escaped_ok (pchar part) p \<Longrightarrow> end_of_pchars (p @ r) part = end_of_pchars r part"
proof (induction "pchar part" p rule: escaped_ok.induct)
  case (2 c cs)
  then show ?case
    by (cases "pchar part c") (auto simp: end_of_pchars_cases split: list.splits)
qed simp

lemma end_of_pchars_suffix: "\<exists>p. s = p @ end_of_pchars s part \<and> escaped_ok (pchar part) p"
proof (induction s rule: length_induct)
  case (1 s)
  show ?case
  proof (cases s)
    case (Cons c cs)
    consider (plain) "pchar part c" | (esc) "\<not> pchar part c" "escape_at s" | (stop) "\<not> pchar part c" "\<not> escape_at s" by blast
    then show ?thesis
    proof cases
      case plain
      then obtain p where "cs = p @ end_of_pchars cs part" "escaped_ok (pchar part) p" using 1 Cons by auto
      then show ?thesis using plain by (intro exI [of _ "c # p"]) (simp add: Cons end_of_pchars_cases)
    next
      case esc
      then obtain a b r where r: "s = CHR ''%'' # a # b # r" "EVUTIL_ISXDIGIT a" "EVUTIL_ISXDIGIT b" using escape_at_Cons3 by blast
      then obtain p where "r = p @ end_of_pchars r part" "escaped_ok (pchar part) p" using 1 [rule_format, of r] by auto
      then show ?thesis using r by (intro exI [of _ "CHR ''%'' # a # b # p"]) (simp add: end_of_pchars_cases)
    next
      case stop
      then show ?thesis using Cons by (intro exI [of _ "[]"]) (simp add: end_of_pchars_cases)
    qed
  qed (simp add: end_of_pchars_cases)
qed

lemma end_of_pchars_Nil_iff: "end_of_pchars p part = [] \<longleftrightarrow> escaped_ok (pchar part) p"
  using end_of_pchars_suffix [of p part] end_of_pchars_append [of part p "[]"] by (auto simp: end_of_pchars_cases)

section \<open>Paths, queries and fragments\<close>

text \<open>What may follow a part.\<close>

definition part_end :: "uri_part \<Rightarrow> string \<Rightarrow> bool" where
  "part_end part r = (case part of PART_PATH \<Rightarrow> r = [] \<or> hd r = CHR ''?'' \<or> hd r = CHR ''#'' | PART_QUERY \<Rightarrow> r = [] \<or> hd r = CHR ''#'' | PART_FRAGMENT \<Rightarrow> r = [])"

lemma end_of_pchars_stop: "part_end part r \<Longrightarrow> end_of_pchars r part = r"
proof (cases r)
  case (Cons c cs)
  assume "part_end part r"
  then have "\<not> pchar part c" "\<not> escape_at (c # cs)" using Cons
    by (auto simp: part_end_def pchar_def escape_at_def at0_def split: uri_part.splits)
  then show ?thesis by (simp add: Cons end_of_pchars_cases)
qed (simp add: end_of_pchars_cases)

lemma end_of_path_append:
  assumes "end_of_path p part flags = []" "part_end part r"
  shows "end_of_path (p @ r) part flags = r"
proof (cases "flags AND EVHTTP_URI_NONCONFORMANT \<noteq> 0")
  case True
  then show ?thesis using assms
    by (cases part; cases r) (auto simp: end_of_path_def part_end_def dropWhile_append dropWhile_eq_Nil_conv split: if_splits)
next
  case False
  then show ?thesis using assms end_of_pchars_append [of part p r] end_of_pchars_stop [of part r]
    by (simp add: end_of_path_def end_of_pchars_Nil_iff)
qed

lemma end_of_path_suffix:
  "\<exists>p. s = p @ end_of_path s part flags \<and> end_of_path p part flags = []"
proof (cases "flags AND EVHTTP_URI_NONCONFORMANT \<noteq> 0")
  case True
  have "\<exists>p. s = p @ dropWhile P s \<and> dropWhile P p = []" for P :: "char \<Rightarrow> bool"
    by (rule exI [of _ "takeWhile P s"]) (simp add: dropWhile_eq_Nil_conv, metis set_takeWhileD)
  then show ?thesis using True by (cases part) (simp_all add: end_of_path_def)
next
  case False
  then show ?thesis using end_of_pchars_suffix [of s part] by (simp add: end_of_path_def end_of_pchars_Nil_iff)
qed

lemma text_upto_append [simp]: "text_upto (p @ e) e = p"
  by (simp add: text_upto_def)

lemma end_of_path_text_upto: "s = text_upto s (end_of_path s part flags) @ end_of_path s part flags" "end_of_path (text_upto s (end_of_path s part flags)) part flags = []"
proof -
  obtain p where p: "s = p @ end_of_path s part flags" "end_of_path p part flags = []" using end_of_path_suffix by blast
  then have "text_upto s (end_of_path s part flags) = p" using text_upto_append by metis
  then show "s = text_upto s (end_of_path s part flags) @ end_of_path s part flags" "end_of_path (text_upto s (end_of_path s part flags)) part flags = []"
    using p by simp_all
qed

section \<open>Well-formed URIs\<close>

text \<open>Each part has the form of its production, and the parts fit together.\<close>

definition part_ok :: "UInt32 \<Rightarrow> uri_part \<Rightarrow> string option \<Rightarrow> bool" where
  "part_ok flags part s = (case s of None \<Rightarrow> True | Some t \<Rightarrow> end_of_path t part flags = [])"

definition uri_ok :: "evhttp_uri \<Rightarrow> bool" where
  "uri_ok u \<longleftrightarrow> (case scheme u of None \<Rightarrow> True | Some s \<Rightarrow> scheme_ok s) \<and> (case userinfo u of None \<Rightarrow> True | Some s \<Rightarrow> userinfo_ok s)
    \<and> (case host u of None \<Rightarrow> True | Some h \<Rightarrow> host_ok h [] = Accepted True) \<and> - 1 \<le> port u
    \<and> part_ok (uri_flags u) PART_PATH (upath u) \<and> part_ok (uri_flags u) PART_QUERY (query u) \<and> part_ok (uri_flags u) PART_FRAGMENT (fragment u)"

definition path_fits :: "evhttp_uri \<Rightarrow> string \<Rightarrow> bool" where
  "path_fits u p \<longleftrightarrow>
    (if host u = None then \<not> (at0 p = CHR ''/'' \<and> at0 (drop 1 p) = CHR ''/'') else at0 p = CHR ''/'' \<or> p = [])
    \<and> (scheme u = None \<longrightarrow> path_matches_noscheme p)"

definition uri_fits :: "evhttp_uri \<Rightarrow> bool" where
  "uri_fits u \<longleftrightarrow> (host u = None \<longrightarrow> userinfo u = None \<and> port u = - 1) \<and> fits_int (port u)
    \<and> (\<exists>p. upath u = Some p \<and> path_fits u p)"

lemma parse_rest_text:
  assumes "part_ok (uri_flags u) PART_PATH (Some p)" "part_ok (uri_flags u) PART_QUERY q" "part_ok (uri_flags u) PART_FRAGMENT f"
    and "path_fits u p"
  shows "parse_rest u (host u \<noteq> None) (p @ opt_text ''?'' q @ opt_text ''#'' f) = Accepted (u\<lparr>upath := Some p, query := q, fragment := f\<rparr>)"
proof -
  have f: "part_end PART_QUERY (opt_text ''#'' f)" "part_end PART_PATH (opt_text ''?'' q @ opt_text ''#'' f)"
    by (auto simp: part_end_def opt_text_def split: option.splits)
  have e1: "end_of_path (p @ opt_text ''?'' q @ opt_text ''#'' f) PART_PATH (uri_flags u) = opt_text ''?'' q @ opt_text ''#'' f"
    using end_of_path_append assms(1) f(2) by (simp add: part_ok_def)
  have e2: "end_of_path (t @ opt_text ''#'' f) PART_QUERY (uri_flags u) = opt_text ''#'' f" if "q = Some t" for t
    using end_of_path_append assms(2) f(1) that by (simp add: part_ok_def)
  have fits: "\<not> (host u = None \<and> at0 p = CHR ''/'' \<and> at0 (drop 1 p) = CHR ''/'')" "\<not> (host u \<noteq> None \<and> at0 p \<noteq> CHR ''/'' \<and> p \<noteq> [])"
    "\<not> (scheme u = None \<and> \<not> path_matches_noscheme p)"
    using assms(4) by (auto simp: path_fits_def split: if_splits)
  have e3: "end_of_path t PART_FRAGMENT (uri_flags u) = []" if "f = Some t" for t using assms(3) that by (simp add: part_ok_def)
  have nil: "text_upto s [] = s" for s by (simp add: text_upto_def)
  show ?thesis
    unfolding parse_rest_def e1 Let_def text_upto_append using fits e2 e3
    by (cases q; cases f) (simp_all add: opt_text_def nil)
qed

lemma parse_rest_parts:
  assumes "parse_rest u (host u \<noteq> None) readp = Accepted u'"
  obtains p q f where "readp = p @ opt_text ''?'' q @ opt_text ''#'' f" "u' = u\<lparr>upath := Some p, query := q, fragment := f\<rparr>"
    "part_ok (uri_flags u) PART_PATH (Some p)" "part_ok (uri_flags u) PART_QUERY q" "part_ok (uri_flags u) PART_FRAGMENT f" "path_fits u p"
proof -
  define e1 where "e1 = end_of_path readp PART_PATH (uri_flags u)"
  define p where "p = text_upto readp e1"
  define e2 where "e2 = (if at0 e1 = CHR ''?'' then end_of_path (tl e1) PART_QUERY (uri_flags u) else e1)"
  define q where "q = (if at0 e1 = CHR ''?'' then Some (text_upto (tl e1) e2) else None)"
  define e3 where "e3 = (if at0 e2 = CHR ''#'' then end_of_path (tl e2) PART_FRAGMENT (uri_flags u) else e2)"
  define f where "f = (if at0 e2 = CHR ''#'' then Some (text_upto (tl e2) e3) else None)"
  have r: "e3 = []" "path_fits u p" "u' = u\<lparr>upath := Some p, query := q, fragment := f\<rparr>"
    using assms unfolding parse_rest_def Let_def e1_def [symmetric] p_def [symmetric] e2_def [symmetric] e3_def [symmetric]
    by (auto simp: path_fits_def q_def f_def split: if_splits)
  have p: "readp = p @ e1" "part_ok (uri_flags u) PART_PATH (Some p)"
    using end_of_path_text_upto [of readp PART_PATH "uri_flags u"] by (simp_all add: e1_def p_def part_ok_def)
  have q: "e1 = opt_text ''?'' q @ e2" "part_ok (uri_flags u) PART_QUERY q"
    using end_of_path_text_upto [of "tl e1" PART_QUERY "uri_flags u"] by (cases e1; auto simp: e2_def q_def part_ok_def opt_text_def)+
  have f: "e2 = opt_text ''#'' f @ e3" "part_ok (uri_flags u) PART_FRAGMENT f"
    using end_of_path_text_upto [of "tl e2" PART_FRAGMENT "uri_flags u"] by (cases e2; auto simp: e3_def f_def part_ok_def opt_text_def)+
  show thesis by (rule that [of p q f]) (use p q f r in simp_all)
qed

section \<open>The scheme\<close>

lemma not_alnum [simp]: "\<not> EVUTIL_ISALPHA CHR ''/''" "\<not> EVUTIL_ISALNUM CHR ''/''" "\<not> EVUTIL_ISALNUM CHR ''?''" "\<not> EVUTIL_ISALNUM CHR ''#''" "\<not> EVUTIL_ISALNUM CHR '':''"
  "\<not> EVUTIL_ISALPHA CHR ''?''" "\<not> EVUTIL_ISALPHA CHR ''#''" "\<not> EVUTIL_ISALPHA CHR '':''"
  by (simp_all add: EVUTIL_ISALPHA_def EVUTIL_ISALNUM_def ctype_table_def)

lemma scheme_ok_set: "scheme_ok s \<Longrightarrow> c \<in> set s \<Longrightarrow> c \<noteq> CHR '':'' \<and> c \<noteq> CHR ''/'' \<and> c \<noteq> CHR ''?'' \<and> c \<noteq> CHR ''#''"
  by (auto simp: scheme_ok_def list_all_iff split: list.splits)

lemma split_scheme_Some: "scheme_ok s \<Longrightarrow> split_scheme (s @ CHR '':'' # r) = (Some s, r)"
  using scheme_ok_set [of s] span_component [of s "\<lambda>c. c \<noteq> CHR '':''" "CHR '':''" r] by (simp add: split_scheme_def)

lemma split_scheme_None:
  assumes "CHR '':'' \<in> set t \<Longrightarrow> \<exists>c\<in>set (takeWhile (\<lambda>c. c \<noteq> CHR '':'') t). c = CHR ''/'' \<or> c = CHR ''?'' \<or> c = CHR ''#''"
  shows "split_scheme t = (None, t)"
proof (cases "CHR '':'' \<in> set t")
  case True
  then have "\<not> scheme_ok (takeWhile (\<lambda>c. c \<noteq> CHR '':'') t)" using assms scheme_ok_set by blast
  then show ?thesis by (simp add: split_scheme_def)
next
  case False
  then have "dropWhile (\<lambda>c. c \<noteq> CHR '':'') t = []" by (auto simp: dropWhile_eq_Nil_conv)
  then show ?thesis by (simp add: split_scheme_def)
qed

lemma split_scheme_slash: "split_scheme (CHR ''/'' # t) = (None, CHR ''/'' # t)"
  by (rule split_scheme_None) simp

lemma noscheme_cases: "path_matches_noscheme p \<Longrightarrow> CHR '':'' \<notin> set p \<or> (\<exists>x y. p = x @ CHR ''/'' # y \<and> CHR '':'' \<notin> set x)"
proof (induction p rule: path_matches_noscheme.induct)
  case (2 c cs)
  then show ?case
    by (cases "c = CHR ''/''") (auto split: if_splits, metis append_Nil empty_iff empty_set, metis append_Cons set_ConsD)
qed simp

lemma split_scheme_path:
  assumes "path_matches_noscheme p" "part_end PART_PATH r"
  shows "split_scheme (p @ r) = (None, p @ r)"
proof (rule split_scheme_None)
  assume c: "CHR '':'' \<in> set (p @ r)"
  show "\<exists>c\<in>set (takeWhile (\<lambda>c. c \<noteq> CHR '':'') (p @ r)). c = CHR ''/'' \<or> c = CHR ''?'' \<or> c = CHR ''#''"
    using noscheme_cases [OF assms(1)]
  proof
    assume n: "CHR '':'' \<notin> set p"
    then have "takeWhile (\<lambda>c. c \<noteq> CHR '':'') (p @ r) = p @ takeWhile (\<lambda>c. c \<noteq> CHR '':'') r" by (intro takeWhile_append2) auto
    then show ?thesis using assms(2) c n by (cases r) (auto simp: part_end_def)
  next
    assume "\<exists>x y. p = x @ CHR ''/'' # y \<and> CHR '':'' \<notin> set x"
    then obtain x y where "p = x @ CHR ''/'' # y" "CHR '':'' \<notin> set x" by blast
    moreover have "takeWhile (\<lambda>c. c \<noteq> CHR '':'') (x @ CHR ''/'' # y @ r) = x @ takeWhile (\<lambda>c. c \<noteq> CHR '':'') (CHR ''/'' # y @ r)"
      by (rule takeWhile_append2) (use calculation in auto)
    ultimately show ?thesis by auto
  qed
qed

section \<open>The authority\<close>

text \<open>Characters of which none ends the authority or the user information.\<close>

definition inside :: "char \<Rightarrow> bool" where
  "inside c \<longleftrightarrow> c \<noteq> CHR ''/'' \<and> c \<noteq> CHR ''?'' \<and> c \<noteq> CHR ''#'' \<and> c \<noteq> CHR ''@''"

lemma inside_chars:
  "CHAR_IS_UNRESERVED c \<Longrightarrow> inside c" "c \<in> set SUBDELIMS \<Longrightarrow> inside c" "EVUTIL_ISXDIGIT c \<Longrightarrow> inside c" "digit_value c < 16 \<Longrightarrow> inside c"
  "is_space c \<Longrightarrow> inside c"
  by (auto simp: inside_def digit_value_def is_space_def)

lemma inside_userinfo: "userinfo_ok s \<Longrightarrow> c \<in> set s \<Longrightarrow> inside c"
  using escaped_ok_set [of _ s c] inside_chars [of c] by (auto simp: userinfo_ok_iff) (auto simp: inside_def)

lemma inside_regname: "escaped_ok reg_char s \<Longrightarrow> c \<in> set s \<Longrightarrow> inside c \<and> c \<noteq> CHR '':''"
  using escaped_ok_set [of reg_char s c] inside_chars [of c] by (auto simp: inside_def)

lemma inside_scan_d:
  assumes "scan_d s = Accepted (v, r)" "\<forall>c\<in>set r. inside c" "c \<in> set s"
  shows "inside c"
proof -
  let ?t = "dropWhile is_space s"
  let ?u = "if ?t \<noteq> [] \<and> (hd ?t = CHR ''-'' \<or> hd ?t = CHR ''+'') then tl ?t else ?t"
  have r: "r = dropWhile (\<lambda>c. digit_value c < 10) ?u" using assms(1) by (auto simp: scan_d_def Let_def split: if_splits)
  have u: "inside c" if "c \<in> set ?u" for c
  proof -
    have "c \<in> set (takeWhile (\<lambda>c. digit_value c < 10) ?u) \<or> c \<in> set r" using that r by (metis Un_iff set_append takeWhile_dropWhile_id)
    then show ?thesis using assms(2) set_takeWhileD [of c "\<lambda>c. digit_value c < 10" ?u] inside_chars(4) [of c] by fastforce
  qed
  have "inside c" if "c \<in> set ?t" for c
  proof -
    have "c \<in> set ?u \<or> c = CHR ''-'' \<or> c = CHR ''+''" using that by (cases ?t) auto
    then show ?thesis using u [of c] by (auto simp: inside_def)
  qed
  moreover have "c \<in> set (takeWhile is_space s) \<or> c \<in> set ?t" using assms(3) by (metis Un_iff set_append takeWhile_dropWhile_id)
  ultimately show ?thesis using set_takeWhileD [of c is_space s] inside_chars(5) by blast
qed

lemma inside_scan_dot: "scan_dot s = Accepted r \<Longrightarrow> \<forall>c\<in>set r. inside c \<Longrightarrow> \<forall>c\<in>set s. inside c"
  by (cases s) (auto simp: scan_dot_def inside_def split: if_splits)

lemma inside_quad:
  assumes "sscanf_quad s = Accepted v" "c \<in> set s"
  shows "inside c"
proof -
  obtain a s1 s2 b s3 s4 c' s5 s6 d where q: "scan_d s = Accepted (a, s1)" "scan_dot s1 = Accepted s2" "scan_d s2 = Accepted (b, s3)"
    "scan_dot s3 = Accepted s4" "scan_d s4 = Accepted (c', s5)" "scan_dot s5 = Accepted s6" "scan_d s6 = Accepted (d, [])"
    using assms(1) unfolding sscanf_quad_def by (auto simp: checked_bind_Accepted_iff split: if_splits)
  have "\<forall>c\<in>set s6. inside c" using inside_scan_d [OF q(7)] by simp
  then have "\<forall>c\<in>set s4. inside c" using inside_scan_d [OF q(5)] inside_scan_dot [OF q(6)] by blast
  then have "\<forall>c\<in>set s2. inside c" using inside_scan_d [OF q(3)] inside_scan_dot [OF q(4)] by blast
  then show ?thesis using inside_scan_d [OF q(1)] inside_scan_dot [OF q(2)] assms(2) by blast
qed

lemma strtol16_chars:
  assumes "strtol16 s = (r, k)" "c \<in> set (take k s)"
  shows "inside c"
proof -
  define t where "t = strip_0x 16 s"
  define h where "h = takeWhile (\<lambda>c. digit_value c < 16) t"
  obtain x where x: "s = x @ t" "\<forall>c\<in>set x. inside c"
  proof (cases "t = s")
    case True
    then show ?thesis by (intro that [of "[]"]) auto
  next
    case False
    then have "t = drop 2 s" "2 < length s" "s ! 0 = CHR ''0''" "s ! 1 = CHR ''x'' \<or> s ! 1 = CHR ''X''" by (auto simp: t_def strip_0x_def split: if_splits)
    moreover from this obtain a b r where "s = a # b # r" by (cases s; cases "tl s") auto
    ultimately show ?thesis by (intro that [of "take 2 s"]) (auto simp: inside_def)
  qed
  have "strtol16 s = (digits_value 16 0 t, length s - length t + length h)" by (simp add: strtol16_def t_def h_def Let_def)
  then have "k = length s - length t + length h" using assms(1) by simp
  moreover have "length s = length x + length t" using arg_cong [OF x(1), of length] by simp
  ultimately have "k = length x + length h" by simp
  moreover have "take (length x + length h) (x @ t) = x @ take (length h) t" by simp
  ultimately have "take k s = x @ take (length h) t" using x(1) by metis
  also have "take (length h) t = h" using takeWhile_eq_take [of "\<lambda>c. digit_value c < 16" t] by (metis h_def)
  finally have "c \<in> set x \<or> c \<in> set h" using assms(2) by simp
  then show ?thesis using x(2) inside_chars(4) [of c] set_takeWhileD [of c _ t] by (auto simp: h_def)
qed

lemma set_take_split: "c \<in> set (take m s) \<Longrightarrow> c \<in> set (take j s) \<or> c \<in> set (take (m - j) (drop j s))"
  by (metis Un_iff append_take_drop_id drop_take in_set_takeD min.commute set_append take_take in_set_dropD)

lemma inside_pton6_loop:
  assumes "pton6_loop s n st = Some st'" "n \<le> int (length s)" "c \<in> set (take (nat n) s)"
  shows "inside c"
  using assms
proof (induction s n st rule: pton6_loop.induct)
  case (1 src n st)
  have n: "0 < n" using 1(6) by (cases "0 < n") auto
  obtain d ds where src: "src = d # ds" using n 1(5) by (cases src) auto
  consider (hex) r k where "EVUTIL_ISXDIGIT (at0 src)" "strtol16 src = (r, k)" "\<not> (4 < k \<or> k = 0 \<or> 65536 < r)" "at0 (drop k src) = CHR '':'' \<or> n - int k = 0"
      "pton6_loop (drop 1 (drop k src)) (n - int k - 1) (set_word r st) = Some st'"
    | (colon) "\<not> EVUTIL_ISXDIGIT (at0 src)" "at0 src = CHR '':'' \<and> 0 < word_no st \<and> gapPos st = None" "pton6_loop (drop 1 src) (n - 1) (st\<lparr>gapPos := Some (word_no st)\<rparr>) = Some st'"
    | (colons) "\<not> EVUTIL_ISXDIGIT (at0 src)" "\<not> (at0 src = CHR '':'' \<and> 0 < word_no st \<and> gapPos st = None)"
      "at0 src = CHR '':'' \<and> word_no st = 0 \<and> at0 (drop 1 src) = CHR '':'' \<and> gapPos st = None" "pton6_loop (drop 2 src) (n - 2) (st\<lparr>gapPos := Some (word_no st)\<rparr>) = Some st'"
    using 1(4) n by (subst (asm) pton6_loop.simps) (auto simp: Let_def split: if_splits prod.splits)
  moreover have w: "\<not> 7 < word_no st" using 1(4) n by (subst (asm) pton6_loop.simps) (auto split: if_splits)
  ultimately show ?case
  proof cases
    case hex
    consider "c \<in> set (take k src)" | "n - int k \<noteq> 0" "c \<in> set (take (nat n - k) (drop k src))"
    proof -
      have "nat n - k = 0" if "n - int k = 0" using that by simp
      then show ?thesis using that set_take_split [OF 1(6), of k] by (cases "n - int k = 0") auto
    qed
    then show ?thesis
    proof cases
      case 2
      then obtain r' where r': "drop k src = CHR '':'' # r'" using hex(4) by (cases "drop k src") auto
      then have "c = CHR '':'' \<or> c \<in> set (take (nat (n - int k - 1)) r')"
        using 2(2) by (auto simp: take_Cons' nat_diff_distrib' split: if_splits)
      moreover have "length r' + k + 1 = length src" using arg_cong [OF r', of length] by simp
      ultimately show ?thesis using 1(1) [OF _ _ hex(1)] n w hex r' 1(5) by (auto simp: inside_def)
    qed (use strtol16_chars hex in blast)
  next
    case colon
    have "c = CHR '':'' \<or> c \<in> set (take (nat (n - 1)) ds)" using 1(6) colon n set_take_split [of c "nat n" src 1] by (auto simp: src nat_diff_distrib)
    then show ?thesis using 1(2) n w colon 1(5) src by (auto simp: inside_def)
  next
    case colons
    then obtain es where es: "ds = CHR '':'' # es" using src by (cases ds) auto
    have "nat n - 2 = nat (n - 2)" by arith
    then have "c = CHR '':'' \<or> c \<in> set (take (nat (n - 2)) es)" using 1(6) colons n set_take_split [of c "nat n" src 2] by (auto simp: src es nat_diff_distrib)
    then show ?thesis using 1(3) n w colons 1(5) src es by (auto simp: inside_def)
  qed
qed

lemma inside_pton6:
  assumes "inet_pton6 s = Accepted a" "c \<in> set s"
  shows "inside c"
proof -
  obtain n st0 st where st: "pton6_start s = Accepted (n, st0)" "pton6_loop s (int n) st0 = Some st"
    using assms(1) by (auto simp: inet_pton6_def checked_bind_Accepted_iff split: option.splits)
  have "n \<le> length s \<and> (\<forall>c\<in>set (drop n s). inside c)"
  proof (cases "CHR ''.'' \<in> set s")
    case True
    have dots: "at0 s \<noteq> CHR ''.''" using st(1) by (auto simp: pton6_start_def)
    obtain v where v1: "sscanf_quad (drop (end_of_words s) s) = Accepted v"
      using st(1) True dots by (cases "sscanf_quad (drop (end_of_words s) s)") (simp_all add: pton6_start_def)
    have v: "sscanf_quad (drop (end_of_words s) s) = Accepted v" "n = end_of_words s"
      using st(1) True dots v1 by (simp_all add: pton6_start_def split: prod.splits if_splits)
    have "end_of_words s \<le> length s" using length_takeWhile_le [of "\<lambda>c. c \<noteq> CHR ''.''" s] by (simp add: end_of_words_def Let_def)
    then show ?thesis using v(2) inside_quad [OF v(1)] by simp
  next
    case False
    then show ?thesis using st(1) by (auto simp: pton6_start_def Let_def split: if_splits)
  qed
  moreover have "c \<in> set (take n s) \<or> c \<in> set (drop n s)" using assms(2) by (metis Un_iff append_take_drop_id set_append)
  ultimately show ?thesis using inside_pton6_loop [OF st(2)] by auto
qed

lemma bracket_chars:
  assumes "bracket_addr_ok h = Accepted k" "c \<in> set h"
  shows "inside c"
proof -
  have h: "3 \<le> length h" "h ! 0 = CHR ''[''" "last h = CHR '']''" using assms(1) by (auto simp: bracket_addr_ok_def split: if_splits)
  then have "h = CHR ''['' # butlast (tl h) @ [CHR '']'']" by (cases h) (auto split: if_splits, metis append_butlast_last_id)
  then have c: "c = CHR ''['' \<or> c = CHR '']'' \<or> c \<in> set (butlast (tl h))" using assms(2) by (metis Un_iff empty_iff empty_set set_ConsD set_append)
  show ?thesis
  proof (cases "h ! 1 = CHR ''v''")
    case True
    let ?t = "drop 2 (butlast h)"
    let ?d = "takeWhile (\<lambda>c. c \<noteq> CHR ''.'') ?t" and ?r = "dropWhile (\<lambda>c. c \<noteq> CHR ''.'') ?t"
    have ok: "list_all EVUTIL_ISXDIGIT ?d" "?r \<noteq> []" "list_all (\<lambda>c. CHAR_IS_UNRESERVED c \<or> c \<in> set SUBDELIMS \<or> c = CHR '':'') (tl ?r)"
      using assms(1) True h by (auto simp: bracket_addr_ok_def Let_def split: if_splits)
    have "butlast (tl h) = CHR ''v'' # ?t" using h True by (cases h; cases "tl h") auto
    moreover have "set ?t = set ?d \<union> set ?r" by (metis set_append takeWhile_dropWhile_id)
    moreover have "set ?r = insert CHR ''.'' (set (tl ?r))" using ok(2) hd_dropWhile [OF ok(2)] by (cases ?r) auto
    ultimately have "c \<in> {CHR ''['', CHR '']'', CHR ''v'', CHR ''.''} \<or> c \<in> set ?d \<or> c \<in> set (tl ?r)"
      using c by auto
    then show ?thesis using ok inside_chars [of c] by (auto simp: list_all_iff inside_def)
  next
    case False
    then obtain a where "inet_pton6 (butlast (tl h)) = Accepted a"
      using assms(1) by (auto simp: bracket_addr_ok_def checked_bind_Accepted_iff split: if_splits)
    then show ?thesis using c inside_pton6 by (auto simp: inside_def)
  qed
qed

lemma host_ok_Accepted: "host_ok h f \<noteq> Accepted False"
  by (auto simp: host_ok_def checked_bind_Accepted_iff)

lemma host_ok_follow:
  assumes "\<not> EVUTIL_ISXDIGIT (at0 f)"
  shows "host_ok h f = host_ok h []"
  using regname_ok_iff [OF assms, of h] regname_ok_iff [of "[]" h] by (simp add: host_ok_def)

lemma host_chars:
  assumes "host_ok h [] = Accepted b" "c \<in> set h"
  shows "inside c"
proof (cases "2 \<le> length h \<and> hd h = CHR ''['' \<and> last h = CHR '']''")
  case True
  then show ?thesis using assms bracket_chars by (auto simp: host_ok_def checked_bind_Accepted_iff)
next
  case False
  then show ?thesis using assms regname_ok_iff [of "[]" h] inside_regname [of h c] by (auto simp: host_ok_def split: if_splits)
qed

section \<open>Parsing inverts joining\<close>

lemma of_char_digit: "digit_value c < 10 \<Longrightarrow> (of_char c :: int) = 48 + int (digit_value c)"
proof -
  assume "digit_value c < 10"
  then have "(of_char c :: nat) = 48 + digit_value c" by (auto simp: digit_value_def Let_def split: if_splits)
  then have "int (of_char c) = 48 + int (digit_value c)" by simp
  then show ?thesis by (simp add: of_nat_of_char)
qed

lemma digits_value_ge: "acc \<le> digits_value 10 acc ds"
proof (induction ds arbitrary: acc)
  case (Cons d ds)
  then show ?case using le_trans [OF _ Cons.IH [of "acc * 10 + digit_value d"], of acc] by simp
qed simp

lemma parse_port_digits:
  "\<forall>c\<in>set ds. digit_value c < 10 \<Longrightarrow> digits_value 10 acc ds < 2 ^ 31 \<Longrightarrow> parse_port_loop (int acc) ds = Accepted (int (digits_value 10 acc ds))"
proof (induction ds arbitrary: acc)
  case (Cons c cs)
  have d: "digit_value c < 10" using Cons.prems(1) by simp
  have b: "acc * 10 + digit_value c < 2 ^ 31" using digits_value_ge [of "acc * 10 + digit_value c" cs] Cons.prems(2) d by simp
  have e: "int acc * 10 + (of_char c - 48) = int (acc * 10 + digit_value c)" using of_char_digit [OF d] by simp
  have "fits_int (int (acc * 10 + digit_value c))" using b unfolding fits_int_def by (simp flip: of_nat_power add: of_nat_less_iff)
  then show ?case using Cons.IH [of "acc * 10 + digit_value c"] Cons.prems d unfolding parse_port_loop.simps e by (simp add: ISDIGIT_iff)
qed simp

lemma parse_port_print: "n < 2 ^ 31 \<Longrightarrow> parse_port (print_d n) = Accepted (int n)"
  using parse_port_digits [of "print_d n" 0] print_radix_digits [of 10 _ n] digits_value_print [of 10 n] by (simp add: parse_port_def)

lemma parse_port_range: "parse_port_loop a s = Accepted p \<Longrightarrow> 0 \<le> a \<Longrightarrow> fits_int a \<Longrightarrow> 0 \<le> p \<and> fits_int p"
  by (induction a s rule: parse_port_loop.induct) (auto simp: Let_def split: if_splits)

lemma split_port_none:
  assumes "host_ok h [] = Accepted b"
  shows "split_port h = Accepted (h, - 1, [])"
proof (cases "2 \<le> length h \<and> hd h = CHR ''['' \<and> last h = CHR '']''")
  case True
  then obtain l where l: "rev h = CHR '']'' # l" by (cases h rule: rev_cases) auto
  have "\<not> EVUTIL_ISDIGIT CHR '']''" by (simp add: ISDIGIT_iff digit_value_def)
  then show ?thesis by (simp add: split_port_def l)
next
  case False
  then have "CHR '':'' \<notin> set h" using assms regname_ok_iff [of "[]" h] inside_regname [of h] by (auto simp: host_ok_def split: if_splits)
  then have "CHR '':'' \<notin> set (dropWhile EVUTIL_ISDIGIT (rev h))" using set_dropWhileD [of "CHR '':''" EVUTIL_ISDIGIT "rev h"] by auto
  then have "dropWhile EVUTIL_ISDIGIT (rev h) = [] \<or> hd (dropWhile EVUTIL_ISDIGIT (rev h)) \<noteq> CHR '':''" by (metis hd_in_set)
  then show ?thesis by (auto simp: split_port_def)
qed

lemma split_port_print: "n < 2 ^ 31 \<Longrightarrow> split_port (h @ CHR '':'' # print_d n) = Accepted (h, int n, CHR '':'' # print_d n)"
proof -
  assume n: "n < 2 ^ 31"
  have d: "\<forall>c\<in>set (rev (print_d n)). EVUTIL_ISDIGIT c" using print_radix_digits [of 10 _ n] by (simp add: ISDIGIT_iff)
  have "\<not> EVUTIL_ISDIGIT CHR '':''" by (simp add: ISDIGIT_iff digit_value_def)
  then have "takeWhile EVUTIL_ISDIGIT (rev (print_d n) @ CHR '':'' # rev h) = rev (print_d n)"
    "dropWhile EVUTIL_ISDIGIT (rev (print_d n) @ CHR '':'' # rev h) = CHR '':'' # rev h"
    using span_component [OF d] by auto
  moreover have "print_d n \<noteq> []" using print_radix_Cons [of 10 n] by auto
  ultimately show ?thesis using parse_port_print [OF n] by (simp add: split_port_def)
qed

definition port_text :: "int \<Rightarrow> string" where
  "port_text p = (if 0 \<le> p then CHR '':'' # print_d (nat p) else [])"

lemma split_port_text:
  assumes "host_ok h [] = Accepted b" "- 1 \<le> p" "fits_int p"
  shows "\<exists>behind. split_port (h @ port_text p) = Accepted (h, p, behind) \<and> (behind = [] \<or> hd behind = CHR '':'')"
proof (cases "0 \<le> p")
  case True
  then have "nat p < 2 ^ 31" using assms(3) by (simp add: fits_int_def nat_less_iff)
  then show ?thesis using split_port_print [of "nat p" h] True by (simp add: port_text_def)
next
  case False
  then have "p = - 1" using assms(2) by simp
  then show ?thesis using split_port_none [OF assms(1)] by (simp add: port_text_def)
qed

definition user_text :: "string option \<Rightarrow> string" where
  "user_text u = (case u of None \<Rightarrow> [] | Some t \<Rightarrow> t @ ''@'')"

lemma authority_text_eq: "authority_text u h = ''//'' @ user_text (userinfo u) @ h @ port_text (port u)"
  by (simp add: authority_text_def user_text_def port_text_def)

lemma port_text_inside: "c \<in> set (port_text p) \<Longrightarrow> inside c"
  using print_radix_digits [of 10 c "nat p"] inside_chars(4) [of c] by (auto simp: port_text_def inside_def split: if_splits)

lemma parse_authority_text:
  assumes "case ui of None \<Rightarrow> True | Some s \<Rightarrow> userinfo_ok s" "host_ok h [] = Accepted True" "- 1 \<le> p" "fits_int p" "\<not> EVUTIL_ISXDIGIT (at0 r)"
    and "userinfo u = None" "port u = - 1"
  shows "parse_authority u (user_text ui @ h @ port_text p) r = Accepted (u\<lparr>userinfo := ui, port := p, host := Some h\<rparr>)"
proof (cases "user_text ui @ h @ port_text p = []")
  case True
  then have "ui = None" "h = []" "p = - 1" using assms(3) by (auto simp: user_text_def port_text_def split: option.splits if_splits)
  moreover have "u\<lparr>userinfo := None, port := - 1\<rparr> = u" using assms(6,7) by simp
  ultimately show ?thesis by (simp add: parse_authority_def user_text_def port_text_def)
next
  case False
  obtain behind where b: "split_port (h @ port_text p) = Accepted (h, p, behind)" "behind = [] \<or> hd behind = CHR '':''"
    using split_port_text [OF assms(2-4)] by blast
  then have "\<not> EVUTIL_ISXDIGIT (at0 (behind @ r))" using assms(5) by (cases behind) auto
  then have ok: "host_ok h (behind @ r) = Accepted True" using host_ok_follow [of "behind @ r" h] assms(2) by simp
  have hp: "\<forall>c\<in>set (h @ port_text p). c \<noteq> CHR ''@''" using host_chars [OF assms(2)] port_text_inside by (auto simp: inside_def)
  show ?thesis
  proof (cases ui)
    case None
    have "takeWhile (\<lambda>c. c \<noteq> CHR ''@'') (h @ port_text p) = h @ port_text p" "dropWhile (\<lambda>c. c \<noteq> CHR ''@'') (h @ port_text p) = []"
      using span_name [OF hp] by simp_all
    then show ?thesis using False None b(1) ok assms(6) by (auto simp: parse_authority_def user_text_def)
  next
    case (Some t)
    then have t: "\<forall>c\<in>set t. c \<noteq> CHR ''@''" "userinfo_ok t" using assms(1) inside_userinfo by (auto simp: inside_def)
    have "takeWhile (\<lambda>c. c \<noteq> CHR ''@'') (t @ CHR ''@'' # h @ port_text p) = t"
      "dropWhile (\<lambda>c. c \<noteq> CHR ''@'') (t @ CHR ''@'' # h @ port_text p) = CHR ''@'' # h @ port_text p"
      using span_component [OF t(1)] by simp_all
    then show ?thesis using Some b(1) ok t(2) by (simp add: parse_authority_def user_text_def)
  qed
qed

lemma end_of_authority_append:
  assumes "\<forall>c\<in>set a. c \<noteq> CHR ''/'' \<and> c \<noteq> CHR ''?'' \<and> c \<noteq> CHR ''#''" "r = [] \<or> hd r = CHR ''/'' \<or> hd r = CHR ''?'' \<or> hd r = CHR ''#''"
  shows "end_of_authority (a @ r) = r"
  using assms by (cases r) (auto simp: end_of_authority_def dropWhile_append dropWhile_eq_Nil_conv)

lemma uri_text_parsed:
  assumes ok: "uri_ok u" and fits: "uri_fits u"
  shows "evhttp_uri_parse_with_flags (uri_text u) (uri_flags u) = Accepted u"
proof -
  obtain p where p: "upath u = Some p" "path_fits u p" using fits by (auto simp: uri_fits_def)
  define R where "R = p @ opt_text ''?'' (query u) @ opt_text ''#'' (fragment u)"
  have parts: "part_ok (uri_flags u) PART_PATH (Some p)" "part_ok (uri_flags u) PART_QUERY (query u)" "part_ok (uri_flags u) PART_FRAGMENT (fragment u)"
    using ok p by (simp_all add: uri_ok_def)
  have q: "part_end PART_PATH (opt_text ''?'' (query u) @ opt_text ''#'' (fragment u))"
    by (auto simp: part_end_def opt_text_def split: option.splits)
  define u0 where "u0 = evhttp_uri_new\<lparr>uri_flags := uri_flags u, scheme := scheme u\<rparr>"
  have rest: "parse_rest u1 (host u1 \<noteq> None) R = Accepted u" if "u1 = u0\<lparr>userinfo := userinfo u, port := port u, host := host u\<rparr>" for u1
  proof -
    have "path_fits u1 p" "uri_flags u1 = uri_flags u" using p(2) that by (auto simp: path_fits_def u0_def evhttp_uri_new_def split: if_splits)
    moreover have "u1\<lparr>upath := Some p, query := query u, fragment := fragment u\<rparr> = u" using p(1) that by (cases u) (simp add: u0_def evhttp_uri_new_def)
    ultimately show ?thesis using parse_rest_text [of u1 p "query u" "fragment u"] parts by (simp add: R_def)
  qed
  show ?thesis
  proof (cases "host u")
    case None
    then have u1: "u0 = u0\<lparr>userinfo := userinfo u, port := port u, host := host u\<rparr>" using fits by (simp add: u0_def uri_fits_def evhttp_uri_new_def)
    have sch: "split_scheme (uri_text u) = (scheme u, R)"
    proof (cases "scheme u")
      case None
      then show ?thesis using p \<open>host u = None\<close> split_scheme_path [OF _ q, of p] by (simp add: uri_text_def R_def opt_text_def [of "[]"] path_fits_def)
    next
      case (Some s)
      then show ?thesis using ok p \<open>host u = None\<close> split_scheme_Some [of s R] by (simp add: uri_text_def R_def opt_text_def [of "[]"] uri_ok_def)
    qed
    have "\<not> (at0 R = CHR ''/'' \<and> at0 (drop 1 R) = CHR ''/'')"
    proof -
      have "\<not> (at0 p = CHR ''/'' \<and> at0 (drop 1 p) = CHR ''/'')" using p(2) None by (simp add: path_fits_def)
      then show ?thesis using q by (cases p; cases "tl p") (auto simp: R_def part_end_def at0_def split: list.splits)
    qed
    then show ?thesis using sch rest [OF u1] None
      by (auto simp: evhttp_uri_parse_with_flags_def u0_def evhttp_uri_new_def)
  next
    case (Some h)
    define A where "A = user_text (userinfo u) @ h @ port_text (port u)"
    have h: "host_ok h [] = Accepted True" "case userinfo u of None \<Rightarrow> True | Some s \<Rightarrow> userinfo_ok s" using ok Some by (simp_all add: uri_ok_def)
    have "inside c \<or> c = CHR ''@''" if "c \<in> set A" for c
      using that host_chars [OF h(1), of c] port_text_inside [of c "port u"] h(2) inside_userinfo [of _ c] by (auto simp: A_def user_text_def split: option.splits)
    then have "\<forall>c\<in>set A. c \<noteq> CHR ''/'' \<and> c \<noteq> CHR ''?'' \<and> c \<noteq> CHR ''#''" by (force simp: inside_def)
    moreover have r: "R = [] \<or> hd R = CHR ''/'' \<or> hd R = CHR ''?'' \<or> hd R = CHR ''#''"
      using p(2) Some q by (cases p) (auto simp: R_def path_fits_def part_end_def)
    ultimately have e: "end_of_authority (A @ R) = R" by (rule end_of_authority_append)
    have sch: "split_scheme (uri_text u) = (scheme u, ''//'' @ A @ R)"
    proof (cases "scheme u")
      case None
      then show ?thesis using p Some split_scheme_slash [of "CHR ''/'' # A @ R"] by (simp add: uri_text_def R_def A_def authority_text_eq opt_text_def [of "[]"])
    next
      case sc: (Some s)
      then show ?thesis using ok p Some split_scheme_Some [of s "''//'' @ A @ R"] by (simp add: uri_text_def R_def A_def authority_text_eq opt_text_def [of "[]"] uri_ok_def)
    qed
    have "\<not> EVUTIL_ISXDIGIT (at0 R)" using r by (cases R) auto
    then have "parse_authority u0 A R = Accepted (u0\<lparr>userinfo := userinfo u, port := port u, host := Some h\<rparr>)"
      unfolding A_def using h ok fits by (intro parse_authority_text) (auto simp: u0_def evhttp_uri_new_def uri_ok_def uri_fits_def)
    then show ?thesis using sch rest [of "u0\<lparr>userinfo := userinfo u, port := port u, host := Some h\<rparr>"] Some e
      by (simp add: evhttp_uri_parse_with_flags_def u0_def [symmetric])
  qed
qed

section \<open>What parsing and setting yield\<close>

lemma split_port_result:
  assumes "split_port h0 = Accepted (h, p, behind)"
  shows "- 1 \<le> p \<and> fits_int p \<and> (behind = [] \<or> hd behind = CHR '':'')"
proof -
  have "0 \<le> q \<and> fits_int q" if "parse_port s = Accepted q" for s q
    using parse_port_range [of 0 s q] that by (simp add: parse_port_def fits_int_def)
  moreover have "fits_int (- 1)" by (simp add: fits_int_def)
  ultimately show ?thesis using assms by (fastforce simp: split_port_def Let_def checked_bind_Accepted_iff split: if_splits)
qed

lemma parse_authority_result:
  assumes "parse_authority u a r = Accepted u'" "\<not> EVUTIL_ISXDIGIT (at0 r)" "userinfo u = None" "port u = - 1"
  obtains ui h p where "u' = u\<lparr>userinfo := ui, port := p, host := Some h\<rparr>" "case ui of None \<Rightarrow> True | Some s \<Rightarrow> userinfo_ok s"
    "host_ok h [] = Accepted True" "- 1 \<le> p" "fits_int p"
proof (cases "a = []")
  case True
  have "host_ok [] [] = Accepted True" by (simp add: host_ok_def regname_ok.simps)
  moreover have "u' = u\<lparr>userinfo := None, port := - 1, host := Some []\<rparr>" using assms True by (cases u) (auto simp: parse_authority_def)
  ultimately show ?thesis by (intro that [of "[]" "- 1" None]) (simp_all add: fits_int_def)
next
  case False
  define ui cp where "ui = takeWhile (\<lambda>c. c \<noteq> CHR ''@'') a" and "cp = dropWhile (\<lambda>c. c \<noteq> CHR ''@'') a"
  obtain h p behind b where s: "split_port (if cp \<noteq> [] then tl cp else a) = Accepted (h, p, behind)" "host_ok h (behind @ r) = Accepted b"
    "u' = (if cp \<noteq> [] then u\<lparr>userinfo := Some ui\<rparr> else u)\<lparr>port := p, host := Some h\<rparr>" "cp \<noteq> [] \<longrightarrow> userinfo_ok ui"
    using assms(1) False unfolding parse_authority_def Let_def ui_def [symmetric] cp_def [symmetric]
    by (auto simp: checked_bind_Accepted_iff split: if_splits)
  have r: "- 1 \<le> p" "fits_int p" "behind = [] \<or> hd behind = CHR '':''" using split_port_result [OF s(1)] by auto
  then have "\<not> EVUTIL_ISXDIGIT (at0 (behind @ r))" using assms(2) by (cases behind) auto
  then have "host_ok h [] = Accepted b" using host_ok_follow [of "behind @ r" h] s(2) by simp
  moreover from this have "b" using host_ok_Accepted [of h "[]"] by (cases b) auto
  ultimately show ?thesis using s(3,4) r(1,2) assms(3) by (intro that [of h p "if cp \<noteq> [] then Some ui else None"]) auto
qed

lemma split_scheme_result: "split_scheme s = (sch, r) \<Longrightarrow> case sch of None \<Rightarrow> True | Some t \<Rightarrow> scheme_ok t"
  by (auto simp: split_scheme_def Let_def split: if_splits)

lemma end_of_authority_hd: "end_of_authority s = [] \<or> hd (end_of_authority s) = CHR ''/'' \<or> hd (end_of_authority s) = CHR ''?'' \<or> hd (end_of_authority s) = CHR ''#''"
  using hd_dropWhile [of "\<lambda>c. \<not> (c = CHR ''?'' \<or> c = CHR ''#'' \<or> c = CHR ''/'')" s] by (auto simp: end_of_authority_def)

lemma parsed_uri_ok:
  assumes "evhttp_uri_parse_with_flags s flags = Accepted u"
  shows "uri_ok u \<and> uri_fits u \<and> uri_flags u = flags"
proof -
  obtain sch r where sr: "split_scheme s = (sch, r)" by force
  define u0 where "u0 = evhttp_uri_new\<lparr>uri_flags := flags, scheme := sch\<rparr>"
  have u0: "userinfo u0 = None" "port u0 = - 1" "host u0 = None" "uri_flags u0 = flags" "scheme u0 = sch" by (simp_all add: u0_def evhttp_uri_new_def)
  have sch: "case sch of None \<Rightarrow> True | Some t \<Rightarrow> scheme_ok t" using split_scheme_result [OF sr] .
  show ?thesis
  proof (cases "at0 r = CHR ''/'' \<and> at0 (drop 1 r) = CHR ''/''")
    case True
    define e where "e = end_of_authority (drop 2 r)"
    have e: "\<not> EVUTIL_ISXDIGIT (at0 e)" using end_of_authority_hd [of "drop 2 r"] by (cases e) (auto simp: e_def)
    obtain u1 where u1: "parse_authority u0 (text_upto (drop 2 r) e) e = Accepted u1" "parse_rest u1 True e = Accepted u"
      using assms sr True unfolding evhttp_uri_parse_with_flags_def u0_def e_def by (auto simp: Let_def checked_bind_Accepted_iff)
    obtain ui h p where a: "u1 = u0\<lparr>userinfo := ui, port := p, host := Some h\<rparr>" "case ui of None \<Rightarrow> True | Some s \<Rightarrow> userinfo_ok s"
      "host_ok h [] = Accepted True" "- 1 \<le> p" "fits_int p"
      using parse_authority_result [OF u1(1) e u0(1,2)] by blast
    have "parse_rest u1 (host u1 \<noteq> None) e = Accepted u" using u1(2) a(1) by simp
    then obtain q qu f where "u = u1\<lparr>upath := Some q, query := qu, fragment := f\<rparr>" "part_ok (uri_flags u1) PART_PATH (Some q)" "part_ok (uri_flags u1) PART_QUERY qu"
      "part_ok (uri_flags u1) PART_FRAGMENT f" "path_fits u1 q"
      by (rule parse_rest_parts) auto
    then show ?thesis using a u0 sch by (auto simp: uri_ok_def uri_fits_def path_fits_def split: if_splits)
  next
    case False
    have "parse_rest u0 (host u0 \<noteq> None) r = Accepted u"
      using assms sr False u0(3) by (auto simp: evhttp_uri_parse_with_flags_def u0_def Let_def)
    then obtain q qu f where "u = u0\<lparr>upath := Some q, query := qu, fragment := f\<rparr>" "part_ok (uri_flags u0) PART_PATH (Some q)" "part_ok (uri_flags u0) PART_QUERY qu"
      "part_ok (uri_flags u0) PART_FRAGMENT f" "path_fits u0 q"
      by (rule parse_rest_parts) auto
    moreover have "fits_int (- 1)" by (simp add: fits_int_def)
    ultimately show ?thesis using u0 sch by (auto simp: uri_ok_def uri_fits_def path_fits_def split: if_splits)
  qed
qed

text \<open>
  C14. Parsing a URI and joining it again: whatever URI \<open>evhttp_uri_parse_with_flags\<close> accepts, \<open>evhttp_uri_join\<close> of the result succeeds
  in every buffer that is long enough, fails in every shorter one, and parsing the joined text gives the same URI.
\<close>

theorem uri_parse_join_roundtrip:
  assumes "evhttp_uri_parse_with_flags s flags = Accepted u"
  shows "evhttp_uri_join u limit = (if length (uri_text u) < limit then Some (uri_text u) else None)
    \<and> evhttp_uri_parse_with_flags (uri_text u) flags = Accepted u"
proof -
  have ok: "uri_ok u" "uri_fits u" "uri_flags u = flags" using parsed_uri_ok [OF assms] by auto
  then show ?thesis using uri_text_parsed [OF ok(1,2)]
    by (auto simp: evhttp_uri_join_def uri_fits_def path_fits_def split: option.splits if_splits)
qed

lemma parse_example:
  "evhttp_uri_parse ''http://me@h:80/a?b=c#d'' = Accepted \<lparr>uri_flags = 0, scheme = Some ''http'', userinfo = Some ''me'', host = Some ''h'',
     port = 80, upath = Some ''/a'', query = Some ''b=c'', fragment = Some ''d''\<rparr>"
  by code_simp

theorem uri_parse_join_roundtrip_witness:
  "evhttp_uri_join \<lparr>uri_flags = 0, scheme = Some ''http'', userinfo = Some ''me'', host = Some ''h'',
     port = 80, upath = Some ''/a'', query = Some ''b=c'', fragment = Some ''d''\<rparr> 64 = Some ''http://me@h:80/a?b=c#d''"
  using uri_parse_join_roundtrip [OF parse_example [unfolded evhttp_uri_parse_def], of 64]
  by (simp add: uri_text_def authority_text_def opt_text_def print_radix.simps digit_char_def char_of_def bit_0)

lemma part_ok_simps: "part_ok flags part None" "part_ok flags part (Some t) \<longleftrightarrow> end_of_path t part flags = []"
  by (simp_all add: part_ok_def)

lemma set_part_ok:
  assumes "uri_ok u"
  shows "evhttp_uri_set_scheme u x = Accepted u' \<Longrightarrow> uri_ok u' \<and> u' = u\<lparr>scheme := x\<rparr>"
    and "evhttp_uri_set_userinfo u x = Accepted u' \<Longrightarrow> uri_ok u' \<and> u' = u\<lparr>userinfo := x\<rparr>"
    and "evhttp_uri_set_port u n = Accepted u' \<Longrightarrow> uri_ok u' \<and> u' = u\<lparr>port := n\<rparr>"
    and "evhttp_uri_set_path u x = Accepted u' \<Longrightarrow> uri_ok u' \<and> u' = u\<lparr>upath := x\<rparr>"
    and "evhttp_uri_set_query u x = Accepted u' \<Longrightarrow> uri_ok u' \<and> u' = u\<lparr>query := x\<rparr>"
    and "evhttp_uri_set_fragment u x = Accepted u' \<Longrightarrow> uri_ok u' \<and> u' = u\<lparr>fragment := x\<rparr>"
proof -
  show "evhttp_uri_set_scheme u x = Accepted u' \<Longrightarrow> uri_ok u' \<and> u' = u\<lparr>scheme := x\<rparr>"
    using assms by (cases x) (auto simp: evhttp_uri_set_scheme_def uri_ok_def split: if_splits)
  show "evhttp_uri_set_userinfo u x = Accepted u' \<Longrightarrow> uri_ok u' \<and> u' = u\<lparr>userinfo := x\<rparr>"
    using assms by (cases x) (auto simp: evhttp_uri_set_userinfo_def uri_ok_def split: if_splits)
  show "evhttp_uri_set_port u n = Accepted u' \<Longrightarrow> uri_ok u' \<and> u' = u\<lparr>port := n\<rparr>"
    using assms by (auto simp: evhttp_uri_set_port_def uri_ok_def split: if_splits)
  show "evhttp_uri_set_path u x = Accepted u' \<Longrightarrow> uri_ok u' \<and> u' = u\<lparr>upath := x\<rparr>"
    using assms by (cases x) (auto simp: evhttp_uri_set_path_def uri_ok_def part_ok_simps split: if_splits)
  show "evhttp_uri_set_query u x = Accepted u' \<Longrightarrow> uri_ok u' \<and> u' = u\<lparr>query := x\<rparr>"
    using assms by (cases x) (auto simp: evhttp_uri_set_query_def uri_ok_def part_ok_simps split: if_splits)
  show "evhttp_uri_set_fragment u x = Accepted u' \<Longrightarrow> uri_ok u' \<and> u' = u\<lparr>fragment := x\<rparr>"
    using assms by (cases x) (auto simp: evhttp_uri_set_fragment_def uri_ok_def part_ok_simps split: if_splits)
qed

lemma set_host_ok:
  assumes a1: "uri_ok u" and a2: "evhttp_uri_set_host u x = Accepted u'"
  shows "uri_ok u' \<and> u' = u\<lparr>host := x\<rparr>"
proof (cases x)
  case (Some h)
  then have u': "u' = u\<lparr>host := x\<rparr>" using a2 by (auto simp: evhttp_uri_set_host_def checked_bind_Accepted_iff split: if_splits)
  have "host_ok h [] = Accepted True"
  proof (cases "at0 h = CHR ''[''")
    case True
    then obtain k where k: "bracket_addr_ok h = Accepted k" using a2 Some by (auto simp: evhttp_uri_set_host_def checked_bind_Accepted_iff)
    then have "3 \<le> length h \<and> last h = CHR '']''" by (auto simp: bracket_addr_ok_def split: if_splits)
    then show ?thesis using True k by (cases h) (auto simp: host_ok_def)
  next
    case False
    then show ?thesis using a2 Some by (cases h) (auto simp: host_ok_def evhttp_uri_set_host_def split: if_splits)
  qed
  then show ?thesis using a1 u' Some by (simp add: uri_ok_def)
qed (use a1 a2 in \<open>auto simp: evhttp_uri_set_host_def uri_ok_def\<close>)



text \<open>
  Where URIs go wrong: a port of ten digits overflows an \<open>int\<close>, which is undefined; ports above 65535 are accepted; an
  IPvFuture address may be empty behind its dot, which the production in the comment excludes; and
  \<open>evhttp_uri_join\<close> writes URIs put together by the setters that parse differently or not at all: a path that starts with two
  slashes turns into a host, a path whose first segment has a colon turns into a scheme, a port without a host is lost.
\<close>

theorem uri_flaws:
  "evhttp_uri_parse ''//h:9999999999/'' = Undefined
   \<and> (\<exists>u. evhttp_uri_parse ''//h:99999/'' = Accepted u \<and> port u = 99999)
   \<and> bracket_addr_ok ''[v1.]'' = Accepted 2
   \<and> (\<exists>u t v. evhttp_uri_set_path evhttp_uri_new (Some ''//x/y'') = Accepted u \<and> evhttp_uri_join u 64 = Some t
        \<and> evhttp_uri_parse t = Accepted v \<and> host v = Some ''x'' \<and> upath v = Some ''/y'')
   \<and> (\<exists>u t v. evhttp_uri_set_path evhttp_uri_new (Some ''a:b'') = Accepted u \<and> evhttp_uri_join u 64 = Some t
        \<and> evhttp_uri_parse t = Accepted v \<and> scheme v = Some ''a'' \<and> upath v = Some ''b'')
   \<and> (\<exists>u. evhttp_uri_set_port evhttp_uri_new 80 = Accepted u \<and> evhttp_uri_join u 64 = Some [])"
proof -
  have "evhttp_uri_parse ''//h:9999999999/'' = Undefined"
    by (simp add: evhttp_uri_parse_def evhttp_uri_parse_with_flags_def split_scheme_def scheme_ok_def parse_authority_def end_of_authority_def
        text_upto_def split_port_def ISDIGIT_iff digit_value_def parse_port_def fits_int_def)
  moreover have "evhttp_uri_parse ''//h:99999/'' = Accepted (evhttp_uri_new\<lparr>host := Some ''h'', port := 99999, upath := Some ''/''\<rparr>)" by code_simp
  moreover have "bracket_addr_ok ''[v1.]'' = Accepted 2" by code_simp
  moreover have "evhttp_uri_set_path evhttp_uri_new (Some ''//x/y'') = Accepted (evhttp_uri_new\<lparr>upath := Some ''//x/y''\<rparr>)"
   "evhttp_uri_join (evhttp_uri_new\<lparr>upath := Some ''//x/y''\<rparr>) 64 = Some ''//x/y''"
   "evhttp_uri_parse ''//x/y'' = Accepted (evhttp_uri_new\<lparr>host := Some ''x'', upath := Some ''/y''\<rparr>)" by code_simp+
  moreover have "evhttp_uri_set_path evhttp_uri_new (Some ''a:b'') = Accepted (evhttp_uri_new\<lparr>upath := Some ''a:b''\<rparr>)"
   "evhttp_uri_join (evhttp_uri_new\<lparr>upath := Some ''a:b''\<rparr>) 64 = Some ''a:b''"
   "evhttp_uri_parse ''a:b'' = Accepted (evhttp_uri_new\<lparr>scheme := Some ''a'', upath := Some ''b''\<rparr>)" by code_simp+
  moreover have "evhttp_uri_set_port evhttp_uri_new 80 = Accepted (evhttp_uri_new\<lparr>port := 80\<rparr>)" "evhttp_uri_join (evhttp_uri_new\<lparr>port := 80\<rparr>) 64 = Some []" by code_simp+
  ultimately show ?thesis by auto
qed

end
