(* ===== verification/Http_Text.thy ===== *)
theory Http_Text
  imports Http_Uri
begin

text \<open>
  The text functions of \<open>event/http.c\<close>: escaping for HTML, encoding and decoding of URIs, the arguments of a query, and lists
  of headers (\<open>evkeyvalq\<close>, a list of keys and values in order). Memory is taken to be available.
\<close>

section \<open>HTML\<close>

definition EV_SIZE_MAX :: nat where "EV_SIZE_MAX = 2 ^ 64 - 1"

definition html_replace :: "char \<Rightarrow> string" where
  "html_replace ch =
    (if ch = CHR ''<'' then ''&lt;'' else if ch = CHR ''>'' then ''&gt;'' else if ch = CHR 0x22 then ''&quot;''
     else if ch = CHR 0x27 then ''&#039;'' else if ch = CHR ''&'' then ''&amp;'' else [ch])"

fun html_size :: "string \<Rightarrow> nat \<Rightarrow> nat option" where
  "html_size [] new_size = Some new_size"
| "html_size (c # cs) new_size =
    (let replace_size = length (html_replace c)
     in if EV_SIZE_MAX - new_size < replace_size then None else html_size cs (new_size + replace_size))"

definition evhttp_htmlescape :: "string \<Rightarrow> string option" where
  "evhttp_htmlescape html =
    (case html_size html 0 of None \<Rightarrow> None
     | Some new_size \<Rightarrow> if new_size = EV_SIZE_MAX then None else Some (concat (map html_replace html)))"

section \<open>Encoding and decoding\<close>

definition hex_upper :: "nat \<Rightarrow> char" where
  "hex_upper d = (if d < 10 then char_of (48 + d) else char_of (55 + d))"

definition percent_02X :: "char \<Rightarrow> string" where
  "percent_02X c = [CHR ''%'', hex_upper (of_char c div 16), hex_upper (of_char c mod 16)]"

definition encode_char :: "bool \<Rightarrow> char \<Rightarrow> string" where
  "encode_char space_as_plus c =
    (if CHAR_IS_UNRESERVED c then [c] else if c = CHR '' '' \<and> space_as_plus then ''+'' else percent_02X c)"

text \<open>With \<open>len >= 0\<close> the string is the memory from \<open>uri\<close> on, of which \<open>len\<close> bytes are read.\<close>

definition evhttp_uriencode :: "string \<Rightarrow> int \<Rightarrow> bool \<Rightarrow> string checked" where
  "evhttp_uriencode uri len space_as_plus =
    (if int (length uri) < len then Undefined
     else Accepted (concat (map (encode_char space_as_plus) (if 0 \<le> len then take (nat len) uri else uri))))"

definition evhttp_encode_uri :: "string \<Rightarrow> string checked" where
  "evhttp_encode_uri str = evhttp_uriencode str (- 1) False"

function uridecode_loop :: "int \<Rightarrow> bool \<Rightarrow> string \<Rightarrow> string" where
  "uridecode_loop ctl decode_plus uri =
    (case uri of [] \<Rightarrow> []
     | c # cs \<Rightarrow>
         if c = CHR ''?'' then c # uridecode_loop ctl (decode_plus \<or> ctl < 0) cs
         else if c = CHR ''+'' \<and> decode_plus then CHR '' '' # uridecode_loop ctl decode_plus cs
         else if c = CHR ''%'' \<and> EVUTIL_ISXDIGIT (at0 cs) \<and> EVUTIL_ISXDIGIT (at0 (drop 1 cs))
         then char_of (fst (strtol16 (take 2 cs))) # uridecode_loop ctl decode_plus (drop 2 cs)
         else c # uridecode_loop ctl decode_plus cs)"
  by pat_completeness auto
termination by (relation "measure (\<lambda>(ctl, p, s). length s)") auto

declare uridecode_loop.simps [simp del]

definition evhttp_decode_uri_internal :: "string \<Rightarrow> int \<Rightarrow> string" where
  "evhttp_decode_uri_internal uri decode_plus_ctl = uridecode_loop decode_plus_ctl (decode_plus_ctl = 1) uri"

text \<open>The array that is returned, which may hold zero bytes, and its size.\<close>

definition evhttp_decode_uri :: "string \<Rightarrow> string" where
  "evhttp_decode_uri uri = evhttp_decode_uri_internal uri (- 1)"

definition evhttp_uridecode :: "string \<Rightarrow> bool \<Rightarrow> string \<times> nat" where
  "evhttp_uridecode uri decode_plus = (let ret = evhttp_decode_uri_internal uri (if decode_plus then 1 else 0) in (ret, length ret))"

section \<open>Headers\<close>

type_synonym evkeyvalq = "(string \<times> string) list"

definition evhttp_find_header :: "evkeyvalq \<Rightarrow> string \<Rightarrow> string option" where
  "evhttp_find_header headers key = map_option snd (find (\<lambda>h. evutil_ascii_strcasecmp (fst h) key = 0) headers)"

definition evhttp_clear_headers :: "evkeyvalq \<Rightarrow> evkeyvalq" where
  "evhttp_clear_headers headers = []"

fun evhttp_remove_header :: "evkeyvalq \<Rightarrow> string \<Rightarrow> int \<times> evkeyvalq" where
  "evhttp_remove_header [] key = (- 1, [])"
| "evhttp_remove_header (h # hs) key =
    (if evutil_ascii_strcasecmp (fst h) key = 0 then (0, hs)
     else let (r, hs') = evhttp_remove_header hs key in (r, h # hs'))"

abbreviation is_crlf :: "char \<Rightarrow> bool" where
  "is_crlf c \<equiv> c = CHR 0x0D \<or> c = CHR 0x0A"

function evhttp_header_is_valid_value :: "string \<Rightarrow> bool" where
  "evhttp_header_is_valid_value value =
    (let p = dropWhile (\<lambda>c. \<not> is_crlf c) value; q = dropWhile is_crlf p
     in if p = [] then True else if at0 q \<noteq> CHR '' '' \<and> at0 q \<noteq> CHR 0x09 then False else evhttp_header_is_valid_value q)"
  by pat_completeness auto
termination
proof (relation "measure length")
  fix "value" p q :: string
  assume p: "p = dropWhile (\<lambda>c. \<not> is_crlf c) value" "q = dropWhile is_crlf p" "p \<noteq> []"
  then have "is_crlf (hd p)" using hd_dropWhile [of "\<lambda>c. \<not> is_crlf c" "value"] by simp
  moreover obtain a l where al: "p = a # l" using p(3) by (cases p) auto
  ultimately have "q = dropWhile is_crlf l" unfolding p(2) al by simp
  then have "length q < length p" using al length_dropWhile_le [of is_crlf l] by simp
  then show "(q, value) \<in> measure length" using p(1) length_dropWhile_le [of "\<lambda>c. \<not> is_crlf c" "value"] by simp
qed simp

declare evhttp_header_is_valid_value.simps [simp del]

text \<open>The list is searched, changed and extended through its pointer; the copies made by \<open>mm_strdup\<close> end at the first zero byte.\<close>

definition mm_strdup :: "string \<Rightarrow> string" where
  "mm_strdup s = takeWhile (\<lambda>c. c \<noteq> CHR 0x00) s"

definition evhttp_add_header_internal :: "evkeyvalq \<Rightarrow> string \<Rightarrow> string \<Rightarrow> int \<times> evkeyvalq" where
  "evhttp_add_header_internal headers key value = (0, headers @ [(mm_strdup key, mm_strdup value)])"

definition evhttp_add_header :: "evkeyvalq \<Rightarrow> string \<Rightarrow> string \<Rightarrow> int \<times> evkeyvalq" where
  "evhttp_add_header headers key value =
    (if CHR 0x0D \<in> set key \<or> CHR 0x0A \<in> set key then (- 1, headers)
     else if \<not> evhttp_header_is_valid_value value then (- 1, headers)
     else evhttp_add_header_internal headers key value)"

definition evhttp_append_to_last_header :: "evkeyvalq \<Rightarrow> string \<Rightarrow> int \<times> evkeyvalq" where
  "evhttp_append_to_last_header headers line =
    (if headers = [] then (- 1, headers)
     else (0, butlast headers @ [(fst (last headers), snd (last headers) @ line)]))"

section \<open>Queries\<close>

text \<open>\<open>strsep\<close>: the token and the rest, \<open>None\<close> when the delimiter does not occur.\<close>

definition strsep :: "char \<Rightarrow> string \<Rightarrow> string \<times> string option" where
  "strsep del s =
    (let d = dropWhile (\<lambda>c. c \<noteq> del) s in (takeWhile (\<lambda>c. c \<noteq> del) s, if d = [] then None else Some (tl d)))"

function query_loop :: "string option \<Rightarrow> evkeyvalq \<Rightarrow> evkeyvalq option" where
  "query_loop p headers =
    (case p of None \<Rightarrow> Some headers
     | Some s \<Rightarrow>
         if s = [] then Some headers
         else let (argument, p') = strsep CHR ''&'' s; (key, value) = strsep CHR ''='' argument
              in if value = None \<or> key = [] then None
                 else query_loop p' (snd (evhttp_add_header_internal headers key (evhttp_decode_uri_internal (the value) 1))))"
  by pat_completeness auto
termination
proof (relation "measure (\<lambda>(p, h). case p of None \<Rightarrow> 0 | Some s \<Rightarrow> Suc (length s))", goal_cases)
  case (2 p headers s x argument p' y key "value")
  then have "p' = None \<or> (\<exists>t. p' = Some t \<and> length t < length s)"
    using tl_dropWhile_less [of s "\<lambda>c. c \<noteq> CHR ''&''"] by (auto simp: strsep_def Let_def split: if_splits)
  then show ?case using 2(1) by auto
qed simp

declare query_loop.simps [simp del]

definition evhttp_parse_query_impl :: "string \<Rightarrow> bool \<Rightarrow> (int \<times> evkeyvalq) checked" where
  "evhttp_parse_query_impl str is_whole_uri =
    (case if is_whole_uri then (case evhttp_uri_parse str of Accepted u \<Rightarrow> Accepted (query u) | Rejected \<Rightarrow> Rejected | Undefined \<Rightarrow> Undefined)
          else Accepted (Some str) of
       Undefined \<Rightarrow> Undefined
     | Rejected \<Rightarrow> Accepted (- 1, [])
     | Accepted query_part \<Rightarrow>
         if query_part = None \<or> query_part = Some [] then Accepted (0, [])
         else case query_loop query_part [] of None \<Rightarrow> Accepted (- 1, []) | Some headers \<Rightarrow> Accepted (0, headers))"

definition evhttp_parse_query :: "string \<Rightarrow> (int \<times> evkeyvalq) checked" where
  "evhttp_parse_query uri = evhttp_parse_query_impl uri True"

definition evhttp_parse_query_str :: "string \<Rightarrow> (int \<times> evkeyvalq) checked" where
  "evhttp_parse_query_str uri = evhttp_parse_query_impl uri False"

section \<open>Encoding round trips\<close>

lemma hex_upper_value: "d < 16 \<Longrightarrow> digit_value (hex_upper d) = d"
  by (auto simp: hex_upper_def digit_value_def Let_def take_bit_eq_mod)

lemma hex_upper_xdigit: "d < 16 \<Longrightarrow> EVUTIL_ISXDIGIT (hex_upper d)"
  by (simp add: ISXDIGIT_iff hex_upper_value)

lemma strtol16_two: "a < 16 \<Longrightarrow> b < 16 \<Longrightarrow> fst (strtol16 [hex_upper a, hex_upper b]) = a * 16 + b"
  by (simp add: strtol16_def strip_0x_def hex_upper_value Let_def)

lemma unreserved_plain: "CHAR_IS_UNRESERVED c \<Longrightarrow> c \<noteq> CHR ''?'' \<and> c \<noteq> CHR ''+'' \<and> c \<noteq> CHR ''%'' \<and> c \<noteq> CHR ''&'' \<and> c \<noteq> CHR ''=''"
  by (auto simp: CHAR_IS_UNRESERVED_def uri_chars_def nth_append)

lemma decode_loop_simps:
  "uridecode_loop ctl dp [] = []"
  "c \<noteq> CHR ''?'' \<Longrightarrow> c \<noteq> CHR ''+'' \<Longrightarrow> c \<noteq> CHR ''%'' \<Longrightarrow> uridecode_loop ctl dp (c # s) = c # uridecode_loop ctl dp s"
  "uridecode_loop ctl True (CHR ''+'' # s) = CHR '' '' # uridecode_loop ctl True s"
  "EVUTIL_ISXDIGIT a \<Longrightarrow> EVUTIL_ISXDIGIT b \<Longrightarrow> uridecode_loop ctl dp (CHR ''%'' # a # b # s) = char_of (fst (strtol16 [a, b])) # uridecode_loop ctl dp s"
  by (subst uridecode_loop.simps, simp)+

lemma decode_encode_char: "(sp \<Longrightarrow> dp) \<Longrightarrow> uridecode_loop ctl dp (encode_char sp c @ s) = c # uridecode_loop ctl dp s"
proof -
  assume sp: "sp \<Longrightarrow> dp"
  have n: "(of_char c :: nat) div 16 < 16" using less_mult_imp_div_less [of "of_char c" 16 16] by simp
  have "char_of (of_char c div 16 * 16 + of_char c mod 16 :: nat) = c" by simp
  then have p: "uridecode_loop ctl dp (percent_02X c @ s) = c # uridecode_loop ctl dp s"
    using n by (simp add: percent_02X_def decode_loop_simps hex_upper_xdigit strtol16_two)
  show ?thesis
    using sp p unreserved_plain [of c] by (auto simp: encode_char_def decode_loop_simps)
qed

lemma decode_encode: "(sp \<Longrightarrow> dp) \<Longrightarrow> uridecode_loop ctl dp (concat (map (encode_char sp) s)) = s"
proof (induction s)
  case (Cons c s)
  then show ?case using decode_encode_char [of sp dp ctl c] by simp
qed (simp add: decode_loop_simps)

lemma encode_char_set: "d \<in> set (encode_char sp c) \<Longrightarrow> CHAR_IS_UNRESERVED d \<or> d = CHR ''%'' \<or> d = CHR ''+'' \<or> EVUTIL_ISXDIGIT d"
proof -
  have n: "(of_char c :: nat) div 16 < 16" using less_mult_imp_div_less [of "of_char c" 16 16] by simp
  show "d \<in> set (encode_char sp c) \<Longrightarrow> ?thesis" using n by (auto simp: encode_char_def percent_02X_def hex_upper_xdigit split: if_splits)
qed

lemma xdigit_unreserved: "EVUTIL_ISXDIGIT c \<Longrightarrow> CHAR_IS_UNRESERVED c"
  by (auto simp: ISXDIGIT_iff digit_value_def Let_def CHAR_IS_UNRESERVED_def uri_chars_def nth_append split: if_splits)

lemma escaped_ok_encode: "escaped_ok (pchar PART_QUERY) (concat (map (encode_char sp) s))"
proof (induction s)
  case (Cons c s)
  have n: "(of_char c :: nat) div 16 < 16" using less_mult_imp_div_less [of "of_char c" 16 16] by simp
  have "pchar PART_QUERY CHR ''+''" "CHAR_IS_UNRESERVED d \<Longrightarrow> pchar PART_QUERY d" for d by (simp_all add: pchar_def SUBDELIMS_def)
  then show ?case using Cons n by (auto simp: encode_char_def percent_02X_def hex_upper_xdigit)
qed simp

text \<open>
  Encoding round trips: what \<open>evhttp_uriencode\<close> makes of any bytes, zero bytes included, is decoded to the same bytes and their number by
  \<open>evhttp_uridecode\<close> with the same treatment of blanks, and without plus signs by \<open>evhttp_decode_uri\<close> as well; the encoded text
  consists of unreserved characters, percent and plus signs only, and is accepted as a query of a URI.
\<close>

theorem uri_encode_roundtrip:
  assumes "evhttp_uriencode s len sp = Accepted e"
  shows "evhttp_uridecode e sp = (if 0 \<le> len then take (nat len) s else s, if 0 \<le> len then nat len else length s)
    \<and> (\<not> sp \<longrightarrow> evhttp_decode_uri e = (if 0 \<le> len then take (nat len) s else s))
    \<and> (\<forall>c\<in>set e. CHAR_IS_UNRESERVED c \<or> c = CHR ''%'' \<or> c = CHR ''+'')
    \<and> end_of_path e PART_QUERY flags = []"
proof -
  define t where "t = (if 0 \<le> len then take (nat len) s else s)"
  have e: "e = concat (map (encode_char sp) t)" and l: "len \<le> int (length s)"
    using assms by (auto simp: evhttp_uriencode_def t_def split: if_splits)
  have "evhttp_uridecode e sp = (t, length t)"
    using decode_encode [of sp sp 1 t] decode_encode [of sp sp 0 t]
    by (cases sp) (simp_all add: evhttp_uridecode_def evhttp_decode_uri_internal_def e)
  moreover have "\<not> sp \<Longrightarrow> evhttp_decode_uri e = t"
    using decode_encode [of sp False "- 1" t] by (simp add: evhttp_decode_uri_def evhttp_decode_uri_internal_def e)
  moreover have "length t = (if 0 \<le> len then nat len else length s)" using l by (auto simp: t_def)
  moreover have c: "\<forall>c\<in>set e. CHAR_IS_UNRESERVED c \<or> c = CHR ''%'' \<or> c = CHR ''+''"
    using encode_char_set [of _ sp] xdigit_unreserved by (fastforce simp: e)
  moreover have "end_of_path e PART_QUERY flags = []"
  proof -
    have "\<forall>c\<in>set e. c \<noteq> CHR ''#''" using c by auto
    then show ?thesis using escaped_ok_encode [of sp t] by (simp add: end_of_path_def dropWhile_eq_Nil_conv end_of_pchars_Nil_iff e)
  qed
  ultimately show ?thesis by (simp add: t_def)
qed

theorem uri_encode_roundtrip_witness:
  "evhttp_uridecode ''a%2Fb%00+c'' True = ([CHR ''a'', CHR ''/'', CHR ''b'', CHR 0x00, CHR '' '', CHR ''c''], 6)"
proof -
  have "evhttp_uriencode [CHR ''a'', CHR ''/'', CHR ''b'', CHR 0x00, CHR '' '', CHR ''c''] 6 True = Accepted ''a%2Fb%00+c''" by code_simp
  from uri_encode_roundtrip [OF this] show ?thesis by simp
qed

section \<open>HTML round trips\<close>

text \<open>The reference: replacing the five entities.\<close>

fun html_unescape :: "string \<Rightarrow> string" where
  "html_unescape [] = []"
| "html_unescape (c # cs) =
    (if take 4 (c # cs) = ''&lt;'' then CHR ''<'' # html_unescape (drop 3 cs)
     else if take 4 (c # cs) = ''&gt;'' then CHR ''>'' # html_unescape (drop 3 cs)
     else if take 6 (c # cs) = ''&quot;'' then CHR 0x22 # html_unescape (drop 5 cs)
     else if take 6 (c # cs) = ''&#039;'' then CHR 0x27 # html_unescape (drop 5 cs)
     else if take 5 (c # cs) = ''&amp;'' then CHR ''&'' # html_unescape (drop 4 cs)
     else c # html_unescape cs)"

lemma html_unescape_replace: "html_unescape (html_replace c @ s) = c # html_unescape s"
  by (simp add: html_replace_def)

lemma html_size_eq: "new_size + length (concat (map html_replace s)) \<le> EV_SIZE_MAX \<Longrightarrow> html_size s new_size = Some (new_size + length (concat (map html_replace s)))"
  by (induction s arbitrary: new_size) (auto simp: Let_def)

text \<open>
  \<open>evhttp_htmlescape\<close> of a text whose escaped form fits the memory contains no character that is special in HTML or in
  attribute values but the ampersands of the entities, and replacing the entities gives the text back.
\<close>

theorem html_escape_safe:
  assumes "6 * length s < EV_SIZE_MAX"
  shows "\<exists>e. evhttp_htmlescape s = Some e \<and> html_unescape e = s \<and> set e \<inter> {CHR ''<'', CHR ''>'', CHR 0x22, CHR 0x27} = {}"
proof -
  have "length (html_replace c) \<le> 6" for c by (simp add: html_replace_def)
  then have "length (concat (map html_replace s)) \<le> 6 * length s"
    by (induction s) (auto, smt (verit) add_le_mono)
  then have "evhttp_htmlescape s = Some (concat (map html_replace s))"
    using assms html_size_eq [of 0 s] by (simp add: evhttp_htmlescape_def)
  moreover have "html_unescape (concat (map html_replace s)) = s"
    by (induction s) (simp_all add: html_unescape_replace)
  moreover have "set (html_replace c) \<inter> {CHR ''<'', CHR ''>'', CHR 0x22, CHR 0x27} = {}" for c by (simp add: html_replace_def)
  then have "set (concat (map html_replace s)) \<inter> {CHR ''<'', CHR ''>'', CHR 0x22, CHR 0x27} = {}" unfolding set_concat set_map by blast
  ultimately show ?thesis by blast
qed

theorem html_escape_safe_witness:
  "\<exists>e. evhttp_htmlescape ''<a>'' = Some e \<and> html_unescape e = ''<a>''"
  using html_escape_safe [of "''<a>''"] by (auto simp: EV_SIZE_MAX_def)

section \<open>Queries round trip\<close>

definition argument_text :: "string \<times> string \<Rightarrow> string" where
  "argument_text kv = fst kv @ ''='' @ concat (map (encode_char True) (snd kv))"

fun query_text :: "evkeyvalq \<Rightarrow> string" where
  "query_text [] = []"
| "query_text [kv] = argument_text kv"
| "query_text (kv # kvs) = argument_text kv @ ''&'' @ query_text kvs"

definition argument_ok :: "string \<times> string \<Rightarrow> bool" where
  "argument_ok kv \<longleftrightarrow> fst kv \<noteq> [] \<and> CHR ''&'' \<notin> set (fst kv) \<and> CHR ''='' \<notin> set (fst kv) \<and> CHR 0x00 \<notin> set (fst kv) \<and> CHR 0x00 \<notin> set (snd kv)"

lemma strsep_at: "del \<notin> set x \<Longrightarrow> strsep del (x @ del # r) = (x, Some r)"
proof -
  assume "del \<notin> set x"
  then have "\<forall>c\<in>set x. c \<noteq> del" by auto
  from span_component [OF this, of del r] show ?thesis by (simp add: strsep_def)
qed

lemma strsep_none: "del \<notin> set x \<Longrightarrow> strsep del x = (x, None)"
  using span_name [of x "\<lambda>c. c \<noteq> del"] by (auto simp: strsep_def)

lemma mm_strdup_id: "CHR 0x00 \<notin> set s \<Longrightarrow> mm_strdup s = s"
  by (auto simp: mm_strdup_def takeWhile_eq_all_conv)

lemma encoded_no_delims: "CHR ''&'' \<notin> set (concat (map (encode_char sp) s))"
proof
  assume "CHR ''&'' \<in> set (concat (map (encode_char sp) s))"
  then obtain c where "CHR ''&'' \<in> set (encode_char sp c)" by auto
  then show False using encode_char_set [of "CHR ''&''" sp c] unreserved_plain [of "CHR ''&''"] xdigit_unreserved [of "CHR ''&''"] by auto
qed

lemma query_argument:
  assumes "argument_ok kv" "argument = argument_text kv"
  shows "argument \<noteq> []" "CHR ''&'' \<notin> set argument" "fst kv \<noteq> []"
    "strsep CHR ''='' argument = (fst kv, Some (concat (map (encode_char True) (snd kv))))"
    "evhttp_add_header_internal hs (fst kv) (evhttp_decode_uri_internal (concat (map (encode_char True) (snd kv))) 1) = (0, hs @ [kv])"
proof -
  show "argument \<noteq> []" "CHR ''&'' \<notin> set argument" "fst kv \<noteq> []"
    using assms encoded_no_delims by (auto simp: argument_text_def argument_ok_def simp del: set_concat)
  show "strsep CHR ''='' argument = (fst kv, Some (concat (map (encode_char True) (snd kv))))"
    using assms strsep_at [of "CHR ''=''" "fst kv"] by (simp add: argument_text_def argument_ok_def)
  show "evhttp_add_header_internal hs (fst kv) (evhttp_decode_uri_internal (concat (map (encode_char True) (snd kv))) 1) = (0, hs @ [kv])"
    using assms decode_encode [of True True 1 "snd kv"] by (simp add: evhttp_add_header_internal_def evhttp_decode_uri_internal_def argument_ok_def mm_strdup_id)
qed

lemma query_loop_text: "list_all argument_ok kvs \<Longrightarrow> query_loop (Some (query_text kvs)) hs = Some (hs @ kvs)"
proof (induction kvs arbitrary: hs rule: query_text.induct)
  case 1
  then show ?case by (simp add: query_loop.simps)
next
  case (2 kv)
  note a = query_argument [of kv, OF _ refl]
  show ?case using 2 a strsep_none [of "CHR ''&''" "argument_text kv"]
    by (simp add: query_loop.simps [of "Some (argument_text kv)"] query_loop.simps [of None])
next
  case (3 kv kv' kvs)
  note a = query_argument [of kv, OF _ refl]
  let ?rest = "query_text (kv' # kvs)"
  have "query_loop (Some (argument_text kv @ CHR ''&'' # ?rest)) hs = query_loop (Some ?rest) (hs @ [kv])"
    using 3(2) a strsep_at [of "CHR ''&''" "argument_text kv" ?rest]
    by (simp add: query_loop.simps [of "Some (argument_text kv @ CHR ''&'' # ?rest)"])
  then show ?case using 3 by simp
qed

text \<open>
  C21. The arguments of a query round trip: a list of keys (not empty, without ampersand, equals sign and zero byte) and values (any
  text), each value encoded by \<open>evhttp_uriencode\<close>, written as a query, is read back as the same list in the same order, with
  repeated keys kept, by \<open>evhttp_parse_query_str\<close>, and by \<open>evhttp_parse_query\<close> from every URI with that query.
\<close>

theorem query_roundtrip:
  assumes "list_all argument_ok kvs"
  shows "evhttp_parse_query_str (query_text kvs) = Accepted (0, kvs)
    \<and> (uri_ok u \<and> uri_fits u \<and> uri_flags u = 0 \<and> query u = Some (query_text kvs) \<longrightarrow> evhttp_parse_query (uri_text u) = Accepted (0, kvs))"
proof -
  have "query_text kvs = [] \<longleftrightarrow> kvs = []"
    using assms query_argument(1) [OF _ refl] by (cases kvs rule: query_text.cases) auto
  then show ?thesis using query_loop_text [OF assms, of "[]"] uri_text_parsed [of u]
    by (auto simp: evhttp_parse_query_def evhttp_parse_query_str_def evhttp_parse_query_impl_def evhttp_uri_parse_def)
qed

theorem query_roundtrip_witness:
  "evhttp_parse_query_str ''q=a%26b&q=+'' = Accepted (0, [(''q'', ''a&b''), (''q'', '' '')])"
proof -
  have "query_text [(''q'', ''a&b''), (''q'', '' '')] = ''q=a%26b&q=+''" by code_simp
  then show ?thesis using query_roundtrip [of "[(''q'', ''a&b''), (''q'', '' '')]"] by (simp add: argument_ok_def)
qed

section \<open>Lists of headers\<close>

text \<open>
  The list of headers: an added header is found under its key whatever the case of its letters, unless an earlier header has the same
  key; adding fails exactly for keys with line breaks and for values with a line break that is not followed by a blank or tab;
  removing takes out the first header with the key and nothing else, and fails exactly if there is none.
\<close>

theorem header_list_ops:
  assumes "CHR 0x00 \<notin> set k" "CHR 0x00 \<notin> set k'"
  shows "(evhttp_add_header hs k v = (0, hs') \<longrightarrow>
      hs' = hs @ [(k, mm_strdup v)] \<and>
      evhttp_find_header hs' k' = (case evhttp_find_header hs k' of Some x \<Rightarrow> Some x
         | None \<Rightarrow> if map EVUTIL_TOLOWER k = map EVUTIL_TOLOWER k' then Some (mm_strdup v) else None))
    \<and> (fst (evhttp_add_header hs k v) = - 1 \<longleftrightarrow> CHR 0x0D \<in> set k \<or> CHR 0x0A \<in> set k \<or> \<not> evhttp_header_is_valid_value v)
    \<and> (case evhttp_find_header hs k of None \<Rightarrow> evhttp_remove_header hs k = (- 1, hs)
       | Some x \<Rightarrow> \<exists>as bs l. hs = as @ (l, x) # bs \<and> evhttp_remove_header hs k = (0, as @ bs) \<and> evhttp_find_header as k = None
           \<and> evutil_ascii_strcasecmp l k = 0)"
proof -
  have "case evhttp_find_header hs k of None \<Rightarrow> evhttp_remove_header hs k = (- 1, hs)
     | Some x \<Rightarrow> \<exists>as bs l. hs = as @ (l, x) # bs \<and> evhttp_remove_header hs k = (0, as @ bs) \<and> evhttp_find_header as k = None
           \<and> evutil_ascii_strcasecmp l k = 0"
  proof (induction hs)
    case (Cons h hs)
    show ?case
    proof (cases "evutil_ascii_strcasecmp (fst h) k = 0")
      case True
      then have "h # hs = [] @ (fst h, snd h) # hs \<and> evhttp_remove_header (h # hs) k = (0, [] @ hs) \<and> evhttp_find_header [] k = None
         \<and> evutil_ascii_strcasecmp (fst h) k = 0" by (simp add: evhttp_find_header_def)
      then have "\<exists>as bs l. h # hs = as @ (l, snd h) # bs \<and> evhttp_remove_header (h # hs) k = (0, as @ bs) \<and> evhttp_find_header as k = None
         \<and> evutil_ascii_strcasecmp l k = 0" by blast
      moreover have "evhttp_find_header (h # hs) k = Some (snd h)" using True by (simp add: evhttp_find_header_def)
      ultimately show ?thesis by simp
    next
      case False
      then have f: "evhttp_find_header (h # l) k = evhttp_find_header l k" for l by (simp add: evhttp_find_header_def)
      show ?thesis
      proof (cases "evhttp_find_header hs k")
        case (Some x)
        then obtain as bs l where "hs = as @ (l, x) # bs" "evhttp_remove_header hs k = (0, as @ bs)" "evhttp_find_header as k = None" "evutil_ascii_strcasecmp l k = 0"
          using Cons by auto
        then have "h # hs = (h # as) @ (l, x) # bs \<and> evhttp_remove_header (h # hs) k = (0, (h # as) @ bs) \<and> evhttp_find_header (h # as) k = None
          \<and> evutil_ascii_strcasecmp l k = 0" using False f by simp
        then have "\<exists>as bs l. h # hs = as @ (l, x) # bs \<and> evhttp_remove_header (h # hs) k = (0, as @ bs) \<and> evhttp_find_header as k = None
          \<and> evutil_ascii_strcasecmp l k = 0" by blast
        then show ?thesis using Some f by simp
      qed (use Cons False f in simp)
    qed
  qed (simp add: evhttp_find_header_def)
  moreover have "evhttp_find_header (hs @ [(k, x)]) k' = (case evhttp_find_header hs k' of Some y \<Rightarrow> Some y
         | None \<Rightarrow> if map EVUTIL_TOLOWER k = map EVUTIL_TOLOWER k' then Some x else None)" for x
    using strcasecmp_eq_0 [OF assms] by (induction hs) (auto simp: evhttp_find_header_def)
  ultimately show ?thesis using mm_strdup_id [OF assms(1)] by (auto simp: evhttp_add_header_def evhttp_add_header_internal_def)
qed

theorem header_list_ops_witness:
  "evhttp_find_header (snd (evhttp_add_header [] ''X'' ''b'')) ''x'' = Some ''b'' \<and> fst (evhttp_add_header [] ''X'' [CHR 0x0A, CHR ''Y'']) = - 1"
proof -
  have v: "evhttp_header_is_valid_value ''b''" "\<not> evhttp_header_is_valid_value [CHR 0x0A, CHR ''Y'']" by code_simp+
  have e: "evhttp_find_header [] ''x'' = None" by (simp add: evhttp_find_header_def)
  have a: "evhttp_add_header [] ''X'' ''b'' = (0, [(''X'', ''b'')])"
    using v by (simp add: evhttp_add_header_def evhttp_add_header_internal_def mm_strdup_def)
  have l: "map EVUTIL_TOLOWER ''X'' = map EVUTIL_TOLOWER ''x''" "mm_strdup ''b'' = ''b''" by code_simp+
  have "evhttp_find_header [(''X'', ''b'')] ''x'' = Some ''b''"
    using header_list_ops [of "''X''" "''x''" "[]" "''b''" "[(''X'', ''b'')]"] a e l by simp
  moreover have "fst (evhttp_add_header [] ''X'' [CHR 0x0A, CHR ''Y'']) = - 1"
    using header_list_ops [of "''X''" "''x''" "[]" "[CHR 0x0A, CHR ''Y'']" "[]"] v by simp
  ultimately show ?thesis using a by simp
qed

end
