(* ===== verification/Http_Server.thy ===== *)
theory Http_Server
  imports Http_Text
begin

text \<open>
  The server object of \<open>event/http.c\<close>: virtual hosts chosen by patterns and aliases, callbacks chosen by the decoded path. A
  server is a value with an identity \<open>hid\<close>; since a virtual host belongs to one server only, servers form a tree. Callbacks with
  their arguments are numbers, bound sockets are counted. Memory is taken to be available.
\<close>

section \<open>Server objects\<close>

datatype evhttp = Evhttp (hid: nat) (vhost_pattern: "string option") (aliases: "string list") (virtualhosts: "evhttp list")
  (callbacks: "(string \<times> nat) list") (gencb: "nat option") (allowed_methods: UInt16) (default_max_headers_size: nat)
  (default_max_body_size: nat) (http_timeout: int) (sockets: nat)

datatype evhttp_cmd_type =
  EVHTTP_REQ_NONE | EVHTTP_REQ_GET | EVHTTP_REQ_POST | EVHTTP_REQ_HEAD | EVHTTP_REQ_PUT | EVHTTP_REQ_DELETE | EVHTTP_REQ_OPTIONS
  | EVHTTP_REQ_TRACE | EVHTTP_REQ_CONNECT | EVHTTP_REQ_PATCH | EVHTTP_REQ_UNKNOWN

fun cmd_bits :: "evhttp_cmd_type \<Rightarrow> UInt32" where
  "cmd_bits EVHTTP_REQ_NONE = 0"
| "cmd_bits EVHTTP_REQ_GET = push_bit 0 1"
| "cmd_bits EVHTTP_REQ_POST = push_bit 1 1"
| "cmd_bits EVHTTP_REQ_HEAD = push_bit 2 1"
| "cmd_bits EVHTTP_REQ_PUT = push_bit 3 1"
| "cmd_bits EVHTTP_REQ_DELETE = push_bit 4 1"
| "cmd_bits EVHTTP_REQ_OPTIONS = push_bit 5 1"
| "cmd_bits EVHTTP_REQ_TRACE = push_bit 6 1"
| "cmd_bits EVHTTP_REQ_CONNECT = push_bit 7 1"
| "cmd_bits EVHTTP_REQ_PATCH = push_bit 8 1"
| "cmd_bits EVHTTP_REQ_UNKNOWN = push_bit 15 1"

definition EV_UINT64_MAX :: nat where "EV_UINT64_MAX = 2 ^ 64 - 1"

text \<open>A size given as \<open>ev_ssize_t\<close>: \<open>EV_SIZE_MAX\<close> turns into -1, which stands for no limit.\<close>

definition size_limit :: "nat \<Rightarrow> int \<Rightarrow> nat" where
  "size_limit none n = (if n < 0 then none else nat n)"

definition evhttp_new_object :: "nat \<Rightarrow> evhttp" where
  "evhttp_new_object i = Evhttp i None [] [] [] None
     (ucast (cmd_bits EVHTTP_REQ_GET OR cmd_bits EVHTTP_REQ_POST OR cmd_bits EVHTTP_REQ_HEAD OR cmd_bits EVHTTP_REQ_PUT OR cmd_bits EVHTTP_REQ_DELETE))
     (size_limit EV_SIZE_MAX (- 1)) (size_limit EV_UINT64_MAX (- 1)) (- 1) 0"

fun evhttp_set_max_headers_size :: "evhttp \<Rightarrow> int \<Rightarrow> evhttp" where
  "evhttp_set_max_headers_size (Evhttp i p as vs cbs g m mh mb t so) n = Evhttp i p as vs cbs g m (size_limit EV_SIZE_MAX n) mb t so"

fun evhttp_set_max_body_size :: "evhttp \<Rightarrow> int \<Rightarrow> evhttp" where
  "evhttp_set_max_body_size (Evhttp i p as vs cbs g m mh mb t so) n = Evhttp i p as vs cbs g m mh (size_limit EV_UINT64_MAX n) t so"

fun evhttp_set_allowed_methods :: "evhttp \<Rightarrow> UInt16 \<Rightarrow> evhttp" where
  "evhttp_set_allowed_methods (Evhttp i p as vs cbs g m mh mb t so) methods = Evhttp i p as vs cbs g methods mh mb t so"

fun evhttp_set_timeout :: "evhttp \<Rightarrow> int \<Rightarrow> evhttp" where
  "evhttp_set_timeout (Evhttp i p as vs cbs g m mh mb t so) timeout_in_secs = Evhttp i p as vs cbs g m mh mb timeout_in_secs so"

fun evhttp_set_gencb :: "evhttp \<Rightarrow> nat option \<Rightarrow> evhttp" where
  "evhttp_set_gencb (Evhttp i p as vs cbs g m mh mb t so) cb = Evhttp i p as vs cbs cb m mh mb t so"

fun set_callbacks :: "evhttp \<Rightarrow> (string \<times> nat) list \<Rightarrow> evhttp" where
  "set_callbacks (Evhttp i p as vs cbs g m mh mb t so) cbs' = Evhttp i p as vs cbs' g m mh mb t so"

fun set_pattern :: "evhttp \<Rightarrow> string option \<Rightarrow> evhttp" where
  "set_pattern (Evhttp i p as vs cbs g m mh mb t so) p' = Evhttp i p' as vs cbs g m mh mb t so"

fun set_vhosts :: "evhttp \<Rightarrow> evhttp list \<Rightarrow> evhttp" where
  "set_vhosts (Evhttp i p as vs cbs g m mh mb t so) vs' = Evhttp i p as vs' cbs g m mh mb t so"

fun set_aliases :: "evhttp \<Rightarrow> string list \<Rightarrow> evhttp" where
  "set_aliases (Evhttp i p as vs cbs g m mh mb t so) as' = Evhttp i p as' vs cbs g m mh mb t so"

definition evhttp_set_cb :: "evhttp \<Rightarrow> string \<Rightarrow> nat \<Rightarrow> int \<times> evhttp" where
  "evhttp_set_cb http uri cb =
    (if list_ex (\<lambda>c. fst c = uri) (callbacks http) then (- 1, http)
     else (0, set_callbacks http (callbacks http @ [(uri, cb)])))"

fun remove_first :: "('a \<Rightarrow> bool) \<Rightarrow> 'a list \<Rightarrow> 'a list" where
  "remove_first P [] = []"
| "remove_first P (x # xs) = (if P x then xs else x # remove_first P xs)"

definition evhttp_del_cb :: "evhttp \<Rightarrow> string \<Rightarrow> int \<times> evhttp" where
  "evhttp_del_cb http uri =
    (if list_ex (\<lambda>c. fst c = uri) (callbacks http) then (0, set_callbacks http (remove_first (\<lambda>c. fst c = uri) (callbacks http)))
     else (- 1, http))"

text \<open>The result, the server and the virtual host, which is the one in the list of the server afterwards.\<close>

definition evhttp_add_virtual_host :: "evhttp \<Rightarrow> string \<Rightarrow> evhttp \<Rightarrow> int \<times> evhttp" where
  "evhttp_add_virtual_host http pattern vhost =
    (if vhost_pattern vhost \<noteq> None \<or> sockets vhost \<noteq> 0 then (- 1, http)
     else (0, set_vhosts http (virtualhosts http @ [set_pattern vhost (Some pattern)])))"

text \<open>\<open>None\<close> stands for removing a host from a list it is not in.\<close>

definition evhttp_remove_virtual_host :: "evhttp \<Rightarrow> evhttp \<Rightarrow> (int \<times> evhttp \<times> evhttp) option" where
  "evhttp_remove_virtual_host http vhost =
    (if vhost_pattern vhost = None then Some (- 1, http, vhost)
     else if \<not> list_ex (\<lambda>v. hid v = hid vhost) (virtualhosts http) then None
     else Some (0, set_vhosts http (remove_first (\<lambda>v. hid v = hid vhost) (virtualhosts http)), set_pattern vhost None))"

definition evhttp_add_server_alias :: "evhttp \<Rightarrow> string \<Rightarrow> int \<times> evhttp" where
  "evhttp_add_server_alias http alias = (0, set_aliases http (aliases http @ [alias]))"

definition evhttp_remove_server_alias :: "evhttp \<Rightarrow> string \<Rightarrow> int \<times> evhttp" where
  "evhttp_remove_server_alias http alias =
    (if list_ex (\<lambda>a. evutil_ascii_strcasecmp a alias = 0) (aliases http)
     then (0, set_aliases http (remove_first (\<lambda>a. evutil_ascii_strcasecmp a alias = 0) (aliases http)))
     else (- 1, http))"

section \<open>Choosing a host and a callback\<close>

fun prefix_suffix_match :: "string \<Rightarrow> string \<Rightarrow> bool \<Rightarrow> bool" where
  "prefix_suffix_match [] name ignorecase = (name = [])"
| "prefix_suffix_match (c # pattern) name ignorecase =
    (if c = CHR ''*'' then list_ex (\<lambda>k. prefix_suffix_match pattern (drop k name) ignorecase) [0..<length name]
     else if c \<noteq> at0 name \<and> (\<not> ignorecase \<or> EVUTIL_TOLOWER c \<noteq> EVUTIL_TOLOWER (at0 name)) then False
     else prefix_suffix_match pattern (tl name) ignorecase)"

fun evhttp_find_alias :: "evhttp \<Rightarrow> string \<Rightarrow> evhttp option"
  and find_alias_in :: "evhttp list \<Rightarrow> string \<Rightarrow> evhttp option" where
  "evhttp_find_alias (Evhttp i p as vs cbs g m mh mb t so) hostname =
    (if list_ex (\<lambda>a. evutil_ascii_strcasecmp a hostname = 0) as then Some (Evhttp i p as vs cbs g m mh mb t so)
     else find_alias_in vs hostname)"
| "find_alias_in [] hostname = None"
| "find_alias_in (v # vs) hostname =
    (case evhttp_find_alias v hostname of Some h \<Rightarrow> Some h | None \<Rightarrow> find_alias_in vs hostname)"

definition matching_vhost :: "evhttp \<Rightarrow> string \<Rightarrow> evhttp option" where
  "matching_vhost http hostname = find (\<lambda>v. prefix_suffix_match (the (vhost_pattern v)) hostname True) (virtualhosts http)"

lemma matching_vhost_size: "matching_vhost http hostname = Some v \<Longrightarrow> size v < size http"
proof (cases http)
  case (Evhttp i p as vs cbs g m mh mb t so)
  assume "matching_vhost http hostname = Some v"
  then have "v \<in> set vs" using Evhttp by (auto simp: matching_vhost_def find_Some_iff)
  then have "size v \<le> size_list size vs" by (rule size_list_estimation') simp
  then show ?thesis using Evhttp by simp
qed

function vhost_loop :: "evhttp \<Rightarrow> string \<Rightarrow> bool \<Rightarrow> bool \<times> evhttp" where
  "vhost_loop http hostname match_found =
    (case matching_vhost http hostname of None \<Rightarrow> (match_found, http) | Some vhost \<Rightarrow> vhost_loop vhost hostname True)"
  by pat_completeness auto
termination by (relation "measure (\<lambda>(h, n, f). size h)") (auto intro: matching_vhost_size)

declare vhost_loop.simps [simp del]

definition evhttp_find_vhost :: "evhttp \<Rightarrow> string \<Rightarrow> bool \<times> evhttp" where
  "evhttp_find_vhost http hostname =
    (case evhttp_find_alias http hostname of Some h \<Rightarrow> (True, h) | None \<Rightarrow> vhost_loop http hostname False)"

definition evhttp_dispatch_callback :: "(string \<times> nat) list \<Rightarrow> string \<Rightarrow> nat option" where
  "evhttp_dispatch_callback cbs path =
    (let translated = takeWhile (\<lambda>c. c \<noteq> CHR 0x00) (evhttp_decode_uri_internal path 0) in map_option snd (find (\<lambda>cb. fst cb = translated) cbs))"

section \<open>Patterns\<close>

text \<open>Patterns of the shell with stars only, as the documentation of virtual hosts has them.\<close>

fun glob :: "bool \<Rightarrow> string \<Rightarrow> string \<Rightarrow> bool" where
  "glob ic [] name \<longleftrightarrow> name = []"
| "glob ic (c # pattern) name \<longleftrightarrow>
    (if c = CHR ''*'' then \<exists>pre suf. name = pre @ suf \<and> glob ic pattern suf
     else \<exists>d rest. name = d # rest \<and> (c = d \<or> ic \<and> EVUTIL_TOLOWER c = EVUTIL_TOLOWER d) \<and> glob ic pattern rest)"

lemma glob_Nil: "glob ic pattern [] \<Longrightarrow> pattern \<noteq> [] \<Longrightarrow> last pattern = CHR ''*''"
  by (induction pattern) (auto split: if_splits)

lemma glob_star:
  assumes "pattern \<noteq> []" "last pattern \<noteq> CHR ''*''"
  shows "(\<exists>k < length name. glob ic pattern (drop k name)) \<longleftrightarrow> (\<exists>pre suf. name = pre @ suf \<and> glob ic pattern suf)"
proof
  assume "\<exists>pre suf. name = pre @ suf \<and> glob ic pattern suf"
  then obtain pre suf where n: "name = pre @ suf" "glob ic pattern suf" by blast
  then have "suf \<noteq> []" using glob_Nil assms by blast
  then show "\<exists>k < length name. glob ic pattern (drop k name)" using n by (auto intro!: exI [of _ "length pre"])
qed (metis append_take_drop_id)



section \<open>Virtual hosts\<close>

text \<open>The hosts of a tree in the order in which aliases are looked up.\<close>

fun all_hosts :: "evhttp \<Rightarrow> evhttp list" where
  "all_hosts (Evhttp i p as vs cbs g m mh mb t so) = Evhttp i p as vs cbs g m mh mb t so # concat (map all_hosts vs)"

definition has_alias :: "string \<Rightarrow> evhttp \<Rightarrow> bool" where
  "has_alias name h \<longleftrightarrow> (\<exists>a \<in> set (aliases h). evutil_ascii_strcasecmp a name = 0)"

lemma find_append: "find P (xs @ ys) = (case find P xs of Some x \<Rightarrow> Some x | None \<Rightarrow> find P ys)"
  by (induction xs) auto

lemma find_alias_all:
  "evhttp_find_alias http name = find (has_alias name) (all_hosts http)"
  "find_alias_in vs name = find (has_alias name) (concat (map all_hosts vs))"
  by (induction http name and vs name rule: evhttp_find_alias_find_alias_in.induct)
    (auto simp: has_alias_def list_ex_iff find_append split: option.splits)

text \<open>A chain of hosts, each the first virtual host of the one before that matches.\<close>

fun vhost_chain :: "string \<Rightarrow> evhttp \<Rightarrow> evhttp list \<Rightarrow> bool" where
  "vhost_chain name http [] \<longleftrightarrow> matching_vhost http name = None"
| "vhost_chain name http (v # vs) \<longleftrightarrow> matching_vhost http name = Some v \<and> vhost_chain name v vs"

lemma vhost_loop_chain: "\<exists>vs. vhost_chain name http vs \<and> vhost_loop http name f = (f \<or> vs \<noteq> [], last (http # vs))"
proof (induction http name f rule: vhost_loop.induct)
  case (1 http name f)
  show ?case
  proof (cases "matching_vhost http name")
    case None
    then show ?thesis by (intro exI [of _ "[]"]) (simp add: vhost_loop.simps)
  next
    case (Some v)
    then obtain vs where "vhost_chain name v vs" "vhost_loop v name True = (True, last (v # vs))" using 1 by auto
    then show ?thesis using Some by (intro exI [of _ "v # vs"]) (simp add: vhost_loop.simps)
  qed
qed

text \<open>
  The host that answers for a name: the first one, in the order of the tree, that has the name as an alias up to case; without such
  an alias the end of the chain of first matching virtual hosts, none of whose own virtual hosts matches; the result says
  whether the server itself had to take the request.
\<close>

theorem vhost_selection:
  "case find (has_alias name) (all_hosts http) of Some h \<Rightarrow> evhttp_find_vhost http name = (True, h)
   | None \<Rightarrow> \<exists>vs. vhost_chain name http vs \<and> evhttp_find_vhost http name = (vs \<noteq> [], last (http # vs))"
  using vhost_loop_chain [of name http False] by (auto simp: evhttp_find_vhost_def find_alias_all split: option.splits)

section \<open>Callbacks\<close>

lemma set_callbacks_sel [simp]: "callbacks (set_callbacks h cbs) = cbs"
  by (cases h) simp

lemma find_remove_first:
  "distinct (map fst cbs) \<Longrightarrow> find (\<lambda>cb. fst cb = t) (remove_first (\<lambda>c. fst c = uri) cbs) =
    (if t = uri then None else find (\<lambda>cb. fst cb = t) cbs)"
  by (induction cbs) (auto simp: find_None_iff image_iff)

lemma remove_first_fst: "map fst (remove_first (\<lambda>c. fst c = uri) cbs) = remove1 uri (map fst cbs)"
  by (induction cbs) auto

text \<open>
  The callbacks of a server: setting one fails exactly if its path has one already, deleting exactly if it has none; both keep the
  paths distinct. Afterwards a request whose path decodes to the path is given to the new callback, or to none, and every other path to
  the callback it had before.
\<close>

theorem server_callbacks:
  assumes "distinct (map fst (callbacks http))" "evhttp_set_cb http uri cb = (r, http')" "evhttp_del_cb http uri = (r', http'')"
  shows "(r = (if uri \<in> fst ` set (callbacks http) then - 1 else 0)) \<and> (r' = (if uri \<in> fst ` set (callbacks http) then 0 else - 1))
    \<and> distinct (map fst (callbacks http')) \<and> distinct (map fst (callbacks http''))
    \<and> (let decoded = takeWhile (\<lambda>c. c \<noteq> CHR 0x00) (evhttp_decode_uri_internal path 0)
       in (r = 0 \<longrightarrow> evhttp_dispatch_callback (callbacks http') path = (if decoded = uri then Some cb else evhttp_dispatch_callback (callbacks http) path))
        \<and> (r' = 0 \<longrightarrow> evhttp_dispatch_callback (callbacks http'') path = (if decoded = uri then None else evhttp_dispatch_callback (callbacks http) path)))"
proof -
  let ?in = "uri \<in> fst ` set (callbacks http)"
  have ex: "list_ex (\<lambda>c. fst c = uri) (callbacks http) \<longleftrightarrow> ?in" by (auto simp: list_ex_iff)
  have s: "r = (if ?in then - 1 else 0)" "callbacks http' = (if ?in then callbacks http else callbacks http @ [(uri, cb)])"
    using assms(2) unfolding evhttp_set_cb_def ex by (auto simp del: image_iff split: if_splits)
  have d: "r' = (if ?in then 0 else - 1)"
    "callbacks http'' = (if ?in then remove_first (\<lambda>c. fst c = uri) (callbacks http) else callbacks http)"
    using assms(3) unfolding evhttp_del_cb_def ex by (auto simp del: image_iff split: if_splits)
  have "distinct (map fst (callbacks http'))" "distinct (map fst (callbacks http''))"
    using assms(1) s(2) d(2) by (auto simp: remove_first_fst)
  moreover have "\<not> ?in \<Longrightarrow> find (\<lambda>cb. fst cb = uri) (callbacks http) = None" by (auto simp: find_None_iff image_iff)
  ultimately show ?thesis using s d find_remove_first [OF assms(1)]
    by (auto simp: evhttp_dispatch_callback_def Let_def find_append split: option.splits)
qed

theorem server_callbacks_witness:
  "evhttp_dispatch_callback (callbacks (snd (evhttp_set_cb (evhttp_new_object 0) ''/a b'' 7))) ''/a%20b'' = Some 7"
proof -
  have e: "callbacks (evhttp_new_object 0) = []" by (simp add: evhttp_new_object_def)
  obtain r http' where s: "evhttp_set_cb (evhttp_new_object 0) ''/a b'' 7 = (r, http')" by fastforce
  obtain r' http'' where d: "evhttp_del_cb (evhttp_new_object 0) ''/a b'' = (r', http'')" by fastforce
  have "takeWhile (\<lambda>c. c \<noteq> CHR 0x00) (evhttp_decode_uri_internal ''/a%20b'' 0) = ''/a b''" by code_simp
  then show ?thesis using server_callbacks [OF _ s d, of "''/a%20b''"] s e by (auto simp: Let_def)
qed

end
