(* ===== verification/Http_Message.thy ===== *)
theory Http_Message
  imports Http_Server Ev_Buffer_Search
begin

text \<open>
  The messages of \<open>event/http.c\<close>: first lines, headers and chunked bodies, as they are read from and written to the buffers of a
  connection. A buffer is the string of its characters, which is what the evbuffer implements (\<open>Ev_Buffer_Move\<close>); lines are taken from
  it by \<open>read_line\<close>, which is what \<open>evbuffer_readln\<close> does (\<open>read_line_buffer\<close>). A line may hold zero bytes: they count for its
  length, but the string it is read as ends at the first. Memory is taken to be available; \<open>None\<close> as a result stands for
  behaviour that C does not define (a number that does not fit an \<open>int\<close>, a null pointer printed as a string).
\<close>

section \<open>Lines\<close>

definition read_line :: "string \<Rightarrow> (string \<times> string) option" where
  "read_line s =
    (let l = takeWhile (\<lambda>c. c \<noteq> CHR 0x0A) s; r = dropWhile (\<lambda>c. c \<noteq> CHR 0x0A) s
     in if r = [] then None else Some (if l \<noteq> [] \<and> last l = CHR 0x0D then butlast l else l, tl r))"

definition c_string :: "string \<Rightarrow> string" where
  "c_string s = takeWhile (\<lambda>c. c \<noteq> CHR 0x00) s"

lemma read_line_less: "read_line s = Some (l, r) \<Longrightarrow> length r < length s"
  using length_dropWhile_le [of "\<lambda>c. c \<noteq> CHR 0x0A" s]
  by (cases "dropWhile (\<lambda>c. c \<noteq> CHR 0x0A) s") (auto simp: read_line_def Let_def split: if_splits)

section \<open>Requests\<close>

datatype evhttp_request_kind = EVHTTP_REQUEST | EVHTTP_RESPONSE

datatype message_read_status = ALL_DATA_READ | MORE_DATA_EXPECTED | DATA_CORRUPTED | REQUEST_CANCELED | DATA_TOO_LONG

text \<open>\<open>delivered\<close> records what was handed to the callback for chunks. \<open>major\<close> and \<open>minor\<close> are of type \<open>char\<close>, which is signed.\<close>

record evhttp_request =
  req_flags :: UInt32
  input_headers :: evkeyvalq
  output_headers :: evkeyvalq
  host_cache :: "string option"
  kind :: evhttp_request_kind
  req_type :: evhttp_cmd_type
  headers_size :: nat
  body_size :: nat
  req_uri :: "string option"
  uri_elems :: "evhttp_uri option"
  major :: int
  minor :: int
  response_code :: int
  response_code_line :: "string option"
  input_buffer :: string
  ntoread :: int
  chunked :: bool
  userdone :: bool
  output_buffer :: string
  has_chunk_cb :: bool
  delivered :: "string list"

definition evhttp_request_new :: evhttp_request where
  "evhttp_request_new = \<lparr>req_flags = 0, input_headers = [], output_headers = [], host_cache = None, kind = EVHTTP_RESPONSE,
     req_type = EVHTTP_REQ_NONE, headers_size = 0, body_size = 0, req_uri = None, uri_elems = None, major = 0, minor = 0,
     response_code = 0, response_code_line = None, input_buffer = [], ntoread = 0, chunked = False, userdone = False,
     output_buffer = [], has_chunk_cb = False, delivered = []\<rparr>"

definition EVHTTP_REQ_OWN_CONNECTION :: UInt32 where "EVHTTP_REQ_OWN_CONNECTION = 0x0001"
definition EVHTTP_PROXY_REQUEST :: UInt32 where "EVHTTP_PROXY_REQUEST = 0x0002"
definition EVHTTP_USER_OWNED :: UInt32 where "EVHTTP_USER_OWNED = 0x0004"
definition EVHTTP_REQ_DEFER_FREE :: UInt32 where "EVHTTP_REQ_DEFER_FREE = 0x0008"
definition EVHTTP_REQ_NEEDS_FREE :: UInt32 where "EVHTTP_REQ_NEEDS_FREE = 0x0010"

text \<open>What reading and writing messages uses of the connection.\<close>

record evhttp_limits =
  max_headers_size :: nat
  max_body_size :: nat
  http_server :: evhttp

definition REQ_VERSION_BEFORE :: "evhttp_request \<Rightarrow> int \<Rightarrow> int \<Rightarrow> bool" where
  "REQ_VERSION_BEFORE req major_v minor_v \<longleftrightarrow> major req < major_v \<or> major req = major_v \<and> minor req < minor_v"

definition REQ_VERSION_ATLEAST :: "evhttp_request \<Rightarrow> int \<Rightarrow> int \<Rightarrow> bool" where
  "REQ_VERSION_ATLEAST req major_v minor_v \<longleftrightarrow> major_v < major req \<or> major req = major_v \<and> minor_v \<le> minor req"

fun evhttp_method :: "evhttp_cmd_type \<Rightarrow> string option" where
  "evhttp_method EVHTTP_REQ_GET = Some ''GET''"
| "evhttp_method EVHTTP_REQ_POST = Some ''POST''"
| "evhttp_method EVHTTP_REQ_HEAD = Some ''HEAD''"
| "evhttp_method EVHTTP_REQ_PUT = Some ''PUT''"
| "evhttp_method EVHTTP_REQ_DELETE = Some ''DELETE''"
| "evhttp_method EVHTTP_REQ_OPTIONS = Some ''OPTIONS''"
| "evhttp_method EVHTTP_REQ_TRACE = Some ''TRACE''"
| "evhttp_method EVHTTP_REQ_CONNECT = Some ''CONNECT''"
| "evhttp_method EVHTTP_REQ_PATCH = Some ''PATCH''"
| "evhttp_method _ = None"

definition HTTP_NOCONTENT :: int where "HTTP_NOCONTENT = 204"
definition HTTP_NOTMODIFIED :: int where "HTTP_NOTMODIFIED = 304"

definition evhttp_response_needs_body :: "evhttp_request \<Rightarrow> bool" where
  "evhttp_response_needs_body req \<longleftrightarrow>
    response_code req \<noteq> HTTP_NOCONTENT \<and> response_code req \<noteq> HTTP_NOTMODIFIED
    \<and> (response_code req < 100 \<or> 200 \<le> response_code req) \<and> req_type req \<noteq> EVHTTP_REQ_HEAD"

fun evhttp_method_may_have_body :: "evhttp_cmd_type \<Rightarrow> bool" where
  "evhttp_method_may_have_body EVHTTP_REQ_POST = True"
| "evhttp_method_may_have_body EVHTTP_REQ_PUT = True"
| "evhttp_method_may_have_body EVHTTP_REQ_PATCH = True"
| "evhttp_method_may_have_body _ = False"

section \<open>Reading the first line\<close>

definition signed_char :: "int \<Rightarrow> int" where
  "signed_char v = sint (word_of_int v :: 8 word)"

text \<open>\<open>sscanf\<close> with the format \<open>HTTP/%d.%d%c\<close> makes exactly two conversions.\<close>

definition version_numbers :: "string \<Rightarrow> (int \<times> int) checked" where
  "version_numbers version =
    (if take 5 version \<noteq> ''HTTP/'' then Rejected
     else checked_bind (scan_d (drop 5 version)) (\<lambda>(a, s1). checked_bind (scan_dot s1) (\<lambda>s2.
       checked_bind (scan_d s2) (\<lambda>(b, s3). if s3 = [] then Accepted (a, b) else Rejected))))"

definition evhttp_parse_http_version :: "string \<Rightarrow> evhttp_request \<Rightarrow> (int \<times> evhttp_request) option" where
  "evhttp_parse_http_version version req =
    (case version_numbers version of Undefined \<Rightarrow> None | Rejected \<Rightarrow> Some (- 1, req)
     | Accepted (a, b) \<Rightarrow> if 1 < a then Some (- 1, req) else Some (0, req\<lparr>major := signed_char a, minor := signed_char b\<rparr>))"

definition evhttp_valid_response_code :: "int \<Rightarrow> bool" where
  "evhttp_valid_response_code code \<longleftrightarrow> code \<noteq> 0"

definition evhttp_parse_response_line :: "evhttp_request \<Rightarrow> string \<Rightarrow> (int \<times> evhttp_request) option" where
  "evhttp_parse_response_line req line =
    (case strsep CHR '' '' line of (protocol, None) \<Rightarrow> Some (- 1, req)
     | (protocol, Some line1) \<Rightarrow>
         let (number, line2) = strsep CHR '' '' line1; readable = (case line2 of None \<Rightarrow> [] | Some r \<Rightarrow> r)
         in case evhttp_parse_http_version protocol req of None \<Rightarrow> None
            | Some (r, req1) \<Rightarrow>
                if r < 0 then Some (- 1, req1)
                else case atoi number of Accepted code \<Rightarrow>
                       let req2 = req1\<lparr>response_code := code\<rparr>
                       in if \<not> evhttp_valid_response_code code then Some (- 1, req2)
                          else Some (0, req2\<lparr>response_code_line := Some readable\<rparr>)
                     | _ \<Rightarrow> None)"

definition method_type :: "string \<Rightarrow> evhttp_cmd_type" where
  "method_type method =
    (if method = ''GET'' then EVHTTP_REQ_GET else if method = ''POST'' then EVHTTP_REQ_POST else if method = ''HEAD'' then EVHTTP_REQ_HEAD
     else if method = ''PUT'' then EVHTTP_REQ_PUT else if method = ''DELETE'' then EVHTTP_REQ_DELETE
     else if method = ''OPTIONS'' then EVHTTP_REQ_OPTIONS else if method = ''TRACE'' then EVHTTP_REQ_TRACE
     else if method = ''PATCH'' then EVHTTP_REQ_PATCH else EVHTTP_REQ_UNKNOWN)"

text \<open>Whether a URI is that of a proxy request: a scheme of HTTP and a host that the server does not know.\<close>

definition proxy_uri :: "evhttp \<Rightarrow> evhttp_uri \<Rightarrow> bool" where
  "proxy_uri http u =
    (case (scheme u, host u) of
       (Some s, Some h) \<Rightarrow> (evutil_ascii_strcasecmp s ''http'' = 0 \<or> evutil_ascii_strcasecmp s ''https'' = 0) \<and> \<not> fst (evhttp_find_vhost http h)
     | _ \<Rightarrow> False)"

definition evhttp_parse_request_line :: "evhttp \<Rightarrow> evhttp_request \<Rightarrow> string \<Rightarrow> (int \<times> evhttp_request) option" where
  "evhttp_parse_request_line http req line =
    (case strsep CHR '' '' line of (_, None) \<Rightarrow> Some (- 1, req) | (method, Some line1) \<Rightarrow>
     case strsep CHR '' '' line1 of (_, None) \<Rightarrow> Some (- 1, req) | (uri, Some line2) \<Rightarrow>
     case strsep CHR '' '' line2 of (_, Some _) \<Rightarrow> Some (- 1, req) | (version, None) \<Rightarrow>
       let req1 = req\<lparr>req_type := method_type method\<rparr>
       in case evhttp_parse_http_version version req1 of None \<Rightarrow> None
          | Some (r, req2) \<Rightarrow>
              if r < 0 then Some (- 1, req2)
              else let req3 = req2\<lparr>req_uri := Some uri\<rparr>
                   in case evhttp_uri_parse_with_flags uri EVHTTP_URI_NONCONFORMANT of Undefined \<Rightarrow> None | Rejected \<Rightarrow> Some (- 1, req3)
                      | Accepted u \<Rightarrow> Some (0, req3\<lparr>uri_elems := Some u,
                          req_flags := if proxy_uri http u then req_flags req3 OR EVHTTP_PROXY_REQUEST else req_flags req3\<rparr>))"

text \<open>The limits are \<open>None\<close> for a request without connection; a request line is only read on the connection of a server.\<close>

definition over_headers :: "evhttp_limits option \<Rightarrow> nat \<Rightarrow> bool" where
  "over_headers con n = (case con of None \<Rightarrow> False | Some c \<Rightarrow> max_headers_size c < n)"

definition evhttp_parse_firstline ::
  "evhttp_limits option \<Rightarrow> evhttp_request \<Rightarrow> string \<Rightarrow> (message_read_status \<times> evhttp_request \<times> string) option" where
  "evhttp_parse_firstline con req buffer =
    (case read_line buffer of
       None \<Rightarrow> Some (if over_headers con (length buffer) then DATA_TOO_LONG else MORE_DATA_EXPECTED, req, buffer)
     | Some (line, rest) \<Rightarrow>
         if over_headers con (length line) then Some (DATA_TOO_LONG, req, rest)
         else let req1 = req\<lparr>headers_size := length line\<rparr>
              in map_option (\<lambda>(r, req2). (if r = - 1 then DATA_CORRUPTED else ALL_DATA_READ, req2, rest))
                   (case kind req of EVHTTP_REQUEST \<Rightarrow>
                      (case con of None \<Rightarrow> None | Some c \<Rightarrow> evhttp_parse_request_line (http_server c) req1 (c_string line))
                    | EVHTTP_RESPONSE \<Rightarrow> evhttp_parse_response_line req1 (c_string line)))"

section \<open>Reading headers\<close>

function parse_headers_loop ::
  "evhttp_limits option \<Rightarrow> evhttp_request \<Rightarrow> string \<Rightarrow> message_read_status \<times> evhttp_request \<times> string" where
  "parse_headers_loop con req buffer =
    (case read_line buffer of None \<Rightarrow> (MORE_DATA_EXPECTED, req, buffer)
     | Some (line0, rest) \<Rightarrow>
         let req1 = req\<lparr>headers_size := headers_size req + length line0\<rparr>; line = c_string line0
         in if over_headers con (headers_size req1) then (DATA_TOO_LONG, req1, rest)
            else if line = [] then (ALL_DATA_READ, req1, rest)
            else if hd line = CHR '' '' \<or> hd line = CHR 0x09 then
              let (r, headers) = evhttp_append_to_last_header (input_headers req1) line
              in if r = - 1 then (DATA_CORRUPTED, req1, rest) else parse_headers_loop con (req1\<lparr>input_headers := headers\<rparr>) rest
            else case strsep CHR '':'' line of (_, None) \<Rightarrow> (DATA_CORRUPTED, req1, rest)
                 | (skey, Some svalue) \<Rightarrow>
                     let (r, headers) = evhttp_add_header (input_headers req1) skey (dropWhile (\<lambda>c. c = CHR '' '') svalue)
                     in if r = - 1 then (DATA_CORRUPTED, req1, rest) else parse_headers_loop con (req1\<lparr>input_headers := headers\<rparr>) rest)"
  by pat_completeness auto
termination by (relation "measure (\<lambda>(con, req, buffer). length buffer)") (auto dest: read_line_less)

declare parse_headers_loop.simps [simp del]

definition evhttp_parse_headers ::
  "evhttp_limits option \<Rightarrow> evhttp_request \<Rightarrow> string \<Rightarrow> message_read_status \<times> evhttp_request \<times> string" where
  "evhttp_parse_headers con req buffer =
    (let (status, req', buffer') = parse_headers_loop con req buffer
     in if status = MORE_DATA_EXPECTED \<and> over_headers con (headers_size req' + length buffer') then (DATA_TOO_LONG, req', buffer')
        else (status, req', buffer'))"

section \<open>Reading the body\<close>

text \<open>\<open>evutil_strtoll\<close>: the value, cut to 64 bits, and the text behind the number, the whole text if there is none.\<close>

definition strtoll_end :: "nat \<Rightarrow> string \<Rightarrow> int \<times> string" where
  "strtoll_end radix s =
    (let t = dropWhile is_space s;
         u = strip_0x radix (if t \<noteq> [] \<and> (hd t = CHR ''-'' \<or> hd t = CHR ''+'') then tl t else t)
     in (sint (strtoll s radix), if u \<noteq> [] \<and> digit_value (hd u) < radix then dropWhile (\<lambda>c. digit_value c < radix) u else s))"

definition evhttp_get_body_length :: "evhttp_request \<Rightarrow> int \<times> evhttp_request" where
  "evhttp_get_body_length req =
    (let content_length = evhttp_find_header (input_headers req) ''Content-Length''; connection = evhttp_find_header (input_headers req) ''Connection''
     in case content_length of
          None \<Rightarrow> (case connection of None \<Rightarrow> (0, req\<lparr>ntoread := - 1\<rparr>)
                   | Some c \<Rightarrow> if evutil_ascii_strcasecmp c ''Close'' \<noteq> 0 then (- 1, req) else (0, req\<lparr>ntoread := - 1\<rparr>))
        | Some s \<Rightarrow>
            let (n, endp) = strtoll_end 10 s
            in if s = [] \<or> endp \<noteq> [] \<or> n < 0 then (- 1, req) else (0, req\<lparr>ntoread := n\<rparr>))"

definition EV_SSIZE_MAX :: nat where "EV_SSIZE_MAX = 2 ^ 63 - 1"

text \<open>
  The callback for chunks is given the input buffer, which is then emptied. It may cancel the request, which is only noted while
  \<open>EVHTTP_REQ_DEFER_FREE\<close> is set; apart from that it is taken to leave the request alone.
\<close>

definition run_chunk_cb :: "(evhttp_request \<Rightarrow> bool) \<Rightarrow> evhttp_request \<Rightarrow> evhttp_request" where
  "run_chunk_cb cancels req =
    (let req1 = req\<lparr>req_flags := req_flags req OR EVHTTP_REQ_DEFER_FREE\<rparr>;
         req2 = (if cancels req1 then req1\<lparr>req_flags := req_flags req1 OR EVHTTP_REQ_NEEDS_FREE\<rparr> else req1)
     in req2\<lparr>delivered := delivered req2 @ [input_buffer req2], input_buffer := [], req_flags := req_flags req2 AND NOT EVHTTP_REQ_DEFER_FREE\<rparr>)"

lemma run_chunk_cb_ntoread [simp]: "ntoread (run_chunk_cb cancels req) = ntoread req"
  by (simp add: run_chunk_cb_def Let_def)

function evhttp_handle_chunked_read ::
  "(evhttp_request \<Rightarrow> bool) \<Rightarrow> evhttp_limits \<Rightarrow> evhttp_request \<Rightarrow> string \<Rightarrow> message_read_status \<times> evhttp_request \<times> string" where
  "evhttp_handle_chunked_read cancels con req buf =
    (if buf = [] then (MORE_DATA_EXPECTED, req, buf)
     else if EV_SSIZE_MAX < length buf then (DATA_CORRUPTED, req, buf)
     else if ntoread req < 0 then
       (case read_line buf of None \<Rightarrow> (MORE_DATA_EXPECTED, req, buf)
        | Some (line, rest) \<Rightarrow>
            let p = c_string line; (n, endp) = strtoll_end 16 p
            in if p = [] then evhttp_handle_chunked_read cancels con req rest
               else if endp \<noteq> [] \<and> hd endp \<noteq> CHR '' '' \<or> n < 0 then (DATA_CORRUPTED, req, rest)
               else if EV_SIZE_MAX - body_size req < nat n then (DATA_CORRUPTED, req, rest)
               else if max_body_size con < body_size req + nat n then (DATA_TOO_LONG, req, rest)
               else let req1 = req\<lparr>body_size := body_size req + nat n, ntoread := n\<rparr>
                    in if n = 0 then (ALL_DATA_READ, req1, rest) else evhttp_handle_chunked_read cancels con req1 rest)
     else if int EV_SSIZE_MAX < ntoread req then (DATA_CORRUPTED, req, buf)
     else if 0 < ntoread req \<and> length buf < nat (ntoread req) then (MORE_DATA_EXPECTED, req, buf)
     else let n = nat (ntoread req); req1 = req\<lparr>input_buffer := input_buffer req @ take n buf, ntoread := - 1\<rparr>
          in if has_chunk_cb req
             then let req2 = run_chunk_cb cancels req1
                  in if req_flags req2 AND EVHTTP_REQ_NEEDS_FREE \<noteq> 0 then (REQUEST_CANCELED, req2, drop n buf)
                     else evhttp_handle_chunked_read cancels con req2 (drop n buf)
             else evhttp_handle_chunked_read cancels con req1 (drop n buf))"
  by pat_completeness auto
termination
  by (relation "measures [\<lambda>(cancels, con, req, buf). length buf, \<lambda>(cancels, con, req, buf). if ntoread req < 0 then 0 else 1]")
    (auto dest: read_line_less)

declare evhttp_handle_chunked_read.simps [simp del]

section \<open>Writing\<close>

definition print_int :: "int \<Rightarrow> string" where
  "print_int i = (if i < 0 then CHR ''-'' # print_d (nat (- i)) else print_d (nat i))"

abbreviation crlf :: string where
  "crlf \<equiv> [CHR 0x0D, CHR 0x0A]"

definition evhttp_is_connection_close :: "UInt32 \<Rightarrow> evkeyvalq \<Rightarrow> bool" where
  "evhttp_is_connection_close flags headers =
    (if flags AND EVHTTP_PROXY_REQUEST \<noteq> 0
     then (case evhttp_find_header headers ''Proxy-Connection'' of None \<Rightarrow> True | Some c \<Rightarrow> evutil_ascii_strcasecmp c ''keep-alive'' \<noteq> 0)
     else (case evhttp_find_header headers ''Connection'' of None \<Rightarrow> False | Some c \<Rightarrow> evutil_ascii_strcasecmp c ''close'' = 0))"

definition evhttp_is_connection_keepalive :: "evkeyvalq \<Rightarrow> bool" where
  "evhttp_is_connection_keepalive headers =
    (case evhttp_find_header headers ''Connection'' of None \<Rightarrow> False | Some c \<Rightarrow> evutil_ascii_strncasecmp c ''keep-alive'' 10 = 0)"

text \<open>The date is what \<open>strftime\<close> makes of the current time, \<open>None\<close> if it fails.\<close>

definition evhttp_maybe_add_date_header :: "string option \<Rightarrow> evkeyvalq \<Rightarrow> evkeyvalq" where
  "evhttp_maybe_add_date_header date headers =
    (case (evhttp_find_header headers ''Date'', date) of (None, Some d) \<Rightarrow> snd (evhttp_add_header headers ''Date'' d) | _ \<Rightarrow> headers)"

definition evhttp_maybe_add_content_length_header :: "evkeyvalq \<Rightarrow> nat \<Rightarrow> evkeyvalq" where
  "evhttp_maybe_add_content_length_header headers content_length =
    (if evhttp_find_header headers ''Transfer-Encoding'' = None \<and> evhttp_find_header headers ''Content-Length'' = None
     then snd (evhttp_add_header headers ''Content-Length'' (print_d content_length)) else headers)"

text \<open>Both return the request and the first line.\<close>

definition evhttp_make_header_request :: "evhttp_request \<Rightarrow> (evhttp_request \<times> string) option" where
  "evhttp_make_header_request req =
    (case (evhttp_method (req_type req), req_uri req) of
       (Some method, Some uri) \<Rightarrow>
         let hs = snd (evhttp_remove_header (output_headers req) ''Proxy-Connection'');
             hs' = (if (req_type req = EVHTTP_REQ_POST \<or> req_type req = EVHTTP_REQ_PUT) \<and> evhttp_find_header hs ''Content-Length'' = None
                    then snd (evhttp_add_header hs ''Content-Length'' (print_d (length (output_buffer req)))) else hs)
         in Some (req\<lparr>output_headers := hs'\<rparr>,
              method @ '' '' @ uri @ '' HTTP/'' @ print_int (major req) @ ''.'' @ print_int (minor req) @ crlf)
     | _ \<Rightarrow> None)"

definition add_body_headers :: "string option \<Rightarrow> evhttp_request \<Rightarrow> evkeyvalq" where
  "add_body_headers date req =
    (let is_keepalive = evhttp_is_connection_keepalive (input_headers req);
         hs0 = output_headers req;
         hs1 = (if major req = 1 \<and> 1 \<le> minor req then evhttp_maybe_add_date_header date hs0 else hs0);
         hs2 = (if major req = 1 \<and> minor req = 0 \<and> is_keepalive then snd (evhttp_add_header hs1 ''Connection'' ''keep-alive'') else hs1);
         hs3 = (if major req = 1 \<and> (1 \<le> minor req \<or> is_keepalive) \<and> evhttp_response_needs_body req
                then evhttp_maybe_add_content_length_header hs2 (length (output_buffer req)) else hs2)
     in if evhttp_response_needs_body req \<and> evhttp_find_header hs3 ''Content-Type'' = None
        then snd (evhttp_add_header hs3 ''Content-Type'' ''text/html; charset=ISO-8859-1'') else hs3)"

definition evhttp_make_header_response :: "string option \<Rightarrow> evhttp_request \<Rightarrow> (evhttp_request \<times> string) option" where
  "evhttp_make_header_response date req =
    (case response_code_line req of None \<Rightarrow> None
     | Some reason \<Rightarrow>
         let hs4 = add_body_headers date req;
             hs5 = (if evhttp_is_connection_close (req_flags req) (input_headers req)
                    then let a = snd (evhttp_remove_header hs4 ''Connection'');
                             b = (if req_flags req AND EVHTTP_PROXY_REQUEST = 0 then snd (evhttp_add_header a ''Connection'' ''close'') else a)
                         in snd (evhttp_remove_header b ''Proxy-Connection'')
                    else hs4)
         in Some (req\<lparr>output_headers := hs5\<rparr>,
              ''HTTP/'' @ print_int (major req) @ ''.'' @ print_int (minor req) @ '' '' @ print_int (response_code req) @ '' '' @ reason @ crlf))"

definition header_text :: "evkeyvalq \<Rightarrow> string" where
  "header_text headers = concat (map (\<lambda>(key, value). key @ '': '' @ value @ crlf) headers)"

text \<open>What is appended to the output of the connection.\<close>

definition evhttp_make_header :: "string option \<Rightarrow> evhttp_request \<Rightarrow> (evhttp_request \<times> string) option" where
  "evhttp_make_header date req =
    map_option (\<lambda>(req', line). (req'\<lparr>output_buffer := []\<rparr>, line @ header_text (output_headers req') @ crlf @ output_buffer req'))
      (case kind req of EVHTTP_REQUEST \<Rightarrow> evhttp_make_header_request req | EVHTTP_RESPONSE \<Rightarrow> evhttp_make_header_response date req)"

section \<open>Replies\<close>

definition informational_phrases :: "string list" where
  "informational_phrases = [''Continue'', ''Switching Protocols'']"

definition success_phrases :: "string list" where
  "success_phrases = [''OK'', ''Created'', ''Accepted'', ''Non-Authoritative Information'', ''No Content'', ''Reset Content'', ''Partial Content'']"

definition redirection_phrases :: "string list" where
  "redirection_phrases = [''Multiple Choices'', ''Moved Permanently'', ''Found'', ''See Other'', ''Not Modified'', ''Use Proxy'', ''Temporary Redirect'']"

definition client_error_phrases :: "string list" where
  "client_error_phrases = [''Bad Request'', ''Unauthorized'', ''Payment Required'', ''Forbidden'', ''Not Found'', ''Method Not Allowed'',
     ''Not Acceptable'', ''Proxy Authentication Required'', ''Request Time-out'', ''Conflict'', ''Gone'', ''Length Required'',
     ''Precondition Failed'', ''Request Entity Too Large'', ''Request-URI Too Large'', ''Unsupported Media Type'',
     ''Requested range not satisfiable'', ''Expectation Failed'']"

definition server_error_phrases :: "string list" where
  "server_error_phrases = [''Internal Server Error'', ''Not Implemented'', ''Bad Gateway'', ''Service Unavailable'', ''Gateway Time-out'',
     ''HTTP Version not supported'']"

definition response_classes :: "(string \<times> string list) list" where
  "response_classes = [(''Informational'', informational_phrases), (''Success'', success_phrases), (''Redirection'', redirection_phrases),
     (''Client Error'', client_error_phrases), (''Server Error'', server_error_phrases)]"

definition evhttp_response_phrase_internal :: "int \<Rightarrow> string" where
  "evhttp_response_phrase_internal code =
    (let klass = quot_c code 100 - 1; subcode = code - 100 * quot_c code 100
     in if klass < 0 \<or> int (length response_classes) \<le> klass then ''Unknown Status Class''
        else let (name, responses) = response_classes ! nat klass
             in if int (length responses) \<le> subcode then name else responses ! nat subcode)"

definition evhttp_response_code :: "evhttp_request \<Rightarrow> int \<Rightarrow> string option \<Rightarrow> evhttp_request" where
  "evhttp_response_code req code reason =
    req\<lparr>kind := EVHTTP_RESPONSE, response_code := code,
      response_code_line := Some (case reason of None \<Rightarrow> evhttp_response_phrase_internal code | Some r \<Rightarrow> r)\<rparr>"

text \<open>Requests on a connection: the request and what is appended to the output.\<close>

definition evhttp_send :: "string option \<Rightarrow> evhttp_request \<Rightarrow> string \<Rightarrow> (evhttp_request \<times> string) option" where
  "evhttp_send date req databuf = evhttp_make_header date (req\<lparr>userdone := True, output_buffer := output_buffer req @ databuf\<rparr>)"

definition evhttp_send_reply :: "string option \<Rightarrow> evhttp_request \<Rightarrow> int \<Rightarrow> string option \<Rightarrow> string \<Rightarrow> (evhttp_request \<times> string) option" where
  "evhttp_send_reply date req code reason databuf = evhttp_send date (evhttp_response_code req code reason) databuf"

definition evhttp_send_page :: "string option \<Rightarrow> evhttp_request \<Rightarrow> string \<Rightarrow> (evhttp_request \<times> string) option" where
  "evhttp_send_page date req databuf =
    (let req1 = (if major req = 0 \<or> minor req = 0 then req\<lparr>major := 1, minor := 1\<rparr> else req);
         req2 = (if kind req1 \<noteq> EVHTTP_RESPONSE then evhttp_response_code req1 200 (Some ''OK'') else req1);
         hs1 = snd (evhttp_add_header (evhttp_clear_headers (output_headers req2)) ''Content-Type'' ''text/html'');
         hs2 = snd (evhttp_add_header hs1 ''Connection'' ''close'')
     in evhttp_send date (req2\<lparr>output_headers := hs2\<rparr>) databuf)"

definition error_page :: "int \<Rightarrow> string \<Rightarrow> string" where
  "error_page error reason =
    ''<HTML><HEAD>'' @ [CHR 0x0A] @ ''<TITLE>'' @ print_int error @ '' '' @ reason @ ''</TITLE>'' @ [CHR 0x0A] @ ''</HEAD><BODY>'' @ [CHR 0x0A] @
    ''<H1>'' @ reason @ ''</H1>'' @ [CHR 0x0A] @ ''</BODY></HTML>'' @ [CHR 0x0A]"

definition evhttp_send_error :: "string option \<Rightarrow> evhttp_request \<Rightarrow> int \<Rightarrow> string option \<Rightarrow> (evhttp_request \<times> string) option" where
  "evhttp_send_error date req error reason0 =
    (let reason = (case reason0 of None \<Rightarrow> evhttp_response_phrase_internal error | Some r \<Rightarrow> r)
     in evhttp_send_page date (evhttp_response_code req error (Some reason)) (error_page error reason))"

definition evhttp_send_reply_start :: "string option \<Rightarrow> evhttp_request \<Rightarrow> int \<Rightarrow> string option \<Rightarrow> (evhttp_request \<times> string) option" where
  "evhttp_send_reply_start date req0 code reason =
    (let req = evhttp_response_code req0 code reason
     in evhttp_make_header date
          (if evhttp_find_header (output_headers req) ''Content-Length'' = None \<and> REQ_VERSION_ATLEAST req 1 1 \<and> evhttp_response_needs_body req
           then req\<lparr>output_headers := snd (evhttp_add_header (output_headers req) ''Transfer-Encoding'' ''chunked''), chunked := True\<rparr>
           else req\<lparr>chunked := False\<rparr>))"

text \<open>The length of a chunk is written as an \<open>unsigned\<close> of 32 bits.\<close>

definition evhttp_send_reply_chunk :: "evhttp_request \<Rightarrow> string \<Rightarrow> string" where
  "evhttp_send_reply_chunk req databuf =
    (if databuf = [] \<or> \<not> evhttp_response_needs_body req then []
     else (if chunked req then print_radix 16 (length databuf mod 2 ^ 32) @ crlf else []) @ databuf @ (if chunked req then crlf else []))"

definition evhttp_send_reply_end :: "evhttp_request \<Rightarrow> evhttp_request \<times> string" where
  "evhttp_send_reply_end req =
    (if chunked req then (req\<lparr>userdone := True, chunked := False\<rparr>, ''0'' @ crlf @ crlf) else (req\<lparr>userdone := True\<rparr>, []))"

section \<open>Lines of buffers\<close>

definition text_of :: "bytes \<Rightarrow> string" where
  "text_of bs = map (\<lambda>b. char_of (unat b)) bs"

lemma char_of_unat: "char_of (unat (b :: UInt8)) = (char_of (unat c) :: char) \<longleftrightarrow> b = c"
proof -
  have "unat b < 256" "unat c < 256" using unsigned_less [of b, where ?'a = nat] unsigned_less [of c, where ?'a = nat] by simp_all
  then show ?thesis by (metis char_of_eq_iff mod_less of_char_of word_unat_eq_iff)
qed

lemma char_of_LF [simp]: "char_of (unat (b :: UInt8)) = CHR 0x0A \<longleftrightarrow> b = LF" "char_of (unat (b :: UInt8)) = CHR 0x0D \<longleftrightarrow> b = CR"
proof -
  have "CHR 0x0A = char_of (unat LF)" "CHR 0x0D = char_of (unat CR)" by (simp_all add: LF_def CR_def char_of_def bit_Suc bit_0)
  then show "char_of (unat b) = CHR 0x0A \<longleftrightarrow> b = LF" "char_of (unat b) = CHR 0x0D \<longleftrightarrow> b = CR" using char_of_unat by metis+
qed

lemma read_line_Cons:
  "read_line (c # s) = (if c = CHR 0x0A then Some ([], s) else if c = CHR 0x0D \<and> take 1 s = [CHR 0x0A] then Some ([], tl s)
     else map_option (\<lambda>(l, r). (c # l, r)) (read_line s))"
proof (cases "c = CHR 0x0A")
  case False
  then show ?thesis
    by (cases s) (auto simp: read_line_def Let_def takeWhile_eq_Nil_iff split: if_splits)
qed (simp add: read_line_def)

lemma read_line_Nil [simp]: "read_line [] = None"
  by (simp add: read_line_def)

lemma read_line_text: "read_line (text_of bs) = map_option (\<lambda>(n, e). (text_of (take n bs), text_of (drop (n + e) bs))) (crlf_end bs)"
proof (induction bs)
  case (Cons b bs)
  have "take 1 (text_of bs) = [CHR 0x0A] \<longleftrightarrow> take 1 bs = [LF]" by (cases bs) (auto simp: text_of_def)
  moreover have "text_of (a # as) = char_of (unat a) # text_of as" "text_of [] = []" "tl (text_of bs) = text_of (tl bs)" for a as by (simp_all add: text_of_def map_tl)
  ultimately show ?case using Cons by (auto simp: read_line_Cons option.map_comp comp_def case_prod_beta numeral_2_eq_2 drop_Suc split: option.splits)
qed (simp add: text_of_def)

text \<open>
  Lines of a buffer: on an evbuffer that may be read from, \<open>evbuffer_readln\<close> returns and takes the line that \<open>read_line\<close> takes from the
  text of the buffer, over whatever chains this text is spread; without a complete line it leaves the buffer as it is.
\<close>

theorem read_line_buffer:
  assumes "evb_ok buf" "\<not> freeze_start buf"
  shows "case read_line (text_of (contents buf)) of None \<Rightarrow> evbuffer_readln True buf EVBUFFER_EOL_CRLF = Some (None, buf)
    | Some (l, r) \<Rightarrow> \<exists>line b. evbuffer_readln True buf EVBUFFER_EOL_CRLF = Some (Some line, b) \<and> text_of line = l \<and> text_of (contents b) = r \<and> evb_ok b
        \<and> \<not> freeze_start b"
proof (cases "crlf_end (contents buf)")
  case None
  then show ?thesis using readln_spec [OF assms, of EVBUFFER_EOL_CRLF] read_line_text [of "contents buf"] by (simp add: line_end_def)
next
  case (Some ne)
  then show ?thesis using readln_spec [OF assms, of EVBUFFER_EOL_CRLF] read_line_text [of "contents buf"] assms(2)
    by (cases ne) (auto simp: line_end_def evb_becomes_def)
qed

theorem read_line_buffer_witness:
  "\<exists>line b. evbuffer_readln True two_chains EVBUFFER_EOL_CRLF = Some (Some line, b) \<and> text_of line = ''Hi'' \<and> text_of (contents b) = ''!''"
proof -
  have ok: "evb_ok two_chains" "\<not> freeze_start two_chains"
    by (simp_all add: two_chains_def evb_ok_def chain_ok_def buffer_len_def evbuffer_new_def)
  have "contents two_chains = [72, 105, 13, 10, 33]" by (simp add: two_chains_def contents_def cdata_def)
  then have "read_line (text_of (contents two_chains)) = Some (''Hi'', ''!'')" by (simp add: text_of_def read_line_Cons char_of_def bit_Suc bit_0)
  then show ?thesis using read_line_buffer [OF ok] by auto
qed

section \<open>Bodies in chunks\<close>

lemma read_line_append: "read_line s = Some (l, r) \<Longrightarrow> read_line (s @ t) = Some (l, r @ t)"
proof (induction s arbitrary: l)
  case (Cons c s)
  then show ?case by (cases s) (auto simp: read_line_Cons split: if_splits)
qed simp

text \<open>Whoever waits for more goes on where it stopped.\<close>

definition continue_read ::
  "(evhttp_request \<Rightarrow> string \<Rightarrow> message_read_status \<times> evhttp_request \<times> string) \<Rightarrow> message_read_status \<times> evhttp_request \<times> string \<Rightarrow> string
    \<Rightarrow> message_read_status \<times> evhttp_request \<times> string" where
  "continue_read reader result behind =
    (case result of (status, req, buf) \<Rightarrow> if status = MORE_DATA_EXPECTED then reader req (buf @ behind) else (status, req, buf @ behind))"

lemma chunked_append:
  "length (a @ b) \<le> EV_SSIZE_MAX \<Longrightarrow>
    evhttp_handle_chunked_read cancels con req (a @ b) =
      continue_read (evhttp_handle_chunked_read cancels con) (evhttp_handle_chunked_read cancels con req a) b"
proof (induction cancels con req a rule: evhttp_handle_chunked_read.induct)
  case (1 cancels con req a)
  show ?case
  proof (cases "a = []")
    case True
    then show ?thesis by (simp add: continue_read_def evhttp_handle_chunked_read.simps [of _ _ _ "[]"])
  next
    case False
    note unfold_a = evhttp_handle_chunked_read.simps [of cancels con req a]
      and unfold_ab = evhttp_handle_chunked_read.simps [of cancels con req "a @ b"]
    have small: "\<not> EV_SSIZE_MAX < length a" "\<not> EV_SSIZE_MAX < length (a @ b)" using 1(5) by auto
    show ?thesis
    proof (cases "ntoread req < 0")
      case True
      show ?thesis
      proof (cases "read_line a")
        case None
        then show ?thesis using True False small unfold_a by (simp add: continue_read_def)
      next
        case (Some lr)
        obtain l r where lr: "lr = (l, r)" by (cases lr)
        have ab: "read_line (a @ b) = Some (l, r @ b)" using read_line_append Some lr by simp
        have "length (r @ b) \<le> EV_SSIZE_MAX" using 1(5) read_line_less [of a l r] Some lr by simp
        note ih = 1(1) [OF False small(1) True Some lr [symmetric] refl refl prod.collapse _ this]
          1(2) [OF False small(1) True Some lr [symmetric] refl refl prod.collapse _ _ _ _ refl _ this]
        show ?thesis
          unfolding unfold_a unfold_ab using False small True Some lr ab ih
          by (simp add: Let_def case_prod_beta continue_read_def)
      qed
    next
      case nonneg: False
      show ?thesis
      proof (cases "int EV_SSIZE_MAX < ntoread req \<or> 0 < ntoread req \<and> length a < nat (ntoread req)")
        case True
        then show ?thesis unfolding unfold_a unfold_ab using False nonneg small unfold_ab by (auto simp: continue_read_def)
      next
        case has: False
        let ?n = "nat (ntoread req)"
        have n: "?n \<le> length a" "\<not> length a < ?n" "\<not> length (a @ b) < ?n" using has nonneg by (auto simp: not_less)
        have d: "take ?n (a @ b) = take ?n a" "drop ?n (a @ b) = drop ?n a @ b" "length (drop ?n a @ b) \<le> EV_SSIZE_MAX" using n 1(5) by auto
        have h: "\<not> int EV_SSIZE_MAX < ntoread req" "\<not> (0 < ntoread req \<and> length a < ?n)" "\<not> (0 < ntoread req \<and> length (a @ b) < ?n)"
          using has by auto
        note ih = 1(3) [OF False small(1) nonneg h(1,2) refl refl _ refl _ d(3)] 1(4) [OF False small(1) nonneg h(1,2) refl refl _ d(3)]
        show ?thesis
          unfolding unfold_a unfold_ab using False small nonneg h(1) n(2,3) ih
          by (simp add: Let_def continue_read_def d(1,2) del: take_append drop_append length_append)
      qed
    qed
  qed
qed

text \<open>Reading a body that arrives in pieces.\<close>

fun read_pieces ::
  "(evhttp_request \<Rightarrow> string \<Rightarrow> message_read_status \<times> evhttp_request \<times> string) \<Rightarrow> message_read_status \<times> evhttp_request \<times> string \<Rightarrow> string list
    \<Rightarrow> message_read_status \<times> evhttp_request \<times> string" where
  "read_pieces reader result [] = result"
| "read_pieces reader result (p # ps) = read_pieces reader (continue_read reader result p) ps"

lemma chunked_pieces:
  "length (a @ concat ps) \<le> EV_SSIZE_MAX \<Longrightarrow>
    read_pieces (evhttp_handle_chunked_read cancels con) (evhttp_handle_chunked_read cancels con req a) ps =
      evhttp_handle_chunked_read cancels con req (a @ concat ps)"
proof (induction ps arbitrary: a)
  case (Cons p ps)
  have "continue_read (evhttp_handle_chunked_read cancels con) (evhttp_handle_chunked_read cancels con req a) p =
    evhttp_handle_chunked_read cancels con req (a @ p)"
    using chunked_append [of a p cancels con req] Cons.prems by simp
  then show ?case using Cons.IH [of "a @ p"] Cons.prems by simp
qed simp

lemma read_line_crlf: "CHR 0x0A \<notin> set s \<Longrightarrow> read_line (s @ crlf @ rest) = Some (s, rest)"
proof (induction s)
  case (Cons c s)
  then show ?case by (cases s) (auto simp: read_line_Cons)
qed (simp add: read_line_Cons)

lemma digits_plain: "digit_value c < 16 \<Longrightarrow> c \<noteq> CHR 0x00 \<and> c \<noteq> CHR 0x0A \<and> c \<noteq> CHR 0x0D \<and> c \<noteq> CHR '' '' \<and> c \<noteq> CHR '':''"
  by (auto simp: digit_value_def)

lemma print_radix_plain: "c \<in> set (print_radix 16 n) \<Longrightarrow> c \<noteq> CHR 0x00 \<and> c \<noteq> CHR 0x0A \<and> c \<noteq> CHR 0x0D \<and> c \<noteq> CHR '' '' \<and> c \<noteq> CHR '':''"
  using print_radix_digits [of 16 c n] digits_plain by simp

lemma c_string_id: "CHR 0x00 \<notin> set s \<Longrightarrow> c_string s = s"
  by (auto simp: c_string_def takeWhile_eq_all_conv)

lemma strtoll_print:
  assumes "radix = 10 \<or> radix = 16" "n < 2 ^ 63"
  shows "strtoll_end radix (print_radix radix n) = (int n, [])"
proof -
  have r: "2 \<le> radix" "radix \<le> 16" using assms(1) by auto
  obtain d ds where p: "print_radix radix n = digit_char d # ds" "d < radix" using print_radix_Cons [OF r(1)] by blast
  have d: "\<not> is_space (digit_char d)" "digit_char d \<noteq> CHR ''-''" "digit_char d \<noteq> CHR ''+''" "digit_value (digit_char d) = d"
    using digit_char_plain [of d] digit_value_char [of d] p(2) r(2) by simp_all
  have dw: "dropWhile (\<lambda>c. digit_value c < radix) (print_radix radix n) = []"
    using span_print(2) [OF r, of "[]" n] by (simp add: stops_def)
  have strip: "strip_0x radix (print_radix radix n) = print_radix radix n"
  proof (cases "2 < length (print_radix radix n)")
    case True
    then have "digit_value (print_radix radix n ! 1) < radix" using print_radix_digits [OF r, of "print_radix radix n ! 1" n] by simp
    moreover have "\<not> digit_value (CHR ''x'') < 16" "\<not> digit_value (CHR ''X'') < 16" by (simp_all add: digit_value_def)
    ultimately show ?thesis using r(2) by (auto simp: strip_0x_def)
  qed (simp add: strip_0x_def)
  have "scan_number radix (print_radix radix n) = (False, n)"
    using d strip p(1) digits_value_print [OF r, of n] by (simp add: scan_number_def)
  then have "sint (strtoll (print_radix radix n) radix) = int n"
    using assms(2) by (simp add: strtoll_def signed_of_nat signed_take_bit_int_eq_self)
  then show ?thesis using d strip dw p by (simp add: strtoll_end_def)
qed

lemma chunked_blank:
  assumes "ntoread r < 0" "length (crlf @ rest) \<le> EV_SSIZE_MAX"
  shows "evhttp_handle_chunked_read cancels con r (crlf @ rest) = evhttp_handle_chunked_read cancels con r rest"
  using assms read_line_crlf [of "[]" rest]
  by (subst evhttp_handle_chunked_read.simps) (simp add: Let_def c_string_def case_prod_beta)

lemma chunked_size:
  assumes "ntoread r < 0" "length (print_radix 16 n @ crlf @ rest) \<le> EV_SSIZE_MAX" "n < 2 ^ 63"
    and "body_size r + n \<le> EV_SIZE_MAX" "body_size r + n \<le> max_body_size con"
  shows "evhttp_handle_chunked_read cancels con r (print_radix 16 n @ crlf @ rest) =
    (let r' = r\<lparr>body_size := body_size r + n, ntoread := int n\<rparr> in if n = 0 then (ALL_DATA_READ, r', rest) else evhttp_handle_chunked_read cancels con r' rest)"
proof -
  have ne: "print_radix 16 n \<noteq> []" using print_radix_Cons [of 16 n] by auto
  have "read_line (print_radix 16 n @ crlf @ rest) = Some (print_radix 16 n, rest)" "c_string (print_radix 16 n) = print_radix 16 n"
    using read_line_crlf c_string_id print_radix_plain by blast+
  moreover have "\<not> EV_SIZE_MAX - body_size r < n" using assms(4) by simp
  ultimately show ?thesis using assms ne strtoll_print [of 16 n]
    by (subst evhttp_handle_chunked_read.simps) (simp add: Let_def)
qed

text \<open>What the reader does with a complete chunk.\<close>

definition take_chunk :: "(evhttp_request \<Rightarrow> bool) \<Rightarrow> evhttp_request \<Rightarrow> string \<Rightarrow> evhttp_request" where
  "take_chunk cancels r c =
    (let r1 = r\<lparr>input_buffer := input_buffer r @ c, ntoread := - 1\<rparr> in if has_chunk_cb r then run_chunk_cb cancels r1 else r1)"

lemma chunked_data:
  assumes "ntoread r = int (length c)" "c \<noteq> []" "length (c @ rest) \<le> EV_SSIZE_MAX"
    and "has_chunk_cb r \<Longrightarrow> req_flags (take_chunk cancels r c) AND EVHTTP_REQ_NEEDS_FREE = 0"
  shows "evhttp_handle_chunked_read cancels con r (c @ rest) = evhttp_handle_chunked_read cancels con (take_chunk cancels r c) rest"
  using assms by (subst evhttp_handle_chunked_read.simps) (auto simp: take_chunk_def Let_def)

lemma cb_keeps_flags:
  assumes "req_flags r AND (EVHTTP_REQ_DEFER_FREE OR EVHTTP_REQ_NEEDS_FREE) = 0" "has_chunk_cb r" "input_buffer r = []"
  shows "take_chunk (\<lambda>_. False) r c = r\<lparr>ntoread := - 1, delivered := delivered r @ [c]\<rparr>" "req_flags r AND EVHTTP_REQ_NEEDS_FREE = 0"
proof -
  have b: "\<not> (bit (req_flags r) n \<and> (bit EVHTTP_REQ_DEFER_FREE n \<or> bit EVHTTP_REQ_NEEDS_FREE n))" for n
    using arg_cong [OF assms(1), of "\<lambda>w. bit w n"] by (simp add: bit_simps)
  have "(req_flags r OR EVHTTP_REQ_DEFER_FREE) AND NOT EVHTTP_REQ_DEFER_FREE = req_flags r"
    by (rule bit_word_eqI) (use b in \<open>auto simp: bit_simps\<close>)
  then show "take_chunk (\<lambda>_. False) r c = r\<lparr>ntoread := - 1, delivered := delivered r @ [c]\<rparr>"
    using assms(2,3) by (simp add: take_chunk_def run_chunk_cb_def Let_def)
  show "req_flags r AND EVHTTP_REQ_NEEDS_FREE = 0" by (rule bit_word_eqI) (use b in \<open>auto simp: bit_simps\<close>)
qed

text \<open>A reader that waits for a chunk, and what it has after all of them.\<close>

definition reader_ready :: "evhttp_request \<Rightarrow> bool" where
  "reader_ready r \<longleftrightarrow> ntoread r < 0 \<and> req_flags r AND (EVHTTP_REQ_DEFER_FREE OR EVHTTP_REQ_NEEDS_FREE) = 0 \<and> (has_chunk_cb r \<longrightarrow> input_buffer r = [])"

definition reader_end :: "evhttp_request \<Rightarrow> string list \<Rightarrow> evhttp_request" where
  "reader_end r cs =
    (let r' = r\<lparr>body_size := body_size r + length (concat cs), ntoread := 0\<rparr>
     in if has_chunk_cb r then r'\<lparr>delivered := delivered r @ cs\<rparr> else r'\<lparr>input_buffer := input_buffer r @ concat cs\<rparr>)"

definition chunks_text :: "evhttp_request \<Rightarrow> string list \<Rightarrow> string" where
  "chunks_text req cs = concat (map (evhttp_send_reply_chunk req) cs) @ snd (evhttp_send_reply_end req)"

lemma chunks_read:
  assumes "chunked req" "evhttp_response_needs_body req"
  shows "reader_ready r \<Longrightarrow> \<forall>c \<in> set cs. c \<noteq> [] \<and> length c < 2 ^ 32 \<Longrightarrow> length (chunks_text req cs @ rest) \<le> EV_SSIZE_MAX \<Longrightarrow>
    body_size r + length (concat cs) \<le> min EV_SIZE_MAX (max_body_size con) \<Longrightarrow>
    evhttp_handle_chunked_read (\<lambda>_. False) con r (chunks_text req cs @ rest) = (ALL_DATA_READ, reader_end r cs, crlf @ rest)"
proof (induction cs arbitrary: r)
  case Nil
  have "print_radix 16 0 = ''0''" by (simp add: print_radix.simps digit_char_def char_of_def bit_Suc bit_0)
  then show ?case using Nil chunked_size [of r 0 "crlf @ rest" con "\<lambda>_. False"] assms
    by (simp add: chunks_text_def evhttp_send_reply_end_def reader_ready_def reader_end_def Let_def)
next
  case (Cons c cs)
  let ?h = "evhttp_handle_chunked_read (\<lambda>_. False) con" and ?n = "length c"
  let ?r1 = "r\<lparr>body_size := body_size r + ?n, ntoread := int ?n\<rparr>"
  have n: "0 < ?n" "?n < 2 ^ 32" using Cons.prems by auto
  have t: "chunks_text req (c # cs) @ rest = print_radix 16 ?n @ crlf @ c @ crlf @ chunks_text req cs @ rest"
    using n assms by (simp add: chunks_text_def evhttp_send_reply_chunk_def)
  have len: "length (print_radix 16 ?n @ crlf @ c @ crlf @ chunks_text req cs @ rest) \<le> EV_SSIZE_MAX" using Cons.prems(3) t by simp
  have "?h r (chunks_text req (c # cs) @ rest) = ?h ?r1 (c @ crlf @ chunks_text req cs @ rest)"
    unfolding t using chunked_size [of r ?n "c @ crlf @ chunks_text req cs @ rest" con "\<lambda>_. False"] len n Cons.prems by (simp add: reader_ready_def Let_def)
  define r2 where "r2 = take_chunk (\<lambda>_. False) ?r1 c"
  have r2: "r2 = (if has_chunk_cb r then ?r1\<lparr>ntoread := - 1, delivered := delivered r @ [c]\<rparr>
      else ?r1\<lparr>input_buffer := input_buffer r @ c, ntoread := - 1\<rparr>)"
    using Cons.prems(1) cb_keeps_flags(1) [of ?r1 c] by (simp add: r2_def reader_ready_def take_chunk_def)
  have fl: "has_chunk_cb ?r1 \<Longrightarrow> req_flags (take_chunk (\<lambda>_. False) ?r1 c) AND EVHTTP_REQ_NEEDS_FREE = 0"
    using Cons.prems(1) cb_keeps_flags(1) [of ?r1 c] cb_keeps_flags(2) [of ?r1] by (simp add: reader_ready_def)
  have "?h ?r1 (c @ crlf @ chunks_text req cs @ rest) = ?h r2 (crlf @ chunks_text req cs @ rest)"
    unfolding r2_def using chunked_data [of ?r1 c "crlf @ chunks_text req cs @ rest" "\<lambda>_. False" con] fl n(1) len by simp
  also have "\<dots> = ?h r2 (chunks_text req cs @ rest)"
    using chunked_blank [of r2 "chunks_text req cs @ rest" "\<lambda>_. False" con] len by (simp add: r2)
  also have "\<dots> = (ALL_DATA_READ, reader_end r2 cs, crlf @ rest)"
    by (rule Cons.IH) (use Cons.prems len in \<open>auto simp: r2 reader_ready_def\<close>)
  also have "reader_end r2 cs = reader_end r (c # cs)" by (simp add: r2 reader_end_def Let_def)
  finally show ?case using \<open>?h r (chunks_text req (c # cs) @ rest) = _\<close> by simp
qed

text \<open>
  C16. Chunked bodies round trip: the chunks a server sends with \<open>evhttp_send_reply_chunk\<close> and ends with \<open>evhttp_send_reply_end\<close> are
  read back by \<open>evhttp_handle_chunked_read\<close>, in whatever pieces they arrive: the body is their concatenation, or they are
  handed to the callback one by one, its size is counted, and behind the last chunk the empty trailer is read and nothing else is
  consumed. Needed are chunks of less than \<open>2^32\<close> bytes and a body within the limit.
\<close>

theorem chunked_roundtrip:
  assumes "chunked req" "evhttp_response_needs_body req" "reader_ready r"
    and "\<forall>c \<in> set cs. c \<noteq> [] \<and> length c < 2 ^ 32" "length (concat pieces) \<le> EV_SSIZE_MAX"
    and "body_size r + length (concat cs) \<le> min EV_SIZE_MAX (max_body_size con)" "headers_size r \<le> max_headers_size con"
    and "concat pieces = concat (map (evhttp_send_reply_chunk req) cs) @ snd (evhttp_send_reply_end req) @ rest"
  shows "read_pieces (evhttp_handle_chunked_read (\<lambda>_. False) con) (MORE_DATA_EXPECTED, r, []) pieces = (ALL_DATA_READ, reader_end r cs, crlf @ rest)
    \<and> evhttp_parse_headers (Some con) (reader_end r cs) (crlf @ rest) = (ALL_DATA_READ, reader_end r cs, rest)"
proof -
  have t: "concat pieces = chunks_text req cs @ rest" using assms(8) by (simp add: chunks_text_def)
  have "evhttp_handle_chunked_read (\<lambda>_. False) con r [] = (MORE_DATA_EXPECTED, r, [])" by (simp add: evhttp_handle_chunked_read.simps)
  moreover have "evhttp_handle_chunked_read (\<lambda>_. False) con r (chunks_text req cs @ rest) = (ALL_DATA_READ, reader_end r cs, crlf @ rest)"
    using chunks_read assms(1-6) t by simp
  ultimately have "read_pieces (evhttp_handle_chunked_read (\<lambda>_. False) con) (MORE_DATA_EXPECTED, r, []) pieces =
      (ALL_DATA_READ, reader_end r cs, crlf @ rest)"
    using chunked_pieces [of "[]" pieces "\<lambda>_. False" con r] assms(5) t by simp
  moreover have "parse_headers_loop (Some con) (reader_end r cs) (crlf @ rest) = (ALL_DATA_READ, reader_end r cs, rest)"
    using read_line_crlf [of "[]" rest] assms(7)
    by (subst parse_headers_loop.simps) (auto simp: over_headers_def c_string_def Let_def reader_end_def)
  ultimately show ?thesis by (simp add: evhttp_parse_headers_def)
qed

definition some_limits :: evhttp_limits where
  "some_limits = \<lparr>max_headers_size = 1000, max_body_size = 1000, http_server = evhttp_new_object 0\<rparr>"

theorem chunked_roundtrip_witness:
  "\<exists>r. read_pieces (evhttp_handle_chunked_read (\<lambda>_. False) some_limits) (MORE_DATA_EXPECTED, evhttp_request_new\<lparr>ntoread := - 1\<rparr>, [])
      [''2'', [CHR 0x0D], [CHR 0x0A] @ ''ab'' @ crlf @ ''0'' @ crlf @ [CHR 0x0D], [CHR 0x0A]] = (ALL_DATA_READ, r, crlf) \<and> input_buffer r = ''ab''"
proof -
  let ?req = "evhttp_request_new\<lparr>chunked := True, response_code := 200\<rparr>" and ?r = "evhttp_request_new\<lparr>ntoread := - 1\<rparr>"
  let ?ps = "[''2'', [CHR 0x0D], [CHR 0x0A] @ ''ab'' @ crlf @ ''0'' @ crlf @ [CHR 0x0D], [CHR 0x0A]]"
  have n: "evhttp_response_needs_body ?req" "reader_ready ?r"
    by (simp_all add: evhttp_response_needs_body_def reader_ready_def evhttp_request_new_def HTTP_NOCONTENT_def HTTP_NOTMODIFIED_def)
  have "print_radix 16 (Suc (Suc 0)) = ''2''" by (simp add: print_radix.simps digit_char_def char_of_def bit_Suc bit_0)
  then have t: "concat ?ps = concat (map (evhttp_send_reply_chunk ?req) [''ab'']) @ snd (evhttp_send_reply_end ?req) @ []"
    using n by (simp add: evhttp_send_reply_chunk_def evhttp_send_reply_end_def)
  have b: "body_size ?r = 0" "headers_size ?r = 0" "chunked ?req" by (simp_all add: evhttp_request_new_def)
  have l: "\<forall>c \<in> set [''ab'']. c \<noteq> [] \<and> length c < 2 ^ 32" "length (concat ?ps) \<le> EV_SSIZE_MAX"
    "body_size ?r + length (concat [''ab'']) \<le> min EV_SIZE_MAX (max_body_size some_limits)" "headers_size ?r \<le> max_headers_size some_limits"
    using b by (simp_all add: EV_SSIZE_MAX_def EV_SIZE_MAX_def some_limits_def)
  have "read_pieces (evhttp_handle_chunked_read (\<lambda>_. False) some_limits) (MORE_DATA_EXPECTED, ?r, []) ?ps = (ALL_DATA_READ, reader_end ?r [''ab''], crlf @ [])"
    using chunked_roundtrip [OF b(3) n l t] by blast
  moreover have "input_buffer (reader_end ?r [''ab'']) = ''ab''" by (simp add: reader_end_def evhttp_request_new_def)
  ultimately show ?thesis by (metis append_Nil2)
qed

section \<open>Messages round trip\<close>

text \<open>Text that can stand in a line, and headers that are read as they were written.\<close>

definition line_text :: "string \<Rightarrow> bool" where
  "line_text s \<longleftrightarrow> CHR 0x00 \<notin> set s \<and> CHR 0x0D \<notin> set s \<and> CHR 0x0A \<notin> set s"

definition header_ok :: "string \<times> string \<Rightarrow> bool" where
  "header_ok h \<longleftrightarrow> line_text (fst h) \<and> line_text (snd h) \<and> fst h \<noteq> [] \<and> CHR '':'' \<notin> set (fst h) \<and> hd (fst h) \<noteq> CHR '' '' \<and> hd (fst h) \<noteq> CHR 0x09
     \<and> (snd h \<noteq> [] \<longrightarrow> hd (snd h) \<noteq> CHR '' '')"

definition header_size :: "evkeyvalq \<Rightarrow> nat" where
  "header_size hs = sum_list (map (\<lambda>(k, v). length k + 2 + length v) hs)"

lemma line_text_simps [simp]:
  "line_text []" "line_text (c # s) \<longleftrightarrow> c \<noteq> CHR 0x00 \<and> c \<noteq> CHR 0x0D \<and> c \<noteq> CHR 0x0A \<and> line_text s" "line_text (s @ t) \<longleftrightarrow> line_text s \<and> line_text t"
  by (auto simp: line_text_def)

lemma line_text_print [simp]: "line_text (print_radix 16 n)" "line_text (print_d n)" "line_text (print_int i)"
proof -
  have d: "c \<in> set (print_d n) \<Longrightarrow> digit_value c < 16" for n c using print_radix_digits [of 10 c n] by simp
  show "line_text (print_radix 16 n)" using print_radix_plain by (auto simp: line_text_def)
  have p: "line_text (print_d n)" for n using d digits_plain by (auto simp: line_text_def)
  then show "line_text (print_d n)" .
  show "line_text (print_int i)" using p by (simp add: print_int_def)
qed

lemma read_line_text_crlf: "line_text s \<Longrightarrow> read_line (s @ crlf @ rest) = Some (s, rest)" "line_text s \<Longrightarrow> c_string s = s"
  using read_line_crlf c_string_id by (auto simp: line_text_def)

lemma valid_line_text: "line_text v \<Longrightarrow> evhttp_header_is_valid_value v"
proof -
  assume "line_text v"
  then have "dropWhile (\<lambda>c. \<not> is_crlf c) v = []" by (auto simp: line_text_def)
  then show ?thesis by (subst evhttp_header_is_valid_value.simps) simp
qed

lemma strdup_line_text: "line_text v \<Longrightarrow> mm_strdup v = v"
  by (auto simp: mm_strdup_def line_text_def takeWhile_eq_all_conv)

lemma add_header_ok:
  assumes "line_text k" "line_text v"
  shows "evhttp_add_header hs k v = (0, hs @ [(k, v)])"
  using assms valid_line_text [OF assms(2)] strdup_line_text
  by (simp add: evhttp_add_header_def evhttp_add_header_internal_def line_text_def)

lemma strsep_split: "d \<notin> set s \<Longrightarrow> strsep d (s @ d # t) = (s, Some t)" "d \<notin> set s \<Longrightarrow> strsep d s = (s, None)"
  by (auto simp: strsep_def takeWhile_append takeWhile_eq_all_conv dropWhile_append Let_def)

lemma headers_parsed:
  "list_all header_ok hs \<Longrightarrow> headers_size r + header_size hs \<le> max_headers_size con \<Longrightarrow>
    parse_headers_loop (Some con) r (header_text hs @ crlf @ rest) =
      (ALL_DATA_READ, r\<lparr>input_headers := input_headers r @ hs, headers_size := headers_size r + header_size hs\<rparr>, rest)"
proof (induction hs arbitrary: r)
  case Nil
  then show ?case using read_line_crlf [of "[]" rest]
    by (subst parse_headers_loop.simps) (auto simp: header_text_def header_size_def over_headers_def c_string_def Let_def)
next
  case (Cons h hs)
  obtain k v where h: "h = (k, v)" by (cases h)
  have ok: "line_text k" "line_text v" "k \<noteq> []" "CHR '':'' \<notin> set k" "hd k \<noteq> CHR '' ''" "hd k \<noteq> CHR 0x09" "v \<noteq> [] \<longrightarrow> hd v \<noteq> CHR '' ''"
    using Cons.prems(1) by (auto simp: h header_ok_def)
  let ?line = "k @ '': '' @ v" and ?rest = "header_text hs @ crlf @ rest"
  have t: "header_text (h # hs) @ crlf @ rest = ?line @ crlf @ ?rest" by (simp add: header_text_def h)
  have "line_text ?line" using ok by simp
  then have l: "read_line (?line @ crlf @ ?rest) = Some (?line, ?rest)" "c_string ?line = ?line" using read_line_text_crlf by blast+
  have s: "strsep CHR '':'' ?line = (k, Some ('' '' @ v))" using strsep_split(1) [OF ok(4), of "'' '' @ v"] by simp
  have d: "dropWhile (\<lambda>c. c = CHR '' '') ('' '' @ v) = v" using ok(7) by (cases v) auto
  let ?r = "r\<lparr>headers_size := headers_size r + length ?line, input_headers := input_headers r @ [(k, v)]\<rparr>"
  have size: "headers_size r + length ?line + header_size hs \<le> max_headers_size con" using Cons.prems(2) by (simp add: header_size_def h)
  have "parse_headers_loop (Some con) r (header_text (h # hs) @ crlf @ rest) = parse_headers_loop (Some con) ?r ?rest"
    unfolding t using l s d ok(3,5,6) size add_header_ok [OF ok(1,2)]
    by (subst parse_headers_loop.simps) (simp add: Let_def over_headers_def)
  also have "\<dots> = (ALL_DATA_READ, ?r\<lparr>input_headers := input_headers ?r @ hs, headers_size := headers_size ?r + header_size hs\<rparr>, rest)"
    by (rule Cons.IH) (use Cons.prems(1) size in auto)
  finally show ?case by (simp add: header_size_def h)
qed

lemma version_print:
  "0 \<le> a \<Longrightarrow> a < 2 ^ 31 \<Longrightarrow> 0 \<le> b \<Longrightarrow> b < 2 ^ 31 \<Longrightarrow> version_numbers (''HTTP/'' @ print_int a @ ''.'' @ print_int b) = Accepted (a, b)"
  using scan_d_print [of "''.'' @ print_int b" "nat a"] scan_d_print [of "[]" "nat b"]
  by (simp add: version_numbers_def print_int_def)

lemma signed_char_small: "0 \<le> a \<Longrightarrow> a < 128 \<Longrightarrow> signed_char a = a"
  by (simp add: signed_char_def signed_of_int signed_take_bit_int_eq_self)

lemma parse_version_print:
  "0 \<le> a \<Longrightarrow> a \<le> 1 \<Longrightarrow> 0 \<le> b \<Longrightarrow> b < 128 \<Longrightarrow>
    evhttp_parse_http_version (''HTTP/'' @ print_int a @ ''.'' @ print_int b) req = Some (0, req\<lparr>major := a, minor := b\<rparr>)"
  using version_print [of a b] by (simp add: evhttp_parse_http_version_def signed_char_small)

lemma no_space_print: "CHR '' '' \<notin> set (print_int i)"
proof -
  have "c \<in> set (print_d n) \<Longrightarrow> c \<noteq> CHR '' ''" for n c using print_radix_digits [of 10 c n] digits_plain [of c] by simp
  then show ?thesis by (auto simp: print_int_def)
qed

lemma method_text:
  "evhttp_method ty = Some m \<Longrightarrow> line_text m \<and> CHR '' '' \<notin> set m \<and> (ty \<noteq> EVHTTP_REQ_CONNECT \<longrightarrow> method_type m = ty)"
proof -
  have "case evhttp_method ty of None \<Rightarrow> True
    | Some m \<Rightarrow> line_text m \<and> CHR '' '' \<notin> set m \<and> (ty \<noteq> EVHTTP_REQ_CONNECT \<longrightarrow> method_type m = ty)"
    by (cases ty) (simp_all add: method_type_def)
  then show "evhttp_method ty = Some m \<Longrightarrow> ?thesis" by simp
qed

definition request_parsed :: "evhttp \<Rightarrow> evhttp_request \<Rightarrow> evhttp_request \<Rightarrow> string \<Rightarrow> evhttp_uri \<Rightarrow> evhttp_request" where
  "request_parsed http r req uri u = r\<lparr>req_type := req_type req, major := major req, minor := minor req, req_uri := Some uri, uri_elems := Some u,
     req_flags := if proxy_uri http u then req_flags r OR EVHTTP_PROXY_REQUEST else req_flags r\<rparr>"

lemma request_line_parsed:
  assumes "evhttp_method (req_type req) = Some m" "req_type req \<noteq> EVHTTP_REQ_CONNECT" "CHR '' '' \<notin> set uri"
    and "evhttp_uri_parse_with_flags uri EVHTTP_URI_NONCONFORMANT = Accepted u"
    and "0 \<le> major req" "major req \<le> 1" "0 \<le> minor req" "minor req < 128"
  shows "evhttp_parse_request_line http r (m @ '' '' @ uri @ '' HTTP/'' @ print_int (major req) @ ''.'' @ print_int (minor req)) =
    Some (0, request_parsed http r req uri u)"
proof -
  let ?v = "''HTTP/'' @ print_int (major req) @ ''.'' @ print_int (minor req)"
  have m: "CHR '' '' \<notin> set m" "method_type m = req_type req" using method_text [OF assms(1)] assms(2) by auto
  have "CHR '' '' \<notin> set ?v" using no_space_print by simp
  then have s: "strsep CHR '' '' (m @ '' '' @ uri @ '' '' @ ?v) = (m, Some (uri @ '' '' @ ?v))" "strsep CHR '' '' (uri @ '' '' @ ?v) = (uri, Some ?v)"
    "strsep CHR '' '' ?v = (?v, None)"
    using strsep_split(1) [OF m(1), of "uri @ '' '' @ ?v"] strsep_split(1) [OF assms(3), of ?v] strsep_split(2) [of "CHR '' ''" ?v] by simp_all
  have v: "evhttp_parse_http_version ?v q = Some (0, q\<lparr>major := major req, minor := minor req\<rparr>)" for q
    using parse_version_print assms(5-8) by blast
  have "evhttp_parse_request_line http r (m @ '' '' @ uri @ '' '' @ ?v) = Some (0, request_parsed http r req uri u)"
    unfolding evhttp_parse_request_line_def s by (simp only: prod.case option.case s v Let_def) (simp add: assms(4) m(2) request_parsed_def)
  then show ?thesis by simp
qed

lemma response_line_parsed:
  assumes "0 < code" "code < 2 ^ 31" "0 \<le> a" "a \<le> 1" "0 \<le> b" "b < 128"
  shows "evhttp_parse_response_line r (''HTTP/'' @ print_int a @ ''.'' @ print_int b @ '' '' @ print_int code @ '' '' @ reason) =
    Some (0, r\<lparr>major := a, minor := b, response_code := code, response_code_line := Some reason\<rparr>)"
proof -
  let ?v = "''HTTP/'' @ print_int a @ ''.'' @ print_int b"
  have "CHR '' '' \<notin> set ?v" using no_space_print by simp
  then have s: "strsep CHR '' '' (?v @ '' '' @ print_int code @ '' '' @ reason) = (?v, Some (print_int code @ '' '' @ reason))"
    "strsep CHR '' '' (print_int code @ '' '' @ reason) = (print_int code, Some reason)"
    using strsep_split(1) [of "CHR '' ''" ?v "print_int code @ '' '' @ reason"] strsep_split(1) [OF no_space_print, of code reason] by simp_all
  have "atoi (print_int code) = Accepted code"
    using scan_number_print [of "[]" "nat code"] assms(1,2) by (simp add: atoi_def print_int_def signed_value_def fits_int_def)
  then have "evhttp_parse_response_line r (?v @ '' '' @ print_int code @ '' '' @ reason) =
    Some (0, r\<lparr>major := a, minor := b, response_code := code, response_code_line := Some reason\<rparr>)"
    unfolding evhttp_parse_response_line_def s using parse_version_print [of a b] assms
    by (simp only: prod.case option.case s Let_def) (simp add: evhttp_valid_response_code_def)
  then show ?thesis by simp
qed

lemma remove_header_subset: "set (snd (evhttp_remove_header hs k)) \<subseteq> set hs"
  by (induction hs) (auto simp: case_prod_beta)

lemma remove_header_ok: "list_all header_ok hs \<Longrightarrow> list_all header_ok (snd (evhttp_remove_header hs k))"
  using remove_header_subset [of hs k] by (auto simp: list_all_iff)

lemma print_d_ne: "print_d n \<noteq> []" "hd (print_d n) \<noteq> CHR '' ''"
proof -
  obtain d ds where p: "print_d n = digit_char d # ds" "d < 10" using print_radix_Cons [of 10 n] by auto
  then show "print_d n \<noteq> []" "hd (print_d n) \<noteq> CHR '' ''" using print_radix_digits [of 10 "digit_char d" n] digits_plain [of "digit_char d"] by auto
qed

lemma content_length_ok: "header_ok (''Content-Length'', print_d n)"
  using print_d_ne by (simp add: header_ok_def)

lemma added_header_ok: "list_all header_ok hs \<Longrightarrow> header_ok (k, v) \<Longrightarrow> list_all header_ok (snd (evhttp_add_header hs k v))"
  using add_header_ok [of k v hs] by (simp add: header_ok_def)

lemma length_header_text: "length (header_text hs) = header_size hs + 2 * length hs"
  by (induction hs) (auto simp: header_text_def header_size_def)

text \<open>A first line that is understood, followed by headers: all of it is read, and nothing else.\<close>

lemma message_parsed:
  assumes "line_text line" "list_all header_ok hs" "length (line @ crlf @ header_text hs @ crlf) \<le> max_headers_size con"
    and "(case kind r of EVHTTP_REQUEST \<Rightarrow> evhttp_parse_request_line (http_server con) (r\<lparr>headers_size := length line\<rparr>) line
       | EVHTTP_RESPONSE \<Rightarrow> evhttp_parse_response_line (r\<lparr>headers_size := length line\<rparr>) line) = Some (0, r1)"
    and "headers_size r1 = length line" "input_headers r1 = []"
  shows "evhttp_parse_firstline (Some con) r (line @ crlf @ header_text hs @ crlf @ rest) = Some (ALL_DATA_READ, r1, header_text hs @ crlf @ rest)"
    and "evhttp_parse_headers (Some con) r1 (header_text hs @ crlf @ rest) =
      (ALL_DATA_READ, r1\<lparr>input_headers := hs, headers_size := length line + header_size hs\<rparr>, rest)"
proof -
  have "read_line (line @ crlf @ header_text hs @ crlf @ rest) = Some (line, header_text hs @ crlf @ rest)" "c_string line = line"
    using read_line_text_crlf assms(1) by blast+
  then show "evhttp_parse_firstline (Some con) r (line @ crlf @ header_text hs @ crlf @ rest) = Some (ALL_DATA_READ, r1, header_text hs @ crlf @ rest)"
    using assms(3,4) by (cases "kind r") (auto simp: evhttp_parse_firstline_def over_headers_def Let_def)
  show "evhttp_parse_headers (Some con) r1 (header_text hs @ crlf @ rest) =
      (ALL_DATA_READ, r1\<lparr>input_headers := hs, headers_size := length line + header_size hs\<rparr>, rest)"
    using headers_parsed [OF assms(2), of r1 con rest] assms(3,5,6) by (simp add: evhttp_parse_headers_def length_header_text)
qed

lemma find_added:
  assumes "evhttp_find_header hs k = None" "CHR 0x00 \<notin> set k"
  shows "evhttp_find_header (hs @ [(k, v)]) k = Some v"
  using assms strcasecmp_eq_0 [of k k] by (auto simp: evhttp_find_header_def find_append split: option.splits)

lemma find_removed: "evhttp_find_header hs k = None \<Longrightarrow> evhttp_find_header (snd (evhttp_remove_header hs k')) k = None"
  using remove_header_subset [of hs k'] by (auto simp: evhttp_find_header_def find_None_iff)

text \<open>A length that was written is read.\<close>

lemma body_length_read:
  assumes "evhttp_find_header (input_headers r) ''Content-Length'' = Some (print_d n)" "n < 2 ^ 63"
  shows "evhttp_get_body_length r = (0, r\<lparr>ntoread := int n\<rparr>)"
  using assms strtoll_print [of 10 n] print_d_ne(1) [of n] by (simp add: evhttp_get_body_length_def Let_def)


definition get_root :: evhttp_request where
  "get_root = evhttp_request_new\<lparr>kind := EVHTTP_REQUEST, req_type := EVHTTP_REQ_GET, req_uri := Some ''/'', major := 1, minor := 1,
     output_headers := [(''Host'', ''a'')]\<rparr>"

lemma get_root_text:
  "evhttp_make_header None get_root = Some (get_root, ''GET / HTTP/1.1'' @ crlf @ ''Host: a'' @ crlf @ crlf)"
  by code_simp


section \<open>Replies round trip\<close>

lemma literal_headers_ok:
  "header_ok (''Connection'', ''keep-alive'')" "header_ok (''Connection'', ''close'')" "header_ok (''Content-Type'', ''text/html; charset=ISO-8859-1'')"
  "header_ok (''Content-Type'', ''text/html'')" "header_ok (''Transfer-Encoding'', ''chunked'')"
  by (simp_all add: header_ok_def)

lemma date_ok: "list_all header_ok hs \<Longrightarrow> (\<And>d. date = Some d \<Longrightarrow> header_ok (''Date'', d)) \<Longrightarrow> list_all header_ok (evhttp_maybe_add_date_header date hs)"
  by (auto simp: evhttp_maybe_add_date_header_def added_header_ok split: option.splits)

lemma add_body_headers_ok:
  "list_all header_ok (output_headers req) \<Longrightarrow> (\<And>d. date = Some d \<Longrightarrow> header_ok (''Date'', d)) \<Longrightarrow> list_all header_ok (add_body_headers date req)"
  by (simp add: add_body_headers_def Let_def evhttp_maybe_add_content_length_header_def date_ok added_header_ok content_length_ok literal_headers_ok)

text \<open>Adding or removing a header with a key of another length does not change what is found.\<close>

lemma other_key: "line_text k \<Longrightarrow> line_text k' \<Longrightarrow> length k \<noteq> length k' \<Longrightarrow> evutil_ascii_strcasecmp k k' \<noteq> 0"
  using strcasecmp_eq_0 [of k k'] by (auto simp: line_text_def dest: map_eq_imp_length_eq)

lemma find_add_other:
  assumes "line_text k" "line_text k'" "line_text v" "length k \<noteq> length k'"
  shows "evhttp_find_header (snd (evhttp_add_header hs k v)) k' = evhttp_find_header hs k'"
  using add_header_ok [OF assms(1,3), of hs] other_key [OF assms(1,2,4)]
  by (auto simp: evhttp_find_header_def find_append split: option.splits)

lemma find_remove_other:
  assumes "line_text k" "line_text k'" "length k \<noteq> length k'" "list_all header_ok hs"
  shows "evhttp_find_header (snd (evhttp_remove_header hs k)) k' = evhttp_find_header hs k'"
  using assms(4)
proof (induction hs)
  case (Cons h hs)
  have "line_text (fst h)" using Cons.prems by (simp add: header_ok_def)
  then have "evutil_ascii_strcasecmp (fst h) k = 0 \<Longrightarrow> evutil_ascii_strcasecmp (fst h) k' \<noteq> 0"
    using assms strcasecmp_eq_0 [of "fst h"] by (metis line_text_def map_eq_imp_length_eq)
  then show ?case using Cons by (cases h) (auto simp: evhttp_find_header_def case_prod_beta)
qed simp

lemma find_date_other:
  assumes "\<And>d. date = Some d \<Longrightarrow> header_ok (''Date'', d)" "line_text k" "length k \<noteq> 4"
  shows "evhttp_find_header (evhttp_maybe_add_date_header date hs) k = evhttp_find_header hs k"
  using assms find_add_other [of "''Date''" k] by (auto simp: evhttp_maybe_add_date_header_def header_ok_def split: option.splits)

lemma body_length_added:
  assumes "major req = 1" "1 \<le> minor req" "evhttp_response_needs_body req" "\<And>d. date = Some d \<Longrightarrow> header_ok (''Date'', d)"
    and "evhttp_find_header (output_headers req) ''Content-Length'' = None" "evhttp_find_header (output_headers req) ''Transfer-Encoding'' = None"
  shows "evhttp_find_header (add_body_headers date req) ''Content-Length'' = Some (print_d (length (output_buffer req)))"
proof -
  let ?hs1 = "evhttp_maybe_add_date_header date (output_headers req)" and ?v = "print_d (length (output_buffer req))"
  have n: "evhttp_find_header ?hs1 ''Content-Length'' = None" "evhttp_find_header ?hs1 ''Transfer-Encoding'' = None"
    using find_date_other [OF assms(4)] assms(5,6) by simp_all
  then have c: "evhttp_maybe_add_content_length_header ?hs1 (length (output_buffer req)) = ?hs1 @ [(''Content-Length'', ?v)]"
    using add_header_ok [of "''Content-Length''" ?v ?hs1] by (simp add: evhttp_maybe_add_content_length_header_def)
  have "evhttp_find_header (?hs1 @ [(''Content-Length'', ?v)]) ''Content-Length'' = Some ?v" using find_added n(1) by simp
  then show ?thesis using assms(1-3) c find_add_other [of "''Content-Type''" "''Content-Length''"]
    by (simp add: add_body_headers_def Let_def)
qed


lemma ok_reply_text:
  "map_option snd (evhttp_send_reply None (evhttp_request_new\<lparr>major := 1\<rparr>) 200 (Some ''OK'') ''hi'') =
    Some (''HTTP/1.0 200 OK'' @ crlf @ ''Content-Type: text/html; charset=ISO-8859-1'' @ crlf @ crlf @ ''hi'')"
proof -
  have p: "print_int 1 = ''1''" "print_int 0 = ''0''" "print_int 200 = ''200''"
    by (simp_all add: print_int_def print_radix.simps digit_char_def char_of_def bit_Suc bit_0)
  have h: "evhttp_find_header [] k = None" for k by (simp add: evhttp_find_header_def)
  have n: "evhttp_response_needs_body (evhttp_response_code (evhttp_request_new\<lparr>major := 1\<rparr>) 200 (Some ''OK'')\<lparr>userdone := True, output_buffer := ''hi''\<rparr>)"
    by (simp add: evhttp_response_needs_body_def evhttp_response_code_def evhttp_request_new_def HTTP_NOCONTENT_def HTTP_NOTMODIFIED_def)
  show ?thesis using n
    by (simp add: evhttp_send_reply_def evhttp_send_def evhttp_make_header_def evhttp_make_header_response_def add_body_headers_def Let_def
        evhttp_response_code_def evhttp_request_new_def h p evhttp_is_connection_keepalive_def evhttp_is_connection_close_def
        add_header_ok header_text_def)
qed


section \<open>What any peer can send\<close>

definition headers_clean :: "evkeyvalq \<Rightarrow> bool" where
  "headers_clean hs \<longleftrightarrow> (\<forall>(k, v) \<in> set hs. CHR 0x0D \<notin> set k \<and> CHR 0x0A \<notin> set k \<and> CHR 0x0A \<notin> set v)"

definition headers_chars :: "evkeyvalq \<Rightarrow> nat" where
  "headers_chars hs = sum_list (map (\<lambda>(k, v). length k + length v) hs)"

lemma read_line_parts:
  assumes "read_line s = Some (l, r)"
  shows "\<exists>e. s = l @ e @ r" "CHR 0x0A \<notin> set l"
proof -
  let ?l = "takeWhile (\<lambda>c. c \<noteq> CHR 0x0A) s" and ?r = "dropWhile (\<lambda>c. c \<noteq> CHR 0x0A) s"
  have s: "s = ?l @ ?r" "?r = hd ?r # r" "l = (if ?l \<noteq> [] \<and> last ?l = CHR 0x0D then butlast ?l else ?l)" "CHR 0x0A \<notin> set ?l"
    using assms by (auto simp: read_line_def Let_def split: if_splits dest: set_takeWhileD)
  have "\<exists>x. ?l = l @ x" using s(3) by (metis append_Nil2 append_butlast_last_id)
  then show "\<exists>e. s = l @ e @ r" using s(1,2) by (metis append.assoc append_Cons append_Nil)
  show "CHR 0x0A \<notin> set l" using s(3,4) by (auto split: if_splits dest: in_set_butlastD)
qed

lemma c_string_set: "set (c_string s) \<subseteq> set s" "length (c_string s) \<le> length s"
  by (auto simp: c_string_def length_takeWhile_le dest: set_takeWhileD)

lemma append_last_clean:
  assumes "evhttp_append_to_last_header hs line = (r, hs')" "r \<noteq> - 1" "headers_clean hs" "CHR 0x0A \<notin> set line"
  shows "headers_clean hs'" "headers_chars hs' = headers_chars hs + length line"
proof -
  obtain as k v where hs: "hs = as @ [(k, v)]" using assms(1,2) by (cases hs rule: rev_cases) (auto simp: evhttp_append_to_last_header_def)
  then have "hs' = as @ [(k, v @ line)]" using assms(1) by (auto simp: evhttp_append_to_last_header_def)
  then show "headers_clean hs'" "headers_chars hs' = headers_chars hs + length line"
    using assms(3,4) hs by (auto simp: headers_clean_def headers_chars_def)
qed

lemma add_header_clean:
  assumes "evhttp_add_header hs k v = (r, hs')" "r \<noteq> - 1" "headers_clean hs" "CHR 0x0A \<notin> set v"
  shows "headers_clean hs'" "headers_chars hs' \<le> headers_chars hs + length k + length v"
proof -
  have h: "hs' = hs @ [(mm_strdup k, mm_strdup v)]" "CHR 0x0D \<notin> set k" "CHR 0x0A \<notin> set k"
    using assms(1,2) by (auto simp: evhttp_add_header_def evhttp_add_header_internal_def split: if_splits)
  moreover have "set (mm_strdup s) \<subseteq> set s" "length (mm_strdup s) \<le> length s" for s
    by (auto simp: mm_strdup_def length_takeWhile_le dest: set_takeWhileD)
  ultimately show "headers_clean hs'" "headers_chars hs' \<le> headers_chars hs + length k + length v"
    using assms(3,4) by (auto simp: headers_clean_def headers_chars_def add_mono)
qed

definition read_safely :: "evhttp_limits option \<Rightarrow> evhttp_request \<Rightarrow> string \<Rightarrow> message_read_status \<times> evhttp_request \<times> string \<Rightarrow> bool" where
  "read_safely con r buf res \<longleftrightarrow> (case res of (st, r', buf') \<Rightarrow>
    (\<exists>used. buf = used @ buf') \<and> headers_clean (input_headers r')
    \<and> headers_chars (input_headers r') + headers_size r \<le> headers_chars (input_headers r) + headers_size r'
    \<and> (st = ALL_DATA_READ \<longrightarrow> \<not> over_headers con (headers_size r')) \<and> (st = MORE_DATA_EXPECTED \<longrightarrow> read_line buf' = None))"

lemma parse_headers_safe: "headers_clean (input_headers r) \<Longrightarrow> read_safely con r buf (parse_headers_loop con r buf)"
proof (induction con r buf rule: parse_headers_loop.induct)
  case (1 con r buf)
  note unfold_loop = parse_headers_loop.simps [of con r buf]
  show ?case
  proof (cases "read_line buf")
    case None
    then show ?thesis using 1(3) unfold_loop by (simp add: read_safely_def)
  next
    case (Some lr)
    obtain line0 rest where lr: "lr = (line0, rest)" by (cases lr)
    define line where "line = c_string line0"
    let ?r1 = "r\<lparr>headers_size := headers_size r + length line0\<rparr>"
    obtain e where e: "buf = line0 @ e @ rest" using read_line_parts(1) Some lr by blast
    have lf: "CHR 0x0A \<notin> set line" and len: "length line \<le> length line0"
      using read_line_parts(2) Some lr c_string_set [of line0] by (auto simp: line_def)
    have stop: "read_safely con r buf (st, ?r1, rest)" if "st \<noteq> MORE_DATA_EXPECTED" "st = ALL_DATA_READ \<longrightarrow> \<not> over_headers con (headers_size ?r1)" for st
      using that 1(3) e by (auto simp: read_safely_def)
    have step: "read_safely con r buf (parse_headers_loop con (?r1\<lparr>input_headers := hs\<rparr>) rest)"
      if "read_safely con (?r1\<lparr>input_headers := hs\<rparr>) rest (parse_headers_loop con (?r1\<lparr>input_headers := hs\<rparr>) rest)"
        "headers_chars hs \<le> headers_chars (input_headers r) + length line0" for hs
      using that e by (auto simp: read_safely_def split: prod.splits)
    consider (long) "over_headers con (headers_size ?r1)" | (empty) "\<not> over_headers con (headers_size ?r1)" "line = []"
      | (fold) "\<not> over_headers con (headers_size ?r1)" "line \<noteq> []" "hd line = CHR '' '' \<or> hd line = CHR 0x09"
      | (plain) "\<not> over_headers con (headers_size ?r1)" "line \<noteq> []" "\<not> (hd line = CHR '' '' \<or> hd line = CHR 0x09)" by blast
    then show ?thesis
    proof cases
      case fold
      obtain x hs where a: "evhttp_append_to_last_header (input_headers r) line = (x, hs)" by fastforce
      then have a': "(x, hs) = evhttp_append_to_last_header (input_headers ?r1) line" by simp
      show ?thesis
      proof (cases "x = - 1")
        case False
        note ih = 1(1) [OF Some lr [symmetric] refl line_def fold refl a' False]
        show ?thesis using step [of hs] ih a False append_last_clean [OF a False 1(3) lf] len fold Some lr
          unfolding unfold_loop by (simp add: Let_def line_def [symmetric])
      qed (use a fold Some lr stop in \<open>simp add: unfold_loop Let_def line_def [symmetric]\<close>)
    next
      case plain
      obtain k v where s: "strsep CHR '':'' line = (k, v)" by fastforce
      show ?thesis
      proof (cases v)
        case (Some w)
        let ?v = "dropWhile (\<lambda>c. c = CHR '' '') w"
        obtain x hs where a: "evhttp_add_header (input_headers r) k ?v = (x, hs)" by fastforce
        then have a': "(x, hs) = evhttp_add_header (input_headers ?r1) k ?v" by simp
        have kw: "length k + length ?v \<le> length line" "CHR 0x0A \<notin> set ?v"
        proof -
          have "line = k @ dropWhile (\<lambda>c. c \<noteq> CHR '':'') line" "w = tl (dropWhile (\<lambda>c. c \<noteq> CHR '':'') line)" "dropWhile (\<lambda>c. c \<noteq> CHR '':'') line \<noteq> []"
            using s Some by (auto simp: strsep_def Let_def split: if_splits)
          then have "line = k @ CHR '':'' # w" using hd_dropWhile [of "\<lambda>c. c \<noteq> CHR '':''" line] by (metis list.collapse)
          then show "length k + length ?v \<le> length line" "CHR 0x0A \<notin> set ?v"
            using lf length_dropWhile_le [of "\<lambda>c. c = CHR '' ''" w] by (auto dest: set_dropWhileD)
        qed
        show ?thesis
        proof (cases "x = - 1")
          case False
          note ih = 1(2) [OF \<open>read_line buf = Some lr\<close> lr [symmetric] refl line_def plain s [symmetric] Some refl a' False]
          show ?thesis using step [of hs] ih a False add_header_clean [OF a False 1(3) kw(2)] kw(1) len plain \<open>read_line buf = Some lr\<close> lr s Some
            unfolding unfold_loop by (simp add: Let_def line_def [symmetric])
        qed (use a plain \<open>read_line buf = Some lr\<close> lr s Some stop in \<open>simp add: unfold_loop Let_def line_def [symmetric]\<close>)
      qed (use plain Some lr s stop in \<open>simp add: unfold_loop Let_def line_def [symmetric]\<close>)
    qed (use Some lr stop in \<open>simp_all add: unfold_loop Let_def line_def [symmetric]\<close>)
  qed
qed

text \<open>
  C18. Whatever a peer sends as headers, reading them returns, takes a part of the buffer from its front, and stores no line feed
  in a key or value and no carriage return in a key; what is stored is no longer than what was counted, and the count is within
  the limit both when all headers were read and, with the unread rest of the buffer, when more are expected.
\<close>

theorem headers_read_safe:
  assumes "headers_clean (input_headers r)" "evhttp_parse_headers (Some con) r buf = (st, r', buf')"
  shows "(\<exists>used. buf = used @ buf') \<and> headers_clean (input_headers r')
    \<and> headers_chars (input_headers r') + headers_size r \<le> headers_chars (input_headers r) + headers_size r'
    \<and> (st = ALL_DATA_READ \<longrightarrow> headers_size r' \<le> max_headers_size con)
    \<and> (st = MORE_DATA_EXPECTED \<longrightarrow> headers_size r' + length buf' \<le> max_headers_size con \<and> read_line buf' = None)"
  using parse_headers_safe [OF assms(1), of "Some con" buf] assms(2)
  by (auto simp: evhttp_parse_headers_def read_safely_def over_headers_def split: prod.splits if_splits)

theorem headers_read_safe_witness:
  "\<exists>r' buf'. evhttp_parse_headers (Some some_limits) evhttp_request_new (''a: b'' @ crlf @ ''c'') = (MORE_DATA_EXPECTED, r', buf')
     \<and> input_headers r' = [(''a'', ''b'')] \<and> headers_size r' + length buf' \<le> 1000"
proof -
  have c: "headers_clean (input_headers evhttp_request_new)" by (simp add: headers_clean_def evhttp_request_new_def)
  obtain st r' buf' where p: "evhttp_parse_headers (Some some_limits) evhttp_request_new (''a: b'' @ crlf @ ''c'') = (st, r', buf')"
    using prod_cases3 by blast
  have "evhttp_parse_headers (Some some_limits) evhttp_request_new (''a: b'' @ crlf @ ''c'') =
    (MORE_DATA_EXPECTED, evhttp_request_new\<lparr>headers_size := 4, input_headers := [(''a'', ''b'')]\<rparr>, ''c'')"
    by (simp add: evhttp_parse_headers_def parse_headers_loop.simps read_line_Cons c_string_def over_headers_def some_limits_def strsep_def add_header_ok
        evhttp_request_new_def)
  then show ?thesis using headers_read_safe [OF c p] p by (auto simp: some_limits_def)
qed

text \<open>
  Where messages are understood too generously or not at all: versions may be negative and are cut to eight bits; the method CONNECT is
  written but not read; the phrase of code 307 is given to 306; sizes of chunks may have a sign or the prefix \<open>0x\<close>, and a line
  with one blank counts as the last chunk; lengths of bodies may have a sign; and a continuation line may bring a bare carriage return into a
  value, which a header line may not.
\<close>

theorem message_flaws:
  "evhttp_parse_http_version ''HTTP/-3.256'' req = Some (0, req\<lparr>major := - 3, minor := 0\<rparr>)
   \<and> method_type (the (evhttp_method EVHTTP_REQ_CONNECT)) = EVHTTP_REQ_UNKNOWN
   \<and> evhttp_response_phrase_internal 306 = ''Temporary Redirect'' \<and> evhttp_response_phrase_internal 307 = ''Redirection''
   \<and> strtoll_end 16 ''+0x2'' = (2, []) \<and> strtoll_end 10 ''+5'' = (5, [])
   \<and> fst (evhttp_handle_chunked_read cancels some_limits (evhttp_request_new\<lparr>ntoread := - 1\<rparr>) ('' '' @ crlf)) = ALL_DATA_READ
   \<and> fst (evhttp_parse_headers None evhttp_request_new (''a: '' @ [CHR 0x0D] @ ''b'' @ crlf @ crlf)) = DATA_CORRUPTED
   \<and> input_headers (fst (snd (evhttp_parse_headers None evhttp_request_new (''a: '' @ crlf @ '' '' @ [CHR 0x0D] @ ''b'' @ crlf @ crlf)))) =
       [(''a'', '' '' @ [CHR 0x0D] @ ''b'')]"
proof -
  have "version_numbers ''HTTP/-3.256'' = Accepted (- 3, 256)" by code_simp
  moreover have "signed_char (- 3) = - 3" "signed_char 256 = 0" by (simp_all add: signed_char_def signed_of_int signed_take_bit_int_eq_self)
  ultimately have "evhttp_parse_http_version ''HTTP/-3.256'' req = Some (0, req\<lparr>major := - 3, minor := 0\<rparr>)"
    by (simp add: evhttp_parse_http_version_def)
  moreover have "method_type (the (evhttp_method EVHTTP_REQ_CONNECT)) = EVHTTP_REQ_UNKNOWN" by (simp add: method_type_def)
  moreover have "evhttp_response_phrase_internal 306 = ''Temporary Redirect''" "evhttp_response_phrase_internal 307 = ''Redirection''"
    by code_simp+
  moreover have s: "strtoll_end 16 ''+0x2'' = (2, [])" "strtoll_end 10 ''+5'' = (5, [])" "strtoll_end 16 '' '' = (0, '' '')"
    by (simp_all add: strtoll_end_def strtoll_def scan_number_def strip_0x_def is_space_def digit_value_def)
  moreover have "fst (evhttp_handle_chunked_read cancels some_limits (evhttp_request_new\<lparr>ntoread := - 1\<rparr>) ('' '' @ crlf)) = ALL_DATA_READ"
    using read_line_crlf [of "'' ''" "[]"] s(3)
    by (subst evhttp_handle_chunked_read.simps) (simp add: EV_SSIZE_MAX_def c_string_def Let_def evhttp_request_new_def some_limits_def)
  moreover have "fst (evhttp_parse_headers None evhttp_request_new (''a: '' @ [CHR 0x0D] @ ''b'' @ crlf @ crlf)) = DATA_CORRUPTED"
    by (simp add: evhttp_parse_headers_def parse_headers_loop.simps read_line_Cons c_string_def over_headers_def strsep_def evhttp_add_header_def
        evhttp_header_is_valid_value.simps at0_def)
  moreover have "input_headers (fst (snd (evhttp_parse_headers None evhttp_request_new (''a: '' @ crlf @ '' '' @ [CHR 0x0D] @ ''b'' @ crlf @ crlf)))) =
       [(''a'', '' '' @ [CHR 0x0D] @ ''b'')]"
    by (simp add: evhttp_parse_headers_def parse_headers_loop.simps read_line_Cons c_string_def over_headers_def strsep_def add_header_ok
        evhttp_append_to_last_header_def evhttp_request_new_def)
  ultimately show ?thesis by simp
qed

end
