(* ===== verification/Spec2Isabelle.thy ===== *)
theory Spec2Isabelle
  imports Packets Processor Path Serialize Unique_ID Ini_File Sha1 Tcp_Client Time_Util Worker_Timers
    Sys_String Tiny_MT Sys_Timer Event_Loop Ev_Buffer_Search Ev_Buffer_Space Ev_Tagging Ev_Dns_Packet Http_Message
begin

text \<open>
  Verification of the client side of CocInside: the networking core of the game client
  (\<open>CocTest/Classes/TcpNetwork\<close>, \<open>CocTest/Classes/Packet\<close>), its serialization library (\<open>Ssu\<close>) and the
  utility library it is built on (\<open>System\<close>).

  \<^bold>\<open>How the parts work together.\<close> A message is an object with a generated \<open>packBuffer\<close> and \<open>unpackBuffer\<close>
  on top of \<open>Ssu\<close>: tagged fields whose integers are varints. \<open>Builder\<close> puts the size and the opcode in
  front of it and the connection \<open>ClientNet\<close> sends it through a \<open>TcpSocket\<close>. In the other direction
  \<open>ClientNet::runRecvMsg\<close> reads from the socket into a buffer, cuts packets out of it and copies them to
  a data buffer, \<open>Processor::parseInit\<close> takes a packet from there, decrypts it, looks its handler up by
  the opcode and pushes a message into the double-buffered \<open>MsgQueue\<close>, from which the consumer thread
  fetches. \<open>System\<close> adds paths, text parsing, configuration files, a text-safe serializer, SHA-1 and an
  identifier pool.

  \<^bold>\<open>Theories.\<close>
    \<^item> \<open>Prelude\<close>: the integer types of \<open>Config.h\<close> as words, bytes, little-endian layout, \<open>size_t\<close>
      subtraction, shared facts on words and lists.
    \<^item> \<open>Ssu_Varint\<close>: the integer encodings of \<open>Ssu/SsuUtils.h\<close>. \<open>Undef\<close> is a shift beyond the width or a
      read outside the memory, \<open>Fail\<close> a \<open>false\<close> result.
    \<^item> \<open>Ssu_Containers\<close>: \<open>RepeatedObject\<close> (\<open>Ssu/SsuRepeated.h\<close>) with its inline array that moves to the heap,
      and \<open>ReferredObject\<close> (\<open>Ssu/SsuReferred.h\<close>); locale \<open>seq_container\<close>.
    \<^item> \<open>Ssu_Codec\<close>: all fields of \<open>Ssu/SsuUtils.h\<close> and \<open>Ssu/SsuObject.h\<close>; the locales \<open>field_decoder\<close> (a decoder
      makes progress), \<open>field_codec\<close> (it inverts its encoder, whose size function is exact) and
      \<open>ssu_object\<close>, interpreted for all ten scalar types and the packet classes.
    \<^item> \<open>Net_Socket\<close>: \<open>Socket\<close> and \<open>TcpSocket\<close> over the system calls as a record of functions.
    \<^item> \<open>Client_Net\<close>: \<open>ClientNet\<close>, with the reference framing \<open>frames\<close> of a byte stream.
    \<^item> \<open>Packets\<close>: the packet classes of \<open>PacketsCtoS\<close> and \<open>PacketsStoC\<close>, and \<open>Builder\<close>.
    \<^item> \<open>Msg_Queue\<close>: \<open>MsgQueue\<close> and \<open>Event\<close> as a step relation of producers and one consumer.
    \<^item> \<open>Processor\<close>: \<open>Processor\<close> and the registration of handlers.
    \<^item> \<open>Path\<close>: \<open>System/Path\<close> and \<open>System/Unix/PathImpl\<close>, in Unix, Windows and VMS notation.
    \<^item> \<open>Sys_Text\<close>: \<open>StringTokenizer\<close>, \<open>NumberConv\<close>, \<open>CsvParser\<close>.
    \<^item> \<open>Serialize\<close>: \<open>SerializeInfo\<close> and \<open>DeserializeInfo\<close>.
    \<^item> \<open>Unique_ID\<close>: the identifier pool; locale \<open>id_pool\<close>.
    \<^item> \<open>Ini_File\<close>: \<open>IniFile\<close> over a case-insensitive \<open>std::map\<close>; locale \<open>ordered_dict\<close>.
    \<^item> \<open>Sha1\<close>: \<open>SHA1Engine\<close> and \<open>DigestEngine\<close>, with the standard as the reference.
    \<^item> \<open>Tcp_Client\<close>: \<open>Network/TcpClient\<close> and \<open>Network/TcpAction\<close>, the sessions and the action queue of the
      event-driven client, over libevent as a record of functions and an explicit store of sockets.
    \<^item> \<open>Worker_Timers\<close>: the timers of \<open>Worker/Base\<close>.
    \<^item> \<open>Time_Util\<close>: \<open>System/TimeUtil\<close>, the day boundaries in 32-bit seconds.
    \<^item> \<open>Utf\<close>: the conversions between encodings of \<open>System/Utf.inl\<close>; locale \<open>utf_codec\<close>, interpreted for UTF-8 and UTF-16.
    \<^item> \<open>Sys_String\<close>: the class \<open>String\<close> over UTF-32 characters.
    \<^item> \<open>Tiny_MT\<close>: the generators of \<open>System/TinyMT\<close> and the class \<open>Random\<close>.
    \<^item> \<open>Heap_Array\<close>: binary heaps in an array; locale \<open>heap_order\<close>, interpreted for the two users below.
    \<^item> \<open>Sys_Timer\<close>: the heap timers of \<open>System/Timer\<close>, over a store of timer structures.
    \<^item> \<open>Event_Heap\<close>: the timeout heap of libevent (\<open>event/minheap-internal.h\<close>), whose events know their position.
    \<^item> \<open>Event_Base\<close>: events, queues, adding, deleting, activating and timeouts (\<open>event/event.c\<close>) with the invariant
      \<open>base_ok\<close> on heap, queues, flags and counters.
    \<^item> \<open>Event_Loop\<close>: \<open>event_base_loop\<close> and what it guarantees, over back end, clock and callbacks as functions.
    \<^item> \<open>Ev_Buffer\<close>: the evbuffer of libevent (\<open>event/buffer.c\<close>): chains, adding, prepending, referencing, draining, copying,
      callbacks; the invariant \<open>evb_ok\<close> and the abstraction to the bytes it holds.
    \<^item> \<open>Ev_Buffer_Move\<close>: moving between buffers and pulling up; locale \<open>byte_buffer\<close>, interpreted on the evbuffer.
    \<^item> \<open>Ev_Buffer_Search\<close>: positions, searching, ends of lines, reading lines.
    \<^item> \<open>Ev_Buffer_Space\<close>: making room, reserving and committing, reading from and writing to a socket.
    \<^item> \<open>Ev_Tagging\<close>: the tagged records of \<open>event/event_tagging.c\<close> on top of the evbuffer; locale \<open>stream_codec\<close>.
    \<^item> \<open>Ev_Dns\<close>: names in DNS packets (\<open>event/evdns.c\<close>): writing with compression, reading with pointers, building queries.
    \<^item> \<open>Ev_Dns_Packet\<close>: parsing queries and replies, the replies of a server and their packets.
    \<^item> \<open>Ev_Util\<close>: the text side of \<open>event/evutil.c\<close>: character tables, IPv4 and IPv6 addresses as text, comparing addresses.
    \<^item> \<open>Http_Uri\<close>: the URIs of \<open>event/http.c\<close>: parsing, joining, setting parts.
    \<^item> \<open>Http_Text\<close>: escaping, encoding and decoding, lists of headers and queries of \<open>event/http.c\<close>.
    \<^item> \<open>Http_Server\<close>: the server objects of \<open>event/http.c\<close>: virtual hosts, aliases and callbacks.
    \<^item> \<open>Http_Message\<close>: reading and writing first lines, headers, chunked bodies and replies.
    \<^item> this theory: what spans builder, connection, processor and queue.

  \<^bold>\<open>What the lemmas show.\<close> Encoding and decoding are inverse on every branch of the integer, string,
  nested and packed fields, on whole objects and on packets end to end (\<open>login_roundtrip\<close>); sizes are
  exact, so packing stays inside its buffer. The receive loop implements the reference framing and
  never overruns its buffer, whatever the peer sends; it does not return exactly when a zero size
  field is met. The queue loses, duplicates and reorders nothing under any interleaving. Paths are
  normalised by parsing and by every operation, and printing is inverted by parsing. The text formats
  (CSV, INI, serializer, numbers, tokens) round trip under the conditions stated. The SHA-1 engine is
  the standard's function of the concatenated input. Session ids find the session they were given for,
  timers are armed as asked, and days start at local midnight. Text survives the conversions between the
  Unicode encodings, which follow the standard but for the flaws stated; the generators never reach the zero
  state and random numbers stay in their ranges. Both timer heaps implement priority queues: \<open>Timer::process\<close>
  makes exactly the calls that are due, in order, and the event loop of libevent fires exactly the events that
  are due, waits exactly until the next one, never runs a deleted event and keeps its structure consistent. The chained
  evbuffer behaves like a list of bytes under every sequence of its operations: reading appends what arrived, writing
  takes from the front, searching and reading lines see through the borders of the chains. A stream of tagged records is read back as it was marshalled. A DNS query built by the
  client is parsed by the server, answered, and the answer handed to the request that asked; neither parser reads outside its
  packet but for the labels at its end. Addresses survive printing and parsing in every form IPv6 has; every URI the parser accepts is
  joined to a text that parses to it, with all parts of the right form, and encoded values survive a query. Requests and replies of HTTP are read
  as they were written, chunked bodies in whatever pieces they arrive, and headers from any peer stay within the limits. Where the code misbehaves the behaviour is a
  theorem too: \<open>framing_disagrees_with_builder\<close>, \<open>varint_undefined_iff\<close>, \<open>nested_length_not_checked\<close>,
  \<open>addHandler_registers_iff\<close>, \<open>msgQueue_missed_wakeup\<close>, \<open>ini_comment_is_a_key\<close>, \<open>serialize_too_long\<close>,
  \<open>csv_last_quoted_field_lost\<close>, \<open>double_free_shrinks\<close>, \<open>disconnected_session_dangles\<close>,
  \<open>actions_run_again\<close>, \<open>periodic_null_event\<close>, \<open>day_start_far_east_wrong\<close>, \<open>random_flaws\<close>, \<open>timer_process_flaws\<close>,
  \<open>utf_encoders_standard\<close>, \<open>alloc_size_flaws\<close>, \<open>evbuffer_flaws\<close>, \<open>tagging_flaws\<close>, \<open>dns_name_flaws\<close>, \<open>inet_text_flaws\<close>, \<open>uri_flaws\<close>, \<open>message_flaws\<close>.

  \<^bold>\<open>Loops.\<close> Loops that end on every input are total functions with a measure. Those that may not are
  partial functions into \<open>option\<close> where \<open>None\<close> means that the code does not return: \<open>split_loop\<close> and
  \<open>recv_loop\<close> of \<open>runRecvMsg\<close>, the loop over packed fields (proved to return: \<open>packed_loops_return\<close>),
  \<open>parseUnix\<close> (which calls itself through the home directory), \<open>process_loop\<close> of the timers (proved to return
  under \<open>can_process\<close>), \<open>timeout_loop\<close> of libevent (proved to return), \<open>alloc_loop64\<close> of \<open>evbuffer_chain_new\<close> (which may run forever),
  \<open>crlf_loop\<close> of \<open>evbuffer_search_eol\<close> (proved to return) and the loops around user callbacks in
  \<open>Event_Base\<close> and \<open>Event_Loop\<close>. No fuel is used.

  \<^bold>\<open>Not modelled.\<close> Operating system and C library calls are parameters (\<open>os\<close>, \<open>env\<close>, \<open>backend\<close>) or, for string
  conversion, written out; the event-driven client takes libevent as a parameter (\<open>libevent\<close>). Freeing memory, logging
  and console output are left out. Of the repository, the generated Lua bindings and Lua support, the scenes and
  layers under \<open>View\<close>, the cocos2d-x GUI \<open>extensions\<close> and the Win32 implementations are not modelled. Of the vendored
  \<open>event\<close> library the event base, its loop, the buffers, the tagged records, the DNS packets, addresses as text and the URIs,
  virtual hosts and messages of HTTP are; buffered sockets, the states of the connections of HTTP, the name servers, timeouts and search domains of DNS and the back ends are not, nor common timeouts and thread support, which the client does not use. Of the buffers, pinned chains, chains on
  files, \<open>evbuffer_peek\<close>, formatted output and locks are left out. \<open>TcpNetwork/ClientSocket\<close> does not
  compile. \<open>StringFormatter\<close>, \<open>File\<close> and the sorted containers of the \<open>extensions\<close> are the next candidates.
\<close>

section \<open>From the builder to the processor\<close>

lemma packet_head:
  assumes "length body < 2 ^ 24"
  shows "of_le32 (packet o1 body @ rest) AND 0x00FFFFFF = word_of_nat (length body)"
    and "drop_bit 24 (of_le32 (packet o1 body @ rest)) = 0"
    and "of_le16 (drop 4 (packet o1 body @ rest)) = o1"
proof -
  show "of_le32 (packet o1 body @ rest) AND 0x00FFFFFF = word_of_nat (length body)"
    using le64_low3 [OF assms, of 0 "le16 o1 @ body @ rest"] by (simp add: packet_def)
  show "drop_bit 24 (of_le32 (packet o1 body @ rest)) = 0"
    by (rule bit_word_eqI)
      (auto simp: packet_def take3_le64 of_le32_def bit_simps dest: bit_imp_le_length)
  have "drop 4 (packet o1 body @ rest) = le16 o1 @ body @ rest"
    by (simp add: packet_def take3_le64)
  then show "of_le16 (drop 4 (packet o1 body @ rest)) = o1" by (simp add: of_le16_le16)
qed

lemma unat_of_nat_24:
  assumes "n < 2 ^ 24"
  shows "unat (word_of_nat n :: UInt32) = n" "uint (word_of_nat n :: UInt32) = int n"
proof -
  show "unat (word_of_nat n :: UInt32) = n" using assms by (simp add: unat_of_nat)
  then show "uint (word_of_nat n :: UInt32) = int n" by (metis uint_nat)
qed

lemma parseInit_packet:
  assumes net: "client_net_ok net" "m_cbDataBuf net = packet o1 body @ rest"
    and h: "unat o1 < length (initHandlers p)" "initHandlers p ! unat o1 = Some h"
  shows "\<exists>net'. parseInit True (packet o1 body) (int (length (packet o1 body))) data addr p net =
    Some (True, p\<lparr>msgs := pushMsg \<lparr>mhandler = h, msize = word_of_nat (length body), sessionId = data,
      fromGateway = 0xFFFFFFFF, remoteAddr = addr, mbody = body\<rparr> (msgs p)\<rparr>, net')"
proof -
  have len: "6 + length body + length rest = 102400"
    using net by (simp add: client_net_ok_def IN_MAX_POOL_SIZE_def)
  then have b24: "length body < 2 ^ 24" by simp
  obtain net' where dr: "drainDataBuf 6 net = Some net'"
    "length (m_cbDataBuf net') = 102400" "take (length body) (m_cbDataBuf net') = body"
    using drainDataBuf_eq [of 6 net] net len
    by (auto simp: client_net_ok_def IN_MAX_POOL_SIZE_def packet_def take3_le64)
  then have "copyDataBuf (int (length body)) net' = Some body" using len by (simp add: copyDataBuf_def)
  then show ?thesis
    using packet_head [OF b24, of o1 "[]"] dr(1) h
    by (simp add: parseInit_def Let_def unat_of_nat_24 [OF b24] decryptPacket_def)
qed


lemma nPacketSize_packet: "length body < 2 ^ 24 \<Longrightarrow> nPacketSize (packet o1 body @ rest) = length body mod 2 ^ 16"
  by (simp only: nPacketSize_def packet_head) (simp add: unsigned_ucast_eq unat_of_nat take_bit_eq_mod)

text \<open>
  C1. End to end: a login packet built by \<open>Builder\<close> and present at the start of the client's data buffer
  is parsed by \<open>parseInit\<close> into one message that is appended to the queue, carries the registered
  handler and the session data, and whose body unpacks to the login object that was packed.
\<close>

theorem login_roundtrip:
  assumes "client_net_ok net" "mq_current (msgs p) = q" "length (msgQueue (msgs p)) = 2" "currQueue (msgs p) < 2"
    and "unat o1 < length (initHandlers p)" "initHandlers p ! unat o1 = Some h"
    and "builder_data True CSUserLogin_class (Builder o1 x) = Some (s, b)"
    and "m_cbDataBuf net = s @ rest"
  shows "\<exists>p' net' m. parseInit True s (int (length s)) data addr p net = Some (True, p', net')
    \<and> mq_current (msgs p') = q @ [m] \<and> mhandler m = h \<and> sessionId m = data \<and> remoteAddr m = addr
    \<and> object_unpack CSUserLogin_class (mbody m) (unat (msize m)) x0 = Ok x \<lparr>buf = [], leftSize = 0\<rparr>"
proof -
  let ?body = "opackBuffer CSUserLogin_class [] x"
  have s: "s = packet o1 ?body"
    using assms(7) builder_pack_eq [of CSUserLogin_class "Builder o1 x" _ ?body] cs_login.object_pack_eq
    by (simp add: builder_data_def ensure_packed_def Builder_def)
  have "length ?body < 2 ^ 24"
    using assms(1,8) by (simp add: s client_net_ok_def IN_MAX_POOL_SIZE_def)
  moreover have "object_unpack CSUserLogin_class ?body (length ?body) x0 = Ok x \<lparr>buf = [], leftSize = 0\<rparr>"
    by (rule cs_login.object_roundtrip) (simp add: cs_login.object_pack_eq)
  moreover have "mq_current (pushMsg m (msgs p)) = q @ [m]" for m
    using assms(2,3,4) by (simp add: pushMsg_def pushMsgNoLock_def mq_current_def Let_def)
  ultimately show ?thesis
    using parseInit_packet [OF assms(1) assms(8) [unfolded s] assms(5,6), of data addr]
    by (force simp: s unat_of_nat_24)
qed

text \<open>A concrete run: a login with result 300, opcode 1 and handler 7, from an otherwise empty buffer.\<close>

lemma login_300_data:
  "builder_data True CSUserLogin_class (Builder 1 \<lparr>result = 300\<rparr>) =
     Some ([3, 0, 0, 0, 1, 0, 8, 172, 2], \<lparr>stream = Some [3, 0, 0, 0, 1, 0, 8, 172, 2], bop = 1, content = \<lparr>result = 300\<rparr>\<rparr>)"
proof -
  have "opackBuffer CSUserLogin_class [] \<lparr>result = 300\<rparr> = [8, 172, 2]"
    by (simp add: CSUserLogin_class_def CSUserLogin_packBuffer_def packUInt32Tag_def packTag_def packUInt32_def packVarint.simps)
  then show ?thesis
    using builder_pack_eq [of CSUserLogin_class "Builder 1 \<lparr>result = 300\<rparr>" _ "[8, 172, 2]"] cs_login.object_pack_eq
    by (simp add: builder_data_def ensure_packed_def Builder_def packet_def take3_le64 le16_def)
qed

theorem login_roundtrip_witness:
  "\<exists>p' net' m. parseInit True [3, 0, 0, 0, 1, 0, 8, 172, 2] 9 5 6 (addHandler 1 1 7 Processor)
      (ClientNet\<lparr>m_cbDataBuf := [3, 0, 0, 0, 1, 0, 8, 172, 2] @ replicate 102391 0\<rparr>) = Some (True, p', net')
    \<and> mq_current (msgs p') = [m] \<and> mhandler m = 7 \<and> sessionId m = 5 \<and> remoteAddr m = 6
    \<and> object_unpack CSUserLogin_class (mbody m) (unat (msize m)) \<lparr>result = 0\<rparr> =
        Ok \<lparr>result = 300\<rparr> \<lparr>buf = [], leftSize = 0\<rparr>"
proof -
  let ?net = "ClientNet\<lparr>m_cbDataBuf := [3, 0, 0, 0, 1, 0, 8, 172, 2] @ replicate 102391 0\<rparr>"
  let ?p = "addHandler 1 1 7 Processor"
  have "client_net_ok ?net" by (simp add: client_net_ok_def ClientNet_def buffer_sizes)
  moreover have "mq_current (msgs ?p) = []" "length (msgQueue (msgs ?p)) = 2" "currQueue (msgs ?p) < 2"
    "unat (1 :: UInt16) < length (initHandlers ?p)" "initHandlers ?p ! unat (1 :: UInt16) = Some 7"
    by (simp_all add: addHandler_def add_to_table_def resize_table_def Processor_def MsgQueue_def mq_current_def)
  ultimately show ?thesis
    using login_roundtrip [of ?net ?p "[]" 1 7 _ _ _ "replicate 102391 0" 5 6 "\<lparr>result = 0\<rparr>", OF _ _ _ _ _ _ login_300_data]
    by simp
qed




end
